(* ===== verification/Prelude.thy ===== *)
theory Prelude
  imports
    Main
    "HOL-Library.Word"
    "HOL-Library.Monad_Syntax"
    "HOL-Library.Signed_Division"
    "HOL-Library.While_Combinator"
    "HOL-Library.Multiset"
begin

text \<open>
  Shared vocabulary of the development: the integer types of \<open>common/types/types.h\<close>, C
  arrays with checked access, C character strings, exceptions as values of a sum type, and
  the generic lemmas on lists, words and loops that the component theories use.

  Conventions.
  \<^item> \<open>uint8\<close>, \<open>uint16\<close>, \<open>uint32\<close> are words of that width. A C \<open>int\<close> is an unbounded
    \<open>int\<close>; where its 32-bit range matters, a bounds lemma shows that the values stay inside
    it, or the conversion is written out (\<open>to_int32\<close>). \<open>/\<close> and \<open>%\<close> on signed operands are
    \<open>sdiv\<close> and \<open>smod\<close>, which truncate towards zero as in C.
  \<^item> A value of type \<open>'a option\<close> returned by an operation on arrays is \<open>None\<close> when the code has
    no defined behaviour there: an access outside the array, or a loop that does not end.
  \<^item> A thrown exception is \<open>Inl e\<close> in a sum type.
  \<^item> A C string is the list of its character values (signed \<open>char\<close>, -128 to 127) without the
    terminating zero; \<open>cget\<close> reads the terminator at the end.
\<close>

unbundle bit_operations_syntax

section \<open>Integer types\<close>

type_synonym u8 = "8 word"
type_synonym u16 = "16 word"
type_synonym u32 = "32 word"

abbreviation INT_MAX :: int where
  "INT_MAX \<equiv> 2147483647"

abbreviation INT_MIN :: int where
  "INT_MIN \<equiv> - 2147483648"

definition in_int32 :: "int \<Rightarrow> bool" where
  "in_int32 x \<longleftrightarrow> INT_MIN \<le> x \<and> x \<le> INT_MAX"

text \<open>The conversion \<open>(int)x\<close> from a wider or an unsigned type.\<close>

definition to_int32 :: "int \<Rightarrow> int" where
  "to_int32 x = signed_take_bit 31 x"

text \<open>The conversion \<open>(char)x\<close>.\<close>

definition to_char :: "int \<Rightarrow> int" where
  "to_char x = signed_take_bit 7 x"

text \<open>Addresses of heap objects, and the kinds of creatures (\<open>creature/creature.h\<close>).\<close>

type_synonym addr = nat

datatype creature_type = PLAYER | MONSTER | NPC

named_theorems range_simps
named_theorems vec_simps
named_theorems buffer_simps

lemma to_int32_id [range_simps]: "in_int32 x \<Longrightarrow> to_int32 x = x"
  unfolding in_int32_def to_int32_def by (rule signed_take_bit_int_eq_self) auto

lemma to_int32_range [range_simps]: "in_int32 (to_int32 x)"
  using signed_take_bit_int_greater_eq_minus_exp [of 31 x] signed_take_bit_int_less_exp [of 31 x]
  by (simp add: in_int32_def to_int32_def)

lemma to_char_id [range_simps]: "- 128 \<le> x \<Longrightarrow> x \<le> 127 \<Longrightarrow> to_char x = x"
  unfolding to_char_def by (rule signed_take_bit_int_eq_self) auto

text \<open>On non-negative operands the truncating division is the mathematical one.\<close>

lemma sdiv_nonneg [range_simps]: "0 \<le> a \<Longrightarrow> 0 < b \<Longrightarrow> a sdiv b = a div (b :: int)"
  by (simp add: signed_divide_int_def sgn_if)

lemma smod_nonneg [range_simps]: "0 \<le> a \<Longrightarrow> 0 < b \<Longrightarrow> a smod b = a mod (b :: int)"
  by (auto simp: signed_modulo_int_def sgn_if)

section \<open>Arrays with checked access\<close>

definition arr_get :: "'a list \<Rightarrow> int \<Rightarrow> 'a option" where
  "arr_get xs i = (if 0 \<le> i \<and> i < int (length xs) then Some (xs ! nat i) else None)"

definition arr_set :: "'a list \<Rightarrow> int \<Rightarrow> 'a \<Rightarrow> 'a list option" where
  "arr_set xs i x = (if 0 \<le> i \<and> i < int (length xs) then Some (xs[nat i := x]) else None)"

text \<open>\<open>memcpy\<close> of \<open>src\<close> to position \<open>i\<close> of the array \<open>dst\<close>, inside the array.\<close>

definition arr_copy :: "'a list \<Rightarrow> nat \<Rightarrow> 'a list \<Rightarrow> 'a list" where
  "arr_copy dst i src = take i dst @ src @ drop (i + length src) dst"

lemma arr_get_Some [simp]:
  "0 \<le> i \<Longrightarrow> i < int (length xs) \<Longrightarrow> arr_get xs i = Some (xs ! nat i)"
  by (simp add: arr_get_def)

lemma arr_set_Some [simp]:
  "0 \<le> i \<Longrightarrow> i < int (length xs) \<Longrightarrow> arr_set xs i x = Some (xs[nat i := x])"
  by (simp add: arr_set_def)

lemma arr_get_eq_Some: "arr_get xs i = Some x \<longleftrightarrow> 0 \<le> i \<and> i < int (length xs) \<and> xs ! nat i = x"
  by (auto simp: arr_get_def)

lemma arr_set_eq_Some:
  "arr_set xs i x = Some ys \<longleftrightarrow> 0 \<le> i \<and> i < int (length xs) \<and> ys = xs[nat i := x]"
  by (auto simp: arr_set_def)

lemma length_arr_copy [simp]:
  "i + length src \<le> length dst \<Longrightarrow> length (arr_copy dst i src) = length dst"
  by (simp add: arr_copy_def)

lemma nth_arr_copy:
  assumes "i + length src \<le> length dst" "k < length dst"
  shows "arr_copy dst i src ! k = (if i \<le> k \<and> k < i + length src then src ! (k - i) else dst ! k)"
  using assms by (auto simp: arr_copy_def nth_append min_def)

lemma arr_copy_Nil [simp]: "arr_copy dst i [] = dst"
  by (simp add: arr_copy_def)

lemma take_arr_copy:
  "i + length src \<le> length dst \<Longrightarrow> take (i + length src) (arr_copy dst i src) = take i dst @ src"
  by (simp add: arr_copy_def)

lemma take_arr_copy_before:
  "n \<le> i \<Longrightarrow> i + length src \<le> length dst \<Longrightarrow> take n (arr_copy dst i src) = take n dst"
  by (simp add: arr_copy_def min_def)

section \<open>C strings\<close>

type_synonym cstring = "int list"

definition cget :: "cstring \<Rightarrow> nat \<Rightarrow> int" where
  "cget s i = (if i < length s then s ! i else 0)"

definition is_cchar :: "int \<Rightarrow> bool" where
  "is_cchar c \<longleftrightarrow> - 128 \<le> c \<and> c \<le> 127 \<and> c \<noteq> 0"

text \<open>A string holds characters of type \<open>char\<close>, none of them the terminator.\<close>

definition is_cstring :: "cstring \<Rightarrow> bool" where
  "is_cstring s \<longleftrightarrow> list_all is_cchar s"

text \<open>String literals of the source.\<close>

definition cstr :: "string \<Rightarrow> cstring" where
  "cstr s = map (\<lambda>c. to_char (of_char c)) s"

lemma cget_Nil [simp]: "cget [] i = 0"
  by (simp add: cget_def)

lemma cget_Cons_0 [simp]: "cget (c # s) 0 = c"
  by (simp add: cget_def)

lemma cget_Cons_Suc [simp]: "cget (c # s) (Suc i) = cget s i"
  by (simp add: cget_def)

lemma is_cstring_Nil [simp]: "is_cstring []"
  by (simp add: is_cstring_def)

lemma is_cstring_Cons [simp]: "is_cstring (c # s) \<longleftrightarrow> is_cchar c \<and> is_cstring s"
  by (simp add: is_cstring_def)

lemma is_cstring_append [simp]: "is_cstring (s @ t) \<longleftrightarrow> is_cstring s \<and> is_cstring t"
  by (simp add: is_cstring_def)

lemma cget_eq_0_iff: "is_cstring s \<Longrightarrow> cget s i = 0 \<longleftrightarrow> length s \<le> i"
  by (auto simp: cget_def is_cstring_def is_cchar_def list_all_length)

lemma is_cstring_not_0: "is_cstring s \<Longrightarrow> 0 \<notin> set s"
  by (auto simp: is_cstring_def is_cchar_def list_all_iff)

section \<open>Exceptions\<close>

text \<open>Sequencing of code that may throw.\<close>

definition sbind :: "'e + 'a \<Rightarrow> ('a \<Rightarrow> 'e + 'b) \<Rightarrow> 'e + 'b" where
  "sbind m f = (case m of Inl e \<Rightarrow> Inl e | Inr a \<Rightarrow> f a)"

lemma sbind_Inl [simp]: "sbind (Inl e) f = Inl e"
  by (simp add: sbind_def)

lemma sbind_Inr [simp]: "sbind (Inr a) f = f a"
  by (simp add: sbind_def)

lemma sbind_eq_Inr: "sbind m f = Inr b \<longleftrightarrow> (\<exists>a. m = Inr a \<and> f a = Inr b)"
  by (cases m) auto

section \<open>Words\<close>

lemma word_bytes_eq_iff:
  fixes a b :: "'a::len word"
  assumes "\<And>n. n < LENGTH('a) \<Longrightarrow> bit a n = bit b n"
  shows "a = b"
  using assms by (simp add: bit_word_eqI)

lemma bit_ucast_u8: "bit (ucast (w :: u8) :: 'a::len word) n \<longleftrightarrow> n < LENGTH('a) \<and> n < 8 \<and> bit w n"
  using bit_imp_le_length [of w n] by (auto simp: bit_simps)

lemma unat_of_nat_id: "n < 2 ^ LENGTH('a) \<Longrightarrow> unat (of_nat n :: 'a::len word) = n"
  by (simp add: unat_of_nat take_bit_nat_eq_self)

lemma sint_small_u32: "uint (w :: u32) < 2 ^ 31 \<Longrightarrow> sint w = uint w"
  unfolding sint_uint by (rule signed_take_bit_int_eq_self) (simp_all add: order.trans [OF _ uint_ge_0])

section \<open>Loops\<close>

text \<open>A \<open>while\<close> loop with an invariant and a measure returns, and its result satisfies the invariant.\<close>

lemma while_option_total:
  fixes m :: "'s \<Rightarrow> nat"
  assumes "P s" "\<And>s. P s \<Longrightarrow> b s \<Longrightarrow> P (c s) \<and> m (c s) < m s"
  shows "\<exists>t. while_option b c s = Some t \<and> P t \<and> \<not> b t"
proof -
  obtain t where t: "while_option b c s = Some t"
    using measure_while_option_Some [of P b c m s] assms by blast
  moreover have "P t"
    using while_option_rule [of P b c s t] assms t by blast
  ultimately show ?thesis
    using while_option_stop [OF t] by blast
qed

end
