(* ===== verification/Utils.thy ===== *)
theory Utils
  imports Prelude
begin

text \<open>
  \<open>common/utils/utils.cpp\<close>: the random number helper, the character classes and case
  conversions, case-insensitive comparison, character search and the bit sets. \<open>rand()\<close> is a
  parameter, the non-negative value the call returns. \<open>FileExists\<close> asks the file system and is
  not modelled.
\<close>

section \<open>Definitions\<close>

definition random :: "int \<Rightarrow> int \<Rightarrow> int \<Rightarrow> int" where
  "random rand lo hi =
     (let Range = (hi - lo) + 1; Result = lo
      in if Range > 0 then Result + rand smod Range else Result)"

definition isSpace :: "int \<Rightarrow> bool" where
  "isSpace c \<longleftrightarrow> c = 32 \<or> c = 9 \<or> c = 10 \<or> c = 13 \<or> c = 11 \<or> c = 12"

definition isAlpha :: "int \<Rightarrow> bool" where
  "isAlpha c \<longleftrightarrow> (65 \<le> c \<and> c \<le> 90) \<or> (97 \<le> c \<and> c \<le> 122)
     \<or> c = - 0x1C \<or> c = - 0x0A \<or> c = - 0x04 \<or> c = - 0x3C \<or> c = - 0x2A \<or> c = - 0x24 \<or> c = - 0x21"

definition isEngAlpha :: "int \<Rightarrow> bool" where
  "isEngAlpha c \<longleftrightarrow> (65 \<le> c \<and> c \<le> 90) \<or> (97 \<le> c \<and> c \<le> 122)"

definition isDigit :: "int \<Rightarrow> bool" where
  "isDigit c \<longleftrightarrow> 48 \<le> c \<and> c \<le> 57"

definition toLower :: "int \<Rightarrow> int" where
  "toLower c = (if (65 \<le> c \<and> c \<le> 90) \<or> (0xC0 \<le> c \<and> c \<le> 0xDE \<and> c \<noteq> 0xD7) then c + 32 else c)"

definition toUpper :: "int \<Rightarrow> int" where
  "toUpper c = (if (97 \<le> c \<and> c \<le> 122) \<or> (0xE0 \<le> c \<and> c \<le> 0xFE \<and> c \<noteq> 0xF7) then c - 32 else c)"

text \<open>The loops stop at the terminator, which a \<^typ>\<open>cstring\<close> does not hold.\<close>

definition strLower :: "cstring \<Rightarrow> cstring" where
  "strLower s = map (\<lambda>c. to_char (toLower c)) s"

definition strUpper :: "cstring \<Rightarrow> cstring" where
  "strUpper s = map (\<lambda>c. to_char (toUpper c)) s"

text \<open>
  The loop of \<open>stricmp\<close> from index \<open>i\<close>, with \<open>fuel = Max - i\<close> iterations left.
\<close>

fun stricmp_loop :: "nat \<Rightarrow> nat \<Rightarrow> cstring \<Rightarrow> cstring \<Rightarrow> int" where
  "stricmp_loop 0 i s1 s2 = 0"
| "stricmp_loop (Suc fuel) i s1 s2 =
     (let c1 = toLower (cget s1 i); c2 = toLower (cget s2 i)
      in if c1 > c2 then 1
         else if c1 < c2 then - 1
         else if c1 = 0 then 0
         else stricmp_loop fuel (Suc i) s1 s2)"

definition stricmp :: "cstring \<Rightarrow> cstring \<Rightarrow> int \<Rightarrow> int" where
  "stricmp s1 s2 maxLen = stricmp_loop (nat maxLen) 0 s1 s2"

text \<open>
  \<open>strchr\<close>: the position of the first occurrence. A search for the terminator finds the end of
  the string.
\<close>

definition strchr :: "cstring \<Rightarrow> nat \<Rightarrow> int \<Rightarrow> nat option" where
  "strchr s from c = find (\<lambda>i. cget s i = c) [from ..< Suc (length s)]"

definition findFirst :: "cstring \<Rightarrow> int \<Rightarrow> nat option" where
  "findFirst s c = strchr s 0 c"

text \<open>
  The loop of \<open>findLast\<close>: \<open>Current\<close> and \<open>Last\<close>; it restarts \<open>strchr\<close> behind each occurrence.
  \<open>fuel\<close> bounds the iterations; \<open>Suc (Suc (length s))\<close> of them always suffice
  (\<open>findLast_loop_enough\<close>). A search for the terminator itself leaves the string and has no
  defined behaviour.
\<close>

fun findLast_loop :: "nat \<Rightarrow> cstring \<Rightarrow> int \<Rightarrow> nat \<Rightarrow> nat option \<Rightarrow> nat option option" where
  "findLast_loop 0 s c Current Last = None"
| "findLast_loop (Suc fuel) s c Current Last =
     (if length s < Current then None
      else (case strchr s Current c of
              None \<Rightarrow> Some Last
            | Some p \<Rightarrow> findLast_loop fuel s c (p + 1) (Some p)))"

definition findLast :: "cstring \<Rightarrow> int \<Rightarrow> nat option option" where
  "findLast s c = findLast_loop (Suc (Suc (length s))) s c 0 None"

definition CheckBitIndex :: "int \<Rightarrow> int \<Rightarrow> bool" where
  "CheckBitIndex BitSetBytes Index \<longleftrightarrow> Index \<ge> 0 \<and> Index < BitSetBytes * 8"

definition BitMask :: "int \<Rightarrow> u8" where
  "BitMask Index = push_bit (nat (Index smod 8)) 1"

definition CheckBit :: "u8 list \<Rightarrow> int \<Rightarrow> bool option" where
  "CheckBit BitSet Index = do {
     b \<leftarrow> arr_get BitSet (Index sdiv 8);
     Some ((b AND BitMask Index) \<noteq> 0)
   }"

definition SetBit :: "u8 list \<Rightarrow> int \<Rightarrow> u8 list option" where
  "SetBit BitSet Index = do {
     b \<leftarrow> arr_get BitSet (Index sdiv 8);
     arr_set BitSet (Index sdiv 8) (b OR BitMask Index)
   }"

definition ClearBit :: "u8 list \<Rightarrow> int \<Rightarrow> u8 list option" where
  "ClearBit BitSet Index = do {
     b \<leftarrow> arr_get BitSet (Index sdiv 8);
     arr_set BitSet (Index sdiv 8) (b AND NOT (BitMask Index))
   }"

section \<open>Random numbers\<close>

lemma random_in_range:
  assumes "0 \<le> rand" "lo \<le> hi"
  shows "lo \<le> random rand lo hi" "random rand lo hi \<le> hi"
proof -
  have "0 \<le> rand mod (hi - lo + 1)" "rand mod (hi - lo + 1) < hi - lo + 1"
    using assms pos_mod_bound [of "hi - lo + 1" rand] by simp_all
  then show "lo \<le> random rand lo hi" "random rand lo hi \<le> hi"
    using assms by (auto simp: random_def Let_def smod_nonneg)
qed

lemma random_empty_range: "hi < lo \<Longrightarrow> random rand lo hi = lo"
  by (simp add: random_def)

section \<open>Characters\<close>

text \<open>
  On values of type \<open>char\<close> only the English letters change case: the second range of
  \<open>toLower\<close> starts at 0xC0, which a signed \<open>char\<close> cannot reach.
\<close>

lemma toLower_char: "c \<le> 127 \<Longrightarrow> toLower c = (if 65 \<le> c \<and> c \<le> 90 then c + 32 else c)"
  by (auto simp: toLower_def)

lemma toUpper_char: "c \<le> 127 \<Longrightarrow> toUpper c = (if 97 \<le> c \<and> c \<le> 122 then c - 32 else c)"
  by (auto simp: toUpper_def)

lemma toLower_idem [simp]: "toLower (toLower c) = toLower c"
  by (auto simp: toLower_def)

lemma toLower_0_iff [simp]: "toLower c = 0 \<longleftrightarrow> c = 0"
  by (auto simp: toLower_def)

lemma toLower_toUpper: "c \<le> 127 \<Longrightarrow> toLower (toUpper c) = toLower c"
  by (auto simp: toLower_def toUpper_def)

lemma is_cchar_toLower: "is_cchar c \<Longrightarrow> is_cchar (toLower c)"
  by (auto simp: toLower_def is_cchar_def)

lemma is_cchar_to_char: "is_cchar c \<Longrightarrow> to_char c = c"
  by (simp add: is_cchar_def to_char_id)

lemma strLower_eq: "is_cstring s \<Longrightarrow> strLower s = map toLower s"
  by (auto simp: strLower_def is_cstring_def list_all_iff is_cchar_toLower is_cchar_to_char)

lemma is_cstring_strLower: "is_cstring s \<Longrightarrow> is_cstring (strLower s)"
  by (auto simp: strLower_eq) (auto simp: is_cstring_def list_all_iff is_cchar_toLower)

section \<open>Case-insensitive comparison\<close>

lemma cget_map_toLower: "cget (map toLower s) i = toLower (cget s i)"
  by (simp add: cget_def)

lemma stricmp_loop_range: "stricmp_loop n i s t \<in> {- 1, 0, 1}"
  by (induction n arbitrary: i) (auto simp: Let_def)

lemma stricmp_loop_antisym: "stricmp_loop n i t s = - stricmp_loop n i s t"
  by (induction n arbitrary: i) (auto simp: Let_def)

lemma map_drop_cget:
  assumes "is_cstring s"
  shows "map f (drop i s) = (if cget s i = 0 then [] else f (cget s i) # map f (drop (Suc i) s))"
proof (cases "i < length s")
  case True
  then have "drop i s = s ! i # drop (Suc i) s"
    by (rule Cons_nth_drop_Suc [symmetric])
  then show ?thesis
    using True cget_eq_0_iff [OF assms, of i] by (simp add: cget_def)
qed (simp add: cget_def)

text \<open>From position \<open>i\<close> on, the comparison ends with 0 exactly when the rests agree up to case.\<close>

lemma stricmp_loop_0_iff:
  assumes s: "is_cstring s" and t: "is_cstring t"
  shows "length s < i + n \<Longrightarrow> length t < i + n \<Longrightarrow>
    stricmp_loop n i s t = 0 \<longleftrightarrow> map toLower (drop i s) = map toLower (drop i t)"
proof (induction n arbitrary: i)
  case 0
  then show ?case by simp
next
  case (Suc n)
  then show ?case
    using Suc.IH [of "Suc i"]
    by (auto simp: Let_def map_drop_cget [OF s, of _ i] map_drop_cget [OF t, of _ i])
      (metis linorder_cases toLower_0_iff)+
qed

text \<open>Without an effective bound, \<open>stricmp\<close> decides equality of the lower-cased strings.\<close>

lemma stricmp_eq_0_iff:
  assumes "is_cstring s" "is_cstring t" "int (length s) < n" "int (length t) < n"
  shows "stricmp s t n = 0 \<longleftrightarrow> strLower s = strLower t"
  using stricmp_loop_0_iff [OF assms(1,2), of 0 "nat n"] assms(3,4)
  by (simp add: stricmp_def strLower_eq assms(1,2) zless_nat_eq_int_zless)

section \<open>Searching characters\<close>

lemma find_upt_Some:
  "find P [a ..< b] = Some k \<longleftrightarrow> a \<le> k \<and> k < b \<and> P k \<and> (\<forall>j. a \<le> j \<longrightarrow> j < k \<longrightarrow> \<not> P j)"
proof (induction "b - a" arbitrary: a)
  case 0
  then show ?case by auto
next
  case (Suc n)
  then have ab: "a < b" and IH: "find P [Suc a ..< b] = Some k \<longleftrightarrow>
      Suc a \<le> k \<and> k < b \<and> P k \<and> (\<forall>j. Suc a \<le> j \<longrightarrow> j < k \<longrightarrow> \<not> P j)"
    by auto
  show ?case
  proof (cases "P a")
    case True
    then show ?thesis using ab by (auto simp: upt_conv_Cons le_eq_less_or_eq)
  next
    case False
    then have "find P [a ..< b] = Some k \<longleftrightarrow> find P [Suc a ..< b] = Some k"
      using ab by (simp add: upt_conv_Cons)
    also have "\<dots> \<longleftrightarrow> a \<le> k \<and> k < b \<and> P k \<and> (\<forall>j. a \<le> j \<longrightarrow> j < k \<longrightarrow> \<not> P j)"
      unfolding IH using False by (metis Suc_le_eq Suc_leD le_eq_less_or_eq)
    finally show ?thesis .
  qed
qed

lemma strchr_Some:
  "strchr s a c = Some k \<longleftrightarrow>
     a \<le> k \<and> k \<le> length s \<and> cget s k = c \<and> (\<forall>j. a \<le> j \<longrightarrow> j < k \<longrightarrow> cget s j \<noteq> c)"
  by (simp add: strchr_def find_upt_Some less_Suc_eq_le del: upt_Suc)

lemma strchr_None: "strchr s a c = None \<longleftrightarrow> (\<forall>j. a \<le> j \<longrightarrow> j \<le> length s \<longrightarrow> cget s j \<noteq> c)"
  by (auto simp: strchr_def find_None_iff less_Suc_eq_le simp del: upt_Suc)

text \<open>
  The loop of \<open>findLast\<close> returns the last occurrence at or behind \<open>Current\<close>, or \<open>Last\<close> when
  there is none; one unit of fuel per position suffices.
\<close>

lemma findLast_loop_enough:
  assumes "c \<noteq> 0"
  shows "Current \<le> length s \<Longrightarrow> length s < Current + fuel \<Longrightarrow>
    \<exists>r. findLast_loop fuel s c Current Last = Some r \<and>
      ((\<forall>j \<ge> Current. cget s j \<noteq> c) \<and> r = Last \<or>
       (\<exists>k. r = Some k \<and> Current \<le> k \<and> k < length s \<and> cget s k = c \<and> (\<forall>j > k. cget s j \<noteq> c)))"
proof (induction fuel arbitrary: Current Last)
  case 0
  then show ?case by simp
next
  case (Suc fuel)
  show ?case
  proof (cases "strchr s Current c")
    case None
    then have "\<forall>j \<ge> Current. cget s j \<noteq> c"
      using assms unfolding strchr_None by (auto simp: cget_def)
    then show ?thesis using None Suc.prems by simp
  next
    case (Some p)
    then have p: "Current \<le> p" "p < length s" "cget s p = c"
      using assms by (auto simp: strchr_Some cget_def split: if_splits)
    from Suc.IH [of "Suc p" "Some p"] p Suc.prems show ?thesis
      by (auto simp: Some Suc_le_eq)
  qed
qed

text \<open>\<open>findLast\<close> is total on characters other than the terminator and finds the last occurrence.\<close>

lemma findLast_spec:
  assumes "c \<noteq> 0"
  shows "\<exists>r. findLast s c = Some r \<and>
    (case r of None \<Rightarrow> c \<notin> set s
     | Some k \<Rightarrow> k < length s \<and> s ! k = c \<and> c \<notin> set (drop (Suc k) s))"
proof -
  have notin: "c \<notin> set (drop n s)" if "\<forall>j \<ge> n. cget s j \<noteq> c" for n
  proof
    assume "c \<in> set (drop n s)"
    then obtain i where "i < length s - n" "c = s ! (n + i)"
      by (auto simp: in_set_conv_nth)
    with that [rule_format, of "n + i"] show False by (simp add: cget_def split: if_splits)
  qed
  show ?thesis
  proof -
    obtain r where r: "findLast s c = Some r"
      and cases: "(\<forall>j \<ge> 0. cget s j \<noteq> c) \<and> r = None \<or>
         (\<exists>k. r = Some k \<and> 0 \<le> k \<and> k < length s \<and> cget s k = c \<and> (\<forall>j > k. cget s j \<noteq> c))"
      using findLast_loop_enough [OF assms, of 0 s "Suc (Suc (length s))" None]
      unfolding findLast_def by auto
    from cases show ?thesis
      using notin [of 0] notin [of "Suc (the r)"] by (auto simp: r Suc_le_eq cget_def)
  qed
qed

section \<open>Bit sets\<close>

lemma CheckBitIndex_sdiv:
  assumes "CheckBitIndex (int (length B)) i"
  shows "0 \<le> i sdiv 8" "i sdiv 8 < int (length B)"
  using assms by (auto simp: CheckBitIndex_def sdiv_nonneg)

lemma BitMask_bit: "0 \<le> i \<Longrightarrow> bit (BitMask i) n \<longleftrightarrow> n = nat (i mod 8)"
proof -
  assume "0 \<le> i"
  moreover have "nat (i mod 8) < 8" by (simp add: nat_less_iff)
  ultimately show ?thesis
    by (auto simp: BitMask_def smod_nonneg bit_simps)
qed

lemma and_BitMask: "0 \<le> i \<Longrightarrow> (b AND BitMask i \<noteq> 0) \<longleftrightarrow> bit b (nat (i mod 8))"
proof -
  assume i: "0 \<le> i"
  have "nat (i mod 8) < 8" by (simp add: nat_less_iff)
  then have "(b AND BitMask i \<noteq> 0) \<longleftrightarrow> (\<exists>n < 8. bit b n \<and> n = nat (i mod 8))"
    using bit_imp_le_length [where 'a = 8, of b]
    by (force simp: bit_eq_iff [where 'a = "8 word"] bit_and_iff BitMask_bit [OF i])
  with \<open>nat (i mod 8) < 8\<close> show ?thesis by auto
qed

text \<open>A valid index addresses one bit of the array: reading is its bit in the byte it lies in.\<close>

lemma CheckBit_eq:
  assumes "CheckBitIndex (int (length B)) i"
  shows "CheckBit B i = Some (bit (B ! nat (i div 8)) (nat (i mod 8)))"
  using assms CheckBitIndex_sdiv [OF assms]
  by (simp add: CheckBit_def and_BitMask CheckBitIndex_def sdiv_nonneg)

lemma bit_address_inj:
  assumes "0 \<le> i" "0 \<le> j" "nat (i div 8) = nat (j div 8)" "nat (i mod 8) = nat (j mod 8)"
  shows "i = (j :: int)"
  using assms by (metis div_mult_mod_eq nat_eq_iff pos_imp_zdiv_nonneg_iff pos_mod_sign zero_less_numeral)

lemma SetBit_eq:
  assumes "CheckBitIndex (int (length B)) i"
  shows "\<exists>B'. SetBit B i = Some B' \<and> length B' = length B \<and>
    (\<forall>j. CheckBitIndex (int (length B)) j \<longrightarrow>
       CheckBit B' j = (if j = i then Some True else CheckBit B j))"
proof -
  let ?B = "B[nat (i div 8) := B ! nat (i div 8) OR BitMask i]"
  have "SetBit B i = Some ?B"
    using assms CheckBitIndex_sdiv [OF assms] by (simp add: SetBit_def CheckBitIndex_def sdiv_nonneg)
  moreover have "CheckBit ?B j = (if j = i then Some True else CheckBit B j)"
    if j: "CheckBitIndex (int (length B)) j" for j
  proof -
    have "0 \<le> i" "0 \<le> j" "nat (i div 8) < length B"
      using assms j by (auto simp: CheckBitIndex_def nat_less_iff)
    then show ?thesis
      using bit_address_inj [of i j] j
      by (auto simp: CheckBit_eq nth_list_update bit_or_iff BitMask_bit)
  qed
  ultimately show ?thesis by auto
qed

lemma ClearBit_eq:
  assumes "CheckBitIndex (int (length B)) i"
  shows "\<exists>B'. ClearBit B i = Some B' \<and> length B' = length B \<and>
    (\<forall>j. CheckBitIndex (int (length B)) j \<longrightarrow>
       CheckBit B' j = (if j = i then Some False else CheckBit B j))"
proof -
  let ?B = "B[nat (i div 8) := B ! nat (i div 8) AND NOT (BitMask i)]"
  have "ClearBit B i = Some ?B"
    using assms CheckBitIndex_sdiv [OF assms] by (simp add: ClearBit_def CheckBitIndex_def sdiv_nonneg)
  moreover have "CheckBit ?B j = (if j = i then Some False else CheckBit B j)"
    if j: "CheckBitIndex (int (length B)) j" for j
  proof -
    have "0 \<le> i" "0 \<le> j" "nat (i div 8) < length B" "nat (j mod 8) < 8"
      using assms j by (auto simp: CheckBitIndex_def nat_less_iff)
    then show ?thesis
      using bit_address_inj [of i j] j
      by (auto simp: CheckBit_eq nth_list_update bit_and_iff bit_not_iff BitMask_bit)
  qed
  ultimately show ?thesis by auto
qed

section \<open>Properties\<close>

text \<open>
  \<open>stricmp\<close> with a bound above both lengths is zero exactly for strings that are equal after
  conversion to lower case, and changing its arguments changes the sign of the result.
\<close>

theorem stricmp_ignores_case:
  assumes "is_cstring s" "is_cstring t" "int (length s) < n" "int (length t) < n"
  shows "(stricmp s t n = 0 \<longleftrightarrow> strLower s = strLower t) \<and> stricmp t s n = - stricmp s t n \<and>
    stricmp s t n \<in> {- 1, 0, 1}"
  using stricmp_eq_0_iff [OF assms] stricmp_loop_antisym [of "nat n" 0 t s] stricmp_loop_range [of "nat n" 0 s t]
  by (simp add: stricmp_def)

theorem stricmp_ignores_case_witness:
  "stricmp [72, 105] [104, 73] 100 = 0"
  using stricmp_ignores_case [of "[72, 105]" "[104, 73]" 100]
  by (simp add: is_cchar_def strLower_def toLower_def to_char_id)

text \<open>
  In a bit set, \<open>SetBit\<close> and \<open>ClearBit\<close> at a valid index stay inside the array and change exactly the
  one bit that \<open>CheckBit\<close> reads at this index.
\<close>

theorem bit_set_laws:
  assumes "CheckBitIndex (int (length B)) i"
  shows "\<exists>S C. SetBit B i = Some S \<and> ClearBit B i = Some C \<and> length S = length B \<and> length C = length B \<and>
    (\<forall>j. CheckBitIndex (int (length B)) j \<longrightarrow>
       CheckBit S j = (if j = i then Some True else CheckBit B j) \<and>
       CheckBit C j = (if j = i then Some False else CheckBit B j))"
  using SetBit_eq [OF assms] ClearBit_eq [OF assms] by blast

theorem bit_set_laws_witness:
  "\<exists>S. SetBit [0, 0] 11 = Some S \<and> CheckBit S 11 = Some True \<and> CheckBit S 3 = Some False"
proof -
  have v: "CheckBitIndex (int (length [0, 0 :: u8])) 11" "CheckBitIndex (int (length [0, 0 :: u8])) 3"
    by (simp_all add: CheckBitIndex_def)
  have "CheckBit [0, 0] 3 = Some False" using CheckBit_eq [OF v(2)] by simp
  then show ?thesis using bit_set_laws [OF v(1)] v(2) by (auto simp: CheckBitIndex_def)
qed

end
