(* ===== verification/Streams.thy ===== *)
theory Streams
  imports Prelude
begin

text \<open>
  \<open>common/read_stream\<close>, \<open>common/write_stream\<close>, \<open>common/dynamic_buffer\<close> and
  \<open>common/byte_order\<close>: the byte streams all network packets and map files go through. The
  abstract classes \<open>TReadStream\<close> and \<open>TWriteStream\<close> are records of their virtual functions; a
  method the base class implements takes that record, so that it calls the overriding
  functions as virtual dispatch does. \<open>TReadBuffer\<close>, \<open>TWriteBuffer\<close> and
  \<open>TDynamicWriteBuffer\<close> are states with their own functions and the record built from them.

  The locales \<open>byte_sink\<close> and \<open>byte_source\<close> state what the base-class methods rely on; the
  string encoding is proved correct once inside them and holds for every buffer by
  interpretation.
\<close>

section \<open>Errors and virtual functions\<close>

text \<open>
  The strings thrown by the streams. \<open>Undefined\<close> marks the absence of defined behaviour: an
  access outside the array, or a loop that does not end.
\<close>

datatype stream_error = BufferEmpty | BufferFull | BufferNotExisting | InternalError | Undefined

record 's TReadStream =
  v_readByte :: "'s \<Rightarrow> stream_error + (u8 \<times> 's)"
  v_readWord :: "'s \<Rightarrow> stream_error + (u16 \<times> 's)"
  v_readQuad :: "'s \<Rightarrow> stream_error + (u32 \<times> 's)"
  v_readBytes :: "bool \<Rightarrow> int \<Rightarrow> 's \<Rightarrow> stream_error + (u8 list \<times> 's)"
  v_skip :: "int \<Rightarrow> 's \<Rightarrow> stream_error + 's"

record 's TWriteStream =
  v_writeByte :: "u8 \<Rightarrow> 's \<Rightarrow> stream_error + 's"
  v_writeWord :: "u16 \<Rightarrow> 's \<Rightarrow> stream_error + 's"
  v_writeQuad :: "u32 \<Rightarrow> 's \<Rightarrow> stream_error + 's"
  v_writeBytes :: "u8 list \<Rightarrow> 's \<Rightarrow> stream_error + 's"

section \<open>Byte order helpers\<close>

definition read_u16_le :: "u8 list \<Rightarrow> u16" where
  "read_u16_le buf = ucast (buf ! 0) OR push_bit 8 (ucast (buf ! 1))"

definition read_u32_le :: "u8 list \<Rightarrow> u32" where
  "read_u32_le buf = ucast (buf ! 0) OR push_bit 8 (ucast (buf ! 1))
     OR push_bit 16 (ucast (buf ! 2)) OR push_bit 24 (ucast (buf ! 3))"

definition write_u16_le :: "u8 list \<Rightarrow> u16 \<Rightarrow> u8 list" where
  "write_u16_le buf val = buf[0 := ucast val, 1 := ucast (drop_bit 8 val)]"

definition write_u32_le :: "u8 list \<Rightarrow> u32 \<Rightarrow> u8 list" where
  "write_u32_le buf val = buf[0 := ucast val, 1 := ucast (drop_bit 8 val),
     2 := ucast (drop_bit 16 val), 3 := ucast (drop_bit 24 val)]"

text \<open>The bytes of a word and of a quad in little-endian order.\<close>

definition le16 :: "u16 \<Rightarrow> u8 list" where
  "le16 w = [ucast w, ucast (drop_bit 8 w)]"

definition le32 :: "u32 \<Rightarrow> u8 list" where
  "le32 w = [ucast w, ucast (drop_bit 8 w), ucast (drop_bit 16 w), ucast (drop_bit 24 w)]"

section \<open>TReadStream\<close>

definition TReadStream_readFlag :: "'s TReadStream \<Rightarrow> 's \<Rightarrow> stream_error + (bool \<times> 's)" where
  "TReadStream_readFlag V s = sbind (v_readByte V s) (\<lambda>(b, s). Inr (b \<noteq> 0, s))"

definition TReadStream_readWord :: "('s \<Rightarrow> stream_error + (u8 \<times> 's)) \<Rightarrow> 's \<Rightarrow> stream_error + (u16 \<times> 's)" where
  "TReadStream_readWord readByte s =
     sbind (readByte s) (\<lambda>(Byte0, s).
     sbind (readByte s) (\<lambda>(Byte1, s).
     Inr (push_bit 8 (ucast Byte1) OR ucast Byte0, s)))"

definition TReadStream_readQuad :: "('s \<Rightarrow> stream_error + (u8 \<times> 's)) \<Rightarrow> 's \<Rightarrow> stream_error + (u32 \<times> 's)" where
  "TReadStream_readQuad readByte s =
     sbind (readByte s) (\<lambda>(Byte0, s).
     sbind (readByte s) (\<lambda>(Byte1, s).
     sbind (readByte s) (\<lambda>(Byte2, s).
     sbind (readByte s) (\<lambda>(Byte3, s).
     Inr (push_bit 24 (ucast Byte3) OR push_bit 16 (ucast Byte2)
            OR push_bit 8 (ucast Byte1) OR ucast Byte0, s)))))"

fun readBytes_loop :: "('s \<Rightarrow> stream_error + (u8 \<times> 's)) \<Rightarrow> nat \<Rightarrow> 's \<Rightarrow> stream_error + (u8 list \<times> 's)" where
  "readBytes_loop readByte 0 s = Inr ([], s)"
| "readBytes_loop readByte (Suc n) s =
     sbind (readByte s) (\<lambda>(b, s).
     sbind (readBytes_loop readByte n s) (\<lambda>(bs, s). Inr (b # bs, s)))"

text \<open>\<open>Buffer\<close> says whether a destination was provided (it is not \<open>NULL\<close>).\<close>

definition TReadStream_readBytes ::
    "('s \<Rightarrow> stream_error + (u8 \<times> 's)) \<Rightarrow> bool \<Rightarrow> int \<Rightarrow> 's \<Rightarrow> stream_error + (u8 list \<times> 's)" where
  "TReadStream_readBytes readByte Buffer Count s =
     (if \<not> Buffer then Inl InternalError else readBytes_loop readByte (nat Count) s)"

text \<open>
  The length prefix of a string. \<open>(int)readQuad()\<close> is negative for lengths from 2^31 on.
\<close>

definition read_string_length :: "'s TReadStream \<Rightarrow> 's \<Rightarrow> stream_error + (int \<times> 's)" where
  "read_string_length V s =
     sbind (v_readWord V s) (\<lambda>(w, s).
       if uint w = 0xFFFF
       then sbind (v_readQuad V s) (\<lambda>(q, s). Inr (to_int32 (uint q), s))
       else Inr (uint w, s))"

text \<open>The result is the text stored in \<open>Buffer\<close> in front of the terminator.\<close>

definition TReadStream_read_string ::
    "'s TReadStream \<Rightarrow> bool \<Rightarrow> int \<Rightarrow> 's \<Rightarrow> stream_error + (u8 list \<times> 's)" where
  "TReadStream_read_string V Buffer MaxLength s =
     (if \<not> Buffer \<or> MaxLength = 0 then Inl InternalError
      else
        sbind (read_string_length V s) (\<lambda>(Length, s).
        if Length > 0 then
          (if MaxLength < 0 \<or> MaxLength > Length then v_readBytes V True Length s
           else
             sbind (v_readBytes V True (MaxLength - 1) s) (\<lambda>(text, s).
             sbind (v_skip V (Length - MaxLength + 1) s) (\<lambda>s. Inr (text, s))))
        else Inr ([], s)))"

section \<open>TReadBuffer\<close>

record TReadBuffer =
  rData :: "u8 list"
  rSize :: int
  rPosition :: int

definition TReadBuffer_new :: "u8 list option \<Rightarrow> int \<Rightarrow> TReadBuffer" where
  "TReadBuffer_new Data Sz =
     (case Data of
        None \<Rightarrow> \<lparr>rData = [], rSize = 0, rPosition = 0\<rparr>
      | Some d \<Rightarrow>
          if Sz < 0 then \<lparr>rData = d, rSize = 0, rPosition = 0\<rparr>
          else \<lparr>rData = d, rSize = Sz, rPosition = 0\<rparr>)"

definition rByte :: "TReadBuffer \<Rightarrow> int \<Rightarrow> stream_error + u8" where
  "rByte b i = (case arr_get (rData b) (rPosition b + i) of None \<Rightarrow> Inl Undefined | Some x \<Rightarrow> Inr x)"

definition rMove :: "TReadBuffer \<Rightarrow> int \<Rightarrow> TReadBuffer" where
  "rMove b n = b\<lparr>rPosition := rPosition b + n\<rparr>"

definition TReadBuffer_readByte :: "TReadBuffer \<Rightarrow> stream_error + (u8 \<times> TReadBuffer)" where
  "TReadBuffer_readByte b =
     (if rSize b - rPosition b < 1 then Inl BufferEmpty
      else sbind (rByte b 0) (\<lambda>Byte. Inr (Byte, rMove b 1)))"

definition TReadBuffer_readWord :: "TReadBuffer \<Rightarrow> stream_error + (u16 \<times> TReadBuffer)" where
  "TReadBuffer_readWord b =
     (if rSize b - rPosition b < 2 then Inl BufferEmpty
      else
        sbind (rByte b 0) (\<lambda>Byte0.
        sbind (rByte b 1) (\<lambda>Byte1.
        Inr (push_bit 8 (ucast Byte1) OR ucast Byte0, rMove b 2))))"

definition TReadBuffer_readQuad :: "TReadBuffer \<Rightarrow> stream_error + (u32 \<times> TReadBuffer)" where
  "TReadBuffer_readQuad b =
     (if rSize b - rPosition b < 4 then Inl BufferEmpty
      else
        sbind (rByte b 0) (\<lambda>Byte0.
        sbind (rByte b 1) (\<lambda>Byte1.
        sbind (rByte b 2) (\<lambda>Byte2.
        sbind (rByte b 3) (\<lambda>Byte3.
        Inr (push_bit 24 (ucast Byte3) OR push_bit 16 (ucast Byte2)
               OR push_bit 8 (ucast Byte1) OR ucast Byte0, rMove b 4))))))"

definition TReadBuffer_readBytes ::
    "bool \<Rightarrow> int \<Rightarrow> TReadBuffer \<Rightarrow> stream_error + (u8 list \<times> TReadBuffer)" where
  "TReadBuffer_readBytes Buffer Count b =
     (if \<not> Buffer \<or> Count \<le> 0 then Inl BufferNotExisting
      else if rSize b - rPosition b < Count then Inl BufferEmpty
      else if rPosition b < 0 \<or> int (length (rData b)) < rPosition b + Count then Inl Undefined
      else Inr (take (nat Count) (drop (nat (rPosition b)) (rData b)), rMove b Count))"

definition TReadBuffer_eof :: "TReadBuffer \<Rightarrow> bool" where
  "TReadBuffer_eof b \<longleftrightarrow> rSize b \<le> rPosition b"

definition TReadBuffer_skip :: "int \<Rightarrow> TReadBuffer \<Rightarrow> stream_error + TReadBuffer" where
  "TReadBuffer_skip Count b =
     (if rSize b - rPosition b < Count then Inl BufferEmpty else Inr (rMove b Count))"

definition TReadBuffer_vt :: "TReadBuffer TReadStream" where
  "TReadBuffer_vt = \<lparr>v_readByte = TReadBuffer_readByte, v_readWord = TReadBuffer_readWord,
     v_readQuad = TReadBuffer_readQuad, v_readBytes = TReadBuffer_readBytes, v_skip = TReadBuffer_skip\<rparr>"

section \<open>TWriteStream\<close>

definition TWriteStream_writeFlag :: "'s TWriteStream \<Rightarrow> bool \<Rightarrow> 's \<Rightarrow> stream_error + 's" where
  "TWriteStream_writeFlag V Flag s = v_writeByte V (if Flag then 1 else 0) s"

definition TWriteStream_writeWord :: "(u8 \<Rightarrow> 's \<Rightarrow> stream_error + 's) \<Rightarrow> u16 \<Rightarrow> 's \<Rightarrow> stream_error + 's" where
  "TWriteStream_writeWord writeByte Word s =
     sbind (writeByte (ucast Word) s) (\<lambda>s. writeByte (ucast (drop_bit 8 Word)) s)"

definition TWriteStream_writeQuad :: "(u8 \<Rightarrow> 's \<Rightarrow> stream_error + 's) \<Rightarrow> u32 \<Rightarrow> 's \<Rightarrow> stream_error + 's" where
  "TWriteStream_writeQuad writeByte Quad s =
     sbind (writeByte (ucast Quad) s) (\<lambda>s.
     sbind (writeByte (ucast (drop_bit 8 Quad)) s) (\<lambda>s.
     sbind (writeByte (ucast (drop_bit 16 Quad)) s) (\<lambda>s.
     writeByte (ucast (drop_bit 24 Quad)) s)))"

text \<open>A string argument is \<open>None\<close> for \<open>NULL\<close>; its length is \<open>strlen\<close>.\<close>

definition TWriteStream_write_string :: "'s TWriteStream \<Rightarrow> u8 list option \<Rightarrow> 's \<Rightarrow> stream_error + 's" where
  "TWriteStream_write_string V String s =
     (case String of
        None \<Rightarrow> v_writeWord V 0 s
      | Some str \<Rightarrow>
          sbind (if int (length str) < 0xFFFF
                 then v_writeWord V (of_nat (length str)) s
                 else sbind (v_writeWord V 0xFFFF s) (\<lambda>s. v_writeQuad V (of_nat (length str)) s))
            (\<lambda>s. if int (length str) > 0 then v_writeBytes V str s else Inr s))"

fun TWriteStream_writeBytes :: "(u8 \<Rightarrow> 's \<Rightarrow> stream_error + 's) \<Rightarrow> u8 list \<Rightarrow> 's \<Rightarrow> stream_error + 's" where
  "TWriteStream_writeBytes writeByte [] s = Inr s"
| "TWriteStream_writeBytes writeByte (b # bs) s =
     sbind (writeByte b s) (\<lambda>s. TWriteStream_writeBytes writeByte bs s)"

section \<open>TWriteBuffer\<close>

record TWriteBuffer =
  wData :: "u8 list"
  wSize :: int
  wPosition :: int

definition TWriteBuffer_new :: "u8 list option \<Rightarrow> int \<Rightarrow> TWriteBuffer" where
  "TWriteBuffer_new Data Sz =
     (case Data of
        None \<Rightarrow> \<lparr>wData = [], wSize = 0, wPosition = 0\<rparr>
      | Some d \<Rightarrow>
          if Sz < 0 then \<lparr>wData = d, wSize = 0, wPosition = 0\<rparr>
          else \<lparr>wData = d, wSize = Sz, wPosition = 0\<rparr>)"

text \<open>The stores \<open>Data[Position], Data[Position + 1], \<dots>\<close> and the advance of \<open>Position\<close>.\<close>

definition wStore :: "TWriteBuffer \<Rightarrow> u8 list \<Rightarrow> stream_error + TWriteBuffer" where
  "wStore b bs =
     (if wPosition b < 0 \<or> int (length (wData b)) < wPosition b + int (length bs) then Inl Undefined
      else Inr (b\<lparr>wData := arr_copy (wData b) (nat (wPosition b)) bs,
                  wPosition := wPosition b + int (length bs)\<rparr>))"

definition TWriteBuffer_writeByte :: "u8 \<Rightarrow> TWriteBuffer \<Rightarrow> stream_error + TWriteBuffer" where
  "TWriteBuffer_writeByte Byte b =
     (if wSize b - wPosition b < 1 then Inl BufferFull else wStore b [Byte])"

definition TWriteBuffer_writeWord :: "u16 \<Rightarrow> TWriteBuffer \<Rightarrow> stream_error + TWriteBuffer" where
  "TWriteBuffer_writeWord Word b =
     (if wSize b - wPosition b < 2 then Inl BufferFull
      else wStore b [ucast Word, ucast (drop_bit 8 Word)])"

definition TWriteBuffer_writeQuad :: "u32 \<Rightarrow> TWriteBuffer \<Rightarrow> stream_error + TWriteBuffer" where
  "TWriteBuffer_writeQuad Quad b =
     (if wSize b - wPosition b < 4 then Inl BufferFull
      else wStore b [ucast Quad, ucast (drop_bit 8 Quad), ucast (drop_bit 16 Quad), ucast (drop_bit 24 Quad)])"

text \<open>\<open>Buffer\<close> holds the \<open>Count\<close> bytes to write.\<close>

definition TWriteBuffer_writeBytes :: "u8 list \<Rightarrow> TWriteBuffer \<Rightarrow> stream_error + TWriteBuffer" where
  "TWriteBuffer_writeBytes Buffer b =
     (if wSize b - wPosition b < int (length Buffer) then Inl BufferFull else wStore b Buffer)"

definition TWriteBuffer_vt :: "TWriteBuffer TWriteStream" where
  "TWriteBuffer_vt = \<lparr>v_writeByte = TWriteBuffer_writeByte, v_writeWord = TWriteBuffer_writeWord,
     v_writeQuad = TWriteBuffer_writeQuad, v_writeBytes = TWriteBuffer_writeBytes\<rparr>"

section \<open>TDynamicWriteBuffer\<close>

text \<open>\<open>junk\<close> is what \<open>new uint8[Size]\<close> leaves in the cells of the array.\<close>

definition TDynamicWriteBuffer_new :: "(nat \<Rightarrow> u8) \<Rightarrow> int \<Rightarrow> TWriteBuffer" where
  "TDynamicWriteBuffer_new junk InitialSize =
     TWriteBuffer_new (Some (map junk [0 ..< nat InitialSize])) InitialSize"

definition resizeBuffer :: "(nat \<Rightarrow> u8) \<Rightarrow> TWriteBuffer \<Rightarrow> TWriteBuffer" where
  "resizeBuffer junk b =
     (let Sz = wSize b * 2
      in b\<lparr>wData := arr_copy (map junk [0 ..< nat Sz]) 0 (take (nat (wSize b)) (wData b)), wSize := Sz\<rparr>)"

definition dynReserve :: "(nat \<Rightarrow> u8) \<Rightarrow> int \<Rightarrow> TWriteBuffer \<Rightarrow> stream_error + TWriteBuffer" where
  "dynReserve junk n b =
     (case while_option (\<lambda>b. wSize b - wPosition b < n) (resizeBuffer junk) b of
        None \<Rightarrow> Inl Undefined | Some b \<Rightarrow> Inr b)"

definition TDynamicWriteBuffer_writeByte :: "(nat \<Rightarrow> u8) \<Rightarrow> u8 \<Rightarrow> TWriteBuffer \<Rightarrow> stream_error + TWriteBuffer" where
  "TDynamicWriteBuffer_writeByte junk Byte b = sbind (dynReserve junk 1 b) (\<lambda>b. wStore b [Byte])"

definition TDynamicWriteBuffer_writeWord :: "(nat \<Rightarrow> u8) \<Rightarrow> u16 \<Rightarrow> TWriteBuffer \<Rightarrow> stream_error + TWriteBuffer" where
  "TDynamicWriteBuffer_writeWord junk Word b =
     sbind (dynReserve junk 2 b) (\<lambda>b. wStore b [ucast Word, ucast (drop_bit 8 Word)])"

definition TDynamicWriteBuffer_writeQuad :: "(nat \<Rightarrow> u8) \<Rightarrow> u32 \<Rightarrow> TWriteBuffer \<Rightarrow> stream_error + TWriteBuffer" where
  "TDynamicWriteBuffer_writeQuad junk Quad b =
     sbind (dynReserve junk 4 b) (\<lambda>b.
       wStore b [ucast Quad, ucast (drop_bit 8 Quad), ucast (drop_bit 16 Quad), ucast (drop_bit 24 Quad)])"

definition TDynamicWriteBuffer_writeBytes :: "(nat \<Rightarrow> u8) \<Rightarrow> u8 list \<Rightarrow> TWriteBuffer \<Rightarrow> stream_error + TWriteBuffer" where
  "TDynamicWriteBuffer_writeBytes junk Buffer b =
     sbind (dynReserve junk (int (length Buffer)) b) (\<lambda>b. wStore b Buffer)"

definition TDynamicWriteBuffer_vt :: "(nat \<Rightarrow> u8) \<Rightarrow> TWriteBuffer TWriteStream" where
  "TDynamicWriteBuffer_vt junk = \<lparr>v_writeByte = TDynamicWriteBuffer_writeByte junk,
     v_writeWord = TDynamicWriteBuffer_writeWord junk, v_writeQuad = TDynamicWriteBuffer_writeQuad junk,
     v_writeBytes = TDynamicWriteBuffer_writeBytes junk\<rparr>"

section \<open>Little-endian encoding\<close>

lemma u16_from_bytes: "push_bit 8 (ucast (ucast (drop_bit 8 w) :: u8)) OR ucast (ucast w :: u8) = (w :: u16)"
  by (rule bit_word_eqI) (auto simp: bit_simps)

lemma u32_from_bytes:
  "push_bit 24 (ucast (ucast (drop_bit 24 w) :: u8)) OR push_bit 16 (ucast (ucast (drop_bit 16 w) :: u8))
     OR push_bit 8 (ucast (ucast (drop_bit 8 w) :: u8)) OR ucast (ucast w :: u8) = (w :: u32)"
proof (rule bit_word_eqI)
  fix n assume "n < LENGTH(32)"
  consider "n < 8" | "8 \<le> n" "n < 16" | "16 \<le> n" "n < 24" | "24 \<le> n"
    by linarith
  then show "bit (push_bit 24 (ucast (ucast (drop_bit 24 w) :: u8)) OR push_bit 16 (ucast (ucast (drop_bit 16 w) :: u8))
     OR push_bit 8 (ucast (ucast (drop_bit 8 w) :: u8)) OR ucast (ucast w :: u8) :: u32) n = bit w n"
    by cases (use \<open>n < LENGTH(32)\<close> in \<open>auto simp: bit_simps\<close>)
qed

lemma length_le16 [simp]: "length (le16 w) = 2"
  by (simp add: le16_def)

lemma length_le32 [simp]: "length (le32 w) = 4"
  by (simp add: le32_def)

text \<open>The helpers of \<open>byte_order.h\<close> read back what they wrote.\<close>

lemma read_write_u16_le: "2 \<le> length buf \<Longrightarrow> read_u16_le (write_u16_le buf w) = w"
  using u16_from_bytes [of w]
  by (auto simp: read_u16_le_def write_u16_le_def numeral_eq_Suc Suc_le_length_iff ac_simps)

lemma read_write_u32_le: "4 \<le> length buf \<Longrightarrow> read_u32_le (write_u32_le buf w) = w"
  using u32_from_bytes [of w]
  by (auto simp: read_u32_le_def write_u32_le_def numeral_eq_Suc Suc_le_length_iff ac_simps)

lemma read_u16_le_bytes: "read_u16_le (le16 w @ r) = w"
  using u16_from_bytes [of w] by (simp add: read_u16_le_def le16_def ac_simps)

section \<open>What a sink and a source promise\<close>

text \<open>
  A sink has an invariant, the bytes written so far and the room it still has; each virtual
  write succeeds where there is room and appends its bytes. \<open>room b n\<close>: at least \<open>n\<close> more bytes.
\<close>

locale byte_sink =
  fixes V :: "'s TWriteStream"
    and inv :: "'s \<Rightarrow> bool"
    and content :: "'s \<Rightarrow> u8 list"
    and room :: "'s \<Rightarrow> nat \<Rightarrow> bool"
  assumes writeByte: "inv b \<Longrightarrow> room b (Suc n) \<Longrightarrow>
      \<exists>b'. v_writeByte V x b = Inr b' \<and> inv b' \<and> content b' = content b @ [x] \<and> room b' n"
    and writeWord: "inv b \<Longrightarrow> room b (2 + n) \<Longrightarrow>
      \<exists>b'. v_writeWord V w b = Inr b' \<and> inv b' \<and> content b' = content b @ le16 w \<and> room b' n"
    and writeQuad: "inv b \<Longrightarrow> room b (4 + n) \<Longrightarrow>
      \<exists>b'. v_writeQuad V q b = Inr b' \<and> inv b' \<and> content b' = content b @ le32 q \<and> room b' n"
    and writeBytes: "inv b \<Longrightarrow> room b (length bs + n) \<Longrightarrow>
      \<exists>b'. v_writeBytes V bs b = Inr b' \<and> inv b' \<and> content b' = content b @ bs \<and> room b' n"

text \<open>The wire format of a string.\<close>

definition enc_string :: "u8 list \<Rightarrow> u8 list" where
  "enc_string str =
     (if length str < 0xFFFF then le16 (of_nat (length str))
      else le16 0xFFFF @ le32 (of_nat (length str))) @ str"

context byte_sink
begin

lemma writeFlag:
  assumes "inv b" "room b (Suc n)"
  shows "\<exists>b'. TWriteStream_writeFlag V f b = Inr b' \<and> inv b' \<and>
    content b' = content b @ [if f then 1 else 0] \<and> room b' n"
  using writeByte [OF assms] by (simp add: TWriteStream_writeFlag_def)

lemma write_string:
  assumes "inv b" "room b (length (enc_string str) + n)"
  shows "\<exists>b'. TWriteStream_write_string V (Some str) b = Inr b' \<and> inv b' \<and>
    content b' = content b @ enc_string str \<and> room b' n"
proof (cases "length str < 0xFFFF")
  case True
  have "room b (2 + (length str + n))"
    using assms True by (simp add: enc_string_def)
  then obtain b1 where b1: "v_writeWord V (of_nat (length str)) b = Inr b1" "inv b1"
      "content b1 = content b @ le16 (of_nat (length str))" "room b1 (length str + n)"
    using writeWord [OF assms(1)] by blast
  then show ?thesis
    using writeBytes [OF b1(2) b1(4)] True
    by (auto simp: TWriteStream_write_string_def enc_string_def)
next
  case False
  have "room b (2 + (4 + (length str + n)))"
    using assms False by (simp add: enc_string_def add.assoc)
  then obtain b1 where b1: "v_writeWord V 0xFFFF b = Inr b1" "inv b1"
      "content b1 = content b @ le16 0xFFFF" "room b1 (4 + (length str + n))"
    using writeWord [OF assms(1)] by blast
  then obtain b2 where b2: "v_writeQuad V (of_nat (length str)) b1 = Inr b2" "inv b2"
      "content b2 = content b1 @ le32 (of_nat (length str))" "room b2 (length str + n)"
    using writeQuad by blast
  have "0 < length str" using False by linarith
  then show ?thesis
    using writeBytes [OF b2(2) b2(4)] b1(1,3) b2(1,3) False
    by (auto simp: TWriteStream_write_string_def enc_string_def)
qed

end

text \<open>
  A source has an invariant and the bytes still to be read; each virtual read consumes its
  bytes from the front of them.
\<close>

locale byte_source =
  fixes V :: "'s TReadStream"
    and inv :: "'s \<Rightarrow> bool"
    and rest :: "'s \<Rightarrow> u8 list"
  assumes readByte: "inv b \<Longrightarrow> rest b = x # r \<Longrightarrow>
      \<exists>b'. v_readByte V b = Inr (x, b') \<and> inv b' \<and> rest b' = r"
    and readWord: "inv b \<Longrightarrow> rest b = le16 w @ r \<Longrightarrow>
      \<exists>b'. v_readWord V b = Inr (w, b') \<and> inv b' \<and> rest b' = r"
    and readQuad: "inv b \<Longrightarrow> rest b = le32 q @ r \<Longrightarrow>
      \<exists>b'. v_readQuad V b = Inr (q, b') \<and> inv b' \<and> rest b' = r"
    and readBytes: "inv b \<Longrightarrow> rest b = bs @ r \<Longrightarrow> bs \<noteq> [] \<Longrightarrow>
      \<exists>b'. v_readBytes V True (int (length bs)) b = Inr (bs, b') \<and> inv b' \<and> rest b' = r"
    and skip: "inv b \<Longrightarrow> rest b = bs @ r \<Longrightarrow>
      \<exists>b'. v_skip V (int (length bs)) b = Inr b' \<and> inv b' \<and> rest b' = r"
begin

lemma readFlag:
  assumes "inv b" "rest b = x # r"
  shows "\<exists>b'. TReadStream_readFlag V b = Inr (x \<noteq> 0, b') \<and> inv b' \<and> rest b' = r"
  using readByte [OF assms] by (auto simp: TReadStream_readFlag_def)

text \<open>The length prefix of a string is read back.\<close>

lemma read_length:
  assumes "inv b" "rest b = enc_string str @ r" "length str < 2 ^ 31"
  shows "\<exists>b'. read_string_length V b = Inr (int (length str), b') \<and> inv b' \<and> rest b' = str @ r"
proof (cases "length str < 0xFFFF")
  case True
  then have "rest b = le16 (of_nat (length str)) @ str @ r"
    using assms by (simp add: enc_string_def)
  from readWord [OF assms(1) this] True show ?thesis
    by (auto simp: read_string_length_def unsigned_of_nat take_bit_nat_eq_self)
next
  case False
  then have "rest b = le16 0xFFFF @ le32 (of_nat (length str)) @ str @ r"
    using assms by (simp add: enc_string_def)
  from readWord [OF assms(1) this] obtain b1 where b1: "v_readWord V b = Inr (0xFFFF, b1)" "inv b1"
      "rest b1 = le32 (of_nat (length str)) @ str @ r" by blast
  from readQuad [OF b1(2) b1(3)] obtain b2 where
      "v_readQuad V b1 = Inr (of_nat (length str), b2)" "inv b2" "rest b2 = str @ r" by blast
  moreover have "to_int32 (uint (of_nat (length str) :: u32)) = int (length str)"
    using assms(3) by (simp add: unsigned_of_nat take_bit_nat_eq_self to_int32_id in_int32_def)
  ultimately show ?thesis using b1(1) by (auto simp: read_string_length_def)
qed

text \<open>A string that fits into the destination is read back completely.\<close>

lemma read_string_fits:
  assumes "inv b" "rest b = enc_string str @ r" "length str < 2 ^ 31"
    and "MaxLength < 0 \<or> int (length str) < MaxLength"
  shows "\<exists>b'. TReadStream_read_string V True MaxLength b = Inr (str, b') \<and> inv b' \<and> rest b' = r"
proof -
  obtain b1 where "read_string_length V b = Inr (int (length str), b1)" and b1: "inv b1" "rest b1 = str @ r"
    using read_length [OF assms(1-3)] by blast
  then have "TReadStream_read_string V True MaxLength b =
      (if length str > 0 then v_readBytes V True (int (length str)) b1 else Inr ([], b1))"
    using assms(4) by (auto simp: TReadStream_read_string_def)
  then show ?thesis
    using readBytes [OF b1] b1 by auto
qed

text \<open>
  A longer string is cut to \<open>MaxLength - 1\<close> characters, and the rest of it is skipped, so that
  the stream stands behind the string in both cases.
\<close>

lemma read_string_truncated:
  assumes "inv b" "rest b = enc_string str @ r" "length str < 2 ^ 31"
    and "1 < MaxLength" "MaxLength \<le> int (length str)"
  shows "\<exists>b'. TReadStream_read_string V True MaxLength b = Inr (take (nat MaxLength - 1) str, b') \<and>
    inv b' \<and> rest b' = r"
proof -
  let ?n = "nat MaxLength - 1"
  obtain b1 where "read_string_length V b = Inr (int (length str), b1)" and b1: "inv b1" "rest b1 = str @ r"
    using read_length [OF assms(1-3)] by blast
  then have rs: "TReadStream_read_string V True MaxLength b =
      sbind (v_readBytes V True (MaxLength - 1) b1) (\<lambda>(text, s).
        sbind (v_skip V (int (length str) - MaxLength + 1) s) (\<lambda>s. Inr (text, s)))"
    using assms(4,5) by (auto simp: TReadStream_read_string_def)
  have n: "?n < length str" "int ?n = MaxLength - 1"
    using assms(4,5) by auto
  then have "rest b1 = take ?n str @ drop ?n str @ r" "take ?n str \<noteq> []" "length (take ?n str) = ?n"
    using b1 assms(4) by auto
  from readBytes [OF b1(1) this(1,2), unfolded this(3) n(2)] obtain b2 where b2:
      "v_readBytes V True (MaxLength - 1) b1 = Inr (take ?n str, b2)" "inv b2" "rest b2 = drop ?n str @ r"
    by blast
  from skip [OF b2(2,3)] n have "\<exists>b'. v_skip V (int (length str) - MaxLength + 1) b2 = Inr b' \<and> inv b' \<and> rest b' = r"
    by (simp add: of_nat_diff algebra_simps)
  then show ?thesis using rs b2(1) by auto
qed

end

section \<open>TReadBuffer is a source\<close>

definition rb_inv :: "TReadBuffer \<Rightarrow> bool" where
  "rb_inv b \<longleftrightarrow> 0 \<le> rPosition b \<and> rPosition b \<le> rSize b \<and> rSize b \<le> int (length (rData b))"

definition rb_rest :: "TReadBuffer \<Rightarrow> u8 list" where
  "rb_rest b = drop (nat (rPosition b)) (take (nat (rSize b)) (rData b))"

lemma rb_inv_new: "0 \<le> n \<Longrightarrow> n \<le> int (length d) \<Longrightarrow> rb_inv (TReadBuffer_new (Some d) n)"
  by (simp add: TReadBuffer_new_def rb_inv_def)

lemma rb_rest_new: "rb_rest (TReadBuffer_new (Some d) (int (length d))) = d"
  by (simp add: TReadBuffer_new_def rb_rest_def)

lemma length_rb_rest: "rb_inv b \<Longrightarrow> int (length (rb_rest b)) = rSize b - rPosition b"
  by (auto simp: rb_inv_def rb_rest_def min_def)

lemma rb_rest_nth:
  "rb_inv b \<Longrightarrow> i < length (rb_rest b) \<Longrightarrow> rb_rest b ! i = rData b ! nat (rPosition b + int i)"
  by (auto simp: rb_inv_def rb_rest_def nat_add_distrib)

lemma rb_inv_rMove: "rb_inv b \<Longrightarrow> 0 \<le> n \<Longrightarrow> n \<le> rSize b - rPosition b \<Longrightarrow> rb_inv (rMove b n)"
  by (auto simp: rb_inv_def rMove_def)

lemma rb_rest_rMove: "rb_inv b \<Longrightarrow> 0 \<le> n \<Longrightarrow> rb_rest (rMove b n) = drop (nat n) (rb_rest b)"
  by (auto simp: rb_inv_def rMove_def rb_rest_def nat_add_distrib add.commute)

lemma rByte_rest:
  assumes "rb_inv b" "i < length (rb_rest b)"
  shows "rByte b (int i) = Inr (rb_rest b ! i)"
  using assms rb_rest_nth [OF assms] length_rb_rest [OF assms(1)]
  by (auto simp: rByte_def rb_inv_def)

text \<open>The four reads, in terms of the bytes that are left.\<close>

lemma readByte_eq [buffer_simps]:
  assumes "rb_inv b"
  shows "TReadBuffer_readByte b =
    (if rb_rest b = [] then Inl BufferEmpty else Inr (rb_rest b ! 0, rMove b 1))"
  using rByte_rest [OF assms, of 0] length_rb_rest [OF assms]
  by (cases "rb_rest b") (auto simp: TReadBuffer_readByte_def)

lemma readWord_eq [buffer_simps]:
  assumes "rb_inv b"
  shows "TReadBuffer_readWord b =
    (if length (rb_rest b) < 2 then Inl BufferEmpty
     else Inr (push_bit 8 (ucast (rb_rest b ! 1)) OR ucast (rb_rest b ! 0), rMove b 2))"
  using rByte_rest [OF assms, of 0] rByte_rest [OF assms, of 1] length_rb_rest [OF assms]
  by (auto simp: TReadBuffer_readWord_def simp del: length_greater_0_conv)

lemma readQuad_eq [buffer_simps]:
  assumes "rb_inv b"
  shows "TReadBuffer_readQuad b =
    (if length (rb_rest b) < 4 then Inl BufferEmpty
     else Inr (push_bit 24 (ucast (rb_rest b ! 3)) OR push_bit 16 (ucast (rb_rest b ! 2))
               OR push_bit 8 (ucast (rb_rest b ! 1)) OR ucast (rb_rest b ! 0), rMove b 4))"
  using rByte_rest [OF assms, of 0] rByte_rest [OF assms, of 1] rByte_rest [OF assms, of 2]
    rByte_rest [OF assms, of 3] length_rb_rest [OF assms]
  by (auto simp: TReadBuffer_readQuad_def simp del: length_greater_0_conv)

lemma readBytes_eq [buffer_simps]:
  assumes "rb_inv b" "0 < n"
  shows "TReadBuffer_readBytes True n b =
    (if int (length (rb_rest b)) < n then Inl BufferEmpty
     else Inr (take (nat n) (rb_rest b), rMove b n))"
  using assms length_rb_rest [OF assms(1)]
  by (auto simp: TReadBuffer_readBytes_def rb_inv_def rb_rest_def drop_take min_def)

lemma skip_eq [buffer_simps]:
  assumes "rb_inv b"
  shows "TReadBuffer_skip n b = (if int (length (rb_rest b)) < n then Inl BufferEmpty else Inr (rMove b n))"
  using length_rb_rest [OF assms] by (auto simp: TReadBuffer_skip_def)

lemma rb_advance:
  assumes "rb_inv b" "rb_rest b = xs @ r"
  shows "rb_inv (rMove b (int (length xs)))" "rb_rest (rMove b (int (length xs))) = r"
  using assms length_rb_rest [OF assms(1)] by (simp_all add: rb_inv_rMove rb_rest_rMove)

interpretation rb: byte_source TReadBuffer_vt rb_inv rb_rest
proof (unfold_locales, goal_cases)
  case (1 b x r)
  then show ?case using rb_advance [of b "[x]" r] by (simp add: TReadBuffer_vt_def buffer_simps)
next
  case (2 b w r)
  then show ?case
    using rb_advance [of b "le16 w" r] u16_from_bytes [of w]
    by (simp add: TReadBuffer_vt_def buffer_simps le16_def)
next
  case (3 b q r)
  then show ?case
    using rb_advance [of b "le32 q" r] u32_from_bytes [of q]
    by (simp add: TReadBuffer_vt_def buffer_simps le32_def numeral_2_eq_2 numeral_3_eq_3)
next
  case (4 b bs r)
  then show ?case using rb_advance [of b bs r] by (simp add: TReadBuffer_vt_def buffer_simps)
next
  case (5 b bs r)
  then show ?case using rb_advance [of b bs r] by (simp add: TReadBuffer_vt_def buffer_simps)
qed

section \<open>The write buffers are sinks\<close>

definition wb_inv :: "TWriteBuffer \<Rightarrow> bool" where
  "wb_inv b \<longleftrightarrow> 0 \<le> wPosition b \<and> wPosition b \<le> wSize b \<and> wSize b = int (length (wData b))"

definition wb_content :: "TWriteBuffer \<Rightarrow> u8 list" where
  "wb_content b = take (nat (wPosition b)) (wData b)"

definition wb_room :: "TWriteBuffer \<Rightarrow> nat \<Rightarrow> bool" where
  "wb_room b n \<longleftrightarrow> int n \<le> wSize b - wPosition b"

lemma wb_inv_new: "wb_inv (TWriteBuffer_new (Some d) (int (length d)))"
  by (simp add: TWriteBuffer_new_def wb_inv_def)

lemma wb_content_new [simp]: "wb_content (TWriteBuffer_new d n) = []"
  by (simp add: TWriteBuffer_new_def wb_content_def split: option.split)

lemma wStore_room:
  assumes "wb_inv b" "wb_room b (length bs + n)"
  shows "\<exists>b'. wStore b bs = Inr b' \<and> wb_inv b' \<and> wb_content b' = wb_content b @ bs \<and> wb_room b' n"
proof -
  have "nat (wPosition b) + length bs \<le> length (wData b)"
    using assms by (auto simp: wb_inv_def wb_room_def)
  moreover from this have "nat (wPosition b + int (length bs)) = nat (wPosition b) + length bs"
    using assms by (auto simp: wb_inv_def)
  ultimately show ?thesis
    using assms by (auto simp: wStore_def wb_inv_def wb_room_def wb_content_def take_arr_copy)
qed

lemma wb_room_mono: "wb_room b (m + n) \<Longrightarrow> wb_room b m"
  by (simp add: wb_room_def)

interpretation wb: byte_sink TWriteBuffer_vt wb_inv wb_content wb_room
proof (unfold_locales, goal_cases)
  case (1 b n x)
  then show ?case
    using wStore_room [of b "[x]" n] by (auto simp: TWriteBuffer_vt_def TWriteBuffer_writeByte_def wb_room_def)
next
  case (2 b n w)
  then show ?case
    using wStore_room [of b "le16 w" n]
    by (auto simp: TWriteBuffer_vt_def TWriteBuffer_writeWord_def wb_room_def le16_def)
next
  case (3 b n q)
  then show ?case
    using wStore_room [of b "le32 q" n]
    by (auto simp: TWriteBuffer_vt_def TWriteBuffer_writeQuad_def wb_room_def le32_def)
next
  case (4 b bs n)
  then show ?case
    using wStore_room [of b bs n]
    by (auto simp: TWriteBuffer_vt_def TWriteBuffer_writeBytes_def wb_room_def)
qed

text \<open>
  The dynamic buffer: growing keeps the content, and the loop that grows it ends, since a
  positive size doubles in each iteration.
\<close>

definition db_inv :: "TWriteBuffer \<Rightarrow> bool" where
  "db_inv b \<longleftrightarrow> wb_inv b \<and> 0 < wSize b"

lemma db_inv_new: "0 < n \<Longrightarrow> db_inv (TDynamicWriteBuffer_new junk n)"
  by (simp add: TDynamicWriteBuffer_new_def TWriteBuffer_new_def db_inv_def wb_inv_def)

lemma resizeBuffer_keeps:
  assumes "db_inv b"
  shows "db_inv (resizeBuffer junk b)" "wb_content (resizeBuffer junk b) = wb_content b"
    "wSize b < wSize (resizeBuffer junk b)" "wPosition (resizeBuffer junk b) = wPosition b"
proof -
  have len: "length (take (nat (wSize b)) (wData b)) = nat (wSize b)" "nat (wSize b) \<le> nat (wSize b * 2)"
    using assms by (auto simp: db_inv_def wb_inv_def)
  then show "db_inv (resizeBuffer junk b)"
    using assms by (auto simp: resizeBuffer_def db_inv_def wb_inv_def Let_def)
  have "nat (wPosition b) \<le> nat (wSize b)"
    using assms by (auto simp: db_inv_def wb_inv_def)
  then show "wb_content (resizeBuffer junk b) = wb_content b"
    using len by (auto simp: resizeBuffer_def wb_content_def Let_def arr_copy_def min_def)
  show "wSize b < wSize (resizeBuffer junk b)" "wPosition (resizeBuffer junk b) = wPosition b"
    using assms by (auto simp: resizeBuffer_def db_inv_def Let_def)
qed

lemma dynReserve_returns:
  assumes "db_inv b"
  shows "\<exists>b'. dynReserve junk n b = Inr b' \<and> db_inv b' \<and> wb_content b' = wb_content b \<and>
    n \<le> wSize b' - wPosition b'"
proof -
  let ?P = "\<lambda>c. db_inv c \<and> wb_content c = wb_content b \<and> wPosition c = wPosition b"
  have "\<exists>t. while_option (\<lambda>b. wSize b - wPosition b < n) (resizeBuffer junk) b = Some t \<and> ?P t \<and>
      \<not> (wSize t - wPosition t < n)"
    by (rule while_option_total [where P = ?P and m = "\<lambda>c. nat (n + wPosition c - wSize c)"])
      (use assms in \<open>auto simp: resizeBuffer_keeps\<close>)
  then show ?thesis by (auto simp: dynReserve_def)
qed

lemma dyn_store:
  assumes "db_inv b"
  shows "\<exists>b'. sbind (dynReserve junk (int (length bs)) b) (\<lambda>b. wStore b bs) = Inr b' \<and> db_inv b' \<and>
    wb_content b' = wb_content b @ bs"
proof -
  obtain b1 where b1: "dynReserve junk (int (length bs)) b = Inr b1" "db_inv b1"
      "wb_content b1 = wb_content b" "int (length bs) \<le> wSize b1 - wPosition b1"
    using dynReserve_returns [OF assms] by blast
  then obtain b2 where b2: "wStore b1 bs = Inr b2" "wb_inv b2" "wb_content b2 = wb_content b1 @ bs"
    using wStore_room [of b1 bs 0] by (auto simp: db_inv_def wb_room_def)
  moreover have "wSize b2 = wSize b1"
    using b2(1) by (auto simp: wStore_def split: if_splits)
  ultimately show ?thesis using b1 by (auto simp: db_inv_def)
qed

interpretation db: byte_sink "TDynamicWriteBuffer_vt junk" db_inv wb_content "\<lambda>_ _. True"
  for junk
proof (unfold_locales, goal_cases)
  case (1 b n x)
  then show ?case
    using dyn_store [of b junk "[x]"] by (simp add: TDynamicWriteBuffer_vt_def TDynamicWriteBuffer_writeByte_def)
next
  case (2 b n w)
  then show ?case
    using dyn_store [of b junk "le16 w"]
    by (simp add: TDynamicWriteBuffer_vt_def TDynamicWriteBuffer_writeWord_def le16_def)
next
  case (3 b n q)
  then show ?case
    using dyn_store [of b junk "le32 q"]
    by (simp add: TDynamicWriteBuffer_vt_def TDynamicWriteBuffer_writeQuad_def le32_def)
next
  case (4 b bs n)
  then show ?case
    using dyn_store [of b junk bs] by (simp add: TDynamicWriteBuffer_vt_def TDynamicWriteBuffer_writeBytes_def)
qed

section \<open>Equivalence with the base-class methods\<close>

text \<open>
  \<open>TReadBuffer\<close> overrides \<open>readWord\<close>, \<open>readQuad\<close> and \<open>readBytes\<close> with versions that check the
  size once. Where enough bytes are left, they agree with the byte-wise versions of
  \<open>TReadStream\<close>; otherwise both throw.
\<close>

lemma rMove_rMove [simp]: "rMove (rMove b m) n = rMove b (m + n)"
  by (simp add: rMove_def add.assoc)

lemma readByte_at:
  assumes "rb_inv b" "i < length (rb_rest b)"
  shows "TReadBuffer_readByte (rMove b (int i)) = Inr (rb_rest b ! i, rMove b (int i + 1))"
  using assms length_rb_rest [OF assms(1)]
  by (simp add: readByte_eq rb_inv_rMove rb_rest_rMove)

lemma readByte_at_0:
  assumes "rb_inv b" "0 < length (rb_rest b)"
  shows "TReadBuffer_readByte b = Inr (rb_rest b ! 0, rMove b 1)"
  using assms by (simp add: readByte_eq)

lemma readByte_end:
  assumes "rb_inv b"
  shows "TReadBuffer_readByte (rMove b (int (length (rb_rest b)))) = Inl BufferEmpty"
  using assms length_rb_rest [OF assms] by (simp add: readByte_eq rb_inv_rMove rb_rest_rMove)

lemma readWord_base_eq:
  assumes "rb_inv b"
  shows "TReadBuffer_readWord b = TReadStream_readWord TReadBuffer_readByte b"
proof -
  consider "rb_rest b = []" | x where "rb_rest b = [x]" | x y r where "rb_rest b = x # y # r"
    by (cases "rb_rest b" rule: remdups_adj.cases) auto
  then show ?thesis
    using assms readByte_at [OF assms, of 1] readByte_at_0 [OF assms] readByte_end [OF assms]
    by cases (auto simp: TReadStream_readWord_def buffer_simps)
qed

lemma readBytes_loop_eq:
  assumes "rb_inv b"
  shows "readBytes_loop TReadBuffer_readByte n b =
    (if length (rb_rest b) < n then Inl BufferEmpty else Inr (take n (rb_rest b), rMove b (int n)))"
  using assms
proof (induction n arbitrary: b)
  case 0
  then show ?case by (simp add: rMove_def)
next
  case (Suc n)
  show ?case
  proof (cases "rb_rest b")
    case Nil
    then show ?thesis using Suc.prems by (simp add: readByte_eq)
  next
    case (Cons x r)
    then have "rb_inv (rMove b 1)" "rb_rest (rMove b 1) = r"
      using rb_advance [OF Suc.prems, of "[x]" r] by simp_all
    with Cons Suc.IH [of "rMove b 1"] show ?thesis
      using Suc.prems by (simp add: readByte_eq add.commute)
  qed
qed

lemma readBytes_base_eq:
  assumes "rb_inv b" "0 < n"
  shows "TReadBuffer_readBytes True n b = TReadStream_readBytes TReadBuffer_readByte True n b"
  using assms by (auto simp: TReadStream_readBytes_def readBytes_loop_eq readBytes_eq)

lemma readQuad_base_eq:
  assumes "rb_inv b"
  shows "TReadBuffer_readQuad b = TReadStream_readQuad TReadBuffer_readByte b"
proof -
  consider "rb_rest b = []" | x where "rb_rest b = [x]" | x y where "rb_rest b = [x, y]"
    | x y z where "rb_rest b = [x, y, z]" | x y z v r where "rb_rest b = x # y # z # v # r"
    by (metis neq_Nil_conv)
  then show ?thesis
    using assms readByte_at [OF assms, of 1] readByte_at [OF assms, of 2] readByte_at [OF assms, of 3]
      readByte_at_0 [OF assms] readByte_end [OF assms]
    by cases (auto simp: TReadStream_readQuad_def buffer_simps numeral_2_eq_2 numeral_3_eq_3)
qed

text \<open>The reads stay inside the array: they throw or move forward, and keep the invariant.\<close>

lemma read_ops_safe:
  assumes "rb_inv b"
  shows "TReadBuffer_readByte b \<noteq> Inl Undefined" "TReadBuffer_readWord b \<noteq> Inl Undefined"
    "TReadBuffer_readQuad b \<noteq> Inl Undefined" "TReadBuffer_readBytes p n b \<noteq> Inl Undefined"
    "TReadBuffer_readByte b = Inr (x, b1) \<Longrightarrow> rb_inv b1"
    "TReadBuffer_readWord b = Inr (w, b1) \<Longrightarrow> rb_inv b1"
    "TReadBuffer_readQuad b = Inr (q, b1) \<Longrightarrow> rb_inv b1"
    "TReadBuffer_readBytes p n b = Inr (bs, b1) \<Longrightarrow> rb_inv b1"
    "0 \<le> n \<Longrightarrow> TReadBuffer_skip n b = Inr b1 \<Longrightarrow> rb_inv b1"
  using assms length_rb_rest [OF assms] Suc_le_length_iff [of 0 "rb_rest b"]
  by (auto simp: buffer_simps TReadBuffer_readBytes_def rb_inv_def rMove_def neq_Nil_conv split: if_splits)

section \<open>Properties\<close>

text \<open>
  C37: A string written to a \<open>TWriteBuffer\<close> that has room for it is read back unchanged by a
  \<open>TReadBuffer\<close> over the written bytes, for short strings (two-byte length) and long ones (escape
  0xFFFF and four-byte length) alike, whenever the destination can hold it; the reader is then at
  the end of the data.
\<close>

theorem write_read_string_roundtrip:
  assumes "wb_inv b" "wb_room b (length (enc_string str))" "length str < 2 ^ 31"
    and "MaxLength < 0 \<or> int (length str) < MaxLength"
  shows "\<exists>b' r. TWriteStream_write_string TWriteBuffer_vt (Some str) b = Inr b' \<and>
    TReadStream_read_string TReadBuffer_vt True MaxLength
      \<lparr>rData = wData b', rSize = wPosition b', rPosition = wPosition b\<rparr> = Inr (str, r) \<and>
    TReadBuffer_eof r"
proof -
  obtain b' where b': "TWriteStream_write_string TWriteBuffer_vt (Some str) b = Inr b'" "wb_inv b'"
      "wb_content b' = wb_content b @ enc_string str"
    using wb.write_string [of b str 0] assms(1,2) by auto
  let ?r = "\<lparr>rData = wData b', rSize = wPosition b', rPosition = wPosition b\<rparr>"
  have len: "nat (wPosition b') = nat (wPosition b) + length (enc_string str)"
    using arg_cong [OF b'(3), of length] assms(1) b'(2) by (auto simp: wb_content_def wb_inv_def)
  have inv: "rb_inv ?r"
    using assms(1) b'(2) len by (auto simp: rb_inv_def wb_inv_def)
  have "rb_rest ?r = drop (nat (wPosition b)) (wb_content b')"
    by (simp add: rb_rest_def wb_content_def)
  also have "\<dots> = enc_string str @ []"
    using assms(1) unfolding b'(3) by (auto simp: wb_content_def wb_inv_def min_def)
  finally obtain r where "TReadStream_read_string TReadBuffer_vt True MaxLength ?r = Inr (str, r)"
      "rb_inv r" "rb_rest r = []"
    using rb.read_string_fits [OF inv _ assms(3,4)] by blast
  with b'(1) length_rb_rest [of r] show ?thesis by (auto simp: TReadBuffer_eof_def)
qed

theorem write_read_string_roundtrip_witness:
  "\<exists>b' r. TWriteStream_write_string TWriteBuffer_vt (Some [72, 105]) \<lparr>wData = replicate 8 0, wSize = 8, wPosition = 1\<rparr> = Inr b' \<and>
    TReadStream_read_string TReadBuffer_vt True 3 \<lparr>rData = wData b', rSize = wPosition b', rPosition = 1\<rparr>
      = Inr ([72, 105], r) \<and> TReadBuffer_eof r"
  using write_read_string_roundtrip [of "\<lparr>wData = replicate 8 0, wSize = 8, wPosition = 1\<rparr>" "[72, 105]" 3]
  by (simp add: wb_inv_def wb_room_def enc_string_def)

text \<open>
  C38: A string that is longer than a destination of at least two bytes allows is cut to \<open>MaxLength - 1\<close> characters and
  the rest is skipped: the reader stands behind the whole string, so the fields that follow it are
  read correctly.
\<close>

theorem read_string_cuts:
  assumes "rb_inv b" "rb_rest b = enc_string str @ r" "length str < 2 ^ 31"
    and "1 < MaxLength" "MaxLength \<le> int (length str)"
  shows "\<exists>b'. TReadStream_read_string TReadBuffer_vt True MaxLength b = Inr (take (nat MaxLength - 1) str, b') \<and>
    rb_inv b' \<and> rb_rest b' = r"
  using assms by (rule rb.read_string_truncated)

theorem read_string_cuts_witness:
  "\<exists>b'. TReadStream_read_string TReadBuffer_vt True 3 (TReadBuffer_new (Some [4, 0, 65, 66, 67, 68, 7]) 7) = Inr ([65, 66], b') \<and>
    rb_inv b' \<and> rb_rest b' = [7]"
  using read_string_cuts [of "TReadBuffer_new (Some [4, 0, 65, 66, 67, 68, 7]) 7" "[65, 66, 67, 68]" "[7]" 3]
  by (simp add: TReadBuffer_new_def rb_inv_def rb_rest_def enc_string_def le16_def)

text \<open>
  With a destination of one byte, reading a non-empty string throws instead of storing the
  empty string: \<open>read_string\<close> asks for \<open>MaxLength - 1 = 0\<close> bytes, and \<open>TReadBuffer::readBytes\<close>
  rejects a count of zero.
\<close>

theorem read_string_one_byte_throws:
  assumes "rb_inv b" "rb_rest b = enc_string str @ r" "length str < 2 ^ 31" "str \<noteq> []"
  shows "TReadStream_read_string TReadBuffer_vt True 1 b = Inl BufferNotExisting"
proof -
  obtain b1 where "read_string_length TReadBuffer_vt b = Inr (int (length str), b1)"
    using rb.read_length [OF assms(1-3)] by blast
  moreover have "1 \<le> int (length str)"
    using assms(4) by (cases str) auto
  ultimately show ?thesis
    using assms(4) by (simp add: TReadStream_read_string_def TReadBuffer_vt_def TReadBuffer_readBytes_def)
qed

theorem read_string_one_byte_throws_witness:
  "TReadStream_read_string TReadBuffer_vt True 1 (TReadBuffer_new (Some [1, 0, 65]) 3) = Inl BufferNotExisting"
  using read_string_one_byte_throws [of "TReadBuffer_new (Some [1, 0, 65]) 3" "[65]" "[]"]
  by (simp add: TReadBuffer_new_def rb_inv_def rb_rest_def enc_string_def le16_def)

text \<open>
  The single-check \<open>readWord\<close>, \<open>readQuad\<close> and \<open>readBytes\<close> of \<open>TReadBuffer\<close> compute what the
  byte-wise versions of the base class \<open>TReadStream\<close> compute over \<open>TReadBuffer::readByte\<close>: the
  same value and position when the bytes are there, the same exception when they are not.
\<close>

theorem read_overrides_agree:
  assumes "rb_inv b" "0 < n"
  shows "TReadBuffer_readWord b = TReadStream_readWord TReadBuffer_readByte b \<and>
    TReadBuffer_readQuad b = TReadStream_readQuad TReadBuffer_readByte b \<and>
    TReadBuffer_readBytes True n b = TReadStream_readBytes TReadBuffer_readByte True n b"
  using readWord_base_eq [OF assms(1)] readQuad_base_eq [OF assms(1)] readBytes_base_eq [OF assms] by blast

theorem read_overrides_agree_witness:
  "TReadBuffer_readQuad (TReadBuffer_new (Some [1, 2, 3]) 3)
     = TReadStream_readQuad TReadBuffer_readByte (TReadBuffer_new (Some [1, 2, 3]) 3)"
  using read_overrides_agree [of "TReadBuffer_new (Some [1, 2, 3]) 3" 2]
  by (simp add: TReadBuffer_new_def rb_inv_def)

text \<open>
  A \<open>TDynamicWriteBuffer\<close> created with a positive size never runs full: every string write
  returns (the loop that doubles the buffer ends), keeps everything written before and appends
  the encoded string, whatever the contents of freshly allocated memory.
\<close>

theorem dynamic_write_string_total:
  assumes "db_inv b"
  shows "\<exists>b'. TWriteStream_write_string (TDynamicWriteBuffer_vt junk) (Some str) b = Inr b' \<and> db_inv b' \<and>
    wb_content b' = wb_content b @ enc_string str"
  using db.write_string [OF assms] by blast

theorem dynamic_write_string_total_witness:
  "\<exists>b'. TWriteStream_write_string (TDynamicWriteBuffer_vt (\<lambda>_. 0)) (Some [1, 2, 3])
      (TDynamicWriteBuffer_new (\<lambda>_. 0) 1) = Inr b' \<and> db_inv b' \<and> wb_content b' = [3, 0, 1, 2, 3]"
  using dynamic_write_string_total [OF db_inv_new [of 1 "\<lambda>_. 0"], of "\<lambda>_. 0" "[1, 2, 3]"]
  by (simp add: TDynamicWriteBuffer_new_def enc_string_def le16_def)

end
