(* ===== verification/Xtea.thy ===== *)
theory Xtea
  imports Streams
begin

text \<open>
  \<open>crypto/xtea/xtea.cpp\<close>: the symmetric cipher of the game protocol. The key is an array of four
  quads; a block is eight bytes, read and written as two 32-bit values. The processor is
  little-endian, as the source assumes.
\<close>

section \<open>Definitions\<close>

record XteaSymmetricKey =
  m_SymmetricKey :: "u32 list"

definition XteaSymmetricKey_init :: "TReadBuffer \<Rightarrow> stream_error + (XteaSymmetricKey \<times> TReadBuffer)" where
  "XteaSymmetricKey_init b =
     sbind (TReadBuffer_readQuad b) (\<lambda>(k0, b).
     sbind (TReadBuffer_readQuad b) (\<lambda>(k1, b).
     sbind (TReadBuffer_readQuad b) (\<lambda>(k2, b).
     sbind (TReadBuffer_readQuad b) (\<lambda>(k3, b).
     Inr (\<lparr>m_SymmetricKey = [k0, k1, k2, k3]\<rparr>, b)))))"

definition Delta :: u32 where
  "Delta = 0x9E3779B9"

text \<open>The term \<open>((V << 4) ^ (V >> 5)) + V\<close>, and the key word of a round.\<close>

definition mix :: "u32 \<Rightarrow> u32" where
  "mix V = (push_bit 4 V XOR drop_bit 5 V) + V"

definition key_at :: "XteaSymmetricKey \<Rightarrow> u32 \<Rightarrow> u32" where
  "key_at K i = m_SymmetricKey K ! unat (i AND 3)"

text \<open>The loop bodies, on \<open>(V0, V1, Sum)\<close>.\<close>

definition encrypt_round :: "XteaSymmetricKey \<Rightarrow> u32 \<times> u32 \<times> u32 \<Rightarrow> u32 \<times> u32 \<times> u32" where
  "encrypt_round K = (\<lambda>(V0, V1, Sum).
     let V0 = V0 + (mix V1 XOR (Sum + key_at K Sum));
         Sum = Sum + Delta;
         V1 = V1 + (mix V0 XOR (Sum + key_at K (drop_bit 11 Sum)))
     in (V0, V1, Sum))"

definition decrypt_round :: "XteaSymmetricKey \<Rightarrow> u32 \<times> u32 \<times> u32 \<Rightarrow> u32 \<times> u32 \<times> u32" where
  "decrypt_round K = (\<lambda>(V0, V1, Sum).
     let V1 = V1 - (mix V0 XOR (Sum + key_at K (drop_bit 11 Sum)));
         Sum = Sum - Delta;
         V0 = V0 - (mix V1 XOR (Sum + key_at K Sum))
     in (V0, V1, Sum))"

text \<open>The eight bytes at \<open>Data\<close> as two quads, and back.\<close>

definition load_block :: "u8 list \<Rightarrow> u32 \<times> u32" where
  "load_block Data = (read_u32_le Data, read_u32_le (drop 4 Data))"

definition store_block :: "u8 list \<Rightarrow> u32 \<Rightarrow> u32 \<Rightarrow> u8 list" where
  "store_block Data V0 V1 = arr_copy Data 0 (le32 V0 @ le32 V1)"

definition encrypt :: "XteaSymmetricKey \<Rightarrow> u8 list \<Rightarrow> u8 list" where
  "encrypt K Data =
     (let (V0, V1) = load_block Data;
          (V0, V1, Sum) = (encrypt_round K ^^ 32) (V0, V1, 0)
      in store_block Data V0 V1)"

definition decrypt :: "XteaSymmetricKey \<Rightarrow> u8 list \<Rightarrow> u8 list" where
  "decrypt K Data =
     (let (V0, V1) = load_block Data;
          (V0, V1, Sum) = (decrypt_round K ^^ 32) (V0, V1, 0xC6EF3720)
      in store_block Data V0 V1)"

section \<open>Lemmas\<close>

lemma read_u32_le_bytes: "read_u32_le (le32 w @ r) = w"
  using u32_from_bytes [of w]
  by (simp add: read_u32_le_def le32_def numeral_2_eq_2 numeral_3_eq_3 ac_simps)

lemma le32_read_u32_le:
  "le32 (read_u32_le (a # b # c # d # r)) = [a, b, c, d]"
proof -
  let ?w = "read_u32_le (a # b # c # d # r)"
  have bit: "bit ?w n \<longleftrightarrow> n < 32 \<and> (if n < 8 then bit a n else if n < 16 then bit b (n - 8)
      else if n < 24 then bit c (n - 16) else bit d (n - 24))" for n
    using bit_imp_le_length [where 'a = 8, of a n] bit_imp_le_length [where 'a = 8, of b "n - 8"]
      bit_imp_le_length [where 'a = 8, of c "n - 16"]
    by (auto simp: read_u32_le_def numeral_2_eq_2 numeral_3_eq_3 bit_simps)
  have "ucast ?w = a" "ucast (drop_bit 8 ?w) = b" "ucast (drop_bit 16 ?w) = c" "ucast (drop_bit 24 ?w) = d"
    by (rule bit_word_eqI; simp add: bit bit_simps add.commute)+
  then show ?thesis by (simp add: le32_def)
qed

lemma load_store_block: "8 \<le> length D \<Longrightarrow> load_block (store_block D V0 V1) = (V0, V1)"
  by (simp add: load_block_def store_block_def arr_copy_def read_u32_le_bytes)

lemma store_load_block:
  assumes "8 \<le> length D" "load_block D = (V0, V1)"
  shows "store_block D V0 V1 = D"
proof -
  obtain a b c d e f g h r where D: "D = a # b # c # d # e # f # g # h # r"
    using assms(1) by (auto simp: numeral_eq_Suc Suc_le_length_iff)
  show ?thesis
    using assms(2) by (auto simp: D load_block_def store_block_def arr_copy_def le32_read_u32_le)
qed

lemma store_store_block:
  "8 \<le> length D \<Longrightarrow> store_block (store_block D V0 V1) W0 W1 = store_block D W0 W1"
  by (simp add: store_block_def arr_copy_def)

lemma length_store_block: "8 \<le> length D \<Longrightarrow> length (store_block D V0 V1) = length D"
  by (simp add: store_block_def)

text \<open>A decryption round undoes an encryption round, and the other way round.\<close>

lemma decrypt_encrypt_round [simp]: "decrypt_round K (encrypt_round K s) = s"
  by (cases s) (simp add: encrypt_round_def decrypt_round_def Let_def)

lemma encrypt_decrypt_round [simp]: "encrypt_round K (decrypt_round K s) = s"
  by (cases s) (simp add: encrypt_round_def decrypt_round_def Let_def)

lemma decrypt_encrypt_rounds: "(decrypt_round K ^^ n) ((encrypt_round K ^^ n) s) = s"
  by (induction n arbitrary: s) (simp_all add: funpow_swap1)

lemma encrypt_decrypt_rounds: "(encrypt_round K ^^ n) ((decrypt_round K ^^ n) s) = s"
  by (induction n arbitrary: s) (simp_all add: funpow_swap1)

lemma encrypt_rounds_Sum: "snd (snd ((encrypt_round K ^^ n) (V0, V1, S))) = S + of_nat n * Delta"
proof (induction n)
  case (Suc n)
  then show ?case
    by (cases "(encrypt_round K ^^ n) (V0, V1, S)") (simp add: encrypt_round_def Let_def algebra_simps)
qed simp

lemma decrypt_rounds_Sum: "snd (snd ((decrypt_round K ^^ n) (V0, V1, S))) = S - of_nat n * Delta"
proof (induction n)
  case (Suc n)
  then show ?case
    by (cases "(decrypt_round K ^^ n) (V0, V1, S)") (simp add: decrypt_round_def Let_def algebra_simps)
qed simp

text \<open>The start value of the decryption is the value of \<open>Sum\<close> after 32 encryption rounds.\<close>

lemma final_Sum: "of_nat 32 * Delta = 0xC6EF3720"
  by (simp add: Delta_def)

lemma length_encrypt: "8 \<le> length D \<Longrightarrow> length (encrypt K D) = length D"
  by (auto simp: encrypt_def Let_def length_store_block split: prod.split)

lemma encrypt_eq:
  assumes "load_block D = (V0, V1)" "(encrypt_round K ^^ 32) (V0, V1, 0) = (W0, W1, S)"
  shows "encrypt K D = store_block D W0 W1" "S = 0xC6EF3720"
  using assms encrypt_rounds_Sum [of 32 K V0 V1 0] final_Sum by (simp_all add: encrypt_def)

lemma decrypt_eq:
  assumes "load_block D = (V0, V1)" "(decrypt_round K ^^ 32) (V0, V1, 0xC6EF3720) = (W0, W1, S)"
  shows "decrypt K D = store_block D W0 W1" "S = 0"
  using assms decrypt_rounds_Sum [of 32 K V0 V1 "0xC6EF3720"] final_Sum by (simp_all add: decrypt_def)

section \<open>Properties\<close>

text \<open>
  C39: \<open>decrypt\<close> and \<open>encrypt\<close> are inverse to each other on every block and for every key: the 32
  rounds run backwards from \<open>Sum = 0xC6EF3720\<close>, the value that 32 additions of \<open>Delta\<close> reach; bytes
  behind the block are not touched.
\<close>

theorem xtea_roundtrip:
  assumes "8 \<le> length D"
  shows "decrypt K (encrypt K D) = D \<and> encrypt K (decrypt K D) = D \<and> drop 8 (encrypt K D) = drop 8 D"
proof -
  obtain V0 V1 where l: "load_block D = (V0, V1)" by fastforce
  obtain W0 W1 S where e: "(encrypt_round K ^^ 32) (V0, V1, 0) = (W0, W1, S)"
    by (metis prod_cases3)
  note E = encrypt_eq [OF l e]
  have "(decrypt_round K ^^ 32) (W0, W1, 0xC6EF3720) = (V0, V1, 0)"
    using decrypt_encrypt_rounds [of 32 K "(V0, V1, 0)"] e E(2) by simp
  from decrypt_eq(1) [OF load_store_block [OF assms] this] have de: "decrypt K (encrypt K D) = D"
    using assms l by (simp add: E store_store_block store_load_block)
  obtain X0 X1 T where d: "(decrypt_round K ^^ 32) (V0, V1, 0xC6EF3720) = (X0, X1, T)"
    by (metis prod_cases3)
  note D = decrypt_eq [OF l d]
  have "(encrypt_round K ^^ 32) (X0, X1, 0) = (V0, V1, 0xC6EF3720)"
    using encrypt_decrypt_rounds [of 32 K "(V0, V1, 0xC6EF3720)"] d D(2) by simp
  from encrypt_eq(1) [OF load_store_block [OF assms] this] have "encrypt K (decrypt K D) = D"
    using assms l by (simp add: D store_store_block store_load_block)
  moreover have "drop 8 (encrypt K D) = drop 8 D"
    by (simp add: E store_block_def arr_copy_def)
  ultimately show ?thesis using de by simp
qed

theorem xtea_roundtrip_witness:
  "decrypt \<lparr>m_SymmetricKey = [1, 2, 3, 4]\<rparr> (encrypt \<lparr>m_SymmetricKey = [1, 2, 3, 4]\<rparr> [1, 2, 3, 4, 5, 6, 7, 8])
     = [1, 2, 3, 4, 5, 6, 7, 8]"
  using xtea_roundtrip [of "[1, 2, 3, 4, 5, 6, 7, 8]" "\<lparr>m_SymmetricKey = [1, 2, 3, 4]\<rparr>"] by simp

end
