(* ===== verification/Ring_Buffer.thy ===== *)
theory Ring_Buffer
  imports Prelude
begin

text \<open>
  \<open>common/spsc_ring_buffer/spsc_ring_buffer.h\<close>: the lock-free single-producer single-consumer ring
  buffer between the network event loop and the connection threads. \<open>Size\<close> is the template
  parameter, a power of two \<open>2 ^ k\<close>; the positions are free-running 32-bit counters that wrap.

  Two models share the copy functions. \<open>spsc_write\<close> and \<open>spsc_read\<close> are the whole operations, for
  sequential use. \<open>spsc_step\<close> interleaves a producer and a consumer: an operation is the three
  atomic steps load positions, copy bytes, store position (the acquire and release orders of the
  source make the copy visible before the store).
\<close>

section \<open>Definitions\<close>

record SPSCRingBuffer =
  buf_bytes :: "u8 list"
  write_pos :: u32
  read_pos :: u32

definition MASK :: "u32 \<Rightarrow> u32" where
  "MASK Size = Size - 1"

definition free_space :: "u32 \<Rightarrow> u32 \<Rightarrow> u32 \<Rightarrow> u32" where
  "free_space Size w r = (Size - 1) - (w - r)"

definition SPSCRingBuffer_new :: "u8 list \<Rightarrow> SPSCRingBuffer" where
  "SPSCRingBuffer_new junk = \<lparr>buf_bytes = junk, write_pos = 0, read_pos = 0\<rparr>"

text \<open>The copy into the buffer at position \<open>w\<close>, in one or two pieces.\<close>

definition copy_in :: "u32 \<Rightarrow> u8 list \<Rightarrow> u32 \<Rightarrow> u8 list \<Rightarrow> u8 list" where
  "copy_in Size buf w data =
     (let first = Size - (w AND MASK Size); len = of_nat (length data) :: u32
      in if first \<ge> len then arr_copy buf (unat (w AND MASK Size)) data
         else arr_copy (arr_copy buf (unat (w AND MASK Size)) (take (unat first) data))
                0 (drop (unat first) data))"

text \<open>The copy of \<open>avail\<close> bytes out of the buffer from position \<open>r\<close>.\<close>

definition copy_out :: "u32 \<Rightarrow> u8 list \<Rightarrow> u32 \<Rightarrow> u32 \<Rightarrow> u8 list" where
  "copy_out Size buf r avail =
     (let first = Size - (r AND MASK Size)
      in if first \<ge> avail then take (unat avail) (drop (unat (r AND MASK Size)) buf)
         else take (unat first) (drop (unat (r AND MASK Size)) buf) @ take (unat (avail - first)) buf)"

definition spsc_write :: "u32 \<Rightarrow> u8 list \<Rightarrow> int \<Rightarrow> SPSCRingBuffer \<Rightarrow> bool \<times> SPSCRingBuffer" where
  "spsc_write Size data len s =
     (if len \<le> 0 then (len = 0, s)
      else
        let w = write_pos s; r = read_pos s; free = free_space Size w r
        in if (of_int len :: u32) > free then (False, s)
           else (True, s\<lparr>buf_bytes := copy_in Size (buf_bytes s) w (take (nat len) data),
                         write_pos := w + of_int len\<rparr>))"

definition spsc_read :: "u32 \<Rightarrow> int \<Rightarrow> SPSCRingBuffer \<Rightarrow> u8 list \<times> SPSCRingBuffer" where
  "spsc_read Size max_len s =
     (if max_len \<le> 0 then ([], s)
      else
        let r = read_pos s; w = write_pos s; avail = w - r
        in if avail = 0 then ([], s)
           else
             let avail = (if avail > of_int max_len then of_int max_len else avail)
             in (copy_out Size (buf_bytes s) r avail, s\<lparr>read_pos := r + avail\<rparr>))"

definition available_bytes :: "SPSCRingBuffer \<Rightarrow> int" where
  "available_bytes s = to_int32 (uint (write_pos s - read_pos s))"

text \<open>
  The concurrent system. \<open>sent\<close> and \<open>received\<close> are the bytes of all completed writes and reads.
\<close>

datatype producer = PIdle | PCopy u32 "u8 list" | PStore u32 "u8 list"

datatype consumer = CIdle | CCopy u32 u32 | CStore u32 "u8 list"

record spsc_system =
  ring :: SPSCRingBuffer
  prod :: producer
  cons :: consumer
  sent :: "u8 list"
  received :: "u8 list"

inductive spsc_step :: "u32 \<Rightarrow> spsc_system \<Rightarrow> spsc_system \<Rightarrow> bool" for Size where
  write_load:
    "prod s = PIdle \<Longrightarrow> data \<noteq> [] \<Longrightarrow> int (length data) \<le> INT_MAX \<Longrightarrow>
     of_nat (length data) \<le> free_space Size (write_pos (ring s)) (read_pos (ring s)) \<Longrightarrow>
     spsc_step Size s (s\<lparr>prod := PCopy (write_pos (ring s)) data\<rparr>)"
| write_copy:
    "prod s = PCopy w data \<Longrightarrow>
     spsc_step Size s (s\<lparr>ring := (ring s)\<lparr>buf_bytes := copy_in Size (buf_bytes (ring s)) w data\<rparr>,
                         prod := PStore w data\<rparr>)"
| write_store:
    "prod s = PStore w data \<Longrightarrow>
     spsc_step Size s (s\<lparr>ring := (ring s)\<lparr>write_pos := w + of_nat (length data)\<rparr>,
                         prod := PIdle, sent := sent s @ data\<rparr>)"
| read_load:
    "cons s = CIdle \<Longrightarrow> 0 < max_len \<Longrightarrow> max_len \<le> INT_MAX \<Longrightarrow>
     avail = write_pos (ring s) - read_pos (ring s) \<Longrightarrow> avail \<noteq> 0 \<Longrightarrow>
     spsc_step Size s (s\<lparr>cons := CCopy (read_pos (ring s)) (min avail (of_int max_len))\<rparr>)"
| read_copy:
    "cons s = CCopy r avail \<Longrightarrow>
     spsc_step Size s (s\<lparr>cons := CStore r (copy_out Size (buf_bytes (ring s)) r avail)\<rparr>)"
| read_store:
    "cons s = CStore r out \<Longrightarrow>
     spsc_step Size s (s\<lparr>ring := (ring s)\<lparr>read_pos := r + of_nat (length out)\<rparr>,
                         cons := CIdle, received := received s @ out\<rparr>)"

definition spsc_init :: "u8 list \<Rightarrow> spsc_system" where
  "spsc_init junk = \<lparr>ring = SPSCRingBuffer_new junk, prod = PIdle, cons = CIdle, sent = [], received = []\<rparr>"

inductive spsc_reachable :: "u32 \<Rightarrow> u8 list \<Rightarrow> spsc_system \<Rightarrow> bool" for Size junk where
  start: "spsc_reachable Size junk (spsc_init junk)"
| step: "spsc_reachable Size junk s \<Longrightarrow> spsc_step Size s t \<Longrightarrow> spsc_reachable Size junk t"

inductive_cases spsc_stepE: "spsc_step Size s t"

section \<open>Positions in the ring\<close>

text \<open>\<open>Size\<close> as a power of two that an \<open>unsigned int\<close> holds.\<close>

definition ring_size :: "nat \<Rightarrow> u32 \<Rightarrow> bool" where
  "ring_size k Size \<longleftrightarrow> 1 \<le> k \<and> k \<le> 31 \<and> Size = 2 ^ k"

lemma ring_size_unat:
  assumes "ring_size k Size"
  shows "unat Size = 2 ^ k"
proof -
  have "(2 :: nat) ^ k < 2 ^ 32"
    using assms by (intro power_strict_increasing) (auto simp: ring_size_def)
  then have "unat (of_nat (2 ^ k) :: u32) = 2 ^ k"
    using assms unfolding unsigned_of_nat by (simp add: take_bit_nat_eq_self ring_size_def)
  then show ?thesis using assms by (simp add: ring_size_def)
qed

lemma ring_size_le: "ring_size k Size \<Longrightarrow> (2 :: nat) ^ k \<le> 2 ^ 31"
  unfolding ring_size_def by (intro power_increasing) auto

lemma ring_size_ge: "ring_size k Size \<Longrightarrow> (2 :: nat) \<le> 2 ^ k"
  using power_increasing [of 1 k "2 :: nat"] by (simp add: ring_size_def)

lemma unat_of_nat_u32: "n < 2 ^ 32 \<Longrightarrow> unat (of_nat n :: u32) = n"
  by (simp add: unsigned_of_nat take_bit_nat_eq_self)

lemma ring_size_MASK: "ring_size k Size \<Longrightarrow> MASK Size = mask k"
  by (simp add: ring_size_def MASK_def mask_eq_exp_minus_1)

lemma unat_ring_index:
  assumes "ring_size k Size"
  shows "unat (of_nat W AND MASK Size) = W mod 2 ^ k"
proof -
  have "unat (of_nat W AND MASK Size) = unat (take_bit k (of_nat W :: u32))"
    by (simp add: ring_size_MASK [OF assms] take_bit_eq_mask)
  also have "\<dots> = take_bit k (take_bit 32 W)"
    by (simp add: unsigned_take_bit_eq unsigned_of_nat)
  also have "\<dots> = W mod 2 ^ k"
    using assms unfolding take_bit_take_bit by (simp add: ring_size_def take_bit_eq_mod)
  finally show ?thesis .
qed

lemma unat_ring_first:
  assumes "ring_size k Size"
  shows "unat (Size - (of_nat W AND MASK Size)) = 2 ^ k - W mod 2 ^ k"
proof -
  have "of_nat W AND MASK Size \<le> Size"
    using unat_ring_index [OF assms, of W] ring_size_unat [OF assms]
    by (simp add: word_le_nat_alt mod_le_divisor)
  then show ?thesis
    by (simp add: unat_sub unat_ring_index [OF assms] ring_size_unat [OF assms])
qed

lemma ring_offset:
  fixes W d S :: nat
  assumes "d < S"
  shows "(W + d) mod S = (if W mod S + d < S then W mod S + d else W mod S + d - S)"
proof -
  have "W mod S < S" using assms by simp
  have "(W + d) mod S = (W mod S + d) mod S" by (simp add: mod_add_left_eq)
  also have "\<dots> = (if W mod S + d < S then W mod S + d else (W mod S + d - S) mod S)"
    by (simp add: le_mod_geq)
  also have "(W mod S + d - S) mod S = W mod S + d - S"
    using assms \<open>W mod S < S\<close> by (intro mod_less) linarith
  finally show ?thesis .
qed

lemma two_piece_copy:
  assumes "p < S" "length buf = S" "length data \<le> S"
  defines "res \<equiv> (if length data \<le> S - p then arr_copy buf p data
     else arr_copy (arr_copy buf p (take (S - p) data)) 0 (drop (S - p) data))"
  shows "length res = S"
    and "d < S \<Longrightarrow> res ! (if p + d < S then p + d else p + d - S) =
      (if d < length data then data ! d else buf ! (if p + d < S then p + d else p + d - S))"
  using assms by (auto simp: nth_arr_copy)

lemma two_piece_read:
  assumes "p < S" "length buf = S" "n \<le> S"
  defines "res \<equiv> (if n \<le> S - p then take n (drop p buf) else take (S - p) (drop p buf) @ take (n - (S - p)) buf)"
  shows "length res = n"
    and "d < n \<Longrightarrow> res ! d = buf ! (if p + d < S then p + d else p + d - S)"
  using assms by (auto simp: nth_append min_def intro!: arg_cong [where f = "(!) buf"])

lemma copy_in_pieces:
  assumes k: "ring_size k Size" and len: "length data \<le> 2 ^ k"
  shows "copy_in Size buf (of_nat W) data =
    (let S = 2 ^ k; p = W mod 2 ^ k in
     if length data \<le> S - p then arr_copy buf p data
     else arr_copy (arr_copy buf p (take (S - p) data)) 0 (drop (S - p) data))"
proof -
  have "length data < 2 ^ 32"
    using len ring_size_le [OF k] by simp
  then have "Size - (of_nat W AND MASK Size) \<ge> of_nat (length data) \<longleftrightarrow> length data \<le> 2 ^ k - W mod 2 ^ k"
    by (simp add: word_le_nat_alt unat_ring_first [OF k] unat_of_nat_u32)
  then show ?thesis
    by (simp add: copy_in_def Let_def unat_ring_index [OF k] unat_ring_first [OF k])
qed

lemma copy_out_pieces:
  assumes k: "ring_size k Size" and len: "n \<le> 2 ^ k"
  shows "copy_out Size buf (of_nat R) (of_nat n) =
    (let S = 2 ^ k; p = R mod 2 ^ k in
     if n \<le> S - p then take n (drop p buf) else take (S - p) (drop p buf) @ take (n - (S - p)) buf)"
proof -
  have n: "n < 2 ^ 32"
    using len ring_size_le [OF k] by simp
  then have le: "Size - (of_nat R AND MASK Size) \<ge> of_nat n \<longleftrightarrow> n \<le> 2 ^ k - R mod 2 ^ k"
    by (simp add: word_le_nat_alt unat_ring_first [OF k] unat_of_nat_u32)
  have "unat (of_nat n - (Size - (of_nat R AND MASK Size))) = n - (2 ^ k - R mod 2 ^ k)"
    if "\<not> n \<le> 2 ^ k - R mod 2 ^ k"
  proof -
    have "Size - (of_nat R AND MASK Size) \<le> of_nat n"
      using le that by simp
    then show ?thesis using n by (simp add: unat_sub unat_ring_first [OF k] unat_of_nat_u32)
  qed
  then show ?thesis
    using n le by (simp add: copy_out_def Let_def unat_ring_index [OF k] unat_ring_first [OF k] unat_of_nat_u32)
qed

text \<open>
  A cell of the ring lies \<open>d\<close> cells behind the write position; the copy changes exactly the cells
  with \<open>d < length data\<close>.
\<close>

lemma length_copy_in:
  assumes "ring_size k Size" "length buf = 2 ^ k" "length data \<le> 2 ^ k"
  shows "length (copy_in Size buf (of_nat W) data) = 2 ^ k"
  using two_piece_copy(1) [of "W mod 2 ^ k" "2 ^ k" buf data] assms
  by (simp add: copy_in_pieces Let_def)

lemma copy_in_nth:
  assumes k: "ring_size k Size" and buf: "length buf = 2 ^ k" and len: "length data \<le> 2 ^ k"
    and d: "d < 2 ^ k"
  shows "copy_in Size buf (of_nat W) data ! ((W + d) mod 2 ^ k) =
    (if d < length data then data ! d else buf ! ((W + d) mod 2 ^ k))"
  using two_piece_copy(2) [of "W mod 2 ^ k" "2 ^ k" buf data d] assms
  unfolding copy_in_pieces [OF k len] ring_offset [OF d] Let_def by simp

lemma length_copy_out:
  assumes "ring_size k Size" "length buf = 2 ^ k" "n \<le> 2 ^ k"
  shows "length (copy_out Size buf (of_nat R) (of_nat n)) = n"
  using two_piece_read(1) [of "R mod 2 ^ k" "2 ^ k" buf n] assms
  by (simp add: copy_out_pieces Let_def)

lemma copy_out_nth:
  assumes k: "ring_size k Size" and buf: "length buf = 2 ^ k" and len: "n \<le> 2 ^ k" and d: "d < n"
  shows "copy_out Size buf (of_nat R) (of_nat n) ! d = buf ! ((R + d) mod 2 ^ k)"
proof -
  have "d < 2 ^ k" using d len by simp
  then show ?thesis
    using two_piece_read(2) [of "R mod 2 ^ k" "2 ^ k" buf n d] assms
    unfolding copy_out_pieces [OF k len] Let_def by (simp add: ring_offset)
qed

section \<open>The ring as a queue\<close>

text \<open>
  The ring holds the queue \<open>q\<close>: \<open>R\<close> bytes were read so far, and the bytes of \<open>q\<close> lie in the cells
  from \<open>R mod Size\<close> on.
\<close>

definition ring_holds :: "nat \<Rightarrow> nat \<Rightarrow> u8 list \<Rightarrow> SPSCRingBuffer \<Rightarrow> bool" where
  "ring_holds k R q s \<longleftrightarrow>
     length (buf_bytes s) = 2 ^ k \<and> length q < 2 ^ k \<and>
     read_pos s = of_nat R \<and> write_pos s = of_nat (R + length q) \<and>
     (\<forall>i < length q. buf_bytes s ! ((R + i) mod 2 ^ k) = q ! i)"

lemma ring_holds_new: "length junk = 2 ^ k \<Longrightarrow> ring_holds k 0 [] (SPSCRingBuffer_new junk)"
  by (simp add: ring_holds_def SPSCRingBuffer_new_def)

lemma ring_holds_avail:
  assumes "ring_size k Size" "ring_holds k R q s"
  shows "unat (write_pos s - read_pos s) = length q" "write_pos s - read_pos s = of_nat (length q)"
proof -
  show *: "write_pos s - read_pos s = of_nat (length q)"
    using assms by (simp add: ring_holds_def)
  have "length q < 2 ^ 32"
    using assms ring_size_le [OF assms(1)] by (simp add: ring_holds_def)
  then show "unat (write_pos s - read_pos s) = length q"
    by (simp add: * unat_of_nat_u32)
qed

lemma ring_holds_free:
  assumes "ring_size k Size" "ring_holds k R q s"
  shows "unat (free_space Size (write_pos s) (read_pos s)) = 2 ^ k - 1 - length q"
proof -
  have S: "unat (Size - 1) = 2 ^ k - 1"
    using ring_size_unat [OF assms(1)] ring_size_ge [OF assms(1)] by (subst unat_sub) (simp_all add: word_le_nat_alt)
  moreover have "write_pos s - read_pos s \<le> Size - 1"
    using assms(2) ring_holds_avail(1) [OF assms] S unfolding word_le_nat_alt by (auto simp: ring_holds_def)
  ultimately show ?thesis
    by (simp add: free_space_def unat_sub ring_holds_avail(1) [OF assms])
qed

lemma length_le_free:
  assumes "ring_size k Size" "ring_holds k R q s" "n < 2 ^ 32"
  shows "of_nat n \<le> free_space Size (write_pos s) (read_pos s) \<longleftrightarrow> length q + n < 2 ^ k"
  using ring_holds_free [OF assms(1,2)] assms(2,3)
  by (auto simp: word_le_nat_alt unat_of_nat_u32 ring_holds_def)

text \<open>Copying new bytes into the free cells leaves the queue as it was and puts them behind it.\<close>

lemma copy_in_free:
  assumes k: "ring_size k Size" and h: "ring_holds k R q s" and fits: "length q + length data < 2 ^ k"
  defines "buf \<equiv> copy_in Size (buf_bytes s) (write_pos s) data"
  shows "ring_holds k R q (s\<lparr>buf_bytes := buf\<rparr>)"
    and "i < length data \<Longrightarrow> buf ! ((R + length q + i) mod 2 ^ k) = data ! i"
proof -
  have lens: "length (buf_bytes s) = 2 ^ k" "length data \<le> 2 ^ k" "write_pos s = of_nat (R + length q)"
    using h fits by (simp_all add: ring_holds_def)
  note nth = copy_in_nth [OF k lens(1,2), where W = "R + length q", folded lens(3), folded buf_def]
  have "buf ! ((R + j) mod 2 ^ k) = q ! j" if j: "j < length q" for j
  proof -
    let ?d = "2 ^ k - length q + j"
    have "R + length q + ?d = R + j + 2 ^ k"
      using fits by linarith
    then have "(R + length q + ?d) mod 2 ^ k = (R + j) mod 2 ^ k"
      by (metis mod_add_self2)
    moreover have "?d < 2 ^ k" "\<not> ?d < length data"
      using j fits by linarith+
    ultimately have "buf ! ((R + j) mod 2 ^ k) = buf_bytes s ! ((R + j) mod 2 ^ k)"
      using nth [of ?d] by simp
    then show ?thesis using h j by (simp add: ring_holds_def)
  qed
  moreover have "length buf = 2 ^ k"
    unfolding buf_def lens(3) by (rule length_copy_in [OF k lens(1,2)])
  ultimately show "ring_holds k R q (s\<lparr>buf_bytes := buf\<rparr>)"
    using h by (simp add: ring_holds_def)
  show "i < length data \<Longrightarrow> buf ! ((R + length q + i) mod 2 ^ k) = data ! i"
    using nth [of i] lens(2) by simp
qed

lemma ring_holds_publish:
  assumes h: "ring_holds k R q s" and fits: "length q + length data < 2 ^ k"
    and d: "\<forall>i < length data. buf_bytes s ! ((R + length q + i) mod 2 ^ k) = data ! i"
  shows "ring_holds k R (q @ data) (s\<lparr>write_pos := write_pos s + of_nat (length data)\<rparr>)"
proof -
  have "buf_bytes s ! ((R + i) mod 2 ^ k) = (q @ data) ! i" if "i < length q + length data" for i
    using h d [rule_format, of "i - length q"] that by (auto simp: ring_holds_def nth_append)
  then show ?thesis using h fits by (simp add: ring_holds_def add.assoc)
qed

lemma copy_out_take:
  assumes k: "ring_size k Size" and h: "ring_holds k R q s" and n: "n \<le> length q"
  shows "copy_out Size (buf_bytes s) (read_pos s) (of_nat n) = take n q"
proof (rule nth_equalityI)
  have b: "length (buf_bytes s) = 2 ^ k" "n \<le> 2 ^ k" "read_pos s = of_nat R"
    using h n by (simp_all add: ring_holds_def)
  show "length (copy_out Size (buf_bytes s) (read_pos s) (of_nat n)) = length (take n q)"
    using n unfolding b(3) by (simp add: length_copy_out [OF k b(1,2)])
  fix i assume "i < length (copy_out Size (buf_bytes s) (read_pos s) (of_nat n))"
  then have "i < n"
    unfolding b(3) by (simp add: length_copy_out [OF k b(1,2)])
  then show "copy_out Size (buf_bytes s) (read_pos s) (of_nat n) ! i = take n q ! i"
    using h n unfolding b(3) by (simp add: copy_out_nth [OF k b(1,2)] ring_holds_def)
qed

lemma ring_holds_release:
  assumes "ring_holds k R q s" "n \<le> length q"
  shows "ring_holds k (R + n) (drop n q) (s\<lparr>read_pos := read_pos s + of_nat n\<rparr>)"
  using assms by (auto simp: ring_holds_def add.assoc)

section \<open>Sequential operations\<close>

lemma spsc_write_cases:
  assumes k: "ring_size k Size" and h: "ring_holds k R q s" and len: "0 \<le> len" "len \<le> INT_MAX" "nat len \<le> length data"
  shows "if length q + nat len < 2 ^ k
    then \<exists>s'. spsc_write Size data len s = (True, s') \<and> ring_holds k R (q @ take (nat len) data) s'
    else spsc_write Size data len s = (False, s)"
proof (cases "len = 0")
  case True
  then show ?thesis using h by (simp add: spsc_write_def ring_holds_def)
next
  case False
  have l: "of_int len = (of_nat (nat len) :: u32)" "nat len < 2 ^ 32" "length (take (nat len) data) = nat len"
    using len by auto
  have test: "(of_int len :: u32) > free_space Size (write_pos s) (read_pos s) \<longleftrightarrow> \<not> length q + nat len < 2 ^ k"
    unfolding l(1) not_le [symmetric] length_le_free [OF k h l(2)] by simp
  have "ring_holds k R (q @ take (nat len) data)
        (s\<lparr>buf_bytes := copy_in Size (buf_bytes s) (write_pos s) (take (nat len) data),
           write_pos := write_pos s + of_int len\<rparr>)" if "length q + nat len < 2 ^ k"
    using ring_holds_publish [OF copy_in_free(1) [OF k h], of "take (nat len) data" "take (nat len) data"]
      copy_in_free(2) [OF k h, of "take (nat len) data"] that l(3)
    unfolding l(1) by simp
  then show ?thesis
    using False len(1) unfolding spsc_write_def Let_def test by simp
qed

lemma spsc_read_take:
  assumes k: "ring_size k Size" and h: "ring_holds k R q s" and m: "0 < m" "m \<le> INT_MAX"
  shows "\<exists>s'. spsc_read Size m s = (take (nat m) q, s') \<and>
    ring_holds k (R + min (nat m) (length q)) (drop (nat m) q) s'"
proof -
  have l: "of_int m = (of_nat (nat m) :: u32)" "nat m < 2 ^ 32"
    using m by auto
  have q: "length q < 2 ^ 32"
    using h ring_size_le [OF k] by (simp add: ring_holds_def)
  let ?n = "min (nat m) (length q)"
  have "(if write_pos s - read_pos s > of_int m then of_int m else write_pos s - read_pos s) = (of_nat ?n :: u32)"
    unfolding ring_holds_avail(2) [OF k h] l(1)
    using q l(2) by (simp add: word_less_nat_alt unat_of_nat_u32 min_def)
  moreover have "write_pos s - read_pos s = 0 \<longleftrightarrow> q = []"
    using ring_holds_avail(1) [OF k h] by (auto simp: unat_eq_0)
  ultimately have eq: "spsc_read Size m s =
      (if q = [] then ([], s) else (take ?n q, s\<lparr>read_pos := read_pos s + of_nat ?n\<rparr>))"
    using m(1) copy_out_take [OF k h, of ?n] unfolding spsc_read_def Let_def by simp
  have "take ?n q = take (nat m) q" "drop ?n q = drop (nat m) q"
    by (simp_all add: min_def)
  then show ?thesis
    using ring_holds_release [OF h, of ?n] h unfolding eq by (cases "q = []") auto
qed

section \<open>The concurrent system\<close>

definition spsc_inv :: "nat \<Rightarrow> spsc_system \<Rightarrow> bool" where
  "spsc_inv k s \<longleftrightarrow> (\<exists>q. sent s = received s @ q \<and> ring_holds k (length (received s)) q (ring s) \<and>
     (case prod s of
        PIdle \<Rightarrow> True
      | PCopy w data \<Rightarrow> w = write_pos (ring s) \<and> length q + length data < 2 ^ k
      | PStore w data \<Rightarrow> w = write_pos (ring s) \<and> length q + length data < 2 ^ k \<and>
          (\<forall>i < length data. buf_bytes (ring s) ! ((length (received s) + length q + i) mod 2 ^ k) = data ! i)) \<and>
     (case cons s of
        CIdle \<Rightarrow> True
      | CCopy r n \<Rightarrow> r = read_pos (ring s) \<and> unat n \<le> length q
      | CStore r out \<Rightarrow> r = read_pos (ring s) \<and> length out \<le> length q \<and> out = take (length out) q))"

lemma spsc_inv_init: "length junk = 2 ^ k \<Longrightarrow> spsc_inv k (spsc_init junk)"
  using ring_holds_new [of junk k] by (simp add: spsc_inv_def spsc_init_def)

lemma spsc_step_inv:
  assumes k: "ring_size k Size" and "spsc_inv k s" "spsc_step Size s t"
  shows "spsc_inv k t"
proof -
  obtain q where q: "sent s = received s @ q" "ring_holds k (length (received s)) q (ring s)"
    and P: "case prod s of
        PIdle \<Rightarrow> True
      | PCopy w data \<Rightarrow> w = write_pos (ring s) \<and> length q + length data < 2 ^ k
      | PStore w data \<Rightarrow> w = write_pos (ring s) \<and> length q + length data < 2 ^ k \<and>
          (\<forall>i < length data. buf_bytes (ring s) ! ((length (received s) + length q + i) mod 2 ^ k) = data ! i)"
    and C: "case cons s of
        CIdle \<Rightarrow> True
      | CCopy r n \<Rightarrow> r = read_pos (ring s) \<and> unat n \<le> length q
      | CStore r out \<Rightarrow> r = read_pos (ring s) \<and> length out \<le> length q \<and> out = take (length out) q"
    using assms(2) unfolding spsc_inv_def by blast
  note h = q(2)
  from assms(3) show ?thesis
  proof (cases rule: spsc_step.cases)
    case (write_load data)
    have "length data < 2 ^ 32" using write_load(4) by simp
    then have "length q + length data < 2 ^ k"
      using length_le_free [OF k h] write_load(5) by blast
    then show ?thesis
      using q C unfolding write_load(1) spsc_inv_def
      by (intro exI [of _ q]) (simp split: consumer.splits)
  next
    case (write_copy w data)
    then have w: "w = write_pos (ring s)" and fits: "length q + length data < 2 ^ k"
      using P by simp_all
    show ?thesis
      using q(1) C copy_in_free [OF k h fits] fits unfolding write_copy(1) w spsc_inv_def
      by (intro exI [of _ q]) (simp split: consumer.splits)
  next
    case (write_store w data)
    then show ?thesis
      using q(1) C P ring_holds_publish [OF h, of data] unfolding write_store(1) spsc_inv_def
      by (intro exI [of _ "q @ data"]) (auto split: consumer.splits)
  next
    case (read_load m avail)
    have "unat (min avail (of_int m)) \<le> length q"
      using ring_holds_avail(1) [OF k h] unfolding read_load(5)
      by (metis min.cobounded1 word_le_nat_alt)
    then show ?thesis
      using q P unfolding read_load(1) spsc_inv_def
      by (intro exI [of _ q]) (simp split: producer.splits)
  next
    case (read_copy r n)
    then have n: "r = read_pos (ring s)" "unat n \<le> length q"
      using C by simp_all
    have "copy_out Size (buf_bytes (ring s)) r n = take (unat n) q"
      using copy_out_take [OF k h n(2)] n(1) by simp
    then show ?thesis
      using q P n unfolding read_copy(1) spsc_inv_def
      by (intro exI [of _ q]) (simp add: min_def split: producer.splits)
  next
    case (read_store r out)
    then have out: "r = read_pos (ring s)" "out = take (length out) q" and le: "length out \<le> length q"
      using C by simp_all
    then have "q = out @ drop (length out) q"
      using out(2) by (metis append_take_drop_id)
    then show ?thesis
      using q(1) P ring_holds_release [OF h le] out(1) le unfolding read_store(1) spsc_inv_def
      by (intro exI [of _ "drop (length out) q"]) (auto simp: add.assoc split: producer.splits)
  qed
qed

lemma spsc_reachable_inv:
  assumes "ring_size k Size" "length junk = 2 ^ k" "spsc_reachable Size junk s"
  shows "spsc_inv k s"
  using assms(3)
proof (induction rule: spsc_reachable.induct)
  case start
  show ?case using assms(2) by (rule spsc_inv_init)
next
  case (step s t)
  then show ?case using spsc_step_inv [OF assms(1)] by blast
qed

section \<open>Properties\<close>

text \<open>
  C2: Under every interleaving of one producer and one consumer at the granularity of position
  loads, byte copies and position stores, the bytes the consumer has received are a prefix of the
  bytes the producer has sent (nothing is lost, duplicated, reordered or read before it was
  written), and at most \<open>Size - 1\<close> bytes are in flight, also after the 32-bit counters wrap around.
\<close>

theorem spsc_fifo:
  assumes "ring_size k Size" "length junk = 2 ^ k" "spsc_reachable Size junk s"
  shows "\<exists>q. sent s = received s @ q \<and> length q < 2 ^ k"
  using spsc_reachable_inv [OF assms] by (auto simp: spsc_inv_def ring_holds_def)

theorem spsc_fifo_witness:
  "\<exists>s. spsc_reachable 4 [0, 0, 0, 0] s \<and> sent s = [7] \<and> (\<exists>q. sent s = received s @ q \<and> length q < 2 ^ 2)"
proof -
  let ?s0 = "spsc_init [0, 0, 0, 0]"
  let ?s1 = "?s0\<lparr>prod := PCopy 0 [7]\<rparr>"
  let ?s2 = "?s1\<lparr>ring := (ring ?s1)\<lparr>buf_bytes := copy_in 4 (buf_bytes (ring ?s1)) 0 [7]\<rparr>, prod := PStore 0 [7]\<rparr>"
  let ?s3 = "?s2\<lparr>ring := (ring ?s2)\<lparr>write_pos := 0 + of_nat (length [7 :: u8])\<rparr>, prod := PIdle, sent := sent ?s2 @ [7]\<rparr>"
  have "spsc_step 4 ?s0 ?s1"
    using write_load [of ?s0 "[7]" 4] by (simp add: spsc_init_def SPSCRingBuffer_new_def free_space_def)
  moreover have "spsc_step 4 ?s1 ?s2" by (rule write_copy) simp
  moreover have "spsc_step 4 ?s2 ?s3" by (rule write_store) simp
  ultimately have r: "spsc_reachable 4 [0, 0, 0, 0] ?s3"
    using spsc_reachable.start [of 4 "[0, 0, 0, 0]"] by (blast intro: spsc_reachable.step)
  have "sent ?s3 = [7]" by (simp add: spsc_init_def)
  then show ?thesis
    using spsc_fifo [OF _ _ r, of 2] r by (intro exI [of _ ?s3] conjI) (simp_all add: ring_size_def)
qed

text \<open>
  Used by one thread, the ring is a bounded queue: a write either appends all its bytes or,
  when fewer than that many bytes are free, changes nothing and returns false; a read returns the
  oldest bytes, as many as are there and asked for, and removes them.
\<close>

theorem spsc_queue:
  assumes "ring_size k Size" "ring_holds k R q s" "0 \<le> len" "len \<le> INT_MAX" "nat len \<le> length data"
    and "0 < m" "m \<le> INT_MAX"
  shows "(if length q + nat len < 2 ^ k
     then \<exists>s'. spsc_write Size data len s = (True, s') \<and> ring_holds k R (q @ take (nat len) data) s'
     else spsc_write Size data len s = (False, s)) \<and>
    (\<exists>s'. spsc_read Size m s = (take (nat m) q, s') \<and>
       ring_holds k (R + min (nat m) (length q)) (drop (nat m) q) s')"
  using spsc_write_cases [OF assms(1-5)] spsc_read_take [OF assms(1,2,6,7)] by blast

theorem spsc_queue_witness:
  "spsc_write 4 [1, 2, 3, 4] 4 (SPSCRingBuffer_new [0, 0, 0, 0]) = (False, SPSCRingBuffer_new [0, 0, 0, 0])"
  using spsc_queue [of 2 4 0 "[]" "SPSCRingBuffer_new [0, 0, 0, 0]" 4 "[1, 2, 3, 4]" 1]
  by (simp add: ring_size_def ring_holds_new)

end
