(* ===== verification/Vector.thy ===== *)
theory Vector
  imports Prelude
begin

text \<open>
  The growing array \<open>vector\<close> of \<open>common/containers/containers.h\<close>: an array for the indices from
  \<open>min\<close> to \<open>max\<close> (negative ones too) inside an allocation of \<open>space\<close> cells that starts at index
  \<open>start\<close>. \<open>at\<close> grows the allocation and the range until the index is valid.

  A cell that \<open>new T[]\<close> leaves default-initialised holds \<open>vfresh\<close>, an arbitrary value of the
  model. A pointer returned by \<open>at\<close> is the index it was made from: \<open>vec_get\<close> and \<open>vec_set\<close> read and
  write through it, and are \<open>None\<close> outside the allocation.
\<close>

section \<open>The structure and its operations\<close>

record 'a vec =
  vmin :: int
  vmax :: int
  vstart :: int
  vspace :: int
  vblock :: int
  vinitialized :: bool
  vinit :: 'a
  ventry :: "'a list"
  vfresh :: 'a

definition vector_new :: "int \<Rightarrow> int \<Rightarrow> int \<Rightarrow> 'a \<Rightarrow> 'a vec" where
  "vector_new mn mx block fresh =
     (let space = (mx - mn) + 1;
          space = (if space < 1 then 1 else space);
          block = (if block < 0 then 0 else block)
      in \<lparr>vmin = mn, vmax = mx, vstart = mn, vspace = space, vblock = block, vinitialized = False,
          vinit = fresh, ventry = replicate (nat space) fresh, vfresh = fresh\<rparr>)"

definition vector_new_init :: "int \<Rightarrow> int \<Rightarrow> int \<Rightarrow> 'a \<Rightarrow> 'a \<Rightarrow> 'a vec" where
  "vector_new_init mn mx block init fresh =
     (let v = vector_new mn mx block fresh
      in v\<lparr>vinitialized := True, vinit := init, ventry := map (\<lambda>_. init) (ventry v)\<rparr>)"

definition vec_increment :: "'a vec \<Rightarrow> int" where
  "vec_increment v = (if vblock v = 0 then vspace v else vblock v)"

text \<open>
  The copy loop of a reallocation, for the indices from \<open>i\<close> to \<open>mx\<close>: it exchanges the cell of the
  old array with the cell of the new one, \<open>shift\<close> cells further.
\<close>

function move_cells :: "int \<Rightarrow> int \<Rightarrow> int \<Rightarrow> int \<Rightarrow> 'a list \<Rightarrow> 'a list \<Rightarrow> 'a list option" where
  "move_cells i mx start shift new old =
     (if i \<le> mx
      then do { x \<leftarrow> arr_get old (i - start);
                y \<leftarrow> arr_get new (i - start + shift);
                new' \<leftarrow> arr_set new (i - start + shift) x;
                old' \<leftarrow> arr_set old (i - start) y;
                move_cells (i + 1) mx start shift new' old' }
      else Some new)"
  by pat_completeness auto
termination
  by (relation "measure (\<lambda>(i, mx, _). nat (mx + 1 - i))") auto

declare move_cells.simps [simp del]

definition grow_front :: "'a vec \<Rightarrow> 'a vec option" where
  "grow_front v =
     (let increment = vec_increment v
      in do { entry \<leftarrow> move_cells (vmin v) (vmax v) (vstart v) increment
                         (replicate (nat (vspace v + increment)) (vfresh v)) (ventry v);
              Some (v\<lparr>ventry := entry, vstart := vstart v - increment, vspace := vspace v + increment\<rparr>) })"

definition grow_back :: "'a vec \<Rightarrow> 'a vec option" where
  "grow_back v =
     (let increment = vec_increment v
      in do { entry \<leftarrow> move_cells (vmin v) (vmax v) (vstart v) 0
                         (replicate (nat (vspace v + increment)) (vfresh v)) (ventry v);
              Some (v\<lparr>ventry := entry, vspace := vspace v + increment\<rparr>) })"

text \<open>The four loops of \<open>at\<close>, in its order.\<close>

partial_function (option) grow_front_loop :: "int \<Rightarrow> 'a vec \<Rightarrow> 'a vec option" where
  "grow_front_loop index v =
     (if index < vstart v
      then Option.bind (grow_front v) (grow_front_loop index)
      else Some v)"

partial_function (option) grow_back_loop :: "int \<Rightarrow> 'a vec \<Rightarrow> 'a vec option" where
  "grow_back_loop index v =
     (if index \<ge> vstart v + vspace v
      then Option.bind (grow_back v) (grow_back_loop index)
      else Some v)"

definition init_cell :: "'a vec \<Rightarrow> int \<Rightarrow> 'a vec option" where
  "init_cell v i =
     (if vinitialized v
      then do { entry \<leftarrow> arr_set (ventry v) (i - vstart v) (vinit v); Some (v\<lparr>ventry := entry\<rparr>) }
      else Some v)"

partial_function (option) extend_min_loop :: "int \<Rightarrow> 'a vec \<Rightarrow> 'a vec option" where
  "extend_min_loop index v =
     (if index < vmin v
      then Option.bind (init_cell (v\<lparr>vmin := vmin v - 1\<rparr>) (vmin v - 1)) (extend_min_loop index)
      else Some v)"

partial_function (option) extend_max_loop :: "int \<Rightarrow> 'a vec \<Rightarrow> 'a vec option" where
  "extend_max_loop index v =
     (if index > vmax v
      then Option.bind (init_cell (v\<lparr>vmax := vmax v + 1\<rparr>) (vmax v + 1)) (extend_max_loop index)
      else Some v)"

declare grow_front_loop.simps [code] grow_back_loop.simps [code]
  extend_min_loop.simps [code] extend_max_loop.simps [code]

definition vector_at :: "'a vec \<Rightarrow> int \<Rightarrow> 'a vec option" where
  "vector_at v index =
     do { v \<leftarrow> grow_front_loop index v;
          v \<leftarrow> grow_back_loop index v;
          v \<leftarrow> extend_min_loop index v;
          extend_max_loop index v }"

definition vec_get :: "'a vec \<Rightarrow> int \<Rightarrow> 'a option" where
  "vec_get v i = arr_get (ventry v) (i - vstart v)"

definition vec_set :: "'a vec \<Rightarrow> int \<Rightarrow> 'a \<Rightarrow> 'a vec option" where
  "vec_set v i x = do { e \<leftarrow> arr_set (ventry v) (i - vstart v) x; Some (v\<lparr>ventry := e\<rparr>) }"

text \<open>\<open>std::swap(*at(i), *at(j))\<close>.\<close>

definition vec_swap :: "'a vec \<Rightarrow> int \<Rightarrow> int \<Rightarrow> 'a vec option" where
  "vec_swap v i j =
     do { v \<leftarrow> vector_at v i;
          v \<leftarrow> vector_at v j;
          x \<leftarrow> vec_get v i;
          y \<leftarrow> vec_get v j;
          v \<leftarrow> vec_set v i y;
          vec_set v j x }"

text \<open>\<open>copyAt\<close> reads without growing; \<open>zero\<close> is the value-initialised \<open>T\<close>.\<close>

definition copyAt :: "'a \<Rightarrow> 'a vec \<Rightarrow> int \<Rightarrow> 'a option" where
  "copyAt zero v index =
     (if index \<ge> vstart v \<and> index < vstart v + vspace v then arr_get (ventry v) (index - vstart v)
      else if vinitialized v then Some (vinit v)
      else Some zero)"

section \<open>The invariant\<close>

definition vec_inv :: "'a vec \<Rightarrow> bool" where
  "vec_inv v \<longleftrightarrow> vstart v \<le> vmin v \<and> vmin v \<le> vmax v + 1 \<and> vmax v < vstart v + vspace v \<and>
     int (length (ventry v)) = vspace v \<and> 1 \<le> vspace v \<and> 0 \<le> vblock v"

text \<open>The value of a cell.\<close>

definition vec_val :: "'a vec \<Rightarrow> int \<Rightarrow> 'a" where
  "vec_val v i = ventry v ! nat (i - vstart v)"

definition in_vec :: "'a vec \<Rightarrow> int \<Rightarrow> bool" where
  "in_vec v i \<longleftrightarrow> vmin v \<le> i \<and> i \<le> vmax v"

lemma vector_new_inv: "mn \<le> mx + 1 \<Longrightarrow> vec_inv (vector_new mn mx block fresh)"
  by (auto simp: vec_inv_def vector_new_def Let_def)

lemma vector_new_init_inv: "mn \<le> mx + 1 \<Longrightarrow> vec_inv (vector_new_init mn mx block init fresh)"
  by (auto simp: vec_inv_def vector_new_init_def vector_new_def Let_def)

lemma vec_increment_pos: "vec_inv v \<Longrightarrow> 1 \<le> vec_increment v"
  by (auto simp: vec_inv_def vec_increment_def)

text \<open>The copy loop stays inside both arrays and moves the cells of the range.\<close>

lemma move_cells_spec:
  assumes "start \<le> i" "mx < start + int (length old)" "0 \<le> shift"
    "mx - start + shift < int (length new)"
  shows "\<exists>new'. move_cells i mx start shift new old = Some new' \<and> length new' = length new \<and>
    (\<forall>k. 0 \<le> k \<and> k < int (length new) \<longrightarrow>
       new' ! nat k = (if i \<le> k + start - shift \<and> k + start - shift \<le> mx
                       then old ! nat (k - shift) else new ! nat k))"
  using assms
proof (induction i mx start shift new old rule: move_cells.induct)
  case (1 i mx start shift new old)
  show ?case
  proof (cases "i \<le> mx")
    case True
    let ?o = "i - start" and ?n = "i - start + shift"
    let ?new = "new[nat ?n := old ! nat ?o]" and ?old = "old[nat ?o := new ! nat ?n]"
    have g: "arr_get old ?o = Some (old ! nat ?o)" "arr_get new ?n = Some (new ! nat ?n)"
        "arr_set new ?n (old ! nat ?o) = Some ?new" "arr_set old ?o (new ! nat ?n) = Some ?old"
      using True "1.prems" by auto
    have "\<exists>new'. move_cells (i + 1) mx start shift ?new ?old = Some new' \<and> length new' = length ?new \<and>
       (\<forall>k. 0 \<le> k \<and> k < int (length ?new) \<longrightarrow>
         new' ! nat k = (if i + 1 \<le> k + start - shift \<and> k + start - shift \<le> mx
                         then ?old ! nat (k - shift) else ?new ! nat k))"
      using True "1.prems" by (intro "1.IH" [OF True g]) auto
    then obtain new' where n: "move_cells (i + 1) mx start shift ?new ?old = Some new'"
        "length new' = length new"
      and v: "\<And>k. 0 \<le> k \<Longrightarrow> k < int (length new) \<Longrightarrow>
         new' ! nat k = (if i + 1 \<le> k + start - shift \<and> k + start - shift \<le> mx
                         then ?old ! nat (k - shift) else ?new ! nat k)"
      by auto
    have "new' ! nat k = (if i \<le> k + start - shift \<and> k + start - shift \<le> mx
                          then old ! nat (k - shift) else new ! nat k)"
      if k: "0 \<le> k" "k < int (length new)" for k
    proof (cases "k = ?n")
      case True
      then show ?thesis using v [OF k] k \<open>i \<le> mx\<close> "1.prems" by (simp add: nth_list_update)
    next
      case False
      then have "nat ?n \<noteq> nat k" using k "1.prems" \<open>i \<le> mx\<close> by (simp add: eq_nat_nat_iff)
      moreover have "nat ?o \<noteq> nat (k - shift)" if "i + 1 \<le> k + start - shift"
        using that "1.prems" by (simp add: eq_nat_nat_iff)
      ultimately show ?thesis using v [OF k] False by auto
    qed
    then show ?thesis using n g True by (subst move_cells.simps) auto
  next
    case False
    then show ?thesis by (subst move_cells.simps) auto
  qed
qed

text \<open>
  \<open>vec_grown v w\<close>: the array \<open>w\<close> has every cell of \<open>v\<close>, and the cells of its range that \<open>v\<close> did not
  have are initialised when the array was created with an initial value.
\<close>

definition vec_grown :: "'a vec \<Rightarrow> 'a vec \<Rightarrow> bool" where
  "vec_grown v w \<longleftrightarrow> vec_inv w \<and> vmin w \<le> vmin v \<and> vmax v \<le> vmax w \<and>
     vblock w = vblock v \<and> vinitialized w = vinitialized v \<and> vinit w = vinit v \<and> vfresh w = vfresh v \<and>
     (\<forall>i. in_vec v i \<longrightarrow> vec_val w i = vec_val v i) \<and>
     (\<forall>i. in_vec w i \<longrightarrow> \<not> in_vec v i \<longrightarrow> vinitialized v \<longrightarrow> vec_val w i = vinit v)"

lemma vec_grown_refl: "vec_inv v \<Longrightarrow> vec_grown v v"
  by (simp add: vec_grown_def)

lemma vec_grown_inv: "vec_grown v w \<Longrightarrow> vec_inv w"
  by (simp add: vec_grown_def)

lemma vec_grown_mono: "vec_grown v w \<Longrightarrow> in_vec v i \<Longrightarrow> in_vec w i"
  by (auto simp: vec_grown_def in_vec_def)

lemma vec_grown_val: "vec_grown v w \<Longrightarrow> in_vec v i \<Longrightarrow> vec_val w i = vec_val v i"
  by (simp add: vec_grown_def)

lemma vec_grown_trans:
  assumes "vec_grown u v" "vec_grown v w"
  shows "vec_grown u w"
  unfolding vec_grown_def
proof (intro conjI allI impI)
  fix i assume i: "in_vec w i" "\<not> in_vec u i" "vinitialized u"
  show "vec_val w i = vinit u"
  proof (cases "in_vec v i")
    case True
    then show ?thesis using assms i vec_grown_val [OF assms(2) True] by (simp add: vec_grown_def)
  next
    case False
    then show ?thesis using assms i by (simp add: vec_grown_def)
  qed
next
  fix i assume "in_vec u i"
  then show "vec_val w i = vec_val u i"
    using vec_grown_val [OF assms(1)] vec_grown_val [OF assms(2)] vec_grown_mono [OF assms(1)] by metis
qed (use assms in \<open>auto simp: vec_grown_def\<close>)

text \<open>A reallocation keeps the range and its cells.\<close>

lemma grow_spec:
  assumes inv: "vec_inv v" and shift: "0 \<le> shift" "shift \<le> inc" and inc: "1 \<le> inc"
  obtains e where
    "move_cells (vmin v) (vmax v) (vstart v) shift (replicate (nat (vspace v + inc)) (vfresh v)) (ventry v) = Some e"
    "vec_grown v (v\<lparr>ventry := e, vstart := vstart v - shift, vspace := vspace v + inc\<rparr>)"
proof -
  let ?new = "replicate (nat (vspace v + inc)) (vfresh v)"
  have b: "vstart v \<le> vmin v" "vmax v < vstart v + int (length (ventry v))"
      "vmax v - vstart v + shift < int (length ?new)"
    using inv shift inc by (auto simp: vec_inv_def)
  from move_cells_spec [OF b(1,2) shift(1) b(3)] obtain e where
    e: "move_cells (vmin v) (vmax v) (vstart v) shift ?new (ventry v) = Some e" "length e = length ?new"
    and val: "\<And>k. 0 \<le> k \<Longrightarrow> k < int (length ?new) \<Longrightarrow>
       e ! nat k = (if vmin v \<le> k + vstart v - shift \<and> k + vstart v - shift \<le> vmax v
                    then ventry v ! nat (k - shift) else ?new ! nat k)"
    by auto
  let ?w = "v\<lparr>ventry := e, vstart := vstart v - shift, vspace := vspace v + inc\<rparr>"
  have "vec_val ?w i = vec_val v i" if "in_vec v i" for i
    using that val [of "i - vstart v + shift"] b shift by (simp add: in_vec_def vec_val_def algebra_simps)
  moreover have "vec_inv ?w"
    using inv shift inc e by (auto simp: vec_inv_def)
  ultimately have "vec_grown v ?w"
    by (simp add: vec_grown_def in_vec_def)
  then show ?thesis using that e by blast
qed

lemma grow_front_spec:
  assumes "vec_inv v"
  obtains w where "grow_front v = Some w" "vec_grown v w" "vstart w = vstart v - vec_increment v"
    "vmin w = vmin v" "vmax w = vmax v"
proof -
  have inc: "0 \<le> vec_increment v" "1 \<le> vec_increment v" using vec_increment_pos [OF assms] by auto
  obtain e where "move_cells (vmin v) (vmax v) (vstart v) (vec_increment v)
      (replicate (nat (vspace v + vec_increment v)) (vfresh v)) (ventry v) = Some e"
    "vec_grown v (v\<lparr>ventry := e, vstart := vstart v - vec_increment v, vspace := vspace v + vec_increment v\<rparr>)"
    by (rule grow_spec [OF assms inc(1) order_refl inc(2)])
  then show ?thesis by (intro that [of "v\<lparr>ventry := e, vstart := vstart v - vec_increment v, vspace := vspace v + vec_increment v\<rparr>"]) (auto simp: grow_front_def Let_def)
qed

lemma grow_back_spec:
  assumes "vec_inv v"
  obtains w where "grow_back v = Some w" "vec_grown v w" "vstart w = vstart v"
    "vspace w = vspace v + vec_increment v" "vmin w = vmin v" "vmax w = vmax v"
proof -
  have inc: "0 \<le> vec_increment v" "1 \<le> vec_increment v" using vec_increment_pos [OF assms] by auto
  obtain e where "move_cells (vmin v) (vmax v) (vstart v) 0
      (replicate (nat (vspace v + vec_increment v)) (vfresh v)) (ventry v) = Some e"
    "vec_grown v (v\<lparr>ventry := e, vstart := vstart v - 0, vspace := vspace v + vec_increment v\<rparr>)"
    by (rule grow_spec [OF assms order_refl inc])
  then show ?thesis by (intro that [of "v\<lparr>ventry := e, vspace := vspace v + vec_increment v\<rparr>"]) (auto simp: grow_back_def Let_def)
qed

lemma grow_front_loop_spec:
  assumes "vec_inv v"
  shows "\<exists>w. grow_front_loop i v = Some w \<and> vec_grown v w \<and> vstart w \<le> i \<and> vmin w = vmin v \<and> vmax w = vmax v"
  using assms
proof (induction "nat (vstart v - i)" arbitrary: v rule: less_induct)
  case less
  show ?case
  proof (cases "i < vstart v")
    case True
    obtain u where u: "grow_front v = Some u" "vec_grown v u" "vstart u = vstart v - vec_increment v"
      "vmin u = vmin v" "vmax u = vmax v" by (rule grow_front_spec [OF less.prems])
    have "nat (vstart u - i) < nat (vstart v - i)"
      using True u vec_increment_pos [OF less.prems] by simp
    from less.hyps [OF this vec_grown_inv [OF u(2)]]
    show ?thesis using True u vec_grown_trans [OF u(2)] by (subst grow_front_loop.simps) auto
  next
    case False
    then show ?thesis using vec_grown_refl [OF less.prems] by (subst grow_front_loop.simps) auto
  qed
qed

lemma grow_back_loop_spec:
  assumes "vec_inv v"
  shows "\<exists>w. grow_back_loop i v = Some w \<and> vec_grown v w \<and> vstart w = vstart v \<and> i < vstart w + vspace w \<and>
    vmin w = vmin v \<and> vmax w = vmax v"
  using assms
proof (induction "nat (i + 1 - vstart v - vspace v)" arbitrary: v rule: less_induct)
  case less
  show ?case
  proof (cases "i \<ge> vstart v + vspace v")
    case True
    obtain u where u: "grow_back v = Some u" "vec_grown v u" "vstart u = vstart v"
      "vspace u = vspace v + vec_increment v" "vmin u = vmin v" "vmax u = vmax v"
      by (rule grow_back_spec [OF less.prems])
    have "nat (i + 1 - vstart u - vspace u) < nat (i + 1 - vstart v - vspace v)"
      using True u vec_increment_pos [OF less.prems] by simp
    from less.hyps [OF this vec_grown_inv [OF u(2)]]
    show ?thesis using True u vec_grown_trans [OF u(2)] by (subst grow_back_loop.simps) auto
  next
    case False
    then show ?thesis using vec_grown_refl [OF less.prems] by (subst grow_back_loop.simps) auto
  qed
qed

text \<open>One step of the range towards the index, inside the allocation.\<close>

lemma extend_step:
  assumes inv: "vec_inv v" and k: "vstart v \<le> k" "k < vstart v + vspace v"
    and w: "w = v\<lparr>vmin := k\<rparr> \<and> k = vmin v - 1 \<or> w = v\<lparr>vmax := k\<rparr> \<and> k = vmax v + 1"
  obtains u where "init_cell w k = Some u" "vec_grown v u" "vstart u = vstart v" "vspace u = vspace v"
    "vmin u = vmin w" "vmax u = vmax w"
proof -
  have l: "int (length (ventry v)) = vspace v" using inv by (simp add: vec_inv_def)
  have out: "\<not> in_vec v k" using w inv by (auto simp: in_vec_def vec_inv_def)
  have range: "in_vec w i \<longleftrightarrow> in_vec v i \<or> i = k" for i
    using w inv by (auto simp: in_vec_def vec_inv_def)
  have same: "ventry w = ventry v" "vstart w = vstart v" "vspace w = vspace v" "vblock w = vblock v"
      "vinitialized w = vinitialized v" "vinit w = vinit v" "vfresh w = vfresh v" "vmin w \<le> vmin v" "vmax v \<le> vmax w"
    using w by auto
  have w_inv: "vec_inv w" using w inv k by (auto simp: vec_inv_def)
  define u where "u = (if vinitialized v then w\<lparr>ventry := (ventry v)[nat (k - vstart v) := vinit v]\<rparr> else w)"
  have c: "init_cell w k = Some u"
    using k l same by (simp add: init_cell_def u_def)
  have val: "vec_val u i = (if i = k \<and> vinitialized v then vinit v else vec_val v i)"
    if "in_vec w i" for i
  proof -
    have "0 \<le> i - vstart v" using that w_inv same by (auto simp: in_vec_def vec_inv_def)
    then show ?thesis using k l same by (auto simp: u_def vec_val_def nth_list_update eq_nat_nat_iff)
  qed
  have "vec_grown v u"
    unfolding vec_grown_def
  proof (intro conjI allI impI)
    fix i assume i: "in_vec v i"
    then show "vec_val u i = vec_val v i" using val [of i] range out by auto
  next
    fix i assume i: "in_vec u i" "\<not> in_vec v i" "vinitialized v"
    have "in_vec w i" using i(1) by (simp add: u_def in_vec_def split: if_splits)
    then show "vec_val u i = vinit v" using val [of i] range i by auto
  qed (use w_inv same in \<open>auto simp: u_def vec_inv_def\<close>)
  then show ?thesis using that c same by (auto simp: u_def)
qed

lemma extend_min_loop_spec:
  assumes "vec_inv v" "vstart v \<le> i" "i < vstart v + vspace v"
  shows "\<exists>w. extend_min_loop i v = Some w \<and> vec_grown v w \<and> vstart w = vstart v \<and> vspace w = vspace v \<and>
    vmin w = min (vmin v) i \<and> vmax w = vmax v"
  using assms
proof (induction "nat (vmin v - i)" arbitrary: v rule: less_induct)
  case less
  show ?case
  proof (cases "i < vmin v")
    case True
    let ?k = "vmin v - 1" and ?w = "v\<lparr>vmin := vmin v - 1\<rparr>"
    have k: "vstart v \<le> ?k" "?k < vstart v + vspace v" using True less.prems by (auto simp: vec_inv_def)
    have w: "?w = v\<lparr>vmin := ?k\<rparr> \<and> ?k = vmin v - 1 \<or> ?w = v\<lparr>vmax := ?k\<rparr> \<and> ?k = vmax v + 1" by simp
    obtain u where u: "init_cell ?w ?k = Some u" "vec_grown v u" "vstart u = vstart v"
        "vspace u = vspace v" "vmin u = vmin ?w" "vmax u = vmax ?w"
      by (rule extend_step [OF less.prems(1) k w])
    have "nat (vmin u - i) < nat (vmin v - i)" using True u by simp
    from less.hyps [OF this vec_grown_inv [OF u(2)]]
    obtain w where "extend_min_loop i u = Some w" "vec_grown u w" "vstart w = vstart u" "vspace w = vspace u"
        "vmin w = min (vmin u) i" "vmax w = vmax u"
      using u less.prems by auto
    then show ?thesis using True u vec_grown_trans [OF u(2)] by (subst extend_min_loop.simps) auto
  next
    case False
    then show ?thesis using vec_grown_refl [OF less.prems(1)] by (subst extend_min_loop.simps) auto
  qed
qed

lemma extend_max_loop_spec:
  assumes "vec_inv v" "vstart v \<le> i" "i < vstart v + vspace v"
  shows "\<exists>w. extend_max_loop i v = Some w \<and> vec_grown v w \<and> vstart w = vstart v \<and> vspace w = vspace v \<and>
    vmin w = vmin v \<and> vmax w = max (vmax v) i"
  using assms
proof (induction "nat (i - vmax v)" arbitrary: v rule: less_induct)
  case less
  show ?case
  proof (cases "i > vmax v")
    case True
    let ?k = "vmax v + 1" and ?w = "v\<lparr>vmax := vmax v + 1\<rparr>"
    have k: "vstart v \<le> ?k" "?k < vstart v + vspace v" using True less.prems by (auto simp: vec_inv_def)
    have w: "?w = v\<lparr>vmin := ?k\<rparr> \<and> ?k = vmin v - 1 \<or> ?w = v\<lparr>vmax := ?k\<rparr> \<and> ?k = vmax v + 1" by simp
    obtain u where u: "init_cell ?w ?k = Some u" "vec_grown v u" "vstart u = vstart v"
        "vspace u = vspace v" "vmin u = vmin ?w" "vmax u = vmax ?w"
      by (rule extend_step [OF less.prems(1) k w])
    have "nat (i - vmax u) < nat (i - vmax v)" using True u by simp
    from less.hyps [OF this vec_grown_inv [OF u(2)]]
    obtain w where "extend_max_loop i u = Some w" "vec_grown u w" "vstart w = vstart u" "vspace w = vspace u"
        "vmin w = vmin u" "vmax w = max (vmax u) i"
      using u less.prems by auto
    then show ?thesis using True u vec_grown_trans [OF u(2)] by (subst extend_max_loop.simps) auto
  next
    case False
    then show ?thesis using vec_grown_refl [OF less.prems(1)] by (subst extend_max_loop.simps) auto
  qed
qed

lemma vector_at_spec:
  assumes "vec_inv v"
  obtains w where "vector_at v i = Some w" "vec_grown v w" "vmin w = min (vmin v) i" "vmax w = max (vmax v) i"
proof -
  obtain a where a: "grow_front_loop i v = Some a" "vec_grown v a" "vstart a \<le> i" "vmin a = vmin v" "vmax a = vmax v"
    using grow_front_loop_spec [OF assms, of i] by blast
  obtain b where b: "grow_back_loop i a = Some b" "vec_grown a b" "vstart b = vstart a" "i < vstart b + vspace b"
      "vmin b = vmin a" "vmax b = vmax a"
    using grow_back_loop_spec [OF vec_grown_inv [OF a(2)], of i] by blast
  have bi: "vstart b \<le> i" using a b by simp
  obtain c where c: "extend_min_loop i b = Some c" "vec_grown b c" "vstart c = vstart b" "vspace c = vspace b"
      "vmin c = min (vmin b) i" "vmax c = vmax b"
    using extend_min_loop_spec [OF vec_grown_inv [OF b(2)] bi b(4)] by blast
  obtain d where d: "extend_max_loop i c = Some d" "vec_grown c d" "vmin d = vmin c" "vmax d = max (vmax c) i"
    using extend_max_loop_spec [OF vec_grown_inv [OF c(2)], of i] bi b(4) c by auto
  have "vec_grown v d"
    using vec_grown_trans [OF vec_grown_trans [OF vec_grown_trans [OF a(2) b(2)] c(2)] d(2)] .
  then show ?thesis using a b c d by (intro that) (auto simp: vector_at_def)
qed

text \<open>Inside the range \<open>at\<close> changes nothing, so a pointer it returned stays valid.\<close>

lemma vector_at_in_vec [vec_simps]: "vec_inv v \<Longrightarrow> in_vec v i \<Longrightarrow> vector_at v i = Some v"
  by (simp add: vector_at_def vec_inv_def in_vec_def grow_front_loop.simps [of i v]
      grow_back_loop.simps [of i v] extend_min_loop.simps [of i v] extend_max_loop.simps [of i v])

lemma vec_get_in_vec [vec_simps]: "vec_inv v \<Longrightarrow> in_vec v i \<Longrightarrow> vec_get v i = Some (vec_val v i)"
  by (auto simp: vec_get_def vec_inv_def in_vec_def vec_val_def)

text \<open>Writing a cell.\<close>

definition vec_upd :: "'a vec \<Rightarrow> int \<Rightarrow> 'a \<Rightarrow> 'a vec" where
  "vec_upd v i x = v\<lparr>ventry := (ventry v)[nat (i - vstart v) := x]\<rparr>"

lemma vec_set_in_vec [vec_simps]: "vec_inv v \<Longrightarrow> in_vec v i \<Longrightarrow> vec_set v i x = Some (vec_upd v i x)"
  by (auto simp: vec_set_def vec_inv_def in_vec_def vec_upd_def)

lemma vec_upd_inv [vec_simps]: "vec_inv (vec_upd v i x) \<longleftrightarrow> vec_inv v"
  by (simp add: vec_inv_def vec_upd_def)

lemma in_vec_upd [vec_simps]: "in_vec (vec_upd v i x) j \<longleftrightarrow> in_vec v j"
  by (simp add: in_vec_def vec_upd_def)

lemma vec_upd_bounds [vec_simps]: "vmin (vec_upd v i x) = vmin v" "vmax (vec_upd v i x) = vmax v"
  by (simp_all add: vec_upd_def)

lemma vec_val_upd [vec_simps]:
  "vec_inv v \<Longrightarrow> in_vec v i \<Longrightarrow> in_vec v j \<Longrightarrow> vec_val (vec_upd v i x) j = (if i = j then x else vec_val v j)"
  by (auto simp: vec_inv_def in_vec_def vec_upd_def vec_val_def nth_list_update eq_nat_nat_iff)

section \<open>The interface\<close>

text \<open>
  What the clients of the array rely on: \<open>at\<close> makes the index valid, keeps the cells, and does
  nothing inside the range; reading and writing through the index have the array laws.
\<close>

locale index_array =
  fixes at :: "'v \<Rightarrow> int \<Rightarrow> 'v option"
    and get :: "'v \<Rightarrow> int \<Rightarrow> 'a option"
    and set_at :: "'v \<Rightarrow> int \<Rightarrow> 'a \<Rightarrow> 'v option"
    and inv :: "'v \<Rightarrow> bool"
    and rng :: "'v \<Rightarrow> int \<Rightarrow> bool"
    and val :: "'v \<Rightarrow> int \<Rightarrow> 'a"
  assumes at_in: "inv v \<Longrightarrow> rng v i \<Longrightarrow> at v i = Some v"
    and at_grow: "inv v \<Longrightarrow>
      \<exists>w. at v i = Some w \<and> inv w \<and> rng w i \<and> (\<forall>j. rng v j \<longrightarrow> rng w j \<and> val w j = val v j)"
    and get_in: "inv v \<Longrightarrow> rng v i \<Longrightarrow> get v i = Some (val v i)"
    and set_in: "inv v \<Longrightarrow> rng v i \<Longrightarrow>
      \<exists>w. set_at v i x = Some w \<and> inv w \<and> rng w = rng v \<and>
        (\<forall>j. rng v j \<longrightarrow> val w j = (if j = i then x else val v j))"
begin

text \<open>A write through a fresh pointer.\<close>

lemma store_spec:
  assumes "inv v"
  shows "\<exists>w. Option.bind (at v i) (\<lambda>v. set_at v i x) = Some w \<and> inv w \<and> rng w i \<and> val w i = x \<and>
    (\<forall>j. rng v j \<longrightarrow> rng w j \<and> (j \<noteq> i \<longrightarrow> val w j = val v j))"
proof -
  obtain u where u: "at v i = Some u" "inv u" "rng u i" "\<forall>j. rng v j \<longrightarrow> rng u j \<and> val u j = val v j"
    using at_grow [OF assms] by blast
  obtain w where "set_at u i x = Some w" "inv w" "rng w = rng u"
      "\<forall>j. rng u j \<longrightarrow> val w j = (if j = i then x else val u j)"
    using set_in [OF u(2,3)] by blast
  then show ?thesis using u by auto
qed

lemma exchange_spec:
  assumes v: "inv v" "rng v i" "rng v j"
  shows "\<exists>w. do { v \<leftarrow> at v i; v \<leftarrow> at v j; x \<leftarrow> get v i; y \<leftarrow> get v j; v \<leftarrow> set_at v i y; set_at v j x } = Some w \<and>
    inv w \<and> rng w = rng v \<and>
    (\<forall>k. rng v k \<longrightarrow> val w k = (if k = j then val v i else if k = i then val v j else val v k))"
proof -
  obtain u where u: "set_at v i (val v j) = Some u" "inv u" "rng u = rng v"
      "\<forall>k. rng v k \<longrightarrow> val u k = (if k = i then val v j else val v k)"
    using set_in [OF v(1,2)] by blast
  obtain w where "set_at u j (val v i) = Some w" "inv w" "rng w = rng u"
      "\<forall>k. rng u k \<longrightarrow> val w k = (if k = j then val v i else val u k)"
    using set_in [OF u(2), of j "val v i"] u(3) v by auto
  then show ?thesis using u v at_in get_in by auto
qed

end

interpretation va: index_array vector_at vec_get vec_set vec_inv in_vec vec_val
proof unfold_locales
  fix v :: "'a vec" and i
  assume v: "vec_inv v"
  obtain w where w: "vector_at v i = Some w" "vec_grown v w" "vmin w = min (vmin v) i" "vmax w = max (vmax v) i"
    by (rule vector_at_spec [OF v])
  then have "in_vec w i" by (simp add: in_vec_def)
  then show "\<exists>w. vector_at v i = Some w \<and> vec_inv w \<and> in_vec w i \<and>
      (\<forall>j. in_vec v j \<longrightarrow> in_vec w j \<and> vec_val w j = vec_val v j)"
    using w vec_grown_inv vec_grown_mono vec_grown_val by blast
next
  fix v :: "'a vec" and i x
  assume v: "vec_inv v" "in_vec v i"
  show "\<exists>w. vec_set v i x = Some w \<and> vec_inv w \<and> in_vec w = in_vec v \<and>
      (\<forall>j. in_vec v j \<longrightarrow> vec_val w j = (if j = i then x else vec_val v j))"
    by (rule exI [of _ "vec_upd v i x"]) (use v in \<open>auto simp: vec_simps fun_eq_iff\<close>)
qed (simp_all add: vec_simps)

lemma vec_swap_spec:
  assumes "vec_inv v" "in_vec v i" "in_vec v j"
  obtains w where "vec_swap v i j = Some w" "vec_inv w" "in_vec w = in_vec v"
    "\<And>k. in_vec v k \<Longrightarrow> vec_val w k = (if k = j then vec_val v i else if k = i then vec_val v j else vec_val v k)"
  using va.exchange_spec [OF assms] unfolding vec_swap_def by blast

section \<open>Properties\<close>

text \<open>
  \<open>vector::at\<close> returns on every index, negative ones too: it never leaves the allocation, the
  index is then inside the range, every cell that existed keeps its value, the range is the least
  one that has the old range and the index, and the new cells are initialised when the array was
  created with an initial value.
\<close>

theorem vector_at_grows:
  assumes "vec_inv v"
  shows "\<exists>w. vector_at v i = Some w \<and> vec_inv w \<and> vmin w = min (vmin v) i \<and> vmax w = max (vmax v) i \<and>
    (\<forall>j. in_vec v j \<longrightarrow> vec_val w j = vec_val v j) \<and>
    (\<forall>j. in_vec w j \<and> \<not> in_vec v j \<and> vinitialized v \<longrightarrow> vec_val w j = vinit v)"
proof -
  obtain w where "vector_at v i = Some w" "vec_grown v w" "vmin w = min (vmin v) i" "vmax w = max (vmax v) i"
    by (rule vector_at_spec [OF assms])
  then show ?thesis by (auto simp: vec_grown_def)
qed

theorem vector_at_grows_witness:
  "vec_inv (vector_new_init 0 2 2 (7 :: int) 0) \<and>
   (\<exists>w. vector_at (vector_new_init 0 2 2 (7 :: int) 0) (- 3) = Some w \<and> vmin w = - 3 \<and> vmax w = 2)"
  using vector_at_grows [OF vector_new_init_inv [of 0 2 2 "7 :: int" 0], of "- 3"]
    vector_new_init_inv [of 0 2 2 "7 :: int" 0]
  by (auto simp: vector_new_init_def vector_new_def Let_def)

text \<open>
  A \<open>vector\<close> created with an inverted range (\<open>max\<close> at least two below \<open>min\<close>) and an initial
  value is reported and given one cell, but keeps the inverted range; the first access at \<open>min\<close>
  then initialises a cell in front of the allocation.
\<close>

theorem vector_inverted_range_overrun:
  assumes "mx + 1 < mn"
  shows "vector_at (vector_new_init mn mx block init fresh) mn = None"
proof -
  define v where "v = vector_new_init mn mx block init fresh"
  have v: "vmin v = mn" "vmax v = mx" "vstart v = mn" "vspace v = 1" "vinitialized v" "ventry v = [init]"
    using assms by (auto simp: v_def vector_new_init_def vector_new_def Let_def)
  have "grow_front_loop mn v = Some v" "grow_back_loop mn v = Some v" "extend_min_loop mn v = Some v"
    using v by (simp_all add: grow_front_loop.simps [of mn v] grow_back_loop.simps [of mn v]
        extend_min_loop.simps [of mn v])
  moreover have "extend_max_loop mn v = None"
    using v assms by (simp add: extend_max_loop.simps [of mn v] init_cell_def arr_set_def)
  ultimately show ?thesis by (simp add: vector_at_def flip: v_def)
qed

theorem vector_inverted_range_overrun_witness:
  "(3 :: int) + 1 < 5 \<and> vector_at (vector_new_init 5 3 1 (0 :: int) 0) 5 = None"
  using vector_inverted_range_overrun [of 3 5 1 "0 :: int" 0] by simp

end
