(* ===== verification/Heap_Order.thy ===== *)
theory Heap_Order
  imports Prelude
begin

text \<open>
  The order of a binary heap on the positions \<open>1, \<dots>, n\<close> of an array, as the priority queue of
  \<open>common/containers/containers.h\<close> and the cron system of \<open>game_data/map/map.cpp\<close> keep it. The keys
  are a function of the position. \<open>heap_but key n p\<close> is the order without the comparisons of
  position \<open>p\<close> with its parent and its children, and one swap of the loops that restore the order
  moves the exception along the tree.
\<close>

definition heap_order :: "(int \<Rightarrow> 'k::linorder) \<Rightarrow> int \<Rightarrow> bool" where
  "heap_order key n \<longleftrightarrow> (\<forall>i. 2 \<le> i \<longrightarrow> i \<le> n \<longrightarrow> key (i div 2) \<le> key i)"

definition heap_but :: "(int \<Rightarrow> 'k::linorder) \<Rightarrow> int \<Rightarrow> int \<Rightarrow> bool" where
  "heap_but key n p \<longleftrightarrow>
     (\<forall>i. 2 \<le> i \<longrightarrow> i \<le> n \<longrightarrow> i \<noteq> p \<longrightarrow> i div 2 \<noteq> p \<longrightarrow> key (i div 2) \<le> key i) \<and>
     (\<forall>i. 2 \<le> i \<longrightarrow> i \<le> n \<longrightarrow> i div 2 = p \<longrightarrow> 2 \<le> p \<longrightarrow> key (p div 2) \<le> key i)"

definition parent_ok :: "(int \<Rightarrow> 'k::linorder) \<Rightarrow> int \<Rightarrow> bool" where
  "parent_ok key p \<longleftrightarrow> (2 \<le> p \<longrightarrow> key (p div 2) \<le> key p)"

definition children_ok :: "(int \<Rightarrow> 'k::linorder) \<Rightarrow> int \<Rightarrow> int \<Rightarrow> bool" where
  "children_ok key n p \<longleftrightarrow> (\<forall>i. 2 \<le> i \<longrightarrow> i \<le> n \<longrightarrow> i div 2 = p \<longrightarrow> key p \<le> key i)"

text \<open>The exchange of the keys of two positions.\<close>

definition swap_key :: "(int \<Rightarrow> 'k) \<Rightarrow> int \<Rightarrow> int \<Rightarrow> int \<Rightarrow> 'k" where
  "swap_key key p q = key(p := key q, q := key p)"

lemma half_bounds: "2 \<le> i \<Longrightarrow> 1 \<le> i div 2 \<and> i div 2 < (i :: int)"
  by auto

lemma half_child: "1 \<le> p \<Longrightarrow> i div 2 = p \<longleftrightarrow> i = 2 * p \<or> i = 2 * p + (1 :: int)"
  by auto

lemma heap_orderD: "heap_order key n \<Longrightarrow> 2 \<le> i \<Longrightarrow> i \<le> n \<Longrightarrow> key (i div 2) \<le> key i"
  by (simp add: heap_order_def)

lemma heap_butD1:
  "heap_but key n p \<Longrightarrow> 2 \<le> i \<Longrightarrow> i \<le> n \<Longrightarrow> i \<noteq> p \<Longrightarrow> i div 2 \<noteq> p \<Longrightarrow> key (i div 2) \<le> key i"
  by (simp add: heap_but_def)

lemma heap_butD2:
  "heap_but key n p \<Longrightarrow> 2 \<le> i \<Longrightarrow> i \<le> n \<Longrightarrow> i div 2 = p \<Longrightarrow> 2 \<le> p \<Longrightarrow> key (p div 2) \<le> key i"
  by (simp add: heap_but_def)

lemma heap_butI:
  assumes "\<And>i. 2 \<le> i \<Longrightarrow> i \<le> n \<Longrightarrow> i \<noteq> p \<Longrightarrow> i div 2 \<noteq> p \<Longrightarrow> key (i div 2) \<le> key i"
    and "\<And>i. 2 \<le> i \<Longrightarrow> i \<le> n \<Longrightarrow> i div 2 = p \<Longrightarrow> 2 \<le> p \<Longrightarrow> key (p div 2) \<le> key i"
  shows "heap_but key n p"
  using assms by (simp add: heap_but_def)

text \<open>The predicates depend on the positions \<open>1, \<dots>, n\<close> only.\<close>

lemma heap_order_cong:
  assumes "\<And>i. 1 \<le> i \<Longrightarrow> i \<le> n \<Longrightarrow> key i = key' i" "heap_order key n"
  shows "heap_order key' n"
  unfolding heap_order_def
proof (intro allI impI)
  fix i :: int assume i: "2 \<le> i" "i \<le> n"
  then show "key' (i div 2) \<le> key' i"
    using heap_orderD [OF assms(2) i] assms(1) [of i] assms(1) [of "i div 2"] half_bounds [OF i(1)] by simp
qed

lemma heap_but_cong:
  assumes k: "\<And>i. 1 \<le> i \<Longrightarrow> i \<le> n \<Longrightarrow> key i = key' i" and h: "heap_but key n p"
  shows "heap_but key' n p"
proof (rule heap_butI)
  fix i :: int assume i: "2 \<le> i" "i \<le> n" "i \<noteq> p" "i div 2 \<noteq> p"
  then show "key' (i div 2) \<le> key' i"
    using heap_butD1 [OF h i] k [of i] k [of "i div 2"] half_bounds [OF i(1)] by simp
next
  fix i assume i: "2 \<le> i" "i \<le> n" "i div 2 = p" "2 \<le> p"
  then show "key' (p div 2) \<le> key' i"
    using heap_butD2 [OF h i] k [of i] k [of "p div 2"] half_bounds [OF i(1)] half_bounds [OF i(4)] by simp
qed

lemma children_ok_cong:
  assumes "\<And>i. 1 \<le> i \<Longrightarrow> i \<le> n \<Longrightarrow> key i = key' i" "children_ok key n p"
  shows "children_ok key' n p"
  using assms half_bounds unfolding children_ok_def
  by (metis dual_order.strict_trans1 less_le_not_le linorder_not_less one_le_numeral order_trans)

lemma parent_ok_cong:
  assumes "\<And>i. 1 \<le> i \<Longrightarrow> i \<le> p \<Longrightarrow> key i = key' i" "parent_ok key p"
  shows "parent_ok key' p"
  using assms(2) assms(1) [of p] assms(1) [of "p div 2"] half_bounds [of p] by (auto simp: parent_ok_def)

lemma heap_order_iff:
  assumes "1 \<le> p" "p \<le> n"
  shows "heap_order key n \<longleftrightarrow> heap_but key n p \<and> parent_ok key p \<and> children_ok key n p"
proof
  assume h: "heap_order key n"
  have "heap_but key n p"
  proof (rule heap_butI)
    fix i assume i: "2 \<le> i" "i \<le> n" "i div 2 = p" "2 \<le> p"
    then show "key (p div 2) \<le> key i"
      using heap_orderD [OF h i(1,2)] heap_orderD [OF h i(4) assms(2)] by simp
  qed (rule heap_orderD [OF h])
  then show "heap_but key n p \<and> parent_ok key p \<and> children_ok key n p"
    using h assms by (auto simp: heap_order_def parent_ok_def children_ok_def)
next
  assume "heap_but key n p \<and> parent_ok key p \<and> children_ok key n p"
  then show "heap_order key n"
    by (auto simp: heap_order_def heap_but_def parent_ok_def children_ok_def)
qed

text \<open>The root of a heap has the least key.\<close>

lemma heap_order_min:
  assumes "heap_order key n" "1 \<le> i" "i \<le> n"
  shows "key 1 \<le> key i"
  using assms(2,3)
proof (induction "nat i" arbitrary: i rule: less_induct)
  case less
  show ?case
  proof (cases "i = 1")
    case False
    then have i: "2 \<le> i" using less.prems by simp
    have "key 1 \<le> key (i div 2)"
      using half_bounds [OF i] less.prems by (intro less.hyps) auto
    also have "\<dots> \<le> key i"
      using assms(1) i less.prems by (simp add: heap_order_def)
    finally show ?thesis .
  qed simp
qed

section \<open>One step up\<close>

lemma swap_up:
  assumes h: "heap_but key n p" and p: "2 \<le> p" "p \<le> n" and less: "key p < key (p div 2)"
  shows "heap_but (swap_key key p (p div 2)) n (p div 2)"
    and "children_ok (swap_key key p (p div 2)) n (p div 2)"
proof -
  let ?q = "p div 2" and ?k = "swap_key key p (p div 2)"
  have q: "1 \<le> ?q" "?q < p" using half_bounds [OF p(1)] by auto
  have sib: "key ?q \<le> key i" if "2 \<le> i" "i \<le> n" "i div 2 = ?q" "i \<noteq> p" for i
    using heap_butD1 [OF h that(1,2,4)] that q by simp
  have above: "key (?q div 2) \<le> key ?q" if "2 \<le> ?q"
    using heap_butD1 [OF h that] half_bounds [OF that] q p by simp
  show "heap_but ?k n ?q"
  proof (rule heap_butI)
    fix i assume i: "2 \<le> i" "i \<le> n" "i \<noteq> ?q" "i div 2 \<noteq> ?q"
    then show "?k (i div 2) \<le> ?k i"
      using heap_butD2 [OF h i(1,2)] heap_butD1 [OF h i(1,2)] p q half_bounds [OF i(1)]
      by (auto simp: swap_key_def)
  next
    fix i assume i: "2 \<le> i" "i \<le> n" "i div 2 = ?q" "2 \<le> ?q"
    have "?k (?q div 2) = key (?q div 2)"
      using half_bounds [OF i(4)] q by (simp add: swap_key_def)
    also have "\<dots> \<le> key ?q" by (rule above [OF i(4)])
    also have "\<dots> \<le> ?k i"
      using sib [OF i(1-3)] half_bounds [OF i(1)] i(3) by (auto simp: swap_key_def)
    finally show "?k (?q div 2) \<le> ?k i" .
  qed
  show "children_ok ?k n ?q"
    unfolding children_ok_def
  proof (intro allI impI)
    fix i assume i: "2 \<le> i" "i \<le> n" "i div 2 = ?q"
    show "?k ?q \<le> ?k i"
      using sib [OF i] less q half_bounds [OF i(1)] i(3) by (auto simp: swap_key_def)
  qed
qed

section \<open>One step down\<close>

lemma swap_down:
  assumes h: "heap_but key n p" and ok: "parent_ok key p" and p: "1 \<le> p"
    and c: "c div 2 = p" "c \<le> n" and smallest: "\<And>i. 2 \<le> i \<Longrightarrow> i \<le> n \<Longrightarrow> i div 2 = p \<Longrightarrow> key c \<le> key i"
    and less: "key c < key p"
  shows "heap_but (swap_key key p c) n c" and "parent_ok (swap_key key p c) c"
proof -
  let ?k = "swap_key key p c"
  have c2: "2 \<le> c" "p < c" using c p by auto
  have above: "key (p div 2) \<le> key c" if "2 \<le> p"
    using heap_butD2 [OF h c2(1) c(2,1) that] .
  show "heap_but ?k n c"
  proof (rule heap_butI)
    fix i assume i: "2 \<le> i" "i \<le> n" "i \<noteq> c" "i div 2 \<noteq> c"
    then show "?k (i div 2) \<le> ?k i"
      using smallest [OF i(1,2)] above heap_butD1 [OF h i(1,2)] half_bounds [OF i(1)] c2
      by (auto simp: swap_key_def)
  next
    fix i assume i: "2 \<le> i" "i \<le> n" "i div 2 = c" "2 \<le> c"
    have "key c \<le> key i"
      using heap_butD1 [OF h i(1,2)] i c2 half_bounds [OF i(1)] by simp
    then show "?k (c div 2) \<le> ?k i"
      using c c2 half_bounds [OF i(1)] i(3) by (auto simp: swap_key_def)
  qed
  show "parent_ok ?k c"
    using less c c2 by (simp add: parent_ok_def swap_key_def)
qed

text \<open>A position without children, or none with a smaller key, has its children in order.\<close>

lemma children_ok_leaf: "1 \<le> p \<Longrightarrow> n < 2 * p \<Longrightarrow> children_ok key n p"
  by (auto simp: children_ok_def)

lemma children_ok_smallest:
  assumes "\<And>i. 2 \<le> i \<Longrightarrow> i \<le> n \<Longrightarrow> i div 2 = p \<Longrightarrow> key c \<le> key i" "key p \<le> key c"
  shows "children_ok key n p"
  using assms by (auto simp: children_ok_def intro: order_trans)

text \<open>A new last position is only compared with its parent.\<close>

lemma heap_but_append:
  assumes "heap_order key n" "0 \<le> n"
  shows "heap_but key (n + 1) (n + 1)" "children_ok key (n + 1) (n + 1)"
  using assms by (auto simp: heap_but_def heap_order_def children_ok_def)

text \<open>Changing the key of one position only affects its comparisons.\<close>

lemma heap_but_upd:
  assumes "heap_order key n" "1 \<le> p" "p \<le> n"
  shows "heap_but (key(p := x)) n p"
proof -
  have h: "heap_but key n p" using heap_order_iff [OF assms(2,3)] assms(1) by blast
  show ?thesis
  proof (rule heap_butI)
    fix i assume i: "2 \<le> i" "i \<le> n" "i \<noteq> p" "i div 2 \<noteq> p"
    then show "(key(p := x)) (i div 2) \<le> (key(p := x)) i"
      using heap_butD1 [OF h i] by simp
  next
    fix i assume i: "2 \<le> i" "i \<le> n" "i div 2 = p" "2 \<le> p"
    then show "(key(p := x)) (p div 2) \<le> (key(p := x)) i"
      using heap_butD2 [OF h i] half_bounds [OF i(1)] half_bounds [OF i(4)] by auto
  qed
qed

lemma heap_order_shrink: "heap_order key n \<Longrightarrow> m \<le> n \<Longrightarrow> heap_order key m"
  by (auto simp: heap_order_def)

text \<open>The child the downward loop compares with has the smallest key among the children.\<close>

lemma smallest_child:
  fixes key :: "int \<Rightarrow> 'k::linorder"
  assumes "1 \<le> p" "2 * p \<le> n" "c = (if 2 * p + 1 \<le> n \<and> key (2 * p + 1) < key (2 * p) then 2 * p + 1 else 2 * p)"
  shows "c div 2 = p" "c \<le> n" "p < c" "2 \<le> i \<Longrightarrow> i \<le> n \<Longrightarrow> i div 2 = p \<Longrightarrow> key c \<le> key i"
  using assms half_child [OF assms(1), of i] by (auto split: if_splits)

text \<open>The exchange of two positions keeps the contents.\<close>

lemma image_mset_swap_key:
  assumes "p \<in> B" "q \<in> B" "finite B" "\<And>k. k \<in> B \<Longrightarrow> g k = swap_key f p q k"
  shows "image_mset g (mset_set B) = image_mset f (mset_set B)"
proof -
  let ?t = "\<lambda>k. if k = q then p else if k = p then q else k"
  have "image_mset g (mset_set B) = image_mset (f \<circ> ?t) (mset_set B)"
    using assms by (intro image_mset_cong) (auto simp: swap_key_def)
  also have "\<dots> = image_mset f (image_mset ?t (mset_set B))"
    by (simp only: multiset.map_comp)
  also have "image_mset ?t (mset_set B) = mset_set (?t ` B)"
    by (rule image_mset_mset_set) (auto simp: inj_on_def)
  also have "?t ` B = B" using assms(1,2) by (auto simp: image_iff)
  finally show ?thesis .
qed

end
