(* ===== verification/Priority_Queue.thy ===== *)
theory Priority_Queue
  imports Vector Heap_Order
begin

text \<open>
  The \<open>priority_queue\<close> of \<open>common/containers/containers.h\<close>, a binary heap on a \<open>vector\<close> whose
  entries 1 to \<open>Entries\<close> are in use. Both loops are options: \<open>None\<close> would be an access outside the
  array or a loop without end, and the theorems show that neither occurs.
\<close>

record ('k, 'd) priority_queue_entry =
  Key :: 'k
  Data :: 'd

record ('k, 'd) priority_queue =
  Entry :: "('k, 'd) priority_queue_entry vec"
  Entries :: int

definition priority_queue_new :: "int \<Rightarrow> int \<Rightarrow> ('k, 'd) priority_queue_entry \<Rightarrow> ('k, 'd) priority_queue" where
  "priority_queue_new capacity increment fresh =
     \<lparr>Entry = vector_new 1 capacity increment fresh, Entries = 0\<rparr>"

text \<open>The loop of \<open>insert\<close>.\<close>

partial_function (option) insert_loop ::
  "('k::linorder, 'd) priority_queue_entry vec \<Rightarrow> int \<Rightarrow> ('k, 'd) priority_queue_entry vec option" where
  "insert_loop v CurrentIndex =
     (if CurrentIndex > 1
      then let ParentIndex = CurrentIndex sdiv 2
           in do { v \<leftarrow> vector_at v CurrentIndex;
                   v \<leftarrow> vector_at v ParentIndex;
                   Current \<leftarrow> vec_get v CurrentIndex;
                   Parent \<leftarrow> vec_get v ParentIndex;
                   if Key Parent \<le> Key Current then Some v
                   else Option.bind (vec_swap v CurrentIndex ParentIndex) (\<lambda>v. insert_loop v ParentIndex) }
      else Some v)"

definition priority_queue_insert ::
  "('k::linorder, 'd) priority_queue \<Rightarrow> 'k \<Rightarrow> 'd \<Rightarrow> ('k, 'd) priority_queue option" where
  "priority_queue_insert q K D =
     (let CurrentIndex = Entries q + 1
      in do { v \<leftarrow> vector_at (Entry q) CurrentIndex;
              v \<leftarrow> vec_set v CurrentIndex \<lparr>Key = K, Data = D\<rparr>;
              v \<leftarrow> insert_loop v CurrentIndex;
              Some (q\<lparr>Entry := v, Entries := CurrentIndex\<rparr>) })"

text \<open>The loop of \<open>deleteMin\<close>; \<open>LastIndex\<close> itself is no longer in the heap.\<close>

partial_function (option) deleteMin_loop ::
  "int \<Rightarrow> ('k::linorder, 'd) priority_queue_entry vec \<Rightarrow> int \<Rightarrow> ('k, 'd) priority_queue_entry vec option" where
  "deleteMin_loop LastIndex v CurrentIndex =
     (let SmallestIndex = CurrentIndex * 2
      in if SmallestIndex \<ge> LastIndex then Some v
         else do { v \<leftarrow> vector_at v SmallestIndex;
                   Smallest \<leftarrow> vec_get v SmallestIndex;
                   (v, Smallest, SmallestIndex) \<leftarrow>
                     (if SmallestIndex + 1 < LastIndex
                      then do { v \<leftarrow> vector_at v (SmallestIndex + 1);
                                Other \<leftarrow> vec_get v (SmallestIndex + 1);
                                Some (if Key Other < Key Smallest then (v, Other, SmallestIndex + 1)
                                      else (v, Smallest, SmallestIndex)) }
                      else Some (v, Smallest, SmallestIndex));
                   v \<leftarrow> vector_at v CurrentIndex;
                   Current \<leftarrow> vec_get v CurrentIndex;
                   if Key Current \<le> Key Smallest then Some v
                   else Option.bind (vec_swap v CurrentIndex SmallestIndex)
                          (\<lambda>v. deleteMin_loop LastIndex v SmallestIndex) })"

declare insert_loop.simps [code] deleteMin_loop.simps [code]

text \<open>The flag of the result says that the error message was written.\<close>

definition priority_queue_deleteMin ::
  "('k::linorder, 'd) priority_queue \<Rightarrow> (('k, 'd) priority_queue \<times> bool) option" where
  "priority_queue_deleteMin q =
     (if Entries q < 1 then Some (q, True)
      else do { v \<leftarrow> (if Entries q > 1
                     then do { v \<leftarrow> vec_swap (Entry q) 1 (Entries q); deleteMin_loop (Entries q) v 1 }
                     else Some (Entry q));
                Some (q\<lparr>Entry := v, Entries := Entries q - 1\<rparr>, False) })"

text \<open>The entry at the front, as \<open>move_creatures\<close> and \<open>process_monster_raids\<close> read it.\<close>

definition priority_queue_first :: "('k::linorder, 'd) priority_queue \<Rightarrow> ('k \<times> 'd) option" where
  "priority_queue_first q =
     do { v \<leftarrow> vector_at (Entry q) 1; e \<leftarrow> vec_get v 1; Some (Key e, Data e) }"

text \<open>Taking \<open>n\<close> entries out of a queue, front first.\<close>

primrec drain :: "('q \<Rightarrow> 'x option) \<Rightarrow> ('q \<Rightarrow> ('q \<times> bool) option) \<Rightarrow> nat \<Rightarrow> 'q \<Rightarrow> ('x list \<times> 'q) option" where
  "drain first del 0 q = Some ([], q)"
| "drain first del (Suc n) q =
     do { x \<leftarrow> first q; (q, _) \<leftarrow> del q; (xs, q) \<leftarrow> drain first del n q; Some (x # xs, q) }"

section \<open>The invariant and the contents\<close>

definition in_use :: "'a vec \<Rightarrow> int \<Rightarrow> bool" where
  "in_use v n \<longleftrightarrow> vec_inv v \<and> vmin v \<le> 1 \<and> n \<le> vmax v"

abbreviation vec_key :: "('k, 'd) priority_queue_entry vec \<Rightarrow> int \<Rightarrow> 'k" where
  "vec_key v \<equiv> (\<lambda>i. Key (vec_val v i))"

definition pq_inv :: "('k::linorder, 'd) priority_queue \<Rightarrow> bool" where
  "pq_inv q \<longleftrightarrow> 0 \<le> Entries q \<and> in_use (Entry q) (Entries q) \<and> heap_order (vec_key (Entry q)) (Entries q)"

definition cells :: "'a vec \<Rightarrow> int \<Rightarrow> 'a multiset" where
  "cells v n = image_mset (vec_val v) (mset_set {1..n})"

text \<open>The contents of the queue: its pairs of key and data.\<close>

definition pq_mset :: "('k, 'd) priority_queue \<Rightarrow> ('k \<times> 'd) multiset" where
  "pq_mset q = image_mset (\<lambda>e. (Key e, Data e)) (cells (Entry q) (Entries q))"

lemma in_use_in_vec: "in_use v n \<Longrightarrow> 1 \<le> i \<Longrightarrow> i \<le> n \<Longrightarrow> vec_inv v \<and> in_vec v i"
  by (simp add: in_use_def in_vec_def)

lemma in_use_iff: "in_vec w = in_vec v \<Longrightarrow> vec_inv w \<Longrightarrow> 1 \<le> n \<Longrightarrow> in_use v n \<Longrightarrow> in_use w n"
  unfolding in_use_def in_vec_def by (auto dest: fun_cong [of _ _ 1] fun_cong [of _ _ n])

text \<open>An exchange of two cells in use: the keys are exchanged and the contents are the same.\<close>

lemma cells_cong:
  assumes "\<And>i. 1 \<le> i \<Longrightarrow> i \<le> n \<Longrightarrow> vec_val v i = vec_val w i"
  shows "cells v n = cells w n"
  unfolding cells_def by (rule image_mset_cong) (use assms in auto)

lemma in_use_swap:
  assumes v: "in_use v n" and i: "1 \<le> i" "i \<le> n" and j: "1 \<le> j" "j \<le> n"
  obtains w where "vec_swap v i j = Some w" "in_use w n" "cells w n = cells v n"
    "\<And>k. 1 \<le> k \<Longrightarrow> k \<le> n \<Longrightarrow> vec_val w k = (if k = j then vec_val v i else if k = i then vec_val v j else vec_val v k)"
    "\<And>k. 1 \<le> k \<Longrightarrow> k \<le> n \<Longrightarrow> vec_key w k = swap_key (vec_key v) i j k"
proof -
  obtain w where w: "vec_swap v i j = Some w" "vec_inv w" "in_vec w = in_vec v"
    and val: "\<And>k. in_vec v k \<Longrightarrow> vec_val w k = (if k = j then vec_val v i else if k = i then vec_val v j else vec_val v k)"
    using in_use_in_vec [OF v] i j vec_swap_spec [of v i j] by metis
  have val': "vec_val w k = (if k = j then vec_val v i else if k = i then vec_val v j else vec_val v k)"
    if "1 \<le> k" "k \<le> n" for k
    using val in_use_in_vec [OF v that] by blast
  have "cells w n = cells v n"
    unfolding cells_def using i j val' by (intro image_mset_swap_key [of i _ j]) (auto simp: swap_key_def)
  then show ?thesis
    using w val' in_use_iff [OF w(3) w(2) _ v] i by (intro that [of w]) (auto simp: swap_key_def)
qed

section \<open>The loops\<close>

lemma insert_loop_spec:
  assumes "in_use v n" "1 \<le> p" "p \<le> n" "heap_but (vec_key v) n p" "children_ok (vec_key v) n p"
  shows "\<exists>w. insert_loop v p = Some w \<and> in_use w n \<and> cells w n = cells v n \<and> heap_order (vec_key w) n"
  using assms
proof (induction "nat p" arbitrary: v p rule: less_induct)
  case less
  note v = less.prems(1) and p = less.prems(2,3) and h = less.prems(4,5)
  show ?case
  proof (cases "1 < p")
    case False
    then have "parent_ok (vec_key v) p" by (simp add: parent_ok_def)
    then show ?thesis
      using False v p h heap_order_iff [OF p] by (subst insert_loop.simps) auto
  next
    case True
    then have p2: "2 \<le> p" by simp
    let ?q = "p div 2"
    have q: "1 \<le> ?q" "?q < p" "?q \<le> n" using half_bounds [OF p2] p by auto
    have half: "p sdiv 2 = ?q" using p by (simp add: range_simps)
    have acc: "vector_at v p = Some v" "vector_at v ?q = Some v"
        "vec_get v p = Some (vec_val v p)" "vec_get v ?q = Some (vec_val v ?q)"
      using in_use_in_vec [OF v] p q by (auto simp: vec_simps)
    show ?thesis
    proof (cases "vec_key v ?q \<le> vec_key v p")
      case le: True
      then have "parent_ok (vec_key v) p" by (simp add: parent_ok_def)
      then show ?thesis
        using True le half acc v p h heap_order_iff [OF p] by (subst insert_loop.simps) (auto simp: Let_def)
    next
      case False
      obtain u where u: "vec_swap v p ?q = Some u" "in_use u n" "cells u n = cells v n"
        and key: "\<And>k. 1 \<le> k \<Longrightarrow> k \<le> n \<Longrightarrow> vec_key u k = swap_key (vec_key v) p ?q k"
        using in_use_swap [OF v p q(1,3)] by metis
      have less_key: "vec_key v p < vec_key v ?q" using False by simp
      have "heap_but (vec_key u) n ?q" "children_ok (vec_key u) n ?q"
        using heap_but_cong [OF _ swap_up(1) [OF h(1) p2 p(2) less_key], of "vec_key u"]
          children_ok_cong [OF _ swap_up(2) [OF h(1) p2 p(2) less_key], of "vec_key u"] key by auto
      then have "\<exists>w. insert_loop u ?q = Some w \<and> in_use w n \<and> cells w n = cells u n \<and> heap_order (vec_key w) n"
        using q u by (intro less.hyps) auto
      then show ?thesis
        using True False half acc u by (subst insert_loop.simps) (auto simp: Let_def)
    qed
  qed
qed

lemma deleteMin_loop_spec:
  assumes "in_use v n" "1 \<le> p" "p \<le> n" "heap_but (vec_key v) n p" "parent_ok (vec_key v) p"
  shows "\<exists>w. deleteMin_loop (n + 1) v p = Some w \<and> in_use w n \<and> cells w n = cells v n \<and> heap_order (vec_key w) n"
  using assms
proof (induction "nat (n - p)" arbitrary: v p rule: less_induct)
  case less
  note v = less.prems(1) and p = less.prems(2,3) and h = less.prems(4,5)
  show ?case
  proof (cases "2 * p \<le> n")
    case False
    then have "children_ok (vec_key v) n p" using p by (simp add: children_ok_leaf)
    then show ?thesis
      using False v p h heap_order_iff [OF p] by (subst deleteMin_loop.simps) (auto simp: Let_def)
  next
    case True
    define c where "c = (if 2 * p + 1 \<le> n \<and> vec_key v (2 * p + 1) < vec_key v (2 * p) then 2 * p + 1 else 2 * p)"
    note c = smallest_child(1-3) [OF p(1) True c_def] and least = smallest_child(4) [OF p(1) True c_def]
    have acc: "vector_at v p = Some v" "vec_get v p = Some (vec_val v p)"
        "vector_at v (p * 2) = Some v" "vec_get v (p * 2) = Some (vec_val v (2 * p))"
      using in_use_in_vec [OF v] p True by (auto simp: vec_simps mult.commute)
    have acc1: "vector_at v (p * 2 + 1) = Some v \<and> vec_get v (p * 2 + 1) = Some (vec_val v (2 * p + 1))"
      if "p * 2 < n"
      using in_use_in_vec [OF v, of "2 * p + 1"] p that by (auto simp: vec_simps mult.commute)
    have step: "deleteMin_loop (n + 1) v p =
        (if vec_key v p \<le> vec_key v c then Some v
         else Option.bind (vec_swap v p c) (\<lambda>v. deleteMin_loop (n + 1) v c))"
      using True acc acc1 by (subst deleteMin_loop.simps) (auto simp: Let_def c_def mult.commute)
    show ?thesis
    proof (cases "vec_key v p \<le> vec_key v c")
      case le: True
      then have "children_ok (vec_key v) n p" using least by (intro children_ok_smallest) auto
      then show ?thesis using step le v h heap_order_iff [OF p] by auto
    next
      case False
      have c1: "1 \<le> c" using c p by simp
      obtain u where u: "vec_swap v p c = Some u" "in_use u n" "cells u n = cells v n"
        and key: "\<And>k. 1 \<le> k \<Longrightarrow> k \<le> n \<Longrightarrow> vec_key u k = swap_key (vec_key v) p c k"
        using in_use_swap [OF v p c1 c(2)] by metis
      have less_key: "vec_key v c < vec_key v p" using False by simp
      have "heap_but (vec_key u) n c"
        by (rule heap_but_cong [OF _ swap_down(1) [OF h p(1) c(1,2) least less_key]]) (simp_all add: key)
      moreover have "parent_ok (vec_key u) c"
        by (rule parent_ok_cong [OF _ swap_down(2) [OF h p(1) c(1,2) least less_key]]) (use key c(2) in simp_all)
      ultimately have "\<exists>w. deleteMin_loop (n + 1) u c = Some w \<and> in_use w n \<and> cells w n = cells u n \<and>
          heap_order (vec_key w) n"
        using c c1 u p by (intro less.hyps) auto
      then show ?thesis using step False u by auto
    qed
  qed
qed

section \<open>The operations\<close>

lemma mset_set_upto: "0 \<le> n \<Longrightarrow> mset_set {1..n + 1} = add_mset (n + 1) (mset_set {1..n :: int})"
proof -
  assume "0 \<le> n"
  then have "{1..n + 1} = insert (n + 1) {1..n}" by auto
  then show ?thesis by simp
qed

lemma cells_Suc: "0 \<le> n \<Longrightarrow> cells v (n + 1) = add_mset (vec_val v (n + 1)) (cells v n)"
  by (simp add: cells_def mset_set_upto)

lemma in_use_mono: "in_use v n \<Longrightarrow> m \<le> n \<Longrightarrow> in_use v m"
  by (simp add: in_use_def)

lemma priority_queue_new_inv: "0 \<le> capacity \<Longrightarrow> pq_inv (priority_queue_new capacity increment fresh)"
  using vector_new_inv [of 1 capacity increment fresh]
  by (simp add: pq_inv_def priority_queue_new_def in_use_def heap_order_def) (simp add: vector_new_def Let_def)

lemma priority_queue_insert_spec:
  assumes inv: "pq_inv q"
  shows "\<exists>r. priority_queue_insert q K D = Some r \<and> pq_inv r \<and> Entries r = Entries q + 1 \<and>
    pq_mset r = add_mset (K, D) (pq_mset q)"
proof -
  let ?n = "Entries q + 1"
  have n: "0 \<le> Entries q" and use: "in_use (Entry q) (Entries q)"
    and heap: "heap_order (vec_key (Entry q)) (Entries q)"
    using inv by (auto simp: pq_inv_def)
  obtain u where u: "Option.bind (vector_at (Entry q) ?n) (\<lambda>v. vec_set v ?n \<lparr>Key = K, Data = D\<rparr>) = Some u"
      "vec_inv u" "in_vec u ?n" "vec_val u ?n = \<lparr>Key = K, Data = D\<rparr>"
    and val: "\<And>j. in_vec (Entry q) j \<Longrightarrow> in_vec u j \<and> (j \<noteq> ?n \<longrightarrow> vec_val u j = vec_val (Entry q) j)"
    using va.store_spec [of "Entry q" ?n] use unfolding in_use_def by blast
  have old: "vec_val u i = vec_val (Entry q) i" if "1 \<le> i" "i \<le> Entries q" for i
    using val [of i] in_use_in_vec [OF use that] that by auto
  have "vmin u \<le> 1"
  proof (cases "Entries q = 0")
    case True
    then show ?thesis using u(3) by (simp add: in_vec_def)
  next
    case False
    then show ?thesis using val [of 1] in_use_in_vec [OF use, of 1] n by (simp add: in_vec_def)
  qed
  then have use': "in_use u ?n" using u(2,3) by (simp add: in_use_def in_vec_def)
  have heap': "heap_order (vec_key u) (Entries q)"
    using heap_order_cong [OF _ heap, of "vec_key u"] old by simp
  obtain w where w: "insert_loop u ?n = Some w" "in_use w ?n" "cells w ?n = cells u ?n"
      "heap_order (vec_key w) ?n"
    using insert_loop_spec [OF use' _ _ heap_but_append [OF heap' n]] n by auto
  have "cells w ?n = add_mset \<lparr>Key = K, Data = D\<rparr> (cells (Entry q) (Entries q))"
    using w(3) cells_Suc [OF n, of u] u(4) cells_cong [OF old] by simp
  then show ?thesis
    using u(1) w n by (auto simp: priority_queue_insert_def pq_inv_def pq_mset_def Let_def bind_eq_Some_conv)
qed

lemma priority_queue_deleteMin_spec:
  assumes inv: "pq_inv q" and pos: "1 \<le> Entries q"
  shows "\<exists>r. priority_queue_deleteMin q = Some (r, False) \<and> pq_inv r \<and> Entries r = Entries q - 1 \<and>
    pq_mset q = add_mset (Key (vec_val (Entry q) 1), Data (vec_val (Entry q) 1)) (pq_mset r)"
proof -
  define n where "n = Entries q - 1"
  have q: "Entries q = n + 1" "0 \<le> n" and use: "in_use (Entry q) (n + 1)"
    and heap: "heap_order (vec_key (Entry q)) (n + 1)"
    using inv pos by (auto simp: pq_inv_def n_def)
  show ?thesis
  proof (cases "n = 0")
    case True
    then show ?thesis
      using q use by (auto simp: priority_queue_deleteMin_def pq_inv_def pq_mset_def heap_order_def in_use_def cells_def)
  next
    case False
    then have n: "1 \<le> n" "1 \<le> n + 1" "(1 :: int) \<le> 1" using q by auto
    obtain u where u: "vec_swap (Entry q) 1 (n + 1) = Some u" "in_use u (n + 1)"
        "cells u (n + 1) = cells (Entry q) (n + 1)"
      and val: "\<And>k. 1 \<le> k \<Longrightarrow> k \<le> n + 1 \<Longrightarrow> vec_val u k =
        (if k = n + 1 then vec_val (Entry q) 1 else if k = 1 then vec_val (Entry q) (n + 1) else vec_val (Entry q) k)"
      using in_use_swap [OF use n(3,2,2) order_refl] by metis
    have "heap_but ((vec_key (Entry q))(1 := vec_key (Entry q) (n + 1))) n 1"
      using heap_order_shrink [OF heap, of n] n by (intro heap_but_upd) auto
    then have "heap_but (vec_key u) n 1"
      by (rule heap_but_cong [rotated]) (use val in auto)
    then obtain w where w: "deleteMin_loop (n + 1) u 1 = Some w" "in_use w n" "cells w n = cells u n"
        "heap_order (vec_key w) n"
      using deleteMin_loop_spec [OF in_use_mono [OF u(2)], of n 1] n by (auto simp: parent_ok_def)
    have "cells (Entry q) (n + 1) = add_mset (vec_val (Entry q) 1) (cells w n)"
      using u(3) w(3) cells_Suc [OF q(2), of u] val [of "n + 1"] n by simp
    then show ?thesis
      using u w q n by (auto simp: priority_queue_deleteMin_def pq_inv_def pq_mset_def)
  qed
qed

text \<open>The first entry, which the users of the queue read, has the least key.\<close>

lemma pq_mset_empty_iff: "pq_inv q \<Longrightarrow> pq_mset q = {#} \<longleftrightarrow> Entries q < 1"
  by (auto simp: pq_mset_def cells_def pq_inv_def mset_set_empty_iff)

lemma size_pq_mset: "pq_inv q \<Longrightarrow> int (size (pq_mset q)) = Entries q"
  by (simp add: pq_mset_def cells_def pq_inv_def)

lemma priority_queue_first_spec:
  assumes "pq_inv q" "1 \<le> Entries q"
  shows "priority_queue_first q = Some (Key (vec_val (Entry q) 1), Data (vec_val (Entry q) 1))"
  using assms in_use_in_vec [of "Entry q" "Entries q" 1]
  by (auto simp: priority_queue_first_def pq_inv_def vec_simps)

lemma pq_first_least:
  assumes "pq_inv q" "x \<in># pq_mset q"
  shows "vec_key (Entry q) 1 \<le> fst x"
  using assms heap_order_min by (auto simp: pq_mset_def cells_def pq_inv_def)

section \<open>The interface\<close>

text \<open>The contract of a queue by ascending key, and what its users get from it.\<close>

locale min_queue =
  fixes inv :: "'q \<Rightarrow> bool"
    and contents :: "'q \<Rightarrow> ('k::linorder \<times> 'd) multiset"
    and ins :: "'q \<Rightarrow> 'k \<Rightarrow> 'd \<Rightarrow> 'q option"
    and del :: "'q \<Rightarrow> ('q \<times> bool) option"
    and first :: "'q \<Rightarrow> ('k \<times> 'd) option"
  assumes ins_law: "inv q \<Longrightarrow> \<exists>r. ins q k d = Some r \<and> inv r \<and> contents r = add_mset (k, d) (contents q)"
    and del_law: "inv q \<Longrightarrow> contents q \<noteq> {#} \<Longrightarrow>
      \<exists>r x. del q = Some (r, False) \<and> first q = Some x \<and> inv r \<and> contents q = add_mset x (contents r) \<and>
        (\<forall>y \<in># contents q. fst x \<le> fst y)"
    and del_empty: "inv q \<Longrightarrow> contents q = {#} \<Longrightarrow> del q = Some (q, True)"
begin

lemma drain_sorted:
  "inv q \<Longrightarrow> n = size (contents q) \<Longrightarrow>
    \<exists>xs r. drain first del n q = Some (xs, r) \<and> inv r \<and> contents r = {#} \<and> mset xs = contents q \<and> sorted (map fst xs)"
proof (induction n arbitrary: q)
  case (Suc n)
  then have ne: "contents q \<noteq> {#}" by auto
  obtain r x where r: "del q = Some (r, False)" "first q = Some x" "inv r" "contents q = add_mset x (contents r)"
      "\<forall>y \<in># contents q. fst x \<le> fst y"
    using del_law [OF Suc.prems(1) ne] by blast
  obtain xs s where s: "drain first del n r = Some (xs, s)" "inv s" "contents s = {#}" "mset xs = contents r"
      "sorted (map fst xs)"
    using Suc.IH [OF r(3)] Suc.prems(2) r(4) by auto
  have "\<forall>y \<in> set xs. fst x \<le> fst y"
    using r(4,5) s(4) by (metis set_mset_mset insert_iff set_mset_add_mset_insert)
  then show ?case using r s by auto
qed simp

text \<open>An inserted pair is delivered: it is in the contents until it has been taken out.\<close>

lemma insert_delivered:
  assumes "inv q"
  shows "\<exists>r xs s. ins q k d = Some r \<and> drain first del (Suc (size (contents q))) r = Some (xs, s) \<and>
    contents s = {#} \<and> mset xs = add_mset (k, d) (contents q) \<and> sorted (map fst xs)"
proof -
  obtain r where r: "ins q k d = Some r" "inv r" "contents r = add_mset (k, d) (contents q)"
    using ins_law [OF assms] by blast
  then show ?thesis using drain_sorted [OF r(2), of "Suc (size (contents q))"] by auto
qed

end

interpretation pq: min_queue pq_inv pq_mset priority_queue_insert priority_queue_deleteMin priority_queue_first
proof unfold_locales
  fix q :: "('k::linorder, 'd) priority_queue" and k d
  assume "pq_inv q"
  from priority_queue_insert_spec [OF this, of k d] show "\<exists>r. priority_queue_insert q k d = Some r \<and> pq_inv r \<and> pq_mset r = add_mset (k, d) (pq_mset q)"
    by (elim exE conjE) (intro exI conjI)
next
  fix q :: "('k::linorder, 'd) priority_queue"
  assume q: "pq_inv q" "pq_mset q \<noteq> {#}"
  then have n: "1 \<le> Entries q" using pq_mset_empty_iff [of q] by simp
  obtain r where "priority_queue_deleteMin q = Some (r, False)" "pq_inv r"
      "pq_mset q = add_mset (Key (vec_val (Entry q) 1), Data (vec_val (Entry q) 1)) (pq_mset r)"
    using priority_queue_deleteMin_spec [OF q(1) n] by blast
  moreover have "\<forall>y \<in># pq_mset q. fst (Key (vec_val (Entry q) 1), Data (vec_val (Entry q) 1)) \<le> fst y"
    using pq_first_least [OF q(1)] by simp
  ultimately show "\<exists>r x. priority_queue_deleteMin q = Some (r, False) \<and> priority_queue_first q = Some x \<and> pq_inv r \<and>
      pq_mset q = add_mset x (pq_mset r) \<and> (\<forall>y \<in># pq_mset q. fst x \<le> fst y)"
    using priority_queue_first_spec [OF q(1) n] by blast
next
  fix q :: "('k::linorder, 'd) priority_queue"
  assume "pq_inv q" "pq_mset q = {#}"
  then show "priority_queue_deleteMin q = Some (q, True)"
    using pq_mset_empty_iff [of q] by (simp add: priority_queue_deleteMin_def)
qed

section \<open>Properties\<close>

definition example_queue :: "(nat, nat) priority_queue" where
  "example_queue = priority_queue_new 2 1 \<lparr>Key = 0, Data = 0\<rparr>"

lemma example_queue: "pq_inv example_queue" "pq_mset example_queue = {#}" "Entries example_queue = 0"
  using priority_queue_new_inv [of 2 1 "\<lparr>Key = 0, Data = 0\<rparr> :: (nat, nat) priority_queue_entry"]
  by (auto simp: example_queue_def priority_queue_new_def pq_mset_def cells_def)

text \<open>
  \<open>priority_queue::insert\<close> returns on every well-formed queue, keeps the heap order, and adds
  exactly the new pair to the contents, growing the array when it is full.
\<close>

theorem priority_queue_insert_correct:
  assumes "pq_inv q"
  shows "\<exists>r. priority_queue_insert q K D = Some r \<and> pq_inv r \<and> Entries r = Entries q + 1 \<and>
    pq_mset r = add_mset (K, D) (pq_mset q)"
  using priority_queue_insert_spec [OF assms] .

theorem priority_queue_insert_correct_witness:
  "\<exists>r. priority_queue_insert example_queue 5 7 = Some r \<and> pq_inv r \<and> Entries r = 1 \<and> pq_mset r = {#(5, 7)#}"
  using priority_queue_insert_correct [OF example_queue(1), of 5 7] by (simp add: example_queue)

text \<open>
  \<open>priority_queue::deleteMin\<close> removes the front entry of a non-empty queue, which has the
  least key of all, keeps the heap order, and leaves the other entries as they are.
\<close>

theorem priority_queue_deleteMin_correct:
  assumes "pq_inv q" "1 \<le> Entries q"
  shows "\<exists>r x. priority_queue_first q = Some x \<and> priority_queue_deleteMin q = Some (r, False) \<and> pq_inv r \<and>
    Entries r = Entries q - 1 \<and> pq_mset q = add_mset x (pq_mset r) \<and> (\<forall>y \<in># pq_mset r. fst x \<le> fst y)"
proof -
  obtain r where "priority_queue_deleteMin q = Some (r, False)" "pq_inv r" "Entries r = Entries q - 1"
      "pq_mset q = add_mset (Key (vec_val (Entry q) 1), Data (vec_val (Entry q) 1)) (pq_mset r)"
    using priority_queue_deleteMin_spec [OF assms] by blast
  then show ?thesis
    using priority_queue_first_spec [OF assms] pq_first_least [OF assms(1)] by auto
qed

theorem priority_queue_deleteMin_correct_witness:
  "\<exists>q r. priority_queue_insert example_queue 5 7 = Some q \<and> priority_queue_first q = Some (5, 7) \<and>
     priority_queue_deleteMin q = Some (r, False) \<and> pq_mset r = {#}"
proof -
  obtain q where q: "priority_queue_insert example_queue 5 7 = Some q" "pq_inv q" "Entries q = 1" "pq_mset q = {#(5, 7)#}"
    using priority_queue_insert_spec [OF example_queue(1), of 5 7] by (auto simp: example_queue)
  then show ?thesis using priority_queue_deleteMin_correct [OF q(2)] by auto
qed

text \<open>
  C34: Taking every entry out of a queue after an insertion delivers the inserted pair and all the
  earlier ones, each once, by ascending key, and leaves the queue empty.
\<close>

theorem priority_queue_delivers_sorted:
  assumes "pq_inv q"
  shows "\<exists>r xs s. priority_queue_insert q K D = Some r \<and>
    drain priority_queue_first priority_queue_deleteMin (Suc (nat (Entries q))) r = Some (xs, s) \<and>
    Entries s = 0 \<and> mset xs = add_mset (K, D) (pq_mset q) \<and> sorted (map fst xs)"
proof -
  obtain r where r: "priority_queue_insert q K D = Some r" "pq_inv r" "pq_mset r = add_mset (K, D) (pq_mset q)"
    using pq.ins_law [OF assms] by blast
  have n: "Suc (nat (Entries q)) = size (pq_mset r)" using size_pq_mset [OF assms] r(3) by simp
  obtain xs s where s: "drain priority_queue_first priority_queue_deleteMin (Suc (nat (Entries q))) r = Some (xs, s)"
      "pq_inv s" "pq_mset s = {#}" "mset xs = pq_mset r" "sorted (map fst xs)"
    using pq.drain_sorted [OF r(2) n] by blast
  have "Entries s = 0" using size_pq_mset [OF s(2)] s(3) by simp
  then show ?thesis using r s by auto
qed

theorem priority_queue_delivers_sorted_witness:
  "pq_inv example_queue \<and>
   (\<exists>r s. priority_queue_insert example_queue 5 7 = Some r \<and>
     drain priority_queue_first priority_queue_deleteMin 1 r = Some ([(5, 7)], s))"
  using priority_queue_delivers_sorted [OF example_queue(1), of 5 7] by (auto simp: example_queue)

end
