(* ===== verification/Matrix.thy ===== *)
theory Matrix
  imports Prelude
begin

text \<open>
  The fixed two- and three-dimensional arrays \<open>matrix\<close> and \<open>matrix3d\<close> of
  \<open>common/containers/containers.h\<close>, stored row by row. A pointer into the array is the position of
  its cell in \<open>entry\<close>; \<open>boundedAt\<close> returns \<open>None\<close> for NULL, and \<open>at\<close> returns the first cell, with
  the flag of the error message set, when the coordinates are outside the array.
\<close>

section \<open>Two dimensions\<close>

record 'a matrix =
  xmin :: int
  ymin :: int
  dx :: int
  dy :: int
  entry :: "'a list"

definition matrix_new :: "int \<Rightarrow> int \<Rightarrow> int \<Rightarrow> int \<Rightarrow> 'a \<Rightarrow> 'a matrix \<times> bool" where
  "matrix_new x0 x1 y0 y1 fresh =
     (let dx0 = (x1 - x0) + 1;
          dy0 = (y1 - y0) + 1;
          invalid = (dx0 < 1 \<or> dy0 < 1);
          dx1 = (if dx0 < 1 then 1 else dx0);
          dy1 = (if dy0 < 1 then 1 else dy0)
      in (\<lparr>xmin = x0, ymin = y0, dx = dx1, dy = dy1, entry = replicate (nat (dx1 * dy1)) fresh\<rparr>, invalid))"

definition matrix_new_init :: "int \<Rightarrow> int \<Rightarrow> int \<Rightarrow> int \<Rightarrow> 'a \<Rightarrow> 'a \<Rightarrow> 'a matrix \<times> bool" where
  "matrix_new_init x0 x1 y0 y1 init fresh =
     (case matrix_new x0 x1 y0 y1 fresh of
        (m, invalid) \<Rightarrow>
          (let count = dx m * dy m
           in (m\<lparr>entry := replicate (nat count) init @ drop (nat count) (entry m)\<rparr>, invalid)))"

definition boundedAt :: "'a matrix \<Rightarrow> int \<Rightarrow> int \<Rightarrow> int option" where
  "boundedAt m x y =
     (let xoffset = x - xmin m; yoffset = y - ymin m
      in if xoffset < 0 \<or> xoffset \<ge> dx m \<or> yoffset < 0 \<or> yoffset \<ge> dy m then None
         else Some (yoffset * dx m + xoffset))"

definition matrix_at :: "'a matrix \<Rightarrow> int \<Rightarrow> int \<Rightarrow> int \<times> bool" where
  "matrix_at m x y =
     (let xoffset = x - xmin m; yoffset = y - ymin m
      in if xoffset < 0 \<or> xoffset \<ge> dx m \<or> yoffset < 0 \<or> yoffset \<ge> dy m then (0, True)
         else (yoffset * dx m + xoffset, False))"

definition matrix_inv :: "'a matrix \<Rightarrow> bool" where
  "matrix_inv m \<longleftrightarrow> 1 \<le> dx m \<and> 1 \<le> dy m \<and> int (length (entry m)) = dx m * dy m"

definition in_matrix :: "'a matrix \<Rightarrow> int \<Rightarrow> int \<Rightarrow> bool" where
  "in_matrix m x y \<longleftrightarrow> xmin m \<le> x \<and> x < xmin m + dx m \<and> ymin m \<le> y \<and> y < ymin m + dy m"

section \<open>Three dimensions\<close>

record 'a matrix3d =
  xmin3 :: int
  ymin3 :: int
  zmin3 :: int
  dx3 :: int
  dy3 :: int
  dz3 :: int
  entry3 :: "'a list"

definition matrix3d_new :: "int \<Rightarrow> int \<Rightarrow> int \<Rightarrow> int \<Rightarrow> int \<Rightarrow> int \<Rightarrow> 'a \<Rightarrow> 'a matrix3d \<times> bool" where
  "matrix3d_new x0 x1 y0 y1 z0 z1 fresh =
     (let dx0 = (x1 - x0) + 1;
          dy0 = (y1 - y0) + 1;
          dz0 = (z1 - z0) + 1;
          invalid = (dx0 < 1 \<or> dy0 < 1 \<or> dz0 < 1);
          dx1 = (if dx0 < 1 then 1 else dx0);
          dy1 = (if dy0 < 1 then 1 else dy0);
          dz1 = (if dz0 < 1 then 1 else dz0)
      in (\<lparr>xmin3 = x0, ymin3 = y0, zmin3 = z0, dx3 = dx1, dy3 = dy1, dz3 = dz1,
           entry3 = replicate (nat (dx1 * dy1 * dz1)) fresh\<rparr>, invalid))"

definition matrix3d_new_init :: "int \<Rightarrow> int \<Rightarrow> int \<Rightarrow> int \<Rightarrow> int \<Rightarrow> int \<Rightarrow> 'a \<Rightarrow> 'a \<Rightarrow> 'a matrix3d \<times> bool" where
  "matrix3d_new_init x0 x1 y0 y1 z0 z1 init fresh =
     (case matrix3d_new x0 x1 y0 y1 z0 z1 fresh of
        (m, invalid) \<Rightarrow>
          (let count = dx3 m * dy3 m * dz3 m
           in (m\<lparr>entry3 := replicate (nat count) init @ drop (nat count) (entry3 m)\<rparr>, invalid)))"

definition matrix3d_at :: "'a matrix3d \<Rightarrow> int \<Rightarrow> int \<Rightarrow> int \<Rightarrow> int \<times> bool" where
  "matrix3d_at m x y z =
     (let xoffset = x - xmin3 m; yoffset = y - ymin3 m; zoffset = z - zmin3 m
      in if xoffset < 0 \<or> xoffset \<ge> dx3 m \<or> yoffset < 0 \<or> yoffset \<ge> dy3 m \<or> zoffset < 0 \<or> zoffset \<ge> dz3 m
         then (0, True)
         else (zoffset * dx3 m * dy3 m + yoffset * dx3 m + xoffset, False))"

definition matrix3d_inv :: "'a matrix3d \<Rightarrow> bool" where
  "matrix3d_inv m \<longleftrightarrow> 1 \<le> dx3 m \<and> 1 \<le> dy3 m \<and> 1 \<le> dz3 m \<and>
     int (length (entry3 m)) = dx3 m * dy3 m * dz3 m"

definition in_matrix3d :: "'a matrix3d \<Rightarrow> int \<Rightarrow> int \<Rightarrow> int \<Rightarrow> bool" where
  "in_matrix3d m x y z \<longleftrightarrow> xmin3 m \<le> x \<and> x < xmin3 m + dx3 m \<and> ymin3 m \<le> y \<and> y < ymin3 m + dy3 m \<and>
     zmin3 m \<le> z \<and> z < zmin3 m + dz3 m"

section \<open>Row-major positions\<close>

lemma row_major_bound:
  assumes "0 \<le> x" "x < w" "0 \<le> y" "y < (h :: int)"
  shows "0 \<le> y * w + x" "y * w + x < h * w"
proof -
  show "0 \<le> y * w + x" using assms by simp
  have "y * w + x < y * w + w" using assms by simp
  also have "\<dots> = (y + 1) * w" by (simp add: algebra_simps)
  also have "\<dots> \<le> h * w" using assms by (intro mult_right_mono) auto
  finally show "y * w + x < h * w" .
qed

lemma row_major_inj:
  assumes "0 \<le> x" "x < w" "0 \<le> x'" "x' < w" "y * w + x = y' * w + (x' :: int)"
  shows "x = x'" "y = y'"
proof -
  have "(y * w + x) mod w = x" "(y' * w + x') mod w = x'" using assms(1-4) by auto
  then show "x = x'" using assms(5) by metis
  then show "y = y'" using assms by auto
qed

lemma matrix_new_inv: "matrix_inv (fst (matrix_new x0 x1 y0 y1 fresh))"
  by (auto simp: matrix_new_def matrix_inv_def Let_def)

lemma matrix3d_new_inv: "matrix3d_inv (fst (matrix3d_new x0 x1 y0 y1 z0 z1 fresh))"
proof -
  have "0 \<le> a * b * c" if "1 \<le> a" "1 \<le> b" "1 \<le> (c :: int)" for a b c using that by simp
  then show ?thesis by (auto simp: matrix3d_new_def matrix3d_inv_def Let_def)
qed

lemma matrix_new_init_entry:
  "entry (fst (matrix_new_init x0 x1 y0 y1 init fresh)) =
     replicate (length (entry (fst (matrix_new x0 x1 y0 y1 fresh)))) init"
  by (simp add: matrix_new_init_def matrix_new_def Let_def)

lemma matrix_new_init_inv: "matrix_inv (fst (matrix_new_init x0 x1 y0 y1 init fresh))"
  by (auto simp: matrix_new_init_def matrix_new_def matrix_inv_def Let_def)

lemma matrix_at_boundedAt:
  "matrix_at m x y = (case boundedAt m x y of None \<Rightarrow> (0, True) | Some i \<Rightarrow> (i, False))"
  by (simp add: matrix_at_def boundedAt_def Let_def)

lemma boundedAt_eq:
  "boundedAt m x y = (if in_matrix m x y then Some ((y - ymin m) * dx m + (x - xmin m)) else None)"
  by (auto simp: boundedAt_def in_matrix_def Let_def)

lemma matrix3d_at_eq:
  "matrix3d_at m x y z =
    (if in_matrix3d m x y z
     then (((z - zmin3 m) * dy3 m + (y - ymin3 m)) * dx3 m + (x - xmin3 m), False) else (0, True))"
  by (auto simp: matrix3d_at_def in_matrix3d_def Let_def algebra_simps)

section \<open>Properties\<close>

text \<open>
  The pointers of \<open>matrix::at\<close> and \<open>matrix::boundedAt\<close> are inside the allocation for every pair of
  coordinates; \<open>boundedAt\<close> is NULL exactly outside the ranges, where \<open>at\<close> reports an error; and two
  pairs inside the ranges have the same cell only when they are the same pair.
\<close>

theorem matrix_cells:
  assumes "matrix_inv m"
  shows "0 \<le> fst (matrix_at m x y) \<and> fst (matrix_at m x y) < int (length (entry m)) \<and>
    (boundedAt m x y = None \<longleftrightarrow> \<not> in_matrix m x y) \<and> (snd (matrix_at m x y) \<longleftrightarrow> \<not> in_matrix m x y) \<and>
    (in_matrix m x y \<longrightarrow> in_matrix m x' y' \<longrightarrow> boundedAt m x y = boundedAt m x' y' \<longrightarrow> x = x' \<and> y = y')"
proof (intro conjI impI)
  have pos: "0 < dx m * dy m" using assms by (simp add: matrix_inv_def)
  have b: "0 \<le> (y - ymin m) * dx m + (x - xmin m) \<and> (y - ymin m) * dx m + (x - xmin m) < dx m * dy m"
    if "in_matrix m x y"
    using row_major_bound [of "x - xmin m" "dx m" "y - ymin m" "dy m"] that
    by (simp add: in_matrix_def mult.commute)
  show "0 \<le> fst (matrix_at m x y)" "fst (matrix_at m x y) < int (length (entry m))"
    using b pos assms by (auto simp: matrix_at_boundedAt boundedAt_eq matrix_inv_def)
  assume i: "in_matrix m x y" "in_matrix m x' y'" "boundedAt m x y = boundedAt m x' y'"
  have r: "0 \<le> x - xmin m" "x - xmin m < dx m" "0 \<le> x' - xmin m" "x' - xmin m < dx m"
      "(y - ymin m) * dx m + (x - xmin m) = (y' - ymin m) * dx m + (x' - xmin m)"
    using i by (auto simp: in_matrix_def boundedAt_eq)
  show "x = x'" "y = y'" using row_major_inj [OF r] by auto
qed (auto simp: matrix_at_boundedAt boundedAt_eq)

theorem matrix_cells_witness:
  "matrix_inv (fst (matrix_new (- 2) 2 (- 1) 1 (0 :: int))) \<and>
   matrix_at (fst (matrix_new (- 2) 2 (- 1) 1 (0 :: int))) 0 1 = (12, False) \<and>
   fst (matrix_at (fst (matrix_new (- 2) 2 (- 1) 1 (0 :: int))) 0 1) <
     int (length (entry (fst (matrix_new (- 2) 2 (- 1) 1 (0 :: int)))))"
  using matrix_cells [OF matrix_new_inv [of "- 2" 2 "- 1" 1 "0 :: int"], of 0 1 0 1]
    matrix_new_inv [of "- 2" 2 "- 1" 1 "0 :: int"]
  by (simp add: matrix_at_def matrix_new_def Let_def)

text \<open>
  The pointers of \<open>matrix3d::at\<close> are inside the allocation for every triple of coordinates, an
  error is reported exactly outside the ranges, and two triples inside them have the same cell only
  when they are the same triple.
\<close>

theorem matrix3d_cells:
  assumes "matrix3d_inv m"
  shows "0 \<le> fst (matrix3d_at m x y z) \<and> fst (matrix3d_at m x y z) < int (length (entry3 m)) \<and>
    (snd (matrix3d_at m x y z) \<longleftrightarrow> \<not> in_matrix3d m x y z) \<and>
    (in_matrix3d m x y z \<longrightarrow> in_matrix3d m x' y' z' \<longrightarrow> matrix3d_at m x y z = matrix3d_at m x' y' z' \<longrightarrow>
       x = x' \<and> y = y' \<and> z = z')"
proof (intro conjI impI)
  have pos: "0 < dx3 m * dy3 m * dz3 m" using assms by (simp add: matrix3d_inv_def)
  have b: "0 \<le> ((z - zmin3 m) * dy3 m + (y - ymin3 m)) * dx3 m + (x - xmin3 m) \<and>
      ((z - zmin3 m) * dy3 m + (y - ymin3 m)) * dx3 m + (x - xmin3 m) < dx3 m * dy3 m * dz3 m"
    if "in_matrix3d m x y z"
    using row_major_bound [of "x - xmin3 m" "dx3 m" "(z - zmin3 m) * dy3 m + (y - ymin3 m)" "dz3 m * dy3 m"]
      row_major_bound [of "y - ymin3 m" "dy3 m" "z - zmin3 m" "dz3 m"] that
    by (simp add: in_matrix3d_def ac_simps)
  show "0 \<le> fst (matrix3d_at m x y z)" "fst (matrix3d_at m x y z) < int (length (entry3 m))"
    using b pos assms by (auto simp: matrix3d_at_eq matrix3d_inv_def)
  assume i: "in_matrix3d m x y z" "in_matrix3d m x' y' z'" "matrix3d_at m x y z = matrix3d_at m x' y' z'"
  have r: "0 \<le> x - xmin3 m" "x - xmin3 m < dx3 m" "0 \<le> x' - xmin3 m" "x' - xmin3 m < dx3 m"
      "((z - zmin3 m) * dy3 m + (y - ymin3 m)) * dx3 m + (x - xmin3 m) =
       ((z' - zmin3 m) * dy3 m + (y' - ymin3 m)) * dx3 m + (x' - xmin3 m)"
    using i by (auto simp: in_matrix3d_def matrix3d_at_eq)
  have s: "0 \<le> y - ymin3 m" "y - ymin3 m < dy3 m" "0 \<le> y' - ymin3 m" "y' - ymin3 m < dy3 m"
    using i by (auto simp: in_matrix3d_def)
  show "x = x'" using row_major_inj(1) [OF r] by simp
  show "y = y'" "z = z'" using row_major_inj [OF s row_major_inj(2) [OF r]] by auto
qed (simp add: matrix3d_at_eq)

theorem matrix3d_cells_witness:
  "matrix3d_inv (fst (matrix3d_new 996 1043 984 1031 0 15 (0 :: nat))) \<and>
   fst (matrix3d_at (fst (matrix3d_new 996 1043 984 1031 0 15 (0 :: nat))) 1000 1000 7) <
     int (length (entry3 (fst (matrix3d_new 996 1043 984 1031 0 15 (0 :: nat)))))"
  using matrix3d_cells [OF matrix3d_new_inv [of 996 1043 984 1031 0 15 "0 :: nat"], of 1000 1000 7 1000 1000 7]
    matrix3d_new_inv [of 996 1043 984 1031 0 15 "0 :: nat"] by blast

end
