(* ===== verification/Fifo.thy ===== *)
theory Fifo
  imports Prelude
begin

text \<open>
  The \<open>fifo\<close> of \<open>common/containers/containers.h\<close>, a circular buffer that doubles when it is full. The
  entries are at the positions from \<open>Tail\<close> (the oldest) to \<open>Head\<close>; a position is reduced modulo the
  size. Positions only grow; the model takes them as unbounded integers, as the comment in \<open>append\<close>
  does. A pointer is the index of its cell.
\<close>

record 'a fifo =
  fifo_entry :: "'a list"
  Size :: int
  Head :: int
  Tail :: int
  fresh_cell :: 'a

definition fifo_new :: "int \<Rightarrow> 'a \<Rightarrow> 'a fifo option" where
  "fifo_new InitialSize fresh =
     (if InitialSize > 0
      then Some \<lparr>fifo_entry = replicate (nat InitialSize) fresh, Size = InitialSize, Head = - 1, Tail = 0, fresh_cell = fresh\<rparr>
      else None)"

definition fifo_next :: "'a fifo \<Rightarrow> int option" where
  "fifo_next f = (if Tail f \<le> Head f then Some (Tail f smod Size f) else None)"

text \<open>The copy loop of \<open>append\<close>, for the positions from \<open>i\<close> to \<open>head\<close>.\<close>

function copy_entries :: "int \<Rightarrow> int \<Rightarrow> int \<Rightarrow> int \<Rightarrow> 'a list \<Rightarrow> 'a list \<Rightarrow> 'a list option" where
  "copy_entries i head NewSize OldSize new old =
     (if i \<le> head
      then do { x \<leftarrow> arr_get old (i smod OldSize);
                new \<leftarrow> arr_set new (i smod NewSize) x;
                copy_entries (i + 1) head NewSize OldSize new old }
      else Some new)"
  by pat_completeness auto
termination
  by (relation "measure (\<lambda>(i, head, _). nat (head + 1 - i))") auto

declare copy_entries.simps [simp del]

definition fifo_append :: "'a fifo \<Rightarrow> ('a fifo \<times> int) option" where
  "fifo_append f =
     do { f \<leftarrow> (if Head f - Tail f + 1 = Size f
               then let NewSize = Size f * 2
                    in do { e \<leftarrow> copy_entries (Tail f) (Head f) NewSize (Size f)
                                   (replicate (nat NewSize) (fresh_cell f)) (fifo_entry f);
                            Some (f\<lparr>fifo_entry := e, Size := NewSize\<rparr>) }
               else Some f);
          f \<leftarrow> Some (f\<lparr>Head := Head f + 1\<rparr>);
          Some (f, Head f smod Size f) }"

text \<open>The flag says that the error message was written.\<close>

definition fifo_remove :: "'a fifo \<Rightarrow> 'a fifo \<times> bool" where
  "fifo_remove f = (if Tail f > Head f then (f, True) else (f\<lparr>Tail := Tail f + 1\<rparr>, False))"

definition iterFirst :: "'a fifo \<Rightarrow> int" where
  "iterFirst f = Head f"

definition iterLast :: "'a fifo \<Rightarrow> int" where
  "iterLast f = Tail f"

text \<open>The iterators return the pointer and the new position.\<close>

definition iterNext :: "'a fifo \<Rightarrow> int \<Rightarrow> int option \<times> int" where
  "iterNext f Position =
     (if Position < Tail f \<or> Head f < Position then (None, Position)
      else (Some (Position smod Size f), Position - 1))"

definition iterPrev :: "'a fifo \<Rightarrow> int \<Rightarrow> int option \<times> int" where
  "iterPrev f Position =
     (if Position < Tail f \<or> Head f < Position then (None, Position)
      else (Some (Position smod Size f), Position + 1))"

text \<open>A value stored through the pointer that \<open>append\<close> returns.\<close>

definition fifo_push :: "'a fifo \<Rightarrow> 'a \<Rightarrow> 'a fifo option" where
  "fifo_push f x = do { (f, p) \<leftarrow> fifo_append f; e \<leftarrow> arr_set (fifo_entry f) p x; Some (f\<lparr>fifo_entry := e\<rparr>) }"

text \<open>The walk of the users of an iterator: until it returns NULL.\<close>

partial_function (option) iterate :: "('a fifo \<Rightarrow> int \<Rightarrow> int option \<times> int) \<Rightarrow> 'a fifo \<Rightarrow> int \<Rightarrow> 'a list option" where
  "iterate step f Position =
     (case step f Position of
        (None, _) \<Rightarrow> Some []
      | (Some p, Position) \<Rightarrow> do { x \<leftarrow> arr_get (fifo_entry f) p; xs \<leftarrow> iterate step f Position; Some (x # xs) })"

declare iterate.simps [code]

section \<open>The queue it stands for\<close>

definition fifo_inv :: "'a fifo \<Rightarrow> bool" where
  "fifo_inv f \<longleftrightarrow> 0 < Size f \<and> int (length (fifo_entry f)) = Size f \<and> 0 \<le> Tail f \<and> Tail f \<le> Head f + 1 \<and>
     Head f - Tail f + 1 \<le> Size f"

definition fifo_list :: "'a fifo \<Rightarrow> 'a list" where
  "fifo_list f = map (\<lambda>i. fifo_entry f ! nat (i mod Size f)) [Tail f..Head f]"

lemma fifo_new_inv: "fifo_new n fresh = Some f \<Longrightarrow> fifo_inv f \<and> fifo_list f = []"
  by (auto simp: fifo_new_def fifo_inv_def fifo_list_def split: if_splits)

lemma mod_window:
  assumes "(i :: int) mod s = j mod s" "a \<le> i" "i < a + s" "a \<le> j" "j < a + s"
  shows "i = j"
proof -
  have dvd: "s dvd i - j" using assms(1) by (simp add: mod_eq_dvd_iff)
  show ?thesis
  proof (rule ccontr)
    assume "i \<noteq> j"
    then have "\<bar>s\<bar> \<le> \<bar>i - j\<bar>" using dvd_imp_le_int [OF _ dvd] by simp
    then show False using assms(2-5) by simp
  qed
qed

lemma mod_cell: "fifo_inv f \<Longrightarrow> 0 \<le> i mod Size f \<and> i mod Size f < int (length (fifo_entry f))"
  by (simp add: fifo_inv_def)

lemma copy_entries_spec:
  assumes "0 \<le> i" "0 < s" "0 < n" "int (length old) = s" "int (length new) = n" "head < i + n"
  shows "\<exists>new'. copy_entries i head n s new old = Some new' \<and> length new' = length new \<and>
    (\<forall>j. i \<le> j \<and> j \<le> head \<longrightarrow> new' ! nat (j mod n) = old ! nat (j mod s)) \<and>
    (\<forall>j. head - n < j \<and> j < i \<longrightarrow> new' ! nat (j mod n) = new ! nat (j mod n))"
  using assms
proof (induction i head n s new old rule: copy_entries.induct)
  case (1 i head n s new old)
  show ?case
  proof (cases "i \<le> head")
    case True
    let ?new = "new[nat (i mod n) := old ! nat (i mod s)]"
    have m: "0 \<le> i mod s" "i mod s < s" "0 \<le> i mod n" "i mod n < n" using "1.prems" by auto
    have g: "arr_get old (i smod s) = Some (old ! nat (i mod s))"
        "arr_set new (i smod n) (old ! nat (i mod s)) = Some ?new"
      using m "1.prems" by (auto simp: smod_nonneg)
    obtain new' where n': "copy_entries (i + 1) head n s ?new old = Some new'" "length new' = length new"
      and a: "\<And>j. i + 1 \<le> j \<Longrightarrow> j \<le> head \<Longrightarrow> new' ! nat (j mod n) = old ! nat (j mod s)"
      and b: "\<And>j. head - n < j \<Longrightarrow> j < i + 1 \<Longrightarrow> new' ! nat (j mod n) = ?new ! nat (j mod n)"
      using "1.IH" [OF True g] "1.prems" by auto
    have "new' ! nat (i mod n) = old ! nat (i mod s)"
      using b [of i] "1.prems" m True by (simp add: nth_list_update)
    then have "new' ! nat (j mod n) = old ! nat (j mod s)" if "i \<le> j" "j \<le> head" for j
      using a [of j] that by (cases "j = i") auto
    moreover have "new' ! nat (j mod n) = new ! nat (j mod n)" if j: "head - n < j" "j < i" for j
    proof -
      have "j mod n \<noteq> i mod n" using mod_window [of j n i "head - n + 1"] j True "1.prems" by auto
      moreover have "0 \<le> j mod n" using "1.prems" by simp
      ultimately have "nat (i mod n) \<noteq> nat (j mod n)" using m by (simp add: eq_nat_nat_iff)
      then show ?thesis using b [of j] j by simp
    qed
    ultimately show ?thesis using True g n' by (subst copy_entries.simps) auto
  next
    case False
    then show ?thesis by (subst copy_entries.simps) auto
  qed
qed

section \<open>Operations\<close>

lemma fifo_list_cong:
  assumes "Tail g = Tail f" "Head g = Head f"
    "\<And>i. Tail f \<le> i \<Longrightarrow> i \<le> Head f \<Longrightarrow> fifo_entry g ! nat (i mod Size g) = fifo_entry f ! nat (i mod Size f)"
  shows "fifo_list g = fifo_list f"
  using assms by (auto simp: fifo_list_def)

text \<open>The buffer after the growth that \<open>append\<close> starts with: room for one more entry, the same list.\<close>

lemma fifo_grow:
  assumes inv: "fifo_inv f"
  obtains g where "fifo_append f = Some (g\<lparr>Head := Head g + 1\<rparr>, (Head g + 1) mod Size g)"
    "fifo_inv g" "fifo_list g = fifo_list f" "Head g = Head f" "Tail g = Tail f" "Head g - Tail g + 1 < Size g"
proof (cases "Head f - Tail f + 1 = Size f")
  case False
  then show ?thesis
    using inv by (intro that [of f]) (auto simp: fifo_append_def fifo_inv_def smod_nonneg)
next
  case True
  let ?n = "Size f * 2" and ?new = "replicate (nat (Size f * 2)) (fresh_cell f)"
  have s: "0 < Size f" "0 \<le> Tail f" "int (length (fifo_entry f)) = Size f" using inv by (auto simp: fifo_inv_def)
  obtain e where e: "copy_entries (Tail f) (Head f) ?n (Size f) ?new (fifo_entry f) = Some e" "length e = length ?new"
      "\<And>j. Tail f \<le> j \<Longrightarrow> j \<le> Head f \<Longrightarrow> e ! nat (j mod ?n) = fifo_entry f ! nat (j mod Size f)"
    using copy_entries_spec [of "Tail f" "Size f" ?n "fifo_entry f" ?new "Head f"] s True by auto
  let ?g = "f\<lparr>fifo_entry := e, Size := ?n\<rparr>"
  have "fifo_list ?g = fifo_list f" using e(3) by (intro fifo_list_cong) auto
  moreover have "fifo_append f = Some (?g\<lparr>Head := Head ?g + 1\<rparr>, (Head ?g + 1) mod Size ?g)"
    using True e s by (simp add: fifo_append_def smod_nonneg)
  moreover have "fifo_inv ?g" using inv e(2) s True by (auto simp: fifo_inv_def)
  ultimately show ?thesis using True s by (intro that [of ?g]) auto
qed

lemma fifo_push_spec:
  assumes inv: "fifo_inv f"
  shows "\<exists>g. fifo_push f x = Some g \<and> fifo_inv g \<and> fifo_list g = fifo_list f @ [x]"
proof -
  obtain g where g: "fifo_append f = Some (g\<lparr>Head := Head g + 1\<rparr>, (Head g + 1) mod Size g)"
      "fifo_inv g" "fifo_list g = fifo_list f" "Head g - Tail g + 1 < Size g"
    by (rule fifo_grow [OF inv])
  let ?p = "(Head g + 1) mod Size g"
  let ?h = "g\<lparr>Head := Head g + 1, fifo_entry := (fifo_entry g)[nat ?p := x]\<rparr>"
  have p: "0 \<le> ?p" "?p < int (length (fifo_entry g))" using mod_cell [OF g(2)] by auto
  have "fifo_inv ?h" using g by (auto simp: fifo_inv_def)
  moreover have "fifo_push f x = Some ?h" using g(1) p by (simp add: fifo_push_def)
  moreover have "fifo_list ?h = fifo_list g @ [x]"
  proof -
    have "nat ?p \<noteq> nat (i mod Size g)" if "Tail g \<le> i" "i \<le> Head g" for i
      using mod_window [of i "Size g" "Head g + 1" "Tail g"] that g(2,4) p(1) mod_cell [OF g(2), of i]
      by (auto simp: eq_nat_nat_iff)
    then have "map (\<lambda>i. (fifo_entry g)[nat ?p := x] ! nat (i mod Size g)) [Tail g..Head g] = fifo_list g"
      by (simp add: fifo_list_def)
    moreover have "[Tail g..Head g + 1] = [Tail g..Head g] @ [Head g + 1]"
      using g(2) by (simp add: fifo_inv_def upto_rec2)
    ultimately show ?thesis using p by (simp add: fifo_list_def [of ?h] nth_list_update)
  qed
  ultimately show ?thesis using g(3) by simp
qed

lemma fifo_next_spec:
  assumes "fifo_inv f"
  shows "(case fifo_next f of None \<Rightarrow> fifo_list f = []
          | Some p \<Rightarrow> fifo_list f \<noteq> [] \<and> arr_get (fifo_entry f) p = Some (hd (fifo_list f)))"
  using assms mod_cell [OF assms, of "Tail f"]
  by (auto simp: fifo_next_def fifo_list_def fifo_inv_def smod_nonneg upto_rec1)

lemma fifo_remove_spec:
  assumes "fifo_inv f"
  shows "fifo_inv (fst (fifo_remove f)) \<and> fifo_list (fst (fifo_remove f)) = tl (fifo_list f) \<and>
    (snd (fifo_remove f) \<longleftrightarrow> fifo_list f = [])"
  using assms by (auto simp: fifo_remove_def fifo_list_def fifo_inv_def upto_rec1)

text \<open>The iterators walk the entries from the newest and from the oldest.\<close>

lemma iterate_iterNext:
  assumes inv: "fifo_inv f"
  shows "Tail f \<le> p + 1 \<Longrightarrow> p \<le> Head f \<Longrightarrow>
    iterate iterNext f p = Some (rev (map (\<lambda>i. fifo_entry f ! nat (i mod Size f)) [Tail f..p]))"
proof (induction "nat (p + 1 - Tail f)" arbitrary: p)
  case 0
  then show ?case by (subst iterate.simps) (simp add: iterNext_def)
next
  case (Suc n)
  have "Tail f \<le> p" using Suc by simp
  moreover have "0 \<le> p" "0 < Size f" using \<open>Tail f \<le> p\<close> inv by (auto simp: fifo_inv_def)
  ultimately show ?case
    using Suc.hyps(1) [of "p - 1"] Suc.hyps(2) Suc.prems mod_cell [OF inv, of p]
    by (subst iterate.simps) (simp add: iterNext_def smod_nonneg upto_rec2)
qed

lemma iterate_iterPrev:
  assumes inv: "fifo_inv f"
  shows "Tail f \<le> p \<Longrightarrow> p \<le> Head f + 1 \<Longrightarrow>
    iterate iterPrev f p = Some (map (\<lambda>i. fifo_entry f ! nat (i mod Size f)) [p..Head f])"
proof (induction "nat (Head f + 1 - p)" arbitrary: p)
  case 0
  then show ?case by (subst iterate.simps) (simp add: iterPrev_def)
next
  case (Suc n)
  have "p \<le> Head f" using Suc by simp
  moreover have "0 \<le> p" "0 < Size f" using Suc.prems inv by (auto simp: fifo_inv_def)
  ultimately show ?case
    using Suc.hyps(1) [of "p + 1"] Suc.hyps(2) Suc.prems mod_cell [OF inv, of p]
    by (subst iterate.simps) (simp add: iterPrev_def smod_nonneg upto_rec1)
qed

section \<open>The interface\<close>

definition queue_op :: "('q \<Rightarrow> 'a \<Rightarrow> 'q option) \<Rightarrow> ('q \<Rightarrow> 'q \<times> bool) \<Rightarrow> 'a option \<Rightarrow> 'q option \<Rightarrow> 'q option" where
  "queue_op push pop c s = Option.bind s (\<lambda>q. case c of Some x \<Rightarrow> push q x | None \<Rightarrow> Some (fst (pop q)))"

definition list_op :: "'a option \<Rightarrow> 'a list \<Rightarrow> 'a list" where
  "list_op c xs = (case c of Some x \<Rightarrow> xs @ [x] | None \<Rightarrow> tl xs)"

text \<open>
  One operation of a sequence, on the queue and on the list: \<open>Some x\<close> appends, \<open>None\<close> removes. The
  contract of a queue: it stands for a list, appended to at the end and removed from at the front.
\<close>

locale list_queue =
  fixes inv :: "'q \<Rightarrow> bool"
    and abs :: "'q \<Rightarrow> 'a list"
    and push :: "'q \<Rightarrow> 'a \<Rightarrow> 'q option"
    and pop :: "'q \<Rightarrow> 'q \<times> bool"
  assumes push_law: "inv q \<Longrightarrow> \<exists>r. push q x = Some r \<and> inv r \<and> abs r = abs q @ [x]"
    and pop_law: "inv q \<Longrightarrow> inv (fst (pop q)) \<and> abs (fst (pop q)) = tl (abs q) \<and> (snd (pop q) \<longleftrightarrow> abs q = [])"
begin

lemma run_ops:
  assumes "inv q"
  shows "\<exists>r. fold (queue_op push pop) cs (Some q) = Some r \<and> inv r \<and> abs r = fold list_op cs (abs q)"
  using assms
proof (induction cs arbitrary: q)
  case (Cons c cs)
  have "\<exists>r. queue_op push pop c (Some q) = Some r \<and> inv r \<and> abs r = list_op c (abs q)"
    using push_law [OF Cons.prems] pop_law [OF Cons.prems] by (cases c) (auto simp: queue_op_def list_op_def)
  then obtain r where r: "queue_op push pop c (Some q) = Some r" "inv r" "abs r = list_op c (abs q)"
    by blast
  from Cons.IH [OF r(2)] show ?case using r by simp
qed simp

end

interpretation ff: list_queue fifo_inv fifo_list fifo_push fifo_remove
  by unfold_locales (simp_all add: fifo_push_spec fifo_remove_spec)

section \<open>Properties\<close>

lemma fifo_new_Some: "0 < n \<Longrightarrow> \<exists>f. fifo_new n fresh = Some f"
  by (simp add: fifo_new_def)

text \<open>
  A \<open>fifo\<close> refines a list: after any sequence of appends (with the value stored through the
  returned pointer) and removes on a new fifo, growth included, its entries from the oldest to the
  newest are the list that the same sequence gives, and \<open>next\<close> points at its first element or is NULL
  when there is none.
\<close>

theorem fifo_refines_list:
  assumes "0 < n"
  shows "\<exists>f. fold (queue_op fifo_push fifo_remove) cs (fifo_new n fresh) = Some f \<and> fifo_list f = fold list_op cs [] \<and>
    (case fifo_next f of None \<Rightarrow> fifo_list f = []
     | Some p \<Rightarrow> fifo_list f \<noteq> [] \<and> arr_get (fifo_entry f) p = Some (hd (fifo_list f)))"
proof -
  obtain q where q: "fifo_new n fresh = Some q" using fifo_new_Some [OF assms, of fresh] by blast
  have i: "fifo_inv q" "fifo_list q = []" using fifo_new_inv [OF q] by auto
  obtain r where "fold (queue_op fifo_push fifo_remove) cs (Some q) = Some r" "fifo_inv r"
      "fifo_list r = fold list_op cs []"
    using ff.run_ops [OF i(1), of cs] unfolding i(2) by blast
  then show ?thesis using q fifo_next_spec [of r] by auto
qed

theorem fifo_refines_list_witness:
  "0 < (1 :: int) \<and>
   (\<exists>f. fold (queue_op fifo_push fifo_remove) [Some 3, Some 4, None, Some 5] (fifo_new 1 (0 :: nat)) = Some f \<and> fifo_list f = [4, 5])"
  using fifo_refines_list [of 1 "[Some 3, Some 4, None, Some 5]" "0 :: nat"] by (auto simp: list_op_def)

text \<open>
  Walking a \<open>fifo\<close> from \<open>iterFirst\<close> with \<open>iterNext\<close> ends and visits every entry once, from the newest
  to the oldest; from \<open>iterLast\<close> with \<open>iterPrev\<close> it visits them from the oldest to the newest.
\<close>

theorem fifo_iterators:
  assumes "fifo_inv f"
  shows "iterate iterNext f (iterFirst f) = Some (rev (fifo_list f)) \<and>
    iterate iterPrev f (iterLast f) = Some (fifo_list f)"
  using iterate_iterNext [OF assms, of "Head f"] iterate_iterPrev [OF assms, of "Tail f"] assms
  by (simp add: fifo_inv_def fifo_list_def iterFirst_def iterLast_def)

theorem fifo_iterators_witness:
  "\<exists>f. fifo_new 4 (0 :: nat) = Some f \<and> fifo_inv f \<and> iterate iterNext f (iterFirst f) = Some []"
proof -
  obtain f where f: "fifo_new 4 (0 :: nat) = Some f" using fifo_new_Some [of 4 0] by auto
  then show ?thesis using fifo_new_inv [OF f] fifo_iterators [of f] by auto
qed

end
