(* ===== verification/Chain.thy ===== *)
theory Chain
  imports Prelude
begin

text \<open>
  Doubly linked chains, for the linked list of \<open>common/containers/containers.h\<close> and the hash chains
  of the cron system in \<open>game_data/map/map.cpp\<close>. The links are functions from a node to the previous
  and the next one; \<open>chain prv nxt p xs e\<close> says that the nodes \<open>xs\<close> are linked in this order, with \<open>p\<close>
  in front of the first and \<open>e\<close> behind the last.
\<close>

definition first_or :: "'n list \<Rightarrow> 'n option \<Rightarrow> 'n option" where
  "first_or xs e = (case xs of [] \<Rightarrow> e | x # _ \<Rightarrow> Some x)"

definition last_or :: "'n list \<Rightarrow> 'n option \<Rightarrow> 'n option" where
  "last_or xs p = (if xs = [] then p else Some (last xs))"

fun chain :: "('n \<Rightarrow> 'n option) \<Rightarrow> ('n \<Rightarrow> 'n option) \<Rightarrow> 'n option \<Rightarrow> 'n list \<Rightarrow> 'n option \<Rightarrow> bool" where
  "chain prv nxt p [] e \<longleftrightarrow> True"
| "chain prv nxt p (x # xs) e \<longleftrightarrow> prv x = p \<and> nxt x = first_or xs e \<and> chain prv nxt (Some x) xs e"

lemma first_or_simps [simp]: "first_or [] e = e" "first_or (x # xs) e = Some x"
  by (simp_all add: first_or_def)

lemma first_or_append [simp]: "first_or (xs @ ys) e = first_or xs (first_or ys e)"
  by (cases xs) auto

lemma last_or_simps [simp]: "last_or [] p = p" "last_or (xs @ [x]) p = Some x"
  by (simp_all add: last_or_def)

lemma last_or_Cons [simp]: "last_or (x # xs) p = last_or xs (Some x)"
  by (simp add: last_or_def)

lemma last_or_append [simp]: "last_or (xs @ ys) p = last_or ys (last_or xs p)"
  by (induction xs arbitrary: p) auto

lemma first_or_mem: "first_or xs None = Some x \<Longrightarrow> x \<in> set xs"
  by (cases xs) auto

lemma last_or_mem: "last_or xs None = Some x \<Longrightarrow> x \<in> set xs"
  by (auto simp: last_or_def split: if_splits)

lemma first_or_None [simp]: "first_or xs None = None \<longleftrightarrow> xs = []"
  by (cases xs) auto

lemma last_or_None [simp]: "last_or xs None = None \<longleftrightarrow> xs = []"
  by (simp add: last_or_def)

lemma chain_append: "chain prv nxt p (xs @ ys) e \<longleftrightarrow>
    chain prv nxt p xs (first_or ys e) \<and> chain prv nxt (last_or xs p) ys e"
  by (induction xs arbitrary: p) auto

text \<open>Changed links inside a chain: only the links at its two ends may differ.\<close>

lemma chain_relink:
  assumes "chain prv nxt p xs e" "\<And>x. x \<in> set (tl xs) \<Longrightarrow> prv' x = prv x" "xs \<noteq> [] \<Longrightarrow> prv' (hd xs) = p'"
    "\<And>x. x \<in> set (butlast xs) \<Longrightarrow> nxt' x = nxt x" "xs \<noteq> [] \<Longrightarrow> nxt' (last xs) = e'"
  shows "chain prv' nxt' p' xs e'"
  using assms
proof (induction xs arbitrary: p p')
  case (Cons x xs)
  have "chain prv' nxt' (Some x) xs e'"
  proof (rule Cons.IH [of "Some x"])
    show "xs \<noteq> [] \<Longrightarrow> prv' (hd xs) = Some x"
      using Cons.prems(1,2) by (cases xs) auto
    show "prv' y = prv y" if "y \<in> set (tl xs)" for y
      using that Cons.prems(2) by (cases xs) auto
  qed (use Cons.prems in \<open>auto split: if_splits\<close>)
  moreover have "nxt' x = first_or xs e'"
    using Cons.prems(1,4,5) by (cases xs) (auto split: if_splits)
  ultimately show ?case using Cons.prems(3) by simp
qed simp

lemma chain_cong:
  assumes "chain prv nxt p xs e" "\<And>x. x \<in> set xs \<Longrightarrow> prv' x = prv x \<and> nxt' x = nxt x"
  shows "chain prv' nxt' p xs e"
  using assms by (induction xs arbitrary: p) auto

text \<open>The neighbours of a node in the middle of a chain.\<close>

lemma chain_middle:
  "chain prv nxt p (xs @ x # ys) e \<Longrightarrow> prv x = last_or xs p \<and> nxt x = first_or ys e"
  by (simp add: chain_append)

lemma chain_hd: "chain prv nxt p xs e \<Longrightarrow> xs \<noteq> [] \<Longrightarrow> prv (hd xs) = p"
  by (cases xs) auto

lemma last_not_butlast: "distinct xs \<Longrightarrow> xs \<noteq> [] \<Longrightarrow> last xs \<notin> set (butlast xs)"
  by (cases xs rule: rev_cases) auto

lemma hd_not_tl: "distinct xs \<Longrightarrow> xs \<noteq> [] \<Longrightarrow> hd xs \<notin> set (tl xs)"
  by (cases xs) auto

lemma in_set_tlD: "x \<in> set (tl xs) \<Longrightarrow> x \<in> set xs"
  by (cases xs) auto

text \<open>
  The two parts of a chain around a node, when the link behind the first part and the link in front
  of the second are changed.
\<close>

lemma chain_splice:
  assumes c: "chain prv nxt p (xs @ x # ys) e" and d: "distinct (xs @ x # ys)"
    and prv': "\<And>y. y \<in> set xs \<union> set ys \<Longrightarrow> prv' y = (if ys \<noteq> [] \<and> y = hd ys then q else prv y)"
    and nxt': "\<And>y. y \<in> set xs \<union> set ys \<Longrightarrow> nxt' y = (if xs \<noteq> [] \<and> y = last xs then r else nxt y)"
  shows "chain prv' nxt' p xs r" "chain prv' nxt' q ys e"
proof -
  have c1: "chain prv nxt p xs (Some x)" and c2: "chain prv nxt (Some x) ys e"
    using c by (auto simp: chain_append)
  have hd_xs: "y \<in> set xs \<Longrightarrow> ys \<noteq> [] \<Longrightarrow> y \<noteq> hd ys" and last_ys: "y \<in> set ys \<Longrightarrow> xs \<noteq> [] \<Longrightarrow> y \<noteq> last xs" for y
    using d by (auto dest: hd_in_set last_in_set)
  show "chain prv' nxt' p xs r"
  proof (rule chain_relink [OF c1])
    show "prv' y = prv y" if "y \<in> set (tl xs)" for y
      using in_set_tlD [OF that] prv' [of y] hd_xs [of y] by auto
    show "prv' (hd xs) = p" if "xs \<noteq> []"
      using that prv' [of "hd xs"] hd_xs [of "hd xs"] c1 by (cases xs) auto
    show "nxt' y = nxt y" if "y \<in> set (butlast xs)" for y
      using that in_set_butlastD [OF that] nxt' [of y] last_not_butlast [of xs] d by auto
    show "nxt' (last xs) = r" if "xs \<noteq> []"
      using that nxt' [of "last xs"] by auto
  qed
  show "chain prv' nxt' q ys e"
  proof (rule chain_relink [OF c2])
    show "prv' y = prv y" if "y \<in> set (tl ys)" for y
      using that in_set_tlD [OF that] prv' [of y] hd_not_tl [of ys] d by auto
    show "prv' (hd ys) = q" if "ys \<noteq> []"
      using that prv' [of "hd ys"] by auto
    show "nxt' y = nxt y" if "y \<in> set (butlast ys)" for y
      using in_set_butlastD [OF that] nxt' [of y] last_ys [of y] by auto
    show "nxt' (last ys) = e" if "ys \<noteq> []"
      using that nxt' [of "last ys"] last_ys [of "last ys"] c2
      by (cases ys rule: rev_cases) (auto simp: chain_append)
  qed
qed

text \<open>Taking a node out of a chain.\<close>

lemma chain_remove:
  assumes c: "chain prv nxt p (xs @ x # ys) e" and d: "distinct (xs @ x # ys)"
    and prv': "\<And>y. y \<in> set xs \<union> set ys \<Longrightarrow> prv' y = (if ys \<noteq> [] \<and> y = hd ys then prv x else prv y)"
    and nxt': "\<And>y. y \<in> set xs \<union> set ys \<Longrightarrow> nxt' y = (if xs \<noteq> [] \<and> y = last xs then nxt x else nxt y)"
  shows "chain prv' nxt' p (xs @ ys) e"
  using chain_splice [OF c d prv' nxt'] chain_middle [OF c] by (simp add: chain_append)

text \<open>Replacing a node by one outside the chain, which takes over its links.\<close>

lemma chain_replace:
  assumes c: "chain prv nxt p (xs @ x # ys) e" and d: "distinct (xs @ x # ys)"
    and links: "prv' z = prv x" "nxt' z = nxt x"
    and prv': "\<And>y. y \<in> set xs \<union> set ys \<Longrightarrow> prv' y = (if ys \<noteq> [] \<and> y = hd ys then Some z else prv y)"
    and nxt': "\<And>y. y \<in> set xs \<union> set ys \<Longrightarrow> nxt' y = (if xs \<noteq> [] \<and> y = last xs then Some z else nxt y)"
  shows "chain prv' nxt' p (xs @ z # ys) e"
  using chain_splice [OF c d prv' nxt'] chain_middle [OF c] links by (simp add: chain_append)

section \<open>Singly linked chains\<close>

fun path :: "('n \<Rightarrow> 'n option) \<Rightarrow> 'n option \<Rightarrow> 'n list \<Rightarrow> bool" where
  "path nxt p [] \<longleftrightarrow> p = None"
| "path nxt p (x # xs) \<longleftrightarrow> p = Some x \<and> path nxt (nxt x) xs"

lemma path_cong: "path nxt p xs \<Longrightarrow> (\<And>x. x \<in> set xs \<Longrightarrow> nxt' x = nxt x) \<Longrightarrow> path nxt' p xs"
  by (induction xs arbitrary: p) auto

lemma path_unique: "path nxt p xs \<Longrightarrow> path nxt p ys \<Longrightarrow> xs = ys"
proof (induction xs arbitrary: p ys)
  case Nil
  then show ?case by (cases ys) auto
next
  case (Cons x xs)
  then show ?case by (cases ys) auto
qed

lemma path_first: "path nxt p xs \<Longrightarrow> p = first_or xs None"
  by (cases xs) auto

text \<open>Taking an element out by linking its predecessor to its successor.\<close>

lemma path_unlink:
  assumes "path nxt p (us @ q # a # vs)" "distinct (us @ q # a # vs)"
  shows "path (nxt(q := nxt a)) p (us @ q # vs)"
  using assms
proof (induction us arbitrary: p)
  case Nil
  then have "path nxt (nxt a) vs" by auto
  then have "path (nxt(q := nxt a)) (nxt a) vs" by (rule path_cong) (use Nil in auto)
  then show ?case using Nil by (simp add: fun_upd_same del: fun_upd_apply)
next
  case (Cons u us)
  then show ?case by (simp add: fun_upd_other del: fun_upd_apply)
qed

lemma predecessor:
  assumes "a \<in> set xs" "xs \<noteq> []" "hd xs \<noteq> a"
  obtains us q vs where "xs = us @ q # a # vs"
proof -
  obtain us vs where s: "xs = us @ a # vs" using assms(1) split_list by fast
  then have "us \<noteq> []" using assms(3) by auto
  then show thesis using that [of "butlast us" "last us" vs] s append_butlast_last_id [of us] by simp
qed


text \<open>Putting a new element between two parts.\<close>

lemma path_insert:
  assumes "path nxt p (us @ vs)" "us \<noteq> []" "distinct (us @ vs)" "x \<notin> set (us @ vs)"
    "nxt' x = first_or vs None" "nxt' (last us) = Some x"
    "\<And>y. y \<in> set (us @ vs) \<Longrightarrow> y \<noteq> last us \<Longrightarrow> nxt' y = nxt y"
  shows "path nxt' p (us @ x # vs)"
  using assms
proof (induction us arbitrary: p)
  case (Cons u us)
  show ?case
  proof (cases "us = []")
    case True
    have vs: "path nxt (nxt u) vs" using Cons.prems(1) True by simp
    then have "path nxt' (nxt u) vs" by (rule path_cong) (use Cons.prems True in auto)
    then show ?thesis using Cons.prems True path_first [OF vs] by simp
  next
    case False
    have "path nxt' (nxt u) (us @ x # vs)" using Cons.prems False by (intro Cons.IH) auto
    moreover have "u \<noteq> last us" using Cons.prems(3) last_in_set [OF False] by auto
    then have "nxt' u = nxt u" using Cons.prems(7) [of u] False by simp
    ultimately show ?thesis using Cons.prems(1) by simp
  qed
qed simp

text \<open>Numbers as links, with 0 for none.\<close>

definition opt_id :: "u32 \<Rightarrow> u32 option" where
  "opt_id nr = (if nr = 0 then None else Some nr)"

lemma opt_id_simps [simp]: "opt_id 0 = None" "nr \<noteq> 0 \<Longrightarrow> opt_id nr = Some nr" "opt_id nr = Some m \<longleftrightarrow> nr = m \<and> m \<noteq> 0"
  "opt_id nr = None \<longleftrightarrow> nr = 0"
  by (auto simp: opt_id_def)

lemma opt_id_first: "path nxt (opt_id n) xs \<Longrightarrow> n = (if xs = [] then 0 else hd xs)"
  by (cases xs) auto

end
