(* ===== verification/Linked_List.thy ===== *)
theory Linked_List
  imports Chain
begin

text \<open>
  The doubly linked \<open>list\<close> and the slab allocator \<open>store\<close> of \<open>common/containers/containers.h\<close>.

  The nodes live in a heap, a finite map from addresses; \<open>None\<close> is the NULL pointer. \<open>new\<close> returns an
  address that was never used (\<open>fresh_addr\<close>), \<open>delete\<close> takes the node out of the heap, and an access to
  an address without a node, or a failed \<open>ASSERT\<close>, is \<open>None\<close>.
\<close>

section \<open>The list\<close>

record 'a listnode =
  node_next :: "nat option"
  node_prev :: "nat option"
  node_data :: 'a

record 'a dlist =
  nodes :: "nat \<rightharpoonup> 'a listnode"
  firstNode :: "nat option"
  lastNode :: "nat option"
  fresh_addr :: nat

definition dlist_new :: "'a dlist" where
  "dlist_new = \<lparr>nodes = (\<lambda>_. None), firstNode = None, lastNode = None, fresh_addr = 0\<rparr>"

definition set_next :: "(nat \<rightharpoonup> 'a listnode) \<Rightarrow> nat \<Rightarrow> nat option \<Rightarrow> (nat \<rightharpoonup> 'a listnode) option" where
  "set_next h a x = do { n \<leftarrow> h a; Some (h(a \<mapsto> n\<lparr>node_next := x\<rparr>)) }"

definition set_prev :: "(nat \<rightharpoonup> 'a listnode) \<Rightarrow> nat \<Rightarrow> nat option \<Rightarrow> (nat \<rightharpoonup> 'a listnode) option" where
  "set_prev h a x = do { n \<leftarrow> h a; Some (h(a \<mapsto> n\<lparr>node_prev := x\<rparr>)) }"

text \<open>\<open>fresh\<close> is the default-initialised data of the new node.\<close>

definition dlist_append :: "'a \<Rightarrow> 'a dlist \<Rightarrow> ('a dlist \<times> nat) option" where
  "dlist_append fresh l =
     (let node = fresh_addr l;
          h = (nodes l)(node \<mapsto> \<lparr>node_next = None, node_prev = None, node_data = fresh\<rparr>);
          l = l\<lparr>fresh_addr := node + 1\<rparr>
      in case firstNode l of
           None \<Rightarrow>
             if lastNode l = None then Some (l\<lparr>nodes := h, firstNode := Some node, lastNode := Some node\<rparr>, node)
             else None
         | Some _ \<Rightarrow>
             do { b \<leftarrow> lastNode l;
                  h \<leftarrow> set_next h b (Some node);
                  h \<leftarrow> set_prev h node (Some b);
                  Some (l\<lparr>nodes := h, lastNode := Some node\<rparr>, node) })"

text \<open>The two conditionals of \<open>remove\<close>: the link from the previous node, and the link from the next one.\<close>

definition unlink_prev :: "'a dlist \<Rightarrow> nat \<Rightarrow> 'a listnode \<Rightarrow> 'a dlist option" where
  "unlink_prev l a n =
     (case node_prev n of
        None \<Rightarrow> if firstNode l = Some a then Some (l\<lparr>firstNode := node_next n\<rparr>) else None
      | Some b \<Rightarrow> do { h \<leftarrow> set_next (nodes l) b (node_next n); Some (l\<lparr>nodes := h\<rparr>) })"

definition unlink_next :: "'a dlist \<Rightarrow> nat \<Rightarrow> 'a listnode \<Rightarrow> 'a dlist option" where
  "unlink_next l a n =
     (case node_next n of
        None \<Rightarrow> if lastNode l = Some a then Some (l\<lparr>lastNode := node_prev n\<rparr>) else None
      | Some b \<Rightarrow> do { h \<leftarrow> set_prev (nodes l) b (node_prev n); Some (l\<lparr>nodes := h\<rparr>) })"

text \<open>The flag says that the error message was written.\<close>

definition dlist_remove :: "'a dlist \<Rightarrow> nat option \<Rightarrow> ('a dlist \<times> bool) option" where
  "dlist_remove l node =
     (case node of
        None \<Rightarrow> Some (l, True)
      | Some a \<Rightarrow>
          do { n \<leftarrow> nodes l a;
               l \<leftarrow> unlink_prev l a n;
               n \<leftarrow> nodes l a;
               l \<leftarrow> unlink_next l a n;
               Some (l\<lparr>nodes := (nodes l)(a := None)\<rparr>, False) })"

text \<open>The destructor.\<close>

partial_function (option) dlist_destroy :: "'a dlist \<Rightarrow> 'a dlist option" where
  "dlist_destroy l =
     (if firstNode l \<noteq> None
      then Option.bind (dlist_remove l (firstNode l)) (\<lambda>r. dlist_destroy (fst r))
      else Some l)"

declare dlist_destroy.simps [code]

definition prev_of :: "(nat \<rightharpoonup> 'a listnode) \<Rightarrow> nat \<Rightarrow> nat option" where
  "prev_of h a = Option.bind (h a) node_prev"

definition next_of :: "(nat \<rightharpoonup> 'a listnode) \<Rightarrow> nat \<Rightarrow> nat option" where
  "next_of h a = Option.bind (h a) node_next"

text \<open>The list has exactly the nodes \<open>as\<close>, in this order.\<close>

definition dlist_rep :: "'a dlist \<Rightarrow> nat list \<Rightarrow> bool" where
  "dlist_rep l as \<longleftrightarrow> distinct as \<and> dom (nodes l) = set as \<and> (\<forall>a \<in> set as. a < fresh_addr l) \<and>
     firstNode l = first_or as None \<and> lastNode l = last_or as None \<and>
     chain (prev_of (nodes l)) (next_of (nodes l)) None as None"

definition data_of :: "'a dlist \<Rightarrow> nat \<Rightarrow> 'a" where
  "data_of l a = node_data (the (nodes l a))"

lemma set_next_Some: "h a = Some n \<Longrightarrow> set_next h a x = Some (h(a \<mapsto> n\<lparr>node_next := x\<rparr>))"
  by (simp add: set_next_def)

lemma set_prev_Some: "h a = Some n \<Longrightarrow> set_prev h a x = Some (h(a \<mapsto> n\<lparr>node_prev := x\<rparr>))"
  by (simp add: set_prev_def)

lemma dlist_rep_node: "dlist_rep l as \<Longrightarrow> a \<in> set as \<Longrightarrow> \<exists>n. nodes l a = Some n"
  unfolding dlist_rep_def by blast

lemma dlist_new_rep: "dlist_rep dlist_new []"
  by (simp add: dlist_rep_def dlist_new_def)

lemma dlist_append_spec:
  assumes rep: "dlist_rep l as"
  shows "\<exists>m a. dlist_append fresh l = Some (m, a) \<and> a \<notin> set as \<and> dlist_rep m (as @ [a]) \<and> data_of m a = fresh \<and>
    (\<forall>b \<in> set as. data_of m b = data_of l b)"
proof (cases "as = []")
  case True
  then show ?thesis
    using rep by (auto simp: dlist_rep_def dlist_append_def prev_of_def next_of_def data_of_def Let_def)
next
  case False
  define a b where "a = fresh_addr l" and "b = last as"
  have d: "distinct as" "dom (nodes l) = set as" and lt: "\<forall>c \<in> set as. c < a"
    and c: "chain (prev_of (nodes l)) (next_of (nodes l)) None as None"
    and ends: "firstNode l = Some (hd as)" "lastNode l = Some b"
    using rep False by (auto simp: dlist_rep_def a_def b_def first_or_def last_or_def split: list.splits)
  have b: "b \<in> set as" "b \<noteq> a" using False lt by (auto simp: b_def)
  obtain n where n: "nodes l b = Some n" using dlist_rep_node [OF rep b(1)] by blast
  define h where "h = (nodes l)(a \<mapsto> \<lparr>node_next = None, node_prev = Some b, node_data = fresh\<rparr>,
     b \<mapsto> n\<lparr>node_next := Some a\<rparr>)"
  have first: "first_or as (Some a) = Some (hd as)" using False by (cases as) auto
  have app: "dlist_append fresh l = Some (l\<lparr>fresh_addr := a + 1, nodes := h, lastNode := Some a\<rparr>, a)"
    using ends b(2) n unfolding h_def
    by (simp add: dlist_append_def Let_def a_def [symmetric] set_next_Some set_prev_Some fun_upd_twist)
  have "chain (prev_of h) (next_of h) None as (Some a)"
    by (rule chain_relink [OF c])
      (use False d lt b n chain_hd [OF c False] last_not_butlast [OF d(1) False] in
        \<open>auto simp: h_def prev_of_def next_of_def b_def [symmetric] dest: in_set_tlD in_set_butlastD\<close>)
  moreover have "chain (prev_of h) (next_of h) (last_or as None) [a] None"
    using b(2) False by (simp add: h_def prev_of_def next_of_def last_or_def b_def)
  ultimately have "dlist_rep (l\<lparr>fresh_addr := a + 1, nodes := h, lastNode := Some a\<rparr>) (as @ [a])"
    using d lt ends b first by (auto simp: dlist_rep_def chain_append h_def less_Suc_eq)
  then show ?thesis using app lt b n by (auto simp: data_of_def h_def)
qed

lemma dlist_remove_spec:
  assumes rep: "dlist_rep l as" and a: "a \<in> set as"
  shows "\<exists>m. dlist_remove l (Some a) = Some (m, False) \<and> dlist_rep m (remove1 a as) \<and>
    (\<forall>b \<in> set as - {a}. data_of m b = data_of l b)"
proof -
  obtain xs ys where as: "as = xs @ a # ys" and nx: "a \<notin> set xs" using split_list_first [OF a] by blast
  have rem: "remove1 a as = xs @ ys" using as nx by (simp add: remove1_append)
  have d: "distinct (xs @ a # ys)" and dom: "dom (nodes l) = set as"
    and c: "chain (prev_of (nodes l)) (next_of (nodes l)) None (xs @ a # ys) None"
    and ends: "firstNode l = first_or as None" "lastNode l = last_or as None"
    using rep as by (auto simp: dlist_rep_def)
  obtain n where n: "nodes l a = Some n" using dlist_rep_node [OF rep a] by blast
  have links: "node_prev n = last_or xs None" "node_next n = first_or ys None"
    using chain_middle [OF c] n by (auto simp: prev_of_def next_of_def)
  define h1 where "h1 = (if xs = [] then nodes l else (nodes l)(last xs \<mapsto> (the (nodes l (last xs)))\<lparr>node_next := node_next n\<rparr>))"
  define h2 where "h2 = (if ys = [] then h1 else h1(hd ys \<mapsto> (the (h1 (hd ys)))\<lparr>node_prev := node_prev n\<rparr>))"
  have lx: "xs \<noteq> [] \<Longrightarrow> last xs \<in> set as \<and> last xs \<noteq> a" and hy: "ys \<noteq> [] \<Longrightarrow> hd ys \<in> set as \<and> hd ys \<noteq> a"
    using as d by (auto dest: last_in_set hd_in_set)
  have h1a: "h1 a = Some n" using lx n by (auto simp: h1_def)
  have step1: "unlink_prev l a n = Some (l\<lparr>nodes := h1, firstNode := first_or (xs @ ys) None\<rparr>)"
  proof (cases xs)
    case Nil
    then show ?thesis using links ends as by (simp add: unlink_prev_def h1_def)
  next
    case (Cons x xs')
    then have "node_prev n = Some (last xs)" "firstNode l = first_or (xs @ ys) None" using links ends as by (auto simp: last_or_def)
    moreover obtain k where "nodes l (last xs) = Some k" using lx Cons dlist_rep_node [OF rep] by blast
    ultimately show ?thesis using Cons by (simp add: unlink_prev_def set_next_Some h1_def)
  qed
  let ?l1 = "l\<lparr>nodes := h1, firstNode := first_or (xs @ ys) None\<rparr>"
  let ?l2 = "l\<lparr>nodes := h2, firstNode := first_or (xs @ ys) None, lastNode := last_or (xs @ ys) None\<rparr>"
  have step2: "unlink_next ?l1 a n = Some ?l2"
  proof (cases ys)
    case Nil
    then show ?thesis using links ends as by (simp add: unlink_next_def h2_def)
  next
    case (Cons y ys')
    then have "node_next n = Some y" "lastNode l = last_or (xs @ ys) None" using links ends as by auto
    moreover have "h1 y \<noteq> None" using hy Cons dlist_rep_node [OF rep, of y] by (auto simp: h1_def)
    then obtain k where "h1 y = Some k" by blast
    ultimately show ?thesis using Cons by (simp add: unlink_next_def set_prev_Some h2_def)
  qed
  have rm: "dlist_remove l (Some a) = Some (?l2\<lparr>nodes := h2(a := None)\<rparr>, False)"
    using n step1 step2 h1a by (simp add: dlist_remove_def)
  have "chain (prev_of (h2(a := None))) (next_of (h2(a := None))) None (xs @ ys) None"
  proof (rule chain_remove [OF c d])
    fix y assume y: "y \<in> set xs \<union> set ys"
    then have "y \<noteq> a" "\<exists>k. nodes l y = Some k" using d as dlist_rep_node [OF rep, of y] by auto
    then show "prev_of (h2(a := None)) y = (if ys \<noteq> [] \<and> y = hd ys then prev_of (nodes l) a else prev_of (nodes l) y)"
      "next_of (h2(a := None)) y = (if xs \<noteq> [] \<and> y = last xs then next_of (nodes l) a else next_of (nodes l) y)"
      using n by (auto simp: h2_def h1_def prev_of_def next_of_def)
  qed
  moreover have "dom (h2(a := None)) = set (xs @ ys)"
    using dom as d lx hy by (auto simp: h2_def h1_def)
  ultimately have "dlist_rep (?l2\<lparr>nodes := h2(a := None)\<rparr>) (xs @ ys)"
    using rep as d by (auto simp: dlist_rep_def)
  moreover have "data_of (?l2\<lparr>nodes := h2(a := None)\<rparr>) b = data_of l b" if "b \<in> set as - {a}" for b
    using that by (auto simp: data_of_def h2_def h1_def)
  ultimately show ?thesis using rm rem by auto
qed

lemma dlist_destroy_spec:
  "dlist_rep l as \<Longrightarrow> \<exists>m. dlist_destroy l = Some m \<and> dlist_rep m []"
proof (induction as arbitrary: l)
  case Nil
  then show ?case by (subst dlist_destroy.simps) (auto simp: dlist_rep_def)
next
  case (Cons a as)
  obtain m where m: "dlist_remove l (Some a) = Some (m, False)" "dlist_rep m as"
    using dlist_remove_spec [OF Cons.prems, of a] by auto
  have "firstNode l = Some a" using Cons.prems by (simp add: dlist_rep_def)
  then show ?case using m Cons.IH [OF m(2)] by (subst dlist_destroy.simps) auto
qed

section \<open>The store\<close>

text \<open>
  A \<open>storeitem\<close> is a union: it holds the link of the free list, or the data of its user. Reading the link
  of an item that holds data is \<open>None\<close>. A pointer to an item is the node of its unit and its index there.
\<close>

type_synonym item_ptr = "nat \<times> nat"

datatype 'a storeitem = Next "item_ptr option" | Stored 'a

record 'a store =
  Units :: "'a storeitem list dlist"
  firstFreeItem :: "item_ptr option"

definition store_new :: "'a store" where
  "store_new = \<lparr>Units = dlist_new, firstFreeItem = None\<rparr>"

definition item_at :: "'a store \<Rightarrow> item_ptr \<Rightarrow> 'a storeitem option" where
  "item_at s p = do { n \<leftarrow> nodes (Units s) (fst p); arr_get (node_data n) (int (snd p)) }"

definition set_item :: "'a store \<Rightarrow> item_ptr \<Rightarrow> 'a storeitem \<Rightarrow> 'a store option" where
  "set_item s p x =
     do { n \<leftarrow> nodes (Units s) (fst p);
          d \<leftarrow> arr_set (node_data n) (int (snd p)) x;
          Some (s\<lparr>Units := (Units s)\<lparr>nodes := (nodes (Units s))(fst p \<mapsto> n\<lparr>node_data := d\<rparr>)\<rparr>\<rparr>) }"

text \<open>The loop that links the items of a new unit, from index \<open>i\<close> for \<open>k\<close> more items.\<close>

primrec link_items :: "nat \<Rightarrow> nat \<Rightarrow> nat \<Rightarrow> 'a store \<Rightarrow> 'a store option" where
  "link_items u i 0 s = Some s"
| "link_items u i (Suc k) s = Option.bind (set_item s (u, i) (Next (Some (u, i + 1)))) (link_items u (i + 1) k)"

text \<open>\<open>junk\<close> is the content of a new unit, an array of \<open>N\<close> items.\<close>

definition getFreeItem :: "nat \<Rightarrow> 'a storeitem list \<Rightarrow> 'a store \<Rightarrow> ('a store \<times> item_ptr) option" where
  "getFreeItem N junk s =
     do { s \<leftarrow> (case firstFreeItem s of
                  None \<Rightarrow>
                    do { (l, u) \<leftarrow> dlist_append junk (Units s);
                         s \<leftarrow> link_items u 0 (N - 1) (s\<lparr>Units := l\<rparr>);
                         s \<leftarrow> set_item s (u, N - 1) (Next None);
                         Some (s\<lparr>firstFreeItem := Some (u, 0)\<rparr>) }
                | Some _ \<Rightarrow> Some s);
          p \<leftarrow> firstFreeItem s;
          it \<leftarrow> item_at s p;
          (case it of Next q \<Rightarrow> Some (s\<lparr>firstFreeItem := q\<rparr>, p) | Stored _ \<Rightarrow> None) }"

definition putFreeItem :: "'a store \<Rightarrow> item_ptr option \<Rightarrow> 'a store option" where
  "putFreeItem s Item =
     do { p \<leftarrow> Item;
          s' \<leftarrow> set_item s p (Next (firstFreeItem s));
          Some (s'\<lparr>firstFreeItem := Some p\<rparr>) }"

text \<open>The free items \<open>fs\<close>, in the order of the free list, among the items of the units \<open>us\<close>.\<close>

fun free_links :: "'a store \<Rightarrow> item_ptr list \<Rightarrow> bool" where
  "free_links s [] \<longleftrightarrow> True"
| "free_links s (p # ps) \<longleftrightarrow> item_at s p = Some (Next (first_or ps None)) \<and> free_links s ps"

definition store_rep :: "nat \<Rightarrow> 'a store \<Rightarrow> nat list \<Rightarrow> item_ptr list \<Rightarrow> bool" where
  "store_rep N s us fs \<longleftrightarrow> 0 < N \<and> dlist_rep (Units s) us \<and> (\<forall>u \<in> set us. length (data_of (Units s) u) = N) \<and>
     distinct fs \<and> set fs \<subseteq> set us \<times> {..<N} \<and> firstFreeItem s = first_or fs None \<and> free_links s fs"

definition in_use_items :: "nat \<Rightarrow> nat list \<Rightarrow> item_ptr list \<Rightarrow> item_ptr set" where
  "in_use_items N us fs = set us \<times> {..<N} - set fs"

lemma store_new_rep: "0 < N \<Longrightarrow> store_rep N store_new [] []"
  by (simp add: store_rep_def store_new_def dlist_new_rep)

lemma free_links_cong: "(\<And>p. p \<in> set ps \<Longrightarrow> item_at t p = item_at s p) \<Longrightarrow> free_links t ps = free_links s ps"
  by (induction ps) auto

text \<open>Writing an item of a unit.\<close>

lemma set_item_spec:
  assumes rep: "dlist_rep (Units s) us" and len: "\<forall>u \<in> set us. length (data_of (Units s) u) = N"
    and p: "fst p \<in> set us" "snd p < N"
  obtains t where "set_item s p x = Some t" "dlist_rep (Units t) us" "\<forall>u \<in> set us. length (data_of (Units t) u) = N"
    "firstFreeItem t = firstFreeItem s" "\<forall>q. item_at t q = (if q = p then Some x else item_at s q)"
proof -
  obtain n where n: "nodes (Units s) (fst p) = Some n" using dlist_rep_node [OF rep p(1)] by blast
  have l: "length (node_data n) = N" using len p(1) n by (auto simp: data_of_def)
  define h where "h = (nodes (Units s))(fst p \<mapsto> n\<lparr>node_data := (node_data n)[snd p := x]\<rparr>)"
  define t where "t = s\<lparr>Units := (Units s)\<lparr>nodes := h\<rparr>\<rparr>"
  have "set_item s p x = Some t" using n l p by (simp add: set_item_def t_def h_def)
  moreover have "prev_of h = prev_of (nodes (Units s))" "next_of h = next_of (nodes (Units s))" "dom h = dom (nodes (Units s))"
    using n by (auto simp: h_def prev_of_def next_of_def fun_eq_iff)
  then have "dlist_rep (Units t) us" using rep by (simp add: dlist_rep_def t_def)
  moreover have "\<forall>u \<in> set us. length (data_of (Units t) u) = N" using len l by (auto simp: t_def h_def data_of_def)
  moreover have "item_at t q = (if q = p then Some x else item_at s q)" for q
    using n l p by (cases q; cases p) (auto simp: item_at_def t_def h_def nth_list_update arr_get_def)
  ultimately show ?thesis by (intro that [of t]) (auto simp: t_def)
qed

lemma link_items_spec:
  assumes "dlist_rep (Units s) us" "\<forall>u \<in> set us. length (data_of (Units s) u) = N" "u \<in> set us" "i + k < N"
  shows "\<exists>t. link_items u i k s = Some t \<and> dlist_rep (Units t) us \<and> (\<forall>u \<in> set us. length (data_of (Units t) u) = N) \<and>
    firstFreeItem t = firstFreeItem s \<and>
    (\<forall>q. item_at t q = (if fst q = u \<and> i \<le> snd q \<and> snd q < i + k then Some (Next (Some (u, snd q + 1))) else item_at s q))"
  using assms
proof (induction k arbitrary: i s)
  case 0
  then show ?case by auto
next
  case (Suc k)
  have p: "fst (u, i) \<in> set us" "snd (u, i) < N" using Suc.prems(3,4) by auto
  obtain r where r: "set_item s (u, i) (Next (Some (u, i + 1))) = Some r" "dlist_rep (Units r) us"
      "\<forall>u \<in> set us. length (data_of (Units r) u) = N" "firstFreeItem r = firstFreeItem s"
    and ir: "\<forall>q. item_at r q = (if q = (u, i) then Some (Next (Some (u, i + 1))) else item_at s q)"
    by (rule set_item_spec [OF Suc.prems(1,2) p, of "Next (Some (u, i + 1))"])
  obtain t where t: "link_items u (i + 1) k r = Some t" "dlist_rep (Units t) us"
      "\<forall>u \<in> set us. length (data_of (Units t) u) = N" "firstFreeItem t = firstFreeItem r"
    and it: "\<And>q. item_at t q = (if fst q = u \<and> i + 1 \<le> snd q \<and> snd q < i + 1 + k
       then Some (Next (Some (u, snd q + 1))) else item_at r q)"
    using Suc.IH [OF r(2,3) Suc.prems(3), of "i + 1"] Suc.prems(4) by auto
  have "item_at t q = (if fst q = u \<and> i \<le> snd q \<and> snd q < i + Suc k then Some (Next (Some (u, snd q + 1))) else item_at s q)" for q
    using it [of q] spec [OF ir, of q] by (cases q) auto
  then show ?case using r t by auto
qed

lemma free_links_unit:
  assumes "\<And>j. i \<le> j \<Longrightarrow> j < i + k \<Longrightarrow> item_at t (u, j) = Some (Next (if j + 1 < i + k then Some (u, j + 1) else None))"
  shows "free_links t (map (Pair u) [i..<i + k])"
  using assms
proof (induction k arbitrary: i)
  case (Suc k)
  have "[i..<i + Suc k] = i # [i + 1..<i + 1 + k]" by (simp add: upt_conv_Cons del: upt_Suc)
  moreover have "free_links t (map (Pair u) [i + 1..<i + 1 + k])" using Suc.prems by (intro Suc.IH) auto
  moreover have "first_or (map (Pair u) [i + 1..<i + 1 + k]) None = (if 0 < k then Some (u, i + 1) else None)"
    by (cases k) (simp_all add: upt_conv_Cons del: upt_Suc)
  ultimately show ?case using Suc.prems [of i] by simp
qed simp

lemma item_at_frame:
  assumes "\<And>a. a \<in> set us \<Longrightarrow> data_of m a = data_of (Units s) a" "dlist_rep (Units s) us" "dlist_rep m (us @ vs)" "fst q \<in> set us"
  shows "item_at (s\<lparr>Units := m\<rparr>) q = item_at s q"
proof -
  obtain n k where "nodes (Units s) (fst q) = Some n" "nodes m (fst q) = Some k"
    using dlist_rep_node [OF assms(2,4)] dlist_rep_node [OF assms(3), of "fst q"] assms(4) by auto
  then show ?thesis using assms(1) [OF assms(4)] by (simp add: item_at_def data_of_def)
qed

text \<open>The state after the refill with which \<open>getFreeItem\<close> starts when no item is free.\<close>

lemma refill_spec:
  assumes rep: "store_rep N s us []" and junk: "length junk = N"
  obtains t u where
    "do { (l, u) \<leftarrow> dlist_append junk (Units s);
          s \<leftarrow> link_items u 0 (N - 1) (s\<lparr>Units := l\<rparr>);
          s \<leftarrow> set_item s (u, N - 1) (Next None);
          Some (s\<lparr>firstFreeItem := Some (u, 0)\<rparr>) } = Some t"
    "u \<notin> set us" "store_rep N t (us @ [u]) (map (Pair u) [0..<N])"
    "\<forall>q. fst q \<in> set us \<longrightarrow> item_at t q = item_at s q"
proof -
  have N: "0 < N" and us: "dlist_rep (Units s) us" and len: "\<forall>u \<in> set us. length (data_of (Units s) u) = N"
    using rep by (auto simp: store_rep_def)
  obtain m u where m: "dlist_append junk (Units s) = Some (m, u)" "u \<notin> set us" "dlist_rep m (us @ [u])"
      "data_of m u = junk" "\<forall>b \<in> set us. data_of m b = data_of (Units s) b"
    using dlist_append_spec [OF us] by blast
  let ?s = "s\<lparr>Units := m\<rparr>" and ?us = "us @ [u]"
  have m': "dlist_rep (Units ?s) ?us" "\<forall>v \<in> set ?us. length (data_of (Units ?s) v) = N"
    using m len junk by auto
  obtain r where r: "link_items u 0 (N - 1) ?s = Some r" "dlist_rep (Units r) ?us"
      "\<forall>v \<in> set ?us. length (data_of (Units r) v) = N"
    and ir: "\<And>q. item_at r q = (if fst q = u \<and> 0 \<le> snd q \<and> snd q < 0 + (N - 1)
      then Some (Next (Some (u, snd q + 1))) else item_at ?s q)"
    using link_items_spec [OF m', of u 0 "N - 1"] N by auto
  have last_item: "fst (u, N - 1) \<in> set ?us" "snd (u, N - 1) < N" using N by auto
  obtain t where t: "set_item r (u, N - 1) (Next None) = Some t" "dlist_rep (Units t) ?us"
      "\<forall>v \<in> set ?us. length (data_of (Units t) v) = N" "firstFreeItem t = firstFreeItem r"
    and it: "\<forall>q. item_at t q = (if q = (u, N - 1) then Some (Next None) else item_at r q)"
    by (rule set_item_spec [OF r(2,3) last_item, of "Next None"])
  let ?t = "t\<lparr>firstFreeItem := Some (u, 0)\<rparr>"
  have item_t: "item_at ?t q = item_at t q" for q by (simp add: item_at_def)
  have "free_links ?t (map (Pair u) [0..<0 + N])"
    using N by (intro free_links_unit) (auto simp: item_t it ir)
  moreover have "first_or (map (Pair u) [0..<N]) None = Some (u, 0)"
    using N by (simp add: first_or_def upt_conv_Cons)
  ultimately have "store_rep N ?t ?us (map (Pair u) [0..<N])"
    using N t by (auto simp: store_rep_def distinct_map inj_on_def)
  moreover have "item_at ?t q = item_at s q" if "fst q \<in> set us" for q
    using that m(2) spec [OF it, of q] ir [of q] item_at_frame [OF _ us m(3) that] m(5) item_t by auto
  ultimately show ?thesis using m r t by (intro that [of ?t u]) auto
qed

lemma getFreeItem_spec:
  assumes rep: "store_rep N s us fs" and junk: "length junk = N"
  shows "\<exists>t vs gs p. getFreeItem N junk s = Some (t, p) \<and> store_rep N t (us @ vs) gs \<and> p \<notin> in_use_items N us fs \<and>
    in_use_items N (us @ vs) gs = insert p (in_use_items N us fs) \<and>
    (\<forall>q \<in> in_use_items N us fs. item_at t q = item_at s q) \<and> (fs \<noteq> [] \<longrightarrow> p = hd fs \<and> gs = tl fs \<and> vs = [])"
proof (cases fs)
  case (Cons p ps)
  have it: "item_at s p = Some (Next (first_or ps None))" and first: "firstFreeItem s = Some p"
    using rep Cons by (auto simp: store_rep_def)
  let ?t = "s\<lparr>firstFreeItem := first_or ps None\<rparr>"
  have same: "item_at ?t q = item_at s q" for q by (simp add: item_at_def)
  have "free_links ?t ps = free_links s ps" by (rule free_links_cong) (rule same)
  then have "store_rep N ?t (us @ []) ps" using rep Cons by (auto simp: store_rep_def)
  moreover have "getFreeItem N junk s = Some (?t, p)" using it first by (simp add: getFreeItem_def)
  moreover have "in_use_items N (us @ []) ps = insert p (in_use_items N us fs)" "p \<notin> in_use_items N us fs"
    using rep Cons by (auto simp: in_use_items_def store_rep_def)
  moreover have "p = hd fs \<and> ps = tl fs \<and> [] = []" using Cons by simp
  ultimately show ?thesis using same by blast
next
  case Nil
  obtain r u where r: "do { (l, u) \<leftarrow> dlist_append junk (Units s); s \<leftarrow> link_items u 0 (N - 1) (s\<lparr>Units := l\<rparr>);
        s \<leftarrow> set_item s (u, N - 1) (Next None); Some (s\<lparr>firstFreeItem := Some (u, 0)\<rparr>) } = Some r"
      "u \<notin> set us" "store_rep N r (us @ [u]) (map (Pair u) [0..<N])" "\<forall>q. fst q \<in> set us \<longrightarrow> item_at r q = item_at s q"
    by (rule refill_spec [OF rep [unfolded Nil] junk])
  have N: "0 < N" using rep by (simp add: store_rep_def)
  then have fs: "map (Pair u) [0..<N] = (u, 0) # map (Pair u) [1..<N]" by (simp add: upt_conv_Cons)
  let ?ps = "map (Pair u) [1..<N]"
  have it: "item_at r (u, 0) = Some (Next (first_or ?ps None))" "firstFreeItem r = Some (u, 0)"
    using r(3) fs by (auto simp: store_rep_def)
  let ?t = "r\<lparr>firstFreeItem := first_or ?ps None\<rparr>"
  have same: "item_at ?t q = item_at r q" for q by (simp add: item_at_def)
  have "free_links ?t ?ps = free_links r ?ps" by (rule free_links_cong) (rule same)
  then have "store_rep N ?t (us @ [u]) ?ps" using r(3) fs by (auto simp: store_rep_def)
  moreover have "firstFreeItem s = None" using rep Nil by (simp add: store_rep_def)
  then have "getFreeItem N junk s = Some (?t, (u, 0))" using r(1) it by (simp add: getFreeItem_def)
  moreover have "in_use_items N (us @ [u]) ?ps = insert (u, 0) (in_use_items N us fs)" "(u, 0) \<notin> in_use_items N us fs"
    using r(2) N Nil by (auto simp: in_use_items_def)
  moreover have "\<forall>q \<in> in_use_items N us fs. item_at ?t q = item_at s q"
    using r(4) same by (auto simp: in_use_items_def)
  ultimately show ?thesis using Nil by blast
qed

lemma putFreeItem_spec:
  assumes rep: "store_rep N s us fs" and p: "p \<in> in_use_items N us fs"
  shows "\<exists>t. putFreeItem s (Some p) = Some t \<and> store_rep N t us (p # fs) \<and>
    (\<forall>q. q \<noteq> p \<longrightarrow> item_at t q = item_at s q)"
proof -
  have us: "dlist_rep (Units s) us" "\<forall>u \<in> set us. length (data_of (Units s) u) = N"
    and pm: "fst p \<in> set us" "snd p < N" "p \<notin> set fs"
    using rep p by (auto simp: store_rep_def in_use_items_def)
  obtain r where r: "set_item s p (Next (firstFreeItem s)) = Some r" "dlist_rep (Units r) us"
      "\<forall>u \<in> set us. length (data_of (Units r) u) = N"
    and it: "\<forall>q. item_at r q = (if q = p then Some (Next (firstFreeItem s)) else item_at s q)"
    using set_item_spec [OF us pm(1,2), of "Next (firstFreeItem s)"] by metis
  let ?t = "r\<lparr>firstFreeItem := Some p\<rparr>"
  have same: "item_at ?t q = item_at r q" for q by (simp add: item_at_def)
  have "free_links ?t fs = free_links s fs" by (rule free_links_cong) (use it pm(3) same in auto)
  then have "store_rep N ?t us (p # fs)"
    using rep r pm it same p by (auto simp: store_rep_def in_use_items_def)
  then show ?thesis using r(1) it same by (auto simp: putFreeItem_def)
qed

section \<open>Properties\<close>

text \<open>
  \<open>list::append\<close> and \<open>list::remove\<close> on a well-formed list never follow a bad pointer and never fail an
  \<open>ASSERT\<close>: the first adds a new node at the end, the second takes the given node out wherever it is, and
  both leave the order and the data of the other nodes as they are.
\<close>

theorem linked_list_operations:
  assumes "dlist_rep l as" "a \<in> set as"
  shows "(\<exists>m b. dlist_append fresh l = Some (m, b) \<and> b \<notin> set as \<and> dlist_rep m (as @ [b]) \<and>
      (\<forall>c \<in> set as. data_of m c = data_of l c)) \<and>
    (\<exists>m. dlist_remove l (Some a) = Some (m, False) \<and> dlist_rep m (remove1 a as) \<and>
      (\<forall>c \<in> set as - {a}. data_of m c = data_of l c))"
  using dlist_append_spec [OF assms(1), of fresh] dlist_remove_spec [OF assms] by blast

theorem linked_list_operations_witness:
  "\<exists>l a m. dlist_append (7 :: nat) dlist_new = Some (l, a) \<and> dlist_rep l [a] \<and>
     dlist_remove l (Some a) = Some (m, False) \<and> dlist_rep m []"
proof -
  obtain l a where l: "dlist_append (7 :: nat) dlist_new = Some (l, a)" "dlist_rep l [a]"
    using dlist_append_spec [OF dlist_new_rep, of "7 :: nat"] by auto
  then show ?thesis using linked_list_operations [OF l(2), of a] by auto
qed

text \<open>
  The slab allocator never hands out an item twice: \<open>getFreeItem\<close> returns an item that is not in use,
  allocating a new unit when none is free, and leaves the items in use as they are.
\<close>

theorem store_get_fresh:
  assumes "store_rep N s us fs" "length junk = N"
  shows "\<exists>t vs gs p. getFreeItem N junk s = Some (t, p) \<and> store_rep N t (us @ vs) gs \<and>
    p \<notin> in_use_items N us fs \<and> in_use_items N (us @ vs) gs = insert p (in_use_items N us fs) \<and>
    (\<forall>q \<in> in_use_items N us fs. item_at t q = item_at s q)"
  using getFreeItem_spec [OF assms] by blast

theorem store_get_fresh_witness:
  "\<exists>t us gs p. getFreeItem 2 [Stored 0, Stored (0 :: nat)] store_new = Some (t, p) \<and> store_rep 2 t us gs \<and>
     in_use_items 2 us gs = {p}"
proof -
  have "store_rep 2 store_new [] []" by (rule store_new_rep) simp
  from store_get_fresh [OF this, of "[Stored 0, Stored (0 :: nat)]"] show ?thesis
    by (auto simp: in_use_items_def)
qed

text \<open>
  An item given back with \<open>putFreeItem\<close> is the next one that \<open>getFreeItem\<close> returns, without a new unit,
  and the other items keep their contents through both calls.
\<close>

theorem store_put_get:
  assumes "store_rep N s us fs" "p \<in> in_use_items N us fs" "length junk = N"
  shows "\<exists>t r. putFreeItem s (Some p) = Some t \<and> store_rep N t us (p # fs) \<and> getFreeItem N junk t = Some (r, p) \<and>
    store_rep N r us fs \<and> (\<forall>q \<in> in_use_items N us fs - {p}. item_at r q = item_at s q)"
proof -
  obtain t where t: "putFreeItem s (Some p) = Some t" "store_rep N t us (p # fs)"
      "\<forall>q. q \<noteq> p \<longrightarrow> item_at t q = item_at s q"
    using putFreeItem_spec [OF assms(1,2)] by blast
  obtain r where r: "getFreeItem N junk t = Some (r, p)" "store_rep N r us fs"
      "\<forall>q \<in> in_use_items N us (p # fs). item_at r q = item_at t q"
    using getFreeItem_spec [OF t(2) assms(3)] by auto
  then show ?thesis using t by (auto simp: in_use_items_def)
qed

theorem store_put_get_witness:
  "\<exists>s p t r. getFreeItem 1 [Stored (0 :: nat)] store_new = Some (s, p) \<and> putFreeItem s (Some p) = Some t \<and>
     getFreeItem 1 [Stored 0] t = Some (r, p)"
proof -
  have e: "store_rep 1 store_new [] []" by (rule store_new_rep) simp
  obtain s us gs p where s: "getFreeItem 1 [Stored (0 :: nat)] store_new = Some (s, p)" "store_rep 1 s us gs"
      "in_use_items 1 us gs = insert p (in_use_items 1 [] [])"
    using getFreeItem_spec [OF e, of "[Stored (0 :: nat)]"] by auto
  then show ?thesis using store_put_get [OF s(2), of p "[Stored 0]"] by auto
qed

end
