(* ===== verification/Cron.thy ===== *)
theory Cron
  imports Vector Heap_Order Chain
begin

text \<open>
  The cron system of \<open>game_data/map/map.cpp\<close>: the objects that expire, in a binary heap by the round of
  their expiry (positions 1 to \<open>CronEntries\<close> of a growing array, position 0 a temporary), and a hash
  table with chains through the same entries, to find the entry of an object. The heap operations move
  entries, so every move relinks the chain of the moved entry.

  \<open>Object::exists\<close> and the type of an object (\<open>EXPIRE\<close>, \<open>TOTALEXPIRETIME\<close>) are parameters; the global
  round counter is the argument \<open>now\<close>. Operations are \<open>None\<close> where the code would access memory
  outside its arrays or would not return. A pointer into the array is the index it was made from: it is
  read again through the index, which is what the code does as long as the array does not grow in
  between, and the lemmas show that every access but the first one of \<open>CronSet\<close> is inside the range.
\<close>

section \<open>Data\<close>

record CronEntry =
  Obj :: u32
  Round :: u32
  Previous :: int
  Next :: int

record cron =
  CronEntryArray :: "CronEntry vec"
  CronHashTable :: "int list"
  CronEntries :: int

record cron_objects =
  obj_exists :: "u32 \<Rightarrow> bool"
  flag_expire :: "u32 \<Rightarrow> bool"
  total_expire_time :: "u32 \<Rightarrow> u32"

definition NARRAY_CronHashTable :: int where
  "NARRAY_CronHashTable = 2047"

definition slot :: "u32 \<Rightarrow> int" where
  "slot ob = uint ob mod NARRAY_CronHashTable"

definition init_cron :: "CronEntry \<Rightarrow> cron" where
  "init_cron fresh = \<lparr>CronEntryArray = vector_new 0 256 256 fresh,
     CronHashTable = replicate (nat NARRAY_CronHashTable) (- 1), CronEntries = 0\<rparr>"

section \<open>Operations\<close>

text \<open>\<open>CronEntryArray.at(i)->...\<close>: a change of one entry through a fresh pointer.\<close>

definition upd_entry :: "int \<Rightarrow> (CronEntry \<Rightarrow> CronEntry) \<Rightarrow> CronEntry vec \<Rightarrow> CronEntry vec option" where
  "upd_entry i f v = do { v \<leftarrow> vector_at v i; e \<leftarrow> vec_get v i; vec_set v i (f e) }"

definition CronMove :: "int \<Rightarrow> int \<Rightarrow> cron \<Rightarrow> cron option" where
  "CronMove Destination Source c =
     do { v \<leftarrow> vector_at (CronEntryArray c) Destination;
          v \<leftarrow> vector_at v Source;
          e \<leftarrow> vec_get v Source;
          v \<leftarrow> vec_set v Destination e;
          DestEntry \<leftarrow> vec_get v Destination;
          v \<leftarrow> (if Next DestEntry \<noteq> - 1 then upd_entry (Next DestEntry) (Previous_update (\<lambda>_. Destination)) v
               else Some v);
          DestEntry \<leftarrow> vec_get v Destination;
          (if Previous DestEntry \<noteq> - 1
           then do { v \<leftarrow> upd_entry (Previous DestEntry) (Next_update (\<lambda>_. Destination)) v;
                     Some (c\<lparr>CronEntryArray := v\<rparr>) }
           else do { h \<leftarrow> arr_set (CronHashTable c) (slot (Obj DestEntry)) Destination;
                     Some (c\<lparr>CronEntryArray := v, CronHashTable := h\<rparr>) }) }"

text \<open>The exchange of two entries through position 0.\<close>

definition CronSwap :: "int \<Rightarrow> int \<Rightarrow> cron \<Rightarrow> cron option" where
  "CronSwap p q c = do { c \<leftarrow> CronMove 0 p c; c \<leftarrow> CronMove p q c; CronMove q 0 c }"

partial_function (option) heapify_up :: "int \<Rightarrow> cron \<Rightarrow> (cron \<times> int) option" where
  "heapify_up Position c =
     (if Position > 1
      then let Parent = Position sdiv 2
           in do { v \<leftarrow> vector_at (CronEntryArray c) Position;
                   v \<leftarrow> vector_at v Parent;
                   CurrentEntry \<leftarrow> vec_get v Position;
                   ParentEntry \<leftarrow> vec_get v Parent;
                   if Round ParentEntry \<le> Round CurrentEntry then Some (c\<lparr>CronEntryArray := v\<rparr>, Position)
                   else Option.bind (CronSwap Position Parent (c\<lparr>CronEntryArray := v\<rparr>)) (heapify_up Parent) }
      else Some (c, Position))"

partial_function (option) heapify_down :: "int \<Rightarrow> int \<Rightarrow> cron \<Rightarrow> cron option" where
  "heapify_down Last Position c =
     (let Smallest = Position * 2
      in if Smallest > Last then Some c
         else do { v \<leftarrow> vector_at (CronEntryArray c) Smallest;
                   SmallestEntry \<leftarrow> vec_get v Smallest;
                   (v, SmallestEntry, Smallest) \<leftarrow>
                     (if Smallest + 1 \<le> Last
                      then do { v \<leftarrow> vector_at v (Smallest + 1);
                                OtherEntry \<leftarrow> vec_get v (Smallest + 1);
                                Some (if Round OtherEntry < Round SmallestEntry then (v, OtherEntry, Smallest + 1)
                                      else (v, SmallestEntry, Smallest)) }
                      else Some (v, SmallestEntry, Smallest));
                   v \<leftarrow> vector_at v Position;
                   CurrentEntry \<leftarrow> vec_get v Position;
                   if Round CurrentEntry \<le> Round SmallestEntry then Some (c\<lparr>CronEntryArray := v\<rparr>)
                   else Option.bind (CronSwap Position Smallest (c\<lparr>CronEntryArray := v\<rparr>))
                          (heapify_down Last Smallest) })"

declare heapify_up.simps [code] heapify_down.simps [code]

definition CronHeapify :: "int \<Rightarrow> cron \<Rightarrow> cron option" where
  "CronHeapify Position c =
     do { (c, Position) \<leftarrow> heapify_up Position c; heapify_down (CronEntries c) Position c }"

text \<open>In the following, a flag of the result says that an error message was written.\<close>

definition CronSet :: "cron_objects \<Rightarrow> u32 \<Rightarrow> u32 \<Rightarrow> u32 \<Rightarrow> cron \<Rightarrow> (cron \<times> bool) option" where
  "CronSet env now ob Delay c =
     (if \<not> obj_exists env ob then Some (c, True)
      else let Position = CronEntries c + 1
           in do { v \<leftarrow> vector_at (CronEntryArray c) Position;
                   e \<leftarrow> vec_get v Position;
                   first \<leftarrow> arr_get (CronHashTable c) (slot ob);
                   v \<leftarrow> vec_set v Position (e\<lparr>Obj := ob, Round := now + Delay, Previous := - 1, Next := first\<rparr>);
                   h \<leftarrow> arr_set (CronHashTable c) (slot ob) Position;
                   v \<leftarrow> (if first \<noteq> - 1 then upd_entry first (Previous_update (\<lambda>_. Position)) v else Some v);
                   c \<leftarrow> CronHeapify Position (c\<lparr>CronEntryArray := v, CronHashTable := h, CronEntries := Position\<rparr>);
                   Some (c, False) })"

definition CronDelete :: "int \<Rightarrow> cron \<Rightarrow> (cron \<times> bool) option" where
  "CronDelete Position c =
     (if Position < 1 \<or> Position > CronEntries c then Some (c, True)
      else do { v \<leftarrow> vector_at (CronEntryArray c) Position;
                Entry \<leftarrow> vec_get v Position;
                v \<leftarrow> (if Next Entry \<noteq> - 1
                     then upd_entry (Next Entry) (Previous_update (\<lambda>_. Previous Entry)) v else Some v);
                Entry \<leftarrow> vec_get v Position;
                c \<leftarrow> (if Previous Entry \<noteq> - 1
                     then do { v \<leftarrow> upd_entry (Previous Entry) (Next_update (\<lambda>_. Next Entry)) v;
                               Some (c\<lparr>CronEntryArray := v\<rparr>) }
                     else do { h \<leftarrow> arr_set (CronHashTable c) (slot (Obj Entry)) (Next Entry);
                               Some (c\<lparr>CronEntryArray := v, CronHashTable := h\<rparr>) });
                Last \<leftarrow> Some (CronEntries c);
                c \<leftarrow> Some (c\<lparr>CronEntries := CronEntries c - 1\<rparr>);
                if Position \<noteq> Last
                then do { c \<leftarrow> CronMove Position Last c; c \<leftarrow> CronHeapify Position c; Some (c, False) }
                else Some (c, False) })"

text \<open>\<open>NONE\<close> is the object number 0.\<close>

definition cron_check :: "u32 \<Rightarrow> cron \<Rightarrow> (cron \<times> u32) option" where
  "cron_check now c =
     (if CronEntries c \<noteq> 0
      then do { v \<leftarrow> vector_at (CronEntryArray c) 1;
                Entry \<leftarrow> vec_get v 1;
                Some (c\<lparr>CronEntryArray := v\<rparr>, if Round Entry \<le> now then Obj Entry else 0) }
      else Some (c, 0))"

definition cron_expire :: "cron_objects \<Rightarrow> u32 \<Rightarrow> u32 \<Rightarrow> int \<Rightarrow> cron \<Rightarrow> (cron \<times> bool) option" where
  "cron_expire env now ob Delay c =
     (if \<not> obj_exists env ob then Some (c, True)
      else if flag_expire env ob
      then if Delay = - 1 then CronSet env now ob (total_expire_time env ob) c
           else CronSet env now ob (word_of_int Delay) c
      else Some (c, False))"

text \<open>The search loop of \<open>cron_change\<close> and \<open>cron_info\<close>: the position of the object, or -1.\<close>

partial_function (option) find_position :: "u32 \<Rightarrow> CronEntry vec \<Rightarrow> int \<Rightarrow> (CronEntry vec \<times> int) option" where
  "find_position ob v Position =
     (if Position \<noteq> - 1
      then do { v \<leftarrow> vector_at v Position;
                Entry \<leftarrow> vec_get v Position;
                if Obj Entry = ob then Some (v, Position) else find_position ob v (Next Entry) }
      else Some (v, - 1))"

declare find_position.simps [code]

definition cron_change :: "cron_objects \<Rightarrow> u32 \<Rightarrow> u32 \<Rightarrow> int \<Rightarrow> cron \<Rightarrow> (cron \<times> bool) option" where
  "cron_change env now ob NewDelay c =
     (if \<not> obj_exists env ob then Some (c, True)
      else do { first \<leftarrow> arr_get (CronHashTable c) (slot ob);
                (v, Position) \<leftarrow> find_position ob (CronEntryArray c) first;
                if Position \<noteq> - 1
                then do { e \<leftarrow> vec_get v Position;
                          v \<leftarrow> vec_set v Position (e\<lparr>Round := now + word_of_int NewDelay\<rparr>);
                          c \<leftarrow> CronHeapify Position (c\<lparr>CronEntryArray := v\<rparr>);
                          Some (c, False) }
                else Some (c\<lparr>CronEntryArray := v\<rparr>, True) })"

definition cron_info :: "cron_objects \<Rightarrow> u32 \<Rightarrow> u32 \<Rightarrow> bool \<Rightarrow> cron \<Rightarrow> (cron \<times> u32 \<times> bool) option" where
  "cron_info env now ob delete_op c =
     (if \<not> obj_exists env ob then Some (c, 0, True)
      else do { first \<leftarrow> arr_get (CronHashTable c) (slot ob);
                (v, Position) \<leftarrow> find_position ob (CronEntryArray c) first;
                c \<leftarrow> Some (c\<lparr>CronEntryArray := v\<rparr>);
                if Position \<noteq> - 1
                then do { e \<leftarrow> vec_get v Position;
                          Remaining \<leftarrow> Some (if Round e > now then Round e - now else 1);
                          if delete_op then do { (c, _) \<leftarrow> CronDelete Position c; Some (c, Remaining, False) }
                          else Some (c, Remaining, False) }
                else Some (c, 0, True) })"

definition cron_stop :: "cron_objects \<Rightarrow> u32 \<Rightarrow> u32 \<Rightarrow> cron \<Rightarrow> (cron \<times> u32 \<times> bool) option" where
  "cron_stop env now ob c =
     (if \<not> obj_exists env ob then Some (c, 0, True) else cron_info env now ob True c)"

section \<open>The invariant\<close>

text \<open>A link is -1 for none.\<close>

definition link :: "int \<Rightarrow> int option" where
  "link x = (if x = - 1 then None else Some x)"

abbreviation cval :: "cron \<Rightarrow> int \<Rightarrow> CronEntry" where
  "cval c \<equiv> vec_val (CronEntryArray c)"

definition prv :: "cron \<Rightarrow> int \<Rightarrow> int option" where
  "prv c i = link (Previous (cval c i))"

definition nxt :: "cron \<Rightarrow> int \<Rightarrow> int option" where
  "nxt c i = link (Next (cval c i))"

text \<open>What an entry says: the object and the round of its expiry.\<close>

definition pair :: "cron \<Rightarrow> int \<Rightarrow> u32 \<times> u32" where
  "pair c i = (Obj (cval c i), Round (cval c i))"

definition cron_key :: "cron \<Rightarrow> int \<Rightarrow> u32" where
  "cron_key c i = Round (cval c i)"

text \<open>The occupied positions \<open>A\<close> are exactly the ones on the chains, each on the chain of its object.\<close>

definition slot_chain :: "cron \<Rightarrow> int set \<Rightarrow> int \<Rightarrow> int list \<Rightarrow> bool" where
  "slot_chain c A h xs \<longleftrightarrow> distinct xs \<and> set xs = {i \<in> A. slot (Obj (cval c i)) = h} \<and>
     link (CronHashTable c ! nat h) = first_or xs None \<and> chain (prv c) (nxt c) None xs None"

definition links_ok :: "cron \<Rightarrow> int set \<Rightarrow> bool" where
  "links_ok c A \<longleftrightarrow> (\<forall>h. 0 \<le> h \<longrightarrow> h < NARRAY_CronHashTable \<longrightarrow> (\<exists>xs. slot_chain c A h xs))"

definition cron_array_ok :: "cron \<Rightarrow> int \<Rightarrow> bool" where
  "cron_array_ok c n \<longleftrightarrow> vec_inv (CronEntryArray c) \<and> vmin (CronEntryArray c) \<le> 0 \<and> n \<le> vmax (CronEntryArray c) \<and>
     0 \<le> vmax (CronEntryArray c) \<and> length (CronHashTable c) = nat NARRAY_CronHashTable"

definition cron_inv :: "cron \<Rightarrow> bool" where
  "cron_inv c \<longleftrightarrow> 0 \<le> CronEntries c \<and> cron_array_ok c (CronEntries c) \<and> links_ok c {1..CronEntries c} \<and>
     heap_order (cron_key c) (CronEntries c)"

text \<open>The pairs that are registered.\<close>

definition registered_upto :: "cron \<Rightarrow> int \<Rightarrow> (u32 \<times> u32) multiset" where
  "registered_upto c n = image_mset (pair c) (mset_set {1..n})"

definition registered :: "cron \<Rightarrow> (u32 \<times> u32) multiset" where
  "registered c = registered_upto c (CronEntries c)"

lemma link_simps [simp]: "link (- 1) = None" "x \<noteq> - 1 \<Longrightarrow> link x = Some x"
  by (simp_all add: link_def)

lemma link_None: "link x = None \<longleftrightarrow> x = - 1"
  by (simp add: link_def)

lemma link_Some: "link x = Some y \<longleftrightarrow> x = y \<and> x \<noteq> - 1"
  by (simp add: link_def)

lemma slot_bounds: "0 \<le> slot ob" "slot ob < NARRAY_CronHashTable" "nat (slot ob) < 2047"
  using pos_mod_bound [of 2047 "uint ob"] by (simp_all add: slot_def NARRAY_CronHashTable_def nat_less_iff)

lemma in_array: "cron_array_ok c m \<Longrightarrow> 0 \<le> i \<Longrightarrow> i \<le> m \<Longrightarrow> vec_inv (CronEntryArray c) \<and> in_vec (CronEntryArray c) i"
  by (simp add: cron_array_ok_def in_vec_def)

lemma upd_entry_Some [vec_simps]:
  "vec_inv v \<Longrightarrow> in_vec v i \<Longrightarrow> upd_entry i f v = Some (vec_upd v i (f (vec_val v i)))"
  by (simp add: upd_entry_def vec_simps)

lemma cron_array_ok_upd:
  "cron_array_ok (c\<lparr>CronEntryArray := vec_upd (CronEntryArray c) i x\<rparr>) m \<longleftrightarrow> cron_array_ok c m"
  by (simp add: cron_array_ok_def vec_simps)

text \<open>The entry at position \<open>i\<close> after the move of the entry \<open>e\<close> to \<open>dst\<close>.\<close>

definition moved :: "CronEntry \<Rightarrow> int \<Rightarrow> int \<Rightarrow> CronEntry \<Rightarrow> CronEntry" where
  "moved e dst i x =
     (if i = dst then e
      else x\<lparr>Previous := (if link (Next e) = Some i then dst else Previous x),
             Next := (if link (Previous e) = Some i then dst else Next x)\<rparr>)"

lemma moved_pair [simp]:
  "Obj (moved e dst i x) = (if i = dst then Obj e else Obj x)"
  "Round (moved e dst i x) = (if i = dst then Round e else Round x)"
  by (simp_all add: moved_def)

lemma CronMove_val:
  assumes ok: "cron_array_ok c m" and src: "0 \<le> src" "src \<le> m" and dst: "0 \<le> dst" "dst \<le> m"
    and e: "e = cval c src"
    and nx: "\<And>i. link (Next e) = Some i \<Longrightarrow> 0 \<le> i \<and> i \<le> m \<and> i \<noteq> dst"
    and pv: "\<And>i. link (Previous e) = Some i \<Longrightarrow> 0 \<le> i \<and> i \<le> m \<and> i \<noteq> dst"
  shows "\<exists>d. CronMove dst src c = Some d \<and> cron_array_ok d m \<and> CronEntries d = CronEntries c \<and>
    (\<forall>i. 0 \<le> i \<and> i \<le> m \<longrightarrow> cval d i = moved e dst i (cval c i)) \<and>
    CronHashTable d = (if Previous e = - 1 then (CronHashTable c)[nat (slot (Obj e)) := dst] else CronHashTable c)"
proof -
  define v1 where "v1 = vec_upd (CronEntryArray c) dst e"
  define v2 where "v2 = (if Next e \<noteq> - 1 then vec_upd v1 (Next e) ((vec_val v1 (Next e))\<lparr>Previous := dst\<rparr>) else v1)"
  define v3 where "v3 = (if Previous e \<noteq> - 1 then vec_upd v2 (Previous e) ((vec_val v2 (Previous e))\<lparr>Next := dst\<rparr>) else v2)"
  have inv: "vec_inv (CronEntryArray c)" and r: "\<And>i. 0 \<le> i \<Longrightarrow> i \<le> m \<Longrightarrow> in_vec (CronEntryArray c) i"
    using ok dst in_array by (auto simp: cron_array_ok_def)
  have nx': "Next e \<noteq> - 1 \<Longrightarrow> 0 \<le> Next e \<and> Next e \<le> m \<and> Next e \<noteq> dst" using nx [of "Next e"] by auto
  have pv': "Previous e \<noteq> - 1 \<Longrightarrow> 0 \<le> Previous e \<and> Previous e \<le> m \<and> Previous e \<noteq> dst" using pv [of "Previous e"] by auto
  have v1: "vec_inv v1" "in_vec v1 = in_vec (CronEntryArray c)" using inv by (auto simp: v1_def vec_simps)
  have v2: "vec_inv v2" "in_vec v2 = in_vec (CronEntryArray c)" using v1 by (auto simp: v2_def vec_simps)
  have v3: "vec_inv v3" "in_vec v3 = in_vec (CronEntryArray c)" "vmin v3 = vmin (CronEntryArray c)" "vmax v3 = vmax (CronEntryArray c)"
    using v2 by (auto simp: v3_def v2_def v1_def vec_simps)
  have val1: "vec_val v1 i = (if i = dst then e else cval c i)" if "0 \<le> i" "i \<le> m" for i
    using inv r that dst by (simp add: v1_def vec_val_upd)
  have val2: "vec_val v2 i = (if i = Next e \<and> Next e \<noteq> - 1 then (vec_val v1 i)\<lparr>Previous := dst\<rparr> else vec_val v1 i)"
    if "0 \<le> i" "i \<le> m" for i
    using v1 r that nx' by (simp add: v2_def vec_val_upd)
  have val3: "vec_val v3 i = (if i = Previous e \<and> Previous e \<noteq> - 1 then (vec_val v2 i)\<lparr>Next := dst\<rparr> else vec_val v2 i)"
    if "0 \<le> i" "i \<le> m" for i
    using v2 r that pv' by (simp add: v3_def vec_val_upd)
  have d1: "vec_val v1 dst = e" "vec_val v2 dst = e" using val1 [of dst] val2 [of dst] dst nx' by auto
  have s1: "vector_at (CronEntryArray c) dst = Some (CronEntryArray c)" "vector_at (CronEntryArray c) src = Some (CronEntryArray c)"
      "vec_get (CronEntryArray c) src = Some e" "vec_set (CronEntryArray c) dst e = Some v1"
      "vec_get v1 dst = Some e" "vec_get v2 dst = Some e"
    using inv v1 v2 r src dst e d1 by (auto simp: vec_simps v1_def)
  have s2: "(if Next e \<noteq> - 1 then upd_entry (Next e) (Previous_update (\<lambda>_. dst)) v1 else Some v1) = Some v2"
    using v1 r nx' by (simp add: vec_simps v2_def)
  have s3: "Previous e \<noteq> - 1 \<Longrightarrow> upd_entry (Previous e) (Next_update (\<lambda>_. dst)) v2 = Some v3"
    using v2 r pv' by (simp add: vec_simps v3_def)
  have len: "int (length (CronHashTable c)) = NARRAY_CronHashTable" using ok by (simp add: cron_array_ok_def NARRAY_CronHashTable_def)
  let ?h = "if Previous e = - 1 then (CronHashTable c)[nat (slot (Obj e)) := dst] else CronHashTable c"
  let ?d = "c\<lparr>CronEntryArray := v3, CronHashTable := ?h\<rparr>"
  have "CronMove dst src c = Some ?d"
  proof (cases "Previous e = - 1")
    case True
    then have "v3 = v2" by (simp add: v3_def)
    then show ?thesis using s1 s2 True len slot_bounds [of "Obj e"] by (simp add: CronMove_def)
  next
    case False
    then show ?thesis using s1 s2 s3 by (simp add: CronMove_def)
  qed
  moreover have "cron_array_ok ?d m" using ok v3 by (simp add: cron_array_ok_def)
  moreover have "cval ?d i = moved e dst i (cval c i)" if "0 \<le> i" "i \<le> m" for i
  proof (cases "i = dst")
    case True
    then have "\<not> (i = Previous e \<and> Previous e \<noteq> - 1)" using pv' by auto
    from trans [OF val3 [OF that] if_not_P [OF this]] show ?thesis using True d1(2) by (simp add: moved_def)
  next
    case False
    have at_i: "(i = x \<and> x \<noteq> - 1) = (link x = Some i)" for x by (auto simp: link_def)
    have "vec_val v1 i = cval c i" using val1 [OF that] False by simp
    then show ?thesis using False val3 [OF that, unfolded at_i val2 [OF that, unfolded at_i]]
      by (cases "link (Next e) = Some i"; cases "link (Previous e) = Some i") (simp_all add: moved_def)
  qed
  ultimately show ?thesis by auto
qed

text \<open>Where the links of an entry on a chain point to.\<close>

lemma slot_chain_links:
  assumes "slot_chain c A h (xs @ i # ys)"
  shows "prv c i = last_or xs None" "nxt c i = first_or ys None"
  using assms by (auto simp: slot_chain_def chain_append)

text \<open>
  A move of an occupied entry to a position that is not occupied keeps the chains: the new position
  takes the place of the old one.
\<close>

lemma CronMove_links:
  assumes ok: "cron_array_ok c m" and links: "links_ok c A" and A: "A \<subseteq> {0..m}"
    and src: "src \<in> A" and dst: "dst \<notin> A" "0 \<le> dst" "dst \<le> m"
  obtains d where "CronMove dst src c = Some d" "cron_array_ok d m" "CronEntries d = CronEntries c"
    "links_ok d (insert dst (A - {src}))"
    "\<forall>i. 0 \<le> i \<and> i \<le> m \<longrightarrow> pair d i = (if i = dst then pair c src else pair c i)"
proof -
  define e h where "e = cval c src" and "h = slot (Obj e)"
  have h: "0 \<le> h" "h < NARRAY_CronHashTable" using slot_bounds [of "Obj e"] by (auto simp: h_def)
  obtain xs where xs: "slot_chain c A h xs" using links h by (auto simp: links_ok_def)
  have "src \<in> set xs" using xs src by (simp add: slot_chain_def h_def e_def)
  then obtain ps qs where ps: "xs = ps @ src # qs" by (auto dest: split_list)
  have mem: "set ps \<union> set qs \<subseteq> A - {src}" using xs ps by (auto simp: slot_chain_def)
  have le: "link (Previous e) = last_or ps None" "link (Next e) = first_or qs None"
    using slot_chain_links [OF xs [unfolded ps]] by (auto simp: prv_def nxt_def e_def)
  have nx: "link (Next e) = Some i \<Longrightarrow> 0 \<le> i \<and> i \<le> m \<and> i \<noteq> dst" for i
    using le mem A dst first_or_mem [of qs i] by auto
  have pv: "link (Previous e) = Some i \<Longrightarrow> 0 \<le> i \<and> i \<le> m \<and> i \<noteq> dst" for i
    using le mem A dst last_or_mem [of ps i] by auto
  have srcm: "0 \<le> src" "src \<le> m" using src A by auto
  obtain d where d: "CronMove dst src c = Some d" "cron_array_ok d m" "CronEntries d = CronEntries c"
    and val: "\<And>i. 0 \<le> i \<Longrightarrow> i \<le> m \<Longrightarrow> cval d i = moved e dst i (cval c i)"
    and hash: "CronHashTable d = (if Previous e = - 1 then (CronHashTable c)[nat h := dst] else CronHashTable c)"
    using CronMove_val [OF ok srcm dst(2,3) e_def nx pv] unfolding h_def by blast
  have obj: "slot (Obj (cval d i)) = (if i = dst then h else slot (Obj (cval c i)))" if "0 \<le> i" "i \<le> m" for i
    using val [OF that] by (simp add: h_def)
  have pn: "prv d i = (if link (Next e) = Some i then Some dst else prv c i)"
      "nxt d i = (if link (Previous e) = Some i then Some dst else nxt c i)" if "i \<in> A" for i
    using that A dst val [of i] by (auto simp: prv_def nxt_def moved_def)
  have "\<exists>ys. slot_chain d (insert dst (A - {src})) k ys" if k: "0 \<le> k" "k < NARRAY_CronHashTable" for k
  proof (cases "k = h")
    case True
    have len: "nat h < length (CronHashTable c)" using ok h by (simp add: cron_array_ok_def)
    have dx: "distinct (ps @ src # qs)" "chain (prv c) (nxt c) None (ps @ src # qs) None"
      using xs ps by (auto simp: slot_chain_def)
    have "chain (prv d) (nxt d) None (ps @ dst # qs) None"
    proof (rule chain_replace [OF dx(2,1)])
      show "prv d dst = prv c src" "nxt d dst = nxt c src"
        using val [OF dst(2,3)] by (auto simp: prv_def nxt_def moved_def e_def)
      fix y assume "y \<in> set ps \<union> set qs"
      then have "y \<in> A" using mem by auto
      then show "prv d y = (if qs \<noteq> [] \<and> y = hd qs then Some dst else prv c y)"
        "nxt d y = (if ps \<noteq> [] \<and> y = last ps then Some dst else nxt c y)"
        using pn [of y] le by (auto simp: first_or_def last_or_def split: list.splits)
    qed
    moreover have "set (ps @ dst # qs) = {i \<in> insert dst (A - {src}). slot (Obj (cval d i)) = h}"
    proof -
      have "set xs = {i \<in> A. slot (Obj (cval c i)) = h}" using xs by (simp add: slot_chain_def)
      moreover have "slot (Obj (cval d i)) = slot (Obj (cval c i))" if "i \<in> A" for i
        using that A dst obj [of i] by auto
      ultimately show ?thesis using obj [OF dst(2,3)] ps mem dst(1) dx(1) by auto
    qed
    moreover have "link (CronHashTable d ! nat h) = first_or (ps @ dst # qs) None"
    proof (cases ps)
      case Nil
      then have "Previous e = - 1" using le(1) by (simp add: link_None)
      then show ?thesis using Nil hash len dst(2) by simp
    next
      case (Cons p ps')
      then have "Previous e \<noteq> - 1" using le(1) by (auto simp: last_or_def)
      then show ?thesis using Cons hash xs ps by (simp add: slot_chain_def)
    qed
    ultimately show ?thesis
      using True dx(1) mem dst(1) by (intro exI [of _ "ps @ dst # qs"]) (auto simp: slot_chain_def)
  next
    case False
    obtain ys where ys: "slot_chain c A k ys" using links k by (auto simp: links_ok_def)
    have not_h: "slot (Obj (cval c i)) = h" if "link (Next e) = Some i \<or> link (Previous e) = Some i" for i
      using that le xs ps first_or_mem [of qs i] last_or_mem [of ps i] by (auto simp: slot_chain_def)
    have "chain (prv d) (nxt d) None ys None"
      by (rule chain_cong [of "prv c" "nxt c"]) (use ys False not_h pn in \<open>auto simp: slot_chain_def\<close>)
    moreover have "set ys = {i \<in> insert dst (A - {src}). slot (Obj (cval d i)) = k}"
    proof -
      have "slot (Obj (cval d i)) = slot (Obj (cval c i))" if "i \<in> A" for i using that A dst obj [of i] by auto
      moreover have "slot (Obj (cval c src)) = h" by (simp add: h_def e_def)
      ultimately show ?thesis using ys False obj [OF dst(2,3)] by (auto simp: slot_chain_def)
    qed
    moreover have "CronHashTable d ! nat k = CronHashTable c ! nat k"
      using False hash k h by (simp add: eq_nat_nat_iff)
    ultimately show ?thesis using ys by (auto simp: slot_chain_def)
  qed
  then have "links_ok d (insert dst (A - {src}))" by (simp add: links_ok_def)
  moreover have "\<forall>i. 0 \<le> i \<and> i \<le> m \<longrightarrow> pair d i = (if i = dst then pair c src else pair c i)"
    using val by (simp add: pair_def e_def)
  ultimately show ?thesis using d that by blast
qed

text \<open>The exchange of two occupied entries.\<close>

lemma CronSwap_links:
  assumes ok: "cron_array_ok c n" and links: "links_ok c {1..n}"
    and p: "1 \<le> p" "p \<le> n" and q: "1 \<le> q" "q \<le> n" and ne: "p \<noteq> q"
  obtains d where "CronSwap p q c = Some d" "cron_array_ok d n" "CronEntries d = CronEntries c" "links_ok d {1..n}"
    "\<forall>i. 1 \<le> i \<and> i \<le> n \<longrightarrow> pair d i = swap_key (pair c) p q i"
proof -
  have A: "{1..n} \<subseteq> {0..n}" "p \<in> {1..n}" "0 \<notin> {1..n}" "(0 :: int) \<le> 0" "0 \<le> n" using p by auto
  obtain c1 where c1: "CronMove 0 p c = Some c1" "cron_array_ok c1 n" "CronEntries c1 = CronEntries c"
      "links_ok c1 (insert 0 ({1..n} - {p}))"
      "\<forall>i. 0 \<le> i \<and> i \<le> n \<longrightarrow> pair c1 i = (if i = 0 then pair c p else pair c i)"
    by (rule CronMove_links [OF ok links A])
  have B: "insert 0 ({1..n} - {p}) \<subseteq> {0..n}" "q \<in> insert 0 ({1..n} - {p})" "p \<notin> insert 0 ({1..n} - {p})" "0 \<le> p"
    using p q ne by auto
  obtain c2 where c2: "CronMove p q c1 = Some c2" "cron_array_ok c2 n" "CronEntries c2 = CronEntries c1"
      "links_ok c2 (insert p (insert 0 ({1..n} - {p}) - {q}))"
      "\<forall>i. 0 \<le> i \<and> i \<le> n \<longrightarrow> pair c2 i = (if i = p then pair c1 q else pair c1 i)"
    by (rule CronMove_links [OF c1(2,4) B p(2)])
  let ?C = "insert p (insert 0 ({1..n} - {p}) - {q})"
  have C: "?C \<subseteq> {0..n}" "0 \<in> ?C" "q \<notin> ?C" "0 \<le> q" using p q ne by auto
  obtain c3 where c3: "CronMove q 0 c2 = Some c3" "cron_array_ok c3 n" "CronEntries c3 = CronEntries c2"
      "links_ok c3 (insert q (?C - {0}))"
      "\<forall>i. 0 \<le> i \<and> i \<le> n \<longrightarrow> pair c3 i = (if i = q then pair c2 0 else pair c2 i)"
    by (rule CronMove_links [OF c2(2,4) C q(2)])
  have D: "insert q (?C - {0}) = {1..n}" using p q ne by auto
  have "pair c3 i = swap_key (pair c) p q i" if "1 \<le> i" "i \<le> n" for i
    using c1(5) c2(5) c3(5) that p q ne by (simp add: swap_key_def)
  then show ?thesis using c1 c2 c3 D by (intro that [of c3]) (auto simp: CronSwap_def)
qed

text \<open>The state of the two loops of \<open>CronHeapify\<close>: everything but the heap order.\<close>

definition cron_chains :: "cron \<Rightarrow> bool" where
  "cron_chains c \<longleftrightarrow> 0 \<le> CronEntries c \<and> cron_array_ok c (CronEntries c) \<and> links_ok c {1..CronEntries c}"

lemma cron_inv_iff: "cron_inv c \<longleftrightarrow> cron_chains c \<and> heap_order (cron_key c) (CronEntries c)"
  by (auto simp: cron_inv_def cron_chains_def)

lemma cron_key_pair: "cron_key c i = snd (pair c i)"
  by (simp add: cron_key_def pair_def)

lemma cron_swap_step:
  assumes "cron_chains c" "n = CronEntries c" "1 \<le> p" "p \<le> n" "1 \<le> q" "q \<le> n" "p \<noteq> q"
  obtains d where "CronSwap p q c = Some d" "cron_chains d" "CronEntries d = n" "registered d = registered c"
    "\<forall>i. 1 \<le> i \<and> i \<le> n \<longrightarrow> cron_key d i = swap_key (cron_key c) p q i"
proof -
  have ok: "cron_array_ok c n" "links_ok c {1..n}" using assms(1,2) by (auto simp: cron_chains_def)
  obtain d where d: "CronSwap p q c = Some d" "cron_array_ok d n" "CronEntries d = CronEntries c" "links_ok d {1..n}"
      "\<forall>i. 1 \<le> i \<and> i \<le> n \<longrightarrow> pair d i = swap_key (pair c) p q i"
    by (rule CronSwap_links [OF ok assms(3-7)])
  have "registered d = registered c"
    unfolding registered_def registered_upto_def d(3) assms(2) [symmetric]
    by (rule image_mset_swap_key [of p _ q]) (use assms d(5) in auto)
  moreover have "\<forall>i. 1 \<le> i \<and> i \<le> n \<longrightarrow> cron_key d i = swap_key (cron_key c) p q i"
    using d(5) assms(3-6) by (auto simp: cron_key_pair swap_key_def)
  moreover have "cron_chains d" using d assms(1,2) by (simp add: cron_chains_def)
  ultimately show ?thesis using d assms(2) by (intro that [of d]) auto
qed

lemma cron_chains_access:
  assumes "cron_chains c" "1 \<le> i" "i \<le> CronEntries c"
  shows "vector_at (CronEntryArray c) i = Some (CronEntryArray c)" "vec_get (CronEntryArray c) i = Some (cval c i)"
  using in_array [of c "CronEntries c" i] assms by (auto simp: cron_chains_def vec_simps)

lemma heapify_up_spec:
  assumes "cron_chains c" "n = CronEntries c" "1 \<le> p" "p \<le> n" "heap_but (cron_key c) n p"
  shows "\<exists>d r. heapify_up p c = Some (d, r) \<and> cron_chains d \<and> CronEntries d = n \<and> registered d = registered c \<and>
    1 \<le> r \<and> r \<le> n \<and> heap_but (cron_key d) n r \<and> parent_ok (cron_key d) r"
  using assms
proof (induction "nat p" arbitrary: c p rule: less_induct)
  case less
  note c = less.prems(1,2) and p = less.prems(3,4) and h = less.prems(5)
  show ?case
  proof (cases "1 < p")
    case False
    then have "parent_ok (cron_key c) p" by (simp add: parent_ok_def)
    then show ?thesis using False c p h by (subst heapify_up.simps) auto
  next
    case True
    then have p2: "2 \<le> p" by simp
    let ?q = "p div 2"
    have q: "1 \<le> ?q" "?q < p" "?q \<le> n" using half_bounds [OF p2] p by auto
    have half: "p sdiv 2 = ?q" using p by (simp add: range_simps)
    have acc: "vector_at (CronEntryArray c) p = Some (CronEntryArray c)" "vector_at (CronEntryArray c) ?q = Some (CronEntryArray c)"
        "vec_get (CronEntryArray c) p = Some (cval c p)" "vec_get (CronEntryArray c) ?q = Some (cval c ?q)"
      using cron_chains_access [OF c(1)] c(2) p q by auto
    have step: "heapify_up p c = (if cron_key c ?q \<le> cron_key c p then Some (c, p)
        else Option.bind (CronSwap p ?q c) (heapify_up ?q))"
      using True half acc by (subst heapify_up.simps) (simp add: Let_def cron_key_def)
    show ?thesis
    proof (cases "cron_key c ?q \<le> cron_key c p")
      case le: True
      then have "parent_ok (cron_key c) p" by (simp add: parent_ok_def)
      then show ?thesis using step le c p h by auto
    next
      case False
      have pq: "p \<noteq> ?q" using q by simp
      obtain d where d: "CronSwap p ?q c = Some d" "cron_chains d" "CronEntries d = n" "registered d = registered c"
        "\<forall>i. 1 \<le> i \<and> i \<le> n \<longrightarrow> cron_key d i = swap_key (cron_key c) p ?q i"
        by (rule cron_swap_step [OF c p q(1,3) pq])
      have less_key: "cron_key c p < cron_key c ?q" using False by simp
      have "heap_but (cron_key d) n ?q"
        by (rule heap_but_cong [OF _ swap_up(1) [OF h p2 p(2) less_key]]) (use d(5) in simp)
      then have "\<exists>e r. heapify_up ?q d = Some (e, r) \<and> cron_chains e \<and> CronEntries e = n \<and> registered e = registered d \<and>
          1 \<le> r \<and> r \<le> n \<and> heap_but (cron_key e) n r \<and> parent_ok (cron_key e) r"
        using q p d by (intro less.hyps) auto
      then show ?thesis using step False d by auto
    qed
  qed
qed

lemma heapify_down_spec:
  assumes "cron_chains c" "n = CronEntries c" "1 \<le> p" "p \<le> n" "heap_but (cron_key c) n p" "parent_ok (cron_key c) p"
  shows "\<exists>d. heapify_down n p c = Some d \<and> cron_inv d \<and> CronEntries d = n \<and> registered d = registered c"
  using assms
proof (induction "nat (n - p)" arbitrary: c p rule: less_induct)
  case less
  note c = less.prems(1,2) and p = less.prems(3,4) and h = less.prems(5,6)
  show ?case
  proof (cases "2 * p \<le> n")
    case False
    then have "children_ok (cron_key c) n p" using p by (simp add: children_ok_leaf)
    then show ?thesis
      using False c p h heap_order_iff [OF p] by (subst heapify_down.simps) (auto simp: Let_def cron_inv_iff)
  next
    case True
    define s where "s = (if 2 * p + 1 \<le> n \<and> cron_key c (2 * p + 1) < cron_key c (2 * p) then 2 * p + 1 else 2 * p)"
    note s = smallest_child(1-3) [OF p(1) True s_def] and least = smallest_child(4) [OF p(1) True s_def]
    have acc: "vector_at (CronEntryArray c) p = Some (CronEntryArray c)" "vec_get (CronEntryArray c) p = Some (cval c p)"
        "vector_at (CronEntryArray c) (p * 2) = Some (CronEntryArray c)" "vec_get (CronEntryArray c) (p * 2) = Some (cval c (2 * p))"
      using cron_chains_access [OF c(1)] c(2) p True by (auto simp: mult.commute)
    have acc1: "vector_at (CronEntryArray c) (p * 2 + 1) = Some (CronEntryArray c) \<and>
        vec_get (CronEntryArray c) (p * 2 + 1) = Some (cval c (2 * p + 1))" if "p * 2 < n"
      using cron_chains_access [OF c(1), of "2 * p + 1"] c(2) p that by (auto simp: mult.commute)
    have step: "heapify_down n p c = (if cron_key c p \<le> cron_key c s then Some c
        else Option.bind (CronSwap p s c) (heapify_down n s))"
      using True acc acc1 by (subst heapify_down.simps) (auto simp: Let_def s_def mult.commute cron_key_def)
    show ?thesis
    proof (cases "cron_key c p \<le> cron_key c s")
      case le: True
      then have "children_ok (cron_key c) n p" using least by (intro children_ok_smallest) auto
      then show ?thesis using step le c h heap_order_iff [OF p] by (auto simp: cron_inv_iff)
    next
      case False
      have ps: "1 \<le> s" "p \<noteq> s" using s p by auto
      obtain d where d: "CronSwap p s c = Some d" "cron_chains d" "CronEntries d = n" "registered d = registered c"
          "\<forall>i. 1 \<le> i \<and> i \<le> n \<longrightarrow> cron_key d i = swap_key (cron_key c) p s i"
        by (rule cron_swap_step [OF c p ps(1) s(2) ps(2)])
      have less_key: "cron_key c s < cron_key c p" using False by simp
      have "heap_but (cron_key d) n s"
        by (rule heap_but_cong [OF _ swap_down(1) [OF h p(1) s(1,2) least less_key]]) (use d(5) in simp_all)
      moreover have "parent_ok (cron_key d) s"
        by (rule parent_ok_cong [OF _ swap_down(2) [OF h p(1) s(1,2) least less_key]]) (use d(5) s(2) in simp_all)
      ultimately have "\<exists>e. heapify_down n s d = Some e \<and> cron_inv e \<and> CronEntries e = n \<and> registered e = registered d"
        using s ps d p by (intro less.hyps) auto
      then show ?thesis using step False d by auto
    qed
  qed
qed

lemma CronHeapify_spec:
  assumes "cron_chains c" "1 \<le> p" "p \<le> CronEntries c" "heap_but (cron_key c) (CronEntries c) p"
  shows "\<exists>d. CronHeapify p c = Some d \<and> cron_inv d \<and> CronEntries d = CronEntries c \<and> registered d = registered c"
proof -
  obtain a r where a: "heapify_up p c = Some (a, r)" "cron_chains a" "CronEntries a = CronEntries c"
      "registered a = registered c" "1 \<le> r" "r \<le> CronEntries c" "heap_but (cron_key a) (CronEntries c) r"
      "parent_ok (cron_key a) r"
    using heapify_up_spec [OF assms(1) refl assms(2-4)] by blast
  obtain d where "heapify_down (CronEntries c) r a = Some d" "cron_inv d" "CronEntries d = CronEntries c"
      "registered d = registered a"
    using heapify_down_spec [OF a(2) a(3) [symmetric] a(5-8)] by blast
  then show ?thesis using a by (simp add: CronHeapify_def)
qed

section \<open>Registering an object\<close>

text \<open>A new entry at position \<open>n + 1\<close>, put in front of the chain of its object.\<close>

lemma links_insert:
  assumes links: "links_ok c {1..n}" and n: "0 \<le> n" and len: "length (CronHashTable c) = nat NARRAY_CronHashTable"
    and new: "Obj (cval d (n + 1)) = ob" "Previous (cval d (n + 1)) = - 1"
      "Next (cval d (n + 1)) = CronHashTable c ! nat (slot ob)"
    and old: "\<And>i. 1 \<le> i \<Longrightarrow> i \<le> n \<Longrightarrow> cval d i =
      (if link (CronHashTable c ! nat (slot ob)) = Some i then (cval c i)\<lparr>Previous := n + 1\<rparr> else cval c i)"
    and hash: "CronHashTable d = (CronHashTable c)[nat (slot ob) := n + 1]"
  shows "links_ok d {1..n + 1}"
  unfolding links_ok_def
proof (intro allI impI)
  fix k assume k: "0 \<le> k" "k < NARRAY_CronHashTable"
  obtain xs where xs: "slot_chain c {1..n} k xs" using links k by (auto simp: links_ok_def)
  have sub: "set xs \<subseteq> {1..n}" using xs by (auto simp: slot_chain_def)
  have obj: "Obj (cval d i) = Obj (cval c i)" if "1 \<le> i" "i \<le> n" for i using old [OF that] by simp
  have nx: "nxt d i = nxt c i" if "1 \<le> i" "i \<le> n" for i using old [OF that] by (simp add: nxt_def)
  show "\<exists>xs. slot_chain d {1..n + 1} k xs"
  proof (cases "k = slot ob")
    case True
    have first: "link (CronHashTable c ! nat (slot ob)) = first_or xs None" using xs True by (simp add: slot_chain_def)
    have dist: "distinct xs" and ch: "chain (prv c) (nxt c) None xs None" using xs by (auto simp: slot_chain_def)
    have pv: "prv d i = (if xs \<noteq> [] \<and> i = hd xs then Some (n + 1) else prv c i)" if "i \<in> set xs" for i
      using old [of i] first that sub n by (auto simp: prv_def first_or_def split: list.splits)
    have "chain (prv d) (nxt d) (Some (n + 1)) xs None"
    proof (rule chain_relink [OF ch])
      show "prv d y = prv c y" if "y \<in> set (tl xs)" for y
        using pv [OF in_set_tlD [OF that]] hd_not_tl [OF dist] that by auto
      show "prv d (hd xs) = Some (n + 1)" if "xs \<noteq> []" using that pv [of "hd xs"] by simp
      show "nxt d y = nxt c y" if "y \<in> set (butlast xs)" for y
        using in_set_butlastD [OF that] sub nx [of y] by auto
      show "nxt d (last xs) = None" if "xs \<noteq> []"
        using that last_in_set [OF that] sub nx [of "last xs"] ch
        by (cases xs rule: rev_cases) (auto simp: chain_append)
    qed
    moreover have "prv d (n + 1) = None" "nxt d (n + 1) = first_or xs None"
      using new first by (auto simp: prv_def nxt_def)
    moreover have "set ((n + 1) # xs) = {i \<in> {1..n + 1}. slot (Obj (cval d i)) = k}"
    proof -
      have "set xs = {i \<in> {1..n}. slot (Obj (cval d i)) = k}" using xs obj by (auto simp: slot_chain_def)
      moreover have "{1..n + 1} = insert (n + 1) {1..n}" using n by auto
      ultimately show ?thesis using new(1) True by auto
    qed
    moreover have "link (CronHashTable d ! nat k) = Some (n + 1)" using hash True k len n by simp
    ultimately show ?thesis
      using dist sub by (intro exI [of _ "(n + 1) # xs"]) (auto simp: slot_chain_def)
  next
    case False
    have "link (CronHashTable c ! nat (slot ob)) \<noteq> Some i" if "i \<in> set xs" for i
    proof -
      obtain ys where ys: "slot_chain c {1..n} (slot ob) ys" using links slot_bounds [of ob] by (auto simp: links_ok_def)
      then show ?thesis using that xs False first_or_mem [of ys i] by (auto simp: slot_chain_def)
    qed
    then have same: "cval d i = cval c i" if "i \<in> set xs" for i using that old [of i] sub by auto
    have "chain (prv c) (nxt c) None xs None" using xs by (simp add: slot_chain_def)
    then have "chain (prv d) (nxt d) None xs None"
      by (rule chain_cong) (simp add: prv_def nxt_def same)
    moreover have "set xs = {i \<in> {1..n + 1}. slot (Obj (cval d i)) = k}"
    proof -
      have "set xs = {i \<in> {1..n}. slot (Obj (cval d i)) = k}" using xs obj by (auto simp: slot_chain_def)
      moreover have "{1..n + 1} = insert (n + 1) {1..n}" using n by auto
      ultimately show ?thesis using new(1) False by auto
    qed
    moreover have "CronHashTable d ! nat k = CronHashTable c ! nat k"
      using False hash k slot_bounds(1) [of ob] by (simp add: eq_nat_nat_iff)
    ultimately show ?thesis using xs by (auto simp: slot_chain_def)
  qed
qed

lemma registered_upto_Suc: "0 \<le> n \<Longrightarrow> registered_upto c (n + 1) = add_mset (pair c (n + 1)) (registered_upto c n)"
proof -
  assume "0 \<le> n"
  then have "{1..n + 1} = insert (n + 1) {1..n}" by auto
  then show ?thesis by (simp add: registered_upto_def)
qed

lemma registered_upto_cong:
  "(\<And>i. 1 \<le> i \<Longrightarrow> i \<le> n \<Longrightarrow> pair c i = pair d i) \<Longrightarrow> registered_upto c n = registered_upto d n"
  unfolding registered_upto_def by (rule image_mset_cong) simp

text \<open>The state of \<open>CronSet\<close> before the heap is restored.\<close>

lemma CronSet_prepare:
  assumes inv: "cron_inv c" and n: "n = CronEntries c"
  obtains d where "cron_chains d" "CronEntries d = n + 1" "registered d = add_mset (ob, now + Delay) (registered c)"
    "heap_but (cron_key d) (n + 1) (n + 1)"
    "obj_exists env ob \<Longrightarrow> CronSet env now ob Delay c = Option.bind (CronHeapify (n + 1) d) (\<lambda>c. Some (c, False))"
proof -
  let ?V = "CronEntryArray c" and ?p = "n + 1" and ?f = "CronHashTable c ! nat (slot ob)"
  have n0: "0 \<le> n" and ok: "cron_array_ok c n" and links: "links_ok c {1..n}" and heap: "heap_order (cron_key c) n"
    using inv n by (auto simp: cron_inv_def)
  have len: "length (CronHashTable c) = nat NARRAY_CronHashTable" "int (length (CronHashTable c)) = NARRAY_CronHashTable"
    using ok by (auto simp: cron_array_ok_def NARRAY_CronHashTable_def)
  have vinv: "vec_inv ?V" using ok by (simp add: cron_array_ok_def)
  obtain w where w: "vector_at ?V ?p = Some w" "vec_grown ?V w" "vmin w = min (vmin ?V) ?p" "vmax w = max (vmax ?V) ?p"
    by (rule vector_at_spec [OF vinv])
  have winv: "vec_inv w" by (rule vec_grown_inv [OF w(2)])
  have rng: "in_vec w i" if "0 \<le> i" "i \<le> ?p" for i
    using w(3,4) ok that by (auto simp: in_vec_def cron_array_ok_def)
  have wval: "vec_val w i = cval c i" if "1 \<le> i" "i \<le> n" for i
    using vec_grown_val [OF w(2), of i] in_array [OF ok, of i] that by auto
  define e where "e = (vec_val w ?p)\<lparr>Obj := ob, Round := now + Delay, Previous := - 1, Next := ?f\<rparr>"
  define v1 where "v1 = vec_upd w ?p e"
  obtain xs where xs: "slot_chain c {1..n} (slot ob) xs" using links slot_bounds [of ob] by (auto simp: links_ok_def)
  have f: "1 \<le> ?f \<and> ?f \<le> n" if "?f \<noteq> - 1"
  proof -
    have "first_or xs None = Some ?f" using xs that by (simp add: slot_chain_def)
    then show ?thesis using first_or_mem [of xs ?f] xs by (auto simp: slot_chain_def)
  qed
  define v2 where "v2 = (if ?f \<noteq> - 1 then vec_upd v1 ?f ((vec_val v1 ?f)\<lparr>Previous := ?p\<rparr>) else v1)"
  define d where "d = c\<lparr>CronEntryArray := v2, CronHashTable := (CronHashTable c)[nat (slot ob) := ?p], CronEntries := ?p\<rparr>"
  have v1: "vec_inv v1" "in_vec v1 = in_vec w" using winv by (auto simp: v1_def vec_simps)
  have v2: "vec_inv v2" "in_vec v2 = in_vec w" "vmin v2 = vmin w" "vmax v2 = vmax w"
    using v1 winv by (auto simp: v2_def v1_def vec_simps)
  have val1: "vec_val v1 i = (if i = ?p then e else vec_val w i)" if "0 \<le> i" "i \<le> ?p" for i
    using winv rng that n0 by (simp add: v1_def vec_val_upd)
  have val2: "vec_val v2 i = (if link ?f = Some i then (vec_val v1 i)\<lparr>Previous := ?p\<rparr> else vec_val v1 i)"
    if "0 \<le> i" "i \<le> ?p" for i
    using v1 rng that f by (auto simp: v2_def vec_val_upd link_def)
  have last_val: "cval d ?p = e"
  proof -
    have "link ?f \<noteq> Some ?p" using f by (auto simp: link_def)
    then show ?thesis using val2 [of ?p] val1 [of ?p] n0 by (simp add: d_def)
  qed
  have old: "cval d i = (if link ?f = Some i then (cval c i)\<lparr>Previous := n + 1\<rparr> else cval c i)" if "1 \<le> i" "i \<le> n" for i
    using val2 [of i] val1 [of i] wval [OF that] that by (simp add: d_def)
  have "links_ok d {1..n + 1}"
    by (rule links_insert [OF links n0 len(1), of d ob]) (use last_val old in \<open>simp_all add: e_def d_def\<close>)
  moreover have "cron_array_ok d (n + 1)"
    using v2 w(3,4) ok n0 len by (auto simp: cron_array_ok_def d_def)
  ultimately have chains: "cron_chains d" using n0 by (simp add: cron_chains_def d_def)
  have same: "pair d i = pair c i" if "1 \<le> i" "i \<le> n" for i using old [OF that] by (simp add: pair_def)
  have "registered_upto d n = registered_upto c n" using same by (rule registered_upto_cong)
  then have reg: "registered d = add_mset (ob, now + Delay) (registered c)"
    using registered_upto_Suc [OF n0, of d] last_val n by (simp add: registered_def d_def pair_def e_def)
  have "heap_order (cron_key d) n"
    by (rule heap_order_cong [OF _ heap]) (simp add: cron_key_pair same)
  then have hb: "heap_but (cron_key d) (n + 1) (n + 1)" using heap_but_append(1) n0 by blast
  have "CronSet env now ob Delay c = Option.bind (CronHeapify ?p d) (\<lambda>c. Some (c, False))" if "obj_exists env ob"
  proof -
    have "arr_get (CronHashTable c) (slot ob) = Some ?f" "arr_set (CronHashTable c) (slot ob) ?p = Some ((CronHashTable c)[nat (slot ob) := ?p])"
      using slot_bounds [of ob] len by auto
    moreover have "vec_get w ?p = Some (vec_val w ?p)" "vec_set w ?p e = Some v1"
      using winv rng [of ?p] n0 by (auto simp: vec_simps v1_def)
    moreover have "(if ?f \<noteq> - 1 then upd_entry ?f (Previous_update (\<lambda>_. ?p)) v1 else Some v1) = Some v2"
      using v1 upd_entry_Some [OF v1(1), of ?f] rng [of ?f] f by (auto simp: v2_def)
    ultimately show ?thesis using that w(1) unfolding e_def d_def by (simp add: CronSet_def Let_def n [symmetric])
  qed
  then show ?thesis using chains reg hb by (intro that [of d]) (auto simp: d_def)
qed

lemma CronSet_spec:
  assumes "cron_inv c" "obj_exists env ob"
  shows "\<exists>d. CronSet env now ob Delay c = Some (d, False) \<and> cron_inv d \<and> CronEntries d = CronEntries c + 1 \<and>
    registered d = add_mset (ob, now + Delay) (registered c)"
proof -
  obtain d where d: "cron_chains d" "CronEntries d = CronEntries c + 1" "registered d = add_mset (ob, now + Delay) (registered c)"
      "heap_but (cron_key d) (CronEntries c + 1) (CronEntries c + 1)"
      "CronSet env now ob Delay c = Option.bind (CronHeapify (CronEntries c + 1) d) (\<lambda>c. Some (c, False))"
    using CronSet_prepare [OF assms(1) refl, of ob now Delay env] assms(2) by metis
  have p: "1 \<le> CronEntries c + 1" "CronEntries c + 1 \<le> CronEntries d" using assms(1) d(2) by (auto simp: cron_inv_def)
  then show ?thesis using CronHeapify_spec [OF d(1) p] d by auto
qed

section \<open>Removing an entry\<close>

text \<open>The state of \<open>CronDelete\<close> after the entry is taken out of its chain.\<close>

lemma CronDelete_unlink:
  assumes chains: "cron_chains c" and n: "n = CronEntries c" and p: "1 \<le> p" "p \<le> n"
  obtains d where "cron_array_ok d n" "links_ok d ({1..n} - {p})" "CronEntries d = n"
    "\<forall>i. 1 \<le> i \<and> i \<le> n \<longrightarrow> pair d i = pair c i"
    "CronDelete p c =
       (if p \<noteq> n then do { c \<leftarrow> CronMove p n (d\<lparr>CronEntries := n - 1\<rparr>); c \<leftarrow> CronHeapify p c; Some (c, False) }
        else Some (d\<lparr>CronEntries := n - 1\<rparr>, False))"
proof -
  let ?V = "CronEntryArray c"
  define e h where "e = cval c p" and "h = slot (Obj e)"
  have ok: "cron_array_ok c n" and links: "links_ok c {1..n}" using chains n by (auto simp: cron_chains_def)
  have h: "0 \<le> h" "h < NARRAY_CronHashTable" using slot_bounds [of "Obj e"] by (auto simp: h_def)
  obtain xs where xs: "slot_chain c {1..n} h xs" using links h by (auto simp: links_ok_def)
  have "p \<in> set xs" using xs p by (simp add: slot_chain_def h_def e_def)
  then obtain ps qs where ps: "xs = ps @ p # qs" by (auto dest: split_list)
  have dx: "distinct (ps @ p # qs)" "chain (prv c) (nxt c) None (ps @ p # qs) None" using xs ps by (auto simp: slot_chain_def)
  have mem: "set ps \<union> set qs \<subseteq> {1..n} - {p}" using xs ps by (auto simp: slot_chain_def)
  have le: "link (Previous e) = last_or ps None" "link (Next e) = first_or qs None"
    using slot_chain_links [OF xs [unfolded ps]] by (auto simp: prv_def nxt_def e_def)
  have inv: "vec_inv ?V" and r: "\<And>i. 1 \<le> i \<Longrightarrow> i \<le> n \<Longrightarrow> in_vec ?V i"
    using ok in_array by (auto simp: cron_array_ok_def)
  have nx: "1 \<le> Next e \<and> Next e \<le> n \<and> Next e \<noteq> p" if "Next e \<noteq> - 1"
    using that le(2) mem first_or_mem [of qs "Next e"] by auto
  have pv: "1 \<le> Previous e \<and> Previous e \<le> n \<and> Previous e \<noteq> p" if "Previous e \<noteq> - 1"
    using that le(1) mem last_or_mem [of ps "Previous e"] by auto
  define v1 where "v1 = (if Next e \<noteq> - 1 then vec_upd ?V (Next e) ((cval c (Next e))\<lparr>Previous := Previous e\<rparr>) else ?V)"
  define v2 where "v2 = (if Previous e \<noteq> - 1 then vec_upd v1 (Previous e) ((vec_val v1 (Previous e))\<lparr>Next := Next e\<rparr>) else v1)"
  define d where "d = c\<lparr>CronEntryArray := v2,
     CronHashTable := (if Previous e = - 1 then (CronHashTable c)[nat h := Next e] else CronHashTable c)\<rparr>"
  have v1: "vec_inv v1" "in_vec v1 = in_vec ?V" using inv by (auto simp: v1_def vec_simps)
  have v2: "vec_inv v2" "vmin v2 = vmin ?V" "vmax v2 = vmax ?V" using v1 by (auto simp: v2_def v1_def vec_simps)
  have val1: "vec_val v1 i = (if link (Next e) = Some i then (cval c i)\<lparr>Previous := Previous e\<rparr> else cval c i)"
    if "1 \<le> i" "i \<le> n" for i
    using inv r that nx by (auto simp: v1_def vec_val_upd link_def)
  have val2: "cval d i = (if link (Previous e) = Some i then (vec_val v1 i)\<lparr>Next := Next e\<rparr> else vec_val v1 i)"
    if "1 \<le> i" "i \<le> n" for i
    using v1 r that pv by (auto simp: d_def v2_def vec_val_upd link_def)
  have obj: "Obj (cval d i) = Obj (cval c i)" "Round (cval d i) = Round (cval c i)" if "1 \<le> i" "i \<le> n" for i
    using val1 [OF that] val2 [OF that] by auto
  have pn: "prv d i = (if link (Next e) = Some i then prv c p else prv c i)"
      "nxt d i = (if link (Previous e) = Some i then nxt c p else nxt c i)" if "1 \<le> i" "i \<le> n" for i
    using val1 [OF that] val2 [OF that] by (auto simp: prv_def nxt_def e_def)
  have len: "length (CronHashTable c) = nat NARRAY_CronHashTable" "int (length (CronHashTable c)) = NARRAY_CronHashTable"
    using ok by (auto simp: cron_array_ok_def NARRAY_CronHashTable_def)
  have "\<exists>ys. slot_chain d ({1..n} - {p}) k ys" if k: "0 \<le> k" "k < NARRAY_CronHashTable" for k
  proof (cases "k = h")
    case True
    have "chain (prv d) (nxt d) None (ps @ qs) None"
    proof (rule chain_remove [OF dx(2,1)])
      fix y assume "y \<in> set ps \<union> set qs"
      then have "1 \<le> y" "y \<le> n" using mem by auto
      then show "prv d y = (if qs \<noteq> [] \<and> y = hd qs then prv c p else prv c y)"
        "nxt d y = (if ps \<noteq> [] \<and> y = last ps then nxt c p else nxt c y)"
        using pn [of y] le by (auto simp: first_or_def last_or_def split: list.splits)
    qed
    moreover have "set (ps @ qs) = {i \<in> {1..n} - {p}. slot (Obj (cval d i)) = k}"
    proof -
      have "set xs = {i \<in> {1..n}. slot (Obj (cval d i)) = k}" using xs obj True by (auto simp: slot_chain_def)
      moreover have "set xs = insert p (set (ps @ qs))" using ps by auto
      ultimately show ?thesis using dx(1) by auto
    qed
    moreover have "link (CronHashTable d ! nat k) = first_or (ps @ qs) None"
    proof (cases ps)
      case Nil
      then have "Previous e = - 1" using le(1) by (simp add: link_None)
      then show ?thesis using Nil le(2) True len k by (simp add: d_def)
    next
      case (Cons a ps')
      then have "Previous e \<noteq> - 1" using le(1) by (auto simp: last_or_def)
      then show ?thesis using Cons xs ps True by (simp add: d_def slot_chain_def)
    qed
    ultimately show ?thesis using dx(1) by (intro exI [of _ "ps @ qs"]) (auto simp: slot_chain_def)
  next
    case False
    obtain ys where ys: "slot_chain c {1..n} k ys" using links k by (auto simp: links_ok_def)
    have h_i: "slot (Obj (cval c i)) = h" if "link (Next e) = Some i \<or> link (Previous e) = Some i" for i
      using that le xs ps first_or_mem [of qs i] last_or_mem [of ps i] by (auto simp: slot_chain_def)
    have "chain (prv d) (nxt d) None ys None"
    proof (rule chain_cong [of "prv c" "nxt c"])
      show "chain (prv c) (nxt c) None ys None" using ys by (simp add: slot_chain_def)
      fix x assume "x \<in> set ys"
      then have "1 \<le> x" "x \<le> n" "slot (Obj (cval c x)) = k" using ys by (auto simp: slot_chain_def)
      then show "prv d x = prv c x \<and> nxt d x = nxt c x" using pn [of x] h_i [of x] False by auto
    qed
    moreover have "set ys = {i \<in> {1..n} - {p}. slot (Obj (cval d i)) = k}"
      using ys obj False by (auto simp: slot_chain_def h_def e_def)
    moreover have "CronHashTable d ! nat k = CronHashTable c ! nat k"
      using False k h by (simp add: d_def eq_nat_nat_iff)
    ultimately show ?thesis using ys by (auto simp: slot_chain_def)
  qed
  then have "links_ok d ({1..n} - {p})" by (simp add: links_ok_def)
  moreover have "cron_array_ok d n" using ok v2 by (simp add: cron_array_ok_def d_def)
  moreover have "CronDelete p c =
       (if p \<noteq> n then do { c \<leftarrow> CronMove p n (d\<lparr>CronEntries := n - 1\<rparr>); c \<leftarrow> CronHeapify p c; Some (c, False) }
        else Some (d\<lparr>CronEntries := n - 1\<rparr>, False))"
  proof -
    have "vector_at ?V p = Some ?V" "vec_get ?V p = Some e" using inv r p by (auto simp: vec_simps e_def)
    moreover have "(if Next e \<noteq> - 1 then upd_entry (Next e) (Previous_update (\<lambda>_. Previous e)) ?V else Some ?V) = Some v1"
      using upd_entry_Some [OF inv, of "Next e"] r [of "Next e"] nx by (auto simp: v1_def)
    moreover have "vec_get v1 p = Some e"
    proof -
      have "link (Next e) \<noteq> Some p" using nx by (auto simp: link_def)
      then show ?thesis using v1 r p val1 [OF p] by (simp add: vec_simps e_def)
    qed
    moreover have "Previous e \<noteq> - 1 \<Longrightarrow> upd_entry (Previous e) (Next_update (\<lambda>_. Next e)) v1 = Some v2"
      using upd_entry_Some [OF v1(1), of "Previous e"] v1(2) r [of "Previous e"] pv by (auto simp: v2_def)
    moreover have "arr_set (CronHashTable c) (slot (Obj e)) (Next e) = Some ((CronHashTable c)[nat h := Next e])"
      using slot_bounds [of "Obj e"] len by (simp add: h_def)
    moreover have "Previous e = - 1 \<Longrightarrow> v2 = v1" by (simp add: v2_def)
    ultimately show ?thesis using p n by (simp add: CronDelete_def d_def)
  qed
  ultimately show ?thesis using obj n by (intro that [of d]) (auto simp: d_def pair_def)
qed

lemma registered_remove:
  assumes "1 \<le> p" "p \<le> n"
  shows "registered_upto c n = add_mset (pair c p) (image_mset (pair c) (mset_set ({1..n} - {p})))"
proof -
  have eq: "{1..n} = insert p ({1..n} - {p})" using assms by auto
  have "mset_set (insert p ({1..n} - {p})) = add_mset p (mset_set ({1..n} - {p}))" by (rule mset_set.insert) auto
  from trans [OF arg_cong [OF eq, of mset_set] this] have "mset_set {1..n} = add_mset p (mset_set ({1..n} - {p}))" .
  then show ?thesis by (simp add: registered_upto_def)
qed

lemma CronDelete_spec:
  assumes inv: "cron_inv c" and p: "1 \<le> p" "p \<le> CronEntries c"
  shows "\<exists>d. CronDelete p c = Some (d, False) \<and> cron_inv d \<and> CronEntries d = CronEntries c - 1 \<and>
    registered c = add_mset (pair c p) (registered d)"
proof -
  define n where "n = CronEntries c"
  have chains: "cron_chains c" and heap: "heap_order (cron_key c) n" using inv by (auto simp: cron_inv_iff n_def)
  have pn: "p \<le> n" using p by (simp add: n_def)
  obtain d where ok: "cron_array_ok d n" and links: "links_ok d ({1..n} - {p})" and dn: "CronEntries d = n"
    and same: "\<forall>i. 1 \<le> i \<and> i \<le> n \<longrightarrow> pair d i = pair c i"
    and del: "CronDelete p c =
       (if p \<noteq> n then do { c \<leftarrow> CronMove p n (d\<lparr>CronEntries := n - 1\<rparr>); c \<leftarrow> CronHeapify p c; Some (c, False) }
        else Some (d\<lparr>CronEntries := n - 1\<rparr>, False))"
    by (rule CronDelete_unlink [OF chains n_def p(1) pn])
  let ?d = "d\<lparr>CronEntries := n - 1\<rparr>"
  have eqs: "cval ?d = cval d" "prv ?d = prv d" "nxt ?d = nxt d" "pair ?d = pair d" "cron_key ?d = cron_key d"
    by (simp_all add: fun_eq_iff prv_def nxt_def pair_def cron_key_def)
  have ok': "cron_array_ok ?d n" using ok by (simp add: cron_array_ok_def)
  have links': "links_ok ?d ({1..n} - {p})" using links eqs by (simp add: links_ok_def slot_chain_def)
  have reg: "registered c = add_mset (pair c p) (image_mset (pair c) (mset_set ({1..n} - {p})))"
    using registered_remove [OF p(1) pn, of c] by (simp add: registered_def n_def)
  show ?thesis
  proof (cases "p = n")
    case True
    have A: "{1..n} - {p} = {1..n - 1}" using True by auto
    have "heap_order (cron_key ?d) (n - 1)"
      by (rule heap_order_cong [OF _ heap_order_shrink [OF heap]]) (use same in \<open>simp_all add: cron_key_pair eqs\<close>)
    then have "cron_inv ?d" using ok' links' A p pn True by (auto simp: cron_inv_def cron_array_ok_def)
    moreover have "registered ?d = image_mset (pair c) (mset_set {1..n - 1})"
      unfolding registered_def registered_upto_def eqs by (simp, rule image_mset_cong) (use same in auto)
    ultimately show ?thesis using del True reg A by (auto simp: n_def)
  next
    case False
    have A: "{1..n} - {p} \<subseteq> {0..n}" "n \<in> {1..n} - {p}" "p \<notin> {1..n} - {p}" "0 \<le> p" using p pn False by auto
    obtain m where m: "CronMove p n ?d = Some m" "cron_array_ok m n" "CronEntries m = CronEntries ?d"
        "links_ok m (insert p ({1..n} - {p} - {n}))"
        "\<forall>i. 0 \<le> i \<and> i \<le> n \<longrightarrow> pair m i = (if i = p then pair ?d n else pair ?d i)"
      by (rule CronMove_links [OF ok' links' A pn])
    have B: "insert p ({1..n} - {p} - {n}) = {1..n - 1}" and pn1: "p \<le> n - 1" using p pn False by auto
    have chains_m: "cron_chains m" using m B p pn by (auto simp: cron_chains_def cron_array_ok_def)
    have pm: "pair m i = (if i = p then pair c n else pair c i)" if "1 \<le> i" "i \<le> n - 1" for i
      using m(5) same that p pn by (simp add: eqs)
    have "heap_but ((cron_key c)(p := cron_key c n)) (n - 1) p"
      using heap_order_shrink [OF heap] p pn1 by (intro heap_but_upd) auto
    then have hb: "heap_but (cron_key m) (n - 1) p"
      by (rule heap_but_cong [rotated]) (use pm in \<open>simp add: cron_key_pair\<close>)
    obtain r where r: "CronHeapify p m = Some r" "cron_inv r" "CronEntries r = n - 1" "registered r = registered m"
      using CronHeapify_spec [OF chains_m p(1), of] pn1 hb m(3) by auto
    have "registered m = image_mset (pair c) (mset_set ({1..n} - {p}))"
    proof -
      let ?g = "\<lambda>i. if i = p then n else i"
      have mn: "CronEntries m = n - 1" using m(3) by simp
      have "registered m = image_mset (pair c \<circ> ?g) (mset_set {1..n - 1})"
        unfolding registered_def registered_upto_def mn by (rule image_mset_cong) (use pm in auto)
      also have "\<dots> = image_mset (pair c) (image_mset ?g (mset_set {1..n - 1}))" by (simp only: multiset.map_comp)
      also have "image_mset ?g (mset_set {1..n - 1}) = mset_set (?g ` {1..n - 1})"
        by (rule image_mset_mset_set) (auto simp: inj_on_def)
      also have "?g ` {1..n - 1} = {1..n} - {p}"
        using p pn1 by (auto simp: image_iff)
      finally show ?thesis .
    qed
    then show ?thesis using del False m r reg by (auto simp: n_def)
  qed
qed

section \<open>Finding an object\<close>

lemma find_walk:
  assumes chains: "cron_chains c"
  shows "chain (prv c) (nxt c) p xs None \<Longrightarrow> set xs \<subseteq> {1..CronEntries c} \<Longrightarrow> link s = first_or xs None \<Longrightarrow>
    find_position ob (CronEntryArray c) s =
      Some (CronEntryArray c, case List.find (\<lambda>i. Obj (cval c i) = ob) xs of None \<Rightarrow> - 1 | Some i \<Rightarrow> i)"
proof (induction xs arbitrary: p s)
  case Nil
  then show ?case by (subst find_position.simps) (simp add: link_None)
next
  case (Cons x xs)
  have s: "s = x" "s \<noteq> - 1" using Cons.prems(3) by (auto simp: link_Some)
  have acc: "vector_at (CronEntryArray c) s = Some (CronEntryArray c)" "vec_get (CronEntryArray c) s = Some (cval c x)"
    using cron_chains_access [OF chains, of x] Cons.prems(2) s by auto
  have "link (Next (cval c x)) = first_or xs None" using Cons.prems(1) by (simp add: nxt_def)
  from Cons.IH [OF _ _ this] show ?case
    using Cons.prems s acc by (subst find_position.simps) auto
qed

text \<open>The search finds an entry of the object when there is one, without changing the array.\<close>

lemma find_position_spec:
  assumes inv: "cron_inv c"
  obtains first p where "arr_get (CronHashTable c) (slot ob) = Some first"
    "find_position ob (CronEntryArray c) first = Some (CronEntryArray c, p)"
    "p = - 1 \<longrightarrow> (\<forall>i. 1 \<le> i \<and> i \<le> CronEntries c \<longrightarrow> Obj (cval c i) \<noteq> ob)"
    "p \<noteq> - 1 \<longrightarrow> 1 \<le> p \<and> p \<le> CronEntries c \<and> Obj (cval c p) = ob"
proof -
  let ?n = "CronEntries c"
  have chains: "cron_chains c" and links: "links_ok c {1..?n}" and ok: "cron_array_ok c ?n"
    using inv by (auto simp: cron_inv_iff cron_chains_def)
  obtain xs where xs: "slot_chain c {1..?n} (slot ob) xs" using links slot_bounds [of ob] by (auto simp: links_ok_def)
  have sub: "set xs = {i \<in> {1..?n}. slot (Obj (cval c i)) = slot ob}" and ch: "chain (prv c) (nxt c) None xs None"
    and first: "link (CronHashTable c ! nat (slot ob)) = first_or xs None"
    using xs by (auto simp: slot_chain_def)
  have get: "arr_get (CronHashTable c) (slot ob) = Some (CronHashTable c ! nat (slot ob))"
    using slot_bounds [of ob] ok by (simp add: cron_array_ok_def NARRAY_CronHashTable_def)
  let ?f = "List.find (\<lambda>i. Obj (cval c i) = ob) xs"
  have walk: "find_position ob (CronEntryArray c) (CronHashTable c ! nat (slot ob)) =
      Some (CronEntryArray c, case ?f of None \<Rightarrow> - 1 | Some i \<Rightarrow> i)"
    using sub by (intro find_walk [OF chains ch _ first]) auto
  show ?thesis
  proof (cases ?f)
    case None
    then have "\<forall>i. 1 \<le> i \<and> i \<le> ?n \<longrightarrow> Obj (cval c i) \<noteq> ob" using sub by (auto simp: find_None_iff)
    then show ?thesis using get walk None by (intro that) auto
  next
    case (Some i)
    then have "i \<in> set xs" "Obj (cval c i) = ob" by (auto simp: find_Some_iff)
    then have "1 \<le> i \<and> i \<le> ?n \<and> Obj (cval c i) = ob" using sub by auto
    then show ?thesis using get walk Some by (intro that) auto
  qed
qed

definition is_registered :: "cron \<Rightarrow> u32 \<Rightarrow> bool" where
  "is_registered c ob \<longleftrightarrow> ob \<in># image_mset fst (registered c)"

lemma is_registered_iff: "is_registered c ob \<longleftrightarrow> (\<exists>i. 1 \<le> i \<and> i \<le> CronEntries c \<and> Obj (cval c i) = ob)"
  by (auto simp: is_registered_def registered_def registered_upto_def pair_def image_iff)

text \<open>The rounds left until an entry is due, at least one.\<close>

definition remaining :: "u32 \<Rightarrow> u32 \<Rightarrow> u32" where
  "remaining now r = (if r > now then r - now else 1)"

lemma cron_info_spec:
  assumes inv: "cron_inv c" and ex: "obj_exists env ob"
  shows "\<exists>d v. cron_info env now ob del c = Some (d, v, \<not> is_registered c ob) \<and> cron_inv d \<and>
    (if is_registered c ob
     then \<exists>r. (ob, r) \<in># registered c \<and> v = remaining now r \<and>
       (if del then registered c = add_mset (ob, r) (registered d) else d = c)
     else v = 0 \<and> d = c)"
proof -
  obtain first p where f: "arr_get (CronHashTable c) (slot ob) = Some first"
      "find_position ob (CronEntryArray c) first = Some (CronEntryArray c, p)"
      "p = - 1 \<longrightarrow> (\<forall>i. 1 \<le> i \<and> i \<le> CronEntries c \<longrightarrow> Obj (cval c i) \<noteq> ob)"
      "p \<noteq> - 1 \<longrightarrow> 1 \<le> p \<and> p \<le> CronEntries c \<and> Obj (cval c p) = ob"
    by (rule find_position_spec [OF inv])
  show ?thesis
  proof (cases "p = - 1")
    case True
    then have "\<not> is_registered c ob" using f(3) by (auto simp: is_registered_iff)
    then show ?thesis using True f ex inv by (simp add: cron_info_def)
  next
    case False
    then have p: "1 \<le> p" "p \<le> CronEntries c" "Obj (cval c p) = ob" using f(4) by auto
    have reg: "is_registered c ob" using p by (auto simp: is_registered_iff)
    have acc: "vec_get (CronEntryArray c) p = Some (cval c p)"
      using cron_chains_access(2) [of c p] p inv by (simp add: cron_inv_iff)
    have pr: "pair c p = (ob, cron_key c p)" using p(3) by (simp add: pair_def cron_key_def)
    obtain d where d: "CronDelete p c = Some (d, False)" "cron_inv d" "registered c = add_mset (pair c p) (registered d)"
      using CronDelete_spec [OF inv p(1,2)] by blast
    have "cron_info env now ob del c = Some (if del then d else c, remaining now (cron_key c p), False)"
      using False f(1,2) ex acc d(1) by (simp add: cron_info_def remaining_def cron_key_def)
    moreover have "(ob, cron_key c p) \<in># registered c" using d(3) pr by simp
    ultimately show ?thesis using reg d inv pr by auto
  qed
qed

lemma cron_change_spec:
  assumes inv: "cron_inv c" and ex: "obj_exists env ob"
  shows "\<exists>d. cron_change env now ob NewDelay c = Some (d, \<not> is_registered c ob) \<and> cron_inv d \<and>
    (if is_registered c ob
     then \<exists>r rest. registered c = add_mset (ob, r) rest \<and> registered d = add_mset (ob, now + word_of_int NewDelay) rest
     else d = c)"
proof -
  obtain first p where f: "arr_get (CronHashTable c) (slot ob) = Some first"
      "find_position ob (CronEntryArray c) first = Some (CronEntryArray c, p)"
      "p = - 1 \<longrightarrow> (\<forall>i. 1 \<le> i \<and> i \<le> CronEntries c \<longrightarrow> Obj (cval c i) \<noteq> ob)"
      "p \<noteq> - 1 \<longrightarrow> 1 \<le> p \<and> p \<le> CronEntries c \<and> Obj (cval c p) = ob"
    by (rule find_position_spec [OF inv])
  show ?thesis
  proof (cases "p = - 1")
    case True
    then have "\<not> is_registered c ob" using f(3) by (auto simp: is_registered_iff)
    then show ?thesis using True f ex inv by (simp add: cron_change_def)
  next
    case False
    let ?n = "CronEntries c" and ?r = "now + word_of_int NewDelay"
    have p: "1 \<le> p" "p \<le> ?n" "Obj (cval c p) = ob" using f(4) False by auto
    have reg: "is_registered c ob" using p by (auto simp: is_registered_iff)
    have chains: "cron_chains c" and heap: "heap_order (cron_key c) ?n" and ok: "cron_array_ok c ?n"
      using inv by (auto simp: cron_inv_iff cron_chains_def)
    have r: "vec_inv (CronEntryArray c)" "\<And>i. 1 \<le> i \<Longrightarrow> i \<le> ?n \<Longrightarrow> in_vec (CronEntryArray c) i"
      using ok in_array by (auto simp: cron_array_ok_def)
    define d where "d = c\<lparr>CronEntryArray := vec_upd (CronEntryArray c) p ((cval c p)\<lparr>Round := ?r\<rparr>)\<rparr>"
    have val: "cval d i = (if i = p then (cval c p)\<lparr>Round := ?r\<rparr> else cval c i)" if "1 \<le> i" "i \<le> ?n" for i
      using r that p by (auto simp: d_def vec_val_upd)
    have "slot_chain d {1..?n} h xs" if "slot_chain c {1..?n} h xs" for h xs
    proof -
      have sub: "set xs \<subseteq> {1..?n}" and ch: "chain (prv c) (nxt c) None xs None" using that by (auto simp: slot_chain_def)
      have "chain (prv d) (nxt d) None xs None"
        by (rule chain_cong [OF ch]) (use sub val in \<open>auto simp: prv_def nxt_def subset_iff\<close>)
      moreover have "{i \<in> {1..?n}. slot (Obj (cval d i)) = h} = {i \<in> {1..?n}. slot (Obj (cval c i)) = h}"
        using val by auto
      ultimately show ?thesis using that by (simp add: slot_chain_def d_def)
    qed
    then have "links_ok d {1..?n}" using chains unfolding cron_chains_def links_ok_def by blast
    then have chains_d: "cron_chains d" "CronEntries d = ?n"
      using chains ok by (auto simp: cron_chains_def d_def cron_array_ok_upd)
    have "heap_but ((cron_key c)(p := ?r)) ?n p" by (rule heap_but_upd [OF heap p(1,2)])
    then have hb: "heap_but (cron_key d) ?n p"
      by (rule heap_but_cong [rotated]) (use val in \<open>simp add: cron_key_def\<close>)
    obtain e where e: "CronHeapify p d = Some e" "cron_inv e" "registered e = registered d"
      using CronHeapify_spec [OF chains_d(1) p(1)] p(2) hb chains_d(2) by auto
    let ?rest = "image_mset (pair c) (mset_set ({1..?n} - {p}))"
    have "registered c = add_mset (ob, cron_key c p) ?rest"
      using registered_remove [OF p(1,2), of c] p(3) by (simp add: registered_def pair_def cron_key_def)
    moreover have "registered d = add_mset (ob, ?r) ?rest"
    proof -
      have "image_mset (pair d) (mset_set ({1..?n} - {p})) = ?rest"
        by (rule image_mset_cong) (use val in \<open>auto simp: pair_def\<close>)
      then show ?thesis using registered_remove [OF p(1,2), of d] chains_d(2) val [OF p(1,2)] p(3)
        by (simp add: registered_def pair_def)
    qed
    moreover have "cron_change env now ob NewDelay c = Some (e, False)"
    proof -
      have "vec_get (CronEntryArray c) p = Some (cval c p)"
          "vec_set (CronEntryArray c) p ((cval c p)\<lparr>Round := ?r\<rparr>) = Some (vec_upd (CronEntryArray c) p ((cval c p)\<lparr>Round := ?r\<rparr>))"
        using r p by (auto simp: vec_simps)
      then show ?thesis using False f(1,2) ex e(1) by (simp add: cron_change_def d_def)
    qed
    ultimately show ?thesis using e reg by auto
  qed
qed

section \<open>The due object\<close>

lemma cron_check_spec:
  assumes inv: "cron_inv c"
  shows "\<exists>ob. cron_check now c = Some (c, ob) \<and>
    (if \<exists>x \<in># registered c. snd x \<le> now
     then \<exists>r. (ob, r) \<in># registered c \<and> r \<le> now \<and> (\<forall>x \<in># registered c. r \<le> snd x)
     else ob = 0)"
proof (cases "CronEntries c = 0")
  case True
  then show ?thesis by (simp add: cron_check_def registered_def registered_upto_def)
next
  case False
  let ?n = "CronEntries c"
  have n: "1 \<le> ?n" and chains: "cron_chains c" and heap: "heap_order (cron_key c) ?n"
    using inv False by (auto simp: cron_inv_iff cron_chains_def)
  have least: "\<forall>x \<in># registered c. cron_key c 1 \<le> snd x"
    using heap_order_min [OF heap] by (auto simp: registered_def registered_upto_def cron_key_pair)
  have mem: "(Obj (cval c 1), cron_key c 1) \<in># registered c"
    using n by (auto simp: registered_def registered_upto_def pair_def cron_key_def image_iff intro!: bexI [of _ 1])
  have check: "cron_check now c = Some (c, if cron_key c 1 \<le> now then Obj (cval c 1) else 0)"
    using False cron_chains_access [OF chains, of 1] n by (simp add: cron_check_def cron_key_def)
  show ?thesis
  proof (cases "cron_key c 1 \<le> now")
    case True
    then have "\<exists>x \<in># registered c. snd x \<le> now" using mem by (metis snd_conv)
    moreover have "cron_check now c = Some (c, Obj (cval c 1))" using check True by simp
    ultimately show ?thesis using True least mem by (intro exI [of _ "Obj (cval c 1)"]) auto
  next
    case False
    then have "\<not> (\<exists>x \<in># registered c. snd x \<le> now)" using least by (meson order_trans)
    then show ?thesis using check False by (intro exI [of _ 0]) (simp only: if_False simp_thms)
  qed
qed

lemma init_cron_inv: "cron_inv (init_cron fresh)" "registered (init_cron fresh) = {#}"
proof -
  have "vec_inv (vector_new 0 256 256 fresh)" by (rule vector_new_inv) simp
  moreover have "links_ok (init_cron fresh) {1..0}"
    unfolding links_ok_def by (intro allI impI exI [of _ "[]"]) (simp add: slot_chain_def init_cron_def nat_less_iff)
  ultimately show "cron_inv (init_cron fresh)"
    by (simp add: cron_inv_def cron_array_ok_def heap_order_def init_cron_def) (simp add: vector_new_def Let_def)
  show "registered (init_cron fresh) = {#}"
    by (simp add: registered_def registered_upto_def init_cron_def)
qed

lemma cron_expire_spec:
  assumes "cron_inv c"
  shows "\<exists>d. cron_expire env now ob Delay c = Some (d, \<not> obj_exists env ob) \<and> cron_inv d \<and>
    registered d = (if obj_exists env ob \<and> flag_expire env ob
      then add_mset (ob, now + (if Delay = - 1 then total_expire_time env ob else word_of_int Delay)) (registered c)
      else registered c)"
  using assms CronSet_spec [OF assms, of env ob now] by (auto simp: cron_expire_def)

lemma cron_stop_spec:
  assumes "cron_inv c"
  shows "\<exists>d v. cron_stop env now ob c = Some (d, v, \<not> (obj_exists env ob \<and> is_registered c ob)) \<and> cron_inv d \<and>
    (if obj_exists env ob \<and> is_registered c ob
     then \<exists>r. v = remaining now r \<and> registered c = add_mset (ob, r) (registered d) else v = 0 \<and> d = c)"
proof (cases "obj_exists env ob")
  case True
  then show ?thesis using cron_info_spec [OF assms True, of now True] by (auto simp: cron_stop_def split: if_splits)
qed (simp add: cron_stop_def assms)

section \<open>The states the system reaches\<close>

text \<open>
  The interface of the cron system as steps, at any round: what the other components of the game call.
  Every call starts in a state that the earlier calls left.
\<close>

inductive cron_step :: "cron_objects \<Rightarrow> cron \<Rightarrow> cron \<Rightarrow> bool" for env where
  step_expire: "cron_expire env now ob Delay c = Some (d, err) \<Longrightarrow> cron_step env c d"
| step_change: "cron_change env now ob NewDelay c = Some (d, err) \<Longrightarrow> cron_step env c d"
| step_info: "cron_info env now ob del c = Some (d, v, err) \<Longrightarrow> cron_step env c d"
| step_stop: "cron_stop env now ob c = Some (d, v, err) \<Longrightarrow> cron_step env c d"
| step_check: "cron_check now c = Some (d, ob) \<Longrightarrow> cron_step env c d"

inductive cron_reachable :: "cron_objects \<Rightarrow> CronEntry \<Rightarrow> cron \<Rightarrow> bool" for env fresh where
  reach_init: "cron_reachable env fresh (init_cron fresh)"
| reach_step: "cron_reachable env fresh c \<Longrightarrow> cron_step env c d \<Longrightarrow> cron_reachable env fresh d"

lemma cron_step_inv:
  assumes "cron_step env c d" "cron_inv c"
  shows "cron_inv d"
  using assms(1)
proof (cases rule: cron_step.cases)
  case (step_expire now ob Delay err)
  then show ?thesis using cron_expire_spec [OF assms(2), of env now ob Delay] by auto
next
  case (step_change now ob NewDelay err)
  then show ?thesis
    using cron_change_spec [OF assms(2), of env ob now NewDelay] assms(2)
    by (cases "obj_exists env ob") (auto simp: cron_change_def)
next
  case (step_info now ob del v err)
  then show ?thesis
    using cron_info_spec [OF assms(2), of env ob now del] assms(2)
    by (cases "obj_exists env ob") (auto simp: cron_info_def)
next
  case (step_stop now ob v err)
  then show ?thesis using cron_stop_spec [OF assms(2), of env now ob] by auto
next
  case (step_check now ob)
  then show ?thesis using cron_check_spec [OF assms(2), of now] assms(2) by auto
qed

lemma cron_reachable_inv: "cron_reachable env fresh c \<Longrightarrow> cron_inv c"
  by (induction rule: cron_reachable.induct) (auto intro: cron_step_inv init_cron_inv)

section \<open>Properties\<close>

text \<open>Objects for the witnesses: every object exists and expires after 20 rounds.\<close>

definition example_objects :: cron_objects where
  "example_objects = \<lparr>obj_exists = (\<lambda>ob. ob \<noteq> 0), flag_expire = (\<lambda>_. True), total_expire_time = (\<lambda>_. 20)\<rparr>"

abbreviation example_cron :: cron where
  "example_cron \<equiv> init_cron \<lparr>Obj = 0, Round = 0, Previous = 0, Next = 0\<rparr>"

text \<open>
  C1: Whatever calls of \<open>cron_expire\<close>, \<open>cron_change\<close>, \<open>cron_info\<close>, \<open>cron_stop\<close> and \<open>cron_check\<close> are made after
  the start, at any rounds and for any objects, the next call returns: no access leaves the arrays and
  no chain is walked forever. Afterwards the entries are in heap order and every one of them is on the
  chain of its object, linked both ways.
\<close>

theorem cron_never_stuck:
  assumes "cron_reachable env fresh c"
  shows "cron_inv c \<and> (\<exists>r. cron_expire env now ob Delay c = Some r) \<and> (\<exists>r. cron_change env now ob Delay c = Some r) \<and>
    (\<exists>r. cron_info env now ob del c = Some r) \<and> (\<exists>r. cron_stop env now ob c = Some r) \<and> (\<exists>r. cron_check now c = Some r)"
proof -
  have inv: "cron_inv c" by (rule cron_reachable_inv [OF assms])
  have "\<exists>r. cron_change env now ob Delay c = Some r"
    using cron_change_spec [OF inv, of env ob now Delay] by (cases "obj_exists env ob") (auto simp: cron_change_def)
  moreover have "\<exists>r. cron_info env now ob del c = Some r"
    using cron_info_spec [OF inv, of env ob now del] by (cases "obj_exists env ob") (auto simp: cron_info_def)
  ultimately show ?thesis
    using inv cron_expire_spec [OF inv, of env now ob Delay] cron_stop_spec [OF inv, of env now ob]
      cron_check_spec [OF inv, of now] by blast
qed

theorem cron_never_stuck_witness:
  "\<exists>c d. cron_expire example_objects 5 7 (- 1) example_cron = Some (c, False) \<and>
     cron_stop example_objects 6 7 c = Some d \<and> cron_inv c"
proof -
  obtain c where c: "cron_expire example_objects 5 7 (- 1) example_cron = Some (c, False)"
    using cron_expire_spec [OF init_cron_inv(1), of example_objects 5 7 "- 1"] by (auto simp: example_objects_def)
  have r: "cron_reachable example_objects \<lparr>Obj = 0, Round = 0, Previous = 0, Next = 0\<rparr> c"
    by (rule reach_step [OF reach_init step_expire [OF c]])
  show ?thesis using cron_never_stuck [OF r, of 6 7] c by blast
qed

text \<open>
  C32: \<open>cron_expire\<close> registers exactly the given object for the round that lies \<open>Delay\<close> rounds ahead (the
  expiry time of its type for -1), when it exists and its type expires; an object without the flag is
  left out, and only a missing object is an error. The other registrations stay.
\<close>

theorem cron_expire_registers:
  assumes "cron_inv c"
  shows "\<exists>d. cron_expire env now ob Delay c = Some (d, \<not> obj_exists env ob) \<and> cron_inv d \<and>
    registered d = (if obj_exists env ob \<and> flag_expire env ob
      then add_mset (ob, now + (if Delay = - 1 then total_expire_time env ob else word_of_int Delay)) (registered c)
      else registered c)"
  by (rule cron_expire_spec [OF assms])

theorem cron_expire_registers_witness:
  "\<exists>d. cron_expire example_objects 5 7 (- 1) example_cron = Some (d, False) \<and> registered d = {#(7, 25)#}"
  using cron_expire_registers [OF init_cron_inv(1), of example_objects 5 7 "- 1"]
  by (auto simp: example_objects_def init_cron_inv)

text \<open>
  C33: \<open>cron_check\<close> returns a registered object that is due, one with the earliest round of all, whenever
  one is due, and \<open>NONE\<close> otherwise; it changes nothing.
\<close>

theorem cron_check_earliest:
  assumes "cron_inv c"
  shows "\<exists>ob. cron_check now c = Some (c, ob) \<and>
    (if \<exists>x \<in># registered c. snd x \<le> now
     then \<exists>r. (ob, r) \<in># registered c \<and> r \<le> now \<and> (\<forall>x \<in># registered c. r \<le> snd x)
     else ob = 0)"
  by (rule cron_check_spec [OF assms])

theorem cron_check_earliest_witness:
  "\<exists>d. cron_expire example_objects 5 7 (- 1) example_cron = Some (d, False) \<and>
     cron_check 25 d = Some (d, 7) \<and> cron_check 24 d = Some (d, 0)"
proof -
  obtain d where d: "cron_expire example_objects 5 7 (- 1) example_cron = Some (d, False)" "cron_inv d"
      "registered d = {#(7, 25)#}"
    using cron_expire_spec [OF init_cron_inv(1), of example_objects 5 7 "- 1"]
    by (auto simp: example_objects_def init_cron_inv)
  show ?thesis using cron_check_earliest [OF d(2), of 25] cron_check_earliest [OF d(2), of 24] d(1,3) by auto
qed

text \<open>
  \<open>cron_stop\<close> finds the object when it is registered, takes exactly one registration of it out, and
  returns the rounds that were left (1 for an object that is already due); for an object that is not
  registered it reports an error, returns 0 and changes nothing.
\<close>

theorem cron_stop_unregisters:
  assumes "cron_inv c"
  shows "\<exists>d v. cron_stop env now ob c = Some (d, v, \<not> (obj_exists env ob \<and> is_registered c ob)) \<and> cron_inv d \<and>
    (if obj_exists env ob \<and> is_registered c ob
     then \<exists>r. v = remaining now r \<and> registered c = add_mset (ob, r) (registered d) else v = 0 \<and> d = c)"
  by (rule cron_stop_spec [OF assms])

theorem cron_stop_unregisters_witness:
  "\<exists>c d. cron_expire example_objects 5 7 (- 1) example_cron = Some (c, False) \<and>
     cron_stop example_objects 10 7 c = Some (d, 15, False) \<and> registered d = {#}"
proof -
  obtain c where c: "cron_expire example_objects 5 7 (- 1) example_cron = Some (c, False)" "cron_inv c"
      "registered c = {#(7, 25)#}"
    using cron_expire_spec [OF init_cron_inv(1), of example_objects 5 7 "- 1"]
    by (auto simp: example_objects_def init_cron_inv)
  have "obj_exists example_objects 7 \<and> is_registered c 7" using c(3) by (simp add: example_objects_def is_registered_def)
  then show ?thesis using cron_stop_unregisters [OF c(2), of example_objects 10 7] c by (auto simp: remaining_def)
qed

text \<open>
  \<open>cron_change\<close> moves one registration of the object to the round \<open>NewDelay\<close> rounds ahead and leaves
  the others; for an object that is not registered it reports an error and changes nothing.
\<close>

theorem cron_change_reschedules:
  assumes "cron_inv c" "obj_exists env ob"
  shows "\<exists>d. cron_change env now ob NewDelay c = Some (d, \<not> is_registered c ob) \<and> cron_inv d \<and>
    (if is_registered c ob
     then \<exists>r rest. registered c = add_mset (ob, r) rest \<and> registered d = add_mset (ob, now + word_of_int NewDelay) rest
     else d = c)"
  by (rule cron_change_spec [OF assms])

theorem cron_change_reschedules_witness:
  "\<exists>c d. cron_expire example_objects 5 7 (- 1) example_cron = Some (c, False) \<and>
     cron_change example_objects 10 7 3 c = Some (d, False) \<and> registered d = {#(7, 13)#}"
proof -
  obtain c where c: "cron_expire example_objects 5 7 (- 1) example_cron = Some (c, False)" "cron_inv c"
      "registered c = {#(7, 25)#}"
    using cron_expire_spec [OF init_cron_inv(1), of example_objects 5 7 "- 1"]
    by (auto simp: example_objects_def init_cron_inv)
  have "is_registered c 7" using c(3) by (simp add: is_registered_def)
  moreover have "obj_exists example_objects 7" by (simp add: example_objects_def)
  ultimately show ?thesis using cron_change_reschedules [OF c(2), of example_objects 7 10 3] c by auto
qed

end
