(* ===== verification/String_Table.thy ===== *)
theory String_Table
  imports Prelude
begin

text \<open>
  The string tables of \<open>common/strings/strings.cpp\<close>: static strings that are never released, and
  dynamic strings with numbers, which the game stores instead of pointers (names, messages, texts).

  A table is the list of its blocks in the order of the linked list that holds them. A text array is the
  list of its characters; \<open>None\<close> is a read or a write outside of it, or a failed \<open>ASSERT\<close>.
\<close>

section \<open>Text arrays\<close>

text \<open>The string that starts at an offset, up to the terminator or the end of the array.\<close>

definition cstr_at :: "int list \<Rightarrow> nat \<Rightarrow> cstring" where
  "cstr_at t off = takeWhile (\<lambda>c. c \<noteq> 0) (drop off t)"

lemma cstr_at_frame:
  assumes "off + length (cstr_at t off) < k" "k \<le> length t" "take k u = take k t"
  shows "cstr_at u off = cstr_at t off"
proof -
  let ?s = "cstr_at t off" and ?n = "off + length (cstr_at t off)"
  have n: "?n < length t" using assms by simp
  have "length ?s < length (drop off t)" using n by simp
  then have zero: "t ! ?n = 0"
    using nth_length_takeWhile [of "\<lambda>c. c \<noteq> 0" "drop off t"] n by (simp add: cstr_at_def)
  have same: "u ! i = t ! i" if "i < k" for i
    using assms(3) that nth_take [of i k u] nth_take [of i k t] by simp
  have lu: "k \<le> length u" using assms(2,3) by (metis length_take min.absorb_iff2 min_def)
  have "take (length ?s) (drop off u) = take (length ?s) (drop off t)"
  proof (rule nth_equalityI)
    show "length (take (length ?s) (drop off u)) = length (take (length ?s) (drop off t))"
      using lu assms(1,2) by simp
    fix i assume "i < length (take (length ?s) (drop off u))"
    then have "i < length ?s" by simp
    then show "take (length ?s) (drop off u) ! i = take (length ?s) (drop off t) ! i"
      using same [of "off + i"] lu assms(1,2) by simp
  qed
  also have "\<dots> = ?s" unfolding cstr_at_def by (metis takeWhile_eq_take)
  finally have seg: "take (length ?s) (drop off u) = ?s" .
  have "drop off u = ?s @ drop ?n u"
    using seg append_take_drop_id [of "length ?s" "drop off u"] by (simp add: add.commute)
  moreover have "drop ?n u = 0 # drop (Suc ?n) u"
    using same [OF assms(1)] zero Cons_nth_drop_Suc [of ?n u] lu assms(1) by simp
  moreover have "\<forall>c \<in> set ?s. c \<noteq> 0" by (auto simp: cstr_at_def dest: set_takeWhileD)
  ultimately have "takeWhile (\<lambda>c. c \<noteq> 0) (drop off u) = ?s" by (simp add: takeWhile_append)
  then show ?thesis by (simp add: cstr_at_def [of u])
qed

lemma cstr_at_copy:
  assumes "is_cstring s" "off + length s < length t"
  shows "cstr_at (arr_copy t off (s @ [0])) off = s"
proof -
  have "drop off (arr_copy t off (s @ [0])) = s @ 0 # drop (off + length s + 1) t"
    using assms(2) by (simp add: arr_copy_def min_def)
  then show ?thesis using is_cstring_not_0 [OF assms(1)] by (simp add: cstr_at_def takeWhile_append)
qed

section \<open>Static strings\<close>

record TStaticStringTableBlock =
  TotalTextLength :: int
  Text :: "int list"

abbreviation StaticBlockSize :: int where
  "StaticBlockSize \<equiv> 65536"

text \<open>
  A returned pointer: NULL, the literal \<open>""\<close>, or an offset in the text of a block.
\<close>

datatype static_ptr = NULL | Empty_Literal | Static nat nat

definition new_static_block :: TStaticStringTableBlock where
  "new_static_block = \<lparr>TotalTextLength = 0, Text = replicate (nat StaticBlockSize) 0\<rparr>"

text \<open>The walk to the first block with room, from the block number \<open>i\<close>; it appends one at the end.\<close>

fun find_static_block :: "int \<Rightarrow> TStaticStringTableBlock list \<Rightarrow> nat \<Rightarrow> TStaticStringTableBlock list \<times> nat" where
  "find_static_block StringLen [] i = ([new_static_block], i)"
| "find_static_block StringLen (b # bs) i =
     (if TotalTextLength b + StringLen + 1 \<le> StaticBlockSize then (b # bs, i)
      else case find_static_block StringLen bs (i + 1) of (bs, k) \<Rightarrow> (b # bs, k))"

definition AddStaticString :: "cstring \<Rightarrow> TStaticStringTableBlock list \<Rightarrow> (TStaticStringTableBlock list \<times> static_ptr) option" where
  "AddStaticString String bs =
     (let StringLen = int (length String)
      in if StringLen + 1 > StaticBlockSize then Some (bs, NULL)
         else if StringLen = 0 then Some (bs, Empty_Literal)
         else case find_static_block StringLen bs 0 of
                (bs, k) \<Rightarrow>
                  let b = bs ! k; off = nat (TotalTextLength b)
                  in if TotalTextLength b < 0 \<or> off + length (String @ [0]) > length (Text b) then None
                     else Some (bs[k := b\<lparr>Text := arr_copy (Text b) off (String @ [0]),
                                          TotalTextLength := TotalTextLength b + StringLen + 1\<rparr>], Static k off))"

text \<open>The string a pointer stands for.\<close>

definition static_string :: "TStaticStringTableBlock list \<Rightarrow> static_ptr \<Rightarrow> cstring option" where
  "static_string bs p =
     (case p of
        NULL \<Rightarrow> None
      | Empty_Literal \<Rightarrow> Some []
      | Static k off \<Rightarrow> if k < length bs then Some (cstr_at (Text (bs ! k)) off) else None)"

text \<open>Every block has its size, and the text in use ends with a terminator.\<close>

definition static_block_ok :: "TStaticStringTableBlock \<Rightarrow> bool" where
  "static_block_ok b \<longleftrightarrow> 0 \<le> TotalTextLength b \<and> TotalTextLength b \<le> StaticBlockSize \<and>
     length (Text b) = nat StaticBlockSize"

definition static_ok :: "TStaticStringTableBlock list \<Rightarrow> bool" where
  "static_ok bs \<longleftrightarrow> list_all static_block_ok bs"

text \<open>A pointer to a string in use.\<close>

definition static_live :: "TStaticStringTableBlock list \<Rightarrow> static_ptr \<Rightarrow> bool" where
  "static_live bs p =
     (case p of
        NULL \<Rightarrow> False
      | Empty_Literal \<Rightarrow> True
      | Static k off \<Rightarrow> k < length bs \<and> off + length (cstr_at (Text (bs ! k)) off) < nat (TotalTextLength (bs ! k)))"

lemma find_static_block_spec:
  assumes "static_ok bs" "find_static_block n bs i = (cs, k)" "1 \<le> n" "n + 1 \<le> StaticBlockSize"
  shows "static_ok cs \<and> i \<le> k \<and> k - i < length cs \<and> length bs \<le> length cs \<and> (\<forall>j < length bs. cs ! j = bs ! j) \<and>
    TotalTextLength (cs ! (k - i)) + n + 1 \<le> StaticBlockSize"
  using assms
proof (induction bs arbitrary: i cs k)
  case Nil
  then show ?case by (auto simp: static_ok_def static_block_ok_def new_static_block_def)
next
  case (Cons b bs)
  show ?case
  proof (cases "TotalTextLength b + n + 1 \<le> StaticBlockSize")
    case True
    then show ?thesis using Cons.prems by auto
  next
    case False
    obtain ds l where ds: "find_static_block n bs (i + 1) = (ds, l)" by fastforce
    have ok: "static_ok bs" using Cons.prems(1) by (simp add: static_ok_def)
    have cs: "cs = b # ds" "k = l" using Cons.prems(2) False ds by auto
    have IH: "static_ok ds \<and> i + 1 \<le> l \<and> l - (i + 1) < length ds \<and> length bs \<le> length ds \<and>
        (\<forall>j < length bs. ds ! j = bs ! j) \<and> TotalTextLength (ds ! (l - (i + 1))) + n + 1 \<le> StaticBlockSize"
      by (rule Cons.IH [OF ok ds Cons.prems(3,4)])
    then have "i + 1 \<le> l" by blast
    then have "l - i = Suc (l - (i + 1))" by simp
    then show ?thesis
      using IH cs Cons.prems(1) by (auto simp: static_ok_def nth_Cons split: nat.splits)
  qed
qed

lemma AddStaticString_spec:
  assumes ok: "static_ok bs" and s: "is_cstring s" "0 < length s" "int (length s) + 1 \<le> StaticBlockSize"
  shows "\<exists>cs p. AddStaticString s bs = Some (cs, p) \<and> static_ok cs \<and> static_live cs p \<and> static_string cs p = Some s \<and>
    (\<forall>q. static_live bs q \<longrightarrow> static_live cs q \<and> static_string cs q = static_string bs q)"
proof -
  obtain cs k where cs: "find_static_block (int (length s)) bs 0 = (cs, k)" by fastforce
  have "1 \<le> int (length s)" using s(2) by linarith
  from find_static_block_spec [OF ok cs this s(3)]
  have c: "static_ok cs" "k < length cs" "length bs \<le> length cs" "\<forall>j < length bs. cs ! j = bs ! j"
    and room: "TotalTextLength (cs ! k) + int (length s) + 1 \<le> StaticBlockSize"
    by auto
  let ?b = "cs ! k" and ?off = "nat (TotalTextLength (cs ! k))"
  have b: "static_block_ok ?b" using c(1,2) by (simp add: static_ok_def list_all_length)
  have off: "?off + length s < length (Text ?b)" using b room by (auto simp: static_block_ok_def)
  define b' where "b' = ?b\<lparr>Text := arr_copy (Text ?b) ?off (s @ [0]), TotalTextLength := TotalTextLength ?b + int (length s) + 1\<rparr>"
  have add: "AddStaticString s bs = Some (cs[k := b'], Static k ?off)"
    using s(2,3) cs b off by (auto simp: AddStaticString_def Let_def b'_def static_block_ok_def)
  have b'_ok: "static_block_ok b'" using b room off by (auto simp: static_block_ok_def b'_def)
  have "static_ok (cs[k := b'])" using c(1,2) b'_ok by (auto simp: static_ok_def list_all_length nth_list_update)
  moreover have str: "cstr_at (Text b') ?off = s" using cstr_at_copy [OF s(1) off] by (simp add: b'_def)
  then have "static_live (cs[k := b']) (Static k ?off)" "static_string (cs[k := b']) (Static k ?off) = Some s"
    using c(2) b by (auto simp: static_live_def static_string_def b'_def static_block_ok_def)
  moreover have "static_live (cs[k := b']) q \<and> static_string (cs[k := b']) q = static_string bs q" if "static_live bs q" for q
  proof (cases q)
    case (Static j o1)
    have j: "j < length bs" and len: "o1 + length (cstr_at (Text (bs ! j)) o1) < nat (TotalTextLength (bs ! j))"
      using that Static by (auto simp: static_live_def)
    have same: "cs ! j = bs ! j" "j < length cs" using c j by auto
    show ?thesis
    proof (cases "j = k")
      case True
      have "take ?off (Text b') = take ?off (Text ?b)" using off by (simp add: b'_def take_arr_copy_before)
      then have "cstr_at (Text b') o1 = cstr_at (Text ?b) o1"
        using len same True off by (intro cstr_at_frame [of _ _ ?off]) auto
      then show ?thesis using Static j len same True b by (auto simp: static_live_def static_string_def b'_def static_block_ok_def)
    next
      case False
      then show ?thesis using Static j len same by (auto simp: static_live_def static_string_def)
    qed
  qed (use that in \<open>auto simp: static_live_def static_string_def\<close>)
  ultimately show ?thesis using add by blast
qed

section \<open>Dynamic strings\<close>

record TDynamicStringTableBlock =
  FreeEntries :: int
  TextLength :: int
  Dirty :: bool
  EntryType :: "u8 list"
  StringOffset :: "u16 list"
  DText :: "int list"

abbreviation DynamicBlockSize :: int where
  "DynamicBlockSize \<equiv> 32768"

abbreviation DynamicBlockEntries :: int where
  "DynamicBlockEntries \<equiv> 256"

abbreviation DYNAMIC_STRING_FREE :: u8 where
  "DYNAMIC_STRING_FREE \<equiv> 0"

abbreviation DYNAMIC_STRING_ALLOCATED :: u8 where
  "DYNAMIC_STRING_ALLOCATED \<equiv> 1"

abbreviation DYNAMIC_STRING_DELETED :: u8 where
  "DYNAMIC_STRING_DELETED \<equiv> 2"

type_synonym dtable = "TDynamicStringTableBlock list"

definition new_dynamic_block :: TDynamicStringTableBlock where
  "new_dynamic_block = \<lparr>FreeEntries = DynamicBlockEntries, TextLength = 0, Dirty = False,
     EntryType = replicate (nat DynamicBlockEntries) 0, StringOffset = replicate (nat DynamicBlockEntries) 0,
     DText = replicate (nat DynamicBlockSize) 0\<rparr>"

fun find_dynamic_block :: "int \<Rightarrow> dtable \<Rightarrow> nat \<Rightarrow> dtable \<times> nat" where
  "find_dynamic_block StringLen [] i = ([new_dynamic_block], i)"
| "find_dynamic_block StringLen (b # bs) i =
     (if FreeEntries b > 0 \<and> TextLength b + StringLen + 1 \<le> DynamicBlockSize then (b # bs, i)
      else case find_dynamic_block StringLen bs (i + 1) of (bs, k) \<Rightarrow> (b # bs, k))"

text \<open>The search for a free entry of a block: the first one, or -1.\<close>

definition find_free_entry :: "TDynamicStringTableBlock \<Rightarrow> int" where
  "find_free_entry b =
     (case List.find (\<lambda>i. EntryType b ! i = DYNAMIC_STRING_FREE) [0..<nat DynamicBlockEntries] of
        None \<Rightarrow> - 1 | Some i \<Rightarrow> int i)"

text \<open>
  The result has the table, the number, and whether an error message was written. A missing string is
  the NULL pointer.
\<close>

definition AddDynamicString :: "cstring option \<Rightarrow> dtable \<Rightarrow> (dtable \<times> u32 \<times> bool) option" where
  "AddDynamicString String bs =
     (let S = (case String of None \<Rightarrow> [] | Some s \<Rightarrow> s);
          StringLen = int (length S)
      in if StringLen = 0 then Some (bs, 0, False)
         else if StringLen + 1 > DynamicBlockSize then Some (bs, 0, True)
         else case find_dynamic_block StringLen bs 0 of
           (bs, BlockIndex) \<Rightarrow>
             let b = bs ! BlockIndex; EntryIndex = find_free_entry b
             in if EntryIndex = - 1 then Some (bs, 0, True)
                else let Offset = TextLength b
                     in if Offset < 0 \<or> nat Offset + length (S @ [0]) > length (DText b) then None
                        else Some (bs[BlockIndex := b\<lparr>FreeEntries := FreeEntries b - 1,
                                     TextLength := TextLength b + StringLen + 1,
                                     EntryType := (EntryType b)[nat EntryIndex := DYNAMIC_STRING_ALLOCATED],
                                     StringOffset := (StringOffset b)[nat EntryIndex := word_of_int Offset],
                                     DText := arr_copy (DText b) (nat Offset) (S @ [0])\<rparr>],
                                   word_of_int (1 + int BlockIndex * DynamicBlockEntries + EntryIndex), False))"

text \<open>
  The position of a number, as signed division gives it: the block and the entry. The walk along the
  blocks does not move for a negative block index; a negative entry index leaves the array.
\<close>

definition block_index :: "u32 \<Rightarrow> int" where
  "block_index Number = sint (Number - 1) sdiv DynamicBlockEntries"

definition entry_index :: "u32 \<Rightarrow> int" where
  "entry_index Number = sint (Number - 1) smod DynamicBlockEntries"

definition find_block :: "dtable \<Rightarrow> int \<Rightarrow> nat option" where
  "find_block bs BlockIndex = (if nat BlockIndex < length bs then Some (nat BlockIndex) else None)"

text \<open>The returned string is \<open>None\<close> for NULL.\<close>

definition GetDynamicString :: "u32 \<Rightarrow> dtable \<Rightarrow> (cstring option \<times> bool) option" where
  "GetDynamicString Number bs =
     (if Number = 0 then Some (None, False)
      else case find_block bs (block_index Number) of
             None \<Rightarrow> Some (None, True)
           | Some k \<Rightarrow>
               do { ty \<leftarrow> arr_get (EntryType (bs ! k)) (entry_index Number);
                    if ty \<noteq> DYNAMIC_STRING_ALLOCATED then Some (None, True)
                    else do { off \<leftarrow> arr_get (StringOffset (bs ! k)) (entry_index Number);
                              Some (Some (cstr_at (DText (bs ! k)) (unat off)), False) } })"

definition DeleteDynamicString :: "u32 \<Rightarrow> dtable \<Rightarrow> (dtable \<times> bool) option" where
  "DeleteDynamicString Number bs =
     (if Number = 0 then Some (bs, False)
      else case find_block bs (block_index Number) of
             None \<Rightarrow> Some (bs, True)
           | Some k \<Rightarrow>
               do { ty \<leftarrow> arr_get (EntryType (bs ! k)) (entry_index Number);
                    if ty \<noteq> DYNAMIC_STRING_ALLOCATED then Some (bs, True)
                    else do { tys \<leftarrow> arr_set (EntryType (bs ! k)) (entry_index Number) DYNAMIC_STRING_DELETED;
                              Some (bs[k := (bs ! k)\<lparr>EntryType := tys, Dirty := True\<rparr>], False) } })"

text \<open>
  The removal of the text of one deleted entry. \<open>strlen\<close> leaves the array when the terminator is
  missing.
\<close>

definition cleanup_entry :: "TDynamicStringTableBlock \<Rightarrow> nat \<Rightarrow> TDynamicStringTableBlock option" where
  "cleanup_entry b i =
     (if EntryType b ! i = DYNAMIC_STRING_DELETED
      then let Offset = unat (StringOffset b ! i);
               Size = length (cstr_at (DText b) Offset) + 1;
               End = Offset + Size;
               tys = (EntryType b)[i := DYNAMIC_STRING_FREE]
           in if End > length (DText b) then None
              else let txt = arr_copy (DText b) Offset (drop End (DText b));
                       later = (\<lambda>j. tys ! j \<noteq> DYNAMIC_STRING_FREE \<and> unat (StringOffset b ! j) > Offset)
                   in if \<forall>j < nat DynamicBlockEntries. later j \<longrightarrow> unat (StringOffset b ! j) \<ge> End
                      then Some (b\<lparr>EntryType := tys, DText := txt,
                             StringOffset := map (\<lambda>j. if later j then StringOffset b ! j - of_nat Size
                                                       else StringOffset b ! j) [0..<nat DynamicBlockEntries]\<rparr>)
                      else None
      else Some b)"

fun cleanup_entries :: "nat list \<Rightarrow> TDynamicStringTableBlock \<Rightarrow> TDynamicStringTableBlock option" where
  "cleanup_entries [] b = Some b"
| "cleanup_entries (i # is) b = Option.bind (cleanup_entry b i) (cleanup_entries is)"

fun CleanupDynamicStrings :: "dtable \<Rightarrow> dtable option" where
  "CleanupDynamicStrings [] = Some []"
| "CleanupDynamicStrings (b # bs) =
     do { b \<leftarrow> (if Dirty b then cleanup_entries [0..<nat DynamicBlockEntries] b else Some b);
          bs \<leftarrow> CleanupDynamicStrings bs;
          Some (b # bs) }"

section \<open>The invariant of a block\<close>

definition soff :: "TDynamicStringTableBlock \<Rightarrow> nat \<Rightarrow> nat" where
  "soff b i = unat (StringOffset b ! i)"

definition sstr :: "TDynamicStringTableBlock \<Rightarrow> nat \<Rightarrow> cstring" where
  "sstr b i = cstr_at (DText b) (soff b i)"

text \<open>The position of the terminator of the string of an entry.\<close>

definition send :: "TDynamicStringTableBlock \<Rightarrow> nat \<Rightarrow> nat" where
  "send b i = soff b i + length (sstr b i)"

definition live :: "TDynamicStringTableBlock \<Rightarrow> nat \<Rightarrow> bool" where
  "live b i \<longleftrightarrow> i < 256 \<and> EntryType b ! i \<noteq> DYNAMIC_STRING_FREE"

text \<open>
  Every entry that is not free has its own stretch of the text in use, and the entries counted as free
  are free.
\<close>

definition block_ok :: "TDynamicStringTableBlock \<Rightarrow> bool" where
  "block_ok b \<longleftrightarrow> length (EntryType b) = 256 \<and> length (StringOffset b) = 256 \<and> length (DText b) = 32768 \<and>
     0 \<le> TextLength b \<and> TextLength b \<le> DynamicBlockSize \<and>
     FreeEntries b \<le> int (card {i. i < 256 \<and> EntryType b ! i = DYNAMIC_STRING_FREE}) \<and>
     (\<forall>i. live b i \<longrightarrow> send b i < nat (TextLength b)) \<and>
     (\<forall>i j. live b i \<longrightarrow> live b j \<longrightarrow> i \<noteq> j \<longrightarrow> send b i < soff b j \<or> send b j < soff b i)"

definition table_ok :: "dtable \<Rightarrow> bool" where
  "table_ok bs \<longleftrightarrow> list_all block_ok bs \<and> length bs < 2 ^ 20"

text \<open>The abstract table: the strings by position and by number.\<close>

definition entry_string :: "dtable \<Rightarrow> nat \<Rightarrow> nat \<Rightarrow> cstring option" where
  "entry_string bs k i =
     (if k < length bs \<and> i < 256 \<and> EntryType (bs ! k) ! i = DYNAMIC_STRING_ALLOCATED
      then Some (sstr (bs ! k) i) else None)"

definition string_of :: "dtable \<Rightarrow> u32 \<Rightarrow> cstring option" where
  "string_of bs Number =
     (if Number = 0 then None else entry_string bs (unat (Number - 1) div 256) (unat (Number - 1) mod 256))"

lemma block_okD:
  assumes "block_ok b"
  shows "length (EntryType b) = 256" "length (StringOffset b) = 256" "length (DText b) = 32768"
    "0 \<le> TextLength b" "TextLength b \<le> DynamicBlockSize"
    "live b i \<Longrightarrow> send b i < nat (TextLength b)" "live b i \<Longrightarrow> send b i < 32768"
    "live b i \<Longrightarrow> live b j \<Longrightarrow> i \<noteq> j \<Longrightarrow> send b i < soff b j \<or> send b j < soff b i"
  using assms by (auto simp: block_ok_def)

lemma new_dynamic_block_ok: "block_ok new_dynamic_block"
proof -
  have "{i. i < 256 \<and> replicate 256 (0 :: u8) ! i = 0} = {..<256}" by auto
  then show ?thesis by (auto simp: block_ok_def new_dynamic_block_def live_def)
qed

section \<open>Adding a string\<close>

lemma find_dynamic_block_spec:
  assumes "list_all block_ok bs" "find_dynamic_block n bs i = (cs, k)" "1 \<le> n" "n + 1 \<le> DynamicBlockSize"
  shows "list_all block_ok cs \<and> i \<le> k \<and> k - i < length cs \<and> length bs \<le> length cs \<and> length cs \<le> length bs + 1 \<and>
    (\<forall>j < length bs. cs ! j = bs ! j) \<and> (\<forall>j < length cs. length bs \<le> j \<longrightarrow> cs ! j = new_dynamic_block) \<and>
    FreeEntries (cs ! (k - i)) > 0 \<and> TextLength (cs ! (k - i)) + n + 1 \<le> DynamicBlockSize"
  using assms
proof (induction bs arbitrary: i cs k)
  case Nil
  then show ?case by (auto simp: new_dynamic_block_ok) (auto simp: new_dynamic_block_def)
next
  case (Cons b bs)
  show ?case
  proof (cases "FreeEntries b > 0 \<and> TextLength b + n + 1 \<le> DynamicBlockSize")
    case True
    then show ?thesis using Cons.prems by auto
  next
    case False
    obtain ds l where ds: "find_dynamic_block n bs (i + 1) = (ds, l)" by fastforce
    have ok: "list_all block_ok bs" using Cons.prems(1) by simp
    have cs: "cs = b # ds" "k = l" using Cons.prems(2) False ds by auto
    note IH = Cons.IH [OF ok ds Cons.prems(3,4)]
    then have "i + 1 \<le> l" by blast
    then have "l - i = Suc (l - (i + 1))" by simp
    then show ?thesis using IH cs Cons.prems(1) by (auto simp: nth_Cons split: nat.splits)
  qed
qed

lemma find_free_entry_spec:
  assumes "block_ok b" "FreeEntries b > 0"
  obtains e where "find_free_entry b = int e" "e < 256" "EntryType b ! e = DYNAMIC_STRING_FREE"
proof -
  let ?A = "{i. i < 256 \<and> EntryType b ! i = DYNAMIC_STRING_FREE}"
  have "0 < card ?A" using assms by (simp add: block_ok_def)
  then obtain i where i: "i < 256" "EntryType b ! i = DYNAMIC_STRING_FREE" by (metis (mono_tags) card_gt_0_iff ex_in_conv mem_Collect_eq)
  let ?f = "List.find (\<lambda>i. EntryType b ! i = DYNAMIC_STRING_FREE) [0..<256]"
  obtain e where e: "?f = Some e"
  proof (cases ?f)
    case None
    then show ?thesis using i by (auto simp: find_None_iff)
  qed auto
  then have "e < 256 \<and> EntryType b ! e = DYNAMIC_STRING_FREE" by (auto simp: find_Some_iff)
  then show ?thesis using e that by (simp add: find_free_entry_def)
qed

text \<open>One string in one block.\<close>

lemma block_add:
  assumes ok: "block_ok b" and free: "FreeEntries b > 0" and e: "e < 256" "EntryType b ! e = DYNAMIC_STRING_FREE"
    and s: "is_cstring s" and room: "TextLength b + int (length s) + 1 \<le> DynamicBlockSize"
    and b': "b' = b\<lparr>FreeEntries := FreeEntries b - 1, TextLength := TextLength b + int (length s) + 1,
       EntryType := (EntryType b)[e := DYNAMIC_STRING_ALLOCATED],
       StringOffset := (StringOffset b)[e := word_of_int (TextLength b)],
       DText := arr_copy (DText b) (nat (TextLength b)) (s @ [0])\<rparr>"
  shows "block_ok b'" "sstr b' e = s" "\<And>i. live b i \<Longrightarrow> sstr b' i = sstr b i"
proof -
  note D = block_okD [OF ok]
  let ?off = "nat (TextLength b)"
  have off: "?off + length s < length (DText b)" using D(3-5) room by auto
  have soff_e: "soff b' e = ?off"
    using e D(2,4) room by (simp add: soff_def b' unat_eq_nat_uint uint_word_of_int take_bit_int_eq_self)
  have str_e: "sstr b' e = s" using cstr_at_copy [OF s off] soff_e by (simp add: sstr_def b')
  have ne: "i \<noteq> e" if "live b i" for i using that e by (auto simp: live_def)
  have soff_i: "soff b' i = soff b i" if "live b i" for i using ne [OF that] by (simp add: soff_def b')
  have str_i: "sstr b' i = sstr b i" if "live b i" for i
  proof -
    have "take ?off (DText b') = take ?off (DText b)" using off by (simp add: b' take_arr_copy_before)
    then show ?thesis
      using D(6) [OF that] soff_i [OF that] off cstr_at_frame [of "soff b i" "DText b" ?off "DText b'"]
      by (simp add: sstr_def send_def)
  qed
  have live': "live b' i \<longleftrightarrow> live b i \<or> i = e" for i
    using e D(1) by (auto simp: live_def b' nth_list_update)
  have send_i: "send b' i = send b i" if "live b i" for i using soff_i [OF that] str_i [OF that] by (simp add: send_def)
  have send_e: "send b' e = ?off + length s" using soff_e str_e by (simp add: send_def)
  have card: "FreeEntries b' \<le> int (card {i. i < 256 \<and> EntryType b' ! i = DYNAMIC_STRING_FREE})"
  proof -
    let ?A = "{i. i < 256 \<and> EntryType b ! i = DYNAMIC_STRING_FREE}"
    have "{i. i < 256 \<and> EntryType b' ! i = DYNAMIC_STRING_FREE} = ?A - {e}"
      using e D(1) by (auto simp: b' nth_list_update split: if_splits)
    moreover have "card (?A - {e}) = card ?A - 1" "0 < card ?A" using e by (auto simp: card_gt_0_iff)
    ultimately show ?thesis using ok by (auto simp: b' block_ok_def)
  qed
  have tl': "nat (TextLength b') = ?off + length s + 1" using D(4) by (simp add: b')
  show "block_ok b'"
    unfolding block_ok_def
  proof (intro conjI allI impI)
    fix i assume "live b' i"
    then show "send b' i < nat (TextLength b')"
      using live' send_i send_e tl' D(6) [of i] by (cases "i = e") auto
  next
    fix i j assume "live b' i" "live b' j" "i \<noteq> j"
    then consider "live b i" "live b j" | "live b i" "j = e" | "i = e" "live b j" using live' by blast
    then show "send b' i < soff b' j \<or> send b' j < soff b' i"
    proof cases
      case 1
      then show ?thesis using D(8) [OF 1 \<open>i \<noteq> j\<close>] send_i soff_i by simp
    next
      case 2
      then show ?thesis using D(6) [OF 2(1)] send_i soff_e by simp
    next
      case 3
      then show ?thesis using D(6) [OF 3(2)] send_i soff_e by simp
    qed
  qed (use D off room card in \<open>auto simp: b'\<close>)
  show "sstr b' e = s" "\<And>i. live b i \<Longrightarrow> sstr b' i = sstr b i" by (rule str_e, rule str_i)
qed

text \<open>The number of a position, and back.\<close>

lemma number_position:
  fixes N :: u32
  assumes "k < 2 ^ 20" "e < 256" "N = word_of_int (1 + int k * 256 + int e)"
  shows "N \<noteq> 0" "unat (N - 1) div 256 = k" "unat (N - 1) mod 256 = e"
proof -
  have b: "k * 256 + e < 2 ^ 28" using assms(1,2) by simp
  have N: "N = of_nat (1 + k * 256 + e)" using assms(3) by simp
  have N1: "N - 1 = of_nat (k * 256 + e)" by (simp add: N)
  have "unat (N - 1) = k * 256 + e" unfolding N1 by (rule unat_of_nat_id) (use b in simp)
  then show "unat (N - 1) div 256 = k" "unat (N - 1) mod 256 = e" using assms(2) by simp_all
  have "unat N = 1 + k * 256 + e" unfolding N by (rule unat_of_nat_id) (use b in simp)
  then show "N \<noteq> 0" by auto
qed

lemma AddDynamicString_spec:
  assumes ok: "table_ok bs" and len: "length bs + 1 < 2 ^ 20" and s: "is_cstring s" "s \<noteq> []" "length s < 32768"
  shows "\<exists>cs N. AddDynamicString (Some s) bs = Some (cs, N, False) \<and> table_ok cs \<and> N \<noteq> 0 \<and>
    string_of bs N = None \<and> string_of cs N = Some s \<and> (\<forall>M. M \<noteq> N \<longrightarrow> string_of cs M = string_of bs M)"
proof -
  obtain cs k where cs: "find_dynamic_block (int (length s)) bs 0 = (cs, k)" by fastforce
  have n: "1 \<le> int (length s)" "int (length s) + 1 \<le> DynamicBlockSize" using s(2,3) by (auto simp: Suc_le_eq)
  have bs: "list_all block_ok bs" using ok by (simp add: table_ok_def)
  have c: "list_all block_ok cs" "k < length cs" "length bs \<le> length cs" "length cs \<le> length bs + 1"
      "\<forall>j < length bs. cs ! j = bs ! j" "\<forall>j < length cs. length bs \<le> j \<longrightarrow> cs ! j = new_dynamic_block"
    and room: "FreeEntries (cs ! k) > 0" "TextLength (cs ! k) + int (length s) + 1 \<le> DynamicBlockSize"
    using find_dynamic_block_spec [OF bs cs n] by auto
  let ?b = "cs ! k"
  have b: "block_ok ?b" using c(1,2) by (simp add: list_all_length)
  obtain e where e: "find_free_entry ?b = int e" "e < 256" "EntryType ?b ! e = DYNAMIC_STRING_FREE"
    by (rule find_free_entry_spec [OF b room(1)])
  define b' where "b' = ?b\<lparr>FreeEntries := FreeEntries ?b - 1, TextLength := TextLength ?b + int (length s) + 1,
       EntryType := (EntryType ?b)[e := DYNAMIC_STRING_ALLOCATED],
       StringOffset := (StringOffset ?b)[e := word_of_int (TextLength ?b)],
       DText := arr_copy (DText ?b) (nat (TextLength ?b)) (s @ [0])\<rparr>"
  note add = block_add [OF b room(1) e(2,3) s(1) room(2) b'_def]
  define N :: u32 where "N = word_of_int (1 + int k * 256 + int e)"
  have k20: "k < 2 ^ 20" using c(2,4) len by simp
  note pos = number_position [OF k20 e(2) N_def]
  have off: "\<not> (TextLength ?b < 0 \<or> nat (TextLength ?b) + length (s @ [0]) > length (DText ?b))"
    using block_okD(3-5) [OF b] room(2) by auto
  have run: "AddDynamicString (Some s) bs = Some (cs[k := b'], N, False)"
    using s(2) n(2) cs e(1) off by (simp add: AddDynamicString_def Let_def b'_def N_def)
  have table: "table_ok (cs[k := b'])"
    using c len add(1) by (auto simp: table_ok_def list_all_length nth_list_update)
  have es: "entry_string (cs[k := b']) j i = (if j = k \<and> i = e then Some s else entry_string bs j i)" for j i
  proof (cases "j = k")
    case True
    show ?thesis
    proof (cases "k < length bs")
      case k: True
      have "sstr b' i = sstr ?b i" if "i < 256" "EntryType ?b ! i = DYNAMIC_STRING_ALLOCATED" for i
        using that add(3) [of i] by (simp add: live_def)
      then show ?thesis using True k c e add(2) block_okD(1) [OF b]
        by (auto simp: entry_string_def b'_def nth_list_update)
    next
      case False
      then have "?b = new_dynamic_block" using c(2,6) by simp
      then show ?thesis using True False c(2) e add(2)
        by (auto simp: entry_string_def b'_def new_dynamic_block_def nth_list_update)
    qed
  next
    case False
    have "entry_string cs j i = entry_string bs j i"
      using c by (auto simp: entry_string_def new_dynamic_block_def)
    moreover have "entry_string (cs[k := b']) j i = entry_string cs j i" using False by (simp add: entry_string_def)
    ultimately show ?thesis using False by simp
  qed
  have same_pos: "M = N" if "M \<noteq> 0" "unat (M - 1) div 256 = k" "unat (M - 1) mod 256 = e" for M :: u32
  proof -
    have "unat (M - 1) = unat (N - 1)" using that pos by (metis div_mult_mod_eq)
    then have "M - 1 = N - 1" by (rule unsigned_word_eqI)
    then show ?thesis by simp
  qed
  have old: "entry_string bs k e = None"
    using c e by (auto simp: entry_string_def)
  have "string_of (cs[k := b']) M = string_of bs M" if "M \<noteq> N" for M
    using same_pos [of M] that es by (auto simp: string_of_def)
  moreover have "string_of bs N = None" "string_of (cs[k := b']) N = Some s"
    using pos es old by (auto simp: string_of_def)
  ultimately show ?thesis using run table pos(1) by blast
qed

section \<open>Reading and deleting\<close>

text \<open>The numbers that the table gives out are positive as signed integers.\<close>

lemma index_of_number:
  assumes "uint (N - 1) < 2 ^ 31"
  shows "block_index N = int (unat (N - 1) div 256)" "entry_index N = int (unat (N - 1) mod 256)"
proof -
  have "sint (N - 1) = uint (N - 1)"
    by (rule sint_small_u32 [OF assms])
  then have "sint (N - 1) = int (unat (N - 1))" by simp
  then show "block_index N = int (unat (N - 1) div 256)" "entry_index N = int (unat (N - 1) mod 256)"
    by (simp_all add: block_index_def entry_index_def range_simps zdiv_int zmod_int)
qed

lemma GetDynamicString_spec:
  assumes ok: "table_ok bs" and N: "N = 0 \<or> uint (N - 1) < 2 ^ 31"
  shows "GetDynamicString N bs = Some (string_of bs N, N \<noteq> 0 \<and> string_of bs N = None)"
proof (cases "N = 0")
  case True
  then show ?thesis by (simp add: GetDynamicString_def string_of_def)
next
  case False
  then have lt: "uint (N - 1) < 2 ^ 31" using N by blast
  note idx = index_of_number [OF lt]
  let ?k = "unat (N - 1) div 256" and ?i = "unat (N - 1) mod 256"
  show ?thesis
  proof (cases "?k < length bs")
    case True
    then have b: "block_ok (bs ! ?k)" using ok by (simp add: table_ok_def list_all_length)
    have "arr_get (EntryType (bs ! ?k)) (int ?i) = Some (EntryType (bs ! ?k) ! ?i)"
        "arr_get (StringOffset (bs ! ?k)) (int ?i) = Some (StringOffset (bs ! ?k) ! ?i)"
      using block_okD(1,2) [OF b] by simp_all
    then show ?thesis using False True idx
      by (simp add: GetDynamicString_def find_block_def string_of_def entry_string_def sstr_def soff_def)
  next
    case out: False
    then show ?thesis using False idx
      by (simp add: GetDynamicString_def find_block_def string_of_def entry_string_def)
  qed
qed

lemma live_cong:
  assumes "b' = b\<lparr>EntryType := tys, Dirty := x\<rparr>"
  shows "sstr b' i = sstr b i" "soff b' i = soff b i" "send b' i = send b i"
  using assms by (simp_all add: sstr_def soff_def send_def)

lemma DeleteDynamicString_spec:
  assumes ok: "table_ok bs" and N: "N = 0 \<or> uint (N - 1) < 2 ^ 31"
  shows "\<exists>cs. DeleteDynamicString N bs = Some (cs, N \<noteq> 0 \<and> string_of bs N = None) \<and> table_ok cs \<and>
    string_of cs = (string_of bs)(N := None)"
proof (cases "string_of bs N = None")
  case True
  then have "DeleteDynamicString N bs = Some (bs, N \<noteq> 0)"
  proof (cases "N = 0")
    case False
    then have lt: "uint (N - 1) < 2 ^ 31" using N by blast
    let ?k = "unat (N - 1) div 256" and ?i = "unat (N - 1) mod 256"
    have "?k < length bs \<Longrightarrow> arr_get (EntryType (bs ! ?k)) (int ?i) = Some (EntryType (bs ! ?k) ! ?i)"
      using ok block_okD(1) [of "bs ! ?k"] by (simp add: table_ok_def list_all_length)
    then show ?thesis using False True index_of_number [OF lt]
      by (auto simp: DeleteDynamicString_def find_block_def string_of_def entry_string_def split: if_splits)
  qed (simp add: DeleteDynamicString_def)
  then show ?thesis using True ok by (auto simp: fun_eq_iff)
next
  case False
  then have N0: "N \<noteq> 0" by (auto simp: string_of_def)
  then have lt: "uint (N - 1) < 2 ^ 31" using N by blast
  note idx = index_of_number [OF lt]
  define k i where "k = unat (N - 1) div 256" and "i = unat (N - 1) mod 256"
  have k: "k < length bs" "EntryType (bs ! k) ! i = DYNAMIC_STRING_ALLOCATED" and i: "i < 256"
    using False N0 by (auto simp: string_of_def entry_string_def k_def i_def split: if_splits)
  have b: "block_ok (bs ! k)" using ok k by (simp add: table_ok_def list_all_length)
  define b' where "b' = (bs ! k)\<lparr>EntryType := (EntryType (bs ! k))[i := DYNAMIC_STRING_DELETED], Dirty := True\<rparr>"
  have ty: "EntryType b' ! j = (if j = i then DYNAMIC_STRING_DELETED else EntryType (bs ! k) ! j)" if "j < 256" for j
    using that block_okD(1) [OF b] by (simp add: b'_def nth_list_update)
  have live: "live b' j \<longleftrightarrow> live (bs ! k) j" for j using ty [of j] k(2) by (cases "j = i") (auto simp: live_def)
  have same: "sstr b' j = sstr (bs ! k) j" "soff b' j = soff (bs ! k) j" "send b' j = send (bs ! k) j" for j
    using live_cong [OF b'_def] by auto
  have "{j. j < 256 \<and> EntryType b' ! j = DYNAMIC_STRING_FREE} = {j. j < 256 \<and> EntryType (bs ! k) ! j = DYNAMIC_STRING_FREE}"
    using live by (auto simp: live_def)
  then have b'_ok: "block_ok b'" using b live same by (simp add: block_ok_def) (simp add: b'_def)
  have "DeleteDynamicString N bs = Some (bs[k := b'], False)"
    using N0 idx k i block_okD(1) [OF b]
    by (simp add: DeleteDynamicString_def find_block_def b'_def k_def [symmetric] i_def [symmetric])
  moreover have "table_ok (bs[k := b'])"
    using ok b'_ok k by (auto simp: table_ok_def list_all_length nth_list_update)
  moreover have "string_of (bs[k := b']) M = ((string_of bs)(N := None)) M" for M
  proof (cases "M = N")
    case True
    then show ?thesis using N0 ty [OF i] k(1) by (simp add: string_of_def entry_string_def k_def i_def)
  next
    case MN: False
    show ?thesis
    proof (cases "M \<noteq> 0 \<and> unat (M - 1) div 256 = k \<and> unat (M - 1) mod 256 = i")
      case True
      then have "unat (M - 1) = unat (N - 1)" by (metis div_mult_mod_eq k_def i_def)
      then have "M - 1 = N - 1" by (rule unsigned_word_eqI)
      then show ?thesis using MN by simp
    next
      case False
      then show ?thesis using MN k(1) ty same
        by (cases "unat (M - 1) div 256 = k") (auto simp: string_of_def entry_string_def)
    qed
  qed
  ultimately show ?thesis using False N0 by auto
qed

section \<open>Cleaning up\<close>

lemma cstr_at_append:
  assumes "off + length (cstr_at t off) < length t"
  shows "cstr_at (t @ u) off = cstr_at t off"
  using assms by (intro cstr_at_frame [of _ _ "length t"]) auto

lemma cstr_at_drop: "cstr_at (drop k t) i = cstr_at t (k + i)"
  by (simp add: cstr_at_def add.commute)

lemma cstr_at_shift: "cstr_at (p @ t) (length p + i) = cstr_at t i"
  by (simp add: cstr_at_def)

text \<open>The text after the removal of the stretch from \<open>off\<close> to before \<open>stop\<close>.\<close>

lemma removed_text:
  assumes "off < stop" "stop \<le> length t"
  shows "length (arr_copy t off (drop stop t)) = length t"
    and "take off (arr_copy t off (drop stop t)) = take off t"
    and "stop \<le> j \<Longrightarrow> j + length (cstr_at t j) < length t \<Longrightarrow>
      cstr_at (arr_copy t off (drop stop t)) (j - (stop - off)) = cstr_at t j"
proof -
  show "length (arr_copy t off (drop stop t)) = length t" "take off (arr_copy t off (drop stop t)) = take off t"
    using assms by (simp_all add: arr_copy_def)
  assume j: "stop \<le> j" "j + length (cstr_at t j) < length t"
  let ?r = "drop (off + length (drop stop t)) t"
  have p: "j - (stop - off) = length (take off t) + (j - stop)" using j(1) assms by simp
  have "cstr_at (arr_copy t off (drop stop t)) (j - (stop - off)) = cstr_at (drop stop t @ ?r) (j - stop)"
    unfolding p arr_copy_def by (rule cstr_at_shift)
  also have "\<dots> = cstr_at (drop stop t) (j - stop)"
    using j assms by (intro cstr_at_append) (simp add: cstr_at_drop)
  also have "\<dots> = cstr_at t j" using j(1) by (simp add: cstr_at_drop)
  finally show "cstr_at (arr_copy t off (drop stop t)) (j - (stop - off)) = cstr_at t j" .
qed

lemma cleanup_entry_spec:
  assumes ok: "block_ok b" and i: "i < 256"
  shows "\<exists>b'. cleanup_entry b i = Some b' \<and> block_ok b' \<and> FreeEntries b' = FreeEntries b \<and> TextLength b' = TextLength b \<and>
    Dirty b' = Dirty b \<and>
    (\<forall>j < 256. EntryType b' ! j =
      (if j = i \<and> EntryType b ! i = DYNAMIC_STRING_DELETED then DYNAMIC_STRING_FREE else EntryType b ! j)) \<and>
    (\<forall>j. live b' j \<longrightarrow> sstr b' j = sstr b j)"
proof (cases "EntryType b ! i = DYNAMIC_STRING_DELETED")
  case False
  then show ?thesis using ok by (simp add: cleanup_entry_def)
next
  case True
  note D = block_okD [OF ok]
  have li: "live b i" using True i by (simp add: live_def)
  define off size stop where "off = soff b i" and "size = length (sstr b i) + 1" and "stop = off + size"
  define tys where "tys = (EntryType b)[i := DYNAMIC_STRING_FREE]"
  define later where "later = (\<lambda>j. tys ! j \<noteq> DYNAMIC_STRING_FREE \<and> soff b j > off)"
  define ntext where "ntext = arr_copy (DText b) off (drop stop (DText b))"
  define b' where "b' = b\<lparr>EntryType := tys, DText := ntext,
     StringOffset := map (\<lambda>j. if later j then StringOffset b ! j - of_nat size else StringOffset b ! j) [0..<256]\<rparr>"
  have stop: "off < stop" "stop \<le> length (DText b)" "stop = send b i + 1"
    using D(3) D(7) [OF li] by (auto simp: stop_def size_def off_def send_def)
  note rt = removed_text [OF stop(1) stop(2)]
  have ty: "tys ! j = (if j = i then DYNAMIC_STRING_FREE else EntryType b ! j)" if "j < 256" for j
    using that D(1) by (simp add: tys_def nth_list_update)
  have lv: "live b j" "j \<noteq> i" "j < 256" if "live b' j" for j
    using that ty [of j] by (auto simp: live_def b'_def split: if_splits)
  have side: "if later j then stop \<le> soff b j else send b j < off" if "live b' j" for j
    using D(8) [OF lv(1) [OF that] li lv(2) [OF that]] that stop(3)
    by (auto simp: later_def live_def b'_def off_def send_def)
  have soff': "soff b' j = (if later j then soff b j - size else soff b j)" if "live b' j" for j
  proof -
    have "unat (StringOffset b ! j - of_nat size) = unat (StringOffset b ! j) - size" if "later j"
    proof -
      have le: "size \<le> unat (StringOffset b ! j)"
        using side [OF \<open>live b' j\<close>] that by (simp add: stop_def soff_def)
      then have "size < 2 ^ LENGTH(16)" using unsigned_less [of "StringOffset b ! j", where 'a = nat] by simp
      then have s: "unat (of_nat size :: u16) = size" by (rule unat_of_nat_id)
      then have "(of_nat size :: u16) \<le> StringOffset b ! j" using le by (simp add: word_le_nat_alt)
      then show ?thesis using s by (simp add: unat_sub)
    qed
    then show ?thesis using lv(3) [OF that] by (simp add: soff_def b'_def)
  qed
  have str: "sstr b' j = sstr b j" if "live b' j" for j
  proof (cases "later j")
    case True
    then show ?thesis
      using rt(3) [of "soff b j"] side [OF that] soff' [OF that] D(7) [OF lv(1) [OF that]] D(3)
      by (simp add: sstr_def send_def b'_def ntext_def stop_def)
  next
    case False
    have "cstr_at ntext (soff b j) = cstr_at (DText b) (soff b j)"
      using side [OF that] False rt(2) stop by (intro cstr_at_frame [of _ _ off]) (auto simp: send_def sstr_def ntext_def)
    then show ?thesis using soff' [OF that] False by (simp add: sstr_def b'_def)
  qed
  have send': "send b' j = (if later j then send b j - size else send b j)" if "live b' j" for j
    using soff' [OF that] str [OF that] side [OF that] by (auto simp: send_def stop_def)
  have le_send: "soff b j \<le> send b j" for j by (simp add: send_def)
  have "block_ok b'"
    unfolding block_ok_def
  proof (intro conjI allI impI)
    fix j assume "live b' j"
    then show "send b' j < nat (TextLength b')"
      using send' [of j] D(6) [OF lv(1) [of j]] by (auto simp: b'_def)
  next
    fix j k assume jk: "live b' j" "live b' k" "j \<noteq> k"
    then show "send b' j < soff b' k \<or> send b' k < soff b' j"
      using D(8) [OF lv(1) [OF jk(1)] lv(1) [OF jk(2)] jk(3)] side [OF jk(1)] side [OF jk(2)] soff' [OF jk(1)] soff' [OF jk(2)]
        send' [OF jk(1)] send' [OF jk(2)] le_send [of j] le_send [of k]
      by (auto simp: stop_def split: if_splits)
  next
    have "{j. j < 256 \<and> EntryType b ! j = DYNAMIC_STRING_FREE} \<subseteq> {j. j < 256 \<and> EntryType b' ! j = DYNAMIC_STRING_FREE}"
      using ty by (auto simp: b'_def)
    then have "card {j. j < 256 \<and> EntryType b ! j = DYNAMIC_STRING_FREE} \<le> card {j. j < 256 \<and> EntryType b' ! j = DYNAMIC_STRING_FREE}"
      by (intro card_mono) auto
    then show "FreeEntries b' \<le> int (card {j. j < 256 \<and> EntryType b' ! j = DYNAMIC_STRING_FREE})"
      using ok by (auto simp: block_ok_def b'_def)
  qed (use D rt(1) in \<open>auto simp: b'_def tys_def ntext_def\<close>)
  moreover have "cleanup_entry b i = Some b'"
  proof -
    have "\<forall>j < 256. later j \<longrightarrow> stop \<le> soff b j"
    proof (intro allI impI)
      fix j :: nat assume "j < 256" "later j"
      then have "live b' j" by (simp add: live_def later_def b'_def)
      then show "stop \<le> soff b j" using side [of j] \<open>later j\<close> by simp
    qed
    then show ?thesis using True stop(2)
      unfolding cleanup_entry_def b'_def ntext_def later_def tys_def stop_def size_def off_def sstr_def soff_def
      by (simp add: Let_def)
  qed
  ultimately show ?thesis using True ty str by (auto simp: b'_def)
qed

text \<open>What a clean-up leaves of a block: the allocated strings, and the counters.\<close>

definition cleaned :: "TDynamicStringTableBlock \<Rightarrow> TDynamicStringTableBlock \<Rightarrow> bool" where
  "cleaned b b' \<longleftrightarrow> block_ok b' \<and> FreeEntries b' = FreeEntries b \<and> TextLength b' = TextLength b \<and> Dirty b' = Dirty b \<and>
     (\<forall>j < 256. EntryType b' ! j = DYNAMIC_STRING_ALLOCATED \<longleftrightarrow> EntryType b ! j = DYNAMIC_STRING_ALLOCATED) \<and>
     (\<forall>j < 256. EntryType b ! j \<noteq> DYNAMIC_STRING_DELETED \<longrightarrow> EntryType b' ! j = EntryType b ! j) \<and>
     (\<forall>j. live b' j \<longrightarrow> live b j \<and> sstr b' j = sstr b j)"

lemma cleaned_refl: "block_ok b \<Longrightarrow> cleaned b b"
  by (simp add: cleaned_def)

lemma cleaned_trans:
  assumes "cleaned a b" "cleaned b c"
  shows "cleaned a c"
proof -
  have "EntryType c ! j = EntryType a ! j" if "j < 256" "EntryType a ! j \<noteq> DYNAMIC_STRING_DELETED" for j
    using assms that unfolding cleaned_def by metis
  moreover have "live a j \<and> sstr c j = sstr a j" if "live c j" for j
    using assms that unfolding cleaned_def by metis
  moreover have "EntryType c ! j = DYNAMIC_STRING_ALLOCATED \<longleftrightarrow> EntryType a ! j = DYNAMIC_STRING_ALLOCATED" if "j < 256" for j
    using assms that unfolding cleaned_def by blast
  moreover have "block_ok c" "FreeEntries c = FreeEntries a" "TextLength c = TextLength a" "Dirty c = Dirty a"
    using assms unfolding cleaned_def by auto
  ultimately show ?thesis unfolding cleaned_def by blast
qed

lemma cleanup_entries_spec:
  "block_ok b \<Longrightarrow> \<forall>i \<in> set is. i < 256 \<Longrightarrow>
    \<exists>b'. cleanup_entries is b = Some b' \<and> cleaned b b' \<and> (\<forall>i \<in> set is. EntryType b' ! i \<noteq> DYNAMIC_STRING_DELETED)"
proof (induction "is" arbitrary: b)
  case Nil
  then show ?case by (simp add: cleaned_refl)
next
  case (Cons i "is")
  have i: "i < 256" using Cons.prems(2) by simp
  obtain a where a: "cleanup_entry b i = Some a" "block_ok a" "FreeEntries a = FreeEntries b" "TextLength a = TextLength b"
      "Dirty a = Dirty b" and ty: "\<forall>j < 256. EntryType a ! j =
        (if j = i \<and> EntryType b ! i = DYNAMIC_STRING_DELETED then DYNAMIC_STRING_FREE else EntryType b ! j)"
      and str: "\<forall>j. live a j \<longrightarrow> sstr a j = sstr b j"
    using cleanup_entry_spec [OF Cons.prems(1) i] by blast
  have "live b j" if "live a j" for j using that ty by (auto simp: live_def split: if_splits)
  then have ab: "cleaned b a" using a ty str by (auto simp: cleaned_def)
  obtain b' where b': "cleanup_entries is a = Some b'" "cleaned a b'" "\<forall>i \<in> set is. EntryType b' ! i \<noteq> DYNAMIC_STRING_DELETED"
    using Cons.IH [OF a(2)] Cons.prems(2) by auto
  have "EntryType b' ! i \<noteq> DYNAMIC_STRING_DELETED"
  proof -
    have "EntryType a ! i \<noteq> DYNAMIC_STRING_DELETED" using ty i by auto
    then have "EntryType b' ! i = EntryType a ! i" using b'(2) i by (simp add: cleaned_def)
    then show ?thesis using \<open>EntryType a ! i \<noteq> DYNAMIC_STRING_DELETED\<close> by simp
  qed
  then show ?case using a(1) b' cleaned_trans [OF ab b'(2)] by auto
qed

lemma CleanupDynamicStrings_spec:
  "list_all block_ok bs \<Longrightarrow>
    \<exists>cs. CleanupDynamicStrings bs = Some cs \<and> length cs = length bs \<and> (\<forall>k < length bs. cleaned (bs ! k) (cs ! k)) \<and>
      (\<forall>k < length bs. Dirty (bs ! k) \<longrightarrow> (\<forall>i < 256. EntryType (cs ! k) ! i \<noteq> DYNAMIC_STRING_DELETED))"
proof (induction bs)
  case (Cons b bs)
  have b: "block_ok b" and bs: "list_all block_ok bs" using Cons.prems by auto
  obtain b' where b': "(if Dirty b then cleanup_entries [0..<256] b else Some b) = Some b'" "cleaned b b'"
      "Dirty b \<longrightarrow> (\<forall>i < 256. EntryType b' ! i \<noteq> DYNAMIC_STRING_DELETED)"
    using cleanup_entries_spec [OF b, of "[0..<256]"] cleaned_refl [OF b] by (cases "Dirty b") auto
  obtain cs where cs: "CleanupDynamicStrings bs = Some cs" "length cs = length bs" "\<forall>k < length bs. cleaned (bs ! k) (cs ! k)"
      "\<forall>k < length bs. Dirty (bs ! k) \<longrightarrow> (\<forall>i < 256. EntryType (cs ! k) ! i \<noteq> DYNAMIC_STRING_DELETED)"
    using Cons.IH [OF bs] by blast
  have "CleanupDynamicStrings (b # bs) = Some (b' # cs)" using b'(1) cs(1) by (simp split: if_splits)
  then show ?case using b' cs by (intro exI [of _ "b' # cs"]) (auto simp: nth_Cons split: nat.splits)
qed simp

lemma CleanupDynamicStrings_table:
  assumes ok: "table_ok bs"
  shows "\<exists>cs. CleanupDynamicStrings bs = Some cs \<and> table_ok cs \<and> string_of cs = string_of bs \<and> length cs = length bs \<and>
    (\<forall>k < length bs. cleaned (bs ! k) (cs ! k))"
proof -
  obtain cs where cs: "CleanupDynamicStrings bs = Some cs" "length cs = length bs" "\<forall>k < length bs. cleaned (bs ! k) (cs ! k)"
    using CleanupDynamicStrings_spec [of bs] ok by (auto simp: table_ok_def)
  have "entry_string cs k i = entry_string bs k i" for k i
  proof (cases "k < length bs \<and> i < 256")
    case True
    then have "cleaned (bs ! k) (cs ! k)" using cs(3) by blast
    then show ?thesis using True cs(2) by (auto simp: entry_string_def cleaned_def live_def)
  qed (use cs(2) in \<open>auto simp: entry_string_def\<close>)
  then have "string_of cs = string_of bs" by (simp add: string_of_def fun_eq_iff)
  moreover have "table_ok cs" using ok cs by (auto simp: table_ok_def list_all_length cleaned_def)
  ultimately show ?thesis using cs by blast
qed

section \<open>Properties\<close>

lemma string_of_number:
  assumes "table_ok bs" "string_of bs N \<noteq> None"
  shows "uint (N - 1) < 2 ^ 31"
proof -
  have "unat (N - 1) div 256 < length bs" using assms(2) by (auto simp: string_of_def entry_string_def split: if_splits)
  then have "unat (N - 1) div 256 < 2 ^ 20" using assms(1) unfolding table_ok_def by linarith
  then have "unat (N - 1) < 2 ^ 28" by (simp add: div_less_iff_less_mult)
  then have "int (unat (N - 1)) < int (2 ^ 28)" by (simp only: of_nat_less_iff)
  then show ?thesis by simp
qed

lemma empty_table_ok: "table_ok []"
  by (simp add: table_ok_def)

text \<open>
  A static string is found unchanged through the pointer that \<open>AddStaticString\<close> returns, in the first
  block with room for it, and adding strings never changes a string that was added before.
\<close>

theorem static_strings_stable:
  assumes "static_ok bs" "is_cstring s" "0 < length s" "int (length s) + 1 \<le> StaticBlockSize"
  shows "\<exists>cs p. AddStaticString s bs = Some (cs, p) \<and> static_ok cs \<and> static_live cs p \<and> static_string cs p = Some s \<and>
    (\<forall>q. static_live bs q \<longrightarrow> static_live cs q \<and> static_string cs q = static_string bs q)"
  by (rule AddStaticString_spec [OF assms])

theorem static_strings_stable_witness:
  "\<exists>cs p. AddStaticString [72, 105] [] = Some (cs, p) \<and> static_string cs p = Some [72, 105]"
  using static_strings_stable [of "[]" "[72, 105]"] by (auto simp: static_ok_def is_cchar_def)

text \<open>
  C35: \<open>AddDynamicString\<close> gives a string that fits a block a number that is not in use, under which
  \<open>GetDynamicString\<close> returns exactly this string; the strings of all other numbers stay as they are.
\<close>

theorem dynamic_string_roundtrip:
  assumes "table_ok bs" "length bs + 1 < 2 ^ 20" "is_cstring s" "s \<noteq> []" "length s < 32768"
  shows "\<exists>cs N. AddDynamicString (Some s) bs = Some (cs, N, False) \<and> table_ok cs \<and> N \<noteq> 0 \<and>
    string_of bs N = None \<and> GetDynamicString N cs = Some (Some s, False) \<and>
    (\<forall>M. M \<noteq> N \<longrightarrow> string_of cs M = string_of bs M)"
proof -
  obtain cs N where c: "AddDynamicString (Some s) bs = Some (cs, N, False)" "table_ok cs" "N \<noteq> 0"
      "string_of bs N = None" "string_of cs N = Some s" "\<forall>M. M \<noteq> N \<longrightarrow> string_of cs M = string_of bs M"
    using AddDynamicString_spec [OF assms] by blast
  have "uint (N - 1) < 2 ^ 31" using string_of_number [OF c(2), of N] c(5) by simp
  then have "GetDynamicString N cs = Some (Some s, False)" using GetDynamicString_spec [OF c(2), of N] c(5) by simp
  then show ?thesis using c by blast
qed

theorem dynamic_string_roundtrip_witness:
  "\<exists>cs N. AddDynamicString (Some [72, 105]) [] = Some (cs, N, False) \<and> GetDynamicString N cs = Some (Some [72, 105], False)"
  using dynamic_string_roundtrip [OF empty_table_ok, of "[72, 105]"] by (auto simp: is_cchar_def)

text \<open>
  C36: \<open>DeleteDynamicString\<close> removes the string of exactly the given number, and an error is reported
  exactly when there is none; \<open>CleanupDynamicStrings\<close>, which moves the texts of the blocks together,
  never fails its \<open>ASSERT\<close> and changes no string of any number.
\<close>

theorem dynamic_string_delete_cleanup:
  assumes "table_ok bs" "N = 0 \<or> uint (N - 1) < 2 ^ 31"
  shows "\<exists>cs ds. DeleteDynamicString N bs = Some (cs, N \<noteq> 0 \<and> string_of bs N = None) \<and> table_ok cs \<and>
    string_of cs = (string_of bs)(N := None) \<and>
    CleanupDynamicStrings cs = Some ds \<and> table_ok ds \<and> string_of ds = string_of cs"
proof -
  obtain cs where c: "DeleteDynamicString N bs = Some (cs, N \<noteq> 0 \<and> string_of bs N = None)" "table_ok cs"
      "string_of cs = (string_of bs)(N := None)"
    using DeleteDynamicString_spec [OF assms] by blast
  then show ?thesis using CleanupDynamicStrings_table [OF c(2)] by blast
qed

theorem dynamic_string_delete_cleanup_witness:
  "\<exists>bs N cs ds. AddDynamicString (Some [72, 105]) [] = Some (bs, N, False) \<and> uint (N - 1) < 2 ^ 31 \<and>
     DeleteDynamicString N bs = Some (cs, False) \<and> CleanupDynamicStrings cs = Some ds \<and> string_of ds N = None"
proof -
  obtain bs N where b: "AddDynamicString (Some [72, 105]) [] = Some (bs, N, False)" "table_ok bs" "N \<noteq> 0"
      "string_of bs N = Some [72, 105]"
    using AddDynamicString_spec [OF empty_table_ok, of "[72, 105]"] by (auto simp: is_cchar_def)
  have "uint (N - 1) < 2 ^ 31" using string_of_number [OF b(2), of N] b(4) by simp
  then show ?thesis using b dynamic_string_delete_cleanup [OF b(2), of N] by auto
qed

text \<open>
  \<open>CleanupDynamicStrings\<close> frees the deleted entries but gives nothing back: the number of free
  entries and the length of the text in use of every block are what they were before, so neither the
  entries nor the room of deleted strings are counted as available again.
\<close>

theorem cleanup_reclaims_nothing:
  assumes "table_ok bs"
  shows "\<exists>cs. CleanupDynamicStrings bs = Some cs \<and> length cs = length bs \<and>
    (\<forall>k < length bs. FreeEntries (cs ! k) = FreeEntries (bs ! k) \<and> TextLength (cs ! k) = TextLength (bs ! k) \<and>
      Dirty (cs ! k) = Dirty (bs ! k) \<and>
      (\<forall>j < 256. EntryType (cs ! k) ! j = DYNAMIC_STRING_ALLOCATED \<longleftrightarrow> EntryType (bs ! k) ! j = DYNAMIC_STRING_ALLOCATED))"
  using CleanupDynamicStrings_table [OF assms] by (auto simp: cleaned_def)

theorem cleanup_reclaims_nothing_witness:
  "\<exists>cs. CleanupDynamicStrings [new_dynamic_block] = Some cs \<and> FreeEntries (cs ! 0) = 256"
proof -
  have "table_ok [new_dynamic_block]" by (simp add: table_ok_def new_dynamic_block_ok)
  from cleanup_reclaims_nothing [OF this] show ?thesis by (auto simp: new_dynamic_block_def)
qed

end
