(* ===== verification/Strings.thy ===== *)
theory Strings
  imports Utils
begin

text \<open>
  The string helpers of \<open>common/strings/strings.cpp\<close>: plural forms of object names, the word and number
  search that the NPC dialogues use, wildcard patterns, escaping, trimming and capitals. A result
  position is an index into the text; \<open>None\<close> of a pointer is NULL. Operations on a destination buffer
  return the string they leave in it.
\<close>

section \<open>Object names\<close>

definition strncmp_eq :: "cstring \<Rightarrow> cstring \<Rightarrow> bool" where
  "strncmp_eq s lit \<longleftrightarrow> take (length lit) s = lit"

definition IsCountable :: "cstring \<Rightarrow> bool" where
  "IsCountable s =
     (if strncmp_eq s (cstr ''some '') then False
      else strncmp_eq s (cstr ''a '') \<or> strncmp_eq s (cstr ''an ''))"

text \<open>\<open>strstr\<close>: the position of the first occurrence.\<close>

fun strstr :: "cstring \<Rightarrow> cstring \<Rightarrow> nat option" where
  "strstr [] pat = (if pat = [] then Some 0 else None)"
| "strstr (c # s) pat = (if take (length pat) (c # s) = pat then Some 0 else map_option Suc (strstr s pat))"

text \<open>The decimal digits that \<open>%d\<close> prints for a non-negative number.\<close>

fun decimal :: "nat \<Rightarrow> cstring" where
  "decimal n = (if n < 10 then [48 + int n] else decimal (n div 10) @ [48 + int (n mod 10)])"

declare decimal.simps [simp del]

text \<open>
  The static buffer of \<open>Plural\<close> has 50 characters. A string that does not fit is \<open>None\<close>: \<open>strcpy\<close> and
  \<open>strcat\<close> write behind it.
\<close>

definition fits :: "cstring \<Rightarrow> cstring option" where
  "fits s = (if length s < 50 then Some s else None)"

definition pluralise :: "cstring \<Rightarrow> cstring" where
  "pluralise name =
     (if name = cstr ''knife'' then cstr ''knives''
      else if name = cstr ''throwing knife'' then cstr ''throwing knives''
      else if name = cstr ''orc spearman'' then cstr ''orc spearmen''
      else if name \<noteq> cstr ''deer'' \<and> name \<noteq> cstr ''dead deer'' \<and> name \<noteq> cstr ''sheep'' \<and>
              name \<noteq> cstr ''black sheep'' \<and> name \<noteq> cstr ''fish''
      then let NameLen = length name
           in if NameLen > 0
              then let Last = toLower (name ! (NameLen - 1));
                       Prev = (if NameLen > 1 then toLower (name ! (NameLen - 2)) else 0)
                   in if Last = 115 \<or> Last = 120 \<or> (Last = 104 \<and> (Prev = 115 \<or> Prev = 99))
                      then name @ cstr ''es''
                      else if Last = 121 \<and> Prev \<noteq> 97 \<and> Prev \<noteq> 101 \<and> Prev \<noteq> 105 \<and> Prev \<noteq> 111 \<and> Prev \<noteq> 117
                      then name[NameLen - 1 := 105] @ cstr ''es''
                      else if Last = 102 \<and> Prev = 108 then name[NameLen - 1 := 118] @ cstr ''es''
                      else if Last = 111 then name @ cstr ''es''
                      else name @ cstr ''s''
              else name
      else name)"

text \<open>The name without its article, and its parts before and from \<open>of\<close>.\<close>

definition without_article :: "cstring \<Rightarrow> cstring" where
  "without_article name = (if name ! 1 = 110 then drop 3 name else drop 2 name)"

definition split_suffix :: "cstring \<Rightarrow> cstring \<times> cstring" where
  "split_suffix name =
     (case strstr name (cstr '' of '') of Some p \<Rightarrow> (take p name, drop p name) | None \<Rightarrow> (name, []))"

definition Plural :: "cstring option \<Rightarrow> int \<Rightarrow> cstring option" where
  "Plural s Count =
     (case s of
        None \<Rightarrow> Some []
      | Some s \<Rightarrow>
          do { name \<leftarrow> fits s;
               if Count = 1 \<or> \<not> IsCountable name then Some name
               else let name = without_article name
                    in if Count < 0 then Some name
                       else let (name, Help) = split_suffix name
                            in do { name \<leftarrow> fits (pluralise name);
                                    name \<leftarrow> fits (name @ Help);
                                    if Count \<noteq> 0 then Some (take 49 (decimal (nat Count) @ [32] @ name))
                                    else Some name } })"

section \<open>Search\<close>

definition isAlnum :: "int \<Rightarrow> bool" where
  "isAlnum c \<longleftrightarrow> isAlpha c \<or> isDigit c"

text \<open>The comparison loop: the first \<open>n\<close> characters of the pattern against the text at \<open>i\<close>.\<close>

definition word_at :: "cstring \<Rightarrow> nat \<Rightarrow> cstring \<Rightarrow> nat \<Rightarrow> bool" where
  "word_at Pattern n s i \<longleftrightarrow> (\<forall>j < n. toLower (cget Pattern j) = toLower (cget s (i + j)))"

definition word_match :: "cstring \<Rightarrow> cstring \<Rightarrow> nat \<Rightarrow> bool" where
  "word_match Pattern s i =
     (let WholeWord = (cget Pattern (length Pattern - 1) = 36);
          PatternLength = (if WholeWord then length Pattern - 1 else length Pattern)
      in word_at Pattern PatternLength s i \<and> (\<not> WholeWord \<or> \<not> isAlnum (cget s (i + PatternLength))))"

text \<open>The loop over the text, from index \<open>i\<close> with \<open>n\<close> characters left.\<close>

fun search_word_loop :: "cstring \<Rightarrow> cstring \<Rightarrow> nat \<Rightarrow> nat \<Rightarrow> bool \<Rightarrow> nat option" where
  "search_word_loop Pattern s 0 i WordStart = None"
| "search_word_loop Pattern s (Suc n) i WordStart =
     (if \<not> isAlnum (cget s i) then search_word_loop Pattern s n (i + 1) True
      else if WordStart
      then if word_match Pattern s i then Some i else search_word_loop Pattern s n (i + 1) False
      else search_word_loop Pattern s n (i + 1) WordStart)"

text \<open>The flag says that an error message was written.\<close>

definition SearchForWord :: "cstring option \<Rightarrow> cstring option \<Rightarrow> nat option \<times> bool" where
  "SearchForWord Pattern s =
     (case Pattern of
        None \<Rightarrow> (None, True)
      | Some p \<Rightarrow>
          if p = [] then (None, True)
          else (case s of
                  None \<Rightarrow> (None, True)
                | Some t \<Rightarrow> (search_word_loop p t (length t) 0 True, False)))"

text \<open>The digits from a position on.\<close>

fun count_digits :: "cstring \<Rightarrow> nat" where
  "count_digits [] = 0"
| "count_digits (c # s) = (if isDigit c then 1 + count_digits s else 0)"

definition number_at :: "cstring \<Rightarrow> nat \<Rightarrow> bool" where
  "number_at s i = (let j = count_digits (drop i s) in j > 0 \<and> \<not> isAlpha (cget s (i + j)))"

fun search_number_loop :: "cstring \<Rightarrow> nat \<Rightarrow> nat \<Rightarrow> bool \<Rightarrow> int \<Rightarrow> nat option" where
  "search_number_loop s 0 i WordStart Count = None"
| "search_number_loop s (Suc n) i WordStart Count =
     (if \<not> isAlnum (cget s i) then search_number_loop s n (i + 1) True Count
      else if WordStart
      then if number_at s i
           then if Count - 1 = 0 then Some i else search_number_loop s n (i + 1) False (Count - 1)
           else search_number_loop s n (i + 1) False Count
      else search_number_loop s n (i + 1) WordStart Count)"

definition SearchForNumber :: "int \<Rightarrow> cstring option \<Rightarrow> nat option \<times> bool" where
  "SearchForNumber Count s =
     (if Count < 1 then (None, True)
      else (case s of
              None \<Rightarrow> (None, True)
            | Some t \<Rightarrow> (search_number_loop t (length t) 0 True Count, False)))"

section \<open>Wildcard patterns\<close>

text \<open>
  One row of the table of distances: \<open>c\<close> is the character of the pattern, \<open>cur\<close> the value just written
  to the current row, the list the rest of the previous row.
\<close>

fun fill_row :: "int \<Rightarrow> cstring \<Rightarrow> int list \<Rightarrow> int \<Rightarrow> int list" where
  "fill_row c (x # xs) (p0 # p1 # ps) cur =
     (let Ins = (if c \<noteq> 42 then 1 else 0);
          Del = (if c \<noteq> 42 then 1 else 0);
          Edit = (if c \<noteq> 63 \<and> toLower c \<noteq> toLower x then 1 else 0);
          Min0 = p1 + Ins;
          Min1 = (if Min0 > p0 + Edit then p0 + Edit else Min0);
          Min2 = (if Min1 > cur + Del then cur + Del else Min1)
      in cur # fill_row c xs (p1 # ps) Min2)"
| "fill_row c _ _ cur = [cur]"

fun match_rows :: "cstring \<Rightarrow> cstring \<Rightarrow> int list \<Rightarrow> int list" where
  "match_rows [] s PrevRow = PrevRow"
| "match_rows (c # Pattern) s PrevRow =
     match_rows Pattern s (fill_row c s PrevRow (hd PrevRow + (if c \<noteq> 42 then 1 else 0)))"

definition MatchString :: "cstring option \<Rightarrow> cstring option \<Rightarrow> bool \<times> bool" where
  "MatchString Pattern s =
     (case (Pattern, s) of
        (None, _) \<Rightarrow> (False, True)
      | (_, None) \<Rightarrow> (False, True)
      | (Some p, Some t) \<Rightarrow>
          if length t > 255 then (False, True)
          else (match_rows p t (map int [0..<length t + 1]) ! length t = 0, False))"

section \<open>Escaping, trimming, capitals\<close>

definition is_special :: "int \<Rightarrow> bool" where
  "is_special c \<longleftrightarrow> c = 34 \<or> c = 35 \<or> c = 39 \<or> c = 92"

fun AddSlashes :: "cstring \<Rightarrow> cstring" where
  "AddSlashes [] = []"
| "AddSlashes (c # s) = (if is_special c then 92 # c # AddSlashes s else c # AddSlashes s)"

fun trim_start :: "cstring \<Rightarrow> nat" where
  "trim_start [] = 0"
| "trim_start (c # s) = (if isSpace c then Suc (trim_start s) else 0)"

text \<open>The loop that moves \<open>End\<close> back, \<open>k\<close> characters behind \<open>Start\<close>.\<close>

fun trim_end :: "cstring \<Rightarrow> nat \<Rightarrow> nat \<Rightarrow> nat" where
  "trim_end s Start 0 = Start"
| "trim_end s Start (Suc k) = (if isSpace (s ! (Start + Suc k)) then trim_end s Start k else Start + Suc k)"

definition Trim :: "cstring \<Rightarrow> cstring" where
  "Trim s =
     (let Start = trim_start s; OldLength = length s
      in if Start < OldLength
         then let End = trim_end s Start (OldLength - 1 - Start); NewLength = End - Start + 1
              in take NewLength (drop Start s)
         else [])"

definition ChangeWildcards :: "cstring \<Rightarrow> cstring" where
  "ChangeWildcards s = map (\<lambda>c. if c = 42 then 37 else if c = 63 then 95 else c) s"

fun capitals_loop :: "bool \<Rightarrow> cstring \<Rightarrow> cstring" where
  "capitals_loop WordStart [] = []"
| "capitals_loop WordStart (c # s) =
     (if \<not> isAlnum c then c # capitals_loop True s
      else if WordStart then (if isAlpha c then to_char (toUpper c) else c) # capitals_loop False s
      else c # capitals_loop WordStart s)"

definition Capitals :: "cstring \<Rightarrow> cstring" where
  "Capitals s = capitals_loop True s"

section \<open>Search lemmas\<close>

text \<open>A word starts at an alphanumeric character that no other one precedes.\<close>

definition word_start :: "cstring \<Rightarrow> nat \<Rightarrow> bool" where
  "word_start s i \<longleftrightarrow> i < length s \<and> isAlnum (s ! i) \<and> (i = 0 \<or> \<not> isAlnum (s ! (i - 1)))"

lemma search_word_loop_spec:
  assumes "i + n = length s" "ws = (i = 0 \<or> \<not> isAlnum (s ! (i - 1)))"
  shows "search_word_loop p s n i ws =
    List.find (\<lambda>k. word_start s k \<and> word_match p s k) [i..<length s]"
  using assms
proof (induction n arbitrary: i ws)
  case (Suc n)
  have i: "i < length s" using Suc.prems(1) by simp
  then have c: "cget s i = s ! i" by (simp add: cget_def)
  have up: "[i..<length s] = i # [i + 1..<length s]" using i by (simp add: upt_conv_Cons)
  have IH: "search_word_loop p s n (i + 1) w = List.find (\<lambda>k. word_start s k \<and> word_match p s k) [i + 1..<length s]"
    if "w = (\<not> isAlnum (s ! i))" for w
    using Suc.IH [of "i + 1" w] Suc.prems(1) that by simp
  show ?case
  proof (cases "isAlnum (s ! i)")
    case False
    then show ?thesis using IH [of True] c up by (simp add: word_start_def)
  next
    case True
    then show ?thesis using IH [of False] c up i Suc.prems(2) by (auto simp: word_start_def)
  qed
qed simp

lemma find_Some_least:
  "List.find P [0..<n] = Some i \<longleftrightarrow> i < n \<and> P i \<and> (\<forall>j < i. \<not> P j)"
  by (auto simp: find_Some_iff)

text \<open>The positions where the number search counts.\<close>

lemma search_number_loop_spec:
  assumes "i + n = length s" "ws = (i = 0 \<or> \<not> isAlnum (s ! (i - 1)))" "1 \<le> k"
  shows "search_number_loop s n i ws (int k) =
    (let ps = filter (\<lambda>k. word_start s k \<and> number_at s k) [i..<length s]
     in if k \<le> length ps then Some (ps ! (k - 1)) else None)"
  using assms
proof (induction n arbitrary: i ws k)
  case 0
  then show ?case by simp
next
  case (Suc n)
  have i: "i < length s" using Suc.prems(1) by simp
  then have c: "cget s i = s ! i" by (simp add: cget_def)
  have up: "[i..<length s] = i # [i + 1..<length s]" using i by (simp add: upt_conv_Cons)
  let ?P = "\<lambda>k. word_start s k \<and> number_at s k"
  have IH: "search_number_loop s n (i + 1) w (int l) =
      (let ps = filter ?P [i + 1..<length s] in if l \<le> length ps then Some (ps ! (l - 1)) else None)"
    if "w = (\<not> isAlnum (s ! i))" "1 \<le> l" for w l
    using Suc.IH [of "i + 1" w l] Suc.prems(1) that by simp
  show ?case
  proof (cases "isAlnum (s ! i)")
    case False
    then show ?thesis using IH [of True k] Suc.prems(3) c up by (simp add: word_start_def)
  next
    case al: True
    show ?thesis
    proof (cases "ws \<and> number_at s i")
      case True
      then have P: "?P i" using al i Suc.prems(2) by (simp add: word_start_def)
      show ?thesis
      proof (cases "k = 1")
        case k1: True
        then show ?thesis using True P al c up by simp
      next
        case False
        then have "int k - 1 = int (k - 1)" "1 \<le> k - 1" "int k - 1 \<noteq> 0" using Suc.prems(3) by auto
        then show ?thesis using True P al c up False IH [of False "k - 1"] by (auto simp: Let_def nth_Cons')
      qed
    next
      case False
      then have "\<not> ?P i" using al Suc.prems(2) by (auto simp: word_start_def)
      then show ?thesis using False al c up IH [of False k] Suc.prems(3) by (auto simp: Let_def)
    qed
  qed
qed

section \<open>Wildcard lemmas\<close>

text \<open>
  The meaning of a pattern: a star stands for any characters, a question mark for any one, every other
  character for itself in either case.
\<close>

definition char_match :: "int \<Rightarrow> int \<Rightarrow> bool" where
  "char_match c x \<longleftrightarrow> c = 63 \<or> toLower c = toLower x"

fun wild :: "cstring \<Rightarrow> cstring \<Rightarrow> bool" where
  "wild [] s = (s = [])"
| "wild (c # p) [] = (c = 42 \<and> wild p [])"
| "wild (c # p) (x # s) = (if c = 42 then wild p (x # s) \<or> wild (c # p) s else char_match c x \<and> wild p s)"

lemma wild_star_Nil: "wild (42 # p) [] = wild p []"
  by simp

lemma wild_star_Cons: "wild (42 # p) (x # s) \<longleftrightarrow> wild p (x # s) \<or> wild (42 # p) s"
  by simp

lemma wild_char: "c \<noteq> 42 \<Longrightarrow> wild (c # p) s \<longleftrightarrow> (\<exists>x t. s = x # t \<and> char_match c x \<and> wild p t)"
  by (cases s) simp_all

declare wild.simps(2,3) [simp del]

lemma wild_star: "wild (42 # p) s \<longleftrightarrow> (\<exists>u v. s = u @ v \<and> wild p v)"
proof (induction s)
  case Nil
  then show ?case by (simp add: wild_star_Nil)
next
  case (Cons x s)
  have "(\<exists>u v. x # s = u @ v \<and> wild p v) \<longleftrightarrow> wild p (x # s) \<or> (\<exists>u v. s = u @ v \<and> wild p v)"
    by (auto simp: Cons_eq_append_conv)
  then show ?case using Cons by (simp add: wild_star_Cons)
qed

lemma wild_append: "wild (p @ q) s \<longleftrightarrow> (\<exists>u v. s = u @ v \<and> wild p u \<and> wild q v)"
proof (induction p arbitrary: s)
  case Nil
  then show ?case by simp
next
  case (Cons c p)
  show ?case
  proof (cases "c = 42")
    case True
    have "wild ((c # p) @ q) s \<longleftrightarrow> (\<exists>a b. s = a @ b \<and> (\<exists>u v. b = u @ v \<and> wild p u \<and> wild q v))"
      using True by (simp add: wild_star Cons.IH)
    also have "\<dots> \<longleftrightarrow> (\<exists>u v. s = u @ v \<and> (\<exists>a b. u = a @ b \<and> wild p b) \<and> wild q v)"
      by (metis append.assoc)
    finally show ?thesis using True by (simp add: wild_star)
  next
    case False
    have "wild ((c # p) @ q) s \<longleftrightarrow> (\<exists>x t. s = x # t \<and> char_match c x \<and> (\<exists>u v. t = u @ v \<and> wild p u \<and> wild q v))"
      using False by (simp add: wild_char Cons.IH)
    also have "\<dots> \<longleftrightarrow> (\<exists>u v. s = u @ v \<and> (\<exists>x t. u = x # t \<and> char_match c x \<and> wild p t) \<and> wild q v)"
      by (metis append_Cons)
    finally show ?thesis using False by (simp add: wild_char)
  qed
qed

text \<open>The last character of the pattern against the last character of the text.\<close>

lemma wild_snoc_Nil: "wild (p @ [c]) [] \<longleftrightarrow> c = 42 \<and> wild p []"
  by (simp add: wild_append wild.simps(2)) blast

lemma wild_snoc_char: "c \<noteq> 42 \<Longrightarrow> wild (p @ [c]) (u @ [x]) \<longleftrightarrow> char_match c x \<and> wild p u"
  by (auto simp: wild_append wild_char)

lemma wild_snoc_star: "wild (p @ [42]) s \<longleftrightarrow> (\<exists>u v. s = u @ v \<and> wild p u)"
proof -
  have "wild [42] v" for v by (induction v) (simp_all add: wild_star_Nil wild_star_Cons)
  then show ?thesis by (simp add: wild_append)
qed

lemma wild_snoc_star_snoc: "wild (p @ [42]) (u @ [x]) \<longleftrightarrow> wild p (u @ [x]) \<or> wild (p @ [42]) u"
proof -
  have "(\<exists>a b. u @ [x] = a @ b \<and> wild p a) \<longleftrightarrow> wild p (u @ [x]) \<or> (\<exists>a b. u = a @ b \<and> wild p a)"
  proof
    assume "\<exists>a b. u @ [x] = a @ b \<and> wild p a"
    then obtain a b where ab: "u @ [x] = a @ b" "wild p a" by blast
    then show "wild p (u @ [x]) \<or> (\<exists>a b. u = a @ b \<and> wild p a)" by (cases b rule: rev_cases) auto
  next
    assume "wild p (u @ [x]) \<or> (\<exists>a b. u = a @ b \<and> wild p a)"
    then show "\<exists>a b. u @ [x] = a @ b \<and> wild p a" by (metis append.assoc append.right_neutral)
  qed
  then show ?thesis by (simp add: wild_snoc_star)
qed

text \<open>A row of distances of a pattern: zero exactly at the prefixes that the pattern matches.\<close>

definition row_ok :: "cstring \<Rightarrow> cstring \<Rightarrow> int list \<Rightarrow> bool" where
  "row_ok p t r \<longleftrightarrow> length r = length t + 1 \<and> (\<forall>j \<le> length t. 0 \<le> r ! j \<and> (r ! j = 0 \<longleftrightarrow> wild p (take j t)))"

definition cell :: "int \<Rightarrow> int \<Rightarrow> int \<Rightarrow> int \<Rightarrow> int \<Rightarrow> int" where
  "cell c x p0 p1 cur =
     (let Ins = (if c \<noteq> 42 then 1 else 0);
          Del = (if c \<noteq> 42 then 1 else 0);
          Edit = (if c \<noteq> 63 \<and> toLower c \<noteq> toLower x then 1 else 0);
          Min0 = p1 + Ins;
          Min1 = (if Min0 > p0 + Edit then p0 + Edit else Min0)
      in if Min1 > cur + Del then cur + Del else Min1)"

lemma fill_row_Cons: "fill_row c (x # xs) (p0 # p1 # ps) cur = cur # fill_row c xs (p1 # ps) (cell c x p0 p1 cur)"
  by (simp add: cell_def Let_def)

lemma cell_zero:
  assumes "0 \<le> p0" "0 \<le> p1" "0 \<le> cur"
  shows "0 \<le> cell c x p0 p1 cur"
    and "cell c x p0 p1 cur = 0 \<longleftrightarrow>
      (if c = 42 then p1 = 0 \<or> cur = 0 \<or> (p0 = 0 \<and> char_match c x) else p0 = 0 \<and> char_match c x)"
  using assms by (auto simp: cell_def char_match_def Let_def)

lemma fill_row_ok:
  assumes r: "row_ok p t r"
  shows "j + length xs = length t \<Longrightarrow> xs = drop j t \<Longrightarrow> 0 \<le> cur \<Longrightarrow> (cur = 0 \<longleftrightarrow> wild (p @ [c]) (take j t)) \<Longrightarrow>
    length (fill_row c xs (drop j r) cur) = length xs + 1 \<and>
    (\<forall>k \<le> length xs. 0 \<le> fill_row c xs (drop j r) cur ! k \<and>
      (fill_row c xs (drop j r) cur ! k = 0 \<longleftrightarrow> wild (p @ [c]) (take (j + k) t)))"
proof (induction xs arbitrary: j cur)
  case Nil
  then show ?case by (cases "drop j r") auto
next
  case (Cons x xs)
  have j: "j < length t" using Cons.prems(1) by simp
  have len: "length r = length t + 1" using r by (simp add: row_ok_def)
  have d: "drop j r = r ! j # r ! (j + 1) # drop (j + 2) r" "drop (j + 1) r = r ! (j + 1) # drop (j + 2) r"
    using j len by (simp_all add: Cons_nth_drop_Suc [symmetric])
  have x: "x = t ! j" "xs = drop (j + 1) t" using Cons.prems(2) j by (metis Cons_nth_drop_Suc list.inject Suc_eq_plus1)+
  have tk: "take (j + 1) t = take j t @ [x]" using j x by (simp add: take_Suc_conv_app_nth)
  have rj: "0 \<le> r ! j" "r ! j = 0 \<longleftrightarrow> wild p (take j t)" "0 \<le> r ! (j + 1)" "r ! (j + 1) = 0 \<longleftrightarrow> wild p (take j t @ [x])"
    using r j tk by (auto simp: row_ok_def)
  let ?n = "cell c x (r ! j) (r ! (j + 1)) cur"
  have n0: "0 \<le> ?n" using cell_zero(1) [OF rj(1,3) Cons.prems(3)] .
  have n: "?n = 0 \<longleftrightarrow> wild (p @ [c]) (take (j + 1) t)"
  proof (cases "c = 42")
    case True
    have "wild p (take j t) \<Longrightarrow> wild (p @ [42]) (take j t)" by (auto simp: wild_snoc_star)
    then show ?thesis
      using True cell_zero(2) [OF rj(1,3) Cons.prems(3), of c x] rj Cons.prems(4) tk
      by (auto simp: wild_snoc_star_snoc)
  next
    case False
    then show ?thesis using cell_zero(2) [OF rj(1,3) Cons.prems(3), of c x] rj tk by (auto simp: wild_snoc_char)
  qed
  have IH: "length (fill_row c xs (drop (j + 1) r) ?n) = length xs + 1 \<and>
    (\<forall>k \<le> length xs. 0 \<le> fill_row c xs (drop (j + 1) r) ?n ! k \<and>
      (fill_row c xs (drop (j + 1) r) ?n ! k = 0 \<longleftrightarrow> wild (p @ [c]) (take (j + 1 + k) t)))"
    using Cons.prems(1) x(2) n0 n by (intro Cons.IH) auto
  have f: "fill_row c (x # xs) (drop j r) cur = cur # fill_row c xs (drop (j + 1) r) ?n"
    by (simp only: d fill_row_Cons)
  have "0 \<le> (cur # fill_row c xs (drop (j + 1) r) ?n) ! k \<and>
      ((cur # fill_row c xs (drop (j + 1) r) ?n) ! k = 0 \<longleftrightarrow> wild (p @ [c]) (take (j + k) t))" if "k \<le> length (x # xs)" for k
    using that IH Cons.prems(3,4) by (cases k) auto
  then show ?case using IH f by simp
qed

lemma match_rows_ok: "row_ok p t r \<Longrightarrow> row_ok (p @ q) t (match_rows q t r)"
proof (induction q arbitrary: p r)
  case (Cons c q)
  let ?cur = "hd r + (if c \<noteq> 42 then 1 else 0)"
  have r: "length r = length t + 1" "0 \<le> r ! 0" "r ! 0 = 0 \<longleftrightarrow> wild p []"
    using Cons.prems by (auto simp: row_ok_def)
  have h: "hd r = r ! 0" using r(1) by (cases r) auto
  have cur: "0 \<le> ?cur" "?cur = 0 \<longleftrightarrow> wild (p @ [c]) (take 0 t)"
    using r h by (auto simp: wild_snoc_Nil)
  have "row_ok (p @ [c]) t (fill_row c t r ?cur)"
    using fill_row_ok [OF Cons.prems, of 0 t ?cur c] cur by (auto simp: row_ok_def)
  from Cons.IH [OF this] show ?case by simp
qed simp

lemma row_ok_Nil: "row_ok [] t (map int [0..<length t + 1])"
  by (auto simp: row_ok_def simp del: upt_Suc)

section \<open>Trimming lemmas\<close>

lemma trim_start_eq: "drop (trim_start s) s = dropWhile isSpace s" "trim_start s \<le> length s"
  by (induction s) auto

lemma trim_end_bounds:
  "Start \<le> trim_end s Start k \<and> trim_end s Start k \<le> Start + k"
  by (induction k) auto

text \<open>The end is the last character that is not a space, or the start.\<close>

lemma trim_end_spec:
  "(trim_end s Start k = Start \<or> \<not> isSpace (s ! trim_end s Start k)) \<and>
   (\<forall>i. trim_end s Start k < i \<and> i \<le> Start + k \<longrightarrow> isSpace (s ! i))"
  by (induction k) (auto simp: le_Suc_eq)

lemma dropWhile_all: "\<forall>x \<in> set xs. P x \<Longrightarrow> dropWhile P (xs @ ys) = dropWhile P ys"
  by (induction xs) auto

lemma Trim_reference: "Trim s = rev (dropWhile isSpace (rev (dropWhile isSpace s)))"
proof (cases "trim_start s < length s")
  case False
  then have empty: "dropWhile isSpace s = []"
    using trim_start_eq(1) [of s] drop_all [of s "trim_start s"] by (simp del: dropWhile_eq_Nil_conv)
  show ?thesis unfolding empty using False by (simp add: Trim_def)
next
  case True
  define a e where "a = trim_start s" and "e = trim_end s (trim_start s) (length s - 1 - trim_start s)"
  define t where "t = drop a s"
  have t: "t = dropWhile isSpace s" using trim_start_eq(1) by (simp add: t_def a_def)
  have tne: "t \<noteq> []" using True by (simp add: t_def a_def)
  have "hd t = s ! a" using True by (simp add: t_def a_def hd_drop_conv_nth)
  moreover have "\<not> isSpace (hd t)" unfolding t by (rule hd_dropWhile [OF tne [unfolded t]])
  ultimately have first: "\<not> isSpace (s ! a)" by simp
  have e: "a \<le> e" "e < length s" using trim_end_bounds [of a s "length s - 1 - a"] True by (auto simp: a_def e_def)
  have last: "\<not> isSpace (s ! e)" and rest: "\<And>i. e < i \<Longrightarrow> i < length s \<Longrightarrow> isSpace (s ! i)"
    using trim_end_spec [of s a "length s - 1 - a"] first True by (auto simp: a_def e_def)
  have split: "t = take (e - a + 1) t @ drop (e - a + 1) t" by simp
  have spaces: "\<forall>x \<in> set (rev (drop (e - a + 1) t)). isSpace x"
    using rest e by (auto simp: t_def in_set_conv_nth)
  have "rev t = rev (drop (e - a + 1) t) @ rev (take (e - a + 1) t)" by (metis rev_append split)
  then have "dropWhile isSpace (rev t) = dropWhile isSpace (rev (take (e - a + 1) t))"
    using spaces by (simp add: dropWhile_all)
  also have "take (e - a + 1) t = take (e - a) t @ [s ! e]"
    using e by (simp add: t_def take_Suc_conv_app_nth)
  then have "dropWhile isSpace (rev (take (e - a + 1) t)) = rev (take (e - a + 1) t)" using last by simp
  finally have "rev (dropWhile isSpace (rev t)) = take (e - a + 1) t" by simp
  moreover have "Trim s = take (e - a + 1) t" using True by (simp add: Trim_def Let_def t_def a_def e_def)
  ultimately show ?thesis using t by simp
qed

section \<open>Plural lemmas\<close>

lemma length_cstr [simp]: "length (cstr s) = length s"
  by (simp add: cstr_def)

lemma length_pluralise: "length (pluralise name) \<le> length name + 2"
  by (auto simp: pluralise_def Let_def)

lemma strncmp_eq_length: "strncmp_eq s lit \<Longrightarrow> length lit \<le> length s"
  unfolding strncmp_eq_def by (metis length_take min.cobounded1)

lemma IsCountable_length: "IsCountable s \<Longrightarrow> 2 \<le> length s"
  using strncmp_eq_length [of s "cstr ''a ''"] strncmp_eq_length [of s "cstr ''an ''"]
  by (auto simp: IsCountable_def split: if_splits)

section \<open>Properties\<close>

text \<open>
  C40: \<open>MatchString\<close>, which computes an edit distance row by row, decides the wildcard patterns: it is
  true exactly when the text, of at most 255 characters, is an instance of the pattern with any
  characters for a star, any one for a question mark, and the case of the others ignored.
\<close>

theorem match_string_wildcards:
  assumes "length t \<le> 255"
  shows "MatchString (Some p) (Some t) = (wild p t, False)"
proof -
  have "row_ok p t (match_rows p t (map int [0..<length t + 1]))"
    using match_rows_ok [OF row_ok_Nil, of p t] by simp
  then show ?thesis using assms by (auto simp: MatchString_def row_ok_def simp del: upt_Suc)
qed

theorem match_string_wildcards_witness:
  "length (cstr ''Giant Spider'') \<le> 255 \<and>
   MatchString (Some (cstr ''giant*'')) (Some (cstr ''Giant Spider'')) = (wild (cstr ''giant*'') (cstr ''Giant Spider''), False)"
  using match_string_wildcards [of "cstr ''Giant Spider''" "cstr ''giant*''"] by simp

text \<open>
  \<open>SearchForWord\<close> returns the first position of the text where a word starts that begins with the
  pattern, ignoring case (and ends with it, when the pattern ends with a dollar sign), and NULL when
  there is no such position.
\<close>

theorem search_for_word_first:
  assumes "p \<noteq> []"
  shows "case SearchForWord (Some p) (Some t) of
      (Some i, err) \<Rightarrow> \<not> err \<and> word_start t i \<and> word_match p t i \<and> (\<forall>j < i. \<not> (word_start t j \<and> word_match p t j))
    | (None, err) \<Rightarrow> \<not> err \<and> (\<forall>j. \<not> (word_start t j \<and> word_match p t j))"
proof -
  let ?f = "List.find (\<lambda>k. word_start t k \<and> word_match p t k) [0..<length t]"
  have s: "SearchForWord (Some p) (Some t) = (?f, False)"
    using assms search_word_loop_spec [of 0 "length t" t True p] by (simp add: SearchForWord_def)
  show ?thesis
  proof (cases ?f)
    case None
    then have "\<forall>j. \<not> (word_start t j \<and> word_match p t j)"
      unfolding find_None_iff by (auto simp: word_start_def)
    then show ?thesis using s None by simp
  next
    case (Some i)
    then have "word_start t i \<and> word_match p t i \<and> (\<forall>j < i. \<not> (word_start t j \<and> word_match p t j))"
      unfolding find_Some_least by blast
    then show ?thesis using s Some by simp
  qed
qed

theorem search_for_word_first_witness:
  "cstr ''key$'' \<noteq> [] \<and> SearchForWord (Some (cstr ''key$'')) (Some (cstr ''a Key'')) = (Some 2, False) \<and>
   word_match (cstr ''key$'') (cstr ''a Key'') 2"
proof -
  have r: "SearchForWord (Some (cstr ''key$'')) (Some (cstr ''a Key'')) = (Some 2, False)" by code_simp
  have n: "cstr ''key$'' \<noteq> []" by (simp add: cstr_def)
  show ?thesis using search_for_word_first [OF n, of "cstr ''a Key''"] r n by simp
qed

text \<open>
  \<open>SearchForNumber\<close> with a positive count returns the position of the number of that rank among the
  numbers that stand as words in the text, and NULL when there are fewer.
\<close>

theorem search_for_number_rank:
  assumes "1 \<le> k"
  shows "SearchForNumber (int k) (Some t) =
    (let ps = filter (\<lambda>i. word_start t i \<and> number_at t i) [0..<length t]
     in if k \<le> length ps then Some (ps ! (k - 1)) else None, False)"
  using search_number_loop_spec [of 0 "length t" t True k] assms by (simp add: SearchForNumber_def)

theorem search_for_number_rank_witness:
  "1 \<le> (2 :: nat) \<and> SearchForNumber 2 (Some (cstr ''3 or 12 gp'')) = (Some 5, False)"
proof -
  have "filter (\<lambda>i. word_start (cstr ''3 or 12 gp'') i \<and> number_at (cstr ''3 or 12 gp'') i)
      [0..<length (cstr ''3 or 12 gp'')] = [0, 5]"
    by code_simp
  then show ?thesis using search_for_number_rank [of 2 "cstr ''3 or 12 gp''"] by simp
qed

text \<open>
  \<open>Plural\<close> stays inside its buffer of 50 characters for every object name that fits it, whatever the
  count: the plural form, the rest of the name behind \<open>of\<close> and the count are cut, never overrun. A name
  that does not fit overruns the buffer at once.
\<close>

theorem plural_fits_buffer:
  "(length s < 50 \<longrightarrow> (\<exists>r. Plural (Some s) Count = Some r \<and> length r < 50)) \<and>
   (50 \<le> length s \<longrightarrow> Plural (Some s) Count = None)"
proof (intro conjI impI)
  assume s: "length s < 50"
  show "\<exists>r. Plural (Some s) Count = Some r \<and> length r < 50"
  proof (cases "Count = 1 \<or> \<not> IsCountable s")
    case True
    then show ?thesis using s by (simp add: Plural_def fits_def)
  next
    case False
    have l: "length (without_article s) + 2 < 50"
      using s IsCountable_length [of s] False by (auto simp: without_article_def)
    obtain n h where nh: "split_suffix (without_article s) = (n, h)" by fastforce
    have len: "length n + length h = length (without_article s)"
      using nh by (auto simp: split_suffix_def split: option.splits)
    have "length (pluralise n @ h) < 50" "length (pluralise n) < 50" using length_pluralise [of n] len l by auto
    then have "fits (pluralise n) = Some (pluralise n)" "fits (pluralise n @ h) = Some (pluralise n @ h)" "fits s = Some s"
      using s by (simp_all add: fits_def)
    then show ?thesis using False nh l \<open>length (pluralise n @ h) < 50\<close>
      by (simp add: Plural_def Let_def) linarith
  qed
next
  assume "50 \<le> length s"
  then show "Plural (Some s) Count = None" by (simp add: Plural_def fits_def)
qed

theorem plural_fits_buffer_witness:
  "length (cstr ''a cup of wolf'') < 50 \<and> (\<exists>r. Plural (Some (cstr ''a cup of wolf'')) 3 = Some r \<and> length r < 50)"
  using plural_fits_buffer [of "cstr ''a cup of wolf''" 3] by simp

text \<open>
  Both forms of \<open>Trim\<close> leave exactly the text without the white space at its two ends.
\<close>

theorem trim_both_ends:
  "Trim s = rev (dropWhile isSpace (rev (dropWhile isSpace s)))"
  by (rule Trim_reference)

text \<open>
  \<open>AddSlashes\<close> is injective, so an escaped text stands for one text only, and it needs at most twice
  the room of its source.
\<close>

theorem add_slashes_injective:
  "(AddSlashes s = AddSlashes t \<longleftrightarrow> s = t) \<and> length (AddSlashes s) \<le> 2 * length s"
proof (intro conjI)
  show "AddSlashes s = AddSlashes t \<longleftrightarrow> s = t"
  proof (induction s arbitrary: t)
    case Nil
    then show ?case by (cases t) auto
  next
    case (Cons c s)
    then show ?case by (cases t) (auto simp: is_special_def)
  qed
  show "length (AddSlashes s) \<le> 2 * length s" by (induction s) auto
qed

end
