(* ===== verification/Skill.thy ===== *)
theory Skill
  imports Prelude
begin

text \<open>
  The skills of a creature (\<open>creature/skill/skill.h\<close>, \<open>creature/skill/skill.cpp\<close>): the
  class \<open>TSkill\<close> and its subclasses, with the creature they belong to. This theory holds the
  data and every method that does not run on a timer: values, progress, the experience
  needed for a level, gaining and losing experience and levels. \<open>Skill_Timer\<close> adds the timers.

  \<^item> The skill objects live in a heap indexed by address; the creature holds pointers to them
    (\<open>Skills\<close>, \<open>TimerList\<close>), \<open>None\<close> being \<open>NULL\<close>. A method of a skill takes the address of
    its object. The dynamic class is the field \<open>vtable\<close>, and a virtual method dispatches on it.
  \<^item> \<open>Master\<close> of a skill is the creature that owns it or \<open>NULL\<close>: the constructor of \<open>TCreature\<close>
    passes \<open>this\<close>, so the field is a flag.
  \<^item> An operation gives \<open>None\<close> where the code has no defined behaviour (a \<open>NULL\<close> or freed object is
    used, the experience of a skill overflows an \<open>int\<close>) or does not return.
  \<^item> What a method sends to clients or to other components is appended to \<open>trace\<close>. Floating
    point (\<open>pow\<close>) and \<open>TCreature::Damage\<close> are the fields of the environment \<open>env\<close>.
\<close>

section \<open>Data\<close>

datatype skill_class = BaseSkill | SkillLevel | SkillProbe | SkillHitpoints | SkillMana
  | SkillGoStrength | SkillCarryStrength | SkillSoulpoints | SkillFed | SkillLight
  | SkillIllusion | SkillPoison | SkillBurning | SkillEnergy

text \<open>The skill numbers of \<open>enums.h\<close>.\<close>

abbreviation SKILL_LEVEL :: nat where "SKILL_LEVEL \<equiv> 0"
abbreviation SKILL_MAGIC_LEVEL :: nat where "SKILL_MAGIC_LEVEL \<equiv> 1"
abbreviation SKILL_HITPOINTS :: nat where "SKILL_HITPOINTS \<equiv> 2"
abbreviation SKILL_MANA :: nat where "SKILL_MANA \<equiv> 3"
abbreviation SKILL_GO_STRENGTH :: nat where "SKILL_GO_STRENGTH \<equiv> 4"
abbreviation SKILL_CARRY_STRENGTH :: nat where "SKILL_CARRY_STRENGTH \<equiv> 5"
abbreviation SKILL_SHIELDING :: nat where "SKILL_SHIELDING \<equiv> 6"
abbreviation SKILL_DISTANCE :: nat where "SKILL_DISTANCE \<equiv> 7"
abbreviation SKILL_SWORD :: nat where "SKILL_SWORD \<equiv> 8"
abbreviation SKILL_CLUB :: nat where "SKILL_CLUB \<equiv> 9"
abbreviation SKILL_AXE :: nat where "SKILL_AXE \<equiv> 10"
abbreviation SKILL_FIST :: nat where "SKILL_FIST \<equiv> 11"
abbreviation SKILL_MAGIC_DEFENSE :: nat where "SKILL_MAGIC_DEFENSE \<equiv> 12"
abbreviation SKILL_FISHING :: nat where "SKILL_FISHING \<equiv> 13"
abbreviation SKILL_FED :: nat where "SKILL_FED \<equiv> 14"
abbreviation SKILL_LIGHT :: nat where "SKILL_LIGHT \<equiv> 15"
abbreviation SKILL_ILLUSION :: nat where "SKILL_ILLUSION \<equiv> 16"
abbreviation SKILL_POISON :: nat where "SKILL_POISON \<equiv> 17"
abbreviation SKILL_BURNING :: nat where "SKILL_BURNING \<equiv> 18"
abbreviation SKILL_ENERGY :: nat where "SKILL_ENERGY \<equiv> 19"
abbreviation SKILL_DRUNKEN :: nat where "SKILL_DRUNKEN \<equiv> 20"
abbreviation SKILL_MANASHIELD :: nat where "SKILL_MANASHIELD \<equiv> 21"
abbreviation SKILL_SOUL :: nat where "SKILL_SOUL \<equiv> 22"

datatype creature_change = CREATURE_HEALTH_CHANGED | CREATURE_LIGHT_CHANGED
  | CREATURE_OUTFIT_CHANGED | CREATURE_SPEED_CHANGED

text \<open>What the code sends to other components; numbers in a message are its arguments.\<close>

datatype effect = Error string | SendPlayerData | SendPlayerSkills | SendPlayerState u8
  | SendMessage string "int list" | AnnounceChanged creature_change | CheckCombatValues
  | NotifyAllCreatures

record TSkill =
  vtable :: skill_class
  DAct :: int
  MDAct :: int
  SkNr :: nat
  Master :: bool
  Act :: int
  MaxVal :: int
  MinVal :: int
  FactorPercent :: int
  LastLevel :: int
  NextLevel :: int
  Delta :: int
  Exp :: int
  Cycle :: int
  MaxCycle :: int
  Count :: int
  MaxCount :: int
  AddLevel :: int

text \<open>
  \<open>Connection\<close> says whether the pointer is set; \<open>ProtectionZone\<close> is the result of
  \<open>is_protection_zone\<close> at the creature's position and \<open>AvoidFields\<close> lists the attribute
  \<open>AVOIDDAMAGETYPES\<close> of the objects with flag \<open>AVOID\<close> there; \<open>LogoutBlocked\<close> is
  \<open>RoundNr < EarliestLogoutRound\<close>.
\<close>

record crea =
  heap :: "addr \<Rightarrow> TSkill option"
  Skills :: "addr option list"
  TimerList :: "addr option list"
  FirstFreeTimer :: nat
  crType :: creature_type
  IsDead :: bool
  Connection :: bool
  OldState :: u8
  LogoutBlocked :: bool
  ActiveProfession :: nat
  ProtectionZone :: bool
  AvoidFields :: "int list"
  Outfit :: int
  OrgOutfit :: int
  PoisonDamageOrigin :: nat
  FireDamageOrigin :: nat
  EnergyDamageOrigin :: nat
  trace :: "effect list"

text \<open>
  \<open>pow_exp f d n\<close> is \<open>(int)(d * ((pow(f / 1000.0, n) - 1.0) / (f / 1000.0 - 1.0)))\<close>;
  \<open>renorm_exp f d n e l m\<close> is the experience \<open>ChangeSkill\<close> computes from the old \<open>Exp\<close> \<open>e\<close>,
  \<open>LastLevel\<close> \<open>l\<close> and \<open>NextLevel\<close> \<open>m\<close>; \<open>damage\<close> is \<open>TCreature::Damage\<close> with an attacker, an
  amount and a type of damage.
\<close>

record env =
  pow_exp :: "int \<Rightarrow> int \<Rightarrow> int \<Rightarrow> int"
  renorm_exp :: "int \<Rightarrow> int \<Rightarrow> int \<Rightarrow> int \<Rightarrow> int \<Rightarrow> int \<Rightarrow> int"
  damage :: "nat \<Rightarrow> int \<Rightarrow> int \<Rightarrow> crea \<Rightarrow> crea option"

definition put :: "addr \<Rightarrow> TSkill \<Rightarrow> crea \<Rightarrow> crea" where
  "put a sk c = c\<lparr>heap := (heap c)(a \<mapsto> sk)\<rparr>"

definition emits :: "effect list \<Rightarrow> crea \<Rightarrow> crea" where
  "emits es c = c\<lparr>trace := trace c @ es\<rparr>"

definition skill_ptr :: "crea \<Rightarrow> nat \<Rightarrow> addr option" where
  "skill_ptr c n = (if n < length (Skills c) then Skills c ! n else None)"

definition skill_at :: "crea \<Rightarrow> nat \<Rightarrow> TSkill option" where
  "skill_at c n = do {a \<leftarrow> skill_ptr c n; heap c a}"

text \<open>Undefined behaviour when a signed result does not fit an \<open>int\<close>.\<close>

definition checked :: "int \<Rightarrow> int option" where
  "checked x = (if in_int32 x then Some x else None)"

section \<open>Values\<close>

definition TSkill_Reset :: "TSkill \<Rightarrow> TSkill" where
  "TSkill_Reset sk = sk\<lparr>Act := 0, MaxVal := INT_MAX, MinVal := 0, DAct := 0, MDAct := 0,
     FactorPercent := 1000, LastLevel := 0, NextLevel := INT_MAX, Exp := 0, Delta := INT_MAX,
     Cycle := 0, MaxCycle := 0, Count := 0, MaxCount := 0, AddLevel := 0\<rparr>"

definition SkillPoison_Reset :: "TSkill \<Rightarrow> TSkill" where
  "SkillPoison_Reset sk = (TSkill_Reset sk)\<lparr>FactorPercent := 0x32\<rparr>"

definition Reset :: "TSkill \<Rightarrow> TSkill" where
  "Reset sk = (case vtable sk of SkillPoison \<Rightarrow> SkillPoison_Reset sk | _ \<Rightarrow> TSkill_Reset sk)"

text \<open>
  While the constructor of \<open>TSkill\<close> runs, the object is a plain \<open>TSkill\<close>: its call of
  \<open>Reset\<close> is \<open>TSkill::Reset\<close> for every class.
\<close>

definition TSkill_new :: "skill_class \<Rightarrow> nat \<Rightarrow> bool \<Rightarrow> TSkill" where
  "TSkill_new cls nr master = (Reset \<lparr>vtable = BaseSkill, DAct = 0, MDAct = 0, SkNr = 0,
     Master = False, Act = 0, MaxVal = 0, MinVal = 0, FactorPercent = 0, LastLevel = 0,
     NextLevel = 0, Delta = 0, Exp = 0, Cycle = 0, MaxCycle = 0, Count = 0, MaxCount = 0,
     AddLevel = 0\<rparr>)\<lparr>SkNr := nr mod 2 ^ 16, Master := master, vtable := cls\<rparr>"

definition Get :: "TSkill \<Rightarrow> int" where
  "Get sk = (let Value = Act sk;
                 Value = (if Value < MinVal sk then MinVal sk else Value)
             in Value + (MDAct sk + DAct sk))"

definition GetProgress :: "TSkill \<Rightarrow> int \<times> effect list" where
  "GetProgress sk =
     (if NextLevel sk > LastLevel sk
      then let Result = to_int32 (((Exp sk - LastLevel sk) * 100) sdiv (NextLevel sk - LastLevel sk))
           in if Result < 0 \<or> Result > 100
              then (0, [Error ''TSkill::GetProgress: Berechnungsfehler'', Error ''# Player, Skill''])
              else (Result, [])
      else (0, []))"

definition Check :: "addr \<Rightarrow> crea \<Rightarrow> crea option" where
  "Check a c = do {
     sk \<leftarrow> heap c a;
     Some (if Act sk > MaxVal sk then put a (sk\<lparr>Act := MaxVal sk\<rparr>) c else c)}"

definition TimerValue :: "TSkill \<Rightarrow> int" where
  "TimerValue sk = (case vtable sk of
       SkillSoulpoints \<Rightarrow> (Cycle sk - 1) * MaxCount sk + Count sk
     | _ \<Rightarrow> Cycle sk)"

text \<open>\<open>TPlayer::CheckState\<close>, and the guarded call of it that most methods make.\<close>

definition CheckState :: "crea \<Rightarrow> crea option" where
  "CheckState c =
     (if Connection c
      then do {
        poison \<leftarrow> skill_at c SKILL_POISON;
        burning \<leftarrow> skill_at c SKILL_BURNING;
        energy \<leftarrow> skill_at c SKILL_ENERGY;
        drunken \<leftarrow> skill_at c SKILL_DRUNKEN;
        manashield \<leftarrow> skill_at c SKILL_MANASHIELD;
        gostrength \<leftarrow> skill_at c SKILL_GO_STRENGTH;
        let State = (if TimerValue poison > 0 then 0x01 else 0)
              OR (if TimerValue burning > 0 then 0x02 else 0)
              OR (if TimerValue energy > 0 then 0x04 else 0)
              OR (if TimerValue drunken > 0 \<and> Get drunken = 0 then 0x08 else 0)
              OR (if TimerValue manashield > 0 \<or> Get manashield > 0 then 0x10 else 0)
              OR (if MDAct gostrength < 0 then 0x20 else if MDAct gostrength > 0 then 0x40 else 0)
              OR (if LogoutBlocked c then 0x80 else 0);
        Some (if State \<noteq> OldState c
              then emits [SendPlayerState State] (c\<lparr>OldState := State\<rparr>) else c)}
      else Some c)"

definition master_check_state :: "TSkill \<Rightarrow> crea \<Rightarrow> crea option" where
  "master_check_state sk c = (if Master sk \<and> crType c = PLAYER then CheckState c else Some c)"

definition SetMDAct :: "addr \<Rightarrow> int \<Rightarrow> crea \<Rightarrow> crea option" where
  "SetMDAct a v c = do {
     sk \<leftarrow> heap c a;
     let c = put a (sk\<lparr>MDAct := v\<rparr>) c;
     if SkNr sk = SKILL_GO_STRENGTH then master_check_state sk c else Some c}"

section \<open>Setting and changing the actual value\<close>

definition TSkill_Set :: "addr \<Rightarrow> int \<Rightarrow> crea \<Rightarrow> crea option" where
  "TSkill_Set a Value c = do {
     sk \<leftarrow> heap c a;
     Some (put a (sk\<lparr>Act := (if Value > MaxVal sk then MaxVal sk else Value)\<rparr>) c)}"

definition SkillHitpoints_Set :: "addr \<Rightarrow> int \<Rightarrow> crea \<Rightarrow> crea option" where
  "SkillHitpoints_Set a Value c = do {
     sk \<leftarrow> heap c a;
     if Master sk \<and> IsDead c \<and> Value > 0
     then Some (emits [Error ''SkillHitpoints::Set: HP of dead creature should not be increased.''] c)
     else do {
       let c = put a (sk\<lparr>Act := (if Value > MaxVal sk then MaxVal sk else Value)\<rparr>) c;
       Some (if Master sk
             then emits ((if crType c = PLAYER then [SendPlayerData] else [])
                         @ [AnnounceChanged CREATURE_HEALTH_CHANGED]) c
             else c)}}"

definition SkillMana_Set :: "addr \<Rightarrow> int \<Rightarrow> crea \<Rightarrow> crea option" where
  "SkillMana_Set a Value c = do {
     sk \<leftarrow> heap c a;
     let c = put a (sk\<lparr>Act := (if Value > MaxVal sk then MaxVal sk else Value)\<rparr>) c;
     Some (if Master sk \<and> crType c = PLAYER then emits [SendPlayerData] c else c)}"

definition SkillCarryStrength_Set :: "addr \<Rightarrow> int \<Rightarrow> crea \<Rightarrow> crea option" where
  "SkillCarryStrength_Set a Value c = do {
     sk \<leftarrow> heap c a;
     let c = put a (sk\<lparr>Act := (if Value > MaxVal sk then MaxVal sk else Value)\<rparr>) c;
     Some (if Master sk \<and> crType c = PLAYER then emits [SendPlayerData] c else c)}"

definition SkillSoulpoints_Set :: "addr \<Rightarrow> int \<Rightarrow> crea \<Rightarrow> crea option" where
  "SkillSoulpoints_Set a Value c = do {
     sk \<leftarrow> heap c a;
     let c = put a (sk\<lparr>Act := (if Value > MaxVal sk then MaxVal sk else Value)\<rparr>) c;
     Some (if Master sk \<and> crType c = PLAYER then emits [SendPlayerData] c else c)}"

definition Set :: "addr \<Rightarrow> int \<Rightarrow> crea \<Rightarrow> crea option" where
  "Set a Value c = do {
     sk \<leftarrow> heap c a;
     case vtable sk of
       SkillHitpoints \<Rightarrow> SkillHitpoints_Set a Value c
     | SkillMana \<Rightarrow> SkillMana_Set a Value c
     | SkillCarryStrength \<Rightarrow> SkillCarryStrength_Set a Value c
     | SkillSoulpoints \<Rightarrow> SkillSoulpoints_Set a Value c
     | _ \<Rightarrow> TSkill_Set a Value c}"

definition Change :: "addr \<Rightarrow> int \<Rightarrow> crea \<Rightarrow> crea option" where
  "Change a Amount c = do {
     sk \<leftarrow> heap c a;
     c \<leftarrow> Set a (Act sk + Amount) c;
     sk \<leftarrow> heap c a;
     Some (if Act sk > MaxVal sk then put a (sk\<lparr>Act := MaxVal sk\<rparr>) c else c)}"

definition SetMax :: "addr \<Rightarrow> crea \<Rightarrow> crea option" where
  "SetMax a c = do {sk \<leftarrow> heap c a; Set a (MaxVal sk) c}"

text \<open>\<open>SkillAdd::Advance\<close>; the base class does nothing.\<close>

definition SkillAdd_Advance :: "addr \<Rightarrow> int \<Rightarrow> crea \<Rightarrow> crea option" where
  "SkillAdd_Advance a Rng c = do {
     sk \<leftarrow> heap c a;
     Increment \<leftarrow> checked (Rng * AddLevel sk);
     mx \<leftarrow> checked (MaxVal sk + Increment);
     ac \<leftarrow> checked (Act sk + Increment);
     let ac = (if ac > mx then mx else ac);
     Some (put a (sk\<lparr>Act := ac, MaxVal := mx\<rparr>) c)}"

definition is_SkillAdd :: "skill_class \<Rightarrow> bool" where
  "is_SkillAdd k \<longleftrightarrow> k = SkillHitpoints \<or> k = SkillMana \<or> k = SkillGoStrength
     \<or> k = SkillCarryStrength \<or> k = SkillSoulpoints"

definition Advance :: "addr \<Rightarrow> int \<Rightarrow> crea \<Rightarrow> crea option" where
  "Advance a Rng c = do {
     sk \<leftarrow> heap c a;
     if is_SkillAdd (vtable sk) then SkillAdd_Advance a Rng c else Some c}"

section \<open>Levels\<close>

definition SkillLevel_GetExpForLevel :: "TSkill \<Rightarrow> int \<Rightarrow> (int \<times> effect list) option" where
  "SkillLevel_GetExpForLevel sk Level =
     (if Level < 1 then Some (0, [Error ''SkillLevel::GetExpForLevel: Invalid level''])
      else if Delta sk \<le> 0 then Some (0, [Error ''SkillLevel::GetExpForLevel: Invalid delta value''])
      else if Level > 500
      then Some (- 1, [Error ''SkillLevel::GetExpForLevel: formula needs overflow protection''])
      else do {
        v \<leftarrow> checked (((((Level - 6) * Level + 17) * Level - 12) sdiv 6) * Delta sk);
        Some (v, [])})"

definition SkillProbe_GetExpForLevel :: "env \<Rightarrow> TSkill \<Rightarrow> int \<Rightarrow> (int \<times> effect list) option" where
  "SkillProbe_GetExpForLevel E sk Level =
     (if Level < 0 \<or> Level < MinVal sk
      then Some (0, [Error ''SkillProbe::GetExpForLevel: Invalid level''])
      else if Delta sk \<le> 0 then Some (0, [Error ''SkillProbe::GetExpForLevel: Invalid delta value''])
      else if FactorPercent sk < 1050
      then do {
        v \<leftarrow> checked ((Level - MinVal sk) * Delta sk);
        Some (v, if FactorPercent sk \<noteq> 1000
                 then [Error ''SkillProbe::GetExpForLevel: Invalid FactorPercent''] else [])}
      else Some (pow_exp E (FactorPercent sk) (Delta sk) (Level - MinVal sk), []))"

definition GetExpForLevel :: "env \<Rightarrow> TSkill \<Rightarrow> int \<Rightarrow> (int \<times> effect list) option" where
  "GetExpForLevel E sk Level =
     (case vtable sk of
        SkillLevel \<Rightarrow> SkillLevel_GetExpForLevel sk Level
      | SkillProbe \<Rightarrow> SkillProbe_GetExpForLevel E sk Level
      | _ \<Rightarrow> Some (0, []))"

definition SkillLevel_Jump :: "addr \<Rightarrow> int \<Rightarrow> crea \<Rightarrow> (bool \<times> crea) option" where
  "SkillLevel_Jump a Rng c = do {
     sk \<leftarrow> heap c a;
     if \<not> Master sk
     then Some (False, emits [Error ''SkillLevel::Jump: GetMaster liefert NULL zurueck!''] c)
     else do {
       hp \<leftarrow> skill_ptr c SKILL_HITPOINTS;
       c \<leftarrow> Advance hp Rng c;
       mp \<leftarrow> skill_ptr c SKILL_MANA;
       c \<leftarrow> Advance mp Rng c;
       gs \<leftarrow> skill_ptr c SKILL_GO_STRENGTH;
       c \<leftarrow> Advance gs Rng c;
       cs \<leftarrow> skill_ptr c SKILL_CARRY_STRENGTH;
       c \<leftarrow> Advance cs Rng c;
       let c = emits [AnnounceChanged CREATURE_SPEED_CHANGED, CheckCombatValues] c;
       sk \<leftarrow> heap c a;
       let ToLevel = Get sk;
       let FromLevel = ToLevel - Rng;
       Some (True,
         if crType c = PLAYER
         then if Rng > 0 then emits [SendMessage ''You advanced from Level to Level'' [FromLevel, ToLevel]] c
              else if Rng < 0
              then emits [SendMessage ''You were downgraded from Level to Level'' [FromLevel, ToLevel]] c
              else c
         else c)}}"

definition advance_message :: "TSkill \<Rightarrow> effect list" where
  "advance_message sk =
     (if SkNr sk = SKILL_MAGIC_LEVEL then [SendMessage ''You advanced to magic level'' [Get sk]]
      else if SkNr sk = SKILL_SHIELDING then [SendMessage ''You advanced in shielding.'' []]
      else if SkNr sk = SKILL_DISTANCE then [SendMessage ''You advanced in distance fighting.'' []]
      else if SkNr sk = SKILL_SWORD then [SendMessage ''You advanced in sword fighting.'' []]
      else if SkNr sk = SKILL_CLUB then [SendMessage ''You advanced in club fighting.'' []]
      else if SkNr sk = SKILL_AXE then [SendMessage ''You advanced in axe fighting.'' []]
      else if SkNr sk = SKILL_FIST then [SendMessage ''You advanced in fist fighting.'' []]
      else if SkNr sk = SKILL_FISHING then [SendMessage ''You advanced in fishing.'' []]
      else [])"

definition send_skill :: "TSkill \<Rightarrow> effect" where
  "send_skill sk = (if SkNr sk = SKILL_MAGIC_LEVEL then SendPlayerData else SendPlayerSkills)"

definition SkillProbe_Jump :: "addr \<Rightarrow> int \<Rightarrow> crea \<Rightarrow> (bool \<times> crea) option" where
  "SkillProbe_Jump a Rng c = do {
     sk \<leftarrow> heap c a;
     if \<not> Master sk
     then Some (False, emits [Error ''SkillProbe::Jump: GetMaster liefert NULL zurueck!''] c)
     else Some (True,
       if crType c = PLAYER
       then emits (send_skill sk # (if Rng > 0 then advance_message sk else [])) c
       else c)}"

definition Jump :: "addr \<Rightarrow> int \<Rightarrow> crea \<Rightarrow> (bool \<times> crea) option" where
  "Jump a Rng c = do {
     sk \<leftarrow> heap c a;
     case vtable sk of
       SkillLevel \<Rightarrow> SkillLevel_Jump a Rng c
     | SkillProbe \<Rightarrow> SkillProbe_Jump a Rng c
     | _ \<Rightarrow> Some (True, c)}"

text \<open>
  The loops of \<open>Increase\<close> and \<open>Decrease\<close>. They touch only the object itself, so they run on its
  value and collect the messages of \<open>GetExpForLevel\<close>. \<open>adj\<close> is the experience taken back when
  the next level overflows: 1000000 for \<open>SkillLevel\<close>, 1000 for \<open>SkillProbe\<close>. The overflow message
  reads \<open>Master->Name\<close>.
\<close>

partial_function (option) increase_loop ::
  "env \<Rightarrow> int \<Rightarrow> TSkill \<Rightarrow> int \<Rightarrow> effect list \<Rightarrow> (TSkill \<times> int \<times> effect list) option" where
  "increase_loop E adj sk Rng es =
     (if NextLevel sk \<le> Exp sk
      then Option.bind (GetExpForLevel E (sk\<lparr>Act := Act sk + 1, LastLevel := NextLevel sk\<rparr>) (Act sk + 1 + 1))
        (\<lambda>r. if fst r < 0
             then (if Master sk
                   then Some (sk\<lparr>Act := Act sk + 1, LastLevel := NextLevel sk, NextLevel := Exp sk,
                                 Exp := Exp sk - adj\<rparr>,
                              Rng, es @ snd r @ [Error ''Skill about to overflow''])
                   else None)
             else increase_loop E adj
                    (sk\<lparr>Act := Act sk + 1, LastLevel := NextLevel sk, NextLevel := fst r\<rparr>)
                    (Rng + 1) (es @ snd r))
      else Some (sk, Rng, es))"

text \<open>\<open>guard\<close> is the extra condition \<open>Act > Min\<close> of \<open>SkillProbe::Decrease\<close>.\<close>

partial_function (option) decrease_loop ::
  "env \<Rightarrow> bool \<Rightarrow> TSkill \<Rightarrow> int \<Rightarrow> effect list \<Rightarrow> (TSkill \<times> int \<times> effect list) option" where
  "decrease_loop E guard sk Rng es =
     (if Exp sk < LastLevel sk \<and> (guard \<longrightarrow> MinVal sk < Act sk)
      then Option.bind (GetExpForLevel E (sk\<lparr>Act := Act sk - 1, NextLevel := LastLevel sk\<rparr>) (Act sk - 1))
        (\<lambda>r. decrease_loop E guard
                (sk\<lparr>Act := Act sk - 1, NextLevel := LastLevel sk, LastLevel := fst r\<rparr>)
                (Rng - 1) (es @ snd r))
      else Some (sk, Rng, es))"

declare increase_loop.simps [code] decrease_loop.simps [code]

definition jump_if :: "addr \<Rightarrow> int \<Rightarrow> crea \<Rightarrow> crea option" where
  "jump_if a Rng c = (if Rng \<noteq> 0 then map_option snd (Jump a Rng c) else Some c)"

definition SkillLevel_Increase :: "env \<Rightarrow> addr \<Rightarrow> int \<Rightarrow> crea \<Rightarrow> crea option" where
  "SkillLevel_Increase E a Amount c = do {
     sk \<leftarrow> heap c a;
     if Amount < 0 then Some (emits [Error ''SkillLevel::Increase: Amount negativ''] c)
     else do {
       x \<leftarrow> checked (Exp sk + Amount);
       (sk, Rng, es) \<leftarrow> increase_loop E 1000000 (sk\<lparr>Exp := x\<rparr>) 0 [];
       c \<leftarrow> jump_if a Rng (emits es (put a sk c));
       Some (if \<not> Master sk then emits [Error ''SkillLevel::Increase: GetMaster liefert NULL zurueck.''] c
             else if crType c = PLAYER then emits [SendPlayerData] c else c)}}"

definition SkillLevel_Decrease :: "env \<Rightarrow> addr \<Rightarrow> int \<Rightarrow> crea \<Rightarrow> crea option" where
  "SkillLevel_Decrease E a Amount c = do {
     sk \<leftarrow> heap c a;
     if Amount < 0 then Some (emits [Error ''SkillLevel::Decrease: Amount negativ''] c)
     else if Amount > Exp sk \<and> Exp sk > 100000
     then Some (emits [Error ''SkillLevel::Decrease: Amount zu gross''] c)
     else do {
       let x = (if Amount < Exp sk then Exp sk - Amount else 0);
       (sk, Rng, es) \<leftarrow> decrease_loop E False (sk\<lparr>Exp := x\<rparr>) 0 [];
       c \<leftarrow> jump_if a Rng (emits es (put a sk c));
       Some (if \<not> Master sk then emits [Error ''SkillLevel::Decrease: GetMaster liefert NULL zurueck.''] c
             else if crType c = PLAYER then emits [SendPlayerData] c else c)}}"

text \<open>
  The end of \<open>SkillProbe::Increase\<close> and \<open>SkillProbe::Decrease\<close>: \<open>Jump\<close>, or an update of the
  client when the progress within the level changed.
\<close>

definition probe_finish :: "addr \<Rightarrow> int \<Rightarrow> int \<Rightarrow> crea \<Rightarrow> crea option" where
  "probe_finish a OldProgress Rng c =
     (if Rng \<noteq> 0 then map_option snd (Jump a Rng c)
      else do {
        sk \<leftarrow> heap c a;
        Some (if Master sk \<and> crType c = PLAYER
              then let (NewProgress, es) = GetProgress sk
                   in emits (es @ (if NewProgress \<noteq> OldProgress then [send_skill sk] else [])) c
              else c)})"

definition SkillProbe_Increase :: "env \<Rightarrow> addr \<Rightarrow> int \<Rightarrow> crea \<Rightarrow> crea option" where
  "SkillProbe_Increase E a Amount c = do {
     sk \<leftarrow> heap c a;
     if Amount < 0 then Some (emits [Error ''SkillProbe::Increase: Amount negativ''] c)
     else do {
       let OldProgress = GetProgress sk;
       x \<leftarrow> checked (Exp sk + Amount);
       (sk, Rng, es) \<leftarrow> increase_loop E 1000 (sk\<lparr>Exp := x\<rparr>) 0 [];
       probe_finish a (fst OldProgress) Rng (emits (snd OldProgress @ es) (put a sk c))}}"

definition SkillProbe_Decrease :: "env \<Rightarrow> addr \<Rightarrow> int \<Rightarrow> crea \<Rightarrow> crea option" where
  "SkillProbe_Decrease E a Amount c = do {
     sk \<leftarrow> heap c a;
     if Amount < 0 then Some (emits [Error ''SkillProbe::Decrease: Amount negativ''] c)
     else do {
       let OldProgress = GetProgress sk;
       let x = (if Amount < Exp sk then Exp sk - Amount else 0);
       (sk, Rng, es) \<leftarrow> decrease_loop E True (sk\<lparr>Exp := x\<rparr>) 0 [];
       probe_finish a (fst OldProgress) Rng (emits (snd OldProgress @ es) (put a sk c))}}"

definition Increase :: "env \<Rightarrow> addr \<Rightarrow> int \<Rightarrow> crea \<Rightarrow> crea option" where
  "Increase E a Amount c = do {
     sk \<leftarrow> heap c a;
     case vtable sk of
       SkillLevel \<Rightarrow> SkillLevel_Increase E a Amount c
     | SkillProbe \<Rightarrow> SkillProbe_Increase E a Amount c
     | _ \<Rightarrow> Some c}"

definition Decrease :: "env \<Rightarrow> addr \<Rightarrow> int \<Rightarrow> crea \<Rightarrow> crea option" where
  "Decrease E a Amount c = do {
     sk \<leftarrow> heap c a;
     case vtable sk of
       SkillLevel \<Rightarrow> SkillLevel_Decrease E a Amount c
     | SkillProbe \<Rightarrow> SkillProbe_Decrease E a Amount c
     | _ \<Rightarrow> Some c}"

definition DecreasePercent :: "env \<Rightarrow> addr \<Rightarrow> int \<Rightarrow> crea \<Rightarrow> crea option" where
  "DecreasePercent E a Percent c = do {
     sk \<leftarrow> heap c a;
     Decrease E a (to_int32 ((Exp sk * Percent) sdiv 100)) c}"

section \<open>Trying a skill\<close>

definition SkillProbe_ChangeSkill :: "env \<Rightarrow> addr \<Rightarrow> int \<Rightarrow> int \<Rightarrow> crea \<Rightarrow> crea option" where
  "SkillProbe_ChangeSkill E a Factor D c = do {
     sk \<leftarrow> heap c a;
     let n = Act sk - MinVal sk;
     let x = renorm_exp E Factor D n (Exp sk) (LastLevel sk) (NextLevel sk);
     let c = put a (sk\<lparr>FactorPercent := Factor, LastLevel := pow_exp E Factor D n,
                       NextLevel := pow_exp E Factor D (n + 1), Delta := D, Exp := x\<rparr>) c;
     Some (if Master sk \<and> crType c = PLAYER then emits [send_skill sk] c else c)}"

definition ChangeSkill :: "env \<Rightarrow> addr \<Rightarrow> int \<Rightarrow> int \<Rightarrow> crea \<Rightarrow> crea option" where
  "ChangeSkill E a Factor D c = do {
     sk \<leftarrow> heap c a;
     if vtable sk = SkillProbe then SkillProbe_ChangeSkill E a Factor D c else Some c}"

text \<open>\<open>r1\<close> and \<open>r2\<close> are the results of the calls of \<open>rand()\<close>.\<close>

definition ProbeValue :: "env \<Rightarrow> int \<Rightarrow> int \<Rightarrow> addr \<Rightarrow> int \<Rightarrow> bool \<Rightarrow> crea \<Rightarrow> (int \<times> crea) option" where
  "ProbeValue E r1 r2 a mx inc c = do {
     sk \<leftarrow> heap c a;
     if vtable sk \<noteq> SkillProbe then Some (0, c)
     else do {
       c \<leftarrow> (if inc then Increase E a 1 c else Some c);
       sk \<leftarrow> heap c a;
       let RandomFactor = ((r1 smod 100) + (r2 smod 100)) sdiv 2;
       MaxValue \<leftarrow> checked (mx * (Get sk * 5 + 50));
       p \<leftarrow> checked (RandomFactor * MaxValue);
       Some (p sdiv 10000, c)}}"

definition Probe :: "env \<Rightarrow> int \<Rightarrow> int \<Rightarrow> addr \<Rightarrow> int \<Rightarrow> int \<Rightarrow> bool \<Rightarrow> crea \<Rightarrow> (bool \<times> crea) option" where
  "Probe E r1 r2 a Diff Prob inc c = do {
     sk \<leftarrow> heap c a;
     if vtable sk \<noteq> SkillProbe then Some (False, c)
     else do {
       c \<leftarrow> (if inc then Increase E a 1 c else Some c);
       sk \<leftarrow> heap c a;
       Some (if Diff \<noteq> 0
             then if Act sk \<ge> r1 smod Diff then r2 smod 100 \<le> Prob else False
             else True, c)}}"


section \<open>The class of each skill number\<close>

text \<open>The \<open>switch\<close> of \<open>SkillBase::NewSkill\<close>.\<close>

definition skill_class_of :: "nat \<Rightarrow> skill_class" where
  "skill_class_of SkillNo =
     (if SkillNo = SKILL_LEVEL then SkillLevel
      else if SkillNo \<in> {SKILL_MAGIC_LEVEL, SKILL_SHIELDING, SKILL_DISTANCE, SKILL_SWORD,
                         SKILL_CLUB, SKILL_AXE, SKILL_FIST, SKILL_FISHING} then SkillProbe
      else if SkillNo = SKILL_HITPOINTS then SkillHitpoints
      else if SkillNo = SKILL_MANA then SkillMana
      else if SkillNo = SKILL_GO_STRENGTH then SkillGoStrength
      else if SkillNo = SKILL_CARRY_STRENGTH then SkillCarryStrength
      else if SkillNo = SKILL_FED then SkillFed
      else if SkillNo = SKILL_LIGHT then SkillLight
      else if SkillNo = SKILL_ILLUSION then SkillIllusion
      else if SkillNo = SKILL_POISON then SkillPoison
      else if SkillNo = SKILL_BURNING then SkillBurning
      else if SkillNo = SKILL_ENERGY then SkillEnergy
      else if SkillNo = SKILL_SOUL then SkillSoulpoints
      else BaseSkill)"

text \<open>
  The state of the skills after the constructor of a creature: 25 slots, each with a live
  object of its number and class that belongs to the creature.
\<close>

definition slot_ok :: "crea \<Rightarrow> nat \<Rightarrow> bool" where
  "slot_ok c n \<longleftrightarrow> (case skill_at c n of None \<Rightarrow> False
     | Some sk \<Rightarrow> SkNr sk = n \<and> Master sk \<and> vtable sk = skill_class_of n)"

definition wf_skills :: "crea \<Rightarrow> bool" where
  "wf_skills c \<longleftrightarrow> length (Skills c) = 25 \<and> (\<forall>n<25. slot_ok c n)"

lemma skill_ptr_put [simp]: "skill_ptr (put a sk c) = skill_ptr c"
  by (simp add: skill_ptr_def put_def fun_eq_iff)

lemma skill_ptr_emits [simp]: "skill_ptr (emits es c) = skill_ptr c"
  by (simp add: skill_ptr_def emits_def fun_eq_iff)

lemma skill_at_emits [simp]: "skill_at (emits es c) = skill_at c"
  by (simp add: skill_at_def emits_def fun_eq_iff skill_ptr_def)

lemma put_sel [simp]:
  "Skills (put a sk c) = Skills c" "crType (put a sk c) = crType c"
  "heap (put a sk c) = (heap c)(a \<mapsto> sk)" "IsDead (put a sk c) = IsDead c"
  by (simp_all add: put_def)

lemma emits_sel [simp]:
  "Skills (emits es c) = Skills c" "crType (emits es c) = crType c"
  "heap (emits es c) = heap c" "IsDead (emits es c) = IsDead c"
  by (simp_all add: emits_def)

lemma wf_skills_emits [simp]: "wf_skills (emits es c) \<longleftrightarrow> wf_skills c"
  by (simp add: wf_skills_def slot_ok_def)

lemma wf_skills_at:
  assumes "wf_skills c" "n < 25"
  obtains a sk where "skill_ptr c n = Some a" "heap c a = Some sk" "skill_at c n = Some sk"
    "SkNr sk = n" "Master sk" "vtable sk = skill_class_of n"
proof -
  have "slot_ok c n" using assms by (simp add: wf_skills_def)
  then show thesis
    using that by (cases "skill_ptr c n") (auto simp: slot_ok_def skill_at_def split: option.splits)
qed

lemma skill_ptr_inj:
  assumes "wf_skills c" "skill_ptr c n = Some a" "skill_ptr c m = Some a"
  shows "n = m"
proof -
  have "n < 25" "m < 25" using assms by (auto simp: skill_ptr_def wf_skills_def split: if_splits)
  then show ?thesis
    using assms wf_skills_at [of c n] wf_skills_at [of c m] by (metis option.inject)
qed

text \<open>Seen through \<open>skill_at\<close>, writing an object updates one slot.\<close>

lemma skill_at_put:
  assumes "wf_skills c" "skill_ptr c n = Some a"
  shows "skill_at (put a sk c) = (skill_at c)(n \<mapsto> sk)"
proof
  fix m
  show "skill_at (put a sk c) m = ((skill_at c)(n \<mapsto> sk)) m"
    using assms skill_ptr_inj [OF assms, of m]
    by (cases "skill_ptr c m") (auto simp: skill_at_def)
qed

lemma wf_skills_put:
  assumes "wf_skills c" "skill_ptr c n = Some a"
    "SkNr sk = n" "Master sk" "vtable sk = skill_class_of n"
  shows "wf_skills (put a sk c)"
  using assms by (auto simp: wf_skills_def slot_ok_def skill_at_put [OF assms(1,2)])

lemma heap_skill_at: "skill_ptr c n = Some a \<Longrightarrow> heap c a = skill_at c n"
  by (simp add: skill_at_def)

section \<open>The experience of a level\<close>

definition level_exp :: "int \<Rightarrow> int" where
  "level_exp L = (((L - 6) * L + 17) * L - 12) div 6"

lemma level_poly_dvd: "6 dvd ((L - 6) * L + 17) * L - (12 :: int)"
proof -
  let ?p = "\<lambda>x :: int. ((x - 6) * x + 17) * x - 12"
  let ?q = "L div 6" and ?r = "L mod 6"
  have L: "L = 6 * ?q + ?r" by simp
  have "?p (6 * q + r) = 6 * (36 * q * q * q + 18 * q * q * r + 3 * q * r * r - 36 * q * q
      - 12 * q * r + 17 * q) + ?p r" for q r :: int
    by (simp add: algebra_simps)
  then have "?p L = 6 * (36 * ?q * ?q * ?q + 18 * ?q * ?q * ?r + 3 * ?q * ?r * ?r - 36 * ?q * ?q
      - 12 * ?q * ?r + 17 * ?q) + ?p ?r"
    using L by metis
  moreover have "?r \<in> {0, 1, 2, 3, 4, 5}" by auto
  then have "6 dvd ?p ?r" by auto
  ultimately show ?thesis by (metis dvd_add dvd_triv_left)
qed

lemma level_exp_6: "6 * level_exp L = ((L - 6) * L + 17) * L - 12"
  using level_poly_dvd [of L] by (simp add: level_exp_def)

lemma level_exp_Suc: "2 * level_exp (L + 1) = 2 * level_exp L + (L * L - 3 * L + 4)"
  using level_exp_6 [of L] level_exp_6 [of "L + 1"] by (simp add: algebra_simps)

lemma level_exp_less_Suc: "level_exp L < level_exp (L + 1)"
proof -
  have "0 \<le> (2 * L - 3) * (2 * L - 3)" by simp
  then have "0 < L * L - 3 * L + 4" by (simp add: algebra_simps)
  then show ?thesis using level_exp_Suc [of L] by linarith
qed

lemma level_exp_mono: "L \<le> M \<Longrightarrow> level_exp L \<le> level_exp M"
proof (induction "nat (M - L)" arbitrary: M)
  case (Suc k)
  then have "k = nat (M - 1 - L)" "L \<le> M - 1" by linarith+
  then show ?case using Suc(1) [of "M - 1"] level_exp_less_Suc [of "M - 1"] by simp
qed simp

lemma level_exp_strict_mono: "L < M \<Longrightarrow> level_exp L < level_exp M"
  using level_exp_less_Suc [of L] level_exp_mono [of "L + 1" M] by simp

lemma level_exp_1 [simp]: "level_exp 1 = 0"
  by (simp add: level_exp_def)

lemma level_exp_500 [simp]: "level_exp 500 = 20584748"
  by (simp add: level_exp_def)

lemma level_exp_nonneg: "1 \<le> L \<Longrightarrow> 0 \<le> level_exp L"
  using level_exp_mono [of 1 L] by simp

lemma level_poly_nonneg: "1 \<le> L \<Longrightarrow> 0 \<le> ((L - 6) * L + 17) * L - (12 :: int)"
  using level_exp_6 [of L] level_exp_nonneg [of L] by simp

lemma GetExpForLevel_level:
  assumes "vtable sk = SkillLevel" "0 < Delta sk" "Delta sk \<le> 104" "1 \<le> L" "L \<le> 500"
  shows "GetExpForLevel E sk L = Some (level_exp L * Delta sk, [])"
proof -
  have "(((L - 6) * L + 17) * L - 12) sdiv 6 = level_exp L"
    using level_poly_nonneg [OF assms(4)] by (simp add: sdiv_nonneg level_exp_def)
  moreover have "level_exp L * Delta sk \<le> 20584748 * 104"
    using level_exp_mono [OF assms(5)] level_exp_nonneg [OF assms(4)] assms
    by (intro mult_mono) auto
  then have "in_int32 (level_exp L * Delta sk)"
    using level_exp_nonneg [OF assms(4)] assms(2) by (simp add: in_int32_def order.trans [OF _ mult_nonneg_nonneg])
  ultimately show ?thesis
    using assms by (simp add: GetExpForLevel_def SkillLevel_GetExpForLevel_def checked_def)
qed

text \<open>A level skill with its thresholds in order, and the same skill moved to a level.\<close>

definition level_data :: "TSkill \<Rightarrow> bool" where
  "level_data sk \<longleftrightarrow> vtable sk = SkillLevel \<and> 0 < Delta sk \<and> Delta sk \<le> 104 \<and> 1 \<le> Act sk
     \<and> Act sk < 500 \<and> LastLevel sk = level_exp (Act sk) * Delta sk
     \<and> NextLevel sk = level_exp (Act sk + 1) * Delta sk"

definition level_ok :: "TSkill \<Rightarrow> bool" where
  "level_ok sk \<longleftrightarrow> level_data sk \<and> LastLevel sk \<le> Exp sk \<and> Exp sk < NextLevel sk"

definition at_level :: "int \<Rightarrow> TSkill \<Rightarrow> TSkill" where
  "at_level L sk = sk\<lparr>Act := L, LastLevel := level_exp L * Delta sk,
                      NextLevel := level_exp (L + 1) * Delta sk\<rparr>"

lemma at_level_self: "level_data sk \<Longrightarrow> at_level (Act sk) sk = sk"
  by (simp add: level_data_def at_level_def)

lemma at_level_sel [simp]:
  "Exp (at_level L sk) = Exp sk" "Delta (at_level L sk) = Delta sk" "Act (at_level L sk) = L"
  "vtable (at_level L sk) = vtable sk" "SkNr (at_level L sk) = SkNr sk"
  "Master (at_level L sk) = Master sk" "at_level M (at_level L sk) = at_level M sk"
  by (simp_all add: at_level_def)

lemma level_ok_unique:
  assumes "0 < D" "level_exp L * D \<le> x" "x < level_exp (L + 1) * D"
    "level_exp M * D \<le> x" "x < level_exp (M + 1) * D"
  shows "L = (M :: int)"
proof -
  have "level_exp L * D < level_exp (M + 1) * D" "level_exp M * D < level_exp (L + 1) * D"
    using assms by linarith+
  then have "level_exp L < level_exp (M + 1)" "level_exp M < level_exp (L + 1)"
    using assms(1) by simp_all
  then have "\<not> M + 1 \<le> L" "\<not> L + 1 \<le> M" using level_exp_mono by fastforce+
  then show ?thesis by linarith
qed

lemma level_ok_Exp: "level_ok sk \<Longrightarrow> 0 \<le> Exp sk"
proof -
  assume "level_ok sk"
  then have d: "1 \<le> Act sk" "0 < Delta sk" "level_exp (Act sk) * Delta sk \<le> Exp sk"
    by (auto simp: level_ok_def level_data_def)
  then have "0 \<le> level_exp (Act sk) * Delta sk" using level_exp_nonneg by (intro mult_nonneg_nonneg) auto
  then show ?thesis using d(3) by simp
qed

lemma increase_loop_level:
  assumes "level_data sk" "LastLevel sk \<le> Exp sk" "Exp sk < level_exp 500 * Delta sk"
  shows "\<exists>L. Act sk \<le> L \<and> level_ok (at_level L sk)
    \<and> increase_loop E adj sk R es = Some (at_level L sk, R + (L - Act sk), es)"
  using assms
proof (induction "nat (500 - Act sk)" arbitrary: sk R rule: less_induct)
  case less
  show ?case
  proof (cases "Exp sk < NextLevel sk")
    case True
    then show ?thesis
      using less.prems by (intro exI [of _ "Act sk"])
        (simp add: at_level_self level_ok_def, subst increase_loop.simps, simp)
  next
    case False
    let ?sk = "at_level (Act sk + 1) sk"
    have d: "vtable sk = SkillLevel" "0 < Delta sk" "Delta sk \<le> 104" "1 \<le> Act sk" "Act sk < 500"
      "LastLevel sk = level_exp (Act sk) * Delta sk" "NextLevel sk = level_exp (Act sk + 1) * Delta sk"
      using less.prems(1) by (simp_all add: level_data_def)
    have "Act sk + 1 < 500"
    proof (rule ccontr)
      assume "\<not> Act sk + 1 < 500"
      then have "Act sk + 1 = 500" using d by simp
      then show False using False less.prems(3) d(7) by simp
    qed
    moreover have "?sk = sk\<lparr>Act := Act sk + 1, LastLevel := NextLevel sk,
        NextLevel := level_exp (Act sk + 1 + 1) * Delta sk\<rparr>"
      using d by (simp add: at_level_def)
    ultimately have step: "increase_loop E adj sk R es = increase_loop E adj ?sk (R + 1) es"
      using False d mult_nonneg_nonneg [OF level_exp_nonneg [of "Act sk + 1 + 1"], of "Delta sk"]
      by (subst increase_loop.simps) (simp add: GetExpForLevel_level not_less)
    have "level_data ?sk" "LastLevel ?sk \<le> Exp ?sk"
      using d \<open>Act sk + 1 < 500\<close> False by (simp_all add: level_data_def at_level_def)
    with less.hyps [of ?sk "R + 1"] less.prems(3) d(5) obtain L
      where "Act sk + 1 \<le> L" "level_ok (at_level L sk)"
        "increase_loop E adj ?sk (R + 1) es = Some (at_level L sk, R + 1 + (L - (Act sk + 1)), es)"
      by auto
    then show ?thesis using step by (intro exI [of _ L]) simp
  qed
qed

lemma decrease_loop_level:
  assumes "level_data sk" "0 \<le> Exp sk" "Exp sk < NextLevel sk"
  shows "\<exists>L. L \<le> Act sk \<and> level_ok (at_level L sk)
    \<and> decrease_loop E False sk R es = Some (at_level L sk, R + (L - Act sk), es)"
  using assms
proof (induction "nat (Act sk)" arbitrary: sk R rule: less_induct)
  case less
  show ?case
  proof (cases "LastLevel sk \<le> Exp sk")
    case True
    then show ?thesis
      using less.prems by (intro exI [of _ "Act sk"])
        (simp add: at_level_self level_ok_def, subst decrease_loop.simps, simp)
  next
    case False
    let ?sk = "at_level (Act sk - 1) sk"
    have d: "vtable sk = SkillLevel" "0 < Delta sk" "Delta sk \<le> 104" "1 \<le> Act sk" "Act sk < 500"
      "LastLevel sk = level_exp (Act sk) * Delta sk" "NextLevel sk = level_exp (Act sk + 1) * Delta sk"
      using less.prems(1) by (simp_all add: level_data_def)
    have "Act sk \<noteq> 1" using False d less.prems(2) by auto
    then have "1 \<le> Act sk - 1" using d by simp
    moreover have "?sk = sk\<lparr>Act := Act sk - 1, NextLevel := LastLevel sk,
        LastLevel := level_exp (Act sk - 1) * Delta sk\<rparr>"
      using d by (simp add: at_level_def)
    ultimately have step: "decrease_loop E False sk R es = decrease_loop E False ?sk (R - 1) es"
      using False d by (subst decrease_loop.simps) (simp add: GetExpForLevel_level not_le)
    have "level_data ?sk" "Exp ?sk < NextLevel ?sk"
      using d \<open>1 \<le> Act sk - 1\<close> False by (simp_all add: level_data_def at_level_def)
    with less.hyps [of ?sk "R - 1"] less.prems(2) d(4) obtain L
      where "L \<le> Act sk - 1" "level_ok (at_level L sk)"
        "decrease_loop E False ?sk (R - 1) es = Some (at_level L sk, R - 1 + (L - (Act sk - 1)), es)"
      by auto
    then show ?thesis using step by (intro exI [of _ L]) simp
  qed
qed


section \<open>Gaining and losing levels\<close>

text \<open>A skill whose advance cannot overflow, and the skill after advancing \<open>r\<close> levels.\<close>

definition add_ok :: "int \<Rightarrow> TSkill \<Rightarrow> bool" where
  "add_ok B sk \<longleftrightarrow> \<bar>AddLevel sk\<bar> \<le> 1000 \<and> \<bar>MaxVal sk\<bar> \<le> B \<and> \<bar>Act sk\<bar> \<le> B"

definition advanced :: "int \<Rightarrow> TSkill \<Rightarrow> TSkill" where
  "advanced r sk = sk\<lparr>Act := min (Act sk + r * AddLevel sk) (MaxVal sk + r * AddLevel sk),
                      MaxVal := MaxVal sk + r * AddLevel sk\<rparr>"

abbreviation level_up_skills :: "nat set" where
  "level_up_skills \<equiv> {SKILL_HITPOINTS, SKILL_MANA, SKILL_GO_STRENGTH, SKILL_CARRY_STRENGTH}"

text \<open>The skills of a creature as a map, after its level changed by \<open>r\<close>.\<close>

definition advance_all :: "int \<Rightarrow> (nat \<Rightarrow> TSkill option) \<Rightarrow> nat \<Rightarrow> TSkill option" where
  "advance_all r m n = (if n \<in> level_up_skills \<and> r \<noteq> 0 then map_option (advanced r) (m n) else m n)"

definition level_change_ok :: "int \<Rightarrow> crea \<Rightarrow> bool" where
  "level_change_ok B c \<longleftrightarrow> wf_skills c
     \<and> (\<forall>n\<in>level_up_skills. case skill_at c n of None \<Rightarrow> False | Some sk \<Rightarrow> add_ok B sk)"

lemma advanced_sel [simp]:
  "SkNr (advanced r sk) = SkNr sk" "Master (advanced r sk) = Master sk"
  "vtable (advanced r sk) = vtable sk" "AddLevel (advanced r sk) = AddLevel sk"
  by (simp_all add: advanced_def)

lemma advanced_inverse: "Act sk \<le> MaxVal sk \<Longrightarrow> advanced (- r) (advanced r sk) = sk"
  by (simp add: advanced_def)

lemma add_range:
  assumes "add_ok B sk" "\<bar>r\<bar> \<le> 500"
  shows "\<bar>r * AddLevel sk\<bar> \<le> 500000"
  using mult_mono [of "\<bar>r\<bar>" 500 "\<bar>AddLevel sk\<bar>" 1000] assms by (simp add: abs_mult add_ok_def)

lemma add_ok_advanced: "add_ok B sk \<Longrightarrow> \<bar>r\<bar> \<le> 500 \<Longrightarrow> add_ok (B + 500000) (advanced r sk)"
  using add_range [of B sk r] by (auto simp: add_ok_def advanced_def min_def)

lemma Advance_eq:
  assumes "heap c a = Some sk" "is_SkillAdd (vtable sk)" "add_ok B sk" "B \<le> 2000000000" "\<bar>r\<bar> \<le> 500"
  shows "Advance a r c = Some (put a (advanced r sk) c)"
proof -
  have "in_int32 (r * AddLevel sk)" "in_int32 (MaxVal sk + r * AddLevel sk)"
    "in_int32 (Act sk + r * AddLevel sk)"
    using add_range [OF assms(3,5)] assms(3,4) by (auto simp: in_int32_def add_ok_def)
  then show ?thesis
    using assms(1,2)
    by (simp add: Advance_def SkillAdd_Advance_def checked_def advanced_def min_def not_le)
qed

text \<open>One advance, seen on the skill map.\<close>

lemma Advance_at:
  assumes "wf_skills c" "n \<in> level_up_skills" "skill_at c n = Some sk" "add_ok B sk"
    "B \<le> 2000000000" "\<bar>r\<bar> \<le> 500"
  shows "\<exists>a. skill_ptr c n = Some a \<and> (\<exists>c'. Advance a r c = Some c' \<and> wf_skills c'
    \<and> Skills c' = Skills c \<and> crType c' = crType c \<and> skill_at c' = (skill_at c)(n \<mapsto> advanced r sk))"
proof -
  have n: "n < 25" using assms(2) by auto
  obtain a where a: "skill_ptr c n = Some a" "heap c a = Some sk" "SkNr sk = n" "Master sk"
      "vtable sk = skill_class_of n"
    using wf_skills_at [OF assms(1) n] assms(3) by (metis option.inject)
  have "is_SkillAdd (vtable sk)"
    using assms(2) a(5) by (auto simp: is_SkillAdd_def skill_class_of_def)
  then have "Advance a r c = Some (put a (advanced r sk) c)"
    using Advance_eq a(2) assms(4-6) by blast
  then show ?thesis
    using a skill_at_put [OF assms(1) a(1)] wf_skills_put [OF assms(1) a(1), of "advanced r sk"]
    by (intro exI [of _ a] conjI) simp_all
qed

lemma skill_ptr_Skills: "Skills c' = Skills c \<Longrightarrow> skill_ptr c' = skill_ptr c"
  by (simp add: skill_ptr_def fun_eq_iff)

text \<open>\<open>SkillLevel::Jump\<close> advances the four skills that grow with the level.\<close>

lemma SkillLevel_Jump_at:
  assumes "level_change_ok B c" "B \<le> 2000000000" "\<bar>r\<bar> \<le> 500" "r \<noteq> 0"
    "skill_ptr c SKILL_LEVEL = Some a"
  shows "\<exists>c'. Jump a r c = Some (True, c') \<and> wf_skills c' \<and> Skills c' = Skills c
    \<and> crType c' = crType c \<and> skill_at c' = advance_all r (skill_at c)"
proof -
  have wf: "wf_skills c" using assms(1) by (simp add: level_change_ok_def)
  obtain sk where sk: "heap c a = Some sk" "Master sk" "vtable sk = SkillLevel"
    using wf_skills_at [OF wf, of 0] assms(5) by (auto simp: skill_class_of_def)
  obtain hp mp gs cs where s:
    "skill_at c SKILL_HITPOINTS = Some hp" "add_ok B hp" "skill_at c SKILL_MANA = Some mp" "add_ok B mp"
    "skill_at c SKILL_GO_STRENGTH = Some gs" "add_ok B gs"
    "skill_at c SKILL_CARRY_STRENGTH = Some cs" "add_ok B cs"
    using assms(1) by (auto simp: level_change_ok_def split: option.splits)
  obtain a1 c1 where 1: "skill_ptr c SKILL_HITPOINTS = Some a1" "Advance a1 r c = Some c1" "wf_skills c1"
      "Skills c1 = Skills c" "crType c1 = crType c" "skill_at c1 = (skill_at c)(SKILL_HITPOINTS \<mapsto> advanced r hp)"
    using Advance_at [OF wf _ s(1,2) assms(2,3)] by blast
  have "skill_at c1 SKILL_MANA = Some mp" using 1(6) s by simp
  then obtain a2 c2 where 2: "skill_ptr c1 SKILL_MANA = Some a2" "Advance a2 r c1 = Some c2" "wf_skills c2"
      "Skills c2 = Skills c1" "crType c2 = crType c1" "skill_at c2 = (skill_at c1)(SKILL_MANA \<mapsto> advanced r mp)"
    using Advance_at [OF 1(3) _ _ s(4) assms(2,3)] by blast
  have "skill_at c2 SKILL_GO_STRENGTH = Some gs" using 1(6) 2(6) s by simp
  then obtain a3 c3 where 3: "skill_ptr c2 SKILL_GO_STRENGTH = Some a3" "Advance a3 r c2 = Some c3" "wf_skills c3"
      "Skills c3 = Skills c2" "crType c3 = crType c2" "skill_at c3 = (skill_at c2)(SKILL_GO_STRENGTH \<mapsto> advanced r gs)"
    using Advance_at [OF 2(3) _ _ s(6) assms(2,3)] by blast
  have "skill_at c3 SKILL_CARRY_STRENGTH = Some cs" using 1(6) 2(6) 3(6) s by simp
  then obtain a4 c4 where 4: "skill_ptr c3 SKILL_CARRY_STRENGTH = Some a4" "Advance a4 r c3 = Some c4" "wf_skills c4"
      "Skills c4 = Skills c3" "crType c4 = crType c3" "skill_at c4 = (skill_at c3)(SKILL_CARRY_STRENGTH \<mapsto> advanced r cs)"
    using Advance_at [OF 3(3) _ _ s(8) assms(2,3)] by blast
  have "skill_ptr c4 SKILL_LEVEL = Some a"
    using assms(5) skill_ptr_Skills [of c4 c] 1(4) 2(4) 3(4) 4(4) by simp
  then obtain sk' where sk': "heap c4 a = Some sk'"
    using wf_skills_at [OF 4(3), of 0] by auto
  have at: "skill_at c4 = advance_all r (skill_at c)"
    using 1(6) 2(6) 3(6) 4(6) s assms(4) by (auto simp: fun_eq_iff advance_all_def)
  show ?thesis
    using sk sk' 1(1,2,4,5) 2(1,2,4,5) 3(1,2,4,5) 4(1-5) at
    by (simp add: Jump_def SkillLevel_Jump_def Let_def)
qed

lemma jump_if_at:
  assumes "level_change_ok B c" "B \<le> 2000000000" "\<bar>r\<bar> \<le> 500" "skill_ptr c SKILL_LEVEL = Some a"
  shows "\<exists>c'. jump_if a r c = Some c' \<and> wf_skills c' \<and> Skills c' = Skills c
    \<and> crType c' = crType c \<and> skill_at c' = advance_all r (skill_at c)"
proof (cases "r = 0")
  case True
  then show ?thesis
    using assms(1) by (simp add: jump_if_def level_change_ok_def advance_all_def fun_eq_iff)
next
  case False
  then show ?thesis
    using SkillLevel_Jump_at [OF assms(1-3) False assms(4)] by (auto simp: jump_if_def)
qed

lemma level_change_put:
  assumes "level_change_ok B c" "skill_ptr c SKILL_LEVEL = Some a" "skill_at c SKILL_LEVEL = Some sk"
    "SkNr sk' = SkNr sk" "Master sk' = Master sk" "vtable sk' = vtable sk"
  shows "level_change_ok B (put a sk' c) \<and> skill_at (put a sk' c) = (skill_at c)(SKILL_LEVEL \<mapsto> sk')"
proof -
  have wf: "wf_skills c" using assms(1) by (simp add: level_change_ok_def)
  have "slot_ok c SKILL_LEVEL" using wf by (simp add: wf_skills_def)
  then have "wf_skills (put a sk' c)"
    using wf_skills_put [OF wf assms(2), of sk'] assms(3-6) by (simp add: slot_ok_def)
  then show ?thesis
    using assms(1) skill_at_put [OF wf assms(2), of sk'] by (simp add: level_change_ok_def)
qed

lemma level_gain:
  assumes "level_change_ok B c" "B \<le> 2000000000" "skill_ptr c SKILL_LEVEL = Some a"
    "skill_at c SKILL_LEVEL = Some sk" "level_ok sk" "0 \<le> Amount"
    "Exp sk + Amount < level_exp 500 * Delta sk"
  shows "\<exists>L c'. Increase E a Amount c = Some c' \<and> wf_skills c' \<and> Skills c' = Skills c
    \<and> Act sk \<le> L \<and> level_ok (at_level L (sk\<lparr>Exp := Exp sk + Amount\<rparr>))
    \<and> skill_at c' = advance_all (L - Act sk)
        ((skill_at c)(SKILL_LEVEL \<mapsto> at_level L (sk\<lparr>Exp := Exp sk + Amount\<rparr>)))"
proof -
  let ?sk = "sk\<lparr>Exp := Exp sk + Amount\<rparr>"
  have h: "heap c a = Some sk" using heap_skill_at assms(3,4) by simp
  have d: "level_data ?sk" "LastLevel ?sk \<le> Exp ?sk" "Exp ?sk < level_exp 500 * Delta ?sk"
    "vtable sk = SkillLevel" "Delta sk \<le> 104" "0 \<le> Exp sk" "1 \<le> Act sk"
    using assms(5-7) level_ok_Exp [OF assms(5)] by (simp_all add: level_ok_def level_data_def)
  obtain L where L: "Act sk \<le> L" "level_ok (at_level L ?sk)"
      "increase_loop E 1000000 ?sk 0 [] = Some (at_level L ?sk, L - Act sk, [])"
    using increase_loop_level [OF d(1-3), of E 1000000 0 "[]"] by auto
  have r: "\<bar>L - Act sk\<bar> \<le> 500" using L(1,2) d(7) by (simp add: level_ok_def level_data_def)
  have x: "checked (Exp sk + Amount) = Some (Exp sk + Amount)"
    using d(3,5,6) assms(6) by (simp add: checked_def in_int32_def)
  obtain c' where c': "jump_if a (L - Act sk) (emits [] (put a (at_level L ?sk) c)) = Some c'"
      "wf_skills c'" "Skills c' = Skills c" "crType c' = crType c"
      "skill_at c' = advance_all (L - Act sk) ((skill_at c)(SKILL_LEVEL \<mapsto> at_level L ?sk))"
    using level_change_put [OF assms(1,3,4), of "at_level L ?sk"]
      jump_if_at [OF _ assms(2) r, of "emits [] (put a (at_level L ?sk) c)" a] assms(3)
    by (auto simp: level_change_ok_def)
  show ?thesis
    using h d(4) assms(6) x L c' by (intro exI [of _ L]) (simp add: Increase_def SkillLevel_Increase_def)
qed

lemma level_loss:
  assumes "level_change_ok B c" "B \<le> 2000000000" "skill_ptr c SKILL_LEVEL = Some a"
    "skill_at c SKILL_LEVEL = Some sk" "level_ok sk" "0 \<le> Amount" "Amount \<le> Exp sk"
  shows "\<exists>L c'. Decrease E a Amount c = Some c' \<and> wf_skills c' \<and> Skills c' = Skills c
    \<and> L \<le> Act sk \<and> level_ok (at_level L (sk\<lparr>Exp := Exp sk - Amount\<rparr>))
    \<and> skill_at c' = advance_all (L - Act sk)
        ((skill_at c)(SKILL_LEVEL \<mapsto> at_level L (sk\<lparr>Exp := Exp sk - Amount\<rparr>)))"
proof -
  let ?sk = "sk\<lparr>Exp := Exp sk - Amount\<rparr>"
  have h: "heap c a = Some sk" using heap_skill_at assms(3,4) by simp
  have d: "level_data ?sk" "0 \<le> Exp ?sk" "Exp ?sk < NextLevel ?sk" "vtable sk = SkillLevel"
    "Act sk < 500"
    using assms(5-7) by (simp_all add: level_ok_def level_data_def)
  obtain L where L: "L \<le> Act sk" "level_ok (at_level L ?sk)"
      "decrease_loop E False ?sk 0 [] = Some (at_level L ?sk, L - Act sk, [])"
    using decrease_loop_level [OF d(1-3), of E 0 "[]"] by auto
  have r: "\<bar>L - Act sk\<bar> \<le> 500" using L(1,2) d(5) by (simp add: level_ok_def level_data_def)
  have x: "(if Amount < Exp sk then Exp sk - Amount else 0) = Exp sk - Amount" using assms(7) by simp
  obtain c' where c': "jump_if a (L - Act sk) (emits [] (put a (at_level L ?sk) c)) = Some c'"
      "wf_skills c'" "Skills c' = Skills c" "crType c' = crType c"
      "skill_at c' = advance_all (L - Act sk) ((skill_at c)(SKILL_LEVEL \<mapsto> at_level L ?sk))"
    using level_change_put [OF assms(1,3,4), of "at_level L ?sk"]
      jump_if_at [OF _ assms(2) r, of "emits [] (put a (at_level L ?sk) c)" a] assms(3)
    by (auto simp: level_change_ok_def)
  show ?thesis
    using h d(4) assms(6,7) x L c'
    by (intro exI [of _ L]) (simp add: Decrease_def SkillLevel_Decrease_def)
qed


lemma level_change_advance:
  assumes "level_change_ok B c" "wf_skills c'" "\<bar>r\<bar> \<le> 500"
    "skill_at c' = advance_all r ((skill_at c)(SKILL_LEVEL \<mapsto> sk))"
  shows "level_change_ok (B + 500000) c'"
proof -
  have B: "add_ok B x \<Longrightarrow> add_ok (B + 500000) x" for x by (simp add: add_ok_def)
  show ?thesis
    using assms(1,2) unfolding level_change_ok_def assms(4)
    by (auto simp: advance_all_def add_ok_advanced [OF _ assms(3)] B split: option.splits)
qed

lemma advance_all_inverse:
  assumes "\<forall>n\<in>level_up_skills. \<forall>x. m n = Some x \<longrightarrow> Act x \<le> MaxVal x"
  shows "advance_all (- r) ((advance_all r (m(SKILL_LEVEL \<mapsto> s)))(SKILL_LEVEL \<mapsto> s'))
    = m(SKILL_LEVEL \<mapsto> s')"
proof
  fix n
  have "n \<in> level_up_skills \<Longrightarrow> map_option (\<lambda>x. advanced (- r) (advanced r x)) (m n) = m n"
    using assms advanced_inverse by (cases "m n") auto
  then show "advance_all (- r) ((advance_all r (m(SKILL_LEVEL \<mapsto> s)))(SKILL_LEVEL \<mapsto> s')) n
    = (m(SKILL_LEVEL \<mapsto> s')) n"
    by (cases "n = SKILL_LEVEL"; cases "n \<in> level_up_skills")
      (auto simp: advance_all_def option.map_comp comp_def)
qed

text \<open>A creature with a level 1 player's skills, for the instances below.\<close>

definition sample_skill :: "nat \<Rightarrow> TSkill" where
  "sample_skill n = (TSkill_new (skill_class_of n) n True)
     \<lparr>Act := 1, MaxVal := 1000, NextLevel := 100, Delta := 100, Exp := 50, AddLevel := 5\<rparr>"

definition sample_creature :: crea where
  "sample_creature = \<lparr>heap = (\<lambda>a. if a < 25 then Some (sample_skill a) else None),
     Skills = map Some [0..<25], TimerList = replicate 25 None, FirstFreeTimer = 0,
     crType = PLAYER, IsDead = False, Connection = True, OldState = 0, LogoutBlocked = False,
     ActiveProfession = 0, ProtectionZone = False, AvoidFields = [], Outfit = 0, OrgOutfit = 0,
     PoisonDamageOrigin = 0, FireDamageOrigin = 0, EnergyDamageOrigin = 0, trace = []\<rparr>"

lemma sample_skill_sel:
  "SkNr (sample_skill n) = n mod 2 ^ 16" "Master (sample_skill n)" "Act (sample_skill n) = 1"
  "vtable (sample_skill n) = skill_class_of n" "MaxVal (sample_skill n) = 1000"
  "AddLevel (sample_skill n) = 5" "Exp (sample_skill n) = 50" "Delta (sample_skill n) = 100"
  "NextLevel (sample_skill n) = 100" "LastLevel (sample_skill n) = 0" "Cycle (sample_skill n) = 0"
  by (simp_all add: sample_skill_def TSkill_new_def Reset_def TSkill_Reset_def)

lemma sample_at:
  "skill_ptr sample_creature n = (if n < 25 then Some n else None)"
  "skill_at sample_creature n = (if n < 25 then Some (sample_skill n) else None)"
  by (auto simp: sample_creature_def skill_at_def skill_ptr_def)

lemma sample_ok: "level_change_ok 1000000000 sample_creature" "level_ok (sample_skill SKILL_LEVEL)"
proof -
  have "wf_skills sample_creature"
    by (auto simp: wf_skills_def slot_ok_def sample_at sample_skill_sel) (simp add: sample_creature_def)
  then show "level_change_ok 1000000000 sample_creature"
    by (simp add: level_change_ok_def sample_at sample_skill_sel add_ok_def)
  show "level_ok (sample_skill SKILL_LEVEL)"
    by (simp add: level_ok_def level_data_def sample_skill_sel skill_class_of_def level_exp_def)
qed

text \<open>
  C22: Gaining experience. For a level skill whose thresholds are in order (\<open>level_ok\<close>: the
  experience lies in the interval of the current level) and an amount that stays below the
  experience of level 500, \<open>Increase\<close> returns: no \<open>int\<close> overflows, the loop ends, and no \<open>NULL\<close> is
  used. The experience is the sum, the new level is the one whose interval holds it, and the skills
  are exactly the old ones except that hitpoints, mana, speed and capacity (maximum and
  actual value) grew by their \<open>AddLevel\<close> for every level gained.
\<close>

theorem level_increase_correct:
  assumes "level_change_ok 1000000000 c" "skill_ptr c SKILL_LEVEL = Some a"
    "skill_at c SKILL_LEVEL = Some sk" "level_ok sk" "0 \<le> Amount"
    "Exp sk + Amount < level_exp 500 * Delta sk"
  shows "\<exists>L c'. Increase E a Amount c = Some c' \<and> wf_skills c' \<and> Act sk \<le> L
    \<and> level_ok (at_level L (sk\<lparr>Exp := Exp sk + Amount\<rparr>))
    \<and> skill_at c' = advance_all (L - Act sk)
        ((skill_at c)(SKILL_LEVEL \<mapsto> at_level L (sk\<lparr>Exp := Exp sk + Amount\<rparr>)))"
  using level_gain [OF assms(1) _ assms(2-6)] by fastforce

theorem level_increase_correct_witness:
  "\<forall>E. \<exists>L c'. Increase E 0 60 sample_creature = Some c' \<and> wf_skills c' \<and> 1 \<le> L
    \<and> level_ok (at_level L ((sample_skill 0)\<lparr>Exp := 110\<rparr>))
    \<and> skill_at c' = advance_all (L - 1)
        ((skill_at sample_creature)(SKILL_LEVEL \<mapsto> at_level L ((sample_skill 0)\<lparr>Exp := 110\<rparr>)))"
  using level_increase_correct [OF sample_ok(1) _ _ sample_ok(2), of 0 60]
  by (simp add: sample_at sample_skill_sel)

text \<open>
  C23: Losing what was gained. Under the same conditions, with no skill above its maximum,
  \<open>Increase\<close> followed by \<open>Decrease\<close> with the same amount gives back every skill of the
  creature: the level, the experience and its thresholds, and the four skills that
  grow with the level.
\<close>

theorem level_increase_decrease:
  assumes "level_change_ok 1000000000 c" "skill_ptr c SKILL_LEVEL = Some a"
    "skill_at c SKILL_LEVEL = Some sk" "level_ok sk" "0 \<le> Amount"
    "Exp sk + Amount < level_exp 500 * Delta sk"
    "\<forall>n\<in>level_up_skills. \<forall>x. skill_at c n = Some x \<longrightarrow> Act x \<le> MaxVal x"
  shows "\<exists>c' c''. Increase E a Amount c = Some c' \<and> Decrease E a Amount c' = Some c''
    \<and> skill_at c'' = skill_at c"
proof -
  let ?up = "sk\<lparr>Exp := Exp sk + Amount\<rparr>"
  obtain L c' where up: "Increase E a Amount c = Some c'" "wf_skills c'" "Skills c' = Skills c"
      "Act sk \<le> L" "level_ok (at_level L ?up)"
      "skill_at c' = advance_all (L - Act sk) ((skill_at c)(SKILL_LEVEL \<mapsto> at_level L ?up))"
    using level_gain [OF assms(1) _ assms(2-6)] by fastforce
  have ok: "level_data sk" "0 < Delta sk" "1 \<le> Act sk" "L < 500"
    "level_exp (Act sk) * Delta sk \<le> Exp sk" "Exp sk < level_exp (Act sk + 1) * Delta sk"
    using assms(4) up(5) by (auto simp: level_ok_def level_data_def)
  have c': "level_change_ok 1000500000 c'"
    using level_change_advance [OF assms(1) up(2) _ up(6)] ok(3,4) up(4) by simp
  have at: "skill_ptr c' SKILL_LEVEL = Some a" "skill_at c' SKILL_LEVEL = Some (at_level L ?up)"
    using up(6) assms(2) skill_ptr_Skills [OF up(3)] by (simp_all add: advance_all_def)
  have down_eq: "at_level M ((at_level L ?up)\<lparr>Exp := Exp sk\<rparr>) = at_level M sk" for M
    by (simp add: at_level_def)
  obtain M c'' where down: "Decrease E a Amount c' = Some c''" "level_ok (at_level M sk)"
      "skill_at c'' = advance_all (M - L) ((skill_at c')(SKILL_LEVEL \<mapsto> at_level M sk))"
    using level_loss [OF c' _ at up(5) assms(5), of E] level_ok_Exp [OF assms(4)] down_eq by auto
  have "M = Act sk"
    using level_ok_unique [OF ok(2), of M "Exp sk" "Act sk"] ok(5,6) down(2)
    by (simp add: level_ok_def at_level_def)
  then have "at_level M sk = sk" using at_level_self [OF ok(1)] by simp
  then have "skill_at c'' = (skill_at c)(SKILL_LEVEL \<mapsto> sk)"
    using advance_all_inverse [OF assms(7), of "L - Act sk"] down(3) up(6) \<open>M = Act sk\<close> by simp
  then show ?thesis using up(1) down(1) assms(3) by (metis fun_upd_triv)
qed

theorem level_increase_decrease_witness:
  "\<forall>E. \<exists>c' c''. Increase E 0 60 sample_creature = Some c' \<and> Decrease E 0 60 c' = Some c''
    \<and> skill_at c'' = skill_at sample_creature"
  using level_increase_decrease [OF sample_ok(1) _ _ sample_ok(2), of 0 60]
  by (simp add: sample_at sample_skill_sel)

section \<open>A level skill without a positive delta\<close>

lemma increase_loop_stuck:
  assumes "increase_loop E adj sk R es = Some r" "vtable sk = SkillLevel" "Delta sk \<le> 0"
    "NextLevel sk \<le> Exp sk" "0 \<le> Exp sk"
  shows False
proof -
  let ?P = "\<lambda>(E :: env) (adj :: int) sk (R :: int) (es :: effect list) (r :: TSkill \<times> int \<times> effect list).
    \<not> (vtable sk = SkillLevel \<and> Delta sk \<le> 0 \<and> NextLevel sk \<le> Exp sk \<and> 0 \<le> Exp sk)"
  have "?P E adj sk R es r"
  proof (rule increase_loop.raw_induct [of ?P, OF _ assms(1)])
    fix f E adj sk R es r
    assume IH: "\<And>E adj sk R es r. f E adj sk R es = Some r \<Longrightarrow> ?P E adj sk R es r"
      and step: "(if NextLevel sk \<le> Exp sk
      then Option.bind (GetExpForLevel E (sk\<lparr>Act := Act sk + 1, LastLevel := NextLevel sk\<rparr>) (Act sk + 1 + 1))
        (\<lambda>r. if fst r < 0
             then (if Master sk
                   then Some (sk\<lparr>Act := Act sk + 1, LastLevel := NextLevel sk, NextLevel := Exp sk,
                                 Exp := Exp sk - adj\<rparr>,
                              R, es @ snd r @ [Error ''Skill about to overflow''])
                   else None)
             else f E adj (sk\<lparr>Act := Act sk + 1, LastLevel := NextLevel sk, NextLevel := fst r\<rparr>)
                    (R + 1) (es @ snd r))
      else Some (sk, R, es)) = Some r"
    show "?P E adj sk R es r"
    proof
      assume a: "vtable sk = SkillLevel \<and> Delta sk \<le> 0 \<and> NextLevel sk \<le> Exp sk \<and> 0 \<le> Exp sk"
      then obtain es' where "GetExpForLevel E (sk\<lparr>Act := Act sk + 1, LastLevel := NextLevel sk\<rparr>)
          (Act sk + 1 + 1) = Some (0, es')"
        by (cases "Act sk + 1 + 1 < 1") (simp_all add: GetExpForLevel_def SkillLevel_GetExpForLevel_def)
      then have "f E adj (sk\<lparr>Act := Act sk + 1, LastLevel := NextLevel sk, NextLevel := 0\<rparr>)
          (R + 1) (es @ es') = Some r"
        using a step by simp
      from IH [OF this] show False using a by simp
    qed
  qed
  then show ?thesis using assms by blast
qed

text \<open>
  C28: A level skill whose \<open>Delta\<close> is not positive (a race file with \<open>NextLevel\<close> 0 gives one:
  \<open>SetSkills\<close> copies that value to both fields) never comes back from \<open>Increase\<close> once its experience
  reaches \<open>NextLevel\<close>. \<open>GetExpForLevel\<close> rejects the delta with the value 0 before it looks at
  the level, so \<open>NextLevel\<close> stays 0 and the bound at level 500 is never reached.
\<close>

theorem level_increase_hangs:
  assumes "heap c a = Some sk" "vtable sk = SkillLevel" "Delta sk \<le> 0" "0 \<le> Amount"
    "NextLevel sk \<le> Exp sk + Amount" "0 \<le> Exp sk + Amount"
  shows "Increase E a Amount c = None"
proof (cases "in_int32 (Exp sk + Amount)")
  case True
  have "increase_loop E 1000000 (sk\<lparr>Exp := Exp sk + Amount\<rparr>) 0 [] = None"
    using increase_loop_stuck [of E 1000000 "sk\<lparr>Exp := Exp sk + Amount\<rparr>" 0 "[]"] assms
    by (cases "increase_loop E 1000000 (sk\<lparr>Exp := Exp sk + Amount\<rparr>) 0 []") auto
  then show ?thesis using assms True by (simp add: Increase_def SkillLevel_Increase_def checked_def)
next
  case False
  then show ?thesis using assms by (simp add: Increase_def SkillLevel_Increase_def checked_def)
qed

theorem level_increase_hangs_witness:
  "\<forall>E. Increase E 0 0 (put 0 ((sample_skill 0)\<lparr>Delta := 0, NextLevel := 0\<rparr>) sample_creature) = None"
  using level_increase_hangs [of "put 0 ((sample_skill 0)\<lparr>Delta := 0, NextLevel := 0\<rparr>) sample_creature"
      0 "(sample_skill 0)\<lparr>Delta := 0, NextLevel := 0\<rparr>" 0]
  by (simp add: sample_skill_sel skill_class_of_def)

end
