(* ===== verification/Skill_Timer.thy ===== *)
theory Skill_Timer
  imports Skill
begin

text \<open>
  The timers of the skills and the container of a creature's skills (\<open>SkillBase\<close> in
  \<open>creature/skill/skill.cpp\<close>): setting, deleting and processing timers, the effects a running timer
  has (\<open>Event\<close>), creation and destruction of the skill objects, loading and saving.
  \<open>TimerList\<close> is an array of 25 pointers of which the first \<open>FirstFreeTimer\<close> are used; the
  operations are shown to implement a list of distinct live objects without gaps, so that the array
  never overflows and holds no pointer to a deleted object.
\<close>

section \<open>Setting a timer\<close>

abbreviation with_timer :: "int \<Rightarrow> int \<Rightarrow> int \<Rightarrow> TSkill \<Rightarrow> TSkill" where
  "with_timer Cy Co Mx sk \<equiv> sk\<lparr>Cycle := Cy, Count := Co, MaxCount := Mx\<rparr>"

definition TSkill_SetTimer :: "addr \<Rightarrow> int \<Rightarrow> int \<Rightarrow> int \<Rightarrow> int \<Rightarrow> crea \<Rightarrow> (bool \<times> crea) option" where
  "TSkill_SetTimer a Cy Co Mx AdditionalValue c = do {
     sk \<leftarrow> heap c a;
     c \<leftarrow> master_check_state sk (put a (with_timer Cy Co Mx sk) c);
     Some (True, c)}"

definition SkillProbe_SetTimer :: "addr \<Rightarrow> int \<Rightarrow> int \<Rightarrow> int \<Rightarrow> int \<Rightarrow> crea \<Rightarrow> (bool \<times> crea) option" where
  "SkillProbe_SetTimer a Cy Co Mx AdditionalValue c = do {
     sk \<leftarrow> heap c a;
     let c = put a (with_timer Cy Co Mx sk) c;
     if \<not> Master sk
     then Some (False, emits [Error ''SkillProbe::SetTimer: GetMaster liefert NULL zurueck!''] c)
     else do {
       c \<leftarrow> master_check_state sk c;
       Some (True, if crType c = PLAYER then emits [SendPlayerData] c else c)}}"

definition SkillGoStrength_SetTimer :: "addr \<Rightarrow> int \<Rightarrow> int \<Rightarrow> int \<Rightarrow> int \<Rightarrow> crea \<Rightarrow> (bool \<times> crea) option" where
  "SkillGoStrength_SetTimer a Cy Co Mx AdditionalValue c = do {
     sk \<leftarrow> heap c a;
     let new = with_timer Cy Co Mx sk;
     let new = (if Cy = 0 then new\<lparr>MDAct := 0\<rparr> else new);
     let c = put a new c;
     if \<not> Master sk
     then Some (False, emits [Error ''SkillGoStrength::SetTimer: GetMaster liefert NULL zurueck!''] c)
     else do {
       c \<leftarrow> master_check_state sk c;
       Some (True, emits [AnnounceChanged CREATURE_SPEED_CHANGED] c)}}"

definition SkillLight_SetTimer :: "addr \<Rightarrow> int \<Rightarrow> int \<Rightarrow> int \<Rightarrow> int \<Rightarrow> crea \<Rightarrow> (bool \<times> crea) option" where
  "SkillLight_SetTimer a Cy Co Mx AdditionalValue c = do {
     sk \<leftarrow> heap c a;
     let c = put a (with_timer Cy Co Mx sk) c;
     if \<not> Master sk
     then Some (False, emits [Error ''SkillLight::SetTimer: GetMaster liefert NULL zurueck!''] c)
     else do {
       c \<leftarrow> master_check_state sk c;
       Some (True, emits [AnnounceChanged CREATURE_LIGHT_CHANGED] c)}}"

definition SkillIllusion_SetTimer :: "addr \<Rightarrow> int \<Rightarrow> int \<Rightarrow> int \<Rightarrow> int \<Rightarrow> crea \<Rightarrow> (bool \<times> crea) option" where
  "SkillIllusion_SetTimer a Cy Co Mx AdditionalValue c = do {
     sk \<leftarrow> heap c a;
     let c = put a (with_timer Cy Co Mx sk) c;
     if \<not> Master sk
     then Some (False, emits [Error ''SkillIllusion::SetTimer: GetMaster liefert NULL zurueck!''] c)
     else do {
       c \<leftarrow> master_check_state sk c;
       Some (True, emits [AnnounceChanged CREATURE_OUTFIT_CHANGED] c)}}"

definition poison_factor :: "int \<Rightarrow> int" where
  "poison_factor AdditionalValue =
     (let v = (if AdditionalValue = - 1 then 50 else AdditionalValue);
          v = (if v < 10 then 10 else v)
      in if v > 1000 then 1000 else v)"

definition SkillPoison_SetTimer :: "addr \<Rightarrow> int \<Rightarrow> int \<Rightarrow> int \<Rightarrow> int \<Rightarrow> crea \<Rightarrow> (bool \<times> crea) option" where
  "SkillPoison_SetTimer a Cy Co Mx AdditionalValue c = do {
     sk \<leftarrow> heap c a;
     c \<leftarrow> master_check_state sk (put a (with_timer Cy Co Mx sk) c);
     sk \<leftarrow> heap c a;
     Some (True, put a (sk\<lparr>FactorPercent := poison_factor AdditionalValue\<rparr>) c)}"

definition Skill_SetTimer :: "addr \<Rightarrow> int \<Rightarrow> int \<Rightarrow> int \<Rightarrow> int \<Rightarrow> crea \<Rightarrow> (bool \<times> crea) option" where
  "Skill_SetTimer a Cy Co Mx Ad c = do {
     sk \<leftarrow> heap c a;
     case vtable sk of
       SkillProbe \<Rightarrow> SkillProbe_SetTimer a Cy Co Mx Ad c
     | SkillGoStrength \<Rightarrow> SkillGoStrength_SetTimer a Cy Co Mx Ad c
     | SkillLight \<Rightarrow> SkillLight_SetTimer a Cy Co Mx Ad c
     | SkillIllusion \<Rightarrow> SkillIllusion_SetTimer a Cy Co Mx Ad c
     | SkillPoison \<Rightarrow> SkillPoison_SetTimer a Cy Co Mx Ad c
     | _ \<Rightarrow> TSkill_SetTimer a Cy Co Mx Ad c}"

definition Skill_DelTimer :: "addr \<Rightarrow> crea \<Rightarrow> crea option" where
  "Skill_DelTimer a c = do {
     sk \<leftarrow> heap c a;
     master_check_state sk (put a (with_timer 0 0 0 sk) c)}"

section \<open>Events of a running timer\<close>

definition SkillProbe_Event :: "addr \<Rightarrow> int \<Rightarrow> crea \<Rightarrow> crea option" where
  "SkillProbe_Event a Rng c = do {
     sk \<leftarrow> heap c a;
     if Cycle sk = 0
     then if \<not> Master sk then Some (emits [Error ''SkillProbe::Event: GetMaster liefert NULL zurueck!''] c)
          else do {
            let c = put a (sk\<lparr>MDAct := 0\<rparr>) c;
            if crType c = PLAYER
            then do {
              c \<leftarrow> (if SkNr sk = SKILL_GO_STRENGTH then CheckState c else Some c);
              Some (emits [SendPlayerSkills] c)}
            else Some c}
     else Some c}"

definition SkillGoStrength_Event :: "addr \<Rightarrow> int \<Rightarrow> crea \<Rightarrow> crea option" where
  "SkillGoStrength_Event a Rng c = do {
     sk \<leftarrow> heap c a;
     if Cycle sk \<noteq> 0 then Some c
     else if \<not> Master sk then Some (emits [Error ''SkillGoStrength::Event: GetMaster liefert NULL zurueck!''] c)
     else do {
       let c = put a (sk\<lparr>MDAct := 0\<rparr>) c;
       c \<leftarrow> (if SkNr sk = SKILL_GO_STRENGTH \<and> crType c = PLAYER then CheckState c else Some c);
       Some (emits [AnnounceChanged CREATURE_SPEED_CHANGED] c)}}"

definition SkillSoulpoints_Event :: "addr \<Rightarrow> int \<Rightarrow> crea \<Rightarrow> crea option" where
  "SkillSoulpoints_Event a Rng c = do {
     sk \<leftarrow> heap c a;
     if \<not> Master sk then Some (emits [Error ''SkillSoulpoints::Event: GetMaster liefert NULL zurueck!''] c)
     else if \<not> IsDead c then do {s \<leftarrow> skill_ptr c SKILL_SOUL; Change s 1 c}
     else Some c}"

text \<open>
  Seconds per hitpoint and per two points of mana, by the profession numbers of \<open>enums.h\<close>: none and
  knight (0, 1), paladin (2), sorcerer and druid (3, 4), and their promotions (11 to 14).
\<close>

definition fed_seconds :: "nat \<Rightarrow> int \<times> int \<times> effect list" where
  "fed_seconds Profession =
     (if Profession = 0 \<or> Profession = 1 then (6, 6, [])
      else if Profession = 2 then (8, 4, [])
      else if Profession = 3 \<or> Profession = 4 then (12, 3, [])
      else if Profession = 11 then (4, 6, [])
      else if Profession = 12 then (6, 3, [])
      else if Profession = 13 \<or> Profession = 14 then (12, 2, [])
      else (12, 6, [Error ''SkillFed::Event: Unknown profession'']))"

definition SkillFed_Event :: "addr \<Rightarrow> int \<Rightarrow> crea \<Rightarrow> crea option" where
  "SkillFed_Event a Rng c = do {
     sk \<leftarrow> heap c a;
     if \<not> Master sk then Some (emits [Error ''SkillFed::Event: GetMaster liefert NULL zurueck!''] c)
     else if IsDead c \<or> ProtectionZone c then Some c
     else do {
       let Profession = (if crType c = PLAYER then ActiveProfession c else 0);
       let (SecsPerHP, SecsPerMana, es) = fed_seconds Profession;
       let c = emits es c;
       let Timer = TimerValue sk;
       c \<leftarrow> (if Timer smod SecsPerHP = 0
            then do {hp \<leftarrow> skill_ptr c SKILL_HITPOINTS; Change hp 1 c} else Some c);
       if Timer smod SecsPerMana = 0
       then do {mp \<leftarrow> skill_ptr c SKILL_MANA; Change mp 2 c} else Some c}}"

definition SkillLight_Event :: "addr \<Rightarrow> int \<Rightarrow> crea \<Rightarrow> crea option" where
  "SkillLight_Event a Rng c = do {
     sk \<leftarrow> heap c a;
     Some (if \<not> Master sk then emits [Error ''SkillLight::Event: GetMaster liefert NULL zurueck!''] c
           else emits [AnnounceChanged CREATURE_LIGHT_CHANGED] c)}"

definition SkillIllusion_Event :: "addr \<Rightarrow> int \<Rightarrow> crea \<Rightarrow> crea option" where
  "SkillIllusion_Event a Rng c = do {
     sk \<leftarrow> heap c a;
     Some (if Cycle sk = 0
           then if \<not> Master sk then emits [Error ''SkillIllusion::Event: GetMaster liefert NULL zurueck!''] c
                else if Get sk \<le> 0
                then emits [AnnounceChanged CREATURE_OUTFIT_CHANGED, NotifyAllCreatures]
                       (c\<lparr>Outfit := OrgOutfit c\<rparr>)
                else c
           else c)}"

text \<open>Outfits are numbers here, \<open>0\<close> is \<open>TOutfit::Invisible()\<close>.\<close>

abbreviation (input) Invisible :: int where "Invisible \<equiv> 0"

definition IsInvisible :: "crea \<Rightarrow> bool" where
  "IsInvisible c \<longleftrightarrow> Outfit c = Invisible"

abbreviation DAMAGE_POISON :: int where "DAMAGE_POISON \<equiv> 2"
abbreviation DAMAGE_FIRE :: int where "DAMAGE_FIRE \<equiv> 4"
abbreviation DAMAGE_ENERGY :: int where "DAMAGE_ENERGY \<equiv> 8"

text \<open>The loop over the objects of the field: every one of the given kind prolongs the timer.\<close>

definition fields_of :: "int \<Rightarrow> crea \<Rightarrow> int" where
  "fields_of ty c = int (length (filter (\<lambda>t. t = ty) (AvoidFields c)))"

definition prolong :: "int \<Rightarrow> addr \<Rightarrow> crea \<Rightarrow> crea option" where
  "prolong ty a c = do {
     sk \<leftarrow> heap c a;
     Some (put a (sk\<lparr>Cycle := Cycle sk + fields_of ty c\<rparr>) c)}"

definition SkillPoison_Event :: "env \<Rightarrow> addr \<Rightarrow> int \<Rightarrow> crea \<Rightarrow> crea option" where
  "SkillPoison_Event E a Rng c = do {
     sk \<leftarrow> heap c a;
     if \<not> Master sk then Some (emits [Error ''SkillPoison::Event: GetMaster liefert NULL zurueck!''] c)
     else do {
       let Rng = (if Rng < 0 then - Rng else Rng);
       c \<leftarrow> damage E (PoisonDamageOrigin c) Rng DAMAGE_POISON c;
       prolong DAMAGE_POISON a c}}"

definition SkillBurning_Event :: "env \<Rightarrow> addr \<Rightarrow> int \<Rightarrow> crea \<Rightarrow> crea option" where
  "SkillBurning_Event E a Rng c = do {
     sk \<leftarrow> heap c a;
     if \<not> Master sk then Some (emits [Error ''SkillBurning::Event: GetMaster liefert NULL zurueck!''] c)
     else do {
       c \<leftarrow> damage E (FireDamageOrigin c) 10 DAMAGE_FIRE c;
       prolong DAMAGE_FIRE a c}}"

definition SkillEnergy_Event :: "env \<Rightarrow> addr \<Rightarrow> int \<Rightarrow> crea \<Rightarrow> crea option" where
  "SkillEnergy_Event E a Rng c = do {
     sk \<leftarrow> heap c a;
     if \<not> Master sk then Some (emits [Error ''SkillEnergy::Event: GetMaster liefert NULL zurueck!''] c)
     else do {
       c \<leftarrow> damage E (EnergyDamageOrigin c) 25 DAMAGE_ENERGY c;
       prolong DAMAGE_ENERGY a c}}"

definition Event :: "env \<Rightarrow> addr \<Rightarrow> int \<Rightarrow> crea \<Rightarrow> crea option" where
  "Event E a Rng c = do {
     sk \<leftarrow> heap c a;
     case vtable sk of
       SkillProbe \<Rightarrow> SkillProbe_Event a Rng c
     | SkillGoStrength \<Rightarrow> SkillGoStrength_Event a Rng c
     | SkillSoulpoints \<Rightarrow> SkillSoulpoints_Event a Rng c
     | SkillFed \<Rightarrow> SkillFed_Event a Rng c
     | SkillLight \<Rightarrow> SkillLight_Event a Rng c
     | SkillIllusion \<Rightarrow> SkillIllusion_Event a Rng c
     | SkillPoison \<Rightarrow> SkillPoison_Event E a Rng c
     | SkillBurning \<Rightarrow> SkillBurning_Event E a Rng c
     | SkillEnergy \<Rightarrow> SkillEnergy_Event E a Rng c
     | _ \<Rightarrow> Some c}"

section \<open>Processing\<close>

definition poison_range :: "TSkill \<Rightarrow> int" where
  "poison_range sk = (let Rng = (Cycle sk * FactorPercent sk) sdiv 1000
                      in if Rng = 0 then (if Cycle sk > 0 then 1 else - 1) else Rng)"

definition TSkill_Process :: "env \<Rightarrow> addr \<Rightarrow> crea \<Rightarrow> (bool \<times> crea) option" where
  "TSkill_Process E a c = do {
     sk \<leftarrow> heap c a;
     if Cycle sk = 0 then map_option (Pair True) (master_check_state sk c)
     else if Count sk \<le> 0
     then do {
       let Rng = (if Cycle sk < 0 then 1 else - 1);
       let c = put a (sk\<lparr>Count := MaxCount sk, Cycle := Cycle sk + Rng\<rparr>) c;
       map_option (Pair False) (Event E a Rng c)}
     else Some (False, put a (sk\<lparr>Count := Count sk - 1\<rparr>) c)}"

definition SkillPoison_Process :: "env \<Rightarrow> addr \<Rightarrow> crea \<Rightarrow> (bool \<times> crea) option" where
  "SkillPoison_Process E a c = do {
     sk \<leftarrow> heap c a;
     if Cycle sk = 0 then map_option (Pair True) (master_check_state sk c)
     else if Count sk \<le> 0
     then do {
       let Rng = poison_range sk;
       let c = put a (sk\<lparr>Count := MaxCount sk, Cycle := Cycle sk - Rng\<rparr>) c;
       map_option (Pair False) (Event E a Rng c)}
     else Some (False, put a (sk\<lparr>Count := Count sk - 1\<rparr>) c)}"

definition Process :: "env \<Rightarrow> addr \<Rightarrow> crea \<Rightarrow> (bool \<times> crea) option" where
  "Process E a c = do {
     sk \<leftarrow> heap c a;
     if vtable sk = SkillPoison then SkillPoison_Process E a c else TSkill_Process E a c}"

section \<open>The container\<close>

definition timer_at :: "crea \<Rightarrow> nat \<Rightarrow> addr option option" where
  "timer_at c i = (if i < length (TimerList c) then Some (TimerList c ! i) else None)"

text \<open>Swap with the last timer and pop; with no timer left the index would wrap around.\<close>

definition swap_pop :: "nat \<Rightarrow> crea \<Rightarrow> crea option" where
  "swap_pop Index c = do {
     _ \<leftarrow> timer_at c Index;
     if FirstFreeTimer c = 0 then None
     else do {
       let n = FirstFreeTimer c - 1;
       t \<leftarrow> timer_at c n;
       Some (c\<lparr>FirstFreeTimer := n, TimerList := ((TimerList c)[Index := t])[n := None]\<rparr>)}}"

function find_timer :: "crea \<Rightarrow> addr \<Rightarrow> nat \<Rightarrow> nat option option" where
  "find_timer c a Index =
     (if Index < FirstFreeTimer c
      then case timer_at c Index of None \<Rightarrow> None
        | Some t \<Rightarrow> if t = Some a then Some (Some Index) else find_timer c a (Index + 1)
      else Some None)"
  by auto
termination by (relation "measure (\<lambda>(c, a, i). FirstFreeTimer c - i)") auto

declare find_timer.simps [simp del]

definition SkillBase_DelTimer :: "nat \<Rightarrow> crea \<Rightarrow> crea option" where
  "SkillBase_DelTimer nr c =
     (if nr \<ge> length (Skills c) then Some (emits [Error ''SkillBase::DelTimer: Ungueltige SkNr''] c)
      else case Skills c ! nr of
        None \<Rightarrow> Some c
      | Some a \<Rightarrow> do {
          c \<leftarrow> Skill_DelTimer a c;
          i \<leftarrow> find_timer c a 0;
          case i of None \<Rightarrow> Some c | Some Index \<Rightarrow> swap_pop Index c})"

definition push_timer :: "addr \<Rightarrow> crea \<Rightarrow> crea option" where
  "push_timer a c =
     (if FirstFreeTimer c < length (TimerList c)
      then Some (c\<lparr>TimerList := (TimerList c)[FirstFreeTimer c := Some a],
                   FirstFreeTimer := FirstFreeTimer c + 1\<rparr>)
      else None)"

definition SkillBase_SetTimer :: "nat \<Rightarrow> int \<Rightarrow> int \<Rightarrow> int \<Rightarrow> int \<Rightarrow> crea \<Rightarrow> (bool \<times> crea) option" where
  "SkillBase_SetTimer nr Cy Co Mx Ad c =
     (if nr \<ge> length (Skills c)
      then Some (False, emits [Error ''SkillBase::SetTimer: Ungueltige SkNr''] c)
      else do {
        c \<leftarrow> SkillBase_DelTimer nr c;
        a \<leftarrow> skill_ptr c nr;
        (Result, c) \<leftarrow> Skill_SetTimer a Cy Co Mx Ad c;
        if Result then map_option (Pair True) (push_timer a c) else Some (False, c)})"

text \<open>The step of \<open>TCreature::Damage\<close> that ends the invisibility of a monster or an NPC.\<close>

definition end_invisibility :: "crea \<Rightarrow> crea option" where
  "end_invisibility c =
     (if crType c \<noteq> PLAYER \<and> IsInvisible c
      then do {
        (_, c) \<leftarrow> SkillBase_SetTimer SKILL_ILLUSION 0 0 0 (- 1) c;
        Some (emits [AnnounceChanged CREATURE_OUTFIT_CHANGED, NotifyAllCreatures] (c\<lparr>Outfit := OrgOutfit c\<rparr>))}
      else Some c)"

partial_function (option) process_loop :: "env \<Rightarrow> nat \<Rightarrow> crea \<Rightarrow> crea option" where
  "process_loop E Index c =
     (if Index < FirstFreeTimer c
      then Option.bind (timer_at c Index) (\<lambda>t.
        case t of
          None \<Rightarrow> process_loop E (Index + 1) c
        | Some a \<Rightarrow> Option.bind (Process E a c) (\<lambda>r.
            if fst r then Option.bind (swap_pop Index (snd r)) (\<lambda>c'. process_loop E Index c')
            else process_loop E (Index + 1) (snd r)))
      else Some c)"

declare process_loop.simps [code]

definition ProcessSkills :: "env \<Rightarrow> crea \<Rightarrow> crea option" where
  "ProcessSkills E c = process_loop E 0 c"

text \<open>\<open>delete Skill\<close>: the destructor of \<open>TSkill\<close>, then the memory is free.\<close>

definition TSkill_delete :: "addr \<Rightarrow> crea \<Rightarrow> crea option" where
  "TSkill_delete a c = do {
     sk \<leftarrow> heap c a;
     c \<leftarrow> (if Master sk then SkillBase_DelTimer (SkNr sk) c else Some c);
     Some (c\<lparr>heap := (heap c)(a := None)\<rparr>)}"

text \<open>\<open>fresh\<close> is the address \<open>new\<close> returns.\<close>

definition NewSkill :: "addr \<Rightarrow> nat \<Rightarrow> crea \<Rightarrow> (bool \<times> crea) option" where
  "NewSkill fresh SkillNo c =
     (if SkillNo \<ge> length (Skills c)
      then Some (False, emits [Error ''SkillBase::NewSkill: unbekannte SkillNummer''] c)
      else do {
        c \<leftarrow> (case Skills c ! SkillNo of
                None \<Rightarrow> Some c
              | Some a \<Rightarrow> do {
                  c \<leftarrow> TSkill_delete a c;
                  Some (c\<lparr>Skills := (Skills c)[SkillNo := None]\<rparr>)});
        let c = put fresh (TSkill_new (skill_class_of SkillNo) SkillNo True) c;
        Some (True, c\<lparr>Skills := (Skills c)[SkillNo := Some fresh]\<rparr>)})"

definition SkillBase_new :: "crea \<Rightarrow> crea" where
  "SkillBase_new c = c\<lparr>Skills := replicate 25 None, TimerList := replicate 25 None, FirstFreeTimer := 0\<rparr>"

text \<open>The loop of the constructor of \<open>TCreature\<close>; \<open>fresh i\<close> is the address of skill \<open>i\<close>.\<close>

fun new_skills :: "(nat \<Rightarrow> addr) \<Rightarrow> nat list \<Rightarrow> crea \<Rightarrow> crea option" where
  "new_skills fresh [] c = Some c"
| "new_skills fresh (i # is) c = do {
     (r, c) \<leftarrow> NewSkill (fresh i) i c;
     new_skills fresh is c}"

fun SkillBase_delete :: "nat list \<Rightarrow> crea \<Rightarrow> crea option" where
  "SkillBase_delete [] c = Some c"
| "SkillBase_delete (i # is) c = do {
     c \<leftarrow> (case Skills c ! i of None \<Rightarrow> Some c | Some a \<Rightarrow> TSkill_delete a c);
     SkillBase_delete is c}"

record SkillData =
  Nr :: nat
  Actual :: int
  Minimum :: int
  Maximum :: int
  NextLevelOf :: int
  FactorPercentOf :: int
  AddLevelOf :: int

text \<open>\<open>race\<close> is the list of the race's skills, or \<open>None\<close> for an invalid race number.\<close>

fun set_skills_loop :: "SkillData list \<Rightarrow> crea \<Rightarrow> crea option" where
  "set_skills_loop [] c = Some c"
| "set_skills_loop (d # ds) c = do {
     a \<leftarrow> skill_ptr c (Nr d);
     sk \<leftarrow> heap c a;
     set_skills_loop ds (put a (sk\<lparr>Act := Actual d, MinVal := Minimum d, MaxVal := Maximum d,
       LastLevel := 0, NextLevel := NextLevelOf d, Delta := NextLevelOf d,
       FactorPercent := FactorPercentOf d, MaxCount := 0, AddLevel := AddLevelOf d\<rparr>) c)}"

definition SetSkills :: "SkillData list option \<Rightarrow> crea \<Rightarrow> (bool \<times> crea) option" where
  "SetSkills race c =
     (case race of
        None \<Rightarrow> Some (False, emits [Error ''SkillBase::SetSkills: Invalid race number''] c)
      | Some ds \<Rightarrow> map_option (Pair True) (set_skills_loop ds c))"

section \<open>Loading and saving\<close>

record skill_values =
  vAct :: int
  vMax :: int
  vMin :: int
  vDAct :: int
  vMDAct :: int
  vCycle :: int
  vMaxCycle :: int
  vCount :: int
  vMaxCount :: int
  vAddLevel :: int
  vExp :: int
  vFactorPercent :: int
  vNextLevel :: int
  vDelta :: int

definition Save :: "TSkill \<Rightarrow> skill_values" where
  "Save sk = \<lparr>vAct = Act sk, vMax = MaxVal sk, vMin = MinVal sk, vDAct = DAct sk,
     vMDAct = MDAct sk, vCycle = Cycle sk, vMaxCycle = MaxCycle sk, vCount = Count sk,
     vMaxCount = MaxCount sk, vAddLevel = AddLevel sk, vExp = Exp sk,
     vFactorPercent = FactorPercent sk, vNextLevel = NextLevel sk, vDelta = Delta sk\<rparr>"

definition loaded :: "skill_values \<Rightarrow> TSkill \<Rightarrow> TSkill" where
  "loaded v sk = sk\<lparr>Act := vAct v, MaxVal := vMax v, MinVal := vMin v, DAct := vDAct v,
     MDAct := vMDAct v, Cycle := vCycle v, MaxCycle := vMaxCycle v, Count := vCount v,
     MaxCount := vMaxCount v, AddLevel := vAddLevel v, Exp := vExp v,
     FactorPercent := vFactorPercent v, NextLevel := vNextLevel v, Delta := vDelta v\<rparr>"

definition Load :: "env \<Rightarrow> addr \<Rightarrow> skill_values \<Rightarrow> crea \<Rightarrow> crea option" where
  "Load E a v c = do {
     sk \<leftarrow> heap c a;
     let sk = loaded v sk;
     (x, es) \<leftarrow> GetExpForLevel E sk (vAct v);
     let c = emits es (put a (sk\<lparr>LastLevel := x\<rparr>) c);
     if Master sk \<and> vCycle v \<noteq> 0
     then map_option snd (SkillBase_SetTimer (SkNr sk) (vCycle v) (vCount v) (vMaxCount v) (vFactorPercent v) c)
     else Some c}"

section \<open>Names\<close>

definition skill_names :: "(string \<times> nat) list" where
  "skill_names =
     [(''level'', SKILL_LEVEL), (''magiclevel'', SKILL_MAGIC_LEVEL), (''hitpoints'', SKILL_HITPOINTS),
      (''mana'', SKILL_MANA), (''gostrength'', SKILL_GO_STRENGTH),
      (''carrystrength'', SKILL_CARRY_STRENGTH), (''shielding'', SKILL_SHIELDING),
      (''distancefighting'', SKILL_DISTANCE), (''swordfighting'', SKILL_SWORD),
      (''clubfighting'', SKILL_CLUB), (''axefighting'', SKILL_AXE), (''fistfighting'', SKILL_FIST),
      (''magicdefense'', SKILL_MAGIC_DEFENSE), (''fishing'', SKILL_FISHING), (''eating'', SKILL_FED),
      (''shining'', SKILL_LIGHT), (''illusion'', SKILL_ILLUSION), (''poison'', SKILL_POISON),
      (''burning'', SKILL_BURNING), (''energy'', SKILL_ENERGY), (''drunken'', SKILL_DRUNKEN),
      (''manashield'', SKILL_MANASHIELD), (''soulpoints'', SKILL_SOUL)]"

definition get_skill_by_name :: "string \<Rightarrow> int" where
  "get_skill_by_name Name = (case map_of skill_names Name of None \<Rightarrow> - 1 | Some n \<Rightarrow> int n)"


section \<open>The list of timers\<close>

text \<open>
  The abstract view: \<open>ts\<close> is the list of the skills with a running timer. They are distinct, each is
  the object of some slot, and the rest of the array is \<open>NULL\<close>.
\<close>

definition timer_rep :: "crea \<Rightarrow> addr list \<Rightarrow> bool" where
  "timer_rep c ts \<longleftrightarrow> length ts \<le> 25 \<and> TimerList c = map Some ts @ replicate (25 - length ts) None
     \<and> FirstFreeTimer c = length ts \<and> distinct ts \<and> (\<forall>a\<in>set ts. \<exists>n. skill_ptr c n = Some a)"

definition swap_remove :: "nat \<Rightarrow> 'a list \<Rightarrow> 'a list" where
  "swap_remove i ts = (butlast ts)[i := last ts]"

lemma swap_remove_props:
  assumes "distinct ts" "i < length ts"
  shows "distinct (swap_remove i ts)" "length (swap_remove i ts) = length ts - 1"
    "set (swap_remove i ts) = set ts - {ts ! i}" "take i (swap_remove i ts) = take i ts"
    "set (drop i (swap_remove i ts)) = set (drop i ts) - {ts ! i}"
proof -
  have "distinct (swap_remove i ts) \<and> length (swap_remove i ts) = length ts - 1
    \<and> set (swap_remove i ts) = set ts - {ts ! i} \<and> take i (swap_remove i ts) = take i ts
    \<and> set (drop i (swap_remove i ts)) = set (drop i ts) - {ts ! i}"
  proof (cases "i = length ts - 1")
    case True
    then show ?thesis using assms
      by (cases ts rule: rev_cases) (auto simp: swap_remove_def nth_append list_update_beyond)
  next
    case False
    then have "drop (Suc i) ts \<noteq> []" using assms(2) by simp
    then have "ts = take i ts @ ts ! i # butlast (drop (Suc i) ts) @ [last (drop (Suc i) ts)]"
      using id_take_nth_drop [OF assms(2)] append_butlast_last_id [of "drop (Suc i) ts"] by metis
    then obtain p a q z where ts: "ts = p @ a # q @ [z]" "length p = i"
      using assms(2) by (metis length_take min.absorb4)
    then have "swap_remove i ts = p @ z # q"
      by (auto simp: swap_remove_def butlast_append list_update_append)
    then show ?thesis using assms(1) ts by auto
  qed
  then show "distinct (swap_remove i ts)" "length (swap_remove i ts) = length ts - 1"
    "set (swap_remove i ts) = set ts - {ts ! i}" "take i (swap_remove i ts) = take i ts"
    "set (drop i (swap_remove i ts)) = set (drop i ts) - {ts ! i}"
    by blast+
qed

lemma timer_at_rep: "timer_rep c ts \<Longrightarrow> i < length ts \<Longrightarrow> timer_at c i = Some (Some (ts ! i))"
  by (simp add: timer_rep_def timer_at_def nth_append)

lemma swap_pop_rep:
  assumes "timer_rep c ts" "i < length ts"
  shows "\<exists>f t. swap_pop i c = Some (c\<lparr>FirstFreeTimer := f, TimerList := t\<rparr>)
    \<and> timer_rep (c\<lparr>FirstFreeTimer := f, TimerList := t\<rparr>) (swap_remove i ts)"
proof -
  obtain us z where us: "ts = us @ [z]" using assms(2) by (cases ts rule: rev_cases) auto
  have r: "distinct ts" "length ts \<le> 25" "FirstFreeTimer c = length ts"
    "TimerList c = map Some ts @ replicate (25 - length ts) None"
    using assms(1) by (simp_all add: timer_rep_def)
  have z: "timer_at c (length us) = Some (Some z)"
    using timer_at_rep [OF assms(1), of "length us"] us by simp
  let ?t = "((TimerList c)[i := Some z])[length us := None]"
  have pop: "swap_pop i c = Some (c\<lparr>FirstFreeTimer := length us, TimerList := ?t\<rparr>)"
    using timer_at_rep [OF assms] z r(3) us by (simp add: swap_pop_def Let_def)
  have "?t = map Some (swap_remove i ts) @ replicate (25 - length us) None"
  proof (rule nth_equalityI)
    show "length ?t = length (map Some (swap_remove i ts) @ replicate (25 - length us) None)"
      using r us by (simp add: swap_remove_def)
    fix j assume "j < length ?t"
    then show "?t ! j = (map Some (swap_remove i ts) @ replicate (25 - length us) None) ! j"
      using r us assms(2)
      by (cases "j = length us"; cases "j = i"; cases "j < length us")
        (auto simp: swap_remove_def nth_append nth_list_update nth_Cons split: nat.splits)
  qed
  moreover have "skill_ptr (c\<lparr>FirstFreeTimer := f, TimerList := t\<rparr>) = skill_ptr c" for f t
    by (simp add: skill_ptr_def fun_eq_iff)
  moreover have "\<forall>a\<in>set (swap_remove i ts). \<exists>n. skill_ptr c n = Some a"
    using swap_remove_props(3) [OF r(1) assms(2)] assms(1) by (simp add: timer_rep_def)
  ultimately have "timer_rep (c\<lparr>FirstFreeTimer := length us, TimerList := ?t\<rparr>) (swap_remove i ts)"
    using swap_remove_props(1,2) [OF r(1) assms(2)] r(2) us unfolding timer_rep_def by simp
  then show ?thesis using pop by blast
qed

lemma find_timer_absent:
  "timer_rep c ts \<Longrightarrow> i \<le> length ts \<Longrightarrow> a \<notin> set (drop i ts) \<Longrightarrow> find_timer c a i = Some None"
proof (induction "length ts - i" arbitrary: i)
  case 0
  then show ?case by (subst find_timer.simps) (simp add: timer_rep_def)
next
  case (Suc k)
  then have i: "i < length ts" by simp
  then have d: "drop i ts = ts ! i # drop (Suc i) ts" by (simp add: Cons_nth_drop_Suc)
  show ?case
    using Suc.hyps(1) [of "Suc i"] Suc.hyps(2) Suc.prems d i timer_at_rep [OF Suc.prems(1) i]
    by (subst find_timer.simps) (simp add: timer_rep_def)
qed

lemma find_timer_present:
  "timer_rep c ts \<Longrightarrow> j < length ts \<Longrightarrow> i \<le> j \<Longrightarrow> find_timer c (ts ! j) i = Some (Some j)"
proof (induction "j - i" arbitrary: i)
  case 0
  then show ?case using timer_at_rep [of c ts j]
    by (subst find_timer.simps) (simp add: timer_rep_def)
next
  case (Suc k)
  then have "ts ! i \<noteq> ts ! j" by (simp add: timer_rep_def nth_eq_iff_index_eq)
  then show ?case
    using Suc timer_at_rep [of c ts i] by (subst find_timer.simps) (simp add: timer_rep_def)
qed

text \<open>The array has room for every skill that has no timer yet.\<close>

lemma timer_room:
  assumes "wf_skills c" "timer_rep c ts" "skill_ptr c n = Some a" "a \<notin> set ts"
  shows "length ts < 25"
proof -
  have "set (map Some (a # ts)) \<subseteq> set (Skills c)"
    using assms(2,3) by (fastforce simp: timer_rep_def skill_ptr_def in_set_conv_nth split: if_splits)
  moreover have "distinct (map Some (a # ts))"
    using assms(2,4) by (auto simp: timer_rep_def distinct_map)
  ultimately have "length (map Some (a # ts)) \<le> length (Skills c)"
    by (metis card_length card_mono distinct_card finite_set order_trans)
  then show ?thesis using assms(1) by (simp add: wf_skills_def)
qed

section \<open>Setting and deleting timers\<close>

text \<open>
  What the operations leave alone. A creature is plain when it is a player, or neither invisible nor with an invisible outfit of its own.
\<close>

definition plain :: "crea \<Rightarrow> bool" where
  "plain c \<longleftrightarrow> crType c = PLAYER \<or> \<not> IsInvisible c \<and> OrgOutfit c \<noteq> Invisible"

definition same_frame :: "crea \<Rightarrow> crea \<Rightarrow> bool" where
  "same_frame c c' \<longleftrightarrow> Skills c' = Skills c \<and> crType c' = crType c \<and> AvoidFields c' = AvoidFields c \<and> (plain c \<longrightarrow> plain c')"

lemma plain_simps [simp]:
  "plain (c\<lparr>trace := t\<rparr>) = plain c" "plain (c\<lparr>OldState := st\<rparr>) = plain c" "plain (c\<lparr>TimerList := ts\<rparr>) = plain c"
  "plain (c\<lparr>FirstFreeTimer := f\<rparr>) = plain c" "plain c \<Longrightarrow> plain (c\<lparr>Outfit := OrgOutfit c\<rparr>)"
  by (auto simp: plain_def IsInvisible_def)

definition same_timers :: "crea \<Rightarrow> crea \<Rightarrow> bool" where
  "same_timers c c' \<longleftrightarrow> same_frame c c' \<and> TimerList c' = TimerList c \<and> FirstFreeTimer c' = FirstFreeTimer c"

lemma same_frame_refl [simp]: "same_frame c c"
  by (simp add: same_frame_def)

lemma same_timers_refl [simp]: "same_timers c c"
  by (simp add: same_timers_def)

lemma same_frame_trans: "same_frame c c' \<Longrightarrow> same_frame c' c'' \<Longrightarrow> same_frame c c''"
  by (simp add: same_frame_def)

lemma same_timers_trans: "same_timers c c' \<Longrightarrow> same_timers c' c'' \<Longrightarrow> same_timers c c''"
  by (auto simp: same_timers_def same_frame_def)

lemma same_timers_put [simp]: "same_timers c (put a sk c)" "same_timers c (emits es c)"
  by (simp_all add: same_timers_def same_frame_def put_def emits_def plain_def IsInvisible_def)

lemma emits_Nil [simp]: "emits [] c = c"
  by (simp add: emits_def)

lemma same_frame_ptr: "same_frame c c' \<Longrightarrow> skill_ptr c' = skill_ptr c"
  using skill_ptr_Skills [of c' c] by (simp add: same_frame_def)

lemma timer_rep_same: "same_timers c c' \<Longrightarrow> timer_rep c' ts = timer_rep c ts"
  using same_frame_ptr [of c c'] by (simp add: same_timers_def timer_rep_def)

lemma wf_skills_view:
  "Skills c' = Skills c \<Longrightarrow> heap c' = heap c \<Longrightarrow> wf_skills c' = wf_skills c \<and> skill_at c' = skill_at c"
  by (auto simp: wf_skills_def slot_ok_def skill_at_def skill_ptr_def fun_eq_iff)

lemma CheckState_ok:
  assumes "wf_skills c"
  shows "\<exists>s t. CheckState c = Some (c\<lparr>OldState := s, trace := t\<rparr>)"
proof -
  have at: "\<exists>sk. skill_at c n = Some sk" if "n < 25" for n
    using wf_skills_at [OF assms that] by metis
  obtain s1 s2 s3 s4 s5 s6 where sk: "skill_at c SKILL_POISON = Some s1" "skill_at c SKILL_BURNING = Some s2"
    "skill_at c SKILL_ENERGY = Some s3" "skill_at c SKILL_DRUNKEN = Some s4"
    "skill_at c SKILL_MANASHIELD = Some s5" "skill_at c SKILL_GO_STRENGTH = Some s6"
    using at [of SKILL_POISON] at [of SKILL_BURNING] at [of SKILL_ENERGY] at [of SKILL_DRUNKEN]
      at [of SKILL_MANASHIELD] at [of SKILL_GO_STRENGTH] by auto
  have "\<exists>s t. (if S \<noteq> OldState c then emits [SendPlayerState S] (c\<lparr>OldState := S\<rparr>) else c)
      = c\<lparr>OldState := s, trace := t\<rparr>" for S
    by (intro exI [of _ "if S \<noteq> OldState c then S else OldState c"]
        exI [of _ "if S \<noteq> OldState c then trace c @ [SendPlayerState S] else trace c"])
      (simp add: emits_def)
  moreover have "\<exists>s t. c = c\<lparr>OldState := s, trace := t\<rparr>"
    by (intro exI [of _ "OldState c"] exI [of _ "trace c"]) simp
  ultimately show ?thesis
    unfolding CheckState_def sk bind.bind_lunit Let_def by (cases "Connection c") simp_all
qed

lemma master_check_ok:
  assumes "wf_skills c"
  shows "\<exists>c'. master_check_state sk c = Some c' \<and> wf_skills c' \<and> skill_at c' = skill_at c
    \<and> heap c' = heap c \<and> same_timers c c'"
proof (cases "Master sk \<and> crType c = PLAYER")
  case True
  obtain s t where "CheckState c = Some (c\<lparr>OldState := s, trace := t\<rparr>)"
    using CheckState_ok [OF assms] by blast
  then show ?thesis
    using True assms wf_skills_view [of "c\<lparr>OldState := s, trace := t\<rparr>" c]
    by (simp add: master_check_state_def same_timers_def same_frame_def)
qed (use assms in \<open>auto simp: master_check_state_def\<close>)


text \<open>A method that replaces the object of slot \<open>n\<close> and then reports to the player.\<close>

lemma put_master_check:
  assumes "wf_skills c" "skill_ptr c n = Some a" "SkNr new = n" "Master new" "vtable new = skill_class_of n"
  shows "\<exists>c'. master_check_state sk (put a new c) = Some c' \<and> wf_skills c'
    \<and> skill_at c' = (skill_at c)(n \<mapsto> new) \<and> same_timers c c'"
proof -
  have "wf_skills (put a new c)" by (rule wf_skills_put [OF assms])
  from master_check_ok [OF this, of sk] obtain c' where
    "master_check_state sk (put a new c) = Some c'" "wf_skills c'"
    "skill_at c' = skill_at (put a new c)" "same_timers (put a new c) c'" by blast
  then show ?thesis
    using skill_at_put [OF assms(1,2), of new] same_timers_trans [OF same_timers_put(1)] by auto
qed

text \<open>The list without \<open>a\<close>: the last entry takes its place.\<close>

definition without :: "'a \<Rightarrow> 'a list \<Rightarrow> 'a list" where
  "without a ts = (if a \<in> set ts then swap_remove (length (takeWhile (\<lambda>b. b \<noteq> a) ts)) ts else ts)"

lemma first_place: "a \<in> set ts \<Longrightarrow> length (takeWhile (\<lambda>b. b \<noteq> a) ts) < length ts \<and> ts ! length (takeWhile (\<lambda>b. b \<noteq> a) ts) = a"
  by (induction ts) auto

lemma without_absent: "a \<notin> set ts \<Longrightarrow> without a ts = ts"
  by (simp add: without_def)

lemma DelTimer_ok:
  assumes "wf_skills c" "timer_rep c ts" "n < 25" "skill_ptr c n = Some a" "skill_at c n = Some sk"
  shows "\<exists>c' ts'. SkillBase_DelTimer n c = Some c' \<and> wf_skills c' \<and> timer_rep c' ts'
    \<and> set ts' = set ts - {a} \<and> ts' = without a ts \<and> same_frame c c'
    \<and> skill_at c' = (skill_at c)(n \<mapsto> with_timer 0 0 0 sk)"
proof -
  have h: "heap c a = Some sk" using heap_skill_at [OF assms(4)] assms(5) by simp
  have slot: "SkNr sk = n" "Master sk" "vtable sk = skill_class_of n"
    using wf_skills_at [OF assms(1,3)] assms(5) by (metis option.inject)+
  have n: "n < length (Skills c)" "Skills c ! n = Some a"
    using assms(1,3,4) by (simp_all add: wf_skills_def skill_ptr_def)
  obtain c1 where c1: "Skill_DelTimer a c = Some c1" "wf_skills c1" "same_timers c c1"
      "skill_at c1 = (skill_at c)(n \<mapsto> with_timer 0 0 0 sk)"
    using put_master_check [OF assms(1,4), of "with_timer 0 0 0 sk" sk] slot h
    by (auto simp: Skill_DelTimer_def)
  have rep: "timer_rep c1 ts" using timer_rep_same [OF c1(3)] assms(2) by simp
  have frame: "same_frame c c1" using c1(3) by (simp add: same_timers_def)
  show ?thesis
  proof (cases "a \<in> set ts")
    case False
    then show ?thesis
      using n c1 rep frame find_timer_absent [OF rep, of 0 a]
      by (simp add: SkillBase_DelTimer_def without_def)
  next
    case True
    define i where "i = length (takeWhile (\<lambda>b. b \<noteq> a) ts)"
    have i: "i < length ts" "ts ! i = a" unfolding i_def using first_place [OF True] by auto
    obtain f t where pop: "swap_pop i c1 = Some (c1\<lparr>FirstFreeTimer := f, TimerList := t\<rparr>)"
        "timer_rep (c1\<lparr>FirstFreeTimer := f, TimerList := t\<rparr>) (swap_remove i ts)"
      using swap_pop_rep [OF rep i(1)] by blast
    have v: "wf_skills (c1\<lparr>FirstFreeTimer := f, TimerList := t\<rparr>)"
      "skill_at (c1\<lparr>FirstFreeTimer := f, TimerList := t\<rparr>) = skill_at c1"
      "same_frame c (c1\<lparr>FirstFreeTimer := f, TimerList := t\<rparr>)"
      using wf_skills_view [of "c1\<lparr>FirstFreeTimer := f, TimerList := t\<rparr>" c1] c1(2) frame
      by (simp_all add: same_frame_def)
    have "set (swap_remove i ts) = set ts - {a}"
      using swap_remove_props(3) [of ts i] i assms(2) by (simp add: timer_rep_def)
    moreover have "SkillBase_DelTimer n c = Some (c1\<lparr>FirstFreeTimer := f, TimerList := t\<rparr>)"
      using n c1(1) find_timer_present [OF rep i(1), of 0] i(2) pop(1)
      by (simp add: SkillBase_DelTimer_def)
    ultimately show ?thesis
      using v c1(4) pop(2) True by (intro exI [of _ "c1\<lparr>FirstFreeTimer := f, TimerList := t\<rparr>"]
          exI [of _ "swap_remove i ts"]) (simp add: without_def i_def)
  qed
qed

text \<open>The object after its \<open>SetTimer\<close>, by class.\<close>

definition timer_set :: "int \<Rightarrow> int \<Rightarrow> int \<Rightarrow> int \<Rightarrow> TSkill \<Rightarrow> TSkill" where
  "timer_set Cy Co Mx Ad sk =
     (let new = with_timer Cy Co Mx sk in
      if vtable sk = SkillGoStrength \<and> Cy = 0 then new\<lparr>MDAct := 0\<rparr>
      else if vtable sk = SkillPoison then new\<lparr>FactorPercent := poison_factor Ad\<rparr>
      else new)"

lemma timer_set_sel [simp]:
  "SkNr (timer_set Cy Co Mx Ad sk) = SkNr sk" "Master (timer_set Cy Co Mx Ad sk) = Master sk"
  "vtable (timer_set Cy Co Mx Ad sk) = vtable sk" "Cycle (timer_set Cy Co Mx Ad sk) = Cy"
  by (simp_all add: timer_set_def Let_def)

lemma Skill_SetTimer_ok:
  assumes "wf_skills c" "n < 25" "skill_ptr c n = Some a" "skill_at c n = Some sk"
  shows "\<exists>c'. Skill_SetTimer a Cy Co Mx Ad c = Some (True, c') \<and> wf_skills c' \<and> same_timers c c'
    \<and> skill_at c' = (skill_at c)(n \<mapsto> timer_set Cy Co Mx Ad sk)"
proof -
  have h: "heap c a = Some sk" using heap_skill_at [OF assms(3)] assms(4) by simp
  have slot: "SkNr sk = n" "Master sk" "vtable sk = skill_class_of n"
    using wf_skills_at [OF assms(1,2)] assms(4) by (metis option.inject)+
  have emit: "wf_skills (emits es d) = wf_skills d \<and> skill_at (emits es d) = skill_at d
      \<and> (same_timers c d \<longrightarrow> same_timers c (emits es d))" for es d
    using same_timers_trans [OF _ same_timers_put(2)] by auto
  have poison: ?thesis if "vtable sk = SkillPoison"
  proof -
    obtain c1 where c1: "master_check_state sk (put a (with_timer Cy Co Mx sk) c) = Some c1" "wf_skills c1"
        "skill_at c1 = (skill_at c)(n \<mapsto> with_timer Cy Co Mx sk)" "same_timers c c1"
      using put_master_check [OF assms(1,3), of "with_timer Cy Co Mx sk" sk] slot by auto
    have p: "skill_ptr c1 n = Some a"
      using c1(4) same_frame_ptr assms(3) by (metis same_timers_def)
    let ?new = "timer_set Cy Co Mx Ad sk"
    have "heap c1 a = Some (with_timer Cy Co Mx sk)" using heap_skill_at [OF p] c1(3) by simp
    then have "Skill_SetTimer a Cy Co Mx Ad c = Some (True, put a ?new c1)"
      using that h c1(1) by (simp add: Skill_SetTimer_def SkillPoison_SetTimer_def timer_set_def)
    then show ?thesis
      using wf_skills_put [OF c1(2) p, of ?new] skill_at_put [OF c1(2) p, of ?new] c1(3,4) slot
        same_timers_trans [OF c1(4) same_timers_put(1)] by simp
  qed
  have other: ?thesis if k: "vtable sk \<noteq> SkillPoison"
  proof -
    obtain c1 where c1: "master_check_state sk (put a (timer_set Cy Co Mx Ad sk) c) = Some c1"
        "wf_skills c1" "skill_at c1 = (skill_at c)(n \<mapsto> timer_set Cy Co Mx Ad sk)" "same_timers c c1"
      using put_master_check [OF assms(1,3), of "timer_set Cy Co Mx Ad sk" sk] slot by auto
    define es where "es = (case vtable sk of SkillProbe \<Rightarrow> if crType c1 = PLAYER then [SendPlayerData] else []
      | SkillGoStrength \<Rightarrow> [AnnounceChanged CREATURE_SPEED_CHANGED]
      | SkillLight \<Rightarrow> [AnnounceChanged CREATURE_LIGHT_CHANGED]
      | SkillIllusion \<Rightarrow> [AnnounceChanged CREATURE_OUTFIT_CHANGED] | _ \<Rightarrow> [])"
    have new: "timer_set Cy Co Mx Ad sk = (if vtable sk = SkillGoStrength \<and> Cy = 0
        then (with_timer Cy Co Mx sk)\<lparr>MDAct := 0\<rparr> else with_timer Cy Co Mx sk)"
      using k by (simp add: timer_set_def Let_def)
    have "Skill_SetTimer a Cy Co Mx Ad c = Some (True, emits es c1)"
      using k h slot(2) c1(1) unfolding new es_def Skill_SetTimer_def
      by (cases "vtable sk") (simp_all add: TSkill_SetTimer_def SkillProbe_SetTimer_def
          SkillGoStrength_SetTimer_def SkillLight_SetTimer_def SkillIllusion_SetTimer_def Let_def)
    then show ?thesis using c1(2-4) emit by auto
  qed
  show ?thesis using poison other by blast
qed

lemma push_timer_rep:
  assumes "timer_rep c ts" "length ts < 25" "a \<notin> set ts" "skill_ptr c n = Some a"
  shows "\<exists>f t. push_timer a c = Some (c\<lparr>FirstFreeTimer := f, TimerList := t\<rparr>)
    \<and> timer_rep (c\<lparr>FirstFreeTimer := f, TimerList := t\<rparr>) (ts @ [a])"
proof -
  have r: "TimerList c = map Some ts @ replicate (25 - length ts) None" "FirstFreeTimer c = length ts"
    "distinct ts" "\<forall>a\<in>set ts. \<exists>n. skill_ptr c n = Some a"
    using assms(1) by (simp_all add: timer_rep_def)
  let ?t = "(TimerList c)[length ts := Some a]"
  have "replicate (25 - length ts) None = None # replicate (24 - length ts) (None :: addr option)"
    using assms(2) by (simp add: Suc_diff_le flip: replicate_Suc)
  then have "?t = map Some (ts @ [a]) @ replicate (25 - length (ts @ [a])) None"
    using r(1) list_update_length [of "map Some ts"] by simp
  moreover have "skill_ptr (c\<lparr>FirstFreeTimer := f, TimerList := t\<rparr>) = skill_ptr c" for f t
    by (simp add: skill_ptr_def fun_eq_iff)
  ultimately have "timer_rep (c\<lparr>FirstFreeTimer := Suc (length ts), TimerList := ?t\<rparr>) (ts @ [a])"
    using assms(2-4) r(3,4) unfolding timer_rep_def by auto
  moreover have "push_timer a c = Some (c\<lparr>FirstFreeTimer := Suc (length ts), TimerList := ?t\<rparr>)"
    using r(1,2) assms(2) by (simp add: push_timer_def)
  ultimately show ?thesis by blast
qed

lemma SetTimer_ok:
  assumes "wf_skills c" "timer_rep c ts" "n < 25" "skill_ptr c n = Some a" "skill_at c n = Some sk"
  shows "\<exists>c' ts'. SkillBase_SetTimer n Cy Co Mx Ad c = Some (True, c') \<and> wf_skills c'
    \<and> timer_rep c' (ts' @ [a]) \<and> set ts' = set ts - {a} \<and> ts' = without a ts \<and> same_frame c c'
    \<and> skill_at c' = (skill_at c)(n \<mapsto> timer_set Cy Co Mx Ad sk)"
proof -
  obtain c1 ts' where c1: "SkillBase_DelTimer n c = Some c1" "wf_skills c1" "timer_rep c1 ts'"
      "set ts' = set ts - {a}" "same_frame c c1" "skill_at c1 = (skill_at c)(n \<mapsto> with_timer 0 0 0 sk)" "ts' = without a ts"
    using DelTimer_ok [OF assms] by blast
  have p: "skill_ptr c1 n = Some a" using same_frame_ptr [OF c1(5)] assms(4) by simp
  have s1: "skill_at c1 n = Some (with_timer 0 0 0 sk)" using c1(6) by simp
  obtain c2 where c2: "Skill_SetTimer a Cy Co Mx Ad c1 = Some (True, c2)" "wf_skills c2" "same_timers c1 c2"
      "skill_at c2 = (skill_at c1)(n \<mapsto> timer_set Cy Co Mx Ad (with_timer 0 0 0 sk))"
    using Skill_SetTimer_ok [OF c1(2) assms(3) p s1] by blast
  have rep: "timer_rep c2 ts'" and p2: "skill_ptr c2 n = Some a"
    using timer_rep_same [OF c2(3)] c1(3) same_frame_ptr [of c1 c2] c2(3) p
    by (simp_all add: same_timers_def)
  have new: "a \<notin> set ts'" using c1(4) by simp
  obtain f t where push: "push_timer a c2 = Some (c2\<lparr>FirstFreeTimer := f, TimerList := t\<rparr>)"
      "timer_rep (c2\<lparr>FirstFreeTimer := f, TimerList := t\<rparr>) (ts' @ [a])"
    using push_timer_rep [OF rep timer_room [OF c2(2) rep p2 new] new p2] by blast
  let ?c = "c2\<lparr>FirstFreeTimer := f, TimerList := t\<rparr>"
  have v: "wf_skills ?c" "skill_at ?c = skill_at c2" "same_frame c ?c"
    using wf_skills_view [of ?c c2] c2(2,3) c1(5) by (simp_all add: same_frame_def same_timers_def)
  have "SkillBase_SetTimer n Cy Co Mx Ad c = Some (True, ?c)"
    using assms(1,3) c1(1) p c2(1) push(1) by (simp add: SkillBase_SetTimer_def wf_skills_def)
  moreover have "timer_set Cy Co Mx Ad (with_timer 0 0 0 sk) = timer_set Cy Co Mx Ad sk"
    by (simp add: timer_set_def Let_def)
  ultimately show ?thesis
    using v c1(4,6,7) c2(4) push(2) by (intro exI [of _ ?c] exI [of _ ts']) simp
qed


section \<open>Processing timers\<close>

text \<open>What the timers of the skills look like: the four fields that drive a timer.\<close>

definition tv :: "TSkill \<Rightarrow> int \<times> int \<times> int \<times> int" where
  "tv sk = (Cycle sk, Count sk, MaxCount sk, FactorPercent sk)"

definition timer_view :: "crea \<Rightarrow> nat \<Rightarrow> (int \<times> int \<times> int \<times> int) option" where
  "timer_view c n = map_option tv (skill_at c n)"

text \<open>
  The operation returns with the skills well-formed, the array of timers unchanged and the given
  view of the timers.
\<close>

definition keeps :: "crea \<Rightarrow> (nat \<Rightarrow> (int \<times> int \<times> int \<times> int) option) \<Rightarrow> crea option \<Rightarrow> bool" where
  "keeps c v r \<longleftrightarrow> (\<exists>c'. r = Some c' \<and> wf_skills c' \<and> same_timers c c' \<and> timer_view c' = v)"

text \<open>
  The damage that timers deal to \<open>c\<close> is quiet when it returns, keeps the skill objects of all slots in place and touches no timer,
  also after other steps of the same round. \<open>TCreature::Damage\<close> is not always quiet for these types of damage: it ends the
  invisibility of a creature that is no player by \<open>SetTimer\<close>, and so does \<open>NotifyChangeInventory\<close> for an illusion when an
  item that wears out turns into one that makes invisible.
\<close>

definition quiet_damage :: "env \<Rightarrow> crea \<Rightarrow> bool" where
  "quiet_damage E c \<longleftrightarrow> (\<forall>who x ty c'. ty \<in> {DAMAGE_POISON, DAMAGE_FIRE, DAMAGE_ENERGY} \<longrightarrow> wf_skills c' \<longrightarrow> same_frame c c' \<longrightarrow>
     keeps c' (timer_view c') (damage E who x ty c'))"

text \<open>Slot \<open>n\<close> deals damage in this round: it is one of the three harmful skills, its timer runs and its counter is at zero.\<close>

fun due :: "int \<times> int \<times> int \<times> int \<Rightarrow> bool" where
  "due (Cy, Co, Mx, F) \<longleftrightarrow> Cy \<noteq> 0 \<and> Co \<le> 0"

definition harmful :: "nat \<Rightarrow> bool" where
  "harmful n \<longleftrightarrow> n \<in> {SKILL_POISON, SKILL_BURNING, SKILL_ENERGY}"

definition damage_due :: "crea \<Rightarrow> addr set \<Rightarrow> bool" where
  "damage_due c A \<longleftrightarrow> (\<exists>n a v. harmful n \<and> a \<in> A \<and> skill_ptr c n = Some a \<and> timer_view c n = Some v \<and> due v)"

lemma quiet_damage_frame: "same_frame c c' \<Longrightarrow> quiet_damage E c \<Longrightarrow> quiet_damage E c'"
  unfolding quiet_damage_def by (meson same_frame_trans)

lemma keepsI: "wf_skills c' \<Longrightarrow> same_timers c c' \<Longrightarrow> timer_view c' = v \<Longrightarrow> keeps c v (Some c')"
  by (simp add: keeps_def)

lemma keeps_refl: "wf_skills c \<Longrightarrow> keeps c (timer_view c) (Some c)"
  by (simp add: keeps_def)

lemma keeps_emits: "wf_skills c \<Longrightarrow> keeps c (timer_view c) (Some (emits es c))"
  by (simp add: keeps_def timer_view_def fun_eq_iff)

lemma keeps_trans: "same_timers c c' \<Longrightarrow> keeps c' v r \<Longrightarrow> keeps c v r"
  by (auto simp: keeps_def intro: same_timers_trans)

lemma keeps_bind:
  assumes "keeps c v r" "\<And>c'. wf_skills c' \<Longrightarrow> same_timers c c' \<Longrightarrow> timer_view c' = v \<Longrightarrow> keeps c' v' (f c')"
  shows "keeps c v' (Option.bind r f)"
proof -
  obtain c' where c': "r = Some c'" "wf_skills c'" "same_timers c c'" "timer_view c' = v"
    using assms(1) by (auto simp: keeps_def)
  then show ?thesis using assms(2) [OF c'(2-4)] keeps_trans by simp
qed

lemma keeps_put:
  assumes "wf_skills c" "n < 25" "skill_ptr c n = Some a" "skill_at c n = Some sk"
    "SkNr new = SkNr sk" "Master new = Master sk" "vtable new = vtable sk"
  shows "keeps c ((timer_view c)(n \<mapsto> tv new)) (Some (put a new c))"
proof -
  have "SkNr sk = n" "Master sk" "vtable sk = skill_class_of n"
    using wf_skills_at [OF assms(1,2)] assms(4) by (metis option.inject)+
  then show ?thesis
    using wf_skills_put [OF assms(1,3), of new] skill_at_put [OF assms(1,3), of new] assms(5-7)
    by (intro keepsI) (auto simp: timer_view_def fun_eq_iff)
qed

lemma keeps_put_same:
  assumes "wf_skills c" "n < 25" "skill_ptr c n = Some a" "skill_at c n = Some sk"
    "SkNr new = SkNr sk" "Master new = Master sk" "vtable new = vtable sk" "tv new = tv sk"
  shows "keeps c (timer_view c) (Some (put a new c))"
proof -
  have "(timer_view c)(n \<mapsto> tv new) = timer_view c"
    using assms(4,8) by (simp add: timer_view_def fun_upd_idem)
  then show ?thesis using keeps_put [OF assms(1-7)] by simp
qed

lemma keeps_check: "wf_skills c \<Longrightarrow> keeps c (timer_view c) (master_check_state sk c)"
  using master_check_ok [of c sk] by (auto simp: keeps_def timer_view_def fun_eq_iff)

lemma keeps_CheckState: "wf_skills c \<Longrightarrow> keeps c (timer_view c) (CheckState c)"
proof -
  assume wf: "wf_skills c"
  then obtain s t where c': "CheckState c = Some (c\<lparr>OldState := s, trace := t\<rparr>)"
    using CheckState_ok by blast
  have "wf_skills (c\<lparr>OldState := s, trace := t\<rparr>)" "skill_at (c\<lparr>OldState := s, trace := t\<rparr>) = skill_at c"
    using wf_skills_view [of "c\<lparr>OldState := s, trace := t\<rparr>" c] wf by simp_all
  then show ?thesis
    unfolding c' by (intro keepsI) (simp_all add: same_timers_def same_frame_def timer_view_def fun_eq_iff)
qed

lemma keeps_after_emits: "keeps c v (Some c') \<Longrightarrow> keeps c v (Some (emits es c'))"
  by (auto simp: keeps_def timer_view_def fun_eq_iff intro: same_timers_trans [OF _ same_timers_put(2)])

lemma keeps_Set:
  assumes "wf_skills c" "n < 25" "skill_ptr c n = Some a"
  shows "keeps c (timer_view c) (Set a v c)"
proof -
  obtain sk where sk: "heap c a = Some sk" "skill_at c n = Some sk"
    using wf_skills_at [OF assms(1,2)] assms(3) by (metis option.inject)
  have p: "keeps c (timer_view c) (Some (put a (sk\<lparr>Act := x\<rparr>) c))" for x
    by (rule keeps_put_same [OF assms sk(2)]) (simp_all add: tv_def)
  show ?thesis
    using sk(1) p keeps_after_emits [OF p] keeps_emits [OF assms(1)]
    by (cases "vtable sk") (simp_all add: Set_def TSkill_Set_def SkillHitpoints_Set_def SkillMana_Set_def
        SkillCarryStrength_Set_def SkillSoulpoints_Set_def Let_def)
qed

lemma keeps_Change:
  assumes "wf_skills c" "n < 25" "skill_ptr c n = Some a"
  shows "keeps c (timer_view c) (Change a v c)"
proof -
  obtain sk where sk: "heap c a = Some sk" using wf_skills_at [OF assms(1,2)] assms(3) by (metis option.inject)
  have "keeps c (timer_view c) (Option.bind (Set a (Act sk + v) c) (\<lambda>c. Option.bind (heap c a)
      (\<lambda>sk. Some (if Act sk > MaxVal sk then put a (sk\<lparr>Act := MaxVal sk\<rparr>) c else c))))"
  proof (rule keeps_bind [OF keeps_Set [OF assms]])
    fix c' assume c': "wf_skills c'" "same_timers c c'" "timer_view c' = timer_view c"
    then have p: "skill_ptr c' n = Some a"
      using same_frame_ptr [of c c'] assms(3) by (simp add: same_timers_def)
    obtain sk' where sk': "heap c' a = Some sk'" "skill_at c' n = Some sk'"
      using wf_skills_at [OF c'(1) assms(2)] p by (metis option.inject)
    have "keeps c' (timer_view c') (Some (put a (sk'\<lparr>Act := MaxVal sk'\<rparr>) c'))"
      by (rule keeps_put_same [OF c'(1) assms(2) p sk'(2)]) (simp_all add: tv_def)
    then show "keeps c' (timer_view c) (Option.bind (heap c' a)
      (\<lambda>sk. Some (if Act sk > MaxVal sk then put a (sk\<lparr>Act := MaxVal sk\<rparr>) c' else c')))"
      using sk'(1) c'(3) keeps_refl [OF c'(1)] by simp
  qed
  then show ?thesis using sk by (simp add: Change_def)
qed

lemma keeps_Change_slot:
  assumes "wf_skills c" "n < 25"
  shows "keeps c (timer_view c) (Option.bind (skill_ptr c n) (\<lambda>a. Change a v c))"
  using wf_skills_at [OF assms] keeps_Change [OF assms] by (metis bind.bind_lunit)


text \<open>
  One round of a timer: the four fields after \<open>Process\<close>. \<open>k\<close> counts the fields under the creature
  that prolong the timer; a poison timer loses a share of what is left, the others one unit.
\<close>

definition poison_share :: "int \<Rightarrow> int \<Rightarrow> int" where
  "poison_share Cy F = (let Rng = (Cy * F) sdiv 1000
                        in if Rng = 0 then (if Cy > 0 then 1 else - 1) else Rng)"

definition cycle_step :: "bool \<Rightarrow> int \<Rightarrow> int \<Rightarrow> int" where
  "cycle_step poison Cy F =
     (if poison then Cy - poison_share Cy F else Cy + (if Cy < 0 then 1 else - 1))"

fun tick :: "bool \<Rightarrow> int \<Rightarrow> int \<times> int \<times> int \<times> int \<Rightarrow> int \<times> int \<times> int \<times> int" where
  "tick poison k (Cy, Co, Mx, F) =
     (if Cy = 0 then (Cy, Co, Mx, F)
      else if Co \<le> 0 then (cycle_step poison Cy F + k, Mx, Mx, F)
      else (Cy, Co - 1, Mx, F))"

definition prolonging :: "crea \<Rightarrow> nat \<Rightarrow> int" where
  "prolonging c n = (if n = SKILL_POISON then fields_of DAMAGE_POISON c
     else if n = SKILL_BURNING then fields_of DAMAGE_FIRE c
     else if n = SKILL_ENERGY then fields_of DAMAGE_ENERGY c else 0)"

lemma prolonging_same: "same_timers c c' \<Longrightarrow> prolonging c' = prolonging c"
  by (auto simp: prolonging_def fields_of_def same_timers_def same_frame_def fun_eq_iff)

lemma fields_of_same: "same_timers c c' \<Longrightarrow> fields_of ty c' = fields_of ty c"
  by (simp add: fields_of_def same_timers_def same_frame_def)

lemma skill_class_slots:
  "skill_class_of n = SkillPoison \<longleftrightarrow> n = SKILL_POISON"
  "skill_class_of n = SkillBurning \<longleftrightarrow> n = SKILL_BURNING"
  "skill_class_of n = SkillEnergy \<longleftrightarrow> n = SKILL_ENERGY"
  by (simp_all add: skill_class_of_def)

text \<open>An event keeps the timers, except that fields prolong the timer of its own skill.\<close>

lemma keeps_prolong:
  assumes "wf_skills c" "n < 25" "skill_ptr c n = Some a" "timer_view c n = Some (Cy, Co, Mx, F)"
  shows "keeps c ((timer_view c)(n \<mapsto> (Cy + fields_of ty c, Co, Mx, F))) (prolong ty a c)"
proof -
  obtain sk where sk: "heap c a = Some sk" "skill_at c n = Some sk"
    using wf_skills_at [OF assms(1,2)] assms(3) by (metis option.inject)
  then have "tv (sk\<lparr>Cycle := Cycle sk + fields_of ty c\<rparr>) = (Cy + fields_of ty c, Co, Mx, F)"
    using assms(4) by (simp add: timer_view_def tv_def)
  then show ?thesis
    using keeps_put [OF assms(1-3) sk(2), of "sk\<lparr>Cycle := Cycle sk + fields_of ty c\<rparr>"] sk(1)
    by (simp add: prolong_def)
qed

lemma keeps_damage_prolong:
  assumes "quiet_damage E c" "wf_skills c" "n < 25" "skill_ptr c n = Some a"
    "timer_view c n = Some (Cy, Co, Mx, F)" "ty \<in> {DAMAGE_POISON, DAMAGE_FIRE, DAMAGE_ENERGY}"
  shows "keeps c ((timer_view c)(n \<mapsto> (Cy + fields_of ty c, Co, Mx, F)))
    (Option.bind (damage E who x ty c) (prolong ty a))"
proof (rule keeps_bind)
  show "keeps c (timer_view c) (damage E who x ty c)"
    using assms(1) [unfolded quiet_damage_def, rule_format, OF assms(6,2) same_frame_refl] .
  fix c' assume c': "wf_skills c'" "same_timers c c'" "timer_view c' = timer_view c"
  have "skill_ptr c' n = Some a" using same_frame_ptr [of c c'] c'(2) assms(4) by (simp add: same_timers_def)
  then show "keeps c' ((timer_view c)(n \<mapsto> (Cy + fields_of ty c, Co, Mx, F))) (prolong ty a c')"
    using keeps_prolong [OF c'(1) assms(3), of a Cy Co Mx F ty] c'(3) assms(5) fields_of_same [OF c'(2)]
    by simp
qed

lemma keeps_SkillFed_Event:
  assumes "wf_skills c" "heap c a = Some sk"
  shows "keeps c (timer_view c) (SkillFed_Event a R c)"
proof -
  obtain h m es where f: "fed_seconds (if crType c = PLAYER then ActiveProfession c else 0) = (h, m, es)"
    using prod_cases3 by blast
  let ?c = "emits es c"
  have wf: "wf_skills ?c" and tv: "timer_view ?c = timer_view c" and same: "same_timers c ?c"
    using assms(1) by (simp_all add: timer_view_def fun_eq_iff)
  have hp: "keeps ?c (timer_view c) (if TimerValue sk smod h = 0
      then Option.bind (skill_ptr ?c SKILL_HITPOINTS) (\<lambda>hp. Change hp 1 ?c) else Some ?c)"
    using keeps_Change_slot [OF wf, of SKILL_HITPOINTS 1] keeps_refl [OF wf] tv by simp
  have mp: "keeps c' (timer_view c) (if TimerValue sk smod m = 0
      then Option.bind (skill_ptr c' SKILL_MANA) (\<lambda>mp. Change mp 2 c') else Some c')"
    if "wf_skills c'" "timer_view c' = timer_view c" for c'
    using keeps_Change_slot [OF that(1), of SKILL_MANA 2] keeps_refl [OF that(1)] that(2) by simp
  have "keeps c (timer_view c) (Option.bind (if TimerValue sk smod h = 0
      then Option.bind (skill_ptr ?c SKILL_HITPOINTS) (\<lambda>hp. Change hp 1 ?c) else Some ?c)
      (\<lambda>c'. if TimerValue sk smod m = 0
        then Option.bind (skill_ptr c' SKILL_MANA) (\<lambda>mp. Change mp 2 c') else Some c'))"
    by (rule keeps_trans [OF same], rule keeps_bind [OF hp]) (rule mp)
  then show ?thesis
    using assms(2) f keeps_emits [OF assms(1)] keeps_refl [OF assms(1)]
    by (simp add: SkillFed_Event_def Let_def)
qed

lemma keeps_MDAct_check:
  assumes "wf_skills c" "n < 25" "skill_ptr c n = Some a" "skill_at c n = Some sk"
  shows "keeps c (timer_view c) (if b then CheckState (put a (sk\<lparr>MDAct := x\<rparr>) c)
    else Some (put a (sk\<lparr>MDAct := x\<rparr>) c))"
proof -
  let ?c = "put a (sk\<lparr>MDAct := x\<rparr>) c"
  have p: "keeps c (timer_view c) (Some ?c)"
    by (rule keeps_put_same [OF assms]) (simp_all add: tv_def)
  have "keeps c (timer_view c) (Option.bind (Some ?c) CheckState)"
    by (rule keeps_bind [OF p]) (metis keeps_CheckState)
  then show ?thesis using p by simp
qed

lemma keeps_bind_emits: "keeps c v r \<Longrightarrow> keeps c v (Option.bind r (\<lambda>c. Some (emits es c)))"
  using keeps_after_emits by (auto simp: keeps_def)

lemma keeps_Event:
  assumes "harmful n \<Longrightarrow> quiet_damage E c" "wf_skills c" "n < 25" "skill_ptr c n = Some a"
    "timer_view c n = Some (Cy, Co, Mx, F)"
  shows "keeps c ((timer_view c)(n \<mapsto> (Cy + prolonging c n, Co, Mx, F))) (Event E a R c)"
proof -
  obtain sk where sk: "heap c a = Some sk" "skill_at c n = Some sk" "Master sk" "vtable sk = skill_class_of n"
    using wf_skills_at [OF assms(2,3)] assms(4) by (metis option.inject)
  show ?thesis
  proof (cases "vtable sk = SkillPoison \<or> vtable sk = SkillBurning \<or> vtable sk = SkillEnergy")
    case True
    then have "quiet_damage E c" using assms(1) sk(4) skill_class_slots [of n] by (auto simp: harmful_def)
    note prolong = keeps_damage_prolong [OF this assms(2-5)]
    show ?thesis
      using True sk prolong [of DAMAGE_POISON] prolong [of DAMAGE_FIRE] prolong [of DAMAGE_ENERGY] skill_class_slots [of n]
      by (auto simp: Event_def SkillPoison_Event_def SkillBurning_Event_def SkillEnergy_Event_def
          prolonging_def Let_def)
  next
    case False
    have "(timer_view c)(n \<mapsto> (Cy + prolonging c n, Co, Mx, F)) = timer_view c"
      using False sk(4) skill_class_slots [of n] assms(5) by (simp add: prolonging_def fun_upd_idem)
    moreover have "keeps c (timer_view c) (Event E a R c)"
    proof -
      let ?o = "emits [AnnounceChanged CREATURE_OUTFIT_CHANGED, NotifyAllCreatures] (c\<lparr>Outfit := OrgOutfit c\<rparr>)"
      have "keeps c (timer_view c) (Some ?o)"
        using wf_skills_view [of ?o c] assms(2)
        by (intro keepsI) (simp_all add: same_timers_def same_frame_def timer_view_def fun_eq_iff emits_def)
      then show ?thesis
        using False sk(1,3) keeps_refl [OF assms(2)] keeps_emits [OF assms(2)]
          keeps_SkillFed_Event [OF assms(2) sk(1)] keeps_Change_slot [OF assms(2), of SKILL_SOUL 1]
          keeps_bind_emits [OF keeps_MDAct_check [OF assms(2-4) sk(2), of _ 0]]
          keeps_MDAct_check [OF assms(2-4) sk(2), of False 0]
        by (cases "vtable sk") (simp_all add: Event_def SkillProbe_Event_def SkillGoStrength_Event_def
            SkillSoulpoints_Event_def SkillLight_Event_def SkillIllusion_Event_def Let_def)
    qed
    ultimately show ?thesis by simp
  qed
qed


lemma Process_ok:
  assumes "harmful n \<Longrightarrow> due (tv sk) \<Longrightarrow> quiet_damage E c" "wf_skills c" "n < 25" "skill_ptr c n = Some a" "skill_at c n = Some sk"
  shows "\<exists>c'. Process E a c = Some (Cycle sk = 0, c') \<and> wf_skills c' \<and> same_timers c c'
    \<and> timer_view c' = (timer_view c)(n \<mapsto> tick (n = SKILL_POISON) (prolonging c n) (tv sk))"
proof -
  have h: "heap c a = Some sk" using heap_skill_at [OF assms(4)] assms(5) by simp
  have k: "vtable sk = SkillPoison \<longleftrightarrow> n = SKILL_POISON"
    using wf_skills_at [OF assms(2,3)] assms(5) skill_class_slots(1) by (metis option.inject)
  have view: "timer_view c n = Some (tv sk)" using assms(5) by (simp add: timer_view_def)
  consider "Cycle sk = 0" | "Cycle sk \<noteq> 0" "Count sk \<le> 0" | "Cycle sk \<noteq> 0" "0 < Count sk" by linarith
  then show ?thesis
  proof cases
    case 1
    then show ?thesis
      using h keeps_check [OF assms(2), of sk] view
      by (auto simp: Process_def SkillPoison_Process_def TSkill_Process_def keeps_def tv_def fun_upd_idem)
  next
    case 2
    define R where "R = (if n = SKILL_POISON then poison_share (Cycle sk) (FactorPercent sk)
      else if Cycle sk < 0 then 1 else - 1)"
    define Cy where "Cy = cycle_step (n = SKILL_POISON) (Cycle sk) (FactorPercent sk)"
    let ?sk = "sk\<lparr>Count := MaxCount sk, Cycle := Cy\<rparr>"
    let ?c = "put a ?sk c"
    have "keeps c ((timer_view c)(n \<mapsto> tv ?sk)) (Some ?c)"
      by (rule keeps_put [OF assms(2-5)]) simp_all
    then have c1: "wf_skills ?c" "same_timers c ?c" "timer_view ?c = (timer_view c)(n \<mapsto> tv ?sk)"
      by (simp_all add: keeps_def)
    have "timer_view ?c n = Some (Cy, MaxCount sk, MaxCount sk, FactorPercent sk)"
      using c1(3) by (simp add: tv_def)
    moreover have "harmful n \<Longrightarrow> quiet_damage E ?c"
      using assms(1) 2 quiet_damage_frame [of c ?c E] c1(2) by (simp add: tv_def same_timers_def)
    ultimately obtain c' where c':
      "Event E a R ?c = Some c'" "wf_skills c'" "same_timers ?c c'"
      "timer_view c' = (timer_view c)(n \<mapsto> (Cy + prolonging ?c n, MaxCount sk, MaxCount sk, FactorPercent sk))"
      using keeps_Event [of n E ?c a Cy "MaxCount sk" "MaxCount sk" "FactorPercent sk" R] c1(1,3) assms(3,4) by (auto simp: keeps_def)
    have "Process E a c = map_option (Pair False) (Event E a R ?c)"
      using h 2 k by (auto simp: Process_def SkillPoison_Process_def TSkill_Process_def R_def Cy_def
          cycle_step_def poison_range_def poison_share_def Let_def)
    then show ?thesis
      using c' 2 prolonging_same [OF c1(2)] same_timers_trans [OF c1(2) c'(3)]
      by (simp add: tv_def Cy_def)
  next
    case 3
    let ?sk = "sk\<lparr>Count := Count sk - 1\<rparr>"
    have "keeps c ((timer_view c)(n \<mapsto> tv ?sk)) (Some (put a ?sk c))"
      by (rule keeps_put [OF assms(2-5)]) simp_all
    moreover have "Process E a c = Some (False, put a ?sk c)"
      using h 3 by (simp add: Process_def SkillPoison_Process_def TSkill_Process_def)
    ultimately show ?thesis using 3 by (simp add: keeps_def tv_def)
  qed
qed

text \<open>The timers after a round, given the slots whose timers ran.\<close>

definition ticked :: "crea \<Rightarrow> addr set \<Rightarrow> nat \<Rightarrow> (int \<times> int \<times> int \<times> int) option" where
  "ticked c A n = (if \<exists>a\<in>A. skill_ptr c n = Some a
     then map_option (tick (n = SKILL_POISON) (prolonging c n)) (timer_view c n) else timer_view c n)"

definition running :: "crea \<Rightarrow> addr \<Rightarrow> bool" where
  "running c a \<longleftrightarrow> (case heap c a of None \<Rightarrow> False | Some sk \<Rightarrow> Cycle sk \<noteq> 0)"

lemma running_slot:
  assumes "skill_ptr c n = Some a"
  shows "running c a \<longleftrightarrow> (\<exists>Cy r. timer_view c n = Some (Cy, r) \<and> Cy \<noteq> 0)"
  using heap_skill_at [OF assms] by (auto simp: running_def timer_view_def tv_def split: option.splits)

lemma ticked_step:
  assumes "wf_skills c" "skill_ptr c n = Some a" "skill_at c n = Some sk" "a \<notin> A"
    "same_timers c c'" "timer_view c' = (timer_view c)(n \<mapsto> tick (n = SKILL_POISON) (prolonging c n) (tv sk))"
  shows "ticked c' A = ticked c (insert a A)"
proof
  fix m
  have p: "skill_ptr c' = skill_ptr c" "prolonging c' = prolonging c"
    using assms(5) same_frame_ptr prolonging_same by (auto simp: same_timers_def)
  show "ticked c' A m = ticked c (insert a A) m"
  proof (cases "m = n")
    case True
    then show ?thesis using assms(2-4,6) p by (simp add: ticked_def timer_view_def)
  next
    case False
    then have "skill_ptr c m \<noteq> Some a" using skill_ptr_inj [OF assms(1,2)] by blast
    then show ?thesis using False assms(6) p by (simp add: ticked_def)
  qed
qed

lemma running_step:
  assumes "wf_skills c" "skill_ptr c n = Some a" "b \<noteq> a" "skill_ptr c m = Some b" "same_timers c c'"
    "timer_view c' = (timer_view c)(n \<mapsto> v)"
  shows "running c' b = running c b"
proof -
  have "m \<noteq> n" using assms(2-4) by auto
  moreover have "skill_ptr c' m = Some b"
    using assms(4,5) same_frame_ptr [of c c'] by (simp add: same_timers_def)
  ultimately show ?thesis using running_slot [of c' m b] running_slot [OF assms(4)] assms(6) by simp
qed

lemma damage_due_step:
  assumes "wf_skills c" "skill_ptr c n = Some a" "a \<notin> A" "same_timers c c'" "timer_view c' = (timer_view c)(n \<mapsto> v)" "damage_due c' A"
  shows "damage_due c (insert a A)"
proof -
  obtain m b u where b: "harmful m" "b \<in> A" "skill_ptr c' m = Some b" "timer_view c' m = Some u" "due u"
    using assms(6) by (auto simp: damage_due_def)
  have p: "skill_ptr c m = Some b" using b(3) same_frame_ptr [of c c'] assms(4) by (simp add: same_timers_def)
  then have "m \<noteq> n" using assms(2,3) b(2) by auto
  then have "timer_view c m = Some u" using b(4) assms(5) by simp
  then show ?thesis using b(1,2,5) p unfolding damage_due_def by blast
qed

lemma process_loop_ok:
  assumes "damage_due c (set (drop i ts)) \<Longrightarrow> quiet_damage E c" "wf_skills c" "timer_rep c ts" "i \<le> length ts"
  shows "\<exists>c' ts'. process_loop E i c = Some c' \<and> wf_skills c' \<and> timer_rep c' ts'
    \<and> take i ts' = take i ts \<and> i \<le> length ts' \<and> set (drop i ts') = {a \<in> set (drop i ts). running c a}
    \<and> same_frame c c' \<and> timer_view c' = ticked c (set (drop i ts))"
  using assms(2-4,1)
proof (induction "length ts - i" arbitrary: c ts i rule: less_induct)
  case less
  show ?case
  proof (cases "i = length ts")
    case True
    have "ticked c {} = timer_view c" by (simp add: ticked_def fun_eq_iff)
    then show ?thesis
      using less.prems True by (subst process_loop.simps) (auto simp: timer_rep_def)
  next
    case False
    then have i: "i < length ts" using less.prems(3) by simp
    let ?a = "ts ! i"
    have d: "drop i ts = ?a # drop (Suc i) ts" using i by (simp add: Cons_nth_drop_Suc)
    have dist: "distinct ts" "?a \<notin> set (drop (Suc i) ts)"
      using less.prems(2) d distinct_drop [of ts i] by (auto simp: timer_rep_def)
    have ptrs: "\<exists>m. skill_ptr c m = Some b" if "b \<in> set (drop i ts)" for b
      using less.prems(2) that in_set_dropD [OF that] by (auto simp: timer_rep_def)
    obtain n where n: "skill_ptr c n = Some ?a" using ptrs d by auto
    then have n25: "n < 25" using less.prems(1) by (auto simp: skill_ptr_def wf_skills_def split: if_splits)
    obtain sk where sk: "skill_at c n = Some sk" "heap c ?a = Some sk"
      using wf_skills_at [OF less.prems(1) n25] n by (metis option.inject)
    have quiet: "harmful n \<Longrightarrow> due (tv sk) \<Longrightarrow> quiet_damage E c"
    proof -
      assume h: "harmful n" "due (tv sk)"
      have "timer_view c n = Some (tv sk)" using sk(1) by (simp add: timer_view_def)
      moreover have "?a \<in> set (drop i ts)" using d by simp
      ultimately have "damage_due c (set (drop i ts))" using h n unfolding damage_due_def by blast
      then show ?thesis by (rule less.prems(4))
    qed
    obtain c1 where c1: "Process E ?a c = Some (Cycle sk = 0, c1)" "wf_skills c1" "same_timers c c1"
        "timer_view c1 = (timer_view c)(n \<mapsto> tick (n = SKILL_POISON) (prolonging c n) (tv sk))"
      using Process_ok [OF quiet less.prems(1) n25 n sk(1)] by blast
    have rep1: "timer_rep c1 ts" using timer_rep_same [OF c1(3)] less.prems(2) by simp
    have step: "process_loop E i c = (if Cycle sk = 0 then Option.bind (swap_pop i c1) (process_loop E i)
        else process_loop E (Suc i) c1)"
      using timer_at_rep [OF less.prems(2) i] less.prems(2) i c1(1)
      by (subst process_loop.simps) (simp add: timer_rep_def)
    have run: "running c1 b = running c b" if "b \<in> set (drop (Suc i) ts)" for b
    proof -
      have "b \<noteq> ?a" using that dist(2) by auto
      moreover have "b \<in> set (drop i ts)" using that d by simp
      then obtain m where "skill_ptr c m = Some b" using ptrs by blast
      ultimately show ?thesis using running_step [OF less.prems(1) n _ _ c1(3,4)] by blast
    qed
    have tick: "ticked c1 (set (drop (Suc i) ts)) = ticked c (set (drop i ts))"
      using ticked_step [OF less.prems(1) n sk(1) dist(2) c1(3,4)] d by simp
    have fr1: "same_frame c c1" using c1(3) by (simp add: same_timers_def)
    have quiet1: "quiet_damage E c1" if "damage_due c1 (set (drop (Suc i) ts))"
      using damage_due_step [OF less.prems(1) n dist(2) c1(3,4) that] less.prems(4) d quiet_damage_frame [OF fr1] by simp
    have runa: "running c ?a \<longleftrightarrow> Cycle sk \<noteq> 0" using sk(2) by (simp add: running_def)
    show ?thesis
    proof (cases "Cycle sk = 0")
      case False
      obtain c' ts' where c': "process_loop E (Suc i) c1 = Some c'" "wf_skills c'" "timer_rep c' ts'"
          "take (Suc i) ts' = take (Suc i) ts" "Suc i \<le> length ts'"
          "set (drop (Suc i) ts') = {a \<in> set (drop (Suc i) ts). running c1 a}" "same_frame c1 c'"
          "timer_view c' = ticked c1 (set (drop (Suc i) ts))"
        using less.hyps [OF diff_less_mono2 [OF lessI i] c1(2) rep1 Suc_leI [OF i] quiet1] by blast
      have "ts' ! i = ?a" using c'(4,5) i by (metis Suc_le_lessD lessI nth_take)
      then have "set (drop i ts') = insert ?a (set (drop (Suc i) ts'))"
        using c'(5) by (simp add: Cons_nth_drop_Suc [symmetric] Suc_le_lessD)
      then have "set (drop i ts') = {a \<in> set (drop i ts). running c a}"
        using c'(6) run d runa False by auto
      moreover have "take i ts' = take i ts"
        using c'(4) by (metis lessI less_or_eq_imp_le min.absorb1 take_take)
      ultimately show ?thesis
        using step c'(1-3,5,8) False tick same_frame_trans [OF fr1 c'(7)] by auto
    next
      case True
      obtain f t where pop: "swap_pop i c1 = Some (c1\<lparr>FirstFreeTimer := f, TimerList := t\<rparr>)"
          "timer_rep (c1\<lparr>FirstFreeTimer := f, TimerList := t\<rparr>) (swap_remove i ts)"
        using swap_pop_rep [OF rep1 i] by blast
      let ?c = "c1\<lparr>FirstFreeTimer := f, TimerList := t\<rparr>"
      note sr = swap_remove_props [OF dist(1) i]
      have v: "wf_skills ?c" "skill_at ?c = skill_at c1" "same_frame c1 ?c" "heap ?c = heap c1"
        using wf_skills_view [of ?c c1] c1(2) by (simp_all add: same_frame_def)
      have set': "set (drop i (swap_remove i ts)) = set (drop (Suc i) ts)"
        using sr(5) d dist(2) by auto
      have "timer_view ?c = timer_view c1" "prolonging ?c = prolonging c1"
        using v(2) by (simp_all add: timer_view_def prolonging_def fields_of_def fun_eq_iff)
      then have tick': "ticked ?c A = ticked c1 A" for A
        using same_frame_ptr [OF v(3)] by (simp add: ticked_def fun_eq_iff)
      have run': "running ?c b = running c1 b" for b using v(4) by (simp add: running_def)
      have quiet': "quiet_damage E ?c" if "damage_due ?c (set (drop (Suc i) ts))"
        using that quiet1 quiet_damage_frame [OF v(3)] same_frame_ptr [OF v(3)] v(2) by (simp add: damage_due_def timer_view_def)
      obtain c' ts' where c': "process_loop E i ?c = Some c'" "wf_skills c'" "timer_rep c' ts'"
          "take i ts' = take i (swap_remove i ts)" "i \<le> length ts'"
          "set (drop i ts') = {a \<in> set (drop (Suc i) ts). running ?c a}" "same_frame ?c c'"
          "timer_view c' = ticked ?c (set (drop (Suc i) ts))"
        using less.hyps [of "swap_remove i ts" i ?c] v(1) pop(2) sr(2) i quiet' unfolding set' by force
      have "set (drop i ts') = {a \<in> set (drop i ts). running c a}"
        using c'(6) run run' d runa True by auto
      then show ?thesis
        using step True pop(1) c'(1-5,8) sr(4) tick tick'
          same_frame_trans [OF fr1 same_frame_trans [OF v(3) c'(7)]] by auto
    qed
  qed
qed


section \<open>Properties\<close>

text \<open>
  C21: A round of the timers. On a creature whose timers are in order, \<open>ProcessSkills\<close> returns; every timer of the list is processed
  exactly once although finished ones are removed by swapping with the last entry during the iteration; exactly the timers whose
  \<open>Cycle\<close> was zero leave the list; and no other timer changes. When poison, fire or energy deals damage in this round, the
  damage must not touch a timer.
\<close>

theorem process_skills_once:
  assumes "wf_skills c" "timer_rep c ts" "damage_due c (set ts) \<Longrightarrow> quiet_damage E c"
  shows "\<exists>c' ts'. ProcessSkills E c = Some c' \<and> wf_skills c' \<and> timer_rep c' ts'
    \<and> set ts' = {a \<in> set ts. running c a} \<and> timer_view c' = ticked c (set ts)"
  using process_loop_ok [of c 0 ts E] assms by (auto simp: ProcessSkills_def)

text \<open>An environment in which damage ends the invisibility of a creature and is subtracted from its hitpoints.\<close>

definition sample_env :: env where
  "sample_env = \<lparr>pow_exp = (\<lambda>f d n. n * d), renorm_exp = (\<lambda>f d n e l m. e),
     damage = (\<lambda>who n ty c. Option.bind (end_invisibility c) (\<lambda>c. Option.bind (skill_ptr c SKILL_HITPOINTS) (\<lambda>a. Change a (- n) c)))\<rparr>"

definition sample_timers :: crea where
  "sample_timers = (put 17 ((sample_skill 17)\<lparr>Cycle := 20, FactorPercent := 50\<rparr>) sample_creature)
     \<lparr>TimerList := [Some 17, Some 15] @ replicate 23 None, FirstFreeTimer := 2\<rparr>"

lemma sample_env_quiet:
  assumes "plain c"
  shows "quiet_damage sample_env c"
  unfolding quiet_damage_def
proof (intro allI impI)
  fix who x ty c' assume "wf_skills c'" "same_frame c c'"
  moreover have "end_invisibility c' = Some c'" using calculation(2) assms by (auto simp: same_frame_def plain_def end_invisibility_def)
  ultimately show "keeps c' (timer_view c') (damage sample_env who x ty c')"
    using keeps_Change_slot [of c' SKILL_HITPOINTS] by (simp add: sample_env_def)
qed

lemma sample_wf: "wf_skills sample_creature" "timer_rep sample_creature []"
  using sample_ok(1) by (simp_all add: level_change_ok_def timer_rep_def sample_creature_def)

lemma sample_timers_ok:
  "wf_skills sample_timers" "timer_rep sample_timers [17, 15]" "running sample_timers 17"
  "\<not> running sample_timers 15"
proof -
  let ?c = "put 17 ((sample_skill 17)\<lparr>Cycle := 20, FactorPercent := 50\<rparr>) sample_creature"
  have "wf_skills ?c"
    by (rule wf_skills_put [OF sample_wf(1)]) (simp_all add: sample_at sample_skill_sel)
  then show "wf_skills sample_timers"
    using wf_skills_view [of sample_timers ?c] by (simp add: sample_timers_def)
  have "skill_ptr sample_timers = skill_ptr sample_creature"
    by (simp add: sample_timers_def skill_ptr_def fun_eq_iff)
  then have "skill_ptr sample_timers n = (if n < 25 then Some n else None)" for n
    by (simp add: sample_at)
  then show "timer_rep sample_timers [17, 15]"
    by (auto simp: timer_rep_def sample_timers_def numeral_eq_Suc)
  show "running sample_timers 17" "\<not> running sample_timers 15"
    by (simp_all add: running_def sample_timers_def sample_creature_def sample_skill_sel)
qed

theorem process_skills_once_witness:
  "\<exists>c' ts'. ProcessSkills sample_env sample_timers = Some c' \<and> wf_skills c' \<and> timer_rep c' ts'
    \<and> set ts' = {17} \<and> timer_view c' = ticked sample_timers {17, 15}"
proof -
  have "{a \<in> set [17, 15]. running sample_timers a} = {17}" using sample_timers_ok(3,4) by auto
  then show ?thesis
    using process_skills_once [OF sample_timers_ok(1,2) sample_env_quiet] by (simp add: plain_def sample_timers_def sample_creature_def put_def)
qed

text \<open>
  The condition on the damage is needed. When the invisible creature is no player, is poisoned, and the list holds the timers of the illusion,
  of the poison and of a third skill in this order, the damage of the poison ends the invisibility: \<open>DelTimer\<close> moves the third timer to the
  place of the illusion, which the round has passed already, and \<open>SetTimer\<close> puts the illusion at the end. The round processes the illusion
  twice and does not process the third timer.
\<close>

lemma invisible_poison_damage:
  assumes "damage E who x DAMAGE_POISON c = Option.bind (end_invisibility c) rest" "\<And>c. wf_skills c \<Longrightarrow> keeps c (timer_view c) (rest c)"
    "wf_skills c" "timer_rep c [i, p, b]" "crType c \<noteq> PLAYER" "IsInvisible c" "skill_ptr c SKILL_ILLUSION = Some i"
  shows "\<exists>c'. damage E who x DAMAGE_POISON c = Some c' \<and> wf_skills c' \<and> timer_rep c' [b, p, i] \<and> same_frame c c'
    \<and> (\<exists>F. timer_view c' = (timer_view c)(SKILL_ILLUSION \<mapsto> (0, 0, 0, F)))"
proof -
  obtain sk where sk: "skill_at c SKILL_ILLUSION = Some sk" using wf_skills_at [OF assms(3), of SKILL_ILLUSION] by auto
  have "distinct [i, p, b]" using assms(4) by (simp add: timer_rep_def)
  then have w: "without i [i, p, b] @ [i] = [b, p, i]" by (simp add: without_def swap_remove_def)
  obtain c1 where c1: "SkillBase_SetTimer SKILL_ILLUSION 0 0 0 (- 1) c = Some (True, c1)" "wf_skills c1" "timer_rep c1 [b, p, i]" "same_frame c c1"
      "skill_at c1 = (skill_at c)(SKILL_ILLUSION \<mapsto> timer_set 0 0 0 (- 1) sk)"
    using SetTimer_ok [OF assms(3,4) _ assms(7) sk, of 0 0 0 "- 1"] w by auto
  let ?c = "emits [AnnounceChanged CREATURE_OUTFIT_CHANGED, NotifyAllCreatures] (c1\<lparr>Outfit := OrgOutfit c1\<rparr>)"
  have e: "end_invisibility c = Some ?c" using c1(1) assms(5,6) by (simp add: end_invisibility_def)
  have v: "wf_skills ?c" "skill_at ?c = skill_at c1" "same_timers c1 ?c"
    using wf_skills_view [of ?c c1] c1(2) by (simp_all add: emits_def same_timers_def same_frame_def)
  obtain c2 where c2: "rest ?c = Some c2" "wf_skills c2" "same_timers ?c c2" "timer_view c2 = timer_view ?c"
    using assms(2) [OF v(1)] by (auto simp: keeps_def)
  have "same_timers c1 c2" by (rule same_timers_trans [OF v(3) c2(3)])
  then have "timer_rep c2 [b, p, i]" "same_frame c c2"
    using timer_rep_same [of c1 c2] c1(3,4) same_frame_trans [of c c1 c2] by (simp_all add: same_timers_def)
  moreover have "timer_view c2 = (timer_view c)(SKILL_ILLUSION \<mapsto> (0, 0, 0, FactorPercent (timer_set 0 0 0 (- 1) sk)))"
    using c2(4) v(2) c1(5) wf_skills_at [OF assms(3), of SKILL_ILLUSION] sk
    by (auto simp: timer_view_def fun_eq_iff tv_def timer_set_def skill_class_of_def Let_def)
  ultimately show ?thesis using e assms(1) c2(1,2) by auto
qed

lemma process_loop_next:
  assumes "timer_rep c ts" "Index < length ts" "Process E (ts ! Index) c = Some (finished, c')"
  shows "process_loop E Index c = (if finished then Option.bind (swap_pop Index c') (process_loop E Index) else process_loop E (Index + 1) c')"
  using assms timer_at_rep [OF assms(1,2)] by (subst process_loop.simps) (simp add: timer_rep_def)

lemma invisible_poison_process:
  assumes E: "\<And>who x c. damage E who x DAMAGE_POISON c = Option.bind (end_invisibility c) (rest who x)" "\<And>who x c. wf_skills c \<Longrightarrow> keeps c (timer_view c) (rest who x c)"
    and c: "wf_skills c" "timer_rep c [i, p, b]" "crType c \<noteq> PLAYER" "IsInvisible c" "skill_ptr c SKILL_ILLUSION = Some i" "skill_ptr c SKILL_POISON = Some p"
    and poison: "skill_at c SKILL_POISON = Some sp" "Cycle sp \<noteq> 0" "Count sp \<le> 0"
  shows "\<exists>c' v F. Process E p c = Some (False, c') \<and> wf_skills c' \<and> timer_rep c' [b, p, i] \<and> skill_ptr c' = skill_ptr c
    \<and> timer_view c' = (timer_view c)(SKILL_ILLUSION \<mapsto> (0, 0, 0, F), SKILL_POISON \<mapsto> v)"
proof -
  have h: "heap c p = Some sp" using heap_skill_at [OF c(6)] poison(1) by simp
  have kind: "vtable sp = SkillPoison" "Master sp" using wf_skills_at [OF c(1), of SKILL_POISON] poison(1) by (auto simp: skill_class_of_def)
  let ?R = "poison_range sp"
  let ?sp = "sp\<lparr>Count := MaxCount sp, Cycle := Cycle sp - ?R\<rparr>"
  let ?c = "put p ?sp c"
  have k: "wf_skills ?c" "same_timers c ?c" "timer_view ?c = (timer_view c)(SKILL_POISON \<mapsto> tv ?sp)"
    using keeps_put [OF c(1) _ c(6) poison(1), of ?sp] by (simp_all add: keeps_def)
  have q: "skill_ptr ?c = skill_ptr c" using same_frame_ptr [of c ?c] k(2) by (simp add: same_timers_def)
  have r: "timer_rep ?c [i, p, b]" "crType ?c \<noteq> PLAYER" "IsInvisible ?c" using timer_rep_same [OF k(2)] c(2-4) by (simp_all add: put_def IsInvisible_def)
  obtain c1 F where c1: "damage E (PoisonDamageOrigin ?c) (if ?R < 0 then - ?R else ?R) DAMAGE_POISON ?c = Some c1" "wf_skills c1" "timer_rep c1 [b, p, i]"
      "same_frame ?c c1" "timer_view c1 = (timer_view ?c)(SKILL_ILLUSION \<mapsto> (0, 0, 0, F))"
    using invisible_poison_damage [OF E(1,2) k(1) r] c(5) q by metis
  have q1: "skill_ptr c1 = skill_ptr c" using same_frame_ptr [OF c1(4)] q by simp
  have v1: "timer_view c1 SKILL_POISON = Some (Cycle ?sp, Count ?sp, MaxCount ?sp, FactorPercent ?sp)" using c1(5) k(3) by (simp add: tv_def)
  let ?v = "(Cycle ?sp + fields_of DAMAGE_POISON c1, Count ?sp, MaxCount ?sp, FactorPercent ?sp)"
  have "keeps c1 ((timer_view c1)(SKILL_POISON \<mapsto> ?v)) (prolong DAMAGE_POISON p c1)"
    by (rule keeps_prolong [OF c1(2) _ _ v1]) (use c(6) q1 in simp_all)
  then obtain c2 where c2: "prolong DAMAGE_POISON p c1 = Some c2" "wf_skills c2" "same_timers c1 c2" "timer_view c2 = (timer_view c1)(SKILL_POISON \<mapsto> ?v)"
    unfolding keeps_def by blast
  have "Process E p c = Some (False, c2)"
    using h poison(2,3) kind c1(1) c2(1) by (simp add: Process_def SkillPoison_Process_def Event_def SkillPoison_Event_def Let_def put_def)
  moreover have "timer_rep c2 [b, p, i]" "skill_ptr c2 = skill_ptr c"
    using timer_rep_same [OF c2(3)] c1(3) same_frame_ptr [of c1 c2] c2(3) q1 by (simp_all add: same_timers_def)
  moreover have "timer_view c2 = (timer_view c)(SKILL_ILLUSION \<mapsto> (0, 0, 0, F), SKILL_POISON \<mapsto> ?v)" using c2(4) c1(5) k(3) by (simp add: fun_eq_iff)
  ultimately show ?thesis using c2(2) by blast
qed

lemma invisible_skips_timer:
  assumes E: "\<And>who x c. damage E who x DAMAGE_POISON c = Option.bind (end_invisibility c) (rest who x)" "\<And>who x c. wf_skills c \<Longrightarrow> keeps c (timer_view c) (rest who x c)"
    and c: "wf_skills c" "timer_rep c [i, p, b]" "crType c \<noteq> PLAYER" "IsInvisible c" "skill_ptr c SKILL_ILLUSION = Some i" "skill_ptr c SKILL_POISON = Some p"
    and illusion: "skill_at c SKILL_ILLUSION = Some si" "Cycle si \<noteq> 0" "0 < Count si"
    and poison: "skill_at c SKILL_POISON = Some sp" "Cycle sp \<noteq> 0" "Count sp \<le> 0"
  shows "\<exists>c'. ProcessSkills E c = Some c' \<and> timer_rep c' [b, p] \<and> (\<forall>m. skill_ptr c m = Some b \<longrightarrow> timer_view c' m = timer_view c m)"
proof -
  let ?si = "si\<lparr>Count := Count si - 1\<rparr>"
  let ?c1 = "put i ?si c"
  have "heap c i = Some si" "vtable si = SkillIllusion"
    using heap_skill_at [OF c(5)] wf_skills_at [OF c(1), of SKILL_ILLUSION] illusion(1) by (auto simp: skill_class_of_def)
  then have 1: "Process E i c = Some (False, ?c1)" using illusion(2,3) by (simp add: Process_def TSkill_Process_def)
  have k1: "wf_skills ?c1" "same_timers c ?c1" "timer_view ?c1 = (timer_view c)(SKILL_ILLUSION \<mapsto> tv ?si)"
    using keeps_put [OF c(1) _ c(5) illusion(1), of ?si] by (simp_all add: keeps_def)
  have r1: "timer_rep ?c1 [i, p, b]" "crType ?c1 \<noteq> PLAYER" "IsInvisible ?c1" using timer_rep_same [OF k1(2)] c(2-4) by (simp_all add: put_def IsInvisible_def)
  have q1: "skill_ptr ?c1 = skill_ptr c" "skill_at ?c1 SKILL_POISON = Some sp"
    using same_frame_ptr [of c ?c1] k1(2) skill_at_put [OF c(1,5), of ?si] poison(1) by (simp_all add: same_timers_def)
  obtain c2 v F where c2: "Process E p ?c1 = Some (False, c2)" "wf_skills c2" "timer_rep c2 [b, p, i]" "skill_ptr c2 = skill_ptr c"
      "timer_view c2 = (timer_view ?c1)(SKILL_ILLUSION \<mapsto> (0, 0, 0, F), SKILL_POISON \<mapsto> v)"
    using invisible_poison_process [OF E k1(1) r1 _ _ q1(2) poison(2,3)] c(5,6) q1(1) by metis
  have "timer_view c2 SKILL_ILLUSION = Some (0, 0, 0, F)" using c2(5) by simp
  then obtain s2 where s2: "skill_at c2 SKILL_ILLUSION = Some s2" "Cycle s2 = 0" by (auto simp: timer_view_def tv_def)
  obtain c3 where c3: "Process E i c2 = Some (True, c3)" "same_timers c2 c3"
      "timer_view c3 = (timer_view c2)(SKILL_ILLUSION \<mapsto> tick False (prolonging c2 SKILL_ILLUSION) (tv s2))"
    using Process_ok [of SKILL_ILLUSION s2 E c2 i] c2(2,4) c(5) s2 by (auto simp: harmful_def)
  have r3: "timer_rep c3 [b, p, i]" using timer_rep_same [OF c3(2)] c2(3) by simp
  obtain f t where pop: "swap_pop 2 c3 = Some (c3\<lparr>FirstFreeTimer := f, TimerList := t\<rparr>)" "timer_rep (c3\<lparr>FirstFreeTimer := f, TimerList := t\<rparr>) [b, p]"
    using swap_pop_rep [OF r3, of 2] by (auto simp: swap_remove_def)
  let ?c = "c3\<lparr>FirstFreeTimer := f, TimerList := t\<rparr>"
  have "ProcessSkills E c = process_loop E 1 ?c1" using process_loop_next [OF c(2), of 0 E False] 1 by (simp add: ProcessSkills_def)
  also have "\<dots> = process_loop E 2 c2" using process_loop_next [OF r1(1), of 1 E False c2] c2(1) by (simp add: numeral_2_eq_2)
  also have "\<dots> = process_loop E 2 ?c" using process_loop_next [OF c2(3), of 2 E True c3] c3(1) pop(1) by simp
  also have "\<dots> = Some ?c" using pop(2) by (subst process_loop.simps) (simp add: timer_rep_def)
  finally have run: "ProcessSkills E c = Some ?c" .
  have "timer_view ?c m = timer_view c m" if m: "skill_ptr c m = Some b" for m
  proof -
    have "m \<noteq> SKILL_ILLUSION" "m \<noteq> SKILL_POISON" using m c(2,5,6) by (auto simp: timer_rep_def)
    moreover have "timer_view ?c m = timer_view c3 m" using wf_skills_view [of ?c c3] by (simp add: timer_view_def)
    ultimately show ?thesis using c3(3) c2(5) k1(3) by simp
  qed
  then show ?thesis using run pop(2) by blast
qed

text \<open>A monster in this situation, whose third timer is that of \<open>SKILL_FED\<close>: the theorem above would tick it.\<close>

definition invisible_monster :: crea where
  "invisible_monster = (put 14 ((sample_skill 14)\<lparr>Cycle := 100\<rparr>) (put 16 ((sample_skill 16)\<lparr>Cycle := 5, Count := 3\<rparr>)
     (put 17 ((sample_skill 17)\<lparr>Cycle := 20, FactorPercent := 50\<rparr>) sample_creature)))
     \<lparr>crType := MONSTER, OrgOutfit := 35, TimerList := [Some 16, Some 17, Some 14] @ replicate 22 None, FirstFreeTimer := 3\<rparr>"

lemma invisible_monster_skips:
  "\<exists>c'. ProcessSkills sample_env invisible_monster = Some c' \<and> timer_rep c' [14, 17] \<and> timer_view c' SKILL_FED = timer_view invisible_monster SKILL_FED
    \<and> timer_view c' SKILL_FED \<noteq> ticked invisible_monster {16, 17, 14} SKILL_FED"
proof -
  let ?c = "put 14 ((sample_skill 14)\<lparr>Cycle := 100\<rparr>) (put 16 ((sample_skill 16)\<lparr>Cycle := 5, Count := 3\<rparr>)
     (put 17 ((sample_skill 17)\<lparr>Cycle := 20, FactorPercent := 50\<rparr>) sample_creature))"
  have "wf_skills ?c"
    by (intro wf_skills_put sample_wf(1)) (simp_all add: sample_at sample_skill_sel skill_ptr_def put_def, simp_all add: sample_creature_def)
  then have wf: "wf_skills invisible_monster" using wf_skills_view [of invisible_monster ?c] by (simp add: invisible_monster_def)
  have ptr: "skill_ptr invisible_monster n = (if n < 25 then Some n else None)" for n
    by (simp add: invisible_monster_def skill_ptr_def put_def sample_creature_def)
  have rep: "timer_rep invisible_monster [16, 17, 14]" using ptr by (auto simp: timer_rep_def invisible_monster_def numeral_eq_Suc)
  have heaps: "heap invisible_monster 14 = Some ((sample_skill 14)\<lparr>Cycle := 100\<rparr>)" "heap invisible_monster 16 = Some ((sample_skill 16)\<lparr>Cycle := 5, Count := 3\<rparr>)"
    "heap invisible_monster 17 = Some ((sample_skill 17)\<lparr>Cycle := 20, FactorPercent := 50\<rparr>)"
    by (simp_all add: invisible_monster_def put_def)
  have at: "skill_at invisible_monster n = heap invisible_monster n" if "n < 25" for n using ptr that by (simp add: skill_at_def)
  have inv: "crType invisible_monster \<noteq> PLAYER" "IsInvisible invisible_monster" by (simp_all add: invisible_monster_def IsInvisible_def put_def sample_creature_def)
  have E: "damage sample_env who x DAMAGE_POISON c = Option.bind (end_invisibility c) (\<lambda>c. Option.bind (skill_ptr c SKILL_HITPOINTS) (\<lambda>a. Change a (- x) c))" for who x c
    by (simp add: sample_env_def)
  have count: "Count (sample_skill 17) = 0" "Count (sample_skill 14) = 0" by (simp_all add: sample_skill_def TSkill_new_def Reset_def TSkill_Reset_def)
  obtain c' where c': "ProcessSkills sample_env invisible_monster = Some c'" "timer_rep c' [14, 17]"
      "timer_view c' SKILL_FED = timer_view invisible_monster SKILL_FED"
    using invisible_skips_timer [OF E _ wf rep inv, of "(sample_skill 16)\<lparr>Cycle := 5, Count := 3\<rparr>" "(sample_skill 17)\<lparr>Cycle := 20, FactorPercent := 50\<rparr>"]
      keeps_Change_slot [of _ SKILL_HITPOINTS] ptr at heaps count by auto
  moreover have "ticked invisible_monster {16, 17, 14} SKILL_FED \<noteq> timer_view invisible_monster SKILL_FED"
    using ptr at [of 14] heaps(1) count(2) by (simp add: ticked_def timer_view_def tv_def cycle_step_def prolonging_def)
  ultimately show ?thesis by metis
qed

text \<open>
  C24: Starting a timer. For a creature whose timers are in order and any slot, \<open>SetTimer\<close>
  returns true: no \<open>NULL\<close> or deleted skill is used and the \<open>ASSERT\<close> on the room in the array never fails. The skill
  is the last entry of the list, once, the others keep their timers, and its fields are those of
  its class (a poison timer clamps its factor, a speed timer of length 0 ends the speed change).
\<close>

theorem set_timer_registers:
  assumes "wf_skills c" "timer_rep c ts" "n < 25" "skill_ptr c n = Some a" "skill_at c n = Some sk"
  shows "\<exists>c' ts'. SkillBase_SetTimer n Cy Co Mx Ad c = Some (True, c') \<and> wf_skills c'
    \<and> timer_rep c' (ts' @ [a]) \<and> set ts' = set ts - {a}
    \<and> skill_at c' = (skill_at c)(n \<mapsto> timer_set Cy Co Mx Ad sk)"
  using SetTimer_ok [OF assms] by blast

theorem set_timer_registers_witness:
  "\<exists>c' ts'. SkillBase_SetTimer 17 30 3 3 (- 1) sample_timers = Some (True, c') \<and> wf_skills c'
    \<and> timer_rep c' (ts' @ [17]) \<and> set ts' = {15}"
proof -
  have "skill_ptr sample_timers 17 = Some 17" by (simp add: sample_timers_def sample_creature_def skill_ptr_def put_def)
  moreover have "\<exists>sk. skill_at sample_timers 17 = Some sk"
    using calculation by (simp add: skill_at_def sample_timers_def)
  moreover have "set [17, 15] - {17 :: nat} = {15}" by auto
  ultimately show ?thesis
    using set_timer_registers [OF sample_timers_ok(1,2), of 17 17] by fastforce
qed

text \<open>
  Stopping a timer. \<open>DelTimer\<close> returns, clears the timer of the skill, takes it out of the list
  if it was there, and changes nothing else.
\<close>

theorem del_timer_unregisters:
  assumes "wf_skills c" "timer_rep c ts" "n < 25" "skill_ptr c n = Some a" "skill_at c n = Some sk"
  shows "\<exists>c' ts'. SkillBase_DelTimer n c = Some c' \<and> wf_skills c' \<and> timer_rep c' ts'
    \<and> set ts' = set ts - {a} \<and> (a \<notin> set ts \<longrightarrow> ts' = ts)
    \<and> skill_at c' = (skill_at c)(n \<mapsto> with_timer 0 0 0 sk)"
  using DelTimer_ok [OF assms] without_absent [of a ts] by metis

theorem del_timer_unregisters_witness:
  "\<exists>c' ts'. SkillBase_DelTimer 15 sample_timers = Some c' \<and> wf_skills c' \<and> timer_rep c' ts'
    \<and> set ts' = {17}"
proof -
  have "skill_ptr sample_timers 15 = Some 15" by (simp add: sample_timers_def sample_creature_def skill_ptr_def put_def)
  moreover have "\<exists>sk. skill_at sample_timers 15 = Some sk"
    using calculation by (simp add: skill_at_def sample_timers_def sample_creature_def)
  moreover have "set [17, 15] - {15 :: nat} = {17}" by auto
  ultimately show ?thesis
    using del_timer_unregisters [OF sample_timers_ok(1,2), of 15 15] by fastforce
qed

section \<open>Creation\<close>

lemma NewSkill_empty:
  assumes "i < length (Skills c)" "Skills c ! i = None"
  shows "NewSkill a i c = Some (True, (put a (TSkill_new (skill_class_of i) i True) c)
    \<lparr>Skills := (Skills c)[i := Some a]\<rparr>)"
  using assms by (simp add: NewSkill_def Let_def)

lemma new_skills_loop:
  assumes "i \<le> 25" "length (Skills c) = 25" "inj_on fresh {..<25}"
    "\<forall>j<25. Skills c ! j = (if j < i then Some (fresh j) else None)"
    "\<forall>j<i. heap c (fresh j) = Some (TSkill_new (skill_class_of j) j True)"
  shows "\<exists>c'. new_skills fresh [i..<25] c = Some c' \<and> length (Skills c') = 25
    \<and> (\<forall>j<25. Skills c' ! j = Some (fresh j) \<and> heap c' (fresh j) = Some (TSkill_new (skill_class_of j) j True))
    \<and> TimerList c' = TimerList c \<and> FirstFreeTimer c' = FirstFreeTimer c"
  using assms(1,2,4,5)
proof (induction "25 - i" arbitrary: i c)
  case 0
  then show ?case by simp
next
  case (Suc k)
  then have i: "i < 25" by simp
  let ?c = "(put (fresh i) (TSkill_new (skill_class_of i) i True) c)\<lparr>Skills := (Skills c)[i := Some (fresh i)]\<rparr>"
  have "NewSkill (fresh i) i c = Some (True, ?c)"
    using NewSkill_empty [of i c] Suc.prems i by simp
  then have step: "new_skills fresh [i..<25] c = new_skills fresh [Suc i..<25] ?c"
    using i by (simp add: upt_conv_Cons)
  have s: "\<forall>j<25. Skills ?c ! j = (if j < Suc i then Some (fresh j) else None)"
    using Suc.prems i by (auto simp: nth_list_update)
  have h: "\<forall>j<Suc i. heap ?c (fresh j) = Some (TSkill_new (skill_class_of j) j True)"
  proof (intro allI impI)
    fix j assume "j < Suc i"
    moreover have "fresh j = fresh i \<longrightarrow> j = i" if "j < i" using inj_onD [OF assms(3)] i that by auto
    ultimately show "heap ?c (fresh j) = Some (TSkill_new (skill_class_of j) j True)"
      using Suc.prems(4) by (auto simp: less_Suc_eq put_def)
  qed
  have "TimerList ?c = TimerList c" "FirstFreeTimer ?c = FirstFreeTimer c" by (simp_all add: put_def)
  then show ?case
    using Suc.hyps(1) [of "Suc i" ?c] Suc.hyps(2) Suc.prems(2) i s h step by simp
qed

text \<open>
  Creating a creature. The constructors of \<open>SkillBase\<close> and \<open>TCreature\<close> give a creature whose 25
  slots hold distinct live skills of the right number and class that belong to it, with no timer
  running: the state the other operations start from. The addresses are any that \<open>new\<close> returns.
\<close>

theorem new_creature_skills:
  assumes "inj_on fresh {..<25}"
  shows "\<exists>c'. new_skills fresh [0..<25] (SkillBase_new c) = Some c' \<and> wf_skills c' \<and> timer_rep c' []"
proof -
  obtain c' where c': "new_skills fresh [0..<25] (SkillBase_new c) = Some c'" "length (Skills c') = 25"
      "\<forall>j<25. Skills c' ! j = Some (fresh j) \<and> heap c' (fresh j) = Some (TSkill_new (skill_class_of j) j True)"
      "TimerList c' = replicate 25 None" "FirstFreeTimer c' = 0"
    using new_skills_loop [of 0 "SkillBase_new c" fresh] assms by (auto simp: SkillBase_new_def)
  have "skill_at c' j = Some (TSkill_new (skill_class_of j) j True)" if "j < 25" for j
    using c'(2,3) that by (simp add: skill_at_def skill_ptr_def)
  then have "wf_skills c'"
    using c'(2) by (simp add: wf_skills_def slot_ok_def TSkill_new_def Reset_def TSkill_Reset_def)
  then show ?thesis using c' by (simp add: timer_rep_def)
qed

theorem new_creature_skills_witness:
  "\<exists>c'. new_skills (\<lambda>i. 100 + i) [0..<25] (SkillBase_new sample_creature) = Some c' \<and> wf_skills c'
    \<and> timer_rep c' []"
  using new_creature_skills [of "\<lambda>i. 100 + i" sample_creature] by (simp add: inj_on_def)

section \<open>Loading and saving\<close>

lemma Save_timer_set:
  assumes "vtable sk = SkillPoison \<longrightarrow> 10 \<le> vFactorPercent v \<and> vFactorPercent v \<le> 1000" "vCycle v \<noteq> 0"
  shows "Save (timer_set (vCycle v) (vCount v) (vMaxCount v) (vFactorPercent v)
    ((loaded v sk)\<lparr>LastLevel := x\<rparr>)) = v"
proof -
  let ?sk = "(loaded v sk)\<lparr>LastLevel := x\<rparr>"
  have t: "with_timer (vCycle v) (vCount v) (vMaxCount v) ?sk = ?sk"
    "?sk\<lparr>FactorPercent := vFactorPercent v\<rparr> = ?sk" "vtable ?sk = vtable sk"
    by (simp_all add: loaded_def)
  have "vtable sk = SkillPoison \<longrightarrow> poison_factor (vFactorPercent v) = vFactorPercent v"
    using assms(1) by (auto simp: poison_factor_def Let_def)
  then have "timer_set (vCycle v) (vCount v) (vMaxCount v) (vFactorPercent v) ?sk = ?sk"
    using assms(2) t by (auto simp only: timer_set_def Let_def split: if_split)
  moreover have "Save ?sk = v" by (simp add: Save_def loaded_def)
  ultimately show ?thesis by simp
qed

text \<open>
  Loading a skill. On a creature whose timers are in order, \<open>Load\<close> returns whenever the
  experience of the level can be computed; \<open>Save\<close> then gives back the values that were loaded, the lower threshold
  is the experience of the loaded level, and a skill with a remaining cycle is in the list of timers.
  Only a poison timer must carry a factor from 10 to 1000, the range \<open>SetTimer\<close> clamps to.
\<close>

theorem load_save_roundtrip:
  assumes "wf_skills c" "timer_rep c ts" "n < 25" "skill_ptr c n = Some a" "skill_at c n = Some sk"
    "GetExpForLevel E (loaded v sk) (vAct v) = Some (x, es)"
    "n = SKILL_POISON \<and> vCycle v \<noteq> 0 \<longrightarrow> 10 \<le> vFactorPercent v \<and> vFactorPercent v \<le> 1000"
  shows "\<exists>c' ts' sk'. Load E a v c = Some c' \<and> wf_skills c' \<and> timer_rep c' ts' \<and> skill_at c' n = Some sk'
    \<and> Save sk' = v \<and> LastLevel sk' = x \<and> (vCycle v \<noteq> 0 \<longrightarrow> a \<in> set ts')"
proof -
  let ?sk = "(loaded v sk)\<lparr>LastLevel := x\<rparr>"
  let ?c = "emits es (put a ?sk c)"
  have h: "heap c a = Some sk" using heap_skill_at [OF assms(4)] assms(5) by simp
  have slot: "SkNr sk = n" "Master sk" "vtable sk = skill_class_of n"
    using wf_skills_at [OF assms(1,3)] assms(5) by (metis option.inject)+
  have sel: "SkNr (loaded v sk) = n" "Master (loaded v sk)" "vtable (loaded v sk) = skill_class_of n"
    using slot by (simp_all add: loaded_def)
  have wf: "wf_skills ?c" using wf_skills_put [OF assms(1,4), of ?sk] sel by simp
  have at: "skill_at ?c n = Some ?sk" using skill_at_put [OF assms(1,4), of ?sk] by simp
  have rep: "timer_rep ?c ts"
    using timer_rep_same [OF same_timers_trans [OF same_timers_put(1) same_timers_put(2)]] assms(2) by simp
  show ?thesis
  proof (cases "vCycle v = 0")
    case True
    then have "Load E a v c = Some ?c" using h assms(6) by (simp add: Load_def Let_def)
    moreover have "Save ?sk = v" "LastLevel ?sk = x" by (simp_all add: Save_def loaded_def)
    ultimately show ?thesis using wf rep at True by blast
  next
    case False
    obtain c' ts' where c': "SkillBase_SetTimer n (vCycle v) (vCount v) (vMaxCount v) (vFactorPercent v) ?c = Some (True, c')"
        "wf_skills c'" "timer_rep c' (ts' @ [a])"
        "skill_at c' n = Some (timer_set (vCycle v) (vCount v) (vMaxCount v) (vFactorPercent v) ?sk)"
      using SetTimer_ok [OF wf rep assms(3) _ at] assms(4) by fastforce
    have "Load E a v c = Some c'" using h assms(6) sel(1,2) c'(1) False by (simp add: Load_def Let_def)
    moreover have "Save (timer_set (vCycle v) (vCount v) (vMaxCount v) (vFactorPercent v) ?sk) = v"
      using Save_timer_set [of sk v x] False assms(7) slot(3) skill_class_slots(1) [of n] by simp
    moreover have "LastLevel (timer_set Cy Co Mx Ad ?sk) = x" for Cy Co Mx Ad
      by (simp add: timer_set_def Let_def)
    ultimately show ?thesis using c' by (intro exI [of _ c'] exI [of _ "ts' @ [a]"]) simp
  qed
qed

theorem load_save_roundtrip_witness:
  "\<exists>c' ts' sk'. Load sample_env 17 (Save ((sample_skill 17)\<lparr>Cycle := 20, FactorPercent := 50\<rparr>)) sample_creature
      = Some c' \<and> wf_skills c' \<and> timer_rep c' ts' \<and> skill_at c' 17 = Some sk'
    \<and> Save sk' = Save ((sample_skill 17)\<lparr>Cycle := 20, FactorPercent := 50\<rparr>) \<and> LastLevel sk' = 0 \<and> 17 \<in> set ts'"
proof -
  let ?v = "Save ((sample_skill 17)\<lparr>Cycle := 20, FactorPercent := 50\<rparr>)"
  have "GetExpForLevel sample_env (loaded ?v (sample_skill 17)) (vAct ?v) = Some (0, [])"
    by (simp add: GetExpForLevel_def loaded_def sample_skill_sel skill_class_of_def)
  moreover have "vCycle ?v = 20" "vFactorPercent ?v = 50" by (simp_all add: Save_def)
  ultimately show ?thesis
    using load_save_roundtrip [OF sample_wf, of 17 17 "sample_skill 17" sample_env ?v 0 "[]"]
    by (simp add: sample_at)
qed

text \<open>
  The names of the skills in the data files are unambiguous: \<open>get_skill_by_name\<close> finds each
  of the 23 skills by exactly one name and gives -1 for any other text.
\<close>

theorem skill_names_unique:
  "(\<forall>n<23. \<exists>!Name. get_skill_by_name Name = int n)
    \<and> (\<forall>Name. get_skill_by_name Name \<noteq> - 1 \<longrightarrow> (\<exists>n<23. get_skill_by_name Name = int n))"
proof -
  have d: "distinct (map fst skill_names)" by (simp add: skill_names_def)
  have iff: "get_skill_by_name Name = int n \<longleftrightarrow> (Name, n) \<in> set skill_names" for Name n
  proof -
    have "get_skill_by_name Name = int n \<longleftrightarrow> map_of skill_names Name = Some n"
      by (cases "map_of skill_names Name") (simp_all add: get_skill_by_name_def)
    then show ?thesis using map_of_eq_Some_iff [OF d, of Name n] by simp
  qed
  have s: "map snd skill_names = [0..<23]" by (simp add: skill_names_def upt_rec numeral_eq_Suc)
  have "\<exists>!Name. (Name, n) \<in> set skill_names" if "n < 23" for n
  proof -
    have "n \<in> snd ` set skill_names" using that s by (metis atLeastLessThan_iff le0 list.set_map set_upt)
    then obtain Name where N: "(Name, n) \<in> set skill_names" by auto
    have "inj_on snd (set skill_names)" using s by (metis distinct_map distinct_upt)
    then have "M = Name" if "(M, n) \<in> set skill_names" for M
      using inj_onD [of snd "set skill_names" "(M, n)" "(Name, n)"] N that by simp
    then show ?thesis using N by blast
  qed
  moreover have "\<exists>n<23. get_skill_by_name Name = int n" 
    if found: "get_skill_by_name Name \<noteq> - 1" for Name
  proof -
    obtain n where n: "map_of skill_names Name = Some n"
      using found by (cases "map_of skill_names Name") (simp_all add: get_skill_by_name_def)
    then have "n \<in> set (map snd skill_names)" using map_of_SomeD by force
    then show ?thesis using n s by (auto simp: get_skill_by_name_def)
  qed
  ultimately show ?thesis using iff by simp
qed

theorem skill_names_unique_witness:
  "(\<exists>!Name. get_skill_by_name Name = int 3) \<and> (\<exists>n<23. get_skill_by_name ''mana'' = int n)"
proof -
  have "get_skill_by_name ''mana'' \<noteq> - 1" by (simp add: get_skill_by_name_def skill_names_def)
  then have "\<exists>n<23. get_skill_by_name ''mana'' = int n"
    by (rule skill_names_unique [THEN conjunct2, rule_format])
  moreover have "\<exists>!Name. get_skill_by_name Name = int 3"
    by (rule skill_names_unique [THEN conjunct1, rule_format]) simp
  ultimately show ?thesis by blast
qed

end
