(* ===== verification/Creature_List.thy ===== *)
theory Creature_List
  imports Vector Matrix Chain
begin

text \<open>
  How the server finds creatures (\<open>creature/creature_main/creature_main.cpp\<close>): the hash table
  from creature numbers to objects, the list of all creatures that the rounds walk through, and the chains of the
  creatures of every 16 by 16 block of the map with the search \<open>FindCreatures\<close> over a rectangle.

  The creatures are objects of a heap, of which this component uses the number, the two links, the
  position and the type. A pointer is an address, \<open>NULL\<close> is \<open>None\<close>. The outer option of a result is
  \<open>None\<close> where a dead or \<open>NULL\<close> object would be used, an access leaves an array, or a loop does not end.
\<close>

section \<open>Data\<close>

record TCreature =
  cID :: u32
  NextHashEntry :: "addr option"
  NextChainCreature :: u32
  posx :: int
  posy :: int
  cType :: creature_type

record world =
  creatures :: "addr \<Rightarrow> TCreature option"
  HashList :: "addr option list"
  FirstChainCreature :: "u32 matrix"
  CreatureList :: "addr option vec"
  FirstFreeCreature :: int
  NextCreatureID :: u32

definition upd_creature :: "addr \<Rightarrow> (TCreature \<Rightarrow> TCreature) \<Rightarrow> world \<Rightarrow> world option" where
  "upd_creature a f w = do {c \<leftarrow> creatures w a; Some (w\<lparr>creatures := (creatures w)(a \<mapsto> f c)\<rparr>)}"

section \<open>The hash table\<close>

definition hash_slot :: "u32 \<Rightarrow> int" where
  "hash_slot nr = uint nr mod 1000"

partial_function (option) hash_walk :: "world \<Rightarrow> u32 \<Rightarrow> addr option \<Rightarrow> addr option option" where
  "hash_walk w nr p =
     (case p of
        None \<Rightarrow> Some None
      | Some a \<Rightarrow> Option.bind (creatures w a)
          (\<lambda>c. if cID c = nr then Some (Some a) else hash_walk w nr (NextHashEntry c)))"

declare hash_walk.simps [code]

definition get_creature :: "world \<Rightarrow> u32 \<Rightarrow> addr option option" where
  "get_creature w CreatureID =
     (if CreatureID = 0 then Some None
      else do {p \<leftarrow> arr_get (HashList w) (hash_slot CreatureID); hash_walk w CreatureID p})"

text \<open>The search for an unused number, at most \<open>k\<close> more attempts; the flag is \<open>Found\<close>.\<close>

fun find_id :: "nat \<Rightarrow> u32 \<Rightarrow> world \<Rightarrow> (u32 \<times> bool \<times> world) option" where
  "find_id 0 CreatureID w = Some (CreatureID, False, w)"
| "find_id (Suc k) CreatureID w = do {
     let nr = NextCreatureID w;
     let w = w\<lparr>NextCreatureID := nr + 1\<rparr>;
     p \<leftarrow> get_creature w nr;
     if p = None then Some (nr, True, w) else find_id k nr w}"

definition link_id :: "addr \<Rightarrow> u32 \<Rightarrow> world \<Rightarrow> world option" where
  "link_id a nr w = do {
     first \<leftarrow> arr_get (HashList w) (hash_slot nr);
     w \<leftarrow> upd_creature a (\<lambda>c. c\<lparr>cID := nr, NextHashEntry := first\<rparr>) w;
     h \<leftarrow> arr_set (HashList w) (hash_slot nr) (Some a);
     Some (w\<lparr>HashList := h\<rparr>)}"

text \<open>The result lists the errors that were reported.\<close>

definition SetID :: "addr \<Rightarrow> u32 \<Rightarrow> world \<Rightarrow> (string list \<times> world) option" where
  "SetID a CharacterID w = do {
     c \<leftarrow> creatures w a;
     let e1 = (if cID c \<noteq> 0 then [''ID is already set''] else []);
     (nr, e2, w) \<leftarrow>
       (if CharacterID = 0
        then do {
          (nr, Found, w) \<leftarrow> find_id 16 0 w;
          Some (nr, if Found then [] else [''16x consecutive duplicate ID''], w)}
        else do {
          p \<leftarrow> get_creature w CharacterID;
          Some (CharacterID, if p \<noteq> None then [''Duplicate character ID''] else [], w)});
     w \<leftarrow> link_id a nr w;
     Some (e1 @ e2, w)}"

partial_function (option) unlink_loop :: "addr \<Rightarrow> u32 \<Rightarrow> addr option \<Rightarrow> addr \<Rightarrow> addr option \<Rightarrow> world
    \<Rightarrow> (string list \<times> world) option" where
  "unlink_loop a nr nxt Prev Current w =
     (case Current of
        None \<Rightarrow> Some ([''id not found''], w)
      | Some cur \<Rightarrow> Option.bind (creatures w cur) (\<lambda>c.
          if cID c = nr
          then map_option (Pair []) (upd_creature Prev (\<lambda>c. c\<lparr>NextHashEntry := nxt\<rparr>) w)
          else unlink_loop a nr nxt cur (NextHashEntry c) w))"

declare unlink_loop.simps [code]

definition DelID :: "addr \<Rightarrow> world \<Rightarrow> (string list \<times> world) option" where
  "DelID a w = do {
     this \<leftarrow> creatures w a;
     First \<leftarrow> arr_get (HashList w) (hash_slot (cID this));
     case First of
       None \<Rightarrow> Some ([''Hash entry not found''], w)
     | Some f \<Rightarrow> do {
         fc \<leftarrow> creatures w f;
         if cID fc = cID this
         then do {
           h \<leftarrow> arr_set (HashList w) (hash_slot (cID this)) (NextHashEntry this);
           Some ([], w\<lparr>HashList := h\<rparr>)}
         else unlink_loop a (cID this) (NextHashEntry this) f (NextHashEntry fc) w}}"

section \<open>The list of all creatures\<close>

definition SetInCrList :: "addr \<Rightarrow> world \<Rightarrow> world option" where
  "SetInCrList a w = do {
     v \<leftarrow> vector_at (CreatureList w) (FirstFreeCreature w);
     v \<leftarrow> vec_set v (FirstFreeCreature w) (Some a);
     Some (w\<lparr>CreatureList := v, FirstFreeCreature := FirstFreeCreature w + 1\<rparr>)}"

text \<open>The loop does not stop at the creature it removes.\<close>

partial_function (option) del_list_loop :: "addr \<Rightarrow> int \<Rightarrow> world \<Rightarrow> world option" where
  "del_list_loop a Index w =
     (if Index < FirstFreeCreature w
      then Option.bind (vector_at (CreatureList w) Index) (\<lambda>v. Option.bind (vec_get v Index) (\<lambda>Current.
        if Current = Some a
        then Option.bind (vector_at v (FirstFreeCreature w - 1)) (\<lambda>v.
             Option.bind (vec_get v (FirstFreeCreature w - 1)) (\<lambda>Last.
             Option.bind (vec_set v Index Last) (\<lambda>v.
             Option.bind (vec_set v (FirstFreeCreature w - 1) None) (\<lambda>v.
             del_list_loop a (Index + 1)
               (w\<lparr>CreatureList := v, FirstFreeCreature := FirstFreeCreature w - 1\<rparr>)))))
        else del_list_loop a (Index + 1) (w\<lparr>CreatureList := v\<rparr>)))
      else Some w)"

declare del_list_loop.simps [code]

definition DelInCrList :: "addr \<Rightarrow> world \<Rightarrow> world option" where
  "DelInCrList a w = del_list_loop a 0 w"

section \<open>The hash table is a map\<close>

definition hash_next :: "world \<Rightarrow> addr \<Rightarrow> addr option" where
  "hash_next w a = (case creatures w a of None \<Rightarrow> None | Some c \<Rightarrow> NextHashEntry c)"

definition id_of :: "world \<Rightarrow> addr \<Rightarrow> u32" where
  "id_of w a = (case creatures w a of None \<Rightarrow> 0 | Some c \<Rightarrow> cID c)"

text \<open>\<open>hs\<close> gives the objects on the chain of every slot.\<close>

definition hash_inv :: "world \<Rightarrow> (int \<Rightarrow> addr list) \<Rightarrow> bool" where
  "hash_inv w hs \<longleftrightarrow> length (HashList w) = 1000 \<and>
     (\<forall>i. 0 \<le> i \<and> i < 1000 \<longrightarrow> path (hash_next w) (HashList w ! nat i) (hs i) \<and>
        (\<forall>a\<in>set (hs i). creatures w a \<noteq> None \<and> id_of w a \<noteq> 0 \<and> hash_slot (id_of w a) = i) \<and>
        distinct (map (id_of w) (hs i)))"

definition registered :: "world \<Rightarrow> (int \<Rightarrow> addr list) \<Rightarrow> u32 \<Rightarrow> addr option" where
  "registered w hs nr = (if nr = 0 then None else find (\<lambda>a. id_of w a = nr) (hs (hash_slot nr)))"

lemma hash_slot_range [simp]: "0 \<le> hash_slot nr" "hash_slot nr < 1000"
  by (simp_all add: hash_slot_def)

lemma hash_walk_path:
  assumes "path (hash_next w) p xs" "\<forall>a\<in>set xs. creatures w a \<noteq> None"
  shows "hash_walk w nr p = Some (find (\<lambda>a. id_of w a = nr) xs)"
  using assms
proof (induction xs arbitrary: p)
  case Nil
  then show ?case by (subst hash_walk.simps) simp
next
  case (Cons a xs)
  then obtain c where "creatures w a = Some c" by auto
  then show ?case using Cons by (subst hash_walk.simps) (auto simp: hash_next_def id_of_def)
qed

lemma hash_invD:
  assumes "hash_inv w hs" "0 \<le> i" "i < 1000"
  shows "path (hash_next w) (HashList w ! nat i) (hs i)" "distinct (map (id_of w) (hs i))" "distinct (hs i)"
    "a \<in> set (hs i) \<Longrightarrow> creatures w a \<noteq> None \<and> id_of w a \<noteq> 0 \<and> hash_slot (id_of w a) = i"
  using assms by (auto simp: hash_inv_def distinct_map)

lemma HashList_get: "hash_inv w hs \<Longrightarrow> arr_get (HashList w) (hash_slot nr) = Some (HashList w ! nat (hash_slot nr))"
  by (simp add: hash_inv_def)

lemma get_creature_registered:
  assumes "hash_inv w hs"
  shows "get_creature w nr = Some (registered w hs nr)"
proof (cases "nr = 0")
  case False
  have "hash_walk w nr (HashList w ! nat (hash_slot nr)) = Some (find (\<lambda>a. id_of w a = nr) (hs (hash_slot nr)))"
    using hash_invD [OF assms hash_slot_range] by (intro hash_walk_path) auto
  then show ?thesis using False HashList_get [OF assms] by (simp add: get_creature_def registered_def)
qed (simp add: get_creature_def registered_def)

lemma registered_iff:
  assumes "hash_inv w hs"
  shows "registered w hs nr = Some a \<longleftrightarrow> nr \<noteq> 0 \<and> a \<in> set (hs (hash_slot nr)) \<and> id_of w a = nr"
proof -
  have d: "inj_on (id_of w) (set (hs (hash_slot nr)))"
    using hash_invD(2) [OF assms hash_slot_range] by (simp add: distinct_map)
  have "a \<in> set (hs (hash_slot nr)) \<and> id_of w a = nr"
    if "find (\<lambda>a. id_of w a = nr) (hs (hash_slot nr)) = Some a"
    using that by (auto simp: find_Some_iff)
  moreover have "find (\<lambda>a. id_of w a = nr) (hs (hash_slot nr)) = Some a"
    if a: "a \<in> set (hs (hash_slot nr))" "id_of w a = nr"
  proof (cases "find (\<lambda>a. id_of w a = nr) (hs (hash_slot nr))")
    case None
    then show ?thesis using a by (simp add: find_None_iff)
  next
    case (Some b)
    then have "b \<in> set (hs (hash_slot nr))" "id_of w b = nr" by (auto simp: find_Some_iff)
    then show ?thesis using Some a inj_onD [OF d, of a b] by simp
  qed
  ultimately show ?thesis by (auto simp: registered_def)
qed

lemma registered_member:
  assumes "hash_inv w hs" "0 \<le> i" "i < 1000" "a \<in> set (hs i)"
  shows "registered w hs (id_of w a) = Some a"
  using hash_invD(4) [OF assms] registered_iff [OF assms(1), of "id_of w a" a] assms(4) by simp

text \<open>Objects that are not on a chain can change freely.\<close>

definition unlinked :: "(int \<Rightarrow> addr list) \<Rightarrow> addr \<Rightarrow> bool" where
  "unlinked hs a \<longleftrightarrow> (\<forall>i. 0 \<le> i \<and> i < 1000 \<longrightarrow> a \<notin> set (hs i))"

lemma link_id_ok:
  assumes "hash_inv w hs" "creatures w a = Some c" "unlinked hs a" "nr \<noteq> 0" "registered w hs nr = None"
  shows "\<exists>w'. link_id a nr w = Some w' \<and> hash_inv w' (hs(hash_slot nr := a # hs (hash_slot nr)))
    \<and> registered w' (hs(hash_slot nr := a # hs (hash_slot nr))) = (registered w hs)(nr \<mapsto> a)
    \<and> creatures w' = (creatures w)(a \<mapsto> c\<lparr>cID := nr, NextHashEntry := HashList w ! nat (hash_slot nr)\<rparr>)"
proof -
  let ?i = "hash_slot nr" and ?c = "c\<lparr>cID := nr, NextHashEntry := HashList w ! nat (hash_slot nr)\<rparr>"
  let ?hs = "hs(?i := a # hs ?i)"
  define w' where "w' = w\<lparr>creatures := (creatures w)(a \<mapsto> ?c), HashList := (HashList w)[nat ?i := Some a]\<rparr>"
  have len: "length (HashList w) = 1000" using assms(1) by (simp add: hash_inv_def)
  have link: "link_id a nr w = Some w'"
    using HashList_get [OF assms(1)] assms(2) len by (simp add: link_id_def upd_creature_def w'_def)
  have hl: "HashList w' = (HashList w)[nat ?i := Some a]" "creatures w' = (creatures w)(a \<mapsto> ?c)"
    by (simp_all add: w'_def)
  have same: "hash_next w' b = hash_next w b" "id_of w' b = id_of w b" "creatures w' b = creatures w b"
    if "b \<noteq> a" for b
    using that by (simp_all add: hash_next_def id_of_def w'_def)
  have a: "hash_next w' a = HashList w ! nat ?i" "id_of w' a = nr" "creatures w' a \<noteq> None"
    by (simp_all add: hash_next_def id_of_def w'_def)
  have out: "a \<notin> set (hs j)" if "0 \<le> j" "j < 1000" for j using assms(3) that by (simp add: unlinked_def)
  have keep: "path (hash_next w') (HashList w ! nat j) (hs j)" "map (id_of w') (hs j) = map (id_of w) (hs j)"
    if "0 \<le> j" "j < 1000" for j
  proof -
    show "path (hash_next w') (HashList w ! nat j) (hs j)"
      by (rule path_cong [OF hash_invD(1) [OF assms(1) that]]) (use same out [OF that] in metis)
    show "map (id_of w') (hs j) = map (id_of w) (hs j)" using same(2) out [OF that] by (intro map_cong) metis+
  qed
  have new: "nr \<notin> id_of w ` set (hs ?i)"
    using assms(4,5) registered_iff [OF assms(1), of nr] by fastforce
  have inv: "hash_inv w' ?hs"
    unfolding hash_inv_def
  proof (intro conjI allI impI)
    show "length (HashList w') = 1000" using len hl by simp
    fix j :: int assume j: "0 \<le> j \<and> j < 1000"
    note k = keep [of j] hash_invD [OF assms(1), of j]
    have "nat ?i < 1000" by (simp add: nat_less_iff)
    then show "path (hash_next w') (HashList w' ! nat j) (?hs j)"
      using k(1) a(1) j len hl(1) by (cases "j = ?i") (simp_all add: nth_list_update eq_nat_nat_iff)
    show "\<forall>b\<in>set (?hs j). creatures w' b \<noteq> None \<and> id_of w' b \<noteq> 0 \<and> hash_slot (id_of w' b) = j"
      using k(6) a(2,3) same(2,3) out [of j] j assms(4) by (metis fun_upd_apply set_ConsD)
    show "distinct (map (id_of w') (?hs j))"
      using k(2,4) a(2) j new by (cases "j = ?i") (auto simp del: map_eq_conv)
  qed
  have "registered w' ?hs m = ((registered w hs)(nr \<mapsto> a)) m" for m
  proof (cases "m = nr")
    case True
    then show ?thesis using registered_iff [OF inv, of nr a] a(2) assms(4) by simp
  next
    case False
    have "registered w' ?hs m = Some b \<longleftrightarrow> registered w hs m = Some b" for b
      using registered_iff [OF inv, of m b] registered_iff [OF assms(1), of m b] False a(2)
        same(2) [of b] out [OF hash_slot_range] by (metis fun_upd_apply set_ConsD list.set_intros(2))
    then show ?thesis using False by (metis fun_upd_other option.exhaust)
  qed
  then show ?thesis using link inv hl(2) by (intro exI [of _ w']) auto
qed


text \<open>What the hash table depends on: its chains, and the numbers and links of the objects.\<close>

definition same_hash :: "world \<Rightarrow> world \<Rightarrow> bool" where
  "same_hash w w' \<longleftrightarrow> hash_next w' = hash_next w \<and> id_of w' = id_of w \<and> HashList w' = HashList w
     \<and> (\<forall>a. creatures w' a = None \<longleftrightarrow> creatures w a = None)"

lemma same_hashD:
  assumes "same_hash w w'"
  shows "hash_inv w' hs = hash_inv w hs" "registered w' hs = registered w hs"
proof -
  have s: "hash_next w' = hash_next w" "id_of w' = id_of w" "HashList w' = HashList w"
    "\<And>a. creatures w' a = None \<longleftrightarrow> creatures w a = None"
    using assms by (simp_all add: same_hash_def)
  show "hash_inv w' hs = hash_inv w hs" by (simp only: hash_inv_def s)
  show "registered w' hs = registered w hs" by (simp add: registered_def fun_eq_iff s)
qed

lemma same_hash_creatures:
  "creatures w' = creatures w \<Longrightarrow> HashList w' = HashList w \<Longrightarrow> same_hash w w'"
  by (simp add: same_hash_def hash_next_def id_of_def fun_eq_iff)

lemma find_id_ok:
  assumes "hash_inv w hs" "\<forall>j<k. registered w hs (NextCreatureID w + of_nat j) \<noteq> None"
    "registered w hs (NextCreatureID w + of_nat k) = None" "k < n"
  shows "find_id n x w = Some (NextCreatureID w + of_nat k, True, w\<lparr>NextCreatureID := NextCreatureID w + of_nat k + 1\<rparr>)"
  using assms
proof (induction n arbitrary: x w k)
  case (Suc n)
  let ?w = "w\<lparr>NextCreatureID := NextCreatureID w + 1\<rparr>"
  have "same_hash w ?w" by (rule same_hash_creatures) simp_all
  note inv = same_hashD(1) [OF this, THEN iffD2, OF Suc.prems(1)] and reg = same_hashD(2) [OF this]
  show ?case
  proof (cases k)
    case 0
    then show ?thesis using Suc.prems(3) by (simp add: Let_def get_creature_registered [OF inv] reg)
  next
    case (Suc m)
    have "registered w hs (NextCreatureID w) \<noteq> None" using Suc.prems(2) Suc by force
    moreover have "find_id n (NextCreatureID w) ?w = Some (NextCreatureID ?w + of_nat m, True,
        ?w\<lparr>NextCreatureID := NextCreatureID ?w + of_nat m + 1\<rparr>)"
    proof (rule Suc.IH [OF inv])
      show "\<forall>j<m. registered ?w hs (NextCreatureID ?w + of_nat j) \<noteq> None"
      proof (intro allI impI)
        fix j assume "j < m"
        then show "registered ?w hs (NextCreatureID ?w + of_nat j) \<noteq> None"
          using Suc.prems(2) [rule_format, of "Suc j"] Suc unfolding reg by (simp add: algebra_simps)
      qed
      show "registered ?w hs (NextCreatureID ?w + of_nat m) = None"
        using Suc.prems(3) Suc unfolding reg by (simp add: algebra_simps)
    qed (use Suc Suc.prems(4) in simp)
    ultimately have "find_id (Suc n) x w = Some (NextCreatureID ?w + of_nat m, True,
        ?w\<lparr>NextCreatureID := NextCreatureID ?w + of_nat m + 1\<rparr>)"
      by (auto simp: Let_def get_creature_registered [OF inv] reg)
    then show ?thesis using Suc by (simp add: add.assoc add.left_commute)
  qed
qed simp

lemma unlink_loop_path:
  assumes "path (hash_next w) p (xs @ a # ys)" "\<forall>b\<in>set (a # xs). creatures w b \<noteq> None"
    "\<forall>b\<in>set xs. id_of w b \<noteq> nr" "id_of w a = nr"
  shows "unlink_loop a nr nxt q p w =
    map_option (Pair []) (upd_creature (last (q # xs)) (\<lambda>c. c\<lparr>NextHashEntry := nxt\<rparr>) w)"
  using assms
proof (induction xs arbitrary: p q)
  case Nil
  then show ?case by (subst unlink_loop.simps) (auto simp: id_of_def)
next
  case (Cons b xs)
  then obtain c where c: "creatures w b = Some c" by auto
  have "unlink_loop a nr nxt b (NextHashEntry c) w =
    map_option (Pair []) (upd_creature (last (b # xs)) (\<lambda>c. c\<lparr>NextHashEntry := nxt\<rparr>) w)"
    using Cons c by (intro Cons.IH) (auto simp: hash_next_def)
  moreover have "p = Some b" "cID c \<noteq> nr" using Cons.prems c by (auto simp: id_of_def)
  ultimately show ?case using c by (subst unlink_loop.simps) simp
qed

lemma hash_inv_remove:
  assumes "hash_inv w hs" "0 \<le> i" "i < 1000" "a \<in> set (hs i)"
    and "length (HashList w') = 1000" "id_of w' = id_of w" "\<forall>b. creatures w' b = None \<longleftrightarrow> creatures w b = None"
    and "path (hash_next w') (HashList w' ! nat i) (remove1 a (hs i))"
    and "\<And>j. 0 \<le> j \<Longrightarrow> j < 1000 \<Longrightarrow> j \<noteq> i \<Longrightarrow> path (hash_next w') (HashList w' ! nat j) (hs j)"
  shows "hash_inv w' (hs(i := remove1 a (hs i)))
    \<and> registered w' (hs(i := remove1 a (hs i))) = (registered w hs)(id_of w a := None)
    \<and> unlinked (hs(i := remove1 a (hs i))) a"
proof (intro conjI)
  let ?hs = "hs(i := remove1 a (hs i))"
  have sub: "set (?hs j) = set (hs j) - {a}" if "0 \<le> j" "j < 1000" for j
    using hash_invD(3,4) [OF assms(1) that] hash_invD(4) [OF assms(1,2,3,4)] assms(4) by (cases "j = i") auto
  show inv: "hash_inv w' ?hs"
    unfolding hash_inv_def
  proof (intro conjI allI impI)
    fix j :: int assume j: "0 \<le> j \<and> j < 1000"
    then have j1: "0 \<le> j" "j < 1000" by auto
    show "path (hash_next w') (HashList w' ! nat j) (?hs j)" using assms(8,9) j by simp
    show "\<forall>b\<in>set (?hs j). creatures w' b \<noteq> None \<and> id_of w' b \<noteq> 0 \<and> hash_slot (id_of w' b) = j"
      using hash_invD(4) [OF assms(1) j1] sub [OF j1] assms(6,7) by auto
    show "distinct (map (id_of w') (?hs j))"
      using hash_invD(2) [OF assms(1) j1] assms(6) by (auto simp: distinct_map intro: inj_on_subset dest: notin_set_remove1)
  qed (rule assms(5))
  have "registered w' ?hs m = Some b \<longleftrightarrow> ((registered w hs)(id_of w a := None)) m = Some b" for m b
  proof (cases "m = id_of w a")
    case True
    have "b = a" if "registered w hs m = Some b" using registered_member [OF assms(1-4)] that True by simp
    then have "registered w' ?hs m \<noteq> Some b"
      using registered_iff [OF inv, of m b] registered_iff [OF assms(1), of m b] sub [OF hash_slot_range, of m]
        assms(6) by force
    then show ?thesis using True by simp
  next
    case False
    then show ?thesis
      using registered_iff [OF inv, of m b] registered_iff [OF assms(1), of m b] sub [OF hash_slot_range, of m]
        assms(6) by force
  qed
  then show "registered w' ?hs = (registered w hs)(id_of w a := None)"
    by (intro ext) (metis option.exhaust)
  show "unlinked ?hs a" using sub by (auto simp: unlinked_def)
qed


lemma SetID_ok:
  assumes "hash_inv w hs" "creatures w a = Some c" "unlinked hs a" "nr \<noteq> 0" "registered w hs nr = None"
  shows "\<exists>w' hs'. SetID a nr w = Some (if cID c \<noteq> 0 then [''ID is already set''] else [], w')
    \<and> hash_inv w' hs' \<and> registered w' hs' = (registered w hs)(nr \<mapsto> a)"
proof -
  obtain w' where "link_id a nr w = Some w'" "hash_inv w' (hs(hash_slot nr := a # hs (hash_slot nr)))"
    "registered w' (hs(hash_slot nr := a # hs (hash_slot nr))) = (registered w hs)(nr \<mapsto> a)"
    using link_id_ok [OF assms] by blast
  then show ?thesis using assms(2,4,5)
    by (intro exI [of _ w'] exI [of _ "hs(hash_slot nr := a # hs (hash_slot nr))"])
      (simp add: SetID_def Let_def get_creature_registered [OF assms(1)])
qed

lemma SetID_fresh:
  assumes "hash_inv w hs" "creatures w a = Some c" "unlinked hs a" "k < 16"
    "\<forall>j<k. registered w hs (NextCreatureID w + of_nat j) \<noteq> None"
    "registered w hs (NextCreatureID w + of_nat k) = None" "NextCreatureID w + of_nat k \<noteq> 0"
  shows "\<exists>w' hs'. SetID a 0 w = Some (if cID c \<noteq> 0 then [''ID is already set''] else [], w')
    \<and> hash_inv w' hs' \<and> registered w' hs' = (registered w hs)(NextCreatureID w + of_nat k \<mapsto> a)"
proof -
  let ?nr = "NextCreatureID w + of_nat k"
  let ?w = "w\<lparr>NextCreatureID := ?nr + 1\<rparr>" and ?hs = "hs(hash_slot ?nr := a # hs (hash_slot ?nr))"
  have "same_hash w ?w" by (rule same_hash_creatures) simp_all
  note same = same_hashD [OF this]
  have "hash_inv ?w hs" "creatures ?w a = Some c" "registered ?w hs ?nr = None" using assms same by simp_all
  from link_id_ok [OF this(1,2) assms(3,7) this(3)] obtain w' where "link_id a ?nr ?w = Some w'" "hash_inv w' ?hs"
    "registered w' ?hs = (registered w hs)(?nr \<mapsto> a)" unfolding same(2) by blast
  then show ?thesis using assms(2) find_id_ok [OF assms(1,5,6,4), of 0]
    by (intro exI [of _ w'] exI [of _ ?hs]) (simp add: SetID_def Let_def)
qed

lemma DelID_ok:
  assumes "hash_inv w hs" "registered w hs nr = Some a"
  shows "\<exists>w' hs'. DelID a w = Some ([], w') \<and> hash_inv w' hs' \<and> unlinked hs' a \<and> creatures w' a \<noteq> None
    \<and> registered w' hs' = (registered w hs)(nr := None)"
proof -
  define i where "i = hash_slot nr"
  have a: "a \<in> set (hs i)" "id_of w a = nr" "nr \<noteq> 0"
    using assms(2) registered_iff [OF assms(1)] by (auto simp: i_def)
  have i: "0 \<le> i" "i < 1000" by (simp_all add: i_def)
  note inv = hash_invD [OF assms(1) i]
  obtain c where c: "creatures w a = Some c" "cID c = nr" using inv(4) [OF a(1)] a(2) by (auto simp: id_of_def)
  have len: "length (HashList w) = 1000" using assms(1) by (simp add: hash_inv_def)
  obtain f fs where fs: "hs i = f # fs" using a(1) by (cases "hs i") auto
  then have f: "HashList w ! nat i = Some f" "path (hash_next w) (hash_next w f) fs" using inv(1) by auto
  obtain fc where fc: "creatures w f = Some fc" using inv(4) [of f] fs by auto
  have get: "arr_get (HashList w) i = Some (Some f)" using i len f(1) by simp
  define hs' where "hs' = hs(i := remove1 a (hs i))"
  have inj: "b = a" if "b \<in> set (hs i)" "id_of w b = nr" for b
    using inv(2) that a(1,2) by (auto simp: distinct_map dest: inj_onD)
  show ?thesis
  proof (cases "f = a")
    case True
    define w' where "w' = w\<lparr>HashList := (HashList w)[nat i := NextHashEntry c]\<rparr>"
    have s: "hash_next w' = hash_next w" "id_of w' = id_of w" "creatures w' = creatures w"
      "HashList w' = (HashList w)[nat i := NextHashEntry c]"
      by (simp_all add: w'_def hash_next_def id_of_def fun_eq_iff)
    have "hash_inv w' hs' \<and> registered w' hs' = (registered w hs)(id_of w a := None) \<and> unlinked hs' a"
      unfolding hs'_def
    proof (rule hash_inv_remove [OF assms(1) i a(1)])
      show "path (hash_next w') (HashList w' ! nat i) (remove1 a (hs i))"
        using f(2) True fs i len c by (simp add: s hash_next_def nat_less_iff)
      show "path (hash_next w') (HashList w' ! nat j) (hs j)" if "0 \<le> j" "j < 1000" "j \<noteq> i" for j
        using that i hash_invD(1) [OF assms(1) that(1,2)] by (simp add: s eq_nat_nat_iff)
    qed (use s len in auto)
    moreover have "DelID a w = Some ([], w')"
      using c fc True get i len by (simp add: DelID_def w'_def flip: i_def)
    moreover have "creatures w' a \<noteq> None" using c s(3) by auto
    ultimately show ?thesis using a(2) by blast
  next
    case False
    then obtain us q vs where d: "hs i = us @ q # a # vs" using predecessor [OF a(1)] fs by auto
    obtain cq where cq: "creatures w q = Some cq" using inv(4) [of q] d by auto
    define w' where "w' = w\<lparr>creatures := (creatures w)(q \<mapsto> cq\<lparr>NextHashEntry := NextHashEntry c\<rparr>)\<rparr>"
    have s: "hash_next w' = (hash_next w)(q := hash_next w a)" "id_of w' = id_of w"
      "\<forall>b. creatures w' b = None \<longleftrightarrow> creatures w b = None" "HashList w' = HashList w"
      using cq c by (auto simp: w'_def hash_next_def id_of_def)
    have "hash_inv w' hs' \<and> registered w' hs' = (registered w hs)(id_of w a := None) \<and> unlinked hs' a"
      unfolding hs'_def
    proof (rule hash_inv_remove [OF assms(1) i a(1)])
      have "remove1 a (hs i) = us @ q # vs" using d inv(3) by (simp add: remove1_append)
      then show "path (hash_next w') (HashList w' ! nat i) (remove1 a (hs i))"
        using path_unlink [of "hash_next w" _ us q a vs] inv(1,3) d by (simp add: s)
      show "path (hash_next w') (HashList w' ! nat j) (hs j)" if "0 \<le> j" "j < 1000" "j \<noteq> i" for j
      proof -
        have "hash_slot (id_of w q) = i" using inv(4) [of q] d by simp
        then have "q \<notin> set (hs j)" using hash_invD(4) [OF assms(1) that(1,2), of q] that(3) by blast
        then show ?thesis unfolding s by (intro path_cong [OF hash_invD(1) [OF assms(1) that(1,2)]]) auto
      qed
    qed (use s len in auto)
    moreover have "DelID a w = Some ([], w')"
    proof -
      have ne: "cID fc \<noteq> nr" using False inj [of f] fs fc by (auto simp: id_of_def)
      have xs: "fs = tl (us @ [q]) @ a # vs" "last (f # tl (us @ [q])) = q"
        using fs d by (cases us; auto)+
      have "unlink_loop a nr (NextHashEntry c) f (NextHashEntry fc) w =
        map_option (Pair []) (upd_creature (last (f # tl (us @ [q]))) (\<lambda>d. d\<lparr>NextHashEntry := NextHashEntry c\<rparr>) w)"
      proof (rule unlink_loop_path)
        show "path (hash_next w) (NextHashEntry fc) (tl (us @ [q]) @ a # vs)"
          using f(2) fc xs(1) by (simp add: hash_next_def)
        show "\<forall>b\<in>set (a # tl (us @ [q])). creatures w b \<noteq> None"
          using inv(4) xs(1) fs a(1) by auto
        show "\<forall>b\<in>set (tl (us @ [q])). id_of w b \<noteq> nr"
          using inj inv(3) fs xs(1) by force
      qed (rule a(2))
      then show ?thesis using c fc ne get cq xs(2)
        by (simp add: DelID_def upd_creature_def w'_def flip: i_def)
    qed
    moreover have "creatures w' a \<noteq> None" using c s(3) by auto
    ultimately show ?thesis using a(2) by blast
  qed
qed


section \<open>The registry of creature numbers as an interface\<close>

text \<open>
  What the rest of the server relies on: \<open>lookup\<close> finds the object of a number, \<open>enter\<close> gives an object
  that is not registered a number that is not in use, \<open>remove\<close> takes a registered object out.
\<close>

locale registry =
  fixes valid :: "'s \<Rightarrow> bool"
    and idle :: "'s \<Rightarrow> 'a \<Rightarrow> bool"
    and lookup :: "'s \<Rightarrow> 'k \<Rightarrow> 'a option option"
    and enter :: "'a \<Rightarrow> 'k \<Rightarrow> 's \<Rightarrow> 's option"
    and remove :: "'a \<Rightarrow> 's \<Rightarrow> 's option"
    and usable :: "'k \<Rightarrow> bool"
  assumes lookup_total: "valid s \<Longrightarrow> lookup s k \<noteq> None"
    and enter_lookup: "valid s \<Longrightarrow> idle s a \<Longrightarrow> usable k \<Longrightarrow> lookup s k = Some None \<Longrightarrow>
      \<exists>s'. enter a k s = Some s' \<and> valid s' \<and> lookup s' = (lookup s)(k \<mapsto> Some a)"
    and remove_lookup: "valid s \<Longrightarrow> lookup s k = Some (Some a) \<Longrightarrow>
      \<exists>s'. remove a s = Some s' \<and> valid s' \<and> idle s' a \<and> lookup s' = (lookup s)(k \<mapsto> None)"
begin

lemma enter_remove:
  assumes "valid s" "idle s a" "usable k" "lookup s k = Some None"
  shows "\<exists>s' s''. enter a k s = Some s' \<and> lookup s' k = Some (Some a) \<and> remove a s' = Some s''
    \<and> valid s'' \<and> idle s'' a \<and> lookup s'' = lookup s"
proof -
  obtain s' where s': "enter a k s = Some s'" "valid s'" "lookup s' = (lookup s)(k \<mapsto> Some a)"
    using enter_lookup [OF assms] by blast
  then obtain s'' where "remove a s' = Some s''" "valid s''" "idle s'' a" "lookup s'' = (lookup s')(k \<mapsto> None)"
    using remove_lookup [of s' k a] by auto
  then show ?thesis using s' assms(4) by (intro exI [of _ s'] exI [of _ s'']) (auto simp: fun_eq_iff)
qed

text \<open>A registered object can change its number.\<close>

lemma renumber:
  assumes "valid s" "lookup s k = Some (Some a)" "usable k'" "lookup s k' = Some None"
  shows "\<exists>s' s''. remove a s = Some s' \<and> enter a k' s' = Some s'' \<and> valid s''
    \<and> lookup s'' = (lookup s)(k \<mapsto> None, k' \<mapsto> Some a)"
proof -
  obtain s' where s': "remove a s = Some s'" "valid s'" "idle s' a" "lookup s' = (lookup s)(k \<mapsto> None)"
    using remove_lookup [OF assms(1,2)] by blast
  moreover have "lookup s' k' = Some None" using s'(4) assms(4) by simp
  ultimately show ?thesis using enter_lookup [OF s'(2,3) assms(3)] by fastforce
qed

end

definition hash_valid :: "world \<Rightarrow> bool" where
  "hash_valid w \<longleftrightarrow> (\<exists>hs. hash_inv w hs)"

definition hash_idle :: "world \<Rightarrow> addr \<Rightarrow> bool" where
  "hash_idle w a \<longleftrightarrow> creatures w a \<noteq> None \<and> (\<exists>hs. hash_inv w hs \<and> unlinked hs a)"

lemma hash_inv_unique:
  assumes "hash_inv w hs" "hash_inv w hs'" "0 \<le> i" "i < 1000"
  shows "hs i = hs' i"
  using path_unique [OF hash_invD(1) [OF assms(1,3,4)] hash_invD(1) [OF assms(2-4)]] .

lemma hash_idle_iff:
  assumes "hash_inv w hs"
  shows "hash_idle w a \<longleftrightarrow> creatures w a \<noteq> None \<and> unlinked hs a"
  using assms hash_inv_unique [OF assms] by (metis hash_idle_def unlinked_def)

lemma get_creature_eq: "hash_inv w hs \<Longrightarrow> get_creature w = (\<lambda>k. Some (registered w hs k))"
  using get_creature_registered by blast

text \<open>\<open>SetID\<close> and \<open>DelID\<close> without the messages.\<close>

definition enter_number :: "addr \<Rightarrow> u32 \<Rightarrow> world \<Rightarrow> world option" where
  "enter_number a nr w = map_option snd (SetID a nr w)"

definition remove_number :: "addr \<Rightarrow> world \<Rightarrow> world option" where
  "remove_number a w = map_option snd (DelID a w)"

interpretation ids: registry hash_valid hash_idle get_creature enter_number remove_number "\<lambda>nr. nr \<noteq> 0"
proof unfold_locales
  fix w nr
  show "hash_valid w \<Longrightarrow> get_creature w nr \<noteq> None" by (auto simp: hash_valid_def get_creature_eq)
next
  fix w a nr
  assume "hash_valid w" and idle: "hash_idle w a" and nr: "nr \<noteq> 0" "get_creature w nr = Some None"
  then obtain hs where inv: "hash_inv w hs" by (auto simp: hash_valid_def)
  obtain c where "creatures w a = Some c" "unlinked hs a" using idle hash_idle_iff [OF inv] by auto
  moreover have "registered w hs nr = None" using nr by (simp add: get_creature_eq [OF inv])
  ultimately obtain w' hs' e where "SetID a nr w = Some (e, w')" "hash_inv w' hs'"
    "registered w' hs' = (registered w hs)(nr \<mapsto> a)" using SetID_ok [OF inv] nr(1) by blast
  then show "\<exists>w'. enter_number a nr w = Some w' \<and> hash_valid w' \<and> get_creature w' = (get_creature w)(nr \<mapsto> Some a)"
    by (auto simp: enter_number_def hash_valid_def get_creature_eq [OF inv] get_creature_eq fun_eq_iff)
next
  fix w nr a
  assume "hash_valid w" and nr: "get_creature w nr = Some (Some a)"
  then obtain hs where inv: "hash_inv w hs" by (auto simp: hash_valid_def)
  then have "registered w hs nr = Some a" using nr by (simp add: get_creature_eq [OF inv])
  then obtain w' hs' where "DelID a w = Some ([], w')" and inv': "hash_inv w' hs'" and "unlinked hs' a"
    "creatures w' a \<noteq> None" "registered w' hs' = (registered w hs)(nr := None)" using DelID_ok [OF inv] by blast
  then show "\<exists>w'. remove_number a w = Some w' \<and> hash_valid w' \<and> hash_idle w' a
      \<and> get_creature w' = (get_creature w)(nr \<mapsto> None)"
    by (auto simp: remove_number_def hash_valid_def hash_idle_iff [OF inv'] get_creature_eq [OF inv]
        get_creature_eq [OF inv'] fun_eq_iff)
qed


section \<open>The list of creatures as a list\<close>

definition cr_list :: "world \<Rightarrow> addr list \<Rightarrow> bool" where
  "cr_list w cl \<longleftrightarrow> vec_inv (CreatureList w) \<and> FirstFreeCreature w = int (length cl) \<and>
     (\<forall>i<length cl. in_vec (CreatureList w) (int i) \<and> vec_val (CreatureList w) (int i) = Some (cl ! i))"

text \<open>The abstract loop of \<open>DelInCrList\<close>: an object that is found is overwritten with the last one.\<close>

function del_list :: "'a \<Rightarrow> nat \<Rightarrow> 'a list \<Rightarrow> 'a list" where
  "del_list a i cl =
     (if i < length cl
      then if cl ! i = a then del_list a (i + 1) (butlast (cl[i := last cl])) else del_list a (i + 1) cl
      else cl)"
  by pat_completeness auto
termination by (relation "measure (\<lambda>(a, i, cl). length cl - i)") auto

declare del_list.simps [simp del]

lemma SetInCrList_ok:
  assumes "cr_list w cl"
  shows "\<exists>w'. SetInCrList a w = Some w' \<and> cr_list w' (cl @ [a]) \<and> creatures w' = creatures w
    \<and> HashList w' = HashList w \<and> FirstChainCreature w' = FirstChainCreature w \<and> NextCreatureID w' = NextCreatureID w"
proof -
  let ?v = "CreatureList w" and ?n = "int (length cl)"
  have w: "vec_inv ?v" "FirstFreeCreature w = ?n"
    "\<And>i. i < length cl \<Longrightarrow> in_vec ?v (int i) \<and> vec_val ?v (int i) = Some (cl ! i)"
    using assms by (auto simp: cr_list_def)
  obtain v where v: "Option.bind (vector_at ?v ?n) (\<lambda>v. vec_set v ?n (Some a)) = Some v" "vec_inv v" "in_vec v ?n"
    "vec_val v ?n = Some a" "\<forall>j. in_vec ?v j \<longrightarrow> in_vec v j \<and> (j \<noteq> ?n \<longrightarrow> vec_val v j = vec_val ?v j)"
    using va.store_spec [OF w(1), of ?n "Some a"] by blast
  define w' where "w' = w\<lparr>CreatureList := v, FirstFreeCreature := ?n + 1\<rparr>"
  have "SetInCrList a w = Some w'"
    using v(1) by (auto simp: SetInCrList_def w(2) w'_def bind_eq_Some_conv)
  moreover have "cr_list w' (cl @ [a])"
    using v w(3) by (auto simp: cr_list_def w'_def nth_append less_Suc_eq)
  ultimately show ?thesis by (auto simp: w'_def)
qed

lemma del_list_step:
  assumes "cr_list w cl" "i < length cl" "cl ! i = a"
  defines "n \<equiv> int (length cl) - 1"
  shows "\<exists>v v'. vec_set (CreatureList w) (int i) (Some (last cl)) = Some v \<and> vec_set v n None = Some v'
    \<and> cr_list (w\<lparr>CreatureList := v', FirstFreeCreature := n\<rparr>) (butlast (cl[i := last cl]))"
proof -
  let ?u = "CreatureList w"
  have w: "vec_inv ?u" "\<And>i. i < length cl \<Longrightarrow> in_vec ?u (int i) \<and> vec_val ?u (int i) = Some (cl ! i)"
    using assms(1) by (auto simp: cr_list_def)
  have n: "n = int (length cl - 1)" "length cl - 1 < length cl" using assms(2) by (auto simp: n_def)
  then have "in_vec ?u n" "in_vec ?u (int i)" using w(2) assms(2) by blast+
  then show ?thesis using w n assms(2)
    by (auto simp: cr_list_def vec_simps nth_butlast nth_list_update)
qed

lemma del_list_loop_ok:
  assumes "cr_list w cl"
  shows "\<exists>v n. del_list_loop a (int i) w = Some (w\<lparr>CreatureList := v, FirstFreeCreature := n\<rparr>)
    \<and> cr_list (w\<lparr>CreatureList := v, FirstFreeCreature := n\<rparr>) (del_list a i cl)"
  using assms
proof (induction a i cl arbitrary: w rule: del_list.induct)
  case (1 a i cl)
  let ?u = "CreatureList w"
  have w: "vec_inv ?u" "FirstFreeCreature w = int (length cl)"
    and el: "\<And>i. i < length cl \<Longrightarrow> in_vec ?u (int i) \<and> vec_val ?u (int i) = Some (cl ! i)"
    using "1.prems" by (auto simp: cr_list_def)
  show ?case
  proof (cases "i < length cl")
    case i: True
    show ?thesis
    proof (cases "cl ! i = a")
      case True
      let ?n = "int (length cl) - 1" and ?cl = "butlast (cl[i := last cl])"
      have n: "in_vec ?u ?n" "vec_val ?u ?n = Some (last cl)"
        using el [of "length cl - 1"] i last_conv_nth [of cl] by (cases "cl = []"; simp add: of_nat_diff)+
      obtain v v' where v: "vec_set ?u (int i) (Some (last cl)) = Some v" "vec_set v ?n None = Some v'"
        and inv: "cr_list (w\<lparr>CreatureList := v', FirstFreeCreature := ?n\<rparr>) ?cl"
        using del_list_step [OF "1.prems" i True] by blast
      from "1.IH"(1) [OF i True inv] show ?thesis
        using i True w n v el [OF i]
        by (subst del_list_loop.simps, subst del_list.simps) (simp add: vector_at_in_vec vec_get_in_vec add.commute)
    next
      case False
      from "1.IH"(2) [OF i False "1.prems"] show ?thesis
        using i False w el [OF i] by (subst del_list_loop.simps, subst del_list.simps) (simp add: vec_simps add.commute)
    qed
  next
    case False
    then show ?thesis using w "1.prems"
      by (subst del_list_loop.simps, subst del_list.simps)
        (auto simp: cr_list_def intro!: exI [of _ ?u] exI [of _ "int (length cl)"])
  qed
qed

lemma del_list_absent: "a \<notin> set (drop i cl) \<Longrightarrow> del_list a i cl = cl"
proof (induction a i cl rule: del_list.induct)
  case (1 a i cl)
  then show ?case
    by (subst del_list.simps) (auto simp: Cons_nth_drop_Suc [symmetric])
qed

text \<open>In a list without duplicates exactly the object goes, and the last one takes its place.\<close>

lemma del_list_at:
  assumes "distinct cl" "k < length cl" "i \<le> k"
  shows "del_list (cl ! k) i cl = butlast (cl[k := last cl])"
  using assms
proof (induction "k - i" arbitrary: i)
  case 0
  then have "i = k" by simp
  have d: "cl ! k \<notin> set (drop (k + 1) (butlast (cl[k := last cl])))"
  proof
    assume "cl ! k \<in> set (drop (k + 1) (butlast (cl[k := last cl])))"
    then obtain j where "k + 1 + j < length cl - 1" "butlast (cl[k := last cl]) ! (k + 1 + j) = cl ! k"
      by (auto simp: in_set_conv_nth less_diff_conv add.commute)
    then have "cl ! (k + 1 + j) = cl ! k" "k + 1 + j < length cl" by (simp_all add: nth_butlast)
    then show False using 0 by (simp add: nth_eq_iff_index_eq)
  qed
  then show ?case using 0 \<open>i = k\<close> by (subst del_list.simps) (simp add: del_list_absent)
next
  case (Suc m)
  then have "cl ! i \<noteq> cl ! k" by (auto simp: nth_eq_iff_index_eq)
  moreover have "del_list (cl ! k) (i + 1) cl = butlast (cl[k := last cl])" using Suc by (intro Suc.hyps(1)) auto
  ultimately show ?case using Suc.prems by (subst del_list.simps) auto
qed

lemma swap_remove_mset:
  assumes "k < length cl"
  shows "mset (butlast (cl[k := last cl])) = mset cl - {#cl ! k#}"
proof -
  have "cl \<noteq> []" using assms by auto
  then have "mset (cl[k := last cl]) = add_mset (last cl) (mset cl - {#cl ! k#})" using assms by (simp add: mset_update)
  moreover have "last (cl[k := last cl]) = last cl" using \<open>cl \<noteq> []\<close> by (simp add: last_list_update)
  moreover have "mset (cl[k := last cl]) = add_mset (last (cl[k := last cl])) (mset (butlast (cl[k := last cl])))"
    using \<open>cl \<noteq> []\<close> by (metis add_mset_add_single append_butlast_last_id list_update_nonempty mset.simps mset_append)
  ultimately show ?thesis by simp
qed

end
