(* ===== verification/Creature_Search.thy ===== *)
theory Creature_Search
  imports Creature_List
begin

text \<open>
  The chains of the creatures of every 16 by 16 block of the map, and the search \<open>FindCreatures\<close>
  over a rectangle (\<open>creature/creature_main/creature_main.cpp\<close>). The chains link creature numbers, not
  objects: every link goes through \<open>get_creature\<close>.
\<close>

section \<open>Chains of the map blocks\<close>

definition set_chain :: "int \<Rightarrow> u32 \<Rightarrow> world \<Rightarrow> world option" where
  "set_chain cell nr w = do {
     e \<leftarrow> arr_set (entry (FirstChainCreature w)) cell nr;
     Some (w\<lparr>FirstChainCreature := (FirstChainCreature w)\<lparr>entry := e\<rparr>\<rparr>)}"

definition insert_chain_creature :: "addr option \<Rightarrow> int \<Rightarrow> int \<Rightarrow> world \<Rightarrow> (string list \<times> world) option" where
  "insert_chain_creature Creature CoordX CoordY w =
     (case Creature of
        None \<Rightarrow> Some ([''Passed creature does not exist''], w)
      | Some a \<Rightarrow> do {
          c \<leftarrow> creatures w a;
          let CoordX = (if CoordX = 0 then posx c else CoordX);
          let CoordY = (if CoordY = 0 then posy c else CoordY);
          let (cell, err) = matrix_at (FirstChainCreature w) (CoordX sdiv 16) (CoordY sdiv 16);
          FirstID \<leftarrow> arr_get (entry (FirstChainCreature w)) cell;
          w \<leftarrow> upd_creature a (\<lambda>c. c\<lparr>NextChainCreature := FirstID\<rparr>) w;
          w \<leftarrow> set_chain cell (cID c) w;
          Some (if err then [''Ungueltiger Index''] else [], w)})"

partial_function (option) del_chain_loop :: "u32 \<Rightarrow> u32 \<Rightarrow> u32 \<Rightarrow> world \<Rightarrow> (string list \<times> world) option" where
  "del_chain_loop nr nxt CurrentID w =
     (if CurrentID = 0 then Some ([''Creature not found''], w)
      else Option.bind (get_creature w CurrentID) (\<lambda>p. case p of
          None \<Rightarrow> Some ([''Creature does not exist''], w)
        | Some cur \<Rightarrow> Option.bind (creatures w cur) (\<lambda>c.
            if NextChainCreature c = nr
            then map_option (Pair []) (upd_creature cur (\<lambda>c. c\<lparr>NextChainCreature := nxt\<rparr>) w)
            else del_chain_loop nr nxt (NextChainCreature c) w)))"

declare del_chain_loop.simps [code]

definition delete_chain_creature :: "addr option \<Rightarrow> world \<Rightarrow> (string list \<times> world) option" where
  "delete_chain_creature Creature w =
     (case Creature of
        None \<Rightarrow> Some ([''Passed creature does not exist''], w)
      | Some a \<Rightarrow> do {
          c \<leftarrow> creatures w a;
          let (cell, err) = matrix_at (FirstChainCreature w) (posx c sdiv 16) (posy c sdiv 16);
          let e = (if err then [''Ungueltiger Index''] else []);
          FirstID \<leftarrow> arr_get (entry (FirstChainCreature w)) cell;
          if FirstID = cID c
          then map_option (Pair e) (set_chain cell (NextChainCreature c) w)
          else map_option (\<lambda>(es, w). (e @ es, w))
                 (del_chain_loop (cID c) (NextChainCreature c) FirstID w)})"

definition move_chain_creature :: "addr option \<Rightarrow> int \<Rightarrow> int \<Rightarrow> world \<Rightarrow> (string list \<times> world) option" where
  "move_chain_creature Creature CoordX CoordY w =
     (case Creature of
        None \<Rightarrow> Some ([''Passed creature does not exist''], w)
      | Some a \<Rightarrow> do {
          c \<leftarrow> creatures w a;
          if CoordX sdiv 16 \<noteq> posx c sdiv 16 \<or> CoordY sdiv 16 \<noteq> posy c sdiv 16
          then do {
            (e1, w) \<leftarrow> delete_chain_creature (Some a) w;
            (e2, w) \<leftarrow> insert_chain_creature (Some a) CoordX CoordY w;
            Some (e1 @ e2, w)}
          else Some ([], w)})"

section \<open>Searching a rectangle\<close>

record FindCreatures =
  startx :: int
  starty :: int
  endx :: int
  endy :: int
  blockx :: int
  blocky :: int
  ActID :: u32
  SkipID :: u32
  Mask :: int
  finished :: bool

definition initSearch :: "int \<Rightarrow> int \<Rightarrow> int \<Rightarrow> int \<Rightarrow> int \<Rightarrow> FindCreatures" where
  "initSearch RadiusX RadiusY CenterX CenterY M =
     \<lparr>startx = CenterX - RadiusX, starty = CenterY - RadiusY, endx = CenterX + RadiusX,
      endy = CenterY + RadiusY, blockx = ((CenterX - RadiusX) sdiv 16) - 1,
      blocky = (CenterY - RadiusY) sdiv 16, ActID = 0, SkipID = 0, Mask = M, finished = False\<rparr>"

text \<open>
  The constructor for a creature. When it does not exist, only \<open>finished\<close> is set: the rest of the object
  is whatever was in memory (\<open>junk\<close>).
\<close>

definition FindCreatures_around :: "int \<Rightarrow> int \<Rightarrow> u32 \<Rightarrow> int \<Rightarrow> FindCreatures \<Rightarrow> world \<Rightarrow> FindCreatures option" where
  "FindCreatures_around RadiusX RadiusY CreatureID M junk w = do {
     p \<leftarrow> get_creature w CreatureID;
     case p of
       None \<Rightarrow> Some (junk\<lparr>finished := True\<rparr>)
     | Some a \<Rightarrow> do {
         c \<leftarrow> creatures w a;
         Some ((initSearch RadiusX RadiusY (posx c) (posy c) M)\<lparr>SkipID := cID c\<rparr>)}}"

text \<open>The inner loop: advance to the next block with a creature. The flag says that none is left.\<close>

partial_function (option) next_block :: "world \<Rightarrow> FindCreatures \<Rightarrow> (bool \<times> FindCreatures) option" where
  "next_block w s =
     (if ActID s = 0
      then if blockx s + 1 > endx s sdiv 16
           then if blocky s + 1 > endy s sdiv 16
                then Some (True, s\<lparr>blockx := startx s sdiv 16, blocky := blocky s + 1, finished := True\<rparr>)
                else Option.bind (case boundedAt (FirstChainCreature w) (startx s sdiv 16) (blocky s + 1) of
                         None \<Rightarrow> Some 0 | Some cell \<Rightarrow> arr_get (entry (FirstChainCreature w)) cell)
                       (\<lambda>nr. next_block w (s\<lparr>blockx := startx s sdiv 16, blocky := blocky s + 1, ActID := nr\<rparr>))
           else Option.bind (case boundedAt (FirstChainCreature w) (blockx s + 1) (blocky s) of
                    None \<Rightarrow> Some 0 | Some cell \<Rightarrow> arr_get (entry (FirstChainCreature w)) cell)
                  (\<lambda>nr. next_block w (s\<lparr>blockx := blockx s + 1, ActID := nr\<rparr>))
      else Some (False, s))"

declare next_block.simps [code]

definition skips :: "FindCreatures \<Rightarrow> TCreature \<Rightarrow> bool" where
  "skips s c \<longleftrightarrow> cID c = SkipID s \<or> posx c < startx s \<or> posx c > endx s \<or> posy c < starty s \<or> posy c > endy s
     \<or> (cType c = PLAYER \<and> Mask s AND 1 = 0) \<or> (cType c = NPC \<and> Mask s AND 2 = 0)
     \<or> (cType c = MONSTER \<and> Mask s AND 4 = 0)"

partial_function (option) next_loop :: "world \<Rightarrow> FindCreatures \<Rightarrow> (u32 \<times> FindCreatures) option" where
  "next_loop w s =
     Option.bind (next_block w s) (\<lambda>r.
       if fst r then Some (0, snd r)
       else Option.bind (get_creature w (ActID (snd r))) (\<lambda>p. case p of
           None \<Rightarrow> next_loop w ((snd r)\<lparr>ActID := 0\<rparr>)
         | Some a \<Rightarrow> Option.bind (creatures w a) (\<lambda>c.
             if skips ((snd r)\<lparr>ActID := NextChainCreature c\<rparr>) c
             then next_loop w ((snd r)\<lparr>ActID := NextChainCreature c\<rparr>)
             else Some (cID c, (snd r)\<lparr>ActID := NextChainCreature c\<rparr>))))"

declare next_loop.simps [code]

definition getNext :: "world \<Rightarrow> FindCreatures \<Rightarrow> (u32 \<times> FindCreatures) option" where
  "getNext w s = (if finished s then Some (0, s) else next_loop w s)"

text \<open>How the callers use a search: until the number 0.\<close>

partial_function (option) find_all :: "world \<Rightarrow> FindCreatures \<Rightarrow> u32 list option" where
  "find_all w s = Option.bind (getNext w s) (\<lambda>r.
     if fst r = 0 then Some [] else Option.bind (find_all w (snd r)) (\<lambda>nrs. Some (fst r # nrs)))"

declare find_all.simps [code]



section \<open>The chains as lists of numbers\<close>

definition creature_at :: "world \<Rightarrow> u32 \<Rightarrow> TCreature option" where
  "creature_at w nr = do {p \<leftarrow> get_creature w nr; a \<leftarrow> p; creatures w a}"

definition chain_next :: "world \<Rightarrow> u32 \<Rightarrow> u32 option" where
  "chain_next w nr = (case creature_at w nr of None \<Rightarrow> None | Some c \<Rightarrow> opt_id (NextChainCreature c))"

definition cell_of :: "'a matrix \<Rightarrow> int \<Rightarrow> int \<Rightarrow> int" where
  "cell_of m x y = (y - ymin m) * dx m + (x - xmin m)"

definition block_first :: "world \<Rightarrow> int \<Rightarrow> int \<Rightarrow> u32" where
  "block_first w x y = entry (FirstChainCreature w) ! nat (cell_of (FirstChainCreature w) x y)"

text \<open>\<open>bs x y\<close> are the numbers on the chain of the block \<open>(x, y)\<close>; a number is on one chain at most.\<close>

definition block_chains :: "world \<Rightarrow> (int \<Rightarrow> int \<Rightarrow> u32 list) \<Rightarrow> bool" where
  "block_chains w bs \<longleftrightarrow> hash_valid w \<and> matrix_inv (FirstChainCreature w) \<and>
     (\<forall>x y. if in_matrix (FirstChainCreature w) x y
        then path (chain_next w) (opt_id (block_first w x y)) (bs x y) \<and> distinct (bs x y) \<and>
          (\<forall>nr\<in>set (bs x y). creature_at w nr \<noteq> None \<and> (\<forall>x' y'. nr \<in> set (bs x' y') \<longrightarrow> x' = x \<and> y' = y))
        else bs x y = [])"

text \<open>Every creature is on the chain of the block it stands in.\<close>

definition block_of :: "TCreature \<Rightarrow> int \<times> int" where
  "block_of c = (posx c sdiv 16, posy c sdiv 16)"

definition placed :: "world \<Rightarrow> (int \<Rightarrow> int \<Rightarrow> u32 list) \<Rightarrow> bool" where
  "placed w bs \<longleftrightarrow> (\<forall>x y. \<forall>nr\<in>set (bs x y). map_option block_of (creature_at w nr) = Some (x, y))"

lemma creature_at_cases:
  assumes "hash_valid w" "creature_at w nr = Some c"
  obtains a where "get_creature w nr = Some (Some a)" "creatures w a = Some c" "cID c = nr" "nr \<noteq> 0"
proof -
  obtain hs where inv: "hash_inv w hs" using assms(1) by (auto simp: hash_valid_def)
  obtain a where a: "get_creature w nr = Some (Some a)" "creatures w a = Some c"
    using assms(2) by (auto simp: creature_at_def bind_eq_Some_conv)
  then have "registered w hs nr = Some a" by (simp add: get_creature_eq [OF inv])
  then show thesis using that a registered_iff [OF inv] by (auto simp: id_of_def)
qed

lemma chainsD:
  assumes "block_chains w bs" "in_matrix (FirstChainCreature w) x y"
  shows "path (chain_next w) (opt_id (block_first w x y)) (bs x y)" "distinct (bs x y)"
    "nr \<in> set (bs x y) \<Longrightarrow> creature_at w nr \<noteq> None"
  using assms by (auto simp: block_chains_def split: if_splits)

lemma chains_outside: "block_chains w bs \<Longrightarrow> \<not> in_matrix (FirstChainCreature w) x y \<Longrightarrow> bs x y = []"
  by (meson block_chains_def)

lemma chains_distinct: "block_chains w bs \<Longrightarrow> distinct (bs x y)"
  using chainsD(2) [of w bs x y] chains_outside [of w bs x y] by (cases "in_matrix (FirstChainCreature w) x y") auto

lemma chains_unique:
  assumes "block_chains w bs" "nr \<in> set (bs x y)" "nr \<in> set (bs x' y')"
  shows "x' = x \<and> y' = y"
  using assms unfolding block_chains_def by (metis empty_iff empty_set)

lemma in_block:
  assumes "in_matrix m x y"
  shows "matrix_at m x y = (cell_of m x y, False)" "boundedAt m x y = Some (cell_of m x y)"
  using assms by (simp_all add: matrix_at_boundedAt boundedAt_eq cell_of_def)

lemma in_matrix_entry [simp]: "in_matrix (m\<lparr>entry := e\<rparr>) = in_matrix m"
  by (simp add: in_matrix_def fun_eq_iff)

lemma cell_of_entry [simp]: "cell_of (m\<lparr>entry := e\<rparr>) x y = cell_of m x y"
  by (simp add: cell_of_def)

lemma chain_next_at: "creature_at w nr = Some c \<Longrightarrow> chain_next w nr = opt_id (NextChainCreature c)"
  by (simp add: chain_next_def)

lemma cell_range:
  assumes "matrix_inv m" "in_matrix m x y"
  shows "0 \<le> cell_of m x y" "cell_of m x y < int (length (entry m))"
  using row_major_bound [of "x - xmin m" "dx m" "y - ymin m" "dy m"] assms
  by (auto simp: in_matrix_def matrix_inv_def cell_of_def mult.commute)

lemma cell_inj:
  assumes "in_matrix m x y" "in_matrix m x' y'" "cell_of m x y = cell_of m x' y'"
  shows "x = x' \<and> y = y'"
  using row_major_inj [of "x - xmin m" "dx m" "x' - xmin m" "y - ymin m" "y' - ymin m"] assms
  by (auto simp: in_matrix_def cell_of_def)

section \<open>The search\<close>

text \<open>The blocks that a search in the state of block \<open>(bx, by)\<close> still has to visit.\<close>

definition blocks_left :: "FindCreatures \<Rightarrow> int \<Rightarrow> int \<Rightarrow> (int \<times> int) list" where
  "blocks_left s bx by = map (\<lambda>x. (x, by)) [bx + 1..endx s sdiv 16]
     @ concat (map (\<lambda>y. map (\<lambda>x. (x, y)) [startx s sdiv 16..endx s sdiv 16]) [by + 1..endy s sdiv 16])"

definition search_at :: "world \<Rightarrow> FindCreatures \<Rightarrow> FindCreatures \<Rightarrow> u32 list \<Rightarrow> (int \<times> int) list \<Rightarrow> bool" where
  "search_at w q s ids bl \<longleftrightarrow> \<not> finished q \<and> (\<exists>bx by nr. s = q\<lparr>blockx := bx, blocky := by, ActID := nr\<rparr> \<and>
     bl = blocks_left q bx by \<and> path (chain_next w) (opt_id nr) ids) \<and> (\<forall>nr\<in>set ids. creature_at w nr \<noteq> None)"

definition wanted :: "world \<Rightarrow> FindCreatures \<Rightarrow> u32 \<Rightarrow> bool" where
  "wanted w q nr \<longleftrightarrow> (case creature_at w nr of None \<Rightarrow> False | Some c \<Rightarrow> \<not> skips q c)"

lemma blocks_left_row:
  assumes "bx + 1 > endx s sdiv 16" "startx s sdiv 16 \<le> endx s sdiv 16" "by + 1 \<le> endy s sdiv 16"
  shows "blocks_left s bx by = (startx s sdiv 16, by + 1) # blocks_left s (startx s sdiv 16) (by + 1)"
  using assms upto_rec1 [of "by + 1" "endy s sdiv 16"] upto_rec1 [of "startx s sdiv 16" "endx s sdiv 16"]
  by (simp add: blocks_left_def)

lemma blocks_left_col:
  assumes "bx + 1 \<le> endx s sdiv 16"
  shows "blocks_left s bx by = (bx + 1, by) # blocks_left s (bx + 1) by"
  using assms upto_rec1 [of "bx + 1" "endx s sdiv 16"] by (simp add: blocks_left_def)

lemma blocks_left_end:
  assumes "bx + 1 > endx s sdiv 16" "by + 1 > endy s sdiv 16"
  shows "blocks_left s bx by = []"
  using assms by (simp add: blocks_left_def)

lemma first_of_block:
  assumes "block_chains w bs"
  shows "\<exists>nr. (case boundedAt (FirstChainCreature w) x y of
      None \<Rightarrow> Some 0 | Some cell \<Rightarrow> arr_get (entry (FirstChainCreature w)) cell) = Some nr
    \<and> path (chain_next w) (opt_id nr) (bs x y) \<and> (\<forall>nr\<in>set (bs x y). creature_at w nr \<noteq> None)"
proof (cases "in_matrix (FirstChainCreature w) x y")
  case True
  have "matrix_inv (FirstChainCreature w)" using assms by (simp add: block_chains_def)
  then show ?thesis
    using in_block [OF True] cell_range [OF _ True] chainsD [OF assms True] by (simp add: block_first_def)
next
  case False
  then have "boundedAt (FirstChainCreature w) x y = None" by (auto simp: boundedAt_def in_matrix_def)
  then show ?thesis using chains_outside [OF assms False] by simp
qed

lemma search_at_ActID:
  assumes "search_at w q s (nr # ids) bl"
  shows "ActID s = nr" "nr \<noteq> 0"
  using assms by (auto simp: search_at_def)

abbreviation numbers :: "(int \<Rightarrow> int \<Rightarrow> u32 list) \<Rightarrow> (int \<times> int) list \<Rightarrow> u32 list" where
  "numbers bs bl \<equiv> concat (map (\<lambda>(x, y). bs x y) bl)"

lemma next_block_end:
  assumes "search_at w q s [] []" "startx q sdiv 16 \<le> endx q sdiv 16"
  shows "\<exists>s'. next_block w s = Some (True, s') \<and> finished s'"
proof -
  obtain bx "by" where s: "s = q\<lparr>blockx := bx, blocky := by, ActID := 0\<rparr>" "blocks_left q bx by = []"
    using assms(1) by (auto simp: search_at_def)
  then have "\<not> bx + 1 \<le> endx q sdiv 16" using blocks_left_col [of bx q "by"] by auto
  moreover then have "\<not> by + 1 \<le> endy q sdiv 16" using blocks_left_row [of q bx "by"] s(2) assms(2) by auto
  ultimately show ?thesis unfolding s(1) by (subst next_block.simps) simp
qed

lemma search_fields: "q\<lparr>blocky := y, blockx := x, ActID := nr\<rparr> = q\<lparr>blockx := x, blocky := y, ActID := nr\<rparr>"
  by (cases q) simp

lemma next_block_step:
  assumes "block_chains w bs" "search_at w q s [] ((x, y) # bl)" "startx q sdiv 16 \<le> endx q sdiv 16"
  shows "\<exists>s'. next_block w s = next_block w s' \<and> search_at w q s' (bs x y) bl"
proof -
  obtain bx "by" where s: "s = q\<lparr>blockx := bx, blocky := by, ActID := 0\<rparr>" "blocks_left q bx by = (x, y) # bl"
    "\<not> finished q"
    using assms(2) by (auto simp: search_at_def)
  obtain nr where nr: "(case boundedAt (FirstChainCreature w) x y of
      None \<Rightarrow> Some 0 | Some cell \<Rightarrow> arr_get (entry (FirstChainCreature w)) cell) = Some nr"
    "path (chain_next w) (opt_id nr) (bs x y)" "\<forall>nr\<in>set (bs x y). creature_at w nr \<noteq> None"
    using first_of_block [OF assms(1)] by blast
  let ?s = "q\<lparr>blockx := x, blocky := y, ActID := nr\<rparr>"
  show ?thesis
  proof (cases "bx + 1 \<le> endx q sdiv 16")
    case True
    then have b: "x = bx + 1" "y = by" "bl = blocks_left q x y" using s(2) blocks_left_col by auto
    then have "next_block w s = next_block w ?s"
      using True nr(1) unfolding s(1) by (subst next_block.simps) (simp add: search_fields)
    then show ?thesis using b nr s(3) by (intro exI [of _ ?s]) (auto simp: search_at_def)
  next
    case False
    then have "by + 1 \<le> endy q sdiv 16" using s(2) blocks_left_end [of q bx "by"] by (cases "by + 1 \<le> endy q sdiv 16") auto
    moreover then have b: "x = startx q sdiv 16" "y = by + 1" "bl = blocks_left q x y"
      using s(2) blocks_left_row [of q bx "by"] False assms(3) by auto
    ultimately have "next_block w s = next_block w ?s"
      using False nr(1) unfolding s(1) by (subst next_block.simps) simp
    then show ?thesis using b nr s(3) by (intro exI [of _ ?s]) (auto simp: search_at_def)
  qed
qed

lemma next_block_found:
  assumes "search_at w q s (nr # ids) bl"
  shows "next_block w s = Some (False, s)"
  using search_at_ActID [OF assms] by (subst next_block.simps) simp

lemma next_block_spec:
  assumes "block_chains w bs" "startx q sdiv 16 \<le> endx q sdiv 16" "search_at w q s ids bl"
  shows "ids @ numbers bs bl = [] \<and> (\<exists>s'. next_block w s = Some (True, s') \<and> finished s') \<or>
    (\<exists>s' nr ids' bl'. next_block w s = Some (False, s') \<and> search_at w q s' (nr # ids') bl' \<and>
      ids @ numbers bs bl = nr # ids' @ numbers bs bl')"
  using assms(3)
proof (induction bl arbitrary: s ids)
  case Nil
  show ?case
  proof (cases ids)
    case (Cons nr ids')
    then show ?thesis using next_block_found [of w q s nr ids' "[]"] Nil by fastforce
  qed (use next_block_end [of w q s] Nil assms(2) in simp)
next
  case (Cons b bl)
  show ?case
  proof (cases ids)
    case Nil
    obtain x y where b: "b = (x, y)" by fastforce
    then obtain s' where "next_block w s = next_block w s'" "search_at w q s' (bs x y) bl"
      using next_block_step [OF assms(1) _ assms(2)] Cons.prems Nil by blast
    then show ?thesis using Cons.IH [of s' "bs x y"] Nil b by (simp del: append_is_Nil_conv concat_eq_Nil_conv)
  next
    case (Cons nr ids')
    then show ?thesis using next_block_found [of w q s nr ids' "b # bl"] Cons.prems
      by (intro disjI2 exI [of _ s] exI [of _ nr] exI [of _ ids'] exI [of _ "b # bl"]) simp
  qed
qed

text \<open>One call of \<open>getNext\<close>: the next wanted number, or 0 at the end.\<close>

lemma next_loop_spec:
  assumes "block_chains w bs" "startx q sdiv 16 \<le> endx q sdiv 16" "search_at w q s ids bl"
  shows "case filter (wanted w q) (ids @ numbers bs bl) of
      [] \<Rightarrow> \<exists>s'. next_loop w s = Some (0, s')
    | nr # nrs \<Rightarrow> nr \<noteq> 0 \<and> (\<exists>s' ids' bl'. next_loop w s = Some (nr, s') \<and> search_at w q s' ids' bl' \<and>
        filter (wanted w q) (ids' @ numbers bs bl') = nrs)"
  using assms(3)
proof (induction "length (ids @ numbers bs bl)" arbitrary: s ids bl rule: less_induct)
  case less
  show ?case
  proof (cases "ids @ numbers bs bl = []")
    case True
    then obtain s' where "next_block w s = Some (True, s')"
      using next_block_spec [OF assms(1,2) less.prems] by force
    then have "\<exists>s'. next_loop w s = Some (0, s')" by (subst next_loop.simps) simp
    then show ?thesis unfolding True by simp
  next
    case False
    then obtain s1 nr ids1 bl1 where n: "next_block w s = Some (False, s1)" "search_at w q s1 (nr # ids1) bl1"
      "ids @ numbers bs bl = nr # ids1 @ numbers bs bl1"
      using next_block_spec [OF assms(1,2) less.prems] by blast
    obtain bx "by" m where s1: "s1 = q\<lparr>blockx := bx, blocky := by, ActID := m\<rparr>" using n(2) by (auto simp: search_at_def)
    obtain c where "creature_at w nr = Some c" using n(2) by (auto simp: search_at_def)
    moreover have "hash_valid w" using assms(1) by (simp add: block_chains_def)
    ultimately obtain a where a: "get_creature w nr = Some (Some a)" "creatures w a = Some c" "cID c = nr" "nr \<noteq> 0"
      and c: "creature_at w nr = Some c" by (metis creature_at_cases)
    define s2 where "s2 = s1\<lparr>ActID := NextChainCreature c\<rparr>"
    have s2: "search_at w q s2 ids1 bl1"
      using n(2) c by (fastforce simp: search_at_def s2_def chain_next_def)
    have skip: "skips s2 c = skips q c" by (simp add: s2_def s1 skips_def)
    show ?thesis
    proof (cases "skips q c")
      case True
      then have n2: "next_loop w s = next_loop w s2" using n(1) search_at_ActID [OF n(2)] a skip
        by (subst next_loop.simps) (simp add: s2_def)
      have "\<not> wanted w q nr" using True c by (simp add: wanted_def)
      then have f: "filter (wanted w q) (ids @ numbers bs bl) = filter (wanted w q) (ids1 @ numbers bs bl1)"
        unfolding n(3) by simp
      have "length (ids1 @ numbers bs bl1) < length (ids @ numbers bs bl)" unfolding n(3) by simp
      from less.hyps [OF this s2] show ?thesis unfolding f n2 .
    next
      case False
      then have "next_loop w s = Some (nr, s2)" using n(1) search_at_ActID [OF n(2)] a skip
        by (subst next_loop.simps) (simp add: s2_def)
      moreover have "wanted w q nr" using False c by (simp add: wanted_def)
      ultimately show ?thesis using s2 n(3) a(4) by (simp del: filter_append) blast
    qed
  qed
qed

lemma find_all_spec:
  assumes "block_chains w bs" "startx q sdiv 16 \<le> endx q sdiv 16" "search_at w q s ids bl"
  shows "find_all w s = Some (filter (wanted w q) (ids @ numbers bs bl))"
  using assms(3)
proof (induction "filter (wanted w q) (ids @ numbers bs bl)" arbitrary: s ids bl)
  case Nil
  have "\<not> finished s" using Nil.prems by (auto simp: search_at_def)
  moreover obtain s' where "next_loop w s = Some (0, s')"
    using next_loop_spec [OF assms(1,2) Nil.prems] Nil.hyps by (simp del: filter_append) blast
  ultimately show ?case using Nil.hyps by (subst find_all.simps) (simp add: getNext_def del: filter_append)
next
  case (Cons nr nrs)
  have "\<not> finished s" using Cons.prems by (auto simp: search_at_def)
  moreover obtain s' ids' bl' where s': "nr \<noteq> 0" "next_loop w s = Some (nr, s')" "search_at w q s' ids' bl'"
    "filter (wanted w q) (ids' @ numbers bs bl') = nrs"
    using next_loop_spec [OF assms(1,2) Cons.prems] unfolding Cons.hyps(2) [symmetric] by auto
  ultimately show ?case using Cons.hyps(1) [OF s'(4) [symmetric] s'(3)] s'(4) unfolding Cons.hyps(2) [symmetric]
    by (subst find_all.simps) (simp add: getNext_def del: filter_append)
qed


lemma sdiv_mono: "a \<le> b \<Longrightarrow> a sdiv 16 \<le> b sdiv (16 :: int)"
  using zdiv_mono1 [of a b 16] zdiv_mono1 [of "- b" "- a" 16] pos_imp_zdiv_nonneg_iff [of 16 b]
    pos_imp_zdiv_nonneg_iff [of 16 "- a"]
  by (auto simp: signed_divide_int_def sgn_if)

lemma rows_set: "(x, y) \<in> set (concat (map (\<lambda>y. map (\<lambda>x. (x, y)) xs) ys)) \<longleftrightarrow> x \<in> set xs \<and> y \<in> set ys"
  by (induction ys) auto

lemma blocks_left_set:
  "(x, y) \<in> set (blocks_left s bx by) \<longleftrightarrow>
     (y = by \<and> bx < x \<and> x \<le> endx s sdiv 16)
     \<or> (startx s sdiv 16 \<le> x \<and> x \<le> endx s sdiv 16 \<and> by < y \<and> y \<le> endy s sdiv 16)"
  unfolding blocks_left_def set_append Un_iff rows_set by (auto simp: image_iff)

lemma blocks_left_distinct: "distinct (blocks_left s bx by)"
proof -
  have "distinct (concat (map (\<lambda>y. map (\<lambda>x. (x, y)) xs) ys))" if "distinct xs" "distinct ys" for xs ys :: "int list"
    using that(2)
  proof (induction ys)
    case (Cons y ys)
    then show ?case using that(1) by (auto simp: distinct_map inj_on_def)
  qed simp
  then show ?thesis by (auto simp: blocks_left_def distinct_map inj_on_def)
qed

lemma numbers_distinct:
  assumes "block_chains w bs" "distinct bl"
  shows "distinct (numbers bs bl)"
  using assms(2)
proof (induction bl)
  case (Cons b bl)
  obtain x y where b: "b = (x, y)" by fastforce
  have "distinct (bs x y)" by (rule chains_distinct [OF assms(1)])
  moreover have "set (bs x y) \<inter> set (numbers bs bl) = {}"
  proof (rule ccontr)
    assume "set (bs x y) \<inter> set (numbers bs bl) \<noteq> {}"
    then obtain nr x' y' where n: "nr \<in> set (bs x y)" "(x', y') \<in> set bl" "nr \<in> set (bs x' y')" by fastforce
    then show False using chains_unique [OF assms(1) n(1,3)] Cons.prems b by simp
  qed
  ultimately show ?case using Cons b by simp
qed simp

text \<open>The specification of a search: the creatures on a chain, by position and type.\<close>

definition mask_of :: "creature_type \<Rightarrow> int" where
  "mask_of t = (case t of PLAYER \<Rightarrow> 1 | NPC \<Rightarrow> 2 | MONSTER \<Rightarrow> 4)"

definition in_range :: "int \<Rightarrow> int \<Rightarrow> int \<Rightarrow> int \<Rightarrow> int \<Rightarrow> TCreature \<Rightarrow> bool" where
  "in_range RadiusX RadiusY CenterX CenterY M c \<longleftrightarrow>
     \<bar>posx c - CenterX\<bar> \<le> RadiusX \<and> \<bar>posy c - CenterY\<bar> \<le> RadiusY \<and> M AND mask_of (cType c) \<noteq> 0"

lemma skips_initSearch:
  "cID c \<noteq> 0 \<Longrightarrow> skips (initSearch rx ry cx cy M) c \<longleftrightarrow> \<not> in_range rx ry cx cy M c"
  by (cases "cType c") (auto simp: skips_def initSearch_def in_range_def mask_of_def)

lemma find_all_initSearch:
  assumes "block_chains w bs" "0 \<le> rx"
  shows "find_all w (initSearch rx ry cx cy M) = Some (filter (wanted w (initSearch rx ry cx cy M))
    (numbers bs (blocks_left (initSearch rx ry cx cy M) ((cx - rx) sdiv 16 - 1) ((cy - ry) sdiv 16))))"
proof -
  let ?q = "initSearch rx ry cx cy M"
  have "search_at w ?q ?q [] (blocks_left ?q ((cx - rx) sdiv 16 - 1) ((cy - ry) sdiv 16))"
    unfolding search_at_def
    by (intro conjI exI [of _ "(cx - rx) sdiv 16 - 1"] exI [of _ "(cy - ry) sdiv 16"] exI [of _ 0])
      (simp_all add: initSearch_def)
  moreover have "startx ?q sdiv 16 \<le> endx ?q sdiv 16" using assms(2) by (auto simp: initSearch_def intro: sdiv_mono)
  ultimately show ?thesis using find_all_spec [OF assms(1)] by fastforce
qed

lemma search_result:
  fixes cx cy M :: int
  assumes "block_chains w bs" "placed w bs" "0 \<le> rx" "0 \<le> ry"
  defines "q \<equiv> initSearch rx ry cx cy M"
  shows "set (filter (wanted w q) (numbers bs (blocks_left q ((cx - rx) sdiv 16 - 1) ((cy - ry) sdiv 16)))) =
    {nr. \<exists>x y c. nr \<in> set (bs x y) \<and> creature_at w nr = Some c \<and> in_range rx ry cx cy M c}" (is "?l = ?r")
proof (intro set_eqI iffI)
  have hv: "hash_valid w" using assms(1) by (simp add: block_chains_def)
  have w: "wanted w q nr \<longleftrightarrow> (\<exists>c. creature_at w nr = Some c \<and> in_range rx ry cx cy M c)" for nr
  proof (cases "creature_at w nr")
    case (Some c)
    obtain "cID c = nr" "nr \<noteq> 0" using creature_at_cases [OF hv Some] by blast
    then show ?thesis using Some skips_initSearch [of c] by (simp add: wanted_def q_def)
  qed (simp add: wanted_def)
  fix nr
  show "nr \<in> ?r" if "nr \<in> ?l" using that w by auto
  assume "nr \<in> ?r"
  then obtain x y c where n: "nr \<in> set (bs x y)" "creature_at w nr = Some c" "in_range rx ry cx cy M c" by blast
  then have b: "x = posx c sdiv 16" "y = posy c sdiv 16"
    using assms(2) by (fastforce simp: placed_def block_of_def)+
  have "(cx - rx) sdiv 16 \<le> x" "x \<le> (cx + rx) sdiv 16" "(cy - ry) sdiv 16 \<le> y" "y \<le> (cy + ry) sdiv 16"
    using n(3) unfolding b in_range_def by (auto intro!: sdiv_mono)
  then have "(x, y) \<in> set (blocks_left q ((cx - rx) sdiv 16 - 1) ((cy - ry) sdiv 16))"
    by (auto simp: blocks_left_set q_def initSearch_def)
  then show "nr \<in> ?l" using n w by auto
qed

section \<open>Changing the chains\<close>

definition upd_block :: "(int \<Rightarrow> int \<Rightarrow> u32 list) \<Rightarrow> int \<Rightarrow> int \<Rightarrow> u32 list \<Rightarrow> int \<Rightarrow> int \<Rightarrow> u32 list" where
  "upd_block bs x y nrs = (\<lambda>x' y'. if x' = x \<and> y' = y then nrs else bs x' y')"

text \<open>A change of an object that keeps its number and its hash link.\<close>

lemma creature_changed:
  assumes "hash_valid w" "get_creature w nr = Some (Some a)" "creatures w a = Some c"
    "cID c' = cID c" "NextHashEntry c' = NextHashEntry c"
    "creatures w' = (creatures w)(a \<mapsto> c')" "HashList w' = HashList w"
  shows "hash_valid w'" "get_creature w' = get_creature w" "creature_at w' = (creature_at w)(nr \<mapsto> c')"
proof -
  obtain hs where inv: "hash_inv w hs" using assms(1) by (auto simp: hash_valid_def)
  have s: "same_hash w w'" using assms(3-7) by (auto simp: same_hash_def hash_next_def id_of_def fun_eq_iff)
  then have inv': "hash_inv w' hs" using inv by (simp add: same_hashD)
  then show "hash_valid w'" by (auto simp: hash_valid_def)
  show g: "get_creature w' = get_creature w"
    by (simp add: get_creature_eq [OF inv] get_creature_eq [OF inv'] same_hashD [OF s])
  have "cID c = nr" using creature_at_cases [OF assms(1), of nr c] assms(2,3) by (auto simp: creature_at_def)
  moreover have "creature_at w' m = creature_at w m" if "m \<noteq> nr" for m
  proof (cases "get_creature w m")
    case (Some p)
    have "p \<noteq> Some a"
    proof
      assume "p = Some a"
      then have "creature_at w m = Some c" using Some assms(3) by (simp add: creature_at_def)
      then have "cID c = m" by (rule creature_at_cases [OF assms(1)])
      then show False using \<open>cID c = nr\<close> that by simp
    qed
    then show ?thesis using Some assms(6) by (cases p) (auto simp: creature_at_def g)
  qed (simp add: creature_at_def g)
  ultimately show "creature_at w' = (creature_at w)(nr \<mapsto> c')"
    using assms(2,6) by (auto simp: fun_eq_iff creature_at_def g)
qed

lemma chain_next_changed:
  "creature_at w' = (creature_at w)(nr \<mapsto> c') \<Longrightarrow> chain_next w' = (chain_next w)(nr := opt_id (NextChainCreature c'))"
  by (auto simp: chain_next_def fun_eq_iff)

text \<open>The new chains, when the chain of one block is replaced.\<close>

lemma chains_upd_block:
  assumes "block_chains w bs" "in_matrix (FirstChainCreature w) x y" "hash_valid w'"
    and same: "xmin (FirstChainCreature w') = xmin (FirstChainCreature w)" "ymin (FirstChainCreature w') = ymin (FirstChainCreature w)"
      "dx (FirstChainCreature w') = dx (FirstChainCreature w)" "dy (FirstChainCreature w') = dy (FirstChainCreature w)"
      "length (entry (FirstChainCreature w')) = length (entry (FirstChainCreature w))"
    and alive: "\<And>nr. creature_at w nr \<noteq> None \<Longrightarrow> creature_at w' nr \<noteq> None"
    and new: "path (chain_next w') (opt_id (block_first w' x y)) nrs" "distinct nrs"
      "\<And>nr. nr \<in> set nrs \<Longrightarrow> creature_at w' nr \<noteq> None"
      "\<And>nr x' y'. nr \<in> set nrs \<Longrightarrow> nr \<in> set (bs x' y') \<Longrightarrow> x' = x \<and> y' = y"
    and others: "\<And>x' y'. in_matrix (FirstChainCreature w) x' y' \<Longrightarrow> (x', y') \<noteq> (x, y) \<Longrightarrow>
      path (chain_next w') (opt_id (block_first w' x' y')) (bs x' y')"
  shows "block_chains w' (upd_block bs x y nrs)"
proof -
  have im: "in_matrix (FirstChainCreature w') = in_matrix (FirstChainCreature w)"
    using same by (simp add: in_matrix_def fun_eq_iff)
  have mi: "matrix_inv (FirstChainCreature w')" using assms(1) same by (simp add: block_chains_def matrix_inv_def)
  have "x'' = x' \<and> y'' = y'" if "nr \<in> set (upd_block bs x y nrs x' y')" "nr \<in> set (upd_block bs x y nrs x'' y'')" for nr x' y' x'' y''
    using that new(4) chains_unique [OF assms(1), of nr x' y' x'' y''] by (auto simp: upd_block_def split: if_splits)
  moreover have "creature_at w' nr \<noteq> None" if "nr \<in> set (upd_block bs x y nrs x' y')" for nr x' y'
    using that new(3) alive chainsD(3) [OF assms(1), of x' y' nr] chains_outside [OF assms(1), of x' y']
    by (cases "in_matrix (FirstChainCreature w) x' y'") (auto simp: upd_block_def split: if_splits)
  moreover have "distinct (upd_block bs x y nrs x' y')" if "in_matrix (FirstChainCreature w) x' y'" for x' y'
    using new(2) chainsD(2) [OF assms(1) that] by (simp add: upd_block_def)
  moreover have "path (chain_next w') (opt_id (block_first w' x' y')) (upd_block bs x y nrs x' y')"
    if "in_matrix (FirstChainCreature w) x' y'" for x' y'
    using new(1) others [OF that] by (auto simp: upd_block_def)
  moreover have "upd_block bs x y nrs x' y' = []" if "\<not> in_matrix (FirstChainCreature w) x' y'" for x' y'
    using chains_outside [OF assms(1) that] assms(2) that by (auto simp: upd_block_def)
  ultimately show ?thesis unfolding block_chains_def im using assms(3) mi by simp
qed


lemma insert_chain_creature_ok:
  assumes "block_chains w bs" "get_creature w nr = Some (Some a)" "creatures w a = Some c"
    "\<And>x y. nr \<notin> set (bs x y)"
    "x = (if CoordX = 0 then posx c else CoordX) sdiv 16" "y = (if CoordY = 0 then posy c else CoordY) sdiv 16"
    "in_matrix (FirstChainCreature w) x y"
  shows "\<exists>w' c'. insert_chain_creature (Some a) CoordX CoordY w = Some ([], w') \<and> block_chains w' (upd_block bs x y (nr # bs x y))
    \<and> get_creature w' = get_creature w \<and> c' = c\<lparr>NextChainCreature := block_first w x y\<rparr>
    \<and> creatures w' a = Some c' \<and> creature_at w' = (creature_at w)(nr \<mapsto> c')
    \<and> in_matrix (FirstChainCreature w') = in_matrix (FirstChainCreature w)"
proof -
  let ?M = "FirstChainCreature w" and ?cell = "cell_of (FirstChainCreature w) x y"
  have hv: "hash_valid w" and mi: "matrix_inv ?M" using assms(1) by (simp_all add: block_chains_def)
  note cell = cell_range [OF mi assms(7)]
  have nr: "cID c = nr" "nr \<noteq> 0"
    using creature_at_cases [OF hv, of nr c] assms(2,3) by (auto simp: creature_at_def)
  define c' where "c' = c\<lparr>NextChainCreature := block_first w x y\<rparr>"
  define w' where "w' = w\<lparr>creatures := (creatures w)(a \<mapsto> c'),
    FirstChainCreature := ?M\<lparr>entry := (entry ?M)[nat ?cell := nr]\<rparr>\<rparr>"
  have f: "creatures w' = (creatures w)(a \<mapsto> c')" "HashList w' = HashList w"
    "FirstChainCreature w' = ?M\<lparr>entry := (entry ?M)[nat ?cell := nr]\<rparr>" by (simp_all add: w'_def)
  note ch = creature_changed [OF hv assms(2,3) _ _ f(1,2)]
  have at: "creature_at w' = (creature_at w)(nr \<mapsto> c')" by (rule ch) (simp_all add: c'_def)
  note nxt = chain_next_changed [OF at]
  have ins: "insert_chain_creature (Some a) CoordX CoordY w = Some ([], w')"
    using assms(3) cell in_block(1) [OF assms(7)]
    by (simp add: insert_chain_creature_def upd_creature_def set_chain_def w'_def c'_def Let_def block_first_def nr(1)
        assms(5,6) [symmetric])
  have first: "block_first w' x y = nr"
    "in_matrix ?M x' y' \<Longrightarrow> (x', y') \<noteq> (x, y) \<Longrightarrow> block_first w' x' y' = block_first w x' y'" for x' y'
    using cell cell_range [OF mi, of x' y'] cell_inj [OF assms(7), of x' y']
    by (auto simp: block_first_def f(3) cell_of_def nth_list_update eq_nat_nat_iff)
  have keep: "path (chain_next w') p (bs x' y')" if "path (chain_next w) p (bs x' y')" for p x' y'
    using that by (rule path_cong) (use assms(4) in \<open>auto simp: nxt\<close>)
  have "block_chains w' (upd_block bs x y (nr # bs x y))"
  proof (rule chains_upd_block [OF assms(1,7)])
    show "hash_valid w'" by (rule ch) (simp_all add: c'_def)
    show "path (chain_next w') (opt_id (block_first w' x y)) (nr # bs x y)"
      using keep [OF chainsD(1) [OF assms(1,7)]] nr(2) first(1) by (simp add: nxt c'_def)
    show "path (chain_next w') (opt_id (block_first w' x' y')) (bs x' y')"
      if "in_matrix ?M x' y'" "(x', y') \<noteq> (x, y)" for x' y'
      using keep [OF chainsD(1) [OF assms(1) that(1)]] first(2) [OF that] by simp
    show "distinct (nr # bs x y)" using assms(4) chainsD(2) [OF assms(1,7)] by simp
    show "creature_at w' m \<noteq> None" if "m \<in> set (nr # bs x y)" for m
      using that chainsD(3) [OF assms(1,7), of m] by (auto simp: at)
    show "x' = x \<and> y' = y" if "m \<in> set (nr # bs x y)" "m \<in> set (bs x' y')" for m x' y'
      using that assms(4) chains_unique [OF assms(1)] by auto
  qed (auto simp: f(3) at)
  moreover have "get_creature w' = get_creature w" by (rule ch) (simp_all add: c'_def)
  ultimately show ?thesis using ins at f(1,3) c'_def by (auto simp: in_matrix_def)
qed

lemma del_chain_loop_path:
  assumes "hash_valid w" "path (chain_next w) (opt_id m) (us @ q # nr # vs)" "distinct (us @ q # nr # vs)"
    "\<forall>k\<in>set (us @ [q]). creature_at w k \<noteq> None" "get_creature w q = Some (Some b)"
  shows "del_chain_loop nr nxt m w = map_option (Pair []) (upd_creature b (\<lambda>c. c\<lparr>NextChainCreature := nxt\<rparr>) w)"
  using assms(2-4)
proof (induction us arbitrary: m)
  case Nil
  then obtain c where c: "creature_at w q = Some c" by auto
  then have "creatures w b = Some c" using assms(5) by (simp add: creature_at_def)
  then show ?case using Nil c assms(5) by (subst del_chain_loop.simps) (auto simp: chain_next_def)
next
  case (Cons u us)
  then obtain c where c: "creature_at w u = Some c" by auto
  then obtain a where a: "get_creature w u = Some (Some a)" "creatures w a = Some c"
    by (rule creature_at_cases [OF assms(1)])
  have n: "path (chain_next w) (opt_id (NextChainCreature c)) (us @ q # nr # vs)"
    using Cons.prems(1) c by (simp add: chain_next_at)
  then have "NextChainCreature c \<noteq> nr" using Cons.prems(2) by (cases us) auto
  then have "del_chain_loop nr nxt m w = del_chain_loop nr nxt (NextChainCreature c) w"
    using Cons.prems(1) a by (subst del_chain_loop.simps) auto
  then show ?case using Cons.IH [OF n] Cons.prems by simp
qed


text \<open>What a creature is apart from its place on a chain.\<close>

definition body :: "world \<Rightarrow> u32 \<Rightarrow> TCreature option" where
  "body w nr = map_option (\<lambda>d. d\<lparr>NextChainCreature := 0\<rparr>) (creature_at w nr)"

lemma body_block: "body w' nr = body w nr \<Longrightarrow> map_option block_of (creature_at w' nr) = map_option block_of (creature_at w nr)"
proof -
  have "map_option block_of (creature_at v nr) = map_option block_of (body v nr)" for v
    by (cases "creature_at v nr") (simp_all add: body_def block_of_def)
  then show "body w' nr = body w nr \<Longrightarrow> map_option block_of (creature_at w' nr) = map_option block_of (creature_at w nr)"
    by simp
qed

lemma body_alive: "body w' nr = body w nr \<Longrightarrow> creature_at w' nr = None \<longleftrightarrow> creature_at w nr = None"
  unfolding body_def by (cases "creature_at w nr"; cases "creature_at w' nr") auto

text \<open>
  The state after a number was taken out of the chain of its block, in either of the two ways: the first
  number of the block, or the link of the predecessor, is changed.
\<close>

lemma chain_shrinks:
  assumes "block_chains w bs" "in_matrix (FirstChainCreature w) x y"
    and f: "FirstChainCreature w' = (FirstChainCreature w)\<lparr>entry := e\<rparr>" "length e = length (entry (FirstChainCreature w))"
      "hash_valid w'" "body w' = body w"
    and p: "path (chain_next w') (opt_id (block_first w' x y)) (remove1 nr (bs x y))"
    and o: "\<And>x' y'. in_matrix (FirstChainCreature w) x' y' \<Longrightarrow> (x', y') \<noteq> (x, y) \<Longrightarrow>
      path (chain_next w') (opt_id (block_first w' x' y')) (bs x' y')"
  shows "block_chains w' (upd_block bs x y (remove1 nr (bs x y)))"
proof (rule chains_upd_block [OF assms(1,2) f(3) _ _ _ _ _ _ p _ _ _ o])
  note inv = chainsD [OF assms(1,2)]
  have sub: "k \<in> set (bs x y)" if "k \<in> set (remove1 nr (bs x y))" for k using that notin_set_remove1 by fastforce
  show alive: "creature_at w k \<noteq> None \<Longrightarrow> creature_at w' k \<noteq> None" for k using body_alive [of w' k w] f(4) by simp
  show "distinct (remove1 nr (bs x y))" using inv(2) by simp
  show "creature_at w' k \<noteq> None" if "k \<in> set (remove1 nr (bs x y))" for k using alive inv(3) sub [OF that] by blast
  show "x' = x \<and> y' = y" if "k \<in> set (remove1 nr (bs x y))" "k \<in> set (bs x' y')" for k x' y'
    using chains_unique [OF assms(1) sub [OF that(1)] that(2)] by simp
qed (simp_all add: f)

lemma delete_first:
  assumes "block_chains w bs" "in_matrix (FirstChainCreature w) x y" "creature_at w nr = Some c" "bs x y = nr # ms"
  defines "M \<equiv> FirstChainCreature w"
  defines "w' \<equiv> w\<lparr>FirstChainCreature := M\<lparr>entry := (entry M)[nat (cell_of M x y) := NextChainCreature c]\<rparr>\<rparr>"
  shows "block_chains w' (upd_block bs x y (remove1 nr (bs x y)))" "get_creature w' = get_creature w" "body w' = body w"
proof -
  have hv: "hash_valid w" and mi: "matrix_inv M" using assms(1) by (simp_all add: block_chains_def M_def)
  note cell = cell_range [OF mi assms(2) [folded M_def]]
  have s: "same_hash w w'" by (rule same_hash_creatures) (simp_all add: w'_def)
  obtain hs where "hash_inv w hs" using hv by (auto simp: hash_valid_def)
  then have g: "get_creature w' = get_creature w" and hv': "hash_valid w'" using same_hashD [OF s]
    by (auto simp: hash_valid_def get_creature_eq)
  show "get_creature w' = get_creature w" by (rule g)
  have at: "creature_at w' = creature_at w" unfolding creature_at_def g by (simp add: fun_eq_iff w'_def)
  then show b: "body w' = body w" by (simp add: fun_eq_iff body_def)
  have nxt: "chain_next w' = chain_next w" by (simp add: fun_eq_iff chain_next_def at)
  show "block_chains w' (upd_block bs x y (remove1 nr (bs x y)))"
  proof (rule chain_shrinks [OF assms(1,2) _ _ hv' b])
    show "FirstChainCreature w' = (FirstChainCreature w)\<lparr>entry := (entry M)[nat (cell_of M x y) := NextChainCreature c]\<rparr>"
      by (simp add: w'_def M_def)
    have "block_first w' x y = NextChainCreature c" using cell by (simp add: block_first_def w'_def nat_less_iff)
    then show "path (chain_next w') (opt_id (block_first w' x y)) (remove1 nr (bs x y))"
      using chainsD(1) [OF assms(1,2)] assms(3,4) by (simp add: nxt chain_next_at)
    show "path (chain_next w') (opt_id (block_first w' x' y')) (bs x' y')"
      if "in_matrix (FirstChainCreature w) x' y'" "(x', y') \<noteq> (x, y)" for x' y'
      using chainsD(1) [OF assms(1) that(1)] cell cell_range [OF mi that(1) [folded M_def]] that(2)
        cell_inj [OF assms(2) that(1), folded M_def]
      unfolding nxt by (auto simp: block_first_def w'_def nth_list_update eq_nat_nat_iff simp flip: M_def)
  qed (simp add: M_def)
qed

lemma delete_later:
  assumes "block_chains w bs" "in_matrix (FirstChainCreature w) x y" "creature_at w nr = Some c"
    "bs x y = us @ q # nr # vs" "get_creature w q = Some (Some b)" "creatures w b = Some cq"
  defines "w' \<equiv> w\<lparr>creatures := (creatures w)(b \<mapsto> cq\<lparr>NextChainCreature := NextChainCreature c\<rparr>)\<rparr>"
  shows "block_chains w' (upd_block bs x y (remove1 nr (bs x y)))" "get_creature w' = get_creature w" "body w' = body w"
proof -
  have hv: "hash_valid w" using assms(1) by (simp add: block_chains_def)
  note inv = chainsD [OF assms(1,2)]
  define c' where "c' = cq\<lparr>NextChainCreature := NextChainCreature c\<rparr>"
  have f: "creatures w' = (creatures w)(b \<mapsto> c')" "HashList w' = HashList w" "FirstChainCreature w' = FirstChainCreature w"
    by (simp_all add: w'_def c'_def)
  have fields: "cID c' = cID cq" "NextHashEntry c' = NextHashEntry cq" by (simp_all add: c'_def)
  note ch = creature_changed [OF hv assms(5,6) fields f(1,2)]
  show "get_creature w' = get_creature w" by (rule ch)
  have cq: "creature_at w q = Some cq" using assms(5,6) by (simp add: creature_at_def)
  then show b: "body w' = body w" by (simp add: fun_eq_iff body_def ch(3) c'_def)
  have nxt: "chain_next w' = (chain_next w)(q := chain_next w nr)"
    using chain_next_changed [OF ch(3)] assms(3) by (simp add: c'_def chain_next_at)
  have bf: "block_first w' = block_first w" by (simp add: fun_eq_iff block_first_def f(3))
  show "block_chains w' (upd_block bs x y (remove1 nr (bs x y)))"
  proof (rule chain_shrinks [OF assms(1,2) _ _ ch(1) b])
    show "FirstChainCreature w' = (FirstChainCreature w)\<lparr>entry := entry (FirstChainCreature w)\<rparr>" by (simp add: f(3))
    have "remove1 nr (bs x y) = us @ q # vs" using assms(4) inv(2) by (simp add: remove1_append)
    then show "path (chain_next w') (opt_id (block_first w' x y)) (remove1 nr (bs x y))"
      using path_unlink [of "chain_next w" _ us q nr vs] inv(1,2) assms(4) by (simp add: nxt bf)
    show "path (chain_next w') (opt_id (block_first w' x' y')) (bs x' y')"
      if "in_matrix (FirstChainCreature w) x' y'" "(x', y') \<noteq> (x, y)" for x' y'
    proof -
      have "q \<notin> set (bs x' y')" using chains_unique [OF assms(1), of q x y x' y'] assms(4) that(2) by auto
      then show ?thesis unfolding nxt bf by (intro path_cong [OF chainsD(1) [OF assms(1) that(1)]]) auto
    qed
  qed simp
qed

lemma delete_chain_creature_ok:
  assumes "block_chains w bs" "get_creature w nr = Some (Some a)" "creatures w a = Some c"
    "x = posx c sdiv 16" "y = posy c sdiv 16" "nr \<in> set (bs x y)"
  shows "\<exists>w'. delete_chain_creature (Some a) w = Some ([], w') \<and> block_chains w' (upd_block bs x y (remove1 nr (bs x y)))
    \<and> get_creature w' = get_creature w \<and> creatures w' a = Some c \<and> body w' = body w
    \<and> in_matrix (FirstChainCreature w') = in_matrix (FirstChainCreature w)"
proof -
  let ?M = "FirstChainCreature w" and ?cell = "cell_of (FirstChainCreature w) x y" and ?n = "NextChainCreature c"
  have hv: "hash_valid w" and mi: "matrix_inv ?M" using assms(1) by (simp_all add: block_chains_def)
  have im: "in_matrix ?M x y" using chains_outside [OF assms(1), of x y] assms(6) by fastforce
  note cell = cell_range [OF mi im] and inv = chainsD [OF assms(1) im]
  have c: "creature_at w nr = Some c" using assms(2,3) by (simp add: creature_at_def)
  then have nr: "cID c = nr" by (rule creature_at_cases [OF hv])
  have del: "delete_chain_creature (Some a) w =
      (if block_first w x y = nr then map_option (Pair []) (set_chain ?cell ?n w)
       else del_chain_loop nr ?n (block_first w x y) w)"
    using assms(3) cell in_block(1) [OF im] nr
    by (simp add: delete_chain_creature_def block_first_def assms(4,5) [symmetric] option.map_ident case_prod_unfold)
  obtain m ms where ms: "bs x y = m # ms" using assms(6) by (cases "bs x y") auto
  then have m: "block_first w x y = m" using inv(1) by auto
  show ?thesis
  proof (cases "m = nr")
    case True
    then show ?thesis using delete_first [OF assms(1) im c] ms del m cell assms(3) by (auto simp: set_chain_def)
  next
    case False
    obtain us q vs where d: "bs x y = us @ q # nr # vs" using predecessor [OF assms(6)] ms False by auto
    obtain cq where cq: "creature_at w q = Some cq" using inv(3) [of q] d by auto
    then obtain b where b: "get_creature w q = Some (Some b)" "creatures w b = Some cq" "cID cq = q"
      by (rule creature_at_cases [OF hv])
    have "b \<noteq> a" using b assms(3) nr inv(2) d by auto
    have "del_chain_loop nr ?n (block_first w x y) w =
        map_option (Pair []) (upd_creature b (\<lambda>d. d\<lparr>NextChainCreature := ?n\<rparr>) w)"
      using inv(1,2) d inv(3) b(1) by (intro del_chain_loop_path [OF hv]) auto
    then show ?thesis using delete_later [OF assms(1) im c d b(1,2)] del m False b(2) assms(3) \<open>b \<noteq> a\<close>
      by (simp add: upd_creature_def)
  qed
qed


text \<open>A creature whose position changes keeps its place on a chain.\<close>

lemma position_changed:
  fixes X Y :: int
  assumes "block_chains w bs" "get_creature w nr = Some (Some a)" "creatures w a = Some c"
  defines "w' \<equiv> w\<lparr>creatures := (creatures w)(a \<mapsto> c\<lparr>posx := X, posy := Y\<rparr>)\<rparr>"
  shows "block_chains w' bs" "creature_at w' = (creature_at w)(nr \<mapsto> c\<lparr>posx := X, posy := Y\<rparr>)"
proof -
  have hv: "hash_valid w" and mi: "matrix_inv (FirstChainCreature w)" using assms(1) by (simp_all add: block_chains_def)
  define c' where "c' = c\<lparr>posx := X, posy := Y\<rparr>"
  have f: "cID c' = cID c" "NextHashEntry c' = NextHashEntry c" "creatures w' = (creatures w)(a \<mapsto> c')" "HashList w' = HashList w"
    by (simp_all add: w'_def c'_def)
  note ch = creature_changed [OF hv assms(2,3) f]
  then show at: "creature_at w' = (creature_at w)(nr \<mapsto> c\<lparr>posx := X, posy := Y\<rparr>)" by (simp add: c'_def)
  have "chain_next w' = chain_next w"
    using chain_next_changed [OF ch(3)] assms(2,3) by (auto simp: fun_eq_iff chain_next_def creature_at_def c'_def)
  moreover have "block_first w' = block_first w" by (simp add: fun_eq_iff block_first_def w'_def)
  moreover have "creature_at w' m = None \<longleftrightarrow> creature_at w m = None" for m
    using assms(2,3) by (simp add: at creature_at_def)
  ultimately show "block_chains w' bs"
    using assms(1) ch(1) unfolding block_chains_def by (simp add: w'_def)
qed

lemma move_ok:
  assumes "block_chains w bs" "get_creature w nr = Some (Some a)" "creatures w a = Some c"
    "nr \<in> set (bs (posx c sdiv 16) (posy c sdiv 16))" "X \<noteq> 0" "Y \<noteq> 0" "in_matrix (FirstChainCreature w) (X sdiv 16) (Y sdiv 16)"
  shows "\<exists>w' c' bs'. move_chain_creature (Some a) X Y w = Some ([], w') \<and> creatures w' a = Some c'
    \<and> get_creature w' = get_creature w \<and> block_chains w' bs' \<and> body w' = body w
    \<and> nr \<in> set (bs' (X sdiv 16) (Y sdiv 16))
    \<and> (\<forall>m x y. m \<noteq> nr \<longrightarrow> m \<in> set (bs' x y) \<longleftrightarrow> m \<in> set (bs x y))"
proof (cases "X sdiv 16 \<noteq> posx c sdiv 16 \<or> Y sdiv 16 \<noteq> posy c sdiv 16")
  case True
  let ?x = "posx c sdiv 16" and ?y = "posy c sdiv 16" and ?X = "X sdiv 16" and ?Y = "Y sdiv 16"
  let ?bs = "upd_block bs ?x ?y (remove1 nr (bs ?x ?y))"
  obtain w1 where w1: "delete_chain_creature (Some a) w = Some ([], w1)" "block_chains w1 ?bs"
    "get_creature w1 = get_creature w" "creatures w1 a = Some c" "body w1 = body w"
    "in_matrix (FirstChainCreature w1) = in_matrix (FirstChainCreature w)"
    using delete_chain_creature_ok [OF assms(1-3) refl refl assms(4)] by blast
  have out: "nr \<notin> set (?bs x y)" for x y
  proof (cases "x = ?x \<and> y = ?y")
    case True
    then show ?thesis using chains_distinct [OF assms(1), of ?x ?y] by (simp add: upd_block_def)
  next
    case False
    then have "nr \<notin> set (bs x y)" using chains_unique [OF assms(1,4), of x y] by blast
    then show ?thesis unfolding upd_block_def if_not_P [OF False] .
  qed
  have g1: "get_creature w1 nr = Some (Some a)" and m1: "in_matrix (FirstChainCreature w1) ?X ?Y"
    using w1 assms(2,7) by simp_all
  have xy: "?X = (if X = 0 then posx c else X) sdiv 16" "?Y = (if Y = 0 then posy c else Y) sdiv 16"
    using assms(5,6) by simp_all
  obtain w2 c2 where w2: "insert_chain_creature (Some a) X Y w1 = Some ([], w2)"
    "block_chains w2 (upd_block ?bs ?X ?Y (nr # ?bs ?X ?Y))" "get_creature w2 = get_creature w1"
    "c2 = c\<lparr>NextChainCreature := block_first w1 ?X ?Y\<rparr>" "creatures w2 a = Some c2"
    "creature_at w2 = (creature_at w1)(nr \<mapsto> c2)"
    using insert_chain_creature_ok [OF w1(2) g1 w1(4) out xy m1] by blast
  have "creature_at w1 nr = Some c" using g1 w1(4) by (simp add: creature_at_def)
  then have "body w2 = body w1" using w2(4,6) by (simp add: fun_eq_iff body_def)
  then have "body w2 = body w" using w1(5) by simp
  moreover have "move_chain_creature (Some a) X Y w = Some ([], w2)"
    using True assms(3) w1(1) w2(1) by (simp add: move_chain_creature_def)
  moreover have "\<forall>m x y. m \<noteq> nr \<longrightarrow> m \<in> set (upd_block ?bs ?X ?Y (nr # ?bs ?X ?Y) x y) \<longleftrightarrow> m \<in> set (bs x y)"
    by (auto simp: upd_block_def dest: notin_set_remove1)
  moreover have "nr \<in> set (upd_block ?bs ?X ?Y (nr # ?bs ?X ?Y) ?X ?Y)" by (simp add: upd_block_def)
  ultimately show ?thesis using w2 w1(3) by metis
next
  case False
  then show ?thesis using assms(1-4)
    by (intro exI [of _ w] exI [of _ c] exI [of _ bs]) (auto simp: move_chain_creature_def)
qed


lemma placed_moved:
  assumes "block_chains w bs" "placed w bs" "block_chains w' bs'" "get_creature w' nr = Some (Some a)"
    "creatures w' a = Some c" "body w' = body w" "nr \<in> set (bs' (X sdiv 16) (Y sdiv 16))"
    "\<forall>m x y. m \<noteq> nr \<longrightarrow> m \<in> set (bs' x y) \<longleftrightarrow> m \<in> set (bs x y)"
  shows "placed (w'\<lparr>creatures := (creatures w')(a \<mapsto> c\<lparr>posx := X, posy := Y\<rparr>)\<rparr>) bs'" (is "placed ?w bs'")
  unfolding placed_def
proof (intro allI ballI)
  fix x y m assume m: "m \<in> set (bs' x y)"
  have at: "creature_at ?w = (creature_at w')(nr \<mapsto> c\<lparr>posx := X, posy := Y\<rparr>)"
    by (rule position_changed(2) [OF assms(3-5)])
  show "map_option block_of (creature_at ?w m) = Some (x, y)"
  proof (cases "m = nr")
    case True
    then have "x = X sdiv 16 \<and> y = Y sdiv 16" using chains_unique [OF assms(3,7)] m by blast
    then show ?thesis using True unfolding at by (simp add: block_of_def)
  next
    case False
    then have "map_option block_of (creature_at w m) = Some (x, y)" using m assms(2,8) by (auto simp: placed_def)
    moreover have "map_option block_of (creature_at w' m) = map_option block_of (creature_at w m)"
      using assms(6) by (intro body_block) simp
    ultimately show ?thesis using False unfolding at by simp
  qed
qed

section \<open>Properties\<close>

definition sample_world :: world where
  "sample_world = \<lparr>creatures = (\<lambda>_. None)(5 \<mapsto> \<lparr>cID = 1007, NextHashEntry = None, NextChainCreature = 9, posx = 40, posy = 40, cType = PLAYER\<rparr>,
       6 \<mapsto> \<lparr>cID = 9, NextHashEntry = None, NextChainCreature = 0, posx = 33, posy = 45, cType = MONSTER\<rparr>,
       7 \<mapsto> \<lparr>cID = 0, NextHashEntry = None, NextChainCreature = 0, posx = 50, posy = 40, cType = NPC\<rparr>),
     HashList = (replicate 1000 None)[7 := Some 5, 9 := Some 6],
     FirstChainCreature = \<lparr>xmin = 2, ymin = 2, dx = 2, dy = 2, entry = [1007, 0, 0, 0]\<rparr>,
     CreatureList = vector_new_init 0 9 1 None None, FirstFreeCreature = 0, NextCreatureID = 0x40000000\<rparr>"

definition sample_hash :: "int \<Rightarrow> addr list" where
  "sample_hash = (\<lambda>_. [])(7 := [5], 9 := [6])"

definition sample_blocks :: "int \<Rightarrow> int \<Rightarrow> u32 list" where
  "sample_blocks = upd_block (\<lambda>_ _. []) 2 2 [1007, 9]"

lemma sample_hash_inv: "hash_inv sample_world sample_hash"
  unfolding hash_inv_def
proof (intro conjI allI impI)
  show "length (HashList sample_world) = 1000" by (simp add: sample_world_def)
  fix i :: int assume i: "0 \<le> i \<and> i < 1000"
  then have "nat i < 1000" by (simp add: nat_less_iff)
  then show "path (hash_next sample_world) (HashList sample_world ! nat i) (sample_hash i)"
    using i by (auto simp: sample_world_def sample_hash_def hash_next_def nth_list_update)
  show "\<forall>a\<in>set (sample_hash i). creatures sample_world a \<noteq> None \<and> id_of sample_world a \<noteq> 0 \<and> hash_slot (id_of sample_world a) = i"
    by (auto simp: sample_world_def sample_hash_def id_of_def hash_slot_def split: if_splits)
  show "distinct (map (id_of sample_world) (sample_hash i))" by (simp add: sample_hash_def)
qed

lemma sample_get: "get_creature sample_world 1007 = Some (Some 5)" "get_creature sample_world 9 = Some (Some 6)"
  "get_creature sample_world 8 = Some None"
  using get_creature_eq [OF sample_hash_inv]
  by (simp_all add: registered_def sample_hash_def hash_slot_def id_of_def sample_world_def)

lemma sample_chains: "block_chains sample_world sample_blocks" "placed sample_world sample_blocks"
proof -
  have at: "creature_at sample_world 1007 = creatures sample_world 5" "creature_at sample_world 9 = creatures sample_world 6"
    by (simp_all add: creature_at_def sample_get)
  have v: "creatures sample_world 5 = Some \<lparr>cID = 1007, NextHashEntry = None, NextChainCreature = 9, posx = 40, posy = 40, cType = PLAYER\<rparr>"
    "creatures sample_world 6 = Some \<lparr>cID = 9, NextHashEntry = None, NextChainCreature = 0, posx = 33, posy = 45, cType = MONSTER\<rparr>"
    by (simp_all add: sample_world_def)
  have h: "hash_valid sample_world" using sample_hash_inv by (auto simp: hash_valid_def)
  have m: "FirstChainCreature sample_world = \<lparr>xmin = 2, ymin = 2, dx = 2, dy = 2, entry = [1007, 0, 0, 0]\<rparr>"
    by (simp add: sample_world_def)
  have n: "chain_next sample_world 1007 = Some 9" "chain_next sample_world 9 = None" by (simp_all add: chain_next_def at v)
  have c: "nat (cell_of \<lparr>xmin = 2, ymin = 2, dx = 2, dy = 2, entry = [1007, 0, 0, 0 :: u32]\<rparr> x y) \<in> {1, 2, 3}"
    if "2 \<le> x" "x < 4" "2 \<le> y" "y < 4" "x \<noteq> 2 \<or> y \<noteq> 2" for x y
  proof -
    have "x \<in> {2, 3}" "y \<in> {2, 3}" using that by auto
    then show ?thesis using that(5) by (auto simp: cell_of_def)
  qed
  have z: "block_first sample_world x y = (if x = 2 \<and> y = 2 then 1007 else 0)"
    if "2 \<le> x" "x < 4" "2 \<le> y" "y < 4" for x y
  proof (cases "x = 2 \<and> y = 2")
    case True
    then show ?thesis by (simp add: block_first_def m cell_of_def)
  next
    case False
    then show ?thesis using c [OF that] by (auto simp: block_first_def m)
  qed
  show "block_chains sample_world sample_blocks"
    unfolding block_chains_def
    using h z by (auto simp: m matrix_inv_def in_matrix_def sample_blocks_def upd_block_def n at v)
  show "placed sample_world sample_blocks"
    by (auto simp: placed_def sample_blocks_def upd_block_def at v block_of_def sdiv_nonneg split: if_splits)
qed

text \<open>
  C27: A number that is not in use can be given to a creature object that is not registered: \<open>get_creature\<close>
  then finds the object under that number and every other creature as before. \<open>DelID\<close> reports
  no error then, and takes the table back to where it was.
\<close>

theorem register_unregister:
  assumes "hash_valid w" "hash_idle w a" "nr \<noteq> 0" "get_creature w nr = Some None"
  shows "\<exists>e w' w''. SetID a nr w = Some (e, w') \<and> get_creature w' = (get_creature w)(nr \<mapsto> Some a)
    \<and> DelID a w' = Some ([], w'') \<and> hash_valid w'' \<and> get_creature w'' = get_creature w"
proof -
  obtain w' where w': "enter_number a nr w = Some w'" "hash_valid w'" "get_creature w' = (get_creature w)(nr \<mapsto> Some a)"
    using ids.enter_lookup [OF assms] by blast
  then obtain hs where inv: "hash_inv w' hs" by (auto simp: hash_valid_def)
  then have "registered w' hs nr = Some a" using w'(3) get_creature_eq [OF inv] by (metis fun_upd_same option.inject)
  then obtain w'' where "DelID a w' = Some ([], w'')" using DelID_ok [OF inv] by blast
  moreover obtain v where "remove_number a w' = Some v" "hash_valid v" "get_creature v = get_creature w"
    using ids.enter_remove [OF assms] w'(1) by auto
  ultimately show ?thesis using w' by (auto simp: enter_number_def remove_number_def)
qed

theorem register_unregister_witness:
  "\<exists>e w' w''. SetID 7 8 sample_world = Some (e, w') \<and> get_creature w' = (get_creature sample_world)(8 \<mapsto> Some 7)
    \<and> DelID 7 w' = Some ([], w'') \<and> hash_valid w'' \<and> get_creature w'' = get_creature sample_world"
proof (rule register_unregister)
  show "hash_valid sample_world" using sample_hash_inv by (auto simp: hash_valid_def)
  show "hash_idle sample_world 7"
    unfolding hash_idle_iff [OF sample_hash_inv] by (simp add: unlinked_def sample_hash_def sample_world_def)
qed (simp_all add: sample_get)

text \<open>
  A creature that gets its number from the server gets the first unused one of the next sixteen, and
  the search for the next creature starts behind it. The number must not be 0, which the counter
  reaches when it wraps around.
\<close>

theorem SetID_first_unused:
  assumes "hash_valid w" "hash_idle w a" "k < 16" "NextCreatureID w + of_nat k \<noteq> 0"
    "\<forall>j<k. get_creature w (NextCreatureID w + of_nat j) \<noteq> Some None"
    "get_creature w (NextCreatureID w + of_nat k) = Some None"
  shows "\<exists>e w'. SetID a 0 w = Some (e, w') \<and> e \<in> {[], [''ID is already set'']}
    \<and> get_creature w' = (get_creature w)(NextCreatureID w + of_nat k \<mapsto> Some a) \<and> hash_valid w'"
proof -
  obtain hs where inv: "hash_inv w hs" using assms(1) by (auto simp: hash_valid_def)
  obtain c where "creatures w a = Some c" "unlinked hs a" using assms(2) hash_idle_iff [OF inv] by auto
  then have "\<exists>w' hs'. SetID a 0 w = Some (if cID c \<noteq> 0 then [''ID is already set''] else [], w')
    \<and> hash_inv w' hs' \<and> registered w' hs' = (registered w hs)(NextCreatureID w + of_nat k \<mapsto> a)"
    using assms(3-6) by (intro SetID_fresh [OF inv]) (auto simp: get_creature_eq [OF inv])
  then show ?thesis by (auto simp: get_creature_eq [OF inv] get_creature_eq fun_eq_iff hash_valid_def)
qed

theorem SetID_first_unused_witness:
  "\<exists>e w'. SetID 7 0 sample_world = Some (e, w') \<and> e \<in> {[], [''ID is already set'']}
    \<and> get_creature w' = (get_creature sample_world)(0x40000000 \<mapsto> Some 7) \<and> hash_valid w'"
proof -
  have n: "NextCreatureID sample_world + of_nat 0 = 0x40000000" by (simp add: sample_world_def)
  have "hash_idle sample_world 7"
    unfolding hash_idle_iff [OF sample_hash_inv] by (simp add: unlinked_def sample_hash_def sample_world_def)
  moreover have "get_creature sample_world 0x40000000 = Some None"
    by (simp add: get_creature_eq [OF sample_hash_inv] registered_def sample_hash_def hash_slot_def)
  moreover have "hash_valid sample_world" using sample_hash_inv by (auto simp: hash_valid_def)
  ultimately show ?thesis using SetID_first_unused [of sample_world 7 0] unfolding n by simp
qed

text \<open>
  C25: A search that \<open>initSearch\<close> starts with radii that are not negative ends, and \<open>getNext\<close> returns every
  creature exactly once that is on a chain, stands in the rectangle and has a type of the mask, and no other number.
\<close>

theorem find_creatures_complete:
  assumes "block_chains w bs" "placed w bs" "0 \<le> RadiusX" "0 \<le> RadiusY"
  shows "\<exists>nrs. find_all w (initSearch RadiusX RadiusY CenterX CenterY M) = Some nrs \<and> distinct nrs \<and>
    set nrs = {nr. \<exists>x y c. nr \<in> set (bs x y) \<and> creature_at w nr = Some c \<and> in_range RadiusX RadiusY CenterX CenterY M c}"
  using find_all_initSearch [OF assms(1,3)] search_result [OF assms, of CenterX CenterY M]
    distinct_filter numbers_distinct [OF assms(1) blocks_left_distinct] by blast

theorem find_creatures_complete_witness:
  "\<exists>nrs. find_all sample_world (initSearch 4 4 37 44 5) = Some nrs \<and> distinct nrs \<and>
    set nrs = {nr. \<exists>x y c. nr \<in> set (sample_blocks x y) \<and> creature_at sample_world nr = Some c \<and> in_range 4 4 37 44 5 c}"
  by (rule find_creatures_complete [OF sample_chains]) simp_all

text \<open>
  C26: A creature that leaves its block is taken out of the chain of the old block and put into the chain of the new
  one without an error; once its position is set, every creature is on the chain of the block it
  stands in, and the same creatures are on the chains as before. The destination coordinates must not be 0,
  which \<open>insert_chain_creature\<close> takes for the current position.
\<close>

theorem move_chain_creature_correct:
  assumes "block_chains w bs" "placed w bs" "get_creature w nr = Some (Some a)" "creatures w a = Some c"
    "nr \<in> set (bs (posx c sdiv 16) (posy c sdiv 16))" "CoordX \<noteq> 0" "CoordY \<noteq> 0"
    "in_matrix (FirstChainCreature w) (CoordX sdiv 16) (CoordY sdiv 16)"
  shows "\<exists>w' c' bs' w''. move_chain_creature (Some a) CoordX CoordY w = Some ([], w') \<and> creatures w' a = Some c'
    \<and> w'' = w'\<lparr>creatures := (creatures w')(a \<mapsto> c'\<lparr>posx := CoordX, posy := CoordY\<rparr>)\<rparr>
    \<and> block_chains w'' bs' \<and> placed w'' bs' \<and> nr \<in> set (bs' (CoordX sdiv 16) (CoordY sdiv 16))
    \<and> (\<forall>m x y. m \<noteq> nr \<longrightarrow> m \<in> set (bs' x y) \<longleftrightarrow> m \<in> set (bs x y))"
proof -
  obtain w' c' bs' where m: "move_chain_creature (Some a) CoordX CoordY w = Some ([], w')" "creatures w' a = Some c'"
    "get_creature w' = get_creature w" "block_chains w' bs'" "body w' = body w"
    "nr \<in> set (bs' (CoordX sdiv 16) (CoordY sdiv 16))" "\<forall>m x y. m \<noteq> nr \<longrightarrow> m \<in> set (bs' x y) \<longleftrightarrow> m \<in> set (bs x y)"
    using move_ok [OF assms(1,3-8)] by blast
  have g: "get_creature w' nr = Some (Some a)" using m(3) assms(3) by simp
  show ?thesis using position_changed(1) [OF m(4) g m(2)] placed_moved [OF assms(1,2) m(4) g m(2,5,6,7)] m by blast
qed

theorem move_chain_creature_correct_witness:
  "\<exists>w' c' bs' w''. move_chain_creature (Some 5) 50 41 sample_world = Some ([], w') \<and> creatures w' 5 = Some c'
    \<and> w'' = w'\<lparr>creatures := (creatures w')(5 \<mapsto> c'\<lparr>posx := 50, posy := 41\<rparr>)\<rparr>
    \<and> block_chains w'' bs' \<and> placed w'' bs' \<and> 1007 \<in> set (bs' (50 sdiv 16) (41 sdiv 16))
    \<and> (\<forall>m x y. m \<noteq> 1007 \<longrightarrow> m \<in> set (bs' x y) \<longleftrightarrow> m \<in> set (sample_blocks x y))"
proof -
  let ?c = "\<lparr>cID = 1007, NextHashEntry = None, NextChainCreature = 9, posx = 40, posy = 40, cType = PLAYER\<rparr>"
  have "creatures sample_world 5 = Some ?c" by (simp add: sample_world_def)
  from move_chain_creature_correct [OF sample_chains sample_get(1) this, of 50 41] show ?thesis
    by (simp add: sample_blocks_def upd_block_def sample_world_def in_matrix_def sdiv_nonneg)
qed

text \<open>
  The array of all creatures behaves as a list. \<open>SetInCrList\<close> appends; \<open>DelInCrList\<close>, which
  does not stop at the creature it finds, removes exactly that creature when it is in the list once, and moves the last one
  to its place.
\<close>

theorem creature_list_correct:
  assumes "cr_list w cl" "distinct (cl @ [a])"
  shows "\<exists>w'. SetInCrList a w = Some w' \<and> cr_list w' (cl @ [a]) \<and>
    (\<forall>k<length (cl @ [a]). \<exists>w''. DelInCrList ((cl @ [a]) ! k) w' = Some w'' \<and> cr_list w'' (butlast ((cl @ [a])[k := a]))
      \<and> mset (butlast ((cl @ [a])[k := a])) = mset (cl @ [a]) - {#(cl @ [a]) ! k#})"
proof -
  obtain w' where w': "SetInCrList a w = Some w'" "cr_list w' (cl @ [a])" using SetInCrList_ok [OF assms(1)] by blast
  have "\<exists>w''. DelInCrList ((cl @ [a]) ! k) w' = Some w'' \<and> cr_list w'' (butlast ((cl @ [a])[k := a]))
      \<and> mset (butlast ((cl @ [a])[k := a])) = mset (cl @ [a]) - {#(cl @ [a]) ! k#}" if k: "k < length (cl @ [a])" for k
    using del_list_loop_ok [OF w'(2), of "(cl @ [a]) ! k" 0] del_list_at [OF assms(2) k, of 0] swap_remove_mset [OF k]
    by (auto simp: DelInCrList_def)
  then show ?thesis using w' by blast
qed

theorem creature_list_correct_witness:
  "\<exists>w'. SetInCrList 7 sample_world = Some w' \<and> cr_list w' [7]"
proof -
  have "cr_list sample_world []" by (simp add: cr_list_def sample_world_def vector_new_init_inv)
  from creature_list_correct [OF this, of 7] show ?thesis by auto
qed


text \<open>A creature that is in the list twice survives once: the loop goes on behind the place it has just filled.\<close>

theorem DelInCrList_duplicate:
  assumes "cr_list w [a, a]"
  shows "\<exists>w'. DelInCrList a w = Some w' \<and> cr_list w' [a]"
proof -
  have "del_list a 0 [a, a] = [a]" by (simp add: del_list.simps)
  then show ?thesis using del_list_loop_ok [OF assms, of a 0] by (auto simp: DelInCrList_def)
qed

text \<open>When the counter has wrapped around, 0 is handed out as an unused number.\<close>

theorem find_id_zero:
  assumes "NextCreatureID w = 0"
  shows "find_id 16 0 w = Some (0, True, w\<lparr>NextCreatureID := 1\<rparr>)"
  using assms by (simp add: get_creature_def numeral_eq_Suc Let_def)

end
