(* ===== verification/Object_Type.thy ===== *)
theory Object_Type
  imports Utils
begin

text \<open>
  Object types (\<open>game_data/objects/objects.cpp\<close>, \<open>game_data/objects/objects.h\<close>, \<open>enums/enums.h\<close>): the flags of a type,
  its own attributes, and where the objects of the type keep their instance attributes. Every flag is a bit
  of a bit set, every attribute belongs to a flag. The offsets of the instance attributes are
  assigned when the flags of a type have been read.

  The table \<open>ObjectTypes\<close> is filled from a file at the start; here it is the function from type
  numbers to the cells of the array.
\<close>

section \<open>Flags and attributes\<close>

text \<open>The values of the enumerations that the modelled code uses.\<close>

abbreviation (input) BANK :: int where "BANK \<equiv> 0"
abbreviation (input) CLIP :: int where "CLIP \<equiv> 1"
abbreviation (input) BOTTOM :: int where "BOTTOM \<equiv> 2"
abbreviation (input) TOP :: int where "TOP \<equiv> 3"
abbreviation (input) CONTAINER :: int where "CONTAINER \<equiv> 4"
abbreviation (input) CHEST :: int where "CHEST \<equiv> 5"
abbreviation (input) CUMULATIVE :: int where "CUMULATIVE \<equiv> 6"
abbreviation (input) RUNE :: int where "RUNE \<equiv> 22"
abbreviation (input) TEXT :: int where "TEXT \<equiv> 24"
abbreviation (input) LIQUIDPOOL :: int where "LIQUIDPOOL \<equiv> 29"
abbreviation (input) MAGICFIELD :: int where "MAGICFIELD \<equiv> 37"
abbreviation (input) EXPIRE :: int where "EXPIRE \<equiv> 52"
abbreviation (input) EXPIRESTOP :: int where "EXPIRESTOP \<equiv> 53"
abbreviation (input) WEAROUT :: int where "WEAROUT \<equiv> 54"

abbreviation (input) CONTENT :: int where "CONTENT \<equiv> 0"
abbreviation (input) AMOUNT :: int where "AMOUNT \<equiv> 2"
abbreviation (input) CHARGES :: int where "CHARGES \<equiv> 8"
abbreviation (input) TEXTSTRING :: int where "TEXTSTRING \<equiv> 9"
abbreviation (input) EDITOR :: int where "EDITOR \<equiv> 10"
abbreviation (input) POOLLIQUIDTYPE :: int where "POOLLIQUIDTYPE \<equiv> 12"
abbreviation (input) RESPONSIBLE :: int where "RESPONSIBLE \<equiv> 14"
abbreviation (input) SAVEDEXPIRETIME :: int where "SAVEDEXPIRETIME \<equiv> 16"
abbreviation (input) REMAININGUSES :: int where "REMAININGUSES \<equiv> 17"

abbreviation (input) TOTALEXPIRETIME :: int where "TOTALEXPIRETIME \<equiv> 30"
abbreviation (input) TOTALUSES :: int where "TOTALUSES \<equiv> 32"

abbreviation (input) TYPEID_MAP_CONTAINER :: int where "TYPEID_MAP_CONTAINER \<equiv> 0"
abbreviation (input) TYPEID_CREATURE_CONTAINER :: int where "TYPEID_CREATURE_CONTAINER \<equiv> 99"

definition TypeAttributeFlags :: "int list" where
  "TypeAttributeFlags =
     [0, 4, 8, 16, 17, 18, 19, 21, 23, 24, 25, 26, 28, 30, 31, 31, 36, 38, 39, 40, 44, 45, 46, 47, 47,
      48, 48, 49, 49, 51, 52, 52, 54, 54, 55, 55, 55, 56, 57, 57, 58, 58, 58, 58, 58, 58, 58, 59, 59,
      59, 59, 59, 59, 60, 60, 60, 60, 60, 61, 62, 63, 0]"

definition InstanceAttributeFlags :: "int list" where
  "InstanceAttributeFlags = [4, 5, 6, 15, 16, 18, 19, 19, 22, 24, 24, 27, 29, 30, 37, 52, 53, 54]"

record TObjectType =
  Flags :: "u8 list"
  TAttributes :: "u32 list"
  AttributeOffsets :: "int list"

type_synonym type_table = "int \<Rightarrow> TObjectType"

section \<open>Operations\<close>

text \<open>\<open>Flags\<close> has 9 bytes, so every flag is inside.\<close>

definition get_flag :: "type_table \<Rightarrow> int \<Rightarrow> int \<Rightarrow> bool" where
  "get_flag T TypeID Flag \<longleftrightarrow> CheckBit (Flags (T TypeID)) Flag = Some True"

text \<open>The flag of the result says that an error was reported.\<close>

definition get_type_attribute :: "type_table \<Rightarrow> int \<Rightarrow> int \<Rightarrow> (u32 \<times> bool) option" where
  "get_type_attribute T TypeID Attribute = do {
     f \<leftarrow> arr_get TypeAttributeFlags Attribute;
     if \<not> get_flag T TypeID f then Some (0, True)
     else do {v \<leftarrow> arr_get (TAttributes (T TypeID)) Attribute; Some (v, False)}}"

definition get_attribute_offset :: "type_table \<Rightarrow> int \<Rightarrow> int \<Rightarrow> int option" where
  "get_attribute_offset T TypeID Attribute = do {
     f \<leftarrow> arr_get InstanceAttributeFlags Attribute;
     if \<not> get_flag T TypeID f \<and> \<not> (Attribute = CONTENT \<and> get_flag T TypeID CHEST) then Some (- 1)
     else arr_get (AttributeOffsets (T TypeID)) Attribute}"

definition is_map_container :: "int \<Rightarrow> bool" where
  "is_map_container TypeID \<longleftrightarrow> TypeID = TYPEID_MAP_CONTAINER"

definition is_creature_container :: "int \<Rightarrow> bool" where
  "is_creature_container TypeID \<longleftrightarrow> TypeID = TYPEID_CREATURE_CONTAINER"

text \<open>The loop that assigns the offsets, from attribute \<open>i\<close> on.\<close>

definition has_instance_attribute :: "u8 list \<Rightarrow> nat \<Rightarrow> bool" where
  "has_instance_attribute flags i \<longleftrightarrow> CheckBit flags (InstanceAttributeFlags ! i) = Some True
     \<or> (int i = CONTENT \<and> CheckBit flags CHEST = Some True)"

fun assign_offsets :: "u8 list \<Rightarrow> nat list \<Rightarrow> int \<Rightarrow> int list \<Rightarrow> int list" where
  "assign_offsets flags [] cnt offsets = offsets"
| "assign_offsets flags (i # is) cnt offsets =
     (if has_instance_attribute flags i
      then assign_offsets flags is (cnt + 1) (offsets[i := cnt])
      else assign_offsets flags is cnt offsets)"

text \<open>A type whose flags have been read, and which fits into the four attributes of an object.\<close>

definition loaded_type :: "TObjectType \<Rightarrow> bool" where
  "loaded_type t \<longleftrightarrow> length (Flags t) = 9 \<and> length (TAttributes t) = 62
     \<and> AttributeOffsets t = assign_offsets (Flags t) [0..<18] 0 (replicate 18 (- 1))
     \<and> length (filter (has_instance_attribute (Flags t)) [0..<18]) \<le> 4"

section \<open>Offsets are positions\<close>

text \<open>The offset of an attribute is the number of attributes of the type in front of it.\<close>

definition rank :: "u8 list \<Rightarrow> nat \<Rightarrow> nat" where
  "rank flags i = length (filter (has_instance_attribute flags) [0..<i])"

lemma assign_offsets_length: "length (assign_offsets flags is cnt offsets) = length offsets"
  by (induction "is" arbitrary: cnt offsets) auto

lemma assign_offsets_nth:
  assumes "i \<le> n" "n \<le> length offsets" "k < length offsets"
  shows "assign_offsets flags [i..<n] (int (rank flags i)) offsets ! k =
    (if i \<le> k \<and> k < n \<and> has_instance_attribute flags k then int (rank flags k) else offsets ! k)"
  using assms
proof (induction "n - i" arbitrary: i offsets)
  case (Suc m)
  then have "i < n" by simp
  then have u: "[i..<n] = i # [Suc i..<n]" by (rule upt_conv_Cons)
  show ?case
  proof (cases "has_instance_attribute flags i")
    case True
    then have "int (rank flags i) + 1 = int (rank flags (Suc i))" by (simp add: rank_def)
    then show ?thesis using Suc.hyps(1) [of "Suc i" "offsets[i := int (rank flags i)]"] Suc.hyps(2) Suc.prems True
      by (auto simp: u nth_list_update not_le dest: le_neq_implies_less)
  next
    case False
    then have "rank flags i = rank flags (Suc i)" by (simp add: rank_def)
    then show ?thesis using Suc.hyps(1) [of "Suc i" offsets] Suc.hyps(2) Suc.prems False
      by (auto simp: u not_le dest: le_neq_implies_less)
  qed
qed simp

lemma rank_mono: "i \<le> j \<Longrightarrow> rank flags i \<le> rank flags j"
proof -
  assume "i \<le> j"
  then have "[0..<j] = [0..<i] @ [i..<j]" by (metis le0 le_iff_add upt_add_eq_append)
  then show ?thesis by (simp add: rank_def)
qed

lemma rank_strict: "has_instance_attribute flags i \<Longrightarrow> i < j \<Longrightarrow> rank flags i < rank flags j"
proof -
  assume "has_instance_attribute flags i" "i < j"
  moreover have "rank flags (Suc i) \<le> rank flags j" using \<open>i < j\<close> by (intro rank_mono) simp
  ultimately show ?thesis by (simp add: rank_def)
qed

text \<open>The attribute \<open>Attribute\<close> of a type, as the object code asks for it.\<close>

definition has_attribute :: "type_table \<Rightarrow> int \<Rightarrow> int \<Rightarrow> bool" where
  "has_attribute T TypeID Attribute \<longleftrightarrow> 0 \<le> Attribute \<and> Attribute < 18
     \<and> has_instance_attribute (Flags (T TypeID)) (nat Attribute)"

definition offset :: "type_table \<Rightarrow> int \<Rightarrow> int \<Rightarrow> nat" where
  "offset T TypeID Attribute = rank (Flags (T TypeID)) (nat Attribute)"

lemma get_attribute_offset_loaded:
  assumes "loaded_type (T t)" "0 \<le> a" "a < 18"
  shows "get_attribute_offset T t a = Some (if has_attribute T t a then int (offset T t a) else - 1)"
proof -
  have l: "length (AttributeOffsets (T t)) = 18" "length InstanceAttributeFlags = 18"
    using assms(1) by (simp_all add: loaded_type_def assign_offsets_length InstanceAttributeFlags_def)
  have f: "arr_get InstanceAttributeFlags a = Some (InstanceAttributeFlags ! nat a)" using assms l by simp
  have n: "nat a < 18" using assms by (simp add: nat_less_iff)
  have "AttributeOffsets (T t) ! nat a = (if has_instance_attribute (Flags (T t)) (nat a) then int (offset T t a) else - 1)"
    using assms n assign_offsets_nth [of 0 18 "replicate 18 (- 1)" "nat a" "Flags (T t)"]
    by (simp add: loaded_type_def offset_def rank_def)
  moreover have "has_attribute T t a \<longleftrightarrow> get_flag T t (InstanceAttributeFlags ! nat a) \<or> (a = CONTENT \<and> get_flag T t CHEST)"
    using assms by (auto simp: has_attribute_def has_instance_attribute_def get_flag_def)
  moreover have "has_instance_attribute (Flags (T t)) (nat a) = has_attribute T t a" using assms by (simp add: has_attribute_def)
  ultimately show ?thesis using assms l f by (simp add: get_attribute_offset_def)
qed

lemma offset_less:
  assumes "loaded_type (T t)" "has_attribute T t a"
  shows "offset T t a < 4"
proof -
  have "nat a < 18" "has_instance_attribute (Flags (T t)) (nat a)" using assms(2) by (auto simp: has_attribute_def nat_less_iff)
  then have "rank (Flags (T t)) (nat a) < rank (Flags (T t)) 18" by (intro rank_strict)
  then show ?thesis using assms(1) by (simp add: offset_def loaded_type_def rank_def)
qed

lemma offset_inj:
  assumes "has_attribute T t a" "has_attribute T t b" "offset T t a = offset T t b"
  shows "a = b"
proof -
  have r: "\<not> nat a < nat b" "\<not> nat b < nat a"
    using assms rank_strict [of "Flags (T t)" "nat a" "nat b"] rank_strict [of "Flags (T t)" "nat b" "nat a"]
    by (auto simp: has_attribute_def offset_def)
  moreover have "0 \<le> a" "0 \<le> b" using assms(1,2) by (simp_all add: has_attribute_def)
  ultimately show ?thesis by linarith
qed

lemma offset_CONTENT: "offset T t CONTENT = 0"
  by (simp add: offset_def rank_def)

text \<open>The attributes that belong to a flag.\<close>

lemma has_attribute_flags:
  "has_attribute T t CONTENT \<longleftrightarrow> get_flag T t CONTAINER \<or> get_flag T t CHEST"
  "has_attribute T t AMOUNT \<longleftrightarrow> get_flag T t CUMULATIVE"
  "has_attribute T t CHARGES \<longleftrightarrow> get_flag T t RUNE"
  "has_attribute T t TEXTSTRING \<longleftrightarrow> get_flag T t TEXT"
  "has_attribute T t EDITOR \<longleftrightarrow> get_flag T t TEXT"
  "has_attribute T t POOLLIQUIDTYPE \<longleftrightarrow> get_flag T t LIQUIDPOOL"
  "has_attribute T t RESPONSIBLE \<longleftrightarrow> get_flag T t MAGICFIELD"
  "has_attribute T t SAVEDEXPIRETIME \<longleftrightarrow> get_flag T t EXPIRESTOP"
  "has_attribute T t REMAININGUSES \<longleftrightarrow> get_flag T t WEAROUT"
  by (simp_all add: has_attribute_def has_instance_attribute_def get_flag_def InstanceAttributeFlags_def)

end
