(* ===== verification/Object_Store.thy ===== *)
theory Object_Store
  imports Object_Type Cron String_Table
begin

text \<open>
  The store of all objects of the world (\<open>game_data/map/map.cpp\<close>). The memory for objects is allocated once; unused
  cells are linked through their first bytes. An object number finds its cell through a hash table
  without collisions: a number is only handed out when the entry for its low bits is free. An access through
  a number that does not exist goes to the cell of \<open>NONE\<close>.

  An entry of the table is free, loaded, or swapped out to a file with the sector it belongs to. Writing sectors to
  files and reading them back is not part of this theory: \<open>unswap_sector\<close> and \<open>swap_sector\<close> are
  the fields \<open>unswap\<close> and \<open>swap\<close> of the environment. The claims are about states without swapped entries
  and with a free cell, in which neither is called.

  The outer option of a result is \<open>None\<close> where the code has no defined behaviour: \<open>abort\<close>, a failed \<open>ASSERT\<close>, an
  access outside an array, a cell that is not in use, or a loop that does not end. The texts given to
  \<open>error\<close> are collected in the state.
\<close>

section \<open>Data\<close>

record MapObject =
  ObjectID :: u32
  NextObject :: u32
  Container :: u32
  OType :: int
  Attributes :: "u32 list"

definition new_MapObject :: MapObject where
  "new_MapObject = \<lparr>ObjectID = 0, NextObject = 0, Container = 0, OType = 0, Attributes = [0, 0, 0, 0]\<rparr>"

text \<open>The memory of one object. A free cell holds the pointer to the next free one.\<close>

datatype cell = Used MapObject | Unused "addr option"

text \<open>An entry of \<open>HashTableData\<close> is a pointer or a file number, by the status in \<open>HashTableType\<close>.\<close>

datatype hash_data = Ptr addr | FileNumber nat

datatype status = STATUS_FREE | STATUS_LOADED | STATUS_SWAPPED | STATUS_PERMANENT

record objects =
  cells :: "addr \<Rightarrow> cell option"
  FirstFreeObject :: "addr option"
  HashTableData :: "hash_data list"
  HashTableType :: "status list"
  HashTableSize :: u32
  HashTableMask :: u32
  HashTableFree :: u32
  NextObjectID :: u32
  ObjectCounter :: u32
  crons :: cron
  strings :: dtable
  messages :: "string list"

record env =
  ObjectTypes :: type_table
  RoundNr :: u32
  unswap :: "nat \<Rightarrow> objects \<Rightarrow> objects option"
  swap :: "objects \<Rightarrow> objects option"

definition report :: "string \<Rightarrow> objects \<Rightarrow> objects" where
  "report text s = s\<lparr>messages := messages s @ [text]\<rparr>"

definition report_if :: "bool \<Rightarrow> string \<Rightarrow> objects \<Rightarrow> objects" where
  "report_if b text s = (if b then report text s else s)"

definition read_cell :: "addr \<Rightarrow> objects \<Rightarrow> MapObject option" where
  "read_cell p s = (case cells s p of Some (Used m) \<Rightarrow> Some m | _ \<Rightarrow> None)"

definition write_cell :: "addr \<Rightarrow> cell \<Rightarrow> objects \<Rightarrow> objects" where
  "write_cell p c s = s\<lparr>cells := (cells s)(p \<mapsto> c)\<rparr>"

section \<open>The table\<close>

definition obj_entry :: "u32 \<Rightarrow> objects \<Rightarrow> int" where
  "obj_entry ob s = uint (ob AND HashTableMask s)"

definition table_ptr :: "int \<Rightarrow> objects \<Rightarrow> addr option" where
  "table_ptr i s = do {d \<leftarrow> arr_get (HashTableData s) i; case d of Ptr p \<Rightarrow> Some p | FileNumber _ \<Rightarrow> None}"

text \<open>A swapped entry is loaded first.\<close>

definition swap_in :: "env \<Rightarrow> int \<Rightarrow> objects \<Rightarrow> objects option" where
  "swap_in E i s = do {
     t \<leftarrow> arr_get (HashTableType s) i;
     if t = STATUS_SWAPPED
     then do {d \<leftarrow> arr_get (HashTableData s) i; case d of FileNumber n \<Rightarrow> unswap E n s | Ptr _ \<Rightarrow> None}
     else Some s}"

definition is_loaded :: "u32 \<Rightarrow> objects \<Rightarrow> bool option" where
  "is_loaded ob s = do {
     t \<leftarrow> arr_get (HashTableType s) (obj_entry ob s);
     if t = STATUS_LOADED
     then do {p \<leftarrow> table_ptr (obj_entry ob s) s; m \<leftarrow> read_cell p s; Some (ObjectID m = ob)}
     else Some False}"

definition exists :: "env \<Rightarrow> u32 \<Rightarrow> objects \<Rightarrow> (bool \<times> objects) option" where
  "exists E ob s =
     (if ob = 0 then Some (False, s)
      else do {s \<leftarrow> swap_in E (obj_entry ob s) s; b \<leftarrow> is_loaded ob s; Some (b, s)})"

definition access_object :: "env \<Rightarrow> u32 \<Rightarrow> objects \<Rightarrow> (addr \<times> objects) option" where
  "access_object E ob s =
     (if ob = 0
      then do {p \<leftarrow> table_ptr 0 s; Some (p, report ''access_object: Invalid object number zero'' s)}
      else do {
        s \<leftarrow> swap_in E (obj_entry ob s) s;
        b \<leftarrow> is_loaded ob s;
        p \<leftarrow> table_ptr (if b then obj_entry ob s else 0) s;
        Some (p, s)})"

definition fetch :: "env \<Rightarrow> u32 \<Rightarrow> objects \<Rightarrow> (MapObject \<times> objects) option" where
  "fetch E ob s = do {(p, s) \<leftarrow> access_object E ob s; m \<leftarrow> read_cell p s; Some (m, s)}"

definition modify :: "env \<Rightarrow> u32 \<Rightarrow> (MapObject \<Rightarrow> MapObject) \<Rightarrow> objects \<Rightarrow> objects option" where
  "modify E ob f s = do {
     (p, s) \<leftarrow> access_object E ob s;
     m \<leftarrow> read_cell p s;
     Some (write_cell p (Used (f m)) s)}"

section \<open>Fields of an object\<close>

definition get_object_type :: "env \<Rightarrow> u32 \<Rightarrow> objects \<Rightarrow> (int \<times> objects) option" where
  "get_object_type E ob s = do {(m, s) \<leftarrow> fetch E ob s; Some (OType m, s)}"

definition set_object_type :: "env \<Rightarrow> u32 \<Rightarrow> int \<Rightarrow> objects \<Rightarrow> objects option" where
  "set_object_type E ob Type s = modify E ob (\<lambda>m. m\<lparr>OType := Type\<rparr>) s"

definition get_next_object :: "env \<Rightarrow> u32 \<Rightarrow> objects \<Rightarrow> (u32 \<times> objects) option" where
  "get_next_object E ob s = do {(m, s) \<leftarrow> fetch E ob s; Some (NextObject m, s)}"

definition set_next_object :: "env \<Rightarrow> u32 \<Rightarrow> u32 \<Rightarrow> objects \<Rightarrow> objects option" where
  "set_next_object E ob NextOb s = modify E ob (\<lambda>m. m\<lparr>NextObject := NextOb\<rparr>) s"

definition get_container :: "env \<Rightarrow> u32 \<Rightarrow> objects \<Rightarrow> (u32 \<times> objects) option" where
  "get_container E ob s = do {(m, s) \<leftarrow> fetch E ob s; Some (Container m, s)}"

definition set_container :: "env \<Rightarrow> u32 \<Rightarrow> u32 \<Rightarrow> objects \<Rightarrow> objects option" where
  "set_container E ob Con s = modify E ob (\<lambda>m. m\<lparr>Container := Con\<rparr>) s"

definition get_creature_id :: "env \<Rightarrow> u32 \<Rightarrow> objects \<Rightarrow> (u32 \<times> objects) option" where
  "get_creature_id E ob s = do {
     (t, s) \<leftarrow> get_object_type E ob s;
     if \<not> is_creature_container t then Some (0, report ''Object::get_creature_id: Object is not a creature'' s)
     else do {(m, s) \<leftarrow> fetch E ob s; v \<leftarrow> arr_get (Attributes m) 1; Some (v, s)}}"

definition get_attribute :: "env \<Rightarrow> u32 \<Rightarrow> int \<Rightarrow> objects \<Rightarrow> (u32 \<times> objects) option" where
  "get_attribute E ob Attribute s = do {
     (t, s) \<leftarrow> get_object_type E ob s;
     AttributeOffset \<leftarrow> get_attribute_offset (ObjectTypes E) t Attribute;
     if AttributeOffset = - 1 then Some (0, report ''Object::get_attribute: Flag for attribute not set'' s)
     else if AttributeOffset < 0 \<or> AttributeOffset \<ge> 4 then Some (0, report ''Object::get_attribute: Invalid offset'' s)
     else do {(m, s) \<leftarrow> fetch E ob s; v \<leftarrow> arr_get (Attributes m) AttributeOffset; Some (v, s)}}"

text \<open>An amount, a number of charges and a liquid are never 0; the uses of an object start at their full number.\<close>

definition value_to_store :: "env \<Rightarrow> int \<Rightarrow> int \<Rightarrow> u32 \<Rightarrow> objects \<Rightarrow> (u32 \<times> objects) option" where
  "value_to_store E t Attribute Value s =
     (if Value = 0
      then if Attribute = AMOUNT \<or> Attribute = POOLLIQUIDTYPE \<or> Attribute = CHARGES then Some (1, s)
           else if Attribute = REMAININGUSES
           then do {
             (v, err) \<leftarrow> get_type_attribute (ObjectTypes E) t TOTALUSES;
             Some (v, report_if err ''ObjectType::get_attribute: Type does not have flag for attribute'' s)}
           else Some (Value, s)
      else Some (Value, s))"

definition set_attribute :: "env \<Rightarrow> u32 \<Rightarrow> int \<Rightarrow> u32 \<Rightarrow> objects \<Rightarrow> objects option" where
  "set_attribute E ob Attribute Value s = do {
     (t, s) \<leftarrow> get_object_type E ob s;
     AttributeOffset \<leftarrow> get_attribute_offset (ObjectTypes E) t Attribute;
     if AttributeOffset = - 1 then Some (report ''Object::set_attribute: Flag for attribute not set'' s)
     else if AttributeOffset < 0 \<or> AttributeOffset \<ge> 4 then Some (report ''Object::set_attribute: Invalid offset'' s)
     else do {
       (Value, s) \<leftarrow> value_to_store E t Attribute Value s;
       modify E ob (\<lambda>m. m\<lparr>Attributes := (Attributes m)[nat AttributeOffset := Value]\<rparr>) s}}"

section \<open>Free cells and new objects\<close>

definition GetFreeObjectSlot :: "env \<Rightarrow> objects \<Rightarrow> (addr option \<times> objects) option" where
  "GetFreeObjectSlot E s = do {
     s \<leftarrow> (if FirstFreeObject s = None then swap E s else Some s);
     case FirstFreeObject s of
       None \<Rightarrow> Some (None, report ''GetFreeObjectSlot: No free slots remaining'' s)
     | Some p \<Rightarrow> (case cells s p of
         Some (Unused n) \<Rightarrow> Some (Some p, write_cell p (Used new_MapObject) (s\<lparr>FirstFreeObject := n\<rparr>))
       | _ \<Rightarrow> None)}"

definition PutFreeObjectSlot :: "addr \<Rightarrow> objects \<Rightarrow> objects" where
  "PutFreeObjectSlot p s = (write_cell p (Unused (FirstFreeObject s)) s)\<lparr>FirstFreeObject := Some p\<rparr>"

text \<open>The search for a number with a free entry, at most \<open>k\<close> steps.\<close>

fun find_number :: "nat \<Rightarrow> objects \<Rightarrow> objects option" where
  "find_number 0 s = Some s"
| "find_number (Suc k) s = do {
     t \<leftarrow> arr_get (HashTableType s) (obj_entry (NextObjectID s) s);
     if t = STATUS_FREE then Some s else find_number k (s\<lparr>NextObjectID := NextObjectID s + 1\<rparr>)}"

text \<open>\<open>ResizeHashTable\<close> aborts.\<close>

definition create_object :: "env \<Rightarrow> objects \<Rightarrow> (u32 \<times> objects) option" where
  "create_object E s =
     (if HashTableFree s < HashTableSize s div 16 then None
      else do {
        s \<leftarrow> find_number (unat (HashTableSize s)) s;
        t \<leftarrow> arr_get (HashTableType s) (obj_entry (NextObjectID s) s);
        if t \<noteq> STATUS_FREE then None
        else do {
          (Entry, s) \<leftarrow> GetFreeObjectSlot E s;
          case Entry of
            None \<Rightarrow> Some (0, report ''create_object: Cannot create object'' s)
          | Some p \<Rightarrow> do {
              m \<leftarrow> read_cell p s;
              s \<leftarrow> Some (write_cell p (Used (m\<lparr>ObjectID := NextObjectID s\<rparr>)) s);
              d \<leftarrow> arr_set (HashTableData s) (obj_entry (NextObjectID s) s) (Ptr p);
              ty \<leftarrow> arr_set (HashTableType s) (obj_entry (NextObjectID s) s) STATUS_LOADED;
              Some (NextObjectID s, s\<lparr>HashTableData := d, HashTableType := ty,
                HashTableFree := HashTableFree s - 1, ObjectCounter := ObjectCounter s + 1\<rparr>)}}})"

text \<open>The end of \<open>DestroyObject\<close>: the cell and the entry of the object become free.\<close>

definition free_object :: "u32 \<Rightarrow> objects \<Rightarrow> objects option" where
  "free_object ob s =
     (if ob = 0 then Some (report ''DestroyObject: Invalid object number'' s)
      else do {
        t \<leftarrow> arr_get (HashTableType s) (obj_entry ob s);
        if t \<noteq> STATUS_LOADED then Some (report ''DestroyObject: Object is not in memory'' s)
        else do {
          p \<leftarrow> table_ptr (obj_entry ob s) s;
          s \<leftarrow> Some (PutFreeObjectSlot p s);
          ty \<leftarrow> arr_set (HashTableType s) (obj_entry ob s) STATUS_FREE;
          Some (s\<lparr>HashTableType := ty, HashTableFree := HashTableFree s + 1, ObjectCounter := ObjectCounter s - 1\<rparr>)}})"

text \<open>The start: \<open>n\<close> free cells in a row, an empty table of the given size, and the cell of \<open>NONE\<close>.\<close>

definition free_cells :: "nat \<Rightarrow> addr \<Rightarrow> cell option" where
  "free_cells n p = (if p + 1 < n then Some (Unused (Some (p + 1))) else if p + 1 = n then Some (Unused None) else None)"

definition init_objects :: "env \<Rightarrow> nat \<Rightarrow> nat \<Rightarrow> hash_data \<Rightarrow> cron \<Rightarrow> dtable \<Rightarrow> objects option" where
  "init_objects E OBCount Size junk c d =
     do {
       (p, s) \<leftarrow> GetFreeObjectSlot E \<lparr>cells = free_cells (OBCount * 32768), FirstFreeObject = Some 0,
         HashTableData = replicate Size junk, HashTableType = (replicate Size STATUS_FREE)[0 := STATUS_PERMANENT],
         HashTableSize = of_nat Size, HashTableMask = of_nat Size - 1, HashTableFree = of_nat Size - 1,
         NextObjectID = 1, ObjectCounter = 0, crons = c, strings = d, messages = []\<rparr>;
       p \<leftarrow> p;
       h \<leftarrow> arr_set (HashTableData s) 0 (Ptr p);
       Some (s\<lparr>HashTableData := h\<rparr>)}"


section \<open>The invariant\<close>

definition table_ok :: "objects \<Rightarrow> bool" where
  "table_ok s \<longleftrightarrow> (\<exists>k. HashTableSize s = 2 ^ k \<and> k < 32) \<and> HashTableMask s = HashTableSize s - 1 \<and>
     length (HashTableType s) = unat (HashTableSize s) \<and> length (HashTableData s) = unat (HashTableSize s)"

text \<open>The cell behind an entry, and the entries that have one.\<close>

definition ptr_at :: "objects \<Rightarrow> int \<Rightarrow> addr" where
  "ptr_at s i = (case HashTableData s ! nat i of Ptr p \<Rightarrow> p | FileNumber n \<Rightarrow> 0)"

definition occupied :: "objects \<Rightarrow> int \<Rightarrow> bool" where
  "occupied s i \<longleftrightarrow> i = 0 \<or> (0 < i \<and> i < int (length (HashTableType s)) \<and> HashTableType s ! nat i = STATUS_LOADED)"

definition entries_ok :: "objects \<Rightarrow> bool" where
  "entries_ok s \<longleftrightarrow> HashTableType s ! 0 = STATUS_PERMANENT \<and>
     (\<forall>i. 0 < i \<and> i < int (length (HashTableType s)) \<longrightarrow> HashTableType s ! nat i \<in> {STATUS_FREE, STATUS_LOADED}) \<and>
     (\<forall>i. occupied s i \<longrightarrow> (\<exists>p m. HashTableData s ! nat i = Ptr p \<and> cells s p = Some (Used m) \<and>
        length (Attributes m) = 4 \<and> obj_entry (ObjectID m) s = i)) \<and>
     inj_on (ptr_at s) (Collect (occupied s))"

definition free_next :: "objects \<Rightarrow> addr \<Rightarrow> addr option" where
  "free_next s p = (case cells s p of Some (Unused n) \<Rightarrow> n | _ \<Rightarrow> None)"

definition free_ok :: "objects \<Rightarrow> addr list \<Rightarrow> bool" where
  "free_ok s fs \<longleftrightarrow> path (free_next s) (FirstFreeObject s) fs \<and> distinct fs \<and>
     (\<forall>p\<in>set fs. \<exists>n. cells s p = Some (Unused n))"

text \<open>\<open>fs\<close> are the free cells.\<close>

definition store_inv :: "objects \<Rightarrow> addr list \<Rightarrow> bool" where
  "store_inv s fs \<longleftrightarrow> table_ok s \<and> entries_ok s \<and> free_ok s fs \<and>
     unat (HashTableFree s) = length (filter (\<lambda>t. t = STATUS_FREE) (HashTableType s))"

text \<open>The object with a number.\<close>

definition obj :: "objects \<Rightarrow> u32 \<Rightarrow> MapObject option" where
  "obj s n = (if obj_entry n s = 0 \<or> \<not> occupied s (obj_entry n s) then None
     else case read_cell (ptr_at s (obj_entry n s)) s of
         None \<Rightarrow> None
       | Some m \<Rightarrow> if ObjectID m = n then Some m else None)"

definition put :: "objects \<Rightarrow> u32 \<Rightarrow> MapObject \<Rightarrow> objects" where
  "put s n m = write_cell (ptr_at s (obj_entry n s)) (Used m) s"

lemma obj_entry_cong [simp]:
  "obj_entry n (write_cell p c s) = obj_entry n s"
  "obj_entry n (s\<lparr>cells := x1\<rparr>) = obj_entry n s" "obj_entry n (s\<lparr>FirstFreeObject := x2\<rparr>) = obj_entry n s"
  "obj_entry n (s\<lparr>HashTableData := x3\<rparr>) = obj_entry n s" "obj_entry n (s\<lparr>HashTableType := x4\<rparr>) = obj_entry n s"
  "obj_entry n (s\<lparr>HashTableFree := x5\<rparr>) = obj_entry n s" "obj_entry n (s\<lparr>NextObjectID := x6\<rparr>) = obj_entry n s"
  "obj_entry n (s\<lparr>ObjectCounter := x7\<rparr>) = obj_entry n s" "obj_entry n (s\<lparr>messages := x8\<rparr>) = obj_entry n s"
  "obj_entry n (s\<lparr>crons := x9\<rparr>) = obj_entry n s" "obj_entry n (s\<lparr>strings := x10\<rparr>) = obj_entry n s"
  "obj_entry n (report t s) = obj_entry n s"
  by (simp_all add: obj_entry_def write_cell_def report_def)

lemma uint_pow2: "k < 32 \<Longrightarrow> uint ((2 :: u32) ^ k) = 2 ^ k"
  by transfer auto

lemma uint_and_mask: "k < 32 \<Longrightarrow> uint ((x :: u32) AND mask k) = uint x mod 2 ^ k"
  by (simp add: uint_mod uint_pow2 take_bit_eq_mod flip: take_bit_eq_mask)

lemma table_okE:
  assumes "table_ok s"
  obtains k where "HashTableMask s = mask k" "k < 32" "HashTableSize s = 2 ^ k" "length (HashTableType s) = 2 ^ k"
    "length (HashTableData s) = 2 ^ k"
proof -
  obtain k where k: "HashTableSize s = 2 ^ k" "k < 32" using assms by (auto simp: table_ok_def)
  then have "unat (HashTableSize s) = 2 ^ k" using uint_pow2 [of k] by (simp add: nat_power_eq flip: nat_uint_eq)
  then show thesis using that [of k] k assms by (simp add: table_ok_def mask_eq_exp_minus_1)
qed

lemma obj_entry_range:
  assumes "table_ok s"
  shows "0 \<le> obj_entry n s" "obj_entry n s < int (length (HashTableType s))" "obj_entry n s < int (length (HashTableData s))"
    "nat (obj_entry n s) < length (HashTableType s)" "nat (obj_entry n s) < length (HashTableData s)"
proof -
  obtain k where k: "HashTableMask s = mask k" "k < 32" "length (HashTableType s) = 2 ^ k" "length (HashTableData s) = 2 ^ k"
    using table_okE [OF assms] by metis
  then show "0 \<le> obj_entry n s" "obj_entry n s < int (length (HashTableType s))" "obj_entry n s < int (length (HashTableData s))"
    "nat (obj_entry n s) < length (HashTableType s)" "nat (obj_entry n s) < length (HashTableData s)"
    by (simp_all add: obj_entry_def uint_and_mask nat_less_iff)
qed

lemma obj_entry_0 [simp]: "obj_entry 0 s = 0"
  by (simp add: obj_entry_def)

text \<open>An occupied entry has a cell in use.\<close>

lemma occupied_cell:
  assumes "entries_ok s" "occupied s i"
  obtains m where "HashTableData s ! nat i = Ptr (ptr_at s i)" "cells s (ptr_at s i) = Some (Used m)"
    "read_cell (ptr_at s i) s = Some m" "length (Attributes m) = 4" "obj_entry (ObjectID m) s = i"
proof -
  obtain p m where "HashTableData s ! nat i = Ptr p" "cells s p = Some (Used m)" "length (Attributes m) = 4"
    "obj_entry (ObjectID m) s = i" using assms unfolding entries_ok_def by blast
  then show thesis using that [of m] by (simp add: ptr_at_def read_cell_def)
qed

lemma store_invD:
  assumes "store_inv s fs"
  shows "table_ok s" "entries_ok s" "free_ok s fs"
    "unat (HashTableFree s) = length (filter (\<lambda>t. t = STATUS_FREE) (HashTableType s))"
  using assms by (simp_all add: store_inv_def)

lemma status_at:
  assumes "store_inv s fs"
  shows "arr_get (HashTableType s) (obj_entry n s) = Some (HashTableType s ! nat (obj_entry n s))"
    "HashTableType s ! nat (obj_entry n s) \<noteq> STATUS_SWAPPED"
    "HashTableType s ! nat (obj_entry n s) = STATUS_LOADED \<longleftrightarrow> obj_entry n s \<noteq> 0 \<and> occupied s (obj_entry n s)"
proof -
  note r = obj_entry_range [OF store_invD(1) [OF assms], of n]
  show "arr_get (HashTableType s) (obj_entry n s) = Some (HashTableType s ! nat (obj_entry n s))" using r by simp
  have e: "HashTableType s ! 0 = STATUS_PERMANENT"
    "\<And>i. 0 < i \<Longrightarrow> i < int (length (HashTableType s)) \<Longrightarrow> HashTableType s ! nat i \<in> {STATUS_FREE, STATUS_LOADED}"
    using store_invD(2) [OF assms] by (auto simp: entries_ok_def)
  then show "HashTableType s ! nat (obj_entry n s) \<noteq> STATUS_SWAPPED"
    using r by (cases "obj_entry n s = 0") force+
  show "HashTableType s ! nat (obj_entry n s) = STATUS_LOADED \<longleftrightarrow> obj_entry n s \<noteq> 0 \<and> occupied s (obj_entry n s)"
    using e(1) r by (cases "obj_entry n s = 0") (auto simp: occupied_def)
qed

lemma swap_in_none: "store_inv s fs \<Longrightarrow> swap_in E (obj_entry n s) s = Some s"
  using status_at [of s fs n] by (simp add: swap_in_def)

lemma table_ptr_occupied:
  assumes "store_inv s fs" "occupied s i"
  shows "table_ptr i s = Some (ptr_at s i)"
proof -
  have "0 \<le> i \<and> i < int (length (HashTableType s))"
    using assms(2) obj_entry_range(2) [OF store_invD(1) [OF assms(1)], of 0] by (auto simp: occupied_def)
  moreover have "length (HashTableType s) = length (HashTableData s)" using store_invD(1) [OF assms(1)] by (simp add: table_ok_def)
  moreover obtain m where "HashTableData s ! nat i = Ptr (ptr_at s i)"
    using occupied_cell [OF store_invD(2) [OF assms(1)] assms(2)] by blast
  ultimately show ?thesis by (simp add: table_ptr_def)
qed

lemma is_loaded_obj:
  assumes "store_inv s fs" "n \<noteq> 0"
  shows "is_loaded n s = Some (obj s n \<noteq> None)"
proof (cases "obj_entry n s \<noteq> 0 \<and> occupied s (obj_entry n s)")
  case True
  then obtain m where "read_cell (ptr_at s (obj_entry n s)) s = Some m"
    using occupied_cell [OF store_invD(2) [OF assms(1)]] by blast
  then show ?thesis using True status_at [OF assms(1), of n] table_ptr_occupied [OF assms(1), of "obj_entry n s"] assms(2)
    by (simp add: is_loaded_def obj_def)
next
  case False
  then have "obj s n = None" by (auto simp: obj_def)
  then show ?thesis using False status_at [OF assms(1), of n] by (auto simp: is_loaded_def)
qed


lemma obj_nonzero: "obj s n = Some m \<Longrightarrow> n \<noteq> 0 \<and> obj_entry n s \<noteq> 0 \<and> occupied s (obj_entry n s)"
  by (auto simp: obj_def split: if_splits)

lemma obj_ID: "obj s n = Some m \<Longrightarrow> ObjectID m = n"
  by (auto simp: obj_def split: if_splits option.splits)

lemma obj_0 [simp]: "obj s 0 = None"
  by (simp add: obj_def)

lemma obj_cell:
  assumes "store_inv s fs" "obj s n = Some m"
  shows "read_cell (ptr_at s (obj_entry n s)) s = Some m" "length (Attributes m) = 4"
proof -
  have o: "occupied s (obj_entry n s)" using obj_nonzero [OF assms(2)] by simp
  then obtain m' where m: "read_cell (ptr_at s (obj_entry n s)) s = Some m'" "length (Attributes m') = 4"
    using occupied_cell [OF store_invD(2) [OF assms(1)]] by metis
  then have "m' = m" using assms(2) by (auto simp: obj_def split: if_splits)
  then show "read_cell (ptr_at s (obj_entry n s)) s = Some m" "length (Attributes m) = 4" using m by simp_all
qed

lemma exists_obj [simp]:
  assumes "store_inv s fs"
  shows "exists E n s = Some (obj s n \<noteq> None, s)"
  using is_loaded_obj [OF assms] swap_in_none [OF assms] by (simp add: exists_def)

lemma access_obj:
  assumes "store_inv s fs" "obj s n = Some m"
  shows "access_object E n s = Some (ptr_at s (obj_entry n s), s)"
  using is_loaded_obj [OF assms(1)] swap_in_none [OF assms(1)] table_ptr_occupied [OF assms(1)] obj_nonzero [OF assms(2)] assms(2)
  by (simp add: access_object_def)

lemma fetch_obj:
  assumes "store_inv s fs" "obj s n = Some m"
  shows "fetch E n s = Some (m, s)"
  using access_obj [OF assms] obj_cell [OF assms] by (simp add: fetch_def)

lemma modify_obj:
  assumes "store_inv s fs" "obj s n = Some m"
  shows "modify E n f s = Some (put s n (f m))"
  using access_obj [OF assms] obj_cell [OF assms] by (simp add: modify_def put_def)

text \<open>Writing an object changes that object and nothing else.\<close>

lemma put_fields [simp]:
  "FirstFreeObject (put s n m) = FirstFreeObject s" "HashTableData (put s n m) = HashTableData s"
  "HashTableType (put s n m) = HashTableType s" "HashTableSize (put s n m) = HashTableSize s"
  "HashTableMask (put s n m) = HashTableMask s" "HashTableFree (put s n m) = HashTableFree s"
  "NextObjectID (put s n m) = NextObjectID s" "ObjectCounter (put s n m) = ObjectCounter s"
  "crons (put s n m) = crons s" "strings (put s n m) = strings s" "messages (put s n m) = messages s"
  "obj_entry k (put s n m) = obj_entry k s" "ptr_at (put s n m) = ptr_at s" "occupied (put s n m) = occupied s"
  "table_ok (put s n m) = table_ok s"
  by (simp_all add: put_def write_cell_def obj_entry_def ptr_at_def occupied_def table_ok_def fun_eq_iff)

lemma cells_put: "cells (put s n m) = (cells s)(ptr_at s (obj_entry n s) \<mapsto> Used m)"
  by (simp add: put_def write_cell_def)

lemma store_inv_put:
  assumes "store_inv s fs" "obj s n = Some m" "ObjectID m' = n" "length (Attributes m') = 4"
  shows "store_inv (put s n m') fs" "obj (put s n m') = (obj s)(n \<mapsto> m')"
proof -
  let ?i = "obj_entry n s" and ?s = "put s n m'"
  let ?p = "ptr_at s ?i"
  have o: "occupied s ?i" "?i \<noteq> 0" using obj_nonzero [OF assms(2)] by auto
  have inj: "inj_on (ptr_at s) (Collect (occupied s))" using store_invD(2) [OF assms(1)] by (simp add: entries_ok_def)
  have other: "ptr_at s j \<noteq> ?p" if "occupied s j" "j \<noteq> ?i" for j using inj o(1) that by (auto dest: inj_onD)
  obtain m0 where m0: "cells s ?p = Some (Used m0)" using occupied_cell [OF store_invD(2) [OF assms(1)] o(1)] by blast
  have "entries_ok ?s" unfolding entries_ok_def
  proof (intro conjI allI impI)
    fix i assume i: "occupied ?s i"
    then obtain q where q: "HashTableData s ! nat i = Ptr (ptr_at s i)" "cells s (ptr_at s i) = Some (Used q)"
      "length (Attributes q) = 4" "obj_entry (ObjectID q) s = i"
      using occupied_cell [OF store_invD(2) [OF assms(1)], of i] by auto
    then show "\<exists>p m. HashTableData ?s ! nat i = Ptr p \<and> cells ?s p = Some (Used m) \<and> length (Attributes m) = 4
        \<and> obj_entry (ObjectID m) ?s = i"
      using assms(3,4) other [of i] i by (cases "i = ?i") (auto simp: cells_put)
  qed (use store_invD(2) [OF assms(1)] in \<open>auto simp: entries_ok_def\<close>)
  moreover have "free_ok ?s fs"
  proof -
    have f: "free_ok s fs" by (rule store_invD(3) [OF assms(1)])
    then have "?p \<notin> set fs" using m0 by (auto simp: free_ok_def)
    then show ?thesis using f m0 unfolding free_ok_def
      by (auto simp: cells_put free_next_def intro!: path_cong [of "free_next s" _ fs])
  qed
  ultimately show "store_inv ?s fs" using assms(1) by (simp add: store_inv_def)
  show "obj ?s = (obj s)(n \<mapsto> m')"
  proof
    fix k
    show "obj ?s k = ((obj s)(n \<mapsto> m')) k"
    proof (cases "obj_entry k s = ?i")
      case True
      have "obj s k = None" if "k \<noteq> n"
        using that True assms(2) by (auto simp: obj_def split: if_splits option.splits)
      then show ?thesis using True o assms(3) by (auto simp: obj_def read_cell_def cells_put)
    next
      case False
      then have "k \<noteq> n" by auto
      then show ?thesis using other [of "obj_entry k s"] False
        by (auto simp: obj_def read_cell_def cells_put)
    qed
  qed
qed


section \<open>State beside the objects\<close>

lemma store_cong:
  assumes "cells s' = cells s" "FirstFreeObject s' = FirstFreeObject s" "HashTableData s' = HashTableData s"
    "HashTableType s' = HashTableType s" "HashTableSize s' = HashTableSize s" "HashTableMask s' = HashTableMask s"
    "HashTableFree s' = HashTableFree s"
  shows "store_inv s' fs = store_inv s fs" "obj s' = obj s"
proof -
  have e: "obj_entry n s' = obj_entry n s" for n using assms(6) by (simp add: obj_entry_def)
  have f: "table_ok s' = table_ok s" "occupied s' = occupied s" "ptr_at s' = ptr_at s" "free_next s' = free_next s"
    using assms by (simp_all add: fun_eq_iff table_ok_def occupied_def ptr_at_def free_next_def)
  show "store_inv s' fs = store_inv s fs"
    by (simp only: store_inv_def entries_ok_def free_ok_def f e assms)
  show "obj s' = obj s" by (simp only: fun_eq_iff obj_def read_cell_def f e assms) simp
qed

text \<open>The number of free entries and the size of the table.\<close>

definition entries :: "objects \<Rightarrow> u32 \<times> u32" where
  "entries s = (HashTableFree s, HashTableSize s)"

lemma entries_simps [simp]:
  "entries (put s n m) = entries s" "entries (s\<lparr>crons := c\<rparr>) = entries s" "entries (s\<lparr>strings := d\<rparr>) = entries s"
  "entries (s\<lparr>messages := x\<rparr>) = entries s"
  by (simp_all add: entries_def)

lemma store_report [simp]:
  "store_inv (report t s) fs = store_inv s fs" "obj (report t s) = obj s"
  "crons (report t s) = crons s" "strings (report t s) = strings s" "NextObjectID (report t s) = NextObjectID s"
  using store_cong(1) [of "report t s" s fs] store_cong(2) [of "report t s" s] by (simp_all add: report_def)

lemma store_crons [simp]: "store_inv (s\<lparr>crons := c\<rparr>) fs = store_inv s fs" "obj (s\<lparr>crons := c\<rparr>) = obj s"
  using store_cong(1) [of "s\<lparr>crons := c\<rparr>" s fs] store_cong(2) [of "s\<lparr>crons := c\<rparr>" s] by simp_all

lemma store_messages [simp]: "store_inv (s\<lparr>messages := x\<rparr>) fs = store_inv s fs" "obj (s\<lparr>messages := x\<rparr>) = obj s"
  using store_cong(1) [of "s\<lparr>messages := x\<rparr>" s fs] store_cong(2) [of "s\<lparr>messages := x\<rparr>" s] by simp_all

lemma self_messages: "\<exists>x. s = s\<lparr>messages := x\<rparr>"
  by (rule exI [of _ "messages s"]) simp

lemma report_messages: "report t s = s\<lparr>messages := messages s @ [t]\<rparr>" "\<exists>x. report_if b t s = s\<lparr>messages := x\<rparr>"
proof -
  show "report t s = s\<lparr>messages := messages s @ [t]\<rparr>" by (simp add: report_def)
  show "\<exists>x. report_if b t s = s\<lparr>messages := x\<rparr>"
    using self_messages [of s] by (cases b) (auto simp: report_if_def report_def)
qed

lemma store_strings [simp]: "store_inv (s\<lparr>strings := d\<rparr>) fs = store_inv s fs" "obj (s\<lparr>strings := d\<rparr>) = obj s"
  using store_cong(1) [of "s\<lparr>strings := d\<rparr>" s fs] store_cong(2) [of "s\<lparr>strings := d\<rparr>" s] by simp_all

section \<open>Fields and attributes of an existing object\<close>

definition loaded_types :: "env \<Rightarrow> bool" where
  "loaded_types E \<longleftrightarrow> (\<forall>t. loaded_type (ObjectTypes E t))"

definition attr :: "env \<Rightarrow> MapObject \<Rightarrow> int \<Rightarrow> u32" where
  "attr E m a = Attributes m ! offset (ObjectTypes E) (OType m) a"

definition with_attr :: "env \<Rightarrow> MapObject \<Rightarrow> int \<Rightarrow> u32 \<Rightarrow> MapObject" where
  "with_attr E m a v = m\<lparr>Attributes := (Attributes m)[offset (ObjectTypes E) (OType m) a := v]\<rparr>"

text \<open>The value that \<open>set_attribute\<close> stores.\<close>

definition stored :: "env \<Rightarrow> int \<Rightarrow> int \<Rightarrow> u32 \<Rightarrow> u32" where
  "stored E t a v = (if v \<noteq> 0 then v
     else if a = AMOUNT \<or> a = POOLLIQUIDTYPE \<or> a = CHARGES then 1
     else if a = REMAININGUSES then TAttributes (ObjectTypes E t) ! 32 else 0)"

abbreviation has :: "env \<Rightarrow> MapObject \<Rightarrow> int \<Rightarrow> bool" where
  "has E m a \<equiv> has_attribute (ObjectTypes E) (OType m) a"

abbreviation flag :: "env \<Rightarrow> MapObject \<Rightarrow> int \<Rightarrow> bool" where
  "flag E m f \<equiv> get_flag (ObjectTypes E) (OType m) f"

lemma with_attr_fields [simp]:
  "ObjectID (with_attr E m a v) = ObjectID m" "NextObject (with_attr E m a v) = NextObject m"
  "Container (with_attr E m a v) = Container m" "OType (with_attr E m a v) = OType m"
  "length (Attributes (with_attr E m a v)) = length (Attributes m)"
  by (simp_all add: with_attr_def)

lemma attr_with_attr:
  assumes "loaded_types E" "has E m a" "has E m b" "length (Attributes m) = 4"
  shows "attr E (with_attr E m a v) b = (if a = b then v else attr E m b)"
proof -
  have "offset (ObjectTypes E) (OType m) b < 4" using assms(1,3) by (simp add: loaded_types_def offset_less)
  moreover have "offset (ObjectTypes E) (OType m) a \<noteq> offset (ObjectTypes E) (OType m) b" if "a \<noteq> b"
    using offset_inj [of "ObjectTypes E" "OType m" a b] assms(2,3) that by blast
  ultimately show ?thesis using assms(4) by (simp add: attr_def with_attr_def)
qed

lemma attr_fields [simp]:
  "attr E (m\<lparr>NextObject := n\<rparr>) a = attr E m a" "attr E (m\<lparr>Container := n\<rparr>) a = attr E m a" "attr E (m\<lparr>ObjectID := n\<rparr>) a = attr E m a"
  by (simp_all add: attr_def)

lemma get_object_type_obj:
  "store_inv s fs \<Longrightarrow> obj s n = Some m \<Longrightarrow> get_object_type E n s = Some (OType m, s)"
  by (simp add: get_object_type_def fetch_obj)

lemma get_next_obj:
  "store_inv s fs \<Longrightarrow> obj s n = Some m \<Longrightarrow> get_next_object E n s = Some (NextObject m, s)"
  by (simp add: get_next_object_def fetch_obj)

lemma get_container_obj:
  "store_inv s fs \<Longrightarrow> obj s n = Some m \<Longrightarrow> get_container E n s = Some (Container m, s)"
  by (simp add: get_container_def fetch_obj)

lemma set_fields_obj:
  assumes "store_inv s fs" "obj s n = Some m"
  shows "set_object_type E n t s = Some (put s n (m\<lparr>OType := t\<rparr>))"
    "set_next_object E n k s = Some (put s n (m\<lparr>NextObject := k\<rparr>))"
    "set_container E n k s = Some (put s n (m\<lparr>Container := k\<rparr>))"
  using modify_obj [OF assms] by (simp_all add: set_object_type_def set_next_object_def set_container_def)

lemma get_attribute_obj:
  assumes "loaded_types E" "store_inv s fs" "obj s n = Some m" "has E m a"
  shows "get_attribute E n a s = Some (attr E m a, s)"
proof -
  have l: "loaded_type (ObjectTypes E (OType m))" using assms(1) by (simp add: loaded_types_def)
  have "0 \<le> a" "a < 18" using assms(4) by (simp_all add: has_attribute_def)
  then have "get_attribute_offset (ObjectTypes E) (OType m) a = Some (int (offset (ObjectTypes E) (OType m) a))"
    using get_attribute_offset_loaded [of "ObjectTypes E", OF l] assms(4) by simp
  then show ?thesis using offset_less [of "ObjectTypes E", OF l assms(4)] obj_cell(2) [OF assms(2,3)]
      get_object_type_obj [OF assms(2,3)] fetch_obj [OF assms(2,3)]
    by (simp add: get_attribute_def attr_def)
qed

lemma set_attribute_obj:
  assumes "loaded_types E" "store_inv s fs" "obj s n = Some m" "has E m a"
  shows "set_attribute E n a v s = Some (put s n (with_attr E m a (stored E (OType m) a v)))"
proof -
  have l: "loaded_type (ObjectTypes E (OType m))" using assms(1) by (simp add: loaded_types_def)
  have "0 \<le> a" "a < 18" using assms(4) by (simp_all add: has_attribute_def)
  then have o: "get_attribute_offset (ObjectTypes E) (OType m) a = Some (int (offset (ObjectTypes E) (OType m) a))"
    using get_attribute_offset_loaded [of "ObjectTypes E", OF l] assms(4) by simp
  have t: "get_type_attribute (ObjectTypes E) (OType m) TOTALUSES = Some (TAttributes (ObjectTypes E (OType m)) ! 32, False)"
    if "a = REMAININGUSES"
  proof -
    have "flag E m WEAROUT" using assms(4) that has_attribute_flags(9) by simp
    moreover have "arr_get TypeAttributeFlags TOTALUSES = Some WEAROUT" by (simp add: TypeAttributeFlags_def)
    ultimately show ?thesis using l by (simp add: get_type_attribute_def loaded_type_def)
  qed
  have "value_to_store E (OType m) a v s = Some (stored E (OType m) a v, s)"
    using t by (auto simp: stored_def report_if_def value_to_store_def)
  then show ?thesis using offset_less [of "ObjectTypes E", OF l assms(4)] modify_obj [OF assms(2,3)]
    by (simp add: set_attribute_def get_object_type_obj [OF assms(2,3)] o with_attr_def)
qed


section \<open>Creating and freeing\<close>

lemma filter_update:
  assumes "i < length xs"
  shows "P (xs ! i) \<Longrightarrow> \<not> P x \<Longrightarrow> Suc (length (filter P (xs[i := x]))) = length (filter P xs)"
    "\<not> P (xs ! i) \<Longrightarrow> P x \<Longrightarrow> length (filter P (xs[i := x])) = Suc (length (filter P xs))"
proof -
  have xs: "xs = take i xs @ xs ! i # drop (Suc i) xs" by (rule id_take_nth_drop [OF assms])
  have "length (filter P xs) = length (filter P (take i xs @ xs ! i # drop (Suc i) xs))" using xs by simp
  then show "P (xs ! i) \<Longrightarrow> \<not> P x \<Longrightarrow> Suc (length (filter P (xs[i := x]))) = length (filter P xs)"
    "\<not> P (xs ! i) \<Longrightarrow> P x \<Longrightarrow> length (filter P (xs[i := x])) = Suc (length (filter P xs))"
    using upd_conv_take_nth_drop [OF assms, of x] by simp_all
qed

text \<open>The entries of consecutive numbers run through the whole table.\<close>

lemma entry_of_successor:
  assumes "table_ok s"
  shows "obj_entry (n + of_nat j) s = (uint n + int j) mod int (length (HashTableType s))"
proof -
  obtain k where k: "HashTableMask s = mask k" "k < 32" "length (HashTableType s) = 2 ^ k" using table_okE [OF assms] by metis
  have "(2 :: int) ^ k dvd 2 ^ 32" using k(2) by (intro le_imp_power_dvd) simp
  then have m: "x mod 2 ^ 32 mod 2 ^ k = x mod 2 ^ k" for x :: int by (rule mod_mod_cancel)
  have "uint (of_nat j :: u32) = int j mod 2 ^ 32" by (simp add: unsigned_of_nat take_bit_eq_mod zmod_int)
  then have j: "uint (of_nat j :: u32) mod 2 ^ k = int j mod 2 ^ k" using m by simp
  have "uint (n + of_nat j) mod 2 ^ k = (uint n + uint (of_nat j :: u32)) mod 2 ^ k"
    using m [of "uint n + uint (of_nat j :: u32)"] by (simp add: uint_word_ariths)
  also have "\<dots> = (uint n + int j) mod 2 ^ k" using j by (metis mod_add_right_eq)
  finally show ?thesis using k by (simp add: obj_entry_def uint_and_mask)
qed

lemma find_number_steps:
  assumes "table_ok s" "d < k" "HashTableType s ! nat (obj_entry (NextObjectID s + of_nat d) s) = STATUS_FREE"
    "\<forall>j<d. HashTableType s ! nat (obj_entry (NextObjectID s + of_nat j) s) \<noteq> STATUS_FREE"
  shows "find_number k s = Some (s\<lparr>NextObjectID := NextObjectID s + of_nat d\<rparr>)"
  using assms
proof (induction k arbitrary: s d)
  case (Suc k)
  note g = obj_entry_range [OF Suc.prems(1), of "NextObjectID s"]
  show ?case
  proof (cases d)
    case 0
    then show ?thesis using Suc.prems g by simp
  next
    case (Suc d')
    let ?s = "s\<lparr>NextObjectID := NextObjectID s + 1\<rparr>"
    have ne: "HashTableType s ! nat (obj_entry (NextObjectID s) s) \<noteq> STATUS_FREE" using Suc.prems(4) Suc by force
    have "find_number k ?s = Some (?s\<lparr>NextObjectID := NextObjectID ?s + of_nat d'\<rparr>)"
    proof (rule Suc.IH)
      show "table_ok ?s" using Suc.prems(1) by (simp add: table_ok_def)
      show "\<forall>j<d'. HashTableType ?s ! nat (obj_entry (NextObjectID ?s + of_nat j) ?s) \<noteq> STATUS_FREE"
      proof (intro allI impI)
        fix j assume "j < d'"
        then show "HashTableType ?s ! nat (obj_entry (NextObjectID ?s + of_nat j) ?s) \<noteq> STATUS_FREE"
          using Suc.prems(4) [rule_format, of "Suc j"] Suc by (simp add: add.assoc)
      qed
    qed (use Suc Suc.prems(2,3) in \<open>simp_all add: add.assoc\<close>)
    then show ?thesis using Suc ne g by (simp add: add.assoc)
  qed
qed simp

lemma find_number_ok:
  assumes "store_inv s fs" "0 < HashTableFree s"
  shows "\<exists>n. find_number (unat (HashTableSize s)) s = Some (s\<lparr>NextObjectID := n\<rparr>)
    \<and> HashTableType s ! nat (obj_entry n s) = STATUS_FREE"
proof -
  note t = store_invD(1) [OF assms(1)]
  let ?len = "length (HashTableType s)" and ?N = "NextObjectID s"
  let ?P = "\<lambda>j. HashTableType s ! nat (obj_entry (?N + of_nat j) s) = STATUS_FREE"
  have "filter (\<lambda>t. t = STATUS_FREE) (HashTableType s) \<noteq> []"
    using store_invD(4) [OF assms(1)] assms(2) by (auto simp: word_less_nat_alt)
  then obtain i where i: "i < ?len" "HashTableType s ! i = STATUS_FREE"
    by (auto simp: filter_empty_conv in_set_conv_nth)
  have L: "0 < int ?len" using i(1) by linarith
  define j where "j = nat ((int i - uint ?N) mod int ?len)"
  have j: "int j = (int i - uint ?N) mod int ?len" "j < ?len"
    using pos_mod_sign [OF L, of "int i - uint ?N"] pos_mod_bound [OF L, of "int i - uint ?N"] by (auto simp: j_def nat_less_iff)
  have "(uint ?N + int j) mod int ?len = int i" using i unfolding j(1) by (simp add: mod_add_right_eq)
  then have "?P j" using i by (simp add: entry_of_successor [OF t])
  define d where "d = (LEAST j. ?P j)"
  have d: "?P d" "d \<le> j" "\<forall>j<d. \<not> ?P j" unfolding d_def
    using \<open>?P j\<close> by (auto intro: LeastI Least_le dest: not_less_Least)
  have "find_number (unat (HashTableSize s)) s = Some (s\<lparr>NextObjectID := ?N + of_nat d\<rparr>)"
    using d j(2) t by (intro find_number_steps) (auto simp: table_ok_def)
  then show ?thesis using d(1) by blast
qed


lemma status_update:
  assumes "entries_ok s" "x \<in> {STATUS_FREE, STATUS_LOADED}" "0 < j" "j < int (length (HashTableType s))"
  shows "(HashTableType s)[k := x] ! nat j \<in> {STATUS_FREE, STATUS_LOADED}"
proof -
  have "nat j < length (HashTableType s)" using assms(3,4) by (simp add: nat_less_iff)
  then show ?thesis using assms by (cases "k = nat j") (simp_all add: entries_ok_def)
qed

lemma create_object_ok:
  assumes "store_inv s (p # fs)" "HashTableSize s div 16 \<le> HashTableFree s" "0 < HashTableFree s"
  shows "\<exists>n s'. create_object E s = Some (n, s') \<and> store_inv s' fs \<and> obj s n = None \<and> n \<noteq> 0
    \<and> obj s' = (obj s)(n \<mapsto> new_MapObject\<lparr>ObjectID := n\<rparr>)
    \<and> crons s' = crons s \<and> strings s' = strings s \<and> messages s' = messages s
    \<and> entries s' = (HashTableFree s - 1, HashTableSize s)"
proof -
  note inv = store_invD [OF assms(1)]
  obtain n where n: "find_number (unat (HashTableSize s)) s = Some (s\<lparr>NextObjectID := n\<rparr>)"
    "HashTableType s ! nat (obj_entry n s) = STATUS_FREE" using find_number_ok [OF assms(1,3)] by blast
  let ?i = "obj_entry n s" and ?m = "new_MapObject\<lparr>ObjectID := n\<rparr>"
  note r = obj_entry_range [OF inv(1), of n]
  have i0: "?i \<noteq> 0" using n(2) inv(2) by (auto simp: entries_ok_def)
  obtain q where q: "FirstFreeObject s = Some p" "cells s p = Some (Unused q)" "free_next s p = q"
    "path (free_next s) q fs" "p \<notin> set fs" "distinct fs" "\<forall>x\<in>set fs. \<exists>n. cells s x = Some (Unused n)"
    using inv(3) by (auto simp: free_ok_def free_next_def)
  define s' where "s' = s\<lparr>NextObjectID := n, FirstFreeObject := q, cells := (cells s)(p \<mapsto> Used ?m),
    HashTableData := (HashTableData s)[nat ?i := Ptr p], HashTableType := (HashTableType s)[nat ?i := STATUS_LOADED],
    HashTableFree := HashTableFree s - 1, ObjectCounter := ObjectCounter s + 1\<rparr>"
  have f: "cells s' = (cells s)(p \<mapsto> Used ?m)" "FirstFreeObject s' = q"
    "HashTableData s' = (HashTableData s)[nat ?i := Ptr p]" "HashTableType s' = (HashTableType s)[nat ?i := STATUS_LOADED]"
    "HashTableFree s' = HashTableFree s - 1" "HashTableSize s' = HashTableSize s" "HashTableMask s' = HashTableMask s"
    "messages s' = messages s" "crons s' = crons s" "strings s' = strings s"
    by (simp_all add: s'_def)
  have e [simp]: "obj_entry k s' = obj_entry k s" for k by (simp add: obj_entry_def f)
  have create: "create_object E s = Some (n, s')"
    using assms(2) n q(1,2) r by (simp add: create_object_def GetFreeObjectSlot_def write_cell_def read_cell_def s'_def not_less)
  have occ: "occupied s' j \<longleftrightarrow> occupied s j \<or> j = ?i" for j
    using i0 r by (auto simp: occupied_def f nth_list_update eq_nat_nat_iff)
  have no: "\<not> occupied s ?i" using n(2) i0 by (simp add: occupied_def)
  have ptr: "ptr_at s' j = (if j = ?i then p else ptr_at s j)" if "occupied s' j" for j
    using that r by (auto simp: ptr_at_def f occ occupied_def nth_list_update eq_nat_nat_iff)
  have np: "ptr_at s j \<noteq> p" if "occupied s j" for j using occupied_cell [OF inv(2) that] q(2) by (metis cell.distinct(1) option.inject)
  have "entries_ok s'" unfolding entries_ok_def
  proof (intro conjI allI impI)
    show "HashTableType s' ! 0 = STATUS_PERMANENT" using inv(2) i0 r by (simp add: f entries_ok_def)
    show "HashTableType s' ! nat j \<in> {STATUS_FREE, STATUS_LOADED}" if "0 < j \<and> j < int (length (HashTableType s'))" for j
      using status_update [OF inv(2)] that by (simp add: f)
    show "inj_on (ptr_at s') (Collect (occupied s'))"
      using inv(2) ptr np occ by (auto simp: entries_ok_def inj_on_def)
    fix j assume j: "occupied s' j"
    show "\<exists>p m. HashTableData s' ! nat j = Ptr p \<and> cells s' p = Some (Used m) \<and> length (Attributes m) = 4
        \<and> obj_entry (ObjectID m) s' = j"
    proof (cases "j = ?i")
      case True
      then show ?thesis using r by (auto simp: f new_MapObject_def)
    next
      case False
      then have o: "occupied s j" using j occ by blast
      have "nat j \<noteq> nat ?i" using o False r by (auto simp: occupied_def eq_nat_nat_iff)
      moreover obtain q where "HashTableData s ! nat j = Ptr (ptr_at s j)" "cells s (ptr_at s j) = Some (Used q)"
        "length (Attributes q) = 4" "obj_entry (ObjectID q) s = j" using occupied_cell [OF inv(2) o] by metis
      ultimately show ?thesis using np [OF o] by (intro exI [of _ "ptr_at s j"] exI [of _ q]) (simp add: f)
    qed
  qed
  moreover have "free_ok s' fs"
    unfolding free_ok_def f using q by (auto simp: free_next_def f intro!: path_cong [of "free_next s" q fs])
  moreover have "unat (HashTableFree s - 1) = unat (HashTableFree s) - 1" using assms(3) by (simp add: unat_minus_one word_neq_0_conv)
  then have "unat (HashTableFree s') = length (filter (\<lambda>t. t = STATUS_FREE) (HashTableType s'))"
    using filter_update(1) [OF r(4), of "\<lambda>t. t = STATUS_FREE" STATUS_LOADED] n(2) inv(4) by (simp add: f)
  moreover have "table_ok s'" using inv(1) by (simp add: table_ok_def f)
  ultimately have "store_inv s' fs" by (simp add: store_inv_def)
  moreover have "obj s' = (obj s)(n \<mapsto> ?m)"
  proof
    fix k
    show "obj s' k = ((obj s)(n \<mapsto> ?m)) k"
    proof (cases "obj_entry k s = ?i")
      case True
      then have "obj s k = None" using no by (simp add: obj_def)
      then show ?thesis using True occ ptr [of ?i] i0 by (auto simp: obj_def read_cell_def f)
    next
      case False
      then show ?thesis using occ ptr [of "obj_entry k s"] np [of "obj_entry k s"] by (auto simp: obj_def read_cell_def f)
    qed
  qed
  moreover have "obj s n = None" using no by (simp add: obj_def)
  moreover have "n \<noteq> 0" using i0 by auto
  ultimately show ?thesis using create f by (auto simp: entries_def)
qed

lemma free_object_ok:
  assumes "store_inv s fs" "obj s n = Some m"
  shows "\<exists>p s'. free_object n s = Some s' \<and> store_inv s' (p # fs) \<and> obj s' = (obj s)(n := None)
    \<and> crons s' = crons s \<and> strings s' = strings s \<and> messages s' = messages s"
proof -
  note inv = store_invD [OF assms(1)]
  let ?i = "obj_entry n s" let ?p = "ptr_at s ?i"
  note r = obj_entry_range [OF inv(1), of n]
  have o: "occupied s ?i" "?i \<noteq> 0" "n \<noteq> 0" using obj_nonzero [OF assms(2)] by auto
  have st: "HashTableType s ! nat ?i = STATUS_LOADED" using o by (simp add: occupied_def)
  obtain m0 where m0: "cells s ?p = Some (Used m0)" using occupied_cell [OF inv(2) o(1)] by blast
  define s' where "s' = s\<lparr>cells := (cells s)(?p \<mapsto> Unused (FirstFreeObject s)), FirstFreeObject := Some ?p,
    HashTableType := (HashTableType s)[nat ?i := STATUS_FREE], HashTableFree := HashTableFree s + 1, ObjectCounter := ObjectCounter s - 1\<rparr>"
  have f: "cells s' = (cells s)(?p \<mapsto> Unused (FirstFreeObject s))" "FirstFreeObject s' = Some ?p"
    "HashTableData s' = HashTableData s" "HashTableType s' = (HashTableType s)[nat ?i := STATUS_FREE]"
    "HashTableFree s' = HashTableFree s + 1" "HashTableSize s' = HashTableSize s" "HashTableMask s' = HashTableMask s"
    "messages s' = messages s" "crons s' = crons s" "strings s' = strings s" by (simp_all add: s'_def)
  have e [simp]: "obj_entry k s' = obj_entry k s" "ptr_at s' = ptr_at s" for k by (simp_all add: obj_entry_def ptr_at_def fun_eq_iff f)
  have free: "free_object n s = Some s'"
    using o(3) status_at(1) [OF assms(1), of n] st table_ptr_occupied [OF assms(1) o(1)] r
    by (simp add: free_object_def PutFreeObjectSlot_def write_cell_def s'_def)
  have occ: "occupied s' j \<longleftrightarrow> occupied s j \<and> j \<noteq> ?i" for j
    using o r by (auto simp: occupied_def f nth_list_update eq_nat_nat_iff)
  have other: "ptr_at s j \<noteq> ?p" if "occupied s j" "j \<noteq> ?i" for j
    using inv(2) o(1) that by (auto simp: entries_ok_def dest: inj_onD)
  have "entries_ok s'" unfolding entries_ok_def
  proof (intro conjI allI impI)
    show "HashTableType s' ! 0 = STATUS_PERMANENT" using inv(2) o(2) r by (simp add: f entries_ok_def)
    show "HashTableType s' ! nat j \<in> {STATUS_FREE, STATUS_LOADED}" if "0 < j \<and> j < int (length (HashTableType s'))" for j
      using status_update [OF inv(2)] that by (simp add: f)
    show "inj_on (ptr_at s') (Collect (occupied s'))" using inv(2) occ by (auto simp: entries_ok_def inj_on_def)
    fix j assume "occupied s' j"
    then have j: "occupied s j" "j \<noteq> ?i" using occ by blast+
    obtain q where "HashTableData s ! nat j = Ptr (ptr_at s j)" "cells s (ptr_at s j) = Some (Used q)"
      "length (Attributes q) = 4" "obj_entry (ObjectID q) s = j" using occupied_cell [OF inv(2) j(1)] by metis
    then show "\<exists>p m. HashTableData s' ! nat j = Ptr p \<and> cells s' p = Some (Used m) \<and> length (Attributes m) = 4
        \<and> obj_entry (ObjectID m) s' = j"
      using other [OF j] by (intro exI [of _ "ptr_at s j"] exI [of _ q]) (simp add: f)
  qed
  moreover have "free_ok s' (?p # fs)"
  proof -
    have "?p \<notin> set fs" using inv(3) m0 by (auto simp: free_ok_def)
    then show ?thesis using inv(3) unfolding free_ok_def f
      by (auto simp: free_next_def f intro!: path_cong [of "free_next s" _ fs])
  qed
  moreover have "unat (HashTableFree s') = length (filter (\<lambda>t. t = STATUS_FREE) (HashTableType s'))"
  proof -
    have "length (filter (\<lambda>t. t = STATUS_FREE) (HashTableType s')) \<le> length (HashTableType s')" by (rule length_filter_le)
    also have "\<dots> < 2 ^ 32" using inv(1) unsigned_less [of "HashTableSize s"] by (simp add: f table_ok_def)
    finally have "Suc (unat (HashTableFree s)) < 2 ^ 32"
      using filter_update(2) [OF r(4), of "\<lambda>t. t = STATUS_FREE" STATUS_FREE] st inv(4) by (simp add: f)
    then show ?thesis using filter_update(2) [OF r(4), of "\<lambda>t. t = STATUS_FREE" STATUS_FREE] st inv(4)
      by (simp add: f unat_word_ariths)
  qed
  moreover have "table_ok s'" using inv(1) by (simp add: table_ok_def f)
  ultimately have "store_inv s' (?p # fs)" by (simp add: store_inv_def)
  moreover have "obj s' = (obj s)(n := None)"
  proof
    fix k
    show "obj s' k = ((obj s)(n := None)) k"
    proof (cases "obj_entry k s = ?i")
      case True
      have "obj s k = None" if "k \<noteq> n" using that True assms(2) by (auto simp: obj_def split: if_splits option.splits)
      then show ?thesis using True occ by (auto simp: obj_def)
    next
      case False
      then show ?thesis using occ other [of "obj_entry k s"] by (auto simp: obj_def read_cell_def f)
    qed
  qed
  ultimately show ?thesis using free f by blast
qed


text \<open>The store at the start.\<close>

lemma row_path:
  assumes "\<And>q. q < n \<Longrightarrow> nx q = (if q + 1 < n then Some (q + 1) else None)" "p < n"
  shows "path nx (Some p) [p..<n]"
  using assms(2)
proof (induction "n - p" arbitrary: p)
  case (Suc m)
  then have "[p..<n] = p # [Suc p..<n]" by (intro upt_conv_Cons) simp
  then show ?case using Suc assms(1) [of p] by (cases "Suc p < n") auto
qed simp

lemma init_objects_ok:
  assumes "0 < OBCount" "k < 32"
  shows "\<exists>s fs. init_objects E OBCount (2 ^ k) junk c d = Some s \<and> store_inv s fs \<and> length fs = OBCount * 32768 - 1
    \<and> obj s = (\<lambda>_. None) \<and> HashTableFree s = 2 ^ k - 1 \<and> HashTableSize s = 2 ^ k \<and> crons s = c \<and> strings s = d \<and> messages s = []"
proof -
  let ?n = "OBCount * 32768"
  define s where "s = \<lparr>cells = (free_cells ?n)(0 \<mapsto> Used new_MapObject), FirstFreeObject = Some 1,
         HashTableData = (replicate (2 ^ k) junk)[0 := Ptr 0], HashTableType = (replicate (2 ^ k) STATUS_FREE)[0 := STATUS_PERMANENT],
         HashTableSize = of_nat (2 ^ k), HashTableMask = of_nat (2 ^ k) - 1, HashTableFree = of_nat (2 ^ k) - 1,
         NextObjectID = 1, ObjectCounter = 0, crons = c, strings = d, messages = []\<rparr>"
  have n: "2 \<le> ?n" using assms(1) by simp
  have init: "init_objects E OBCount (2 ^ k) junk c d = Some s"
    using n by (simp add: init_objects_def GetFreeObjectSlot_def write_cell_def free_cells_def s_def)
  have u: "unat (2 ^ k :: u32) = 2 ^ k" using uint_pow2 [OF assms(2)] by (simp add: nat_power_eq flip: nat_uint_eq)
  have t: "table_ok s" using assms(2) u by (auto simp: table_ok_def s_def)
  have occ: "occupied s i \<longleftrightarrow> i = 0" for i by (auto simp: occupied_def s_def nth_list_update nat_less_iff)
  have "inj_on (ptr_at s) (Collect (occupied s))" by (simp add: inj_on_def occ)
  then have "entries_ok s" unfolding entries_ok_def occ
    by (auto simp: s_def nth_list_update nat_less_iff new_MapObject_def obj_entry_def)
  moreover have "free_ok s [1..<?n]"
  proof -
    have "path (\<lambda>q. case free_cells ?n q of Some (Unused k) \<Rightarrow> k | _ \<Rightarrow> None) (Some 1) [1..<?n]"
      using n by (intro row_path) (auto simp: free_cells_def)
    then have "path (free_next s) (Some 1) [1..<?n]"
      by (rule path_cong) (auto simp: free_next_def s_def)
    then show ?thesis by (auto simp: free_ok_def s_def free_cells_def)
  qed
  moreover have "unat (HashTableFree s) = length (filter (\<lambda>t. t = STATUS_FREE) (HashTableType s))"
  proof -
    have "Suc (length (filter (\<lambda>t. t = STATUS_FREE) (HashTableType s))) = 2 ^ k"
      using filter_update(1) [of 0 "replicate (2 ^ k) STATUS_FREE" "\<lambda>t. t = STATUS_FREE" STATUS_PERMANENT] by (simp add: s_def)
    moreover have "(2 ^ k :: u32) \<noteq> 0" using u by (metis power_not_zero unat_0 zero_neq_numeral)
    then have "unat (2 ^ k - 1 :: u32) = 2 ^ k - 1" using u by (simp add: unat_minus_one)
    ultimately show ?thesis by (simp add: s_def)
  qed
  ultimately have "store_inv s [1..<?n]" using t by (simp add: store_inv_def)
  moreover have "obj s = (\<lambda>_. None)" using occ by (simp add: fun_eq_iff obj_def)
  ultimately show ?thesis using init by (intro exI [of _ s] exI [of _ "[1..<?n]"]) (simp add: s_def)
qed

end
