(* ===== verification/Object_Tree.thy ===== *)
theory Object_Tree
  imports Object_Store
begin

text \<open>
  Containers (\<open>game_data/map/map.cpp\<close>): an object in a container is linked to the next one in it; the attribute
  \<open>CONTENT\<close> of the container has the first. A field of the map is a container too, whose objects are
  ordered by priority. On top of these: creating objects inside containers, moving, copying,
  splitting, merging and destroying them.
\<close>

section \<open>Operations\<close>

definition get_first_container_object :: "env \<Rightarrow> u32 \<Rightarrow> objects \<Rightarrow> (u32 \<times> objects) option" where
  "get_first_container_object E Con s =
     (if Con = 0 then Some (0, report ''get_first_container_object: Provided container does not exist'' s)
      else do {
        (t, s) \<leftarrow> get_object_type E Con s;
        if \<not> get_flag (ObjectTypes E) t CONTAINER \<and> \<not> get_flag (ObjectTypes E) t CHEST
        then Some (0, report ''get_first_container_object: Con is not a container'' s)
        else get_attribute E Con CONTENT s})"

definition get_object_priority :: "env \<Rightarrow> u32 \<Rightarrow> objects \<Rightarrow> (int \<times> objects) option" where
  "get_object_priority E ob s = do {
     (e, s) \<leftarrow> exists E ob s;
     if \<not> e then Some (- 1, report ''get_object_priority: Provided object does not exist'' s)
     else do {
       (t, s) \<leftarrow> get_object_type E ob s;
       Some (if get_flag (ObjectTypes E) t BANK then 0
             else if get_flag (ObjectTypes E) t CLIP then 1
             else if get_flag (ObjectTypes E) t BOTTOM then 2
             else if get_flag (ObjectTypes E) t TOP then 3
             else if is_creature_container t then 4
             else 5, s)}}"

text \<open>
  The loops of \<open>place_object\<close>. The message about two objects of the same kind on one field
  is recorded without its arguments, which come from \<open>get_object_coordinates\<close>.
\<close>

partial_function (option) place_map_loop :: "env \<Rightarrow> int \<Rightarrow> bool \<Rightarrow> u32 \<Rightarrow> u32 \<Rightarrow> objects \<Rightarrow> (u32 \<times> u32 \<times> objects) option" where
  "place_map_loop E ObjPriority Append Prev Cur s =
     (if Cur = 0 then Some (Prev, Cur, s)
      else Option.bind (get_object_priority E Cur s) (\<lambda>(CurPriority, s).
        let s = report_if (CurPriority = ObjPriority \<and> (ObjPriority = 0 \<or> ObjPriority = 2 \<or> ObjPriority = 3))
                  ''place_object: Two objects on field'' s
        in if (Append \<and> CurPriority > ObjPriority) \<or> (\<not> Append \<and> CurPriority \<ge> ObjPriority) then Some (Prev, Cur, s)
           else Option.bind (get_next_object E Cur s) (\<lambda>(n, s). place_map_loop E ObjPriority Append Cur n s)))"

partial_function (option) place_end_loop :: "env \<Rightarrow> u32 \<Rightarrow> u32 \<Rightarrow> objects \<Rightarrow> (u32 \<times> u32 \<times> objects) option" where
  "place_end_loop E Prev Cur s =
     (if Cur = 0 then Some (Prev, Cur, s)
      else Option.bind (get_next_object E Cur s) (\<lambda>(n, s). place_end_loop E Cur n s))"

declare place_map_loop.simps [code] place_end_loop.simps [code]

definition place_object :: "env \<Rightarrow> u32 \<Rightarrow> u32 \<Rightarrow> bool \<Rightarrow> objects \<Rightarrow> objects option" where
  "place_object E ob Con Append s = do {
     (e1, s) \<leftarrow> exists E ob s;
     if \<not> e1 then Some (report ''place_object: Provided object does not exist'' s)
     else do {
       (e2, s) \<leftarrow> exists E Con s;
       if \<not> e2 then Some (report ''place_object: Provided container does not exist'' s)
       else do {
         (ConType, s) \<leftarrow> get_object_type E Con s;
         if \<not> get_flag (ObjectTypes E) ConType CONTAINER \<and> \<not> get_flag (ObjectTypes E) ConType CHEST
         then Some (report ''place_object: Con is not a container'' s)
         else do {
           (Cur, s) \<leftarrow> get_attribute E Con CONTENT s;
           (Prev, Cur, s) \<leftarrow>
             (if is_map_container ConType
              then do {
                (ObjPriority, s) \<leftarrow> get_object_priority E ob s;
                place_map_loop E ObjPriority (Append \<or> ObjPriority \<noteq> 4 \<and> ObjPriority \<noteq> 5) 0 Cur s}
              else if Append then place_end_loop E 0 Cur s
              else Some (0, Cur, s));
           s \<leftarrow> (if Prev \<noteq> 0 then set_next_object E Prev ob s else set_attribute E Con CONTENT ob s);
           s \<leftarrow> set_next_object E ob Cur s;
           set_container E ob Con s}}}}"

text \<open>The search for the predecessor in \<open>cut_object\<close>.\<close>

partial_function (option) cut_loop :: "env \<Rightarrow> u32 \<Rightarrow> u32 \<Rightarrow> objects \<Rightarrow> (u32 \<times> objects) option" where
  "cut_loop E ob Cur s = Option.bind (get_next_object E Cur s) (\<lambda>(n, s).
     if n = ob then Some (Cur, s) else cut_loop E ob n s)"

declare cut_loop.simps [code]

definition cut_object :: "env \<Rightarrow> u32 \<Rightarrow> objects \<Rightarrow> objects option" where
  "cut_object E ob s = do {
     (e, s) \<leftarrow> exists E ob s;
     if \<not> e then Some (report ''cut_object: Provided object does not exist'' s)
     else do {
       (Con, s) \<leftarrow> get_container E ob s;
       (Cur, s) \<leftarrow> get_first_container_object E Con s;
       s \<leftarrow> (if Cur = ob
            then do {(n, s) \<leftarrow> get_next_object E ob s; set_attribute E Con CONTENT n s}
            else do {
              (Prev, s) \<leftarrow> cut_loop E ob Cur s;
              (n, s) \<leftarrow> get_next_object E ob s;
              set_next_object E Prev n s});
       s \<leftarrow> set_next_object E ob 0 s;
       set_container E ob 0 s}}"

definition move_object :: "env \<Rightarrow> u32 \<Rightarrow> u32 \<Rightarrow> objects \<Rightarrow> objects option" where
  "move_object E ob Con s = do {
     (e1, s) \<leftarrow> exists E ob s;
     if \<not> e1 then Some (report ''move_object: Provided object does not exist'' s)
     else do {
       (e2, s) \<leftarrow> exists E Con s;
       if \<not> e2 then Some (report ''move_object: Provided destination container does not exist'' s)
       else do {s \<leftarrow> cut_object E ob s; place_object E ob Con False s}}}"

partial_function (option) nth_loop :: "env \<Rightarrow> int \<Rightarrow> u32 \<Rightarrow> objects \<Rightarrow> (u32 \<times> objects) option" where
  "nth_loop E Index ob s =
     (if Index > 0 \<and> ob \<noteq> 0
      then Option.bind (get_next_object E ob s) (\<lambda>(n, s). nth_loop E (Index - 1) n s)
      else Some (ob, s))"

declare nth_loop.simps [code]

definition get_container_object :: "env \<Rightarrow> u32 \<Rightarrow> int \<Rightarrow> objects \<Rightarrow> (u32 \<times> objects) option" where
  "get_container_object E Con Index s =
     (if Index < 0 then Some (0, report ''get_container_object: Invalid index'' s)
      else do {
        (e, s) \<leftarrow> exists E Con s;
        if \<not> e then Some (0, report ''get_container_object: Provided container does not exist'' s)
        else do {(ob, s) \<leftarrow> get_first_container_object E Con s; nth_loop E Index ob s}})"

text \<open>The walk to the field of the map that an object is on.\<close>

partial_function (option) map_container_loop :: "env \<Rightarrow> u32 \<Rightarrow> objects \<Rightarrow> (u32 \<times> objects) option" where
  "map_container_loop E ob s =
     (if ob = 0 then Some (ob, s)
      else Option.bind (get_object_type E ob s) (\<lambda>(t, s).
        if is_map_container t then Some (ob, s)
        else Option.bind (get_container E ob s) (\<lambda>(c, s). map_container_loop E c s)))"

declare map_container_loop.simps [code]

definition get_map_container :: "env \<Rightarrow> u32 \<Rightarrow> objects \<Rightarrow> (u32 \<times> objects) option" where
  "get_map_container E ob s = do {
     (e, s) \<leftarrow> exists E ob s;
     if \<not> e then Some (0, report ''get_map_container: Provided object does not exist'' s)
     else map_container_loop E ob s}"


section \<open>The contents of containers\<close>

definition onext :: "objects \<Rightarrow> u32 \<Rightarrow> u32 option" where
  "onext s n = (case obj s n of None \<Rightarrow> None | Some m \<Rightarrow> opt_id (NextObject m))"

text \<open>\<open>cs c\<close> lists the objects in the container \<open>c\<close>: exactly the ones that name it as their container.\<close>

definition tree_inv :: "env \<Rightarrow> objects \<Rightarrow> (u32 \<Rightarrow> u32 list) \<Rightarrow> bool" where
  "tree_inv E s cs \<longleftrightarrow>
     (\<forall>c m. obj s c = Some m \<longrightarrow> has E m CONTENT \<longrightarrow> path (onext s) (opt_id (attr E m CONTENT)) (cs c) \<and> distinct (cs c)) \<and>
     (\<forall>c. (\<forall>m. obj s c = Some m \<longrightarrow> \<not> has E m CONTENT) \<longrightarrow> cs c = []) \<and>
     (\<forall>c n. n \<in> set (cs c) \<longleftrightarrow> c \<noteq> 0 \<and> (\<exists>m. obj s n = Some m \<and> Container m = c))"

text \<open>What a container keeps besides its links.\<close>

definition core :: "MapObject \<Rightarrow> int \<times> u32 list" where
  "core m = (OType m, Attributes m)"

lemma core_simps [simp]:
  "core (m\<lparr>NextObject := n\<rparr>) = core m" "core (m\<lparr>Container := n\<rparr>) = core m" "core (m\<lparr>ObjectID := n\<rparr>) = core m"
  by (simp_all add: core_def)

lemma core_eq: "core m = core m' \<Longrightarrow> OType m = OType m' \<and> attr E m a = attr E m' a"
  by (simp add: core_def attr_def)

lemma tree_invD:
  assumes "tree_inv E s cs"
  shows "obj s c = Some m \<Longrightarrow> has E m CONTENT \<Longrightarrow> path (onext s) (opt_id (attr E m CONTENT)) (cs c)"
    and "distinct (cs c)"
    and "n \<in> set (cs c) \<longleftrightarrow> c \<noteq> 0 \<and> (\<exists>m. obj s n = Some m \<and> Container m = c)"
    and "(\<And>m. obj s c = Some m \<Longrightarrow> \<not> has E m CONTENT) \<Longrightarrow> cs c = []"
proof -
  show "obj s c = Some m \<Longrightarrow> has E m CONTENT \<Longrightarrow> path (onext s) (opt_id (attr E m CONTENT)) (cs c)"
    and "n \<in> set (cs c) \<longleftrightarrow> c \<noteq> 0 \<and> (\<exists>m. obj s n = Some m \<and> Container m = c)"
    and e: "(\<And>m. obj s c = Some m \<Longrightarrow> \<not> has E m CONTENT) \<Longrightarrow> cs c = []"
    using assms by (auto simp: tree_inv_def)
  show "distinct (cs c)"
  proof (cases "\<exists>m. obj s c = Some m \<and> has E m CONTENT")
    case True
    then show ?thesis using assms by (auto simp: tree_inv_def)
  next
    case False
    then show ?thesis using e by auto
  qed
qed

lemma tree_cong: "obj s' = obj s \<Longrightarrow> tree_inv E s' cs = tree_inv E s cs"
proof -
  assume o: "obj s' = obj s"
  then have "onext s' = onext s" by (simp add: onext_def fun_eq_iff)
  then show ?thesis using o by (simp add: tree_inv_def)
qed

text \<open>
  The object \<open>ob\<close> was put into the container \<open>con\<close> or taken out of it, and the chain of \<open>con\<close> is \<open>L\<close> now;
  nothing else changed.
\<close>

lemma tree_changed:
  assumes T: "tree_inv E s cs"
    and core: "\<And>c. c \<noteq> con \<Longrightarrow> map_option core (obj s' c) = map_option core (obj s c)"
    and con: "obj s' con = Some mc" "has E mc CONTENT"
    and L: "path (onext s') (opt_id (attr E mc CONTENT)) L" "distinct L"
    and nx: "\<And>n. n \<notin> set L \<Longrightarrow> n \<noteq> ob \<Longrightarrow> onext s' n = onext s n"
    and cont: "\<And>n. n \<noteq> ob \<Longrightarrow> map_option Container (obj s' n) = map_option Container (obj s n)"
    and ob: "obj s' ob = Some mo" "Container mo = (if placed then con else 0)"
    and mem: "set L = (if placed then insert ob (set (cs con)) else set (cs con) - {ob})"
    and out: "\<And>c. c \<noteq> con \<Longrightarrow> ob \<notin> set (cs c)"
  shows "tree_inv E s' (cs(con := L))"
proof -
  note D = tree_invD [OF T]
  have con0: "con \<noteq> 0" using con(1) by auto
  have m: "n \<in> set ((cs(con := L)) c) \<longleftrightarrow> c \<noteq> 0 \<and> (\<exists>m. obj s' n = Some m \<and> Container m = c)" for c n
  proof (cases "n = ob")
    case True
    then show ?thesis using ob mem out con0 by (cases "c = con") (auto split: if_splits)
  next
    case False
    have "(\<exists>m. obj s' n = Some m \<and> Container m = c) \<longleftrightarrow> (\<exists>m. obj s n = Some m \<and> Container m = c)"
      using cont [OF False] by (cases "obj s n"; cases "obj s' n") auto
    then show ?thesis using D(3) [of n c] False mem by (cases "c = con") (auto split: if_splits)
  qed
  have p: "path (onext s') (opt_id (attr E m CONTENT)) (cs c) \<and> distinct (cs c)"
    if c: "c \<noteq> con" "obj s' c = Some m" "has E m CONTENT" for c m
  proof -
    obtain m' where m': "obj s c = Some m'" "core m = core m'" using core [OF c(1)] c(2) by (cases "obj s c") auto
    then have "path (onext s) (opt_id (attr E m CONTENT)) (cs c)"
      using D(1) [of c m'] c(3) core_eq [OF m'(2)] by simp
    moreover have "onext s' n = onext s n" if n: "n \<in> set (cs c)" for n
    proof (rule nx)
      show "n \<noteq> ob" using out [OF c(1)] n by auto
      moreover have "n \<notin> set (cs con)" using n D(3) c(1) by auto
      ultimately show "n \<notin> set L" using mem by (auto split: if_splits)
    qed
    ultimately show ?thesis using D(2) path_cong by metis
  qed
  have e: "cs c = []" if c: "c \<noteq> con" "\<And>m. obj s' c = Some m \<Longrightarrow> \<not> has E m CONTENT" for c
  proof (rule D(4))
    fix m assume "obj s c = Some m"
    then obtain m' where "obj s' c = Some m'" "core m' = core m" using core [OF c(1)] by (cases "obj s' c") auto
    then show "\<not> has E m CONTENT" using c(2) core_eq by metis
  qed
  show ?thesis unfolding tree_inv_def
  proof (intro conjI allI impI)
    fix c n assume "obj s' c = Some n" "has E n CONTENT"
    then show "path (onext s') (opt_id (attr E n CONTENT)) ((cs(con := L)) c)" "distinct ((cs(con := L)) c)"
      using p [of c n] con(1) L by (cases "c = con"; simp)+
  next
    fix c assume "\<forall>m. obj s' c = Some m \<longrightarrow> \<not> has E m CONTENT"
    then show "(cs(con := L)) c = []" using e [of c] con by (cases "c = con") auto
  qed (rule m)
qed


section \<open>Placing an object\<close>

definition priority :: "env \<Rightarrow> MapObject \<Rightarrow> int" where
  "priority E m = (if flag E m BANK then 0 else if flag E m CLIP then 1 else if flag E m BOTTOM then 2
     else if flag E m TOP then 3 else if is_creature_container (OType m) then 4 else 5)"

definition prio :: "env \<Rightarrow> objects \<Rightarrow> u32 \<Rightarrow> int" where
  "prio E s n = (case obj s n of None \<Rightarrow> - 1 | Some m \<Rightarrow> priority E m)"

text \<open>The objects that a new object with priority \<open>p\<close> goes behind.\<close>

definition before :: "env \<Rightarrow> objects \<Rightarrow> int \<Rightarrow> bool \<Rightarrow> u32 \<Rightarrow> bool" where
  "before E s p Append n \<longleftrightarrow> (if Append then prio E s n \<le> p else prio E s n < p)"

text \<open>The place in a container, as a position in the list of its objects.\<close>

definition place_split :: "env \<Rightarrow> objects \<Rightarrow> MapObject \<Rightarrow> MapObject \<Rightarrow> bool \<Rightarrow> u32 list \<Rightarrow> u32 list \<times> u32 list" where
  "place_split E s mo mc Append xs =
     (let p = priority E mo; P = before E s p (Append \<or> p \<noteq> 4 \<and> p \<noteq> 5)
      in if is_map_container (OType mc) then (takeWhile P xs, dropWhile P xs)
         else if Append then (xs, []) else ([], xs))"

lemma place_split_append: "fst (place_split E s mo mc a xs) @ snd (place_split E s mo mc a xs) = xs"
  by (simp add: place_split_def Let_def)

lemma get_object_priority_obj:
  assumes "store_inv s fs" "obj s n = Some m"
  shows "get_object_priority E n s = Some (priority E m, s)"
  using get_object_type_obj [OF assms] assms by (simp add: get_object_priority_def priority_def)

lemma onext_obj: "obj s n = Some m \<Longrightarrow> onext s n = opt_id (NextObject m)"
  by (simp add: onext_def)

lemma onext_cong: "obj s' = obj s \<Longrightarrow> onext s' = onext s"
  by (simp add: onext_def fun_eq_iff)

lemma before_cong: "obj s' = obj s \<Longrightarrow> before E s' = before E s"
  by (simp add: before_def prio_def fun_eq_iff)

definition first_num :: "u32 list \<Rightarrow> u32" where
  "first_num xs = (case xs of [] \<Rightarrow> 0 | x # _ \<Rightarrow> x)"

lemma first_num_simps [simp]: "first_num [] = 0" "first_num (x # xs) = x"
  by (simp_all add: first_num_def)

lemma place_map_loop_path:
  assumes "store_inv s fs" "path (onext s) (opt_id cur) xs" "\<forall>n\<in>set xs. obj s n \<noteq> None"
  shows "\<exists>x. place_map_loop E p a prev cur s = Some (last (prev # takeWhile (before E s p a) xs),
    first_num (dropWhile (before E s p a) xs), s\<lparr>messages := x\<rparr>)"
  using assms
proof (induction xs arbitrary: prev cur s)
  case Nil
  then show ?case by (subst place_map_loop.simps) (auto intro: exI [of _ "messages s"])
next
  case (Cons n xs)
  then obtain m where m: "obj s n = Some m" by auto
  have cur: "cur = n" "n \<noteq> 0" using Cons.prems(2) by auto
  obtain x where x: "report_if (priority E m = p \<and> (p = 0 \<or> p = 2 \<or> p = 3)) ''place_object: Two objects on field'' s =
      s\<lparr>messages := x\<rparr>" using report_messages(2) by metis
  let ?s = "s\<lparr>messages := x\<rparr>"
  have pr: "prio E s n = priority E m" using m by (simp add: prio_def)
  have o: "obj ?s = obj s" by simp
  show ?case
  proof (cases "before E s p a n")
    case False
    then have "place_map_loop E p a prev cur s = Some (prev, cur, ?s)"
      using cur m Cons.prems(1) x pr
      by (subst place_map_loop.simps) (auto simp: get_object_priority_obj before_def Let_def split: if_splits)
    then show ?thesis using False cur by auto
  next
    case True
    then have step: "place_map_loop E p a prev cur s = place_map_loop E p a n (NextObject m) ?s"
      using cur m Cons.prems(1) x pr get_next_obj [of ?s fs n m E]
      by (subst place_map_loop.simps) (auto simp: get_object_priority_obj before_def Let_def split: if_splits)
    have "path (onext ?s) (opt_id (NextObject m)) xs"
      using Cons.prems(2) m onext_cong [OF o] by (simp add: onext_obj)
    then obtain y where "place_map_loop E p a n (NextObject m) ?s = Some (last (n # takeWhile (before E s p a) xs),
        first_num (dropWhile (before E s p a) xs), ?s\<lparr>messages := y\<rparr>)"
      using Cons.IH [of ?s "NextObject m" n] Cons.prems(1,3) before_cong [OF o] by auto
    then show ?thesis using step True by auto
  qed
qed

lemma place_end_loop_path:
  assumes "store_inv s fs" "path (onext s) (opt_id cur) xs" "\<forall>n\<in>set xs. obj s n \<noteq> None"
  shows "place_end_loop E prev cur s = Some (last (prev # xs), 0, s)"
  using assms(2,3)
proof (induction xs arbitrary: prev cur)
  case Nil
  then show ?case by (subst place_end_loop.simps) simp
next
  case (Cons n xs)
  then obtain m where m: "obj s n = Some m" by auto
  have cur: "cur = n" "n \<noteq> 0" using Cons.prems(1) by auto
  have "path (onext s) (opt_id (NextObject m)) xs" using Cons.prems(1) m by (simp add: onext_obj)
  then have "place_end_loop E n (NextObject m) s = Some (last (n # xs), 0, s)" using Cons by auto
  then show ?case using cur m assms(1) by (subst place_end_loop.simps) (simp add: get_next_obj)
qed

lemma place_position:
  assumes "store_inv s fs" "obj s ob = Some mo" "path (onext s) (opt_id cur) xs" "\<forall>n\<in>set xs. obj s n \<noteq> None"
    "place_split E s mo mc Append xs = (us, vs)"
  shows "\<exists>x. (if is_map_container (OType mc)
      then do {
        (ObjPriority, s) \<leftarrow> get_object_priority E ob s;
        place_map_loop E ObjPriority (Append \<or> ObjPriority \<noteq> 4 \<and> ObjPriority \<noteq> 5) 0 cur s}
      else if Append then place_end_loop E 0 cur s else Some (0, cur, s)) =
    Some (last (0 # us), first_num vs, s\<lparr>messages := x\<rparr>)"
proof (cases "is_map_container (OType mc)")
  case True
  then show ?thesis
    using assms(5) place_map_loop_path [OF assms(1,3,4), of E "priority E mo" "Append \<or> priority E mo \<noteq> 4 \<and> priority E mo \<noteq> 5" 0]
    by (auto simp: get_object_priority_obj [OF assms(1,2)] place_split_def Let_def)
next
  case False
  have "cur = first_num xs" using opt_id_first [OF assms(3)] by (cases xs) auto
  then show ?thesis using False assms(5) place_end_loop_path [OF assms(1,3,4)] self_messages [of s]
    by (cases Append) (auto simp: place_split_def Let_def)
qed


text \<open>The links of an object may change, the rest stays.\<close>

definition alike :: "env \<Rightarrow> MapObject \<Rightarrow> MapObject \<Rightarrow> bool" where
  "alike E m m' \<longleftrightarrow> OType m' = OType m \<and> (\<forall>a. a \<noteq> CONTENT \<longrightarrow> has E m a \<longrightarrow> attr E m' a = attr E m a)
     \<and> tl (Attributes m') = tl (Attributes m)"

definition relinked :: "env \<Rightarrow> objects \<Rightarrow> objects \<Rightarrow> bool" where
  "relinked E s s' \<longleftrightarrow> crons s' = crons s \<and> strings s' = strings s \<and> entries s' = entries s \<and> (\<forall>n. rel_option (alike E) (obj s n) (obj s' n))"

lemma tl_update_0: "tl (xs[0 := v]) = tl xs"
  by (cases xs) auto

lemma with_content_tl: "tl (Attributes (with_attr E m CONTENT v)) = tl (Attributes m)"
  by (simp add: with_attr_def offset_CONTENT tl_update_0)

lemma alike_refl [simp]: "alike E m m"
  by (simp add: alike_def)

lemma alike_trans: "alike E m m' \<Longrightarrow> alike E m' m'' \<Longrightarrow> alike E m m''"
  by (simp add: alike_def)

lemma relinked_refl:
  "obj s' = obj s \<Longrightarrow> crons s' = crons s \<Longrightarrow> strings s' = strings s \<Longrightarrow> entries s' = entries s \<Longrightarrow> relinked E s s'"
  by (simp add: relinked_def option.rel_refl)

lemma relinked_trans:
  assumes "relinked E s s'" "relinked E s' s''"
  shows "relinked E s s''"
proof -
  have "rel_option (alike E) (obj s n) (obj s'' n)" for n
    using assms alike_trans unfolding relinked_def by (metis (no_types, lifting) option.rel_cases option.rel_inject(2) option.rel_distinct option.rel_sel)
  then show ?thesis using assms by (simp add: relinked_def)
qed

lemma relinked_put:
  assumes "store_inv s fs" "obj s n = Some m" "alike E m m'" "ObjectID m' = n" "length (Attributes m') = 4"
  shows "relinked E s (put s n m')"
  using assms store_inv_put(2) [OF assms(1,2,4,5)] by (simp add: relinked_def option.rel_refl)

lemma relinkedD:
  assumes "relinked E s s'" "obj s n = Some m"
  obtains m' where "obj s' n = Some m'" "alike E m m'"
proof -
  have "rel_option (alike E) (obj s n) (obj s' n)" using assms(1) by (simp add: relinked_def)
  then show thesis using assms(2) that by (cases "obj s' n") auto
qed

text \<open>
  Writing the number \<open>t\<close> behind the first part \<open>us\<close> of the chain of \<open>con\<close>: into the last object of this part, or into the
  container when it is empty.
\<close>

definition link_behind :: "env \<Rightarrow> u32 \<Rightarrow> u32 list \<Rightarrow> u32 \<Rightarrow> objects \<Rightarrow> objects option" where
  "link_behind E con us t s = (if us \<noteq> [] then set_next_object E (last us) t s else set_attribute E con CONTENT t s)"

lemma link_behind_ok:
  assumes E: "loaded_types E" and inv: "store_inv s fs" and con: "obj s con = Some mc" "has E mc CONTENT"
    and us: "\<And>n. n \<in> set us \<Longrightarrow> obj s n \<noteq> None"
  shows "\<exists>s2 mc2. link_behind E con us t s = Some s2 \<and> store_inv s2 fs
    \<and> relinked E s s2 \<and> obj s2 con = Some mc2 \<and> has E mc2 CONTENT
    \<and> (\<forall>n. n \<noteq> con \<longrightarrow> n \<notin> set us \<longrightarrow> obj s2 n = obj s n)
    \<and> (\<forall>c. c \<noteq> con \<longrightarrow> map_option core (obj s2 c) = map_option core (obj s c))
    \<and> (\<forall>n. map_option Container (obj s2 n) = map_option Container (obj s n))
    \<and> (\<forall>n. onext s2 n = (if us \<noteq> [] \<and> n = last us then opt_id t else onext s n))
    \<and> attr E mc2 CONTENT = (if us = [] then t else attr E mc CONTENT)"
proof (cases "us = []")
  case True
  let ?m = "with_attr E mc CONTENT t"
  have st: "stored E (OType mc) CONTENT t = t" by (simp add: stored_def)
  have len: "length (Attributes mc) = 4" "ObjectID mc = con" using obj_cell(2) [OF inv con(1)] obj_ID [OF con(1)] by simp_all
  note P = store_inv_put [OF inv con(1), of ?m]
  have "link_behind E con us t s = Some (put s con ?m)"
    using set_attribute_obj [OF E inv con(1,2), of t] st True by (simp add: link_behind_def)
  moreover have "relinked E s (put s con ?m)"
    using con(2) len attr_with_attr [OF E con(2) _ len(1)] by (intro relinked_put [OF inv con(1)]) (auto simp: alike_def with_content_tl)
  ultimately show ?thesis using P con len True attr_with_attr [OF E con(2,2) len(1)]
    by (intro exI [of _ "put s con ?m"] exI [of _ ?m]) (auto simp: onext_def)
next
  case False
  let ?q = "last us"
  obtain mq where mq: "obj s ?q = Some mq" using us [of ?q] False by auto
  let ?m = "mq\<lparr>NextObject := t\<rparr>"
  have mid: "ObjectID ?m = ?q" "length (Attributes ?m) = 4" using obj_ID [OF mq] obj_cell(2) [OF inv mq] by simp_all
  note P = store_inv_put [OF inv mq mid]
  have "link_behind E con us t s = Some (put s ?q ?m)" using set_fields_obj(2) [OF inv mq] False by (simp add: link_behind_def)
  moreover have "relinked E s (put s ?q ?m)" using mid by (intro relinked_put [OF inv mq]) (simp_all add: alike_def)
  ultimately show ?thesis using P con False mq
    by (intro exI [of _ "put s ?q ?m"] exI [of _ "if ?q = con then ?m else mc"]) (auto simp: onext_def)
qed

text \<open>Setting both links of an object.\<close>

lemma set_links_ok:
  assumes "store_inv s fs" "obj s n = Some m"
  shows "\<exists>s'. do {s \<leftarrow> set_next_object E n k s; set_container E n c s} = Some s' \<and> store_inv s' fs
    \<and> obj s' = (obj s)(n \<mapsto> m\<lparr>NextObject := k, Container := c\<rparr>) \<and> relinked E s s'"
proof -
  have l: "length (Attributes m) = 4" "ObjectID m = n" using obj_cell(2) [OF assms] obj_ID [OF assms(2)] by simp_all
  let ?m1 = "m\<lparr>NextObject := k\<rparr>" let ?s1 = "put s n ?m1" let ?m2 = "?m1\<lparr>Container := c\<rparr>"
  have P1: "store_inv ?s1 fs" "obj ?s1 = (obj s)(n \<mapsto> ?m1)" using store_inv_put [OF assms, of ?m1] l by simp_all
  then have o: "obj ?s1 n = Some ?m1" by simp
  have P2: "store_inv (put ?s1 n ?m2) fs" "obj (put ?s1 n ?m2) = (obj s)(n \<mapsto> ?m2)"
    using store_inv_put [OF P1(1) o, of ?m2] P1 l by simp_all
  have "relinked E s (put ?s1 n ?m2)"
    using relinked_put [OF assms, of E ?m1] relinked_put [OF P1(1) o, of E ?m2] l by (auto simp: alike_def intro: relinked_trans)
  then show ?thesis using P2 set_fields_obj(2) [OF assms] set_fields_obj(3) [OF P1(1) o] by auto
qed

text \<open>The writes that put \<open>ob\<close> between two parts of the chain of \<open>con\<close>.\<close>

lemma place_links:
  assumes E: "loaded_types E" and inv: "store_inv s fs" "tree_inv E s cs" and ob: "obj s ob = Some mo" "Container mo = 0"
    and con: "obj s con = Some mc" "has E mc CONTENT" "ob \<noteq> con" and uv: "cs con = us @ vs"
  shows "\<exists>s'. do {
      s \<leftarrow> link_behind E con us ob s;
      s \<leftarrow> set_next_object E ob (first_num vs) s;
      set_container E ob con s} = Some s' \<and> store_inv s' fs \<and> tree_inv E s' (cs(con := us @ ob # vs)) \<and> relinked E s s'"
proof -
  note D = tree_invD [OF inv(2)]
  have p: "path (onext s) (opt_id (attr E mc CONTENT)) (us @ vs)" "distinct (us @ vs)" using D(1) [OF con(1,2)] D(2) [of con] uv by simp_all
  have el: "obj s n \<noteq> None" if "n \<in> set (us @ vs)" for n using D(3) [of n con] that uv by auto
  have out: "ob \<notin> set (cs c)" for c using D(3) [of ob c] ob by auto
  then have ob_n: "ob \<notin> set (us @ vs)" using uv by metis
  have ob0: "ob \<noteq> 0" using ob(1) by auto
  obtain s2 mc2 where s2: "link_behind E con us ob s = Some s2"
    "store_inv s2 fs" "relinked E s s2" "obj s2 con = Some mc2" "has E mc2 CONTENT"
    and same: "\<forall>n. n \<noteq> con \<longrightarrow> n \<notin> set us \<longrightarrow> obj s2 n = obj s n"
    and core2: "\<forall>c. c \<noteq> con \<longrightarrow> map_option core (obj s2 c) = map_option core (obj s c)"
    and cont2: "\<forall>n. map_option Container (obj s2 n) = map_option Container (obj s n)"
    and next2: "\<forall>n. onext s2 n = (if us \<noteq> [] \<and> n = last us then opt_id ob else onext s n)"
    and attr2: "attr E mc2 CONTENT = (if us = [] then ob else attr E mc CONTENT)"
    using link_behind_ok [OF E inv(1) con(1,2), of us ob] el by auto
  have o2: "obj s2 ob = Some mo" using same con(3) ob_n ob(1) by auto
  obtain s4 where s4: "do {s \<leftarrow> set_next_object E ob (first_num vs) s2; set_container E ob con s} = Some s4" "store_inv s4 fs"
    "obj s4 = (obj s2)(ob \<mapsto> mo\<lparr>NextObject := first_num vs, Container := con\<rparr>)" "relinked E s2 s4"
    using set_links_ok [OF s2(2) o2] by blast
  have n4: "onext s4 n = (if n = ob then opt_id (first_num vs) else if us \<noteq> [] \<and> n = last us then Some ob else onext s n)" for n
    using next2 s4(3) ob0 by (auto simp: onext_def)
  have fv: "opt_id (first_num vs) = first_or vs None"
  proof (cases vs)
    case (Cons v vs')
    then have "v \<noteq> 0" using el [of v] by auto
    then show ?thesis using Cons by simp
  qed simp
  have "tree_inv E s4 (cs(con := us @ ob # vs))"
  proof (rule tree_changed [OF inv(2), where placed = True and ob = ob and mo = "mo\<lparr>NextObject := first_num vs, Container := con\<rparr>" and mc = mc2])
    show "path (onext s4) (opt_id (attr E mc2 CONTENT)) (us @ ob # vs)"
    proof (cases "us = []")
      case True
      have "path (onext s4) (opt_id (attr E mc CONTENT)) vs"
        by (rule path_cong [of "onext s"]) (use p(1) True ob_n n4 in auto)
      moreover have "first_or vs None = opt_id (attr E mc CONTENT)" using p(1) True path_first by force
      ultimately show ?thesis using True attr2 ob0 n4 fv by simp
    next
      case False
      show ?thesis unfolding attr2 using False
        by (simp, intro path_insert [OF p(1) False p(2) ob_n]) (use n4 fv ob_n False in auto)
    qed
    show "map_option core (obj s4 c) = map_option core (obj s c)" if "c \<noteq> con" for c
      using core2 that s4(3) ob(1) by auto
    show "map_option Container (obj s4 n) = map_option Container (obj s n)" if "n \<noteq> ob" for n using cont2 that s4(3) by simp
  qed (use s4(3) s2(4,5) con(3) uv out p(2) ob_n n4 in auto)
  then show ?thesis using s2(1) s4 relinked_trans [OF s2(3) s4(4)] by auto
qed

lemma place_object_ok:
  assumes "loaded_types E" "store_inv s fs" "tree_inv E s cs" "obj s ob = Some mo" "Container mo = 0"
    "obj s con = Some mc" "has E mc CONTENT" "ob \<noteq> con" "place_split E s mo mc Append (cs con) = (us, vs)"
  shows "\<exists>s'. place_object E ob con Append s = Some s' \<and> store_inv s' fs \<and> tree_inv E s' (cs(con := us @ ob # vs))
    \<and> relinked E s s'"
proof -
  note D = tree_invD [OF assms(3)]
  have uv: "cs con = us @ vs" using place_split_append [of E s mo mc Append "cs con"] assms(9) by simp
  have el: "\<forall>n\<in>set (cs con). obj s n \<noteq> None" using D(3) by auto
  obtain x where x: "(if is_map_container (OType mc)
      then do {
        (ObjPriority, s) \<leftarrow> get_object_priority E ob s;
        place_map_loop E ObjPriority (Append \<or> ObjPriority \<noteq> 4 \<and> ObjPriority \<noteq> 5) 0 (attr E mc CONTENT) s}
      else if Append then place_end_loop E 0 (attr E mc CONTENT) s else Some (0, attr E mc CONTENT, s)) =
    Some (last (0 # us), first_num vs, s\<lparr>messages := x\<rparr>)"
    using place_position [OF assms(2,4) D(1) [OF assms(6,7)] el assms(9)] by blast
  let ?s = "s\<lparr>messages := x\<rparr>"
  have t: "store_inv ?s fs" "tree_inv E ?s cs" using assms(2,3) tree_cong [of ?s s E cs] by simp_all
  obtain s' where s': "do {
      s \<leftarrow> link_behind E con us ob ?s;
      s \<leftarrow> set_next_object E ob (first_num vs) s;
      set_container E ob con s} = Some s'" "store_inv s' fs" "tree_inv E s' (cs(con := us @ ob # vs))" "relinked E ?s s'"
    using place_links [OF assms(1) t, of ob mo con mc us vs] assms(4-8) uv by auto
  have "last us \<noteq> 0" if "us \<noteq> []" using el [rule_format, of "last us"] that uv by auto
  then have "(if last (0 # us) \<noteq> 0 then set_next_object E (last (0 # us)) ob ?s else set_attribute E con CONTENT ob ?s) =
      link_behind E con us ob ?s" by (simp add: link_behind_def)
  moreover have "(\<not> get_flag (ObjectTypes E) (OType mc) CONTAINER \<and> \<not> get_flag (ObjectTypes E) (OType mc) CHEST) = False"
    using assms(7) has_attribute_flags(1) by simp
  ultimately have "place_object E ob con Append s = Some s'"
    using assms(2,4,6) get_object_type_obj [OF assms(2,6), of E] get_attribute_obj [OF assms(1,2,6,7)] x s'(1)
    unfolding place_object_def by (simp del: last.simps de_Morgan_conj)
  moreover have "relinked E s s'" using relinked_trans [OF relinked_refl [of ?s s] s'(4)] by simp
  ultimately show ?thesis using s' by blast
qed


section \<open>Taking an object out\<close>

lemma cut_loop_path:
  assumes "store_inv s fs" "path (onext s) (opt_id cur) (us @ ob # vs)" "us \<noteq> []" "ob \<notin> set us" "\<forall>n\<in>set us. obj s n \<noteq> None"
  shows "cut_loop E ob cur s = Some (last us, s)"
  using assms(2-5)
proof (induction us arbitrary: cur)
  case (Cons u us)
  then obtain m where m: "obj s u = Some m" by auto
  have cur: "cur = u" and p: "path (onext s) (opt_id (NextObject m)) (us @ ob # vs)" using Cons.prems(1) m by (auto simp: onext_obj)
  show ?case
  proof (cases "us = []")
    case True
    then have "NextObject m = ob" using p by simp
    then show ?thesis using True cur m assms(1) by (subst cut_loop.simps) (simp add: get_next_obj)
  next
    case False
    then have "NextObject m \<noteq> ob" using p Cons.prems(3) by (cases us) auto
    moreover have "cut_loop E ob (NextObject m) s = Some (last us, s)" using Cons p False by auto
    ultimately show ?thesis using False cur m assms(1) by (subst cut_loop.simps) (simp add: get_next_obj)
  qed
qed simp

lemma contained:
  assumes "tree_inv E s cs" "obj s ob = Some mo" "Container mo \<noteq> 0"
  obtains mc where "ob \<in> set (cs (Container mo))" "obj s (Container mo) = Some mc" "has E mc CONTENT"
proof -
  note D = tree_invD [OF assms(1)]
  have m: "ob \<in> set (cs (Container mo))" using D(3) assms(2,3) by auto
  then have "cs (Container mo) \<noteq> []" by auto
  then show thesis using D(4) [of "Container mo"] that m by blast
qed

lemma cut_links:
  assumes E: "loaded_types E" and inv: "store_inv s fs" "tree_inv E s cs" and ob: "obj s ob = Some mo" "ob \<noteq> con"
    and con: "obj s con = Some mc" "has E mc CONTENT" and uv: "cs con = us @ ob # vs"
  shows "\<exists>s'. do {
      s \<leftarrow> link_behind E con us (NextObject mo) s;
      s \<leftarrow> set_next_object E ob 0 s;
      set_container E ob 0 s} = Some s' \<and> store_inv s' fs \<and> tree_inv E s' (cs(con := us @ vs)) \<and> relinked E s s'
      \<and> obj s' ob = Some (mo\<lparr>NextObject := 0, Container := 0\<rparr>)"
proof -
  note D = tree_invD [OF inv(2)]
  have p: "path (onext s) (opt_id (attr E mc CONTENT)) (us @ ob # vs)" "distinct (us @ ob # vs)"
    using D(1) [OF con] D(2) [of con] uv by simp_all
  have cont: "\<exists>m. obj s n = Some m \<and> Container m = con" if "n \<in> set (us @ ob # vs)" for n using D(3) [of n con] that uv by simp
  have out: "ob \<notin> set (cs c)" if "c \<noteq> con" for c using cont [of ob] D(3) [of ob c] that by auto
  obtain s2 mc2 where s2: "link_behind E con us (NextObject mo) s = Some s2"
    "store_inv s2 fs" "relinked E s s2" "obj s2 con = Some mc2" "has E mc2 CONTENT"
    and same: "\<forall>n. n \<noteq> con \<longrightarrow> n \<notin> set us \<longrightarrow> obj s2 n = obj s n"
    and core2: "\<forall>c. c \<noteq> con \<longrightarrow> map_option core (obj s2 c) = map_option core (obj s c)"
    and cont2: "\<forall>n. map_option Container (obj s2 n) = map_option Container (obj s n)"
    and next2: "\<forall>n. onext s2 n = (if us \<noteq> [] \<and> n = last us then opt_id (NextObject mo) else onext s n)"
    and attr2: "attr E mc2 CONTENT = (if us = [] then NextObject mo else attr E mc CONTENT)"
  proof -
    have "obj s n \<noteq> None" if "n \<in> set us" for n using cont [of n] that by auto
    then show thesis using link_behind_ok [OF E inv(1) con, of us "NextObject mo"] that by auto
  qed
  have o2: "obj s2 ob = Some mo" using same ob p(2) by auto
  obtain s4 where s4: "do {s \<leftarrow> set_next_object E ob 0 s2; set_container E ob 0 s} = Some s4" "store_inv s4 fs"
    "obj s4 = (obj s2)(ob \<mapsto> mo\<lparr>NextObject := 0, Container := 0\<rparr>)" "relinked E s2 s4"
    using set_links_ok [OF s2(2) o2] by blast
  have n4: "onext s4 n = (if us \<noteq> [] \<and> n = last us then onext s ob else onext s n)" if "n \<noteq> ob" for n
    using next2 s4(3) that ob(1) by (auto simp: onext_def)
  have "tree_inv E s4 (cs(con := us @ vs))"
  proof (rule tree_changed [OF inv(2), where placed = False and ob = ob and mo = "mo\<lparr>NextObject := 0, Container := 0\<rparr>" and mc = mc2])
    show "path (onext s4) (opt_id (attr E mc2 CONTENT)) (us @ vs)"
    proof (cases us rule: rev_cases)
      case Nil
      then have "path (onext s) (opt_id (NextObject mo)) vs" using p(1) ob(1) by (simp add: onext_obj)
      then have "path (onext s4) (opt_id (NextObject mo)) vs" using n4 p(2) Nil path_cong [of "onext s" _ vs "onext s4"] by force
      then show ?thesis using Nil attr2 by simp
    next
      case (snoc us' q)
      have "path ((onext s)(q := onext s ob)) (opt_id (attr E mc CONTENT)) (us' @ q # vs)"
        using path_unlink [of "onext s" _ us' q ob vs] p snoc by simp
      moreover have "onext s4 x = ((onext s)(q := onext s ob)) x" if x: "x \<in> set (us' @ q # vs)" for x
        using n4 [of x] x p(2) snoc by (cases "x = ob") auto
      ultimately have "path (onext s4) (opt_id (attr E mc CONTENT)) (us' @ q # vs)" by (rule path_cong)
      then show ?thesis using snoc attr2 by simp
    qed
    show "map_option core (obj s4 c) = map_option core (obj s c)" if "c \<noteq> con" for c
      using core2 that s4(3) ob(1) by auto
    show "map_option Container (obj s4 n) = map_option Container (obj s n)" if "n \<noteq> ob" for n using cont2 that s4(3) by simp
    show "onext s4 n = onext s n" if "n \<notin> set (us @ vs)" "n \<noteq> ob" for n using n4 that by auto
  qed (use s4(3) s2(4,5) ob uv out p(2) in auto)
  then show ?thesis using s2(1) s4 relinked_trans [OF s2(3) s4(4)] by auto
qed

lemma cut_object_ok:
  assumes "loaded_types E" "store_inv s fs" "tree_inv E s cs" "obj s ob = Some mo" "Container mo \<noteq> 0" "Container mo \<noteq> ob"
  shows "\<exists>s'. cut_object E ob s = Some s' \<and> store_inv s' fs
    \<and> tree_inv E s' (cs(Container mo := remove1 ob (cs (Container mo)))) \<and> relinked E s s'
    \<and> obj s' ob = Some (mo\<lparr>NextObject := 0, Container := 0\<rparr>)"
proof -
  let ?con = "Container mo"
  note D = tree_invD [OF assms(3)]
  obtain mc where c: "ob \<in> set (cs ?con)" "obj s ?con = Some mc" "has E mc CONTENT" by (rule contained [OF assms(3-5)])
  obtain us vs where uv: "cs ?con = us @ ob # vs" using c(1) split_list by metis
  have d: "ob \<notin> set us" using D(2) [of ?con] uv by simp
  then have rem: "remove1 ob (cs ?con) = us @ vs" using uv by (simp add: remove1_append)
  have p: "path (onext s) (opt_id (attr E mc CONTENT)) (us @ ob # vs)" using D(1) [OF c(2,3)] uv by simp
  have el: "\<forall>n\<in>set us. obj s n \<noteq> None" using D(3) [of _ ?con] uv by auto
  obtain s' where s': "do {
      s \<leftarrow> link_behind E ?con us (NextObject mo) s;
      s \<leftarrow> set_next_object E ob 0 s;
      set_container E ob 0 s} = Some s'" "store_inv s' fs" "tree_inv E s' (cs(?con := us @ vs))" "relinked E s s'"
      "obj s' ob = Some (mo\<lparr>NextObject := 0, Container := 0\<rparr>)"
    using cut_links [OF assms(1-4) assms(6) [symmetric] c(2,3) uv] by blast
  have f: "get_first_container_object E ?con s = Some (attr E mc CONTENT, s)"
    using assms(5) c(3) has_attribute_flags(1) get_attribute_obj [OF assms(1,2) c(2,3)]
    by (auto simp: get_first_container_object_def get_object_type_obj [OF assms(2) c(2)])
  have first: "attr E mc CONTENT = first_num (us @ ob # vs)" using p by (cases us) auto
  have "(if attr E mc CONTENT = ob
      then do {(n, s) \<leftarrow> get_next_object E ob s; set_attribute E ?con CONTENT n s}
      else do {
        (Prev, s) \<leftarrow> cut_loop E ob (attr E mc CONTENT) s;
        (n, s) \<leftarrow> get_next_object E ob s;
        set_next_object E Prev n s}) = link_behind E ?con us (NextObject mo) s"
  proof (cases "us = []")
    case True
    then show ?thesis using first by (simp add: link_behind_def get_next_obj [OF assms(2,4)])
  next
    case False
    then have "attr E mc CONTENT \<noteq> ob" using first d by (cases us) auto
    then show ?thesis using cut_loop_path [OF assms(2) p False d el] False
      by (simp add: link_behind_def get_next_obj [OF assms(2,4)])
  qed
  then have "cut_object E ob s = Some s'"
    using s'(1) assms(2,4) f by (simp add: cut_object_def get_container_obj [OF assms(2,4)])
  then show ?thesis using s' rem by simp
qed


section \<open>Moving, and the order on a field\<close>

lemma relinked_prio: "relinked E s s' \<Longrightarrow> prio E s' = prio E s"
proof
  fix n assume "relinked E s s'"
  then have "rel_option (alike E) (obj s n) (obj s' n)" by (simp add: relinked_def)
  then show "prio E s' n = prio E s n"
    by (cases "obj s n"; cases "obj s' n") (simp_all add: prio_def priority_def alike_def)
qed

lemma place_split_cong:
  "prio E s' = prio E s \<Longrightarrow> OType mo' = OType mo \<Longrightarrow> OType mc' = OType mc \<Longrightarrow>
    place_split E s' mo' mc' a xs = place_split E s mo mc a xs"
  by (simp add: place_split_def priority_def before_def [abs_def] Let_def)

lemma move_object_ok:
  assumes "loaded_types E" "store_inv s fs" "tree_inv E s cs" "obj s ob = Some mo" "Container mo \<noteq> 0" "Container mo \<noteq> ob"
    "obj s con = Some mc" "has E mc CONTENT" "ob \<noteq> con"
    and cs1: "cs1 = cs(Container mo := remove1 ob (cs (Container mo)))"
    and "place_split E s mo mc False (cs1 con) = (us, vs)"
  shows "\<exists>s'. move_object E ob con s = Some s' \<and> store_inv s' fs \<and> tree_inv E s' (cs1(con := us @ ob # vs)) \<and> relinked E s s'"
proof -
  obtain s1 where s1: "cut_object E ob s = Some s1" "store_inv s1 fs" "tree_inv E s1 cs1" "relinked E s s1"
    "obj s1 ob = Some (mo\<lparr>NextObject := 0, Container := 0\<rparr>)"
    using cut_object_ok [OF assms(1-6)] cs1 by blast
  obtain mc1 where mc1: "obj s1 con = Some mc1" "alike E mc mc1" by (rule relinkedD [OF s1(4) assms(7)])
  have "place_split E s1 (mo\<lparr>NextObject := 0, Container := 0\<rparr>) mc1 False (cs1 con) = (us, vs)"
    using assms(11) mc1(2) by (subst place_split_cong [OF relinked_prio [OF s1(4)], of _ mo _ mc]) (simp_all add: alike_def)
  moreover have "has E mc1 CONTENT" "Container (mo\<lparr>NextObject := 0, Container := 0\<rparr>) = 0" using mc1(2) assms(8) by (simp_all add: alike_def)
  ultimately obtain s' where s': "place_object E ob con False s1 = Some s'" "store_inv s' fs"
    "tree_inv E s' (cs1(con := us @ ob # vs))" "relinked E s1 s'"
    using place_object_ok [OF assms(1) s1(2,3,5) _ mc1(1) _ assms(9)] by blast
  have "move_object E ob con s = Some s'" using assms(2,4,7) s1(1) s'(1) by (simp add: move_object_def)
  then show ?thesis using s' relinked_trans [OF s1(4) s'(4)] by blast
qed

text \<open>The objects on a field are sorted, and a new one keeps the order: first or last among its equals.\<close>

definition field_sorted :: "env \<Rightarrow> objects \<Rightarrow> u32 list \<Rightarrow> bool" where
  "field_sorted E s xs \<longleftrightarrow> sorted (map (prio E s) xs)"

lemma sorted_dropWhile_ge:
  assumes "sorted (map f xs)" "\<And>x y. P x \<Longrightarrow> f y \<le> f x \<Longrightarrow> P y"
  shows "takeWhile P xs = filter P xs" "dropWhile P xs = filter (\<lambda>x. \<not> P x) xs"
  using assms(1)
proof (induction xs)
  case (Cons x xs)
  { case 1
    have "filter P xs = []" if "\<not> P x" using 1 that assms(2) by (auto simp: filter_empty_conv)
    then show ?case using 1 Cons.IH by simp
  next
    case 2
    have "filter (\<lambda>x. \<not> P x) xs = xs" if "\<not> P x" using 2 that assms(2) by (auto simp: filter_id_conv)
    then show ?case using 2 Cons.IH by simp }
qed simp_all

lemma place_split_sorted:
  assumes "field_sorted E s xs" "is_map_container (OType mc)" "obj s ob = Some mo" "place_split E s mo mc a xs = (us, vs)"
  shows "field_sorted E s (us @ ob # vs)"
    "us = filter (before E s (prio E s ob) (a \<or> prio E s ob \<noteq> 4 \<and> prio E s ob \<noteq> 5)) xs"
    "vs = filter (\<lambda>n. \<not> before E s (prio E s ob) (a \<or> prio E s ob \<noteq> 4 \<and> prio E s ob \<noteq> 5) n) xs"
proof -
  have p: "prio E s ob = priority E mo" using assms(3) by (simp add: prio_def)
  let ?P = "before E s (prio E s ob) (a \<or> prio E s ob \<noteq> 4 \<and> prio E s ob \<noteq> 5)"
  have P: "us = takeWhile ?P xs" "vs = dropWhile ?P xs" using assms(2,4) p by (simp_all add: place_split_def Let_def)
  have m: "?P y" if "?P x" "prio E s y \<le> prio E s x" for x y using that by (auto simp: before_def split: if_splits)
  show f: "us = filter ?P xs" "vs = filter (\<lambda>n. \<not> ?P n) xs"
    unfolding P using assms(1) sorted_dropWhile_ge [OF _ m] by (simp_all add: field_sorted_def)
  have "prio E s x \<le> prio E s ob" if "x \<in> set us" for x using that f(1) by (auto simp: before_def split: if_splits)
  moreover have "prio E s ob \<le> prio E s x" if "x \<in> set vs" for x using that f(2) by (auto simp: before_def split: if_splits)
  moreover have "sorted (map (prio E s) us)" "sorted (map (prio E s) vs)"
    using assms(1) unfolding f by (simp_all add: field_sorted_def sorted_filter)
  ultimately show "field_sorted E s (us @ ob # vs)" by (fastforce simp: field_sorted_def sorted_append intro: order_trans)
qed

lemma field_sorted_cong: "prio E s' = prio E s \<Longrightarrow> field_sorted E s' = field_sorted E s"
  by (simp add: field_sorted_def [abs_def])


section \<open>Looking into containers\<close>

lemma nth_loop_path:
  assumes "store_inv s fs" "path (onext s) (opt_id cur) xs" "\<forall>n\<in>set xs. obj s n \<noteq> None"
  shows "nth_loop E (int i) cur s = Some (first_num (drop i xs), s)"
  using assms(2,3)
proof (induction i arbitrary: cur xs)
  case 0
  then show ?case by (subst nth_loop.simps) (cases xs; auto)
next
  case (Suc i)
  show ?case
  proof (cases xs)
    case Nil
    then show ?thesis using Suc.prems by (subst nth_loop.simps) auto
  next
    case (Cons n ys)
    then obtain m where m: "obj s n = Some m" using Suc.prems(2) by auto
    have "cur = n" "n \<noteq> 0" using Cons Suc.prems(1) by auto
    moreover have "nth_loop E (int i) (NextObject m) s = Some (first_num (drop i ys), s)"
      using Suc.IH [of "NextObject m" ys] Suc.prems Cons m by (simp add: onext_obj)
    ultimately show ?thesis using m assms(1) Cons by (subst nth_loop.simps) (simp add: get_next_obj)
  qed
qed

lemma get_first_obj:
  assumes "loaded_types E" "store_inv s fs" "obj s c = Some mc" "has E mc CONTENT"
  shows "get_first_container_object E c s = Some (attr E mc CONTENT, s)"
  using assms(3,4) has_attribute_flags(1) get_attribute_obj [OF assms]
  by (auto simp: get_first_container_object_def get_object_type_obj [OF assms(2,3)])

lemma get_container_object_ok:
  assumes "loaded_types E" "store_inv s fs" "tree_inv E s cs" "obj s c = Some mc" "has E mc CONTENT"
  shows "get_container_object E c (int i) s = Some (if i < length (cs c) then cs c ! i else 0, s)"
proof -
  note D = tree_invD [OF assms(3)]
  have "\<forall>n\<in>set (cs c). obj s n \<noteq> None" using D(3) by auto
  then have "nth_loop E (int i) (attr E mc CONTENT) s = Some (first_num (drop i (cs c)), s)"
    using nth_loop_path [OF assms(2) D(1) [OF assms(4,5)]] by blast
  moreover have "first_num (drop i (cs c)) = (if i < length (cs c) then cs c ! i else 0)"
    by (simp add: first_num_def hd_drop_conv_nth split: list.split) (metis drop_eq_Nil hd_drop_conv_nth list.sel(1) not_le list.distinct(1))
  ultimately show ?thesis using get_first_obj [OF assms(1,2,4,5)] assms(2,4) by (simp add: get_container_object_def)
qed

end
