(* ===== verification/Object_Ops.thy ===== *)
theory Object_Ops
  imports Object_Tree
begin

text \<open>
  Operations on whole objects (\<open>game_data/map/map.cpp\<close>): creating an object inside a container, changing its type,
  copying, splitting, merging and destroying it. They join the store and the containers with the cron system, which
  knows the objects that expire, and with the table of strings.
\<close>

section \<open>Calls of the other components\<close>

text \<open>
  What the cron system sees of the objects. Existence and types do not change while one of its functions
  runs.
\<close>

definition cron_view :: "env \<Rightarrow> objects \<Rightarrow> cron_objects" where
  "cron_view E s = \<lparr>
     obj_exists = (\<lambda>n. case exists E n s of Some (b, _) \<Rightarrow> b | None \<Rightarrow> False),
     flag_expire = (\<lambda>n. case get_object_type E n s of Some (t, _) \<Rightarrow> get_flag (ObjectTypes E) t EXPIRE | None \<Rightarrow> False),
     total_expire_time = (\<lambda>n. case get_object_type E n s of
         None \<Rightarrow> 0
       | Some (t, _) \<Rightarrow> (case get_type_attribute (ObjectTypes E) t TOTALEXPIRETIME of Some (v, _) \<Rightarrow> v | None \<Rightarrow> 0))\<rparr>"

definition stop_timer :: "env \<Rightarrow> u32 \<Rightarrow> objects \<Rightarrow> (u32 \<times> objects) option" where
  "stop_timer E ob s = do {
     (_, s) \<leftarrow> exists E ob s;
     (c, v, err) \<leftarrow> cron_stop (cron_view E s) (RoundNr E) ob (crons s);
     Some (v, report_if err ''cron_stop'' (s\<lparr>crons := c\<rparr>))}"

definition start_timer :: "env \<Rightarrow> u32 \<Rightarrow> int \<Rightarrow> objects \<Rightarrow> objects option" where
  "start_timer E ob Delay s = do {
     (_, s) \<leftarrow> exists E ob s;
     (c, err) \<leftarrow> cron_expire (cron_view E s) (RoundNr E) ob Delay (crons s);
     Some (report_if err ''cron_expire'' (s\<lparr>crons := c\<rparr>))}"

definition delete_string :: "env \<Rightarrow> u32 \<Rightarrow> int \<Rightarrow> objects \<Rightarrow> objects option" where
  "delete_string E ob Attribute s = do {
     (Number, s) \<leftarrow> get_attribute E ob Attribute s;
     (d, err) \<leftarrow> DeleteDynamicString Number (strings s);
     Some (report_if err ''DeleteDynamicString'' (s\<lparr>strings := d\<rparr>))}"

section \<open>Changing the type\<close>

text \<open>
  What \<open>change_object\<close> saves of the old type: the amount, the rounds left until the object expires and the delay it
  continues with.
\<close>

definition leave_type :: "env \<Rightarrow> u32 \<Rightarrow> int \<Rightarrow> int \<Rightarrow> objects \<Rightarrow> (u32 \<times> u32 \<times> int \<times> objects) option" where
  "leave_type E ob OldType NewType s =
     (if is_map_container OldType then Some (0, 0, - 1, s)
      else do {
        (Amount, s) \<leftarrow> (if get_flag (ObjectTypes E) OldType CUMULATIVE then get_attribute E ob AMOUNT s else Some (0, s));
        (SavedExpireTime, s) \<leftarrow> (if get_flag (ObjectTypes E) OldType EXPIRE then stop_timer E ob s else Some (0, s));
        Amount \<leftarrow> Some (if get_flag (ObjectTypes E) OldType EXPIRE \<and> get_flag (ObjectTypes E) NewType CUMULATIVE then 1
          else Amount);
        s \<leftarrow> (if get_flag (ObjectTypes E) OldType TEXT \<and> \<not> get_flag (ObjectTypes E) NewType TEXT
             then do {
               s \<leftarrow> delete_string E ob TEXTSTRING s;
               s \<leftarrow> set_attribute E ob TEXTSTRING 0 s;
               s \<leftarrow> delete_string E ob EDITOR s;
               set_attribute E ob EDITOR 0 s}
             else Some s);
        (Delay, s) \<leftarrow> (if get_flag (ObjectTypes E) OldType EXPIRESTOP
             then do {(v, s) \<leftarrow> get_attribute E ob SAVEDEXPIRETIME s; Some (if v \<noteq> 0 then sint v else - 1, s)}
             else Some (- 1, s));
        s \<leftarrow> (if get_flag (ObjectTypes E) OldType MAGICFIELD then set_attribute E ob RESPONSIBLE 0 s else Some s);
        Some (Amount, SavedExpireTime, Delay, s)})"

text \<open>An attribute that must not be 0 in the new type.\<close>

definition default_attribute :: "env \<Rightarrow> u32 \<Rightarrow> int \<Rightarrow> u32 \<Rightarrow> objects \<Rightarrow> objects option" where
  "default_attribute E ob Attribute Value s = do {
     (v, s) \<leftarrow> get_attribute E ob Attribute s;
     if v = 0 then set_attribute E ob Attribute Value s else Some s}"

definition enter_type :: "env \<Rightarrow> u32 \<Rightarrow> int \<Rightarrow> u32 \<Rightarrow> u32 \<Rightarrow> objects \<Rightarrow> objects option" where
  "enter_type E ob NewType Amount SavedExpireTime s = do {
     s \<leftarrow> (if get_flag (ObjectTypes E) NewType CUMULATIVE
          then set_attribute E ob AMOUNT (if Amount \<le> 0 then 1 else Amount) s else Some s);
     s \<leftarrow> (if get_flag (ObjectTypes E) NewType RUNE then default_attribute E ob CHARGES 1 s else Some s);
     s \<leftarrow> (if get_flag (ObjectTypes E) NewType LIQUIDPOOL then default_attribute E ob POOLLIQUIDTYPE 1 s else Some s);
     s \<leftarrow> (if get_flag (ObjectTypes E) NewType WEAROUT
          then do {
            (v, s) \<leftarrow> get_attribute E ob REMAININGUSES s;
            if v = 0
            then do {
              (t, err) \<leftarrow> get_type_attribute (ObjectTypes E) NewType TOTALUSES;
              set_attribute E ob REMAININGUSES t (report_if err ''ObjectType::get_attribute'' s)}
            else Some s}
          else Some s);
     if get_flag (ObjectTypes E) NewType EXPIRESTOP then set_attribute E ob SAVEDEXPIRETIME SavedExpireTime s else Some s}"

definition change_object :: "env \<Rightarrow> u32 \<Rightarrow> int \<Rightarrow> objects \<Rightarrow> objects option" where
  "change_object E ob NewType s = do {
     (e, s) \<leftarrow> exists E ob s;
     if \<not> e then Some (report ''change_object: Provided object does not exist'' s)
     else do {
       (OldType, s) \<leftarrow> get_object_type E ob s;
       (Amount, SavedExpireTime, Delay, s) \<leftarrow> leave_type E ob OldType NewType s;
       s \<leftarrow> set_object_type E ob NewType s;
       s \<leftarrow> enter_type E ob NewType Amount SavedExpireTime s;
       start_timer E ob Delay s}}"

definition change_object_attribute :: "env \<Rightarrow> u32 \<Rightarrow> int \<Rightarrow> u32 \<Rightarrow> objects \<Rightarrow> objects option" where
  "change_object_attribute E ob Attribute Value s = do {
     (e, s) \<leftarrow> exists E ob s;
     if \<not> e then Some (report ''change_object: Provided object does not exist'' s)
     else set_attribute E ob Attribute Value s}"

section \<open>New objects in a container\<close>

definition append_object :: "env \<Rightarrow> u32 \<Rightarrow> int \<Rightarrow> objects \<Rightarrow> (u32 \<times> objects) option" where
  "append_object E Con Type s = do {
     (e, s) \<leftarrow> exists E Con s;
     if \<not> e then Some (0, report ''append_object: Provided container does not exist'' s)
     else do {
       (ob, s) \<leftarrow> create_object E s;
       s \<leftarrow> change_object E ob Type s;
       s \<leftarrow> place_object E ob Con True s;
       Some (ob, s)}}"

definition set_object :: "env \<Rightarrow> u32 \<Rightarrow> int \<Rightarrow> u32 \<Rightarrow> objects \<Rightarrow> (u32 \<times> objects) option" where
  "set_object E Con Type CreatureID s = do {
     (e, s) \<leftarrow> exists E Con s;
     if \<not> e then Some (0, report ''set_object: Provided container does not exist'' s)
     else do {
       (ob, s) \<leftarrow> create_object E s;
       s \<leftarrow> change_object E ob Type s;
       s \<leftarrow> place_object E ob Con False s;
       s \<leftarrow> (if is_creature_container Type
            then modify E ob (\<lambda>m. m\<lparr>Attributes := (Attributes m)[1 := CreatureID]\<rparr>)
              (report_if (CreatureID = 0) ''set_object: Invalid creature ID'' s)
            else Some s);
       Some (ob, s)}}"

text \<open>The loop over the four attributes.\<close>

fun copy_attributes :: "env \<Rightarrow> u32 \<Rightarrow> u32 \<Rightarrow> nat list \<Rightarrow> objects \<Rightarrow> objects option" where
  "copy_attributes E NewObj Source [] s = Some s"
| "copy_attributes E NewObj Source (i # is) s = do {
     (m, s) \<leftarrow> fetch E Source s;
     v \<leftarrow> arr_get (Attributes m) (int i);
     s \<leftarrow> modify E NewObj (\<lambda>m. m\<lparr>Attributes := (Attributes m)[i := v]\<rparr>) s;
     copy_attributes E NewObj Source is s}"

text \<open>A copy gets its own string.\<close>

definition copy_string :: "env \<Rightarrow> u32 \<Rightarrow> int \<Rightarrow> objects \<Rightarrow> objects option" where
  "copy_string E NewObj Attribute s = do {
     (Number, s) \<leftarrow> get_attribute E NewObj Attribute s;
     if Number \<noteq> 0
     then do {
       (t, err) \<leftarrow> GetDynamicString Number (strings s);
       (d, N, err2) \<leftarrow> AddDynamicString t (strings s);
       set_attribute E NewObj Attribute N
         (report_if err2 ''AddDynamicString'' (report_if err ''GetDynamicString'' (s\<lparr>strings := d\<rparr>)))}
     else Some s}"

definition copy_object :: "env \<Rightarrow> u32 \<Rightarrow> u32 \<Rightarrow> objects \<Rightarrow> (u32 \<times> objects) option" where
  "copy_object E Con Source s = do {
     (e1, s) \<leftarrow> exists E Source s;
     if \<not> e1 then Some (0, report ''copy_object: Source does not exist'' s)
     else do {
       (e2, s) \<leftarrow> exists E Con s;
       if \<not> e2 then Some (0, report ''copy_object: Destination container does not exist'' s)
       else do {
         (SourceType, s) \<leftarrow> get_object_type E Source s;
         if is_creature_container SourceType then Some (0, report ''copy_object: Creatures must not be copied'' s)
         else do {
           (NewObj, s) \<leftarrow> set_object E Con SourceType 0 s;
           s \<leftarrow> copy_attributes E NewObj Source [0..<4] s;
           s \<leftarrow> (if get_flag (ObjectTypes E) SourceType CONTAINER \<or> get_flag (ObjectTypes E) SourceType CHEST
                then set_attribute E NewObj CONTENT 0 s else Some s);
           s \<leftarrow> (if get_flag (ObjectTypes E) SourceType TEXT
                then do {s \<leftarrow> copy_string E NewObj TEXTSTRING s; copy_string E NewObj EDITOR s}
                else Some s);
           Some (NewObj, s)}}}}"

definition split_object :: "env \<Rightarrow> u32 \<Rightarrow> int \<Rightarrow> objects \<Rightarrow> (u32 \<times> objects) option" where
  "split_object E ob Count s = do {
     (e, s) \<leftarrow> exists E ob s;
     if \<not> e then Some (0, report ''split_object: Provided object does not exist'' s)
     else do {
       (ObjType, s) \<leftarrow> get_object_type E ob s;
       if \<not> get_flag (ObjectTypes E) ObjType CUMULATIVE then Some (ob, report ''split_object: Object is not cumulative'' s)
       else do {
         (Amount, s) \<leftarrow> get_attribute E ob AMOUNT s;
         if Count \<le> 0 \<or> word_of_int Count > Amount then Some (ob, report ''split_object: Invalid count'' s)
         else if word_of_int Count \<noteq> Amount
         then do {
           (Con, s) \<leftarrow> get_container E ob s;
           (Res, s) \<leftarrow> copy_object E Con ob s;
           s \<leftarrow> set_attribute E Res AMOUNT (word_of_int Count) s;
           s \<leftarrow> set_attribute E ob AMOUNT (Amount - word_of_int Count) s;
           Some (Res, s)}
         else Some (ob, s)}}}"

section \<open>Destroying\<close>

text \<open>
  The functions \<open>delete_object\<close> and \<open>DestroyObject\<close> call each other, from a loop over the contents of a container.
\<close>

datatype removal = Delete | Destroy | Contents

definition destroy_strings :: "env \<Rightarrow> u32 \<Rightarrow> int \<Rightarrow> objects \<Rightarrow> objects option" where
  "destroy_strings E ob ObjType s =
     (if get_flag (ObjectTypes E) ObjType TEXT
      then do {s \<leftarrow> delete_string E ob TEXTSTRING s; delete_string E ob EDITOR s}
      else Some s)"

definition destroy_rest :: "env \<Rightarrow> u32 \<Rightarrow> int \<Rightarrow> objects \<Rightarrow> objects option" where
  "destroy_rest E ob ObjType s = do {
     s \<leftarrow> (if get_flag (ObjectTypes E) ObjType EXPIRE then do {(_, s) \<leftarrow> stop_timer E ob s; Some s} else Some s);
     free_object ob s}"

partial_function (option) remove :: "env \<Rightarrow> removal \<Rightarrow> u32 \<Rightarrow> objects \<Rightarrow> objects option" where
  "remove E r ob s =
     (if r = Contents
      then Option.bind (get_attribute E ob CONTENT s) (\<lambda>(Inner, s).
        if Inner = 0 then Some s
        else Option.bind (remove E Delete Inner s) (\<lambda>s. remove E Contents ob s))
      else Option.bind (exists E ob s) (\<lambda>(e, s).
        if \<not> e then Some (report (if r = Delete then ''delete_object: Provided object does not exist''
          else ''DestroyObject: Provided object does not exist'') s)
        else if r = Delete then Option.bind (cut_object E ob s) (\<lambda>s. remove E Destroy ob s)
        else Option.bind (get_object_type E ob s) (\<lambda>(ObjType, s).
          Option.bind (destroy_strings E ob ObjType s) (\<lambda>s.
          Option.bind (if get_flag (ObjectTypes E) ObjType CONTAINER \<or> get_flag (ObjectTypes E) ObjType CHEST
                       then remove E Contents ob s else Some s) (\<lambda>s.
          destroy_rest E ob ObjType s)))))"

declare remove.simps [code]

definition delete_object :: "env \<Rightarrow> u32 \<Rightarrow> objects \<Rightarrow> objects option" where
  "delete_object E ob s = remove E Delete ob s"

definition merge_objects :: "env \<Rightarrow> u32 \<Rightarrow> u32 \<Rightarrow> objects \<Rightarrow> objects option" where
  "merge_objects E ob Dest s = do {
     (e1, s) \<leftarrow> exists E ob s;
     if \<not> e1 then Some (report ''merge_objects: Provided object does not exist'' s)
     else do {
       (e2, s) \<leftarrow> exists E Dest s;
       if \<not> e2 then Some (report ''merge_objects: Provided destination does not exist'' s)
       else do {
         (ObjType, s) \<leftarrow> get_object_type E ob s;
         (DestType, s) \<leftarrow> get_object_type E Dest s;
         if ObjType \<noteq> DestType then Some (report ''merge_objects: Object types are not identical'' s)
         else if \<not> get_flag (ObjectTypes E) ObjType CUMULATIVE then Some (report ''merge_objects: Object type is not cumulative'' s)
         else do {
           (ObjAmount, s) \<leftarrow> get_attribute E ob AMOUNT s;
           (ObjAmount, s) \<leftarrow> Some (if ObjAmount = 0 then (1, report ''merge_objects: Object contains 0 parts'' s) else (ObjAmount, s));
           (DestAmount, s) \<leftarrow> get_attribute E Dest AMOUNT s;
           (DestAmount, s) \<leftarrow> Some (if DestAmount = 0 then (1, report ''merge_objects: Destination object contains 0 parts'' s)
             else (DestAmount, s));
           (DestAmount, s) \<leftarrow> Some (if DestAmount + ObjAmount > 100
             then (100, report ''merge_objects: New object contains more than 100 parts'' s) else (DestAmount + ObjAmount, s));
           s \<leftarrow> set_attribute E Dest AMOUNT DestAmount s;
           delete_object E ob s}}}}"

end
