(* ===== verification/Object_World.thy ===== *)
theory Object_World
  imports Object_Ops
begin

text \<open>
  The objects of the world as a whole: the store, the containers and their nesting, the timers of the objects that expire and
  the strings of the objects with a text, under one invariant. Every operation on objects keeps it, and destroying an object
  takes everything inside with it.
\<close>

section \<open>The invariant\<close>

text \<open>No container is inside itself.\<close>

definition nested_by :: "(u32 \<Rightarrow> nat) \<Rightarrow> (u32 \<Rightarrow> u32 list) \<Rightarrow> bool" where
  "nested_by depth cs \<longleftrightarrow> (\<forall>c x. x \<in> set (cs c) \<longrightarrow> depth x < depth c)"

definition nested :: "(u32 \<Rightarrow> u32 list) \<Rightarrow> bool" where
  "nested cs \<longleftrightarrow> (\<exists>depth. nested_by depth cs)"

text \<open>Every object whose type expires has exactly one timer, and no timer is left of an object that is gone.\<close>

definition timers_ok :: "env \<Rightarrow> objects \<Rightarrow> bool" where
  "timers_ok E s \<longleftrightarrow> cron_inv (crons s) \<and>
     (\<forall>n. count (image_mset fst (registered (crons s))) n = (if \<exists>m. obj s n = Some m \<and> flag E m EXPIRE then 1 else 0))"

definition number_ok :: "u32 \<Rightarrow> bool" where
  "number_ok N \<longleftrightarrow> N = 0 \<or> uint (N - 1) < 2 ^ 31"

definition texts_ok :: "env \<Rightarrow> objects \<Rightarrow> bool" where
  "texts_ok E s \<longleftrightarrow> String_Table.table_ok (strings s) \<and>
     (\<forall>n m. obj s n = Some m \<longrightarrow> flag E m TEXT \<longrightarrow> number_ok (attr E m TEXTSTRING) \<and> number_ok (attr E m EDITOR))"

definition fields_sorted :: "env \<Rightarrow> objects \<Rightarrow> (u32 \<Rightarrow> u32 list) \<Rightarrow> bool" where
  "fields_sorted E s cs \<longleftrightarrow> (\<forall>c m. obj s c = Some m \<longrightarrow> is_map_container (OType m) \<longrightarrow> field_sorted E s (cs c))"

definition world_inv :: "env \<Rightarrow> objects \<Rightarrow> addr list \<Rightarrow> (u32 \<Rightarrow> u32 list) \<Rightarrow> bool" where
  "world_inv E s fs cs \<longleftrightarrow> store_inv s fs \<and> tree_inv E s cs \<and> nested cs \<and> timers_ok E s \<and> texts_ok E s \<and> fields_sorted E s cs"

lemma world_invD:
  assumes "world_inv E s fs cs"
  shows "store_inv s fs" "tree_inv E s cs" "nested cs" "timers_ok E s" "texts_ok E s" "fields_sorted E s cs"
  using assms by (simp_all add: world_inv_def)

text \<open>What is in a container, directly or not, and the container itself.\<close>

definition inside :: "(u32 \<Rightarrow> u32 list) \<Rightarrow> u32 \<Rightarrow> u32 set" where
  "inside cs c = {(a, b). b \<in> set (cs a)}\<^sup>* `` {c}"

lemma inside_refl [simp, intro]: "c \<in> inside cs c"
  by (simp add: inside_def)

lemma inside_step: "x \<in> inside cs c \<Longrightarrow> y \<in> set (cs x) \<Longrightarrow> y \<in> inside cs c"
  by (auto simp: inside_def intro: rtrancl.rtrancl_into_rtrancl)

lemma inside_trans: "x \<in> inside cs c \<Longrightarrow> y \<in> inside cs x \<Longrightarrow> y \<in> inside cs c"
  by (auto simp: inside_def)

lemma inside_induct [consumes 1, case_names base step]:
  assumes "x \<in> inside cs c" "P c" "\<And>y z. y \<in> inside cs c \<Longrightarrow> P y \<Longrightarrow> z \<in> set (cs y) \<Longrightarrow> P z"
  shows "P x"
proof -
  have "(c, x) \<in> {(a, b). b \<in> set (cs a)}\<^sup>*" using assms(1) by (simp add: inside_def)
  then show ?thesis by induction (use assms(2,3) in \<open>auto simp: inside_def\<close>)
qed

lemma inside_empty: "cs c = [] \<Longrightarrow> inside cs c = {c}"
proof (intro equalityI subsetI)
  fix x assume "x \<in> inside cs c" "cs c = []"
  then show "x \<in> {c}" by (induction rule: inside_induct) auto
qed simp

lemma inside_mono:
  assumes "\<And>k. set (cs' k) \<subseteq> set (cs k)"
  shows "inside cs' c \<subseteq> inside cs c"
proof
  fix x assume "x \<in> inside cs' c"
  then show "x \<in> inside cs c" by (induction rule: inside_induct) (use assms inside_step in blast)+
qed

lemma inside_depth:
  assumes "nested_by depth cs" "x \<in> inside cs c"
  shows "depth x \<le> depth c"
  using assms(2)
proof (induction rule: inside_induct)
  case (step y z)
  then have "depth z < depth y" using assms(1) unfolding nested_by_def by blast
  then show ?case using step by linarith
qed simp

text \<open>The contents when \<open>n\<close> is gone.\<close>

definition without :: "(u32 \<Rightarrow> u32 list) \<Rightarrow> u32 \<Rightarrow> u32 \<Rightarrow> u32 list" where
  "without cs n k = (if k \<in> inside cs n then [] else remove1 n (cs k))"

lemma without_subset: "set (without cs n k) \<subseteq> set (cs k)"
  using set_remove1_subset [of n "cs k"] by (simp add: without_def)

lemma nested_by_subset: "nested_by depth cs \<Longrightarrow> (\<And>k. set (cs' k) \<subseteq> set (cs k)) \<Longrightarrow> nested_by depth cs'"
  unfolding nested_by_def by blast

lemma inside_split:
  assumes "x \<in> set (cs n)" "distinct (cs n)"
  shows "inside cs n \<subseteq> inside cs x \<union> inside (without cs x) n"
proof
  fix k assume "k \<in> inside cs n"
  then show "k \<in> inside cs x \<union> inside (without cs x) n"
  proof (induction rule: inside_induct)
    case (step y z)
    show ?case
    proof (cases "y \<in> inside cs x \<or> z = x")
      case True
      then have "z \<in> inside cs x" using inside_step [of y cs x z, OF _ step.hyps(2)] by blast
      then show ?thesis by blast
    next
      case False
      then have "z \<in> set (without cs x y)" using step.hyps(2) by (simp add: without_def in_set_remove1)
      moreover have "y \<in> inside (without cs x) n" using step.IH False by blast
      ultimately show ?thesis by (blast intro: inside_step)
    qed
  qed simp
qed


section \<open>What an operation takes away\<close>

definition texts :: "env \<Rightarrow> objects \<Rightarrow> u32 set \<Rightarrow> u32 set" where
  "texts E s A = {N. N \<noteq> 0 \<and> (\<exists>k\<in>A. \<exists>m. obj s k = Some m \<and> flag E m TEXT \<and> (N = attr E m TEXTSTRING \<or> N = attr E m EDITOR))}"

text \<open>
  Exactly the objects \<open>A\<close> are gone, with their timers and strings; of the others at most the links
  changed.
\<close>

definition gone :: "env \<Rightarrow> objects \<Rightarrow> u32 set \<Rightarrow> objects \<Rightarrow> bool" where
  "gone E s A s' \<longleftrightarrow> (\<forall>k. if k \<in> A then obj s' k = None else rel_option (alike E) (obj s k) (obj s' k)) \<and>
     registered (crons s') = filter_mset (\<lambda>p. fst p \<notin> A) (registered (crons s)) \<and>
     string_of (strings s') = (\<lambda>N. if N \<in> texts E s A then None else string_of (strings s) N)"

lemma texts_alike:
  assumes "\<And>k. k \<in> A \<Longrightarrow> rel_option (alike E) (obj s k) (obj s' k)"
  shows "texts E s' A = texts E s A"
proof -
  have "(\<exists>m. obj s' k = Some m \<and> flag E m TEXT \<and> (N = attr E m TEXTSTRING \<or> N = attr E m EDITOR)) \<longleftrightarrow>
      (\<exists>m. obj s k = Some m \<and> flag E m TEXT \<and> (N = attr E m TEXTSTRING \<or> N = attr E m EDITOR))" if k: "k \<in> A" for k N
  proof (cases "obj s k")
    case None
    then show ?thesis using assms [OF k] by simp
  next
    case (Some m)
    then obtain m' where m': "obj s' k = Some m'" "alike E m m'" using assms [OF k] by (cases "obj s' k") auto
    have "flag E m TEXT \<Longrightarrow> attr E m' TEXTSTRING = attr E m TEXTSTRING \<and> attr E m' EDITOR = attr E m EDITOR"
      using m'(2) has_attribute_flags(4,5) by (simp add: alike_def)
    then show ?thesis using Some m' by (auto simp: alike_def)
  qed
  then show ?thesis by (simp add: texts_def cong: bex_cong)
qed

lemma texts_Un: "texts E s (A \<union> B) = texts E s A \<union> texts E s B"
  by (auto simp: texts_def)

lemma gone_trans:
  assumes "gone E s A s1" "gone E s1 B s2"
  shows "gone E s (A \<union> B) s2"
proof -
  have g: "\<And>k. k \<in> A \<Longrightarrow> obj s1 k = None" "\<And>k. k \<notin> A \<Longrightarrow> rel_option (alike E) (obj s k) (obj s1 k)"
    "\<And>k. k \<in> B \<Longrightarrow> obj s2 k = None" "\<And>k. k \<notin> B \<Longrightarrow> rel_option (alike E) (obj s1 k) (obj s2 k)"
    using assms unfolding gone_def by presburger+
  have "if k \<in> A \<union> B then obj s2 k = None else rel_option (alike E) (obj s k) (obj s2 k)" for k
  proof (cases "k \<in> B \<or> k \<in> A")
    case True
    then show ?thesis using g(1,3) [of k] g(4) [of k] by (cases "k \<in> B") auto
  next
    case False
    then show ?thesis using g(2) [of k] g(4) [of k]
      by (cases "obj s k"; cases "obj s1 k"; cases "obj s2 k") (auto intro: alike_trans)
  qed
  moreover have "texts E s (A \<union> B) = texts E s A \<union> texts E s1 B"
  proof -
    have "texts E s1 B = texts E s1 (B - A)" using g(1) by (force simp: texts_def)
    also have "\<dots> = texts E s (B - A)" by (rule texts_alike) (use g(2) in simp)
    finally show ?thesis by (metis Un_Diff_cancel texts_Un)
  qed
  moreover have "registered (crons s2) = filter_mset (\<lambda>p. fst p \<notin> A \<union> B) (registered (crons s))"
    using assms by (simp add: gone_def filter_filter_mset conj_commute)
  ultimately show ?thesis using assms by (auto simp: gone_def fun_eq_iff)
qed

lemma relinked_gone: "relinked E s s' \<Longrightarrow> gone E s {} s'"
  by (simp add: relinked_def gone_def texts_def)


section \<open>Destroying one object\<close>

lemma cron_view_obj [simp]:
  assumes "store_inv s fs"
  shows "obj_exists (cron_view E s) n = (obj s n \<noteq> None)"
    and "obj s n = Some m \<Longrightarrow> flag_expire (cron_view E s) n = flag E m EXPIRE"
  using assms by (simp_all add: cron_view_def get_object_type_obj)

lemma registered_once:
  assumes "timers_ok E s"
  shows "is_registered (crons s) n \<longleftrightarrow> (\<exists>m. obj s n = Some m \<and> flag E m EXPIRE)"
proof -
  have "count (image_mset fst (registered (crons s))) n = (if \<exists>m. obj s n = Some m \<and> flag E m EXPIRE then 1 else 0)"
    using assms by (simp add: timers_ok_def)
  then show ?thesis unfolding is_registered_def by (metis count_eq_zero_iff zero_neq_one)
qed

lemma count_fst_zero: "n \<notin># image_mset fst M \<Longrightarrow> filter_mset (\<lambda>p. fst p \<noteq> n) M = M"
  by (induction M) auto

text \<open>Taking the timer of an object out of the cron system.\<close>

lemma stop_timer_ok:
  assumes "store_inv s fs" "timers_ok E s" "obj s n = Some m" "flag E m EXPIRE"
  shows "\<exists>r c. (n, r) \<in># registered (crons s) \<and> stop_timer E n s = Some (remaining (RoundNr E) r, s\<lparr>crons := c\<rparr>) \<and> cron_inv c
    \<and> registered c = filter_mset (\<lambda>p. fst p \<noteq> n) (registered (crons s))"
proof -
  have c: "cron_inv (crons s)" and one: "count (image_mset fst (registered (crons s))) n = 1"
    using assms by (auto simp: timers_ok_def)
  have r: "is_registered (crons s) n" using registered_once [OF assms(2)] assms(3,4) by blast
  obtain d v r where d: "cron_stop (cron_view E s) (RoundNr E) n (crons s) = Some (d, v, False)" "cron_inv d"
    "v = remaining (RoundNr E) r" "registered (crons s) = add_mset (n, r) (registered d)"
    using cron_stop_spec [OF c, of "cron_view E s" "RoundNr E" n] r assms(1,3) by auto
  have "count (image_mset fst (registered d)) n = 0" using one d(4) by simp
  then have "n \<notin># image_mset fst (registered d)" by (metis count_eq_zero_iff)
  then have "registered d = filter_mset (\<lambda>p. fst p \<noteq> n) (registered (crons s))" using d(4) count_fst_zero [of n "registered d"] by simp
  then show ?thesis using d assms(1) by (intro exI [of _ r] exI [of _ d]) (simp add: stop_timer_def report_if_def)
qed

lemma count_filter_fst:
  "count (image_mset fst (filter_mset (\<lambda>p. fst p \<noteq> n) M)) k = (if k = n then 0 else count (image_mset fst M) k)"
  by (induction M) auto

lemma tree_removed:
  assumes "tree_inv E s cs" "obj s' = (obj s)(n := None)" "obj s n = Some m" "Container m = 0" "cs n = []"
  shows "tree_inv E s' cs"
proof -
  note D = tree_invD [OF assms(1)]
  have out: "n \<notin> set (cs c)" for c using D(3) [of n c] assms(3,4) by auto
  have nx: "onext s' k = onext s k" if "k \<noteq> n" for k using that assms(2) by (simp add: onext_def)
  show ?thesis unfolding tree_inv_def
  proof (intro conjI allI impI)
    fix c mc assume c: "obj s' c = Some mc" "has E mc CONTENT"
    then have "path (onext s) (opt_id (attr E mc CONTENT)) (cs c)" using D(1) assms(2) by (auto split: if_splits)
    then show "path (onext s') (opt_id (attr E mc CONTENT)) (cs c)" by (rule path_cong) (use nx out in metis)
    show "distinct (cs c)" by (rule D(2))
  next
    fix c assume "\<forall>m. obj s' c = Some m \<longrightarrow> \<not> has E m CONTENT"
    then show "cs c = []" using D(4) [of c] assms(2,5) by (cases "c = n") auto
  next
    fix c k
    show "k \<in> set (cs c) \<longleftrightarrow> c \<noteq> 0 \<and> (\<exists>m. obj s' k = Some m \<and> Container m = c)"
      using D(3) [of k c] assms(2) out by (cases "k = n") auto
  qed
qed

lemma field_sorted_eq: "(\<And>x. x \<in> set xs \<Longrightarrow> prio E s' x = prio E s x) \<Longrightarrow> field_sorted E s' xs = field_sorted E s xs"
  by (simp add: field_sorted_def cong: map_cong)

lemma destroy_rest_ok:
  assumes inv: "world_inv E s fs cs" and m: "obj s n = Some m" "Container m = 0" "cs n = []"
  shows "\<exists>p s'. destroy_rest E n (OType m) s = Some s' \<and> world_inv E s' (p # fs) cs \<and> obj s' = (obj s)(n := None)
    \<and> registered (crons s') = filter_mset (\<lambda>p. fst p \<noteq> n) (registered (crons s)) \<and> strings s' = strings s"
proof -
  note W = world_invD [OF inv]
  have c: "cron_inv (crons s)" using W(4) by (simp add: timers_ok_def)
  obtain c where c: "(if flag E m EXPIRE then do {(_, s) \<leftarrow> stop_timer E n s; Some s} else Some s) = Some (s\<lparr>crons := c\<rparr>)"
    "cron_inv c" "registered c = filter_mset (\<lambda>p. fst p \<noteq> n) (registered (crons s))"
  proof (cases "flag E m EXPIRE")
    case True
    then show ?thesis using stop_timer_ok [OF W(1,4) m(1)] that by auto
  next
    case False
    then have "\<not> is_registered (crons s) n" using registered_once [OF W(4)] m(1) by simp
    then have "filter_mset (\<lambda>p. fst p \<noteq> n) (registered (crons s)) = registered (crons s)"
      by (intro count_fst_zero) (simp add: is_registered_def)
    then show ?thesis using that [of "crons s"] False c by simp
  qed
  obtain p s' where s': "free_object n (s\<lparr>crons := c\<rparr>) = Some s'" "store_inv s' (p # fs)" "obj s' = (obj s)(n := None)"
    "crons s' = c" "strings s' = strings s"
    using free_object_ok [of "s\<lparr>crons := c\<rparr>" fs n m] W(1) m(1) by auto
  have "timers_ok E s'" using W(4) c s' by (simp add: timers_ok_def count_filter_fst)
  moreover have "texts_ok E s'" using W(5) s' by (auto simp: texts_ok_def)
  moreover have "fields_sorted E s' cs" unfolding fields_sorted_def
  proof (intro allI impI)
    fix k mk assume k: "obj s' k = Some mk" "is_map_container (OType mk)"
    have "prio E s' x = prio E s x" if x: "x \<in> set (cs k)" for x
    proof -
      have "x \<noteq> n" using tree_invD(3) [OF W(2), of x k] x m by auto
      then show ?thesis using s'(3) by (simp add: prio_def)
    qed
    then have "field_sorted E s' (cs k) = field_sorted E s (cs k)" by (rule field_sorted_eq)
    moreover have "obj s k = Some mk" using k(1) s'(3) by (simp split: if_splits)
    ultimately show "field_sorted E s' (cs k)" using W(6) k(2) unfolding fields_sorted_def by blast
  qed
  ultimately have "world_inv E s' (p # fs) cs"
    using s'(2) tree_removed [OF W(2) s'(3) m] W(3) by (simp add: world_inv_def)
  moreover have "destroy_rest E n (OType m) s = Some s'" using c(1) s'(1) by (simp add: destroy_rest_def)
  ultimately show ?thesis using s' c(3) by blast
qed

lemma delete_string_ok:
  assumes "loaded_types E" "store_inv s fs" "texts_ok E s" "obj s n = Some m" "flag E m TEXT" "a = TEXTSTRING \<or> a = EDITOR"
  shows "\<exists>s' d x. delete_string E n a s = Some s' \<and> s' = s\<lparr>strings := d, messages := x\<rparr> \<and> String_Table.table_ok d
    \<and> string_of d = (string_of (strings s))(attr E m a := None)"
proof -
  have "has E m a" using assms(5,6) has_attribute_flags(4,5) by auto
  then have g: "get_attribute E n a s = Some (attr E m a, s)" using get_attribute_obj [OF assms(1,2,4)] by blast
  have N: "attr E m a = 0 \<or> uint (attr E m a - 1) < 2 ^ 31" "String_Table.table_ok (strings s)"
    using assms(3-6) by (auto simp: texts_ok_def number_ok_def)
  obtain d where d: "DeleteDynamicString (attr E m a) (strings s) = Some (d, attr E m a \<noteq> 0 \<and> string_of (strings s) (attr E m a) = None)"
    "String_Table.table_ok d" "string_of d = (string_of (strings s))(attr E m a := None)"
    using DeleteDynamicString_spec [OF N(2,1)] by blast
  obtain x where "report_if (attr E m a \<noteq> 0 \<and> string_of (strings s) (attr E m a) = None) ''DeleteDynamicString'' (s\<lparr>strings := d\<rparr>) =
      s\<lparr>strings := d, messages := x\<rparr>" using report_messages(2) by metis
  then have "delete_string E n a s = Some (s\<lparr>strings := d, messages := x\<rparr>)" using g d(1) by (simp add: delete_string_def)
  then show ?thesis using d by blast
qed


lemma world_strings:
  assumes "world_inv E s fs cs" "String_Table.table_ok d"
  shows "world_inv E (s\<lparr>strings := d, messages := x\<rparr>) fs cs"
proof -
  let ?s = "s\<lparr>strings := d, messages := x\<rparr>"
  have o: "obj ?s = obj s" by simp
  have "prio E ?s = prio E s" unfolding prio_def o by (rule refl)
  then have f: "field_sorted E ?s = field_sorted E s" by (rule field_sorted_cong)
  have t: "tree_inv E ?s cs" using tree_cong [OF o] world_invD(2) [OF assms(1)] by blast
  have "texts_ok E ?s" "timers_ok E ?s" "fields_sorted E ?s cs"
    using world_invD(4-6) [OF assms(1)] assms(2) f unfolding texts_ok_def timers_ok_def fields_sorted_def o by simp_all
  then show ?thesis using t world_invD(1,3) [OF assms(1)] by (simp add: world_inv_def)
qed

lemma string_of_0 [simp]: "string_of d 0 = None"
  by (simp add: string_of_def)

lemma destroy_strings_ok:
  assumes "loaded_types E" "world_inv E s fs cs" "obj s n = Some m"
  shows "\<exists>s'. destroy_strings E n (OType m) s = Some s' \<and> world_inv E s' fs cs \<and> obj s' = obj s \<and> crons s' = crons s
    \<and> string_of (strings s') = (\<lambda>N. if N \<in> texts E s {n} then None else string_of (strings s) N)"
proof (cases "flag E m TEXT")
  case True
  note W = world_invD [OF assms(2)]
  obtain d x where d: "delete_string E n TEXTSTRING s = Some (s\<lparr>strings := d, messages := x\<rparr>)" "String_Table.table_ok d"
    "string_of d = (string_of (strings s))(attr E m TEXTSTRING := None)"
    using delete_string_ok [OF assms(1) W(1,5) assms(3) True, of TEXTSTRING] by blast
  let ?s = "s\<lparr>strings := d, messages := x\<rparr>"
  have W1: "world_inv E ?s fs cs" by (rule world_strings [OF assms(2) d(2)])
  note V = world_invD [OF W1]
  obtain d2 x2 where d2: "delete_string E n EDITOR ?s = Some (?s\<lparr>strings := d2, messages := x2\<rparr>)" "String_Table.table_ok d2"
    "string_of d2 = (string_of d)(attr E m EDITOR := None)"
    using delete_string_ok [OF assms(1) V(1,5) _ True, of n EDITOR] assms(3) by auto
  have "world_inv E (?s\<lparr>strings := d2, messages := x2\<rparr>) fs cs" by (rule world_strings [OF W1 d2(2)])
  moreover have "string_of d2 = (\<lambda>N. if N \<in> texts E s {n} then None else string_of (strings s) N)"
    using d(3) d2(3) True assms(3) by (auto simp: texts_def fun_eq_iff)
  ultimately show ?thesis using d(1) d2(1) True
    by (intro exI [of _ "?s\<lparr>strings := d2, messages := x2\<rparr>"]) (simp add: destroy_strings_def)
next
  case False
  then show ?thesis using assms by (auto simp: destroy_strings_def texts_def)
qed

section \<open>Deleting an object with everything inside\<close>

lemma relinked_timers: "relinked E s s' \<Longrightarrow> timers_ok E s' = timers_ok E s"
proof -
  assume r: "relinked E s s'"
  have "(\<exists>m. obj s' n = Some m \<and> flag E m EXPIRE) \<longleftrightarrow> (\<exists>m. obj s n = Some m \<and> flag E m EXPIRE)" for n
  proof -
    have "rel_option (alike E) (obj s n) (obj s' n)" using r by (simp add: relinked_def)
    then show ?thesis by (cases "obj s n"; cases "obj s' n") (auto simp: alike_def)
  qed
  then show ?thesis using r by (simp add: timers_ok_def relinked_def)
qed

lemma relinked_texts:
  assumes r: "relinked E s s'" and t: "texts_ok E s"
  shows "texts_ok E s'"
  unfolding texts_ok_def
proof (intro conjI allI impI)
  show "String_Table.table_ok (strings s')" using assms by (simp add: texts_ok_def relinked_def)
  fix n m' assume m': "obj s' n = Some m'" "flag E m' TEXT"
  have "rel_option (alike E) (obj s n) (obj s' n)" using r by (simp add: relinked_def)
  then obtain m where m: "obj s n = Some m" "alike E m m'" using m'(1) by (cases "obj s n") auto
  have "flag E m TEXT" using m(2) m'(2) by (simp add: alike_def)
  moreover have "attr E m' TEXTSTRING = attr E m TEXTSTRING" "attr E m' EDITOR = attr E m EDITOR"
    using m(2) calculation has_attribute_flags(4,5) by (simp_all add: alike_def)
  ultimately show "number_ok (attr E m' TEXTSTRING)" "number_ok (attr E m' EDITOR)" using t m(1) by (simp_all add: texts_ok_def)
qed

lemma relinked_type: "relinked E s s' \<Longrightarrow> obj s' n = Some m' \<Longrightarrow> \<exists>m. obj s n = Some m \<and> alike E m m'"
proof -
  assume "relinked E s s'" and m': "obj s' n = Some m'"
  then have "rel_option (alike E) (obj s n) (obj s' n)" unfolding relinked_def by blast
  then show ?thesis using m' by (cases "obj s n") auto
qed

text \<open>Relinking keeps everything that is not about links.\<close>

lemma world_relinked:
  assumes "world_inv E s fs cs" "relinked E s s'" "store_inv s' fs" "tree_inv E s' cs'" "nested cs'"
    and "\<And>c m. obj s c = Some m \<Longrightarrow> is_map_container (OType m) \<Longrightarrow> field_sorted E s (cs' c)"
  shows "world_inv E s' fs cs'"
proof -
  note W = world_invD [OF assms(1)]
  have "fields_sorted E s' cs'" unfolding fields_sorted_def
  proof (intro allI impI)
    fix c m' assume c: "obj s' c = Some m'" "is_map_container (OType m')"
    then obtain m where "obj s c = Some m" "is_map_container (OType m)"
      using relinked_type [OF assms(2) c(1)] by (auto simp: alike_def)
    then show "field_sorted E s' (cs' c)" using assms(6) field_sorted_cong [OF relinked_prio [OF assms(2)]] by metis
  qed
  then show ?thesis using assms(3-5) relinked_timers [OF assms(2)] relinked_texts [OF assms(2) W(5)] W(4)
    by (simp add: world_inv_def)
qed

lemma sorted_remove1: "distinct xs \<Longrightarrow> field_sorted E s xs \<Longrightarrow> field_sorted E s (remove1 n xs)"
  by (simp add: field_sorted_def distinct_remove1_removeAll removeAll_filter_not_eq sorted_filter)

lemma cut_object_world:
  assumes "loaded_types E" "world_inv E s fs cs" "obj s n = Some m" "Container m \<noteq> 0"
  shows "\<exists>s' m'. cut_object E n s = Some s' \<and> world_inv E s' fs (\<lambda>k. remove1 n (cs k)) \<and> relinked E s s'
    \<and> obj s' n = Some m' \<and> Container m' = 0"
proof -
  note W = world_invD [OF assms(2)]
  note D = tree_invD [OF W(2)]
  obtain depth where depth: "nested_by depth cs" using W(3) by (auto simp: nested_def)
  have n: "n \<in> set (cs (Container m))" using D(3) assms(3,4) by auto
  then have "Container m \<noteq> n" using depth by (auto simp: nested_by_def)
  then obtain s' where s': "cut_object E n s = Some s'" "store_inv s' fs"
    "tree_inv E s' (cs(Container m := remove1 n (cs (Container m))))" "relinked E s s'"
    "obj s' n = Some (m\<lparr>NextObject := 0, Container := 0\<rparr>)"
    using cut_object_ok [OF assms(1) W(1,2) assms(3,4)] by blast
  have "remove1 n (cs k) = (cs(Container m := remove1 n (cs (Container m)))) k" for k
    using D(3) [of n k] assms(3) by (auto simp: remove1_idem)
  then have cs': "(\<lambda>k. remove1 n (cs k)) = cs(Container m := remove1 n (cs (Container m)))" by blast
  have "nested_by depth (\<lambda>k. remove1 n (cs k))" by (rule nested_by_subset [OF depth]) (rule set_remove1_subset)
  then have nest: "nested (\<lambda>k. remove1 n (cs k))" by (auto simp: nested_def)
  have "world_inv E s' fs (\<lambda>k. remove1 n (cs k))"
  proof (rule world_relinked [OF assms(2) s'(4,2) _ nest])
    show "tree_inv E s' (\<lambda>k. remove1 n (cs k))" using s'(3) cs' by simp
    show "field_sorted E s (remove1 n (cs c))" if "obj s c = Some mc" "is_map_container (OType mc)" for c mc
      using sorted_remove1 [OF D(2)] W(6) that by (simp add: fields_sorted_def)
  qed
  then show ?thesis using s' by auto
qed


text \<open>The claim about one call of \<open>delete_object\<close>, for an object \<open>n\<close> that is in a container.\<close>

definition deletes :: "env \<Rightarrow> (u32 \<Rightarrow> nat) \<Rightarrow> u32 \<Rightarrow> bool" where
  "deletes E depth n \<longleftrightarrow> (\<forall>s fs cs m. world_inv E s fs cs \<longrightarrow> nested_by depth cs \<longrightarrow> obj s n = Some m \<longrightarrow> Container m \<noteq> 0 \<longrightarrow>
     (\<exists>s' fs'. remove E Delete n s = Some s' \<and> world_inv E s' fs' (without cs n) \<and> gone E s (inside cs n) s'))"

lemma tree_only_container:
  assumes "tree_inv E s cs" "x \<in> set (cs n)" "x \<in> set (cs k)"
  shows "k = n"
  using tree_invD(3) [OF assms(1), of x n] tree_invD(3) [OF assms(1), of x k] assms(2,3) by auto

lemma remove_contents:
  assumes E: "loaded_types E" and IH: "\<And>x. depth x < depth n \<Longrightarrow> deletes E depth x"
    and "world_inv E s fs cs" "nested_by depth cs" "obj s n = Some m" "has E m CONTENT"
  shows "\<exists>s' fs'. remove E Contents n s = Some s' \<and> world_inv E s' fs' (\<lambda>k. if k \<in> inside cs n then [] else cs k)
    \<and> gone E s (inside cs n - {n}) s'"
  using assms(3-6)
proof (induction "length (cs n)" arbitrary: s fs cs m)
  case 0
  note W = world_invD [OF 0(2)]
  have "attr E m CONTENT = 0" using tree_invD(1) [OF W(2) 0(4,5)] 0(1) by simp
  then have "remove E Contents n s = Some s"
    by (subst remove.simps) (simp add: get_attribute_obj [OF E W(1) 0(4,5)])
  moreover have "inside cs n = {n}" using 0(1) by (intro inside_empty) simp
  moreover from this have "(\<lambda>k. if k \<in> inside cs n then [] else cs k) = cs" using 0(1) by auto
  ultimately show ?case using 0(2) relinked_gone [OF relinked_refl [of s s]] by auto
next
  case (Suc l)
  note W = world_invD [OF Suc(3)]
  note D = tree_invD [OF W(2)]
  obtain x xs where x: "cs n = x # xs" using Suc(2) by (cases "cs n") auto
  have first: "attr E m CONTENT = x" "x \<noteq> 0" using D(1) [OF Suc(5,6)] x by auto
  have dx: "depth x < depth n" using Suc(4) x unfolding nested_by_def by force
  obtain mx where mx: "obj s x = Some mx" "Container mx \<noteq> 0" using D(3) [of x n] x by auto
  obtain s1 fs1 where s1: "remove E Delete x s = Some s1" "world_inv E s1 fs1 (without cs x)" "gone E s (inside cs x) s1"
    using IH [OF dx] Suc(3,4) mx unfolding deletes_def by blast
  have n: "n \<notin> inside cs x" using inside_depth [OF Suc(4)] dx by force
  obtain m1 where m1: "obj s1 n = Some m1" "alike E m m1"
  proof -
    have "rel_option (alike E) (obj s n) (obj s1 n)" using s1(3) n unfolding gone_def by presburger
    then show thesis using that Suc(5) by (cases "obj s1 n") auto
  qed
  have cs1: "without cs x n = xs" using n x by (simp add: without_def)
  have "\<exists>s' fs'. remove E Contents n s1 = Some s'
      \<and> world_inv E s' fs' (\<lambda>k. if k \<in> inside (without cs x) n then [] else without cs x k)
      \<and> gone E s1 (inside (without cs x) n - {n}) s'"
  proof (rule Suc(1) [OF _ s1(2) _ m1(1)])
    show "nested_by depth (without cs x)" by (rule nested_by_subset [OF Suc(4)]) (rule without_subset)
  qed (use Suc(2,6) x cs1 m1(2) in \<open>simp_all add: alike_def\<close>)
  then obtain s2 fs2 where s2: "remove E Contents n s1 = Some s2"
    "world_inv E s2 fs2 (\<lambda>k. if k \<in> inside (without cs x) n then [] else without cs x k)"
    "gone E s1 (inside (without cs x) n - {n}) s2" by blast
  have in1: "inside (without cs x) n \<subseteq> inside cs n" by (rule inside_mono [OF without_subset])
  have in2: "inside cs n \<subseteq> inside cs x \<union> inside (without cs x) n" using x D(2) [of n] by (intro inside_split) auto
  have in3: "inside cs x \<subseteq> inside cs n" using inside_step [of n cs n x] x by (auto intro: inside_trans)
  have "(if k \<in> inside (without cs x) n then [] else without cs x k) = (if k \<in> inside cs n then [] else cs k)" for k
  proof (cases "k \<in> inside cs n")
    case True
    then show ?thesis using in2 by (auto simp: without_def)
  next
    case False
    then have "x \<notin> set (cs k)" using tree_only_container [OF W(2), of x n k] x by auto
    then show ?thesis using False in1 in3 by (auto simp: without_def remove1_idem)
  qed
  moreover have "inside cs x \<union> (inside (without cs x) n - {n}) = inside cs n - {n}" using in1 in2 in3 n by blast
  moreover have "remove E Contents n s = Some s2"
    using first s1(1) s2(1) by (subst remove.simps) (simp add: get_attribute_obj [OF E W(1) Suc(5,6)])
  ultimately show ?case using s2(2) gone_trans [OF s1(3) s2(3)] by auto
qed

lemma remove_destroy:
  assumes E: "loaded_types E" and IH: "\<And>x. depth x < depth n \<Longrightarrow> deletes E depth x"
    and inv: "world_inv E s fs cs" "nested_by depth cs" and m: "obj s n = Some m" "Container m = 0"
  shows "\<exists>s' fs'. remove E Destroy n s = Some s' \<and> world_inv E s' fs' (without cs n) \<and> gone E s (inside cs n) s'"
proof -
  note W = world_invD [OF inv(1)]
  have out: "n \<notin> set (cs c)" for c using tree_invD(3) [OF W(2), of n c] m by auto
  obtain s1 where s1: "destroy_strings E n (OType m) s = Some s1" "world_inv E s1 fs cs" "obj s1 = obj s" "crons s1 = crons s"
    "string_of (strings s1) = (\<lambda>N. if N \<in> texts E s {n} then None else string_of (strings s) N)"
    using destroy_strings_ok [OF E inv(1) m(1)] by blast
  let ?cs = "\<lambda>k. if k \<in> inside cs n then [] else cs k"
  have m1: "obj s1 n = Some m" using s1(3) m(1) by simp
  obtain s2 fs2 where s2: "(if flag E m CONTAINER \<or> flag E m CHEST then remove E Contents n s1 else Some s1) = Some s2"
    "world_inv E s2 fs2 ?cs" "gone E s1 (inside cs n - {n}) s2"
  proof (cases "has E m CONTENT")
    case True
    then show thesis using remove_contents [OF E IH s1(2) inv(2) m1] that has_attribute_flags(1) by auto
  next
    case False
    then have "cs n = []" using tree_invD(4) [OF W(2), of n] m(1) by auto
    then have "inside cs n = {n}" "?cs = cs" using inside_empty [of cs n] by auto
    moreover have "gone E s1 {} s1" by (rule relinked_gone [OF relinked_refl]) simp_all
    ultimately show thesis using that [of s1 fs] s1(2) False has_attribute_flags(1) by auto
  qed
  obtain m2 where m2: "obj s2 n = Some m2" "alike E m m2"
  proof -
    have "rel_option (alike E) (obj s1 n) (obj s2 n)" using s2(3) unfolding gone_def by (meson DiffD2 singletonI)
    then show thesis using that m1 by (cases "obj s2 n") auto
  qed
  have "Container m2 = 0"
    using tree_invD(3) [OF world_invD(2) [OF s2(2)], of n "Container m2"] m2(1) out by (auto split: if_splits)
  then obtain p s3 where s3: "destroy_rest E n (OType m2) s2 = Some s3" "world_inv E s3 (p # fs2) ?cs" "obj s3 = (obj s2)(n := None)"
    "registered (crons s3) = filter_mset (\<lambda>p. fst p \<noteq> n) (registered (crons s2))" "strings s3 = strings s2"
    using destroy_rest_ok [OF s2(2) m2(1)] by auto
  have "without cs n = ?cs" using out by (simp add: without_def fun_eq_iff remove1_idem)
  moreover have "OType m2 = OType m" using m2(2) by (simp add: alike_def)
  then have "remove E Destroy n s = Some s3"
    using W(1) m(1) s1(1) s2(1) s3(1) by (subst remove.simps) (simp add: get_object_type_obj [OF W(1) m(1)])
  moreover have "gone E s (inside cs n) s3"
  proof -
    have o: "if k \<in> inside cs n then obj s3 k = None else rel_option (alike E) (obj s k) (obj s3 k)" for k
    proof -
      have "if k \<in> inside cs n - {n} then obj s2 k = None else rel_option (alike E) (obj s1 k) (obj s2 k)"
        using s2(3) unfolding gone_def by blast
      then show ?thesis using s3(3) s1(3) by (cases "k = n") auto
    qed
    have r: "registered (crons s3) = filter_mset (\<lambda>p. fst p \<notin> inside cs n) (registered (crons s))"
      using s2(3) s3(4) s1(4) by (auto simp: gone_def filter_filter_mset intro!: filter_mset_cong)
    have "texts E s (inside cs n) = texts E s {n} \<union> texts E s (inside cs n - {n})"
      by (metis inside_refl insert_Diff insert_is_Un texts_Un)
    moreover have "texts E s1 (inside cs n - {n}) = texts E s (inside cs n - {n})" by (simp add: texts_def s1(3))
    ultimately have "string_of (strings s3) = (\<lambda>N. if N \<in> texts E s (inside cs n) then None else string_of (strings s) N)"
      using s2(3) s3(5) s1(5) by (auto simp: gone_def fun_eq_iff)
    then show ?thesis using o r by (simp add: gone_def)
  qed
  ultimately show ?thesis using s3(2) by auto
qed

lemma deletes_all:
  assumes E: "loaded_types E"
  shows "deletes E depth n"
proof (induction "depth n" arbitrary: n rule: less_induct)
  case less
  show ?case unfolding deletes_def
  proof (intro allI impI)
    fix s fs cs m
    assume a: "world_inv E s fs cs" "nested_by depth cs" "obj s n = Some m" "Container m \<noteq> 0"
    note W = world_invD [OF a(1)]
    obtain s1 m1 where s1: "cut_object E n s = Some s1" "world_inv E s1 fs (\<lambda>k. remove1 n (cs k))" "relinked E s s1"
      "obj s1 n = Some m1" "Container m1 = 0" using cut_object_world [OF E a(1,3,4)] by blast
    let ?cs = "\<lambda>k. remove1 n (cs k)"
    have nb: "nested_by depth ?cs" by (rule nested_by_subset [OF a(2) set_remove1_subset])
    obtain s2 fs2 where s2: "remove E Destroy n s1 = Some s2" "world_inv E s2 fs2 (without ?cs n)" "gone E s1 (inside ?cs n) s2"
      using remove_destroy [OF E less s1(2) nb s1(4,5)] by blast
    have "inside cs n \<subseteq> inside ?cs n"
    proof
      fix k assume "k \<in> inside cs n"
      then show "k \<in> inside ?cs n"
      proof (induction rule: inside_induct)
        case (step y z)
        have "depth z < depth n" using step.hyps inside_depth [OF a(2) step.hyps(1)] a(2) unfolding nested_by_def by force
        then have "z \<noteq> n" by blast
        then have "z \<in> set (remove1 n (cs y))" using step.hyps(2) by (simp add: in_set_remove1)
        then show ?case using inside_step [OF step.IH] by simp
      qed simp
    qed
    moreover have "inside ?cs n \<subseteq> inside cs n" by (rule inside_mono) (rule set_remove1_subset)
    ultimately have eq: "inside ?cs n = inside cs n" by blast
    have "n \<notin> set (remove1 n (cs k))" for k using tree_invD(2) [OF W(2), of k] by simp
    then have "without ?cs n = without cs n" by (simp add: without_def fun_eq_iff eq remove1_idem)
    moreover have "gone E s (inside cs n) s2" using gone_trans [OF relinked_gone [OF s1(3)] s2(3)] eq by simp
    moreover have "remove E Delete n s = Some s2" using W(1) a(3) s1(1) s2(1) by (subst remove.simps) simp
    ultimately show "\<exists>s' fs'. remove E Delete n s = Some s' \<and> world_inv E s' fs' (without cs n) \<and> gone E s (inside cs n) s'"
      using s2(2) by auto
  qed
qed

lemma delete_object_ok:
  assumes "loaded_types E" "world_inv E s fs cs" "obj s n = Some m" "Container m \<noteq> 0"
  shows "\<exists>s' fs'. delete_object E n s = Some s' \<and> world_inv E s' fs' (without cs n) \<and> gone E s (inside cs n) s'"
proof -
  obtain depth where "nested_by depth cs" using world_invD(3) [OF assms(2)] by (auto simp: nested_def)
  then show ?thesis using deletes_all [OF assms(1), of depth n] assms(2-4) by (simp add: deletes_def delete_object_def)
qed


section \<open>Putting an object into a container\<close>

lemma nested_place:
  assumes "nested cs" "con \<notin> inside cs n" "cs con = us @ vs"
  shows "nested (cs(con := us @ n # vs))"
proof -
  obtain depth where d: "nested_by depth cs" using assms(1) by (auto simp: nested_def)
  define depth' where "depth' y = depth y + (if con \<in> inside cs y then depth n + 1 else 0)" for y
  have "depth' x < depth' c" if x: "x \<in> set ((cs(con := us @ n # vs)) c)" for c x
  proof (cases "c = con \<and> x = n")
    case True
    then show ?thesis using assms(2) by (simp add: depth'_def)
  next
    case False
    then have x: "x \<in> set (cs c)" using x assms(3) by (auto split: if_splits)
    then have "depth x < depth c" using d by (simp add: nested_by_def)
    moreover have "con \<in> inside cs c" if "con \<in> inside cs x"
      using that x inside_step [of c cs c x] by (auto intro: inside_trans)
    ultimately show ?thesis by (simp add: depth'_def)
  qed
  then show ?thesis unfolding nested_def nested_by_def by blast
qed

lemma place_object_world:
  assumes "loaded_types E" "world_inv E s fs cs" "obj s n = Some m" "Container m = 0"
    "obj s con = Some mc" "has E mc CONTENT" "con \<notin> inside cs n" "place_split E s m mc Append (cs con) = (us, vs)"
  shows "\<exists>s'. place_object E n con Append s = Some s' \<and> world_inv E s' fs (cs(con := us @ n # vs)) \<and> relinked E s s'"
proof -
  note W = world_invD [OF assms(2)]
  have "n \<noteq> con" using assms(7) by auto
  then obtain s' where s': "place_object E n con Append s = Some s'" "store_inv s' fs" "tree_inv E s' (cs(con := us @ n # vs))"
    "relinked E s s'" using place_object_ok [OF assms(1) W(1,2) assms(3-6) _ assms(8)] by blast
  have uv: "cs con = us @ vs" using place_split_append [of E s m mc Append "cs con"] assms(8) by simp
  have "world_inv E s' fs (cs(con := us @ n # vs))"
  proof (rule world_relinked [OF assms(2) s'(4,2,3) nested_place [OF W(3) assms(7) uv]])
    fix c m' assume "obj s c = Some m'" "is_map_container (OType m')"
    then show "field_sorted E s ((cs(con := us @ n # vs)) c)"
      using W(6) place_split_sorted(1) [OF _ _ assms(3,8)] assms(5) by (auto simp: fields_sorted_def)
  qed
  then show ?thesis using s' by blast
qed

lemma move_object_world:
  assumes "loaded_types E" "world_inv E s fs cs" "obj s n = Some m" "Container m \<noteq> 0"
    "obj s con = Some mc" "has E mc CONTENT" "con \<notin> inside cs n"
    and uv: "place_split E s m mc False (remove1 n (cs con)) = (us, vs)"
  shows "\<exists>s'. move_object E n con s = Some s' \<and> world_inv E s' fs ((\<lambda>k. remove1 n (cs k))(con := us @ n # vs)) \<and> relinked E s s'"
proof -
  note W = world_invD [OF assms(2)]
  obtain s1 m1 where s1: "cut_object E n s = Some s1" "world_inv E s1 fs (\<lambda>k. remove1 n (cs k))" "relinked E s s1"
    "obj s1 n = Some m1" "Container m1 = 0" using cut_object_world [OF assms(1-4)] by blast
  obtain mc1 where mc1: "obj s1 con = Some mc1" "alike E mc mc1" by (rule relinkedD [OF s1(3) assms(5)])
  have "alike E m m1" using relinkedD [OF s1(3) assms(3)] s1(4) by (metis option.inject)
  then have "place_split E s1 m1 mc1 False (remove1 n (cs con)) = (us, vs)"
    using mc1(2) uv place_split_cong [OF relinked_prio [OF s1(3)], of m1 m mc1 mc] by (simp add: alike_def)
  moreover have "inside (\<lambda>k. remove1 n (cs k)) n \<subseteq> inside cs n" by (rule inside_mono) (rule set_remove1_subset)
  then have "con \<notin> inside (\<lambda>k. remove1 n (cs k)) n" using assms(7) by blast
  moreover have "has E mc1 CONTENT" using mc1(2) assms(6) by (simp add: alike_def)
  ultimately obtain s' where s': "place_object E n con False s1 = Some s'"
    "world_inv E s' fs ((\<lambda>k. remove1 n (cs k))(con := us @ n # vs))" "relinked E s1 s'"
    using place_object_world [OF assms(1) s1(2,4,5) mc1(1)] by blast
  have "move_object E n con s = Some s'" using W(1) assms(3,5) s1(1) s'(1) by (simp add: move_object_def)
  then show ?thesis using s' relinked_trans [OF s1(3) s'(3)] by blast
qed

section \<open>New objects\<close>

lemma world_new:
  assumes inv: "world_inv E s gs cs" and s': "store_inv s' fs" "obj s' = (obj s)(n \<mapsto> m)" and n: "obj s n = None" "n \<noteq> 0"
    and m: "NextObject m = 0" "Container m = 0" "has E m CONTENT \<Longrightarrow> attr E m CONTENT = 0"
      "flag E m TEXT \<Longrightarrow> attr E m TEXTSTRING = 0 \<and> attr E m EDITOR = 0"
    and c: "cron_inv (crons s')" "registered (crons s') = (if flag E m EXPIRE then add_mset (n, r) (registered (crons s)) else registered (crons s))"
    and d: "strings s' = strings s"
  shows "world_inv E s' fs cs" "cs n = []"
proof -
  note W = world_invD [OF inv]
  note D = tree_invD [OF W(2)]
  show csn: "cs n = []" using D(4) [of n] n by auto
  have out: "n \<notin> set (cs k)" for k using D(3) [of n k] n by auto
  have "tree_inv E s' cs" unfolding tree_inv_def
  proof (intro conjI allI impI)
    fix k mk assume k: "obj s' k = Some mk" "has E mk CONTENT"
    have "path (onext s) (opt_id (attr E mk CONTENT)) (cs k)"
      using k D(1) [of k mk] s'(2) m(3) csn by (cases "k = n") auto
    then show "path (onext s') (opt_id (attr E mk CONTENT)) (cs k)"
      by (rule path_cong) (use out s'(2) in \<open>auto simp: onext_def\<close>)
    show "distinct (cs k)" by (rule D(2))
  next
    fix k assume "\<forall>m. obj s' k = Some m \<longrightarrow> \<not> has E m CONTENT"
    then show "cs k = []" using D(4) [of k] s'(2) csn by (cases "k = n") auto
  next
    fix k x
    show "x \<in> set (cs k) \<longleftrightarrow> k \<noteq> 0 \<and> (\<exists>m. obj s' x = Some m \<and> Container m = k)"
      using D(3) [of x k] s'(2) out m(2) by (cases "x = n") auto
  qed
  moreover have "timers_ok E s'"
  proof -
    have "count (image_mset fst (registered (crons s))) k = (if \<exists>m. obj s k = Some m \<and> flag E m EXPIRE then 1 else 0)" for k
      using W(4) by (simp add: timers_ok_def)
    then show ?thesis using c n s'(2) by (auto simp: timers_ok_def)
  qed
  moreover have "texts_ok E s'" using W(5) s'(2) d m(4) by (auto simp: texts_ok_def number_ok_def)
  moreover have "fields_sorted E s' cs" unfolding fields_sorted_def
  proof (intro allI impI)
    fix k mk assume k: "obj s' k = Some mk" "is_map_container (OType mk)"
    have "field_sorted E s' (cs k) = field_sorted E s (cs k)"
      by (rule field_sorted_eq) (use out s'(2) in \<open>auto simp: prio_def\<close>)
    then show "field_sorted E s' (cs k)" using k W(6) s'(2) csn by (cases "k = n") (auto simp: fields_sorted_def field_sorted_def)
  qed
  ultimately show "world_inv E s' fs cs" using s'(1) W(3) by (simp add: world_inv_def)
qed

text \<open>An object by its fields: type, links and the attributes of the type.\<close>

definition shape :: "env \<Rightarrow> objects \<Rightarrow> u32 \<Rightarrow> int \<Rightarrow> u32 \<Rightarrow> u32 \<Rightarrow> (int \<Rightarrow> u32) \<Rightarrow> bool" where
  "shape E s n t nx co f \<longleftrightarrow> (\<exists>m. obj s n = Some m \<and> OType m = t \<and> NextObject m = nx \<and> Container m = co \<and>
     (\<forall>a. has E m a \<longrightarrow> attr E m a = f a))"

text \<open>A state reached from \<open>s0\<close> by writing attributes of one object.\<close>

definition reaches :: "env \<Rightarrow> addr list \<Rightarrow> objects \<Rightarrow> u32 \<Rightarrow> int \<Rightarrow> u32 \<Rightarrow> u32 \<Rightarrow> objects \<Rightarrow> (int \<Rightarrow> u32) \<Rightarrow> bool" where
  "reaches E fs s0 n t nx co s f \<longleftrightarrow> store_inv s fs \<and> shape E s n t nx co f \<and> (\<forall>k. k \<noteq> n \<longrightarrow> obj s k = obj s0 k)
     \<and> crons s = crons s0 \<and> strings s = strings s0 \<and> entries s = entries s0"

lemma get_reaches:
  assumes "loaded_types E" "reaches E fs s0 n t nx co s f" "has_attribute (ObjectTypes E) t a"
  shows "get_attribute E n a s = Some (f a, s)"
proof -
  obtain m where "store_inv s fs" "obj s n = Some m" "OType m = t" "\<forall>a. has E m a \<longrightarrow> attr E m a = f a"
    using assms(2) by (auto simp: reaches_def shape_def)
  then show ?thesis using get_attribute_obj [OF assms(1), of s fs n m a] assms(3) by simp
qed

lemma set_reaches:
  assumes "loaded_types E" "reaches E fs s0 n t nx co s f" "has_attribute (ObjectTypes E) t a"
  shows "\<exists>s'. set_attribute E n a v s = Some s' \<and> reaches E fs s0 n t nx co s' (f(a := stored E t a v))"
proof -
  obtain m where m: "store_inv s fs" "obj s n = Some m" "OType m = t" "NextObject m = nx" "Container m = co"
    "\<forall>a. has E m a \<longrightarrow> attr E m a = f a"
    using assms(2) by (auto simp: reaches_def shape_def)
  let ?m = "with_attr E m a (stored E t a v)"
  have h: "has E m a" using m(3) assms(3) by simp
  have l: "ObjectID ?m = n" "length (Attributes ?m) = 4" using obj_ID [OF m(2)] obj_cell(2) [OF m(1,2)] by simp_all
  have "set_attribute E n a v s = Some (put s n ?m)" using set_attribute_obj [OF assms(1) m(1,2) h] m(3) by simp
  moreover have "attr E ?m b = (f(a := stored E t a v)) b" if "has E ?m b" for b
    using attr_with_attr [OF assms(1) h, of b] obj_cell(2) [OF m(1,2)] that m(6) by simp
  ultimately show ?thesis using store_inv_put [OF m(1,2) l] m assms(2) by (auto simp: reaches_def shape_def)
qed

lemma reaches_cong:
  "(\<And>a. has_attribute (ObjectTypes E) t a \<Longrightarrow> f a = g a) \<Longrightarrow> reaches E fs s0 n t nx co s f \<Longrightarrow> reaches E fs s0 n t nx co s g"
  by (auto simp: reaches_def shape_def)

end
