(* ===== verification/Object_New.thy ===== *)
theory Object_New
  imports Object_World
begin

text \<open>
  New objects and objects of a new type: what \<open>change_object\<close> makes of the attributes and the timer of an object, and objects
  created, copied, split and merged inside containers.
\<close>

section \<open>Entering a type\<close>

text \<open>The attributes after \<open>change_object\<close>, from the ones before.\<close>

definition entered :: "env \<Rightarrow> int \<Rightarrow> u32 \<Rightarrow> u32 \<Rightarrow> (int \<Rightarrow> u32) \<Rightarrow> int \<Rightarrow> u32" where
  "entered E t Amount Saved f a =
     (if a = AMOUNT then if Amount = 0 then 1 else Amount
      else if a = SAVEDEXPIRETIME then Saved
      else if f a \<noteq> 0 then f a
      else if a = CHARGES \<or> a = POOLLIQUIDTYPE then 1
      else if a = REMAININGUSES then TAttributes (ObjectTypes E t) ! 32 else 0)"

lemma set_if_reaches:
  assumes "loaded_types E" "reaches E fs s0 n t nx co s f" "b \<Longrightarrow> has_attribute (ObjectTypes E) t a" "stored E t a v = v"
  shows "\<exists>s'. (if b then set_attribute E n a v s else Some s) = Some s' \<and>
    reaches E fs s0 n t nx co s' (if b then f(a := v) else f)"
  using set_reaches [OF assms(1,2), of a v] assms(2-4) by auto

lemma default_if_reaches:
  assumes "loaded_types E" "reaches E fs s0 n t nx co s f" "b \<Longrightarrow> has_attribute (ObjectTypes E) t a" "stored E t a v = v"
  shows "\<exists>s'. (if b then default_attribute E n a v s else Some s) = Some s' \<and>
    reaches E fs s0 n t nx co s' (if b \<and> f a = 0 then f(a := v) else f)"
  using set_reaches [OF assms(1,2), of a v] get_reaches [OF assms(1,2), of a] assms(2-4)
  by (cases b) (auto simp: default_attribute_def)

lemma type_attribute_loaded:
  assumes "loaded_types E" "TypeAttributeFlags ! nat a = fl" "0 \<le> a" "a < 62" "get_flag (ObjectTypes E) t fl"
  shows "get_type_attribute (ObjectTypes E) t a = Some (TAttributes (ObjectTypes E t) ! nat a, False)"
proof -
  have "length TypeAttributeFlags = 62" by (simp add: TypeAttributeFlags_def)
  moreover have "length (TAttributes (ObjectTypes E t)) = 62" using assms(1) by (simp add: loaded_types_def loaded_type_def)
  ultimately show ?thesis using assms(2-5) by (simp add: get_type_attribute_def)
qed

lemma enter_type_ok:
  assumes E: "loaded_types E" and r: "reaches E fs s0 n t nx co s f"
  shows "\<exists>s'. enter_type E n t Amount Saved s = Some s' \<and> reaches E fs s0 n t nx co s' (entered E t Amount Saved f)"
proof -
  let ?T = "ObjectTypes E"
  have am: "(if Amount \<le> 0 then 1 else Amount) = (if Amount = 0 then 1 else Amount)" by simp
  have st: "stored E t AMOUNT (if Amount = 0 then 1 else Amount) = (if Amount = 0 then 1 else Amount)" by (simp add: stored_def)
  obtain s1 where s1: "(if get_flag ?T t CUMULATIVE then set_attribute E n AMOUNT (if Amount \<le> 0 then 1 else Amount) s else Some s) = Some s1"
    "reaches E fs s0 n t nx co s1 (if get_flag ?T t CUMULATIVE then f(AMOUNT := if Amount = 0 then 1 else Amount) else f)"
    using set_if_reaches [OF E r _ st, of "get_flag ?T t CUMULATIVE"] has_attribute_flags(2) unfolding am by auto
  define f1 where "f1 = (if get_flag ?T t CUMULATIVE then f(AMOUNT := if Amount = 0 then 1 else Amount) else f)"
  obtain s2 where s2: "(if get_flag ?T t RUNE then default_attribute E n CHARGES 1 s1 else Some s1) = Some s2"
    "reaches E fs s0 n t nx co s2 (if get_flag ?T t RUNE \<and> f1 CHARGES = 0 then f1(CHARGES := 1) else f1)"
    using default_if_reaches [OF E s1(2) [folded f1_def], of "get_flag ?T t RUNE" CHARGES 1] has_attribute_flags(3) by (auto simp: stored_def)
  define f2 where "f2 = (if get_flag ?T t RUNE \<and> f1 CHARGES = 0 then f1(CHARGES := 1) else f1)"
  obtain s3 where s3: "(if get_flag ?T t LIQUIDPOOL then default_attribute E n POOLLIQUIDTYPE 1 s2 else Some s2) = Some s3"
    "reaches E fs s0 n t nx co s3 (if get_flag ?T t LIQUIDPOOL \<and> f2 POOLLIQUIDTYPE = 0 then f2(POOLLIQUIDTYPE := 1) else f2)"
    using default_if_reaches [OF E s2(2) [folded f2_def], of "get_flag ?T t LIQUIDPOOL" POOLLIQUIDTYPE 1] has_attribute_flags(6) by (auto simp: stored_def)
  define f3 where "f3 = (if get_flag ?T t LIQUIDPOOL \<and> f2 POOLLIQUIDTYPE = 0 then f2(POOLLIQUIDTYPE := 1) else f2)"
  let ?u = "TAttributes (?T t) ! 32"
  have sv: "stored E t SAVEDEXPIRETIME Saved = Saved" by (simp add: stored_def)
  have su: "stored E t REMAININGUSES ?u = ?u" by (simp add: stored_def)
  let ?w = "\<lambda>s. if get_flag ?T t WEAROUT
          then do {
            (v, s) \<leftarrow> get_attribute E n REMAININGUSES s;
            if v = 0
            then do {
              (t, err) \<leftarrow> get_type_attribute ?T t TOTALUSES;
              set_attribute E n REMAININGUSES t (report_if err ''ObjectType::get_attribute'' s)}
            else Some s}
          else Some s"
  have "?w s3 = (if get_flag ?T t WEAROUT then default_attribute E n REMAININGUSES ?u s3 else Some s3)"
    using type_attribute_loaded [OF E, of TOTALUSES WEAROUT t] get_reaches [OF E s3(2), of REMAININGUSES] has_attribute_flags(9)
    by (simp add: default_attribute_def TypeAttributeFlags_def report_if_def)
  then obtain s4 where s4: "?w s3 = Some s4"
    "reaches E fs s0 n t nx co s4 (if get_flag ?T t WEAROUT \<and> f3 REMAININGUSES = 0 then f3(REMAININGUSES := ?u) else f3)"
    using default_if_reaches [OF E s3(2) [folded f3_def] _ su, of "get_flag ?T t WEAROUT"] has_attribute_flags(9) by auto
  define f4 where "f4 = (if get_flag ?T t WEAROUT \<and> f3 REMAININGUSES = 0 then f3(REMAININGUSES := ?u) else f3)"
  obtain s5 where s5: "(if get_flag ?T t EXPIRESTOP then set_attribute E n SAVEDEXPIRETIME Saved s4 else Some s4) = Some s5"
    "reaches E fs s0 n t nx co s5 (if get_flag ?T t EXPIRESTOP then f4(SAVEDEXPIRETIME := Saved) else f4)"
    using set_if_reaches [OF E s4(2) [folded f4_def] _ sv, of "get_flag ?T t EXPIRESTOP"] has_attribute_flags(8) by auto
  have "(if get_flag ?T t EXPIRESTOP then f4(SAVEDEXPIRETIME := Saved) else f4) a = entered E t Amount Saved f a"
    if h: "has_attribute ?T t a" for a
  proof -
    note F = has_attribute_flags [of ?T t] and S = f4_def f3_def f2_def f1_def entered_def
    consider "a = AMOUNT" | "a = CHARGES" | "a = POOLLIQUIDTYPE" | "a = REMAININGUSES" | "a = SAVEDEXPIRETIME"
      | "a \<noteq> AMOUNT \<and> a \<noteq> CHARGES \<and> a \<noteq> POOLLIQUIDTYPE \<and> a \<noteq> REMAININGUSES \<and> a \<noteq> SAVEDEXPIRETIME" by blast
    then show ?thesis
    proof cases
      case 1 then show ?thesis using h F(2) by (simp add: S)
    next
      case 2 then show ?thesis using h F(3) by (simp add: S)
    next
      case 3 then show ?thesis using h F(6) by (simp add: S)
    next
      case 4 then show ?thesis using h F(9) by (simp add: S)
    next
      case 5 then show ?thesis using h F(8) by (simp add: S)
    next
      case 6 then show ?thesis by (simp add: S)
    qed
  qed
  then have "reaches E fs s0 n t nx co s5 (entered E t Amount Saved f)" using s5(2) by (rule reaches_cong)
  moreover have "enter_type E n t Amount Saved s = Some s5"
    unfolding enter_type_def s1(1) bind.simps s2(1) s3(1) s4(1) s5(1) by (rule refl)
  ultimately show ?thesis by blast
qed

lemma start_timer_ok:
  assumes "loaded_types E" "store_inv s fs" "cron_inv (crons s)" "obj s n = Some m"
  shows "\<exists>c. start_timer E n Delay s = Some (s\<lparr>crons := c\<rparr>) \<and> cron_inv c \<and> registered c =
    (if flag E m EXPIRE
     then add_mset (n, RoundNr E + (if Delay = - 1 then TAttributes (ObjectTypes E (OType m)) ! 30 else word_of_int Delay)) (registered (crons s))
     else registered (crons s))"
proof -
  have "total_expire_time (cron_view E s) n = TAttributes (ObjectTypes E (OType m)) ! 30" if "flag E m EXPIRE"
    using type_attribute_loaded [OF assms(1), of TOTALEXPIRETIME EXPIRE "OType m"] that get_object_type_obj [OF assms(2,4)]
    by (simp add: cron_view_def TypeAttributeFlags_def)
  moreover obtain c where "cron_expire (cron_view E s) (RoundNr E) n Delay (crons s) = Some (c, False)" "cron_inv c"
    "registered c = (if flag_expire (cron_view E s) n
      then add_mset (n, RoundNr E + (if Delay = - 1 then total_expire_time (cron_view E s) n else word_of_int Delay)) (registered (crons s))
      else registered (crons s))"
    using cron_expire_spec [OF assms(3), of "cron_view E s" "RoundNr E" n Delay] assms(2,4) by auto
  ultimately show ?thesis using assms(2,4)
    by (intro exI [of _ c]) (simp add: start_timer_def report_if_def)
qed


section \<open>Creating an object in a container\<close>

text \<open>The attributes of a new object of a type.\<close>

definition initial :: "env \<Rightarrow> int \<Rightarrow> int \<Rightarrow> u32" where
  "initial E t = entered E t 0 0 (\<lambda>_. 0)"

definition first_expiry :: "env \<Rightarrow> int \<Rightarrow> u32" where
  "first_expiry E t = RoundNr E + TAttributes (ObjectTypes E t) ! 30"

lemma initial_simps [simp]: "initial E t CONTENT = 0" "initial E t TEXTSTRING = 0" "initial E t EDITOR = 0"
  by (simp_all add: initial_def entered_def)

lemma change_new_object:
  assumes E: "loaded_types E" and s: "store_inv s fs" "cron_inv (crons s)" "obj s n = Some (new_MapObject\<lparr>ObjectID := n\<rparr>)"
  shows "\<exists>s' c. change_object E n t s = Some (s'\<lparr>crons := c\<rparr>) \<and> reaches E fs s n t 0 0 s' (initial E t) \<and> cron_inv c
    \<and> registered c = (if get_flag (ObjectTypes E) t EXPIRE then add_mset (n, first_expiry E t) (registered (crons s)) else registered (crons s))"
proof -
  let ?m = "new_MapObject\<lparr>ObjectID := n\<rparr>" let ?m1 = "?m\<lparr>OType := t\<rparr>"
  have m: "OType ?m = 0" "ObjectID ?m1 = n" "Attributes ?m1 = [0, 0, 0, 0]" "NextObject ?m1 = 0" "Container ?m1 = 0" "OType ?m1 = t"
    by (simp_all add: new_MapObject_def)
  have l: "length (Attributes ?m1) = 4" using m(3) by simp
  note P = store_inv_put [OF s(1,3) m(2) l]
  have z: "attr E ?m1 a = 0" if "has E ?m1 a" for a
  proof -
    have "offset (ObjectTypes E) t a < 4" using E that m(6) offset_less [of "ObjectTypes E" t a] by (simp add: loaded_types_def)
    moreover have "[0, 0, 0, 0 :: u32] = replicate 4 0" by (simp add: numeral_eq_Suc)
    ultimately have "[0, 0, 0, 0 :: u32] ! offset (ObjectTypes E) t a = 0" by (metis nth_replicate)
    then show ?thesis using m(3,6) by (simp add: attr_def)
  qed
  have "reaches E fs s n t 0 0 (put s n ?m1) (\<lambda>_. 0)"
    using P z m by (auto simp: reaches_def shape_def)
  then obtain s1 where s1: "enter_type E n t 0 0 (put s n ?m1) = Some s1" "reaches E fs s n t 0 0 s1 (initial E t)"
    using enter_type_ok [OF E] unfolding initial_def by blast
  obtain m2 where m2: "store_inv s1 fs" "obj s1 n = Some m2" "OType m2 = t" "crons s1 = crons s"
    using s1(2) by (auto simp: reaches_def shape_def)
  obtain c where c: "start_timer E n (- 1) s1 = Some (s1\<lparr>crons := c\<rparr>)" "cron_inv c"
    "registered c = (if get_flag (ObjectTypes E) t EXPIRE then add_mset (n, first_expiry E t) (registered (crons s)) else registered (crons s))"
    using start_timer_ok [OF E m2(1) _ m2(2), of "- 1"] s(2) m2(3,4) by (auto simp: first_expiry_def)
  have "leave_type E n 0 t s = Some (0, 0, - 1, s)" by (simp add: leave_type_def is_map_container_def)
  then have "change_object E n t s = Some (s1\<lparr>crons := c\<rparr>)"
    using s(1,3) s1(1) c(1) m(1) set_fields_obj(1) [OF s(1,3), of E t] get_object_type_obj [OF s(1,3), of E]
    by (simp add: change_object_def)
  then show ?thesis using s1(2) c(2,3) by blast
qed

text \<open>The new object, ready to be placed.\<close>

lemma new_object_world:
  assumes E: "loaded_types E" and inv: "world_inv E s (p # fs) cs"
    and room: "HashTableSize s div 16 \<le> HashTableFree s" "0 < HashTableFree s"
  shows "\<exists>n s1 s2. create_object E s = Some (n, s1) \<and> change_object E n t s1 = Some s2 \<and> world_inv E s2 fs cs \<and> obj s n = None \<and> n \<noteq> 0
    \<and> shape E s2 n t 0 0 (initial E t) \<and> (\<forall>k. k \<noteq> n \<longrightarrow> obj s2 k = obj s k) \<and> strings s2 = strings s
    \<and> entries s2 = (HashTableFree s - 1, HashTableSize s)
    \<and> registered (crons s2) = (if get_flag (ObjectTypes E) t EXPIRE then add_mset (n, first_expiry E t) (registered (crons s)) else registered (crons s))"
proof -
  note W = world_invD [OF inv]
  obtain n s1 where s1: "create_object E s = Some (n, s1)" "store_inv s1 fs" "obj s n = None" "n \<noteq> 0"
    "obj s1 = (obj s)(n \<mapsto> new_MapObject\<lparr>ObjectID := n\<rparr>)" "crons s1 = crons s" "strings s1 = strings s"
    "entries s1 = (HashTableFree s - 1, HashTableSize s)"
    using create_object_ok [OF W(1) room] by blast
  have "cron_inv (crons s1)" using W(4) s1(6) by (simp add: timers_ok_def)
  then obtain s2 c where s2: "change_object E n t s1 = Some (s2\<lparr>crons := c\<rparr>)" "reaches E fs s1 n t 0 0 s2 (initial E t)" "cron_inv c"
    "registered c = (if get_flag (ObjectTypes E) t EXPIRE then add_mset (n, first_expiry E t) (registered (crons s)) else registered (crons s))"
    using change_new_object [OF E s1(2), of n t] s1(5,6) by auto
  obtain m where m: "obj s2 n = Some m" "OType m = t" "NextObject m = 0" "Container m = 0" "\<forall>a. has E m a \<longrightarrow> attr E m a = initial E t a"
    using s2(2) by (auto simp: reaches_def shape_def)
  have o: "obj s2 = (obj s)(n \<mapsto> m)" using s2(2) s1(5) m(1) by (auto simp: reaches_def fun_eq_iff)
  have "world_inv E (s2\<lparr>crons := c\<rparr>) fs cs"
  proof (rule world_new(1) [OF inv, where n = n and m = m and r = "first_expiry E t"])
    show "attr E m CONTENT = 0" if "has E m CONTENT" using m(5) that by simp
    show "attr E m TEXTSTRING = 0 \<and> attr E m EDITOR = 0" if "flag E m TEXT" using m(5) that has_attribute_flags(4,5) by simp
  qed (use s1 s2 m o in \<open>simp_all add: reaches_def\<close>)
  moreover have "shape E (s2\<lparr>crons := c\<rparr>) n t 0 0 (initial E t)" using s2(2) by (simp add: reaches_def shape_def)
  ultimately show ?thesis using s1 s2 o by (auto simp: reaches_def)
qed


text \<open>\<open>n\<close> is a new object of type \<open>t\<close>, with its attributes and its timer; of the others at most the links changed.\<close>

definition created :: "env \<Rightarrow> objects \<Rightarrow> u32 \<Rightarrow> int \<Rightarrow> objects \<Rightarrow> bool" where
  "created E s n t s' \<longleftrightarrow> n \<noteq> 0 \<and> obj s n = None \<and> strings s' = strings s \<and> entries s' = (HashTableFree s - 1, HashTableSize s) \<and>
     (\<exists>m. obj s' n = Some m \<and> OType m = t \<and> (\<forall>a. a \<noteq> CONTENT \<longrightarrow> has E m a \<longrightarrow> attr E m a = initial E t a)) \<and>
     (\<forall>k. k \<noteq> n \<longrightarrow> rel_option (alike E) (obj s k) (obj s' k)) \<and>
     registered (crons s') = (if get_flag (ObjectTypes E) t EXPIRE then add_mset (n, first_expiry E t) (registered (crons s))
       else registered (crons s))"

text \<open>The three calls of \<open>append_object\<close> and \<open>set_object\<close>.\<close>

lemma create_in_container:
  assumes E: "loaded_types E" and inv: "world_inv E s (p # fs) cs"
    and room: "HashTableSize s div 16 \<le> HashTableFree s" "0 < HashTableFree s" and con: "obj s con = Some mc" "has E mc CONTENT"
  shows "\<exists>n s1 s2 s' us vs. create_object E s = Some (n, s1) \<and> change_object E n t s1 = Some s2 \<and> place_object E n con Append s2 = Some s'
    \<and> cs con = us @ vs \<and> (\<not> is_map_container (OType mc) \<longrightarrow> (if Append then vs = [] else us = []))
    \<and> world_inv E s' fs (cs(con := us @ n # vs)) \<and> created E s n t s'"
proof -
  obtain n s1 s2 where s2: "create_object E s = Some (n, s1)" "change_object E n t s1 = Some s2" "world_inv E s2 fs cs" "obj s n = None"
    "n \<noteq> 0" "shape E s2 n t 0 0 (initial E t)" "\<forall>k. k \<noteq> n \<longrightarrow> obj s2 k = obj s k" "strings s2 = strings s"
    "entries s2 = (HashTableFree s - 1, HashTableSize s)"
    "registered (crons s2) = (if get_flag (ObjectTypes E) t EXPIRE then add_mset (n, first_expiry E t) (registered (crons s)) else registered (crons s))"
    using new_object_world [OF E inv room, of t] by blast
  obtain m where m: "obj s2 n = Some m" "OType m = t" "Container m = 0" "\<forall>a. has E m a \<longrightarrow> attr E m a = initial E t a"
    using s2(6) by (auto simp: shape_def)
  have cn: "con \<noteq> n" using con(1) s2(4) by auto
  then have oc: "obj s2 con = Some mc" using s2(7) con(1) by simp
  have csn: "cs n = []" using tree_invD(4) [OF world_invD(2) [OF inv], of n] s2(4) by simp
  have ins: "con \<notin> inside cs n" using cn inside_empty [of cs n, OF csn] by simp
  obtain us vs where uv: "place_split E s2 m mc Append (cs con) = (us, vs)" by (cases "place_split E s2 m mc Append (cs con)")
  then have app: "cs con = us @ vs" using place_split_append [of E s2 m mc Append "cs con"] by simp
  obtain s' where s': "place_object E n con Append s2 = Some s'" "world_inv E s' fs (cs(con := us @ n # vs))" "relinked E s2 s'"
    using place_object_world [OF E s2(3) m(1,3) oc con(2) ins uv] by blast
  obtain m' where m': "obj s' n = Some m'" "alike E m m'" by (rule relinkedD [OF s'(3) m(1)])
  have "\<exists>m. obj s' n = Some m \<and> OType m = t \<and> (\<forall>a. a \<noteq> CONTENT \<longrightarrow> has E m a \<longrightarrow> attr E m a = initial E t a)"
    using m' m(2,4) by (auto simp: alike_def)
  moreover have "rel_option (alike E) (obj s k) (obj s' k)" if "k \<noteq> n" for k
  proof -
    have "rel_option (alike E) (obj s2 k) (obj s' k)" using s'(3) unfolding relinked_def by blast
    then show ?thesis using s2(7) that by simp
  qed
  ultimately have "created E s n t s'" using s2(4,5,8-10) s'(3) by (simp add: created_def relinked_def)
  moreover have "\<not> is_map_container (OType mc) \<longrightarrow> (if Append then vs = [] else us = [])"
    using uv by (auto simp: place_split_def Let_def)
  ultimately show ?thesis using s2(1,2) s'(1,2) app by blast
qed

lemma append_object_ok:
  assumes "loaded_types E" "world_inv E s (p # fs) cs" "HashTableSize s div 16 \<le> HashTableFree s" "0 < HashTableFree s"
    "obj s con = Some mc" "has E mc CONTENT"
  shows "\<exists>n s' us vs. append_object E con t s = Some (n, s') \<and> cs con = us @ vs \<and> (\<not> is_map_container (OType mc) \<longrightarrow> vs = [])
    \<and> world_inv E s' fs (cs(con := us @ n # vs)) \<and> created E s n t s'"
proof -
  obtain n s1 s2 s' us vs where c: "create_object E s = Some (n, s1)" "change_object E n t s1 = Some s2"
    "place_object E n con True s2 = Some s'" "cs con = us @ vs" "\<not> is_map_container (OType mc) \<longrightarrow> vs = []"
    "world_inv E s' fs (cs(con := us @ n # vs))" "created E s n t s'"
    using create_in_container [OF assms, of t True] unfolding if_True if_False by blast
  then have "append_object E con t s = Some (n, s')" using world_invD(1) [OF assms(2)] assms(5) by (simp add: append_object_def)
  then show ?thesis using c by blast
qed

lemma set_object_ok:
  assumes "loaded_types E" "world_inv E s (p # fs) cs" "HashTableSize s div 16 \<le> HashTableFree s" "0 < HashTableFree s"
    "obj s con = Some mc" "has E mc CONTENT" "\<not> is_creature_container t"
  shows "\<exists>n s' us vs. set_object E con t cid s = Some (n, s') \<and> cs con = us @ vs \<and> (\<not> is_map_container (OType mc) \<longrightarrow> us = [])
    \<and> world_inv E s' fs (cs(con := us @ n # vs)) \<and> created E s n t s'"
proof -
  obtain n s1 s2 s' us vs where c: "create_object E s = Some (n, s1)" "change_object E n t s1 = Some s2"
    "place_object E n con False s2 = Some s'" "cs con = us @ vs" "\<not> is_map_container (OType mc) \<longrightarrow> us = []"
    "world_inv E s' fs (cs(con := us @ n # vs))" "created E s n t s'"
    using create_in_container [OF assms(1-6), of t False] unfolding if_True if_False by blast
  then have "set_object E con t cid s = Some (n, s')" using world_invD(1) [OF assms(2)] assms(5,7) by (simp add: set_object_def)
  then show ?thesis using c by blast
qed

section \<open>Writing attributes\<close>

text \<open>The attributes of an object may change as long as its contents, its texts and its links stay.\<close>

lemma world_put:
  assumes inv: "world_inv E s fs cs" and n: "obj s n = Some m"
    and s': "store_inv s' fs" "obj s' = (obj s)(n \<mapsto> m')" "crons s' = crons s" "strings s' = strings s"
    and m': "OType m' = OType m" "NextObject m' = NextObject m" "Container m' = Container m"
      "has E m CONTENT \<Longrightarrow> attr E m' CONTENT = attr E m CONTENT"
      "flag E m TEXT \<Longrightarrow> number_ok (attr E m' TEXTSTRING) \<and> number_ok (attr E m' EDITOR)"
  shows "world_inv E s' fs cs"
proof -
  note W = world_invD [OF inv]
  note D = tree_invD [OF W(2)]
  have nx: "onext s' = onext s" using n s'(2) m'(2) by (auto simp: onext_def fun_eq_iff)
  have "tree_inv E s' cs" unfolding tree_inv_def nx
  proof (intro conjI allI impI)
    fix c mc assume c: "obj s' c = Some mc" "has E mc CONTENT"
    show "path (onext s) (opt_id (attr E mc CONTENT)) (cs c)"
      using c s'(2) m'(1,4) n D(1) [of c] by (cases "c = n") auto
    show "distinct (cs c)" by (rule D(2))
  next
    fix c assume "\<forall>m. obj s' c = Some m \<longrightarrow> \<not> has E m CONTENT"
    then show "cs c = []" using D(4) [of c] s'(2) n m'(1) by (cases "c = n") auto
  next
    fix c k
    show "k \<in> set (cs c) \<longleftrightarrow> c \<noteq> 0 \<and> (\<exists>m. obj s' k = Some m \<and> Container m = c)"
      using D(3) [of k c] s'(2) n m'(3) by (cases "k = n") auto
  qed
  moreover have "(\<exists>m. obj s' k = Some m \<and> flag E m EXPIRE) \<longleftrightarrow> (\<exists>m. obj s k = Some m \<and> flag E m EXPIRE)" for k
    using s'(2) n m'(1) by auto
  then have "timers_ok E s'" using W(4) s'(3) by (simp add: timers_ok_def)
  moreover have "texts_ok E s'" using W(5) s'(2,4) m'(1,5) n by (auto simp: texts_ok_def)
  moreover have "prio E s' = prio E s" using s'(2) n m'(1) by (auto simp: prio_def priority_def fun_eq_iff)
  then have "fields_sorted E s' cs" using W(6) s'(2) n m'(1) field_sorted_cong [of E s' s] by (auto simp: fields_sorted_def)
  ultimately show ?thesis using s'(1) W(3) by (simp add: world_inv_def)
qed

lemma set_attribute_world:
  assumes E: "loaded_types E" and inv: "world_inv E s fs cs" and n: "obj s n = Some m" "has E m a"
    and a: "a \<noteq> CONTENT" "a \<noteq> TEXTSTRING" "a \<noteq> EDITOR"
  shows "\<exists>s'. set_attribute E n a v s = Some s' \<and> world_inv E s' fs cs \<and> crons s' = crons s \<and> strings s' = strings s
    \<and> obj s' = (obj s)(n \<mapsto> with_attr E m a (stored E (OType m) a v))"
proof -
  note W = world_invD [OF inv]
  let ?m = "with_attr E m a (stored E (OType m) a v)"
  have l: "ObjectID ?m = n" "length (Attributes ?m) = 4" using obj_ID [OF n(1)] obj_cell(2) [OF W(1) n(1)] by simp_all
  have A: "attr E ?m b = attr E m b" if "has E m b" "b \<noteq> a" for b
    using attr_with_attr [OF E n(2) that(1)] obj_cell(2) [OF W(1) n(1)] that(2) by simp
  note P = store_inv_put [OF W(1) n(1) l]
  have "world_inv E (put s n ?m) fs cs"
  proof (rule world_put [OF inv n(1) P])
    show "attr E ?m CONTENT = attr E m CONTENT" if "has E m CONTENT" using A that a(1) by simp
    show "number_ok (attr E ?m TEXTSTRING) \<and> number_ok (attr E ?m EDITOR)" if f: "flag E m TEXT"
    proof -
      have "has E m TEXTSTRING" "has E m EDITOR" using f has_attribute_flags(4,5) by auto
      then show ?thesis using A a(2,3) W(5) n(1) f by (simp add: texts_ok_def)
    qed
  qed simp_all
  then show ?thesis using set_attribute_obj [OF E W(1) n] P by auto
qed


section \<open>Copies\<close>

lemma copy_attributes_steps:
  assumes "store_inv s fs" "obj s src = Some ms" "obj s n = Some m" "src \<noteq> n" "\<forall>i\<in>set is. i < 4"
  shows "\<exists>s'. copy_attributes E n src is s = Some s' \<and> store_inv s' fs \<and> crons s' = crons s \<and> strings s' = strings s
    \<and> obj s' = (obj s)(n \<mapsto> m\<lparr>Attributes := fold (\<lambda>i xs. xs[i := Attributes ms ! i]) is (Attributes m)\<rparr>)"
  using assms
proof (induction "is" arbitrary: s m)
  case Nil
  have "(obj s)(n \<mapsto> m) = obj s" using Nil.prems(3) by auto
  then show ?case using Nil.prems(1) by simp
next
  case (Cons i "is")
  let ?m = "m\<lparr>Attributes := (Attributes m)[i := Attributes ms ! i]\<rparr>"
  have l: "ObjectID ?m = n" "length (Attributes ?m) = 4" "length (Attributes ms) = 4"
    using obj_ID [OF Cons.prems(3)] obj_cell(2) [OF Cons.prems(1)] Cons.prems(2,3) by simp_all
  note P = store_inv_put [OF Cons.prems(1,3) l(1,2)]
  have "copy_attributes E n src (i # is) s = copy_attributes E n src is (put s n ?m)"
    using Cons.prems(5) l(3) fetch_obj [OF Cons.prems(1,2), of E] modify_obj [OF Cons.prems(1,3), of E] by simp
  moreover have "obj (put s n ?m) src = Some ms" "obj (put s n ?m) n = Some ?m" "\<forall>i\<in>set is. i < 4"
    using P(2) Cons.prems(2,4,5) by simp_all
  note I = Cons.IH [OF P(1) this(1,2) Cons.prems(4) this(3)]
  then obtain s' where "copy_attributes E n src is (put s n ?m) = Some s'" "store_inv s' fs" "crons s' = crons s" "strings s' = strings s"
    "obj s' = (obj (put s n ?m))(n \<mapsto> ?m\<lparr>Attributes := fold (\<lambda>i xs. xs[i := Attributes ms ! i]) is (Attributes ?m)\<rparr>)"
    unfolding put_fields by blast
  ultimately show ?case using P(2) by auto
qed

lemma fold_copy:
  assumes "length ys = 4" "length xs = (4 :: nat)"
  shows "fold (\<lambda>i xs. xs[i := ys ! i]) [0..<4] xs = ys"
proof -
  obtain a b c d where "ys = [a, b, c, d]" using assms(1) by (auto simp: length_Suc_conv numeral_eq_Suc)
  moreover obtain e f g h where "xs = [e, f, g, h]" using assms(2) by (auto simp: length_Suc_conv numeral_eq_Suc)
  moreover have "[0..<4] = [0, 1, 2, 3]" by code_simp
  ultimately show ?thesis by simp
qed

text \<open>
  A copy of an object without a text: a new object of the same type with the same attributes, empty when it is a container.
\<close>

lemma copy_object_ok:
  assumes E: "loaded_types E" and inv: "world_inv E s (p # fs) cs" and room: "HashTableSize s div 16 \<le> HashTableFree s" "0 < HashTableFree s"
    and con: "obj s con = Some mc" "has E mc CONTENT" and src: "obj s src = Some ms" "\<not> flag E ms TEXT" "\<not> is_creature_container (OType ms)"
  shows "\<exists>n s' us vs m. copy_object E con src s = Some (n, s') \<and> cs con = us @ vs \<and> world_inv E s' fs (cs(con := us @ n # vs))
    \<and> obj s n = None \<and> obj s' n = Some m \<and> OType m = OType ms \<and> (\<forall>a. a \<noteq> CONTENT \<longrightarrow> has E ms a \<longrightarrow> attr E m a = attr E ms a)
    \<and> (\<forall>k. k \<noteq> n \<longrightarrow> rel_option (alike E) (obj s k) (obj s' k))"
proof -
  let ?t = "OType ms"
  obtain n s1 us vs where s1: "set_object E con ?t 0 s = Some (n, s1)" "cs con = us @ vs" "world_inv E s1 fs (cs(con := us @ n # vs))"
    "created E s n ?t s1" using set_object_ok [OF E inv room con src(3), of 0] by blast
  note W = world_invD [OF s1(3)]
  obtain m1 where m1: "obj s1 n = Some m1" "OType m1 = ?t" and n: "obj s n = None" "n \<noteq> 0"
    and o1: "\<And>k. k \<noteq> n \<Longrightarrow> rel_option (alike E) (obj s k) (obj s1 k)" using s1(4) by (auto simp: created_def)
  have sn: "src \<noteq> n" using src(1) n(1) by auto
  then obtain ms1 where ms1: "obj s1 src = Some ms1" "alike E ms ms1" using o1 [of src] src(1) by (cases "obj s1 src") auto
  let ?m2 = "m1\<lparr>Attributes := Attributes ms1\<rparr>"
  have l: "length (Attributes ms1) = 4" "length (Attributes m1) = 4" using obj_cell(2) [OF W(1)] ms1(1) m1(1) by auto
  obtain s2 where s2: "copy_attributes E n src [0..<4] s1 = Some s2" "store_inv s2 fs" "crons s2 = crons s1" "strings s2 = strings s1"
    "obj s2 = (obj s1)(n \<mapsto> ?m2)"
    using copy_attributes_steps [OF W(1) ms1(1) m1(1) sn, of "[0..<4]" E] fold_copy [OF l] by auto
  have m2: "obj s2 n = Some ?m2" "has E ?m2 a = has E ms a" "OType ms1 = ?t" for a using s2(5) m1(2) ms1(2) by (simp_all add: alike_def)
  have at: "attr E ?m2 a = attr E ms a" if "a \<noteq> CONTENT" "has E ms a" for a
  proof -
    have "attr E ms1 a = attr E ms a" using ms1(2) that unfolding alike_def by blast
    then show ?thesis using m1(2) m2(3) by (simp add: attr_def)
  qed
  have csn: "(cs(con := us @ n # vs)) n = []"
    using tree_invD(4) [OF world_invD(2) [OF inv], of n] n con(1) by auto
  then have c0: "attr E m1 CONTENT = 0" if "has E m1 CONTENT" using tree_invD(1) [OF W(2) m1(1) that] by simp
  let ?m3 = "if has E ms CONTENT then with_attr E ?m2 CONTENT 0 else ?m2"
  have l3: "ObjectID ?m3 = n" "length (Attributes ?m3) = 4" using obj_ID [OF m1(1)] l by simp_all
  have at3: "attr E ?m3 a = (if a = CONTENT then 0 else attr E ms a)" if "has E ms a" for a
    using attr_with_attr [OF E, of ?m2 CONTENT a 0] at [of a] m2(2) that l by auto
  obtain s3 where s3: "(if get_flag (ObjectTypes E) ?t CONTAINER \<or> get_flag (ObjectTypes E) ?t CHEST then set_attribute E n CONTENT 0 s2 else Some s2) = Some s3"
    "store_inv s3 fs" "crons s3 = crons s1" "strings s3 = strings s1" "obj s3 = (obj s1)(n \<mapsto> ?m3)"
  proof (cases "has E ms CONTENT")
    case True
    then have h: "has E ?m2 CONTENT" using m2(2) by simp
    have "stored E ?t CONTENT 0 = 0" by (simp add: stored_def)
    then have "set_attribute E n CONTENT 0 s2 = Some (put s2 n ?m3)"
      using set_attribute_obj [OF E s2(2) m2(1) h, of 0] True m1(2) by simp
    moreover have "store_inv (put s2 n ?m3) fs" "obj (put s2 n ?m3) = (obj s2)(n \<mapsto> ?m3)" using store_inv_put [OF s2(2) m2(1) l3] by auto
    ultimately show thesis using that [of "put s2 n ?m3"] True s2(3-5) has_attribute_flags(1) by auto
  next
    case False
    then show thesis using that [of s2] s2 has_attribute_flags(1) by auto
  qed
  have "world_inv E s3 fs (cs(con := us @ n # vs))"
  proof (rule world_put [OF s1(3) m1(1) s3(2,5,3,4)])
    show "attr E ?m3 CONTENT = attr E m1 CONTENT" if "has E m1 CONTENT" using at3 [of CONTENT] c0 that m1(2) by simp
    show "number_ok (attr E ?m3 TEXTSTRING) \<and> number_ok (attr E ?m3 EDITOR)" if "flag E m1 TEXT" using src(2) m1(2) that by simp
  qed simp_all
  moreover have "copy_object E con src s = Some (n, s3)"
    using world_invD(1) [OF inv] src con(1) s1(1) s2(1) s3(1) get_object_type_obj [OF world_invD(1) [OF inv] src(1)]
    by (simp add: copy_object_def)
  moreover have "obj s3 n = Some ?m3" "OType ?m3 = ?t" using s3(5) m1(2) by simp_all
  moreover have "rel_option (alike E) (obj s k) (obj s3 k)" if "k \<noteq> n" for k using o1 [OF that] s3(5) that by simp
  ultimately show ?thesis using s1(2) n(1) at3 by metis
qed


section \<open>Splitting and merging\<close>

lemma amount_simps [simp]:
  "v \<noteq> 0 \<Longrightarrow> stored E t a v = v"
  by (simp add: stored_def)

lemma attr_alike: "alike E m m' \<Longrightarrow> has E m a \<Longrightarrow> a \<noteq> CONTENT \<Longrightarrow> attr E m' a = attr E m a"
  by (simp add: alike_def)

text \<open>Writing the amount of an object that is stacked.\<close>

lemma set_amount:
  assumes "loaded_types E" "world_inv E s fs cs" "obj s n = Some m" "flag E m CUMULATIVE" "v \<noteq> 0"
  shows "\<exists>s' m'. set_attribute E n AMOUNT v s = Some s' \<and> world_inv E s' fs cs \<and> obj s' = (obj s)(n \<mapsto> m') \<and> OType m' = OType m
    \<and> Container m' = Container m \<and> (\<forall>a. has E m a \<longrightarrow> attr E m' a = (if a = AMOUNT then v else attr E m a))
    \<and> crons s' = crons s \<and> strings s' = strings s"
proof -
  have h: "has E m AMOUNT" using assms(4) has_attribute_flags(2) by simp
  obtain s' where "set_attribute E n AMOUNT v s = Some s'" "world_inv E s' fs cs" "obj s' = (obj s)(n \<mapsto> with_attr E m AMOUNT v)"
    "crons s' = crons s" "strings s' = strings s"
    using set_attribute_world [OF assms(1-3) h, of v] assms(5) by auto
  moreover have "attr E (with_attr E m AMOUNT v) a = (if a = AMOUNT then v else attr E m a)" if "has E m a" for a
    using attr_with_attr [OF assms(1) h that] obj_cell(2) [OF world_invD(1) [OF assms(2)] assms(3)] by auto
  ultimately show ?thesis by (intro exI [of _ s'] exI [of _ "with_attr E m AMOUNT v"]) simp
qed

lemma split_object_ok:
  assumes E: "loaded_types E" and inv: "world_inv E s (p # fs) cs" and room: "HashTableSize s div 16 \<le> HashTableFree s" "0 < HashTableFree s"
    and m: "obj s ob = Some m" "Container m \<noteq> 0" "flag E m CUMULATIVE" "\<not> flag E m TEXT" "\<not> is_creature_container (OType m)"
    and c: "0 < Count" "Count < 2 ^ 31" "word_of_int Count < attr E m AMOUNT"
  shows "\<exists>n s' us vs m1 m2. split_object E ob Count s = Some (n, s') \<and> n \<noteq> ob \<and> obj s n = None \<and> cs (Container m) = us @ vs
    \<and> world_inv E s' fs (cs(Container m := us @ n # vs))
    \<and> obj s' ob = Some m1 \<and> obj s' n = Some m2 \<and> OType m1 = OType m \<and> OType m2 = OType m
    \<and> attr E m2 AMOUNT = word_of_int Count \<and> attr E m1 AMOUNT + attr E m2 AMOUNT = attr E m AMOUNT
    \<and> (\<forall>k. k \<noteq> n \<longrightarrow> k \<noteq> ob \<longrightarrow> rel_option (alike E) (obj s k) (obj s' k))"
proof -
  note W = world_invD [OF inv]
  let ?c = "word_of_int Count :: u32" and ?a = "attr E m AMOUNT"
  have c0: "?c \<noteq> 0" using c by (simp add: word_of_int_eq_0_iff take_bit_eq_mod dvd_imp_le_int flip: dvd_eq_mod_eq_0) (auto dest: zdvd_imp_le)
  have d0: "?a - ?c \<noteq> 0" using c(3) by simp
  obtain mc where con: "obj s (Container m) = Some mc" "has E mc CONTENT" using contained [OF W(2) m(1,2)] by metis
  obtain n s1 us vs m1 where s1: "copy_object E (Container m) ob s = Some (n, s1)" "cs (Container m) = us @ vs"
    "world_inv E s1 fs (cs(Container m := us @ n # vs))" "obj s n = None" "obj s1 n = Some m1" "OType m1 = OType m"
    "\<forall>k. k \<noteq> n \<longrightarrow> rel_option (alike E) (obj s k) (obj s1 k)"
    using copy_object_ok [OF E inv room con m(1,4,5)] by blast
  have no: "n \<noteq> ob" using s1(4) m(1) by auto
  have f1: "flag E m1 CUMULATIVE" using s1(6) m(3) by simp
  obtain s2 m2 where s2: "set_attribute E n AMOUNT ?c s1 = Some s2" "world_inv E s2 fs (cs(Container m := us @ n # vs))"
    "obj s2 = (obj s1)(n \<mapsto> m2)" "OType m2 = OType m1" "\<forall>a. has E m1 a \<longrightarrow> attr E m2 a = (if a = AMOUNT then ?c else attr E m1 a)"
    using set_amount [OF E s1(3,5) f1 c0] by blast
  obtain mo where mo: "obj s1 ob = Some mo" "alike E m mo"
  proof -
    have "rel_option (alike E) (obj s ob) (obj s1 ob)" using s1(7) no by simp
    then show thesis using that m(1) by (cases "obj s1 ob") auto
  qed
  have o2: "obj s2 ob = Some mo" using s2(3) no mo(1) by simp
  have fo: "flag E mo CUMULATIVE" using mo(2) m(3) by (simp add: alike_def)
  obtain s3 m3 where s3: "set_attribute E ob AMOUNT (?a - ?c) s2 = Some s3" "world_inv E s3 fs (cs(Container m := us @ n # vs))"
    "obj s3 = (obj s2)(ob \<mapsto> m3)" "OType m3 = OType mo" "\<forall>a. has E mo a \<longrightarrow> attr E m3 a = (if a = AMOUNT then ?a - ?c else attr E mo a)"
    using set_amount [OF E s2(2) o2 fo d0] by blast
  have h: "has E m AMOUNT" "has E m1 AMOUNT" "has E mo AMOUNT" using m(3) f1 fo has_attribute_flags(2) by simp_all
  have "?c \<noteq> ?a" "\<not> ?a < ?c" using c(3) by auto
  then have "split_object E ob Count s = Some (n, s3)"
    using W(1) m(1,3) c s1(1) s2(1) s3(1) get_object_type_obj [OF W(1) m(1), of E] get_attribute_obj [OF E W(1) m(1) h(1)]
      get_container_obj [OF W(1) m(1), of E]
    by (simp add: split_object_def)
  moreover have "attr E m2 AMOUNT = ?c" "attr E m3 AMOUNT = ?a - ?c" using s2(5) s3(5) h by simp_all
  moreover have "rel_option (alike E) (obj s k) (obj s3 k)" if "k \<noteq> n" "k \<noteq> ob" for k using s1(7) s2(3) s3(3) that by simp
  moreover have "obj s3 ob = Some m3" "obj s3 n = Some m2" "OType m3 = OType m" "OType m2 = OType m"
    using s3(3,4) s2(3,4) no s1(6) mo(2) by (simp_all add: alike_def)
  ultimately show ?thesis using s1(2,4) s3(2) no by (intro exI [of _ n] exI [of _ s3] exI [of _ us] exI [of _ vs] exI [of _ m3] exI [of _ m2]) simp
qed

lemma merge_objects_ok:
  assumes E: "loaded_types E" and inv: "world_inv E s fs cs"
    and m: "obj s ob = Some m" "Container m \<noteq> 0" "flag E m CUMULATIVE" and d: "obj s dest = Some md" "OType md = OType m"
    and out: "dest \<notin> inside cs ob" and pos: "attr E m AMOUNT \<noteq> 0" "attr E md AMOUNT \<noteq> 0"
    and sum: "uint (attr E m AMOUNT) + uint (attr E md AMOUNT) \<le> 100"
  shows "\<exists>s' fs' m'. merge_objects E ob dest s = Some s' \<and> world_inv E s' fs' (without cs ob) \<and> obj s' ob = None
    \<and> obj s' dest = Some m' \<and> OType m' = OType m \<and> attr E m' AMOUNT = attr E md AMOUNT + attr E m AMOUNT"
proof -
  note W = world_invD [OF inv]
  let ?a = "attr E md AMOUNT + attr E m AMOUNT"
  have u: "uint ?a = uint (attr E md AMOUNT) + uint (attr E m AMOUNT)" using sum by (simp add: uint_word_ariths mod_pos_pos_trivial)
  then have a: "?a \<noteq> 0" "\<not> ?a > 100"
    using pos sum by (metis add_nonneg_eq_0_iff uint_0_eq uint_0_iff unsigned_greater_eq, simp add: word_less_def)
  have fd: "flag E md CUMULATIVE" using m(3) d(2) by simp
  obtain s1 m1 where s1: "set_attribute E dest AMOUNT ?a s = Some s1" "world_inv E s1 fs cs" "obj s1 = (obj s)(dest \<mapsto> m1)" "OType m1 = OType md"
    "\<forall>a. has E md a \<longrightarrow> attr E m1 a = (if a = AMOUNT then ?a else attr E md a)"
    using set_amount [OF E inv d(1) fd a(1)] by blast
  have "ob \<noteq> dest" using out by auto
  then have o1: "obj s1 ob = Some m" using s1(3) m(1) by simp
  obtain s2 fs2 where s2: "delete_object E ob s1 = Some s2" "world_inv E s2 fs2 (without cs ob)" "gone E s1 (inside cs ob) s2"
    using delete_object_ok [OF E s1(2) o1 m(2)] by blast
  have g: "obj s2 ob = None" "rel_option (alike E) (obj s1 dest) (obj s2 dest)"
    using s2(3) out unfolding gone_def by (metis inside_refl, metis)
  then obtain m2 where m2: "obj s2 dest = Some m2" "alike E m1 m2" using s1(3) by (cases "obj s2 dest") auto
  have h: "has E m AMOUNT" "has E md AMOUNT" "has E m1 AMOUNT" using m(3) fd s1(4) has_attribute_flags(2) by simp_all
  have "merge_objects E ob dest s = Some s2"
    using W(1) m(1,3) d pos a(2) s1(1) s2(1) get_object_type_obj [OF W(1) m(1), of E] get_object_type_obj [OF W(1) d(1), of E]
      get_attribute_obj [OF E W(1) m(1) h(1)] get_attribute_obj [OF E W(1) d(1) h(2)]
    by (simp add: merge_objects_def)
  moreover have "OType m2 = OType m" "attr E m2 AMOUNT = ?a" using m2(2) s1(4,5) d(2) h attr_alike [OF m2(2) h(3)] by (simp_all add: alike_def)
  ultimately show ?thesis using s2(2) g(1) m2(1) by blast
qed

end
