(* ===== verification/Object_Change.thy ===== *)
theory Object_Change
  imports Object_New
begin

text \<open>
  The change of the type of an object that is in the world (\<open>change_object\<close> of \<open>game_data/map/map.cpp\<close>): the timer of an object
  that expires stops, and the rounds it had left are kept while its type says so.
\<close>

section \<open>Leaving a type\<close>

text \<open>The amount, the rounds left and the delay that \<open>change_object\<close> takes over.\<close>

definition kept_amount :: "env \<Rightarrow> MapObject \<Rightarrow> int \<Rightarrow> u32" where
  "kept_amount E m t = (if flag E m EXPIRE \<and> get_flag (ObjectTypes E) t CUMULATIVE then 1
     else if flag E m CUMULATIVE then attr E m AMOUNT else 0)"

definition kept_delay :: "env \<Rightarrow> MapObject \<Rightarrow> int" where
  "kept_delay E m = (if flag E m EXPIRESTOP \<and> attr E m SAVEDEXPIRETIME \<noteq> 0 then sint (attr E m SAVEDEXPIRETIME) else - 1)"

lemma leave_type_ok:
  assumes E: "loaded_types E" and s: "store_inv s fs" "timers_ok E s" and m: "obj s n = Some m"
    and t: "\<not> is_map_container (OType m)" "\<not> flag E m TEXT" "\<not> flag E m MAGICFIELD"
  shows "\<exists>c v. leave_type E n (OType m) t s = Some (kept_amount E m t, v, kept_delay E m, s\<lparr>crons := c\<rparr>) \<and> cron_inv c
    \<and> registered c = filter_mset (\<lambda>p. fst p \<noteq> n) (registered (crons s))
    \<and> (if flag E m EXPIRE then \<exists>r. (n, r) \<in># registered (crons s) \<and> v = remaining (RoundNr E) r else v = 0)"
proof -
  have am: "(if flag E m CUMULATIVE then get_attribute E n AMOUNT s else Some (0, s)) = Some (if flag E m CUMULATIVE then attr E m AMOUNT else 0, s)"
    using get_attribute_obj [OF E s(1) m, of AMOUNT] has_attribute_flags(2) by simp
  obtain c v where c: "(if flag E m EXPIRE then stop_timer E n s else Some (0, s)) = Some (v, s\<lparr>crons := c\<rparr>)" "cron_inv c"
    "registered c = filter_mset (\<lambda>p. fst p \<noteq> n) (registered (crons s))"
    "if flag E m EXPIRE then \<exists>r. (n, r) \<in># registered (crons s) \<and> v = remaining (RoundNr E) r else v = 0"
  proof (cases "flag E m EXPIRE")
    case True
    then show thesis using stop_timer_ok [OF s m] that by auto
  next
    case False
    then have "\<not> is_registered (crons s) n" using registered_once [OF s(2)] m by simp
    then have "filter_mset (\<lambda>p. fst p \<noteq> n) (registered (crons s)) = registered (crons s)"
      by (intro count_fst_zero) (simp add: is_registered_def)
    moreover have "cron_inv (crons s)" using s(2) by (simp add: timers_ok_def)
    ultimately show thesis using that [of 0 "crons s"] False by simp
  qed
  let ?s = "s\<lparr>crons := c\<rparr>"
  have o: "store_inv ?s fs" "obj ?s n = Some m" using s(1) m by simp_all
  have de: "(if flag E m EXPIRESTOP
      then do {(v, s) \<leftarrow> get_attribute E n SAVEDEXPIRETIME ?s; Some (if v \<noteq> 0 then sint v else - 1, s)}
      else Some (- 1, ?s)) = Some (kept_delay E m, ?s)"
    using get_attribute_obj [OF E o, of SAVEDEXPIRETIME] has_attribute_flags(8) by (simp add: kept_delay_def)
  have "leave_type E n (OType m) t s = Some (kept_amount E m t, v, kept_delay E m, ?s)"
    unfolding leave_type_def am bind.simps prod.case c(1) using t de by (simp add: kept_amount_def)
  then show ?thesis using c(2-4) by blast
qed

section \<open>The whole change\<close>

text \<open>The raw attributes of an object, read with the layout of another type.\<close>

definition raw :: "env \<Rightarrow> MapObject \<Rightarrow> int \<Rightarrow> int \<Rightarrow> u32" where
  "raw E m t a = Attributes m ! offset (ObjectTypes E) t a"

lemma change_type_ok:
  assumes E: "loaded_types E" and inv: "world_inv E s fs cs" and m: "obj s n = Some m"
    and old: "\<not> is_map_container (OType m)" "\<not> flag E m TEXT" "\<not> flag E m MAGICFIELD"
    and new: "\<not> is_map_container t" "\<not> get_flag (ObjectTypes E) t TEXT"
      "has_attribute (ObjectTypes E) t CONTENT = has E m CONTENT" "priority E (m\<lparr>OType := t\<rparr>) = priority E m"
  shows "\<exists>s' m' v. change_object E n t s = Some s' \<and> world_inv E s' fs cs \<and> obj s' = (obj s)(n \<mapsto> m') \<and> strings s' = strings s
    \<and> OType m' = t \<and> Container m' = Container m
    \<and> (\<forall>a. has_attribute (ObjectTypes E) t a \<longrightarrow> attr E m' a = entered E t (kept_amount E m t) v (raw E m t) a)
    \<and> (if flag E m EXPIRE then \<exists>r. (n, r) \<in># registered (crons s) \<and> v = remaining (RoundNr E) r else v = 0)
    \<and> registered (crons s') = (if get_flag (ObjectTypes E) t EXPIRE
        then add_mset (n, RoundNr E + (if kept_delay E m = - 1 then TAttributes (ObjectTypes E t) ! 30 else word_of_int (kept_delay E m)))
          (filter_mset (\<lambda>p. fst p \<noteq> n) (registered (crons s)))
        else filter_mset (\<lambda>p. fst p \<noteq> n) (registered (crons s)))"
proof -
  note W = world_invD [OF inv]
  obtain c v where c: "leave_type E n (OType m) t s = Some (kept_amount E m t, v, kept_delay E m, s\<lparr>crons := c\<rparr>)" "cron_inv c"
    "registered c = filter_mset (\<lambda>p. fst p \<noteq> n) (registered (crons s))"
    "if flag E m EXPIRE then \<exists>r. (n, r) \<in># registered (crons s) \<and> v = remaining (RoundNr E) r else v = 0"
    using leave_type_ok [OF E W(1,4) m old] by blast
  let ?s = "s\<lparr>crons := c\<rparr>" and ?m1 = "m\<lparr>OType := t\<rparr>"
  have o: "store_inv ?s fs" "obj ?s n = Some m" using W(1) m by simp_all
  have l: "ObjectID ?m1 = n" "length (Attributes ?m1) = 4" using obj_ID [OF m] obj_cell(2) [OF W(1) m] by simp_all
  note P = store_inv_put [OF o l]
  have "reaches E fs ?s n t (NextObject m) (Container m) (put ?s n ?m1) (raw E m t)"
    using P by (auto simp: reaches_def shape_def raw_def attr_def)
  then obtain s1 where s1: "enter_type E n t (kept_amount E m t) v (put ?s n ?m1) = Some s1"
    "reaches E fs ?s n t (NextObject m) (Container m) s1 (entered E t (kept_amount E m t) v (raw E m t))"
    using enter_type_ok [OF E] by blast
  obtain m' where m': "store_inv s1 fs" "obj s1 n = Some m'" "OType m' = t" "NextObject m' = NextObject m" "Container m' = Container m"
    "\<forall>a. has E m' a \<longrightarrow> attr E m' a = entered E t (kept_amount E m t) v (raw E m t) a" "crons s1 = c" "strings s1 = strings s"
    "\<And>k. k \<noteq> n \<Longrightarrow> obj s1 k = obj s k"
    using s1(2) by (auto simp: reaches_def shape_def)
  have "cron_inv (crons s1)" using m'(7) c(2) by simp
  then obtain d where d: "start_timer E n (kept_delay E m) s1 = Some (s1\<lparr>crons := d\<rparr>)" "cron_inv d"
    "registered d = (if get_flag (ObjectTypes E) t EXPIRE
      then add_mset (n, RoundNr E + (if kept_delay E m = - 1 then TAttributes (ObjectTypes E t) ! 30 else word_of_int (kept_delay E m))) (registered c)
      else registered c)"
    using start_timer_ok [OF E m'(1) _ m'(2), of "kept_delay E m"] m'(3,7) by auto
  let ?s' = "s1\<lparr>crons := d\<rparr>"
  have o': "obj ?s' = (obj s)(n \<mapsto> m')" using m'(2,9) by (auto simp: fun_eq_iff)
  have "change_object E n t s = Some ?s'"
    using W(1) m c(1) s1(1) d(1) get_object_type_obj [OF W(1) m, of E] set_fields_obj(1) [OF o, of E t]
    by (simp add: change_object_def)
  moreover have "world_inv E ?s' fs cs"
  proof -
    let ?m0 = "m'\<lparr>OType := OType m\<rparr>"
    have co: "attr E m' CONTENT = attr E m CONTENT" if "has E m CONTENT"
      using m'(6) [rule_format, of CONTENT] new(3) that m'(3) by (simp add: entered_def raw_def attr_def offset_CONTENT)
    have nx: "onext ?s' = onext s" using m o' m'(4) by (auto simp: onext_def fun_eq_iff)
    note D = tree_invD [OF W(2)]
    have "tree_inv E ?s' cs" unfolding tree_inv_def nx
    proof (intro conjI allI impI)
      fix k mk assume k: "obj ?s' k = Some mk" "has E mk CONTENT"
      show "path (onext s) (opt_id (attr E mk CONTENT)) (cs k)"
        using k o' co new(3) m'(3) m D(1) [of k] by (cases "k = n") auto
      show "distinct (cs k)" by (rule D(2))
    next
      fix k assume "\<forall>m. obj ?s' k = Some m \<longrightarrow> \<not> has E m CONTENT"
      then show "cs k = []" using D(4) [of k] o' m new(3) m'(3) by (cases "k = n") auto
    next
      fix k x
      show "x \<in> set (cs k) \<longleftrightarrow> k \<noteq> 0 \<and> (\<exists>m. obj ?s' x = Some m \<and> Container m = k)"
        using D(3) [of x k] o' m m'(5) by (cases "x = n") auto
    qed
    moreover have "timers_ok E ?s'"
      using W(4) c(3) d(2,3) o' m'(3) by (auto simp: timers_ok_def count_filter_fst)
    moreover have "texts_ok E ?s'" using W(5) o' m'(3,8) new(2) by (auto simp: texts_ok_def)
    moreover have "priority E m' = priority E (m\<lparr>OType := t\<rparr>)" using m'(3) by (simp add: priority_def)
    then have "prio E ?s' = prio E s" using o' m new(4) by (simp add: prio_def fun_eq_iff)
    then have "fields_sorted E ?s' cs" using W(6) o' m'(3) new(1) field_sorted_cong [of E ?s' s] by (auto simp: fields_sorted_def)
    ultimately show ?thesis using m'(1) W(3) by (simp add: world_inv_def)
  qed
  ultimately show ?thesis using o' m' c(3,4) d(3) by (intro exI [of _ ?s'] exI [of _ m'] exI [of _ v]) simp
qed

end
