(* ===== verification/Object_Claims.thy ===== *)
theory Object_Claims
  imports Object_Change
begin

text \<open>
  The claims about objects and containers, and a small world with a few types for their examples.
\<close>

section \<open>The start\<close>

lemma empty_world:
  assumes "store_inv s fs" "obj s = (\<lambda>_. None)" "cron_inv (crons s)" "registered (crons s) = {#}" "String_Table.table_ok (strings s)"
  shows "world_inv E s fs (\<lambda>_. [])"
  using assms by (simp add: world_inv_def tree_inv_def nested_def nested_by_def timers_ok_def texts_ok_def fields_sorted_def)

lemma init_world:
  assumes "0 < OBCount" "k < 32"
  shows "\<exists>s fs. init_objects E OBCount (2 ^ k) junk (init_cron fresh) [] = Some s \<and> world_inv E s fs (\<lambda>_. []) \<and> obj s = (\<lambda>_. None)
    \<and> length fs = OBCount * 32768 - 1 \<and> HashTableFree s = 2 ^ k - 1 \<and> HashTableSize s = 2 ^ k"
proof -
  obtain s fs where s: "init_objects E OBCount (2 ^ k) junk (init_cron fresh) [] = Some s" "store_inv s fs" "length fs = OBCount * 32768 - 1"
    "obj s = (\<lambda>_. None)" "HashTableFree s = 2 ^ k - 1" "HashTableSize s = 2 ^ k" "crons s = init_cron fresh" "strings s = []"
    using init_objects_ok [OF assms, of E junk "init_cron fresh" "[]"] by blast
  have "world_inv E s fs (\<lambda>_. [])" using s init_cron_inv [of fresh] empty_table_ok by (intro empty_world) simp_all
  then show ?thesis using s by blast
qed

text \<open>A new object is a field of the map until it gets a type.\<close>

lemma create_world:
  assumes E: "loaded_types E" and inv: "world_inv E s (p # fs) cs"
    and room: "HashTableSize s div 16 \<le> HashTableFree s" "0 < HashTableFree s"
    and t: "\<not> get_flag (ObjectTypes E) 0 EXPIRE" "\<not> get_flag (ObjectTypes E) 0 TEXT"
  shows "\<exists>n s' m. create_object E s = Some (n, s') \<and> world_inv E s' fs cs \<and> obj s n = None \<and> obj s' = (obj s)(n \<mapsto> m) \<and> OType m = 0
    \<and> entries s' = (HashTableFree s - 1, HashTableSize s)"
proof -
  note W = world_invD [OF inv]
  let ?m = "\<lambda>n. new_MapObject\<lparr>ObjectID := n\<rparr>"
  obtain n s' where s': "create_object E s = Some (n, s')" "store_inv s' fs" "obj s n = None" "n \<noteq> 0" "obj s' = (obj s)(n \<mapsto> ?m n)"
    "crons s' = crons s" "strings s' = strings s" "entries s' = (HashTableFree s - 1, HashTableSize s)"
    using create_object_ok [OF W(1) room] by blast
  have m: "OType (?m n) = 0" "NextObject (?m n) = 0" "Container (?m n) = 0" "Attributes (?m n) = [0, 0, 0, 0]" by (simp_all add: new_MapObject_def)
  have "world_inv E s' fs cs"
    using W(4) s' m t by (intro world_new(1) [OF inv s'(2,5)]) (simp_all add: timers_ok_def attr_def offset_CONTENT)
  then show ?thesis using s' m(1) by blast
qed

section \<open>An example\<close>

text \<open>The types: 0 is the field, 1 is stacked, 2 expires, 3 keeps the rounds left, 4 is a bag, 5 is a ground.\<close>

definition sample_type :: "u8 list \<Rightarrow> TObjectType" where
  "sample_type flags = \<lparr>Flags = flags, TAttributes = replicate 62 5,
     AttributeOffsets = assign_offsets flags [0..<18] 0 (replicate 18 (- 1))\<rparr>"

definition sample_flags :: "int \<Rightarrow> u8 list" where
  "sample_flags t = (if t = 0 \<or> t = 4 then [16, 0, 0, 0, 0, 0, 0, 0, 0] else if t = 1 then [64, 0, 0, 0, 0, 0, 0, 0, 0]
     else if t = 2 then [0, 0, 0, 0, 0, 0, 16, 0, 0] else if t = 3 then [0, 0, 0, 0, 0, 0, 32, 0, 0] else if t = 5 then [1, 0, 0, 0, 0, 0, 0, 0, 0]
     else [0, 0, 0, 0, 0, 0, 0, 0, 0])"

definition sample_env :: env where
  "sample_env = \<lparr>ObjectTypes = (\<lambda>t. sample_type (sample_flags t)), RoundNr = 10, unswap = (\<lambda>_ _. None), swap = (\<lambda>_. None)\<rparr>"

lemma sample_lengths:
  "length (filter (has_instance_attribute [16, 0, 0, 0, 0, 0, 0, 0, 0]) [0..<18]) \<le> 4"
  "length (filter (has_instance_attribute [64, 0, 0, 0, 0, 0, 0, 0, 0]) [0..<18]) \<le> 4"
  "length (filter (has_instance_attribute [0, 0, 0, 0, 0, 0, 16, 0, 0]) [0..<18]) \<le> 4"
  "length (filter (has_instance_attribute [0, 0, 0, 0, 0, 0, 32, 0, 0]) [0..<18]) \<le> 4"
  "length (filter (has_instance_attribute [0, 0, 0, 0, 0, 0, 0, 0, 0]) [0..<18]) \<le> 4"
  "length (filter (has_instance_attribute [1, 0, 0, 0, 0, 0, 0, 0, 0]) [0..<18]) \<le> 4"
  by code_simp+

lemma sample_loaded: "loaded_types sample_env" "loaded_types (sample_env\<lparr>RoundNr := r\<rparr>)"
  using sample_lengths by (auto simp: loaded_types_def loaded_type_def sample_env_def sample_type_def sample_flags_def)

lemma sample_flag_values:
  "get_flag (ObjectTypes sample_env) 0 CONTAINER" "\<not> get_flag (ObjectTypes sample_env) 0 EXPIRE" "\<not> get_flag (ObjectTypes sample_env) 0 TEXT"
  "get_flag (ObjectTypes sample_env) 1 CUMULATIVE" "\<not> get_flag (ObjectTypes sample_env) 1 TEXT" "\<not> get_flag (ObjectTypes sample_env) 1 EXPIRE"
  "get_flag (ObjectTypes sample_env) 2 EXPIRE" "\<not> get_flag (ObjectTypes sample_env) 2 TEXT" "\<not> get_flag (ObjectTypes sample_env) 2 MAGICFIELD"
  "get_flag (ObjectTypes sample_env) 3 EXPIRESTOP" "\<not> get_flag (ObjectTypes sample_env) 3 EXPIRE" "\<not> get_flag (ObjectTypes sample_env) 3 TEXT"
  "\<not> get_flag (ObjectTypes sample_env) 3 MAGICFIELD"
  by code_simp+


text \<open>A world with one field, and then with one object on it.\<close>

lemma sample_field:
  "\<exists>s fs con mc. world_inv sample_env s fs (\<lambda>_. []) \<and> length fs = 32766 \<and> obj s = [con \<mapsto> mc] \<and> OType mc = 0 \<and> entries s = (254, 256)"
proof -
  obtain s fs where s: "world_inv sample_env s fs (\<lambda>_. [])" "obj s = (\<lambda>_. None)" "length fs = 32767" "HashTableFree s = 255" "HashTableSize s = 256"
    using init_world [of 1 8 sample_env "Ptr 0" undefined] by auto
  obtain p fs' where fs: "fs = p # fs'" "length fs' = 32766" using s(3) by (cases fs) auto
  show ?thesis using create_world [OF sample_loaded(1) s(1) [unfolded fs(1)]] s(2,4,5) sample_flag_values(2,3) fs(2) by fastforce
qed

lemma sample_has: "OType mc = 0 \<Longrightarrow> has sample_env mc CONTENT"
  using sample_flag_values(1) has_attribute_flags(1) by simp

lemma sample_object:
  assumes "world_inv sample_env s fs cs" "fs \<noteq> []" "obj s con = Some mc" "OType mc = 0" "entries s = (a, 256)" "16 \<le> a" "\<not> is_creature_container t"
  shows "\<exists>n s' us vs m. set_object sample_env con t 0 s = Some (n, s') \<and> cs con = us @ vs \<and>
    world_inv sample_env s' (tl fs) (cs(con := us @ n # vs)) \<and> obj s n = None \<and> obj s' n = Some m \<and> OType m = t \<and> Container m = con
    \<and> (\<forall>a. a \<noteq> CONTENT \<longrightarrow> has sample_env m a \<longrightarrow> attr sample_env m a = initial sample_env t a) \<and> entries s' = (a - 1, 256)
    \<and> (\<exists>mc'. obj s' con = Some mc' \<and> OType mc' = 0)
    \<and> (\<forall>k. k \<noteq> n \<longrightarrow> rel_option (alike sample_env) (obj s k) (obj s' k))
    \<and> registered (crons s') = (if get_flag (ObjectTypes sample_env) t EXPIRE then add_mset (n, first_expiry sample_env t) (registered (crons s))
       else registered (crons s))"
proof -
  obtain p fs' where fs: "fs = p # fs'" using assms(2) by (cases fs) auto
  have e: "HashTableFree s = a" "HashTableSize s = 256" using assms(5) by (simp_all add: entries_def)
  have "(256 :: u32) div 16 = 16" by code_simp
  then have room: "HashTableSize s div 16 \<le> HashTableFree s" "0 < HashTableFree s" using e assms(6) by (simp_all add: word_le_def word_less_def)
  obtain n s' us vs where s': "set_object sample_env con t 0 s = Some (n, s')" "cs con = us @ vs"
    "world_inv sample_env s' fs' (cs(con := us @ n # vs))" "created sample_env s n t s'"
    using set_object_ok [OF sample_loaded(1) assms(1) [unfolded fs] room assms(3) sample_has [OF assms(4)] assms(7), of 0] by blast
  have "con \<noteq> n" using s'(4) assms(3) by (auto simp: created_def)
  then have al: "rel_option (alike sample_env) (obj s con) (obj s' con)" using s'(4) unfolding created_def by blast
  then have "\<exists>mc'. obj s' con = Some mc' \<and> OType mc' = 0" using assms(3,4) by (cases "obj s' con") (auto simp: alike_def)
  moreover obtain m where m: "obj s' n = Some m" "OType m = t" "\<forall>a. a \<noteq> CONTENT \<longrightarrow> has sample_env m a \<longrightarrow> attr sample_env m a = initial sample_env t a"
    using s'(4) by (auto simp: created_def)
  moreover have "Container m = con" using tree_invD(3) [OF world_invD(2) [OF s'(3)], of n con] m(1) by simp
  ultimately show ?thesis using s' e fs by (auto simp: created_def)
qed

lemma sample_one:
  assumes "\<not> is_creature_container t"
  shows "\<exists>s fs con mc n m. world_inv sample_env s fs ((\<lambda>_. [])(con := [n])) \<and> length fs = 32765 \<and> obj s con = Some mc \<and> OType mc = 0
    \<and> obj s n = Some m \<and> OType m = t \<and> Container m = con \<and> con \<noteq> n \<and> con \<noteq> 0 \<and> entries s = (253, 256)
    \<and> (\<forall>a. a \<noteq> CONTENT \<longrightarrow> has sample_env m a \<longrightarrow> attr sample_env m a = initial sample_env t a)
    \<and> (get_flag (ObjectTypes sample_env) t EXPIRE \<longrightarrow> (n, first_expiry sample_env t) \<in># registered (crons s))"
proof -
  obtain s fs con mc where s: "world_inv sample_env s fs (\<lambda>_. [])" "length fs = 32766" "obj s = [con \<mapsto> mc]" "OType mc = 0" "entries s = (254, 256)"
    using sample_field by blast
  have "fs \<noteq> []" "obj s con = Some mc" "(16 :: u32) \<le> 254" using s(2,3) by auto
  then obtain n s' us vs m where n: "([] :: u32 list) = us @ vs" "world_inv sample_env s' (tl fs) ((\<lambda>_. [])(con := us @ n # vs))"
    "obj s n = None" "obj s' n = Some m" "OType m = t" "Container m = con" "entries s' = (254 - 1, 256)"
    "\<forall>a. a \<noteq> CONTENT \<longrightarrow> has sample_env m a \<longrightarrow> attr sample_env m a = initial sample_env t a"
    "\<exists>mc'. obj s' con = Some mc' \<and> OType mc' = 0"
    "registered (crons s') = (if get_flag (ObjectTypes sample_env) t EXPIRE then add_mset (n, first_expiry sample_env t) (registered (crons s))
       else registered (crons s))"
    using sample_object [OF s(1) _ _ s(4,5) _ assms] by metis
  have "con \<noteq> n" using s(3) n(3) by auto
  moreover have "con \<noteq> 0" using \<open>obj s con = Some mc\<close> by auto
  ultimately show ?thesis using n s(2) by (intro exI [of _ s'] exI [of _ "tl fs"] exI [of _ con]) auto
qed


section \<open>Claims\<close>

text \<open>
  At the start of the server, with any number of blocks of memory for objects and a table whose size is a power of two,
  the initialisation succeeds and the world satisfies its invariant, without any object.
\<close>

theorem world_start:
  assumes "0 < OBCount" "k < 32"
  shows "\<exists>s fs. init_objects E OBCount (2 ^ k) junk (init_cron fresh) [] = Some s \<and> world_inv E s fs (\<lambda>_. []) \<and>
    obj s = (\<lambda>_. None) \<and> length fs = OBCount * 32768 - 1"
  using init_world [OF assms] by blast

theorem world_start_witness:
  "\<exists>s fs. init_objects sample_env 2 (2 ^ 4) (Ptr 0) example_cron [] = Some s \<and> world_inv sample_env s fs (\<lambda>_. []) \<and> length fs = 65535"
  using world_start [of 2 4 sample_env "Ptr 0" "\<lparr>Obj = 0, Round = 0, Previous = 0, Next = 0\<rparr>"] by auto

text \<open>
  C4: For a type that is no creature container, \<open>set_object\<close> creates an object with a number that was not in use, gives it its type with the first values of its
  attributes, puts it into the container, first of all or, on a field, in the order of priorities, and starts its timer when
  the type expires. Every other object keeps its type and its attributes, and the invariant of the world holds: the links of all
  containers, one timer for each object that expires, sorted fields.
\<close>

theorem set_object_correct:
  assumes "loaded_types E" "world_inv E s (p # fs) cs" "HashTableSize s div 16 \<le> HashTableFree s" "0 < HashTableFree s"
    "obj s con = Some mc" "has E mc CONTENT" "\<not> is_creature_container t"
  shows "\<exists>n s' us vs. set_object E con t cid s = Some (n, s') \<and> cs con = us @ vs \<and> (\<not> is_map_container (OType mc) \<longrightarrow> us = [])
    \<and> world_inv E s' fs (cs(con := us @ n # vs)) \<and> created E s n t s'"
  by (rule set_object_ok [OF assms])

theorem set_object_correct_witness:
  "\<exists>s con n s' fs m. set_object sample_env con 1 0 s = Some (n, s') \<and> world_inv sample_env s' fs ((\<lambda>_. [])(con := [n]))
    \<and> obj s' n = Some m \<and> attr sample_env m AMOUNT = 1"
proof -
  obtain s gs con mc where s: "world_inv sample_env s gs (\<lambda>_. [])" "length gs = 32766" "obj s = [con \<mapsto> mc]" "OType mc = 0" "entries s = (254, 256)"
    using sample_field by blast
  obtain p fs where gs: "gs = p # fs" using s(2) by (cases gs) auto
  have room: "HashTableSize s div 16 \<le> HashTableFree s" "0 < HashTableFree s" using s(5) by (simp_all add: entries_def word_le_def)
  have c: "obj s con = Some mc" "\<not> is_creature_container 1" using s(3) by (simp_all add: is_creature_container_def)
  obtain n s' us vs where n: "set_object sample_env con 1 0 s = Some (n, s')" "[] = us @ vs"
    "world_inv sample_env s' fs ((\<lambda>_. [])(con := us @ n # vs))" "created sample_env s n 1 s'"
    using set_object_correct [OF sample_loaded(1) s(1) [unfolded gs] room c(1) sample_has [OF s(4)] c(2), of 0] by blast
  obtain m where m: "obj s' n = Some m" "OType m = 1" "\<forall>a. a \<noteq> CONTENT \<longrightarrow> has sample_env m a \<longrightarrow> attr sample_env m a = initial sample_env 1 a"
    using n(4) by (auto simp: created_def)
  have "has sample_env m AMOUNT" using m(2) sample_flag_values(4) has_attribute_flags(2) by simp
  then have "attr sample_env m AMOUNT = 1" using m(3) by (simp add: initial_def entered_def)
  moreover have "world_inv sample_env s' fs ((\<lambda>_. [])(con := [n]))" using n(2,3) by simp
  ultimately show ?thesis using n(1) m(1) by blast
qed

text \<open>
  C3: \<open>delete_object\<close> of an object in a container returns, however deep the containers inside are nested. Afterwards exactly this
  object and everything inside it are gone, with their timers and their strings; every other object, timer
  and string is still there, and the invariant of the world holds.
\<close>

theorem delete_object_whole:
  assumes "loaded_types E" "world_inv E s fs cs" "obj s n = Some m" "Container m \<noteq> 0"
  shows "\<exists>s' fs'. delete_object E n s = Some s' \<and> world_inv E s' fs' (without cs n) \<and> gone E s (inside cs n) s'"
  by (rule delete_object_ok [OF assms])

theorem delete_object_whole_witness:
  "\<exists>s con n s' fs mc. obj s n \<noteq> None \<and> is_registered (crons s) n \<and> delete_object sample_env n s = Some s' \<and> obj s' n = None
    \<and> obj s' con = Some mc \<and> OType mc = 0 \<and> \<not> is_registered (crons s') n \<and> world_inv sample_env s' fs (without ((\<lambda>_. [])(con := [n])) n)"
proof -
  have t: "\<not> is_creature_container 2" by (simp add: is_creature_container_def)
  obtain s fs con mc n m where s: "world_inv sample_env s fs ((\<lambda>_. [])(con := [n]))" "obj s con = Some mc" "OType mc = 0"
    "obj s n = Some m" "OType m = 2" "Container m = con" "con \<noteq> n" "con \<noteq> 0" using sample_one [OF t] by blast
  let ?cs = "(\<lambda>_. [])(con := [n])"
  obtain s' fs' where s': "delete_object sample_env n s = Some s'" "world_inv sample_env s' fs' (without ?cs n)" "gone sample_env s (inside ?cs n) s'"
    using delete_object_whole [OF sample_loaded(1) s(1,4)] s(6,8) by blast
  have "inside ?cs n = {n}" using s(7) by (intro inside_empty) simp
  then have g: "obj s' n = None" "rel_option (alike sample_env) (obj s con) (obj s' con)"
    using s'(3) s(7) unfolding gone_def by (metis singletonI, metis singletonD)
  then obtain mc' where "obj s' con = Some mc'" "OType mc' = 0" using s(2,3) by (cases "obj s' con") (auto simp: alike_def)
  moreover have "is_registered (crons s) n" "\<not> is_registered (crons s') n"
    using registered_once [OF world_invD(4) [OF s(1)], of n] registered_once [OF world_invD(4) [OF s'(2)], of n] s(4,5) g(1) sample_flag_values(7)
    by simp_all
  ultimately show ?thesis using s'(1,2) s(4) g(1) by (metis option.distinct(1))
qed

text \<open>
  C5: \<open>move_object\<close> takes an object out of its container and puts it into another one, which is not inside the object itself:
  first of all, or on a field in the order of priorities. No object changes its type or its attributes, and the invariant of
  the world holds.
\<close>

theorem move_object_correct:
  assumes "loaded_types E" "world_inv E s fs cs" "obj s n = Some m" "Container m \<noteq> 0"
    "obj s con = Some mc" "has E mc CONTENT" "con \<notin> inside cs n" "place_split E s m mc False (remove1 n (cs con)) = (us, vs)"
  shows "\<exists>s'. move_object E n con s = Some s' \<and> world_inv E s' fs ((\<lambda>k. remove1 n (cs k))(con := us @ n # vs)) \<and> relinked E s s'"
  by (rule move_object_world [OF assms])

theorem move_object_correct_witness:
  "\<exists>s con n s' fs. world_inv sample_env s fs ((\<lambda>_. [])(con := [n])) \<and> move_object sample_env n con s = Some s'
    \<and> world_inv sample_env s' fs ((\<lambda>_. [])(con := [n]))"
proof -
  have t: "\<not> is_creature_container 1" by (simp add: is_creature_container_def)
  obtain s fs con mc n m where s: "world_inv sample_env s fs ((\<lambda>_. [])(con := [n]))" "obj s con = Some mc" "OType mc = 0"
    "obj s n = Some m" "Container m = con" "con \<noteq> n" "con \<noteq> 0" using sample_one [OF t] by blast
  let ?cs = "(\<lambda>_. [])(con := [n])"
  have i: "con \<notin> inside ?cs n" using s(6) inside_empty [of ?cs n] by simp
  have sp: "place_split sample_env s m mc False (remove1 n (?cs con)) = ([], [])" by (simp add: place_split_def Let_def)
  have "(\<lambda>k. remove1 n (?cs k))(con := [] @ n # []) = ?cs" by (auto simp: fun_eq_iff)
  then obtain s' where "move_object sample_env n con s = Some s'" "world_inv sample_env s' fs ?cs"
    using move_object_correct [OF sample_loaded(1) s(1,4) _ s(2) sample_has [OF s(3)] i sp] s(5,7) by auto
  then show ?thesis using s(1) by blast
qed


text \<open>
  C19: \<open>place_object\<close> keeps the objects of a field sorted: the new object goes behind all objects of a smaller priority and before
  all of a greater one. Among the objects of the same priority it is the last, except a creature or an ordinary object that is
  not appended, which is the first.
\<close>

theorem place_object_order:
  assumes "loaded_types E" "world_inv E s fs cs" "obj s n = Some m" "Container m = 0"
    "obj s con = Some mc" "has E mc CONTENT" "is_map_container (OType mc)" "con \<notin> inside cs n"
  shows "\<exists>s' us vs. place_object E n con Append s = Some s' \<and> cs con = us @ vs \<and> world_inv E s' fs (cs(con := us @ n # vs)) \<and>
    (if Append \<or> prio E s n < 4
     then list_all (\<lambda>x. prio E s x \<le> prio E s n) us \<and> list_all (\<lambda>x. prio E s n < prio E s x) vs
     else list_all (\<lambda>x. prio E s x < prio E s n) us \<and> list_all (\<lambda>x. prio E s n \<le> prio E s x) vs)"
proof -
  obtain us vs where uv: "place_split E s m mc Append (cs con) = (us, vs)" by (cases "place_split E s m mc Append (cs con)")
  obtain s' where s': "place_object E n con Append s = Some s'" "world_inv E s' fs (cs(con := us @ n # vs))"
    using place_object_world [OF assms(1-6,8) uv] by blast
  have "field_sorted E s (cs con)" using world_invD(6) [OF assms(2)] assms(5,7) by (simp add: fields_sorted_def)
  note S = place_split_sorted(2,3) [OF this assms(7,3) uv]
  have "prio E s n \<le> 5" using assms(3) by (simp add: prio_def priority_def)
  then have eq: "(Append \<or> prio E s n \<noteq> 4 \<and> prio E s n \<noteq> 5) = (Append \<or> prio E s n < 4)" by auto
  have "if Append \<or> prio E s n < 4
     then list_all (\<lambda>x. prio E s x \<le> prio E s n) us \<and> list_all (\<lambda>x. prio E s n < prio E s x) vs
     else list_all (\<lambda>x. prio E s x < prio E s n) us \<and> list_all (\<lambda>x. prio E s n \<le> prio E s x) vs"
    unfolding S eq by (simp add: list_all_iff before_def)
  moreover have "cs con = us @ vs" using place_split_append [of E s m mc Append "cs con"] uv by simp
  ultimately show ?thesis using s' by blast
qed

text \<open>A second new object, ready to be placed on the field of the first.\<close>

lemma sample_ready:
  "\<exists>s fs con mc n x m. world_inv sample_env s fs ((\<lambda>_. [])(con := [x])) \<and> obj s con = Some mc \<and> OType mc = 0 \<and> obj s n = Some m
    \<and> Container m = 0 \<and> con \<noteq> n"
proof -
  have t: "\<not> is_creature_container 1" by (simp add: is_creature_container_def)
  obtain s gs con mc x where s: "world_inv sample_env s gs ((\<lambda>_. [])(con := [x]))" "length gs = 32765" "obj s con = Some mc"
    "OType mc = 0" "entries s = (253, 256)" using sample_one [OF t] by blast
  obtain p fs where gs: "gs = p # fs" using s(2) by (cases gs) auto
  have room: "HashTableSize s div 16 \<le> HashTableFree s" "0 < HashTableFree s" using s(5) by (simp_all add: entries_def word_le_def)
  obtain n s2 where n: "world_inv sample_env s2 fs ((\<lambda>_. [])(con := [x]))" "obj s n = None" "shape sample_env s2 n 1 0 0 (initial sample_env 1)"
    "\<forall>k. k \<noteq> n \<longrightarrow> obj s2 k = obj s k"
    using new_object_world [OF sample_loaded(1) s(1) [unfolded gs] room, of 1] by blast
  moreover have "con \<noteq> n" using n(2) s(3) by auto
  ultimately show ?thesis using s(3,4) unfolding shape_def by metis
qed

theorem place_object_order_witness:
  "\<exists>s s' con n us vs x fs. place_object sample_env n con True s = Some s' \<and> [x] = us @ vs
    \<and> world_inv sample_env s' fs ((\<lambda>_. [])(con := us @ n # vs))"
proof -
  obtain s fs con mc n x m where s: "world_inv sample_env s fs ((\<lambda>_. [])(con := [x]))" "obj s con = Some mc" "OType mc = 0"
    "obj s n = Some m" "Container m = 0" "con \<noteq> n" using sample_ready by blast
  let ?cs = "(\<lambda>_. [])(con := [x])"
  have i: "con \<notin> inside ?cs n" using s(6) inside_empty [of ?cs n] by simp
  have t: "is_map_container (OType mc)" using s(3) by (simp add: is_map_container_def)
  obtain s' us vs where "place_object sample_env n con True s = Some s'" "?cs con = us @ vs" "world_inv sample_env s' fs (?cs(con := us @ n # vs))"
    using place_object_order [OF sample_loaded(1) s(1,4,5,2) sample_has [OF s(3)] t i, of True] by blast
  then show ?thesis by (intro exI [of _ s] exI [of _ s'] exI [of _ con] exI [of _ n] exI [of _ us] exI [of _ vs] exI [of _ x] exI [of _ fs]) auto
qed

text \<open>
  C17: \<open>split_object\<close> takes \<open>Count\<close> parts of a stack into a new object of the same type in the same container, and the parts
  of both together are the parts there were. The invariant of the world holds. \<open>Count\<close> is less than the amount (for the whole amount the code
  gives back the object itself) and the type has no text.
\<close>

theorem split_object_conserves:
  assumes "loaded_types E" "world_inv E s (p # fs) cs" "HashTableSize s div 16 \<le> HashTableFree s" "0 < HashTableFree s"
    "obj s ob = Some m" "Container m \<noteq> 0" "flag E m CUMULATIVE" "\<not> flag E m TEXT" "\<not> is_creature_container (OType m)"
    "0 < Count" "Count < 2 ^ 31" "word_of_int Count < attr E m AMOUNT"
  shows "\<exists>n s' us vs m1 m2. split_object E ob Count s = Some (n, s') \<and> n \<noteq> ob \<and> obj s n = None \<and> cs (Container m) = us @ vs
    \<and> world_inv E s' fs (cs(Container m := us @ n # vs))
    \<and> obj s' ob = Some m1 \<and> obj s' n = Some m2 \<and> OType m1 = OType m \<and> OType m2 = OType m
    \<and> attr E m2 AMOUNT = word_of_int Count \<and> attr E m1 AMOUNT + attr E m2 AMOUNT = attr E m AMOUNT
    \<and> (\<forall>k. k \<noteq> n \<longrightarrow> k \<noteq> ob \<longrightarrow> rel_option (alike E) (obj s k) (obj s' k))"
  by (rule split_object_ok [OF assms])

theorem split_object_conserves_witness:
  "\<exists>s ob n s' m1 m2. split_object sample_env ob 3 s = Some (n, s') \<and> n \<noteq> ob \<and> obj s' ob = Some m1 \<and> obj s' n = Some m2
    \<and> attr sample_env m1 AMOUNT = 7 \<and> attr sample_env m2 AMOUNT = 3"
proof -
  have t: "\<not> is_creature_container 1" by (simp add: is_creature_container_def)
  obtain s gs con mc ob m where s: "world_inv sample_env s gs ((\<lambda>_. [])(con := [ob]))" "length gs = 32765" "obj s ob = Some m" "OType m = 1"
    "Container m = con" "con \<noteq> 0" "entries s = (253, 256)" using sample_one [OF t] by blast
  have f: "flag sample_env m CUMULATIVE" "\<not> flag sample_env m TEXT" using s(4) sample_flag_values by simp_all
  have h: "has sample_env m AMOUNT" using f has_attribute_flags(2) by simp
  obtain s1 m1 where s1: "world_inv sample_env s1 gs ((\<lambda>_. [])(con := [ob]))" "obj s1 ob = Some m1" "OType m1 = 1" "Container m1 = con"
    "attr sample_env m1 AMOUNT = 10" "entries s1 = (253, 256)"
  proof -
    obtain s1 m1 where a: "set_attribute sample_env ob AMOUNT 10 s = Some s1" "world_inv sample_env s1 gs ((\<lambda>_. [])(con := [ob]))"
      "obj s1 = (obj s)(ob \<mapsto> m1)" "OType m1 = OType m" "Container m1 = Container m"
      "\<forall>a. has sample_env m a \<longrightarrow> attr sample_env m1 a = (if a = AMOUNT then 10 else attr sample_env m a)"
      using set_amount [OF sample_loaded(1) s(1,3) f(1), of 10] by auto
    have "entries s1 = entries s"
      using set_attribute_obj [OF sample_loaded(1) world_invD(1) [OF s(1)] s(3) h, of 10] a(1) by auto
    then show thesis using that [of s1 m1] a s(4,5,7) h by simp
  qed
  obtain p fs where gs: "gs = p # fs" using s(2) by (cases gs) auto
  have room: "HashTableSize s1 div 16 \<le> HashTableFree s1" "0 < HashTableFree s1" using s1(6) by (simp_all add: entries_def word_le_def)
  have f1: "flag sample_env m1 CUMULATIVE" "\<not> flag sample_env m1 TEXT" "\<not> is_creature_container (OType m1)" "Container m1 \<noteq> 0"
    using s1(3,4) s(6) sample_flag_values t by simp_all
  obtain n s' m2 m3 where "split_object sample_env ob 3 s1 = Some (n, s')" "n \<noteq> ob" "obj s' ob = Some m2" "obj s' n = Some m3"
    "attr sample_env m3 AMOUNT = word_of_int 3" "attr sample_env m2 AMOUNT + attr sample_env m3 AMOUNT = attr sample_env m1 AMOUNT"
    using split_object_conserves [OF sample_loaded(1) s1(1) [unfolded gs] room s1(2) f1(4,1-3), of 3] s1(5) by auto
  moreover from this have "attr sample_env m2 AMOUNT = 7" using s1(5) by (simp add: eq_diff_eq flip: eq_diff_eq)
  ultimately show ?thesis unfolding of_int_numeral by blast
qed


text \<open>
  C18: \<open>merge_objects\<close> adds the parts of an object to those of another one of the same type, and the object is gone. No part is lost
  as long as there are at most 100 together. The invariant of the world holds.
\<close>

theorem merge_objects_conserves:
  assumes "loaded_types E" "world_inv E s fs cs" "obj s ob = Some m" "Container m \<noteq> 0" "flag E m CUMULATIVE"
    "obj s dest = Some md" "OType md = OType m" "dest \<notin> inside cs ob" "attr E m AMOUNT \<noteq> 0" "attr E md AMOUNT \<noteq> 0"
    "uint (attr E m AMOUNT) + uint (attr E md AMOUNT) \<le> 100"
  shows "\<exists>s' fs' m'. merge_objects E ob dest s = Some s' \<and> world_inv E s' fs' (without cs ob) \<and> obj s' ob = None
    \<and> obj s' dest = Some m' \<and> OType m' = OType m \<and> attr E m' AMOUNT = attr E md AMOUNT + attr E m AMOUNT"
  by (rule merge_objects_ok [OF assms])

theorem merge_objects_conserves_witness:
  "\<exists>s ob dest s' m. ob \<noteq> dest \<and> merge_objects sample_env ob dest s = Some s' \<and> obj s' ob = None \<and> obj s' dest = Some m
    \<and> attr sample_env m AMOUNT = 2"
proof -
  have t: "\<not> is_creature_container 1" by (simp add: is_creature_container_def)
  obtain s fs con mc ob m where s: "world_inv sample_env s fs ((\<lambda>_. [])(con := [ob]))" "length fs = 32765" "obj s con = Some mc" "OType mc = 0"
    "obj s ob = Some m" "OType m = 1" "con \<noteq> ob" "con \<noteq> 0" "entries s = (253, 256)"
    "\<forall>a. a \<noteq> CONTENT \<longrightarrow> has sample_env m a \<longrightarrow> attr sample_env m a = initial sample_env 1 a" using sample_one [OF t] by blast
  let ?cs = "(\<lambda>_. [])(con := [ob])"
  have fs: "fs \<noteq> []" "(16 :: u32) \<le> 253" using s(2) by auto
  obtain n s' us vs m2 where n: "world_inv sample_env s' (tl fs) (?cs(con := us @ n # vs))" "obj s n = None" "obj s' n = Some m2"
    "OType m2 = 1" "Container m2 = con" "\<forall>a. a \<noteq> CONTENT \<longrightarrow> has sample_env m2 a \<longrightarrow> attr sample_env m2 a = initial sample_env 1 a"
    "\<forall>k. k \<noteq> n \<longrightarrow> rel_option (alike sample_env) (obj s k) (obj s' k)"
    using sample_object [OF s(1) fs(1) s(3,4,9) fs(2) t] by metis
  have on: "ob \<noteq> n" "con \<noteq> n" using n(2) s(3,5) by auto
  have "rel_option (alike sample_env) (obj s ob) (obj s' ob)" using n(7) on(1) by blast
  then obtain m1 where m1: "obj s' ob = Some m1" "alike sample_env m m1" using s(5) by (cases "obj s' ob") auto
  have f: "flag sample_env m2 CUMULATIVE" "OType m1 = OType m2" using n(4) m1(2) s(6) sample_flag_values(4) by (simp_all add: alike_def)
  have h: "has sample_env m AMOUNT" "has sample_env m2 AMOUNT" using f(1) s(6) n(4) sample_flag_values(4) has_attribute_flags(2) by simp_all
  then have a: "attr sample_env m1 AMOUNT = 1" "attr sample_env m2 AMOUNT = 1"
    using s(10) n(6) attr_alike [OF m1(2) h(1)] by (simp_all add: initial_def entered_def)
  have i: "ob \<notin> inside (?cs(con := us @ n # vs)) n" using on inside_empty [of "?cs(con := us @ n # vs)" n] by auto
  obtain s2 m3 where "merge_objects sample_env n ob s' = Some s2" "obj s2 n = None" "obj s2 ob = Some m3" "attr sample_env m3 AMOUNT = 1 + 1"
    using merge_objects_conserves [OF sample_loaded(1) n(1,3) _ f(1) m1(1) f(2) i] a n(5) s(8) by auto
  then show ?thesis using on(1) by (metis one_add_one)
qed

text \<open>
  The attributes of an object are independent: after \<open>set_attribute\<close>, \<open>get_attribute\<close> returns the value that was stored (an amount,
  a number of charges or a liquid is never 0) for this attribute, the old values for all others of the type, and
  no other object changes. So the offsets that were assigned to the attributes of a type never collide.
\<close>

theorem attribute_laws:
  assumes "loaded_types E" "store_inv s fs" "obj s n = Some m" "has E m a" "has E m b"
  shows "\<exists>s'. set_attribute E n a v s = Some s' \<and> store_inv s' fs \<and>
    get_attribute E n b s' = Some (if b = a then stored E (OType m) a v else attr E m b, s') \<and> get_attribute E n b s = Some (attr E m b, s)
    \<and> (\<forall>k. k \<noteq> n \<longrightarrow> obj s' k = obj s k)"
proof -
  let ?m = "with_attr E m a (stored E (OType m) a v)"
  have l: "length (Attributes m) = 4" "ObjectID m = n" using obj_cell(2) [OF assms(2,3)] obj_ID [OF assms(3)] by simp_all
  have P: "store_inv (put s n ?m) fs" "obj (put s n ?m) = (obj s)(n \<mapsto> ?m)" using store_inv_put [OF assms(2,3), of ?m] l by simp_all
  have "get_attribute E n b (put s n ?m) = Some (attr E ?m b, put s n ?m)"
    using P assms(5) by (intro get_attribute_obj [OF assms(1)]) auto
  then show ?thesis using set_attribute_obj [OF assms(1-4)] attr_with_attr [OF assms(1,4,5) l(1)] P get_attribute_obj [OF assms(1-3,5)] by auto
qed

theorem attribute_laws_witness:
  "\<exists>s s' n. set_attribute sample_env n AMOUNT 0 s = Some s' \<and> get_attribute sample_env n AMOUNT s' = Some (1, s')"
proof -
  have t: "\<not> is_creature_container 1" by (simp add: is_creature_container_def)
  obtain s fs n m where s: "store_inv s fs" "obj s n = Some m" "OType m = 1" using sample_one [OF t] world_invD(1) by blast
  have "has sample_env m AMOUNT" using s(3) sample_flag_values(4) has_attribute_flags(2) by simp
  then obtain s' where "set_attribute sample_env n AMOUNT 0 s = Some s'" "get_attribute sample_env n AMOUNT s' = Some (stored sample_env (OType m) AMOUNT 0, s')"
    using attribute_laws [OF sample_loaded(1) s(1,2), of AMOUNT AMOUNT 0] by auto
  then show ?thesis by (auto simp: stored_def)
qed

text \<open>
  \<open>get_container_object\<close> returns the object at the given position of a container, and \<open>NONE\<close> behind the last one.
\<close>

theorem get_container_object_nth:
  assumes "loaded_types E" "world_inv E s fs cs" "obj s c = Some mc" "has E mc CONTENT"
  shows "get_container_object E c (int i) s = Some (if i < length (cs c) then cs c ! i else 0, s)"
  by (rule get_container_object_ok [OF assms(1) world_invD(1,2) [OF assms(2)] assms(3,4)])

theorem get_container_object_nth_witness:
  "\<exists>s c n. n \<noteq> 0 \<and> get_container_object sample_env c 0 s = Some (n, s) \<and> get_container_object sample_env c 1 s = Some (0, s)"
proof -
  have t: "\<not> is_creature_container 1" by (simp add: is_creature_container_def)
  obtain s fs con mc n m where s: "world_inv sample_env s fs ((\<lambda>_. [])(con := [n]))" "obj s con = Some mc" "OType mc = 0" "obj s n = Some m"
    using sample_one [OF t] by blast
  note G = get_container_object_nth [OF sample_loaded(1) s(1,2) sample_has [OF s(3)]]
  show ?thesis using G [of 0] G [of 1] s(4) by (intro exI [of _ s] exI [of _ con] exI [of _ n]) auto
qed


section \<open>Stopping and continuing a timer\<close>

lemma priority_round: "priority (E\<lparr>RoundNr := r\<rparr>) = priority E"
  by (simp add: priority_def fun_eq_iff)

lemma prio_round: "prio (E\<lparr>RoundNr := r\<rparr>) = prio E"
  unfolding prio_def [abs_def] priority_round by (rule refl)

lemma world_inv_round: "world_inv (E\<lparr>RoundNr := r\<rparr>) s fs cs = world_inv E s fs cs"
  by (simp add: world_inv_def tree_inv_def timers_ok_def texts_ok_def fields_sorted_def field_sorted_def attr_def prio_round)

lemma loaded_types_round: "loaded_types (E\<lparr>RoundNr := r\<rparr>) = loaded_types E"
  by (simp add: loaded_types_def)

lemma one_timer:
  assumes "timers_ok E s" "(n, r) \<in># registered (crons s)" "(n, q) \<in># registered (crons s)"
  shows "q = r"
proof -
  obtain M where M: "registered (crons s) = add_mset (n, r) M" using assms(2) by (metis mset_add)
  have "count (image_mset fst (registered (crons s))) n \<le> 1" using assms(1) by (simp add: timers_ok_def)
  then have "count (image_mset fst M) n = 0" using M by simp
  then have "n \<notin># image_mset fst M" by (metis count_eq_zero_iff)
  then have "(n, q) \<notin># M" by force
  then show ?thesis using assms(3) M by auto
qed

lemma priority_type: "OType m = OType m' \<Longrightarrow> priority E m = priority E m'"
  by (simp add: priority_def)

lemma remaining_nonzero: "remaining now r \<noteq> 0"
  by (auto simp: remaining_def)

text \<open>
  C16: An object with a timer that is changed to a type with \<open>EXPIRESTOP\<close> has no timer any more. When it is changed back, at any later
  round, it has a timer again, for exactly the rounds that were left. (The value \<open>2 ^ 32 - 1\<close> stands for a new start.) Both types have no
  text and no magic field and the same priority, so that the object keeps its place.
\<close>

theorem expire_pause_resume:
  assumes "loaded_types E" "world_inv E s fs cs" "obj s n = Some m" "\<not> is_map_container (OType m)" "flag E m EXPIRE"
    "\<not> flag E m TEXT" "\<not> flag E m MAGICFIELD" "\<not> is_map_container t" "get_flag (ObjectTypes E) t EXPIRESTOP"
    "\<not> get_flag (ObjectTypes E) t EXPIRE" "\<not> get_flag (ObjectTypes E) t TEXT" "\<not> get_flag (ObjectTypes E) t MAGICFIELD"
    "has_attribute (ObjectTypes E) t CONTENT = has E m CONTENT" "priority E (m\<lparr>OType := t\<rparr>) = priority E m"
    "(n, r) \<in># registered (crons s)" "remaining (RoundNr E) r \<noteq> - 1"
  shows "\<exists>s1 s2. change_object E n t s = Some s1 \<and> \<not> is_registered (crons s1) n \<and>
    change_object (E\<lparr>RoundNr := now\<rparr>) n (OType m) s1 = Some s2 \<and> world_inv E s2 fs cs \<and>
    (n, now + remaining (RoundNr E) r) \<in># registered (crons s2)"
proof -
  let ?E = "E\<lparr>RoundNr := now\<rparr>"
  obtain s1 m1 v where s1: "change_object E n t s = Some s1" "world_inv E s1 fs cs" "obj s1 = (obj s)(n \<mapsto> m1)" "OType m1 = t"
    "\<forall>a. has_attribute (ObjectTypes E) t a \<longrightarrow> attr E m1 a = entered E t (kept_amount E m t) v (raw E m t) a"
    "\<exists>r. (n, r) \<in># registered (crons s) \<and> v = remaining (RoundNr E) r"
    "registered (crons s1) = filter_mset (\<lambda>p. fst p \<noteq> n) (registered (crons s))"
    using change_type_ok [OF assms(1-4,6,7,8,11,13,14)] assms(5,10) by auto
  have v: "v = remaining (RoundNr E) r" using s1(6) one_timer [OF world_invD(4) [OF assms(2)] assms(15)] by blast
  have o1: "obj s1 n = Some m1" using s1(3) by simp
  have "attr E m1 SAVEDEXPIRETIME = v" using s1(5) assms(9) has_attribute_flags(8) by (simp add: entered_def)
  moreover have "sint v \<noteq> - 1" using v assms(16) by (metis signed_minus_1 signed_word_eqI)
  ultimately have k: "kept_delay ?E m1 = sint v" "kept_delay ?E m1 \<noteq> - 1"
    using v remaining_nonzero s1(4) assms(9) by (simp_all add: kept_delay_def attr_def)
  have w: "loaded_types ?E" "world_inv ?E s1 fs cs" using assms(1) s1(2) by (simp_all add: loaded_types_round world_inv_round)
  have "priority E (m1\<lparr>OType := OType m\<rparr>) = priority E m1"
    using assms(14) priority_type [of "m1\<lparr>OType := OType m\<rparr>" m E] priority_type [of m1 "m\<lparr>OType := t\<rparr>" E] s1(4) by simp
  then have "priority ?E (m1\<lparr>OType := OType m\<rparr>) = priority ?E m1" unfolding priority_round .
  then obtain s2 where s2: "change_object ?E n (OType m) s1 = Some s2" "world_inv ?E s2 fs cs"
    "registered (crons s2) = add_mset (n, now + word_of_int (kept_delay ?E m1)) (filter_mset (\<lambda>p. fst p \<noteq> n) (registered (crons s1)))"
    using change_type_ok [OF w o1, of "OType m"] s1(4) assms(4-8,11-13) k(2) by auto
  moreover have "\<not> is_registered (crons s1) n"
    using registered_once [OF world_invD(4) [OF s1(2)], of n] o1 s1(4) assms(10) by simp
  ultimately show ?thesis using s1(1) k(1) v by (simp add: world_inv_round)
qed

theorem expire_pause_resume_witness:
  "\<exists>s n s1 s2. change_object sample_env n 3 s = Some s1 \<and> \<not> is_registered (crons s1) n \<and>
    change_object (sample_env\<lparr>RoundNr := 100\<rparr>) n 2 s1 = Some s2 \<and> (n, 105) \<in># registered (crons s2)"
proof -
  have t: "\<not> is_creature_container 2" by (simp add: is_creature_container_def)
  obtain s fs con n m where s: "world_inv sample_env s fs ((\<lambda>_. [])(con := [n]))" "obj s n = Some m" "OType m = 2"
    "get_flag (ObjectTypes sample_env) 2 EXPIRE \<longrightarrow> (n, first_expiry sample_env 2) \<in># registered (crons s)"
    using sample_one [OF t] by blast
  have "first_expiry sample_env 2 = 15" "remaining (RoundNr sample_env) 15 = 5"
    by (simp_all add: first_expiry_def sample_env_def sample_type_def remaining_def)
  then have r: "(n, 15) \<in># registered (crons s)" "remaining (RoundNr sample_env) 15 = 5" using s(4) sample_flag_values(7) by simp_all
  have f: "\<not> is_map_container (OType m)" "\<not> is_map_container 3" "flag sample_env m EXPIRE" "\<not> flag sample_env m TEXT" "\<not> flag sample_env m MAGICFIELD"
    using s(3) sample_flag_values by (simp_all add: is_map_container_def)
  have c: "has_attribute (ObjectTypes sample_env) 3 CONTENT = has_attribute (ObjectTypes sample_env) 2 CONTENT" by code_simp
  have "priority sample_env (new_MapObject\<lparr>OType := 3\<rparr>) = priority sample_env (new_MapObject\<lparr>OType := 2\<rparr>)" by code_simp
  then have p: "priority sample_env (m\<lparr>OType := 3\<rparr>) = priority sample_env m"
    using priority_type [of "m\<lparr>OType := 3\<rparr>" "new_MapObject\<lparr>OType := 3\<rparr>" sample_env] priority_type [of m "new_MapObject\<lparr>OType := 2\<rparr>" sample_env] s(3)
    by simp
  have "(5 :: u32) \<noteq> - 1" by simp
  then obtain s1 s2 where "change_object sample_env n 3 s = Some s1" "\<not> is_registered (crons s1) n"
    "change_object (sample_env\<lparr>RoundNr := 100\<rparr>) n 2 s1 = Some s2" "(n, 100 + 5) \<in># registered (crons s2)"
    using expire_pause_resume [OF sample_loaded(1) s(1,2) f(1,3-5,2) sample_flag_values(10-13) _ p r(1), of 100] c r(2) s(3) by auto
  moreover have "(100 :: u32) + 5 = 105" by simp
  ultimately show ?thesis by metis
qed

section \<open>Objects outside every container\<close>

lemma cut_loop_none:
  assumes "store_inv s fs" "read_cell (ptr_at s 0) s = Some z" "NextObject z = 0" "ob \<noteq> 0"
  shows "cut_loop E ob 0 s \<noteq> Some r"
proof
  assume "cut_loop E ob 0 s = Some r"
  define P where "P E k cur s r \<longleftrightarrow> \<not> (k = ob \<and> cur = 0 \<and> store_inv s fs \<and> read_cell (ptr_at s 0) s = Some z)"
    for E :: env and k cur :: u32 and s and r :: "u32 \<times> objects"
  have "P E ob 0 s r"
  proof (rule cut_loop.raw_induct [of P, OF _ \<open>cut_loop E ob 0 s = Some r\<close>])
    fix loop E k cur s r
    assume IH: "\<And>E k cur s r. loop E k cur s = Some r \<Longrightarrow> P E k cur s r"
      and l: "get_next_object E cur s \<bind> (\<lambda>(n, s). if n = k then Some (cur, s) else loop E k n s) = Some r"
    let ?s = "report ''access_object: Invalid object number zero'' s"
    show "P E k cur s r"
    proof (cases "k = ob \<and> cur = 0 \<and> store_inv s fs \<and> read_cell (ptr_at s 0) s = Some z")
      case True
      then have "access_object E 0 s = Some (ptr_at s 0, ?s)"
        using table_ptr_occupied [of s fs 0] by (simp add: access_object_def occupied_def)
      moreover have r: "read_cell (ptr_at s 0) ?s = Some z" "ptr_at ?s 0 = ptr_at s 0"
        using True by (simp_all add: read_cell_def report_def ptr_at_def)
      ultimately have "get_next_object E 0 s = Some (0, ?s)" using assms(3) by (simp add: get_next_object_def fetch_def)
      then have "loop E k 0 ?s = Some r" using l True assms(4) by simp
      then have "P E k 0 ?s r" by (rule IH)
      then show ?thesis using True r by (simp add: P_def)
    qed (simp add: P_def)
  qed
  then show False using assms by (simp add: P_def)
qed

text \<open>
  C20: \<open>cut_object\<close> never returns for an object that is in no container, and with it neither do \<open>delete_object\<close> and \<open>move_object\<close>: the
  search for its predecessor starts at \<open>NONE\<close> and goes from there to \<open>NONE\<close> again.
\<close>

theorem cut_object_hangs:
  assumes "store_inv s fs" "obj s ob = Some m" "Container m = 0" "read_cell (ptr_at s 0) s = Some z" "NextObject z = 0"
  shows "cut_object E ob s = None \<and> delete_object E ob s = None \<and> (obj s con \<noteq> None \<longrightarrow> move_object E ob con s = None)"
proof -
  let ?s = "report ''get_first_container_object: Provided container does not exist'' s"
  have "store_inv ?s fs" "read_cell (ptr_at ?s 0) ?s = Some z" using assms by (simp_all add: read_cell_def report_def ptr_at_def)
  moreover have ob: "ob \<noteq> 0" using assms(2) by auto
  ultimately have "cut_loop E ob 0 ?s = None" using cut_loop_none [of ?s fs z ob E] assms(5) by (cases "cut_loop E ob 0 ?s") auto
  moreover have "get_first_container_object E 0 s = Some (0, ?s)" by (simp add: get_first_container_object_def)
  moreover note ob
  ultimately have c: "cut_object E ob s = None" using assms(1,2,3) get_container_obj [OF assms(1,2), of E] by (simp add: cut_object_def)
  then have "delete_object E ob s = None" using assms(1,2) by (simp add: delete_object_def remove.simps)
  then show ?thesis using c assms(1,2) by (simp add: move_object_def)
qed

text \<open>The smallest store with an object.\<close>

definition tiny :: objects where
  "tiny = \<lparr>cells = [0 \<mapsto> Used new_MapObject, 1 \<mapsto> Used (new_MapObject\<lparr>ObjectID := 1\<rparr>)], FirstFreeObject = None,
     HashTableData = [Ptr 0, Ptr 1], HashTableType = [STATUS_PERMANENT, STATUS_LOADED], HashTableSize = 2, HashTableMask = 1,
     HashTableFree = 0, NextObjectID = 2, ObjectCounter = 1, crons = example_cron, strings = [], messages = []\<rparr>"

lemma tiny_entry: "obj_entry 0 tiny = 0" "obj_entry 1 tiny = 1"
  by (simp_all add: obj_entry_def tiny_def)

lemma tiny_occupied: "occupied tiny i \<longleftrightarrow> i = 0 \<or> i = 1"
  by (auto simp: occupied_def tiny_def)

lemma tiny_inv: "store_inv tiny []"
proof -
  have "\<exists>k. (2 :: u32) = 2 ^ k \<and> k < 32" by (rule exI [of _ 1]) simp
  then have "table_ok tiny" by (simp add: table_ok_def tiny_def)
  moreover have "entries_ok tiny" unfolding entries_ok_def tiny_occupied
    using tiny_entry by (auto simp: tiny_def new_MapObject_def inj_on_def ptr_at_def)
  ultimately show ?thesis by (simp add: store_inv_def free_ok_def tiny_def)
qed

lemma tiny_obj: "obj tiny 1 = Some (new_MapObject\<lparr>ObjectID := 1\<rparr>)" "read_cell (ptr_at tiny 0) tiny = Some new_MapObject"
  by (simp_all add: obj_def tiny_entry tiny_occupied) (simp_all add: tiny_def ptr_at_def read_cell_def)

theorem cut_object_hangs_witness: "delete_object sample_env 1 tiny = None"
  using cut_object_hangs [OF tiny_inv tiny_obj(1) _ tiny_obj(2), of sample_env 1] by (simp add: new_MapObject_def)

end
