(* ===== verification/Script.thy ===== *)
theory Script
  imports Utils
begin

text \<open>
  The tokenizer and the writer of the data files (\<open>game_data/script/script.cpp\<close>, \<open>script.h\<close>). A file is the list of its bytes; an open
  file is what is left to read of it, and \<open>fs\<close>, a parameter, gives the files that \<open>fopen\<close> can open.
  \<open>getc\<close> takes the first byte, its value at the end is \<open>EOF\<close>, and \<open>ungetc\<close> puts it back; the scanners
  are functions of the bytes left.

  A thrown exception is an \<open>Inl\<close> value. After \<open>error\<close> all files are closed and the recursion depth is -1; the other fields of
  the object are not part of the value. \<open>None\<close> is undefined behaviour: a signed overflow, a file name that does not fit its array.
\<close>

section \<open>Data\<close>

datatype TOKEN = ENDOFFILE | IDENTIFIER | NUMBER | STRING | BYTES | COORDINATE | SPECIAL

text \<open>\<open>String\<close> is the array of 4000 characters; \<open>Bytes\<close> is the same memory.\<close>

record ReadScriptFile =
  Token :: TOKEN
  File :: "int list list"
  Filename :: "cstring list"
  Line :: "int list"
  String :: "int list"
  RecursionDepth :: int
  Number :: int
  CoordX :: int
  CoordY :: int
  CoordZ :: int
  Special :: int

text \<open>The parts of the message of \<open>ReadScriptFile::error\<close>, or a literal.\<close>

datatype script_exn = Script_Error cstring int string | Literal string

abbreviation EOF :: int where
  "EOF \<equiv> - 1"

abbreviation MAX_IDENT_LENGTH :: nat where
  "MAX_IDENT_LENGTH \<equiv> 30"

definition NARRAY_String :: nat where
  "NARRAY_String = 4000"

definition ReadScriptFile_new :: "ReadScriptFile \<Rightarrow> ReadScriptFile" where
  "ReadScriptFile_new fresh = fresh\<lparr>RecursionDepth := - 1\<rparr>"

section \<open>Opening and closing\<close>

definition include_name :: "cstring \<Rightarrow> cstring \<Rightarrow> cstring option" where
  "include_name Previous FileName = do {
     Slash \<leftarrow> findLast Previous 47;
     Some (case Slash of None \<Rightarrow> FileName | Some i \<Rightarrow> take (i + 1) Previous @ FileName)}"

definition open_script :: "(cstring \<Rightarrow> int list option) \<Rightarrow> cstring \<Rightarrow> ReadScriptFile \<Rightarrow> (script_exn + ReadScriptFile) option" where
  "open_script fs FileName s =
     (let Depth = RecursionDepth s + 1
      in if Depth + 1 \<ge> 3 then Some (Inl (Literal ''Recursion depth too high''))
         else if Depth < 0 then None
         else do {
           name \<leftarrow> (if Depth > 0 \<and> cget FileName 0 \<noteq> 47
                   then do {Previous \<leftarrow> arr_get (Filename s) (Depth - 1); include_name Previous FileName}
                   else Some FileName);
           if length name \<ge> 4096 then None
           else case fs name of
             None \<Rightarrow> Some (Inl (Literal ''Cannot open script-file''))
           | Some bytes \<Rightarrow> do {
               fl \<leftarrow> arr_set (File s) Depth bytes;
               nm \<leftarrow> arr_set (Filename s) Depth name;
               ln \<leftarrow> arr_set (Line s) Depth 1;
               Some (Inr (s\<lparr>File := fl, Filename := nm, Line := ln, RecursionDepth := Depth\<rparr>))}})"

definition close_script :: "ReadScriptFile \<Rightarrow> ReadScriptFile" where
  "close_script s = (if RecursionDepth s \<le> - 1 then s else s\<lparr>RecursionDepth := RecursionDepth s - 1\<rparr>)"

definition script_error :: "string \<Rightarrow> ReadScriptFile \<Rightarrow> (script_exn + 'a) option" where
  "script_error text s =
     (let Depth = RecursionDepth s
      in do {
        name \<leftarrow> arr_get (Filename s) Depth;
        Slash \<leftarrow> findLast name 47;
        l \<leftarrow> arr_get (Line s) Depth;
        Some (Inl (Script_Error (case Slash of None \<Rightarrow> name | Some i \<Rightarrow> drop (i + 1) name) l text))})"

section \<open>Scanners\<close>

text \<open>White space in front of a token: the first other character, the rest and the line.\<close>

fun skip_space :: "int list \<Rightarrow> int \<Rightarrow> int \<times> int list \<times> int" where
  "skip_space [] l = (EOF, [], l)"
| "skip_space (c # bs) l =
     (let l = (if c = 10 then l + 1 else l) in if isSpace c then skip_space bs l else (c, bs, l))"

fun skip_comment :: "int list \<Rightarrow> int \<Rightarrow> int list \<times> int" where
  "skip_comment [] l = ([], l)"
| "skip_comment (c # bs) l = (if c = 10 then (bs, l + 1) else skip_comment bs l)"

text \<open>A scanner gives the text of an error, or its value and the rest. \<open>acc\<close> are the characters stored so far.\<close>

fun scan_include :: "int list \<Rightarrow> cstring \<Rightarrow> string + cstring \<times> int list" where
  "scan_include [] acc = Inl ''unexpected end of file''"
| "scan_include (c # bs) acc =
     (if c = 34 then Inr (acc, bs)
      else if length acc \<ge> NARRAY_String - 1 then Inl ''string too long''
      else scan_include bs (acc @ [to_char c]))"

fun scan_string :: "int list \<Rightarrow> cstring \<Rightarrow> int \<Rightarrow> (string \<times> int) + (cstring \<times> int list \<times> int)" where
  "scan_string [] acc l = Inl (''unexpected end of file'', l)"
| "scan_string [c] acc l =
     (if c = 34 then Inr (acc, [], l)
      else if c = 92 then Inl (''unexpected end of file'', l)
      else let l = (if c = 10 then l + 1 else l)
           in Inl (if length acc \<ge> NARRAY_String - 1 then ''string too long'' else ''unexpected end of file'', l))"
| "scan_string (c # d # bs) acc l =
     (if c = 34 then Inr (acc, d # bs, l)
      else if c = 92
      then if length acc \<ge> NARRAY_String - 1 then Inl (''string too long'', l)
           else scan_string bs (acc @ [to_char (if d = 110 then 10 else d)]) l
      else let l = (if c = 10 then l + 1 else l)
           in if length acc \<ge> NARRAY_String - 1 then Inl (''string too long'', l)
              else scan_string (d # bs) (acc @ [to_char c]) l)"

text \<open>The digits of a coordinate up to the character \<open>stop\<close>.\<close>

fun scan_coord :: "int \<Rightarrow> int list \<Rightarrow> int \<Rightarrow> (string + int \<times> int list) option" where
  "scan_coord stop [] Coord = Some (Inl ''unexpected end of file'')"
| "scan_coord stop (c # bs) Coord =
     (if isDigit c
      then if Coord * 10 + (c - 48) > INT_MAX then None else scan_coord stop bs (Coord * 10 + (c - 48))
      else if c = stop then Some (Inr (Coord, bs))
      else Some (Inl ''syntax error''))"

text \<open>The first character of a coordinate: the sign and the first digit.\<close>

definition coord_start :: "int list \<Rightarrow> (int \<times> int \<times> int list) option" where
  "coord_start bs = (case bs of [] \<Rightarrow> None
     | c # bs \<Rightarrow> if isDigit c then Some (1, c - 48, bs) else if c = 45 then Some (- 1, 0, bs) else None)"

definition scan_axis :: "int \<Rightarrow> int list \<Rightarrow> (string + int \<times> int list) option" where
  "scan_axis stop bs = (case coord_start bs of
       None \<Rightarrow> Some (Inl ''syntax error'')
     | Some (Sign, Coord, bs) \<Rightarrow> map_option (map_sum (\<lambda>t. t) (\<lambda>(v, bs). (Sign * v, bs))) (scan_coord stop bs Coord))"

fun scan_identifier :: "int list \<Rightarrow> cstring \<Rightarrow> string + cstring \<times> int list" where
  "scan_identifier [] acc = Inr (acc, [])"
| "scan_identifier (c # bs) acc =
     (if isAlpha c \<or> isDigit c \<or> c = 95
      then if length acc \<ge> MAX_IDENT_LENGTH - 1 then Inl ''identifier too long''
           else scan_identifier bs (acc @ [to_char c])
      else Inr (acc, c # bs))"

text \<open>A number, or several with \<open>-\<close> between them: the bytes in front, the last number and the rest.\<close>

fun scan_number :: "int list \<Rightarrow> int list \<Rightarrow> int \<Rightarrow> (string + int list \<times> int \<times> int list) option" where
  "scan_number [] bytes v = Some (Inr (bytes, v, []))"
| "scan_number [c] bytes v =
     (if isDigit c
      then if v * 10 + (c - 48) > INT_MAX then None else Some (Inr (bytes, v * 10 + (c - 48), []))
      else if c = 45
      then Some (Inl (if length bytes \<ge> NARRAY_String then ''too many bytes'' else ''unexpected end of file''))
      else Some (Inr (bytes, v, [c])))"
| "scan_number (c # d # bs) bytes v =
     (if isDigit c
      then if v * 10 + (c - 48) > INT_MAX then None else scan_number (d # bs) bytes (v * 10 + (c - 48))
      else if c = 45
      then if length bytes \<ge> NARRAY_String then Some (Inl ''too many bytes'')
           else if \<not> isDigit d then Some (Inl ''syntax error'')
           else scan_number bs (bytes @ [to_char v]) (d - 48)
      else Some (Inr (bytes, v, c # d # bs)))"


section \<open>Tokens\<close>

text \<open>The position in the current file, and characters stored at the start of \<open>String\<close>.\<close>

definition resume :: "int list \<Rightarrow> int \<Rightarrow> ReadScriptFile \<Rightarrow> ReadScriptFile" where
  "resume bs l s = s\<lparr>File := (File s)[nat (RecursionDepth s) := bs], Line := (Line s)[nat (RecursionDepth s) := l]\<rparr>"

definition store_chars :: "int list \<Rightarrow> ReadScriptFile \<Rightarrow> ReadScriptFile" where
  "store_chars cs s = s\<lparr>String := arr_copy (String s) 0 cs\<rparr>"

definition special :: "int \<Rightarrow> ReadScriptFile \<Rightarrow> ReadScriptFile" where
  "special c s = s\<lparr>Token := SPECIAL, Special := c\<rparr>"

text \<open>The C string in an array of characters.\<close>

definition c_str :: "int list \<Rightarrow> cstring" where
  "c_str a = takeWhile (\<lambda>c. c \<noteq> 0) a"

definition token_include :: "(cstring \<Rightarrow> int list option) \<Rightarrow> int list \<Rightarrow> int \<Rightarrow> ReadScriptFile \<Rightarrow> (script_exn + ReadScriptFile) option" where
  "token_include fs bs l s =
     (case bs of
        [] \<Rightarrow> script_error ''unexpected end of file'' s
      | c # bs \<Rightarrow>
          if c \<noteq> 34 then script_error ''syntax error'' s
          else case scan_include bs [] of
            Inl text \<Rightarrow> script_error text s
          | Inr (name, bs) \<Rightarrow> do {
              r \<leftarrow> open_script fs (c_str (String (store_chars name s))) (store_chars name (resume bs l s));
              Some (map_sum (\<lambda>e. e) (\<lambda>s. s\<lparr>String := replicate NARRAY_String 0\<rparr>) r)})"

definition token_string :: "int list \<Rightarrow> int \<Rightarrow> ReadScriptFile \<Rightarrow> (script_exn + ReadScriptFile) option" where
  "token_string bs l s =
     (case scan_string bs [] l of
        Inl (text, l) \<Rightarrow> script_error text (resume bs l s)
      | Inr (cs, bs, l) \<Rightarrow> Some (Inr ((store_chars cs (resume bs l s))\<lparr>Token := STRING\<rparr>)))"

definition token_coordinate :: "int list \<Rightarrow> int \<Rightarrow> ReadScriptFile \<Rightarrow> (script_exn + ReadScriptFile) option" where
  "token_coordinate bs l s =
     (case coord_start bs of
        None \<Rightarrow> Some (Inr (special 91 s))
      | Some (Sign, Coord, bs) \<Rightarrow> do {
          r \<leftarrow> scan_coord 44 bs Coord;
          case r of
            Inl text \<Rightarrow> script_error text s
          | Inr (x, bs) \<Rightarrow> do {
              r \<leftarrow> scan_axis 44 bs;
              case r of
                Inl text \<Rightarrow> script_error text s
              | Inr (y, bs) \<Rightarrow> do {
                  r \<leftarrow> scan_axis 93 bs;
                  case r of
                    Inl text \<Rightarrow> script_error text s
                  | Inr (z, bs) \<Rightarrow>
                      Some (Inr ((resume bs l s)\<lparr>CoordX := Sign * x, CoordY := y, CoordZ := z, Token := COORDINATE\<rparr>))}}})"

text \<open>The special characters of two letters.\<close>

definition token_pair :: "int \<Rightarrow> (int \<times> int) list \<Rightarrow> int list \<Rightarrow> int \<Rightarrow> ReadScriptFile \<Rightarrow> ReadScriptFile" where
  "token_pair c pairs bs l s =
     (case bs of
        [] \<Rightarrow> special c s
      | d # ds \<Rightarrow> (case map_of pairs d of None \<Rightarrow> special c s | Some e \<Rightarrow> special e (resume ds l s)))"

definition token_identifier :: "int \<Rightarrow> int list \<Rightarrow> int \<Rightarrow> ReadScriptFile \<Rightarrow> (script_exn + ReadScriptFile) option" where
  "token_identifier c bs l s =
     (case scan_identifier bs [to_char c] of
        Inl text \<Rightarrow> script_error text s
      | Inr (cs, bs) \<Rightarrow> Some (Inr ((store_chars cs (resume bs l s))\<lparr>Token := IDENTIFIER\<rparr>)))"

definition token_number :: "int \<Rightarrow> int list \<Rightarrow> int \<Rightarrow> ReadScriptFile \<Rightarrow> (script_exn + ReadScriptFile) option" where
  "token_number c bs l s = do {
     r \<leftarrow> scan_number bs [] (c - 48);
     case r of
       Inl text \<Rightarrow> script_error text s
     | Inr (bytes, v, bs) \<Rightarrow>
         if bytes = [] then Some (Inr ((resume bs l s)\<lparr>Token := NUMBER, Number := v\<rparr>))
         else if length bytes \<ge> NARRAY_String then script_error ''too many bytes'' s
         else Some (Inr ((store_chars (bytes @ [to_char v]) (resume bs l s))\<lparr>Token := BYTES\<rparr>))}"

text \<open>The character \<open>c\<close> behind the white space decides; the flag says that the loop returns.\<close>

definition token_switch :: "(cstring \<Rightarrow> int list option) \<Rightarrow> int \<Rightarrow> int list \<Rightarrow> int \<Rightarrow> ReadScriptFile \<Rightarrow>
    (script_exn + bool \<times> ReadScriptFile) option" where
  "token_switch fs c bs l s =
     (let result = (\<lambda>b. map_option (map_sum (\<lambda>e. e) (Pair b)))
      in if c = EOF
         then Some (Inr (if RecursionDepth s = 0 then (True, s\<lparr>Token := ENDOFFILE\<rparr>) else (False, close_script s)))
         else if c = 35 then (case skip_comment bs l of (bs, l) \<Rightarrow> Some (Inr (False, resume bs l s)))
         else if c = 64 then result False (token_include fs bs l s)
         else if c = 34 then result True (token_string bs l s)
         else if c = 91 then result True (token_coordinate bs l s)
         else if c = 60 then Some (Inr (True, token_pair 60 [(61, 76), (62, 78)] bs l s))
         else if c = 62 then Some (Inr (True, token_pair 62 [(61, 71)] bs l s))
         else if c = 45 then Some (Inr (True, token_pair 45 [(62, 73)] bs l s))
         else if isAlpha c then result True (token_identifier c bs l s)
         else if isDigit c then result True (token_number c bs l s)
         else Some (Inr (True, special (to_char c) s)))"

text \<open>One round of the loop.\<close>

definition token_step :: "(cstring \<Rightarrow> int list option) \<Rightarrow> ReadScriptFile \<Rightarrow> (script_exn + bool \<times> ReadScriptFile) option" where
  "token_step fs s =
     (let Depth = RecursionDepth s
      in if Depth < 0 \<or> Depth \<ge> 3 then None
         else do {
           bs \<leftarrow> arr_get (File s) Depth;
           l \<leftarrow> arr_get (Line s) Depth;
           case skip_space bs l of (c, bs, l) \<Rightarrow> token_switch fs c bs l (resume bs l s)})"

partial_function (option) token_loop :: "(cstring \<Rightarrow> int list option) \<Rightarrow> ReadScriptFile \<Rightarrow> (script_exn + ReadScriptFile) option" where
  "token_loop fs s = Option.bind (token_step fs s) (\<lambda>r.
     case r of Inl e \<Rightarrow> Some (Inl e) | Inr p \<Rightarrow> if fst p then Some (Inr (snd p)) else token_loop fs (snd p))"

declare token_loop.simps [code]

definition next_token :: "(cstring \<Rightarrow> int list option) \<Rightarrow> ReadScriptFile \<Rightarrow> (script_exn + ReadScriptFile) option" where
  "next_token fs s =
     (if RecursionDepth s = - 1 then Some (Inr (s\<lparr>Token := ENDOFFILE\<rparr>))
      else token_loop fs (s\<lparr>String := replicate NARRAY_String 0, Number := 0, CoordX := 0, CoordY := 0, CoordZ := 0, Special := 0\<rparr>))"

section \<open>Typed reads\<close>

definition get_identifier :: "ReadScriptFile \<Rightarrow> (script_exn + cstring \<times> ReadScriptFile) option" where
  "get_identifier s =
     (if Token s \<noteq> IDENTIFIER then script_error ''identifier expected'' s
      else let cs = strLower (c_str (String s)) in Some (Inr (cs, store_chars cs s)))"

definition get_number :: "ReadScriptFile \<Rightarrow> (script_exn + int) option" where
  "get_number s = (if Token s \<noteq> NUMBER then script_error ''number expected'' s else Some (Inr (Number s)))"

definition get_string :: "ReadScriptFile \<Rightarrow> (script_exn + cstring) option" where
  "get_string s = (if Token s \<noteq> STRING then script_error ''string expected'' s else Some (Inr (c_str (String s))))"

text \<open>The pointer \<open>Bytes\<close>: all 4000 bytes of the array.\<close>

definition get_bytesequence :: "ReadScriptFile \<Rightarrow> (script_exn + int list) option" where
  "get_bytesequence s =
     (if Token s \<noteq> BYTES then script_error ''byte-sequence expected'' s else Some (Inr (map (\<lambda>c. c mod 256) (String s))))"

definition get_coordinate :: "ReadScriptFile \<Rightarrow> (script_exn + int \<times> int \<times> int) option" where
  "get_coordinate s =
     (if Token s \<noteq> COORDINATE then script_error ''coordinates expected'' s else Some (Inr (CoordX s, CoordY s, CoordZ s)))"

definition get_special :: "ReadScriptFile \<Rightarrow> (script_exn + int) option" where
  "get_special s = (if Token s \<noteq> SPECIAL then script_error ''special-char expected'' s else Some (Inr (Special s)))"

text \<open>A typed read is \<open>next_token\<close> followed by the access; an exception of either is thrown on.\<close>

definition read_with :: "(cstring \<Rightarrow> int list option) \<Rightarrow> (ReadScriptFile \<Rightarrow> (script_exn + 'a) option) \<Rightarrow> ReadScriptFile \<Rightarrow>
    (script_exn + 'a \<times> ReadScriptFile) option" where
  "read_with fs get s = do {
     r \<leftarrow> next_token fs s;
     case r of Inl e \<Rightarrow> Some (Inl e)
     | Inr s \<Rightarrow> do {v \<leftarrow> get s; Some (map_sum (\<lambda>e. e) (\<lambda>v. (v, s)) v)}}"

definition read_identifier :: "(cstring \<Rightarrow> int list option) \<Rightarrow> ReadScriptFile \<Rightarrow> (script_exn + cstring \<times> ReadScriptFile) option" where
  "read_identifier fs s = do {
     r \<leftarrow> next_token fs s;
     case r of Inl e \<Rightarrow> Some (Inl e) | Inr s \<Rightarrow> get_identifier s}"

definition read_number :: "(cstring \<Rightarrow> int list option) \<Rightarrow> ReadScriptFile \<Rightarrow> (script_exn + int \<times> ReadScriptFile) option" where
  "read_number fs s = do {
     r \<leftarrow> next_token fs s;
     case r of Inl e \<Rightarrow> Some (Inl e)
     | Inr s \<Rightarrow>
         if Token s = SPECIAL \<and> Special s = 45
         then do {r \<leftarrow> read_with fs get_number s; Some (map_sum (\<lambda>e. e) (\<lambda>(v, s). (- 1 * v, s)) r)}
         else do {v \<leftarrow> get_number s; Some (map_sum (\<lambda>e. e) (\<lambda>v. (1 * v, s)) v)}}"

definition read_string :: "(cstring \<Rightarrow> int list option) \<Rightarrow> ReadScriptFile \<Rightarrow> (script_exn + cstring \<times> ReadScriptFile) option" where
  "read_string fs s = read_with fs get_string s"

definition read_bytesequence :: "(cstring \<Rightarrow> int list option) \<Rightarrow> ReadScriptFile \<Rightarrow> (script_exn + int list \<times> ReadScriptFile) option" where
  "read_bytesequence fs s = read_with fs get_bytesequence s"

definition read_coordinate ::
    "(cstring \<Rightarrow> int list option) \<Rightarrow> ReadScriptFile \<Rightarrow> (script_exn + (int \<times> int \<times> int) \<times> ReadScriptFile) option" where
  "read_coordinate fs s = read_with fs get_coordinate s"

definition read_special :: "(cstring \<Rightarrow> int list option) \<Rightarrow> ReadScriptFile \<Rightarrow> (script_exn + int \<times> ReadScriptFile) option" where
  "read_special fs s = read_with fs get_special s"

definition read_symbol :: "(cstring \<Rightarrow> int list option) \<Rightarrow> int \<Rightarrow> ReadScriptFile \<Rightarrow> (script_exn + ReadScriptFile) option" where
  "read_symbol fs Symbol s = do {
     r \<leftarrow> read_special fs s;
     case r of Inl e \<Rightarrow> Some (Inl e)
     | Inr (c, s) \<Rightarrow> if c \<noteq> Symbol then script_error ''symbol mismatch'' s else Some (Inr s)}"


section \<open>Writing\<close>

text \<open>\<open>WFile\<close> is what has been written, \<open>None\<close> when no file is open.\<close>

record WriteScriptFile =
  WFile :: "int list option"
  WFilename :: cstring
  WLine :: int

text \<open>The decimal digits of a number, as \<open>snprintf\<close> writes them with \<open>%u\<close> and \<open>%d\<close>.\<close>

fun decimal :: "nat \<Rightarrow> int list" where
  "decimal n = (if n < 10 then [48 + int n] else decimal (n div 10) @ [48 + int (n mod 10)])"

declare decimal.simps [simp del]

definition decimal_int :: "int \<Rightarrow> int list" where
  "decimal_int n = (if n < 0 then 45 # decimal (nat (- n)) else decimal (nat n))"

definition WriteScriptFile_new :: "WriteScriptFile \<Rightarrow> WriteScriptFile" where
  "WriteScriptFile_new fresh = fresh\<lparr>WFile := None\<rparr>"

definition open_write :: "(cstring \<Rightarrow> bool) \<Rightarrow> cstring \<Rightarrow> WriteScriptFile \<Rightarrow> (script_exn + WriteScriptFile) option" where
  "open_write can_create FileName w =
     (if \<not> can_create FileName then Some (Inl (Literal ''Cannot create script-file''))
      else if length FileName \<ge> 4096 then None
      else Some (Inr (w\<lparr>WFile := Some [], WFilename := FileName, WLine := 0\<rparr>)))"

definition close_write :: "WriteScriptFile \<Rightarrow> WriteScriptFile" where
  "close_write w = w\<lparr>WFile := None\<rparr>"

definition write_error :: "string \<Rightarrow> WriteScriptFile \<Rightarrow> script_exn" where
  "write_error text w = Script_Error (WFilename w) (WLine w) text"

text \<open>\<open>putc\<close> converts to \<open>unsigned char\<close>.\<close>

definition put_chars :: "int list \<Rightarrow> WriteScriptFile \<Rightarrow> WriteScriptFile" where
  "put_chars cs w = w\<lparr>WFile := map_option (\<lambda>bs. bs @ map (\<lambda>c. c mod 256) cs) (WFile w)\<rparr>"

definition write_ln :: "WriteScriptFile \<Rightarrow> script_exn + WriteScriptFile" where
  "write_ln w = (if WFile w = None then Inl (Literal ''Cannot write linefeed'') else Inr (put_chars [10] w))"

definition write_text :: "cstring option \<Rightarrow> WriteScriptFile \<Rightarrow> script_exn + WriteScriptFile" where
  "write_text Text w =
     (if WFile w = None then Inl (Literal ''Cannot write text'')
      else case Text of None \<Rightarrow> Inl (Literal ''Cannot write text'') | Some cs \<Rightarrow> Inr (put_chars cs w))"

definition write_number :: "int \<Rightarrow> WriteScriptFile \<Rightarrow> script_exn + WriteScriptFile" where
  "write_number n w =
     (if WFile w = None then Inl (Literal ''Cannot write number'') else write_text (Some (decimal_int n)) w)"

definition escape_char :: "int \<Rightarrow> int list" where
  "escape_char c = (if c = 34 \<or> c = 92 then [92, c] else if c = 10 then [92, 110] else [c])"

definition write_string :: "cstring option \<Rightarrow> WriteScriptFile \<Rightarrow> script_exn + WriteScriptFile" where
  "write_string Text w =
     (if WFile w = None then Inl (Literal ''Cannot write string'')
      else case Text of None \<Rightarrow> Inl (Literal ''Cannot write string'')
        | Some cs \<Rightarrow> Inr (put_chars [34] (put_chars (concat (map escape_char cs)) (put_chars [34] w))))"

definition write_coordinate :: "int \<Rightarrow> int \<Rightarrow> int \<Rightarrow> WriteScriptFile \<Rightarrow> script_exn + WriteScriptFile" where
  "write_coordinate x y z w =
     (if WFile w = None then Inl (Literal ''Cannot write coordinate'')
      else if x < 0 \<or> y < 0 \<or> z < 0 then Inl (Literal ''Invalid coordinates'')
      else write_text (Some ([91] @ decimal (nat x) @ [44] @ decimal (nat y) @ [44] @ decimal (nat z) @ [93])) w)"

text \<open>The loop over the bytes from the index \<open>i\<close>.\<close>

fun write_bytes :: "nat \<Rightarrow> u8 list \<Rightarrow> WriteScriptFile \<Rightarrow> script_exn + WriteScriptFile" where
  "write_bytes i [] w = Inr w"
| "write_bytes i (b # bs) w =
     (case write_text (Some (decimal (unat b))) (if i > 0 then put_chars [45] w else w) of
        Inl e \<Rightarrow> Inl e | Inr w \<Rightarrow> write_bytes (Suc i) bs w)"

definition write_bytesequence :: "u8 list option \<Rightarrow> WriteScriptFile \<Rightarrow> script_exn + WriteScriptFile" where
  "write_bytesequence Sequence w =
     (if WFile w = None then Inl (Literal ''Cannot write bytesequence'')
      else case Sequence of None \<Rightarrow> Inl (Literal ''Cannot write bytesequence'')
        | Some bs \<Rightarrow> if length bs \<le> 0 then Inl (Literal ''Cannot write bytesequence'') else write_bytes 0 bs w)"


section \<open>Termination\<close>

lemma skip_space_length:
  "skip_space bs l = (c, rest, l') \<Longrightarrow> length rest \<le> length bs \<and> (c \<noteq> EOF \<longrightarrow> length rest < length bs)"
  by (induction bs l rule: skip_space.induct) (auto simp: Let_def split: if_splits)

lemma skip_comment_length: "skip_comment bs l = (rest, l') \<Longrightarrow> length rest \<le> length bs"
  by (induction bs l rule: skip_comment.induct) (auto split: if_splits)

lemma scan_include_length: "scan_include bs acc = Inr (cs, rest) \<Longrightarrow> length rest < length bs \<and> length cs < NARRAY_String"
  if "length acc < NARRAY_String"
  using that by (induction bs acc rule: scan_include.induct) (fastforce split: if_splits)+

text \<open>The arrays of the object, and the depth of included files.\<close>

definition script_ok :: "ReadScriptFile \<Rightarrow> bool" where
  "script_ok s \<longleftrightarrow> length (File s) = 3 \<and> length (Filename s) = 3 \<and> length (Line s) = 3 \<and> length (String s) = NARRAY_String
     \<and> - 1 \<le> RecursionDepth s \<and> RecursionDepth s \<le> 1"

text \<open>What is left to read, of the outer file first.\<close>

definition left :: "ReadScriptFile \<Rightarrow> nat \<times> nat" where
  "left s = (length (File s ! 0), if RecursionDepth s = 1 then Suc (length (File s ! 1)) else 0)"

definition left_order :: "((nat \<times> nat) \<times> (nat \<times> nat)) set" where
  "left_order = less_than <*lex*> less_than"

lemma wf_left: "wf left_order"
  by (auto simp: left_order_def)

lemma trans_left: "(a, b) \<in> left_order \<Longrightarrow> (b, c) \<in> left_order \<Longrightarrow> (a, c) \<in> left_order"
  by (cases a; cases b; cases c) (auto simp: left_order_def)


text \<open>The state in which the loop runs: a file is open and the string is cleared.\<close>

definition loop_ok :: "ReadScriptFile \<Rightarrow> bool" where
  "loop_ok s \<longleftrightarrow> script_ok s \<and> 0 \<le> RecursionDepth s \<and> String s = replicate NARRAY_String 0"

text \<open>The state behind a token: strings and identifiers are terminated inside the array.\<close>

definition token_ok :: "ReadScriptFile \<Rightarrow> bool" where
  "token_ok s \<longleftrightarrow> script_ok s \<and> (Token s = STRING \<or> Token s = IDENTIFIER \<longrightarrow> 0 \<in> set (String s))"

lemma resume_ok [simp]:
  "script_ok (resume bs l s) = script_ok s" "RecursionDepth (resume bs l s) = RecursionDepth s" "String (resume bs l s) = String s"
  "Filename (resume bs l s) = Filename s" "Token (resume bs l s) = Token s" "length (File (resume bs l s)) = length (File s)"
  "length (Line (resume bs l s)) = length (Line s)" "loop_ok (resume bs l s) = loop_ok s"
  by (simp_all add: resume_def script_ok_def loop_ok_def)

lemma depth_cases: "loop_ok s \<Longrightarrow> RecursionDepth s = 0 \<or> RecursionDepth s = 1"
  by (auto simp: loop_ok_def script_ok_def)

lemma left_resume:
  assumes "loop_ok s" "length bs < length (File s ! nat (RecursionDepth s))"
  shows "(left (resume bs l s), left s) \<in> left_order"
  using assms depth_cases [OF assms(1)] by (auto simp: left_def left_order_def resume_def loop_ok_def script_ok_def)

lemma store_chars_ok:
  assumes "loop_ok s" "length cs \<le> NARRAY_String"
  shows "script_ok (store_chars cs s)" "length cs < NARRAY_String \<Longrightarrow> 0 \<in> set (String (store_chars cs s))"
    "String (store_chars cs s) = cs @ replicate (NARRAY_String - length cs) 0"
proof -
  show s: "String (store_chars cs s) = cs @ replicate (NARRAY_String - length cs) 0"
    using assms by (simp add: store_chars_def loop_ok_def arr_copy_def drop_replicate)
  then show "length cs < NARRAY_String \<Longrightarrow> 0 \<in> set (String (store_chars cs s))" by simp
  have "length (String (store_chars cs s)) = NARRAY_String" using s assms(2) by simp
  then show "script_ok (store_chars cs s)" using assms(1) by (simp add: script_ok_def loop_ok_def store_chars_def)
qed

lemma scan_string_bound: "length acc < NARRAY_String \<Longrightarrow> scan_string bs acc l = Inr (cs, rest, l') \<Longrightarrow> length cs < NARRAY_String"
  by (induction bs acc l rule: scan_string.induct) (auto simp: Let_def split: if_splits)

lemma scan_identifier_bound:
  "length acc < MAX_IDENT_LENGTH \<Longrightarrow> scan_identifier bs acc = Inr (cs, rest) \<Longrightarrow> length cs < MAX_IDENT_LENGTH"
  by (induction bs acc rule: scan_identifier.induct) (auto split: if_splits)

lemma scan_number_bound:
  "length bytes \<le> NARRAY_String \<Longrightarrow> scan_number bs bytes v = Some (Inr (bytes', v', rest)) \<Longrightarrow> length bytes' \<le> NARRAY_String"
  by (induction bs bytes v rule: scan_number.induct) (auto split: if_splits)

text \<open>\<open>error\<close> always throws.\<close>

lemma script_error_ok: "script_error text s \<noteq> Some (Inr x)"
  by (auto simp: script_error_def Let_def bind_eq_Some_conv)

lemma token_include_ok:
  assumes s: "loop_ok s" and t: "token_include fs bs l s = Some (Inr s')"
  shows "loop_ok s'" "(left s', left (s\<lparr>File := (File s)[nat (RecursionDepth s) := bs]\<rparr>)) \<in> left_order"
proof -
  obtain c r where c: "bs = c # r" "c = 34"
    using t by (cases bs) (auto simp: token_include_def script_error_ok split: if_splits)
  obtain name rest where sc: "scan_include r [] = Inr (name, rest)"
    using t c by (cases "scan_include r []") (auto simp: token_include_def script_error_ok)
  define s1 where "s1 = store_chars name (resume rest l s)"
  obtain s2 where s2: "open_script fs (c_str (String (store_chars name s))) s1 = Some (Inr s2)" "s' = s2\<lparr>String := replicate NARRAY_String 0\<rparr>"
  proof -
    have "do {r \<leftarrow> open_script fs (c_str (String (store_chars name s))) s1;
        Some (map_sum (\<lambda>e. e) (\<lambda>s. s\<lparr>String := replicate NARRAY_String 0\<rparr>) r)} = Some (Inr s')"
      using t c sc by (simp add: token_include_def s1_def)
    then obtain y where y: "open_script fs (c_str (String (store_chars name s))) s1 = Some y"
        "map_sum (\<lambda>e. e) (\<lambda>s. s\<lparr>String := replicate NARRAY_String 0\<rparr>) y = Inr s'"
      by (auto simp: bind_eq_Some_conv)
    then show thesis using that by (cases y) auto
  qed
  have f: "RecursionDepth s1 = RecursionDepth s" "length (File s1) = 3" "length (Filename s1) = 3" "length (Line s1) = 3"
    "File s1 = (File s)[nat (RecursionDepth s) := rest]"
    using s by (simp_all add: s1_def store_chars_def loop_ok_def script_ok_def) (simp add: resume_def)
  have d: "RecursionDepth s = 0" using s2(1) f(1) depth_cases [OF s] by (auto simp: open_script_def Let_def)
  obtain bytes nm ln where o: "s2 = s1\<lparr>File := (File s1)[1 := bytes], Filename := nm, Line := ln, RecursionDepth := 1\<rparr>" "length nm = 3" "length ln = 3"
    using s2(1) f d by (auto simp: open_script_def Let_def bind_eq_Some_conv arr_set_eq_Some split: if_splits option.splits)
  show "loop_ok s'" using o s2(2) f by (simp add: loop_ok_def script_ok_def)
  have "length rest < length bs" using scan_include_length [OF _ sc] c by (simp add: NARRAY_String_def)
  then show "(left s', left (s\<lparr>File := (File s)[nat (RecursionDepth s) := bs]\<rparr>)) \<in> left_order"
    using o s2(2) f d s by (simp add: left_def left_order_def loop_ok_def script_ok_def)
qed

text \<open>The tokens that keep \<open>String\<close> or write a bounded text into it.\<close>

lemma special_ok [simp]: "script_ok (special c s) = script_ok s" "Token (special c s) = SPECIAL" "String (special c s) = String s"
  by (simp_all add: special_def script_ok_def)

lemma script_ok_more [simp]:
  "script_ok (s\<lparr>Token := t\<rparr>) = script_ok s" "script_ok (s\<lparr>Number := n\<rparr>) = script_ok s"
  "script_ok (s\<lparr>CoordX := x\<rparr>) = script_ok s" "script_ok (s\<lparr>CoordY := y\<rparr>) = script_ok s" "script_ok (s\<lparr>CoordZ := z\<rparr>) = script_ok s"
  by (simp_all add: script_ok_def)

lemma loop_script_ok: "loop_ok s \<Longrightarrow> script_ok s"
  by (simp add: loop_ok_def)

lemma token_string_ok:
  assumes s: "loop_ok s" and t: "token_string bs l s = Some (Inr s')"
  shows "token_ok s'"
proof -
  obtain cs rest l' where sc: "scan_string bs [] l = Inr (cs, rest, l')" "s' = (store_chars cs (resume rest l' s))\<lparr>Token := STRING\<rparr>"
    using t by (cases "scan_string bs [] l") (auto simp: token_string_def script_error_ok)
  have "length cs < NARRAY_String" using scan_string_bound [OF _ sc(1)] by (simp add: NARRAY_String_def)
  then show ?thesis using store_chars_ok [of "resume rest l' s" cs] s sc(2) by (simp add: token_ok_def)
qed

lemma token_identifier_ok:
  assumes s: "loop_ok s" and t: "token_identifier c bs l s = Some (Inr s')"
  shows "token_ok s'"
proof -
  obtain cs rest where sc: "scan_identifier bs [to_char c] = Inr (cs, rest)" "s' = (store_chars cs (resume rest l s))\<lparr>Token := IDENTIFIER\<rparr>"
    using t by (cases "scan_identifier bs [to_char c]") (auto simp: token_identifier_def script_error_ok)
  have "length cs < NARRAY_String" using scan_identifier_bound [OF _ sc(1)] by (simp add: NARRAY_String_def)
  then show ?thesis using store_chars_ok [of "resume rest l s" cs] s sc(2) by (simp add: token_ok_def)
qed

lemma token_number_ok:
  assumes s: "loop_ok s" and t: "token_number c bs l s = Some (Inr s')"
  shows "token_ok s'"
proof -
  obtain r where r: "scan_number bs [] (c - 48) = Some r" using t by (auto simp: token_number_def bind_eq_Some_conv)
  then obtain bytes v rest where y: "scan_number bs [] (c - 48) = Some (Inr (bytes, v, rest))"
    using t by (cases r) (auto simp: token_number_def script_error_ok)
  show ?thesis
  proof (cases "bytes = []")
    case True
    then show ?thesis using t y s by (auto simp: token_number_def token_ok_def loop_ok_def)
  next
    case False
    then have l: "length bytes < NARRAY_String" and e: "s' = (store_chars (bytes @ [to_char v]) (resume rest l s))\<lparr>Token := BYTES\<rparr>"
      using t y by (auto simp: token_number_def script_error_ok split: if_splits)
    show ?thesis using store_chars_ok(1) [of "resume rest l s" "bytes @ [to_char v]"] s l e by (simp add: token_ok_def)
  qed
qed

lemma bind_scan:
  "Option.bind m (case_sum (\<lambda>text. script_error text s) f) = Some (Inr x) \<longleftrightarrow> (\<exists>p. m = Some (Inr p) \<and> f p = Some (Inr x))"
  by (cases m; cases "the m") (auto simp: script_error_ok)

lemma token_coordinate_ok:
  assumes s: "loop_ok s" and t: "token_coordinate bs l s = Some (Inr s')"
  shows "token_ok s'"
  using assms(1) t
  by (auto simp: token_coordinate_def bind_scan token_ok_def loop_script_ok split: option.splits prod.splits)

lemma token_pair_ok: "loop_ok s \<Longrightarrow> token_ok (token_pair c pairs bs l s)"
  by (auto simp: token_pair_def token_ok_def loop_script_ok split: list.splits option.splits)

text \<open>Every round of the loop reads something or returns.\<close>

lemma map_result: "map_option (map_sum (\<lambda>e. e) (Pair b)) r = Some (Inr (d, s')) \<longleftrightarrow> r = Some (Inr s') \<and> d = b"
  by (cases r; cases "the r") auto

lemma token_step_switch:
  assumes "loop_ok s" "skip_space (File s ! nat (RecursionDepth s)) (Line s ! nat (RecursionDepth s)) = (c, bs, l)"
  shows "token_step fs s = token_switch fs c bs l (resume bs l s)"
  using assms by (auto simp: token_step_def loop_ok_def script_ok_def arr_get_def)

lemma token_step_ok:
  assumes s: "loop_ok s" and t: "token_step fs s = Some (Inr (d, s'))"
  shows "if d then token_ok s' else loop_ok s' \<and> (left s', left s) \<in> left_order"
proof -
  let ?bs = "File s ! nat (RecursionDepth s)" and ?l = "Line s ! nat (RecursionDepth s)"
  obtain c bs l where k: "skip_space ?bs ?l = (c, bs, l)" by (cases "skip_space ?bs ?l")
  define s1 where "s1 = resume bs l s"
  have s1: "loop_ok s1" using s by (simp add: s1_def)
  have len: "length bs \<le> length ?bs" "c \<noteq> EOF \<Longrightarrow> length bs < length ?bs" using skip_space_length [OF k] by auto
  have f1: "File s1 = (File s)[nat (RecursionDepth s) := bs]" "RecursionDepth s1 = RecursionDepth s" by (simp_all add: s1_def resume_def)
  note st = t [unfolded token_step_switch [OF s k], folded s1_def, unfolded token_switch_def Let_def]
  consider "c = EOF" | "c = 35" | "c = 64" | "c \<noteq> EOF" "c \<noteq> 35" "c \<noteq> 64" by blast
  then show ?thesis
  proof cases
    case 1
    then show ?thesis using st s1 s f1 len depth_cases [OF s]
      by (auto simp: token_ok_def loop_ok_def script_ok_def close_script_def left_def left_order_def)
  next
    case 2
    obtain bs' l' where c: "skip_comment bs l = (bs', l')" by (cases "skip_comment bs l")
    have "s' = resume bs' l' s1" "\<not> d" using st 2 c by auto
    moreover have "length bs' < length ?bs" using skip_comment_length [OF c] len 2 by simp
    moreover have "resume bs' l' s1 = resume bs' l' s" by (simp add: s1_def resume_def)
    ultimately show ?thesis using left_resume [OF s] s by simp
  next
    case 3
    then have i: "token_include fs bs l s1 = Some (Inr s')" "\<not> d" using st by (simp_all add: map_result del: map_option_eq_Some)
    have "(left s1, left s) \<in> left_order" unfolding s1_def using left_resume [OF s] len 3 by simp
    moreover have "s1\<lparr>File := (File s1)[nat (RecursionDepth s1) := bs]\<rparr> = s1" using f1 by simp
    ultimately show ?thesis using token_include_ok [OF s1 i(1)] i(2) trans_left by (simp, blast?)
  next
    case 4
    then show ?thesis using st s1 token_string_ok [OF s1] token_coordinate_ok [OF s1] token_identifier_ok [OF s1]
        token_number_ok [OF s1] token_pair_ok [OF s1]
      by (auto simp: token_ok_def loop_script_ok map_result simp del: map_option_eq_Some split: if_splits)
  qed
qed

text \<open>The loop with a bound on its rounds; \<open>None\<close> when the bound is reached.\<close>

fun token_fuel :: "nat \<Rightarrow> (cstring \<Rightarrow> int list option) \<Rightarrow> ReadScriptFile \<Rightarrow> (script_exn + ReadScriptFile) option option" where
  "token_fuel 0 fs s = None"
| "token_fuel (Suc n) fs s = (case token_step fs s of
       None \<Rightarrow> Some None
     | Some (Inl e) \<Rightarrow> Some (Some (Inl e))
     | Some (Inr (d, s')) \<Rightarrow> if d then Some (Some (Inr s')) else token_fuel n fs s')"

lemma token_loop_step:
  "token_step fs s = None \<Longrightarrow> token_loop fs s = None"
  "token_step fs s = Some (Inl e) \<Longrightarrow> token_loop fs s = Some (Inl e)"
  "token_step fs s = Some (Inr (True, s')) \<Longrightarrow> token_loop fs s = Some (Inr s')"
  "token_step fs s = Some (Inr (False, s')) \<Longrightarrow> token_loop fs s = token_loop fs s'"
  by (subst token_loop.simps, simp)+

lemma step_cases:
  obtains "token_step fs s = None" | e where "token_step fs s = Some (Inl e)" | s' where "token_step fs s = Some (Inr (True, s'))"
    | s' where "token_step fs s = Some (Inr (False, s'))"
proof -
  consider "token_step fs s = None" | e where "token_step fs s = Some (Inl e)" | p where "token_step fs s = Some (Inr p)"
    by (cases "token_step fs s"; cases "the (token_step fs s)") auto
  then show thesis
  proof cases
    case (3 p)
    then show thesis using that by (cases p; cases "fst p") auto
  qed (use that in auto)
qed

lemma token_fuel_loop: "token_fuel n fs s = Some r \<Longrightarrow> token_loop fs s = r"
proof (induction n arbitrary: s)
  case (Suc n)
  then show ?case by (cases rule: step_cases [of fs s]) (simp_all add: token_loop_step)
qed simp

lemma token_loop_ok: "loop_ok s \<Longrightarrow> \<exists>n r. token_fuel n fs s = Some r \<and> (\<forall>s'. r = Some (Inr s') \<longrightarrow> token_ok s')"
proof (induction s rule: wf_induct_rule [OF wf_inv_image [OF wf_left, of left]])
  case (1 s)
  show ?case
  proof (cases rule: step_cases [of fs s])
    case 1
    then have "token_fuel 1 fs s = Some None" by simp
    then show ?thesis by blast
  next
    case (2 e)
    then have "token_fuel 1 fs s = Some (Some (Inl e))" by simp
    then show ?thesis by blast
  next
    case (3 s')
    then have "token_fuel 1 fs s = Some (Some (Inr s'))" by simp
    moreover have "token_ok s'" using token_step_ok [OF 1(2) 3] by simp
    ultimately show ?thesis by blast
  next
    case (4 s')
    then obtain n r where "token_fuel n fs s' = Some r" "\<forall>s'. r = Some (Inr s') \<longrightarrow> token_ok s'"
      using token_step_ok [OF 1(2) 4] 1(1) [of s'] by auto
    then have "token_fuel (Suc n) fs s = Some r" "\<forall>s'. r = Some (Inr s') \<longrightarrow> token_ok s'" using 4 by auto
    then show ?thesis by blast
  qed
qed

text \<open>
  C30: \<open>next_token\<close> ends on every file: after finitely many rounds of its loop, whatever the files and the files they include
  hold, there is a token, an exception or an undefined step, and a string or an identifier ends with its terminator inside the array.
\<close>

theorem next_token_terminates:
  assumes "script_ok s" "RecursionDepth s \<noteq> - 1"
  shows "\<exists>n r. token_fuel n fs (s\<lparr>String := replicate NARRAY_String 0, Number := 0, CoordX := 0, CoordY := 0, CoordZ := 0, Special := 0\<rparr>) = Some r
    \<and> next_token fs s = r \<and> (\<forall>s'. r = Some (Inr s') \<longrightarrow> token_ok s')"
proof -
  let ?s = "s\<lparr>String := replicate NARRAY_String 0, Number := 0, CoordX := 0, CoordY := 0, CoordZ := 0, Special := 0\<rparr>"
  have "loop_ok ?s" using assms by (auto simp: loop_ok_def script_ok_def)
  then obtain n r where "token_fuel n fs ?s = Some r" "\<forall>s'. r = Some (Inr s') \<longrightarrow> token_ok s'" using token_loop_ok by blast
  then show ?thesis using token_fuel_loop assms(2) by (auto simp: next_token_def)
qed

text \<open>An object on which no file is open.\<close>

definition closed_file :: ReadScriptFile where
  "closed_file = \<lparr>Token = ENDOFFILE, File = [[], [], []], Filename = [[], [], []], Line = [0, 0, 0],
     String = replicate NARRAY_String 0, RecursionDepth = - 1, Number = 0, CoordX = 0, CoordY = 0, CoordZ = 0, Special = 0\<rparr>"

theorem next_token_terminates_witness:
  "\<exists>n r. token_fuel n Map.empty (closed_file\<lparr>RecursionDepth := 0, String := replicate NARRAY_String 0, Number := 0, CoordX := 0, CoordY := 0, CoordZ := 0, Special := 0\<rparr>) = Some r
    \<and> next_token Map.empty (closed_file\<lparr>RecursionDepth := 0\<rparr>) = r \<and> (\<forall>s'. r = Some (Inr s') \<longrightarrow> token_ok s')"
proof -
  have "script_ok (closed_file\<lparr>RecursionDepth := 0\<rparr>)" "RecursionDepth (closed_file\<lparr>RecursionDepth := 0\<rparr>) \<noteq> - 1"
    by (simp_all add: closed_file_def script_ok_def)
  from next_token_terminates [OF this, of Map.empty] show ?thesis by simp
qed

end
