(* ===== verification/Script_Roundtrip.thy ===== *)
theory Script_Roundtrip
  imports Script
begin

text \<open>
  What \<open>WriteScriptFile\<close> writes, \<open>ReadScriptFile\<close> reads back: numbers, strings, coordinates and sequences of bytes, one on each
  line, as the callers in \<open>houses.cpp\<close>, \<open>player.cpp\<close> and \<open>map.cpp\<close> write them.
\<close>

section \<open>Decimal numbers\<close>

definition digits_value :: "int \<Rightarrow> int list \<Rightarrow> int" where
  "digits_value = foldl (\<lambda>v c. v * 10 + (c - 48))"

lemma digits_value_simps [simp]:
  "digits_value v [] = v" "digits_value v (c # cs) = digits_value (v * 10 + (c - 48)) cs"
  "digits_value v (cs @ [c]) = digits_value v cs * 10 + (c - 48)"
  by (simp_all add: digits_value_def)

lemma decimal_nonempty: "decimal n \<noteq> []"
  by (subst decimal.simps) simp

lemma decimal_digits: "c \<in> set (decimal n) \<Longrightarrow> isDigit c"
proof (induction n rule: decimal.induct)
  case (1 n)
  have "c \<in> set (if n < 10 then [48 + int n] else decimal (n div 10) @ [48 + int (n mod 10)])"
    using 1(2) by (subst (asm) decimal.simps)
  then show ?case using 1(1) by (auto simp: isDigit_def split: if_splits)
qed

lemma decimal_value: "digits_value 0 (decimal n) = int n"
proof (induction n rule: decimal.induct)
  case (1 n)
  then show ?case by (subst decimal.simps) (auto simp: zdiv_int zmod_int)
qed

lemma digits_value_mono: "\<forall>c\<in>set cs. isDigit c \<Longrightarrow> 0 \<le> v \<Longrightarrow> v \<le> digits_value v cs"
proof (induction cs arbitrary: v)
  case (Cons c cs)
  have "v \<le> v * 10 + (c - 48)" "0 \<le> v * 10 + (c - 48)" using Cons(2,3) by (auto simp: isDigit_def)
  then show ?case using Cons(1) [of "v * 10 + (c - 48)"] Cons(2) by auto
qed simp

lemma decimal_cases:
  obtains c cs where "decimal n = c # cs" "isDigit c" "\<forall>c\<in>set cs. isDigit c" "digits_value (c - 48) cs = int n"
proof (cases "decimal n")
  case (Cons c cs)
  then show thesis using that [of c cs] decimal_digits [of _ n] decimal_value [of n] by auto
qed (simp add: decimal_nonempty)

lemma scan_number_digits:
  assumes "\<forall>c\<in>set cs. isDigit c" "0 \<le> v" "digits_value v cs \<le> INT_MAX"
  shows "scan_number (cs @ d # rest) bytes v = scan_number (d # rest) bytes (digits_value v cs)"
  using assms
proof (induction cs arbitrary: v)
  case (Cons c cs)
  have c: "0 \<le> v * 10 + (c - 48)" using Cons(2,3) by (auto simp: isDigit_def)
  then have "v * 10 + (c - 48) \<le> digits_value (v * 10 + (c - 48)) cs" using digits_value_mono Cons(2) by auto
  then have "scan_number ((c # cs) @ d # rest) bytes v = scan_number (cs @ d # rest) bytes (v * 10 + (c - 48))"
    using Cons(2,4) by (cases "cs @ d # rest") auto
  then show ?case using Cons(1) [of "v * 10 + (c - 48)"] Cons(2,4) c by simp
qed simp

lemma scan_coord_digits:
  assumes "\<forall>c\<in>set cs. isDigit c" "0 \<le> v" "digits_value v cs \<le> INT_MAX"
  shows "scan_coord stop (cs @ bs) v = scan_coord stop bs (digits_value v cs)"
  using assms
proof (induction cs arbitrary: v)
  case (Cons c cs)
  have c: "0 \<le> v * 10 + (c - 48)" using Cons(2,3) by (auto simp: isDigit_def)
  then have "v * 10 + (c - 48) \<le> digits_value (v * 10 + (c - 48)) cs" using digits_value_mono Cons(2) by auto
  then show ?case using Cons(1) [of "v * 10 + (c - 48)"] Cons(2,4) c by simp
qed simp

section \<open>Scanning what is written\<close>

lemma to_char_mod: "to_char (c mod 256) = to_char c"
proof -
  have "take_bit (Suc 7) (c mod 256) = take_bit (Suc 7) c" by (simp add: take_bit_eq_mod)
  then show ?thesis by (simp only: to_char_def signed_take_bit_eq_iff_take_bit_eq)
qed

lemma escape_mod: "map (\<lambda>c. c mod 256) (escape_char c) = (if c = 34 \<or> c = 92 then [92, c] else if c = 10 then [92, 110] else [c mod 256])"
  by (auto simp: escape_char_def)

lemma char_mod_eq: "is_cchar c \<Longrightarrow> 0 \<le> k \<Longrightarrow> k < 128 \<Longrightarrow> c mod 256 = k \<longleftrightarrow> c = k"
  unfolding is_cchar_def by presburger

lemma scan_string_escaped:
  assumes "is_cstring cs" "length acc + length cs < NARRAY_String"
  shows "scan_string (map (\<lambda>c. c mod 256) (concat (map escape_char cs)) @ 34 # rest) acc l = Inr (acc @ cs, rest, l)"
  using assms
proof (induction cs arbitrary: acc)
  case Nil
  then show ?case by (cases rest) auto
next
  case (Cons c cs)
  let ?more = "map (\<lambda>c. c mod 256) (concat (map escape_char cs)) @ 34 # rest"
  have c: "is_cchar c" "is_cstring cs" using Cons(2) by (auto simp: is_cstring_def)
  have "scan_string (map (\<lambda>c. c mod 256) (escape_char c) @ ?more) acc l = scan_string ?more (acc @ [c]) l"
    using Cons(3) c(1) char_mod_eq [OF c(1), of 34] char_mod_eq [OF c(1), of 92] char_mod_eq [OF c(1), of 10]
    by (cases ?more) (auto simp: escape_mod to_char_id to_char_mod is_cchar_to_char)
  then show ?case using Cons(1) [of "acc @ [c]"] Cons(3) c(2) by simp
qed

lemma scan_decimal_axis:
  assumes "int n \<le> INT_MAX" "\<not> isDigit stop"
  shows "scan_axis stop (decimal n @ stop # rest) = Some (Inr (int n, rest))"
proof -
  obtain c cs where d: "decimal n = c # cs" "isDigit c" "\<forall>c\<in>set cs. isDigit c" "digits_value (c - 48) cs = int n"
    by (rule decimal_cases [of n])
  have "0 \<le> c - 48" using d(2) by (simp add: isDigit_def)
  then have "scan_coord stop (cs @ stop # rest) (c - 48) = Some (Inr (int n, rest))"
    using scan_coord_digits [of cs "c - 48" stop "stop # rest"] d assms by simp
  then show ?thesis using d by (simp add: scan_axis_def coord_start_def)
qed

definition bytes_tail :: "u8 list \<Rightarrow> int list" where
  "bytes_tail bs = concat (map (\<lambda>b. 45 # decimal (unat b)) bs)"

lemma scan_bytes_tail:
  assumes "length bytes + length bs \<le> NARRAY_String" "\<not> isDigit d" "d \<noteq> 45"
  shows "scan_number (bytes_tail bs @ d # rest) bytes v
    = Some (Inr (bytes @ map to_char (butlast (v # map uint bs)), last (v # map uint bs), d # rest))"
  using assms
proof (induction bs arbitrary: bytes v)
  case Nil
  then show ?case by (cases rest) (auto simp: bytes_tail_def)
next
  case (Cons b bs)
  obtain c cs where d: "decimal (unat b) = c # cs" "isDigit c" "\<forall>c\<in>set cs. isDigit c" "digits_value (c - 48) cs = int (unat b)"
    by (rule decimal_cases [of "unat b"])
  obtain e es where e: "bytes_tail bs @ d # rest = e # es" by (cases "bytes_tail bs @ d # rest") auto
  have "uint b \<le> INT_MAX" using uint_lt2p [of b] by simp
  then have "scan_number (cs @ e # es) (bytes @ [to_char v]) (c - 48) = scan_number (e # es) (bytes @ [to_char v]) (uint b)"
    using scan_number_digits [of cs "c - 48" e es] d by (simp add: isDigit_def)
  moreover have "bytes_tail (b # bs) @ d # rest = 45 # c # cs @ e # es" using d e by (simp add: bytes_tail_def)
  moreover have "length bytes < NARRAY_String" using Cons(2) by simp
  ultimately show ?case using Cons(1) [of "bytes @ [to_char v]" "uint b"] Cons(2-4) d(2) e by (simp add: isDigit_def)
qed

section \<open>Items\<close>

text \<open>What a caller writes, and the typed read that it uses for it; the reader of a sequence of bytes knows its length.\<close>

datatype script_item = Item_Number int | Item_String cstring | Item_Coordinate int int int | Item_Bytes "u8 list"

datatype script_kind = Kind_Number | Kind_String | Kind_Coordinate | Kind_Bytes nat

fun item_kind :: "script_item \<Rightarrow> script_kind" where
  "item_kind (Item_Number n) = Kind_Number"
| "item_kind (Item_String cs) = Kind_String"
| "item_kind (Item_Coordinate x y z) = Kind_Coordinate"
| "item_kind (Item_Bytes bs) = Kind_Bytes (length bs)"

fun write_item :: "script_item \<Rightarrow> WriteScriptFile \<Rightarrow> script_exn + WriteScriptFile" where
  "write_item (Item_Number n) w = write_number n w"
| "write_item (Item_String cs) w = write_string (Some cs) w"
| "write_item (Item_Coordinate x y z) w = write_coordinate x y z w"
| "write_item (Item_Bytes bs) w = write_bytesequence (Some bs) w"

fun write_items :: "script_item list \<Rightarrow> WriteScriptFile \<Rightarrow> script_exn + WriteScriptFile" where
  "write_items [] w = Inr w"
| "write_items (i # items) w = (case write_item i w of Inl e \<Rightarrow> Inl e
     | Inr w \<Rightarrow> (case write_ln w of Inl e \<Rightarrow> Inl e | Inr w \<Rightarrow> write_items items w))"

fun read_item :: "(cstring \<Rightarrow> int list option) \<Rightarrow> script_kind \<Rightarrow> ReadScriptFile \<Rightarrow> (script_exn + script_item \<times> ReadScriptFile) option" where
  "read_item fs Kind_Number s = map_option (map_sum (\<lambda>e. e) (\<lambda>(n, s). (Item_Number n, s))) (read_number fs s)"
| "read_item fs Kind_String s = map_option (map_sum (\<lambda>e. e) (\<lambda>(cs, s). (Item_String cs, s))) (read_string fs s)"
| "read_item fs Kind_Coordinate s = map_option (map_sum (\<lambda>e. e) (\<lambda>((x, y, z), s). (Item_Coordinate x y z, s))) (read_coordinate fs s)"
| "read_item fs (Kind_Bytes n) s = map_option (map_sum (\<lambda>e. e) (\<lambda>(bs, s). (Item_Bytes (map word_of_int (take n bs)), s))) (read_bytesequence fs s)"

fun read_items :: "(cstring \<Rightarrow> int list option) \<Rightarrow> script_kind list \<Rightarrow> ReadScriptFile \<Rightarrow>
    (script_exn + script_item list \<times> ReadScriptFile) option" where
  "read_items fs [] s = Some (Inr ([], s))"
| "read_items fs (k # kinds) s = Option.bind (read_item fs k s) (\<lambda>r. case r of Inl e \<Rightarrow> Some (Inl e)
     | Inr (i, s) \<Rightarrow> map_option (map_sum (\<lambda>e. e) (\<lambda>(items, s). (i # items, s))) (read_items fs kinds s))"

fun item_ok :: "script_item \<Rightarrow> bool" where
  "item_ok (Item_Number n) \<longleftrightarrow> - INT_MAX \<le> n \<and> n \<le> INT_MAX"
| "item_ok (Item_String cs) \<longleftrightarrow> is_cstring cs \<and> length cs < NARRAY_String"
| "item_ok (Item_Coordinate x y z) \<longleftrightarrow> 0 \<le> x \<and> x \<le> INT_MAX \<and> 0 \<le> y \<and> y \<le> INT_MAX \<and> 0 \<le> z \<and> z \<le> INT_MAX"
| "item_ok (Item_Bytes bs) \<longleftrightarrow> 2 \<le> length bs \<and> length bs \<le> NARRAY_String"

text \<open>The bytes of an item in the file.\<close>

fun item_text :: "script_item \<Rightarrow> int list" where
  "item_text (Item_Number n) = decimal_int n"
| "item_text (Item_String cs) = 34 # map (\<lambda>c. c mod 256) (concat (map escape_char cs)) @ [34]"
| "item_text (Item_Coordinate x y z) = 91 # decimal (nat x) @ 44 # decimal (nat y) @ 44 # decimal (nat z) @ [93]"
| "item_text (Item_Bytes bs) = decimal (unat (hd bs)) @ bytes_tail (tl bs)"

lemma digits_mod: "\<forall>c\<in>set cs. isDigit c \<Longrightarrow> map (\<lambda>c. c mod 256) cs = cs"
  by (induction cs) (auto simp: isDigit_def)

lemma decimal_mod [simp]: "map (\<lambda>c. c mod 256) (decimal n) = decimal n"
  by (rule digits_mod) (simp add: decimal_digits)

lemma put_chars_some: "WFile w = Some bs \<Longrightarrow> WFile (put_chars cs w) = Some (bs @ map (\<lambda>c. c mod 256) cs)"
  by (simp add: put_chars_def)

lemma write_bytes_tail:
  "WFile w = Some out \<Longrightarrow> \<exists>w'. write_bytes (Suc i) bs w = Inr w' \<and> WFile w' = Some (out @ bytes_tail bs)"
proof (induction bs arbitrary: i w out)
  case (Cons b bs)
  let ?w = "put_chars (decimal (unat b)) (put_chars [45] w)"
  have "WFile ?w = Some ((out @ [45]) @ decimal (unat b))" using Cons(2) by (simp add: put_chars_some)
  then show ?case using Cons(1) [of ?w _ "Suc i"] Cons(2) by (simp add: write_text_def put_chars_some bytes_tail_def)
qed (simp add: bytes_tail_def)

lemma write_item_text:
  assumes "WFile w = Some out" "item_ok i"
  shows "\<exists>w'. write_item i w = Inr w' \<and> WFile w' = Some (out @ item_text i)"
proof (cases i)
  case (Item_Bytes bs)
  then obtain b bs' where b: "bs = b # bs'" using assms(2) by (cases bs) auto
  have "WFile (put_chars (decimal (unat b)) w) = Some (out @ decimal (unat b))" using assms(1) by (simp add: put_chars_some)
  then show ?thesis using write_bytes_tail [of "put_chars (decimal (unat b)) w" "out @ decimal (unat b)" 0 bs'] Item_Bytes b assms(1)
    by (simp add: write_bytesequence_def write_text_def)
qed (use assms in \<open>auto simp: write_number_def write_string_def write_coordinate_def write_text_def put_chars_some decimal_int_def\<close>)

lemma write_items_text:
  assumes "WFile w = Some out" "\<forall>i\<in>set items. item_ok i"
  shows "\<exists>w'. write_items items w = Inr w' \<and> WFile w' = Some (out @ concat (map (\<lambda>i. item_text i @ [10]) items))"
  using assms
proof (induction items arbitrary: w out)
  case (Cons i items)
  obtain w' where w: "write_item i w = Inr w'" "WFile w' = Some (out @ item_text i)" using write_item_text [OF Cons(2), of i] Cons(3) by auto
  then show ?case using Cons(1) [of "put_chars [10] w'" "out @ item_text i @ [10]"] Cons(3) by (simp add: write_ln_def put_chars_some)
qed simp

section \<open>Reading the items back\<close>

definition reading :: "ReadScriptFile \<Rightarrow> int list \<Rightarrow> bool" where
  "reading s bs \<longleftrightarrow> script_ok s \<and> RecursionDepth s = 0 \<and> File s ! 0 = bs"

lemma reading_resume: "reading s bs \<Longrightarrow> reading (resume rest l s) rest"
  by (auto simp: reading_def) (simp add: resume_def script_ok_def)

lemma reading_more [simp]:
  "reading (s\<lparr>Token := t\<rparr>) bs = reading s bs" "reading (s\<lparr>Number := n\<rparr>) bs = reading s bs"
  "reading (s\<lparr>CoordX := x\<rparr>) bs = reading s bs" "reading (s\<lparr>CoordY := x\<rparr>) bs = reading s bs" "reading (s\<lparr>CoordZ := x\<rparr>) bs = reading s bs"
  "reading (special c s) bs = reading s bs"
  by (simp_all add: reading_def special_def script_ok_def)

lemma reading_store: "loop_ok s \<Longrightarrow> reading s bs \<Longrightarrow> length cs \<le> NARRAY_String \<Longrightarrow> reading (store_chars cs s) bs"
  using store_chars_ok(1) [of s cs] by (simp add: reading_def store_chars_def)

text \<open>The next token behind a line feed or at the start of the file is the one its first character selects.\<close>

lemma next_token_here:
  assumes "reading s (ws @ c # bs)" "ws = [] \<or> ws = [10]" "\<not> isSpace c" "c \<noteq> EOF"
  obtains l s1 where "reading s1 bs" "loop_ok s1"
    "\<And>s'. token_switch fs c bs l s1 = Some (Inr (True, s')) \<Longrightarrow> next_token fs s = Some (Inr s')"
proof -
  let ?s = "s\<lparr>String := replicate NARRAY_String 0, Number := 0, CoordX := 0, CoordY := 0, CoordZ := 0, Special := 0\<rparr>"
  have ok: "loop_ok ?s" "reading ?s (ws @ c # bs)" using assms(1) by (auto simp: reading_def loop_ok_def script_ok_def)
  obtain l where k: "skip_space (ws @ c # bs) (Line s ! 0) = (c, bs, l)"
  proof -
    have "c \<noteq> 10" using assms(3) by (auto simp: isSpace_def)
    moreover have "isSpace 10" by (simp add: isSpace_def)
    ultimately show thesis using assms(2,3) that by (auto simp: Let_def)
  qed
  have "token_step fs ?s = token_switch fs c bs l (resume bs l ?s)"
    by (rule token_step_switch [OF ok(1)]) (use k assms(1) in \<open>simp add: reading_def\<close>)
  then have "next_token fs s = Some (Inr s')" if "token_switch fs c bs l (resume bs l ?s) = Some (Inr (True, s'))" for s'
    using that assms(1) token_loop_step(3) [of fs ?s s'] by (simp add: next_token_def reading_def)
  then show thesis using that [of "resume bs l ?s" l] reading_resume [OF ok(2)] ok(1) by simp
qed

text \<open>A digit, a quote and a bracket select their tokens.\<close>

lemma digit_cases: "isDigit c \<Longrightarrow> c \<noteq> EOF \<and> \<not> isSpace c \<and> \<not> isAlpha c \<and> c \<notin> {10, 34, 35, 45, 60, 62, 64, 91}"
  by (auto simp: isDigit_def isSpace_def isAlpha_def)

lemma punctuation: "\<not> isSpace 45" "45 \<noteq> EOF" "\<not> isSpace 34" "34 \<noteq> EOF" "\<not> isSpace 91" "91 \<noteq> EOF"
  by (simp_all add: isSpace_def)

lemma switch_number:
  assumes "isDigit c" "token_number c bs l s = Some (Inr s')"
  shows "token_switch fs c bs l s = Some (Inr (True, s'))"
  using assms digit_cases [OF assms(1)] by (simp add: token_switch_def)

lemma read_decimal:
  assumes r: "reading s (ws @ decimal n @ 10 # rest)" and ws: "ws = [] \<or> ws = [10]" and n: "int n \<le> INT_MAX"
  obtains s' where "next_token fs s = Some (Inr s')" "Token s' = NUMBER" "Number s' = int n" "reading s' (10 # rest)"
proof -
  obtain c cs where d: "decimal n = c # cs" "isDigit c" "\<forall>c\<in>set cs. isDigit c" "digits_value (c - 48) cs = int n"
    by (rule decimal_cases [of n])
  have r': "reading s (ws @ c # cs @ 10 # rest)" using r d(1) by simp
  obtain l s1 where s1: "reading s1 (cs @ 10 # rest)" "loop_ok s1"
    "\<And>s'. token_switch fs c (cs @ 10 # rest) l s1 = Some (Inr (True, s')) \<Longrightarrow> next_token fs s = Some (Inr s')"
    using next_token_here [OF r' ws, of fs] digit_cases [OF d(2)] by metis
  have "0 \<le> c - 48" using d(2) by (simp add: isDigit_def)
  then have "scan_number (cs @ 10 # rest) [] (c - 48) = Some (Inr ([], int n, 10 # rest))"
    using scan_number_digits [of cs "c - 48" 10 rest "[]"] d n by (cases rest) (auto simp: isDigit_def)
  then have "token_number c (cs @ 10 # rest) l s1 = Some (Inr ((resume (10 # rest) l s1)\<lparr>Token := NUMBER, Number := int n\<rparr>))"
    by (simp add: token_number_def)
  then show thesis using that s1(3) [OF switch_number [OF d(2)]] reading_resume [OF s1(1)] by simp
qed

lemma read_number_back:
  assumes r: "reading s (ws @ decimal_int n @ 10 # rest)" and ws: "ws = [] \<or> ws = [10]" and n: "- INT_MAX \<le> n" "n \<le> INT_MAX"
  shows "\<exists>s'. read_number fs s = Some (Inr (n, s')) \<and> reading s' (10 # rest)"
proof (cases "n < 0")
  case False
  then obtain s' where "next_token fs s = Some (Inr s')" "Token s' = NUMBER" "Number s' = n" "reading s' (10 # rest)"
    using read_decimal [of s ws "nat n" rest fs] r ws n by (auto simp: decimal_int_def)
  then show ?thesis by (simp add: read_number_def get_number_def)
next
  case True
  let ?bs = "decimal (nat (- n)) @ 10 # rest"
  have r': "reading s (ws @ 45 # ?bs)" using r True by (simp add: decimal_int_def)
  obtain l s1 where s1: "reading s1 ?bs" "loop_ok s1"
    "\<And>s'. token_switch fs 45 ?bs l s1 = Some (Inr (True, s')) \<Longrightarrow> next_token fs s = Some (Inr s')"
    by (rule next_token_here [OF r' ws punctuation(1,2)]) blast
  obtain c cs where d: "decimal (nat (- n)) = c # cs" "isDigit c" using decimal_cases [of "nat (- n)"] by metis
  then have "token_pair 45 [(62, 73)] ?bs l s1 = special 45 s1" using digit_cases [OF d(2)] by (auto simp: token_pair_def)
  then have t: "next_token fs s = Some (Inr (special 45 s1))" using s1(3) by (simp add: token_switch_def)
  have "reading (special 45 s1) ([] @ ?bs)" using s1(1) by simp
  then obtain s' where "next_token fs (special 45 s1) = Some (Inr s')" "Token s' = NUMBER" "Number s' = - n" "reading s' (10 # rest)"
    using read_decimal [of "special 45 s1" "[]" "nat (- n)" rest fs] n True by auto
  then show ?thesis using t by (simp add: read_number_def read_with_def get_number_def special_def)
qed

lemma c_str_append: "is_cstring cs \<Longrightarrow> 0 < n \<Longrightarrow> c_str (cs @ replicate n 0) = cs"
  using is_cstring_not_0 [of cs] by (cases n) (auto simp: c_str_def takeWhile_append)

lemma read_string_back:
  assumes r: "reading s (ws @ item_text (Item_String cs) @ 10 # rest)" and ws: "ws = [] \<or> ws = [10]" and ok: "item_ok (Item_String cs)"
  shows "\<exists>s'. read_string fs s = Some (Inr (cs, s')) \<and> reading s' (10 # rest)"
proof -
  let ?bs = "map (\<lambda>c. c mod 256) (concat (map escape_char cs)) @ 34 # 10 # rest"
  have r': "reading s (ws @ 34 # ?bs)" using r by simp
  obtain l s1 where s1: "reading s1 ?bs" "loop_ok s1"
    "\<And>s'. token_switch fs 34 ?bs l s1 = Some (Inr (True, s')) \<Longrightarrow> next_token fs s = Some (Inr s')"
    by (rule next_token_here [OF r' ws punctuation(3,4)]) blast
  let ?s = "(store_chars cs (resume (10 # rest) l s1))\<lparr>Token := STRING\<rparr>"
  have "token_string ?bs l s1 = Some (Inr ?s)"
    using scan_string_escaped [of cs "[]" "10 # rest" l] ok by (simp add: token_string_def)
  then have "next_token fs s = Some (Inr ?s)" using s1(3) by (simp add: token_switch_def)
  moreover have "c_str (String ?s) = cs"
    using store_chars_ok(3) [of "resume (10 # rest) l s1" cs] s1(2) ok c_str_append [of cs] by simp
  moreover have "reading ?s (10 # rest)" using reading_store [OF _ reading_resume [OF s1(1)]] s1(2) ok by simp
  ultimately show ?thesis by (simp add: read_string_def read_with_def get_string_def)
qed

lemma read_coordinate_back:
  assumes r: "reading s (ws @ item_text (Item_Coordinate x y z) @ 10 # rest)" and ws: "ws = [] \<or> ws = [10]"
    and ok: "item_ok (Item_Coordinate x y z)"
  shows "\<exists>s'. read_coordinate fs s = Some (Inr ((x, y, z), s')) \<and> reading s' (10 # rest)"
proof -
  let ?zs = "decimal (nat z) @ 93 # 10 # rest"
  let ?ys = "decimal (nat y) @ 44 # ?zs"
  let ?bs = "decimal (nat x) @ 44 # ?ys"
  have r': "reading s (ws @ 91 # ?bs)" using r by simp
  obtain l s1 where s1: "reading s1 ?bs" "loop_ok s1"
    "\<And>s'. token_switch fs 91 ?bs l s1 = Some (Inr (True, s')) \<Longrightarrow> next_token fs s = Some (Inr s')"
    by (rule next_token_here [OF r' ws punctuation(5,6)]) blast
  obtain c cs where d: "decimal (nat x) = c # cs" "isDigit c" "\<forall>c\<in>set cs. isDigit c" "digits_value (c - 48) cs = int (nat x)"
    by (rule decimal_cases [of "nat x"])
  have "0 \<le> c - 48" using d(2) by (simp add: isDigit_def)
  then have "scan_coord 44 (cs @ 44 # ?ys) (c - 48) = Some (Inr (x, ?ys))"
    using scan_coord_digits [of cs "c - 48" 44 "44 # ?ys"] d ok by (simp add: isDigit_def)
  moreover have "scan_axis 44 ?ys = Some (Inr (y, ?zs))" "scan_axis 93 ?zs = Some (Inr (z, 10 # rest))"
    using scan_decimal_axis [of "nat y" 44] scan_decimal_axis [of "nat z" 93] ok by (simp_all add: isDigit_def)
  ultimately have "token_coordinate ?bs l s1
      = Some (Inr ((resume (10 # rest) l s1)\<lparr>CoordX := x, CoordY := y, CoordZ := z, Token := COORDINATE\<rparr>))"
    using d by (simp add: token_coordinate_def coord_start_def)
  then have "next_token fs s = Some (Inr ((resume (10 # rest) l s1)\<lparr>CoordX := x, CoordY := y, CoordZ := z, Token := COORDINATE\<rparr>))"
    using s1(3) by (simp add: token_switch_def)
  then show ?thesis using reading_resume [OF s1(1)] by (simp add: read_coordinate_def read_with_def get_coordinate_def)
qed

lemma to_char_byte: "word_of_int (to_char (uint b) mod 256) = (b :: u8)"
proof -
  have "take_bit 8 (signed_take_bit 7 (uint b)) = take_bit 8 (uint b)" by (simp add: take_bit_signed_take_bit)
  moreover have "uint b mod 256 = uint b" using uint_lt2p [of b] by simp
  ultimately show ?thesis by (simp add: to_char_def take_bit_eq_mod)
qed

lemma read_bytes_back:
  assumes r: "reading s (ws @ item_text (Item_Bytes bs) @ 10 # rest)" and ws: "ws = [] \<or> ws = [10]" and ok: "item_ok (Item_Bytes bs)"
  shows "\<exists>s' out. read_bytesequence fs s = Some (Inr (out, s')) \<and> map word_of_int (take (length bs) out) = bs \<and> reading s' (10 # rest)"
proof -
  obtain b bs' where b: "bs = b # bs'" "bs' \<noteq> []" "length bs' < NARRAY_String" using ok by (cases bs; cases "tl bs") auto
  obtain c cs where d: "decimal (unat b) = c # cs" "isDigit c" "\<forall>c\<in>set cs. isDigit c" "digits_value (c - 48) cs = int (unat b)"
    by (rule decimal_cases [of "unat b"])
  let ?bs = "cs @ bytes_tail bs' @ 10 # rest"
  have r': "reading s (ws @ c # ?bs)" using r d(1) b by simp
  obtain l s1 where s1: "reading s1 ?bs" "loop_ok s1"
    "\<And>s'. token_switch fs c ?bs l s1 = Some (Inr (True, s')) \<Longrightarrow> next_token fs s = Some (Inr s')"
    using next_token_here [OF r' ws, of fs] digit_cases [OF d(2)] by metis
  obtain e es where e: "bytes_tail bs' @ 10 # rest = e # es" by (cases "bytes_tail bs' @ 10 # rest") auto
  have "0 \<le> c - 48" "uint b \<le> INT_MAX" using d(2) uint_lt2p [of b] by (simp_all add: isDigit_def)
  then have "scan_number ?bs [] (c - 48) = scan_number (bytes_tail bs' @ 10 # rest) [] (uint b)"
    using scan_number_digits [of cs "c - 48" e es "[]"] d e by simp
  then have sc: "scan_number ?bs [] (c - 48) = Some (Inr (map to_char (butlast (map uint bs)), last (map uint bs), 10 # rest))"
    using scan_bytes_tail [of "[]" bs' 10 rest "uint b"] b by (simp add: isDigit_def)
  define cc where "cc = map (\<lambda>b. to_char (uint b)) bs"
  have cc: "map to_char (butlast (map uint bs)) @ [to_char (last (map uint bs))] = cc"
  proof -
    have "map to_char (butlast (map uint bs) @ [last (map uint bs)]) = cc"
      using b by (subst append_butlast_last_id) (simp_all add: cc_def)
    then show ?thesis by simp
  qed
  let ?s = "(store_chars cc (resume (10 # rest) l s1))\<lparr>Token := BYTES\<rparr>"
  have "token_number c ?bs l s1 = Some (Inr ?s)" using sc cc b by (simp add: token_number_def)
  then have n: "next_token fs s = Some (Inr ?s)" using s1(3) [OF switch_number [OF d(2)]] by simp
  have l: "length cc \<le> NARRAY_String" using ok by (simp add: cc_def)
  then have "String ?s = cc @ replicate (NARRAY_String - length cc) 0"
    using store_chars_ok(3) [of "resume (10 # rest) l s1" cc] s1(2) by simp
  then have "map word_of_int (take (length bs) (map (\<lambda>c. c mod 256) (String ?s))) = bs"
    by (simp add: take_map cc_def o_def to_char_byte)
  moreover have "reading ?s (10 # rest)" using reading_store [OF _ reading_resume [OF s1(1)] l] s1(2) by simp
  ultimately show ?thesis using n by (simp add: read_bytesequence_def read_with_def get_bytesequence_def)
qed

lemma read_item_back:
  assumes "reading s (ws @ item_text i @ 10 # rest)" "ws = [] \<or> ws = [10]" "item_ok i"
  shows "\<exists>s'. read_item fs (item_kind i) s = Some (Inr (i, s')) \<and> reading s' (10 # rest)"
proof (cases i)
  case (Item_Number n)
  then show ?thesis using read_number_back [of s ws n rest fs] assms by auto
next
  case (Item_String cs)
  then show ?thesis using read_string_back [of s ws cs rest fs] assms by auto
next
  case (Item_Coordinate x y z)
  then show ?thesis using read_coordinate_back [of s ws x y z rest fs] assms by auto
next
  case (Item_Bytes bs)
  then show ?thesis using read_bytes_back [of s ws bs rest fs] assms by auto
qed

lemma read_items_back:
  assumes "reading s (ws @ concat (map (\<lambda>i. item_text i @ [10]) items))" "ws = [] \<or> ws = [10]" "\<forall>i\<in>set items. item_ok i"
  shows "\<exists>s'. read_items fs (map item_kind items) s = Some (Inr (items, s'))"
  using assms
proof (induction items arbitrary: s ws)
  case (Cons i items)
  let ?rest = "concat (map (\<lambda>i. item_text i @ [10]) items)"
  obtain s' where s': "read_item fs (item_kind i) s = Some (Inr (i, s'))" "reading s' (10 # ?rest)"
    using read_item_back [of s ws i ?rest fs] Cons(2-4) by auto
  obtain s'' where "read_items fs (map item_kind items) s' = Some (Inr (items, s''))"
    using Cons(1) [of s' "[10]"] s'(2) Cons(4) by auto
  then show ?case using s'(1) by simp
qed simp

text \<open>
  C29: The round trip of a script file: numbers, strings, coordinates of the map and sequences of two or more bytes that the typed
  writers put one on each line are what the typed reads return, in the same order, when the file is opened again.
\<close>

theorem script_roundtrip:
  assumes "WFile w = Some []" "\<forall>i\<in>set items. item_ok i" "script_ok s" "RecursionDepth s = - 1" "length name < 4096"
  shows "\<exists>w' bytes. write_items items w = Inr w' \<and> WFile w' = Some bytes \<and>
    (\<exists>s0 s'. open_script (Map.empty(name \<mapsto> bytes)) name s = Some (Inr s0) \<and>
      read_items (Map.empty(name \<mapsto> bytes)) (map item_kind items) s0 = Some (Inr (items, s')))"
proof -
  let ?bytes = "concat (map (\<lambda>i. item_text i @ [10]) items)"
  let ?fs = "Map.empty(name \<mapsto> ?bytes)"
  obtain w' where w: "write_items items w = Inr w'" "WFile w' = Some ?bytes" using write_items_text [OF assms(1,2)] by auto
  obtain s0 where s0: "open_script ?fs name s = Some (Inr s0)" "reading s0 ?bytes"
    using assms(3-5) by (auto simp: open_script_def script_ok_def reading_def)
  then show ?thesis using w read_items_back [of s0 "[]" items ?fs] assms(2) by auto
qed

definition empty_output :: WriteScriptFile where
  "empty_output = \<lparr>WFile = Some [], WFilename = [], WLine = 0\<rparr>"

theorem script_roundtrip_witness:
  "\<exists>w' bytes. write_items [Item_Number (- 7), Item_String [72, 34], Item_Coordinate 32000 31000 7, Item_Bytes [1, 255]] empty_output = Inr w'
    \<and> WFile w' = Some bytes \<and>
    (\<exists>s0 s'. open_script (Map.empty([97] \<mapsto> bytes)) [97] closed_file = Some (Inr s0) \<and>
      read_items (Map.empty([97] \<mapsto> bytes)) (map item_kind [Item_Number (- 7), Item_String [72, 34], Item_Coordinate 32000 31000 7, Item_Bytes [1, 255]]) s0
        = Some (Inr ([Item_Number (- 7), Item_String [72, 34], Item_Coordinate 32000 31000 7, Item_Bytes [1, 255]], s')))"
  by (rule script_roundtrip) (simp_all add: empty_output_def closed_file_def script_ok_def NARRAY_String_def is_cchar_def)

text \<open>\<open>error\<close> throws when a file is open.\<close>

lemma script_error_throws:
  assumes "reading s bs"
  shows "\<exists>name l. script_error text s = Some (Inl (Script_Error name l text))"
  using assms findLast_spec [of 47 "Filename s ! 0"]
  by (auto simp: script_error_def reading_def script_ok_def)

text \<open>
  C31: A sequence of one byte does not come back: it is written without a separator, and the read of a sequence throws
  \<open>byte-sequence expected\<close>.
\<close>

theorem single_byte_lost:
  assumes "WFile w = Some []" "script_ok s" "RecursionDepth s = 0"
  shows "\<exists>w' bytes. write_items [Item_Bytes [b]] w = Inr w' \<and> WFile w' = Some bytes \<and>
    (\<exists>name l. read_items fs [Kind_Bytes 1] (s\<lparr>File := (File s)[0 := bytes]\<rparr>)
      = Some (Inl (Script_Error name l ''byte-sequence expected'')))"
proof -
  let ?w = "put_chars (decimal (unat b)) w" and ?bytes = "decimal (unat b) @ [10]"
  let ?s = "s\<lparr>File := (File s)[0 := ?bytes]\<rparr>"
  have w: "write_items [Item_Bytes [b]] w = Inr (put_chars [10] ?w)" "WFile (put_chars [10] ?w) = Some ?bytes"
    using assms(1) by (simp_all add: write_bytesequence_def write_text_def write_ln_def put_chars_some)
  have r: "reading ?s ([] @ decimal (unat b) @ 10 # [])" using assms(2,3) by (simp add: reading_def script_ok_def)
  have "int (unat b) \<le> INT_MAX" using uint_lt2p [of b] by simp
  then obtain s' where s': "next_token fs ?s = Some (Inr s')" "Token s' = NUMBER" "reading s' [10]"
    using read_decimal [OF r] by blast
  obtain name l where "script_error ''byte-sequence expected'' s' = (Some (Inl (Script_Error name l ''byte-sequence expected'')) :: (script_exn + int list) option)"
    using script_error_throws [OF s'(3)] by blast
  then have "read_items fs [Kind_Bytes 1] ?s = Some (Inl (Script_Error name l ''byte-sequence expected''))"
    using s' by (simp add: read_bytesequence_def read_with_def get_bytesequence_def)
  then show ?thesis using w by blast
qed

theorem single_byte_lost_witness:
  "\<exists>w' bytes. write_items [Item_Bytes [5]] empty_output = Inr w' \<and> WFile w' = Some bytes \<and>
    (\<exists>name l. read_items Map.empty [Kind_Bytes 1] (closed_file\<lparr>RecursionDepth := 0, File := (File (closed_file\<lparr>RecursionDepth := 0\<rparr>))[0 := bytes]\<rparr>)
      = Some (Inl (Script_Error name l ''byte-sequence expected'')))"
  using single_byte_lost [of empty_output "closed_file\<lparr>RecursionDepth := 0\<rparr>" 5 Map.empty]
  by (simp add: empty_output_def closed_file_def script_ok_def NARRAY_String_def)

end
