(* ===== verification/Shortway.thy ===== *)
theory Shortway
  imports Matrix Chain
begin

text \<open>
  The path finder \<open>TShortway\<close> of \<open>creature/actions/actions.cpp\<close>: a search from the destination to the creature over the visible fields,
  with a list of fields to expand that is linked through the fields and sorted by a lower bound for the whole way. A step onto a
  field costs its waypoints, three times as much diagonally.

  A pointer to a point is its position in the matrix; \<open>serrors\<close> has the messages of \<open>error\<close>. The waypoints of the fields come from
  \<open>FillMap\<close>, in \<open>Shortway_Fill\<close>. The calls of \<open>ToDoAdd\<close> are the list of coordinates that \<open>Calculate\<close> returns.
\<close>

section \<open>Data\<close>

record TShortwayPoint =
  px :: int
  py :: int
  Waypoints :: int
  Waylength :: int
  Heuristic :: int
  Predecessor :: "int option"
  NextToExpand :: "int option"

record TShortway =
  SMap :: "TShortwayPoint matrix"
  FirstToExpand :: "int option"
  VisibleX :: int
  VisibleY :: int
  StartX :: int
  StartY :: int
  StartZ :: int
  MinWaypoints :: int
  serrors :: "string list"

definition new_point :: TShortwayPoint where
  "new_point = \<lparr>px = 0, py = 0, Waypoints = - 1, Waylength = - 1, Heuristic = - 1, Predecessor = None, NextToExpand = None\<rparr>"

text \<open>\<open>Map->at(x, y)\<close>, and access through a pointer.\<close>

definition point_at :: "TShortway \<Rightarrow> int \<Rightarrow> int \<Rightarrow> int" where
  "point_at s x y = fst (matrix_at (SMap s) x y)"

definition pget :: "TShortway \<Rightarrow> int \<Rightarrow> TShortwayPoint option" where
  "pget s p = arr_get (entry (SMap s)) p"

definition pset :: "int \<Rightarrow> (TShortwayPoint \<Rightarrow> TShortwayPoint) \<Rightarrow> TShortway \<Rightarrow> TShortway option" where
  "pset p f s = do {
     q \<leftarrow> pget s p;
     e \<leftarrow> arr_set (entry (SMap s)) p (f q);
     Some (s\<lparr>SMap := (SMap s)\<lparr>entry := e\<rparr>\<rparr>)}"

section \<open>Operations\<close>

text \<open>The coordinates of the visible fields, in the order of the two loops.\<close>

definition visible_list :: "TShortway \<Rightarrow> (int \<times> int) list" where
  "visible_list s = concat (map (\<lambda>X. map (Pair X) [- VisibleY s..VisibleY s]) [- VisibleX s..VisibleX s])"

fun clear_points :: "(int \<times> int) list \<Rightarrow> TShortway \<Rightarrow> TShortway option" where
  "clear_points [] s = Some s"
| "clear_points ((X, Y) # vs) s = do {
     s \<leftarrow> pset (point_at s X Y) (\<lambda>q. q\<lparr>Waylength := INT_MAX, Heuristic := INT_MAX, Predecessor := None, NextToExpand := None\<rparr>) s;
     clear_points vs s}"

definition ClearMap :: "TShortway \<Rightarrow> TShortway option" where
  "ClearMap s = clear_points (visible_list s) s"

text \<open>The two walks over the list of points to expand: to a point, and to the place of a heuristic value.\<close>

partial_function (option) find_point :: "TShortway \<Rightarrow> int \<Rightarrow> int option \<Rightarrow> int option \<Rightarrow> (int option \<times> int option) option" where
  "find_point s Neighbor Prev Cur =
     (case Cur of None \<Rightarrow> Some (Prev, Cur)
      | Some c \<Rightarrow> if c = Neighbor then Some (Prev, Cur)
          else Option.bind (pget s c) (\<lambda>q. find_point s Neighbor Cur (NextToExpand q)))"

partial_function (option) find_place :: "TShortway \<Rightarrow> int \<Rightarrow> int option \<Rightarrow> int option \<Rightarrow> (int option \<times> int option) option" where
  "find_place s h Prev Cur =
     (case Cur of None \<Rightarrow> Some (Prev, Cur)
      | Some c \<Rightarrow> Option.bind (pget s c) (\<lambda>q.
          if Heuristic q < h then find_place s h Cur (NextToExpand q) else Some (Prev, Cur)))"

declare find_point.simps [code] find_place.simps [code]

definition unlink_point :: "int \<Rightarrow> TShortway \<Rightarrow> TShortway option" where
  "unlink_point Neighbor s = do {
     (Prev, Cur) \<leftarrow> find_point s Neighbor None (FirstToExpand s);
     n \<leftarrow> pget s Neighbor;
     if Cur \<noteq> Some Neighbor then Some (s\<lparr>serrors := serrors s @ [''TShortway::Expand: Node is not in the ExpandList'']\<rparr>)
     else (case Prev of
         None \<Rightarrow> Some (s\<lparr>FirstToExpand := NextToExpand n\<rparr>)
       | Some p \<Rightarrow> pset p (\<lambda>q. q\<lparr>NextToExpand := NextToExpand n\<rparr>) s)}"

definition insert_point :: "int \<Rightarrow> TShortway \<Rightarrow> TShortway option" where
  "insert_point Neighbor s = do {
     n \<leftarrow> pget s Neighbor;
     (Prev, Cur) \<leftarrow> find_place s (Heuristic n) None (FirstToExpand s);
     s \<leftarrow> (case Prev of
         None \<Rightarrow> Some (s\<lparr>FirstToExpand := Some Neighbor\<rparr>)
       | Some p \<Rightarrow> pset p (\<lambda>q. q\<lparr>NextToExpand := Some Neighbor\<rparr>) s);
     pset Neighbor (\<lambda>q. q\<lparr>NextToExpand := Cur\<rparr>) s}"

text \<open>The body of the loops of \<open>Expand\<close>.\<close>

definition relax :: "int \<Rightarrow> int \<Rightarrow> int \<times> int \<Rightarrow> TShortway \<Rightarrow> TShortway option" where
  "relax Node MinNeighborWaylength off s = do {
     n \<leftarrow> pget s Node;
     (OffsetX, OffsetY) \<leftarrow> Some off;
     Neighbor \<leftarrow> Some (point_at s (px n + OffsetX) (py n + OffsetY));
     b \<leftarrow> pget s Neighbor;
     NeighborWaylength \<leftarrow> Some (if OffsetX \<noteq> 0 \<and> OffsetY \<noteq> 0 then MinNeighborWaylength + Waypoints n * 2 else MinNeighborWaylength);
     if NeighborWaylength < Waylength b
     then do {
       s \<leftarrow> pset Neighbor (\<lambda>q. q\<lparr>Waylength := NeighborWaylength, Predecessor := Some Node\<rparr>) s;
       if (px b \<noteq> 0 \<or> py b \<noteq> 0) \<and> Waypoints b \<noteq> - 1
       then do {
         s \<leftarrow> (if Heuristic b \<noteq> INT_MAX then unlink_point Neighbor s else Some s);
         s \<leftarrow> pset Neighbor (\<lambda>q. q\<lparr>Heuristic := Waylength q + Waypoints q * 1 + MinWaypoints s * (\<bar>px q\<bar> + \<bar>py q\<bar> - 1)\<rparr>) s;
         insert_point Neighbor s}
       else Some s}
     else Some s}"

fun relax_all :: "int \<Rightarrow> int \<Rightarrow> (int \<times> int) list \<Rightarrow> TShortway \<Rightarrow> TShortway option" where
  "relax_all Node m [] s = Some s"
| "relax_all Node m (off # offs) s = do {s \<leftarrow> relax Node m off s; relax_all Node m offs s}"

definition offsets8 :: "(int \<times> int) list" where
  "offsets8 = [(- 1, - 1), (- 1, 0), (- 1, 1), (0, - 1), (0, 1), (1, - 1), (1, 0), (1, 1)]"

definition Expand :: "int \<Rightarrow> TShortway \<Rightarrow> TShortway option" where
  "Expand Node s = do {
     n \<leftarrow> pget s Node;
     s \<leftarrow> Some (s\<lparr>FirstToExpand := NextToExpand n\<rparr>);
     MinNeighborWaylength \<leftarrow> Some (Waylength n + Waypoints n);
     c \<leftarrow> pget s (point_at s 0 0);
     if MinNeighborWaylength \<ge> Waylength c then Some s
     else relax_all Node MinNeighborWaylength offsets8 s}"

partial_function (option) expand_all :: "TShortway \<Rightarrow> TShortway option" where
  "expand_all s = (case FirstToExpand s of None \<Rightarrow> Some s | Some n \<Rightarrow> Option.bind (Expand n s) expand_all)"

declare expand_all.simps [code]

function walk_back :: "TShortway \<Rightarrow> int \<Rightarrow> int \<Rightarrow> bool \<Rightarrow> int option \<Rightarrow> int \<Rightarrow> int \<Rightarrow> (int \<times> int \<times> int) list option" where
  "walk_back s DestX DestY MustReach Node MaxSteps CurDistance =
     (if Node \<noteq> None \<and> MaxSteps > 0 \<and> (MustReach \<or> CurDistance > 1)
      then Option.bind (pget s (the Node)) (\<lambda>n.
        Option.bind (walk_back s DestX DestY MustReach (Predecessor n) (MaxSteps - 1) (max \<bar>px n - DestX\<bar> \<bar>py n - DestY\<bar>)) (\<lambda>rest.
          Some ((StartX s + px n, StartY s + py n, StartZ s) # rest)))
      else Some [])"
  by auto
termination by (relation "measure (\<lambda>(s, DestX, DestY, MustReach, Node, MaxSteps, CurDistance). nat MaxSteps)") auto

declare walk_back.simps [simp del]

text \<open>The result, and the fields given to \<open>ToDoAdd\<close>. The creature is not \<open>NULL\<close> and the matrix exists.\<close>

definition Calculate :: "int \<Rightarrow> int \<Rightarrow> bool \<Rightarrow> int \<Rightarrow> TShortway \<Rightarrow> (bool \<times> (int \<times> int \<times> int) list \<times> TShortway) option" where
  "Calculate DestX DestY MustReach MaxSteps s = do {
     (DestX, DestY) \<leftarrow> Some (DestX - StartX s, DestY - StartY s);
     if DestX = 0 \<and> DestY = 0 then Some (True, [], s)
     else if \<bar>DestX\<bar> > VisibleX s \<or> \<bar>DestY\<bar> > VisibleY s then Some (False, [], s)
     else do {
       s \<leftarrow> ClearMap s;
       s \<leftarrow> Some (s\<lparr>FirstToExpand := Some (point_at s DestX DestY)\<rparr>);
       s \<leftarrow> pset (point_at s DestX DestY) (\<lambda>q. q\<lparr>Waylength := 0\<rparr>) s;
       s \<leftarrow> expand_all s;
       n \<leftarrow> pget s (point_at s 0 0);
       if Waylength n = INT_MAX then Some (False, [], s)
       else do {
         gos \<leftarrow> walk_back s DestX DestY MustReach (Predecessor n) MaxSteps (max \<bar>px n - DestX\<bar> \<bar>py n - DestY\<bar>);
         Some (True, gos, s)}}}"

end
