(* ===== verification/Shortway_Search.thy ===== *)
theory Shortway_Search
  imports Shortway
begin

text \<open>
  The search of \<open>TShortway\<close>: every field is expanded at most once, the list of fields to expand stays sorted, and the way length
  of the start is the least cost of a way.
\<close>

section \<open>Points by their coordinates\<close>

datatype node = At (col: int) (line: int)

definition ptr :: "TShortway \<Rightarrow> node \<Rightarrow> int" where
  "ptr s v = point_at s (col v) (line v)"

definition pt :: "TShortway \<Rightarrow> node \<Rightarrow> TShortwayPoint" where
  "pt s v = entry (SMap s) ! nat (ptr s v)"

definition visible :: "TShortway \<Rightarrow> node \<Rightarrow> bool" where
  "visible s v \<longleftrightarrow> \<bar>col v\<bar> \<le> VisibleX s \<and> \<bar>line v\<bar> \<le> VisibleY s"

text \<open>The visible fields and the border around them.\<close>

definition framed :: "TShortway \<Rightarrow> node \<Rightarrow> bool" where
  "framed s v \<longleftrightarrow> \<bar>col v\<bar> \<le> VisibleX s + 1 \<and> \<bar>line v\<bar> \<le> VisibleY s + 1"

definition grid :: "TShortway \<Rightarrow> bool" where
  "grid s \<longleftrightarrow> matrix_inv (SMap s) \<and> 0 \<le> VisibleX s \<and> 0 \<le> VisibleY s
     \<and> xmin (SMap s) = - (VisibleX s + 1) \<and> dx (SMap s) = 2 * VisibleX s + 3
     \<and> ymin (SMap s) = - (VisibleY s + 1) \<and> dy (SMap s) = 2 * VisibleY s + 3"

lemma framed_matrix: "grid s \<Longrightarrow> framed s v \<longleftrightarrow> in_matrix (SMap s) (col v) (line v)"
  by (auto simp: grid_def framed_def in_matrix_def)

lemma visible_framed: "visible s v \<Longrightarrow> framed s v"
  by (auto simp: visible_def framed_def)

lemma ptr_range:
  assumes "grid s" "framed s v"
  shows "0 \<le> ptr s v" "ptr s v < int (length (entry (SMap s)))"
  using assms matrix_cells [of "SMap s" "col v" "line v" "col v" "line v"] framed_matrix [OF assms(1), of v] by (auto simp: grid_def point_at_def ptr_def)

lemma ptr_inj:
  assumes "grid s" "framed s v" "framed s u"
  shows "ptr s v = ptr s u \<longleftrightarrow> v = u"
proof
  assume e: "ptr s v = ptr s u"
  have m: "in_matrix (SMap s) (col v) (line v)" "in_matrix (SMap s) (col u) (line u)" using assms framed_matrix by blast+
  then have "boundedAt (SMap s) (col v) (line v) = boundedAt (SMap s) (col u) (line u)"
    using e by (simp add: ptr_def point_at_def matrix_at_boundedAt boundedAt_eq)
  then show "v = u" using matrix_cells [of "SMap s" "col v" "line v" "col u" "line u"] m assms(1) by (simp add: grid_def node.expand)
qed simp

text \<open>What the search never changes.\<close>

definition meta :: "TShortway \<Rightarrow> int list" where
  "meta s = [xmin (SMap s), ymin (SMap s), dx (SMap s), dy (SMap s), int (length (entry (SMap s))), VisibleX s, VisibleY s,
     StartX s, StartY s, StartZ s, MinWaypoints s]"

lemma meta_cong:
  assumes "meta s' = meta s"
  shows "grid s' = grid s" "visible s' = visible s" "framed s' = framed s" "point_at s' = point_at s" "ptr s' = ptr s" "MinWaypoints s' = MinWaypoints s"
    "StartX s' = StartX s" "StartY s' = StartY s" "StartZ s' = StartZ s"
  using assms by (auto simp: meta_def grid_def visible_def framed_def ptr_def point_at_def matrix_at_def matrix_inv_def fun_eq_iff Let_def)

lemma meta_simps [simp]: "meta (s\<lparr>FirstToExpand := p\<rparr>) = meta s" "meta (s\<lparr>serrors := m\<rparr>) = meta s"
  by (simp_all add: meta_def)

lemma pt_simps [simp]: "pt (s\<lparr>FirstToExpand := p\<rparr>) = pt s" "point_at (s\<lparr>FirstToExpand := p\<rparr>) = point_at s" "ptr (s\<lparr>FirstToExpand := p\<rparr>) = ptr s"
  by (simp_all add: pt_def ptr_def point_at_def fun_eq_iff)

lemma matrix_at_entry [simp]: "matrix_at (m\<lparr>entry := e\<rparr>) x y = matrix_at m x y"
  by (simp add: matrix_at_def Let_def)

text \<open>Writing a point.\<close>

definition put_point :: "node \<Rightarrow> (TShortwayPoint \<Rightarrow> TShortwayPoint) \<Rightarrow> TShortway \<Rightarrow> TShortway" where
  "put_point v f s = s\<lparr>SMap := (SMap s)\<lparr>entry := (entry (SMap s))[nat (ptr s v) := f (pt s v)]\<rparr>\<rparr>"

lemma put_point_simps [simp]:
  "meta (put_point v f s) = meta s" "FirstToExpand (put_point v f s) = FirstToExpand s" "serrors (put_point v f s) = serrors s"
  "point_at (put_point v f s) = point_at s" "ptr (put_point v f s) = ptr s" "MinWaypoints (put_point v f s) = MinWaypoints s"
  by (simp_all add: put_point_def meta_def ptr_def point_at_def fun_eq_iff)

lemma pget_pt: "grid s \<Longrightarrow> framed s v \<Longrightarrow> pget s (ptr s v) = Some (pt s v)"
  using ptr_range [of s v] by (simp add: pget_def pt_def)

lemma pset_put: "grid s \<Longrightarrow> framed s v \<Longrightarrow> pset (ptr s v) f s = Some (put_point v f s)"
  using ptr_range [of s v] pget_pt [of s v] by (simp add: pset_def put_point_def)

lemma pt_put:
  assumes "grid s" "framed s v" "framed s u"
  shows "pt (put_point v f s) u = (if u = v then f (pt s v) else pt s u)"
proof (cases "u = v")
  case True
  then show ?thesis using ptr_range [OF assms(1,2)] by (simp add: pt_def) (simp add: put_point_def pt_def nat_less_iff)
next
  case False
  then have "ptr s u \<noteq> ptr s v" using ptr_inj [OF assms(1,3,2)] by simp
  then have "nat (ptr s u) \<noteq> nat (ptr s v)" using ptr_range [OF assms(1,2)] ptr_range [OF assms(1,3)] by linarith
  then show ?thesis using False by (simp add: pt_def) (simp add: put_point_def)
qed

section \<open>The list of points to expand\<close>

definition nxt :: "TShortway \<Rightarrow> int \<Rightarrow> int option" where
  "nxt s p = NextToExpand (entry (SMap s) ! nat p)"

lemma nxt_ptr: "nxt s (ptr s v) = NextToExpand (pt s v)"
  by (simp add: nxt_def pt_def)

lemma nxt_first [simp]: "nxt (s\<lparr>FirstToExpand := p\<rparr>) = nxt s"
  by (simp add: nxt_def fun_eq_iff)

definition queue :: "TShortway \<Rightarrow> node list \<Rightarrow> bool" where
  "queue s Q \<longleftrightarrow> path (nxt s) (FirstToExpand s) (map (ptr s) Q) \<and> distinct Q \<and> (\<forall>v\<in>set Q. framed s v)"

lemma queue_distinct: "grid s \<Longrightarrow> queue s Q \<Longrightarrow> distinct (map (ptr s) Q)"
  using ptr_inj by (fastforce simp: queue_def distinct_map inj_on_def)

text \<open>All fields but the links.\<close>

definition view :: "TShortwayPoint \<Rightarrow> int list \<times> int option" where
  "view q = ([px q, py q, Waypoints q, Waylength q, Heuristic q], Predecessor q)"

lemma view_simps [simp]: "view (q\<lparr>NextToExpand := n\<rparr>) = view q"
  by (simp add: view_def)

lemma viewD:
  assumes "view q' = view q"
  shows "px q' = px q" "py q' = py q" "Waypoints q' = Waypoints q" "Waylength q' = Waylength q" "Heuristic q' = Heuristic q" "Predecessor q' = Predecessor q"
  using assms by (simp_all add: view_def)

definition relinked_points :: "TShortway \<Rightarrow> TShortway \<Rightarrow> bool" where
  "relinked_points s s' \<longleftrightarrow> meta s' = meta s \<and> serrors s' = serrors s \<and> (\<forall>v. framed s v \<longrightarrow> view (pt s' v) = view (pt s v))"

lemma find_point_ok:
  assumes "grid s" "\<forall>v\<in>set (us @ v # vs). framed s v" "distinct (us @ v # vs)" "path (nxt s) cur (map (ptr s) (us @ v # vs))"
  shows "find_point s (ptr s v) prev cur = Some (last_or (map (ptr s) us) prev, Some (ptr s v))"
  using assms
proof (induction us arbitrary: prev cur)
  case Nil
  then show ?case by (subst find_point.simps) simp
next
  case (Cons u us)
  then have "ptr s u \<noteq> ptr s v" using ptr_inj [OF Cons.prems(1), of u v] by auto
  then show ?case using Cons pget_pt [OF Cons.prems(1), of u] by (subst find_point.simps) (auto simp: nxt_ptr)
qed

lemma find_place_ok:
  assumes "grid s" "\<forall>v\<in>set Q. framed s v" "path (nxt s) cur (map (ptr s) Q)"
  shows "find_place s h prev cur = Some (last_or (map (ptr s) (takeWhile (\<lambda>v. Heuristic (pt s v) < h) Q)) prev,
    first_or (map (ptr s) (dropWhile (\<lambda>v. Heuristic (pt s v) < h) Q)) None)"
  using assms
proof (induction Q arbitrary: prev cur)
  case Nil
  then show ?case by (subst find_place.simps) simp
next
  case (Cons v Q)
  then show ?case using pget_pt [OF Cons.prems(1), of v] by (subst find_place.simps) (auto simp: nxt_ptr)
qed

lemma nxt_put:
  assumes "grid s" "framed s v" "framed s u"
  shows "nxt (put_point v f s) (ptr s u) = (if u = v then NextToExpand (f (pt s v)) else nxt s (ptr s u))"
  using pt_put [OF assms, of f] nxt_ptr [of "put_point v f s" u] nxt_ptr [of s u] by simp

text \<open>Writing a point that is not in the list, or that keeps its link.\<close>

lemma queue_put:
  assumes "grid s" "framed s v" "queue s Q" "v \<notin> set Q \<or> NextToExpand (f (pt s v)) = NextToExpand (pt s v)"
  shows "queue (put_point v f s) Q"
proof -
  have "nxt (put_point v f s) p = nxt s p" if p: "p \<in> set (map (ptr s) Q)" for p
  proof -
    obtain u where u: "u \<in> set Q" "p = ptr s u" using p unfolding set_map by blast
    then have "framed s u" using assms(3) by (simp add: queue_def)
    then show ?thesis using nxt_put [OF assms(1,2), of u f] nxt_ptr [of s u] u assms(4) by auto
  qed
  then have "path (nxt (put_point v f s)) (FirstToExpand s) (map (ptr s) Q)" using assms(3) path_cong unfolding queue_def by blast
  then show ?thesis using assms(3) meta_cong(3) [of "put_point v f s" s] by (simp add: queue_def)
qed

lemma queue_pop:
  assumes "grid s" "queue s (v # Q)"
  shows "queue (s\<lparr>FirstToExpand := NextToExpand (pt s v)\<rparr>) Q" "FirstToExpand s = Some (ptr s v)"
  using assms meta_cong(3) [of "s\<lparr>FirstToExpand := NextToExpand (pt s v)\<rparr>" s] by (auto simp: queue_def nxt_ptr)

lemma unlink_point_ok:
  assumes "grid s" "queue s Q" "v \<in> set Q"
  shows "\<exists>s'. unlink_point (ptr s v) s = Some s' \<and> queue s' (remove1 v Q) \<and> relinked_points s s'"
proof -
  obtain us vs where Q: "Q = us @ v # vs" using assms(3) split_list by fast
  have d: "distinct Q" "\<forall>u\<in>set Q. framed s u" "path (nxt s) (FirstToExpand s) (map (ptr s) Q)" using assms(2) by (auto simp: queue_def)
  then have fp: "find_point s (ptr s v) None (FirstToExpand s) = Some (last_or (map (ptr s) us) None, Some (ptr s v))"
    using find_point_ok [OF assms(1), of us v vs] Q by simp
  have r: "remove1 v Q = us @ vs" using Q d(1) by (simp add: remove1_append)
  have fv: "framed s v" using d(2) assms(3) by simp
  show ?thesis
  proof (cases us rule: rev_cases)
    case Nil
    let ?s = "s\<lparr>FirstToExpand := NextToExpand (pt s v)\<rparr>"
    have "unlink_point (ptr s v) s = Some ?s" using fp Nil pget_pt [OF assms(1) fv] by (simp add: unlink_point_def)
    moreover have "queue ?s vs" using queue_pop [OF assms(1), of v vs] assms(2) Q Nil by simp
    ultimately show ?thesis using r Nil by (auto simp: relinked_points_def)
  next
    case (snoc ts u)
    have fu: "framed s u" "u \<noteq> v" using d(1,2) Q snoc by auto
    let ?f = "\<lambda>q. q\<lparr>NextToExpand := NextToExpand (pt s v)\<rparr>"
    let ?s = "put_point u ?f s"
    have m: "map (ptr s) Q = map (ptr s) ts @ ptr s u # ptr s v # map (ptr s) vs" using Q snoc by simp
    have "path ((nxt s)(ptr s u := nxt s (ptr s v))) (FirstToExpand s) (map (ptr s) ts @ ptr s u # map (ptr s) vs)"
      using path_unlink [of "nxt s" "FirstToExpand s" "map (ptr s) ts" "ptr s u" "ptr s v"] d(3) queue_distinct [OF assms(1,2)] unfolding m by blast
    then have "path (nxt ?s) (FirstToExpand s) (map (ptr s) (us @ vs))" unfolding snoc
    proof (simp, rule path_cong)
      fix p assume "p \<in> set (map (ptr s) ts @ ptr s u # map (ptr s) vs)"
      then have "p \<in> ptr s ` set (ts @ u # vs)" by auto
      then obtain w where w: "p = ptr s w" "w \<in> set (ts @ u # vs)" by blast
      then have "framed s w" using d(2) Q snoc by auto
      note w = w(1) this
      then show "nxt ?s p = ((nxt s)(ptr s u := nxt s (ptr s v))) p"
        using nxt_put [OF assms(1) fu(1) w(2), of ?f] ptr_inj [OF assms(1) w(2) fu(1)] nxt_ptr [of s v] by simp
    qed
    then have "queue ?s (us @ vs)" using d(1,2) Q meta_cong(3) [of ?s s] by (simp add: queue_def)
    moreover have "unlink_point (ptr s v) s = Some ?s"
      using fp snoc pget_pt [OF assms(1) fv] pset_put [OF assms(1) fu(1)] by (simp add: unlink_point_def)
    moreover have "relinked_points s ?s" using pt_put [OF assms(1) fu(1), of _ ?f] by (simp add: relinked_points_def)
    ultimately show ?thesis using r by auto
  qed
qed

text \<open>The list with a point put_point to the place of its heuristic value.\<close>

definition place :: "(node \<Rightarrow> int) \<Rightarrow> node \<Rightarrow> node list \<Rightarrow> node list" where
  "place h v Q = takeWhile (\<lambda>u. h u < h v) Q @ v # dropWhile (\<lambda>u. h u < h v) Q"

lemma place_set [simp]: "set (place h v Q) = insert v (set Q)"
  using set_append [of "takeWhile (\<lambda>u. h u < h v) Q" "dropWhile (\<lambda>u. h u < h v) Q"] by (simp add: place_def)

lemma place_sorted: "sorted (map h Q) \<Longrightarrow> sorted (map h (place h v Q))"
proof (induction Q)
  case (Cons u Q)
  then show ?case
  proof (cases "h u < h v")
    case True
    then have e: "place h v (u # Q) = u # place h v Q" by (simp add: place_def)
    show ?thesis unfolding e using Cons True by (auto simp del: place_def)
  qed (auto simp: place_def)
qed (simp add: place_def)

lemma insert_point_ok:
  assumes "grid s" "queue s Q" "framed s v" "v \<notin> set Q"
  shows "\<exists>s'. insert_point (ptr s v) s = Some s' \<and> queue s' (place (\<lambda>u. Heuristic (pt s u)) v Q) \<and> relinked_points s s'"
proof -
  let ?h = "Heuristic (pt s v)"
  define us where "us = takeWhile (\<lambda>u. Heuristic (pt s u) < ?h) Q"
  define vs where "vs = dropWhile (\<lambda>u. Heuristic (pt s u) < ?h) Q"
  have Q: "Q = us @ vs" by (simp add: us_def vs_def)
  let ?c = "first_or (map (ptr s) vs) None"
  have d: "distinct (us @ vs)" "\<forall>u\<in>set (us @ vs). framed s u" "path (nxt s) (FirstToExpand s) (map (ptr s) (us @ vs))" "v \<notin> set (us @ vs)"
    using assms(2,4) by (auto simp: queue_def Q)
  have fp: "find_place s ?h None (FirstToExpand s) = Some (last_or (map (ptr s) us) None, ?c)"
    using find_place_ok [OF assms(1), of Q "FirstToExpand s" ?h None] assms(2) by (simp add: queue_def us_def vs_def)
  have dm: "distinct (map (ptr s) (us @ vs))" using queue_distinct [OF assms(1,2)] by (simp add: Q)
  have nv: "ptr s v \<notin> set (map (ptr s) (us @ vs))"
  proof
    assume "ptr s v \<in> set (map (ptr s) (us @ vs))"
    then obtain u where u: "u \<in> set (us @ vs)" "ptr s v = ptr s u" unfolding set_map by blast
    then show False using ptr_inj [OF assms(1,3), of u] d(2,4) by auto
  qed
  have g: "\<And>u f. grid (put_point u f s) = grid s" "\<And>u f. framed (put_point u f s) = framed s" using meta_cong(1,3) put_point_simps(1) by blast+
  show ?thesis
  proof (cases us rule: rev_cases)
    case Nil
    let ?s1 = "s\<lparr>FirstToExpand := Some (ptr s v)\<rparr>" and ?f = "\<lambda>q. q\<lparr>NextToExpand := ?c\<rparr>"
    let ?s = "put_point v ?f ?s1"
    have m: "grid ?s1" "framed ?s1 = framed s" using assms(1) meta_cong [of ?s1 s] by simp_all
    have "insert_point (ptr s v) s = Some ?s"
      using fp Nil pget_pt [OF assms(1,3)] pset_put [OF m(1), of v ?f] m(2) assms(3) by (simp add: insert_point_def)
    moreover have "queue ?s (v # vs)"
    proof -
      have vs: "path (nxt s) ?c (map (ptr s) vs)" using d(3) Nil path_first by (metis append_Nil)
      have "path (nxt ?s) ?c (map (ptr s) vs)"
      proof (rule path_cong [OF vs])
        fix p assume "p \<in> set (map (ptr s) vs)"
        then obtain u where u: "u \<in> set vs" "p = ptr s u" unfolding set_map by blast
        then have "framed s u" "u \<noteq> v" using d(2,4) by auto
        then show "nxt ?s p = nxt s p" using nxt_put [OF m(1), of v u ?f] m(2) assms(3) u(2) by simp
      qed
      moreover have "nxt ?s (ptr s v) = ?c" using nxt_put [OF m(1), of v v ?f] m(2) assms(3) by simp
      ultimately show ?thesis using d(1,2,4) Nil assms(3) meta_cong(3) [of ?s s] by (auto simp: queue_def)
    qed
    moreover have "relinked_points s ?s" using pt_put [OF m(1), of v _ ?f] m(2) assms(3) by (simp add: relinked_points_def)
    ultimately show ?thesis using Nil by (auto simp: place_def us_def [symmetric] vs_def [symmetric])
  next
    case (snoc ts u)
    let ?f1 = "\<lambda>q. q\<lparr>NextToExpand := Some (ptr s v)\<rparr>" and ?f = "\<lambda>q. q\<lparr>NextToExpand := ?c\<rparr>"
    let ?s1 = "put_point u ?f1 s"
    let ?s = "put_point v ?f ?s1"
    have fu: "framed s u" "u \<noteq> v" using d(2,4) snoc by auto
    have m: "grid ?s1" "framed ?s1 = framed s" using assms(1) g by simp_all
    have "insert_point (ptr s v) s = Some ?s"
      using fp snoc pget_pt [OF assms(1,3)] pset_put [OF assms(1) fu(1)] pset_put [OF m(1), of v ?f] m(2) assms(3) by (simp add: insert_point_def)
    moreover have nx: "nxt ?s (ptr s w) = (if w = v then ?c else if w = u then Some (ptr s v) else nxt s (ptr s w))" if "framed s w" for w
      using nxt_put [OF m(1), of v w ?f] nxt_put [OF assms(1) fu(1), of w ?f1] m(2) assms(3) that by auto
    moreover have "queue ?s (us @ v # vs)"
    proof -
      have "path (nxt ?s) (FirstToExpand s) (map (ptr s) us @ ptr s v # map (ptr s) vs)"
      proof (rule path_insert)
        show "path (nxt s) (FirstToExpand s) (map (ptr s) us @ map (ptr s) vs)" using d(3) unfolding map_append .
        show "map (ptr s) us \<noteq> []" using snoc by simp
        show "distinct (map (ptr s) us @ map (ptr s) vs)" "ptr s v \<notin> set (map (ptr s) us @ map (ptr s) vs)" using dm nv unfolding map_append by blast+
        show "nxt ?s (ptr s v) = ?c" using nx [OF assms(3)] by simp
        show "nxt ?s (last (map (ptr s) us)) = Some (ptr s v)" using nx [OF fu(1)] fu(2) snoc by simp
        fix p assume p: "p \<in> set (map (ptr s) us @ map (ptr s) vs)" "p \<noteq> last (map (ptr s) us)"
        have "p \<in> ptr s ` set (us @ vs)" using p(1) unfolding map_append [symmetric] set_map .
        then obtain w where w: "p = ptr s w" "w \<in> set (us @ vs)" by blast
        then have "framed s w" "w \<noteq> v" using d(2,4) by auto
        then show "nxt ?s p = nxt s p" using nx [of w] w(1) p(2) snoc by auto
      qed
      then show ?thesis using d(1,2,4) assms(3) meta_cong(3) [of ?s s] by (auto simp: queue_def)
    qed
    moreover have "relinked_points s ?s"
      using pt_put [OF m(1), of v _ ?f] pt_put [OF assms(1) fu(1), of _ ?f1] m(2) assms(3) by (simp add: relinked_points_def)
    ultimately show ?thesis by (auto simp: place_def us_def [symmetric] vs_def [symmetric])
  qed
qed

section \<open>Ways and their costs\<close>

abbreviation WL :: "TShortway \<Rightarrow> node \<Rightarrow> int" where "WL s v \<equiv> Waylength (pt s v)"
abbreviation WP :: "TShortway \<Rightarrow> node \<Rightarrow> int" where "WP s v \<equiv> Waypoints (pt s v)"
abbreviation HV :: "TShortway \<Rightarrow> node \<Rightarrow> int" where "HV s v \<equiv> Heuristic (pt s v)"
abbreviation origin :: node where "origin \<equiv> At 0 0"
abbreviation V :: "TShortway \<Rightarrow> node set" where "V s \<equiv> {v. visible s v}"

definition adj :: "node \<Rightarrow> node \<Rightarrow> bool" where
  "adj u v \<longleftrightarrow> max \<bar>col v - col u\<bar> \<bar>line v - line u\<bar> = 1"

text \<open>The cost of the step onto \<open>u\<close> from its neighbour \<open>v\<close>.\<close>

definition step_cost :: "TShortway \<Rightarrow> node \<Rightarrow> node \<Rightarrow> int" where
  "step_cost s u v = (if col u \<noteq> col v \<and> line u \<noteq> line v then 3 * WP s u else WP s u)"

text \<open>The lower bound for a whole way through a field.\<close>

definition bound_of :: "TShortway \<Rightarrow> node \<Rightarrow> int" where
  "bound_of s v = WL s v + WP s v + MinWaypoints s * (\<bar>col v\<bar> + \<bar>line v\<bar> - 1)"

text \<open>
  The map as \<open>FillMap\<close> leaves it when all grounds have 3 to 1000 waypoints. A field that cannot be walked on has \<open>- 1\<close>. \<open>FillMap\<close> stores any
  other value too; with fewer than three waypoints the \<open>- 1\<close> of a blocked destination could make a detour pay, and above 1000 the least
  waypoints are not those of a field.
\<close>

definition filled :: "TShortway \<Rightarrow> bool" where
  "filled s \<longleftrightarrow> grid s \<and> VisibleX s \<le> 100 \<and> VisibleY s \<le> 100 \<and> 0 \<le> MinWaypoints s \<and> MinWaypoints s \<le> 1000
     \<and> (\<forall>v. visible s v \<longrightarrow> px (pt s v) = col v \<and> py (pt s v) = line v)
     \<and> (\<forall>v. framed s v \<longrightarrow> \<not> visible s v \<longrightarrow> WP s v = - 1)
     \<and> (\<forall>v. visible s v \<longrightarrow> WP s v = - 1 \<or> 3 \<le> WP s v \<and> WP s v \<le> 1000 \<and> MinWaypoints s \<le> WP s v)"

lemma finite_visible: "finite (V s)" "VisibleX s \<le> 100 \<Longrightarrow> VisibleY s \<le> 100 \<Longrightarrow> card (V s) \<le> 40401"
proof -
  have img: "x \<in> (\<lambda>(a, b). At a b) ` A" if "(col x, line x) \<in> A" for x A using that by (cases x) force
  have sub: "V s \<subseteq> (\<lambda>(a, b). At a b) ` ({- VisibleX s..VisibleX s} \<times> {- VisibleY s..VisibleY s})"
    by (auto simp: visible_def intro!: img)
  show "finite (V s)" by (rule finite_subset [OF sub]) simp
  assume "VisibleX s \<le> 100" "VisibleY s \<le> 100"
  then have "V s \<subseteq> (\<lambda>(a, b). At a b) ` ({- 100..100 :: int} \<times> {- 100..100 :: int})" by (auto simp: visible_def intro!: img)
  then have "card (V s) \<le> card ((\<lambda>(a, b). At a b) ` ({- 100..100 :: int} \<times> {- 100..100 :: int}))" by (intro card_mono) auto
  also have "\<dots> \<le> card ({- 100..100 :: int} \<times> {- 100..100 :: int})" by (rule card_image_le) simp
  finally show "card (V s) \<le> 40401" by (simp add: card_cartesian_product)
qed

text \<open>The value of a point is the only change.\<close>

definition changed :: "TShortway \<Rightarrow> node \<Rightarrow> int \<Rightarrow> int \<Rightarrow> int option \<Rightarrow> TShortway \<Rightarrow> bool" where
  "changed s v len h pre s' \<longleftrightarrow> meta s' = meta s \<and> serrors s' = serrors s
     \<and> (\<forall>u. framed s u \<longrightarrow> view (pt s' u) = (if u = v then ([px (pt s v), py (pt s v), WP s v, len, h], pre) else view (pt s u)))"

lemma changedD:
  assumes "changed s v len h pre s'"
  shows "meta s' = meta s" "serrors s' = serrors s"
    "framed s u \<Longrightarrow> WL s' u = (if u = v then len else WL s u)" "framed s u \<Longrightarrow> HV s' u = (if u = v then h else HV s u)"
    "framed s u \<Longrightarrow> Predecessor (pt s' u) = (if u = v then pre else Predecessor (pt s u))"
    "framed s u \<Longrightarrow> WP s' u = WP s u" "framed s u \<Longrightarrow> px (pt s' u) = px (pt s u)" "framed s u \<Longrightarrow> py (pt s' u) = py (pt s u)"
proof -
  show "meta s' = meta s" "serrors s' = serrors s" using assms by (simp_all add: changed_def)
  assume "framed s u"
  then have "view (pt s' u) = (if u = v then ([px (pt s v), py (pt s v), WP s v, len, h], pre) else view (pt s u))"
    using assms by (simp add: changed_def)
  then show "WL s' u = (if u = v then len else WL s u)" "HV s' u = (if u = v then h else HV s u)"
    "Predecessor (pt s' u) = (if u = v then pre else Predecessor (pt s u))"
    "WP s' u = WP s u" "px (pt s' u) = px (pt s u)" "py (pt s' u) = py (pt s u)"
    by (auto simp: view_def split: if_splits)
qed

lemma changed_filled:
  assumes "filled s" "changed s v len h pre s'"
  shows "filled s'"
  using assms(1) changedD(6-8) [OF assms(2)] meta_cong [OF changedD(1) [OF assms(2)]] changedD(1) [OF assms(2)] visible_framed
  by (auto simp: filled_def meta_def)

section \<open>The invariant\<close>

text \<open>
  The set \<open>X\<close> has the expanded fields, \<open>Q\<close> the list to expand, \<open>R\<close> the steps that have been tried; \<open>d\<close> is the destination.
\<close>

definition search_inv :: "node \<Rightarrow> node set \<Rightarrow> (node \<times> node) set \<Rightarrow> node list \<Rightarrow> TShortway \<Rightarrow> bool" where
  "search_inv d X R Q s \<longleftrightarrow>
     filled s \<and> queue s Q \<and> X \<subseteq> V s - {origin} \<and> set Q \<subseteq> V s - {origin} \<and> X \<inter> set Q = {} \<and> d \<in> X \<and>
     (\<forall>v\<in>V s. v \<noteq> origin \<and> WP s v \<noteq> - 1 \<and> WL s v \<noteq> INT_MAX \<longrightarrow> v \<in> X \<union> set Q) \<and>
     (\<forall>v\<in>X \<union> set Q. WL s v \<noteq> INT_MAX \<and> (v = d \<or> WP s v \<noteq> - 1)) \<and>
     (\<forall>v\<in>V s. HV s v \<noteq> INT_MAX \<longleftrightarrow> v \<in> X \<union> set Q - {d}) \<and>
     (\<forall>v\<in>X \<union> set Q - {d}. HV s v = bound_of s v) \<and>
     sorted (map (HV s) Q) \<and> WL s d = 0 \<and> Predecessor (pt s d) = None \<and>
     (\<forall>v\<in>V s. v \<noteq> d \<and> WL s v \<noteq> INT_MAX \<longrightarrow> (\<exists>e\<in>X. Predecessor (pt s v) = Some (ptr s e) \<and> adj e v \<and> WL s v = WL s e + step_cost s e v)) \<and>
     (\<forall>(e, v)\<in>R. e \<in> X \<and> (visible s v \<longrightarrow> WL s v \<le> WL s e + step_cost s e v)) \<and>
     (\<forall>v\<in>V s. WL s v \<le> INT_MAX \<and> (WL s v \<noteq> INT_MAX \<longrightarrow> - 3 \<le> WL s v \<and> WL s v \<le> 3000 * int (card X)))"

lemma search_invD:
  assumes "search_inv d X R Q s"
  shows "filled s" "grid s" "queue s Q" "X \<subseteq> V s - {origin}" "set Q \<subseteq> V s - {origin}" "X \<inter> set Q = {}" "d \<in> X"
    "\<And>v. visible s v \<Longrightarrow> v \<noteq> origin \<Longrightarrow> WP s v \<noteq> - 1 \<Longrightarrow> WL s v \<noteq> INT_MAX \<Longrightarrow> v \<in> X \<union> set Q"
    "\<And>v. v \<in> X \<union> set Q \<Longrightarrow> WL s v \<noteq> INT_MAX" "\<And>v. v \<in> X \<union> set Q \<Longrightarrow> v \<noteq> d \<Longrightarrow> WP s v \<noteq> - 1"
    "\<And>v. visible s v \<Longrightarrow> HV s v \<noteq> INT_MAX \<longleftrightarrow> v \<in> X \<union> set Q - {d}"
    "\<And>v. v \<in> X \<union> set Q - {d} \<Longrightarrow> HV s v = bound_of s v"
    "sorted (map (HV s) Q)" "WL s d = 0" "Predecessor (pt s d) = None"
    "\<And>v. visible s v \<Longrightarrow> v \<noteq> d \<Longrightarrow> WL s v \<noteq> INT_MAX \<Longrightarrow>
      \<exists>e\<in>X. Predecessor (pt s v) = Some (ptr s e) \<and> adj e v \<and> WL s v = WL s e + step_cost s e v"
    "\<And>e v. (e, v) \<in> R \<Longrightarrow> visible s v \<Longrightarrow> WL s v \<le> WL s e + step_cost s e v"
    "\<And>v. visible s v \<Longrightarrow> WL s v \<le> INT_MAX" "\<And>v. visible s v \<Longrightarrow> WL s v \<noteq> INT_MAX \<Longrightarrow> - 3 \<le> WL s v"
    "\<And>v. visible s v \<Longrightarrow> WL s v \<noteq> INT_MAX \<Longrightarrow> WL s v \<le> 3000 * int (card X)" "\<And>e v. (e, v) \<in> R \<Longrightarrow> e \<in> X"
  using assms by (auto simp: search_inv_def filled_def)

text \<open>While \<open>n\<close> is expanded.\<close>

definition expanding :: "node \<Rightarrow> node set \<Rightarrow> (node \<times> node) set \<Rightarrow> node list \<Rightarrow> node \<Rightarrow> TShortway \<Rightarrow> bool" where
  "expanding d X R Q n s \<longleftrightarrow> search_inv d X R Q s \<and> n \<in> X \<and> WL s n \<le> 3000 * int (card X) - 3000
     \<and> (n = d \<longrightarrow> X = {d}) \<and> (n \<noteq> d \<longrightarrow> (\<forall>x\<in>X - {d}. HV s x \<le> HV s n) \<and> (\<forall>q\<in>set Q. HV s n \<le> HV s q))"


text \<open>Steps keep the lower bound.\<close>

lemma bound_step:
  assumes "filled s" "visible s n" "visible s v" "WP s n \<noteq> - 1" "WP s v \<noteq> - 1" "adj n v"
  shows "bound_of s n \<le> WL s n + step_cost s n v + WP s v + MinWaypoints s * (\<bar>col v\<bar> + \<bar>line v\<bar> - 1)"
proof -
  let ?D = "\<bar>col n\<bar> + \<bar>line n\<bar>" and ?D' = "\<bar>col v\<bar> + \<bar>line v\<bar>" and ?M = "MinWaypoints s"
  have w: "?M \<le> WP s n" "?M \<le> WP s v" "0 \<le> ?M" "3 \<le> WP s n" using assms by (auto simp: filled_def)
  show ?thesis
  proof (cases "col n \<noteq> col v \<and> line n \<noteq> line v")
    case True
    have "?D \<le> ?D' + 2" using assms(6) by (auto simp: adj_def max_def split: if_splits)
    then have "?M * (?D - 1) \<le> ?M * (?D' - 1 + 2)" using w(3) by (intro mult_left_mono) auto
    also have "\<dots> = ?M * (?D' - 1) + 2 * ?M" by (simp add: algebra_simps)
    finally show ?thesis using w True by (simp add: bound_of_def step_cost_def)
  next
    case False
    have "?D \<le> ?D' + 1" using assms(6) False by (auto simp: adj_def max_def split: if_splits)
    then have "?M * (?D - 1) \<le> ?M * (?D' - 1 + 1)" using w(3) by (intro mult_left_mono) auto
    also have "\<dots> = ?M * (?D' - 1) + ?M" by (simp add: algebra_simps)
    finally show ?thesis using w False by (simp add: bound_of_def step_cost_def)
  qed
qed

lemma step_cost_bounds:
  assumes "filled s" "visible s n"
  shows "- 3 \<le> step_cost s n v" "step_cost s n v \<le> 3000" "WP s n \<noteq> - 1 \<Longrightarrow> 3 \<le> step_cost s n v" "WP s n \<noteq> - 1 \<Longrightarrow> WP s n \<le> step_cost s n v"
  using assms by (auto simp: filled_def step_cost_def)

text \<open>A field whose way length can be lowered has not been expanded.\<close>

lemma lower_not_expanded:
  assumes "expanding d X R Q n s" "visible s v" "adj n v" "WL s n + step_cost s n v < WL s v"
  shows "v \<notin> X"
proof
  assume v: "v \<in> X"
  have E: "search_inv d X R Q s" "n \<in> X" using assms(1) by (simp_all add: expanding_def)
  note I = search_invD [OF E(1)]
  have n: "visible s n" using I(4) E(2) by auto
  show False
  proof (cases "n = d")
    case True
    then have "X = {d}" using assms(1) by (simp add: expanding_def)
    then have "v = n" using v True by simp
    then show False using assms(3) by (simp add: adj_def)
  next
    case False
    then have wn: "WP s n \<noteq> - 1" using I(10) E(2) by auto
    have wl: "- 3 \<le> WL s n" using I(9,19) n E(2) by auto
    show False
    proof (cases "v = d")
      case True
      then show False using assms(4) I(14) step_cost_bounds(3) [OF I(1) n wn, of v] wl by simp
    next
      case vd: False
      then have wv: "WP s v \<noteq> - 1" using I(10) v by auto
      have "HV s v \<le> HV s n" using assms(1) False vd v by (simp add: expanding_def)
      then have "bound_of s v \<le> bound_of s n" using I(12) False vd v E(2) by simp
      then show False using bound_step [OF I(1) n assms(2) wn wv assms(3)] assms(4) by (simp add: bound_of_def)
    qed
  qed
qed

section \<open>One step of the expansion\<close>

lemma offsets_adj:
  assumes "visible s n" "off \<in> set offsets8" "v = At (col n + fst off) (line n + snd off)"
  shows "adj n v" "framed s v" "v \<noteq> n" "col n \<noteq> col v \<and> line n \<noteq> line v \<longleftrightarrow> fst off \<noteq> 0 \<and> snd off \<noteq> 0"
  using assms by (cases n; auto simp: offsets8_def adj_def framed_def visible_def)+

lemma adj_offset:
  assumes "adj n v"
  shows "\<exists>off\<in>set offsets8. v = At (col n + fst off) (line n + snd off)"
proof -
  define a b where "a = col v - col n" and "b = line v - line n"
  have "\<bar>a\<bar> \<le> 1" "\<bar>b\<bar> \<le> 1" "a \<noteq> 0 \<or> b \<noteq> 0" using assms by (auto simp: adj_def a_def b_def max_def split: if_splits)
  then have "a = - 1 \<or> a = 0 \<or> a = 1" "b = - 1 \<or> b = 0 \<or> b = 1" "a \<noteq> 0 \<or> b \<noteq> 0" by linarith+
  then have "(a, b) \<in> set offsets8" unfolding offsets8_def by auto
  then have "(col v - col n, line v - line n) \<in> set offsets8" by (simp add: a_def b_def)
  then show ?thesis by (intro bexI [of _ "(col v - col n, line v - line n)"]) (cases v; simp)
qed

text \<open>The new value of a point, with the list kept in order.\<close>

lemma requeue_ok:
  assumes "grid s" "queue s Q" "framed s v" "HV s v \<noteq> INT_MAX \<longleftrightarrow> v \<in> set Q" "p = ptr s v"
  shows "\<exists>s'. Option.bind (if HV s v \<noteq> INT_MAX then unlink_point p s else Some s) (\<lambda>s.
      Option.bind (pset p (\<lambda>q. q\<lparr>Heuristic := Waylength q + Waypoints q * 1 + MinWaypoints s * (\<bar>px q\<bar> + \<bar>py q\<bar> - 1)\<rparr>) s) (insert_point p)) = Some s'
    \<and> changed s v (WL s v) (WL s v + WP s v + MinWaypoints s * (\<bar>px (pt s v)\<bar> + \<bar>py (pt s v)\<bar> - 1)) (Predecessor (pt s v)) s'
    \<and> queue s' (place (HV s') v (remove1 v Q))"
proof -
  let ?h = "WL s v + WP s v + MinWaypoints s * (\<bar>px (pt s v)\<bar> + \<bar>py (pt s v)\<bar> - 1)"
  obtain s1 where s1: "(if HV s v \<noteq> INT_MAX then unlink_point p s else Some s) = Some s1" "queue s1 (remove1 v Q)" "relinked_points s s1"
  proof (cases "v \<in> set Q")
    case True
    then show thesis using that unlink_point_ok [OF assms(1,2) True] assms(4,5) by auto
  next
    case False
    then show thesis using that [of s] assms(2,4) by (auto simp: relinked_points_def remove1_idem)
  qed
  have r: "meta s1 = meta s" "serrors s1 = serrors s" "\<And>u. framed s u \<Longrightarrow> view (pt s1 u) = view (pt s u)" using s1(3) by (auto simp: relinked_points_def)
  note m = meta_cong [OF r(1)]
  note w = viewD [OF r(3) [OF assms(3)]]
  let ?f = "\<lambda>q. q\<lparr>Heuristic := Waylength q + Waypoints q * 1 + MinWaypoints s1 * (\<bar>px q\<bar> + \<bar>py q\<bar> - 1)\<rparr>"
  let ?s2 = "put_point v ?f s1"
  have g: "grid s1" "framed s1 v" using m assms(1,3) by simp_all
  have v: "v \<notin> set (remove1 v Q)" using assms(2) by (simp add: queue_def)
  have q2: "queue ?s2 (remove1 v Q)" by (rule queue_put [OF g s1(2)]) (use v in simp)
  have g2: "grid ?s2" "framed ?s2 v" using g meta_cong [of ?s2 s1] by simp_all
  obtain s' where s': "insert_point (ptr ?s2 v) ?s2 = Some s'" "queue s' (place (\<lambda>u. HV ?s2 u) v (remove1 v Q))" "relinked_points ?s2 s'"
    using insert_point_ok [OF g2(1) q2 g2(2) v] by blast
  have p2: "view (pt ?s2 u) = (if u = v then ([px (pt s v), py (pt s v), WP s v, WL s v, ?h], Predecessor (pt s v)) else view (pt s u))" if "framed s u" for u
    using pt_put [OF g, of u ?f] that m(3) r(3) [OF that] w m(6) by (auto simp: view_def)
  have f2: "framed ?s2 = framed s" using meta_cong(3) [of ?s2 s1] m(3) by simp
  have ch: "changed s v (WL s v) ?h (Predecessor (pt s v)) s'"
    using s'(3) r(1,2) p2 f2 by (simp add: changed_def relinked_points_def)
  have "HV ?s2 u = HV s' u" if "u \<in> insert v (set Q)" for u
  proof -
    have "framed s u" using that assms(2,3) by (auto simp: queue_def)
    then have "view (pt s' u) = view (pt ?s2 u)" using s'(3) f2 by (simp add: relinked_points_def)
    then show ?thesis by (rule viewD(5) [symmetric])
  qed
  then have pl: "place (\<lambda>u. HV ?s2 u) v (remove1 v Q) = place (HV s') v (remove1 v Q)"
    unfolding place_def using set_remove1_subset [of v Q]
    by (intro arg_cong2 [of _ _ _ _ "(@)"] takeWhile_cong arg_cong2 [of _ _ _ _ "(#)"] dropWhile_cong refl) auto
  have ps: "pset p ?f s1 = Some ?s2" using pset_put [OF g] m(5) assms(5) by simp
  have "ptr ?s2 v = p" using m(5) assms(5) by simp
  then have "insert_point p ?s2 = Some s'" using s'(1) by simp
  then show ?thesis using s'(2) ch ps unfolding s1(1) pl by (intro exI [of _ s'] conjI) simp_all
qed

text \<open>What \<open>relax\<close> does to the points.\<close>

lemma relax_effect:
  assumes inv: "search_inv d X R Q s" and n: "n \<in> X" and off: "off \<in> set offsets8" and v: "v = At (col n + fst off) (line n + snd off)"
    and nx: "WL s n + step_cost s n v < WL s v \<Longrightarrow> visible s v \<Longrightarrow> v \<notin> X"
  shows "\<exists>s' Q' h. relax (ptr s n) (WL s n + WP s n) off s = Some s' \<and> queue s' Q'
    \<and> (if WL s n + step_cost s n v < WL s v
       then changed s v (WL s n + step_cost s n v) h (Some (ptr s n)) s'
         \<and> (if v \<noteq> origin \<and> WP s v \<noteq> - 1
            then h = WL s n + step_cost s n v + WP s v + MinWaypoints s * (\<bar>col v\<bar> + \<bar>line v\<bar> - 1) \<and> Q' = place (HV s') v (remove1 v Q)
            else h = HV s v \<and> Q' = Q)
       else s' = s \<and> Q' = Q)"
proof -
  note I = search_invD [OF inv]
  have vn: "visible s n" using I(4) n by auto
  note A = offsets_adj [OF vn off v]
  have pn: "px (pt s n) = col n" "py (pt s n) = line n" using I(1) vn by (auto simp: filled_def)
  have at: "point_at s (px (pt s n) + fst off) (py (pt s n) + snd off) = ptr s v" using pn v by (simp add: ptr_def)
  have gn: "pget s (ptr s n) = Some (pt s n)" by (rule pget_pt [OF I(2) visible_framed [OF vn]])
  have gv: "pget s (ptr s v) = Some (pt s v)" by (rule pget_pt [OF I(2) A(2)])
  let ?len = "WL s n + step_cost s n v"
  have len: "(if fst off \<noteq> 0 \<and> snd off \<noteq> 0 then WL s n + WP s n + WP s n * 2 else WL s n + WP s n) = ?len"
    using A(4) by (auto simp: step_cost_def)
  let ?f = "\<lambda>q. q\<lparr>Waylength := ?len, Predecessor := Some (ptr s n)\<rparr>"
  let ?s1 = "put_point v ?f s"
  have c: "(px (pt s v) \<noteq> 0 \<or> py (pt s v) \<noteq> 0) \<and> WP s v \<noteq> - 1 \<longleftrightarrow> v \<noteq> origin \<and> WP s v \<noteq> - 1"
  proof (cases "visible s v")
    case True
    then show ?thesis using I(1) by (cases v) (auto simp: filled_def)
  next
    case False
    then show ?thesis using I(1) A(2) by (auto simp: filled_def)
  qed
  have eq: "relax (ptr s n) (WL s n + WP s n) off s = (if ?len < WL s v
      then if v \<noteq> origin \<and> WP s v \<noteq> - 1
        then Option.bind (if HV s v \<noteq> INT_MAX then unlink_point (ptr s v) ?s1 else Some ?s1) (\<lambda>s.
          Option.bind (pset (ptr ?s1 v) (\<lambda>q. q\<lparr>Heuristic := Waylength q + Waypoints q * 1 + MinWaypoints s * (\<bar>px q\<bar> + \<bar>py q\<bar> - 1)\<rparr>) s) (insert_point (ptr ?s1 v)))
        else Some ?s1
      else Some s)"
    unfolding relax_def using gn gv at len pset_put [OF I(2) A(2), of ?f] c by (cases off) simp
  show ?thesis
  proof (cases "?len < WL s v")
    case False
    then show ?thesis using eq I(3) by (intro exI [of _ s] exI [of _ Q]) simp
  next
    case less: True
    have g1: "grid ?s1" "framed ?s1 v" using I(2) A(2) meta_cong [of ?s1 s] by simp_all
    have q1: "queue ?s1 Q" by (rule queue_put [OF I(2) A(2) I(3)]) simp
    have p1: "pt ?s1 u = (if u = v then ?f (pt s v) else pt s u)" if "framed s u" for u by (rule pt_put [OF I(2) A(2) that])
    have ch1: "changed s v ?len (HV s v) (Some (ptr s n)) ?s1" using p1 by (simp add: changed_def view_def)
    show ?thesis
    proof (cases "v \<noteq> origin \<and> WP s v \<noteq> - 1")
      case False
      have "relax (ptr s n) (WL s n + WP s n) off s = Some ?s1" unfolding eq if_P [OF less] if_not_P [OF False] ..
      then show ?thesis using ch1 q1 unfolding if_P [OF less] if_not_P [OF False]
        by (intro exI [of _ ?s1] exI [of _ Q] exI [of _ "HV s v"] conjI refl)
    next
      case True
      then have vv: "visible s v" using I(1) A(2) by (auto simp: filled_def)
      have "v \<noteq> d" using nx [OF less vv] I(7) by blast
      then have "HV ?s1 v \<noteq> INT_MAX \<longleftrightarrow> v \<in> set Q" using I(11) [OF vv] nx [OF less vv] p1 [OF A(2)] by simp
      from requeue_ok [OF g1(1) q1 g1(2) this refl] obtain s' where s': "Option.bind (if HV ?s1 v \<noteq> INT_MAX then unlink_point (ptr ?s1 v) ?s1 else Some ?s1) (\<lambda>s.
          Option.bind (pset (ptr ?s1 v) (\<lambda>q. q\<lparr>Heuristic := Waylength q + Waypoints q * 1 + MinWaypoints s * (\<bar>px q\<bar> + \<bar>py q\<bar> - 1)\<rparr>) s) (insert_point (ptr ?s1 v))) = Some s'"
        "changed ?s1 v (WL ?s1 v) (WL ?s1 v + WP ?s1 v + MinWaypoints ?s1 * (\<bar>px (pt ?s1 v)\<bar> + \<bar>py (pt ?s1 v)\<bar> - 1)) (Predecessor (pt ?s1 v)) s'"
        "queue s' (place (HV s') v (remove1 v Q))" by blast
      let ?h = "?len + WP s v + MinWaypoints s * (\<bar>col v\<bar> + \<bar>line v\<bar> - 1)"
      have pv: "px (pt s v) = col v" "py (pt s v) = line v" using I(1) vv by (auto simp: filled_def)
      have ch: "changed s v ?len ?h (Some (ptr s n)) s'"
        using s'(2) p1 A(2) pv meta_cong(3) [of ?s1 s] by (simp add: changed_def)
      have h: "HV ?s1 v = HV s v" and pp: "ptr ?s1 = ptr s" using p1 [OF A(2)] by simp_all
      have rx: "relax (ptr s n) (WL s n + WP s n) off s = Some s'"
        unfolding eq if_P [OF less] if_P [OF True] pp by (rule s'(1) [unfolded h pp])
      show ?thesis using ch rx s'(3) unfolding if_P [OF less] if_P [OF True]
        by (intro exI [of _ s'] exI [of _ "place (HV s') v (remove1 v Q)"] exI [of _ ?h] conjI refl)
    qed
  qed
qed

section \<open>The invariant is kept\<close>

lemma length_bounds:
  assumes "expanding d X R Q n s"
  shows "- 3 \<le> WL s n + step_cost s n v" "WL s n + step_cost s n v \<le> 3000 * int (card X)" "3000 * int (card X) \<le> 121203000"
proof -
  have E: "search_inv d X R Q s" "n \<in> X" "WL s n \<le> 3000 * int (card X) - 3000" using assms by (simp_all add: expanding_def)
  note I = search_invD [OF E(1)]
  have n: "visible s n" using I(4) E(2) by auto
  note B = step_cost_bounds [OF I(1) n, of v]
  show "WL s n + step_cost s n v \<le> 3000 * int (card X)" using E(3) B(2) by simp
  show "- 3 \<le> WL s n + step_cost s n v"
  proof (cases "n = d")
    case True
    then show ?thesis using I(14) B(1) by simp
  next
    case False
    have "WL s n \<noteq> INT_MAX" "WP s n \<noteq> - 1" using I(9,10) [of n] E(2) False by simp_all
    then show ?thesis using I(19) [OF n] B(3) by simp
  qed
  have "card X \<le> card (V s)" by (rule card_mono [OF finite_visible(1)]) (use I(4) in auto)
  also have "\<dots> \<le> 40401" by (rule finite_visible(2)) (use I(1) in \<open>auto simp: filled_def\<close>)
  finally show "3000 * int (card X) \<le> 121203000" by simp
qed

lemma bound_finite:
  assumes "filled s" "visible s v" "len \<le> 121203000"
  shows "len + WP s v + MinWaypoints s * (\<bar>col v\<bar> + \<bar>line v\<bar> - 1) \<noteq> INT_MAX"
proof -
  have "\<bar>col v\<bar> + \<bar>line v\<bar> - 1 \<le> 199" "MinWaypoints s \<le> 1000" "0 \<le> MinWaypoints s" "WP s v \<le> 1000" using assms by (auto simp: filled_def visible_def)
  then have "MinWaypoints s * (\<bar>col v\<bar> + \<bar>line v\<bar> - 1) \<le> MinWaypoints s * 199" by (intro mult_left_mono) auto
  also have "\<dots> \<le> 1000 * 199" using \<open>MinWaypoints s \<le> 1000\<close> by simp
  finally show ?thesis using assms(3) \<open>WP s v \<le> 1000\<close> by simp
qed

lemma relax_keeps:
  assumes E: "expanding d X R Q n s" and v: "visible s v" "adj n v" and less: "WL s n + step_cost s n v < WL s v"
    and ch: "changed s v (WL s n + step_cost s n v) h (Some (ptr s n)) s'" and q: "queue s' Q'"
    and Q': "if v \<noteq> origin \<and> WP s v \<noteq> - 1
        then h = WL s n + step_cost s n v + WP s v + MinWaypoints s * (\<bar>col v\<bar> + \<bar>line v\<bar> - 1) \<and> Q' = place (HV s') v (remove1 v Q)
        else h = HV s v \<and> Q' = Q"
  shows "expanding d X (insert (n, v) R) Q' n s'"
proof -
  let ?len = "WL s n + step_cost s n v" and ?ins = "v \<noteq> origin \<and> WP s v \<noteq> - 1"
  have inv: "search_inv d X R Q s" and nX: "n \<in> X" using E by (simp_all add: expanding_def)
  note I = search_invD [OF inv] and L = length_bounds [OF E]
  have vX: "v \<notin> X" by (rule lower_not_expanded [OF E v less])
  then have ne: "v \<noteq> d" "v \<noteq> n" using I(7) nX by auto
  have vn: "visible s n" using I(4) nX by auto
  have fin: "?len \<noteq> INT_MAX" using L(2) [of v] L(3) by linarith
  note m = meta_cong [OF changedD(1) [OF ch]]
  note C = changedD(3-6) [OF ch, OF visible_framed]
  have Qd: "distinct Q" "\<And>u. u \<in> set Q \<Longrightarrow> visible s u" using I(3,5) by (auto simp: queue_def)
  have sQ: "set Q' = (if ?ins then insert v (set Q) else set Q)"
    using Q' Qd(1) by (auto simp: set_remove1_eq)
  have sc: "step_cost s' e u = step_cost s e u" if "visible s e" for e u using C(4) [OF that] by (simp add: step_cost_def)
  have bo: "bound_of s' u = (if u = v then ?len + WP s v + MinWaypoints s * (\<bar>col v\<bar> + \<bar>line v\<bar> - 1) else bound_of s u)" if "visible s u" for u
    using C(1,4) [OF that] m(6) by (simp add: bound_of_def)
  have nins: "\<not> ?ins \<Longrightarrow> v \<notin> set Q" using I(5) I(10) [of v] ne(1) by auto
  have HX: "HV s x \<le> HV s n" if "x \<in> X" "x \<noteq> d" "n \<noteq> d" for x using E that by (simp add: expanding_def)
  have Hn: "HV s n \<le> h" if "?ins" "n \<noteq> d"
  proof -
    have "WP s n \<noteq> - 1" using I(10) nX that(2) by auto
    then have "bound_of s n \<le> h" using bound_step [OF I(1) vn v(1) _ _ v(2)] that(1) Q' by simp
    then show ?thesis using I(12) [of n] nX that(2) by simp
  qed
  have "search_inv d X (insert (n, v) R) Q' s'" unfolding search_inv_def
  proof (intro conjI)
    show "filled s'" by (rule changed_filled [OF I(1) ch])
    show "queue s' Q'" by (rule q)
    show "X \<subseteq> V s' - {origin}" using I(4) m(2) by simp
    show "set Q' \<subseteq> V s' - {origin}" using I(5) m(2) sQ v(1) by auto
    show "X \<inter> set Q' = {}" using I(6) sQ vX by auto
    show "d \<in> X" by (rule I(7))
    show "\<forall>u\<in>V s'. u \<noteq> origin \<and> WP s' u \<noteq> - 1 \<and> WL s' u \<noteq> INT_MAX \<longrightarrow> u \<in> X \<union> set Q'"
      using I(8) C(1,4) m(2) sQ by (auto split: if_splits)
    show "\<forall>u\<in>X \<union> set Q'. WL s' u \<noteq> INT_MAX \<and> (u = d \<or> WP s' u \<noteq> - 1)"
    proof
      fix u assume u: "u \<in> X \<union> set Q'"
      then have uv: "visible s u" using I(4) Qd(2) sQ v(1) by (auto split: if_splits)
      show "WL s' u \<noteq> INT_MAX \<and> (u = d \<or> WP s' u \<noteq> - 1)"
        using I(9,10) [of u] C(1,4) [OF uv] fin u sQ by (auto split: if_splits)
    qed
    show "\<forall>u\<in>V s'. (HV s' u \<noteq> INT_MAX) = (u \<in> X \<union> set Q' - {d})"
    proof
      fix u assume "u \<in> V s'"
      then have uv: "visible s u" using m(2) by simp
      have "?ins \<Longrightarrow> h \<noteq> INT_MAX" using bound_finite [OF I(1) v(1), of ?len] L(2) [of v] L(3) Q' by simp
      then show "(HV s' u \<noteq> INT_MAX) = (u \<in> X \<union> set Q' - {d})"
        using I(11) [OF uv] C(2) [OF uv] sQ ne(1) nins vX Q' by (cases "u = v"; cases ?ins) auto
    qed
    show "\<forall>u\<in>X \<union> set Q' - {d}. HV s' u = bound_of s' u"
    proof
      fix u assume u: "u \<in> X \<union> set Q' - {d}"
      then have uv: "visible s u" using I(4) Qd(2) sQ v(1) by (auto split: if_splits)
      show "HV s' u = bound_of s' u"
      proof (cases "u = v")
        case True
        then have ?ins using u sQ vX nins by (auto split: if_splits)
        then show ?thesis using True C(2) [OF uv] bo [OF uv] Q' by simp
      next
        case False
        then have "u \<in> X \<union> set Q - {d}" using u sQ by (auto split: if_splits)
        then show ?thesis using False C(2) [OF uv] bo [OF uv] I(12) by simp
      qed
    qed
    show "sorted (map (HV s') Q')"
    proof -
      have e: "map (HV s') us = map (HV s) us" if "set us \<subseteq> set Q" "v \<notin> set us" for us
        using that C(2) Qd(2) by (intro map_cong refl) auto
      show ?thesis
      proof (cases ?ins)
        case True
        have "sorted (map (HV s) (remove1 v Q))" using I(13) Qd(1) by (simp add: sorted_map_remove1)
        moreover have "map (HV s') (remove1 v Q) = map (HV s) (remove1 v Q)" by (rule e) (use Qd(1) set_remove1_subset [of v Q] in auto)
        ultimately have "sorted (map (HV s') (remove1 v Q))" by (simp only:)
        then show ?thesis using True Q' place_sorted by simp
      next
        case False
        then have "Q' = Q" "v \<notin> set Q" using Q' nins by (simp_all only: if_False not_False_eq_True simp_thms)
        moreover from this(2) have "map (HV s') Q = map (HV s) Q" by (intro e) auto
        ultimately show ?thesis using I(13) by (simp only:)
      qed
    qed
    show "WL s' d = 0" "Predecessor (pt s' d) = None" using C(1,3) [of d] I(4,7,14,15) ne(1) by auto
    show "\<forall>u\<in>V s'. u \<noteq> d \<and> WL s' u \<noteq> INT_MAX \<longrightarrow>
      (\<exists>e\<in>X. Predecessor (pt s' u) = Some (ptr s' e) \<and> adj e u \<and> WL s' u = WL s' e + step_cost s' e u)"
    proof (intro ballI impI)
      fix u assume u: "u \<in> V s'" "u \<noteq> d \<and> WL s' u \<noteq> INT_MAX"
      then have uv: "visible s u" using m(2) by simp
      have X: "WL s' e = WL s e \<and> step_cost s' e u = step_cost s e u" if "e \<in> X" for e
      proof -
        have ev: "visible s e" "e \<noteq> v" using that I(4) vX by auto
        then show ?thesis using C(1) [OF ev(1)] sc [OF ev(1)] by simp
      qed
      show "\<exists>e\<in>X. Predecessor (pt s' u) = Some (ptr s' e) \<and> adj e u \<and> WL s' u = WL s' e + step_cost s' e u"
      proof (cases "u = v")
        case True
        then show ?thesis using nX X [OF nX] C(1,3) [OF uv] v(2) m(5) by (intro bexI [of _ n]) simp_all
      next
        case False
        then obtain e where "e \<in> X" "Predecessor (pt s u) = Some (ptr s e)" "adj e u" "WL s u = WL s e + step_cost s e u"
          using I(16) [OF uv] u(2) C(1) [OF uv] by auto
        then show ?thesis using X [of e] C(1,3) [OF uv] False m(5) by (intro bexI [of _ e]) simp_all
      qed
    qed
    show "\<forall>(e, u)\<in>insert (n, v) R. e \<in> X \<and> (visible s' u \<longrightarrow> WL s' u \<le> WL s' e + step_cost s' e u)"
    proof -
      have "WL s' u \<le> WL s' e + step_cost s' e u" if r: "(e, u) \<in> insert (n, v) R" "visible s u" "e \<in> X" for e u
      proof -
        have ev: "visible s e" "e \<noteq> v" using r(3) I(4) vX by auto
        show ?thesis using r(1) I(17) [of e u] r(2) C(1) [OF ev(1)] C(1) [OF r(2)] sc [OF ev(1), of u] ev(2) less by auto
      qed
      then show ?thesis using m(2) nX I(21) by auto
    qed
    show "\<forall>u\<in>V s'. WL s' u \<le> INT_MAX \<and> (WL s' u \<noteq> INT_MAX \<longrightarrow> - 3 \<le> WL s' u \<and> WL s' u \<le> 3000 * int (card X))"
      using C(1) I(18-20) L(1,2) [of v] L(3) m(2) by (auto split: if_splits)
  qed
  moreover have "HV s' u = HV s u" if "u \<in> X" for u
  proof -
    have uv: "visible s u" "u \<noteq> v" using that I(4) vX by auto
    then show ?thesis using C(2) [OF uv(1)] by simp
  qed
  moreover have "WL s' n = WL s n" using C(1) [OF vn] ne(2) by simp
  moreover have "HV s n \<le> HV s' u" if "u \<in> set Q'" "n \<noteq> d" for u
  proof (cases "u = v")
    case True
    then show ?thesis using that sQ nins Hn C(2) [OF v(1)] by (auto split: if_splits)
  next
    case False
    then have "u \<in> set Q" using that(1) sQ by (auto split: if_splits)
    then show ?thesis using False C(2) [of u] Qd(2) E that(2) by (simp add: expanding_def)
  qed
  ultimately show ?thesis using E HX nX by (auto simp: expanding_def)
qed

text \<open>Only visible fields matter.\<close>

lemma search_inv_cong:
  assumes "search_inv d X R Q s" "meta s' = meta s" "filled s'" "queue s' Q" "\<And>u. visible s u \<Longrightarrow> view (pt s' u) = view (pt s u)"
  shows "search_inv d X R Q s'"
proof -
  note I = search_invD [OF assms(1)] and m = meta_cong [OF assms(2)]
  have C: "WL s' u = WL s u" "WP s' u = WP s u" "HV s' u = HV s u" "Predecessor (pt s' u) = Predecessor (pt s u)" if "visible s u" for u
    using viewD [OF assms(5) [OF that]] by blast+
  have vis: "visible s u" if "u \<in> X \<or> u \<in> set Q" for u using that I(4,5) by auto
  have sc: "step_cost s' e u = step_cost s e u" "bound_of s' e = bound_of s e" if "visible s e" for e u
    using C(1,2) [OF that] m(6) by (simp_all add: step_cost_def bound_of_def)
  have so: "map (HV s') Q = map (HV s) Q" using C(3) vis by simp
  show ?thesis unfolding search_inv_def so
  proof (intro conjI)
    show "\<forall>v\<in>V s'. v \<noteq> d \<and> WL s' v \<noteq> INT_MAX \<longrightarrow>
      (\<exists>e\<in>X. Predecessor (pt s' v) = Some (ptr s' e) \<and> adj e v \<and> WL s' v = WL s' e + step_cost s' e v)"
    proof (intro ballI impI)
      fix v assume v: "v \<in> V s'" "v \<noteq> d \<and> WL s' v \<noteq> INT_MAX"
      then have "visible s v" using m(2) by simp
      moreover obtain e where "e \<in> X" "Predecessor (pt s v) = Some (ptr s e)" "adj e v" "WL s v = WL s e + step_cost s e v"
        using I(16) [OF calculation] v(2) C(1) [OF calculation] by auto
      ultimately show "\<exists>e\<in>X. Predecessor (pt s' v) = Some (ptr s' e) \<and> adj e v \<and> WL s' v = WL s' e + step_cost s' e v"
        using C(1,4) sc(1) vis m(5) by (intro bexI [of _ e]) simp_all
    qed
    show "\<forall>(e, v)\<in>R. e \<in> X \<and> (visible s' v \<longrightarrow> WL s' v \<le> WL s' e + step_cost s' e v)"
      using I(17,21) C(1) sc(1) vis m(2) by fastforce
    show "\<forall>v\<in>X \<union> set Q. WL s' v \<noteq> INT_MAX \<and> (v = d \<or> WP s' v \<noteq> - 1)" using I(9,10) C(1,2) vis by auto
    show "\<forall>v\<in>X \<union> set Q - {d}. HV s' v = bound_of s' v" using I(12) C(3) sc(2) vis by auto
    show "\<forall>v\<in>V s'. (HV s' v \<noteq> INT_MAX) = (v \<in> X \<union> set Q - {d})" using I(11) C(3) m(2) by simp
    show "\<forall>v\<in>V s'. v \<noteq> origin \<and> WP s' v \<noteq> - 1 \<and> WL s' v \<noteq> INT_MAX \<longrightarrow> v \<in> X \<union> set Q" using I(8) C(1,2) m(2) by simp
    show "WL s' d = 0" "Predecessor (pt s' d) = None" using I(7,14,15) C(1,4) vis by simp_all
  qed (use assms(3,4) I(4-7,13,18-20) C(1) m(2) in auto)
qed

text \<open>Way lengths only sink, those of expanded fields stay.\<close>

definition later :: "node set \<Rightarrow> TShortway \<Rightarrow> TShortway \<Rightarrow> bool" where
  "later X s s' \<longleftrightarrow> meta s' = meta s \<and> serrors s' = serrors s \<and> (\<forall>u. framed s u \<longrightarrow> WP s' u = WP s u)
     \<and> (\<forall>u\<in>X. WL s' u = WL s u) \<and> (\<forall>u. visible s u \<longrightarrow> WL s' u \<le> WL s u)"

lemma later_refl [simp]: "later X s s"
  by (simp add: later_def)

lemma later_trans:
  assumes "later X s s'" "later X s' s''"
  shows "later X s s''"
  using assms meta_cong(2,3) [of s' s] unfolding later_def by (metis order_trans)

lemma relax_ok:
  assumes E: "expanding d X R Q n s" and off: "off \<in> set offsets8"
  shows "\<exists>s' Q'. relax (ptr s n) (WL s n + WP s n) off s = Some s' \<and> later X s s'
    \<and> expanding d X (insert (n, At (col n + fst off) (line n + snd off)) R) Q' n s'"
proof -
  define v where "v = At (col n + fst off) (line n + snd off)"
  have inv: "search_inv d X R Q s" and nX: "n \<in> X" using E by (simp_all add: expanding_def)
  note I = search_invD [OF inv]
  have vn: "visible s n" using I(4) nX by auto
  note A = offsets_adj [OF vn off v_def]
  let ?len = "WL s n + step_cost s n v"
  have nx: "v \<notin> X" if "?len < WL s v" "visible s v" by (rule lower_not_expanded [OF E that(2) A(1) that(1)])
  obtain s' Q' h where r: "relax (ptr s n) (WL s n + WP s n) off s = Some s'" "queue s' Q'"
    "if ?len < WL s v then changed s v ?len h (Some (ptr s n)) s'
         \<and> (if v \<noteq> origin \<and> WP s v \<noteq> - 1
            then h = ?len + WP s v + MinWaypoints s * (\<bar>col v\<bar> + \<bar>line v\<bar> - 1) \<and> Q' = place (HV s') v (remove1 v Q)
            else h = HV s v \<and> Q' = Q)
       else s' = s \<and> Q' = Q" using relax_effect [OF inv nX off v_def nx] by blast
  show ?thesis
  proof (cases "?len < WL s v")
    case False
    have "search_inv d X (insert (n, v) R) Q s" using inv False nX by (simp add: search_inv_def)
    then have "expanding d X (insert (n, v) R) Q n s" using E by (simp add: expanding_def)
    then show ?thesis using r(1,3) False unfolding v_def by (intro exI [of _ s] exI [of _ Q]) simp
  next
    case less: True
    then have ch: "changed s v ?len h (Some (ptr s n)) s'" and Q': "if v \<noteq> origin \<and> WP s v \<noteq> - 1
            then h = ?len + WP s v + MinWaypoints s * (\<bar>col v\<bar> + \<bar>line v\<bar> - 1) \<and> Q' = place (HV s') v (remove1 v Q)
            else h = HV s v \<and> Q' = Q" using r(3) unfolding if_P [OF less] by blast+
    note C = changedD [OF ch]
    have lt: "later X s s'"
    proof -
      have "WL s' u = WL s u" if "u \<in> X" for u
      proof -
        have u: "visible s u" using that I(4) by auto
        then have "u \<noteq> v" using nx [OF less] that by blast
        then show ?thesis using C(3) [OF visible_framed [OF u]] by simp
      qed
      then show ?thesis using C(1-3,6) visible_framed less by (auto simp: later_def)
    qed
    have "expanding d X (insert (n, v) R) Q' n s'"
    proof (cases "visible s v")
      case True
      show ?thesis by (rule relax_keeps [OF E True A(1) less ch r(2) Q'])
    next
      case False
      then have q: "Q' = Q" using Q' I(1) A(2) by (auto simp: filled_def)
      have vw: "view (pt s' u) = view (pt s u)" if "visible s u" for u
        using ch that False visible_framed [OF that] by (auto simp: changed_def)
      have "search_inv d X R Q s'"
        by (rule search_inv_cong [OF inv C(1) changed_filled [OF I(1) ch]]) (use r(2) q vw in auto)
      moreover have "\<not> visible s' v" using meta_cong(2) [OF C(1)] False by simp
      ultimately have "search_inv d X (insert (n, v) R) Q' s'" using q nX by (simp add: search_inv_def)
      moreover have "HV s' u = HV s u" "WL s' u = WL s u" if "u \<in> X \<or> u \<in> set Q" for u
        using viewD(4,5) [OF vw, of u] that I(4,5) by auto
      ultimately show ?thesis using E q nX by (auto simp: expanding_def)
    qed
    then show ?thesis using r(1) lt unfolding v_def by blast
  qed
qed

lemma relax_all_ok:
  assumes "expanding d X R Q n s" "set offs \<subseteq> set offsets8" "p = ptr s n" "m = WL s n + WP s n"
  shows "\<exists>s' Q'. relax_all p m offs s = Some s' \<and> later X s s'
    \<and> expanding d X (R \<union> (\<lambda>off. (n, At (col n + fst off) (line n + snd off))) ` set offs) Q' n s'"
  using assms
proof (induction offs arbitrary: s R Q)
  case Nil
  then show ?case by auto
next
  case (Cons off offs)
  let ?R = "insert (n, At (col n + fst off) (line n + snd off)) R"
  have "off \<in> set offsets8" using Cons.prems(2) by simp
  from relax_ok [OF Cons.prems(1) this] obtain s1 Q1 where s1: "relax p m off s = Some s1" "later X s s1" "expanding d X ?R Q1 n s1"
    unfolding Cons.prems(3,4) by blast
  have "n \<in> X" "visible s n" using Cons.prems(1) search_invD(4) [of d X R Q s] by (auto simp: expanding_def)
  then have e: "p = ptr s1 n" "m = WL s1 n + WP s1 n"
    using s1(2) Cons.prems(3,4) meta_cong(5) [of s1 s] visible_framed by (auto simp: later_def)
  have sub: "set offs \<subseteq> set offsets8" using Cons.prems(2) by simp
  obtain s' Q' where s': "relax_all p m offs s1 = Some s'" "later X s1 s'"
    "expanding d X (?R \<union> (\<lambda>off. (n, At (col n + fst off) (line n + snd off))) ` set offs) Q' n s'"
    using Cons.IH [OF s1(3) sub e] by blast
  have "?R \<union> (\<lambda>off. (n, At (col n + fst off) (line n + snd off))) ` set offs = R \<union> (\<lambda>off. (n, At (col n + fst off) (line n + snd off))) ` set (off # offs)" by auto
  then show ?case using s1(1) s'(1,3) later_trans [OF s1(2) s'(2)] by (intro exI [of _ s'] exI [of _ Q']) simp
qed

section \<open>The whole search\<close>

text \<open>Between two expansions: an expanded field has been tried in all directions, unless it cannot shorten the way.\<close>

definition frontier :: "node \<Rightarrow> node set \<Rightarrow> (node \<times> node) set \<Rightarrow> node list \<Rightarrow> TShortway \<Rightarrow> bool" where
  "frontier d X R Q s \<longleftrightarrow> search_inv d X R Q s \<and> (\<forall>x\<in>X - {d}. \<forall>q\<in>set Q. HV s x \<le> HV s q)
     \<and> (\<forall>e\<in>X. e \<noteq> d \<and> WL s origin \<le> WL s e + WP s e \<or> (\<forall>v. adj e v \<longrightarrow> (e, v) \<in> R))"

lemma expand_popped:
  assumes E: "expanding d X R Q n s1" and s1: "s1 = s\<lparr>FirstToExpand := NextToExpand (pt s n)\<rparr>" and g: "grid s"
    and pr: "\<forall>e\<in>X - {n}. e \<noteq> d \<and> WL s1 origin \<le> WL s1 e + WP s1 e \<or> (\<forall>v. adj e v \<longrightarrow> (e, v) \<in> R)"
    and nd: "n = d \<Longrightarrow> WL s1 n + WP s1 n < WL s1 origin"
  shows "\<exists>s' R' Q'. Expand (ptr s n) s = Some s' \<and> later X s s' \<and> frontier d X R' Q' s'"
proof -
  have inv: "search_inv d X R Q s1" and nX: "n \<in> X" using E by (simp_all add: expanding_def)
  note I = search_invD [OF inv]
  have m: "meta s1 = meta s" and p: "pt s1 = pt s" "ptr s1 = ptr s" using s1 by simp_all
  have vn: "visible s n" "framed s n" using I(4) nX meta_cong(2) [OF m] visible_framed by auto
  have o: "visible s1 origin" using I(2) by (simp add: visible_def grid_def)
  have go: "pget s1 (point_at s1 0 0) = Some (pt s1 origin)"
    using pget_pt [OF I(2), of origin] o visible_framed by (simp add: ptr_def)
  have eq: "Expand (ptr s n) s = (if WL s1 origin \<le> WL s1 n + WP s1 n then Some s1 else relax_all (ptr s1 n) (WL s1 n + WP s1 n) offsets8 s1)"
    using pget_pt [OF g vn(2)] go unfolding p unfolding s1 by (simp add: Expand_def)
  have ls: "later X s s' \<longleftrightarrow> later X s1 s'" for s' using s1 meta_cong(2,3) [OF m] by (simp add: later_def)
  have ord: "frontier d X R' Q' s'" if "expanding d X R' Q' n s'" "\<forall>e\<in>X. e \<noteq> d \<and> WL s' origin \<le> WL s' e + WP s' e \<or> (\<forall>v. adj e v \<longrightarrow> (e, v) \<in> R')" for R' Q' s'
  proof -
    have "HV s' x \<le> HV s' q" if x: "x \<in> X - {d}" "q \<in> set Q'" for x q
    proof (cases "n = d")
      case True
      then show ?thesis using x(1) \<open>expanding d X R' Q' n s'\<close> by (auto simp: expanding_def)
    next
      case False
      then have "HV s' x \<le> HV s' n" "HV s' n \<le> HV s' q" using x \<open>expanding d X R' Q' n s'\<close> by (auto simp: expanding_def)
      then show ?thesis by simp
    qed
    then show ?thesis using that by (auto simp: frontier_def expanding_def)
  qed
  show ?thesis
  proof (cases "WL s1 origin \<le> WL s1 n + WP s1 n")
    case True
    then have "frontier d X R Q s1" using pr nd by (intro ord [OF E]) auto
    then show ?thesis using eq True ls by (intro exI [of _ s1] exI [of _ R] exI [of _ Q]) simp
  next
    case False
    let ?R = "R \<union> (\<lambda>off. (n, At (col n + fst off) (line n + snd off))) ` set offsets8"
    obtain s' Q' where s': "relax_all (ptr s1 n) (WL s1 n + WP s1 n) offsets8 s1 = Some s'" "later X s1 s'" "expanding d X ?R Q' n s'"
      using relax_all_ok [OF E subset_refl refl refl] by blast
    have nR: "(n, v) \<in> ?R" if "adj n v" for v using adj_offset [OF that] by auto
    have wo: "WL s' origin \<le> WL s1 origin" using s'(2) o by (simp add: later_def)
    have we: "WL s' e + WP s' e = WL s1 e + WP s1 e" if "e \<in> X" for e
      using s'(2) that I(4) visible_framed by (auto simp: later_def)
    have "e \<noteq> d \<and> WL s' origin \<le> WL s' e + WP s' e \<or> (\<forall>v. adj e v \<longrightarrow> (e, v) \<in> ?R)" if e: "e \<in> X" for e
    proof (cases "e = n")
      case False
      then have "e \<noteq> d \<and> WL s1 origin \<le> WL s1 e + WP s1 e \<or> (\<forall>v. adj e v \<longrightarrow> (e, v) \<in> R)" using pr e by simp
      then show ?thesis using wo we [OF e] by (elim disjE) (simp, blast)
    qed (use nR in blast)
    then have "\<forall>e\<in>X. e \<noteq> d \<and> WL s' origin \<le> WL s' e + WP s' e \<or> (\<forall>v. adj e v \<longrightarrow> (e, v) \<in> ?R)" by blast
    then show ?thesis using eq False s' ls ord [OF s'(3)] by auto
  qed
qed

lemma expand_frontier:
  assumes F: "frontier d X R (n # Q) s"
  shows "\<exists>s' R' Q'. Expand (ptr s n) s = Some s' \<and> later (insert n X) s s' \<and> frontier d (insert n X) R' Q' s'"
proof -
  have inv: "search_inv d X R (n # Q) s" using F by (simp add: frontier_def)
  note I = search_invD [OF inv]
  let ?s = "s\<lparr>FirstToExpand := NextToExpand (pt s n)\<rparr>"
  have nX: "n \<notin> X" "n \<noteq> d" "visible s n" using I(5-7) by auto
  have q: "queue ?s Q" "distinct (n # Q)" using queue_pop [OF I(2,3)] I(3) by (auto simp: queue_def)
  have fX: "finite X" by (rule finite_subset [OF _ finite_visible(1) [of s]]) (use I(4) in auto)
  have m: "meta ?s = meta s" by simp
  note mc = meta_cong [OF m]
  have fl: "filled ?s" using I(1) mc by (simp add: filled_def meta_def)
  have bo: "bound_of ?s = bound_of s" "step_cost ?s = step_cost s" by (simp_all add: bound_of_def step_cost_def fun_eq_iff)
  have wl: "WL s n \<le> 3000 * int (card X)" using I(20) [OF nX(3)] I(9) [of n] by simp
  have cX: "3000 * int (card X) \<le> 3000 * int (card (insert n X))" using card_mono [of "insert n X" X] fX by auto
  have "search_inv d (insert n X) R Q ?s" unfolding search_inv_def pt_simps bo mc(2,5)
  proof (intro conjI)
    show "\<forall>v\<in>V s. WL s v \<le> INT_MAX \<and> (WL s v \<noteq> INT_MAX \<longrightarrow> - 3 \<le> WL s v \<and> WL s v \<le> 3000 * int (card (insert n X)))"
    proof
      fix v assume "v \<in> V s"
      then show "WL s v \<le> INT_MAX \<and> (WL s v \<noteq> INT_MAX \<longrightarrow> - 3 \<le> WL s v \<and> WL s v \<le> 3000 * int (card (insert n X)))"
        using I(18-20) [of v] order_trans [OF _ cX, of "WL s v"] by blast
    qed
    show "\<forall>v\<in>V s. v \<noteq> d \<and> WL s v \<noteq> INT_MAX \<longrightarrow>
      (\<exists>e\<in>insert n X. Predecessor (pt s v) = Some (ptr s e) \<and> adj e v \<and> WL s v = WL s e + step_cost s e v)" using I(16) by blast
    show "\<forall>(e, v)\<in>R. e \<in> insert n X \<and> (visible s v \<longrightarrow> WL s v \<le> WL s e + step_cost s e v)" using I(17,21) by blast
    show "\<forall>v\<in>V s. v \<noteq> origin \<and> WP s v \<noteq> - 1 \<and> WL s v \<noteq> INT_MAX \<longrightarrow> v \<in> insert n X \<union> set Q" using I(8) by auto
    show "\<forall>v\<in>insert n X \<union> set Q. WL s v \<noteq> INT_MAX \<and> (v = d \<or> WP s v \<noteq> - 1)" using I(9,10) by auto
    show "\<forall>v\<in>V s. (HV s v \<noteq> INT_MAX) = (v \<in> insert n X \<union> set Q - {d})" using I(11) by auto
    show "\<forall>v\<in>insert n X \<union> set Q - {d}. HV s v = bound_of s v" using I(12) by auto
    show "queue ?s Q" "filled ?s" "WL s d = 0" "Predecessor (pt s d) = None" by (rule q(1) fl I(14,15))+
    show "insert n X \<subseteq> V s - {origin}" "set Q \<subseteq> V s - {origin}" "insert n X \<inter> set Q = {}" "d \<in> insert n X" "sorted (map (HV s) Q)"
      using I(4-7,13) q(2) by auto
  qed
  moreover have "HV s x \<le> HV s n" if "x \<in> X" "x \<noteq> d" for x using F that by (simp add: frontier_def)
  moreover have "HV s n \<le> HV s q" if "q \<in> set Q" for q using I(13) that by simp
  ultimately have E: "expanding d (insert n X) R Q n ?s" using nX fX wl by (auto simp: expanding_def card_insert_if)
  show ?thesis by (rule expand_popped [OF E refl I(2)]) (use F nX in \<open>auto simp: frontier_def\<close>)
qed

text \<open>The search ends: every field is expanded at most once.\<close>

lemma expand_all_ok:
  assumes "frontier d X R Q s"
  shows "\<exists>s' X' R'. expand_all s = Some s' \<and> later {} s s' \<and> frontier d X' R' [] s'"
  using assms
proof (induction "card (V s - X)" arbitrary: X R Q s rule: less_induct)
  case less
  have inv: "search_inv d X R Q s" using less.prems by (simp add: frontier_def)
  note I = search_invD [OF inv]
  show ?case
  proof (cases Q)
    case Nil
    then have "expand_all s = Some s" using I(3) by (subst expand_all.simps) (simp add: queue_def)
    then show ?thesis using less.prems Nil by (intro exI [of _ s] exI [of _ X] exI [of _ R]) simp
  next
    case (Cons n Q1)
    obtain s1 R1 Q2 where s1: "Expand (ptr s n) s = Some s1" "later (insert n X) s s1" "frontier d (insert n X) R1 Q2 s1"
      using expand_frontier [OF less.prems [unfolded Cons]] by blast
    have "FirstToExpand s = Some (ptr s n)" using I(3) Cons by (simp add: queue_def)
    then have e: "expand_all s = expand_all s1" using s1(1) by (subst expand_all.simps) simp
    have m: "meta s1 = meta s" using s1(2) by (simp add: later_def)
    have "n \<in> V s - X" using I(5,6) Cons by auto
    moreover have "V s1 - insert n X = V s - X - {n}" using meta_cong(2) [OF m] by auto
    ultimately have "card (V s1 - insert n X) < card (V s - X)" using card_Diff1_less [of "V s - X" n] finite_visible(1) [of s] by simp
    then obtain s' X' R' where s': "expand_all s1 = Some s'" "later {} s1 s'" "frontier d X' R' [] s'" using less.hyps [OF _ s1(3)] by blast
    have "later {} s s1" using s1(2) by (simp add: later_def)
    then show ?thesis using e s'(1,3) later_trans [OF _ s'(2)] by auto
  qed
qed

end
