(* ===== verification/Shortway_Ways.thy ===== *)
theory Shortway_Ways
  imports Shortway_Search
begin

text \<open>
  The search gives the cost of a cheapest way, and the predecessors of the points are such a way.
\<close>

section \<open>Ways\<close>

text \<open>
  A way from \<open>v\<close> to \<open>d\<close> lists the fields that are stepped on. It does not come back to the creature, and a blocked destination may
  only be its end.
\<close>

fun is_way :: "TShortway \<Rightarrow> node \<Rightarrow> node \<Rightarrow> node list \<Rightarrow> bool" where
  "is_way s d v [] \<longleftrightarrow> v = d"
| "is_way s d v (u # us) \<longleftrightarrow> visible s u \<and> adj u v
     \<and> (if u = d then us = [] else u \<noteq> origin \<and> WP s u \<noteq> - 1 \<and> is_way s d u us)"

fun way_cost :: "TShortway \<Rightarrow> node \<Rightarrow> node list \<Rightarrow> int" where
  "way_cost s v [] = 0"
| "way_cost s v (u # us) = step_cost s u v + way_cost s u us"

text \<open>After the search: the way length of the creature is below the cost of every way.\<close>

lemma searchedD:
  assumes "frontier d X R [] s" "visible s u" "u \<noteq> origin" "WP s u \<noteq> - 1 \<or> u = d" "WL s u \<noteq> INT_MAX"
  shows "u \<in> X" "u \<noteq> d \<and> WL s origin \<le> WL s u + WP s u \<or> (\<forall>v. adj u v \<longrightarrow> visible s v \<longrightarrow> WL s v \<le> WL s u + step_cost s u v)"
proof -
  have inv: "search_inv d X R [] s" using assms(1) by (simp add: frontier_def)
  note I = search_invD [OF inv]
  show u: "u \<in> X" using I(7) I(8) [OF assms(2,3)] assms(4,5) by auto
  show "u \<noteq> d \<and> WL s origin \<le> WL s u + WP s u \<or> (\<forall>v. adj u v \<longrightarrow> visible s v \<longrightarrow> WL s v \<le> WL s u + step_cost s u v)"
    using assms(1) u I(17) [of u] unfolding frontier_def by blast
qed

lemma searched_lower:
  assumes F: "frontier d X R [] s" and d: "d \<noteq> origin" and v: "visible s v" "is_way s d v us"
  shows "WL s v \<le> way_cost s v us \<or> WL s origin \<le> way_cost s v us"
  using v
proof (induction us arbitrary: v)
  case Nil
  then show ?case using F by (simp add: frontier_def search_inv_def)
next
  case (Cons u us)
  have inv: "search_inv d X R [] s" using F by (simp add: frontier_def)
  note I = search_invD [OF inv]
  have u: "visible s u" "adj u v" using Cons.prems(2) by auto
  show ?case
  proof (cases "u = d")
    case True
    have "WL s v \<le> WL s d + step_cost s d v" using searchedD(2) [OF F, of d] u True d I(14) Cons.prems(1) by auto
    then show ?thesis using True Cons.prems(2) I(14) by simp
  next
    case False
    then have w: "u \<noteq> origin" "WP s u \<noteq> - 1" "is_way s d u us" using Cons.prems(2) by auto
    note B = step_cost_bounds(3,4) [OF I(1) u(1) w(2), of v]
    show ?thesis
    proof (cases "WL s origin \<le> way_cost s u us")
      case True
      then show ?thesis using B(1) by simp
    next
      case nc: False
      then have le: "WL s u \<le> way_cost s u us" using Cons.IH [OF u(1) w(3)] by simp
      show ?thesis
      proof (cases "WL s u = INT_MAX")
        case True
        then show ?thesis using le B(1) I(18) [OF Cons.prems(1)] by simp
      next
        case False
        then show ?thesis using searchedD(2) [OF F u(1) w(1)] w(2) u(2) Cons.prems(1) le B(2) by fastforce
      qed
    qed
  qed
qed

lemma searched_reached:
  assumes F: "frontier d X R [] s" and d: "d \<noteq> origin" and o: "WL s origin = INT_MAX" and v: "visible s v" "is_way s d v us"
  shows "WL s v \<noteq> INT_MAX"
  using v
proof (induction us arbitrary: v)
  case Nil
  then show ?case using F by (simp add: frontier_def search_inv_def)
next
  case (Cons u us)
  have inv: "search_inv d X R [] s" using F by (simp add: frontier_def)
  note I = search_invD [OF inv]
  have u: "visible s u" "adj u v" using Cons.prems(2) by auto
  have fin: "WL s u \<noteq> INT_MAX" "u \<noteq> origin" "WP s u \<noteq> - 1 \<or> u = d"
    using Cons u d I(14) by (auto split: if_splits)
  have "card X \<le> card (V s)" by (rule card_mono [OF finite_visible(1)]) (use I(4) in auto)
  also have "\<dots> \<le> 40401" by (rule finite_visible(2)) (use I(1) in \<open>auto simp: filled_def\<close>)
  finally have b: "WL s u \<le> 121203000" using I(20) [OF u(1) fin(1)] by simp
  have "WP s u \<le> 1000" using I(1) u(1) by (auto simp: filled_def)
  then have "\<not> WL s origin \<le> WL s u + WP s u" using b o by simp
  then have "WL s v \<le> WL s u + step_cost s u v" using searchedD(2) [OF F u(1) fin(2,3,1)] u(2) Cons.prems(1) by blast
  then show ?case using b step_cost_bounds(2) [OF I(1) u(1), of v] by linarith
qed

text \<open>The predecessors give a way of this cost.\<close>

fun pred_chain :: "TShortway \<Rightarrow> node \<Rightarrow> node list \<Rightarrow> bool" where
  "pred_chain s v [] \<longleftrightarrow> Predecessor (pt s v) = None"
| "pred_chain s v (u # us) \<longleftrightarrow> Predecessor (pt s v) = Some (ptr s u) \<and> pred_chain s u us"

lemma searched_way:
  assumes inv: "search_inv d X R Q s" and v: "visible s v" "WL s v \<noteq> INT_MAX"
  shows "\<exists>us. is_way s d v us \<and> way_cost s v us = WL s v \<and> pred_chain s v us"
  using v
proof (induction "nat (WL s v + 4)" arbitrary: v rule: less_induct)
  case less
  note I = search_invD [OF inv]
  show ?case
  proof (cases "v = d")
    case True
    then show ?thesis using I(14,15) by (intro exI [of _ "[]"]) simp
  next
    case False
    then obtain e where e: "e \<in> X" "Predecessor (pt s v) = Some (ptr s e)" "adj e v" "WL s v = WL s e + step_cost s e v"
      using I(16) less.prems by blast
    have ev: "visible s e" "e \<noteq> origin" using e(1) I(4) by auto
    show ?thesis
    proof (cases "e = d")
      case True
      then show ?thesis using e ev I(14,15) by (intro exI [of _ "[d]"]) simp
    next
      case ne: False
      then have w: "WP s e \<noteq> - 1" "WL s e \<noteq> INT_MAX" using I(9,10) [of e] e(1) by simp_all
      have "3 \<le> step_cost s e v" "- 3 \<le> WL s e" using step_cost_bounds(3) [OF I(1) ev(1) w(1)] I(19) [OF ev(1) w(2)] by auto
      then have "nat (WL s e + 4) < nat (WL s v + 4)" using e(4) by simp
      then obtain us where "is_way s d e us" "way_cost s e us = WL s e" "pred_chain s e us" using less.hyps ev(1) w(2) by blast
      then show ?thesis using e ev ne w(1) by (intro exI [of _ "e # us"]) simp
    qed
  qed
qed

section \<open>The start of the search\<close>

lemma clear_points_ok:
  assumes "grid s" "\<forall>(X, Y)\<in>set vs. framed s (At X Y)"
  shows "\<exists>s'. clear_points vs s = Some s' \<and> meta s' = meta s \<and> serrors s' = serrors s
    \<and> (\<forall>u. framed s u \<longrightarrow> pt s' u = (if (col u, line u) \<in> set vs
        then (pt s u)\<lparr>Waylength := INT_MAX, Heuristic := INT_MAX, Predecessor := None, NextToExpand := None\<rparr> else pt s u))"
  using assms
proof (induction vs arbitrary: s)
  case (Cons p vs)
  obtain X Y where p: "p = (X, Y)" by (cases p)
  let ?f = "\<lambda>q. q\<lparr>Waylength := INT_MAX, Heuristic := INT_MAX, Predecessor := None, NextToExpand := None\<rparr>"
  let ?s = "put_point (At X Y) ?f s"
  have f: "framed s (At X Y)" using Cons.prems(2) p by simp
  note m = meta_cong [of ?s s, simplified]
  obtain s' where s': "clear_points vs ?s = Some s'" "meta s' = meta s" "serrors s' = serrors s"
    "\<forall>u. framed s u \<longrightarrow> pt s' u = (if (col u, line u) \<in> set vs then ?f (pt ?s u) else pt ?s u)"
    using Cons.IH [of ?s] Cons.prems m(1,3) by auto
  have "pset (point_at s X Y) ?f s = Some ?s" using pset_put [OF Cons.prems(1) f, of ?f] by (simp add: ptr_def)
  moreover have "pt s' u = (if (col u, line u) \<in> set (p # vs) then ?f (pt s u) else pt s u)" if "framed s u" for u
    using s'(4) that pt_put [OF Cons.prems(1) f that, of ?f] p by (cases u) auto
  ultimately show ?case using s'(1-3) p by simp
qed simp

lemma visible_list: "(a, b) \<in> set (visible_list s) \<longleftrightarrow> visible s (At a b)"
proof -
  have "(a, b) \<in> set (visible_list s) \<longleftrightarrow> a \<in> {- VisibleX s..VisibleX s} \<and> b \<in> {- VisibleY s..VisibleY s}"
    by (auto simp: visible_list_def intro!: bexI [of _ a])
  then show ?thesis by (auto simp: visible_def)
qed

lemma clear_map_ok:
  assumes "filled s"
  shows "\<exists>s'. ClearMap s = Some s' \<and> meta s' = meta s \<and> serrors s' = serrors s \<and> filled s' \<and> (\<forall>u. framed s u \<longrightarrow> WP s' u = WP s u)
    \<and> (\<forall>u. visible s u \<longrightarrow> WL s' u = INT_MAX \<and> HV s' u = INT_MAX \<and> Predecessor (pt s' u) = None \<and> NextToExpand (pt s' u) = None)"
proof -
  have g: "grid s" using assms by (simp add: filled_def)
  have "\<forall>(X, Y)\<in>set (visible_list s). framed s (At X Y)" using visible_list visible_framed by blast
  then obtain s' where s': "ClearMap s = Some s'" "meta s' = meta s" "serrors s' = serrors s"
    "\<forall>u. framed s u \<longrightarrow> pt s' u = (if (col u, line u) \<in> set (visible_list s)
        then (pt s u)\<lparr>Waylength := INT_MAX, Heuristic := INT_MAX, Predecessor := None, NextToExpand := None\<rparr> else pt s u)"
    using clear_points_ok [OF g] unfolding ClearMap_def by blast
  note m = meta_cong [OF s'(2)]
  have p: "pt s' u = (if visible s u then (pt s u)\<lparr>Waylength := INT_MAX, Heuristic := INT_MAX, Predecessor := None, NextToExpand := None\<rparr> else pt s u)"
    if "framed s u" for u using s'(4) that visible_list [of "col u" "line u" s] by simp
  have "filled s'" using assms p m visible_framed s'(2) by (auto simp: filled_def meta_def)
  then show ?thesis using s'(1-3) p visible_framed by auto
qed

lemma search_start:
  assumes s: "filled s" "visible s d" "d \<noteq> origin"
    and c: "\<And>u. visible s u \<Longrightarrow> WL s u = INT_MAX \<and> HV s u = INT_MAX \<and> Predecessor (pt s u) = None \<and> NextToExpand (pt s u) = None"
    and s1: "s1 = put_point d (\<lambda>q. q\<lparr>Waylength := 0\<rparr>) (s\<lparr>FirstToExpand := Some (ptr s d)\<rparr>)"
  shows "\<exists>s' X R Q. Expand (ptr s d) s1 = Some s' \<and> later {} s1 s' \<and> frontier d X R Q s'"
proof -
  let ?f = "\<lambda>q. q\<lparr>Waylength := 0\<rparr>"
  have g: "grid s" using s(1) by (simp add: filled_def)
  note fd = visible_framed [OF s(2)]
  have m: "meta s1 = meta s" using s1 by simp
  note mc = meta_cong [OF m]
  let ?s0 = "s\<lparr>FirstToExpand := Some (ptr s d)\<rparr>"
  have m0: "grid ?s0" "framed ?s0 = framed s" using g meta_cong [of ?s0 s] by simp_all
  have p: "pt s1 u = (if u = d then ?f (pt s d) else pt s u)" if "framed s u" for u
    using pt_put [OF m0(1), of d u ?f] that fd m0(2) s1 by simp
  have ptr1: "ptr s1 = ptr s" using s1 by simp
  let ?s = "s1\<lparr>FirstToExpand := NextToExpand (pt s1 d)\<rparr>"
  have nd: "NextToExpand (pt s1 d) = None" using p [OF fd] c [OF s(2)] by simp
  have fl: "filled ?s" using s(1) p mc visible_framed m by (auto simp: filled_def meta_def meta_cong [of ?s s1, simplified])
  have v: "visible ?s = visible s" using mc(2) meta_cong(2) [of ?s s1] by simp
  have WL1: "WL ?s u = (if u = d then 0 else INT_MAX)" "HV ?s u = INT_MAX" "Predecessor (pt ?s u) = None" if "visible s u" for u
    using p [OF visible_framed [OF that]] c [OF that] c [OF s(2)] by auto
  have inv: "search_inv d {d} {} [] ?s"
    unfolding search_inv_def using fl v s(2,3) WL1 nd by (auto simp: queue_def)
  have o: "visible s origin" using g by (simp add: visible_def grid_def)
  have "WP s d \<le> 1000" using s(1,2) by (auto simp: filled_def)
  then have "WL ?s d + WP ?s d < WL ?s origin" using WL1(1) [OF o] WL1(1) [OF s(2)] s(3) p [OF fd] by auto
  moreover have E: "expanding d {d} {} [] d ?s" using inv WL1(1) [OF s(2)] by (simp add: expanding_def)
  ultimately obtain s' R' Q' where "Expand (ptr s1 d) s1 = Some s'" "later {d} s1 s'" "frontier d {d} R' Q' s'"
    using expand_popped [OF E refl] mc(1) g by auto
  then show ?thesis unfolding ptr1 by (intro exI [of _ s'] exI [of _ "{d}"] exI [of _ R'] exI [of _ Q']) (simp add: later_def)
qed

text \<open>The steps that are given to the creature: all of the way, or only until the destination is a neighbour.\<close>

definition span :: "node \<Rightarrow> node \<Rightarrow> int" where
  "span u v = max \<bar>col u - col v\<bar> \<bar>line u - line v\<bar>"

fun approach :: "node \<Rightarrow> bool \<Rightarrow> node \<Rightarrow> node list \<Rightarrow> node list" where
  "approach d MustReach v [] = []"
| "approach d MustReach v (u # us) = (if MustReach \<or> span v d > 1 then u # approach d MustReach u us else [])"

definition on_map_at :: "TShortway \<Rightarrow> node \<Rightarrow> int \<times> int \<times> int" where
  "on_map_at s u = (StartX s + col u, StartY s + line u, StartZ s)"

lemma walk_back_ok:
  assumes "filled s" "pred_chain s v us" "\<forall>u\<in>set us. visible s u"
  shows "walk_back s (col d) (line d) MustReach (Predecessor (pt s v)) k (span v d) = Some (map (on_map_at s) (take (nat k) (approach d MustReach v us)))"
  using assms(2,3)
proof (induction us arbitrary: v k)
  case Nil
  then show ?case by (simp add: walk_back.simps)
next
  case (Cons u us)
  have g: "grid s" using assms(1) by (simp add: filled_def)
  have u: "visible s u" "pget s (ptr s u) = Some (pt s u)" using Cons.prems(2) pget_pt [OF g visible_framed] by auto
  have pu: "px (pt s u) = col u" "py (pt s u) = line u" using assms(1) u(1) by (auto simp: filled_def)
  have IH: "walk_back s (col d) (line d) MustReach (Predecessor (pt s u)) (k - 1) (max \<bar>col u - col d\<bar> \<bar>line u - line d\<bar>) =
    Some (map (on_map_at s) (take (nat (k - 1)) (approach d MustReach u us)))"
    using Cons.IH [of u "k - 1"] Cons.prems by (simp add: span_def)
  show ?case
  proof (cases "k > 0 \<and> (MustReach \<or> span v d > 1)")
    case True
    then have "nat k = Suc (nat (k - 1))" by linarith
    then show ?thesis using True Cons.prems(1) u(2) pu IH by (subst walk_back.simps) (simp add: on_map_at_def)
  next
    case False
    then show ?thesis using Cons.prems(1) by (subst walk_back.simps) auto
  qed
qed

lemma is_way_visible: "is_way s d v us \<Longrightarrow> u \<in> set us \<Longrightarrow> visible s u"
  by (induction us arbitrary: v) (auto split: if_splits)

lemma is_way_cong:
  assumes "meta s' = meta s" "\<And>u. framed s u \<Longrightarrow> WP s' u = WP s u"
  shows "is_way s' d v us = is_way s d v us" "is_way s d v us \<Longrightarrow> way_cost s' v us = way_cost s v us"
  using meta_cong(2) [OF assms(1)] assms(2) visible_framed
  by (induction us arbitrary: v) (auto simp: step_cost_def split: if_splits)

text \<open>The part of \<open>Calculate\<close> after the checks.\<close>

lemma calculate_search:
  assumes "filled s" "visible s d" "d \<noteq> origin"
  shows "\<exists>s' X R. Option.bind (ClearMap s) (\<lambda>s.
      Option.bind (pset (point_at s (col d) (line d)) (\<lambda>q. q\<lparr>Waylength := 0\<rparr>) (s\<lparr>FirstToExpand := Some (point_at s (col d) (line d))\<rparr>)) expand_all) = Some s'
    \<and> meta s' = meta s \<and> serrors s' = serrors s \<and> (\<forall>u. framed s u \<longrightarrow> WP s' u = WP s u) \<and> frontier d X R [] s'"
proof -
  let ?f = "\<lambda>q. q\<lparr>Waylength := 0\<rparr>"
  obtain s1 where s1: "ClearMap s = Some s1" "meta s1 = meta s" "serrors s1 = serrors s" "filled s1" "\<forall>u. framed s u \<longrightarrow> WP s1 u = WP s u"
    "\<forall>u. visible s u \<longrightarrow> WL s1 u = INT_MAX \<and> HV s1 u = INT_MAX \<and> Predecessor (pt s1 u) = None \<and> NextToExpand (pt s1 u) = None"
    using clear_map_ok [OF assms(1)] by blast
  note m1 = meta_cong [OF s1(2)]
  let ?s0 = "s1\<lparr>FirstToExpand := Some (ptr s1 d)\<rparr>"
  let ?s2 = "put_point d ?f ?s0"
  have v: "visible s1 d" using assms(2) m1(2) by simp
  have g: "grid ?s0" "framed ?s0 d" using s1(4) meta_cong [of ?s0 s1] visible_framed [OF v] by (simp_all add: filled_def)
  have ps: "pset (ptr s1 d) ?f ?s0 = Some ?s2" using pset_put [OF g, of ?f] by simp
  obtain s3 X R Q where s3: "Expand (ptr s1 d) ?s2 = Some s3" "later {} ?s2 s3" "frontier d X R Q s3"
    using search_start [OF s1(4) v assms(3) _ refl] s1(6) m1(2) by auto
  obtain s' X' R' where s': "expand_all s3 = Some s'" "later {} s3 s'" "frontier d X' R' [] s'" using expand_all_ok [OF s3(3)] by blast
  have "expand_all ?s2 = Some s'" using s3(1) s'(1) by (subst expand_all.simps) simp
  then have ex: "Option.bind (ClearMap s) (\<lambda>s.
      Option.bind (pset (point_at s (col d) (line d)) ?f (s\<lparr>FirstToExpand := Some (point_at s (col d) (line d))\<rparr>)) expand_all) = Some s'"
    using s1(1) ps by (simp add: ptr_def)
  have l: "later {} ?s2 s'" by (rule later_trans [OF s3(2) s'(2)])
  have wp: "WP s' u = WP s u" if "framed s u" for u
  proof -
    have "framed ?s2 u" "framed ?s0 u" using that m1(3) meta_cong(3) [of ?s2 s1] meta_cong(3) [of ?s0 s1] by simp_all
    then show ?thesis using l pt_put [OF g, of u ?f] s1(5) that by (auto simp: later_def)
  qed
  show ?thesis using ex l s1(2,3) wp s'(3) by (intro exI [of _ s'] exI [of _ X'] exI [of _ R'] conjI) (auto simp: later_def)
qed

lemma calculate_eq:
  assumes d: "d = At (DestX - StartX s) (DestY - StartY s)" "visible s d" "d \<noteq> origin"
    and b: "Option.bind (ClearMap s) (\<lambda>s.
      Option.bind (pset (point_at s (col d) (line d)) (\<lambda>q. q\<lparr>Waylength := 0\<rparr>) (s\<lparr>FirstToExpand := Some (point_at s (col d) (line d))\<rparr>)) expand_all) = Some s'"
    and o: "pget s' (point_at s' 0 0) = Some (pt s' origin)" "px (pt s' origin) = 0" "py (pt s' origin) = 0"
  shows "Calculate DestX DestY MustReach MaxSteps s = (if WL s' origin = INT_MAX then Some (False, [], s')
      else Option.bind (walk_back s' (col d) (line d) MustReach (Predecessor (pt s' origin)) MaxSteps (span origin d)) (\<lambda>gos. Some (True, gos, s')))"
proof -
  obtain s1 s2 where b: "ClearMap s = Some s1" "expand_all s2 = Some s'"
    "pset (point_at s1 (col d) (line d)) (\<lambda>q. q\<lparr>Waylength := 0\<rparr>) (s1\<lparr>FirstToExpand := Some (point_at s1 (col d) (line d))\<rparr>) = Some s2"
    using b by (auto simp: Option.bind_eq_Some_conv)
  have "\<not> (DestX - StartX s = 0 \<and> DestY - StartY s = 0)" using d(1,3) by auto
  moreover have "\<not> (\<bar>DestX - StartX s\<bar> > VisibleX s \<or> \<bar>DestY - StartY s\<bar> > VisibleY s)" using d(1,2) by (simp add: visible_def)
  ultimately show ?thesis using b o d(1) by (auto simp: Calculate_def span_def)
qed

lemma calculate_ok:
  assumes "filled s" "d = At (DestX - StartX s) (DestY - StartY s)" "visible s d" "d \<noteq> origin"
  shows "\<exists>r gos s'. Calculate DestX DestY MustReach MaxSteps s = Some (r, gos, s') \<and> serrors s' = serrors s
    \<and> (r \<longleftrightarrow> (\<exists>us. is_way s d origin us))
    \<and> (if r then \<exists>us. is_way s d origin us \<and> (\<forall>us2. is_way s d origin us2 \<longrightarrow> way_cost s origin us \<le> way_cost s origin us2)
          \<and> gos = map (on_map_at s) (take (nat MaxSteps) (approach d MustReach origin us))
       else gos = [])"
proof -
  obtain s' X R where s': "Option.bind (ClearMap s) (\<lambda>s.
      Option.bind (pset (point_at s (col d) (line d)) (\<lambda>q. q\<lparr>Waylength := 0\<rparr>) (s\<lparr>FirstToExpand := Some (point_at s (col d) (line d))\<rparr>)) expand_all) = Some s'"
    "meta s' = meta s" "serrors s' = serrors s" "\<forall>u. framed s u \<longrightarrow> WP s' u = WP s u" "frontier d X R [] s'"
    using calculate_search [OF assms(1,3,4)] by blast
  have inv: "search_inv d X R [] s'" using s'(5) by (simp add: frontier_def)
  note I = search_invD [OF inv] and m = meta_cong [OF s'(2)]
  have W: "is_way s' d v us = is_way s d v us" "is_way s d v us \<Longrightarrow> way_cost s' v us = way_cost s v us" for v us
    using is_way_cong [OF s'(2)] s'(4) by blast+
  have o: "visible s' origin" "pget s' (point_at s' 0 0) = Some (pt s' origin)"
    using I(2) pget_pt [OF I(2), of origin] visible_framed by (auto simp: visible_def grid_def ptr_def framed_def)
  have po: "px (pt s' origin) = 0" "py (pt s' origin) = 0" using I(1) o(1) by (auto simp: filled_def)
  have cal: "Calculate DestX DestY MustReach MaxSteps s = (if WL s' origin = INT_MAX then Some (False, [], s')
      else Option.bind (walk_back s' (col d) (line d) MustReach (Predecessor (pt s' origin)) MaxSteps (span origin d)) (\<lambda>gos. Some (True, gos, s')))"
    by (rule calculate_eq [OF assms(2-4) s'(1) o(2) po])
  show ?thesis
  proof (cases "WL s' origin = INT_MAX")
    case True
    then have "\<not> (\<exists>us. is_way s d origin us)" using searched_reached [OF s'(5) assms(4) True o(1)] W(1) by blast
    then show ?thesis using cal True s'(3) by (intro exI [of _ False] exI [of _ "[]"] exI [of _ s']) simp
  next
    case False
    then obtain us where us: "is_way s' d origin us" "way_cost s' origin us = WL s' origin" "pred_chain s' origin us"
      using searched_way [OF inv o(1)] by blast
    have "walk_back s' (col d) (line d) MustReach (Predecessor (pt s' origin)) MaxSteps (span origin d) =
      Some (map (on_map_at s') (take (nat MaxSteps) (approach d MustReach origin us)))"
      by (rule walk_back_ok [OF I(1) us(3)]) (use is_way_visible [OF us(1)] in blast)
    moreover have "on_map_at s' = on_map_at s" using m(7-9) by (simp add: on_map_at_def fun_eq_iff)
    moreover have "way_cost s origin us \<le> way_cost s origin us2" if "is_way s d origin us2" for us2
      using searched_lower [OF s'(5) assms(4) o(1)] that us(1,2) W by fastforce
    ultimately show ?thesis using cal False us(1) W(1) s'(3)
      by (intro exI [of _ True] exI [of _ "map (on_map_at s) (take (nat MaxSteps) (approach d MustReach origin us))"] exI [of _ s']) auto
  qed
qed

end
