(* ===== verification/Map_Field.thy ===== *)
theory Map_Field
  imports Object_World Matrix Vector
begin

text \<open>
  The fields of the map (\<open>game_data/map/map.cpp\<close>): sectors of 32 by 32 fields, each a container in the object store that keeps its own
  coordinates, its flags and the number of its house in the attributes that are not its content. A coordinate finds its field
  through the matrix of sectors; an object finds its coordinates by going outwards to its field. Depots, marks and
  start positions are tables read from the map configuration.

  The objects are those of \<open>Object_Store\<close>; \<open>None\<close> is undefined behaviour, as there.
\<close>

section \<open>Data\<close>

record Sector =
  MapCon :: "u32 list list"
  STimeStamp :: u32
  SStatus :: status
  MapFlags :: u8

record DepotInfo =
  Town :: cstring
  DSize :: int

record Mark =
  MName :: cstring
  markx :: int
  marky :: int
  markz :: int

text \<open>A sector that does not exist is a \<open>NULL\<close> pointer in the matrix.\<close>

record game_map =
  SectorXMin :: int
  SectorXMax :: int
  SectorYMin :: int
  SectorYMax :: int
  SectorZMin :: int
  SectorZMax :: int
  SectorMatrix :: "Sector option matrix3d"
  DepotInfoArray :: "DepotInfo vec"
  MarkArray :: "Mark vec"
  Marks :: int
  NewbieStart :: "int \<times> int \<times> int"
  VeteranStart :: "int \<times> int \<times> int"
  objs :: objects

text \<open>An operation on the objects.\<close>

definition on_objs :: "(objects \<Rightarrow> ('a \<times> objects) option) \<Rightarrow> game_map \<Rightarrow> ('a \<times> game_map) option" where
  "on_objs f w = do {(v, s) \<leftarrow> f (objs w); Some (v, w\<lparr>objs := s\<rparr>)}"

definition log_error :: "string \<Rightarrow> game_map \<Rightarrow> game_map" where
  "log_error text w = w\<lparr>objs := report text (objs w)\<rparr>"

section \<open>Sectors\<close>

text \<open>The pointer \<open>SectorMatrix->at(SectorX, SectorY, SectorZ)\<close>, as a position in the matrix.\<close>

definition sector_cell :: "game_map \<Rightarrow> int \<Rightarrow> int \<Rightarrow> int \<Rightarrow> int" where
  "sector_cell w SectorX SectorY SectorZ = fst (matrix3d_at (SectorMatrix w) SectorX SectorY SectorZ)"

definition set_sector :: "game_map \<Rightarrow> int \<Rightarrow> Sector \<Rightarrow> game_map option" where
  "set_sector w i sec = do {
     e \<leftarrow> arr_set (entry3 (SectorMatrix w)) i (Some sec);
     Some (w\<lparr>SectorMatrix := (SectorMatrix w)\<lparr>entry3 := e\<rparr>\<rparr>)}"

definition set_raw :: "env \<Rightarrow> u32 \<Rightarrow> nat \<Rightarrow> u32 \<Rightarrow> objects \<Rightarrow> objects option" where
  "set_raw E ob i v s = modify E ob (\<lambda>m. m\<lparr>Attributes := (Attributes m)[i := v]\<rparr>) s"

text \<open>The loops of \<open>init_sector\<close>: one row of fields, and all rows.\<close>

fun init_row :: "env \<Rightarrow> int \<Rightarrow> int \<Rightarrow> int \<Rightarrow> nat list \<Rightarrow> objects \<Rightarrow> (u32 list \<times> objects) option" where
  "init_row E x SectorY SectorZ [] s = Some ([], s)"
| "init_row E x SectorY SectorZ (Y # Ys) s = do {
     (MapCon, s) \<leftarrow> create_object E s;
     s \<leftarrow> set_raw E MapCon 1 (word_of_int x) s;
     s \<leftarrow> set_raw E MapCon 2 (word_of_int (SectorY * 32 + int Y)) s;
     s \<leftarrow> set_raw E MapCon 3 (word_of_int SectorZ) s;
     (row, s) \<leftarrow> init_row E x SectorY SectorZ Ys s;
     Some (MapCon # row, s)}"

fun init_rows :: "env \<Rightarrow> int \<Rightarrow> int \<Rightarrow> int \<Rightarrow> nat list \<Rightarrow> objects \<Rightarrow> (u32 list list \<times> objects) option" where
  "init_rows E SectorX SectorY SectorZ [] s = Some ([], s)"
| "init_rows E SectorX SectorY SectorZ (X # Xs) s = do {
     (row, s) \<leftarrow> init_row E (SectorX * 32 + int X) SectorY SectorZ [0..<32] s;
     (rows, s) \<leftarrow> init_rows E SectorX SectorY SectorZ Xs s;
     Some (row # rows, s)}"

definition init_sector :: "env \<Rightarrow> int \<Rightarrow> int \<Rightarrow> int \<Rightarrow> game_map \<Rightarrow> game_map option" where
  "init_sector E SectorX SectorY SectorZ w = do {
     c \<leftarrow> arr_get (entry3 (SectorMatrix w)) (sector_cell w SectorX SectorY SectorZ);
     case c of
       Some _ \<Rightarrow> Some (log_error ''init_sector: Sector already exists'' w)
     | None \<Rightarrow> do {
         (rows, w) \<leftarrow> on_objs (init_rows E SectorX SectorY SectorZ [0..<32]) w;
         set_sector w (sector_cell w SectorX SectorY SectorZ)
           \<lparr>MapCon = rows, STimeStamp = RoundNr E, SStatus = STATUS_LOADED, MapFlags = 0\<rparr>}}"

section \<open>From coordinates to fields\<close>

text \<open>\<open>get_map_container(x, y, z)\<close>.\<close>

definition get_map_container_at :: "env \<Rightarrow> int \<Rightarrow> int \<Rightarrow> int \<Rightarrow> game_map \<Rightarrow> (u32 \<times> game_map) option" where
  "get_map_container_at E x y z w =
     (let SectorX = x sdiv 32; SectorY = y sdiv 32; SectorZ = z
      in if SectorX < SectorXMin w \<or> SectorXMax w < SectorX \<or> SectorY < SectorYMin w \<or> SectorYMax w < SectorY
            \<or> SectorZ < SectorZMin w \<or> SectorZMax w < SectorZ
         then Some (0, w)
         else do {
           c \<leftarrow> arr_get (entry3 (SectorMatrix w)) (sector_cell w SectorX SectorY SectorZ);
           case c of
             None \<Rightarrow> Some (0, w)
           | Some sec \<Rightarrow> do {
               w \<leftarrow> set_sector w (sector_cell w SectorX SectorY SectorZ) (sec\<lparr>STimeStamp := RoundNr E\<rparr>);
               row \<leftarrow> arr_get (MapCon sec) (x smod 32);
               con \<leftarrow> arr_get row (y smod 32);
               Some (con, w)}})"

definition get_first_object :: "env \<Rightarrow> int \<Rightarrow> int \<Rightarrow> int \<Rightarrow> game_map \<Rightarrow> (u32 \<times> game_map) option" where
  "get_first_object E x y z w = do {
     (MapCon, w) \<leftarrow> get_map_container_at E x y z w;
     if MapCon \<noteq> 0 then on_objs (get_attribute E MapCon CONTENT) w else Some (0, w)}"

text \<open>The first object of a chain whose type satisfies a condition, or \<open>NONE\<close>.\<close>

partial_function (option) find_type_loop :: "env \<Rightarrow> (int \<Rightarrow> bool) \<Rightarrow> u32 \<Rightarrow> objects \<Rightarrow> (u32 \<times> objects) option" where
  "find_type_loop E P ob s =
     (if ob = 0 then Some (ob, s)
      else Option.bind (get_object_type E ob s) (\<lambda>(t, s).
        if P t then Some (ob, s)
        else Option.bind (get_next_object E ob s) (\<lambda>(n, s). find_type_loop E P n s)))"

declare find_type_loop.simps [code]

definition get_first_spec_object :: "env \<Rightarrow> int \<Rightarrow> int \<Rightarrow> int \<Rightarrow> int \<Rightarrow> game_map \<Rightarrow> (u32 \<times> game_map) option" where
  "get_first_spec_object E x y z Type w = do {
     (ob, w) \<leftarrow> get_first_object E x y z w;
     on_objs (find_type_loop E (\<lambda>t. t = Type) ob) w}"

definition coordinate_flag :: "env \<Rightarrow> int \<Rightarrow> int \<Rightarrow> int \<Rightarrow> int \<Rightarrow> game_map \<Rightarrow> (bool \<times> game_map) option" where
  "coordinate_flag E x y z Flag w = do {
     (ob, w) \<leftarrow> get_first_object E x y z w;
     (r, w) \<leftarrow> on_objs (find_type_loop E (\<lambda>t. get_flag (ObjectTypes E) t Flag) ob) w;
     Some (r \<noteq> 0, w)}"

definition get_map_container_flags :: "env \<Rightarrow> u32 \<Rightarrow> objects \<Rightarrow> (u8 \<times> objects) option" where
  "get_map_container_flags E ob s = do {
     (e, s) \<leftarrow> exists E ob s;
     (t, s) \<leftarrow> (if e then get_object_type E ob s else Some (- 1, s));
     if \<not> e \<or> \<not> is_map_container t then Some (0, report ''get_map_container_flags: Object is not a MapContainer'' s)
     else do {(m, s) \<leftarrow> fetch E ob s; v \<leftarrow> arr_get (Attributes m) 3; Some (ucast (drop_bit 8 v), s)}}"

partial_function (option) field_loop :: "env \<Rightarrow> u32 \<Rightarrow> objects \<Rightarrow> (u32 \<times> objects) option" where
  "field_loop E ob s = Option.bind (get_object_type E ob s) (\<lambda>(t, s).
     if is_map_container t then Some (ob, s)
     else Option.bind (get_container E ob s) (\<lambda>(c, s). field_loop E c s))"

declare field_loop.simps [code]

definition get_object_coordinates :: "env \<Rightarrow> u32 \<Rightarrow> objects \<Rightarrow> ((int \<times> int \<times> int) \<times> objects) option" where
  "get_object_coordinates E ob s = do {
     (e, s) \<leftarrow> exists E ob s;
     if \<not> e then Some ((0, 0, 0), report ''get_object_coordinates: Provided object does not exist'' s)
     else do {
       (ob, s) \<leftarrow> field_loop E ob s;
       (m, s) \<leftarrow> fetch E ob s;
       x \<leftarrow> arr_get (Attributes m) 1;
       (m, s) \<leftarrow> fetch E ob s;
       y \<leftarrow> arr_get (Attributes m) 2;
       (m, s) \<leftarrow> fetch E ob s;
       z \<leftarrow> arr_get (Attributes m) 3;
       Some ((sint x, sint y, uint (z AND 255)), s)}}"

section \<open>Properties of a field\<close>

definition is_on_map :: "int \<Rightarrow> int \<Rightarrow> int \<Rightarrow> game_map \<Rightarrow> bool" where
  "is_on_map x y z w \<longleftrightarrow> SectorXMin w \<le> x sdiv 32 \<and> x sdiv 32 \<le> SectorXMax w \<and> SectorYMin w \<le> y sdiv 32
     \<and> y sdiv 32 \<le> SectorYMax w \<and> SectorZMin w \<le> z \<and> z \<le> SectorZMax w"

definition is_premium_area :: "int \<Rightarrow> int \<Rightarrow> int \<Rightarrow> bool" where
  "is_premium_area x y z =
     (let SectorX = x sdiv 32; SectorY = y sdiv 32
      in if SectorX < 0x40C \<and> (SectorX < 0x408 \<or> SectorY > 0x3E6) \<and> (SectorX < 0x406 \<or> SectorY < 0x3F0)
            \<and> (SectorX < 0x405 \<or> SectorY < 0x3F1) \<and> (SectorX < 0x3FE \<or> SectorY < 0x3F6)
         then SectorY > 0x3F7 else True)"

definition field_flag :: "env \<Rightarrow> u8 \<Rightarrow> int \<Rightarrow> int \<Rightarrow> int \<Rightarrow> game_map \<Rightarrow> (bool \<times> game_map) option" where
  "field_flag E Mask x y z w = do {
     (Con, w) \<leftarrow> get_map_container_at E x y z w;
     if Con \<noteq> 0 then do {(f, w) \<leftarrow> on_objs (get_map_container_flags E Con) w; Some (f AND Mask \<noteq> 0, w)}
     else Some (False, w)}"

definition is_no_logout_field :: "env \<Rightarrow> int \<Rightarrow> int \<Rightarrow> int \<Rightarrow> game_map \<Rightarrow> (bool \<times> game_map) option" where
  "is_no_logout_field E = field_flag E 2"

definition is_protection_zone :: "env \<Rightarrow> int \<Rightarrow> int \<Rightarrow> int \<Rightarrow> game_map \<Rightarrow> (bool \<times> game_map) option" where
  "is_protection_zone E = field_flag E 4"

definition get_house_id :: "env \<Rightarrow> int \<Rightarrow> int \<Rightarrow> int \<Rightarrow> game_map \<Rightarrow> (u16 \<times> game_map) option" where
  "get_house_id E x y z w = do {
     (Con, w) \<leftarrow> get_map_container_at E x y z w;
     if Con = 0 then Some (0, w)
     else do {
       (e, w) \<leftarrow> on_objs (exists E Con) w;
       if \<not> e then Some (0, log_error ''get_house_id: Map container does not exist'' w)
       else do {
         (m, w) \<leftarrow> on_objs (fetch E Con) w;
         v \<leftarrow> arr_get (Attributes m) 3;
         Some (ucast (drop_bit 16 v), w)}}}"

definition is_house :: "env \<Rightarrow> int \<Rightarrow> int \<Rightarrow> int \<Rightarrow> game_map \<Rightarrow> (bool \<times> game_map) option" where
  "is_house E x y z w = do {(h, w) \<leftarrow> get_house_id E x y z w; Some (h \<noteq> 0, w)}"

definition set_house_id :: "env \<Rightarrow> int \<Rightarrow> int \<Rightarrow> int \<Rightarrow> u16 \<Rightarrow> game_map \<Rightarrow> game_map option" where
  "set_house_id E x y z ID w =
     (if \<not> is_on_map x y z w then Some w
      else do {
        (Con, w) \<leftarrow> get_map_container_at E x y z w;
        (e, w) \<leftarrow> (if Con = 0 then Some (False, w) else on_objs (exists E Con) w);
        if Con = 0 \<or> \<not> e then Some (log_error ''set_house_id: Map container does not exist'' w)
        else do {
          (m, w) \<leftarrow> on_objs (fetch E Con) w;
          v \<leftarrow> arr_get (Attributes m) 3;
          if (ucast (drop_bit 16 v) :: u16) \<noteq> 0 then Some (log_error ''set_house_id: Field already belongs to a house'' w)
          else do {
            (_, w) \<leftarrow> on_objs (\<lambda>s. do {s \<leftarrow> set_raw E Con 3 (v OR push_bit 16 (ucast ID)) s; Some ((), s)}) w;
            Some w}}})"

section \<open>Depots, marks and start positions\<close>

text \<open>The loop from \<open>DepotNumber\<close> on, for \<open>k\<close> numbers.\<close>

fun depot_loop :: "cstring \<Rightarrow> nat \<Rightarrow> int \<Rightarrow> DepotInfo vec \<Rightarrow> (int \<times> DepotInfo vec) option" where
  "depot_loop TownName 0 DepotNumber v = Some (- 1, v)"
| "depot_loop TownName (Suc k) DepotNumber v = do {
     v \<leftarrow> vector_at v DepotNumber;
     d \<leftarrow> vec_get v DepotNumber;
     if stricmp (Town d) TownName INT_MAX = 0 then Some (DepotNumber, v) else depot_loop TownName k (DepotNumber + 1) v}"

definition get_depot_number :: "cstring option \<Rightarrow> game_map \<Rightarrow> (int \<times> game_map) option" where
  "get_depot_number TownName w = (case TownName of
       None \<Rightarrow> Some (- 1, log_error ''get_depot_number: Town is NULL'' w)
     | Some t \<Rightarrow> do {
         (n, v) \<leftarrow> depot_loop t (nat (vmax (DepotInfoArray w) - vmin (DepotInfoArray w) + 1)) (vmin (DepotInfoArray w)) (DepotInfoArray w);
         Some (n, w\<lparr>DepotInfoArray := v\<rparr>)})"

definition depot_outside :: "int \<Rightarrow> game_map \<Rightarrow> bool" where
  "depot_outside DepotNumber w \<longleftrightarrow> DepotNumber < vmin (DepotInfoArray w) \<or> DepotNumber > vmax (DepotInfoArray w)"

definition get_depot_name :: "int \<Rightarrow> game_map \<Rightarrow> (cstring \<times> game_map) option" where
  "get_depot_name DepotNumber w =
     (if depot_outside DepotNumber w then Some (cstr ''unknown'', log_error ''get_depot_name: Invalid name for depot'' w)
      else do {
        v \<leftarrow> vector_at (DepotInfoArray w) DepotNumber;
        d \<leftarrow> vec_get v DepotNumber;
        Some (Town d, w\<lparr>DepotInfoArray := v\<rparr>)})"

definition get_depot_size :: "int \<Rightarrow> bool \<Rightarrow> game_map \<Rightarrow> (int \<times> game_map) option" where
  "get_depot_size DepotNumber PremiumAccount w =
     (if depot_outside DepotNumber w then Some (1, log_error ''get_depot_size: Invalid depot number'' w)
      else do {
        v \<leftarrow> vector_at (DepotInfoArray w) DepotNumber;
        d \<leftarrow> vec_get v DepotNumber;
        (d, w) \<leftarrow> Some (if DSize d < 1 then (d\<lparr>DSize := 1\<rparr>, log_error ''get_depot_size: Invalid depot size'' w) else (d, w));
        v \<leftarrow> vec_set v DepotNumber d;
        Some (if PremiumAccount then DSize d * 2 else DSize d, w\<lparr>DepotInfoArray := v\<rparr>)})"

fun mark_loop :: "cstring \<Rightarrow> nat \<Rightarrow> int \<Rightarrow> Mark vec \<Rightarrow> ((int \<times> int \<times> int) option \<times> Mark vec) option" where
  "mark_loop Name 0 i v = Some (None, v)"
| "mark_loop Name (Suc k) i v = do {
     v \<leftarrow> vector_at v i;
     mk \<leftarrow> vec_get v i;
     if stricmp (MName mk) Name INT_MAX = 0 then Some (Some (markx mk, marky mk, markz mk), v) else mark_loop Name k (i + 1) v}"

definition get_mark_position :: "cstring \<Rightarrow> game_map \<Rightarrow> ((int \<times> int \<times> int) option \<times> game_map) option" where
  "get_mark_position Name w = do {
     (r, v) \<leftarrow> mark_loop Name (nat (Marks w)) 0 (MarkArray w);
     Some (r, w\<lparr>MarkArray := v\<rparr>)}"

definition get_start_position :: "bool \<Rightarrow> game_map \<Rightarrow> int \<times> int \<times> int" where
  "get_start_position Newbie w = (if Newbie then NewbieStart w else VeteranStart w)"

section \<open>The invariant of the map\<close>

definition in_sectors :: "game_map \<Rightarrow> int \<Rightarrow> int \<Rightarrow> int \<Rightarrow> bool" where
  "in_sectors w sx sy sz \<longleftrightarrow> SectorXMin w \<le> sx \<and> sx \<le> SectorXMax w \<and> SectorYMin w \<le> sy \<and> sy \<le> SectorYMax w
     \<and> SectorZMin w \<le> sz \<and> sz \<le> SectorZMax w"

definition sector_at :: "game_map \<Rightarrow> int \<Rightarrow> int \<Rightarrow> int \<Rightarrow> Sector option" where
  "sector_at w sx sy sz = entry3 (SectorMatrix w) ! nat (sector_cell w sx sy sz)"

text \<open>The matrix has the sectors of the map, and all coordinates fit into the attributes of a field.\<close>

definition map_ok :: "game_map \<Rightarrow> bool" where
  "map_ok w \<longleftrightarrow> matrix3d_inv (SectorMatrix w) \<and>
     xmin3 (SectorMatrix w) = SectorXMin w \<and> dx3 (SectorMatrix w) = SectorXMax w - SectorXMin w + 1 \<and>
     ymin3 (SectorMatrix w) = SectorYMin w \<and> dy3 (SectorMatrix w) = SectorYMax w - SectorYMin w + 1 \<and>
     zmin3 (SectorMatrix w) = SectorZMin w \<and> dz3 (SectorMatrix w) = SectorZMax w - SectorZMin w + 1 \<and>
     0 \<le> SectorXMin w \<and> 0 \<le> SectorYMin w \<and> 0 \<le> SectorZMin w \<and>
     SectorXMax w < 2 ^ 26 \<and> SectorYMax w < 2 ^ 26 \<and> SectorZMax w < 2 ^ 8"

definition on_map :: "game_map \<Rightarrow> int \<Rightarrow> int \<Rightarrow> int \<Rightarrow> bool" where
  "on_map w x y z \<longleftrightarrow> 0 \<le> x \<and> 0 \<le> y \<and> in_sectors w (x div 32) (y div 32) z"

definition field_of :: "game_map \<Rightarrow> int \<Rightarrow> int \<Rightarrow> int \<Rightarrow> u32 option" where
  "field_of w x y z = map_option (\<lambda>sec. MapCon sec ! nat (x mod 32) ! nat (y mod 32)) (sector_at w (x div 32) (y div 32) z)"

text \<open>The object \<open>con\<close> is the field with these coordinates.\<close>

definition is_field :: "objects \<Rightarrow> u32 \<Rightarrow> int \<Rightarrow> int \<Rightarrow> int \<Rightarrow> bool" where
  "is_field s con x y z \<longleftrightarrow> (\<exists>m. obj s con = Some m \<and> OType m = TYPEID_MAP_CONTAINER \<and>
     Attributes m ! 1 = word_of_int x \<and> Attributes m ! 2 = word_of_int y \<and> Attributes m ! 3 AND 255 = word_of_int z)"

definition square :: "u32 list list \<Rightarrow> bool" where
  "square rows \<longleftrightarrow> length rows = 32 \<and> (\<forall>row\<in>set rows. length row = 32)"

definition fields_ok :: "game_map \<Rightarrow> bool" where
  "fields_ok w \<longleftrightarrow>
     (\<forall>sx sy sz sec. in_sectors w sx sy sz \<longrightarrow> sector_at w sx sy sz = Some sec \<longrightarrow> square (MapCon sec)) \<and>
     (\<forall>x y z con. on_map w x y z \<longrightarrow> field_of w x y z = Some con \<longrightarrow> is_field (objs w) con x y z)"

text \<open>Only fields have the type of a field; they are in no container.\<close>

definition fields_outside :: "objects \<Rightarrow> (u32 \<Rightarrow> u32 list) \<Rightarrow> bool" where
  "fields_outside s cs \<longleftrightarrow> (\<forall>c n m. n \<in> set (cs c) \<longrightarrow> obj s n = Some m \<longrightarrow> OType m \<noteq> TYPEID_MAP_CONTAINER)"

definition map_inv :: "env \<Rightarrow> game_map \<Rightarrow> addr list \<Rightarrow> (u32 \<Rightarrow> u32 list) \<Rightarrow> bool" where
  "map_inv E w fs cs \<longleftrightarrow> world_inv E (objs w) fs cs \<and> map_ok w \<and> fields_ok w \<and> fields_outside (objs w) cs"

lemma map_invD:
  assumes "map_inv E w fs cs"
  shows "world_inv E (objs w) fs cs" "map_ok w" "fields_ok w" "fields_outside (objs w) cs" "store_inv (objs w) fs" "tree_inv E (objs w) cs"
  using assms world_invD(1,2) by (auto simp: map_inv_def)

section \<open>The matrix of sectors\<close>

lemma in_sectors_matrix: "map_ok w \<Longrightarrow> in_sectors w sx sy sz \<longleftrightarrow> in_matrix3d (SectorMatrix w) sx sy sz"
  by (auto simp: map_ok_def in_sectors_def in_matrix3d_def)

lemma sector_cell_range:
  "map_ok w \<Longrightarrow> 0 \<le> sector_cell w sx sy sz \<and> sector_cell w sx sy sz < int (length (entry3 (SectorMatrix w)))"
  using matrix3d_cells [of "SectorMatrix w" sx sy sz sx sy sz] by (auto simp: sector_cell_def map_ok_def)

lemma sector_cell_inj:
  assumes "map_ok w" "in_sectors w sx sy sz" "in_sectors w ax ay az" "sector_cell w ax ay az = sector_cell w sx sy sz"
  shows "ax = sx" "ay = sy" "az = sz"
proof -
  have m: "in_matrix3d (SectorMatrix w) sx sy sz" "in_matrix3d (SectorMatrix w) ax ay az" using assms in_sectors_matrix by blast+
  then have "matrix3d_at (SectorMatrix w) ax ay az = matrix3d_at (SectorMatrix w) sx sy sz"
    using assms(4) by (simp add: sector_cell_def matrix3d_at_eq)
  then show "ax = sx" "ay = sy" "az = sz"
    using matrix3d_cells [of "SectorMatrix w" ax ay az sx sy sz] assms(1) m by (auto simp: map_ok_def)
qed

text \<open>Writing a sector.\<close>

definition with_sector :: "game_map \<Rightarrow> int \<Rightarrow> int \<Rightarrow> int \<Rightarrow> Sector \<Rightarrow> game_map" where
  "with_sector w sx sy sz sec = w\<lparr>SectorMatrix := (SectorMatrix w)\<lparr>entry3 := (entry3 (SectorMatrix w))[nat (sector_cell w sx sy sz) := Some sec]\<rparr>\<rparr>"

lemma matrix3d_at_entry [simp]: "matrix3d_at (m\<lparr>entry3 := e\<rparr>) x y z = matrix3d_at m x y z"
  by (simp add: matrix3d_at_def Let_def)

lemma with_sector_simps [simp]:
  "objs (with_sector w sx sy sz sec) = objs w" "SectorXMin (with_sector w sx sy sz sec) = SectorXMin w"
  "SectorXMax (with_sector w sx sy sz sec) = SectorXMax w" "SectorYMin (with_sector w sx sy sz sec) = SectorYMin w"
  "SectorYMax (with_sector w sx sy sz sec) = SectorYMax w" "SectorZMin (with_sector w sx sy sz sec) = SectorZMin w"
  "SectorZMax (with_sector w sx sy sz sec) = SectorZMax w"
  "in_sectors (with_sector w sx sy sz sec) = in_sectors w" "on_map (with_sector w sx sy sz sec) = on_map w"
  "sector_cell (with_sector w sx sy sz sec) = sector_cell w" "is_on_map x y z (with_sector w sx sy sz sec) = is_on_map x y z w"
  "map_ok (with_sector w sx sy sz sec) = map_ok w"
  by (simp_all add: with_sector_def in_sectors_def on_map_def fun_eq_iff sector_cell_def is_on_map_def map_ok_def
      matrix3d_inv_def)

lemma set_sector_eq: "map_ok w \<Longrightarrow> set_sector w (sector_cell w sx sy sz) sec = Some (with_sector w sx sy sz sec)"
  using sector_cell_range [of w sx sy sz] by (simp add: set_sector_def with_sector_def)

lemma sector_at_with:
  assumes "map_ok w" "in_sectors w sx sy sz" "in_sectors w ax ay az"
  shows "sector_at (with_sector w sx sy sz sec) ax ay az = (if (ax, ay, az) = (sx, sy, sz) then Some sec else sector_at w ax ay az)"
proof (cases "sector_cell w ax ay az = sector_cell w sx sy sz")
  case True
  then show ?thesis using sector_cell_inj [OF assms True] sector_cell_range [OF assms(1), of sx sy sz]
    by (simp add: sector_at_def) (simp add: with_sector_def nat_less_iff)
next
  case False
  then have "nat (sector_cell w ax ay az) \<noteq> nat (sector_cell w sx sy sz)"
    using sector_cell_range [OF assms(1), of ax ay az] sector_cell_range [OF assms(1), of sx sy sz] by linarith
  then show ?thesis using False by (auto simp: sector_at_def) (auto simp: with_sector_def)
qed

lemma objs_update_simps [simp]:
  "in_sectors (w\<lparr>objs := s\<rparr>) = in_sectors w" "on_map (w\<lparr>objs := s\<rparr>) = on_map w" "sector_cell (w\<lparr>objs := s\<rparr>) = sector_cell w"
  "sector_at (w\<lparr>objs := s\<rparr>) = sector_at w" "field_of (w\<lparr>objs := s\<rparr>) = field_of w" "map_ok (w\<lparr>objs := s\<rparr>) = map_ok w"
  "is_on_map x y z (w\<lparr>objs := s\<rparr>) = is_on_map x y z w"
  by (simp_all add: in_sectors_def on_map_def sector_cell_def sector_at_def field_of_def map_ok_def is_on_map_def fun_eq_iff)

text \<open>Reading a field touches the time stamp of its sector only.\<close>

definition touch :: "env \<Rightarrow> int \<Rightarrow> int \<Rightarrow> int \<Rightarrow> game_map \<Rightarrow> game_map" where
  "touch E x y z w = (case sector_at w (x div 32) (y div 32) z of None \<Rightarrow> w
     | Some sec \<Rightarrow> with_sector w (x div 32) (y div 32) z (sec\<lparr>STimeStamp := RoundNr E\<rparr>))"

lemma touch_simps [simp]:
  "objs (touch E x y z w) = objs w" "in_sectors (touch E x y z w) = in_sectors w" "on_map (touch E x y z w) = on_map w"
  "map_ok (touch E x y z w) = map_ok w" "is_on_map a b c (touch E x y z w) = is_on_map a b c w"
  by (simp_all add: touch_def split: option.splits)

lemma sector_at_touch:
  assumes "map_ok w" "on_map w x y z" "in_sectors w ax ay az"
  shows "map_option MapCon (sector_at (touch E x y z w) ax ay az) = map_option MapCon (sector_at w ax ay az)"
  using assms sector_at_with [of w "x div 32" "y div 32" z ax ay az] by (auto simp: touch_def on_map_def split: option.splits)

lemma field_of_con: "field_of w x y z = map_option (\<lambda>rows. rows ! nat (x mod 32) ! nat (y mod 32)) (map_option MapCon (sector_at w (x div 32) (y div 32) z))"
  by (simp add: field_of_def option.map_comp o_def)

lemma field_of_touch:
  assumes "map_ok w" "on_map w x y z" "on_map w a b c"
  shows "field_of (touch E x y z w) a b c = field_of w a b c"
  using sector_at_touch [OF assms(1,2), of "a div 32" "b div 32" c E] assms(3) by (simp only: field_of_con) (simp add: on_map_def)

lemma map_inv_touch:
  assumes "map_inv E w fs cs" "on_map w x y z"
  shows "map_inv E (touch E x y z w) fs cs"
proof -
  note I = map_invD [OF assms(1)]
  have "square (MapCon sec)" if "in_sectors w sx sy sz" "sector_at (touch E x y z w) sx sy sz = Some sec" for sx sy sz sec
    using sector_at_touch [OF I(2) assms(2) that(1), of E] that I(3) by (cases "sector_at w sx sy sz") (auto simp: fields_ok_def)
  moreover have "is_field (objs w) con a b c" if "on_map w a b c" "field_of (touch E x y z w) a b c = Some con" for a b c con
    using field_of_touch [OF I(2) assms(2) that(1)] that I(3) by (simp add: fields_ok_def)
  ultimately show ?thesis using I by (auto simp: map_inv_def fields_ok_def)
qed

text \<open>\<open>get_map_container(x, y, z)\<close> finds the field.\<close>

lemma get_map_container_at_ok:
  assumes "map_inv E w fs cs" "on_map w x y z"
  shows "get_map_container_at E x y z w = Some (case field_of w x y z of None \<Rightarrow> 0 | Some con \<Rightarrow> con, touch E x y z w)"
proof -
  note I = map_invD [OF assms(1)]
  have d: "x sdiv 32 = x div 32" "y sdiv 32 = y div 32" "x smod 32 = x mod 32" "y smod 32 = y mod 32"
    using assms(2) by (simp_all add: on_map_def range_simps)
  have r: "in_sectors w (x div 32) (y div 32) z" using assms(2) by (simp add: on_map_def)
  have g: "arr_get (entry3 (SectorMatrix w)) (sector_cell w (x div 32) (y div 32) z) = Some (sector_at w (x div 32) (y div 32) z)"
    using sector_cell_range [OF I(2)] by (simp add: sector_at_def)
  show ?thesis
  proof (cases "sector_at w (x div 32) (y div 32) z")
    case None
    then show ?thesis using g d r by (auto simp: get_map_container_at_def Let_def in_sectors_def field_of_def touch_def)
  next
    case (Some sec)
    then have q: "square (MapCon sec)" using I(3) r by (auto simp: fields_ok_def)
    have m: "0 \<le> x mod 32" "x mod 32 < 32" "0 \<le> y mod 32" "y mod 32 < 32" by simp_all
    then have "nat (x mod 32) < length (MapCon sec)" using q by (simp add: square_def nat_less_iff)
    then have "length (MapCon sec ! nat (x mod 32)) = 32" using q by (simp add: square_def)
    then have "arr_get (MapCon sec) (x mod 32) = Some (MapCon sec ! nat (x mod 32))"
      "arr_get (MapCon sec ! nat (x mod 32)) (y mod 32) = Some (MapCon sec ! nat (x mod 32) ! nat (y mod 32))"
      using m q by (simp_all add: square_def)
    then show ?thesis using Some g d r set_sector_eq [OF I(2)]
      by (auto simp: get_map_container_at_def Let_def in_sectors_def field_of_def touch_def)
  qed
qed

end
