(* ===== verification/Map_Claims.thy ===== *)
theory Map_Claims
  imports Map_Field Object_Claims
begin

text \<open>
  The fields of the map and their objects: creating a sector, the coordinates of every object on a field, houses, and moving an
  object to another field.
\<close>

section \<open>Attributes that are not in the table of a type\<close>

text \<open>
  A field has its content as its only named attribute, as the type file defines it; the other three words of its attributes
  are its coordinates, flags and house.
\<close>

definition field_type :: "env \<Rightarrow> bool" where
  "field_type E \<longleftrightarrow> (\<forall>a. has_attribute (ObjectTypes E) TYPEID_MAP_CONTAINER a \<longleftrightarrow> a = CONTENT)"

lemma field_type_flags:
  assumes "field_type E"
  shows "has_attribute (ObjectTypes E) 0 CONTENT" "\<not> get_flag (ObjectTypes E) 0 TEXT" "\<not> get_flag (ObjectTypes E) 0 EXPIRE"
proof -
  show "has_attribute (ObjectTypes E) 0 CONTENT" using assms by (simp add: field_type_def)
  show "\<not> get_flag (ObjectTypes E) 0 TEXT" using assms has_attribute_flags(4) [of "ObjectTypes E" 0] by (auto simp: field_type_def)
  have "has_attribute (ObjectTypes E) 0 15 \<longleftrightarrow> get_flag (ObjectTypes E) 0 EXPIRE"
    by (simp add: has_attribute_def has_instance_attribute_def get_flag_def InstanceAttributeFlags_def)
  then show "\<not> get_flag (ObjectTypes E) 0 EXPIRE" using assms by (auto simp: field_type_def)
qed

definition same_object :: "env \<Rightarrow> MapObject \<Rightarrow> MapObject \<Rightarrow> bool" where
  "same_object E m m' \<longleftrightarrow> OType m' = OType m \<and> NextObject m' = NextObject m \<and> Container m' = Container m
     \<and> (\<forall>a. has E m a \<longrightarrow> attr E m' a = attr E m a)"

lemma same_objectD:
  assumes "\<And>k. rel_option (same_object E) (obj s k) (obj s' k)"
  shows "obj s' k = Some m' \<Longrightarrow> \<exists>m. obj s k = Some m \<and> same_object E m m'"
    and "obj s k = Some m \<Longrightarrow> \<exists>m'. obj s' k = Some m' \<and> same_object E m m'"
  using assms [of k] by (cases "obj s k"; cases "obj s' k"; simp)+

lemma world_same:
  assumes inv: "world_inv E s fs cs" and s': "store_inv s' fs" "crons s' = crons s" "strings s' = strings s"
    and o: "\<And>k. rel_option (same_object E) (obj s k) (obj s' k)"
  shows "world_inv E s' fs cs"
proof -
  note W = world_invD [OF inv]
  note O = same_objectD [OF o]
  have ex: "(\<exists>m'. obj s' k = Some m' \<and> P (OType m') (Container m')) \<longleftrightarrow> (\<exists>m. obj s k = Some m \<and> P (OType m) (Container m))" for k P
    using O(1) [of k] O(2) [of k] unfolding same_object_def by metis
  have nx: "onext s' = onext s"
  proof
    fix k show "onext s' k = onext s k" using o [of k] by (cases "obj s k"; cases "obj s' k") (auto simp: onext_def same_object_def)
  qed
  have "tree_inv E s' cs" unfolding tree_inv_def
  proof (intro conjI allI impI)
    fix c m' assume m': "obj s' c = Some m'" "has E m' CONTENT"
    obtain m where m: "obj s c = Some m" "same_object E m m'" using O(1) [OF m'(1)] by blast
    then have "has E m CONTENT" "attr E m' CONTENT = attr E m CONTENT" using m'(2) unfolding same_object_def by metis+
    then show "path (onext s') (opt_id (attr E m' CONTENT)) (cs c)" "distinct (cs c)"
      using tree_invD(1,2) [OF W(2)] m(1) nx by simp_all
  next
    fix c assume c: "\<forall>m. obj s' c = Some m \<longrightarrow> \<not> has E m CONTENT"
    show "cs c = []"
    proof (rule tree_invD(4) [OF W(2)])
      fix m assume "obj s c = Some m"
      then obtain m' where "obj s' c = Some m'" "same_object E m m'" using O(2) by blast
      then show "\<not> has E m CONTENT" using c unfolding same_object_def by metis
    qed
  next
    fix c n show "n \<in> set (cs c) \<longleftrightarrow> c \<noteq> 0 \<and> (\<exists>m. obj s' n = Some m \<and> Container m = c)"
      using tree_invD(3) [OF W(2), of n c] ex [of n "\<lambda>_ k. k = c"] by simp
  qed
  moreover have "timers_ok E s'"
    using W(4) s'(2) ex [of _ "\<lambda>t _. get_flag (ObjectTypes E) t EXPIRE"] by (simp add: timers_ok_def)
  moreover have "texts_ok E s'" unfolding texts_ok_def
  proof (intro conjI allI impI)
    show "String_Table.table_ok (strings s')" using W(5) s'(3) by (simp add: texts_ok_def)
    fix n m' assume m': "obj s' n = Some m'" "flag E m' TEXT"
    obtain m where m: "obj s n = Some m" "same_object E m m'" using O(1) [OF m'(1)] by blast
    then have "flag E m TEXT" using m'(2) by (simp add: same_object_def)
    moreover then have "attr E m' TEXTSTRING = attr E m TEXTSTRING" "attr E m' EDITOR = attr E m EDITOR"
      using m(2) has_attribute_flags(4,5) by (simp_all add: same_object_def)
    ultimately show "number_ok (attr E m' TEXTSTRING)" "number_ok (attr E m' EDITOR)" using W(5) m(1) by (simp_all add: texts_ok_def)
  qed
  moreover have "fields_sorted E s' cs"
  proof -
    have "prio E s' k = prio E s k" for k
      using o [of k] by (cases "obj s k"; cases "obj s' k") (simp_all add: prio_def priority_def same_object_def)
    then have "field_sorted E s' = field_sorted E s" by (intro field_sorted_cong) (simp add: fun_eq_iff)
    then show ?thesis using W(6) O(1) unfolding fields_sorted_def same_object_def by metis
  qed
  ultimately show ?thesis using s'(1) W(3) by (simp add: world_inv_def)
qed

lemma set_raw_ok:
  assumes F: "field_type E" and inv: "world_inv E s fs cs" and m: "obj s n = Some m" "OType m = 0" and i: "0 < i"
  shows "\<exists>s'. set_raw E n i v s = Some s' \<and> world_inv E s' fs cs \<and> entries s' = entries s \<and> messages s' = messages s
    \<and> obj s' = (obj s)(n \<mapsto> m\<lparr>Attributes := (Attributes m)[i := v]\<rparr>)"
proof -
  note W = world_invD [OF inv]
  let ?m = "m\<lparr>Attributes := (Attributes m)[i := v]\<rparr>"
  have id: "ObjectID m = n" "length (Attributes m) = 4" using obj_ID [OF m(1)] obj_cell(2) [OF W(1) m(1)] by simp_all
  note P = store_inv_put [OF W(1) m(1), of ?m, simplified, OF id]
  have "same_object E m ?m" using F m(2) i by (auto simp: same_object_def field_type_def attr_def offset_CONTENT)
  then have "world_inv E (put s n ?m) fs cs"
    using P m(1) by (intro world_same [OF inv]) (auto simp: same_object_def option.rel_refl intro: option.rel_refl)
  then show ?thesis using P modify_obj [OF W(1) m(1)] by (auto simp: set_raw_def entries_def)
qed

section \<open>Creating a sector\<close>

text \<open>Free numbers and cells for \<open>k\<close> new objects.\<close>

definition room :: "objects \<Rightarrow> addr list \<Rightarrow> nat \<Rightarrow> bool" where
  "room s fs k \<longleftrightarrow> k \<le> length fs \<and> unat (HashTableSize s div 16) + k \<le> unat (HashTableFree s)"

text \<open>The objects of \<open>s\<close> are still there in \<open>s'\<close>.\<close>

definition extends :: "objects \<Rightarrow> objects \<Rightarrow> bool" where
  "extends s s' \<longleftrightarrow> (\<forall>n m. obj s n = Some m \<longrightarrow> obj s' n = Some m)"

lemma extends_trans: "extends s s' \<Longrightarrow> extends s' s'' \<Longrightarrow> extends s s''"
  by (simp add: extends_def)

lemma extends_field: "extends s s' \<Longrightarrow> is_field s con x y z \<Longrightarrow> is_field s' con x y z"
  by (auto simp: extends_def is_field_def)

lemma word_and_255: "0 \<le> z \<Longrightarrow> z < 2 ^ 8 \<Longrightarrow> (word_of_int z :: u32) AND 255 = word_of_int z"
proof -
  assume z: "0 \<le> z" "z < 2 ^ 8"
  have "(word_of_int z :: u32) AND mask 8 = take_bit 8 (word_of_int z)" by (simp only: take_bit_eq_mask)
  also have "\<dots> = word_of_int z" using z by (simp add: take_bit_word_beyond_length_eq take_bit_of_int take_bit_int_eq_self flip: of_int_take_bit)
  finally show ?thesis by (simp add: mask_eq_exp_minus_1)
qed

definition new_field :: "objects \<Rightarrow> u32 \<Rightarrow> int \<Rightarrow> int \<Rightarrow> int \<Rightarrow> bool" where
  "new_field s con x y z \<longleftrightarrow> is_field s con x y z \<and> Attributes (the (obj s con)) ! 3 = word_of_int z"

lemma extends_new: "extends s s' \<Longrightarrow> new_field s con x y z \<Longrightarrow> new_field s' con x y z"
  by (auto simp: extends_def new_field_def is_field_def)

lemma init_field:
  assumes E: "loaded_types E" "field_type E" and inv: "world_inv E s (p # fs) cs" and r: "room s (p # fs) (Suc k)"
    and z: "0 \<le> z" "z < 2 ^ 8"
  obtains n s1 s2 s3 s' where "create_object E s = Some (n, s1)" "set_raw E n 1 (word_of_int x) s1 = Some s2"
    "set_raw E n 2 (word_of_int y) s2 = Some s3" "set_raw E n 3 (word_of_int z) s3 = Some s'"
    "world_inv E s' fs cs" "room s' fs k" "extends s s'" "new_field s' n x y z" "obj s n = None"
proof -
  have free: "HashTableSize s div 16 \<le> HashTableFree s" "0 < HashTableFree s"
    using r by (simp_all add: room_def word_le_nat_alt word_less_nat_alt)
  obtain n s1 m where s1: "create_object E s = Some (n, s1)" "world_inv E s1 fs cs" "obj s n = None" "obj s1 = (obj s)(n \<mapsto> m)" "OType m = 0"
    "entries s1 = (HashTableFree s - 1, HashTableSize s)"
    using create_world [OF E(1) inv free field_type_flags(3,2) [OF E(2)]] by blast
  have l: "length (Attributes m) = 4" using obj_cell(2) [OF world_invD(1) [OF s1(2)], of n m] s1(4) by simp
  let ?m1 = "m\<lparr>Attributes := (Attributes m)[1 := word_of_int x]\<rparr>"
  let ?m2 = "?m1\<lparr>Attributes := (Attributes ?m1)[2 := word_of_int y]\<rparr>"
  let ?m3 = "?m2\<lparr>Attributes := (Attributes ?m2)[3 := word_of_int z]\<rparr>"
  obtain s2 where s2: "set_raw E n 1 (word_of_int x) s1 = Some s2" "world_inv E s2 fs cs" "entries s2 = entries s1" "obj s2 = (obj s1)(n \<mapsto> ?m1)"
    using set_raw_ok [OF E(2) s1(2), of n m 1 "word_of_int x"] s1(4,5) by auto
  obtain s3 where s3: "set_raw E n 2 (word_of_int y) s2 = Some s3" "world_inv E s3 fs cs" "entries s3 = entries s2" "obj s3 = (obj s2)(n \<mapsto> ?m2)"
    using set_raw_ok [OF E(2) s2(2), of n ?m1 2 "word_of_int y"] s2(4) s1(5) by auto
  obtain s' where s': "set_raw E n 3 (word_of_int z) s3 = Some s'" "world_inv E s' fs cs" "entries s' = entries s3" "obj s' = (obj s3)(n \<mapsto> ?m3)"
    using set_raw_ok [OF E(2) s3(2), of n ?m2 3 "word_of_int z"] s3(4) s1(5) by auto
  have "new_field s' n x y z" using s'(4) s1(5) l word_and_255 [OF z] by (simp add: new_field_def is_field_def)
  moreover have "extends s s'" using s'(4) s3(4) s2(4) s1(3,4) by (auto simp: extends_def)
  moreover have "room s' fs k"
  proof -
    have "HashTableFree s' = HashTableFree s - 1" "HashTableSize s' = HashTableSize s" using s'(3) s3(3) s2(3) s1(6) by (simp_all add: entries_def)
    moreover have "unat (HashTableFree s - 1) = unat (HashTableFree s) - 1" using free(2) by (intro unat_minus_one) auto
    ultimately show ?thesis using r by (auto simp: room_def)
  qed
  ultimately show thesis using that s1(1,3) s2(1) s3(1) s'(1,2) by blast
qed

lemma init_row_ok:
  assumes "loaded_types E" "field_type E" "world_inv E s fs cs" "room s fs (length Ys + k)" "0 \<le> z" "z < 2 ^ 8"
  shows "\<exists>row s'. init_row E x sy z Ys s = Some (row, s') \<and> world_inv E s' (drop (length Ys) fs) cs \<and> room s' (drop (length Ys) fs) k
    \<and> extends s s' \<and> length row = length Ys \<and> (\<forall>j<length Ys. new_field s' (row ! j) x (sy * 32 + int (Ys ! j)) z \<and> obj s (row ! j) = None)"
  using assms
proof (induction Ys arbitrary: s fs)
  case Nil
  then show ?case by (simp add: extends_def)
next
  case (Cons Y Ys)
  obtain p fs' where fs: "fs = p # fs'" using Cons(5) by (cases fs) (auto simp: room_def)
  have r: "room s (p # fs') (Suc (length Ys + k))" using Cons(5) fs by simp
  obtain n s1 s2 s3 s4 where s: "create_object E s = Some (n, s1)" "set_raw E n 1 (word_of_int x) s1 = Some s2"
    "set_raw E n 2 (word_of_int (sy * 32 + int Y)) s2 = Some s3" "set_raw E n 3 (word_of_int z) s3 = Some s4"
    "world_inv E s4 fs' cs" "room s4 fs' (length Ys + k)" "extends s s4" "new_field s4 n x (sy * 32 + int Y) z" "obj s n = None"
    by (rule init_field [OF Cons(2,3) Cons(4) [unfolded fs] r Cons(6,7), of x "sy * 32 + int Y"])
  obtain row s' where t: "init_row E x sy z Ys s4 = Some (row, s')" "world_inv E s' (drop (length Ys) fs') cs" "room s' (drop (length Ys) fs') k"
    "extends s4 s'" "length row = length Ys" "\<forall>j<length Ys. new_field s' (row ! j) x (sy * 32 + int (Ys ! j)) z \<and> obj s4 (row ! j) = None"
    using Cons(1) [OF Cons(2,3) s(5,6) Cons(6,7)] by blast
  have "obj s (row ! j) = None" if "j < length Ys" for j
    using t(6) that s(7) unfolding extends_def by (metis not_None_eq)
  then have "\<forall>j<length (Y # Ys). new_field s' ((n # row) ! j) x (sy * 32 + int ((Y # Ys) ! j)) z \<and> obj s ((n # row) ! j) = None"
    using t(6) extends_new [OF t(4) s(8)] s(9) by (auto simp: less_Suc_eq_0_disj)
  then show ?case using s(1-4) t fs extends_trans [OF s(7) t(4)] by simp
qed

lemma init_rows_ok:
  assumes "loaded_types E" "field_type E" "world_inv E s fs cs" "room s fs (32 * length Xs + k)" "0 \<le> z" "z < 2 ^ 8"
  shows "\<exists>rows s'. init_rows E sx sy z Xs s = Some (rows, s') \<and> world_inv E s' (drop (32 * length Xs) fs) cs
    \<and> room s' (drop (32 * length Xs) fs) k \<and> extends s s'
    \<and> length rows = length Xs \<and> (\<forall>i<length Xs. length (rows ! i) = 32
      \<and> (\<forall>j<32. new_field s' (rows ! i ! j) (sx * 32 + int (Xs ! i)) (sy * 32 + int j) z \<and> obj s (rows ! i ! j) = None))"
  using assms
proof (induction Xs arbitrary: s fs)
  case Nil
  then show ?case by (simp add: extends_def)
next
  case (Cons X Xs)
  let ?x = "sx * 32 + int X"
  have r: "room s fs (length [0..<32] + (32 * length Xs + k))" using Cons(5) by (simp add: add.assoc)
  obtain row s1 where s1: "init_row E ?x sy z [0..<32] s = Some (row, s1)" "world_inv E s1 (drop 32 fs) cs" "room s1 (drop 32 fs) (32 * length Xs + k)"
    "extends s s1" "length row = 32" "\<forall>j<32. new_field s1 (row ! j) ?x (sy * 32 + int j) z \<and> obj s (row ! j) = None"
    using init_row_ok [OF Cons(2-4) r Cons(6,7), of ?x sy] by auto
  obtain rows s' where t: "init_rows E sx sy z Xs s1 = Some (rows, s')" "world_inv E s' (drop (32 * length Xs) (drop 32 fs)) cs"
    "room s' (drop (32 * length Xs) (drop 32 fs)) k" "extends s1 s'"
    "length rows = length Xs" "\<forall>i<length Xs. length (rows ! i) = 32
      \<and> (\<forall>j<32. new_field s' (rows ! i ! j) (sx * 32 + int (Xs ! i)) (sy * 32 + int j) z \<and> obj s1 (rows ! i ! j) = None)"
    using Cons(1) [OF Cons(2,3) s1(2,3) Cons(6,7)] by blast
  have "obj s (rows ! i ! j) = None" if "i < length Xs" "j < 32" for i j
    using t(6) that s1(4) unfolding extends_def by (metis not_None_eq)
  then have "\<forall>i<length (X # Xs). length ((row # rows) ! i) = 32
      \<and> (\<forall>j<32. new_field s' ((row # rows) ! i ! j) (sx * 32 + int ((X # Xs) ! i)) (sy * 32 + int j) z \<and> obj s ((row # rows) ! i ! j) = None)"
    using s1(5,6) t(6) extends_new [OF t(4)] by (auto simp: less_Suc_eq_0_disj)
  then show ?case using s1(1) t(1-5) extends_trans [OF s1(4) t(4)] by (simp add: add.commute)
qed

lemma extends_outside:
  assumes "extends s s'" "tree_inv E s cs" "fields_outside s cs"
  shows "fields_outside s' cs"
  unfolding fields_outside_def
proof (intro allI impI)
  fix c n m assume n: "n \<in> set (cs c)" "obj s' n = Some m"
  then obtain m0 where "obj s n = Some m0" using tree_invD(3) [OF assms(2), of n c] by blast
  then show "OType m \<noteq> TYPEID_MAP_CONTAINER" using assms(1,3) n unfolding extends_def fields_outside_def by (metis option.inject)
qed

lemma sector_coordinate: "0 \<le> x \<Longrightarrow> x div 32 * 32 + int (nat (x mod 32)) = (x :: int)"
  by simp

text \<open>The word of a field with its level, flags and house.\<close>

definition field_word :: "game_map \<Rightarrow> int \<Rightarrow> int \<Rightarrow> int \<Rightarrow> u32" where
  "field_word w x y z = Attributes (the (obj (objs w) (the (field_of w x y z)))) ! 3"

lemma init_sector_ok:
  assumes E: "loaded_types E" "field_type E" and inv: "map_inv E w fs cs" and r: "room (objs w) fs (1024 + k)"
    and sec: "in_sectors w sx sy sz" "sector_at w sx sy sz = None"
  shows "\<exists>w'. init_sector E sx sy sz w = Some w' \<and> map_inv E w' (drop 1024 fs) cs \<and> room (objs w') (drop 1024 fs) k \<and> extends (objs w) (objs w')
    \<and> (\<forall>x y z. on_map w x y z \<longrightarrow> on_map w' x y z \<and> (if (x div 32, y div 32, z) = (sx, sy, sz)
        then \<exists>con. field_of w' x y z = Some con \<and> cs con = [] \<and> field_word w' x y z = word_of_int z else field_of w' x y z = field_of w x y z))"
proof -
  note I = map_invD [OF inv]
  have z: "0 \<le> sz" "sz < 2 ^ 8" using sec(1) I(2) by (auto simp: in_sectors_def map_ok_def)
  have r': "room (objs w) fs (32 * length [0..<32] + k)" using r by simp
  obtain rows s' where t: "init_rows E sx sy sz [0..<32] (objs w) = Some (rows, s')" "world_inv E s' (drop 1024 fs) cs" "extends (objs w) s'"
    "room s' (drop 1024 fs) k" "length rows = 32" "\<forall>i<32. length (rows ! i) = 32
      \<and> (\<forall>j<32. new_field s' (rows ! i ! j) (sx * 32 + int i) (sy * 32 + int j) sz \<and> obj (objs w) (rows ! i ! j) = None)"
    using init_rows_ok [OF E I(1) r' z, of sx sy] by auto
  let ?sec = "\<lparr>MapCon = rows, STimeStamp = RoundNr E, SStatus = STATUS_LOADED, MapFlags = 0\<rparr>"
  let ?w = "with_sector (w\<lparr>objs := s'\<rparr>) sx sy sz ?sec"
  have "arr_get (entry3 (SectorMatrix w)) (sector_cell w sx sy sz) = Some None"
    using sector_cell_range [OF I(2)] sec(2) by (simp add: sector_at_def)
  then have init: "init_sector E sx sy sz w = Some ?w"
    using t(1) set_sector_eq [of "w\<lparr>objs := s'\<rparr>" sx sy sz ?sec] I(2) by (simp add: init_sector_def on_objs_def)
  have at: "sector_at ?w ax ay az = (if (ax, ay, az) = (sx, sy, sz) then Some ?sec else sector_at w ax ay az)"
    if "in_sectors w ax ay az" for ax ay az using sector_at_with [of "w\<lparr>objs := s'\<rparr>" sx sy sz ax ay az ?sec] I(2) sec(1) that by simp
  have sq: "square rows" using t(5,6) by (auto simp: square_def in_set_conv_nth)
  have new: "\<exists>con. field_of ?w x y z = Some con \<and> new_field s' con x y z \<and> obj (objs w) con = None"
    if o: "on_map w x y z" "(x div 32, y div 32, z) = (sx, sy, sz)" for x y z
  proof -
    have m: "nat (x mod 32) < 32" "nat (y mod 32) < 32" by (simp_all add: nat_less_iff)
    have "0 \<le> x" "0 \<le> y" using o(1) by (simp_all add: on_map_def)
    then have c: "sx * 32 + int (nat (x mod 32)) = x" "sy * 32 + int (nat (y mod 32)) = y" using o(2) sector_coordinate by auto
    have "new_field s' (rows ! nat (x mod 32) ! nat (y mod 32)) (sx * 32 + int (nat (x mod 32))) (sy * 32 + int (nat (y mod 32))) sz
        \<and> obj (objs w) (rows ! nat (x mod 32) ! nat (y mod 32)) = None" using t(6) m by blast
    then show ?thesis using at [of sx sy sz] o sec(1) unfolding c by (auto simp: field_of_def)
  qed
  have old: "field_of ?w x y z = field_of w x y z" if "on_map w x y z" "(x div 32, y div 32, z) \<noteq> (sx, sy, sz)" for x y z
    using at [of "x div 32" "y div 32" z] that by (auto simp: field_of_def on_map_def)
  have "fields_ok ?w" unfolding fields_ok_def
  proof (intro conjI allI impI)
    fix ax ay az sec' assume "in_sectors ?w ax ay az" "sector_at ?w ax ay az = Some sec'"
    then show "square (MapCon sec')" using at [of ax ay az] sq I(3) by (auto simp: fields_ok_def split: if_splits)
  next
    fix x y z con assume o: "on_map ?w x y z" "field_of ?w x y z = Some con"
    then show "is_field (objs ?w) con x y z"
      using new [of x y z] old [of x y z] I(3) extends_field [OF t(3)] by (cases "(x div 32, y div 32, z) = (sx, sy, sz)") (auto simp: fields_ok_def new_field_def)
  qed
  then have inv': "map_inv E ?w (drop 1024 fs) cs"
    using t(2) I(2) extends_outside [OF t(3) I(6,4)] by (simp add: map_inv_def)
  have "\<exists>con. field_of ?w x y z = Some con \<and> cs con = [] \<and> field_word ?w x y z = word_of_int z"
    if o: "on_map w x y z" "(x div 32, y div 32, z) = (sx, sy, sz)" for x y z
  proof -
    obtain con where c: "field_of ?w x y z = Some con" "new_field s' con x y z" "obj (objs w) con = None" using new [OF o] by blast
    have "cs con = []" by (rule tree_invD(4) [OF I(6)]) (simp add: c(3))
    then show ?thesis using c by (auto simp: field_word_def new_field_def)
  qed
  then have "on_map ?w x y z \<and> (if (x div 32, y div 32, z) = (sx, sy, sz)
        then \<exists>con. field_of ?w x y z = Some con \<and> cs con = [] \<and> field_word ?w x y z = word_of_int z else field_of ?w x y z = field_of w x y z)"
    if "on_map w x y z" for x y z
    using old [OF that] that by (metis objs_update_simps(2) with_sector_simps(9))
  then show ?thesis using init inv' t(3,4) by (intro exI [of _ ?w]) simp
qed

section \<open>Coordinates\<close>

lemma inside_exists:
  assumes "tree_inv E s cs" "n \<in> inside cs con" "obj s con = Some mc"
  shows "\<exists>m. obj s n = Some m"
  using assms(2)
proof (induction rule: inside_induct)
  case (step y z)
  then show ?case using tree_invD(3) [OF assms(1), of z y] by blast
qed (use assms(3) in blast)

lemma field_loop_inside:
  assumes s: "store_inv s fs" "tree_inv E s cs" "fields_outside s cs" and n: "n \<in> inside cs con" and con: "obj s con = Some mc" "OType mc = 0"
  shows "field_loop E n s = Some (con, s)"
  using n
proof (induction rule: inside_induct)
  case base
  then show ?case using get_object_type_obj [OF s(1) con(1)] con(2) by (subst field_loop.simps) (simp add: is_map_container_def)
next
  case (step y z)
  obtain m where m: "obj s z = Some m" "Container m = y" using tree_invD(3) [OF s(2), of z y] step.hyps(2) by blast
  have "OType m \<noteq> TYPEID_MAP_CONTAINER" using s(3) step.hyps(2) m(1) unfolding fields_outside_def by blast
  then show ?case using get_object_type_obj [OF s(1) m(1)] get_container_obj [OF s(1) m(1)] m(2) step.IH
    by (subst field_loop.simps) (simp add: is_map_container_def)
qed

lemma sint_coordinate: "0 \<le> x \<Longrightarrow> x < 2 ^ 31 \<Longrightarrow> sint (word_of_int x :: u32) = x"
  by (simp add: sint_sbintrunc' signed_take_bit_int_eq_self)

lemma get_object_coordinates_ok:
  assumes s: "store_inv s fs" "tree_inv E s cs" "fields_outside s cs" and f: "is_field s con x y z" and n: "n \<in> inside cs con"
    and b: "0 \<le> x" "x < 2 ^ 31" "0 \<le> y" "y < 2 ^ 31" "0 \<le> z" "z < 2 ^ 8"
  shows "get_object_coordinates E n s = Some ((x, y, z), s)"
proof -
  obtain mc where mc: "obj s con = Some mc" "OType mc = 0" "Attributes mc ! 1 = word_of_int x" "Attributes mc ! 2 = word_of_int y"
    "Attributes mc ! 3 AND 255 = word_of_int z" using f by (auto simp: is_field_def)
  obtain m where m: "obj s n = Some m" using inside_exists [OF s(2) n mc(1)] by blast
  have l: "length (Attributes mc) = 4" by (rule obj_cell(2) [OF s(1) mc(1)])
  have "uint (word_of_int z :: u32) = z" using b(5,6) by (simp add: uint_word_of_int)
  then show ?thesis using s(1) m field_loop_inside [OF s n mc(1,2)] fetch_obj [OF s(1) mc(1)] l mc(3-5) sint_coordinate b
    by (simp add: get_object_coordinates_def)
qed

lemma on_map_bounds:
  assumes "map_ok w" "on_map w x y z"
  shows "0 \<le> x" "x < 2 ^ 31" "0 \<le> y" "y < 2 ^ 31" "0 \<le> z" "z < 2 ^ 8"
  using assms by (auto simp: map_ok_def on_map_def in_sectors_def)

section \<open>Houses\<close>

lemma house_word:
  assumes "(ucast (drop_bit 16 (v :: u32)) :: u16) = 0"
  shows "ucast (drop_bit 16 (v OR push_bit 16 (ucast (ID :: u16)))) = ID" "(v OR push_bit 16 (ucast ID)) AND 255 = v AND 255"
    "(ucast (drop_bit 8 (v OR push_bit 16 (ucast ID))) :: u8) = ucast (drop_bit 8 v)"
proof -
  have v: "\<not> bit v (16 + k)" if "k < 16" for k
  proof -
    have "bit (ucast (drop_bit 16 v) :: u16) k = bit v (16 + k)" using that by (simp add: bit_simps)
    then show ?thesis using assms by simp
  qed
  show "ucast (drop_bit 16 (v OR push_bit 16 (ucast ID))) = ID"
    by (rule bit_word_eqI) (use v in \<open>simp add: bit_simps\<close>)
  have m: "(255 :: u32) = mask 8" by (simp add: mask_eq_exp_minus_1)
  show "(v OR push_bit 16 (ucast ID)) AND 255 = v AND 255" unfolding m by (rule bit_word_eqI) (auto simp: bit_simps)
  show "(ucast (drop_bit 8 (v OR push_bit 16 (ucast ID))) :: u8) = ucast (drop_bit 8 v)" by (rule bit_word_eqI) (auto simp: bit_simps)
qed

lemma get_house_id_ok:
  assumes "map_inv E w fs cs" "on_map w x y z" "field_of w x y z = Some con"
  shows "get_house_id E x y z w = Some (ucast (drop_bit 16 (field_word w x y z)), touch E x y z w)"
proof -
  note I = map_invD [OF assms(1)]
  obtain m where m: "obj (objs w) con = Some m" using I(3) assms(2,3) unfolding fields_ok_def is_field_def by blast
  have l: "length (Attributes m) = 4" by (rule obj_cell(2) [OF I(5) m])
  show ?thesis using get_map_container_at_ok [OF assms(1,2)] assms(3) I(5) m obj_nonzero [OF m] fetch_obj [OF I(5) m] l
    by (simp add: get_house_id_def on_objs_def field_word_def)
qed

lemma get_flags_ok:
  assumes "map_inv E w fs cs" "on_map w x y z" "field_of w x y z = Some con"
  shows "field_flag E Mask x y z w = Some ((ucast (drop_bit 8 (field_word w x y z)) AND Mask) \<noteq> 0, touch E x y z w)"
proof -
  note I = map_invD [OF assms(1)]
  obtain m where m: "obj (objs w) con = Some m" "OType m = 0" using I(3) assms(2,3) unfolding fields_ok_def is_field_def by blast
  have l: "length (Attributes m) = 4" by (rule obj_cell(2) [OF I(5) m(1)])
  have "get_map_container_flags E con (objs w) = Some (ucast (drop_bit 8 (Attributes m ! 3)), objs w)"
    using I(5) m get_object_type_obj [OF I(5) m(1)] fetch_obj [OF I(5) m(1)] l by (simp add: get_map_container_flags_def is_map_container_def)
  then show ?thesis using get_map_container_at_ok [OF assms(1,2)] assms(3) m obj_nonzero [OF m(1)]
    by (simp add: field_flag_def on_objs_def field_word_def)
qed

lemma is_on_map_on: "on_map w x y z \<Longrightarrow> is_on_map x y z w"
  by (simp add: on_map_def in_sectors_def is_on_map_def range_simps)

lemma objs_same: "objs v = s \<Longrightarrow> v\<lparr>objs := s\<rparr> = v"
  by (cases v) simp

lemma map_inv_log:
  assumes "map_inv E w fs cs"
  shows "map_inv E (log_error text w) fs cs"
proof -
  note I = map_invD [OF assms]
  have "world_inv E (report text (objs w)) fs cs" by (rule world_same [OF I(1)]) (use I(5) in \<open>auto simp: report_def option.rel_refl same_object_def\<close>)
  then show ?thesis using I by (auto simp: log_error_def map_inv_def fields_ok_def is_field_def fields_outside_def)
qed

text \<open>Two coordinates of one field are the same.\<close>

lemma field_unique:
  assumes "map_inv E w fs cs" "on_map w x y z" "on_map w a b c" "field_of w x y z = Some con" "field_of w a b c = Some con"
  shows "(a, b, c) = (x, y, z)"
proof -
  note I = map_invD [OF assms(1)]
  have f: "is_field (objs w) con x y z" "is_field (objs w) con a b c" using I(3) assms(2-5) by (auto simp: fields_ok_def)
  then have e: "word_of_int x = (word_of_int a :: u32)" "word_of_int y = (word_of_int b :: u32)" "word_of_int z = (word_of_int c :: u32)"
    by (auto simp: is_field_def)
  note B = on_map_bounds [OF I(2) assms(2)] on_map_bounds [OF I(2) assms(3)]
  have "x = a" "y = b" using e(1,2) B sint_coordinate by metis+
  moreover have "z = c"
  proof -
    have "sint (word_of_int z :: u32) = z" "sint (word_of_int c :: u32) = c" using B by (intro sint_coordinate; simp)+
    then show ?thesis using e(3) by metis
  qed
  ultimately show ?thesis by simp
qed

lemma set_house_id_ok:
  assumes F: "field_type E" and inv: "map_inv E w fs cs" "on_map w x y z" "field_of w x y z = Some con"
    and h: "ucast (drop_bit 16 (field_word w x y z)) = (0 :: u16)"
  shows "\<exists>w'. set_house_id E x y z ID w = Some w' \<and> map_inv E w' fs cs \<and> on_map w' = on_map w
    \<and> (\<forall>a b c. on_map w a b c \<longrightarrow> field_of w' a b c = field_of w a b c)
    \<and> field_word w' x y z = field_word w x y z OR push_bit 16 (ucast ID)
    \<and> (\<forall>a b c. on_map w a b c \<longrightarrow> field_of w a b c \<noteq> None \<longrightarrow> (a, b, c) \<noteq> (x, y, z) \<longrightarrow> field_word w' a b c = field_word w a b c)"
proof -
  note I = map_invD [OF inv(1)]
  obtain m where m: "obj (objs w) con = Some m" "OType m = 0" "Attributes m ! 1 = word_of_int x" "Attributes m ! 2 = word_of_int y"
    "Attributes m ! 3 AND 255 = word_of_int z" using I(3) inv(2,3) unfolding fields_ok_def is_field_def by blast
  have l: "length (Attributes m) = 4" by (rule obj_cell(2) [OF I(5) m(1)])
  have fw: "field_word w x y z = Attributes m ! 3" using inv(3) m(1) by (simp add: field_word_def)
  let ?v = "Attributes m ! 3 OR push_bit 16 (ucast ID)"
  let ?m = "m\<lparr>Attributes := (Attributes m)[3 := ?v]\<rparr>"
  obtain s' where s': "set_raw E con 3 ?v (objs w) = Some s'" "world_inv E s' fs cs" "obj s' = (obj (objs w))(con \<mapsto> ?m)"
    using set_raw_ok [OF F I(1) m(1,2), of 3 ?v] by auto
  let ?w = "(touch E x y z w)\<lparr>objs := s'\<rparr>"
  have set: "set_house_id E x y z ID w = Some ?w"
    using is_on_map_on [OF inv(2)] get_map_container_at_ok [OF inv(1,2)] inv(3) I(5) m(1) obj_nonzero [OF m(1)] fetch_obj [OF I(5) m(1)] l h fw s'(1)
    by (simp add: set_house_id_def on_objs_def)
  have f: "field_of ?w a b c = field_of w a b c" if "on_map w a b c" for a b c using field_of_touch [OF I(2) inv(2) that] by simp
  have fld: "is_field s' k a b c" if k: "is_field (objs w) k a b c" for k a b c
    using k s'(3) m l house_word(2) [of "Attributes m ! 3" ID] h fw by (cases "k = con") (auto simp: is_field_def)
  have "square (MapCon sec)" if q: "in_sectors w sx sy sz" "sector_at (touch E x y z w) sx sy sz = Some sec" for sx sy sz sec
    using map_inv_touch [OF inv(1,2)] q by (auto simp: map_inv_def fields_ok_def)
  then have ok: "fields_ok ?w" using f fld I(3) by (auto simp: fields_ok_def)
  have "fields_outside s' cs" using I(4) s'(3) m(1,2) unfolding fields_outside_def by (auto split: if_splits)
  then have inv': "map_inv E ?w fs cs" using ok s'(2) I(2) by (simp add: map_inv_def)
  have "field_word ?w x y z = field_word w x y z OR push_bit 16 (ucast ID)"
    using f [OF inv(2)] inv(3) s'(3) l fw by (simp add: field_word_def)
  moreover have "field_word ?w a b c = field_word w a b c" if o: "on_map w a b c" "field_of w a b c \<noteq> None" "(a, b, c) \<noteq> (x, y, z)" for a b c
  proof -
    have "field_of w a b c \<noteq> Some con" using field_unique [OF inv(1,2) o(1) inv(3)] o(3) by blast
    then show ?thesis using f [OF o(1)] o(2) s'(3) by (auto simp: field_word_def)
  qed
  ultimately show ?thesis using set inv' f by (intro exI [of _ ?w]) simp
qed

text \<open>A field that has a house keeps it.\<close>

lemma set_house_id_refused:
  assumes inv: "map_inv E w fs cs" "on_map w x y z" "field_of w x y z = Some con" and h: "get_house_id E x y z w = Some (ID, w0)" "ID \<noteq> 0"
  shows "\<exists>w2. set_house_id E x y z ID2 w = Some w2 \<and> get_house_id E x y z w2 = Some (ID, touch E x y z w2)"
proof -
  note I = map_invD [OF inv(1)]
  obtain m where m: "obj (objs w) con = Some m" using I(3) inv(2,3) unfolding fields_ok_def is_field_def by blast
  have l: "length (Attributes m) = 4" by (rule obj_cell(2) [OF I(5) m])
  have fw: "field_word w x y z = Attributes m ! 3" using inv(3) m by (simp add: field_word_def)
  have h': "ucast (drop_bit 16 (Attributes m ! 3)) = ID" using get_house_id_ok [OF inv] h(1) fw by simp
  let ?w = "log_error ''set_house_id: Field already belongs to a house'' (touch E x y z w)"
  have set: "set_house_id E x y z ID2 w = Some ?w"
    using is_on_map_on [OF inv(2)] get_map_container_at_ok [OF inv(1,2)] inv(3) I(5) m obj_nonzero [OF m] fetch_obj [OF I(5) m] l h' h(2)
    by (simp add: set_house_id_def on_objs_def objs_same)
  have inv': "map_inv E ?w fs cs" by (rule map_inv_log [OF map_inv_touch [OF inv(1,2)]])
  have f: "on_map ?w x y z" "field_of ?w x y z = Some con" using inv(2,3) field_of_touch [OF I(2) inv(2,2)] by (simp_all add: log_error_def)
  have "field_word ?w x y z = field_word w x y z" using f(2) inv(3) by (simp add: field_word_def log_error_def)
  then show ?thesis using set get_house_id_ok [OF inv' f] fw h' by simp
qed

section \<open>Moving objects between fields\<close>

lemma field_not_inside:
  assumes "fields_outside s cs" "obj s con = Some mc" "OType mc = 0" "obj s n = Some m" "OType m \<noteq> 0"
  shows "con \<notin> inside cs n"
proof
  assume "con \<in> inside cs n"
  then have "con = n \<or> (\<exists>c. con \<in> set (cs c))" by (induction rule: inside_induct) auto
  then show False using assms unfolding fields_outside_def by (metis option.inject)
qed

lemma alike_field:
  assumes "store_inv s fs" "store_inv s' fs'" "rel_option (alike E) (obj s con) (obj s' con)" "is_field s con x y z"
  shows "is_field s' con x y z"
proof -
  obtain m where m: "obj s con = Some m" "OType m = 0" "Attributes m ! 1 = word_of_int x" "Attributes m ! 2 = word_of_int y"
    "Attributes m ! 3 AND 255 = word_of_int z" using assms(4) by (auto simp: is_field_def)
  obtain m' where m': "obj s' con = Some m'" "alike E m m'" using assms(3) m(1) by (cases "obj s' con") auto
  have l: "length (Attributes m) = 4" "length (Attributes m') = 4" using obj_cell(2) [OF assms(1) m(1)] obj_cell(2) [OF assms(2) m'(1)] by simp_all
  have "Attributes m' ! Suc i = Attributes m ! Suc i" if "i < 3" for i
    using m'(2) l that nth_tl [of i "Attributes m"] nth_tl [of i "Attributes m'"] by (simp add: alike_def)
  from this [of 0] this [of 1] this [of 2] show ?thesis using m m' by (simp add: is_field_def alike_def numeral_eq_Suc)
qed

text \<open>Objects that keep their types and words keep the map, when no field gets into a container.\<close>

lemma map_alike:
  assumes inv: "map_inv E w fs cs" and s': "world_inv E s' fs' cs'"
    and al: "\<And>k. k \<in> K \<Longrightarrow> rel_option (alike E) (obj (objs w) k) (obj s' k)" "\<And>k m. obj (objs w) k = Some m \<Longrightarrow> k \<in> K"
    and new: "\<And>c k m. k \<in> set (cs' c) \<Longrightarrow> k \<notin> set (cs c) \<Longrightarrow> obj s' k = Some m \<Longrightarrow> OType m \<noteq> TYPEID_MAP_CONTAINER"
  shows "map_inv E (w\<lparr>objs := s'\<rparr>) fs' cs'"
proof -
  note I = map_invD [OF inv]
  have "is_field s' con x y z" if "is_field (objs w) con x y z" for con x y z
  proof (rule alike_field [OF I(5) world_invD(1) [OF s'] _ that])
    show "rel_option (alike E) (obj (objs w) con) (obj s' con)" using that al by (auto simp: is_field_def)
  qed
  then have "fields_ok (w\<lparr>objs := s'\<rparr>)" using I(3) by (auto simp: fields_ok_def)
  moreover have "fields_outside s' cs'" unfolding fields_outside_def
  proof (intro allI impI)
    fix c k m assume k: "k \<in> set (cs' c)" "obj s' k = Some m"
    show "OType m \<noteq> TYPEID_MAP_CONTAINER"
    proof (cases "k \<in> set (cs c)")
      case True
      then obtain m0 where m0: "obj (objs w) k = Some m0" using tree_invD(3) [OF I(6), of k c] by blast
      then have "alike E m0 m" using al(1) [OF al(2) [OF m0]] k(2) by simp
      then show ?thesis using I(4) True m0 unfolding fields_outside_def alike_def by metis
    qed (use new k in blast)
  qed
  ultimately show ?thesis using s' I(2) by (simp add: map_inv_def)
qed

lemma move_inside:
  assumes "nested cs" "con \<notin> inside cs n" "k \<in> inside cs n"
  shows "k \<in> inside ((\<lambda>k. remove1 n (cs k))(con := us @ n # vs)) con"
  using assms(3)
proof (induction rule: inside_induct)
  case base
  show ?case by (rule inside_step [OF inside_refl]) simp
next
  case (step y z)
  obtain depth where d: "nested_by depth cs" using assms(1) by (auto simp: nested_def)
  have "depth z < depth y" "depth y \<le> depth n" using d step.hyps inside_depth [OF d] unfolding nested_by_def by blast+
  then have "z \<noteq> n" by auto
  moreover have "y \<noteq> con" using step.hyps(1) assms(2) by auto
  ultimately show ?case using step inside_step by fastforce
qed

lemma move_object_map:
  assumes E: "loaded_types E" "field_type E" and inv: "map_inv E w fs cs" and n: "obj (objs w) n = Some m" "OType m \<noteq> TYPEID_MAP_CONTAINER" "Container m \<noteq> 0"
    and f: "on_map w x y z" "field_of w x y z = Some con"
  shows "\<exists>s' cs'. move_object E n con (objs w) = Some s' \<and> map_inv E (w\<lparr>objs := s'\<rparr>) fs cs' \<and> n \<in> set (cs' con) \<and> inside cs n \<subseteq> inside cs' con"
proof -
  note I = map_invD [OF inv]
  have fc: "is_field (objs w) con x y z" using I(3) f by (auto simp: fields_ok_def)
  then obtain mc where mc: "obj (objs w) con = Some mc" "OType mc = 0" by (auto simp: is_field_def)
  have out: "con \<notin> inside cs n" by (rule field_not_inside [OF I(4) mc n(1,2)])
  obtain us vs where uv: "place_split E (objs w) m mc False (remove1 n (cs con)) = (us, vs)" by (cases "place_split E (objs w) m mc False (remove1 n (cs con))")
  then have set: "set us \<union> set vs = set (remove1 n (cs con))" using place_split_append [of E "objs w" m mc False "remove1 n (cs con)"] by (metis fst_conv snd_conv set_append)
  have h: "has E mc CONTENT" using field_type_flags(1) [OF E(2)] mc(2) by simp
  let ?cs = "(\<lambda>k. remove1 n (cs k))(con := us @ n # vs)"
  obtain s' where s': "move_object E n con (objs w) = Some s'" "world_inv E s' fs ?cs" "relinked E (objs w) s'"
    using move_object_world [OF E(1) I(1) n(1,3) mc(1) h out uv] by blast
  have "map_inv E (w\<lparr>objs := s'\<rparr>) fs ?cs"
  proof (rule map_alike [OF inv s'(2), of UNIV])
    fix c k mk assume k: "k \<in> set (?cs c)" "k \<notin> set (cs c)" "obj s' k = Some mk"
    then have "k = n" using set set_remove1_subset [of n "cs c"] by (auto split: if_splits)
    then show "OType mk \<noteq> TYPEID_MAP_CONTAINER" using relinked_type [OF s'(3) k(3)] n(1,2) by (auto simp: alike_def)
  qed (use s'(3) in \<open>simp_all add: relinked_def\<close>)
  moreover have "inside cs n \<subseteq> inside ?cs con" using move_inside [OF world_invD(3) [OF I(1)] out] by blast
  ultimately show ?thesis using s'(1) by (intro exI [of _ s'] exI [of _ ?cs]) simp
qed

lemma set_object_map:
  assumes E: "loaded_types E" "field_type E" and inv: "map_inv E w (p # fs) cs" and r: "room (objs w) (p # fs) (Suc k)"
    and t: "t \<noteq> TYPEID_MAP_CONTAINER" "\<not> is_creature_container t" and f: "on_map w x y z" "field_of w x y z = Some con"
  shows "\<exists>n s' cs' m. set_object E con t 0 (objs w) = Some (n, s') \<and> map_inv E (w\<lparr>objs := s'\<rparr>) fs cs' \<and> n \<in> set (cs' con)
    \<and> room s' fs k \<and> obj s' n = Some m \<and> OType m = t \<and> Container m = con \<and> (cs con = [] \<longrightarrow> cs' = cs(con := [n]))"
proof -
  note I = map_invD [OF inv]
  have free: "HashTableSize (objs w) div 16 \<le> HashTableFree (objs w)" "0 < HashTableFree (objs w)"
    using r by (simp_all add: room_def word_le_nat_alt word_less_nat_alt)
  obtain mc where mc: "obj (objs w) con = Some mc" "OType mc = 0" using I(3) f unfolding fields_ok_def is_field_def by blast
  have h: "has E mc CONTENT" using field_type_flags(1) [OF E(2)] mc(2) by simp
  obtain n s' us vs where n: "set_object E con t 0 (objs w) = Some (n, s')" "cs con = us @ vs" "world_inv E s' fs (cs(con := us @ n # vs))"
    "created E (objs w) n t s'" using set_object_ok [OF E(1) I(1) free mc(1) h t(2)] by blast
  obtain m where m: "obj s' n = Some m" "OType m = t" using n(4) by (auto simp: created_def)
  have "map_inv E (w\<lparr>objs := s'\<rparr>) fs (cs(con := us @ n # vs))"
  proof (rule map_alike [OF inv n(3), of "- {n}"])
    fix c k mk assume k: "k \<in> set ((cs(con := us @ n # vs)) c)" "k \<notin> set (cs c)" "obj s' k = Some mk"
    then have "k = n" using n(2) by (auto split: if_splits)
    then show "OType mk \<noteq> TYPEID_MAP_CONTAINER" using k(3) m t(1) by simp
  qed (use n(4) in \<open>auto simp: created_def\<close>)
  moreover have "Container m = con" using tree_invD(3) [OF world_invD(2) [OF n(3)], of n con] m(1) by simp
  moreover have "room s' fs k"
  proof -
    have "HashTableFree s' = HashTableFree (objs w) - 1" "HashTableSize s' = HashTableSize (objs w)" using n(4) by (simp_all add: created_def entries_def)
    moreover have "unat (HashTableFree (objs w) - 1) = unat (HashTableFree (objs w)) - 1" using free(2) by (intro unat_minus_one) auto
    ultimately show ?thesis using r by (auto simp: room_def)
  qed
  ultimately show ?thesis using n(1,2) m by (intro exI [of _ n] exI [of _ s'] exI [of _ "cs(con := us @ n # vs)"] exI [of _ m]) simp
qed

lemma map_coordinates:
  assumes "map_inv E w fs cs" "on_map w x y z" "field_of w x y z = Some con" "n \<in> inside cs con"
  shows "get_object_coordinates E n (objs w) = Some ((x, y, z), objs w)"
proof -
  note I = map_invD [OF assms(1)]
  have "is_field (objs w) con x y z" using I(3) assms(2,3) by (auto simp: fields_ok_def)
  then show ?thesis using get_object_coordinates_ok [OF I(5,6,4) _ assms(4)] on_map_bounds [OF I(2) assms(2)] by blast
qed

section \<open>An example\<close>

definition sample_map :: "objects \<Rightarrow> game_map" where
  "sample_map s = \<lparr>SectorXMin = 0, SectorXMax = 1, SectorYMin = 0, SectorYMax = 0, SectorZMin = 7, SectorZMax = 7,
     SectorMatrix = \<lparr>xmin3 = 0, ymin3 = 0, zmin3 = 7, dx3 = 2, dy3 = 1, dz3 = 1, entry3 = [None, None]\<rparr>,
     DepotInfoArray = vector_new 0 4 5 \<lparr>Town = [], DSize = 0\<rparr>,
     MarkArray = vector_new 0 4 5 \<lparr>MName = [], markx = 0, marky = 0, markz = 0\<rparr>, Marks = 0,
     NewbieStart = (0, 0, 0), VeteranStart = (0, 0, 0), objs = s\<rparr>"

lemma sample_field_type: "field_type sample_env"
proof -
  have "list_all (\<lambda>i. has_instance_attribute [16, 0, 0, 0, 0, 0, 0, 0, 0] i \<longleftrightarrow> i = 0) [0..<18]" by code_simp
  then have "has_instance_attribute [16, 0, 0, 0, 0, 0, 0, 0, 0] i \<longleftrightarrow> i = 0" if "i < 18" for i using that by (simp add: list_all_iff)
  then show ?thesis by (auto simp: field_type_def has_attribute_def sample_env_def sample_type_def sample_flags_def nat_less_iff)
qed

lemma sample_map_start:
  "\<exists>w fs. map_inv sample_env w fs (\<lambda>_. []) \<and> room (objs w) fs (1024 + 100) \<and> sector_at w 0 0 7 = None \<and> in_sectors w 0 0 7
    \<and> (\<exists>s. w = sample_map s \<and> obj s = (\<lambda>_. None))"
proof -
  obtain s fs where s: "world_inv sample_env s fs (\<lambda>_. [])" "obj s = (\<lambda>_. None)" "length fs = 32767" "HashTableFree s = 2 ^ 11 - 1" "HashTableSize s = 2 ^ 11"
    using init_world [of 1 11 sample_env "Ptr 0" undefined] by auto
  have ok: "map_ok (sample_map s)" by (simp add: map_ok_def sample_map_def matrix3d_inv_def)
  have e: "sector_at (sample_map s) sx sy sz = None" for sx sy sz
  proof -
    have "nat (sector_cell (sample_map s) sx sy sz) < length (entry3 (SectorMatrix (sample_map s)))"
      using sector_cell_range [OF ok, of sx sy sz] by (simp add: nat_less_iff)
    then have "sector_at (sample_map s) sx sy sz \<in> set (entry3 (SectorMatrix (sample_map s)))" unfolding sector_at_def by (rule nth_mem)
    then show ?thesis by (simp add: sample_map_def)
  qed
  have u: "unat ((2 ^ 11 :: u32) div 16) = 128" "unat (2 ^ 11 - 1 :: u32) = 2047" by code_simp+
  have "map_inv sample_env (sample_map s) fs (\<lambda>_. [])"
    using s(1) e ok by (simp add: map_inv_def fields_ok_def fields_outside_def field_of_def) (simp add: sample_map_def)
  moreover have "room (objs (sample_map s)) fs (1024 + 100)" using s(3-5) u by (simp add: room_def sample_map_def)
  ultimately show ?thesis using s(2) e by (intro exI [of _ "sample_map s"] exI [of _ fs]) (auto simp: in_sectors_def sample_map_def)
qed

text \<open>The map with one sector, and an object on one of its fields.\<close>

lemma sample_sector:
  "\<exists>w fs a b. map_inv sample_env w fs (\<lambda>_. []) \<and> room (objs w) fs 100 \<and> on_map w 5 9 7 \<and> on_map w 6 9 7
    \<and> field_of w 5 9 7 = Some a \<and> field_of w 6 9 7 = Some b \<and> field_word w 5 9 7 = 7"
proof -
  obtain s fs where s: "map_inv sample_env (sample_map s) fs (\<lambda>_. [])" "room (objs (sample_map s)) fs (1024 + 100)"
    "sector_at (sample_map s) 0 0 7 = None" "in_sectors (sample_map s) 0 0 7" using sample_map_start by blast
  have o: "on_map (sample_map s) 5 9 7" "on_map (sample_map s) 6 9 7" by (simp_all add: on_map_def in_sectors_def sample_map_def)
  obtain w' where w': "map_inv sample_env w' (drop 1024 fs) (\<lambda>_. [])" "room (objs w') (drop 1024 fs) 100"
    "\<forall>x y z. on_map (sample_map s) x y z \<longrightarrow> on_map w' x y z \<and> (if (x div 32, y div 32, z) = (0, 0, 7)
        then \<exists>con. field_of w' x y z = Some con \<and> ((\<lambda>_. []) :: u32 \<Rightarrow> u32 list) con = [] \<and> field_word w' x y z = word_of_int z else field_of w' x y z = field_of (sample_map s) x y z)"
    using init_sector_ok [OF sample_loaded(1) sample_field_type s(1,2,4,3)] by blast
  show ?thesis using w'(1,2) w'(3) [rule_format, OF o(1)] w'(3) [rule_format, OF o(2)] by auto
qed

lemma sample_placed:
  "\<exists>w fs cs a b n m. map_inv sample_env w fs cs \<and> on_map w 5 9 7 \<and> on_map w 6 9 7 \<and> field_of w 5 9 7 = Some a \<and> field_of w 6 9 7 = Some b
    \<and> n \<in> set (cs a) \<and> obj (objs w) n = Some m \<and> OType m = 1 \<and> Container m = a \<and> a \<noteq> 0"
proof -
  obtain w fs a b where w: "map_inv sample_env w fs (\<lambda>_. [])" "room (objs w) fs 100" "on_map w 5 9 7" "on_map w 6 9 7"
    "field_of w 5 9 7 = Some a" "field_of w 6 9 7 = Some b" using sample_sector by blast
  obtain p fs' where fs: "fs = p # fs'" using w(2) by (cases fs) (auto simp: room_def)
  have t: "(1 :: int) \<noteq> TYPEID_MAP_CONTAINER" "\<not> is_creature_container 1" by (simp_all add: is_creature_container_def)
  have r: "room (objs w) (p # fs') (Suc 99)" using w(2) fs by simp
  obtain n s' cs' m where n: "map_inv sample_env (w\<lparr>objs := s'\<rparr>) fs' cs'" "n \<in> set (cs' a)" "obj s' n = Some m" "OType m = 1" "Container m = a"
    using set_object_map [OF sample_loaded(1) sample_field_type w(1) [unfolded fs] r t w(3,5)] by blast
  obtain ma where "obj (objs w) a = Some ma" using map_invD(3) [OF w(1)] w(3,5) unfolding fields_ok_def is_field_def by blast
  then have "a \<noteq> 0" by auto
  then show ?thesis using n w(3-6) by (intro exI [of _ "w\<lparr>objs := s'\<rparr>"] exI) auto
qed

section \<open>Properties\<close>

text \<open>
  C7: \<open>init_sector\<close> creates the 1024 fields of a sector: every coordinate of the sector gets its own empty field, with its coordinates
  in the object, the fields of the other sectors stay, and the invariant of the map holds.
\<close>

theorem init_sector_correct:
  assumes "loaded_types E" "field_type E" "map_inv E w fs cs" "room (objs w) fs (1024 + k)"
    "in_sectors w sx sy sz" "sector_at w sx sy sz = None"
  shows "\<exists>w'. init_sector E sx sy sz w = Some w' \<and> map_inv E w' (drop 1024 fs) cs \<and> room (objs w') (drop 1024 fs) k \<and> extends (objs w) (objs w')
    \<and> (\<forall>x y z. on_map w x y z \<longrightarrow> on_map w' x y z \<and> (if (x div 32, y div 32, z) = (sx, sy, sz)
        then \<exists>con. field_of w' x y z = Some con \<and> cs con = [] \<and> field_word w' x y z = word_of_int z else field_of w' x y z = field_of w x y z))"
  by (rule init_sector_ok [OF assms])

theorem init_sector_correct_witness:
  "\<exists>s w' fs. init_sector sample_env 0 0 7 (sample_map s) = Some w' \<and> map_inv sample_env w' fs (\<lambda>_. [])"
proof -
  obtain s fs where s: "map_inv sample_env (sample_map s) fs (\<lambda>_. [])" "room (objs (sample_map s)) fs (1024 + 100)"
    "sector_at (sample_map s) 0 0 7 = None" "in_sectors (sample_map s) 0 0 7" using sample_map_start by blast
  show ?thesis using init_sector_correct [OF sample_loaded(1) sample_field_type s(1,2,4,3)] by blast
qed

text \<open>
  C8: \<open>get_map_container(x, y, z)\<close> finds the field of a coordinate, and \<open>get_object_coordinates\<close> gives this coordinate for the
  field and for everything on it, however deep in containers.
\<close>

theorem field_coordinates:
  assumes "map_inv E w fs cs" "on_map w x y z" "field_of w x y z = Some con" "n \<in> inside cs con"
  shows "get_map_container_at E x y z w = Some (con, touch E x y z w) \<and> map_inv E (touch E x y z w) fs cs
    \<and> get_object_coordinates E n (objs w) = Some ((x, y, z), objs w)"
  using get_map_container_at_ok [OF assms(1,2)] map_inv_touch [OF assms(1,2)] map_coordinates [OF assms] assms(3) by simp

theorem field_coordinates_witness:
  "\<exists>w n con. get_map_container_at sample_env 5 9 7 w = Some (con, touch sample_env 5 9 7 w) \<and> n \<noteq> con
    \<and> get_object_coordinates sample_env n (objs w) = Some ((5, 9, 7), objs w)"
proof -
  obtain w fs cs a n m where w: "map_inv sample_env w fs cs" "on_map w 5 9 7" "field_of w 5 9 7 = Some a" "n \<in> set (cs a)"
    "obj (objs w) n = Some m" "OType m = 1" using sample_placed by blast
  have "n \<in> inside cs a" using inside_step [OF inside_refl] w(4) by blast
  moreover have "n \<noteq> a" using map_invD(3) [OF w(1)] w(2,3,5,6) unfolding fields_ok_def is_field_def by fastforce
  ultimately show ?thesis using field_coordinates [OF w(1-3)] by blast
qed

text \<open>
  C6: After \<open>move_object\<close> to a field, the object and everything inside it are at the coordinates of this field, and the invariant of
  the map holds.
\<close>

theorem move_object_coordinates:
  assumes "loaded_types E" "field_type E" "map_inv E w fs cs" "obj (objs w) n = Some m" "OType m \<noteq> TYPEID_MAP_CONTAINER" "Container m \<noteq> 0"
    "on_map w x y z" "field_of w x y z = Some con"
  shows "\<exists>s' cs'. move_object E n con (objs w) = Some s' \<and> map_inv E (w\<lparr>objs := s'\<rparr>) fs cs' \<and> n \<in> set (cs' con)
    \<and> (\<forall>k\<in>inside cs n. get_object_coordinates E k s' = Some ((x, y, z), s'))"
proof -
  obtain s' cs' where s': "move_object E n con (objs w) = Some s'" "map_inv E (w\<lparr>objs := s'\<rparr>) fs cs'" "n \<in> set (cs' con)" "inside cs n \<subseteq> inside cs' con"
    using move_object_map [OF assms] by blast
  have "get_object_coordinates E k s' = Some ((x, y, z), s')" if "k \<in> inside cs n" for k
    using map_coordinates [OF s'(2), of x y z con k] assms(7,8) s'(4) that by auto
  then show ?thesis using s' by blast
qed

theorem move_object_coordinates_witness:
  "\<exists>(w :: game_map) n con s'. get_object_coordinates sample_env n (objs w) = Some ((5, 9, 7), objs w) \<and> move_object sample_env n con (objs w) = Some s'
    \<and> get_object_coordinates sample_env n s' = Some ((6, 9, 7), s')"
proof -
  obtain w fs cs a b n m where w: "map_inv sample_env w fs cs" "on_map w 5 9 7" "on_map w 6 9 7" "field_of w 5 9 7 = Some a" "field_of w 6 9 7 = Some b"
    "n \<in> set (cs a)" "obj (objs w) n = Some m" "OType m = 1" "Container m = a" "a \<noteq> 0" using sample_placed by blast
  have "n \<in> inside cs a" using inside_step [OF inside_refl] w(6) by blast
  then have c: "get_object_coordinates sample_env n (objs w) = Some ((5, 9, 7), objs w)" by (rule map_coordinates [OF w(1,2,4)])
  have m: "OType m \<noteq> TYPEID_MAP_CONTAINER" "Container m \<noteq> 0" using w(8-10) by simp_all
  obtain s' where s': "move_object sample_env n b (objs w) = Some s'" "\<forall>k\<in>inside cs n. get_object_coordinates sample_env k s' = Some ((6, 9, 7), s')"
    using move_object_coordinates [OF sample_loaded(1) sample_field_type w(1,7) m w(3,5)] by blast
  from s'(2) have "get_object_coordinates sample_env n s' = Some ((6, 9, 7), s')" using inside_refl by (rule bspec)
  then show ?thesis using c s'(1) by blast
qed

text \<open>
  C13: A field without a house gets the number given to \<open>set_house_id\<close>, and \<open>get_house_id\<close> returns it; the flags of the field and the
  houses of all other fields stay, and so do the coordinates. A field with a house keeps it.
\<close>

theorem house_id_roundtrip:
  assumes "field_type E" "map_inv E w fs cs" "on_map w x y z" "field_of w x y z = Some con" "get_house_id E x y z w = Some (0, w0)"
  shows "\<exists>w'. set_house_id E x y z ID w = Some w' \<and> map_inv E w' fs cs
    \<and> get_house_id E x y z w' = Some (ID, touch E x y z w')
    \<and> map_option fst (field_flag E Mask x y z w') = map_option fst (field_flag E Mask x y z w)
    \<and> (\<forall>a b c. on_map w a b c \<longrightarrow> field_of w a b c \<noteq> None \<longrightarrow> (a, b, c) \<noteq> (x, y, z) \<longrightarrow>
        map_option fst (get_house_id E a b c w') = map_option fst (get_house_id E a b c w))
    \<and> (ID \<noteq> 0 \<longrightarrow> (\<exists>w2. set_house_id E x y z ID2 w' = Some w2 \<and> get_house_id E x y z w2 = Some (ID, touch E x y z w2)))"
proof -
  have h: "ucast (drop_bit 16 (field_word w x y z)) = (0 :: u16)" using get_house_id_ok [OF assms(2-4)] assms(5) by simp
  obtain w' where w': "set_house_id E x y z ID w = Some w'" "map_inv E w' fs cs" "on_map w' = on_map w"
    "\<forall>a b c. on_map w a b c \<longrightarrow> field_of w' a b c = field_of w a b c" "field_word w' x y z = field_word w x y z OR push_bit 16 (ucast ID)"
    "\<forall>a b c. on_map w a b c \<longrightarrow> field_of w a b c \<noteq> None \<longrightarrow> (a, b, c) \<noteq> (x, y, z) \<longrightarrow> field_word w' a b c = field_word w a b c"
    using set_house_id_ok [OF assms(1-4) h] by blast
  have f: "on_map w' x y z" "field_of w' x y z = Some con" using w'(3,4) assms(3,4) by simp_all
  note H = house_word [OF h, of ID]
  have g: "get_house_id E x y z w' = Some (ID, touch E x y z w')" using get_house_id_ok [OF w'(2) f] w'(5) H(1) by simp
  have other: "map_option fst (get_house_id E a b c w') = map_option fst (get_house_id E a b c w)"
    if o: "on_map w a b c" "field_of w a b c \<noteq> None" "(a, b, c) \<noteq> (x, y, z)" for a b c
  proof -
    obtain con' where "field_of w a b c = Some con'" using o(2) by blast
    then show ?thesis using get_house_id_ok [OF assms(2) o(1)] get_house_id_ok [OF w'(2), of a b c con'] w'(3,4,6) o by simp
  qed
  have "\<exists>w2. set_house_id E x y z ID2 w' = Some w2 \<and> get_house_id E x y z w2 = Some (ID, touch E x y z w2)" if "ID \<noteq> 0"
    by (rule set_house_id_refused [OF w'(2) f]) (use g that in auto)
  then show ?thesis using w'(1,2) g other get_flags_ok [OF w'(2) f, of Mask] get_flags_ok [OF assms(2-4), of Mask] H(3) w'(5) by auto
qed

theorem house_id_roundtrip_witness:
  "\<exists>w w'. set_house_id sample_env 5 9 7 12 w = Some w' \<and> get_house_id sample_env 5 9 7 w' = Some (12, touch sample_env 5 9 7 w')"
proof -
  obtain w fs a where w: "map_inv sample_env w fs (\<lambda>_. [])" "on_map w 5 9 7" "field_of w 5 9 7 = Some a" "field_word w 5 9 7 = 7"
    using sample_sector by blast
  have "(ucast (drop_bit 16 (7 :: u32)) :: u16) = 0" by code_simp
  then have "get_house_id sample_env 5 9 7 w = Some (0, touch sample_env 5 9 7 w)" using get_house_id_ok [OF w(1-3)] w(4) by simp
  from house_id_roundtrip [OF sample_field_type w(1-3) this, of 12] show ?thesis by blast
qed

end
