(* ===== verification/Spiral.thy ===== *)
theory Spiral
  imports Prelude
begin

text \<open>
  The search for a field around a coordinate, as \<open>search_free_field\<close> and \<open>search_login_field\<close> of \<open>game_data/info/info.cpp\<close>
  do it: offsets are tried along a spiral, ring after ring, until the test of a field succeeds or the rings are larger
  than the distance. The test is the interface of this theory: it may change the state, but not its own answers.
\<close>

section \<open>The spiral\<close>

datatype direction = NORTH | EAST | SOUTH | WEST

text \<open>\<open>OffsetX\<close>, \<open>OffsetY\<close>, \<open>CurrentDistance\<close> and \<open>CurrentDirection\<close>.\<close>

type_synonym spiral = "int \<times> int \<times> int \<times> direction"

fun spiral_step :: "spiral \<Rightarrow> spiral" where
  "spiral_step (OffsetX, OffsetY, CurrentDistance, NORTH) =
     (OffsetX, OffsetY - 1, CurrentDistance, if OffsetY - 1 \<le> - CurrentDistance then WEST else NORTH)"
| "spiral_step (OffsetX, OffsetY, CurrentDistance, WEST) =
     (OffsetX - 1, OffsetY, CurrentDistance, if OffsetX - 1 \<le> - CurrentDistance then SOUTH else WEST)"
| "spiral_step (OffsetX, OffsetY, CurrentDistance, SOUTH) =
     (OffsetX, OffsetY + 1, CurrentDistance, if OffsetY + 1 \<ge> CurrentDistance then EAST else SOUTH)"
| "spiral_step (OffsetX, OffsetY, CurrentDistance, EAST) =
     (if OffsetX + 1 > CurrentDistance then (OffsetX + 1, OffsetY, OffsetX + 1, NORTH)
      else (OffsetX + 1, OffsetY, CurrentDistance, EAST))"

definition spiral_start :: spiral where
  "spiral_start = (0, 0, 0, EAST)"

partial_function (option) spiral_search :: "(int \<Rightarrow> int \<Rightarrow> 'w \<Rightarrow> (bool \<times> 'w) option) \<Rightarrow> int \<Rightarrow> spiral \<Rightarrow> 'w \<Rightarrow>
    ((int \<times> int) option \<times> 'w) option" where
  "spiral_search test Distance st w =
     (if fst (snd (snd st)) > Distance then Some (None, w)
      else Option.bind (test (fst st) (fst (snd st)) w) (\<lambda>(found, w).
        if found then Some (Some (fst st, fst (snd st)), w) else spiral_search test Distance (spiral_step st) w))"

declare spiral_search.simps [code]

section \<open>Rings\<close>

definition ring :: "int \<Rightarrow> int \<Rightarrow> int" where
  "ring a b = max \<bar>a\<bar> \<bar>b\<bar>"

lemma ring_nonneg: "0 \<le> ring a b"
  by (simp add: ring_def max_def)

abbreviation nth_state :: "nat \<Rightarrow> spiral \<Rightarrow> spiral" where
  "nth_state k st \<equiv> (spiral_step ^^ k) st"

abbreviation ring_start :: "nat \<Rightarrow> spiral" where
  "ring_start d \<equiv> (int d, int d - 1, int d, NORTH)"

text \<open>The four sides of a ring.\<close>

lemma side_north: "k < 2 * d \<Longrightarrow> nth_state k (ring_start d) = (int d, int d - 1 - int k, int d, if Suc k = 2 * d then WEST else NORTH)"
proof (induction k)
  case (Suc k)
  then have "nth_state k (ring_start d) = (int d, int d - 1 - int k, int d, NORTH)" by simp
  then show ?case using Suc.prems by auto
qed auto

lemma side_west: "0 < d \<Longrightarrow> k \<le> 2 * d \<Longrightarrow>
    nth_state k (int d, - int d, int d, WEST) = (int d - int k, - int d, int d, if k = 2 * d then SOUTH else WEST)"
proof (induction k)
  case (Suc k)
  then have "nth_state k (int d, - int d, int d, WEST) = (int d - int k, - int d, int d, WEST)" by simp
  then show ?case using Suc.prems by auto
qed simp

lemma side_south: "0 < d \<Longrightarrow> k \<le> 2 * d \<Longrightarrow>
    nth_state k (- int d, - int d, int d, SOUTH) = (- int d, int k - int d, int d, if k = 2 * d then EAST else SOUTH)"
proof (induction k)
  case (Suc k)
  then have "nth_state k (- int d, - int d, int d, SOUTH) = (- int d, int k - int d, int d, SOUTH)" by simp
  then show ?case using Suc.prems by auto
qed simp

lemma side_east: "k \<le> 2 * d \<Longrightarrow> nth_state k (- int d, int d, int d, EAST) = (int k - int d, int d, int d, EAST)"
  by (induction k) auto

lemma corners:
  assumes "0 < d"
  shows "nth_state (2 * d - 1) (ring_start d) = (int d, - int d, int d, WEST)"
    "nth_state (4 * d - 1) (ring_start d) = (- int d, - int d, int d, SOUTH)"
    "nth_state (6 * d - 1) (ring_start d) = (- int d, int d, int d, EAST)"
    "nth_state (8 * d - 1) (ring_start d) = (int d, int d, int d, EAST)"
    "nth_state (8 * d) (ring_start d) = ring_start (Suc d)"
proof -
  show n: "nth_state (2 * d - 1) (ring_start d) = (int d, - int d, int d, WEST)" using side_north [of "2 * d - 1" d] assms by simp
  have "4 * d - 1 = 2 * d + (2 * d - 1)" using assms by simp
  then have "nth_state (4 * d - 1) (ring_start d) = nth_state (2 * d) (nth_state (2 * d - 1) (ring_start d))"
    by (simp only: funpow_add o_apply)
  then show w: "nth_state (4 * d - 1) (ring_start d) = (- int d, - int d, int d, SOUTH)"
    unfolding n using side_west [OF assms, of "2 * d"] by simp
  have "6 * d - 1 = 2 * d + (4 * d - 1)" using assms by simp
  then have "nth_state (6 * d - 1) (ring_start d) = nth_state (2 * d) (nth_state (4 * d - 1) (ring_start d))"
    by (simp only: funpow_add o_apply)
  then show s: "nth_state (6 * d - 1) (ring_start d) = (- int d, int d, int d, EAST)"
    unfolding w using side_south [OF assms, of "2 * d"] by simp
  have "8 * d - 1 = 2 * d + (6 * d - 1)" using assms by simp
  then have "nth_state (8 * d - 1) (ring_start d) = nth_state (2 * d) (nth_state (6 * d - 1) (ring_start d))"
    by (simp only: funpow_add o_apply)
  then show e: "nth_state (8 * d - 1) (ring_start d) = (int d, int d, int d, EAST)"
    unfolding s using side_east [of "2 * d" d] by simp
  have "8 * d = Suc (8 * d - 1)" using assms by simp
  then have "nth_state (8 * d) (ring_start d) = spiral_step (nth_state (8 * d - 1) (ring_start d))" by (metis funpow.simps(2) o_apply)
  then show "nth_state (8 * d) (ring_start d) = ring_start (Suc d)" unfolding e by simp
qed

text \<open>Every state of a ring has its distance, and every offset of the ring is one of them.\<close>

lemma ring_states:
  assumes "0 < d" "k < 8 * d"
  shows "\<exists>a b dir. nth_state k (ring_start d) = (a, b, int d, dir) \<and> ring a b = int d"
proof -
  note C = corners [OF assms(1)]
  have add: "nth_state (i + j) (ring_start d) = nth_state i (nth_state j (ring_start d))" for i j by (simp only: funpow_add o_apply)
  consider "k < 2 * d" | i where "k = i + (2 * d - 1)" "i \<le> 2 * d" | i where "k = i + (4 * d - 1)" "i \<le> 2 * d"
    | i where "k = i + (6 * d - 1)" "i \<le> 2 * d"
  proof -
    have "k < 2 * d \<or> (2 * d - 1 \<le> k \<and> k - (2 * d - 1) \<le> 2 * d) \<or> (4 * d - 1 \<le> k \<and> k - (4 * d - 1) \<le> 2 * d)
      \<or> (6 * d - 1 \<le> k \<and> k - (6 * d - 1) \<le> 2 * d)" using assms by linarith
    then show thesis using that by (metis le_add_diff_inverse2)
  qed
  then show ?thesis
  proof cases
    case 1
    then show ?thesis using side_north [OF 1] by (simp add: ring_def)
  next
    case (2 i)
    then show ?thesis using add [of i] C(1) side_west [OF assms(1) 2(2)] by (simp add: ring_def)
  next
    case (3 i)
    then show ?thesis using add [of i] C(2) side_south [OF assms(1) 3(2)] by (simp add: ring_def)
  next
    case (4 i)
    then show ?thesis using add [of i] C(3) side_east [OF 4(2)] by (simp add: ring_def)
  qed
qed

lemma ring_complete:
  assumes "0 < d" "ring a b = int d"
  shows "\<exists>k dir. k < 8 * d \<and> nth_state k (ring_start d) = (a, b, int d, dir)"
proof -
  note C = corners [OF assms(1)]
  have add: "nth_state (i + j) (ring_start d) = nth_state i (nth_state j (ring_start d))" for i j by (simp only: funpow_add o_apply)
  have r: "\<bar>a\<bar> \<le> int d" "\<bar>b\<bar> \<le> int d" "\<bar>a\<bar> = int d \<or> \<bar>b\<bar> = int d" using assms(2) by (auto simp: ring_def max_def split: if_splits)
  have "(a = int d \<and> b < int d) \<or> (b = - int d \<and> a < int d) \<or> (a = - int d \<and> - int d < b) \<or> (b = int d \<and> - int d < a)"
    using r assms(1) by linarith
  then consider "a = int d" "b < int d" | "b = - int d" "a < int d" | "a = - int d" "- int d < b" | "b = int d" "- int d < a"
    by blast
  then show ?thesis
  proof cases
    case 1
    let ?k = "nat (int d - 1 - b)"
    have "?k < 2 * d" using 1 r by linarith
    then show ?thesis using side_north [of ?k d] 1 r by (intro exI [of _ ?k]) auto
  next
    case 2
    let ?i = "nat (int d - a)"
    have "?i \<le> 2 * d" "?i + (2 * d - 1) < 8 * d" using 2 r by linarith+
    then show ?thesis using add [of ?i "2 * d - 1"] C(1) side_west [OF assms(1), of ?i] 2 by (intro exI [of _ "?i + (2 * d - 1)"]) auto
  next
    case 3
    let ?i = "nat (b + int d)"
    have "?i \<le> 2 * d" "?i + (4 * d - 1) < 8 * d" using 3 r by linarith+
    then show ?thesis using add [of ?i "4 * d - 1"] C(2) side_south [OF assms(1), of ?i] 3 by (intro exI [of _ "?i + (4 * d - 1)"]) auto
  next
    case 4
    let ?i = "nat (a + int d)"
    have "?i \<le> 2 * d" "?i + (6 * d - 1) < 8 * d" using 4 r assms(1) by linarith+
    then show ?thesis using add [of ?i "6 * d - 1"] C(3) side_east [of ?i d] 4 by (intro exI [of _ "?i + (6 * d - 1)"]) auto
  qed
qed

text \<open>The number of offsets in the rings before the ring \<open>d\<close>.\<close>

fun ring_index :: "nat \<Rightarrow> nat" where
  "ring_index 0 = 0"
| "ring_index (Suc d) = (if d = 0 then 1 else ring_index d + 8 * d)"

lemma ring_index_less: "ring_index d < ring_index (Suc d)"
  by (cases d) auto

lemma ring_index_mono: "d \<le> e \<Longrightarrow> ring_index d \<le> ring_index e"
  by (rule lift_Suc_mono_le [of ring_index]) (use ring_index_less less_imp_le in blast)+

lemma ring_index_start: "0 < d \<Longrightarrow> nth_state (ring_index d) spiral_start = ring_start d"
proof (induction d)
  case (Suc d)
  show ?case
  proof (cases "d = 0")
    case True
    then show ?thesis by (simp add: spiral_start_def)
  next
    case False
    then have "ring_index (Suc d) = 8 * d + ring_index d" by simp
    then have "nth_state (ring_index (Suc d)) spiral_start = nth_state (8 * d) (nth_state (ring_index d) spiral_start)"
      by (simp only: funpow_add o_apply)
    then show ?thesis using Suc.IH False corners(5) [of d] by simp
  qed
qed simp

lemma state_in_ring:
  assumes "ring_index d \<le> k" "k < ring_index (Suc d)"
  shows "\<exists>a b dir. nth_state k spiral_start = (a, b, int d, dir) \<and> ring a b = int d"
proof (cases "d = 0")
  case True
  then show ?thesis using assms by (auto simp: spiral_start_def ring_def)
next
  case False
  obtain i where i: "k = i + ring_index d" using assms(1) by (metis le_add_diff_inverse2)
  then have "i < 8 * d" using assms(2) False by simp
  moreover have "nth_state k spiral_start = nth_state i (ring_start d)"
    unfolding i using ring_index_start [of d] False by (simp add: funpow_add)
  ultimately show ?thesis using ring_states [of d i] False by simp
qed

lemma offset_in_ring:
  assumes "ring a b = int d"
  shows "\<exists>k dir. ring_index d \<le> k \<and> k < ring_index (Suc d) \<and> nth_state k spiral_start = (a, b, int d, dir)"
proof (cases "d = 0")
  case True
  then have "a = 0" "b = 0" using assms by (auto simp: ring_def max_def split: if_splits)
  then show ?thesis using True by (intro exI [of _ 0]) (simp add: spiral_start_def)
next
  case False
  then obtain i dir where i: "i < 8 * d" "nth_state i (ring_start d) = (a, b, int d, dir)" using ring_complete [of d a b] assms by auto
  have "nth_state (i + ring_index d) spiral_start = nth_state i (ring_start d)"
    using ring_index_start [of d] False by (simp add: funpow_add)
  then show ?thesis using i False by (intro exI [of _ "i + ring_index d"]) auto
qed

lemma state_ring_cases: "\<exists>d. ring_index d \<le> k \<and> k < ring_index (Suc d)"
proof (induction k)
  case (Suc k)
  then obtain d where "ring_index d \<le> k" "k < ring_index (Suc d)" by blast
  then show ?case using ring_index_less [of "Suc d"] by (cases "Suc k < ring_index (Suc d)") (auto simp del: ring_index.simps intro: exI [of _ d] exI [of _ "Suc d"])
qed (auto intro: exI [of _ 0])

section \<open>The search\<close>

definition offset_at :: "nat \<Rightarrow> int \<times> int" where
  "offset_at k = (fst (nth_state k spiral_start), fst (snd (nth_state k spiral_start)))"

text \<open>
  The interface: the test of the fields up to the distance \<open>D\<close> returns in every state that satisfies \<open>inv\<close>, keeps \<open>inv\<close>, and its
  answers \<open>ok\<close> do not change.
\<close>

locale field_test =
  fixes test :: "int \<Rightarrow> int \<Rightarrow> 'w \<Rightarrow> (bool \<times> 'w) option"
    and inv :: "'w \<Rightarrow> bool"
    and ok :: "int \<Rightarrow> int \<Rightarrow> bool"
    and D :: nat
  assumes test_returns: "inv w \<Longrightarrow> ring a b \<le> int D \<Longrightarrow> \<exists>w'. test a b w = Some (ok a b, w') \<and> inv w'"
begin

lemma search_from:
  assumes "inv w" "k \<le> ring_index (Suc D)"
  shows "\<exists>r w'. spiral_search test (int D) (nth_state k spiral_start) w = Some (r, w') \<and> inv w' \<and>
    (case r of None \<Rightarrow> \<forall>i. k \<le> i \<and> i < ring_index (Suc D) \<longrightarrow> \<not> case_prod ok (offset_at i)
     | Some p \<Rightarrow> \<exists>j. k \<le> j \<and> j < ring_index (Suc D) \<and> offset_at j = p \<and> case_prod ok p \<and> (\<forall>i. k \<le> i \<and> i < j \<longrightarrow> \<not> case_prod ok (offset_at i)))"
  using assms
proof (induction "ring_index (Suc D) - k" arbitrary: k w)
  case 0
  then have "k = ring_index (Suc D)" by simp
  then have "nth_state k spiral_start = ring_start (Suc D)" using ring_index_start [of "Suc D"] by simp
  then have "spiral_search test (int D) (nth_state k spiral_start) w = Some (None, w)" by (subst spiral_search.simps) simp
  then show ?case using 0(2) \<open>k = ring_index (Suc D)\<close> by (auto simp del: ring_index.simps)
next
  case (Suc n)
  then have k: "k < ring_index (Suc D)" by simp
  obtain d where d: "ring_index d \<le> k" "k < ring_index (Suc d)" using state_ring_cases by blast
  have "d \<le> D"
  proof (rule ccontr)
    assume "\<not> d \<le> D"
    then have "ring_index (Suc D) \<le> ring_index d" by (intro ring_index_mono) simp
    then show False using d(1) k by linarith
  qed
  obtain a b dir where st: "nth_state k spiral_start = (a, b, int d, dir)" "ring a b = int d" using state_in_ring [OF d] by blast
  have o: "offset_at k = (a, b)" using st by (simp add: offset_at_def)
  obtain w1 where w1: "test a b w = Some (ok a b, w1)" "inv w1" using test_returns [OF Suc.prems(1), of a b] st(2) \<open>d \<le> D\<close> by auto
  show ?case
  proof (cases "ok a b")
    case True
    then have "spiral_search test (int D) (nth_state k spiral_start) w = Some (Some (a, b), w1)"
      using st \<open>d \<le> D\<close> w1(1) by (subst spiral_search.simps) simp
    then show ?thesis using w1(2) True o k by auto
  next
    case False
    have "nth_state (Suc k) spiral_start = spiral_step (nth_state k spiral_start)" by simp
    then have e: "spiral_search test (int D) (nth_state k spiral_start) w = spiral_search test (int D) (nth_state (Suc k) spiral_start) w1"
      using st \<open>d \<le> D\<close> w1(1) False by (subst spiral_search.simps) simp
    have "n = ring_index (Suc D) - Suc k" "Suc k \<le> ring_index (Suc D)" using Suc.hyps(2) k by simp_all
    then obtain r w' where r: "spiral_search test (int D) (nth_state (Suc k) spiral_start) w1 = Some (r, w')" "inv w'"
      "case r of None \<Rightarrow> \<forall>i. Suc k \<le> i \<and> i < ring_index (Suc D) \<longrightarrow> \<not> case_prod ok (offset_at i)
       | Some p \<Rightarrow> \<exists>j. Suc k \<le> j \<and> j < ring_index (Suc D) \<and> offset_at j = p \<and> case_prod ok p \<and> (\<forall>i. Suc k \<le> i \<and> i < j \<longrightarrow> \<not> case_prod ok (offset_at i))"
      using Suc.hyps(1) [of "Suc k" w1] w1(2) by blast
    have "\<not> case_prod ok (offset_at k)" using o False by simp
    then have "case r of None \<Rightarrow> \<forall>i. k \<le> i \<and> i < ring_index (Suc D) \<longrightarrow> \<not> case_prod ok (offset_at i)
       | Some p \<Rightarrow> \<exists>j. k \<le> j \<and> j < ring_index (Suc D) \<and> offset_at j = p \<and> case_prod ok p \<and> (\<forall>i. k \<le> i \<and> i < j \<longrightarrow> \<not> case_prod ok (offset_at i))"
    proof (cases r)
      case (Some p)
      then obtain j where j: "Suc k \<le> j" "j < ring_index (Suc D)" "offset_at j = p" "case_prod ok p"
        "\<forall>i. Suc k \<le> i \<and> i < j \<longrightarrow> \<not> case_prod ok (offset_at i)" using r(3) by auto
      have "\<not> case_prod ok (offset_at i)" if "k \<le> i" "i < j" for i
        using j(5) \<open>\<not> case_prod ok (offset_at k)\<close> that by (cases "i = k") auto
      moreover have "k \<le> j" using j(1) by simp
      ultimately have "\<exists>j. k \<le> j \<and> j < ring_index (Suc D) \<and> offset_at j = p \<and> case_prod ok p \<and> (\<forall>i. k \<le> i \<and> i < j \<longrightarrow> \<not> case_prod ok (offset_at i))"
        using j(2-4) by (intro exI [of _ j] conjI allI impI) simp_all
      then show ?thesis unfolding Some option.case .
    next
      case None
      then have n: "\<forall>i. Suc k \<le> i \<and> i < ring_index (Suc D) \<longrightarrow> \<not> case_prod ok (offset_at i)" using r(3) by (simp del: ring_index.simps)
      have n2: "\<not> case_prod ok (offset_at i)" if "k \<le> i" "i < ring_index (Suc D)" for i
        using n \<open>\<not> case_prod ok (offset_at k)\<close> that by (cases "i = k") (auto simp del: ring_index.simps)
      show ?thesis unfolding None option.case by (intro allI impI, elim conjE) (rule n2)
    qed
    then show ?thesis using r(2) unfolding e r(1) by (intro exI [of _ r] exI [of _ w'] conjI refl)
  qed
qed

text \<open>The search finds a field with a least ring, or there is none up to the distance.\<close>

lemma search_nearest:
  assumes "inv w"
  shows "\<exists>r w'. spiral_search test (int D) spiral_start w = Some (r, w') \<and> inv w' \<and>
    (case r of None \<Rightarrow> \<forall>a b. ring a b \<le> int D \<longrightarrow> \<not> ok a b
     | Some (a, b) \<Rightarrow> ok a b \<and> ring a b \<le> int D \<and> (\<forall>c d. ok c d \<longrightarrow> ring a b \<le> ring c d))"
proof -
  obtain r w' where r: "spiral_search test (int D) spiral_start w = Some (r, w')" "inv w'"
    "case r of None \<Rightarrow> \<forall>i. 0 \<le> i \<and> i < ring_index (Suc D) \<longrightarrow> \<not> case_prod ok (offset_at i)
     | Some p \<Rightarrow> \<exists>j. 0 \<le> j \<and> j < ring_index (Suc D) \<and> offset_at j = p \<and> case_prod ok p \<and> (\<forall>i. 0 \<le> i \<and> i < j \<longrightarrow> \<not> case_prod ok (offset_at i))"
    using search_from [OF assms, of 0] by auto
  have pos: "\<exists>k. ring_index (nat (ring a b)) \<le> k \<and> k < ring_index (Suc (nat (ring a b))) \<and> offset_at k = (a, b)" for a b
  proof -
    have "ring a b = int (nat (ring a b))" by (simp add: ring_def max_def)
    from offset_in_ring [OF this] show ?thesis unfolding offset_at_def by (metis fst_conv snd_conv)
  qed
  have "case r of None \<Rightarrow> \<forall>a b. ring a b \<le> int D \<longrightarrow> \<not> ok a b
     | Some (a, b) \<Rightarrow> ok a b \<and> ring a b \<le> int D \<and> (\<forall>c d. ok c d \<longrightarrow> ring a b \<le> ring c d)"
  proof (cases r)
    case None
    have "\<not> ok a b" if "ring a b \<le> int D" for a b
    proof -
      obtain k where k: "k < ring_index (Suc (nat (ring a b)))" "offset_at k = (a, b)" using pos by blast
      have "ring_index (Suc (nat (ring a b))) \<le> ring_index (Suc D)" using that by (intro ring_index_mono) simp
      then have "k < ring_index (Suc D)" using k(1) by linarith
      then have "\<not> case_prod ok (offset_at k)" using r(3) None by (simp del: ring_index.simps)
      then show ?thesis using k(2) by simp
    qed
    then show ?thesis using None by simp
  next
    case (Some p)
    obtain a b where p: "p = (a, b)" by (cases p)
    obtain j where j: "j < ring_index (Suc D)" "offset_at j = (a, b)" "ok a b" "\<forall>i<j. \<not> case_prod ok (offset_at i)" using r(3) Some p by auto
    obtain e where e: "ring_index e \<le> j" "j < ring_index (Suc e)" using state_ring_cases by blast
    have re: "ring a b = int e" using state_in_ring [OF e] j(2) by (auto simp: offset_at_def)
    have "e \<le> D"
    proof (rule ccontr)
      assume "\<not> e \<le> D"
      then have "ring_index (Suc D) \<le> ring_index e" by (intro ring_index_mono) simp
      then show False using e(1) j(1) by linarith
    qed
    moreover have "ring a b \<le> ring c d" if "ok c d" for c d
    proof (rule ccontr)
      assume n: "\<not> ring a b \<le> ring c d"
      obtain k where k: "k < ring_index (Suc (nat (ring c d)))" "offset_at k = (c, d)" using pos by blast
      have "Suc (nat (ring c d)) \<le> e" using n re ring_nonneg [of c d] by linarith
      then have "ring_index (Suc (nat (ring c d))) \<le> ring_index e" by (rule ring_index_mono)
      then have "k < j" using k(1) e(1) by linarith
      then have "\<not> case_prod ok (offset_at k)" using j(4) by simp
      then show False using k(2) that by simp
    qed
    ultimately show ?thesis using Some p j(3) re by simp
  qed
  then show ?thesis using r(1,2) by blast
qed

end

end
