(* ===== verification/Field_Query.thy ===== *)
theory Field_Query
  imports Map_Claims Spiral
begin

text \<open>
  Queries on fields of the map (\<open>game_data/info/info.cpp\<close>): the top object, the height, whether a creature can jump or log in there,
  and the search for a free field around a coordinate. They walk the objects of a field. What they need of the creatures is the kind of
  the creature with a number, the parameter \<open>kind\<close> (\<open>get_creature\<close> and \<open>Type\<close>, see \<open>Creature_List\<close>).
\<close>

section \<open>Operations\<close>

abbreviation (input) BED :: int where "BED \<equiv> 20"
abbreviation (input) UNPASS :: int where "UNPASS \<equiv> 32"
abbreviation (input) UNMOVE :: int where "UNMOVE \<equiv> 33"
abbreviation (input) UNTHROW :: int where "UNTHROW \<equiv> 34"
abbreviation (input) UNLAY :: int where "UNLAY \<equiv> 35"
abbreviation (input) AVOID :: int where "AVOID \<equiv> 36"
abbreviation (input) HOOKSOUTH :: int where "HOOKSOUTH \<equiv> 42"
abbreviation (input) HOOKEAST :: int where "HOOKEAST \<equiv> 43"
abbreviation (input) HEIGHT :: int where "HEIGHT \<equiv> 62"
abbreviation (input) ELEVATION :: int where "ELEVATION \<equiv> 59"
abbreviation (input) FIELD_TYPE_MAGICWALL :: int where "FIELD_TYPE_MAGICWALL \<equiv> 4"
abbreviation (input) FIELD_TYPE_WILDGROWTH :: int where "FIELD_TYPE_WILDGROWTH \<equiv> 5"

text \<open>An object that is not ground, border, bottom or top, and with \<open>mv\<close> not a creature either.\<close>

definition stops_top :: "env \<Rightarrow> bool \<Rightarrow> int \<Rightarrow> bool" where
  "stops_top E mv t \<longleftrightarrow> \<not> get_flag (ObjectTypes E) t BANK \<and> \<not> get_flag (ObjectTypes E) t CLIP \<and> \<not> get_flag (ObjectTypes E) t BOTTOM
     \<and> \<not> get_flag (ObjectTypes E) t TOP \<and> (\<not> mv \<or> \<not> is_creature_container t)"

partial_function (option) top_loop :: "env \<Rightarrow> bool \<Rightarrow> u32 \<Rightarrow> objects \<Rightarrow> (u32 \<times> objects) option" where
  "top_loop E mv ob s = Option.bind (get_next_object E ob s) (\<lambda>(Next, s).
     if Next = 0 then Some (ob, s)
     else Option.bind (get_object_type E ob s) (\<lambda>(t, s). if stops_top E mv t then Some (ob, s) else top_loop E mv Next s))"

definition get_top_object :: "env \<Rightarrow> int \<Rightarrow> int \<Rightarrow> int \<Rightarrow> bool \<Rightarrow> game_map \<Rightarrow> (u32 \<times> game_map) option" where
  "get_top_object E x y z mv w = do {
     (ob, w) \<leftarrow> get_first_object E x y z w;
     if ob \<noteq> 0 then on_objs (top_loop E mv ob) w else Some (ob, w)}"

partial_function (option) height_loop :: "env \<Rightarrow> u32 \<Rightarrow> int \<Rightarrow> objects \<Rightarrow> (int \<times> objects) option" where
  "height_loop E ob Result s =
     (if ob = 0 then Some (Result, s)
      else Option.bind (get_object_type E ob s) (\<lambda>(t, s).
        Option.bind (if get_flag (ObjectTypes E) t HEIGHT
             then Option.bind (get_type_attribute (ObjectTypes E) t ELEVATION) (\<lambda>(v, _). Some (sint v)) else Some 0) (\<lambda>h.
        Option.bind (get_next_object E ob s) (\<lambda>(n, s). height_loop E n (Result + h) s))))"

definition get_height :: "env \<Rightarrow> int \<Rightarrow> int \<Rightarrow> int \<Rightarrow> game_map \<Rightarrow> (int \<times> game_map) option" where
  "get_height E x y z w = do {(ob, w) \<leftarrow> get_first_object E x y z w; on_objs (height_loop E ob 0) w}"

text \<open>
  A walk over the objects of a field that returns \<open>False\<close> at the first object that \<open>stop\<close> names, and at the end
  whether there was a ground: the loops of \<open>jump_possible\<close> and \<open>LoginPossible\<close>.
\<close>

partial_function (option) walk_loop :: "env \<Rightarrow> (int \<Rightarrow> u32 \<Rightarrow> objects \<Rightarrow> (bool \<times> objects) option) \<Rightarrow> bool \<Rightarrow> u32 \<Rightarrow> objects \<Rightarrow> (bool \<times> objects) option" where
  "walk_loop E stop HasBank ob s =
     (if ob = 0 then Some (HasBank, s)
      else Option.bind (get_object_type E ob s) (\<lambda>(t, s).
        Option.bind (stop t ob s) (\<lambda>(b, s).
          if b then Some (False, s)
          else Option.bind (get_next_object E ob s) (\<lambda>(n, s).
            walk_loop E stop (HasBank \<or> get_flag (ObjectTypes E) t BANK) n s))))"

declare top_loop.simps [code] height_loop.simps [code] walk_loop.simps [code]

definition jump_stop :: "env \<Rightarrow> (u32 \<Rightarrow> creature_type option) \<Rightarrow> bool \<Rightarrow> int \<Rightarrow> u32 \<Rightarrow> objects \<Rightarrow> (bool \<times> objects) option" where
  "jump_stop E kind AvoidPlayers t ob s =
     (if get_flag (ObjectTypes E) t UNPASS \<and> get_flag (ObjectTypes E) t UNMOVE then Some (True, s)
      else if AvoidPlayers \<and> is_creature_container t
      then do {(id, s) \<leftarrow> get_creature_id E ob s; Some (kind id = Some PLAYER, s)}
      else Some (False, s))"

definition jump_possible :: "env \<Rightarrow> (u32 \<Rightarrow> creature_type option) \<Rightarrow> int \<Rightarrow> int \<Rightarrow> int \<Rightarrow> bool \<Rightarrow> game_map \<Rightarrow> (bool \<times> game_map) option" where
  "jump_possible E kind x y z AvoidPlayers w = do {
     (ob, w) \<leftarrow> get_first_object E x y z w;
     on_objs (walk_loop E (jump_stop E kind AvoidPlayers) False ob) w}"

definition field_stop :: "env \<Rightarrow> int \<Rightarrow> int \<Rightarrow> bool" where
  "field_stop E FieldType t \<longleftrightarrow>
     (\<not> is_creature_container t \<and> (get_flag (ObjectTypes E) t UNPASS \<or> get_flag (ObjectTypes E) t UNLAY))
     \<or> ((FieldType = FIELD_TYPE_MAGICWALL \<or> FieldType = FIELD_TYPE_WILDGROWTH) \<and> get_flag (ObjectTypes E) t UNPASS)"

definition field_possible :: "env \<Rightarrow> int \<Rightarrow> int \<Rightarrow> int \<Rightarrow> int \<Rightarrow> game_map \<Rightarrow> (bool \<times> game_map) option" where
  "field_possible E x y z FieldType w = do {
     (ob, w) \<leftarrow> get_first_object E x y z w;
     (bank, w) \<leftarrow> (if ob = 0 then Some (False, w)
       else do {(t, w) \<leftarrow> on_objs (get_object_type E ob) w; Some (get_flag (ObjectTypes E) t BANK, w)});
     if \<not> bank then Some (False, w)
     else do {(r, w) \<leftarrow> on_objs (find_type_loop E (field_stop E FieldType) ob) w; Some (r = 0, w)}}"

text \<open>The field that \<open>search_free_field\<close> accepts.\<close>

definition free_move :: "env \<Rightarrow> (u32 \<Rightarrow> creature_type option) \<Rightarrow> bool \<Rightarrow> int \<Rightarrow> int \<Rightarrow> int \<Rightarrow> game_map \<Rightarrow> (bool \<times> game_map) option" where
  "free_move E kind Jump x y z w =
     (if Jump then jump_possible E kind x y z True w
      else do {
        (bank, w) \<leftarrow> coordinate_flag E x y z BANK w;
        (unpass, w) \<leftarrow> (if bank then coordinate_flag E x y z UNPASS w else Some (True, w));
        (avoid, w) \<leftarrow> (if \<not> unpass then coordinate_flag E x y z AVOID w else Some (False, w));
        if avoid then coordinate_flag E x y z BED w else Some (\<not> unpass, w)})"

definition free_field :: "env \<Rightarrow> (u32 \<Rightarrow> creature_type option) \<Rightarrow> u16 \<Rightarrow> bool \<Rightarrow> int \<Rightarrow> int \<Rightarrow> int \<Rightarrow> game_map \<Rightarrow> (bool \<times> game_map) option" where
  "free_field E kind HouseID Jump x y z w = do {
     (possible, w) \<leftarrow> free_move E kind Jump x y z w;
     if \<not> possible then Some (False, w)
     else if HouseID = 0xFFFF then Some (True, w)
     else do {
       (house, w) \<leftarrow> is_house E x y z w;
       if \<not> house then Some (True, w)
       else if HouseID = 0 then Some (False, w)
       else do {(h, w) \<leftarrow> get_house_id E x y z w; Some (h = HouseID, w)}}}"

text \<open>The new values of \<open>x\<close> and \<open>y\<close>, or \<open>None\<close> for the result \<open>false\<close>.\<close>

definition search_free_field :: "env \<Rightarrow> (u32 \<Rightarrow> creature_type option) \<Rightarrow> int \<Rightarrow> int \<Rightarrow> int \<Rightarrow> int \<Rightarrow> u16 \<Rightarrow> bool \<Rightarrow> game_map \<Rightarrow>
    ((int \<times> int) option \<times> game_map) option" where
  "search_free_field E kind x y z Distance HouseID Jump w = do {
     (r, w) \<leftarrow> spiral_search (\<lambda>a b. free_field E kind HouseID Jump (x + a) (y + b) z) Distance spiral_start w;
     Some (map_option (\<lambda>(a, b). (x + a, y + b)) r, w)}"

definition login_stop :: "env \<Rightarrow> bool \<Rightarrow> int \<Rightarrow> u32 \<Rightarrow> objects \<Rightarrow> (bool \<times> objects) option" where
  "login_stop E Player t ob s = Some (is_creature_container t
     \<or> get_flag (ObjectTypes E) t UNPASS \<and> get_flag (ObjectTypes E) t UNMOVE
     \<or> \<not> Player \<and> get_flag (ObjectTypes E) t AVOID \<and> get_flag (ObjectTypes E) t UNMOVE, s)"

definition LoginPossible :: "env \<Rightarrow> u16 \<Rightarrow> bool \<Rightarrow> int \<Rightarrow> int \<Rightarrow> int \<Rightarrow> game_map \<Rightarrow> (bool \<times> game_map) option" where
  "LoginPossible E HouseID Player x y z w = do {
     (ob, w) \<leftarrow> get_first_object E x y z w;
     if ob = 0 then Some (False, w)
     else do {
       (nolog, w) \<leftarrow> (if Player then is_no_logout_field E x y z w else Some (False, w));
       if nolog then Some (False, w)
       else do {
         (house, w) \<leftarrow> is_house E x y z w;
         (h, w) \<leftarrow> (if house \<and> HouseID \<noteq> 0 then get_house_id E x y z w else Some (0, w));
         if house \<and> (HouseID = 0 \<or> h \<noteq> HouseID) then Some (False, w)
         else on_objs (walk_loop E (login_stop E Player) False ob) w}}}"

text \<open>
  The result and the values of \<open>x\<close> and \<open>y\<close> afterwards. The first search has already set the coordinates when the field that it found is a no-logout
  field: the second one starts there, and they stay there when it finds nothing.
\<close>

definition search_login_field :: "env \<Rightarrow> (u32 \<Rightarrow> creature_type option) \<Rightarrow> int \<Rightarrow> int \<Rightarrow> int \<Rightarrow> int \<Rightarrow> bool \<Rightarrow> game_map \<Rightarrow>
    ((bool \<times> int \<times> int) \<times> game_map) option" where
  "search_login_field E kind x y z Distance Player w = do {
     (HouseID, w) \<leftarrow> get_house_id E x y z w;
     (r, w) \<leftarrow> search_free_field E kind x y z Distance HouseID False w;
     (x, y) \<leftarrow> Some (case r of None \<Rightarrow> (x, y) | Some p \<Rightarrow> p);
     (nolog, w) \<leftarrow> (if r \<noteq> None \<and> Player then is_no_logout_field E x y z w else Some (False, w));
     if r \<noteq> None \<and> \<not> nolog then Some ((True, x, y), w)
     else do {
       (r, w) \<leftarrow> spiral_search (\<lambda>a b. LoginPossible E HouseID Player (x + a) (y + b) z) Distance spiral_start w;
       Some (case r of None \<Rightarrow> (False, x, y) | Some (a, b) \<Rightarrow> (True, x + a, y + b), w)}}"

section \<open>Lines of throw\<close>

text \<open>The loops of \<open>throw_possible\<close>: upwards from the origin, along the line on one floor, and down at the destination.\<close>

definition first_is_bank :: "env \<Rightarrow> int \<Rightarrow> int \<Rightarrow> int \<Rightarrow> game_map \<Rightarrow> (bool \<times> game_map) option" where
  "first_is_bank E x y z w = do {
     (ob, w) \<leftarrow> get_first_object E x y z w;
     if ob \<noteq> 0 then do {(t, w) \<leftarrow> on_objs (get_object_type E ob) w; Some (get_flag (ObjectTypes E) t BANK, w)}
     else Some (False, w)}"

function ceiling_loop :: "env \<Rightarrow> int \<Rightarrow> int \<Rightarrow> int \<Rightarrow> int \<Rightarrow> game_map \<Rightarrow> (int \<times> game_map) option" where
  "ceiling_loop E OrigX OrigY MinZ CurZ w =
     (if CurZ \<ge> MinZ
      then Option.bind (first_is_bank E OrigX OrigY CurZ w) (\<lambda>(b, w).
        if b then Some (CurZ + 1, w) else ceiling_loop E OrigX OrigY MinZ (CurZ - 1) w)
      else Some (MinZ, w))"
  by auto
termination by (relation "measure (\<lambda>(E, OrigX, OrigY, MinZ, CurZ, w). nat (CurZ - MinZ + 1))") auto

text \<open>
  The point of the line with parameter \<open>T\<close>. The products and the sum are computed in \<open>int\<close>; there is no result when one of them does not fit.
\<close>

definition interpolate :: "int \<Rightarrow> int \<Rightarrow> int \<Rightarrow> int \<Rightarrow> int option" where
  "interpolate Orig Dest MaxT T =
     (if in_int32 (Orig * (MaxT - T)) \<and> in_int32 (Dest * T) \<and> in_int32 (Orig * (MaxT - T) + Dest * T) \<and> MaxT \<noteq> 0
      then Some ((Orig * (MaxT - T) + Dest * T) sdiv MaxT) else None)"

function line_loop :: "env \<Rightarrow> int \<Rightarrow> int \<Rightarrow> int \<Rightarrow> int \<Rightarrow> int \<Rightarrow> int \<Rightarrow> int \<Rightarrow> int \<times> int \<Rightarrow> game_map \<Rightarrow> ((int \<times> int) \<times> game_map) option" where
  "line_loop E OrigX OrigY DestX DestY CurZ MaxT T Last w =
     (if T \<le> MaxT
      then Option.bind (interpolate OrigX DestX MaxT T) (\<lambda>CurX. Option.bind (interpolate OrigY DestY MaxT T) (\<lambda>CurY.
        Option.bind (coordinate_flag E CurX CurY CurZ UNTHROW w) (\<lambda>(b, w).
          if b then Some (Last, w) else line_loop E OrigX OrigY DestX DestY CurZ MaxT (T + 1) (CurX, CurY) w)))
      else Some (Last, w))"
  by auto
termination by (relation "measure (\<lambda>(E, OrigX, OrigY, DestX, DestY, CurZ, MaxT, T, Last, w). nat (MaxT - T + 1))") auto

function fall_loop :: "env \<Rightarrow> int \<Rightarrow> int \<Rightarrow> int \<Rightarrow> int \<Rightarrow> game_map \<Rightarrow> (int \<times> game_map) option" where
  "fall_loop E DestX DestY DestZ LastZ w =
     (if LastZ < DestZ
      then Option.bind (first_is_bank E DestX DestY LastZ w) (\<lambda>(b, w).
        if b then Some (LastZ, w) else fall_loop E DestX DestY DestZ (LastZ + 1) w)
      else Some (LastZ, w))"
  by auto
termination by (relation "measure (\<lambda>(E, DestX, DestY, DestZ, LastZ, w). nat (DestZ - LastZ))") auto

function floor_loop :: "env \<Rightarrow> int \<Rightarrow> int \<Rightarrow> int \<Rightarrow> int \<Rightarrow> int \<Rightarrow> int \<Rightarrow> int \<Rightarrow> int \<Rightarrow> game_map \<Rightarrow> (bool \<times> game_map) option" where
  "floor_loop E OrigX OrigY DestX DestY DestZ MaxT StartT MinZ w =
     (if MinZ \<le> DestZ
      then Option.bind (if DestX \<noteq> OrigX \<or> DestY \<noteq> OrigY
               then line_loop E OrigX OrigY DestX DestY MinZ MaxT StartT (OrigX, OrigY) w else Some ((OrigX, OrigY), w)) (\<lambda>(Last, w).
             Option.bind (if Last = (DestX, DestY)
               then Option.bind (fall_loop E DestX DestY DestZ MinZ w) (\<lambda>(LastZ, w). Some (LastZ = DestZ, w)) else Some (False, w)) (\<lambda>(hit, w).
               if hit then Some (True, w) else floor_loop E OrigX OrigY DestX DestY DestZ MaxT StartT (MinZ + 1) w))
      else Some (False, w))"
  by auto
termination by (relation "measure (\<lambda>(E, OrigX, OrigY, DestX, DestY, DestZ, MaxT, StartT, MinZ, w). nat (DestZ - MinZ + 1))") auto

declare ceiling_loop.simps [simp del] line_loop.simps [simp del] fall_loop.simps [simp del] floor_loop.simps [simp del]

definition throw_possible :: "env \<Rightarrow> int \<Rightarrow> int \<Rightarrow> int \<Rightarrow> int \<Rightarrow> int \<Rightarrow> int \<Rightarrow> int \<Rightarrow> game_map \<Rightarrow> (bool \<times> game_map) option" where
  "throw_possible E OrigX OrigY OrigZ DestX DestY DestZ Power w = do {
     (MinZ, w) \<leftarrow> ceiling_loop E OrigX OrigY (max (OrigZ - Power) 0) (OrigZ - 1) w;
     (east, w) \<leftarrow> (if DestX < OrigX then coordinate_flag E OrigX OrigY OrigZ HOOKEAST w else Some (False, w));
     (south, w) \<leftarrow> (if \<not> east \<and> DestY < OrigY then coordinate_flag E OrigX OrigY OrigZ HOOKSOUTH w else Some (False, w));
     floor_loop E OrigX OrigY DestX DestY DestZ (max \<bar>DestX - OrigX\<bar> \<bar>DestY - OrigY\<bar>) (if east \<or> south then 0 else 1) MinZ w}"

text \<open>
  \<open>search_summon_field\<close>: the fields of the square row by row; the values of \<open>random(0, 99)\<close> are the list \<open>rnd\<close>, which has one
  for every field.
\<close>

definition summon_test :: "env \<Rightarrow> int \<Rightarrow> int \<Rightarrow> int \<Rightarrow> int \<Rightarrow> int \<Rightarrow> game_map \<Rightarrow> (bool \<times> game_map) option" where
  "summon_test E x y z FieldX FieldY w = do {
     (bank, w) \<leftarrow> coordinate_flag E FieldX FieldY z BANK w;
     if \<not> bank then Some (False, w) else do {
     (unpass, w) \<leftarrow> coordinate_flag E FieldX FieldY z UNPASS w;
     if unpass then Some (False, w) else do {
     (avoid, w) \<leftarrow> coordinate_flag E FieldX FieldY z AVOID w;
     if avoid then Some (False, w) else do {
     (pz, w) \<leftarrow> is_protection_zone E FieldX FieldY z w;
     if pz then Some (False, w) else do {
     (house, w) \<leftarrow> is_house E FieldX FieldY z w;
     if house then Some (False, w) else throw_possible E x y z FieldX FieldY z 0 w}}}}}"

fun summon_loop :: "env \<Rightarrow> int \<Rightarrow> int \<Rightarrow> int \<Rightarrow> (int \<times> int) list \<Rightarrow> int list \<Rightarrow> int \<times> int \<times> int \<Rightarrow> game_map \<Rightarrow>
    ((int \<times> int \<times> int) \<times> game_map) option" where
  "summon_loop E x y z ((OffsetX, OffsetY) # os) (TieBreaker # rnd) (BestX, BestY, BestTieBreaker) w =
     (if TieBreaker \<le> BestTieBreaker then summon_loop E x y z os rnd (BestX, BestY, BestTieBreaker) w
      else do {
        (ok, w) \<leftarrow> summon_test E x y z (x + OffsetX) (y + OffsetY) w;
        summon_loop E x y z os rnd (if ok then (x + OffsetX, y + OffsetY, TieBreaker) else (BestX, BestY, BestTieBreaker)) w})"
| "summon_loop E x y z _ _ best w = Some (best, w)"

definition offsets :: "int \<Rightarrow> (int \<times> int) list" where
  "offsets Distance = concat (map (\<lambda>OffsetY. map (\<lambda>OffsetX. (OffsetX, OffsetY)) [- Distance..Distance]) [- Distance..Distance])"

definition search_summon_field :: "env \<Rightarrow> int list \<Rightarrow> int \<Rightarrow> int \<Rightarrow> int \<Rightarrow> int \<Rightarrow> game_map \<Rightarrow> ((int \<times> int) option \<times> game_map) option" where
  "search_summon_field E rnd x y z Distance w = do {
     ((BestX, BestY, BestTieBreaker), w) \<leftarrow> summon_loop E x y z (offsets Distance) rnd (0, 0, - 1) w;
     Some (if BestTieBreaker \<ge> 0 then Some (BestX, BestY) else None, w)}"

end
