(* ===== verification/Field_Claims.thy ===== *)
theory Field_Claims
  imports Field_Query
begin

text \<open>
  What the queries on fields answer: each one reads the list of objects on a field and changes nothing but time stamps of
  sectors. The search for a free field finds a nearest one.
\<close>

section \<open>Reading the map\<close>

text \<open>Two maps that differ in time stamps only.\<close>

definition sim :: "env \<Rightarrow> addr list \<Rightarrow> (u32 \<Rightarrow> u32 list) \<Rightarrow> game_map \<Rightarrow> game_map \<Rightarrow> bool" where
  "sim E fs cs w0 w \<longleftrightarrow> map_inv E w fs cs \<and> objs w = objs w0 \<and> on_map w = on_map w0
     \<and> (\<forall>x y z. is_on_map x y z w = is_on_map x y z w0) \<and> (\<forall>x y z. on_map w0 x y z \<longrightarrow> field_of w x y z = field_of w0 x y z)"

lemma sim_refl: "map_inv E w fs cs \<Longrightarrow> sim E fs cs w w"
  by (simp add: sim_def)

lemma sim_touch: "sim E fs cs w0 w \<Longrightarrow> on_map w0 x y z \<Longrightarrow> sim E fs cs w0 (touch E x y z w)"
  using map_inv_touch [of E w fs cs x y z] field_of_touch [OF map_invD(2)] by (auto simp: sim_def)

text \<open>The operation returns the value and changes nothing else.\<close>

definition reads :: "env \<Rightarrow> addr list \<Rightarrow> (u32 \<Rightarrow> u32 list) \<Rightarrow> game_map \<Rightarrow> (game_map \<Rightarrow> ('a \<times> game_map) option) \<Rightarrow> 'a \<Rightarrow> bool" where
  "reads E fs cs w0 f v \<longleftrightarrow> (\<forall>w. sim E fs cs w0 w \<longrightarrow> (\<exists>w'. f w = Some (v, w') \<and> sim E fs cs w0 w'))"

named_theorems read_rules

lemma readsD: "reads E fs cs w0 f v \<Longrightarrow> sim E fs cs w0 w \<Longrightarrow> \<exists>w'. f w = Some (v, w') \<and> sim E fs cs w0 w'"
  by (simp add: reads_def)

lemma reads_return [read_rules]: "reads E fs cs w0 (\<lambda>w. Some (v, w)) v"
  by (simp add: reads_def)

lemma reads_bind:
  assumes "reads E fs cs w0 f v" "reads E fs cs w0 (g v) u"
  shows "reads E fs cs w0 (\<lambda>w. Option.bind (f w) (\<lambda>(x, w). g x w)) u"
  unfolding reads_def
proof (intro allI impI)
  fix w assume "sim E fs cs w0 w"
  then obtain w1 where "f w = Some (v, w1)" "sim E fs cs w0 w1" using assms(1) by (auto simp: reads_def)
  then show "\<exists>w'. Option.bind (f w) (\<lambda>(x, w). g x w) = Some (u, w') \<and> sim E fs cs w0 w'" using assms(2) by (simp add: reads_def)
qed

lemma reads_objs: "f (objs w0) = Some (v, objs w0) \<Longrightarrow> reads E fs cs w0 (on_objs f) v"
proof -
  assume f: "f (objs w0) = Some (v, objs w0)"
  have "on_objs f w = Some (v, w)" if "objs w = objs w0" for w
    using f that [symmetric] by (simp add: on_objs_def)
  then show ?thesis by (simp add: reads_def sim_def)
qed

text \<open>The objects on a field, from the lowest to the top.\<close>

definition field_objects :: "game_map \<Rightarrow> (u32 \<Rightarrow> u32 list) \<Rightarrow> int \<Rightarrow> int \<Rightarrow> int \<Rightarrow> u32 list" where
  "field_objects w cs x y z = (if on_map w x y z then case field_of w x y z of None \<Rightarrow> [] | Some con \<Rightarrow> cs con else [])"

definition field_container :: "game_map \<Rightarrow> int \<Rightarrow> int \<Rightarrow> int \<Rightarrow> u32" where
  "field_container w x y z = (if on_map w x y z then case field_of w x y z of None \<Rightarrow> 0 | Some con \<Rightarrow> con else 0)"

lemma off_map:
  assumes "0 \<le> x" "0 \<le> y" "\<not> on_map w x y z"
  shows "get_map_container_at E x y z w = Some (0, w)"
  using assms by (auto simp: get_map_container_at_def on_map_def in_sectors_def range_simps Let_def)

lemma reads_container:
  assumes "0 \<le> x" "0 \<le> y"
  shows "reads E fs cs w0 (get_map_container_at E x y z) (field_container w0 x y z)"
  unfolding reads_def
proof (intro allI impI)
  fix w assume w: "sim E fs cs w0 w"
  show "\<exists>w'. get_map_container_at E x y z w = Some (field_container w0 x y z, w') \<and> sim E fs cs w0 w'"
  proof (cases "on_map w0 x y z")
    case True
    then show ?thesis using w get_map_container_at_ok [of E w fs cs x y z] sim_touch [OF w True] by (auto simp: sim_def field_container_def)
  next
    case False
    then show ?thesis using w off_map [OF assms, of w z E] by (auto simp: sim_def field_container_def)
  qed
qed

lemma field_object:
  assumes "map_inv E w fs cs" "on_map w x y z" "field_of w x y z = Some con"
  shows "\<exists>m. obj (objs w) con = Some m \<and> OType m = 0" "con \<noteq> 0"
proof -
  show m: "\<exists>m. obj (objs w) con = Some m \<and> OType m = 0"
    using map_invD(3) [OF assms(1)] assms(2,3) unfolding fields_ok_def is_field_def by blast
  then show "con \<noteq> 0" by auto
qed

lemma field_container_field:
  assumes "map_inv E w fs cs" "field_container w x y z \<noteq> 0"
  shows "on_map w x y z" "field_of w x y z = Some (field_container w x y z)" "\<exists>m. obj (objs w) (field_container w x y z) = Some m \<and> OType m = 0"
    "field_objects w cs x y z = cs (field_container w x y z)"
proof -
  show f: "on_map w x y z" "field_of w x y z = Some (field_container w x y z)"
    using assms(2) by (auto simp: field_container_def split: if_splits option.splits)
  show "\<exists>m. obj (objs w) (field_container w x y z) = Some m \<and> OType m = 0" by (rule field_object(1) [OF assms(1) f])
  show "field_objects w cs x y z = cs (field_container w x y z)" using f by (simp add: field_objects_def)
qed

lemma field_container_0: "map_inv E w fs cs \<Longrightarrow> field_container w x y z = 0 \<Longrightarrow> field_objects w cs x y z = []"
  using field_object(2) [of E w fs cs x y z] by (auto simp: field_container_def field_objects_def split: if_splits option.splits)

text \<open>A chain of objects that are in the store.\<close>

definition row :: "objects \<Rightarrow> u32 \<Rightarrow> u32 list \<Rightarrow> bool" where
  "row s ob xs \<longleftrightarrow> path (onext s) (opt_id ob) xs \<and> (\<forall>n\<in>set xs. obj s n \<noteq> None)"

lemma row_Nil [simp]: "row s ob [] \<longleftrightarrow> ob = 0"
  by (auto simp: row_def opt_id_def)

lemma row_Cons: "row s ob (n # xs) \<longleftrightarrow> (\<exists>m. ob = n \<and> n \<noteq> 0 \<and> obj s n = Some m \<and> row s (NextObject m) xs)"
  by (auto simp: row_def onext_obj)

lemma row_first: "row s ob xs \<Longrightarrow> ob = first_num xs"
  by (cases xs) (auto simp: row_Cons)

lemma field_row:
  assumes E: "loaded_types E" "field_type E" and inv: "map_inv E w fs cs" and c: "field_container w x y z \<noteq> 0"
  shows "\<exists>ob. get_attribute E (field_container w x y z) CONTENT (objs w) = Some (ob, objs w) \<and> row (objs w) ob (field_objects w cs x y z)"
proof -
  note I = map_invD [OF inv] and F = field_container_field [OF inv c]
  obtain m where m: "obj (objs w) (field_container w x y z) = Some m" "OType m = 0" using F(3) by blast
  have h: "has E m CONTENT" using field_type_flags(1) [OF E(2)] m(2) by simp
  have "row (objs w) (attr E m CONTENT) (cs (field_container w x y z))"
    using tree_invD(1) [OF I(6) m(1) h] tree_invD(3) [OF I(6)] by (auto simp: row_def)
  then show ?thesis using get_attribute_obj [OF E(1) I(5) m(1) h] F(4) by simp
qed

lemma reads_first:
  assumes E: "loaded_types E" "field_type E" and inv: "map_inv E w fs cs" and "0 \<le> x" "0 \<le> y"
  shows "reads E fs cs w (get_first_object E x y z) (first_num (field_objects w cs x y z))"
proof (cases "field_container w x y z = 0")
  case True
  then show ?thesis unfolding get_first_object_def [abs_def]
    by (intro reads_bind [OF reads_container [OF assms(4,5)]]) (simp add: field_container_0 [OF inv True] reads_return)
next
  case False
  obtain ob where ob: "get_attribute E (field_container w x y z) CONTENT (objs w) = Some (ob, objs w)" "row (objs w) ob (field_objects w cs x y z)"
    using field_row [OF E inv False] by blast
  show ?thesis unfolding get_first_object_def [abs_def]
    by (intro reads_bind [OF reads_container [OF assms(4,5)]]) (use False ob(1) row_first [OF ob(2)] in \<open>simp add: reads_objs\<close>)
qed

lemma field_objects_row:
  assumes "loaded_types E" "field_type E" "map_inv E w fs cs"
  shows "row (objs w) (first_num (field_objects w cs x y z)) (field_objects w cs x y z)"
  using field_row [OF assms, of x y z] field_container_0 [OF assms(3), of x y z] row_first by (cases "field_container w x y z = 0") auto

section \<open>Walks over the objects of a field\<close>

abbreviation type_in :: "objects \<Rightarrow> u32 \<Rightarrow> int" where
  "type_in s n \<equiv> OType (the (obj s n))"

lemma find_type_loop_row:
  assumes "store_inv s fs" "row s ob xs"
  shows "find_type_loop E P ob s = Some (first_num (dropWhile (\<lambda>n. \<not> P (type_in s n)) xs), s)"
  using assms(2)
proof (induction xs arbitrary: ob)
  case Nil
  then show ?case by (subst find_type_loop.simps) simp
next
  case (Cons n xs)
  then obtain m where m: "ob = n" "n \<noteq> 0" "obj s n = Some m" "row s (NextObject m) xs" by (auto simp: row_Cons)
  then show ?case using Cons.IH [OF m(4)] get_object_type_obj [OF assms(1) m(3)] get_next_obj [OF assms(1) m(3)]
    by (subst find_type_loop.simps) simp
qed

lemma first_found: "\<forall>n\<in>set xs. n \<noteq> 0 \<Longrightarrow> first_num (dropWhile (\<lambda>n. \<not> P n) xs) \<noteq> 0 \<longleftrightarrow> (\<exists>n\<in>set xs. P n)"
  by (induction xs) auto

lemma row_nonzero: "row s ob xs \<Longrightarrow> \<forall>n\<in>set xs. n \<noteq> 0"
  by (auto simp: row_def)

lemma walk_loop_row:
  assumes "store_inv s fs" "row s ob xs" "\<And>n m. n \<in> set xs \<Longrightarrow> obj s n = Some m \<Longrightarrow> stop (OType m) n s = Some (S n, s)"
  shows "walk_loop E stop b ob s = Some ((\<forall>n\<in>set xs. \<not> S n) \<and> (b \<or> (\<exists>n\<in>set xs. get_flag (ObjectTypes E) (type_in s n) BANK)), s)"
  using assms(2,3)
proof (induction xs arbitrary: ob b)
  case Nil
  then show ?case by (subst walk_loop.simps) simp
next
  case (Cons n xs)
  then obtain m where m: "ob = n" "n \<noteq> 0" "obj s n = Some m" "row s (NextObject m) xs" by (auto simp: row_Cons)
  then show ?case using Cons.IH [OF m(4)] Cons.prems(2) [of n m] Cons.prems(2) get_object_type_obj [OF assms(1) m(3)] get_next_obj [OF assms(1) m(3)]
    by (subst walk_loop.simps) auto
qed

section \<open>What the queries answer\<close>

text \<open>Some object on the field has the flag.\<close>

definition flag_on :: "env \<Rightarrow> (u32 \<Rightarrow> u32 list) \<Rightarrow> game_map \<Rightarrow> int \<Rightarrow> int \<Rightarrow> int \<Rightarrow> int \<Rightarrow> bool" where
  "flag_on E cs w x y z Flag \<longleftrightarrow> (\<exists>n\<in>set (field_objects w cs x y z). get_flag (ObjectTypes E) (type_in (objs w) n) Flag)"

lemma reads_coordinate_flag:
  assumes E: "loaded_types E" "field_type E" and inv: "map_inv E w fs cs" and "0 \<le> x" "0 \<le> y"
  shows "reads E fs cs w (coordinate_flag E x y z Flag) (flag_on E cs w x y z Flag)"
proof -
  let ?xs = "field_objects w cs x y z" and ?P = "\<lambda>n. get_flag (ObjectTypes E) (type_in (objs w) n) Flag"
  note R = field_objects_row [OF E inv, of x y z]
  have "reads E fs cs w (on_objs (find_type_loop E (\<lambda>t. get_flag (ObjectTypes E) t Flag) (first_num ?xs))) (first_num (dropWhile (\<lambda>n. \<not> ?P n) ?xs))"
    by (rule reads_objs) (rule find_type_loop_row [OF map_invD(5) [OF inv] R])
  moreover have "flag_on E cs w x y z Flag \<longleftrightarrow> first_num (dropWhile (\<lambda>n. \<not> ?P n) ?xs) \<noteq> 0"
    using first_found [OF row_nonzero [OF R], of ?P] by (simp add: flag_on_def)
  ultimately show ?thesis unfolding coordinate_flag_def [abs_def] using reads_first [OF assms]
    by (auto intro!: reads_bind reads_return)
qed

text \<open>The house of a field and a flag of a field.\<close>

definition house_of :: "game_map \<Rightarrow> int \<Rightarrow> int \<Rightarrow> int \<Rightarrow> u16" where
  "house_of w x y z = (if field_container w x y z = 0 then 0 else ucast (drop_bit 16 (field_word w x y z)))"

definition zone_of :: "game_map \<Rightarrow> u8 \<Rightarrow> int \<Rightarrow> int \<Rightarrow> int \<Rightarrow> bool" where
  "zone_of w Mask x y z \<longleftrightarrow> field_container w x y z \<noteq> 0 \<and> ucast (drop_bit 8 (field_word w x y z)) AND Mask \<noteq> 0"

lemma sim_field:
  assumes "sim E fs cs w0 w" "map_inv E w0 fs cs" "field_container w0 x y z \<noteq> 0"
  shows "map_inv E w fs cs" "on_map w x y z" "field_of w x y z = Some (field_container w0 x y z)" "field_word w x y z = field_word w0 x y z"
  using assms(1) field_container_field(1,2) [OF assms(2,3)] by (auto simp: sim_def field_word_def)

lemma reads_house:
  assumes "map_inv E w0 fs cs" "0 \<le> x" "0 \<le> y"
  shows "reads E fs cs w0 (get_house_id E x y z) (house_of w0 x y z)"
proof (cases "field_container w0 x y z = 0")
  case True
  then show ?thesis unfolding get_house_id_def [abs_def]
    by (intro reads_bind [OF reads_container [OF assms(2,3)]]) (simp add: house_of_def reads_return)
next
  case False
  have "\<exists>w'. get_house_id E x y z w = Some (house_of w0 x y z, w') \<and> sim E fs cs w0 w'" if w: "sim E fs cs w0 w" for w
    using get_house_id_ok [OF sim_field(1-3) [OF w assms(1) False]] sim_field(4) [OF w assms(1) False]
      sim_touch [OF w field_container_field(1) [OF assms(1) False]] False by (simp add: house_of_def)
  then show ?thesis by (simp add: reads_def)
qed

lemma reads_zone:
  assumes "map_inv E w0 fs cs" "0 \<le> x" "0 \<le> y"
  shows "reads E fs cs w0 (field_flag E Mask x y z) (zone_of w0 Mask x y z)"
proof (cases "field_container w0 x y z = 0")
  case True
  then show ?thesis unfolding field_flag_def [abs_def]
    by (intro reads_bind [OF reads_container [OF assms(2,3)]]) (simp add: zone_of_def reads_return)
next
  case False
  have "\<exists>w'. field_flag E Mask x y z w = Some (zone_of w0 Mask x y z, w') \<and> sim E fs cs w0 w'" if w: "sim E fs cs w0 w" for w
    using get_flags_ok [OF sim_field(1-3) [OF w assms(1) False]] sim_field(4) [OF w assms(1) False]
      sim_touch [OF w field_container_field(1) [OF assms(1) False]] False by (simp add: zone_of_def)
  then show ?thesis by (simp add: reads_def)
qed

lemma reads_is_house:
  assumes "map_inv E w fs cs" "0 \<le> x" "0 \<le> y"
  shows "reads E fs cs w (is_house E x y z) (house_of w x y z \<noteq> 0)"
  unfolding is_house_def [abs_def] by (intro reads_bind [OF reads_house [OF assms]] reads_return)

text \<open>No object stops a jump, no player stands there, and there is a ground.\<close>

definition creature_at :: "objects \<Rightarrow> u32 \<Rightarrow> u32" where
  "creature_at s n = Attributes (the (obj s n)) ! 1"

definition blocks_jump :: "env \<Rightarrow> (u32 \<Rightarrow> creature_type option) \<Rightarrow> bool \<Rightarrow> objects \<Rightarrow> u32 \<Rightarrow> bool" where
  "blocks_jump E kind AvoidPlayers s n \<longleftrightarrow>
     get_flag (ObjectTypes E) (type_in s n) UNPASS \<and> get_flag (ObjectTypes E) (type_in s n) UNMOVE
     \<or> AvoidPlayers \<and> is_creature_container (type_in s n) \<and> kind (creature_at s n) = Some PLAYER"

definition jump_ok :: "env \<Rightarrow> (u32 \<Rightarrow> creature_type option) \<Rightarrow> bool \<Rightarrow> (u32 \<Rightarrow> u32 list) \<Rightarrow> game_map \<Rightarrow> int \<Rightarrow> int \<Rightarrow> int \<Rightarrow> bool" where
  "jump_ok E kind AvoidPlayers cs w x y z \<longleftrightarrow> flag_on E cs w x y z BANK
     \<and> (\<forall>n\<in>set (field_objects w cs x y z). \<not> blocks_jump E kind AvoidPlayers (objs w) n)"

lemma get_creature_id_obj:
  assumes "store_inv s fs" "obj s n = Some m" "is_creature_container (OType m)"
  shows "get_creature_id E n s = Some (Attributes m ! 1, s)"
  using get_object_type_obj [OF assms(1,2)] fetch_obj [OF assms(1,2)] obj_cell(2) [OF assms(1,2)] assms(3) by (simp add: get_creature_id_def)

lemma jump_stop_ok:
  assumes "store_inv s fs" "obj s n = Some m"
  shows "jump_stop E kind a (OType m) n s = Some (blocks_jump E kind a s n, s)"
  using get_creature_id_obj [OF assms] assms(2) by (auto simp: jump_stop_def blocks_jump_def creature_at_def)

lemma reads_walk:
  assumes E: "loaded_types E" "field_type E" and inv: "map_inv E w fs cs"
    and S: "\<And>n m. obj (objs w) n = Some m \<Longrightarrow> stop (OType m) n (objs w) = Some (S n, objs w)"
  shows "reads E fs cs w (on_objs (walk_loop E stop False (first_num (field_objects w cs x y z))))
    (flag_on E cs w x y z BANK \<and> (\<forall>n\<in>set (field_objects w cs x y z). \<not> S n))"
proof -
  have "walk_loop E stop False (first_num (field_objects w cs x y z)) (objs w) =
    Some (flag_on E cs w x y z BANK \<and> (\<forall>n\<in>set (field_objects w cs x y z). \<not> S n), objs w)"
    using walk_loop_row [OF map_invD(5) [OF inv] field_objects_row [OF E inv], of x y z stop S E False] S
    by (auto simp: flag_on_def)
  then show ?thesis by (rule reads_objs)
qed

lemma reads_jump:
  assumes E: "loaded_types E" "field_type E" and inv: "map_inv E w fs cs" and "0 \<le> x" "0 \<le> y"
  shows "reads E fs cs w (jump_possible E kind x y z a) (jump_ok E kind a cs w x y z)"
  unfolding jump_possible_def [abs_def] jump_ok_def
  by (intro reads_bind [OF reads_first [OF assms]] reads_walk [OF E inv] jump_stop_ok [OF map_invD(5) [OF inv]])

text \<open>A free field: it can be walked on (or jumped to), and its house is the one asked for, if it has one.\<close>

definition walk_ok :: "env \<Rightarrow> (u32 \<Rightarrow> u32 list) \<Rightarrow> game_map \<Rightarrow> int \<Rightarrow> int \<Rightarrow> int \<Rightarrow> bool" where
  "walk_ok E cs w x y z \<longleftrightarrow> flag_on E cs w x y z BANK \<and> \<not> flag_on E cs w x y z UNPASS
     \<and> (flag_on E cs w x y z AVOID \<longrightarrow> flag_on E cs w x y z BED)"

definition is_free :: "env \<Rightarrow> (u32 \<Rightarrow> creature_type option) \<Rightarrow> u16 \<Rightarrow> bool \<Rightarrow> (u32 \<Rightarrow> u32 list) \<Rightarrow> game_map \<Rightarrow> int \<Rightarrow> int \<Rightarrow> int \<Rightarrow> bool" where
  "is_free E kind HouseID Jump cs w x y z \<longleftrightarrow> (if Jump then jump_ok E kind True cs w x y z else walk_ok E cs w x y z)
     \<and> (HouseID = 0xFFFF \<or> house_of w x y z = 0 \<or> house_of w x y z = HouseID)"

lemma reads_if:
  assumes "b \<Longrightarrow> reads E fs cs w f u" "\<not> b \<Longrightarrow> reads E fs cs w g u"
  shows "reads E fs cs w (\<lambda>w. if b then f w else g w) u"
  using assms by (cases b) simp_all

lemma reads_value: "reads E fs cs w f v \<Longrightarrow> v = u \<Longrightarrow> reads E fs cs w f u"
  by simp

lemma reads_free_move:
  assumes "loaded_types E" "field_type E" "map_inv E w fs cs" "0 \<le> x" "0 \<le> y"
  shows "reads E fs cs w (free_move E kind Jump x y z) (if Jump then jump_ok E kind True cs w x y z else walk_ok E cs w x y z)"
proof (cases Jump)
  case True
  then show ?thesis using reads_jump [OF assms] by (simp add: free_move_def [abs_def])
next
  case False
  let ?F = "flag_on E cs w x y z"
  note F = reads_coordinate_flag [OF assms, of z]
  have U: "reads E fs cs w (\<lambda>w. if ?F BANK then coordinate_flag E x y z UNPASS w else Some (True, w)) (?F BANK \<longrightarrow> ?F UNPASS)"
    by (rule reads_if; rule reads_value [OF F] reads_value [OF reads_return]) auto
  have A: "reads E fs cs w (\<lambda>w. if \<not> (?F BANK \<longrightarrow> ?F UNPASS) then coordinate_flag E x y z AVOID w else Some (False, w))
    (\<not> (?F BANK \<longrightarrow> ?F UNPASS) \<and> ?F AVOID)"
    by (rule reads_if; rule reads_value [OF F] reads_value [OF reads_return]) auto
  have R: "reads E fs cs w (\<lambda>w. if \<not> (?F BANK \<longrightarrow> ?F UNPASS) \<and> ?F AVOID then coordinate_flag E x y z BED w else Some (\<not> (?F BANK \<longrightarrow> ?F UNPASS), w))
    (walk_ok E cs w x y z)"
    by (rule reads_if; rule reads_value [OF F] reads_value [OF reads_return]) (auto simp: walk_ok_def)
  show ?thesis unfolding free_move_def [abs_def] if_not_P [OF False]
    by (rule reads_bind [OF F], rule reads_bind [OF U], rule reads_bind [OF A], rule R)
qed

lemma reads_free_field:
  assumes "loaded_types E" "field_type E" "map_inv E w fs cs" "0 \<le> x" "0 \<le> y"
  shows "reads E fs cs w (free_field E kind HouseID Jump x y z) (is_free E kind HouseID Jump cs w x y z)"
proof -
  note H = reads_house [OF assms(3-5), of z] reads_is_house [OF assms(3-5), of z]
  have h: "reads E fs cs w (\<lambda>w. Option.bind (get_house_id E x y z w) (\<lambda>(h, w). Some (h = HouseID, w))) (house_of w x y z = HouseID)"
    by (rule reads_bind [OF H(1) reads_return])
  show ?thesis unfolding free_field_def [abs_def]
    by (rule reads_bind [OF reads_free_move [OF assms]], rule reads_if, rule reads_value [OF reads_return], simp add: is_free_def,
        rule reads_if, rule reads_value [OF reads_return], simp add: is_free_def, rule reads_bind [OF H(2)], rule reads_if, rule reads_value [OF reads_return],
        simp add: is_free_def, rule reads_if, rule reads_value [OF reads_return], simp add: is_free_def, rule reads_value [OF h]) (simp add: is_free_def)
qed

text \<open>A field where a creature can log in.\<close>

definition blocks_login :: "env \<Rightarrow> bool \<Rightarrow> objects \<Rightarrow> u32 \<Rightarrow> bool" where
  "blocks_login E Player s n \<longleftrightarrow> is_creature_container (type_in s n)
     \<or> get_flag (ObjectTypes E) (type_in s n) UNPASS \<and> get_flag (ObjectTypes E) (type_in s n) UNMOVE
     \<or> \<not> Player \<and> get_flag (ObjectTypes E) (type_in s n) AVOID \<and> get_flag (ObjectTypes E) (type_in s n) UNMOVE"

definition login_ok :: "env \<Rightarrow> u16 \<Rightarrow> bool \<Rightarrow> (u32 \<Rightarrow> u32 list) \<Rightarrow> game_map \<Rightarrow> int \<Rightarrow> int \<Rightarrow> int \<Rightarrow> bool" where
  "login_ok E HouseID Player cs w x y z \<longleftrightarrow> flag_on E cs w x y z BANK
     \<and> (\<forall>n\<in>set (field_objects w cs x y z). \<not> blocks_login E Player (objs w) n)
     \<and> (house_of w x y z = 0 \<or> house_of w x y z = HouseID) \<and> \<not> (Player \<and> zone_of w 2 x y z)"

lemma reads_login:
  assumes E: "loaded_types E" "field_type E" and inv: "map_inv E w fs cs" and xy: "0 \<le> x" "0 \<le> y"
  shows "reads E fs cs w (LoginPossible E HouseID Player x y z) (login_ok E HouseID Player cs w x y z)"
proof -
  note H = reads_house [OF inv xy, of z] reads_is_house [OF inv xy, of z]
  let ?h = "house_of w x y z" and ?xs = "field_objects w cs x y z"
  have N: "reads E fs cs w (\<lambda>w. if Player then is_no_logout_field E x y z w else Some (False, w)) (Player \<and> zone_of w 2 x y z)"
    unfolding is_no_logout_field_def
    by (rule reads_if; rule reads_value [OF reads_zone [OF inv xy]] reads_value [OF reads_return]) auto
  have G: "reads E fs cs w (\<lambda>w. if ?h \<noteq> 0 \<and> HouseID \<noteq> 0 then get_house_id E x y z w else Some (0, w)) (if ?h \<noteq> 0 \<and> HouseID \<noteq> 0 then ?h else 0)"
    by (rule reads_if; rule reads_value [OF H(1)] reads_value [OF reads_return]) auto
  have W: "reads E fs cs w (on_objs (walk_loop E (login_stop E Player) False (first_num ?xs)))
    (flag_on E cs w x y z BANK \<and> (\<forall>n\<in>set ?xs. \<not> blocks_login E Player (objs w) n))"
    by (rule reads_walk [OF E inv]) (simp add: login_stop_def blocks_login_def)
  have z: "first_num ?xs = 0 \<Longrightarrow> \<not> flag_on E cs w x y z BANK"
    using row_nonzero [OF field_objects_row [OF E inv, of x y z]] by (cases ?xs) (auto simp: flag_on_def)
  show ?thesis unfolding LoginPossible_def [abs_def]
    by (rule reads_bind [OF reads_first [OF assms]], rule reads_if, rule reads_value [OF reads_return], use z in \<open>simp add: login_ok_def\<close>,
        rule reads_bind [OF N], rule reads_if, rule reads_value [OF reads_return], simp add: login_ok_def,
        rule reads_bind [OF H(2)], rule reads_bind [OF G], rule reads_if, rule reads_value [OF reads_return])
      (auto simp: login_ok_def intro: reads_value [OF W] split: if_splits)
qed

section \<open>The search for a field\<close>

text \<open>The invariant of a search around a coordinate.\<close>

definition searching :: "env \<Rightarrow> addr list \<Rightarrow> (u32 \<Rightarrow> u32 list) \<Rightarrow> game_map \<Rightarrow> nat \<Rightarrow> int \<Rightarrow> int \<Rightarrow> game_map \<Rightarrow> bool" where
  "searching E fs cs w0 D x y w \<longleftrightarrow> loaded_types E \<and> field_type E \<and> map_inv E w0 fs cs \<and> int D \<le> x \<and> int D \<le> y \<and> sim E fs cs w0 w"

lemma in_ring: "ring a b \<le> int D \<Longrightarrow> int D \<le> x \<Longrightarrow> int D \<le> y \<Longrightarrow> 0 \<le> x + a \<and> 0 \<le> y + b"
  by (auto simp: ring_def max_def split: if_splits)

interpretation free: field_test "\<lambda>a b. free_field E kind HouseID Jump (x + a) (y + b) z" "searching E fs cs w0 D x y"
  "\<lambda>a b. is_free E kind HouseID Jump cs w0 (x + a) (y + b) z" D for E kind HouseID Jump x y z fs cs w0 D
proof (unfold_locales, goal_cases)
  case (1 w a b)
  then have s: "loaded_types E" "field_type E" "map_inv E w0 fs cs" "int D \<le> x" "int D \<le> y" "sim E fs cs w0 w" by (simp_all add: searching_def)
  show ?case using readsD [OF reads_free_field [OF s(1-3)] s(6)] in_ring [OF 1(2) s(4,5)] s by (auto simp: searching_def)
qed

interpretation login: field_test "\<lambda>a b. LoginPossible E HouseID Player (x + a) (y + b) z" "searching E fs cs w0 D x y"
  "\<lambda>a b. login_ok E HouseID Player cs w0 (x + a) (y + b) z" D for E HouseID Player x y z fs cs w0 D
proof (unfold_locales, goal_cases)
  case (1 w a b)
  then have s: "loaded_types E" "field_type E" "map_inv E w0 fs cs" "int D \<le> x" "int D \<le> y" "sim E fs cs w0 w" by (simp_all add: searching_def)
  show ?case using readsD [OF reads_login [OF s(1-3)] s(6)] in_ring [OF 1(2) s(4,5)] s by (auto simp: searching_def)
qed

text \<open>The distance of two fields on one floor, and a nearest field that satisfies a condition.\<close>

definition distance :: "int \<Rightarrow> int \<Rightarrow> int \<Rightarrow> int \<Rightarrow> int" where
  "distance x y x' y' = max \<bar>x' - x\<bar> \<bar>y' - y\<bar>"

definition nearest :: "int \<Rightarrow> int \<Rightarrow> nat \<Rightarrow> (int \<Rightarrow> int \<Rightarrow> bool) \<Rightarrow> (int \<times> int) option \<Rightarrow> bool" where
  "nearest x y D ok r \<longleftrightarrow> (case r of
     None \<Rightarrow> \<forall>x' y'. distance x y x' y' \<le> int D \<longrightarrow> \<not> ok x' y'
   | Some (x', y') \<Rightarrow> ok x' y' \<and> distance x y x' y' \<le> int D \<and> (\<forall>x2 y2. ok x2 y2 \<longrightarrow> distance x y x' y' \<le> distance x y x2 y2))"

lemma nearest_offset:
  assumes "case r of None \<Rightarrow> \<forall>a b. ring a b \<le> int D \<longrightarrow> \<not> ok (x + a) (y + b)
     | Some (a, b) \<Rightarrow> ok (x + a) (y + b) \<and> ring a b \<le> int D \<and> (\<forall>c d. ok (x + c) (y + d) \<longrightarrow> ring a b \<le> ring c d)"
  shows "nearest x y D ok (map_option (\<lambda>(a, b). (x + a, y + b)) r)"
proof (cases r)
  case None
  have "\<not> ok x' y'" if "distance x y x' y' \<le> int D" for x' y'
    using assms None that spec2 [of "\<lambda>a b. ring a b \<le> int D \<longrightarrow> \<not> ok (x + a) (y + b)" "x' - x" "y' - y"] by (simp add: distance_def ring_def)
  then show ?thesis using None by (simp add: nearest_def)
next
  case (Some p)
  obtain a b where p: "p = (a, b)" by (cases p)
  have "ring a b \<le> distance x y x2 y2" if "ok x2 y2" for x2 y2
    using assms Some p that spec2 [of "\<lambda>c d. ok (x + c) (y + d) \<longrightarrow> ring a b \<le> ring c d" "x2 - x" "y2 - y"] by (simp add: distance_def ring_def)
  then show ?thesis using assms Some p by (simp add: nearest_def distance_def ring_def)
qed

lemma search_free_ok:
  assumes "searching E fs cs w0 D x y w"
  shows "\<exists>r w'. search_free_field E kind x y z (int D) HouseID Jump w = Some (r, w') \<and> sim E fs cs w0 w'
    \<and> nearest x y D (\<lambda>x y. is_free E kind HouseID Jump cs w0 x y z) r"
proof -
  obtain r w' where r: "spiral_search (\<lambda>a b. free_field E kind HouseID Jump (x + a) (y + b) z) (int D) spiral_start w = Some (r, w')"
    "searching E fs cs w0 D x y w'" "case r of None \<Rightarrow> \<forall>a b. ring a b \<le> int D \<longrightarrow> \<not> is_free E kind HouseID Jump cs w0 (x + a) (y + b) z
     | Some (a, b) \<Rightarrow> is_free E kind HouseID Jump cs w0 (x + a) (y + b) z \<and> ring a b \<le> int D
        \<and> (\<forall>c d. is_free E kind HouseID Jump cs w0 (x + c) (y + d) z \<longrightarrow> ring a b \<le> ring c d)"
    using free.search_nearest [OF assms, of kind HouseID Jump z] by blast
  then show ?thesis using nearest_offset [OF r(3)] by (simp add: search_free_field_def searching_def)
qed

text \<open>A search that gives a truth value and coordinates: the field that was found, or the coordinates \<open>q\<close>.\<close>

fun result_of :: "bool \<times> int \<times> int \<Rightarrow> (int \<times> int) option" where
  "result_of (b, p) = (if b then Some p else None)"

fun left_at :: "int \<times> int \<Rightarrow> bool \<times> int \<times> int \<Rightarrow> bool" where
  "left_at q (b, p) \<longleftrightarrow> b \<or> p = q"

lemma search_login_ok:
  assumes "searching E fs cs w0 D x y w"
  shows "\<exists>r w'. Option.bind (spiral_search (\<lambda>a b. LoginPossible E HouseID Player (x + a) (y + b) z) (int D) spiral_start w)
      (\<lambda>(r, w). Some (case r of None \<Rightarrow> (False, x, y) | Some (a, b) \<Rightarrow> (True, x + a, y + b), w)) = Some (r, w') \<and> sim E fs cs w0 w'
    \<and> nearest x y D (\<lambda>x y. login_ok E HouseID Player cs w0 x y z) (result_of r) \<and> left_at (x, y) r"
proof -
  obtain r w' where r: "spiral_search (\<lambda>a b. LoginPossible E HouseID Player (x + a) (y + b) z) (int D) spiral_start w = Some (r, w')"
    "searching E fs cs w0 D x y w'" "case r of None \<Rightarrow> \<forall>a b. ring a b \<le> int D \<longrightarrow> \<not> login_ok E HouseID Player cs w0 (x + a) (y + b) z
     | Some (a, b) \<Rightarrow> login_ok E HouseID Player cs w0 (x + a) (y + b) z \<and> ring a b \<le> int D
        \<and> (\<forall>c d. login_ok E HouseID Player cs w0 (x + c) (y + d) z \<longrightarrow> ring a b \<le> ring c d)"
    using login.search_nearest [OF assms, of HouseID Player z] by blast
  then show ?thesis using nearest_offset [OF r(3)] by (cases r) (auto simp: searching_def)
qed

section \<open>Throwing\<close>

text \<open>The lowest object of the field is a ground.\<close>

definition ground_at :: "env \<Rightarrow> (u32 \<Rightarrow> u32 list) \<Rightarrow> game_map \<Rightarrow> int \<Rightarrow> int \<Rightarrow> int \<Rightarrow> bool" where
  "ground_at E cs w x y z \<longleftrightarrow> (case field_objects w cs x y z of [] \<Rightarrow> False | n # _ \<Rightarrow> get_flag (ObjectTypes E) (type_in (objs w) n) BANK)"

lemma reads_ground:
  assumes E: "loaded_types E" "field_type E" and inv: "map_inv E w fs cs" and xy: "0 \<le> x" "0 \<le> y"
  shows "reads E fs cs w (first_is_bank E x y z) (ground_at E cs w x y z)"
  unfolding first_is_bank_def [abs_def]
proof (rule reads_bind [OF reads_first [OF assms]], rule reads_if)
  assume "first_num (field_objects w cs x y z) \<noteq> 0"
  then obtain n xs where c: "field_objects w cs x y z = n # xs" by (cases "field_objects w cs x y z") auto
  obtain m where m: "obj (objs w) n = Some m" using field_objects_row [OF E inv, of x y z] c by (auto simp: row_Cons)
  have t: "reads E fs cs w (on_objs (get_object_type E n)) (OType m)" by (rule reads_objs) (rule get_object_type_obj [OF map_invD(5) [OF inv] m])
  show "reads E fs cs w (\<lambda>u. Option.bind (on_objs (get_object_type E (first_num (field_objects w cs x y z))) u)
      (\<lambda>(t, w). Some (get_flag (ObjectTypes E) t BANK, w))) (ground_at E cs w x y z)"
    unfolding c first_num_simps by (rule reads_bind [OF t], rule reads_value [OF reads_return]) (simp add: ground_at_def c m)
next
  assume "\<not> first_num (field_objects w cs x y z) \<noteq> 0"
  then have "field_objects w cs x y z = []" using row_nonzero [OF field_objects_row [OF E inv, of x y z]] by (cases "field_objects w cs x y z") auto
  then show "reads E fs cs w (\<lambda>w. Some (False, w)) (ground_at E cs w x y z)" by (intro reads_value [OF reads_return]) (simp add: ground_at_def)
qed


text \<open>
  The line from the origin on one floor: on the longer axis it advances one field with every step, so it meets the destination with
  the last step only.
\<close>

definition line_x :: "int \<Rightarrow> int \<Rightarrow> int \<Rightarrow> int \<Rightarrow> int" where
  "line_x OrigX DestX MaxT T = (OrigX * (MaxT - T) + DestX * T) sdiv MaxT"

definition line_free :: "env \<Rightarrow> (u32 \<Rightarrow> u32 list) \<Rightarrow> game_map \<Rightarrow> int \<Rightarrow> int \<Rightarrow> int \<Rightarrow> int \<Rightarrow> int \<Rightarrow> int \<Rightarrow> int \<Rightarrow> bool" where
  "line_free E cs w OrigX OrigY DestX DestY MaxT T z \<longleftrightarrow>
     (\<forall>t. T \<le> t \<and> t \<le> MaxT \<longrightarrow> \<not> flag_on E cs w (line_x OrigX DestX MaxT t) (line_x OrigY DestY MaxT t) z UNTHROW)"

text \<open>
  Coordinates for which the interpolation stays in the range of \<open>int\<close>: those of the protocol, and no further apart than half of it.
\<close>

definition throw_range :: "int \<Rightarrow> int \<Rightarrow> int \<Rightarrow> int \<Rightarrow> bool" where
  "throw_range OrigX OrigY DestX DestY \<longleftrightarrow> {OrigX, OrigY, DestX, DestY} \<subseteq> {0..65535} \<and> \<bar>DestX - OrigX\<bar> \<le> 32767 \<and> \<bar>DestY - OrigY\<bar> \<le> 32767"

lemma throw_rangeD:
  assumes "throw_range OrigX OrigY DestX DestY"
  shows "0 \<le> OrigX" "0 \<le> OrigY" "0 \<le> DestX" "0 \<le> DestY"
  using assms by (auto simp: throw_range_def)

lemma interpolate_fits:
  assumes "0 \<le> a" "a \<le> 65535" "0 \<le> b" "b \<le> 65535" "0 < m" "m \<le> 32767" "0 \<le> t" "t \<le> m"
  shows "interpolate a b m t = Some (line_x a b m t)"
proof -
  have "a * (m - t) \<le> 65535 * (m - t)" using assms by (intro mult_right_mono) simp_all
  moreover have "b * t \<le> 65535 * t" using assms by (intro mult_right_mono) simp_all
  moreover have "65535 * (m - t) + 65535 * t = 65535 * m" by (simp add: algebra_simps)
  ultimately have "a * (m - t) + b * t \<le> 65535 * 32767" "a * (m - t) \<le> 65535 * 32767" "b * t \<le> 65535 * 32767" using assms by linarith+
  moreover have "0 \<le> a * (m - t)" "0 \<le> b * t" using assms by simp_all
  ultimately show ?thesis using assms(5) by (simp add: interpolate_def in_int32_def line_x_def)
qed

lemma interpolate_range:
  assumes "throw_range ox oy ax ay" "m = max \<bar>ax - ox\<bar> \<bar>ay - oy\<bar>" "0 < m" "0 \<le> t" "t \<le> m"
  shows "interpolate ox ax m t = Some (line_x ox ax m t)" "interpolate oy ay m t = Some (line_x oy ay m t)"
  using assms by (auto simp: throw_range_def intro!: interpolate_fits)

lemma line_x_nonneg: "0 \<le> a \<Longrightarrow> 0 \<le> b \<Longrightarrow> 0 \<le> t \<Longrightarrow> t \<le> m \<Longrightarrow> 0 < m \<Longrightarrow> 0 \<le> line_x a b m t"
  by (simp add: line_x_def range_simps pos_imp_zdiv_nonneg_iff)

lemma line_x_end: "0 \<le> b \<Longrightarrow> 0 < m \<Longrightarrow> line_x a b m m = b"
  by (simp add: line_x_def range_simps)

lemma line_x_major:
  assumes "0 \<le> a" "0 \<le> b" "0 \<le> t" "t < \<bar>b - a\<bar>"
  shows "line_x a b \<bar>b - a\<bar> t \<noteq> b"
proof (cases "a < b")
  case True
  then have e: "a * (\<bar>b - a\<bar> - t) + b * t = (a + t) * \<bar>b - a\<bar>" by (simp add: algebra_simps)
  have "line_x a b \<bar>b - a\<bar> t = a + t" unfolding line_x_def e using assms True by (simp add: range_simps)
  then show ?thesis using assms True by simp
next
  case False
  then have e: "a * (\<bar>b - a\<bar> - t) + b * t = (a - t) * \<bar>b - a\<bar>" by (simp add: algebra_simps)
  have "0 \<le> a - t" using assms False by simp
  then have "line_x a b \<bar>b - a\<bar> t = a - t" unfolding line_x_def e using assms False by (simp add: range_simps)
  then show ?thesis using assms False by simp
qed

lemma reads_ceiling:
  assumes "loaded_types E" "field_type E" "map_inv E w fs cs" "0 \<le> x" "0 \<le> y" "m \<le> z + 1"
  shows "\<exists>v. reads E fs cs w (ceiling_loop E x y m z) v \<and> (\<forall>z0. v \<le> z0 \<longleftrightarrow> m \<le> z0 \<and> (\<forall>c. z0 \<le> c \<and> c \<le> z \<longrightarrow> \<not> ground_at E cs w x y c))"
  using assms(6)
proof (induction "nat (z - m + 1)" arbitrary: z)
  case 0
  then have "reads E fs cs w (ceiling_loop E x y m z) m" by (simp add: reads_def ceiling_loop.simps)
  then show ?case using 0 by (intro exI [of _ m]) auto
next
  case (Suc n)
  then have m: "m \<le> z" by simp
  have e: "ceiling_loop E x y m z = (\<lambda>w. Option.bind (first_is_bank E x y z w) (\<lambda>(b, w). if b then Some (z + 1, w) else ceiling_loop E x y m (z - 1) w))"
    using m by (simp add: ceiling_loop.simps fun_eq_iff)
  show ?case
  proof (cases "ground_at E cs w x y z")
    case True
    have "reads E fs cs w (ceiling_loop E x y m z) (z + 1)" unfolding e
      by (rule reads_bind [OF reads_ground [OF assms(1-5)]]) (simp add: True reads_return)
    moreover have "z + 1 \<le> z0 \<longleftrightarrow> m \<le> z0 \<and> (\<forall>c. z0 \<le> c \<and> c \<le> z \<longrightarrow> \<not> ground_at E cs w x y c)" for z0
      using True m by (cases "z0 \<le> z") auto
    ultimately show ?thesis by blast
  next
    case False
    have n: "n = nat (z - 1 - m + 1)" using Suc.hyps(2) by linarith
    obtain v where v: "reads E fs cs w (ceiling_loop E x y m (z - 1)) v"
      "\<forall>z0. v \<le> z0 \<longleftrightarrow> m \<le> z0 \<and> (\<forall>c. z0 \<le> c \<and> c \<le> z - 1 \<longrightarrow> \<not> ground_at E cs w x y c)" using Suc.hyps(1) [OF n] m by auto
    have "reads E fs cs w (ceiling_loop E x y m z) v" unfolding e
      by (rule reads_bind [OF reads_ground [OF assms(1-5)]]) (simp add: False v(1))
    moreover have "c \<le> z \<longleftrightarrow> c \<le> z - 1 \<or> c = z" for c by auto
    ultimately show ?thesis using False v(2) by (intro exI [of _ v]) auto
  qed
qed

lemma reads_fall:
  assumes "loaded_types E" "field_type E" "map_inv E w fs cs" "0 \<le> x" "0 \<le> y" "z \<le> dz"
  shows "\<exists>v. reads E fs cs w (fall_loop E x y dz z) v \<and> (v = dz \<longleftrightarrow> (\<forall>c. z \<le> c \<and> c < dz \<longrightarrow> \<not> ground_at E cs w x y c))"
  using assms(6)
proof (induction "nat (dz - z)" arbitrary: z)
  case 0
  then have "reads E fs cs w (fall_loop E x y dz z) z" by (simp add: reads_def fall_loop.simps)
  then show ?case using 0 by (intro exI [of _ z]) auto
next
  case (Suc n)
  then have m: "z < dz" by simp
  have e: "fall_loop E x y dz z = (\<lambda>w. Option.bind (first_is_bank E x y z w) (\<lambda>(b, w). if b then Some (z, w) else fall_loop E x y dz (z + 1) w))"
    using m by (simp add: fall_loop.simps fun_eq_iff)
  show ?case
  proof (cases "ground_at E cs w x y z")
    case True
    have "reads E fs cs w (fall_loop E x y dz z) z" unfolding e
      by (rule reads_bind [OF reads_ground [OF assms(1-5)]]) (simp add: True reads_return)
    then show ?thesis using True m by (intro exI [of _ z]) auto
  next
    case False
    have n: "n = nat (dz - (z + 1))" using Suc.hyps(2) by linarith
    obtain v where v: "reads E fs cs w (fall_loop E x y dz (z + 1)) v"
      "v = dz \<longleftrightarrow> (\<forall>c. z + 1 \<le> c \<and> c < dz \<longrightarrow> \<not> ground_at E cs w x y c)" using Suc.hyps(1) [OF n] m by auto
    have "reads E fs cs w (fall_loop E x y dz z) v" unfolding e
      by (rule reads_bind [OF reads_ground [OF assms(1-5)]]) (simp add: False v(1))
    moreover have "z \<le> c \<longleftrightarrow> z + 1 \<le> c \<or> c = z" for c by auto
    ultimately show ?thesis using False v(2) by (intro exI [of _ v]) auto
  qed
qed

lemma reads_line:
  assumes "loaded_types E" "field_type E" "map_inv E w fs cs" "0 \<le> ox" "0 \<le> oy" "0 \<le> ax" "0 \<le> ay"
    "mt = max \<bar>ax - ox\<bar> \<bar>ay - oy\<bar>" "0 < mt" "0 \<le> t" "t \<le> mt + 1" "L = (ax, ay) \<longleftrightarrow> t = mt + 1" and range: "throw_range ox oy ax ay"
  shows "\<exists>v. reads E fs cs w (line_loop E ox oy ax ay z mt t L) v \<and> (v = (ax, ay) \<longleftrightarrow> line_free E cs w ox oy ax ay mt t z)"
  using assms(10-12)
proof (induction "nat (mt - t + 1)" arbitrary: t L)
  case 0
  then have "reads E fs cs w (line_loop E ox oy ax ay z mt t L) L" by (simp add: reads_def line_loop.simps)
  then show ?case using 0 by (intro exI [of _ L]) (auto simp: line_free_def)
next
  case (Suc n)
  then have t: "t \<le> mt" by simp
  let ?x = "line_x ox ax mt t" and ?y = "line_x oy ay mt t"
  have e: "line_loop E ox oy ax ay z mt t L = (\<lambda>w. Option.bind (coordinate_flag E ?x ?y z UNTHROW w)
      (\<lambda>(b, w). if b then Some (L, w) else line_loop E ox oy ax ay z mt (t + 1) (?x, ?y) w))"
    using t interpolate_range [OF range assms(8,9) Suc.prems(1) t] by (simp add: line_loop.simps [of E ox oy ax ay z mt t L] fun_eq_iff)
  have nn: "0 \<le> ?x" "0 \<le> ?y" using line_x_nonneg [OF _ _ Suc.prems(1) t assms(9)] assms(4-7) by simp_all
  note R = reads_coordinate_flag [OF assms(1-3) nn, of z UNTHROW]
  show ?case
  proof (cases "flag_on E cs w ?x ?y z UNTHROW")
    case True
    have "reads E fs cs w (line_loop E ox oy ax ay z mt t L) L" unfolding e by (rule reads_bind [OF R]) (simp add: True reads_return)
    moreover have "\<not> line_free E cs w ox oy ax ay mt t z" using True t by (auto simp: line_free_def)
    moreover have "L \<noteq> (ax, ay)" using Suc.prems(3) t by simp
    ultimately show ?thesis by blast
  next
    case False
    have d: "(?x, ?y) = (ax, ay) \<longleftrightarrow> t + 1 = mt + 1"
    proof
      show "t + 1 = mt + 1 \<Longrightarrow> (?x, ?y) = (ax, ay)" using line_x_end assms(6,7,9) by simp
      show "t + 1 = mt + 1" if "(?x, ?y) = (ax, ay)"
      proof (rule ccontr)
        assume "t + 1 \<noteq> mt + 1"
        then have "t < mt" using t by simp
        then show False using that line_x_major [of ox ax t] line_x_major [of oy ay t] assms(4-8) Suc.prems(1) by (auto simp: max_def split: if_splits)
      qed
    qed
    have "n = nat (mt - (t + 1) + 1)" using Suc.hyps(2) by linarith
    then obtain v where v: "reads E fs cs w (line_loop E ox oy ax ay z mt (t + 1) (?x, ?y)) v" "v = (ax, ay) \<longleftrightarrow> line_free E cs w ox oy ax ay mt (t + 1) z"
      using Suc.hyps(1) [of "t + 1" "(?x, ?y)"] Suc.prems(1) t d by auto
    have "reads E fs cs w (line_loop E ox oy ax ay z mt t L) v" unfolding e by (rule reads_bind [OF R]) (simp add: False v(1))
    moreover have "t \<le> c \<longleftrightarrow> t + 1 \<le> c \<or> c = t" for c by auto
    ultimately show ?thesis using False v(2) by (intro exI [of _ v]) (auto simp: line_free_def)
  qed
qed

text \<open>A throw over the floor \<open>z\<close>: along the line, and down to the floor of the destination.\<close>

definition throw_over :: "env \<Rightarrow> (u32 \<Rightarrow> u32 list) \<Rightarrow> game_map \<Rightarrow> int \<Rightarrow> int \<Rightarrow> int \<Rightarrow> int \<Rightarrow> int \<Rightarrow> int \<Rightarrow> int \<Rightarrow> bool" where
  "throw_over E cs w OrigX OrigY DestX DestY DestZ StartT z \<longleftrightarrow>
     ((DestX, DestY) \<noteq> (OrigX, OrigY) \<longrightarrow> line_free E cs w OrigX OrigY DestX DestY (max \<bar>DestX - OrigX\<bar> \<bar>DestY - OrigY\<bar>) StartT z)
     \<and> (\<forall>c. z \<le> c \<and> c < DestZ \<longrightarrow> \<not> ground_at E cs w DestX DestY c)"

lemma reads_floor_line:
  assumes "loaded_types E" "field_type E" "map_inv E w fs cs" "0 \<le> ox" "0 \<le> oy" "0 \<le> ax" "0 \<le> ay" "t \<in> {0, 1}"
    and range: "throw_range ox oy ax ay" and "mt = max \<bar>ax - ox\<bar> \<bar>ay - oy\<bar>"
  shows "\<exists>v. reads E fs cs w (\<lambda>w. if ax \<noteq> ox \<or> ay \<noteq> oy then line_loop E ox oy ax ay z mt t (ox, oy) w else Some ((ox, oy), w)) v
    \<and> (v = (ax, ay) \<longleftrightarrow> ((ax, ay) \<noteq> (ox, oy) \<longrightarrow> line_free E cs w ox oy ax ay mt t z))"
proof (cases "ax \<noteq> ox \<or> ay \<noteq> oy")
  case True
  then have "0 < mt" using assms(10) by (auto simp: max_def)
  moreover have "0 \<le> t" "t \<le> mt + 1" "(ox, oy) = (ax, ay) \<longleftrightarrow> t = mt + 1" using True assms(8) \<open>0 < mt\<close> by auto
  ultimately show ?thesis using True reads_line [OF assms(1-7,10), of t "(ox, oy)" z] range by auto
next
  case False
  then show ?thesis by (intro exI [of _ "(ox, oy)"]) (simp add: reads_return)
qed

lemma reads_floor_loop:
  assumes "loaded_types E" "field_type E" "map_inv E w fs cs" "0 \<le> ox" "0 \<le> oy" "0 \<le> ax" "0 \<le> ay" "t \<in> {0, 1}" "throw_range ox oy ax ay"
  shows "reads E fs cs w (floor_loop E ox oy ax ay az (max \<bar>ax - ox\<bar> \<bar>ay - oy\<bar>) t z) (\<exists>c. z \<le> c \<and> c \<le> az \<and> throw_over E cs w ox oy ax ay az t c)"
proof (induction "nat (az - z + 1)" arbitrary: z)
  case 0
  then show ?case by (auto simp: reads_def floor_loop.simps)
next
  case (Suc n)
  then have z: "z \<le> az" by simp
  obtain L where L: "reads E fs cs w (\<lambda>w. if ax \<noteq> ox \<or> ay \<noteq> oy then line_loop E ox oy ax ay z (max \<bar>ax - ox\<bar> \<bar>ay - oy\<bar>) t (ox, oy) w else Some ((ox, oy), w)) L"
    "L = (ax, ay) \<longleftrightarrow> ((ax, ay) \<noteq> (ox, oy) \<longrightarrow> line_free E cs w ox oy ax ay (max \<bar>ax - ox\<bar> \<bar>ay - oy\<bar>) t z)"
    using reads_floor_line [OF assms refl] by blast
  obtain v where v: "reads E fs cs w (fall_loop E ax ay az z) v" "v = az \<longleftrightarrow> (\<forall>c. z \<le> c \<and> c < az \<longrightarrow> \<not> ground_at E cs w ax ay c)"
    using reads_fall [OF assms(1-3,6,7) z] by blast
  have H: "reads E fs cs w (\<lambda>w. if L = (ax, ay) then Option.bind (fall_loop E ax ay az z w) (\<lambda>(LastZ, w). Some (LastZ = az, w)) else Some (False, w))
    (throw_over E cs w ox oy ax ay az t z)"
    by (rule reads_if; (rule reads_bind [OF v(1)])?; rule reads_value [OF reads_return]) (use L(2) v(2) in \<open>auto simp: throw_over_def\<close>)
  have IH: "reads E fs cs w (floor_loop E ox oy ax ay az (max \<bar>ax - ox\<bar> \<bar>ay - oy\<bar>) t (z + 1))
    (\<exists>c. z + 1 \<le> c \<and> c \<le> az \<and> throw_over E cs w ox oy ax ay az t c)" using Suc.hyps(1) [of "z + 1"] Suc.hyps(2) by linarith
  have e: "floor_loop E ox oy ax ay az mt t z = (\<lambda>w. Option.bind (if ax \<noteq> ox \<or> ay \<noteq> oy then line_loop E ox oy ax ay z mt t (ox, oy) w else Some ((ox, oy), w))
    (\<lambda>(Last, w). Option.bind (if Last = (ax, ay) then Option.bind (fall_loop E ax ay az z w) (\<lambda>(LastZ, w). Some (LastZ = az, w)) else Some (False, w))
      (\<lambda>(hit, w). if hit then Some (True, w) else floor_loop E ox oy ax ay az mt t (z + 1) w)))" for mt
    using z by (simp add: floor_loop.simps [of E ox oy ax ay az mt t z] fun_eq_iff)
  have c: "z \<le> c \<longleftrightarrow> z + 1 \<le> c \<or> c = z" for c by auto
  show ?case unfolding e
    by (rule reads_bind [OF L(1)], rule reads_bind [OF H], rule reads_if, rule reads_value [OF reads_return], use z in blast, rule reads_value [OF IH])
      (use c z in blast)
qed

text \<open>
  A throw over the floor \<open>z\<close>, one of those from \<open>Power\<close> floors above the thrower down to the floor of the destination: the thrower's own floor and
  those below it are always tried, one above it only when all fields over the thrower up to it are open.
\<close>

definition throw_ok :: "env \<Rightarrow> (u32 \<Rightarrow> u32 list) \<Rightarrow> game_map \<Rightarrow> int \<Rightarrow> int \<Rightarrow> int \<Rightarrow> int \<Rightarrow> int \<Rightarrow> int \<Rightarrow> int \<Rightarrow> bool" where
  "throw_ok E cs w OrigX OrigY OrigZ DestX DestY DestZ Power \<longleftrightarrow>
     (\<exists>z. OrigZ - Power \<le> z \<and> 0 \<le> z \<and> z \<le> DestZ \<and> (\<forall>c. z \<le> c \<and> c < OrigZ \<longrightarrow> \<not> ground_at E cs w OrigX OrigY c)
       \<and> throw_over E cs w OrigX OrigY DestX DestY DestZ
           (if DestX < OrigX \<and> flag_on E cs w OrigX OrigY OrigZ HOOKEAST \<or> DestY < OrigY \<and> flag_on E cs w OrigX OrigY OrigZ HOOKSOUTH then 0 else 1) z)"

lemma reads_throw:
  assumes "loaded_types E" "field_type E" "map_inv E w fs cs" "throw_range ox oy ax ay" "0 \<le> oz" "0 \<le> p"
  shows "reads E fs cs w (throw_possible E ox oy oz ax ay az p) (throw_ok E cs w ox oy oz ax ay az p)"
proof -
  note xy = throw_rangeD [OF assms(4)]
  obtain v where v: "reads E fs cs w (ceiling_loop E ox oy (max (oz - p) 0) (oz - 1)) v"
    "\<forall>z0. v \<le> z0 \<longleftrightarrow> max (oz - p) 0 \<le> z0 \<and> (\<forall>c. z0 \<le> c \<and> c \<le> oz - 1 \<longrightarrow> \<not> ground_at E cs w ox oy c)"
    using reads_ceiling [OF assms(1-3) xy(1,2), of "max (oz - p) 0" "oz - 1"] assms(5,6) by auto
  let ?e = "ax < ox \<and> flag_on E cs w ox oy oz HOOKEAST" and ?s = "ay < oy \<and> flag_on E cs w ox oy oz HOOKSOUTH"
  note F = reads_coordinate_flag [OF assms(1-3) xy(1,2), of oz]
  have e: "reads E fs cs w (\<lambda>w. if ax < ox then coordinate_flag E ox oy oz HOOKEAST w else Some (False, w)) ?e"
    by (rule reads_if; rule reads_value [OF F] reads_value [OF reads_return]) auto
  have s: "reads E fs cs w (\<lambda>w. if \<not> ?e \<and> ay < oy then coordinate_flag E ox oy oz HOOKSOUTH w else Some (False, w)) (\<not> ?e \<and> ?s)"
    by (rule reads_if; rule reads_value [OF F] reads_value [OF reads_return]) auto
  have t: "(if ?e \<or> \<not> ?e \<and> ?s then 0 else 1) \<in> {0, 1 :: int}" "(if ?e \<or> \<not> ?e \<and> ?s then 0 else 1) = (if ?e \<or> ?s then 0 else 1 :: int)" by auto
  show ?thesis unfolding throw_possible_def [abs_def]
    by (rule reads_bind [OF v(1)], rule reads_bind [OF e], rule reads_bind [OF s], rule reads_value [OF reads_floor_loop [OF assms(1-3) xy t(1) assms(4)]])
      (unfold t(2) throw_ok_def, use v(2) in auto)
qed

section \<open>Summoning\<close>

definition summon_ok :: "env \<Rightarrow> (u32 \<Rightarrow> u32 list) \<Rightarrow> game_map \<Rightarrow> int \<Rightarrow> int \<Rightarrow> int \<Rightarrow> int \<Rightarrow> int \<Rightarrow> bool" where
  "summon_ok E cs w x y z FieldX FieldY \<longleftrightarrow> flag_on E cs w FieldX FieldY z BANK \<and> \<not> flag_on E cs w FieldX FieldY z UNPASS
     \<and> \<not> flag_on E cs w FieldX FieldY z AVOID \<and> \<not> zone_of w 4 FieldX FieldY z \<and> house_of w FieldX FieldY z = 0
     \<and> throw_ok E cs w x y z FieldX FieldY z 0"

lemma reads_summon_test:
  assumes "loaded_types E" "field_type E" "map_inv E w fs cs" "throw_range x y a b" "0 \<le> z"
  shows "reads E fs cs w (summon_test E x y z a b) (summon_ok E cs w x y z a b)"
proof -
  note ab = throw_rangeD(3,4) [OF assms(4)]
  note F = reads_coordinate_flag [OF assms(1-3) ab, of z]
  show ?thesis unfolding summon_test_def [abs_def] is_protection_zone_def
    by (rule reads_bind [OF F], rule reads_if, rule reads_value [OF reads_return], simp add: summon_ok_def,
        rule reads_bind [OF F], rule reads_if, rule reads_value [OF reads_return], simp add: summon_ok_def,
        rule reads_bind [OF F], rule reads_if, rule reads_value [OF reads_return], simp add: summon_ok_def,
        rule reads_bind [OF reads_zone [OF assms(3) ab]], rule reads_if, rule reads_value [OF reads_return], simp add: summon_ok_def,
        rule reads_bind [OF reads_is_house [OF assms(3) ab]], rule reads_if, rule reads_value [OF reads_return], simp add: summon_ok_def,
        rule reads_value [OF reads_throw [OF assms(1-5)]]) (simp_all add: summon_ok_def)
qed

text \<open>The loop keeps a field that is suitable, unless none was found; it finds one if there is one.\<close>

lemma reads_summon_loop:
  assumes "loaded_types E" "field_type E" "map_inv E w fs cs" "0 \<le> z"
    "\<forall>(a, b)\<in>set os. throw_range x y (x + a) (y + b)" "length rnd = length os" "\<forall>t\<in>set rnd. 0 \<le> t" "- 1 \<le> t0"
  shows "\<exists>bx by t. reads E fs cs w (summon_loop E x y z os rnd (bx0, by0, t0)) (bx, by, t) \<and> t0 \<le> t
    \<and> ((bx, by, t) = (bx0, by0, t0) \<or> (bx - x, by - y) \<in> set os \<and> 0 \<le> t \<and> summon_ok E cs w x y z bx by)
    \<and> (t = - 1 \<longrightarrow> (\<forall>(a, b)\<in>set os. \<not> summon_ok E cs w x y z (x + a) (y + b)))"
  using assms(5-8)
proof (induction os arbitrary: rnd bx0 by0 t0)
  case Nil
  then show ?case by (intro exI [of _ bx0] exI [of _ by0] exI [of _ t0]) (simp add: reads_return)
next
  case (Cons oo os)
  obtain a b where oo: "oo = (a, b)" by (cases oo)
  obtain r rs where r: "rnd = r # rs" using Cons.prems(2) by (cases rnd) auto
  have p: "\<forall>(a, b)\<in>set os. throw_range x y (x + a) (y + b)" "length rs = length os" "\<forall>t\<in>set rs. 0 \<le> t" "throw_range x y (x + a) (y + b)" "0 \<le> r"
    using Cons.prems oo r by auto
  show ?case
  proof (cases "r \<le> t0")
    case True
    then have "summon_loop E x y z (oo # os) rnd (bx0, by0, t0) = summon_loop E x y z os rs (bx0, by0, t0)" using oo r by (simp add: fun_eq_iff)
    moreover obtain bx "by" t where v: "reads E fs cs w (summon_loop E x y z os rs (bx0, by0, t0)) (bx, by, t)" "t0 \<le> t"
        "(bx, by, t) = (bx0, by0, t0) \<or> (bx - x, by - y) \<in> set os \<and> 0 \<le> t \<and> summon_ok E cs w x y z bx by"
      using Cons.IH [OF p(1-3) Cons.prems(4), of bx0 by0] by blast
    moreover have "t \<noteq> - 1" using True p(5) v(2) by simp
    ultimately show ?thesis by (intro exI [of _ bx] exI [of _ "by"] exI [of _ t]) (auto simp del: summon_loop.simps)
  next
    case False
    let ?ok = "summon_ok E cs w x y z (x + a) (y + b)"
    have e: "summon_loop E x y z (oo # os) rnd (bx0, by0, t0) = (\<lambda>w. Option.bind (summon_test E x y z (x + a) (y + b) w)
      (\<lambda>(ok, w). summon_loop E x y z os rs (if ok then (x + a, y + b, r) else (bx0, by0, t0)) w))" using False oo r by (simp add: fun_eq_iff)
    note T = reads_summon_test [OF assms(1-3) p(4) assms(4)]
    show ?thesis
    proof (cases ?ok)
      case True
      obtain bx "by" t where v: "reads E fs cs w (summon_loop E x y z os rs (x + a, y + b, r)) (bx, by, t)" "r \<le> t"
        "(bx, by, t) = (x + a, y + b, r) \<or> (bx - x, by - y) \<in> set os \<and> 0 \<le> t \<and> summon_ok E cs w x y z bx by"
        using Cons.IH [OF p(1-3), of r "x + a" "y + b"] order_trans [OF _ p(5), of "- 1"] by (simp del: summon_loop.simps) blast
      have "reads E fs cs w (summon_loop E x y z (oo # os) rnd (bx0, by0, t0)) (bx, by, t)" unfolding e
        by (rule reads_bind [OF T]) (simp add: True v(1))
      moreover have "(bx - x, by - y) \<in> set (oo # os) \<and> 0 \<le> t \<and> summon_ok E cs w x y z bx by" using v(2,3) True p(5) oo by auto
      ultimately show ?thesis using v(2) False by (intro exI [of _ bx] exI [of _ "by"] exI [of _ t]) (simp del: summon_loop.simps)
    next
      case nok: False
      obtain bx "by" t where v: "reads E fs cs w (summon_loop E x y z os rs (bx0, by0, t0)) (bx, by, t)" "t0 \<le> t"
        "(bx, by, t) = (bx0, by0, t0) \<or> (bx - x, by - y) \<in> set os \<and> 0 \<le> t \<and> summon_ok E cs w x y z bx by"
        "t = - 1 \<longrightarrow> (\<forall>(a, b)\<in>set os. \<not> summon_ok E cs w x y z (x + a) (y + b))"
        using Cons.IH [OF p(1-3) Cons.prems(4), of bx0 by0] by blast
      have "reads E fs cs w (summon_loop E x y z (oo # os) rnd (bx0, by0, t0)) (bx, by, t)" unfolding e
        by (rule reads_bind [OF T]) (simp add: nok v(1))
      then show ?thesis using v(2-4) nok unfolding oo by (intro exI [of _ bx] exI [of _ "by"] exI [of _ t]) (simp del: summon_loop.simps, blast)
    qed
  qed
qed

section \<open>Top object and height\<close>

lemma top_loop_row:
  assumes "store_inv s fs" "row s ob xs" "xs \<noteq> []"
  shows "\<exists>n us vs. top_loop E mv ob s = Some (n, s) \<and> xs = us @ n # vs \<and> (\<forall>u\<in>set us. \<not> stops_top E mv (type_in s u))
    \<and> (vs = [] \<or> stops_top E mv (type_in s n))"
  using assms(2,3)
proof (induction xs arbitrary: ob)
  case (Cons n xs)
  then obtain m where m: "ob = n" "n \<noteq> 0" "obj s n = Some m" "row s (NextObject m) xs" by (auto simp: row_Cons)
  note g = get_object_type_obj [OF assms(1) m(3)] get_next_obj [OF assms(1) m(3)]
  show ?case
  proof (cases "xs = [] \<or> stops_top E mv (OType m)")
    case True
    then have "top_loop E mv ob s = Some (n, s)" using g m by (subst top_loop.simps) auto
    then show ?thesis using True m(3) by (intro exI [of _ n] exI [of _ "[]"] exI [of _ xs]) auto
  next
    case False
    then have "NextObject m \<noteq> 0" using row_first [OF m(4)] row_nonzero [OF m(4)] by (cases xs) auto
    then have "top_loop E mv ob s = top_loop E mv (NextObject m) s" using g m(1) False by (subst top_loop.simps) simp
    moreover obtain k us vs where "top_loop E mv (NextObject m) s = Some (k, s)" "xs = us @ k # vs"
      "\<forall>u\<in>set us. \<not> stops_top E mv (type_in s u)" "vs = [] \<or> stops_top E mv (type_in s k)" using Cons.IH [OF m(4)] False by blast
    ultimately show ?thesis using False m(3) by (intro exI [of _ k] exI [of _ "n # us"] exI [of _ vs]) auto
  qed
qed simp

definition height_of :: "env \<Rightarrow> objects \<Rightarrow> u32 \<Rightarrow> int" where
  "height_of E s n = (if get_flag (ObjectTypes E) (type_in s n) HEIGHT then sint (TAttributes (ObjectTypes E (type_in s n)) ! 59) else 0)"

lemma height_loop_row:
  assumes "loaded_types E" "store_inv s fs" "row s ob xs"
  shows "height_loop E ob h s = Some (h + sum_list (map (height_of E s) xs), s)"
  using assms(3)
proof (induction xs arbitrary: ob h)
  case Nil
  then show ?case by (subst height_loop.simps) simp
next
  case (Cons n xs)
  then obtain m where m: "ob = n" "n \<noteq> 0" "obj s n = Some m" "row s (NextObject m) xs" by (auto simp: row_Cons)
  have "length (TAttributes (ObjectTypes E (OType m))) = 62" using assms(1) by (simp add: loaded_types_def loaded_type_def)
  then have "get_flag (ObjectTypes E) (OType m) HEIGHT \<Longrightarrow>
      get_type_attribute (ObjectTypes E) (OType m) ELEVATION = Some (TAttributes (ObjectTypes E (OType m)) ! 59, False)"
    by (simp add: get_type_attribute_def TypeAttributeFlags_def)
  then show ?case using Cons.IH [OF m(4)] m get_object_type_obj [OF assms(2) m(3)] get_next_obj [OF assms(2) m(3)]
    by (subst height_loop.simps) (auto simp: height_of_def [of E s n])
qed

lemma reads_height:
  assumes "loaded_types E" "field_type E" "map_inv E w fs cs" "0 \<le> x" "0 \<le> y"
  shows "reads E fs cs w (get_height E x y z) (sum_list (map (height_of E (objs w)) (field_objects w cs x y z)))"
  unfolding get_height_def [abs_def]
proof (rule reads_bind [OF reads_first [OF assms]], rule reads_objs)
  show "height_loop E (first_num (field_objects w cs x y z)) 0 (objs w) = Some (sum_list (map (height_of E (objs w)) (field_objects w cs x y z)), objs w)"
    using height_loop_row [OF assms(1) map_invD(5) [OF assms(3)] field_objects_row [OF assms(1-3), of x y z], of 0] by simp
qed

lemma reads_top:
  assumes "loaded_types E" "field_type E" "map_inv E w fs cs" "0 \<le> x" "0 \<le> y"
  shows "\<exists>n. reads E fs cs w (get_top_object E x y z mv) n \<and> (if field_objects w cs x y z = [] then n = 0
    else \<exists>us vs. field_objects w cs x y z = us @ n # vs \<and> (\<forall>u\<in>set us. \<not> stops_top E mv (type_in (objs w) u))
      \<and> (vs = [] \<or> stops_top E mv (type_in (objs w) n)))"
proof (cases "field_objects w cs x y z = []")
  case True
  have "reads E fs cs w (get_top_object E x y z mv) 0" unfolding get_top_object_def [abs_def]
    by (rule reads_bind [OF reads_first [OF assms]]) (simp add: True reads_return)
  then show ?thesis using True by auto
next
  case False
  note R = field_objects_row [OF assms(1-3), of x y z]
  obtain n us vs where n: "top_loop E mv (first_num (field_objects w cs x y z)) (objs w) = Some (n, objs w)" "field_objects w cs x y z = us @ n # vs"
    "\<forall>u\<in>set us. \<not> stops_top E mv (type_in (objs w) u)" "vs = [] \<or> stops_top E mv (type_in (objs w) n)"
    using top_loop_row [OF map_invD(5) [OF assms(3)] R False] by blast
  have "first_num (field_objects w cs x y z) \<noteq> 0" using row_nonzero [OF R] False by (cases "field_objects w cs x y z") auto
  then have "reads E fs cs w (get_top_object E x y z mv) n" unfolding get_top_object_def [abs_def]
    by (intro reads_bind [OF reads_first [OF assms]]) (simp add: n(1) reads_objs)
  then show ?thesis using n(2-4) False by auto
qed

text \<open>A magic field can be laid.\<close>

lemma reads_field_possible:
  assumes E: "loaded_types E" "field_type E" and inv: "map_inv E w fs cs" and xy: "0 \<le> x" "0 \<le> y"
  shows "reads E fs cs w (field_possible E x y z ft)
    (ground_at E cs w x y z \<and> (\<forall>n\<in>set (field_objects w cs x y z). \<not> field_stop E ft (type_in (objs w) n)))"
proof -
  let ?xs = "field_objects w cs x y z"
  note R = field_objects_row [OF E inv, of x y z]
  have b: "reads E fs cs w (\<lambda>u. if first_num ?xs = 0 then Some (False, u)
      else Option.bind (on_objs (get_object_type E (first_num ?xs)) u) (\<lambda>(t, w). Some (get_flag (ObjectTypes E) t BANK, w))) (ground_at E cs w x y z)"
  proof (cases ?xs)
    case Nil
    then show ?thesis by (simp add: ground_at_def reads_return)
  next
    case (Cons n ys)
    obtain m where m: "obj (objs w) n = Some m" "n \<noteq> 0" using R Cons by (auto simp: row_Cons)
    have "reads E fs cs w (on_objs (get_object_type E n)) (OType m)" by (rule reads_objs) (rule get_object_type_obj [OF map_invD(5) [OF inv] m(1)])
    then have "reads E fs cs w (\<lambda>u. Option.bind (on_objs (get_object_type E n) u) (\<lambda>(t, w). Some (get_flag (ObjectTypes E) t BANK, w)))
      (get_flag (ObjectTypes E) (OType m) BANK)" by (rule reads_bind) (rule reads_return)
    then show ?thesis using Cons m by (simp add: ground_at_def)
  qed
  have f: "reads E fs cs w (on_objs (find_type_loop E (field_stop E ft) (first_num ?xs))) (first_num (dropWhile (\<lambda>n. \<not> field_stop E ft (type_in (objs w) n)) ?xs))"
    by (rule reads_objs) (rule find_type_loop_row [OF map_invD(5) [OF inv] R])
  note g = first_found [OF row_nonzero [OF R], of "\<lambda>n. field_stop E ft (type_in (objs w) n)"]
  show ?thesis unfolding field_possible_def [abs_def]
    by (rule reads_bind [OF reads_first [OF assms]], rule reads_bind [OF b], rule reads_if, rule reads_value [OF reads_return], simp,
        rule reads_bind [OF f], rule reads_value [OF reads_return]) (use g in auto)
qed

section \<open>An example\<close>

lemma sample_ground_flags:
  "get_flag (ObjectTypes sample_env) 5 BANK" "\<not> get_flag (ObjectTypes sample_env) 5 UNPASS" "\<not> get_flag (ObjectTypes sample_env) 5 AVOID"
  "\<not> get_flag (ObjectTypes sample_env) 5 UNTHROW"
  by code_simp+

text \<open>A ground on one field of a map.\<close>

lemma sample_ground:
  "\<exists>w fs cs n. map_inv sample_env w fs cs \<and> field_objects w cs 6 9 7 = [n] \<and> type_in (objs w) n = 5 \<and> is_free sample_env kind 0xFFFF False cs w 6 9 7"
proof -
  obtain w fs a b where w: "map_inv sample_env w fs (\<lambda>_. [])" "room (objs w) fs 100" "on_map w 6 9 7" "field_of w 6 9 7 = Some b"
    using sample_sector by blast
  obtain p fs' where fs: "fs = p # fs'" using w(2) by (cases fs) (auto simp: room_def)
  have t: "(5 :: int) \<noteq> TYPEID_MAP_CONTAINER" "\<not> is_creature_container 5" by (simp_all add: is_creature_container_def)
  have r: "room (objs w) (p # fs') (Suc 99)" using w(2) fs by simp
  obtain n s' cs' m where n: "map_inv sample_env (w\<lparr>objs := s'\<rparr>) fs' cs'" "obj s' n = Some m" "OType m = 5" "cs' = (\<lambda>_. [])(b := [n])"
    using set_object_map [OF sample_loaded(1) sample_field_type w(1) [unfolded fs] r t w(3,4)] by blast
  have f: "field_objects (w\<lparr>objs := s'\<rparr>) cs' 6 9 7 = [n]" using w(3,4) n(4) by (simp add: field_objects_def)
  have "is_free sample_env kind 0xFFFF False cs' (w\<lparr>objs := s'\<rparr>) 6 9 7"
    using f n(2,3) sample_ground_flags by (simp add: is_free_def walk_ok_def flag_on_def)
  then show ?thesis using n f by (intro exI [of _ "w\<lparr>objs := s'\<rparr>"] exI [of _ fs'] exI [of _ cs'] exI [of _ n]) simp
qed

section \<open>Properties\<close>

text \<open>
  C12: The queries on a field read its objects and change nothing but time stamps of sectors: \<open>coordinate_flag\<close> answers whether some object has the flag,
  \<open>get_height\<close> adds the elevations, \<open>jump_possible\<close> and \<open>field_possible\<close> answer by the objects that block, and \<open>get_top_object\<close> gives the
  first object that is not ground, border, bottom or top, or the last one. This includes fields outside the map.
\<close>

theorem field_queries_correct:
  assumes "loaded_types E" "field_type E" "map_inv E w fs cs" "0 \<le> x" "0 \<le> y"
  shows "reads E fs cs w (coordinate_flag E x y z Flag) (flag_on E cs w x y z Flag)
    \<and> reads E fs cs w (get_height E x y z) (sum_list (map (height_of E (objs w)) (field_objects w cs x y z)))
    \<and> reads E fs cs w (jump_possible E kind x y z a) (jump_ok E kind a cs w x y z)
    \<and> reads E fs cs w (field_possible E x y z ft)
        (ground_at E cs w x y z \<and> (\<forall>n\<in>set (field_objects w cs x y z). \<not> field_stop E ft (type_in (objs w) n)))
    \<and> (\<exists>n. reads E fs cs w (get_top_object E x y z mv) n \<and> (if field_objects w cs x y z = [] then n = 0
        else \<exists>us vs. field_objects w cs x y z = us @ n # vs \<and> (\<forall>u\<in>set us. \<not> stops_top E mv (type_in (objs w) u))
          \<and> (vs = [] \<or> stops_top E mv (type_in (objs w) n))))"
  by (intro conjI reads_coordinate_flag reads_height reads_jump reads_field_possible reads_top assms)

theorem field_queries_correct_witness:
  "\<exists>w fs cs n. field_objects w cs 6 9 7 = [n] \<and> reads sample_env fs cs w (coordinate_flag sample_env 6 9 7 BANK) True
    \<and> reads sample_env fs cs w (get_top_object sample_env 6 9 7 False) n"
proof -
  obtain w fs cs n where w: "map_inv sample_env w fs cs" "field_objects w cs 6 9 7 = [n]" "type_in (objs w) n = 5" using sample_ground by blast
  have "flag_on sample_env cs w 6 9 7 BANK" using w(2,3) sample_ground_flags(1) by (simp add: flag_on_def)
  then show ?thesis using field_queries_correct [OF sample_loaded(1) sample_field_type w(1), of 6 9 7 BANK "\<lambda>_. None" False 0 False] w(2)
    by (intro exI [of _ w] exI [of _ fs] exI [of _ cs] exI [of _ n]) (auto simp: Cons_eq_append_conv)
qed

text \<open>
  C9: \<open>search_free_field\<close> returns, changes no object (only time stamps of sectors), and finds a free field with the least distance of all free fields, or there is none
  up to \<open>Distance\<close>.
\<close>

theorem search_free_field_nearest:
  assumes "loaded_types E" "field_type E" "map_inv E w fs cs" "int D \<le> x" "int D \<le> y"
  shows "\<exists>r w'. search_free_field E kind x y z (int D) HouseID Jump w = Some (r, w') \<and> map_inv E w' fs cs \<and> objs w' = objs w
    \<and> nearest x y D (\<lambda>x y. is_free E kind HouseID Jump cs w x y z) r"
  using search_free_ok [of E fs cs w D x y w kind z HouseID Jump] assms sim_refl [OF assms(3)] by (auto simp: searching_def sim_def)

theorem search_free_field_nearest_witness:
  "\<exists>w w' x y. search_free_field sample_env (\<lambda>_. None) 5 9 7 2 0xFFFF False w = Some (Some (x, y), w') \<and> distance 5 9 x y \<le> 1"
proof -
  obtain w fs cs n where w: "map_inv sample_env w fs cs" "is_free sample_env (\<lambda>_. None) 0xFFFF False cs w 6 9 7" using sample_ground by blast
  obtain r w' where r: "search_free_field sample_env (\<lambda>_. None) 5 9 7 2 0xFFFF False w = Some (r, w')"
    "nearest 5 9 2 (\<lambda>x y. is_free sample_env (\<lambda>_. None) 0xFFFF False cs w x y 7) r"
    using search_free_field_nearest [OF sample_loaded(1) sample_field_type w(1), of 2 5 9 "\<lambda>_. None" 7 "0xFFFF" False] by auto
  have d: "distance 5 9 6 9 = 1" by (simp add: distance_def)
  obtain x y where "r = Some (x, y)" using r(2) w(2) d by (cases r) (auto simp: nearest_def)
  moreover have "distance 5 9 x y \<le> 1" using r(2) w(2) d calculation by (force simp: nearest_def)
  ultimately show ?thesis using r(1) by blast
qed

text \<open>The second stage, when the first search gave \<open>p\<close>: \<open>r\<close> is the answer of the whole.\<close>

definition login_answer :: "env \<Rightarrow> bool \<Rightarrow> (u32 \<Rightarrow> u32 list) \<Rightarrow> game_map \<Rightarrow> nat \<Rightarrow> int \<Rightarrow> int \<Rightarrow> int \<Rightarrow> (int \<times> int) option \<Rightarrow> bool \<times> int \<times> int \<Rightarrow> bool" where
  "login_answer E Player cs w D x y z p r \<longleftrightarrow>
     (let login = \<lambda>x2 y2. login_ok E (house_of w x y z) Player cs w x2 y2 z
      in case p of None \<Rightarrow> nearest x y D login (result_of r) \<and> left_at (x, y) r
         | Some (a, b) \<Rightarrow> if Player \<and> zone_of w 2 a b z then nearest a b D login (result_of r) \<and> left_at (a, b) r else r = (True, a, b))"

lemma login_second_stage:
  assumes "map_inv E w fs cs" "loaded_types E" "field_type E" "int D \<le> a" "int D \<le> b" "sim E fs cs w w2"
  shows "\<exists>r w'. Option.bind (if Player then is_no_logout_field E a b z w2 else Some (False, w2)) (\<lambda>(nolog, w).
      if \<not> nolog then Some ((True, a, b), w)
      else Option.bind (spiral_search (\<lambda>c d. LoginPossible E H Player (a + c) (b + d) z) (int D) spiral_start w)
        (\<lambda>(r, w). Some (case r of None \<Rightarrow> (False, a, b) | Some (c, d) \<Rightarrow> (True, a + c, b + d), w))) = Some (r, w') \<and> sim E fs cs w w'
    \<and> (if Player \<and> zone_of w 2 a b z then nearest a b D (\<lambda>x2 y2. login_ok E H Player cs w x2 y2 z) (result_of r) \<and> left_at (a, b) r else r = (True, a, b))"
proof -
  have ab: "0 \<le> a" "0 \<le> b" using assms(4,5) by simp_all
  have N: "reads E fs cs w (\<lambda>u. if Player then is_no_logout_field E a b z u else Some (False, u)) (Player \<and> zone_of w 2 a b z)"
    unfolding is_no_logout_field_def
    by (rule reads_if; rule reads_value [OF reads_zone [OF assms(1) ab]] reads_value [OF reads_return]) auto
  obtain w3 where w3: "(if Player then is_no_logout_field E a b z w2 else Some (False, w2)) = Some (Player \<and> zone_of w 2 a b z, w3)" "sim E fs cs w w3"
    using readsD [OF N assms(6)] by blast
  then have "searching E fs cs w D a b w3" using assms by (simp add: searching_def)
  from search_login_ok [OF this, of H Player z] show ?thesis
  proof (elim exE conjE)
    fix r w'
    assume r: "Option.bind (spiral_search (\<lambda>c d. LoginPossible E H Player (a + c) (b + d) z) (int D) spiral_start w3)
        (\<lambda>(r, w). Some (case r of None \<Rightarrow> (False, a, b) | Some (c, d) \<Rightarrow> (True, a + c, b + d), w)) = Some (r, w')" "sim E fs cs w w'"
      "nearest a b D (\<lambda>x2 y2. login_ok E H Player cs w x2 y2 z) (result_of r)" "left_at (a, b) r"
    show ?thesis
    proof (cases "Player \<and> zone_of w 2 a b z")
      case True
      then show ?thesis using r w3(1) by (intro exI [of _ r] exI [of _ w']) simp
    next
      case False
      then show ?thesis using w3 by (intro exI [of _ "(True, a, b)"] exI [of _ w3]) auto
    qed
  qed
qed

text \<open>
  C11: \<open>search_login_field\<close> returns the nearest free field, unless a player would be on a no-logout field there; otherwise
  the nearest field where a login is possible, seen from the field that the first search has moved to. When it answers false, the coordinates
  are those the first search has left.
\<close>

theorem search_login_field_correct:
  assumes "loaded_types E" "field_type E" "map_inv E w fs cs" "2 * int D \<le> x" "2 * int D \<le> y"
  shows "\<exists>r w' p. search_login_field E kind x y z (int D) Player w = Some (r, w') \<and> map_inv E w' fs cs \<and> objs w' = objs w
    \<and> nearest x y D (\<lambda>x2 y2. is_free E kind (house_of w x y z) False cs w x2 y2 z) p \<and> login_answer E Player cs w D x y z p r"
proof -
  have xy: "0 \<le> x" "0 \<le> y" using assms(4,5) by simp_all
  let ?H = "house_of w x y z"
  obtain w1 where w1: "get_house_id E x y z w = Some (?H, w1)" "sim E fs cs w w1" using readsD [OF reads_house [OF assms(3) xy] sim_refl [OF assms(3)]] by blast
  then have "searching E fs cs w D x y w1" using assms by (simp add: searching_def)
  then obtain p w2 where p: "search_free_field E kind x y z (int D) ?H False w1 = Some (p, w2)" "sim E fs cs w w2"
    "nearest x y D (\<lambda>x2 y2. is_free E kind ?H False cs w x2 y2 z) p" using search_free_ok by blast
  show ?thesis
  proof (cases p)
    case None
    have "searching E fs cs w D x y w2" using p(2) assms by (simp add: searching_def)
    from search_login_ok [OF this, of ?H Player z] obtain r w3 where
      "search_login_field E kind x y z (int D) Player w = Some (r, w3)" "sim E fs cs w w3" "login_answer E Player cs w D x y z p r"
      using w1(1) p(1) None by (auto simp: search_login_field_def login_answer_def)
    then show ?thesis using p(3) by (intro exI [of _ r] exI [of _ w3] exI [of _ p]) (simp add: sim_def)
  next
    case (Some q)
    obtain a b where q: "q = (a, b)" by (cases q)
    have d: "int D \<le> a" "int D \<le> b" using p(3) assms(4,5) unfolding Some q by (auto simp: nearest_def distance_def max_def split: if_splits)
    from login_second_stage [OF assms(3,1,2) d p(2), of Player z ?H] obtain r w3 where
      "search_login_field E kind x y z (int D) Player w = Some (r, w3)" "sim E fs cs w w3" "login_answer E Player cs w D x y z p r"
      using w1(1) p(1) unfolding Some q by (auto simp: search_login_field_def login_answer_def)
    then show ?thesis using p(3) by (intro exI [of _ r] exI [of _ w3] exI [of _ p]) (simp add: sim_def)
  qed
qed

theorem search_login_field_correct_witness:
  "\<exists>w w' r. search_login_field sample_env (\<lambda>_. None) 5 9 7 2 True w = Some (r, w') \<and> objs w' = objs (w :: game_map)"
proof -
  obtain w fs cs n where w: "map_inv sample_env w fs cs" using sample_ground by blast
  have D: "2 * int 2 \<le> 5" "2 * int 2 \<le> 9" by simp_all
  from search_login_field_correct [OF sample_loaded(1) sample_field_type w D, of "\<lambda>_. None" 7 True] show ?thesis
  proof (elim exE conjE)
    fix r w' assume "search_login_field sample_env (\<lambda>_. None) 5 9 7 (int 2) True w = Some (r, w')" "objs w' = objs w"
    then show ?thesis by (intro exI [of _ w] exI [of _ w'] exI [of _ r]) simp
  qed
qed

text \<open>
  C10: For coordinates up to 65535 that are at most 32767 apart, \<open>throw_possible\<close> returns, no \<open>int\<close> of its interpolation overflows, and no object
  changes. It answers whether there is a floor between \<open>OrigZ - Power\<close> and the floor of the destination with a free line to the field over
  or at the destination, from which nothing stops the fall to it; floors above the thrower count only up to the first ground over him.
\<close>

theorem throw_possible_correct:
  assumes "loaded_types E" "field_type E" "map_inv E w fs cs" "throw_range OrigX OrigY DestX DestY" "0 \<le> OrigZ" "0 \<le> Power"
  shows "\<exists>w'. throw_possible E OrigX OrigY OrigZ DestX DestY DestZ Power w = Some (throw_ok E cs w OrigX OrigY OrigZ DestX DestY DestZ Power, w')
    \<and> map_inv E w' fs cs \<and> objs w' = objs w"
  using readsD [OF reads_throw [OF assms] sim_refl [OF assms(3)], of DestZ] by (auto simp: sim_def)

theorem throw_possible_correct_witness:
  "\<exists>w w'. throw_possible sample_env 8 9 7 6 9 7 0 w = Some (True, w') \<and> objs w' = objs (w :: game_map)"
proof -
  obtain w fs a b where w: "map_inv sample_env w fs (\<lambda>_. [])" using sample_sector by blast
  have e: "field_objects w (\<lambda>_. []) x y z = []" for x y z by (simp add: field_objects_def split: option.splits)
  have "throw_ok sample_env (\<lambda>_. []) w 8 9 7 6 9 7 0"
    unfolding throw_ok_def by (rule exI [of _ 7]) (simp add: ground_at_def e throw_over_def line_free_def flag_on_def)
  then show ?thesis using throw_possible_correct [OF sample_loaded(1) sample_field_type w, of 8 9 6 9 7 0 7] by (auto simp: throw_range_def)
qed

text \<open>
  \<open>search_summon_field\<close> gives a field of the square that is free for a summoned creature, whatever the random numbers are, and one
  whenever there is one.
\<close>

theorem search_summon_field_correct:
  assumes "loaded_types E" "field_type E" "map_inv E w fs cs" "int D \<le> x" "x + int D \<le> 65535" "int D \<le> y" "y + int D \<le> 65535" "0 \<le> z"
    "length rnd = length (offsets (int D))" "\<forall>t\<in>set rnd. 0 \<le> t \<and> t \<le> 99"
  shows "\<exists>r w'. search_summon_field E rnd x y z (int D) w = Some (r, w') \<and> map_inv E w' fs cs \<and> objs w' = objs w
    \<and> (case r of Some (a, b) \<Rightarrow> distance x y a b \<le> int D \<and> summon_ok E cs w x y z a b
       | None \<Rightarrow> \<forall>a b. distance x y a b \<le> int D \<longrightarrow> \<not> summon_ok E cs w x y z a b)"
proof -
  have os: "(a, b) \<in> set (offsets (int D)) \<longleftrightarrow> distance x y (x + a) (y + b) \<le> int D" for a b
  proof -
    have "(a, b) \<in> set (offsets (int D)) \<longleftrightarrow> a \<in> {- int D..int D} \<and> b \<in> {- int D..int D}" by (auto simp: offsets_def intro: bexI [of _ b] image_eqI [of _ _ a])
    then show ?thesis by (auto simp: distance_def max_def)
  qed
  have p: "\<forall>(a, b)\<in>set (offsets (int D)). throw_range x y (x + a) (y + b)" "\<forall>t\<in>set rnd. 0 \<le> t"
    using assms(4-7,10) by (auto simp: offsets_def throw_range_def)
  obtain bx "by" t where v: "reads E fs cs w (summon_loop E x y z (offsets (int D)) rnd (0, 0, - 1)) (bx, by, t)" "- 1 \<le> t"
    "(bx, by, t) = (0, 0, - 1) \<or> (bx - x, by - y) \<in> set (offsets (int D)) \<and> 0 \<le> t \<and> summon_ok E cs w x y z bx by"
    "t = - 1 \<longrightarrow> (\<forall>(a, b)\<in>set (offsets (int D)). \<not> summon_ok E cs w x y z (x + a) (y + b))"
    using reads_summon_loop [OF assms(1-3,8) p(1) assms(9) p(2), of "- 1" 0 0] by auto
  obtain w' where w': "summon_loop E x y z (offsets (int D)) rnd (0, 0, - 1) w = Some ((bx, by, t), w')" "sim E fs cs w w'"
    using readsD [OF v(1) sim_refl [OF assms(3)]] by blast
  have s: "search_summon_field E rnd x y z (int D) w = Some (if 0 \<le> t then Some (bx, by) else None, w')"
    using w'(1) by (simp add: search_summon_field_def)
  show ?thesis
  proof (cases "0 \<le> t")
    case True
    then have "distance x y bx by \<le> int D \<and> summon_ok E cs w x y z bx by" using v(3) os [of "bx - x" "by - y"] by auto
    then show ?thesis using s True w'(2) by (intro exI [of _ "Some (bx, by)"] exI [of _ w']) (simp add: sim_def)
  next
    case False
    then have "t = - 1" using v(2) by simp
    then have "\<not> summon_ok E cs w x y z a b" if "distance x y a b \<le> int D" for a b
      using v(4) os [of "a - x" "b - y"] that by fastforce
    then show ?thesis using s False w'(2) by (intro exI [of _ None] exI [of _ w']) (simp add: sim_def)
  qed
qed

theorem search_summon_field_correct_witness:
  "\<exists>w w' r. search_summon_field sample_env (replicate 9 42) 5 9 7 1 w = Some (r, w') \<and> objs w' = objs (w :: game_map)"
proof -
  obtain w fs cs n where w: "map_inv sample_env w fs cs" using sample_ground by blast
  have "length (offsets 1) = 9" by (simp add: offsets_def upto.simps)
  then show ?thesis using search_summon_field_correct [OF sample_loaded(1) sample_field_type w, of 1 5 9 7 "replicate 9 42"] by auto
qed

end
