(* ===== verification/Shortway_Fill.thy ===== *)
theory Shortway_Fill
  imports Shortway_Ways Field_Claims
begin

text \<open>
  \<open>TShortway::FillMap\<close>: the waypoints of the visible fields, read from the map of the game, and the properties of the path finder on
  this map. Whether the creature may step on a field is its virtual function \<open>MovePossible\<close>, called with \<open>Execute\<close> and \<open>Jump\<close> false: a
  parameter of the operations here. The versions of \<open>TCreature\<close> and \<open>TNPC\<close> are below; the one of \<open>TPlayer\<close> calls the one of \<open>TCreature\<close> and
  does no more without \<open>Execute\<close>. \<open>TMonster\<close> has its own, which is not modelled.
\<close>

section \<open>Operations\<close>

abbreviation (input) WAYPOINTS :: int where "WAYPOINTS \<equiv> 0"

definition TCreature_MovePossible :: "env \<Rightarrow> (u32 \<Rightarrow> creature_type option) \<Rightarrow> int \<Rightarrow> int \<Rightarrow> int \<Rightarrow> bool \<Rightarrow> bool \<Rightarrow> game_map \<Rightarrow>
    (bool \<times> game_map) option" where
  "TCreature_MovePossible E kind x y z Execute Jump w = do {
     (Result, w) \<leftarrow> (if Jump then jump_possible E kind x y z False w
       else do {
         (bank, w) \<leftarrow> coordinate_flag E x y z BANK w;
         if bank then do {(unpass, w) \<leftarrow> coordinate_flag E x y z UNPASS w; Some (\<not> unpass, w)} else Some (False, w)});
     if Result \<and> \<not> Execute then do {(avoid, w) \<leftarrow> coordinate_flag E x y z AVOID w; Some (\<not> avoid, w)}
     else Some (Result, w)}"

definition TNPC_MovePossible :: "env \<Rightarrow> int \<times> int \<times> int \<Rightarrow> int \<Rightarrow> int \<Rightarrow> int \<Rightarrow> int \<Rightarrow> bool \<Rightarrow> bool \<Rightarrow> game_map \<Rightarrow> (bool \<times> game_map) option" where
  "TNPC_MovePossible E start Radius x y z Execute Jump w = do {
     (bank, w) \<leftarrow> coordinate_flag E x y z BANK w;
     (unpass, w) \<leftarrow> (if bank then coordinate_flag E x y z UNPASS w else Some (True, w));
     (avoid, w) \<leftarrow> (if \<not> unpass then coordinate_flag E x y z AVOID w else Some (True, w));
     if \<not> avoid \<and> z = snd (snd start) \<and> \<bar>x - fst start\<bar> \<le> Radius \<and> \<bar>y - fst (snd start)\<bar> \<le> Radius
     then do {(house, w) \<leftarrow> is_house E x y z w; Some (\<not> house, w)}
     else Some (False, w)}"

text \<open>The waypoints of a field, and one step of the loops.\<close>

definition fill_waypoints :: "env \<Rightarrow> (int \<Rightarrow> int \<Rightarrow> int \<Rightarrow> game_map \<Rightarrow> (bool \<times> game_map) option) \<Rightarrow> int \<Rightarrow> int \<Rightarrow> int \<Rightarrow>
    TShortway \<Rightarrow> game_map \<Rightarrow> (int \<times> TShortway \<times> game_map) option" where
  "fill_waypoints E MovePossible FieldX FieldY FieldZ s w = do {
     (Obj, w) \<leftarrow> get_first_object E FieldX FieldY FieldZ w;
     (e, w) \<leftarrow> on_objs (exists E Obj) w;
     if \<not> e then Some (- 1, s, w)
     else do {
       (t, w) \<leftarrow> on_objs (get_object_type E Obj) w;
       if get_flag (ObjectTypes E) t BANK \<and> \<not> get_flag (ObjectTypes E) t UNPASS
       then do {
         (v, _) \<leftarrow> get_type_attribute (ObjectTypes E) t WAYPOINTS;
         (Waypoints, s) \<leftarrow> Some (if sint v = 0
           then (- 1, s\<lparr>serrors := serrors s @ [''TShortway::FillMap: Invalid waypoints value'']\<rparr>) else (sint v, s));
         (possible, w) \<leftarrow> MovePossible FieldX FieldY FieldZ w;
         Waypoints \<leftarrow> Some (if possible then Waypoints else - 1);
         Some (Waypoints, if 0 < Waypoints \<and> Waypoints < MinWaypoints s then s\<lparr>MinWaypoints := Waypoints\<rparr> else s, w)}
       else Some (- 1, s, w)}}"

fun fill_points :: "env \<Rightarrow> (int \<Rightarrow> int \<Rightarrow> int \<Rightarrow> game_map \<Rightarrow> (bool \<times> game_map) option) \<Rightarrow> (int \<times> int) list \<Rightarrow>
    TShortway \<Rightarrow> game_map \<Rightarrow> (TShortway \<times> game_map) option" where
  "fill_points E MovePossible [] s w = Some (s, w)"
| "fill_points E MovePossible ((X, Y) # vs) s w = do {
     (wp, s, w) \<leftarrow> fill_waypoints E MovePossible (StartX s + X) (StartY s + Y) (StartZ s) s w;
     s \<leftarrow> pset (point_at s X Y) (\<lambda>q. q\<lparr>px := X, py := Y, Waypoints := wp\<rparr>) s;
     fill_points E MovePossible vs s w}"

definition FillMap :: "env \<Rightarrow> (int \<Rightarrow> int \<Rightarrow> int \<Rightarrow> game_map \<Rightarrow> (bool \<times> game_map) option) \<Rightarrow>
    TShortway \<Rightarrow> game_map \<Rightarrow> (TShortway \<times> game_map) option" where
  "FillMap E MovePossible s w = fill_points E MovePossible (visible_list s) (s\<lparr>MinWaypoints := 1000\<rparr>) w"

text \<open>The constructor. With a wrong range it leaves the members without a value: then there is no result.\<close>

definition TShortway_new :: "env \<Rightarrow> (int \<Rightarrow> int \<Rightarrow> int \<Rightarrow> game_map \<Rightarrow> (bool \<times> game_map) option) \<Rightarrow> int \<Rightarrow> int \<Rightarrow> int \<times> int \<times> int \<Rightarrow>
    game_map \<Rightarrow> (TShortway \<times> game_map) option" where
  "TShortway_new E MovePossible VX VY pos w =
     (if VX < 1 \<or> VX > 100 \<or> VY < 1 \<or> VY > 100 then None
      else FillMap E MovePossible \<lparr>SMap = fst (matrix_new (- (VX + 1)) (VX + 1) (- (VY + 1)) (VY + 1) new_point), FirstToExpand = None,
        VisibleX = VX, VisibleY = VY, StartX = fst pos, StartY = fst (snd pos), StartZ = snd (snd pos), MinWaypoints = 0, serrors = []\<rparr> w)"

section \<open>The waypoints of the fields\<close>

text \<open>The first object of a field when it is a ground that does not block, with its attribute; an attribute of zero is an error of the type file.\<close>

definition ground_value :: "env \<Rightarrow> (u32 \<Rightarrow> u32 list) \<Rightarrow> game_map \<Rightarrow> int \<Rightarrow> int \<Rightarrow> int \<Rightarrow> int option" where
  "ground_value E cs w x y z = (case field_objects w cs x y z of [] \<Rightarrow> None
     | n # _ \<Rightarrow> if get_flag (ObjectTypes E) (type_in (objs w) n) BANK \<and> \<not> get_flag (ObjectTypes E) (type_in (objs w) n) UNPASS
         then Some (sint (TAttributes (ObjectTypes E (type_in (objs w) n)) ! 0)) else None)"

definition waypoints_of :: "env \<Rightarrow> (u32 \<Rightarrow> u32 list) \<Rightarrow> (int \<Rightarrow> int \<Rightarrow> int \<Rightarrow> bool) \<Rightarrow> game_map \<Rightarrow> int \<Rightarrow> int \<Rightarrow> int \<Rightarrow> int" where
  "waypoints_of E cs ok w x y z = (case ground_value E cs w x y z of None \<Rightarrow> - 1 | Some v \<Rightarrow> if v \<noteq> 0 \<and> ok x y z then v else - 1)"

definition zero_report :: "env \<Rightarrow> (u32 \<Rightarrow> u32 list) \<Rightarrow> game_map \<Rightarrow> int \<Rightarrow> int \<Rightarrow> int \<Rightarrow> string list" where
  "zero_report E cs w x y z = (if ground_value E cs w x y z = Some 0 then [''TShortway::FillMap: Invalid waypoints value''] else [])"

definition least :: "int \<Rightarrow> int \<Rightarrow> int" where
  "least m v = (if 0 < v \<and> v < m then v else m)"

lemma foldl_least: "foldl least m vs = Min (insert m {v\<in>set vs. 0 < v})"
proof (induction vs arbitrary: m)
  case (Cons v vs)
  let ?P = "{v\<in>set vs. 0 < v}"
  have "{u\<in>set (v # vs). 0 < u} = (if 0 < v then insert v ?P else ?P)" by auto
  moreover have "finite A \<Longrightarrow> 0 < v \<Longrightarrow> Min (insert (least m v) A) = Min (insert m (insert v A))" for A :: "int set"
    by (cases "A = {}") (auto simp: least_def min_def)
  ultimately show ?case using Cons.IH [of "least m v"] by (cases "0 < v") (simp_all add: least_def)
qed simp

text \<open>What a creature without special rules may step on.\<close>

definition step_ok :: "env \<Rightarrow> (u32 \<Rightarrow> u32 list) \<Rightarrow> game_map \<Rightarrow> int \<Rightarrow> int \<Rightarrow> int \<Rightarrow> bool" where
  "step_ok E cs w x y z \<longleftrightarrow> flag_on E cs w x y z BANK \<and> \<not> flag_on E cs w x y z UNPASS \<and> \<not> flag_on E cs w x y z AVOID"

lemma reads_move_possible:
  assumes "loaded_types E" "field_type E" "map_inv E w fs cs" "0 \<le> x" "0 \<le> y"
  shows "reads E fs cs w (TCreature_MovePossible E kind x y z False False) (step_ok E cs w x y z)"
proof -
  let ?F = "flag_on E cs w x y z"
  note F = reads_coordinate_flag [OF assms, of z]
  have U: "reads E fs cs w (\<lambda>w. Option.bind (coordinate_flag E x y z UNPASS w) (\<lambda>(u, w). Some (\<not> u, w))) (\<not> ?F UNPASS)"
    by (rule reads_bind [OF F reads_return])
  have R: "reads E fs cs w (\<lambda>w. Option.bind (coordinate_flag E x y z BANK w) (\<lambda>(bank, w).
      if bank then Option.bind (coordinate_flag E x y z UNPASS w) (\<lambda>(u, w). Some (\<not> u, w)) else Some (False, w))) (?F BANK \<and> \<not> ?F UNPASS)"
    by (rule reads_bind [OF F], rule reads_if; rule reads_value [OF U] reads_value [OF reads_return]) auto
  have A: "reads E fs cs w (\<lambda>w. Option.bind (coordinate_flag E x y z AVOID w) (\<lambda>(a, w). Some (\<not> a, w))) (\<not> ?F AVOID)"
    by (rule reads_bind [OF F reads_return])
  show ?thesis unfolding TCreature_MovePossible_def [abs_def] if_False
    by (rule reads_bind [OF R], rule reads_if; rule reads_value [OF A] reads_value [OF reads_return]) (auto simp: step_ok_def)
qed

text \<open>What an NPC may step on: besides, its home is not left and no house is entered.\<close>

definition npc_step_ok :: "env \<Rightarrow> (u32 \<Rightarrow> u32 list) \<Rightarrow> game_map \<Rightarrow> int \<times> int \<times> int \<Rightarrow> int \<Rightarrow> int \<Rightarrow> int \<Rightarrow> int \<Rightarrow> bool" where
  "npc_step_ok E cs w start Radius x y z \<longleftrightarrow> step_ok E cs w x y z \<and> z = snd (snd start)
     \<and> distance (fst start) (fst (snd start)) x y \<le> Radius \<and> house_of w x y z = 0"

lemma reads_npc_move_possible:
  assumes "loaded_types E" "field_type E" "map_inv E w fs cs" "0 \<le> x" "0 \<le> y"
  shows "reads E fs cs w (TNPC_MovePossible E start Radius x y z Execute Jump) (npc_step_ok E cs w start Radius x y z)"
proof -
  let ?F = "flag_on E cs w x y z"
  note F = reads_coordinate_flag [OF assms, of z] and H = reads_is_house [OF assms(3-5), of z]
  have U: "reads E fs cs w (\<lambda>w. if ?F BANK then coordinate_flag E x y z UNPASS w else Some (True, w)) (?F BANK \<longrightarrow> ?F UNPASS)"
    by (rule reads_if; rule reads_value [OF F] reads_value [OF reads_return]) simp_all
  have A: "reads E fs cs w (\<lambda>w. if \<not> (?F BANK \<longrightarrow> ?F UNPASS) then coordinate_flag E x y z AVOID w else Some (True, w)) (\<not> step_ok E cs w x y z)"
    by (rule reads_if; rule reads_value [OF F] reads_value [OF reads_return]) (auto simp: step_ok_def)
  have N: "reads E fs cs w (\<lambda>w. Option.bind (is_house E x y z w) (\<lambda>(house, w). Some (\<not> house, w))) (\<not> house_of w x y z \<noteq> 0)"
    by (rule reads_bind [OF H reads_return])
  show ?thesis unfolding TNPC_MovePossible_def [abs_def]
    by (rule reads_bind [OF F], rule reads_bind [OF U], rule reads_bind [OF A], rule reads_if; rule reads_value [OF N] reads_value [OF reads_return])
      (auto simp: npc_step_ok_def distance_def abs_minus_commute)
qed

text \<open>The frame of a map of points: all but the least waypoints and the points.\<close>

definition frame :: "TShortway \<Rightarrow> int list" where
  "frame s = meta (s\<lparr>MinWaypoints := 0\<rparr>)"

lemma frame_cong:
  assumes "frame s' = frame s"
  shows "grid s' = grid s" "visible s' = visible s" "framed s' = framed s" "point_at s' = point_at s" "ptr s' = ptr s"
    "StartX s' = StartX s" "StartY s' = StartY s" "StartZ s' = StartZ s"
proof -
  note m = meta_cong [OF assms [unfolded frame_def]]
  have e: "grid (s\<lparr>MinWaypoints := 0\<rparr>) = grid s" "visible (s\<lparr>MinWaypoints := 0\<rparr>) = visible s" "framed (s\<lparr>MinWaypoints := 0\<rparr>) = framed s"
    "point_at (s\<lparr>MinWaypoints := 0\<rparr>) = point_at s" "ptr (s\<lparr>MinWaypoints := 0\<rparr>) = ptr s" for s
    by (simp_all add: grid_def visible_def framed_def point_at_def ptr_def fun_eq_iff)
  show "grid s' = grid s" "visible s' = visible s" "framed s' = framed s" "point_at s' = point_at s" "ptr s' = ptr s"
    "StartX s' = StartX s" "StartY s' = StartY s" "StartZ s' = StartZ s" using m e by simp_all
qed

lemma frame_min [simp]: "frame (s\<lparr>MinWaypoints := m\<rparr>) = frame s" "frame (put_point v f s) = frame s" "pt (s\<lparr>MinWaypoints := m\<rparr>) = pt s"
  "frame (s\<lparr>serrors := es\<rparr>) = frame s" "pt (s\<lparr>serrors := es\<rparr>) = pt s"
proof -
  show "frame (s\<lparr>serrors := es\<rparr>) = frame s" by (simp add: frame_def meta_def)
  show "pt (s\<lparr>serrors := es\<rparr>) = pt s" by (simp add: pt_def ptr_def point_at_def fun_eq_iff)
  show "frame (s\<lparr>MinWaypoints := m\<rparr>) = frame s" by (simp add: frame_def)
  show "frame (put_point v f s) = frame s" by (simp add: frame_def put_point_def meta_def)
  show "pt (s\<lparr>MinWaypoints := m\<rparr>) = pt s" by (simp add: pt_def ptr_def point_at_def fun_eq_iff)
qed

lemma fill_waypoints_ok:
  assumes E: "loaded_types E" "field_type E" and inv: "map_inv E w0 fs cs" and w: "sim E fs cs w0 w" and xy: "0 \<le> x" "0 \<le> y"
    and mp: "reads E fs cs w0 (mp x y z) (ok x y z)"
  shows "\<exists>w'. fill_waypoints E mp x y z s w = Some (waypoints_of E cs ok w0 x y z,
      s\<lparr>MinWaypoints := least (MinWaypoints s) (waypoints_of E cs ok w0 x y z), serrors := serrors s @ zero_report E cs w0 x y z\<rparr>, w')
    \<and> sim E fs cs w0 w'"
proof -
  let ?xs = "field_objects w0 cs x y z"
  note defs = fill_waypoints_def waypoints_of_def zero_report_def least_def
  obtain w1 where w1: "get_first_object E x y z w = Some (first_num ?xs, w1)" "sim E fs cs w0 w1"
    using readsD [OF reads_first [OF E inv xy] w] by blast
  have st: "store_inv (objs w1) fs" by (rule map_invD(5) [of E _ _ cs]) (use w1(2) in \<open>simp add: sim_def\<close>)
  have same: "on_objs f w1 = Some (v, w1)" if "f (objs w1) = Some (v, objs w1)" for f :: "objects \<Rightarrow> ('b \<times> objects) option" and v
    using that by (simp add: on_objs_def)
  note R = field_objects_row [OF E inv, of x y z]
  have o: "objs w1 = objs w0" using w1(2) by (simp add: sim_def)
  show ?thesis
  proof (cases ?xs)
    case Nil
    have "on_objs (exists E 0) w1 = Some (False, w1)" by (rule same) (use st in simp)
    moreover have "ground_value E cs w0 x y z = None" using Nil by (simp add: ground_value_def)
    ultimately show ?thesis using w1 Nil by (intro exI [of _ w1]) (simp add: defs)
  next
    case (Cons n ys)
    obtain m where m: "obj (objs w0) n = Some m" using R Cons by (auto simp: row_Cons)
    have e: "on_objs (exists E n) w1 = Some (True, w1)" by (rule same) (use st m o in simp)
    have t: "on_objs (get_object_type E n) w1 = Some (OType m, w1)" by (rule same) (use get_object_type_obj [OF st] m o in simp)
    show ?thesis
    proof (cases "get_flag (ObjectTypes E) (OType m) BANK \<and> \<not> get_flag (ObjectTypes E) (OType m) UNPASS")
      case False
      then have "ground_value E cs w0 x y z = None" using Cons m by (auto simp: ground_value_def)
      then show ?thesis using False w1 Cons e t by (intro exI [of _ w1]) (auto simp: defs)
    next
      case True
      let ?v = "TAttributes (ObjectTypes E (OType m)) ! 0"
      have a: "get_type_attribute (ObjectTypes E) (OType m) WAYPOINTS = Some (?v, False)"
        using type_attribute_loaded [OF E(1), of 0 0 "OType m"] True by (simp add: TypeAttributeFlags_def)
      have g: "ground_value E cs w0 x y z = Some (sint ?v)" using True Cons m by (simp add: ground_value_def)
      obtain w2 where w2: "mp x y z w1 = Some (ok x y z, w2)" "sim E fs cs w0 w2" using readsD [OF mp w1(2)] by blast
      then show ?thesis using w1(1) Cons e t True a g by (intro exI [of _ w2]) (simp add: defs)
    qed
  qed
qed

text \<open>The points of a list, in its order.\<close>

lemma fill_points_ok:
  assumes E: "loaded_types E" "field_type E" and inv: "map_inv E w0 fs cs" and w: "sim E fs cs w0 w" and g: "grid s"
    and vs: "\<forall>(X, Y)\<in>set vs. framed s (At X Y) \<and> 0 \<le> StartX s + X \<and> 0 \<le> StartY s + Y"
    and mp: "\<And>x y. 0 \<le> x \<Longrightarrow> 0 \<le> y \<Longrightarrow> reads E fs cs w0 (mp x y (StartZ s)) (ok x y (StartZ s))"
  shows "\<exists>s' w'. fill_points E mp vs s w = Some (s', w') \<and> sim E fs cs w0 w' \<and> frame s' = frame s
    \<and> serrors s' = serrors s @ concat (map (\<lambda>(X, Y). zero_report E cs w0 (StartX s + X) (StartY s + Y) (StartZ s)) vs)
    \<and> MinWaypoints s' = foldl least (MinWaypoints s) (map (\<lambda>(X, Y). waypoints_of E cs ok w0 (StartX s + X) (StartY s + Y) (StartZ s)) vs)
    \<and> (\<forall>u. framed s u \<longrightarrow> pt s' u = (if (col u, line u) \<in> set vs
        then (pt s u)\<lparr>px := col u, py := line u, Waypoints := waypoints_of E cs ok w0 (StartX s + col u) (StartY s + line u) (StartZ s)\<rparr> else pt s u))"
  using w g vs mp
proof (induction vs arbitrary: s w)
  case Nil
  then show ?case by simp
next
  case (Cons p vs)
  obtain X Y where p: "p = (X, Y)" by (cases p)
  let ?W = "\<lambda>X Y. waypoints_of E cs ok w0 (StartX s + X) (StartY s + Y) (StartZ s)" and ?Z = "\<lambda>X Y. zero_report E cs w0 (StartX s + X) (StartY s + Y) (StartZ s)"
  let ?s1 = "s\<lparr>MinWaypoints := least (MinWaypoints s) (?W X Y), serrors := serrors s @ ?Z X Y\<rparr>"
  let ?f = "\<lambda>q. q\<lparr>px := X, py := Y, Waypoints := ?W X Y\<rparr>"
  let ?s2 = "put_point (At X Y) ?f ?s1"
  have XY: "0 \<le> StartX s + X" "0 \<le> StartY s + Y" "framed s (At X Y)" using Cons.prems(3) p by auto
  obtain w1 where w1: "fill_waypoints E mp (StartX s + X) (StartY s + Y) (StartZ s) s w = Some (?W X Y, ?s1, w1)" "sim E fs cs w0 w1"
    using fill_waypoints_ok [of E w0 fs cs w "StartX s + X" "StartY s + Y" mp "StartZ s" ok s, OF E inv Cons.prems(1) XY(1,2) Cons.prems(4) [OF XY(1,2)]] by blast
  have f1: "frame ?s1 = frame s" "pt ?s1 = pt s" by simp_all
  note c1 = frame_cong [OF f1(1)]
  have g1: "grid ?s1" "framed ?s1 (At X Y)" unfolding c1 using Cons.prems(2) XY(3) by simp_all
  have ps: "pset (point_at ?s1 X Y) ?f ?s1 = Some ?s2" using pset_put [OF g1, of ?f] unfolding ptr_def by simp
  have f2: "frame ?s2 = frame s" "serrors ?s2 = serrors s @ ?Z X Y" "MinWaypoints ?s2 = least (MinWaypoints s) (?W X Y)" using f1 by simp_all
  note c2 = frame_cong [OF f2(1)]
  have pre: "\<forall>(X, Y)\<in>set vs. framed ?s2 (At X Y) \<and> 0 \<le> StartX ?s2 + X \<and> 0 \<le> StartY ?s2 + Y" "grid ?s2"
    unfolding c2 using Cons.prems(2,3) by auto
  obtain s' w' where s': "fill_points E mp vs ?s2 w1 = Some (s', w')" "sim E fs cs w0 w'" "frame s' = frame ?s2"
    "serrors s' = serrors ?s2 @ concat (map (\<lambda>(X, Y). ?Z X Y) vs)" "MinWaypoints s' = foldl least (MinWaypoints ?s2) (map (\<lambda>(X, Y). ?W X Y) vs)"
    "\<forall>u. framed s u \<longrightarrow> pt s' u = (if (col u, line u) \<in> set vs then (pt ?s2 u)\<lparr>px := col u, py := line u, Waypoints := ?W (col u) (line u)\<rparr> else pt ?s2 u)"
    using Cons.IH [OF w1(2) pre(2,1)] Cons.prems(4) unfolding c2 by blast
  have "pt s' u = (if (col u, line u) \<in> set (p # vs) then (pt s u)\<lparr>px := col u, py := line u, Waypoints := ?W (col u) (line u)\<rparr> else pt s u)"
    if u: "framed s u" for u
  proof -
    have "pt ?s2 u = (if u = At X Y then ?f (pt s u) else pt s u)" using pt_put [OF g1, of u ?f] u unfolding c1 f1(2) by simp
    then show ?thesis using s'(6) u p by (cases u) auto
  qed
  moreover have "fill_points E mp (p # vs) s w = Some (s', w')" using w1(1) ps s'(1) p by simp
  moreover have "frame s' = frame s" "serrors s' = serrors s @ concat (map (\<lambda>(X, Y). ?Z X Y) (p # vs))"
    "MinWaypoints s' = foldl least (MinWaypoints s) (map (\<lambda>(X, Y). ?W X Y) (p # vs))" using s'(3-5) f2 p by simp_all
  ultimately show ?case using s'(2) by blast
qed

text \<open>
  What the constructor leaves: every visible point has its coordinates and waypoints, the frame around them cannot be entered, the least
  waypoints are those of the visible fields, and there is one message for every ground without waypoints.
\<close>

definition filled_from :: "env \<Rightarrow> (u32 \<Rightarrow> u32 list) \<Rightarrow> (int \<Rightarrow> int \<Rightarrow> int \<Rightarrow> bool) \<Rightarrow> game_map \<Rightarrow> int \<Rightarrow> int \<Rightarrow> int \<times> int \<times> int \<Rightarrow> TShortway \<Rightarrow> bool" where
  "filled_from E cs ok w VX VY pos s \<longleftrightarrow> grid s \<and> VisibleX s = VX \<and> VisibleY s = VY \<and> (StartX s, StartY s, StartZ s) = pos
     \<and> (\<forall>u. visible s u \<longrightarrow> px (pt s u) = col u \<and> py (pt s u) = line u \<and> WP s u = waypoints_of E cs ok w (StartX s + col u) (StartY s + line u) (StartZ s))
     \<and> (\<forall>u. framed s u \<and> \<not> visible s u \<longrightarrow> WP s u = - 1)
     \<and> MinWaypoints s = Min (insert 1000 {v. 0 < v \<and> (\<exists>u. visible s u \<and> WP s u = v)})
     \<and> serrors s = concat (map (\<lambda>(X, Y). zero_report E cs w (StartX s + X) (StartY s + Y) (StartZ s)) (visible_list s))"

lemma shortway_new_ok:
  assumes E: "loaded_types E" "field_type E" and inv: "map_inv E w fs cs"
    and V: "1 \<le> VX" "VX \<le> 100" "1 \<le> VY" "VY \<le> 100" "VX \<le> x" "VY \<le> y"
    and mp: "\<And>a b. 0 \<le> a \<Longrightarrow> 0 \<le> b \<Longrightarrow> reads E fs cs w (mp a b z) (ok a b z)"
  shows "\<exists>s w'. TShortway_new E mp VX VY (x, y, z) w = Some (s, w') \<and> sim E fs cs w w' \<and> filled_from E cs ok w VX VY (x, y, z) s"
proof -
  let ?s = "\<lparr>SMap = fst (matrix_new (- (VX + 1)) (VX + 1) (- (VY + 1)) (VY + 1) new_point), FirstToExpand = None,
        VisibleX = VX, VisibleY = VY, StartX = x, StartY = y, StartZ = z, MinWaypoints = 1000, serrors = []\<rparr>"
  have g: "grid ?s" using V matrix_new_inv [of "- (VX + 1)" "VX + 1" "- (VY + 1)" "VY + 1" new_point]
    by (simp add: grid_def) (simp add: matrix_new_def Let_def)
  have vl: "(X, Y) \<in> set (visible_list ?s) \<longleftrightarrow> visible ?s (At X Y)" for X Y by (rule visible_list)
  have pre: "\<forall>(X, Y)\<in>set (visible_list ?s). framed ?s (At X Y) \<and> 0 \<le> StartX ?s + X \<and> 0 \<le> StartY ?s + Y"
    using vl visible_framed V by (auto simp: visible_def framed_def)
  obtain s' w' where s': "fill_points E mp (visible_list ?s) ?s w = Some (s', w')" "sim E fs cs w w'" "frame s' = frame ?s"
    "serrors s' = concat (map (\<lambda>(X, Y). zero_report E cs w (x + X) (y + Y) z) (visible_list ?s))"
    "MinWaypoints s' = foldl least 1000 (map (\<lambda>(X, Y). waypoints_of E cs ok w (x + X) (y + Y) z) (visible_list ?s))"
    "\<forall>u. framed ?s u \<longrightarrow> pt s' u = (if (col u, line u) \<in> set (visible_list ?s)
        then (pt ?s u)\<lparr>px := col u, py := line u, Waypoints := waypoints_of E cs ok w (x + col u) (y + line u) z\<rparr> else pt ?s u)"
    using fill_points_ok [OF E inv sim_refl [OF inv] g pre, of mp ok] mp by auto
  note c = frame_cong [OF s'(3)]
  have vis: "VisibleX s' = VX" "VisibleY s' = VY" using s'(3) by (simp_all add: frame_def meta_def)
  have l: "visible_list s' = visible_list ?s" using vis by (simp add: visible_list_def)
  have pv: "pt s' u = (pt ?s u)\<lparr>px := col u, py := line u, Waypoints := waypoints_of E cs ok w (x + col u) (y + line u) z\<rparr>" if "visible ?s u" for u
    using s'(6) visible_framed [OF that] that vl [of "col u" "line u"] by simp
  have pb: "WP s' u = - 1" if "framed ?s u" "\<not> visible ?s u" for u
  proof -
    have "pt s' u = pt ?s u" using s'(6) that vl [of "col u" "line u"] by simp
    moreover have "pt ?s u \<in> set (entry (SMap ?s))" unfolding pt_def by (rule nth_mem) (use ptr_range [OF g that(1)] in \<open>simp add: nat_less_iff\<close>)
    then have "pt ?s u = new_point" by (auto simp: matrix_new_def Let_def)
    ultimately show ?thesis by (simp add: new_point_def)
  qed
  have "{v\<in>set (map (\<lambda>(X, Y). waypoints_of E cs ok w (x + X) (y + Y) z) (visible_list ?s)). 0 < v} = {v. 0 < v \<and> (\<exists>u. visible ?s u \<and> WP s' u = v)}" (is "?L = ?R")
  proof (intro set_eqI iffI)
    fix v assume "v \<in> ?L"
    then obtain X Y where "visible ?s (At X Y)" "v = waypoints_of E cs ok w (x + X) (y + Y) z" "0 < v" using vl by auto
    then show "v \<in> ?R" using pv [of "At X Y"] by (intro CollectI conjI exI [of _ "At X Y"]) simp_all
  next
    fix v assume "v \<in> ?R"
    then obtain u where "visible ?s u" "WP s' u = v" "0 < v" by blast
    then show "v \<in> ?L" using vl [of "col u" "line u"] pv [of u] by force
  qed
  then have "filled_from E cs ok w VX VY (x, y, z) s'"
    unfolding filled_from_def c l using g vis pv pb s'(4) s'(5) [unfolded foldl_least] by simp
  then show ?thesis using s'(1,2) V unfolding TShortway_new_def FillMap_def by (intro exI [of _ s'] exI [of _ w']) (simp add: visible_list_def)
qed

text \<open>
  An assumption on the type file, which is data: a step on a ground costs at least three waypoints and at most a thousand. With it the
  constructor reports no error and leaves a map on which \<open>Calculate\<close> finds cheapest ways.
\<close>

definition ground_types :: "env \<Rightarrow> bool" where
  "ground_types E \<longleftrightarrow> (\<forall>t. get_flag (ObjectTypes E) t BANK \<longrightarrow> 3 \<le> sint (TAttributes (ObjectTypes E t) ! 0) \<and> sint (TAttributes (ObjectTypes E t) ! 0) \<le> 1000)"

lemma waypoints_range: "ground_types E \<Longrightarrow> waypoints_of E cs ok w x y z = - 1 \<or> 3 \<le> waypoints_of E cs ok w x y z \<and> waypoints_of E cs ok w x y z \<le> 1000"
  by (auto simp: waypoints_of_def ground_value_def ground_types_def split: list.splits)

lemma filled_from_filled:
  assumes "ground_types E" "filled_from E cs ok w VX VY pos s" "1 \<le> VX" "VX \<le> 100" "1 \<le> VY" "VY \<le> 100"
  shows "filled s" "serrors s = []"
proof -
  let ?M = "{v. 0 < v \<and> (\<exists>u. visible s u \<and> WP s u = v)}"
  have W: "WP s u = - 1 \<or> 3 \<le> WP s u \<and> WP s u \<le> 1000" if "visible s u" for u
    using waypoints_range [OF assms(1)] assms(2) that by (simp add: filled_from_def)
  have f: "finite (insert 1000 ?M)" by (rule finite_subset [of _ "{0..1000}"]) (use W in force, simp)
  have m: "MinWaypoints s \<in> insert 1000 ?M" using Min_in [OF f] assms(2) by (simp add: filled_from_def)
  have "MinWaypoints s \<le> WP s u" if "visible s u" "WP s u \<noteq> - 1" for u
    using Min_le [OF f, of "WP s u"] W [OF that(1)] that assms(2) unfolding filled_from_def by force
  moreover have "3 \<le> MinWaypoints s" "MinWaypoints s \<le> 1000" using m W by force+
  ultimately show "filled s" using assms(2-6) W unfolding filled_def filled_from_def by force
  have "zero_report E cs w x y z = []" for x y z using assms(1)
    by (auto simp: zero_report_def ground_value_def ground_types_def split: list.splits if_splits)
  then show "serrors s = []" using assms(2) by (simp add: filled_from_def split_beta)
qed

text \<open>The constructor for the two versions of \<open>MovePossible\<close> above.\<close>

lemma shortway_new_versions:
  assumes "loaded_types E" "field_type E" "map_inv E w fs cs" "1 \<le> VX" "VX \<le> 100" "1 \<le> VY" "VY \<le> 100" "VX \<le> x" "VY \<le> y"
  shows "\<exists>s w'. TShortway_new E (\<lambda>x y z. TCreature_MovePossible E kind x y z False False) VX VY (x, y, z) w = Some (s, w')
      \<and> sim E fs cs w w' \<and> filled_from E cs (step_ok E cs w) w VX VY (x, y, z) s"
    "\<exists>s w'. TShortway_new E (\<lambda>x y z. TNPC_MovePossible E start Radius x y z False False) VX VY (x, y, z) w = Some (s, w')
      \<and> sim E fs cs w w' \<and> filled_from E cs (npc_step_ok E cs w start Radius) w VX VY (x, y, z) s"
  by (rule shortway_new_ok [OF assms]; rule reads_move_possible [OF assms(1-3)] reads_npc_move_possible [OF assms(1-3)]; assumption)+

section \<open>Properties\<close>

text \<open>
  C15: The constructor of \<open>TShortway\<close> returns and changes no object of the map, for a creature whose \<open>MovePossible\<close> only reads it. Every visible
  point has the waypoints of its ground when the creature may step there and \<open>- 1\<close> otherwise, the least waypoints are the least positive
  ones up to 1000, and every visible ground with zero waypoints has been reported and cannot be entered.
\<close>

theorem shortway_filled:
  assumes "loaded_types E" "field_type E" "map_inv E w fs cs"
    "1 \<le> VX" "VX \<le> 100" "1 \<le> VY" "VY \<le> 100" "VX \<le> x" "VY \<le> y"
    "\<And>a b. 0 \<le> a \<Longrightarrow> 0 \<le> b \<Longrightarrow> reads E fs cs w (MovePossible a b z) (ok a b z)"
  shows "\<exists>s w'. TShortway_new E MovePossible VX VY (x, y, z) w = Some (s, w') \<and> map_inv E w' fs cs \<and> objs w' = objs w
    \<and> filled_from E cs ok w VX VY (x, y, z) s"
  using shortway_new_ok [OF assms(1-9), of MovePossible z ok] assms(10) by (auto simp: sim_def)

text \<open>A map with one ground next to the creature.\<close>

lemma sample_ground_types: "ground_types sample_env"
proof -
  have "sint (5 :: u32) = 5" by code_simp
  then show ?thesis by (simp add: ground_types_def sample_env_def sample_type_def)
qed

lemma sample_step:
  assumes "field_objects w cs 6 9 7 = [n]" "type_in (objs w) n = 5" "ok 6 9 7"
  shows "waypoints_of sample_env cs ok w 6 9 7 = 5"
proof -
  have "sint (5 :: u32) = 5" by code_simp
  moreover have "TAttributes (ObjectTypes sample_env 5) ! 0 = 5" by (simp add: sample_env_def sample_type_def)
  ultimately have "ground_value sample_env cs w 6 9 7 = Some 5" using assms(1,2) sample_ground_flags by (simp add: ground_value_def)
  then show ?thesis using assms(3) by (simp add: waypoints_of_def)
qed

lemma sample_step_ok:
  assumes "field_objects w cs 6 9 7 = [n]" "type_in (objs w) n = 5"
  shows "step_ok sample_env cs w 6 9 7"
  using assms sample_ground_flags by (simp add: step_ok_def flag_on_def)

theorem shortway_filled_witness:
  "\<exists>w w' s. TShortway_new sample_env (\<lambda>x y z. TCreature_MovePossible sample_env (\<lambda>_. None) x y z False False) 2 2 (5, 9, 7) w = Some (s, w')
    \<and> filled s \<and> WP s (At 1 0) = 5"
proof -
  obtain w fs cs n where w: "map_inv sample_env w fs cs" "field_objects w cs 6 9 7 = [n]" "type_in (objs w) n = 5" using sample_ground by blast
  note reads = reads_move_possible [OF sample_loaded(1) sample_field_type w(1), of _ _ "\<lambda>_. None" 7]
  obtain s w' where s: "TShortway_new sample_env (\<lambda>x y z. TCreature_MovePossible sample_env (\<lambda>_. None) x y z False False) 2 2 (5, 9, 7) w = Some (s, w')"
    "filled_from sample_env cs (step_ok sample_env cs w) w 2 2 (5, 9, 7) s"
    using shortway_filled [OF sample_loaded(1) sample_field_type w(1), of 2 2 5 9 "\<lambda>x y z. TCreature_MovePossible sample_env (\<lambda>_. None) x y z False False" 7 "step_ok sample_env cs w"]
      reads by auto
  have "visible s (At 1 0)" using s(2) by (simp add: visible_def filled_from_def)
  then have "WP s (At 1 0) = 5" using s(2) sample_step [OF w(2,3)] sample_step_ok [OF w(2,3)] by (simp add: filled_from_def)
  moreover have "filled s" using filled_from_filled(1) [OF sample_ground_types s(2)] by simp
  ultimately show ?thesis using s(1) by (intro exI [of _ w] exI [of _ w'] exI [of _ s]) simp
qed

text \<open>
  C14: On a map whose visible fields have 3 to 1000 waypoints or cannot be entered, \<open>Calculate\<close> returns without an error message. It answers whether there is a way to the destination over the visible fields, and then
  gives the creature the first steps of a cheapest way: up to \<open>MaxSteps\<close>, and only until the destination is next to it when it
  need not be reached.
\<close>

theorem calculate_shortest:
  assumes "filled s" "d = At (DestX - StartX s) (DestY - StartY s)" "visible s d" "d \<noteq> origin"
  shows "\<exists>r gos s'. Calculate DestX DestY MustReach MaxSteps s = Some (r, gos, s') \<and> serrors s' = serrors s
    \<and> (r \<longleftrightarrow> (\<exists>us. is_way s d origin us))
    \<and> (if r then \<exists>us. is_way s d origin us \<and> (\<forall>us2. is_way s d origin us2 \<longrightarrow> way_cost s origin us \<le> way_cost s origin us2)
          \<and> gos = map (on_map_at s) (take (nat MaxSteps) (approach d MustReach origin us))
       else gos = [])"
  by (rule calculate_ok [OF assms])

theorem calculate_shortest_witness:
  "\<exists>(s :: TShortway) gos s'. Calculate 6 9 True 10 s = Some (True, gos, s') \<and> serrors s' = []"
proof -
  obtain w fs cs n where w: "map_inv sample_env w fs cs" using sample_ground by blast
  have v: "(1 :: int) \<le> 2" "(2 :: int) \<le> 100" "(2 :: int) \<le> 5" "(2 :: int) \<le> 9" by simp_all
  obtain s where f: "filled_from sample_env cs (\<lambda>_ _ _. True) w 2 2 (5, 9, 7) s"
    using shortway_new_ok [OF sample_loaded(1) sample_field_type w v(1,2,1,2,3,4), of "\<lambda>_ _ _ w. Some (True, w)" 7 "\<lambda>_ _ _. True"]
      reads_return [of sample_env fs cs w True] by blast
  have s: "filled s" "serrors s = []" "StartX s = 5" "StartY s = 9" "VisibleX s = 2" "VisibleY s = 2"
    using filled_from_filled [OF sample_ground_types f v(1,2,1,2)] f by (simp_all add: filled_from_def)
  have d: "At 1 0 = At (6 - StartX s) (9 - StartY s)" "visible s (At 1 0)" "At 1 0 \<noteq> origin" using s by (simp_all add: visible_def)
  have "is_way s (At 1 0) origin [At 1 0]" using d(2) by (simp add: adj_def)
  then have "\<exists>us. is_way s (At 1 0) origin us" by blast
  moreover obtain r gos s' where "Calculate 6 9 True 10 s = Some (r, gos, s')" "serrors s' = serrors s" "r \<longleftrightarrow> (\<exists>us. is_way s (At 1 0) origin us)"
    using calculate_shortest [OF s(1) d, of True 10] by blast
  ultimately show ?thesis using s(2) by (intro exI [of _ s] exI [of _ gos] exI [of _ s']) simp
qed

end
