(* ===== verification/Spec2Isabelle.thy ===== *)
theory Spec2Isabelle
  imports Utils Streams Xtea Ring_Buffer Priority_Queue Matrix Fifo Linked_List Cron
    String_Table Strings Skill_Timer Creature_Search Object_Claims Script_Roundtrip Shortway_Fill
begin

text \<open>
  A verification development for the Tibia 7.7 game server (C++, under \<open>src/src\<close>).

  \<^bold>\<open>The program.\<close> One thread runs the game in rounds: it executes what the creatures have to do, in
  the order of a priority queue of times, processes their skills and timers, lets objects
  expire (cron) and sends the changes to the clients. Network threads pass the packets of a connection
  through a lock-free ring buffer; packets are decrypted with XTEA and decoded with byte streams. Texts
  of objects live in string tables. All of this stands on a small library of containers.

  \<^bold>\<open>Theories.\<close>
  \<^item> \<open>Prelude\<close>: integer types, checked arrays, C strings, sum-type exceptions, shared lemmas.
  \<^item> \<open>Utils\<close> (\<open>common/utils\<close>) and \<open>Strings\<close>, \<open>String_Table\<close> (\<open>common/strings\<close>): characters and text
    functions, bit sets; the static and dynamic string tables as lists of blocks.
  \<^item> \<open>Streams\<close> (\<open>common/read_stream\<close>, \<open>common/write_stream\<close>, \<open>common/dynamic_buffer\<close>,
    \<open>common/byte_order\<close>): abstract streams as records of their virtual functions; locales
    \<open>byte_sink\<close> and \<open>byte_source\<close> with the string encoding proved once, interpreted for every buffer.
  \<^item> \<open>Xtea\<close> (\<open>crypto/xtea\<close>): the block cipher on 32-bit words.
  \<^item> \<open>Ring_Buffer\<close> (\<open>common/spsc_ring_buffer\<close>): the sequential operations and a step relation that
    interleaves the atomic steps of both threads.
  \<^item> \<open>Vector\<close>, \<open>Priority_Queue\<close>, \<open>Matrix\<close>, \<open>Fifo\<close>, \<open>Linked_List\<close> (\<open>common/containers\<close>): each container
    with its invariant and an abstraction (function on indices, multiset, list), stated as locales
    \<open>index_array\<close>, \<open>min_queue\<close>, \<open>list_queue\<close>; \<open>Heap_Order\<close> and \<open>Chain\<close> hold the facts on binary heaps and
    doubly linked chains that several of them share.
  \<^item> \<open>Cron\<close> (\<open>game_data/map/map.cpp\<close>): a binary heap in an array whose entries are linked into hash
    chains by position, as one invariant; a step relation of all calls.
  \<^item> \<open>Skill\<close>, \<open>Skill_Timer\<close> (\<open>creature/skill\<close>): the skill classes with virtual dispatch over a heap of
    objects, experience and levels; the timers and the container \<open>SkillBase\<close>.
  \<^item> \<open>Creature_List\<close>, \<open>Creature_Search\<close> (\<open>creature/creature_main\<close>): the hash table of creature numbers, with
    the locale \<open>registry\<close> for what its users rely on; the array of all creatures as a list; the chains of
    creatures per map block, and the search of a rectangle.
  \<^item> \<open>Object_Type\<close> (\<open>game_data/objects\<close>): flags and attributes of object types, and the offsets at which objects keep their
    attributes.
  \<^item> \<open>Object_Store\<close> (\<open>game_data/map/map.cpp\<close>): the memory cells of all objects with the list of the free ones, the table that
    finds an object by its number, creating and freeing; \<open>obj\<close> is the object behind a number.
  \<^item> \<open>Object_Tree\<close>, \<open>Object_Ops\<close> (\<open>game_data/map/map.cpp\<close>): containers as chains through their objects, and the operations on
    whole objects, which also call the cron system and the string table.
  \<^item> \<open>Object_World\<close>, \<open>Object_New\<close>, \<open>Object_Change\<close>, \<open>Object_Claims\<close>: one invariant over the store, the contents of all containers
    and their nesting, the timers and the strings; every operation on objects keeps it.
  \<^item> \<open>Map_Field\<close>, \<open>Map_Claims\<close> (\<open>game_data/map/map.cpp\<close>): the matrix of sectors with their fields over the object store, the
    coordinates, flags and house of a field, depots and marks; the invariant \<open>map_inv\<close> ties every coordinate to its field.
  \<^item> \<open>Spiral\<close> (\<open>game_data/info/info.cpp\<close>): the spiral of offsets that the searches for fields follow; the locale \<open>field_test\<close> states
    what a test of a field must promise and gives that the search finds a nearest field.
  \<^item> \<open>Field_Query\<close>, \<open>Field_Claims\<close> (\<open>game_data/info/info.cpp\<close>): queries on fields, free, login and summon fields, lines of throw; \<open>reads\<close>
    says that an operation gives a value and changes time stamps of sectors only.
  \<^item> \<open>Shortway\<close>, \<open>Shortway_Search\<close>, \<open>Shortway_Ways\<close>, \<open>Shortway_Fill\<close> (\<open>creature/actions/actions.cpp\<close>): the path finder over the fields around
    a creature: the list of points to expand, linked through the points and sorted, as a queue; the invariant of the search, which ends and
    never loses a point of the list; cheapest ways; the waypoints of the fields from the map.
  \<^item> \<open>Script\<close>, \<open>Script_Roundtrip\<close> (\<open>game_data/script\<close>): the tokenizer of the data files with included files, which always ends, and the
    writer, whose output the typed reads give back.

  \<^bold>\<open>State and errors.\<close> A struct is a record, an array a list, a pointer an index or an address of a
  heap. An operation that the code leaves without defined behaviour at some point (an access
  outside an array, \<open>NULL\<close>, a failed \<open>ASSERT\<close>, an endless loop) is a partial one with result \<open>None\<close> there; thrown
  exceptions are \<open>Inl\<close> values; \<open>error(...)\<close> is a flag or an entry of a trace. Claims that
  an operation is safe therefore say that it gives \<open>Some\<close>.

  \<^bold>\<open>Loops.\<close> Loops over data are structural recursions. The loops that a bad state makes endless
  (growing a vector, heap sifting, hash chains, level loops, timers, the search for a way) are partial functions in the option type;
  that they return on well-formed states is proved, no fuel is involved. Draining a queue takes its
  number of entries.

  \<^bold>\<open>Integers.\<close> Unsigned types are words. \<open>int\<close> is unbounded; where its range matters it is checked
  (experience of skills, the interpolation of \<open>throw_possible\<close>) or bounded by a lemma.

  \<^bold>\<open>Parameters.\<close> What belongs to components that are not modelled is an argument: properties of
  objects in \<open>Cron\<close> (\<open>Object_Ops\<close> gives them from the object store), swapping sectors in \<open>Object_Store\<close>, the files behind names in \<open>Script\<close>, the kinds of creatures in \<open>Field_Query\<close>, the virtual function \<open>MovePossible\<close> in \<open>Shortway_Fill\<close>, fresh memory in the buffers and containers, \<open>pow\<close> and \<open>TCreature::Damage\<close> in the
  skills, random numbers. \<open>Damage\<close> itself can set timers while the timers are processed; where a theorem needs that it does not, the
  condition \<open>quiet_damage\<close> says so for the creature at hand, and \<open>invisible_skips_timer\<close> shows what happens otherwise. The path finder is
  proved for any \<open>MovePossible\<close> that only reads the map; those of \<open>TCreature\<close> and \<open>TNPC\<close> are modelled and do. That grounds have 3 to 1000
  waypoints (\<open>ground_types\<close>) is an assumption on the type file, used for the cheapest ways only.

  \<^bold>\<open>Not modelled.\<close> Map files and swapping of sectors, spells, use rules, houses, players, monsters and
  NPCs, combat, the protocol, the database client, files and threads.
\<close>

end
